(* ===== verification/FlairPrelude.thy ===== *)
theory FlairPrelude
  imports Complex_Main "HOL-Library.AList" "HOL-Library.List_Lexorder" "HOL-Library.Char_ord"
begin

text \<open>
  Shared vocabulary of the development: JavaScript numbers and dynamic values, the string
  functions of the JavaScript standard library that the modelled code calls, objects and
  \<open>Map\<close>s as insertion-ordered association lists, HTTP responses, and generic lemmas.

  Conventions used by every theory:
  \<^item> A string is a list of UTF-16 code units below 256, so \<open>char\<close> order is the code-unit order
    that JavaScript's \<open><\<close> uses and \<open>length\<close> is JavaScript's \<open>length\<close>.
  \<^item> A finite number is its exact rational value: no operation of the modelled code rounds on
    the integers it is applied to (counters, millisecond clocks, sizes).
  \<^item> An object or a \<open>Map\<close> is an association list in insertion order: \<open>AList.update\<close> keeps the
    place of a present key and appends a new one, as a property assignment and \<open>Map.set\<close> do.
\<close>

section \<open>Numbers\<close>

datatype jnum = Fin rat | NaN | PInf | NInf

text \<open>\<open>Number.isFinite\<close> and \<open>Number.isInteger\<close>.\<close>

fun is_finite :: "jnum \<Rightarrow> bool" where
  "is_finite (Fin q) = True"
| "is_finite _ = False"

fun is_integer :: "jnum \<Rightarrow> bool" where
  "is_integer (Fin q) = (of_int \<lfloor>q\<rfloor> = q)"
| "is_integer _ = False"

fun int_of_jnum :: "jnum \<Rightarrow> int" where
  "int_of_jnum (Fin q) = \<lfloor>q\<rfloor>"
| "int_of_jnum _ = 0"

text \<open>The relational operators: every comparison with \<open>NaN\<close> is false.\<close>

fun jlt :: "jnum \<Rightarrow> jnum \<Rightarrow> bool" where
  "jlt (Fin a) (Fin b) = (a < b)"
| "jlt (Fin a) PInf = True"
| "jlt NInf (Fin b) = True"
| "jlt NInf PInf = True"
| "jlt _ _ = False"

fun jle :: "jnum \<Rightarrow> jnum \<Rightarrow> bool" where
  "jle (Fin a) (Fin b) = (a \<le> b)"
| "jle (Fin a) PInf = True"
| "jle NInf (Fin b) = True"
| "jle NInf PInf = True"
| "jle PInf PInf = True"
| "jle NInf NInf = True"
| "jle _ _ = False"

text \<open>Addition, negation and subtraction.\<close>

fun jadd :: "jnum \<Rightarrow> jnum \<Rightarrow> jnum" where
  "jadd (Fin a) (Fin b) = Fin (a + b)"
| "jadd NaN _ = NaN"
| "jadd _ NaN = NaN"
| "jadd PInf NInf = NaN"
| "jadd NInf PInf = NaN"
| "jadd PInf _ = PInf"
| "jadd _ PInf = PInf"
| "jadd NInf _ = NInf"
| "jadd _ NInf = NInf"

fun jneg :: "jnum \<Rightarrow> jnum" where
  "jneg (Fin a) = Fin (- a)"
| "jneg PInf = NInf"
| "jneg NInf = PInf"
| "jneg NaN = NaN"

definition jsub :: "jnum \<Rightarrow> jnum \<Rightarrow> jnum" where
  "jsub a b = jadd a (jneg b)"

text \<open>\<open>Math.max\<close> of two numbers: \<open>NaN\<close> is contagious.\<close>

definition jmax :: "jnum \<Rightarrow> jnum \<Rightarrow> jnum" where
  "jmax a b = (if a = NaN \<or> b = NaN then NaN else if jlt a b then b else a)"

abbreviation jint :: "int \<Rightarrow> jnum" where
  "jint i \<equiv> Fin (of_int i)"

lemma jle_jint [simp]: "jle (jint a) (jint b) \<longleftrightarrow> a \<le> b"
  by simp

lemma jsub_jint [simp]: "jsub (jint a) (jint b) = jint (a - b)"
  by (simp add: jsub_def)

lemma is_integer_jint [simp]: "is_integer (jint a)"
  by simp

lemma rat_le_int_nat [simp]:
  "rat_of_int a \<le> rat_of_nat n \<longleftrightarrow> a \<le> int n" "rat_of_nat n \<le> rat_of_int a \<longleftrightarrow> int n \<le> a"
  "rat_of_int a < rat_of_nat n \<longleftrightarrow> a < int n" "rat_of_nat n < rat_of_int a \<longleftrightarrow> int n < a"
  by (metis of_int_le_iff of_int_less_iff of_int_of_nat_eq)+

lemma is_integerE: assumes "is_integer n" obtains i where "n = jint i"
  using assms by (cases n) (auto dest: sym)

section \<open>Dynamic values\<close>

text \<open>
  A value of TypeScript type \<open>unknown\<close> or \<open>any\<close>. Object identity is not modelled: the
  modelled code compares objects only with strings, \<open>null\<close> and \<open>undefined\<close>.
\<close>

datatype js =
    Undef
  | Null
  | Bool bool
  | Num jnum
  | Str string
  | Arr "js list"
  | Obj "(string \<times> js) list"

fun truthy :: "js \<Rightarrow> bool" where
  "truthy Undef = False"
| "truthy Null = False"
| "truthy (Bool b) = b"
| "truthy (Num n) = (n \<noteq> NaN \<and> n \<noteq> Fin 0)"
| "truthy (Str s) = (s \<noteq> [])"
| "truthy (Arr _) = True"
| "truthy (Obj _) = True"

text \<open>\<open>v == null\<close>: null or undefined.\<close>

definition nullish :: "js \<Rightarrow> bool" where
  "nullish v \<longleftrightarrow> v = Undef \<or> v = Null"

text \<open>\<open>a ?? b\<close>\<close>

definition coalesce :: "js \<Rightarrow> js \<Rightarrow> js" where
  "coalesce a b = (if nullish a then b else a)"

text \<open>\<open>a === b\<close>: \<open>NaN\<close> differs from itself; two object values are distinct references.\<close>

fun strict_eq :: "js \<Rightarrow> js \<Rightarrow> bool" where
  "strict_eq (Num a) (Num b) = (a = b \<and> a \<noteq> NaN)"
| "strict_eq (Arr _) _ = False"
| "strict_eq (Obj _) _ = False"
| "strict_eq a b = (a = b)"

lemma strict_eq_Str [simp]: "strict_eq (Str a) b \<longleftrightarrow> b = Str a" "strict_eq b (Str a) \<longleftrightarrow> b = Str a"
  by (cases b; auto)+

lemma strict_eq_imp: "strict_eq a b \<Longrightarrow> a = b"
  by (cases a; cases b) simp_all

lemma nullish_simps [simp]: "nullish Undef" "nullish Null" "\<not> nullish (Str s)" "\<not> nullish (Bool b)"
  "\<not> nullish (Num n)" "\<not> nullish (Arr xs)" "\<not> nullish (Obj kvs)"
  by (simp_all add: nullish_def)

section \<open>Objects and maps\<close>

type_synonym jobj = "(string \<times> js) list"

text \<open>\<open>o[k]\<close> of a plain object, own properties only.\<close>

definition getp :: "jobj \<Rightarrow> string \<Rightarrow> js" where
  "getp ob k = (case map_of ob k of None \<Rightarrow> Undef | Some v \<Rightarrow> v)"

text \<open>The inherited names of a plain object, for lookups that do not check own properties.\<close>

definition object_prototype_names :: "string list" where
  "object_prototype_names = [''constructor'', ''__proto__'', ''toString'', ''toLocaleString'',
     ''valueOf'', ''hasOwnProperty'', ''isPrototypeOf'', ''propertyIsEnumerable'',
     ''__defineGetter__'', ''__defineSetter__'', ''__lookupGetter__'', ''__lookupSetter__'']"

lemma getp_update [simp]: "getp (AList.update k v ob) k' = (if k' = k then v else getp ob k')"
  by (simp add: getp_def update_conv')

lemma getp_delete [simp]: "getp (AList.delete k ob) k' = (if k' = k then Undef else getp ob k')"
  by (simp add: getp_def delete_conv')

lemma getp_Nil [simp]: "getp [] k = Undef"
  by (simp add: getp_def)

lemma getp_Cons [simp]: "getp ((k, v) # ob) k' = (if k' = k then v else getp ob k')"
  by (simp add: getp_def)

lemma length_filter_mono:
  "(\<And>x. x \<in> set xs \<Longrightarrow> P x \<Longrightarrow> Q x) \<Longrightarrow> length (filter P xs) \<le> length (filter Q xs)"
  by (induction xs) auto

lemma length_update_present: "map_of m k \<noteq> None \<Longrightarrow> length (AList.update k v m) = length m"
  by (induction m) auto

lemma update_absent: "k \<notin> fst ` set m \<Longrightarrow> AList.update k v m = m @ [(k, v)]"
  by (induction m) auto

lemma delete_then_update: "AList.update k v (AList.delete k m) = AList.delete k m @ [(k, v)]"
  by (rule update_absent) (auto simp: AList.delete_eq)

lemma fst_set_delete [simp]: "fst ` set (AList.delete k m) = fst ` set m - {k}"
  by (induction m) auto

lemma fst_set_update [simp]: "fst ` set (AList.update k v m) = insert k (fst ` set m)"
  by (induction m) auto

lemma distinct_delete [simp]: "distinct (map fst m) \<Longrightarrow> distinct (map fst (AList.delete k m))"
  by (rule AList.distinct_delete)

lemma distinct_upd [simp]: "distinct (map fst m) \<Longrightarrow> distinct (map fst (AList.update k v m))"
  by (rule distinct_update)

section \<open>Strings of the standard library\<close>

definition code :: "char \<Rightarrow> nat" where
  "code c = of_char c"

definition is_white :: "char \<Rightarrow> bool" where
  "is_white c \<longleftrightarrow> (9 \<le> code c \<and> code c \<le> 13) \<or> code c = 32 \<or> code c = 160"

definition js_trim :: "string \<Rightarrow> string" where
  "js_trim s = rev (dropWhile is_white (rev (dropWhile is_white s)))"

definition lower_char :: "char \<Rightarrow> char" where
  "lower_char c =
     (if (65 \<le> code c \<and> code c \<le> 90) \<or> (192 \<le> code c \<and> code c \<le> 222 \<and> code c \<noteq> 215)
      then char_of (code c + 32) else c)"

definition js_lower :: "string \<Rightarrow> string" where
  "js_lower s = map lower_char s"

text \<open>\<open>s.split(c)\<close> for a one-character separator: always at least one piece.\<close>

fun split_on :: "char \<Rightarrow> string \<Rightarrow> string list" where
  "split_on c [] = [[]]"
| "split_on c (x # xs) =
     (if x = c then [] # split_on c xs
      else (case split_on c xs of [] \<Rightarrow> [[x]] | p # ps \<Rightarrow> (x # p) # ps))"

text \<open>\<open>parts.join(sep)\<close>\<close>

fun join_with :: "string \<Rightarrow> string list \<Rightarrow> string" where
  "join_with sep [] = []"
| "join_with sep [p] = p"
| "join_with sep (p # ps) = p @ sep @ join_with sep ps"

definition starts_with :: "string \<Rightarrow> string \<Rightarrow> bool" where
  "starts_with pre s \<longleftrightarrow> take (length pre) s = pre"

text \<open>\<open>s.indexOf(c)\<close> as an option.\<close>

fun index_of_char :: "char \<Rightarrow> string \<Rightarrow> nat option" where
  "index_of_char c [] = None"
| "index_of_char c (x # xs) = (if x = c then Some 0 else map_option Suc (index_of_char c xs))"

lemma split_on_nonempty [simp]: "split_on c s \<noteq> []"
  by (induction s) (auto split: list.splits)

lemma split_on_notin: "p \<in> set (split_on c s) \<Longrightarrow> c \<notin> set p"
  by (induction s arbitrary: p) (auto split: list.splits if_splits)

lemma split_on_no_sep: "c \<notin> set s \<Longrightarrow> split_on c s = [s]"
  by (induction s) auto

lemma split_on_append_sep: "split_on c (a @ c # b) = split_on c a @ split_on c b"
proof (induction a)
  case (Cons x a)
  then show ?case by (cases "split_on c a") (auto split: list.splits)
qed simp

lemma index_of_char_Some:
  "index_of_char c s = Some i \<longleftrightarrow> i < length s \<and> s ! i = c \<and> c \<notin> set (take i s)"
proof (induction s arbitrary: i)
  case (Cons x s)
  then show ?case by (cases i) auto
qed simp

lemma index_of_char_None: "index_of_char c s = None \<longleftrightarrow> c \<notin> set s"
  by (induction s) auto

section \<open>Numeric strings\<close>

definition is_digit :: "char \<Rightarrow> bool" where
  "is_digit c \<longleftrightarrow> 48 \<le> code c \<and> code c \<le> 57"

text \<open>The value of a digit in bases up to 16, if it is one.\<close>

definition digit_val :: "char \<Rightarrow> nat option" where
  "digit_val c =
     (if 48 \<le> code c \<and> code c \<le> 57 then Some (code c - 48)
      else if 65 \<le> code c \<and> code c \<le> 70 then Some (code c - 55)
      else if 97 \<le> code c \<and> code c \<le> 102 then Some (code c - 87)
      else None)"

fun digits_in :: "nat \<Rightarrow> nat \<Rightarrow> string \<Rightarrow> nat option" where
  "digits_in b acc [] = Some acc"
| "digits_in b acc (c # cs) =
     (case digit_val c of None \<Rightarrow> None
      | Some d \<Rightarrow> if d < b then digits_in b (acc * b + d) cs else None)"

text \<open>An unsigned decimal literal without exponent: digits with at most one point.\<close>

definition mantissa :: "string \<Rightarrow> rat option" where
  "mantissa s =
     (let ip = takeWhile is_digit s; r = dropWhile is_digit s in
      case r of
        [] \<Rightarrow> if ip = [] then None else map_option of_nat (digits_in 10 0 ip)
      | c # fp \<Rightarrow>
          if c = CHR ''.'' \<and> (ip \<noteq> [] \<or> fp \<noteq> []) \<and> list_all is_digit fp
          then map_option (\<lambda>n. of_nat n / of_nat (10 ^ length fp)) (digits_in 10 0 (ip @ fp))
          else None)"

definition exponent :: "string \<Rightarrow> int option" where
  "exponent s =
     (case s of [] \<Rightarrow> None
      | c # cs \<Rightarrow>
          let neg = (c = CHR ''-''); ds = (if c = CHR ''-'' \<or> c = CHR ''+'' then cs else s) in
          if ds = [] then None
          else map_option (\<lambda>n. if neg then - int n else int n) (digits_in 10 0 ds))"

definition pow10 :: "int \<Rightarrow> rat" where
  "pow10 e = (if 0 \<le> e then of_nat (10 ^ nat e) else 1 / of_nat (10 ^ nat (- e)))"

definition decimal_literal :: "string \<Rightarrow> rat option" where
  "decimal_literal s =
     (let m = takeWhile (\<lambda>c. c \<noteq> CHR ''e'' \<and> c \<noteq> CHR ''E'') s;
          r = dropWhile (\<lambda>c. c \<noteq> CHR ''e'' \<and> c \<noteq> CHR ''E'') s in
      case mantissa m of None \<Rightarrow> None
      | Some q \<Rightarrow>
          (case r of [] \<Rightarrow> Some q
           | c # es \<Rightarrow> map_option (\<lambda>e. q * pow10 e) (exponent es)))"

text \<open>
  \<open>Number(s)\<close>: the whole trimmed string must be a numeric literal; the empty string is 0. The
  result is the literal's exact value; literals with more digits than a double holds are not
  rounded.
\<close>

definition js_Number :: "string \<Rightarrow> jnum" where
  "js_Number s =
     (let t = js_trim s;
          radix = (\<lambda>b ds. if ds = [] then NaN
                          else case digits_in b 0 ds of None \<Rightarrow> NaN | Some n \<Rightarrow> Fin (of_nat n)) in
      if t = [] then Fin 0
      else if take 2 t = ''0x'' \<or> take 2 t = ''0X'' then radix 16 (drop 2 t)
      else if take 2 t = ''0o'' \<or> take 2 t = ''0O'' then radix 8 (drop 2 t)
      else if take 2 t = ''0b'' \<or> take 2 t = ''0B'' then radix 2 (drop 2 t)
      else
        let neg = (hd t = CHR ''-''); u = (if hd t = CHR ''-'' \<or> hd t = CHR ''+'' then tl t else t) in
        if u = ''Infinity'' then (if neg then NInf else PInf)
        else case decimal_literal u of None \<Rightarrow> NaN
             | Some q \<Rightarrow> Fin (if neg then - q else q))"

text \<open>\<open>String(n)\<close> of an integer: its decimal digits.\<close>

fun nat_digits :: "nat \<Rightarrow> string" where
  "nat_digits n =
     (if n < 10 then [char_of (n + 48)] else nat_digits (n div 10) @ [char_of (n mod 10 + 48)])"

declare nat_digits.simps [simp del]

definition int_string :: "int \<Rightarrow> string" where
  "int_string i = (if i < 0 then CHR ''-'' # nat_digits (nat (- i)) else nat_digits (nat i))"

text \<open>
  \<open>String(n)\<close>: the shortest decimal text of the number, with an exponent outside
  \<open>10^-7 .. 10^21\<close>. The digit count after the point is searched up to 400, more than any
  number the code is given needs.
\<close>

fun frac_digits :: "nat \<Rightarrow> nat \<Rightarrow> rat \<Rightarrow> nat" where
  "frac_digits 0 m q = m"
| "frac_digits (Suc k) m q =
     (if is_integer (Fin (q * 10 ^ m)) then m else frac_digits k (Suc m) q)"

definition js_num_string :: "jnum \<Rightarrow> string" where
  "js_num_string n =
     (case n of NaN \<Rightarrow> ''NaN'' | PInf \<Rightarrow> ''Infinity'' | NInf \<Rightarrow> ''-Infinity''
      | Fin q \<Rightarrow>
          if q = 0 then ''0'' else
          let a = \<bar>q\<bar>; m = frac_digits 400 0 a; ds0 = nat_digits (nat \<lfloor>a * 10 ^ m\<rfloor>);
              ds = rev (dropWhile (\<lambda>c. c = CHR ''0'') (rev ds0));
              k = int (length ds); e = int (length ds0) - int m;
              x = e - 1;
              txt =
                (if k \<le> e \<and> e \<le> 21 then ds @ replicate (nat (e - k)) (CHR ''0'')
                 else if 0 < e \<and> e \<le> 21 then take (nat e) ds @ ''.'' @ drop (nat e) ds
                 else if -6 < e \<and> e \<le> 0 then ''0.'' @ replicate (nat (- e)) (CHR ''0'') @ ds
                 else [hd ds] @ (if k = 1 then [] else ''.'' @ tl ds) @ ''e'' @
                      (if x < 0 then ''-'' else ''+'') @ nat_digits (nat \<bar>x\<bar>))
          in if q < 0 then ''-'' @ txt else txt)"

text \<open>\<open>String(v)\<close>; an object has the inherited \<open>toString\<close>.\<close>

fun js_String :: "js \<Rightarrow> string" where
  "js_String Undef = ''undefined''"
| "js_String Null = ''null''"
| "js_String (Bool b) = (if b then ''true'' else ''false'')"
| "js_String (Num n) = js_num_string n"
| "js_String (Str s) = s"
| "js_String (Arr vs) = join_with '','' (map (\<lambda>v. if nullish v then [] else js_String v) vs)"
| "js_String (Obj kvs) = ''[object Object]''"

text \<open>\<open>v[k]\<close> of any value but \<open>null\<close> and \<open>undefined\<close>, for a name no primitive and no array has.\<close>

fun field :: "js \<Rightarrow> string \<Rightarrow> js" where
  "field (Obj kvs) k = getp kvs k"
| "field _ k = Undef"

text \<open>\<open>Object.prototype.hasOwnProperty.call(v, k)\<close>, for the same names.\<close>

fun has_own :: "js \<Rightarrow> string \<Rightarrow> bool" where
  "has_own (Obj kvs) k = (map_of kvs k \<noteq> None)"
| "has_own _ k = False"

text \<open>\<open>typeof v === "object"\<close> of a value that is not \<open>null\<close>.\<close>

fun is_object :: "js \<Rightarrow> bool" where
  "is_object (Obj _) = True"
| "is_object (Arr _) = True"
| "is_object _ = False"

text \<open>\<open>{...ob, k: v, ...}\<close>\<close>

definition spread :: "jobj \<Rightarrow> (string \<times> js) list \<Rightarrow> jobj" where
  "spread ob kvs = fold (\<lambda>(k, v) acc. AList.update k v acc) kvs ob"

text \<open>The object of the given entries, those with an absent or \<open>null\<close> value left out.\<close>

definition pick :: "jobj \<Rightarrow> string list \<Rightarrow> jobj" where
  "pick ob fields = map (\<lambda>f. (f, getp ob f)) (filter (\<lambda>f. \<not> nullish (getp ob f)) fields)"

text \<open>
  \<open>xs.sort(cmp)\<close>, where \<open>le x y\<close> says that \<open>cmp(x, y)\<close> is not positive: the stable sort.
\<close>

fun insert_by :: "('a \<Rightarrow> 'a \<Rightarrow> bool) \<Rightarrow> 'a \<Rightarrow> 'a list \<Rightarrow> 'a list" where
  "insert_by le x [] = [x]"
| "insert_by le x (y # ys) = (if le x y then x # y # ys else y # insert_by le x ys)"

definition sort_by :: "('a \<Rightarrow> 'a \<Rightarrow> bool) \<Rightarrow> 'a list \<Rightarrow> 'a list" where
  "sort_by le xs = foldr (insert_by le) xs []"

lemma set_insert_by [simp]: "set (insert_by le x ys) = insert x (set ys)"
  by (induction ys) auto

lemma set_sort_by [simp]: "set (sort_by le xs) = set xs"
  by (induction xs) (auto simp: sort_by_def)

lemma length_sort_by [simp]: "length (sort_by le xs) = length xs"
proof -
  have "length (insert_by le x ys) = Suc (length ys)" for x and ys :: "'a list"
    by (induction ys) auto
  then show ?thesis by (induction xs) (auto simp: sort_by_def)
qed

section \<open>HTTP responses\<close>

record response =
  status :: nat
  body :: js
  headers :: "(string \<times> string) list"

definition json_response :: "nat \<Rightarrow> js \<Rightarrow> response" where
  "json_response st b = \<lparr>status = st, body = b, headers = [(''Content-Type'', ''application/json'')]\<rparr>"

lemma status_json_response [simp]: "status (json_response st b) = st"
  by (simp add: json_response_def)

text \<open>
  The verdict on a request's caller (\<open>AgentAuthVerdict\<close> of \<open>resources/agent-auth.ts\<close>): a trusted
  in-process call, a verified agent, or an unauthenticated request. How a verdict is reached is not
  modelled.
\<close>

datatype auth_verdict = Internal | Agent (caller_id: string) (caller_admin: bool) | Anonymous

end
