(* ===== verification/RateLimit.thy ===== *)
theory RateLimit
  imports FlairPrelude
begin

text \<open>
  The fixed-window limiter of the OAuth and MCP surfaces (\<open>resources/rate-limit.ts\<close>). The module
  state is the set of one-shot warnings and the LRU-ordered bucket map; the environment and the
  clock are arguments. The text that \<open>warnOnce\<close> prints is console output and not modelled, the
  tag it remembers is.
\<close>

section \<open>State and configuration\<close>

record bucket =
  windowStart :: int
  bcount :: int

type_synonym bucket_map = "(string \<times> bucket) list"

record rl_state =
  warned :: "string list"
  buckets :: bucket_map

type_synonym env = "string \<Rightarrow> string option"

definition env_or_empty :: "env \<Rightarrow> string \<Rightarrow> string" where
  "env_or_empty env name = (case env name of None \<Rightarrow> [] | Some v \<Rightarrow> v)"

definition warnOnce :: "string \<Rightarrow> rl_state \<Rightarrow> rl_state" where
  "warnOnce tag st = (if tag \<in> set (warned st) then st else st\<lparr>warned := warned st @ [tag]\<rparr>)"

definition rateLimitEnabled :: "env \<Rightarrow> rl_state \<Rightarrow> bool \<times> rl_state" where
  "rateLimitEnabled env st =
     (let raw = js_lower (js_trim (env_or_empty env ''FLAIR_RATE_LIMIT'')) in
      if raw = [] then (True, st)
      else if raw = ''off'' \<or> raw = ''0'' \<or> raw = ''false'' \<or> raw = ''no''
        then (False, warnOnce ''disabled'' st)
      else if raw = ''on'' \<or> raw = ''1'' \<or> raw = ''true'' \<or> raw = ''yes'' then (True, st)
      else (True, warnOnce ''bad-master'' st))"

definition envLimit :: "env \<Rightarrow> string \<Rightarrow> int \<Rightarrow> rl_state \<Rightarrow> int \<times> rl_state" where
  "envLimit env name dflt st =
     (let raw = js_trim (env_or_empty env name) in
      if raw = [] then (dflt, st)
      else let n = js_Number raw in
        if \<not> is_integer n \<or> jle n (Fin 0) then (dflt, warnOnce (''bad-limit:'' @ name) st)
        else (int_of_jnum n, st))"

record policy =
  pbucket :: string
  plimit :: int
  windowMs :: int

datatype policy_kind = Oauth | Register | Mcp

fun policyFor :: "env \<Rightarrow> policy_kind \<Rightarrow> rl_state \<Rightarrow> policy \<times> rl_state" where
  "policyFor env Register st =
     (let (l, st') = envLimit env ''FLAIR_OAUTH_REGISTER_RATE_LIMIT'' 5 st in
      (\<lparr>pbucket = ''register'', plimit = l, windowMs = 300000\<rparr>, st'))"
| "policyFor env Mcp st =
     (let (l, st') = envLimit env ''FLAIR_MCP_RATE_LIMIT'' 120 st in
      (\<lparr>pbucket = ''mcp'', plimit = l, windowMs = 60000\<rparr>, st'))"
| "policyFor env Oauth st =
     (let (l, st') = envLimit env ''FLAIR_OAUTH_RATE_LIMIT'' 30 st in
      (\<lparr>pbucket = ''oauth'', plimit = l, windowMs = 60000\<rparr>, st'))"

definition PATH_POLICY :: "(string \<times> policy_kind) list" where
  "PATH_POLICY =
     [(''/OAuthToken'', Oauth), (''/OAuthAuthorize'', Oauth), (''/OAuthRevoke'', Oauth),
      (''/OAuthRegister'', Register)]"

text \<open>
  The lookup \<open>PATH_POLICY[pathname]\<close> also finds inherited object properties; such a value is
  truthy and falls into the \<open>default\<close> branch of \<open>policyFor\<close>.
\<close>

definition policyForPath :: "env \<Rightarrow> string \<Rightarrow> rl_state \<Rightarrow> policy option \<times> rl_state" where
  "policyForPath env pathname st =
     (case map_of PATH_POLICY pathname of
        Some kind \<Rightarrow> (let (p, st') = policyFor env kind st in (Some p, st'))
      | None \<Rightarrow>
          if pathname \<in> set object_prototype_names
          then (let (p, st') = policyFor env Oauth st in (Some p, st'))
          else (None, st))"

section \<open>The counter\<close>

definition MAX_TRACKED_KEYS :: nat where
  "MAX_TRACKED_KEYS = 20000"

record decision =
  limited :: bool
  dlimit :: int
  retryAfterSec :: int

fun evict_expired :: "int \<Rightarrow> int \<Rightarrow> bucket_map \<Rightarrow> bucket_map \<Rightarrow> bucket_map" where
  "evict_expired now w [] m = m"
| "evict_expired now w ((k, b) # es) m =
     (if length m \<le> MAX_TRACKED_KEYS then m
      else if now - windowStart b \<ge> w then evict_expired now w es (AList.delete k m)
      else evict_expired now w es m)"

fun evict_front :: "string list \<Rightarrow> bucket_map \<Rightarrow> bucket_map" where
  "evict_front [] m = m"
| "evict_front (k # ks) m =
     (if length m \<le> MAX_TRACKED_KEYS then m else evict_front ks (AList.delete k m))"

definition evictOldest :: "int \<Rightarrow> int \<Rightarrow> bucket_map \<Rightarrow> bucket_map" where
  "evictOldest now w m = (let m' = evict_expired now w m m in evict_front (map fst m') m')"

text \<open>\<open>Math.ceil(n / 1000)\<close> of an integer.\<close>

definition ceil_sec :: "int \<Rightarrow> int" where
  "ceil_sec n = - ((- n) div 1000)"

definition next_bucket :: "bucket option \<Rightarrow> policy \<Rightarrow> int \<Rightarrow> bucket" where
  "next_bucket existing pol now =
     (case existing of
        None \<Rightarrow> \<lparr>windowStart = now, bcount = 1\<rparr>
      | Some b \<Rightarrow>
          if now - windowStart b \<ge> windowMs pol then \<lparr>windowStart = now, bcount = 1\<rparr>
          else \<lparr>windowStart = windowStart b, bcount = bcount b + 1\<rparr>)"

definition consume :: "string \<Rightarrow> policy \<Rightarrow> int \<Rightarrow> bucket_map \<Rightarrow> decision \<times> bucket_map" where
  "consume key pol now m =
     (let b = next_bucket (map_of m key) pol now;
          m1 = AList.update key b (AList.delete key m);
          m2 = (if length m1 > MAX_TRACKED_KEYS then evictOldest now (windowMs pol) m1 else m1);
          elapsed = now - windowStart b in
      (\<lparr>limited = bcount b > plimit pol, dlimit = plimit pol,
        retryAfterSec = max 1 (ceil_sec (windowMs pol - elapsed))\<rparr>, m2))"

section \<open>Caller identity\<close>

definition trustedProxyHops :: "env \<Rightarrow> rl_state \<Rightarrow> int \<times> rl_state" where
  "trustedProxyHops env st =
     (let raw = js_lower (js_trim (env_or_empty env ''FLAIR_TRUSTED_PROXY'')) in
      if raw = [] \<or> raw = ''0'' \<or> raw = ''off'' \<or> raw = ''false'' \<or> raw = ''no'' then (0, st)
      else if raw = ''on'' \<or> raw = ''true'' \<or> raw = ''yes'' then (1, st)
      else let n = js_Number raw in
        if \<not> is_integer n \<or> jlt n (Fin 0) then (0, warnOnce ''bad-proxy'' st)
        else (int_of_jnum n, st))"

definition UNKNOWN_CALLER :: string where
  "UNKNOWN_CALLER = ''addr:unknown''"

text \<open>The parts of a request the limiter reads, \<open>Undef\<close> where the optional chain stops.\<close>

record rl_request =
  header_get :: js
  header_obj :: js
  req_ip :: js
  mcp_sub :: js
  mcp_client_id :: js

definition forwarded_parts :: "string \<Rightarrow> string list" where
  "forwarded_parts raw = filter (\<lambda>s. s \<noteq> []) (map js_trim (split_on (CHR '','') raw))"

text \<open>The forwarded entry the trusted hops vouch for, if the header carries that many.\<close>

definition forwarded_key :: "int \<Rightarrow> rl_request \<Rightarrow> string option" where
  "forwarded_key hops rq =
     (if hops > 0 then
        (case coalesce (coalesce (header_get rq) (header_obj rq)) (Str []) of
           Str raw \<Rightarrow>
             if js_trim raw \<noteq> [] then
               let parts = forwarded_parts raw; idx = int (length parts) - hops in
               if idx \<ge> 0 \<and> parts ! nat idx \<noteq> [] then Some (''xff:'' @ parts ! nat idx) else None
             else None
         | _ \<Rightarrow> None)
      else None)"

definition callerKey :: "env \<Rightarrow> rl_request \<Rightarrow> rl_state \<Rightarrow> string \<times> rl_state" where
  "callerKey env rq st =
     (let (hops, st1) = trustedProxyHops env st in
      case forwarded_key hops rq of
        Some k \<Rightarrow> (k, st1)
      | None \<Rightarrow>
          (case req_ip rq of
             Str ip \<Rightarrow> if ip \<noteq> [] then (''addr:'' @ ip, st1)
                       else (UNKNOWN_CALLER, warnOnce ''no-addr'' st1)
           | _ \<Rightarrow> (UNKNOWN_CALLER, warnOnce ''no-addr'' st1)))"

section \<open>Responses and entry points\<close>

definition LIMITED_BODY :: js where
  "LIMITED_BODY = Obj [(''error'', Str ''slow_down''), (''error_description'', Str ''too many requests'')]"

definition limitedHeaders :: "decision \<Rightarrow> (string \<times> string) list" where
  "limitedHeaders d =
     [(''content-type'', ''application/json''), (''retry-after'', int_string (retryAfterSec d)),
      (''cache-control'', ''no-store'')]"

definition limitedResponse :: "decision \<Rightarrow> response" where
  "limitedResponse d = \<lparr>status = 429, body = LIMITED_BODY, headers = limitedHeaders d\<rparr>"

definition checkHttpRateLimit ::
  "env \<Rightarrow> rl_request \<Rightarrow> string \<Rightarrow> int \<Rightarrow> rl_state \<Rightarrow> response option \<times> rl_state" where
  "checkHttpRateLimit env rq pathname now st =
     (let (enabled, st1) = rateLimitEnabled env st in
      if \<not> enabled then (None, st1)
      else let (pol, st2) = policyForPath env pathname st1 in
        (case pol of
           None \<Rightarrow> (None, st2)
         | Some p \<Rightarrow>
             let (ck, st3) = callerKey env rq st2;
                 (d, m) = consume (pbucket p @ ''|'' @ ck) p now (buckets st3) in
             (if limited d then Some (limitedResponse d) else None, st3\<lparr>buckets := m\<rparr>)))"

definition mcp_limited_body :: js where
  "mcp_limited_body =
     Obj [(''jsonrpc'', Str ''2.0''), (''id'', Null),
          (''error'', Obj [(''code'', Num (Fin (- 32029))), (''message'', Str ''too many requests'')])]"

fun str_or_empty :: "js \<Rightarrow> string" where
  "str_or_empty (Str s) = s"
| "str_or_empty _ = []"

definition checkMcpRateLimit ::
  "env \<Rightarrow> rl_request \<Rightarrow> int \<Rightarrow> rl_state \<Rightarrow> response option \<times> rl_state" where
  "checkMcpRateLimit env rq now st =
     (let (enabled, st1) = rateLimitEnabled env st in
      if \<not> enabled then (None, st1)
      else
        let (p, st2) = policyFor env Mcp st1;
            sub = str_or_empty (mcp_sub rq);
            clientId = str_or_empty (mcp_client_id rq);
            (identity, st3) =
              (if sub \<noteq> [] then (''sub:'' @ sub @ ''|cid:'' @ clientId, st2) else callerKey env rq st2);
            (d, m) = consume (pbucket p @ ''|'' @ identity) p now (buckets st3) in
        (if \<not> limited d then None
         else Some \<lparr>status = 429, body = mcp_limited_body, headers = limitedHeaders d\<rparr>,
         st3\<lparr>buckets := m\<rparr>))"

section \<open>The map under the cap\<close>

lemma length_delete_present:
  "distinct (map fst m) \<Longrightarrow> k \<in> fst ` set m \<Longrightarrow> Suc (length (AList.delete k m)) = length m"
proof (induction m)
  case (Cons p m)
  then show ?case
  proof (cases "fst p = k")
    case True
    with Cons.prems have "AList.delete k m = m" by (auto simp: AList.delete_id)
    with True show ?thesis by (cases p) simp
  next
    case False
    with Cons have "k \<in> fst ` set m" by auto
    with Cons False show ?thesis by (cases p) auto
  qed
qed simp

lemma evict_expired_distinct:
  "distinct (map fst m) \<Longrightarrow> distinct (map fst (evict_expired now w es m))"
  by (induction now w es m rule: evict_expired.induct) (auto simp: distinct_delete)

lemma evict_front_length:
  assumes "distinct (map fst m)" and "length m - length ks \<le> MAX_TRACKED_KEYS"
    and "set ks \<subseteq> fst ` set m" and "distinct ks"
  shows "length (evict_front ks m) \<le> MAX_TRACKED_KEYS"
  using assms
proof (induction ks m rule: evict_front.induct)
  case (2 k ks m)
  show ?case
  proof (cases "length m \<le> MAX_TRACKED_KEYS")
    case False
    have "Suc (length (AList.delete k m)) = length m"
      using "2.prems" by (intro length_delete_present) auto
    moreover have "set ks \<subseteq> fst ` set (AList.delete k m)"
      using "2.prems"(3,4) by auto
    ultimately show ?thesis
      using False "2.IH"[OF False] "2.prems" by (simp add: distinct_delete)
  qed simp
qed simp

lemma evictOldest_length:
  assumes "distinct (map fst m)"
  shows "length (evictOldest now w m) \<le> MAX_TRACKED_KEYS"
  unfolding evictOldest_def Let_def
  by (rule evict_front_length) (simp_all add: evict_expired_distinct assms)

lemma delete_append_last: "k \<noteq> k' \<Longrightarrow> AList.delete k (xs @ [(k', b)]) = AList.delete k xs @ [(k', b)]"
  by (induction xs) auto

lemma evict_expired_last:
  assumes "now - windowStart b < w" and "\<forall>b'. (k, b') \<in> set es \<longrightarrow> b' = b"
  shows "\<exists>ys. evict_expired now w es (xs @ [(k, b)]) = ys @ [(k, b)]"
  using assms(2)
proof (induction es arbitrary: xs)
  case (Cons e es)
  obtain k' b' where e: "e = (k', b')" by fastforce
  consider "length (xs @ [(k, b)]) \<le> MAX_TRACKED_KEYS"
    | "\<not> length (xs @ [(k, b)]) \<le> MAX_TRACKED_KEYS" "now - windowStart b' \<ge> w"
    | "\<not> length (xs @ [(k, b)]) \<le> MAX_TRACKED_KEYS" "\<not> now - windowStart b' \<ge> w" by blast
  then show ?case
  proof cases
    case 1
    with e show ?thesis by simp
  next
    case 2
    have "k' \<noteq> k"
    proof
      assume "k' = k"
      with Cons.prems e have "b' = b" by simp
      with 2(2) assms(1) show False by simp
    qed
    with 2 e Cons.IH[of "AList.delete k' xs"] Cons.prems show ?thesis
      by (simp add: delete_append_last)
  next
    case 3
    with e Cons.IH[of xs] Cons.prems show ?thesis by simp
  qed
qed simp

lemma evict_front_last:
  assumes "distinct (map fst xs)" and "k \<notin> fst ` set xs"
  shows "\<exists>ys. evict_front (map fst xs @ [k]) (xs @ [(k, b)]) = ys @ [(k, b)]"
  using assms
proof (induction xs)
  case Nil
  then show ?case by (simp add: MAX_TRACKED_KEYS_def)
next
  case (Cons p xs)
  then have "fst p \<noteq> k" "AList.delete (fst p) (xs @ [(k, b)]) = xs @ [(k, b)]"
    by (auto simp: AList.delete_id)
  then show ?case using Cons by (cases p) auto
qed

lemma evict_expired_keys: "fst ` set (evict_expired now w es m) \<subseteq> fst ` set m"
  by (induction now w es m rule: evict_expired.induct) auto

lemma evictOldest_last:
  assumes "distinct (map fst (xs @ [(k, b)]))" and "now - windowStart b < w"
  shows "\<exists>ys. evictOldest now w (xs @ [(k, b)]) = ys @ [(k, b)]"
proof -
  have "\<forall>b'. (k, b') \<in> set (xs @ [(k, b)]) \<longrightarrow> b' = b"
    using assms(1) by force
  from evict_expired_last[OF assms(2) this]
  obtain ys where ys: "evict_expired now w (xs @ [(k, b)]) (xs @ [(k, b)]) = ys @ [(k, b)]" by blast
  have "distinct (map fst (ys @ [(k, b)]))"
    using evict_expired_distinct[OF assms(1), of now w "xs @ [(k, b)]"] by (simp add: ys)
  then show ?thesis
    using evict_front_last[of ys k b] by (simp add: evictOldest_def ys)
qed

section \<open>One consume\<close>

lemma next_bucket_fresh: "windowMs pol > 0 \<Longrightarrow> now - windowStart (next_bucket ex pol now) < windowMs pol"
  by (auto simp: next_bucket_def split: option.splits)

lemma consume_moved_last:
  assumes "distinct (map fst m)" and "windowMs pol > 0"
  shows "\<exists>ys. snd (consume key pol now m) = ys @ [(key, next_bucket (map_of m key) pol now)]"
proof -
  let ?b = "next_bucket (map_of m key) pol now"
  let ?xs = "AList.delete key m"
  have d: "distinct (map fst (?xs @ [(key, ?b)]))"
    using assms(1) by simp
  show ?thesis
    using evictOldest_last[OF d next_bucket_fresh[OF assms(2)]]
    by (auto simp: consume_def Let_def delete_then_update)
qed

lemma evict_front_distinct: "distinct (map fst m) \<Longrightarrow> distinct (map fst (evict_front ks m))"
  by (induction ks m rule: evict_front.induct) auto

lemma evictOldest_distinct: "distinct (map fst m) \<Longrightarrow> distinct (map fst (evictOldest now w m))"
  by (simp add: evictOldest_def Let_def evict_front_distinct evict_expired_distinct)

lemma consume_distinct:
  "distinct (map fst m) \<Longrightarrow> distinct (map fst (snd (consume key pol now m)))"
  by (simp add: consume_def Let_def evictOldest_distinct)

lemma consume_length:
  assumes "distinct (map fst m)"
  shows "length (snd (consume key pol now m)) \<le> MAX_TRACKED_KEYS"
  using assms by (simp add: consume_def Let_def evictOldest_length)

section \<open>Runs of the counter\<close>

lemma consume_lookup:
  assumes "card (insert key (fst ` set m)) \<le> MAX_TRACKED_KEYS" and "distinct (map fst m)"
  shows "map_of (snd (consume key pol now m)) k =
    (if k = key then Some (next_bucket (map_of m key) pol now) else map_of m k)"
    and "fst ` set (snd (consume key pol now m)) = insert key (fst ` set m)"
proof -
  let ?m1 = "AList.update key (next_bucket (map_of m key) pol now) (AList.delete key m)"
  have "length ?m1 = card (fst ` set ?m1)"
    using assms(2) distinct_card[of "map fst ?m1"] by simp
  also have "\<dots> \<le> MAX_TRACKED_KEYS" using assms(1) by simp
  finally have "snd (consume key pol now m) = ?m1" by (simp add: consume_def Let_def)
  then show "map_of (snd (consume key pol now m)) k =
      (if k = key then Some (next_bucket (map_of m key) pol now) else map_of m k)"
    and "fst ` set (snd (consume key pol now m)) = insert key (fst ` set m)"
    by (auto simp: update_conv' delete_conv')
qed

text \<open>A run of the counter: the requests let through for one key.\<close>

type_synonym rl_event = "string \<times> policy \<times> int"

fun allowed_for :: "string \<Rightarrow> rl_event list \<Rightarrow> bucket_map \<Rightarrow> nat" where
  "allowed_for key [] m = 0"
| "allowed_for key ((k, pol, now) # es) m =
     (let (d, m') = consume k pol now m in
      (if k = key \<and> \<not> limited d then 1 else 0) + allowed_for key es m')"

text \<open>What a bucket still admits before the end of an interval that starts at \<open>T\<close>.\<close>

definition budget :: "int \<Rightarrow> policy \<Rightarrow> bucket option \<Rightarrow> int" where
  "budget T pol bo =
     (case bo of
        None \<Rightarrow> plimit pol
      | Some b \<Rightarrow> max 0 (plimit pol - bcount b) + (if windowStart b < T then plimit pol else 0))"

lemma allowed_for_budget:
  assumes "card (fst ` set m \<union> fst ` set es) \<le> MAX_TRACKED_KEYS" and "distinct (map fst m)"
    and "\<forall>(k, p, t) \<in> set es. k = key \<longrightarrow> p = pol \<and> T \<le> t \<and> t < T + windowMs pol"
    and "0 \<le> plimit pol" and "\<forall>b. map_of m key = Some b \<longrightarrow> 0 \<le> bcount b"
  shows "int (allowed_for key es m) \<le> budget T pol (map_of m key)"
  using assms
proof (induction es arbitrary: m)
  case Nil
  then show ?case by (auto simp: budget_def split: option.splits)
next
  case (Cons e es)
  obtain k p t where e: "e = (k, p, t)" by (cases e)
  obtain d m' where c: "consume k p t m = (d, m')" by fastforce
  have "insert k (fst ` set m) \<subseteq> fst ` set m \<union> fst ` set (e # es)" by (auto simp: e)
  then have small: "card (insert k (fst ` set m)) \<le> MAX_TRACKED_KEYS"
    by (meson Cons.prems(1) card_mono finite_UnI finite_imageI finite_set order_trans)
  note look = consume_lookup[OF small Cons.prems(2), of p t, unfolded c snd_conv]
  have dis: "distinct (map fst m')"
    using consume_distinct[OF Cons.prems(2), of k p t] by (simp add: c)
  have card': "card (fst ` set m' \<union> fst ` set es) \<le> MAX_TRACKED_KEYS"
    using Cons.prems(1) by (simp add: look(2) e insert_commute)
  have evs': "\<forall>(k, p, t) \<in> set es. k = key \<longrightarrow> p = pol \<and> T \<le> t \<and> t < T + windowMs pol"
    using Cons.prems(3) by simp
  show ?case
  proof (cases "k = key")
    case False
    then have same: "map_of m' key = map_of m key" by (simp add: look(1))
    with Cons.IH[OF card' dis evs' Cons.prems(4)] Cons.prems(5) False
    show ?thesis by (simp add: e c)
  next
    case True
    let ?b = "next_bucket (map_of m key) pol t"
    have p: "p = pol" and t: "T \<le> t" "t < T + windowMs pol"
      using Cons.prems(3) True e by auto
    have m': "map_of m' key = Some ?b" by (simp add: look(1) True p)
    have nonneg: "0 \<le> bcount ?b"
      using Cons.prems(5) by (auto simp: next_bucket_def split: option.splits)
    have d: "limited d \<longleftrightarrow> bcount ?b > plimit pol"
      using c by (auto simp: consume_def Let_def True p)
    have "int (allowed_for key es m') \<le> budget T pol (Some ?b)"
      using Cons.IH[OF card' dis evs' Cons.prems(4)] nonneg by (simp add: m')
    moreover have "(if \<not> limited d then 1 else 0) + budget T pol (Some ?b) \<le> budget T pol (map_of m key)"
      using t Cons.prems(4,5) unfolding d
      by (auto simp: budget_def next_bucket_def split: option.splits)
    ultimately show ?thesis using c by (cases "limited d") (simp_all add: e True)
  qed
qed

text \<open>
  Over any interval as long as the policy's window, whatever other keys are counted in
  between, a key is let through at most twice its limit (two fixed windows can meet inside it).
\<close>

theorem fixed_window_bound:
  assumes "card (fst ` set m \<union> fst ` set es) \<le> MAX_TRACKED_KEYS" and "distinct (map fst m)"
    and "\<forall>(k, p, t) \<in> set es. k = key \<longrightarrow> p = pol \<and> T \<le> t \<and> t < T + windowMs pol"
    and "0 \<le> plimit pol" and "\<forall>b. map_of m key = Some b \<longrightarrow> 0 \<le> bcount b"
  shows "int (allowed_for key es m) \<le> 2 * plimit pol"
proof -
  have "budget T pol (map_of m key) \<le> 2 * plimit pol"
    using assms(4,5) by (auto simp: budget_def split: option.splits)
  with allowed_for_budget[OF assms] show ?thesis by simp
qed

theorem fixed_window_bound_witness:
  "allowed_for ''k'' (map (\<lambda>t. (''k'', \<lparr>pbucket = ''b'', plimit = 1, windowMs = 100\<rparr>, t)) [150, 200, 210])
     [(''k'', \<lparr>windowStart = 100, bcount = 0\<rparr>)] = 2 \<and>
   int (allowed_for ''k'' (map (\<lambda>t. (''k'', \<lparr>pbucket = ''b'', plimit = 1, windowMs = 100\<rparr>, t)) [150, 200, 210])
     [(''k'', \<lparr>windowStart = 100, bcount = 0\<rparr>)]) \<le> 2 * 1"
proof
  let ?p = "\<lparr>pbucket = ''b'', plimit = 1, windowMs = 100\<rparr>"
  let ?es = "map (\<lambda>t. (''k'', ?p, t)) [150, 200, 210]"
  let ?m = "\<lambda>w c. [(''k'', \<lparr>windowStart = w, bcount = c\<rparr>)]"
  have s1: "consume ''k'' ?p 150 (?m 100 0) = (\<lparr>limited = False, dlimit = 1, retryAfterSec = 1\<rparr>, ?m 100 1)"
    and s2: "consume ''k'' ?p 200 (?m 100 1) = (\<lparr>limited = False, dlimit = 1, retryAfterSec = 1\<rparr>, ?m 200 1)"
    and s3: "consume ''k'' ?p 210 (?m 200 1) = (\<lparr>limited = True, dlimit = 1, retryAfterSec = 1\<rparr>, ?m 200 2)"
    by (simp_all add: consume_def next_bucket_def MAX_TRACKED_KEYS_def ceil_sec_def)
  show "allowed_for ''k'' ?es (?m 100 0) = 2" by (simp add: s1 s2 s3)
  show "int (allowed_for ''k'' ?es (?m 100 0)) \<le> 2 * 1"
    using fixed_window_bound[of "?m 100 0" ?es "''k''" ?p 150] by (simp add: MAX_TRACKED_KEYS_def)
qed

section \<open>The forwarded-for key\<close>

lemma js_trim_Nil: "js_trim s = [] \<longleftrightarrow> list_all is_white s"
proof -
  have "js_trim s = [] \<longleftrightarrow> (\<forall>c \<in> set (dropWhile is_white s). is_white c)"
    by (simp add: js_trim_def)
  also have "\<dots> \<longleftrightarrow> dropWhile is_white s = []"
    using hd_dropWhile[of is_white s] by (cases "dropWhile is_white s") (auto dest: set_dropWhileD)
  finally show ?thesis by (simp add: list_all_iff dropWhile_eq_Nil_conv)
qed

lemma forwarded_parts_append:
  "forwarded_parts (a @ CHR '','' # b) = forwarded_parts a @ forwarded_parts b"
  by (simp add: forwarded_parts_def split_on_append_sep)

definition clean_entry :: "string \<Rightarrow> bool" where
  "clean_entry e \<longleftrightarrow> e \<noteq> [] \<and> CHR '','' \<notin> set e \<and> js_trim e = e"

lemma forwarded_parts_join:
  "ts \<noteq> [] \<Longrightarrow> list_all clean_entry ts \<Longrightarrow> forwarded_parts (join_with '','' ts) = ts"
proof (induction ts rule: induct_list012)
  case (3 p q ps)
  then have "forwarded_parts p = [p]"
    by (simp add: forwarded_parts_def split_on_no_sep clean_entry_def)
  with 3 show ?case by (simp add: forwarded_parts_append)
qed (simp_all add: forwarded_parts_def split_on_no_sep clean_entry_def)

text \<open>
  With \<open>FLAIR_TRUSTED_PROXY\<close> at the number of trusted hops, the key is the entry the outermost
  trusted hop appended, whatever the caller wrote in front of it.
\<close>

theorem forwarded_key_unspoofable:
  assumes "trustedProxyHops env st = (int (length trusted), st1)"
    and "trusted \<noteq> []" and "list_all clean_entry trusted"
    and "header_get rq = Str (spoofed @ '','' @ join_with '','' trusted)"
  shows "callerKey env rq st = (''xff:'' @ hd trusted, st1)"
proof -
  let ?raw = "spoofed @ '','' @ join_with '','' trusted"
  have parts: "forwarded_parts ?raw = forwarded_parts spoofed @ trusted"
    using assms(2,3) by (simp add: forwarded_parts_append forwarded_parts_join)
  have "\<not> is_white (CHR '','')" by (simp add: is_white_def code_def)
  then have trim: "js_trim ?raw \<noteq> []" by (simp add: js_trim_Nil)
  have "hd trusted \<noteq> []" using assms(2,3) by (cases trusted) (auto simp: clean_entry_def)
  with assms(2) have "forwarded_key (int (length trusted)) rq = Some (''xff:'' @ hd trusted)"
    using trim parts
    by (simp add: forwarded_key_def assms(4) coalesce_def Let_def nth_append hd_conv_nth
        del: append_Cons append.simps)
  then show ?thesis using assms(1) by (simp add: callerKey_def)
qed

theorem forwarded_key_unspoofable_witness:
  "callerKey [''FLAIR_TRUSTED_PROXY'' \<mapsto> ''2'']
     \<lparr>header_get = Str ''6.6.6.6, 7.7.7.7,10.0.0.1,10.0.0.2'', header_obj = Undef, req_ip = Undef,
      mcp_sub = Undef, mcp_client_id = Undef\<rparr> \<lparr>warned = [], buckets = []\<rparr>
   = (''xff:10.0.0.1'', \<lparr>warned = [], buckets = []\<rparr>)"
proof -
  have hops: "trustedProxyHops [''FLAIR_TRUSTED_PROXY'' \<mapsto> ''2''] \<lparr>warned = [], buckets = []\<rparr>
      = (int (length [''10.0.0.1'', ''10.0.0.2'']), \<lparr>warned = [], buckets = []\<rparr>)"
    by code_simp
  have clean: "list_all clean_entry [''10.0.0.1'', ''10.0.0.2'']" by code_simp
  show ?thesis
    using forwarded_key_unspoofable[OF hops _ clean, where spoofed = "''6.6.6.6, 7.7.7.7''" and
        rq = "\<lparr>header_get = Str ''6.6.6.6, 7.7.7.7,10.0.0.1,10.0.0.2'', header_obj = Undef,
               req_ip = Undef, mcp_sub = Undef, mcp_client_id = Undef\<rparr>"]
    by simp
qed

section \<open>Bounded memory without losing the hot key\<close>

text \<open>
  The bucket map never outgrows its cap, and counting a request never evicts the key that was
  counted: it is kept, at the most recently used end, with its new count.
\<close>

theorem consume_bounded_keeps_key:
  assumes "distinct (map fst m)" and "windowMs pol > 0"
  shows "length (snd (consume key pol now m)) \<le> MAX_TRACKED_KEYS \<and>
    last (snd (consume key pol now m)) = (key, next_bucket (map_of m key) pol now) \<and>
    map_of (snd (consume key pol now m)) key = Some (next_bucket (map_of m key) pol now)"
proof -
  let ?b = "next_bucket (map_of m key) pol now" and ?m = "snd (consume key pol now m)"
  obtain ys where ys: "?m = ys @ [(key, ?b)]"
    using consume_moved_last[OF assms] by blast
  moreover have "distinct (map fst ?m)" by (rule consume_distinct[OF assms(1)])
  ultimately have "map_of ?m key = Some ?b" by (metis in_set_conv_decomp map_of_is_SomeI)
  moreover have "last ?m = (key, ?b)" by (simp add: ys)
  ultimately show ?thesis using consume_length[OF assms(1)] by blast
qed

theorem consume_bounded_keeps_key_witness:
  "map_of (snd (consume ''k'' \<lparr>pbucket = ''b'', plimit = 1, windowMs = 100\<rparr> 150
     [(''k'', \<lparr>windowStart = 100, bcount = 7\<rparr>), (''j'', \<lparr>windowStart = 100, bcount = 1\<rparr>)])) ''k''
   = Some \<lparr>windowStart = 100, bcount = 8\<rparr>"
  using consume_bounded_keeps_key[of
      "[(''k'', \<lparr>windowStart = 100, bcount = 7\<rparr>), (''j'', \<lparr>windowStart = 100, bcount = 1\<rparr>)]"
      "\<lparr>pbucket = ''b'', plimit = 1, windowMs = 100\<rparr>" "''k''" 150]
  by (simp add: next_bucket_def)

end
