(* ===== verification/SlidingLimiter.thy ===== *)
theory SlidingLimiter
  imports RateLimit
begin

text \<open>
  The per-agent sliding-window limiter and the storage quota (\<open>resources/rate-limiter.ts\<close>). The
  module state is the map from \<open>agent:bucket\<close> to the timestamps it has counted; the periodic
  cleanup is an operation of its own. A limit read from the environment is a JavaScript number and
  may be \<open>NaN\<close>.
\<close>

section \<open>Operations\<close>

type_synonym windows = "(string \<times> int list) list"

definition WINDOW_MS :: int where
  "WINDOW_MS = 60000"

definition getLimit :: "env \<Rightarrow> string \<Rightarrow> int \<Rightarrow> jnum" where
  "getLimit env envVar defaultVal =
     (case env envVar of
        Some v \<Rightarrow> if v \<noteq> [] then js_Number v else jint defaultVal
      | None \<Rightarrow> jint defaultVal)"

definition isEnabled :: "env \<Rightarrow> bool" where
  "isEnabled env \<longleftrightarrow>
     env ''FLAIR_RATE_LIMIT_ENABLED'' = Some ''true'' \<or> env ''FLAIR_PUBLIC'' = Some ''true''"

datatype bucket_name = General | Embedding | Usage

fun bucket_string :: "bucket_name \<Rightarrow> string" where
  "bucket_string General = ''general''"
| "bucket_string Embedding = ''embedding''"
| "bucket_string Usage = ''usage''"

fun bucket_limit :: "env \<Rightarrow> bucket_name \<Rightarrow> jnum" where
  "bucket_limit env Embedding = getLimit env ''FLAIR_RATE_LIMIT_EMBED'' 30"
| "bucket_limit env Usage = getLimit env ''FLAIR_RATE_LIMIT_USAGE'' 30"
| "bucket_limit env General = getLimit env ''FLAIR_RATE_LIMIT_RPM'' 120"

record rate_verdict =
  allowed :: bool
  retryAfterMs :: "jnum option"
  remaining :: "jnum option"

definition admit :: rate_verdict where
  "admit = \<lparr>allowed = True, retryAfterMs = None, remaining = None\<rparr>"

definition prune_window :: "int \<Rightarrow> int list \<Rightarrow> int list" where
  "prune_window cutoff ts = filter (\<lambda>t. t > cutoff) ts"

definition window_key :: "string \<Rightarrow> bucket_name \<Rightarrow> string" where
  "window_key agentId bucket = agentId @ '':'' @ bucket_string bucket"

text \<open>\<open>timestamps[0]\<close>, then the wait until it leaves the window: \<open>NaN\<close> when the list is empty.\<close>

definition retry_after :: "int list \<Rightarrow> int \<Rightarrow> jnum" where
  "retry_after ts now =
     jmax (case ts of [] \<Rightarrow> NaN | oldest # _ \<Rightarrow> jint (oldest + WINDOW_MS - now)) (jint 1000)"

definition checkRateLimit ::
  "env \<Rightarrow> string \<Rightarrow> bucket_name \<Rightarrow> int \<Rightarrow> windows \<Rightarrow> rate_verdict \<times> windows" where
  "checkRateLimit env agentId bucket now ws =
     (if \<not> isEnabled env then (admit, ws)
      else if agentId = [] then (admit, ws)
      else
        let limit = bucket_limit env bucket;
            key = window_key agentId bucket;
            cutoff = now - WINDOW_MS;
            stored = (case map_of ws key of None \<Rightarrow> [] | Some ts \<Rightarrow> ts);
            ts = prune_window cutoff stored in
        if jle limit (jint (int (length ts)))
        then (\<lparr>allowed = False, retryAfterMs = Some (retry_after ts now), remaining = Some (Fin 0)\<rparr>,
              AList.update key ts ws)
        else (\<lparr>allowed = True, retryAfterMs = None,
               remaining = Some (jsub limit (jint (int (length ts + 1))))\<rparr>,
              AList.update key (ts @ [now]) ws))"

text \<open>The interval callback that drops stale timestamps and empty entries.\<close>

definition cleanupWindows :: "int \<Rightarrow> windows \<Rightarrow> windows" where
  "cleanupWindows now ws =
     filter (\<lambda>(k, ts). ts \<noteq> [])
       (map (\<lambda>(k, ts). (k, prune_window (now - WINDOW_MS * 2) ts)) ws)"

text \<open>\<open>limit\<close> is \<open>Infinity\<close> when the quota is off.\<close>

definition checkStorageQuota :: "env \<Rightarrow> nat \<Rightarrow> bool \<times> jnum" where
  "checkStorageQuota env currentCount =
     (if \<not> isEnabled env then (True, PInf)
      else let limit = getLimit env ''FLAIR_RATE_LIMIT_STORAGE'' 10000 in
        (jlt (jint (int currentCount)) limit, limit))"

definition rateLimitResponse :: "int \<Rightarrow> string \<Rightarrow> response" where
  "rateLimitResponse retryMs bucket =
     (let retryAfterSec = ceil_sec retryMs in
      \<lparr>status = 429,
       body = Obj [(''error'', Str ''rate_limit_exceeded''),
         (''message'', Str (''Rate limit exceeded for '' @ bucket @ '' requests. Retry after ''
            @ int_string retryAfterSec @ ''s.'')),
         (''retryAfterMs'', Num (jint retryMs))],
       headers = [(''Content-Type'', ''application/json''), (''Retry-After'', int_string retryAfterSec)]\<rparr>)"

definition storageQuotaResponse :: "int \<Rightarrow> response" where
  "storageQuotaResponse limit =
     \<lparr>status = 413,
      body = Obj [(''error'', Str ''storage_quota_exceeded''),
        (''message'', Str (''Storage quota exceeded. Maximum '' @ int_string limit @ '' memories per agent.'')),
        (''limit'', Num (jint limit))],
      headers = [(''Content-Type'', ''application/json'')]\<rparr>"

section \<open>The window invariant\<close>

definition counted :: "windows \<Rightarrow> string \<Rightarrow> int list" where
  "counted ws key = (case map_of ws key of None \<Rightarrow> [] | Some ts \<Rightarrow> ts)"

lemma last_window_key:
  "last (window_key a b) = (case b of General \<Rightarrow> CHR ''l'' | Embedding \<Rightarrow> CHR ''g'' | Usage \<Rightarrow> CHR ''e'')"
  by (cases b) (simp_all add: window_key_def)

lemma window_key_inj [simp]: "window_key a b = window_key a' b' \<longleftrightarrow> a = a' \<and> b = b'"
proof
  assume eq: "window_key a b = window_key a' b'"
  then have "last (window_key a b) = last (window_key a' b')" by simp
  then have "b = b'" by (simp add: last_window_key split: bucket_name.splits)
  with eq show "a = a' \<and> b = b'" by (simp add: window_key_def)
qed simp

lemma counted_update [simp]:
  "counted (AList.update k ts ws) k' = (if k' = k then ts else counted ws k')"
  by (simp add: counted_def update_conv')

lemma counted_cleanup:
  "distinct (map fst ws) \<Longrightarrow> counted (cleanupWindows now ws) k = prune_window (now - WINDOW_MS * 2) (counted ws k)"
proof (induction ws)
  case (Cons e ws)
  obtain k' ts where e: "e = (k', ts)" by fastforce
  have "k' \<notin> fst ` set (cleanupWindows now ws)"
    using Cons.prems by (force simp: e cleanupWindows_def)
  then have none: "counted (cleanupWindows now ws) k' = []"
    by (metis counted_def map_of_eq_None_iff option.simps(4))
  have "counted (cleanupWindows now (e # ws)) k =
    (if k = k' then prune_window (now - WINDOW_MS * 2) ts else counted (cleanupWindows now ws) k)"
    using none by (auto simp: e cleanupWindows_def counted_def)
  with Cons show ?case by (simp add: e counted_def)
qed (simp add: cleanupWindows_def counted_def prune_window_def)

lemma distinct_cleanup: "distinct (map fst ws) \<Longrightarrow> distinct (map fst (cleanupWindows now ws))"
  by (induction ws) (force simp: cleanupWindows_def)+

lemma distinct_checkRateLimit:
  "distinct (map fst ws) \<Longrightarrow> distinct (map fst (snd (checkRateLimit env a b now ws)))"
  by (simp add: checkRateLimit_def Let_def)

lemma checkRateLimit_enabled:
  assumes "isEnabled env" and "a \<noteq> []" and "bucket_limit env b = jint L"
  shows "allowed (fst (checkRateLimit env a b now ws)) \<longleftrightarrow>
      int (length (prune_window (now - WINDOW_MS) (counted ws (window_key a b)))) < L"
    and "counted (snd (checkRateLimit env a b now ws)) k =
      (if k = window_key a b
       then prune_window (now - WINDOW_MS) (counted ws k)
            @ (if allowed (fst (checkRateLimit env a b now ws)) then [now] else [])
       else counted ws k)"
  using assms
  by (auto simp: checkRateLimit_def Let_def counted_def[symmetric] not_le)

lemma checkRateLimit_other:
  "k \<noteq> window_key a b \<Longrightarrow> counted (snd (checkRateLimit env a b now ws)) k = counted ws k"
  by (auto simp: checkRateLimit_def Let_def)

text \<open>A run of the module: requests and cleanup ticks, with the granted times of one window.\<close>

datatype sl_event = Req string bucket_name int | Cleanup int

fun ev_time :: "sl_event \<Rightarrow> int" where
  "ev_time (Req _ _ t) = t"
| "ev_time (Cleanup t) = t"

fun granted :: "env \<Rightarrow> string \<Rightarrow> bucket_name \<Rightarrow> sl_event list \<Rightarrow> windows \<Rightarrow> int list" where
  "granted env a b [] ws = []"
| "granted env a b (Cleanup t # es) ws = granted env a b es (cleanupWindows t ws)"
| "granted env a b (Req a' b' t # es) ws =
     (let (v, ws') = checkRateLimit env a' b' t ws in
      (if a' = a \<and> b' = b \<and> allowed v then [t] else []) @ granted env a b es ws')"

text \<open>The number of granted times in the half-open window \<open>(x, x + WINDOW_MS]\<close>.\<close>

definition in_window :: "int \<Rightarrow> int list \<Rightarrow> nat" where
  "in_window x ts = length (filter (\<lambda>t. x < t \<and> t \<le> x + WINDOW_MS) ts)"

definition window_inv :: "windows \<Rightarrow> string \<Rightarrow> int \<Rightarrow> int list \<Rightarrow> int \<Rightarrow> bool" where
  "window_inv ws key L past now \<longleftrightarrow>
     distinct (map fst ws) \<and>
     prune_window (now - WINDOW_MS) (counted ws key) = prune_window (now - WINDOW_MS) past \<and>
     (\<forall>x. int (in_window x past) \<le> L)"

lemma prune_window_later: "c \<le> c' \<Longrightarrow> prune_window c' (prune_window c ts) = prune_window c' ts"
  unfolding prune_window_def filter_filter by (rule filter_cong) auto

lemma prune_window_earlier: "c' \<le> c \<Longrightarrow> prune_window c (prune_window c' ts) = prune_window c ts"
  by (rule prune_window_later)

lemma prune_window_mono:
  assumes "prune_window c xs = prune_window c ys" and "c \<le> c'"
  shows "prune_window c' xs = prune_window c' ys"
  by (metis assms prune_window_later)

lemma in_window_snoc:
  assumes "int (length (prune_window (t - WINDOW_MS) past)) < L" and "\<forall>x. int (in_window x past) \<le> L"
  shows "int (in_window x (past @ [t])) \<le> L"
proof (cases "x < t \<and> t \<le> x + WINDOW_MS")
  case True
  have "in_window x past \<le> length (prune_window (t - WINDOW_MS) past)"
    unfolding in_window_def prune_window_def
    by (rule length_filter_mono) (use True in auto)
  with True assms(1) show ?thesis by (simp add: in_window_def)
qed (use assms(2) in \<open>auto simp: in_window_def\<close>)

lemma granted_window:
  assumes "isEnabled env" and "a \<noteq> []" and "bucket_limit env b = jint L"
    and "window_inv ws (window_key a b) L past now"
    and "sorted (now # map ev_time es)"
  shows "int (in_window x (past @ granted env a b es ws)) \<le> L"
  using assms(4,5)
proof (induction es arbitrary: ws past now)
  case Nil
  then show ?case by (simp add: window_inv_def)
next
  case (Cons e es)
  let ?key = "window_key a b"
  have later: "sorted (ev_time e # map ev_time es)" and t: "now \<le> ev_time e"
    using Cons.prems(2) by auto
  note inv = Cons.prems(1)[unfolded window_inv_def]
  have same: "prune_window (ev_time e - WINDOW_MS) (counted ws ?key) = prune_window (ev_time e - WINDOW_MS) past"
    using inv t by (auto intro: prune_window_mono)
  show ?case
  proof (cases e)
    case (Cleanup t')
    have "window_inv (cleanupWindows t' ws) ?key L past t'"
      using inv same Cleanup
      by (simp add: window_inv_def distinct_cleanup counted_cleanup prune_window_later WINDOW_MS_def)
    with Cons.IH later Cleanup show ?thesis by simp
  next
    case (Req a' b' t')
    obtain v ws' where c: "checkRateLimit env a' b' t' ws = (v, ws')" by fastforce
    have d: "distinct (map fst ws')"
      using distinct_checkRateLimit[of ws env a' b' t'] inv c by simp
    show ?thesis
    proof (cases "a' = a \<and> b' = b")
      case False
      then have "counted ws' ?key = counted ws ?key"
        using checkRateLimit_other[of ?key a' b' env t' ws] c by auto
      then have "window_inv ws' ?key L past t'"
        using inv same Req d by (simp add: window_inv_def)
      with Cons.IH later Req c False show ?thesis by auto
    next
      case True
      note step = checkRateLimit_enabled[OF assms(1,2,3), of t' ws, unfolded True[THEN conjunct1, symmetric]]
      let ?past' = "past @ (if allowed v then [t'] else [])"
      have cnt: "counted ws' ?key = prune_window (t' - WINDOW_MS) past @ (if allowed v then [t'] else [])"
        using checkRateLimit_enabled(2)[OF assms(1,2,3), of t' ws ?key] c True same Req by auto
      have "\<forall>x. int (in_window x ?past') \<le> L"
        using checkRateLimit_enabled(1)[OF assms(1,2,3), of t' ws] c True same Req inv in_window_snoc
        by auto
      then have "window_inv ws' ?key L ?past' t'"
        using d by (simp add: window_inv_def cnt prune_window_def WINDOW_MS_def)
      from Cons.IH[OF this] later Req c True show ?thesis by auto
    qed
  qed
qed

text \<open>
  However requests of all agents and cleanup ticks interleave, an agent is granted at most its
  limit in any sliding window of a minute.
\<close>

theorem sliding_window_bound:
  assumes "isEnabled env" and "a \<noteq> []" and "bucket_limit env b = jint L" and "0 \<le> L"
    and "sorted (map ev_time es)"
  shows "int (in_window x (granted env a b es [])) \<le> L"
proof (cases es)
  case (Cons e es')
  have "window_inv [] (window_key a b) L [] (ev_time e)"
    using assms(4) by (simp add: window_inv_def counted_def in_window_def)
  then show ?thesis
    using granted_window[OF assms(1-3), of "[]" "[]" "ev_time e" es x] assms(5) Cons by simp
qed (use assms(4) in \<open>simp add: in_window_def\<close>)

theorem sliding_window_bound_witness:
  "int (in_window 0 (granted [''FLAIR_PUBLIC'' \<mapsto> ''true'', ''FLAIR_RATE_LIMIT_EMBED'' \<mapsto> ''1''] ''a'' Embedding
     [Req ''a'' Embedding 10, Req ''b'' General 20, Req ''a'' Embedding 30, Cleanup 40] [])) \<le> 1"
proof -
  have "bucket_limit [''FLAIR_PUBLIC'' \<mapsto> ''true'', ''FLAIR_RATE_LIMIT_EMBED'' \<mapsto> ''1''] Embedding = jint 1"
    by code_simp
  then show ?thesis
    by (intro sliding_window_bound) (simp_all add: isEnabled_def)
qed

text \<open>
  A limit variable that is set but is not a number turns the limiter off: every request is
  allowed, however many are already counted.
\<close>

theorem unparsable_limit_disables:
  assumes "bucket_limit env b = NaN"
  shows "allowed (fst (checkRateLimit env a b now ws))"
  using assms by (simp add: checkRateLimit_def admit_def Let_def)

theorem unparsable_limit_disables_witness:
  "allowed (fst (checkRateLimit [''FLAIR_PUBLIC'' \<mapsto> ''true'', ''FLAIR_RATE_LIMIT_RPM'' \<mapsto> ''60/min''] ''a'' General 10
     [(''a:general'', [1, 2, 3])]))"
  by (rule unparsable_limit_disables) code_simp

end
