(* ===== verification/RequestTarget.thy ===== *)
theory RequestTarget
  imports FlairPrelude
begin

text \<open>
  The raw request target the auth middleware decides on (\<open>resources/request-target.ts\<close>).

  In this theory a string is text in UTF-8, one \<open>char\<close> per byte: the characters the code looks
  for (slash, dot, percent, question mark, backslash) are ASCII, so splitting, searching and
  comparing mean the same on bytes as on UTF-16 units, and \<open>decodeURIComponent\<close> can be written
  out for every code point. The two functions that compare with a parsed WHATWG \<open>URL\<close> are not
  modelled.
\<close>

section \<open>Path and query\<close>

definition requestPath :: "string \<Rightarrow> string" where
  "requestPath rawTarget =
     (case index_of_char (CHR ''?'') rawTarget of None \<Rightarrow> rawTarget | Some q \<Rightarrow> take q rawTarget)"

definition requestQuery :: "string \<Rightarrow> string" where
  "requestQuery rawTarget =
     (case index_of_char (CHR ''?'') rawTarget of None \<Rightarrow> [] | Some q \<Rightarrow> drop (q + 1) rawTarget)"

text \<open>\<open>s.includes(t)\<close>\<close>

fun str_includes :: "string \<Rightarrow> string \<Rightarrow> bool" where
  "str_includes t [] = (t = [])"
| "str_includes t (c # s) = (starts_with t (c # s) \<or> str_includes t s)"

text \<open>One dot of the expression \<open>DOT_SEGMENT\<close>, raw or percent-encoded, and what follows it.\<close>

fun dot_unit :: "string \<Rightarrow> string option" where
  "dot_unit s =
     (if starts_with ''.'' s then Some (drop 1 s)
      else if starts_with ''%2e'' s \<or> starts_with ''%2E'' s then Some (drop 3 s)
      else None)"

declare dot_unit.simps [simp del]

definition DOT_SEGMENT :: "string \<Rightarrow> bool" where
  "DOT_SEGMENT s =
     (case dot_unit s of None \<Rightarrow> False | Some r \<Rightarrow> r = [] \<or> dot_unit r = Some [])"

definition isCanonicalRequestTarget :: "string \<Rightarrow> bool" where
  "isCanonicalRequestTarget rawTarget =
     (let path = requestPath rawTarget in
      if str_includes [CHR 92] path then False
      else if str_includes ''//'' path then False
      else \<not> list_ex DOT_SEGMENT (split_on (CHR ''/'') path))"

definition nonCanonicalRequestTargetRefusal :: "string option \<Rightarrow> response" where
  "nonCanonicalRequestTargetRefusal method =
     \<lparr>status = 400,
      body = (if method = Some ''HEAD'' then Null
              else Obj [(''error'', Str ''non_canonical_request_target''),
                        (''message'', Str (''the request target must be in canonical form: no '' @
                           [CHR 39] @ ''.'' @ [CHR 39] @ '' or '' @ [CHR 39] @ ''..'' @ [CHR 39] @
                           '' path segment, no repeated slashes (`//`), and no backslash''))]),
      headers = [(''content-type'', ''application/json'')]\<rparr>"

section \<open>Decoding\<close>

definition hex_val :: "char \<Rightarrow> nat option" where
  "hex_val c = digit_val c"

text \<open>The byte a leading percent escape stands for, and the rest of the string.\<close>

fun pct_byte :: "string \<Rightarrow> (nat \<times> string) option" where
  "pct_byte (p # a # b # s) =
     (if p \<noteq> CHR ''%'' then None
      else case (hex_val a, hex_val b) of (Some x, Some y) \<Rightarrow> Some (16 * x + y, s) | _ \<Rightarrow> None)"
| "pct_byte _ = None"

text \<open>The number of bytes of the UTF-8 sequence a lead byte opens.\<close>

definition utf8_len :: "nat \<Rightarrow> nat option" where
  "utf8_len b =
     (if b < 128 then Some 1 else if b < 192 then None else if b < 224 then Some 2
      else if b < 240 then Some 3 else if b < 248 then Some 4 else None)"

definition is_cont :: "nat \<Rightarrow> bool" where
  "is_cont b \<longleftrightarrow> 128 \<le> b \<and> b < 192"

fun utf8_value :: "nat list \<Rightarrow> nat" where
  "utf8_value [a] = a"
| "utf8_value [a, b] = (a - 192) * 64 + (b - 128)"
| "utf8_value [a, b, c] = (a - 224) * 4096 + (b - 128) * 64 + (c - 128)"
| "utf8_value [a, b, c, d] = (a - 240) * 262144 + (b - 128) * 4096 + (c - 128) * 64 + (d - 128)"
| "utf8_value _ = 0"

text \<open>No overlong form, no surrogate, nothing beyond U+10FFFF.\<close>

definition utf8_valid :: "nat list \<Rightarrow> bool" where
  "utf8_valid bs \<longleftrightarrow>
     list_all is_cont (tl bs) \<and>
     (let v = utf8_value bs in
      case length bs of
        Suc 0 \<Rightarrow> True
      | Suc (Suc 0) \<Rightarrow> 128 \<le> v
      | Suc (Suc (Suc 0)) \<Rightarrow> 2048 \<le> v \<and> \<not> (55296 \<le> v \<and> v < 57344)
      | _ \<Rightarrow> 65536 \<le> v \<and> v \<le> 1114111)"

fun pct_bytes :: "nat \<Rightarrow> string \<Rightarrow> (nat list \<times> string) option" where
  "pct_bytes 0 s = Some ([], s)"
| "pct_bytes (Suc n) s =
     (case pct_byte s of None \<Rightarrow> None
      | Some (b, s') \<Rightarrow> map_option (\<lambda>(bs, r). (b # bs, r)) (pct_bytes n s'))"

text \<open>
  \<open>decodeURIComponent\<close>: a raw character stands for itself; an escape must open a UTF-8 sequence
  that is escaped byte by byte. \<open>None\<close> is the \<open>URIError\<close>.
\<close>

lemma pct_byte_length: "pct_byte s = Some (b, r) \<Longrightarrow> length r < length s"
  by (induction s rule: pct_byte.induct) (auto split: if_splits option.splits)

lemma pct_bytes_length: "pct_bytes n s = Some (bs, r) \<Longrightarrow> length r \<le> length s"
  by (induction n arbitrary: s bs) (auto split: option.splits dest!: pct_byte_length; fastforce)+

function decodeURIComponent :: "string \<Rightarrow> string option" where
  "decodeURIComponent s =
     (case s of
        [] \<Rightarrow> Some []
      | c # cs \<Rightarrow>
          if c \<noteq> CHR ''%'' then map_option ((#) c) (decodeURIComponent cs)
          else case pct_byte s of
              None \<Rightarrow> None
            | Some (b, r1) \<Rightarrow>
                (case utf8_len b of
                   None \<Rightarrow> None
                 | Some n \<Rightarrow>
                     (case pct_bytes (n - 1) r1 of
                        None \<Rightarrow> None
                      | Some (bs, r) \<Rightarrow>
                          if utf8_valid (b # bs)
                          then map_option ((@) (map char_of (b # bs))) (decodeURIComponent r)
                          else None)))"
  by auto
termination
  by (relation "measure length") (auto dest!: pct_byte_length pct_bytes_length)

declare decodeURIComponent.simps [simp del]

definition decodePathSegment :: "string \<Rightarrow> string option" where
  "decodePathSegment segment = decodeURIComponent segment"

section \<open>Routing\<close>

definition rawPathSegments :: "string \<Rightarrow> string list" where
  "rawPathSegments path = filter (\<lambda>s. s \<noteq> []) (split_on (CHR ''/'') path)"

definition lastRawPathSegment :: "string \<Rightarrow> string" where
  "lastRawPathSegment path = rev (takeWhile (\<lambda>c. c \<noteq> CHR ''/'') (rev path))"

definition routedResourceAndRemainder :: "string \<Rightarrow> string \<times> string" where
  "routedResourceAndRemainder path =
     (let p = (if starts_with ''/'' path then drop 1 path else path) in
      case index_of_char (CHR ''/'') p of
        None \<Rightarrow> (p, [])
      | Some slash \<Rightarrow> (take slash p, drop (slash + 1) p))"

definition routedRecordId :: "string \<Rightarrow> (string \<times> string) option" where
  "routedRecordId path =
     (let (resource, remainder) = routedResourceAndRemainder path in
      if remainder = [] \<or> last remainder = CHR ''/'' then None
      else case decodeURIComponent remainder of
          None \<Rightarrow> None
        | Some rid \<Rightarrow> if rid = [] then None else Some (resource, rid))"

definition routedIdAfterPropertyRule :: "string \<Rightarrow> string set \<Rightarrow> string" where
  "routedIdAfterPropertyRule rid declaredAttributes =
     (case index_of_char (CHR ''.'') rid of
        Some dot \<Rightarrow> if drop (dot + 1) rid \<in> declaredAttributes then take dot rid else rid
      | None \<Rightarrow> rid)"

definition routedFirstResourceName :: "string \<Rightarrow> (string \<Rightarrow> bool) \<Rightarrow> string" where
  "routedFirstResourceName path isKnown =
     (let seg = (case rawPathSegments path of [] \<Rightarrow> [] | s # _ \<Rightarrow> s) in
      if isKnown seg then seg
      else case index_of_char (CHR ''.'') seg of
          Some dot \<Rightarrow> if isKnown (take dot seg) then take dot seg else seg
        | None \<Rightarrow> seg)"

definition routedResourcePath :: "string \<Rightarrow> string set \<Rightarrow> string" where
  "routedResourcePath path known =
     (case rawPathSegments path of
        [] \<Rightarrow> path
      | first # _ \<Rightarrow>
          let name = routedFirstResourceName path (\<lambda>n. n \<in> known) in
          if name = first then path else ''/'' @ name @ drop (1 + length first) path)"

section \<open>Canonical targets have no dot segments, in any encoding\<close>

lemma code_eqD: "code c = n \<Longrightarrow> code d = n \<Longrightarrow> c = d"
  by (metis char_of_char code_def)

lemma digit_val_less: "digit_val c = Some d \<Longrightarrow> d < 16"
  by (auto simp: digit_val_def split: if_splits)

lemma digit_val_2: assumes "digit_val c = Some 2" shows "c = CHR ''2''"
proof (rule code_eqD)
  show "code c = 50" using assms by (auto simp: digit_val_def split: if_splits)
qed (simp add: code_def)

lemma digit_val_14: assumes "digit_val c = Some 14" shows "c = CHR ''e'' \<or> c = CHR ''E''"
proof -
  have "code c = 69 \<or> code c = 101" using assms by (auto simp: digit_val_def split: if_splits)
  then show ?thesis
    using code_eqD [of c 69 "CHR ''E''"] code_eqD [of c 101 "CHR ''e''"] by (auto simp: code_def)
qed

lemma pct_byte_Some:
  assumes "pct_byte s = Some (b, r)"
  obtains x y a c where "s = CHR ''%'' # a # c # r" "digit_val a = Some x" "digit_val c = Some y"
    "b = 16 * x + y" "b < 256"
proof -
  from assms obtain a c x y where s: "s = CHR ''%'' # a # c # r" "digit_val a = Some x"
      "digit_val c = Some y" "b = 16 * x + y"
    by (cases s rule: pct_byte.cases) (auto simp: hex_val_def split: if_splits option.splits)
  then have "b < 256" using digit_val_less [of a x] digit_val_less [of c y] by simp
  with s that show thesis by blast
qed

lemma decode_Nil [simp]: "decodeURIComponent [] = Some []"
  by (simp add: decodeURIComponent.simps)

lemma decode_raw:
  "c \<noteq> CHR ''%'' \<Longrightarrow> decodeURIComponent (c # s) = map_option ((#) c) (decodeURIComponent s)"
  by (subst decodeURIComponent.simps) simp

lemma decode_eq_Nil: "decodeURIComponent s = Some [] \<longleftrightarrow> s = []"
  by (subst decodeURIComponent.simps) (auto split: list.splits option.splits if_splits)

lemma decode_dotD:
  assumes "decodeURIComponent s = Some (CHR ''.'' # d)"
  shows "\<exists>s'. dot_unit s = Some s' \<and> decodeURIComponent s' = Some d"
proof (cases s)
  case (Cons c cs)
  show ?thesis
  proof (cases "c = CHR ''%''")
    case False
    then show ?thesis using assms Cons
      by (auto simp: decode_raw dot_unit.simps starts_with_def)
  next
    case True
    from assms obtain b r1 n bs r e where p: "pct_byte s = Some (b, r1)" "utf8_len b = Some n"
        "pct_bytes (n - 1) r1 = Some (bs, r)" "decodeURIComponent r = Some e"
        "char_of b # map char_of bs @ e = CHR ''.'' # d"
      by (subst (asm) decodeURIComponent.simps)
         (use Cons True in \<open>auto split: option.splits if_splits prod.splits\<close>)
    from p(1) obtain x y a c' where s: "s = CHR ''%'' # a # c' # r1" "digit_val a = Some x"
        "digit_val c' = Some y" "b = 16 * x + y" "b < 256"
      by (rule pct_byte_Some)
    from p(5) have "(of_char (char_of b :: char) :: nat) = of_char (CHR ''.'')" by simp
    then have b: "b = 46" using s(5) by simp
    with p have n: "n = 1" "bs = []" "r = r1" by (auto simp: utf8_len_def)
    from b s(4) digit_val_less [OF s(2)] digit_val_less [OF s(3)] have "x = 2" "y = 14" by arith+
    then have "a = CHR ''2''" "c' = CHR ''e'' \<or> c' = CHR ''E''"
      using s(2,3) digit_val_2 digit_val_14 by auto
    then show ?thesis using s(1) p(4,5) n by (auto simp: dot_unit.simps starts_with_def)
  qed
qed (use assms in simp)

lemma decoded_dot_segment:
  assumes "decodeURIComponent s = Some d" "d = ''.'' \<or> d = ''..''" shows "DOT_SEGMENT s"
proof -
  from assms obtain d' where "d = CHR ''.'' # d'" "d' = [] \<or> d' = ''.''" by auto
  with decode_dotD [of s d'] assms(1) obtain s' where
    "dot_unit s = Some s'" "decodeURIComponent s' = Some d'" by auto
  with \<open>d' = [] \<or> d' = ''.''\<close> decode_dotD [of s' "[]"] show ?thesis
    by (auto simp: DOT_SEGMENT_def decode_eq_Nil split: option.splits)
qed

text \<open>No segment of a canonical request target decodes to a dot segment, however the dots
  are written: a router that splits the path and decodes each piece never sees \<open>.\<close> or
  \<open>..\<close>. \<close>

theorem canonical_target_no_dot_segment:
  assumes "isCanonicalRequestTarget t"
    and "seg \<in> set (split_on (CHR ''/'') (requestPath t))" "decodePathSegment seg = Some d"
  shows "d \<noteq> ''.'' \<and> d \<noteq> ''..''"
  using assms decoded_dot_segment [of seg d]
  by (auto simp: isCanonicalRequestTarget_def decodePathSegment_def Let_def list_ex_iff
           split: if_splits)

lemma canonical_target_no_dot_segment_witness:
  "isCanonicalRequestTarget ''/Soul/%2e%2fx?..'' \<and>
   decodePathSegment ''%2e%2fx'' = Some ''./x'' \<and> (''./x'' :: string) \<noteq> ''..''"
proof -
  have c: "isCanonicalRequestTarget ''/Soul/%2e%2fx?..''" by code_simp
  have s: "''%2e%2fx'' \<in> set (split_on (CHR ''/'') (requestPath ''/Soul/%2e%2fx?..''))"
    by code_simp
  have d: "decodePathSegment ''%2e%2fx'' = Some ''./x''" by code_simp
  show ?thesis using c d canonical_target_no_dot_segment [OF c s d] by simp
qed

section \<open>An encoded record id is routed to exactly that id\<close>

text \<open>\<open>encodeURIComponent\<close> of UTF-8 text, byte by byte.\<close>

definition unreserved :: "char \<Rightarrow> bool" where
  "unreserved c \<longleftrightarrow> (48 \<le> code c \<and> code c \<le> 57) \<or> (65 \<le> code c \<and> code c \<le> 90) \<or>
     (97 \<le> code c \<and> code c \<le> 122) \<or> c \<in> set ''-_.!~*()'' \<or> c = CHR 39"

definition hex_digit :: "nat \<Rightarrow> char" where
  "hex_digit n = (if n < 10 then char_of (n + 48) else char_of (n + 55))"

definition encode_char :: "char \<Rightarrow> string" where
  "encode_char c =
     (if unreserved c then [c]
      else [CHR ''%'', hex_digit (code c div 16), hex_digit (code c mod 16)])"

definition encodeURIComponent :: "string \<Rightarrow> string" where
  "encodeURIComponent s = concat (map encode_char s)"

lemma code_less: "code c < 256"
  by (simp add: code_def of_char_def)

lemma digit_val_hex_digit: "n < 16 \<Longrightarrow> digit_val (hex_digit n) = Some n"
  by (auto simp: digit_val_def hex_digit_def code_def)

lemma unreserved_not_pct: "unreserved c \<Longrightarrow> c \<noteq> CHR ''%''" "unreserved c \<Longrightarrow> c \<noteq> CHR ''/''"
  by (auto simp: unreserved_def code_def)

lemma decode_encode_char:
  assumes "code c < 128"
  shows "decodeURIComponent (encode_char c @ s) = map_option ((#) c) (decodeURIComponent s)"
proof (cases "unreserved c")
  case True
  then show ?thesis by (simp add: encode_char_def decode_raw unreserved_not_pct)
next
  case False
  let ?s = "CHR ''%'' # hex_digit (code c div 16) # hex_digit (code c mod 16) # s"
  have "pct_byte ?s = Some (code c, s)"
    using assms by (simp add: hex_val_def digit_val_hex_digit)
  then have "decodeURIComponent ?s = map_option ((@) (map char_of [code c])) (decodeURIComponent s)"
    using assms by (subst decodeURIComponent.simps) (simp add: utf8_len_def utf8_valid_def)
  then show ?thesis using False
    by (cases "decodeURIComponent s") (simp_all add: encode_char_def code_def)
qed

lemma decode_encode: "\<forall>c \<in> set s. code c < 128 \<Longrightarrow> decodeURIComponent (encodeURIComponent s) = Some s"
  by (induction s) (auto simp: encodeURIComponent_def decode_encode_char)

lemma hex_digit_not_slash: "n < 16 \<Longrightarrow> hex_digit n \<noteq> CHR ''/''"
  using digit_val_hex_digit [of n] by (auto simp: digit_val_def code_def)

lemma encode_char_no_slash: "CHR ''/'' \<notin> set (encode_char c)"
proof -
  have "code c div 16 < 16" using code_less [of c] by (simp add: div_less_iff_less_mult)
  then show ?thesis
    using hex_digit_not_slash [of "code c div 16"] hex_digit_not_slash [of "code c mod 16"]
      unreserved_not_pct(2) [of c]
    by (auto simp: encode_char_def)
qed

lemma encode_no_slash: "CHR ''/'' \<notin> set (encodeURIComponent s)"
  by (auto simp: encodeURIComponent_def encode_char_no_slash)

lemma index_of_char_first: "c \<notin> set a \<Longrightarrow> index_of_char c (a @ c # b) = Some (length a)"
  by (induction a) auto

text \<open>Addressing a record by its percent-encoded id reaches exactly that record: for
  every non-empty ASCII id, slashes, dots, spaces and percent signs included, the path
  \<open>/<resource>/<encoded id>\<close> is routed to the resource and the id itself. \<close>

theorem routed_record_roundtrip:
  assumes "CHR ''/'' \<notin> set resource" "rid \<noteq> []" "\<forall>c \<in> set rid. code c < 128"
  shows "routedRecordId (''/'' @ resource @ ''/'' @ encodeURIComponent rid) = Some (resource, rid)"
proof -
  have ne: "encodeURIComponent rid \<noteq> []"
    using assms(2) by (cases rid) (auto simp: encodeURIComponent_def encode_char_def)
  then have "last (encodeURIComponent rid) \<noteq> CHR ''/''"
    using encode_no_slash [of rid] by (metis last_in_set)
  then show ?thesis using assms ne
    by (simp add: routedRecordId_def routedResourceAndRemainder_def starts_with_def
        index_of_char_first decode_encode)
qed

lemma routed_record_roundtrip_witness:
  "encodeURIComponent ''a/b %'' = ''a%2Fb%20%25'' \<and>
   routedRecordId ''/Memory/a%2Fb%20%25'' = Some (''Memory'', ''a/b %'')"
proof -
  have e: "encodeURIComponent ''a/b %'' = ''a%2Fb%20%25''" by code_simp
  have "routedRecordId (''/'' @ ''Memory'' @ ''/'' @ encodeURIComponent ''a/b %'')
      = Some (''Memory'', ''a/b %'')"
    by (rule routed_record_roundtrip) (auto simp: code_def)
  then show ?thesis by (simp add: e)
qed

end
