(* ===== verification/OwnerGuard.thy ===== *)
theory OwnerGuard
  imports RequestTarget
begin

text \<open>
  Record ownership (\<open>resources/record-owner-guard.ts\<close>), the owner-field delegate
  (\<open>resources/owner-field-guard.ts\<close>) and the guard on permission-marked writes
  (\<open>resources/owner-scoped-write-policy.ts\<close>).

  The resolution of the caller, the read of the stored row, the read of the body and the
  inherited \<open>getResource\<close> are Harper's and are fields of \<open>owner_deps\<close>, each able to throw
  (\<open>Inl\<close>). A class of the table registry is a value of \<open>table_class\<close>; distinct names are
  distinct classes.
\<close>

section \<open>The rule\<close>

definition OWNER_FIELDS :: "(string \<times> string) list" where
  "OWNER_FIELDS =
     [(''AgentReadPosition'', ''agentId''), (''Asset'', ''agentId''),
      (''Credential'', ''principalId''), (''Integration'', ''agentId''), (''Memory'', ''agentId''),
      (''MemoryCandidate'', ''agentId''), (''MemoryGrant'', ''ownerId''),
      (''MemoryUsage'', ''agentId''), (''Message'', ''from''), (''OAuthAuthCode'', ''principalId''),
      (''OAuthToken'', ''principalId''), (''OrgEvent'', ''authorId''), (''Presence'', ''agentId''),
      (''Relationship'', ''agentId''), (''Soul'', ''agentId''), (''WorkspaceState'', ''agentId'')]"

definition MUTATING_METHODS :: "string list" where
  "MUTATING_METHODS = [''POST'', ''PUT'', ''PATCH'', ''DELETE'']"

text \<open>\<open>toUpperCase\<close> of ASCII text, which every HTTP method token is.\<close>

definition upper_char :: "char \<Rightarrow> char" where
  "upper_char c = (if 97 \<le> code c \<and> code c \<le> 122 then char_of (code c - 32) else c)"

definition isMutatingMethod :: "string \<Rightarrow> bool" where
  "isMutatingMethod m = (map upper_char m \<in> set MUTATING_METHODS)"

record guarded_record =
  gtable :: string
  gownerField :: string
  gid :: string

definition resolveGuardedRecordById :: "string \<Rightarrow> string option \<Rightarrow> guarded_record option" where
  "resolveGuardedRecordById resource rid =
     (case rid of
        None \<Rightarrow> None
      | Some i \<Rightarrow>
          if i = [] then None
          else case map_of OWNER_FIELDS resource of
              None \<Rightarrow> None
            | Some ownerField \<Rightarrow>
                if ownerField = [] then None
                else Some \<lparr>gtable = resource, gownerField = ownerField, gid = i\<rparr>)"

definition resolveGuardedRecord :: "string \<Rightarrow> guarded_record option" where
  "resolveGuardedRecord pathname =
     (case routedRecordId pathname of
        None \<Rightarrow> None
      | Some (resource, i) \<Rightarrow> resolveGuardedRecordById resource (Some i))"

definition isForbiddenOwnerMutation :: "js \<Rightarrow> string \<Rightarrow> js \<Rightarrow> bool" where
  "isForbiddenOwnerMutation rec ownerField callerAgentId =
     (if \<not> truthy rec then False
      else let owner = field rec ownerField in
        if nullish owner \<or> owner = Str [] then True
        else \<not> strict_eq owner callerAgentId)"

definition ownerMutationRefusal :: "string \<Rightarrow> response" where
  "ownerMutationRefusal table =
     json_response 403 (Obj [(''error'',
       Str (''forbidden: cannot modify '' @ table @ '' owned by another principal''))])"

definition collectionWriteRefusal :: "string \<Rightarrow> response" where
  "collectionWriteRefusal table =
     json_response 403 (Obj [(''error'',
       Str (''forbidden: a non-admin write to '' @ table @ '' must address one record by its id''))])"

definition ownerCheckUnavailable :: "js \<Rightarrow> response" where
  "ownerCheckUnavailable err =
     (let st = (case field err ''statusCode'' of
                  Num n \<Rightarrow> if jle (jint 400) n \<and> jlt n (jint 500) then 400 else 503
                | _ \<Rightarrow> 503) in
      \<lparr>status = st,
       body = Obj [(''error'', Str ''owner_check_unavailable''),
                   (''message'', Str ''the stored record could not be read; the write was refused'')],
       headers = [(''content-type'', ''application/json'')]\<rparr>)"

definition isForbiddenOwnerFieldChange :: "js \<Rightarrow> js \<Rightarrow> string \<Rightarrow> bool" where
  "isForbiddenOwnerFieldChange rec requested ownerField =
     (if \<not> truthy rec then False
      else if nullish requested \<or> \<not> is_object requested then False
      else if \<not> has_own requested ownerField then False
      else \<not> strict_eq (field requested ownerField) (field rec ownerField))"

definition guardOwnerFieldImmutable ::
    "auth_verdict \<Rightarrow> js + js \<Rightarrow> js \<Rightarrow> string \<Rightarrow> response option" where
  "guardOwnerFieldImmutable auth existing content ownerField =
     (case auth of
        Internal \<Rightarrow> None
      | Anonymous \<Rightarrow> Some \<lparr>status = 401, body = Obj [(''error'', Str ''authentication required'')],
                          headers = [(''content-type'', ''application/json'')]\<rparr>
      | Agent a admin \<Rightarrow>
          if admin then None
          else case existing of
              Inl err \<Rightarrow> Some (ownerCheckUnavailable err)
            | Inr v \<Rightarrow>
                if isForbiddenOwnerFieldChange (coalesce v Null) content ownerField
                then Some \<lparr>status = 403,
                       body = Obj [(''error'', Str ''forbidden: the owner of a record cannot be changed'')],
                       headers = [(''content-type'', ''application/json'')]\<rparr>
                else None)"

section \<open>Admitting one write\<close>

text \<open>What a rejected write carries: a response, a named error, or whatever a dependency threw.\<close>

datatype refusal = RespRefusal response | ErrorRefusal string nat | Thrown js

record 'c owner_deps =
  resolveAuth :: "'c \<Rightarrow> js + auth_verdict"
  readStored :: "string \<Rightarrow> js \<Rightarrow> js + js"
  unreadable :: "js \<Rightarrow> response"
  readBody :: "'c \<Rightarrow> js + js"
  refuseReservedWrite :: "(string \<Rightarrow> string \<Rightarrow> js \<Rightarrow> 'c \<Rightarrow> js + response option) option"

definition GUARDED_WRITE_METHODS :: "string list" where
  "GUARDED_WRITE_METHODS = [''put'', ''patch'', ''delete'', ''post'']"

definition STORED_RECORD_METHODS :: "string list" where
  "STORED_RECORD_METHODS = [''put'', ''patch'', ''delete'']"

definition BODY_ID_METHODS :: "string list" where
  "BODY_ID_METHODS = [''put'', ''patch'', ''post'']"

definition isRequestEntryTarget :: "js \<Rightarrow> bool" where
  "isRequestEntryTarget target =
     (if nullish target \<or> \<not> is_object target then False
      else let permission = field target ''checkPermission'' in
        \<not> nullish permission \<and> permission \<noteq> Bool False)"

definition addressesNoSingleRecord :: "js \<Rightarrow> bool" where
  "addressesNoSingleRecord target =
     (field target ''isCollection'' = Bool True \<or> nullish (field target ''id''))"

definition unverifiedWriteCallerRefusal :: "string \<Rightarrow> refusal" where
  "unverifiedWriteCallerRefusal table = ErrorRefusal
     (''the caller of this '' @ table @ '' write could not be verified, so it was refused; retry'') 500"

definition writeBodyUnreadableRefusal :: "string \<Rightarrow> response" where
  "writeBodyUnreadableRefusal table =
     json_response 400 (Obj [(''error'', Str ''write_body_unreadable''),
       (''message'', Str (''the '' @ table @ '' write'' @ [CHR 39] @
          ''s body could not be read, so the record it names could not be checked''))])"

definition writeIdNotAddressedRefusal :: response where
  "writeIdNotAddressedRefusal =
     json_response 403 (Obj [(''error'', Str ''write_id_not_addressed''),
       (''message'', Str ''a write may name only the record it addresses'')])"

definition idTargetMismatchRefusal :: response where
  "idTargetMismatchRefusal =
     json_response 400 (Obj [(''error'', Str ''id_target_mismatch''),
       (''message'', Str ''the request body id does not match the address it was sent to'')])"

fun isScalarId :: "js \<Rightarrow> bool" where
  "isScalarId (Str _) = True"
| "isScalarId (Num _) = True"
| "isScalarId _ = False"

fun isAddressedKey :: "js \<Rightarrow> js \<Rightarrow> bool" where
  "isAddressedKey (Arr ts) (Arr xs) = (length ts = length xs \<and> list_all2 strict_eq ts xs)"
| "isAddressedKey t x = (isScalarId t \<and> isScalarId x \<and> js_String x = js_String t)"

fun body_record_refusal :: "js \<Rightarrow> js \<Rightarrow> response option" where
  "body_record_refusal targetId (Obj kvs) =
     (let i = getp kvs ''id'' in
      if nullish i \<or> isAddressedKey targetId i then None
      else Some (if isScalarId i \<and> isScalarId targetId then writeIdNotAddressedRefusal
                 else idTargetMismatchRefusal))"
| "body_record_refusal targetId _ = None"

fun first_refusal :: "js \<Rightarrow> js list \<Rightarrow> response option" where
  "first_refusal targetId [] = None"
| "first_refusal targetId (r # rs) =
     (case body_record_refusal targetId r of None \<Rightarrow> first_refusal targetId rs | Some x \<Rightarrow> Some x)"

definition body_records :: "js \<Rightarrow> js list" where
  "body_records b = (case b of Arr vs \<Rightarrow> vs | _ \<Rightarrow> [b])"

definition bodyIdRefusal :: "js \<Rightarrow> js \<Rightarrow> response option" where
  "bodyIdRefusal targetId b =
     (if nullish targetId \<or> nullish b \<or> \<not> is_object b then None
      else first_refusal targetId (body_records b))"

definition admitOwnerScopedWrite ::
    "string \<Rightarrow> string \<Rightarrow> string \<Rightarrow> js \<Rightarrow> 'c \<Rightarrow> 'c owner_deps \<Rightarrow> refusal + unit" where
  "admitOwnerScopedWrite table ownerField method target ctx deps =
     (case resolveAuth deps ctx of
        Inl _ \<Rightarrow> Inl (unverifiedWriteCallerRefusal table)
      | Inr Internal \<Rightarrow> Inr ()
      | Inr Anonymous \<Rightarrow> Inr ()
      | Inr (Agent caller admin) \<Rightarrow>
          if admin then Inr ()
          else case (case refuseReservedWrite deps of
                       None \<Rightarrow> Inr None | Some f \<Rightarrow> f table method target ctx) of
              Inl err \<Rightarrow> Inl (Thrown err)
            | Inr (Some reserved) \<Rightarrow> Inl (RespRefusal reserved)
            | Inr None \<Rightarrow>
                if addressesNoSingleRecord target
                then (if method \<in> set STORED_RECORD_METHODS
                      then Inl (RespRefusal (collectionWriteRefusal table)) else Inr ())
                else
                  let targetId = field target ''id'';
                      idRefusal =
                        (if method \<in> set BODY_ID_METHODS
                         then (case readBody deps ctx of
                                 Inl _ \<Rightarrow> Some (writeBodyUnreadableRefusal table)
                               | Inr b \<Rightarrow> bodyIdRefusal targetId b)
                         else None) in
                  case idRefusal of
                    Some r \<Rightarrow> Inl (RespRefusal r)
                  | None \<Rightarrow>
                      (case readStored deps table targetId of
                         Inl err \<Rightarrow> Inl (RespRefusal (unreadable deps err))
                       | Inr stored \<Rightarrow>
                           if isForbiddenOwnerMutation stored ownerField (Str caller)
                           then Inl (RespRefusal (ownerMutationRefusal table))
                           else Inr ()))"

section \<open>Installing the guard\<close>

text \<open>
  An entry of the registry: something that is not a class, or a class with its guard marker and
  its \<open>getResource\<close>, if it has one. A call of \<open>getResource\<close> returns a resource or rejects.
\<close>

type_synonym ('c, 'r) get_resource = "js \<Rightarrow> 'c \<Rightarrow> js \<Rightarrow> refusal + 'r"

datatype ('c, 'r) registry_entry = NotAClass | TableClass bool "('c, 'r) get_resource option"

type_synonym ('c, 'r) registry = "(string \<times> ('c, 'r) registry_entry) list"

definition guarded_getResource ::
    "string \<Rightarrow> string \<Rightarrow> 'c owner_deps \<Rightarrow> ('c, 'r) get_resource \<Rightarrow> ('c, 'r) get_resource" where
  "guarded_getResource name ownerField deps inherited target ctx options =
     (case field options ''method'' of
        Str method \<Rightarrow>
          if method \<notin> set GUARDED_WRITE_METHODS \<or> \<not> isRequestEntryTarget target
          then inherited target ctx options
          else (case admitOwnerScopedWrite name ownerField method target ctx deps of
                  Inl r \<Rightarrow> Inl r | Inr _ \<Rightarrow> inherited target ctx options)
      | _ \<Rightarrow> inherited target ctx options)"

fun guard_one ::
    "'c owner_deps \<Rightarrow> string \<times> string \<Rightarrow> ('c, 'r) registry \<times> string list \<Rightarrow>
     ('c, 'r) registry \<times> string list" where
  "guard_one deps (name, ownerField) (tables, guarded) =
     (case map_of tables name of
        None \<Rightarrow> (tables, guarded)
      | Some NotAClass \<Rightarrow> (tables, guarded)
      | Some (TableClass True g) \<Rightarrow> (tables, guarded @ [name])
      | Some (TableClass False None) \<Rightarrow> (tables, guarded)
      | Some (TableClass False (Some inherited)) \<Rightarrow>
          (AList.update name (TableClass True (Some (guarded_getResource name ownerField deps inherited)))
             tables, guarded @ [name]))"

definition guardOwnerScopedWrites ::
    "('c, 'r) registry \<Rightarrow> (string \<times> string) list \<Rightarrow> 'c owner_deps \<Rightarrow> ('c, 'r) registry \<times> string list" where
  "guardOwnerScopedWrites tables ownerFields deps = fold (guard_one deps) ownerFields (tables, [])"

definition ownerScopedWriteGuardGaps ::
    "('c, 'r) registry \<Rightarrow> (string \<times> string) list \<Rightarrow> string list \<Rightarrow> string list" where
  "ownerScopedWriteGuardGaps tables ownerFields guarded =
     (if tables = [] then [''the flair table registry is missing or empty'']
      else map (\<lambda>n. n @ '' is not a table class with a getResource() to guard'')
             (filter (\<lambda>n. n \<notin> set guarded) (map fst ownerFields)))"

section \<open>What an admitted write may touch\<close>

lemma not_forbidden_iff:
  "\<not> isForbiddenOwnerMutation rec f (Str a) \<longleftrightarrow> \<not> truthy rec \<or> (field rec f = Str a \<and> a \<noteq> [])"
  by (auto simp: isForbiddenOwnerMutation_def Let_def)

lemma first_refusal_None:
  "first_refusal t rs = None \<longleftrightarrow> (\<forall>r \<in> set rs. body_record_refusal t r = None)"
  by (induction rs) (auto split: option.splits)

lemma body_record_refusal_None:
  "body_record_refusal t (Obj kvs) = None \<longleftrightarrow>
     nullish (getp kvs ''id'') \<or> isAddressedKey t (getp kvs ''id'')"
  by (simp add: Let_def)

lemma bodyIdRefusal_None:
  assumes "bodyIdRefusal t b = None" "\<not> nullish t" "Obj kvs \<in> set (body_records b)"
  shows "nullish (getp kvs ''id'') \<or> isAddressedKey t (getp kvs ''id'')"
proof -
  have "first_refusal t (body_records b) = None"
    using assms by (cases b) (auto simp: bodyIdRefusal_def body_records_def)
  then have "body_record_refusal t (Obj kvs) = None"
    using assms(3) unfolding first_refusal_None by blast
  then show ?thesis unfolding body_record_refusal_None .
qed

text \<open>C31. A write that a verified non-admin agent addresses to one record of an owner-scoped
  table is admitted only if the stored row could be read and is absent or owned by exactly that
  agent, and only if, for PUT, PATCH and POST, the body could be read and every object in it names
  no id or the addressed one. \<close>

theorem admitted_write_is_owned:
  assumes "resolveAuth deps ctx = Inr (Agent a False)" "\<not> addressesNoSingleRecord target"
    and "admitOwnerScopedWrite table f method target ctx deps = Inr ()"
  shows "(\<exists>stored. readStored deps table (field target ''id'') = Inr stored \<and>
            (truthy stored \<longrightarrow> field stored f = Str a \<and> a \<noteq> [])) \<and>
         (method \<in> set BODY_ID_METHODS \<longrightarrow>
            (\<exists>b. readBody deps ctx = Inr b \<and>
              (\<forall>kvs. Obj kvs \<in> set (body_records b) \<longrightarrow>
                 nullish (getp kvs ''id'') \<or>
                 isAddressedKey (field target ''id'') (getp kvs ''id''))))"
  using assms not_forbidden_iff [of _ f a] bodyIdRefusal_None [of "field target ''id''"]
  by (auto simp: admitOwnerScopedWrite_def addressesNoSingleRecord_def Let_def
           split: if_splits sum.splits option.splits)

lemma admitted_write_is_owned_witness:
  "\<exists>deps :: unit owner_deps. let target = Obj [(''id'', Str ''m1'')] in
     admitOwnerScopedWrite ''Memory'' ''agentId'' ''put'' target () deps = Inr () \<and>
     readStored deps ''Memory'' (Str ''m1'') = Inr (Obj [(''agentId'', Str ''alice'')]) \<and>
     field (Obj [(''agentId'', Str ''alice'')]) ''agentId'' = Str ''alice''"
proof -
  let ?d = "\<lparr>resolveAuth = \<lambda>_. Inr (Agent ''alice'' False),
     readStored = \<lambda>_ _. Inr (Obj [(''agentId'', Str ''alice'')]),
     unreadable = ownerCheckUnavailable, readBody = \<lambda>_. Inr (Obj [(''id'', Str ''m1'')]),
     refuseReservedWrite = None\<rparr> :: unit owner_deps"
  let ?t = "Obj [(''id'', Str ''m1'')]"
  have 1: "resolveAuth ?d () = Inr (Agent ''alice'' False)" by simp
  have 2: "\<not> addressesNoSingleRecord ?t" by (simp add: addressesNoSingleRecord_def)
  have 3: "admitOwnerScopedWrite ''Memory'' ''agentId'' ''put'' ?t () ?d = Inr ()"
    by (simp add: admitOwnerScopedWrite_def addressesNoSingleRecord_def bodyIdRefusal_def
        body_records_def isForbiddenOwnerMutation_def BODY_ID_METHODS_def)
  show ?thesis using admitted_write_is_owned [OF 1 2 3] 3 by (intro exI [of _ ?d]) simp
qed

text \<open>A write by a non-admin agent that addresses a whole collection is never admitted as
  PUT, PATCH or DELETE, and a caller that cannot be resolved is admitted for nothing. \<close>

theorem collection_and_unresolved_refused:
  "(resolveAuth deps ctx = Inr (Agent a False) \<and> addressesNoSingleRecord target \<and>
      method \<in> set STORED_RECORD_METHODS \<longrightarrow>
    (\<exists>r. admitOwnerScopedWrite table f method target ctx deps = Inl r \<and>
         (refuseReservedWrite deps = None \<longrightarrow> r = RespRefusal (collectionWriteRefusal table)))) \<and>
   (\<forall>e. resolveAuth deps ctx = Inl e \<longrightarrow>
      admitOwnerScopedWrite table f method target ctx deps = Inl (unverifiedWriteCallerRefusal table))"
  by (auto simp: admitOwnerScopedWrite_def split: option.splits sum.splits)

lemma collection_and_unresolved_refused_witness:
  "let d = \<lparr>resolveAuth = \<lambda>c. if c then Inr (Agent ''alice'' False) else Inl Undef,
     readStored = \<lambda>_ _. Inr Null, unreadable = ownerCheckUnavailable, readBody = \<lambda>_. Inr Undef,
     refuseReservedWrite = None\<rparr> in
   admitOwnerScopedWrite ''Soul'' ''agentId'' ''delete'' (Obj []) True d
     = Inl (RespRefusal (collectionWriteRefusal ''Soul'')) \<and>
   admitOwnerScopedWrite ''Soul'' ''agentId'' ''delete'' (Obj []) False d
     = Inl (unverifiedWriteCallerRefusal ''Soul'')"
proof -
  let ?d = "\<lparr>resolveAuth = \<lambda>c. if c then Inr (Agent ''alice'' False) else Inl Undef,
     readStored = \<lambda>_ _. Inr Null, unreadable = ownerCheckUnavailable, readBody = \<lambda>_. Inr Undef,
     refuseReservedWrite = None\<rparr> :: bool owner_deps"
  have p: "resolveAuth ?d True = Inr (Agent ''alice'' False) \<and> addressesNoSingleRecord (Obj []) \<and>
      ''delete'' \<in> set STORED_RECORD_METHODS"
    by (simp add: addressesNoSingleRecord_def STORED_RECORD_METHODS_def)
  have q: "resolveAuth ?d False = Inl Undef" by simp
  show ?thesis
    using collection_and_unresolved_refused [of ?d True "''alice''" "Obj []" "''delete''" "''Soul''" "''agentId''"] p
      collection_and_unresolved_refused [of ?d False "''alice''" "Obj []" "''delete''" "''Soul''" "''agentId''"] q
    by (auto simp: Let_def)
qed

section \<open>The owner survives an admitted write\<close>

text \<open>The row a full or partial write leaves: the body's properties over the stored ones.\<close>

definition merged_row :: "jobj \<Rightarrow> jobj \<Rightarrow> jobj" where
  "merged_row stored content = fold (\<lambda>(k, v) r. AList.update k v r) content stored"

lemma getp_fold_update:
  "distinct (map fst c) \<Longrightarrow>
   getp (fold (\<lambda>(k, v) r. AList.update k v r) c s) x = (if x \<in> fst ` set c then getp c x else getp s x)"
proof (induction c arbitrary: s)
  case (Cons kv c)
  obtain k v where "kv = (k, v)" by fastforce
  with Cons show ?case by auto
qed simp

lemma has_own_Obj [simp]: "has_own (Obj kvs) k \<longleftrightarrow> k \<in> fst ` set kvs"
  by (simp add: map_of_eq_None_iff)

text \<open>Ownership of a stored row cannot be given away: when a row owned by the verified
  non-admin caller is written with a body that the owner-field delegate lets through, the merged
  row is still owned by the caller. \<close>

theorem owner_survives_write:
  assumes "\<not> isForbiddenOwnerMutation (Obj stored) f (Str a)" "distinct (map fst content)"
    and "guardOwnerFieldImmutable (Agent a False) (Inr (Obj stored)) (Obj content) f = None"
  shows "getp (merged_row stored content) f = Str a"
  using assms
  by (auto simp: merged_row_def getp_fold_update not_forbidden_iff guardOwnerFieldImmutable_def
      isForbiddenOwnerFieldChange_def coalesce_def split: if_splits)

lemma owner_survives_write_witness:
  "getp (merged_row [(''id'', Str ''s1''), (''agentId'', Str ''alice'')]
     [(''value'', Str ''v''), (''agentId'', Str ''alice'')]) ''agentId'' = Str ''alice''"
  by (rule owner_survives_write)
     (simp_all add: isForbiddenOwnerMutation_def guardOwnerFieldImmutable_def coalesce_def
        isForbiddenOwnerFieldChange_def)

section \<open>The installation\<close>

definition guardable :: "('c, 'r) registry_entry option \<Rightarrow> bool" where
  "guardable e \<longleftrightarrow> (\<exists>g. e = Some (TableClass True g)) \<or> (\<exists>g. e = Some (TableClass False (Some g)))"

lemma guardable_simps [simp]:
  "\<not> guardable None" "\<not> guardable (Some NotAClass)" "guardable (Some (TableClass True g))"
  "guardable (Some (TableClass False (Some h)))" "\<not> guardable (Some (TableClass False None))"
  by (auto simp: guardable_def)

definition guarded_entry ::
    "'c owner_deps \<Rightarrow> string \<Rightarrow> string \<Rightarrow> ('c, 'r) registry_entry option \<Rightarrow> ('c, 'r) registry_entry option" where
  "guarded_entry deps n f e =
     (case e of Some (TableClass False (Some g)) \<Rightarrow>
        Some (TableClass True (Some (guarded_getResource n f deps g))) | _ \<Rightarrow> e)"

lemma guardable_entry: "guardable (guarded_entry deps n f e) = guardable e"
  by (auto simp: guarded_entry_def guardable_def
           split: option.split registry_entry.split bool.split)

lemma guard_one_spec:
  "guard_one deps (n, f) (t, g) =
     ((case map_of t n of Some (TableClass False (Some inherited)) \<Rightarrow>
         AList.update n (TableClass True (Some (guarded_getResource n f deps inherited))) t | _ \<Rightarrow> t),
      if guardable (map_of t n) then g @ [n] else g)"
  by (auto split: option.splits registry_entry.splits bool.splits)

lemma guard_one_map_of:
  "map_of (fst (guard_one deps (n, f) (t, g))) =
     (\<lambda>m. if m = n then guarded_entry deps n f (map_of t n) else map_of t m)"
  unfolding guard_one_spec
  by (cases "map_of t n" rule: option.exhaust [case_names None Some])
     (auto simp: guarded_entry_def update_conv' fun_upd_def
           split: option.split registry_entry.split bool.split)

lemma guard_fold:
  assumes "distinct (map fst ofs)"
  shows "map_of (fst (fold (guard_one deps) ofs (t, g))) =
           (\<lambda>n. case map_of ofs n of None \<Rightarrow> map_of t n | Some f \<Rightarrow> guarded_entry deps n f (map_of t n)) \<and>
         snd (fold (guard_one deps) ofs (t, g)) = g @ filter (\<lambda>n. guardable (map_of t n)) (map fst ofs)"
  using assms
proof (induction ofs arbitrary: t g)
  case (Cons nf ofs)
  obtain n f where nf: "nf = (n, f)" by fastforce
  obtain t1 g1 where s: "guard_one deps (n, f) (t, g) = (t1, g1)" by fastforce
  have t1: "map_of t1 = (\<lambda>m. if m = n then guarded_entry deps n f (map_of t n) else map_of t m)"
    using guard_one_map_of [of deps n f t g] s by simp
  have g1: "g1 = (if guardable (map_of t n) then g @ [n] else g)"
    using guard_one_spec [of deps n f t g] s by simp
  have ih: "distinct (map fst ofs)" "n \<notin> fst ` set ofs" using Cons.prems nf by auto
  have "filter (\<lambda>m. guardable (map_of t1 m)) (map fst ofs) = filter (\<lambda>m. guardable (map_of t m)) (map fst ofs)"
    using ih(2) by (intro filter_cong) (auto simp: t1)
  then show ?case
    using Cons.IH [OF ih(1), of t1 g1] ih(2) nf s
    by (auto simp: t1 g1 fun_eq_iff map_of_eq_None_iff [symmetric] split: option.splits)
qed simp

lemma distinct_OWNER_FIELDS: "distinct (map fst OWNER_FIELDS)"
  by (simp add: OWNER_FIELDS_def)

text \<open>When the installation on a registry of unguarded classes reports no gap, every
  owner-scoped table answers \<open>getResource\<close> through the guard: a permission-marked write that the
  guard refuses never reaches the inherited method. \<close>

theorem no_gap_means_guarded:
  assumes "guardOwnerScopedWrites tables OWNER_FIELDS deps = (tables', guarded)"
    and "ownerScopedWriteGuardGaps tables' OWNER_FIELDS guarded = []"
    and "\<forall>n g. map_of tables n \<noteq> Some (TableClass True g)"
    and "(name, f) \<in> set OWNER_FIELDS" "method \<in> set GUARDED_WRITE_METHODS"
    and "isRequestEntryTarget target" "field options ''method'' = Str method"
    and "admitOwnerScopedWrite name f method target ctx deps = Inl r"
  shows "\<exists>gr. map_of tables' name = Some (TableClass True (Some gr)) \<and> gr target ctx options = Inl r"
proof -
  note F = guard_fold [OF distinct_OWNER_FIELDS, of deps tables "[]"]
  have m: "map_of OWNER_FIELDS name = Some f"
    using assms(4) distinct_OWNER_FIELDS by simp
  have "name \<in> set guarded"
    using assms(2,4) by (auto simp: ownerScopedWriteGuardGaps_def filter_empty_conv split: if_splits)
  then have "guardable (map_of tables name)"
    using F assms(1) by (simp add: guardOwnerScopedWrites_def)
  with assms(3) obtain g where "map_of tables name = Some (TableClass False (Some g))"
    by (auto simp: guardable_def)
  then have "map_of tables' name = Some (TableClass True (Some (guarded_getResource name f deps g)))"
    using F assms(1) m by (simp add: guardOwnerScopedWrites_def guarded_entry_def)
  then show ?thesis using assms(5-8) by (simp add: guarded_getResource_def)
qed

lemma map_of_const:
  "map_of (map (\<lambda>(k, _). (k, c)) xs) n = (if n \<in> fst ` set xs then Some c else None)"
  by (induction xs) auto

lemma no_gap_means_guarded_witness:
  "\<exists>deps :: unit owner_deps. \<exists>gr :: (unit, nat) get_resource.
     gr (Obj [(''checkPermission'', Bool True), (''id'', Str ''s1'')]) ()
        (Obj [(''method'', Str ''patch'')]) = Inl (RespRefusal (ownerMutationRefusal ''Soul''))"
proof -
  let ?d = "\<lparr>resolveAuth = \<lambda>_. Inr (Agent ''alice'' False),
     readStored = \<lambda>_ _. Inr (Obj [(''agentId'', Str ''bob'')]),
     unreadable = ownerCheckUnavailable, readBody = \<lambda>_. Inr Undef,
     refuseReservedWrite = None\<rparr> :: unit owner_deps"
  let ?t = "map (\<lambda>(n, _). (n, TableClass False (Some (\<lambda>_ _ _. Inr 0)))) OWNER_FIELDS
      :: (unit, nat) registry"
  obtain t' g where i: "guardOwnerScopedWrites ?t OWNER_FIELDS ?d = (t', g)" by fastforce
  have g: "g = filter (\<lambda>n. guardable (map_of ?t n)) (map fst OWNER_FIELDS)"
    using guard_fold [OF distinct_OWNER_FIELDS, of ?d ?t "[]"] i by (simp add: guardOwnerScopedWrites_def)
  have mo: "map_of ?t n = (if n \<in> fst ` set OWNER_FIELDS
      then Some (TableClass False (Some (\<lambda>_ _ _. Inr 0))) else None)" for n
    by (rule map_of_const)
  have t': "t' \<noteq> []"
  proof
    assume "t' = []"
    moreover have "map_of t' = (\<lambda>n. case map_of OWNER_FIELDS n of None \<Rightarrow> map_of ?t n
        | Some f \<Rightarrow> guarded_entry ?d n f (map_of ?t n))"
      using guard_fold [OF distinct_OWNER_FIELDS, of ?d ?t "[]"] i
      by (simp add: guardOwnerScopedWrites_def)
    ultimately have "guarded_entry ?d ''Soul'' ''agentId'' (map_of ?t ''Soul'') = None"
      by (simp add: fun_eq_iff OWNER_FIELDS_def split: if_splits)
    then show False by (simp add: mo guarded_entry_def OWNER_FIELDS_def)
  qed
  have gaps: "ownerScopedWriteGuardGaps t' OWNER_FIELDS g = []"
    using t' by (auto simp: ownerScopedWriteGuardGaps_def g mo filter_empty_conv)
  have fresh: "\<forall>n h. map_of ?t n \<noteq> Some (TableClass True h)" by (simp add: mo)
  have "\<exists>gr. map_of t' ''Soul'' = Some (TableClass True (Some gr)) \<and>
      gr (Obj [(''checkPermission'', Bool True), (''id'', Str ''s1'')]) ()
        (Obj [(''method'', Str ''patch'')]) = Inl (RespRefusal (ownerMutationRefusal ''Soul''))"
    by (rule no_gap_means_guarded [OF i gaps fresh, of "''Soul''" "''agentId''" "''patch''"])
       (simp_all add: OWNER_FIELDS_def GUARDED_WRITE_METHODS_def isRequestEntryTarget_def
          admitOwnerScopedWrite_def addressesNoSingleRecord_def BODY_ID_METHODS_def
          bodyIdRefusal_def isForbiddenOwnerMutation_def)
  then show ?thesis by blast
qed

lemma guard_fold_marked:
  "(\<forall>n \<in> fst ` set ofs. \<forall>g. map_of t n \<noteq> Some (TableClass False (Some g))) \<Longrightarrow>
   fst (fold (guard_one deps) ofs (t, g)) = t"
proof (induction ofs arbitrary: g)
  case (Cons nf ofs)
  obtain n f where nf: "nf = (n, f)" by fastforce
  have "fst (guard_one deps (n, f) (t, g)) = t"
    using Cons.prems nf unfolding guard_one_spec
    by (auto split: option.splits registry_entry.splits bool.splits)
  then obtain g1 where "guard_one deps (n, f) (t, g) = (t, g1)" by (metis prod.collapse)
  then show ?case using Cons nf by simp
qed simp

text \<open>Installing the guard twice changes nothing: the second installation finds every
  class marked, replaces no \<open>getResource\<close>, so no write is checked twice, and reports the same
  tables. \<close>

theorem guard_installation_idempotent:
  "guardOwnerScopedWrites (fst (guardOwnerScopedWrites tables OWNER_FIELDS deps)) OWNER_FIELDS deps
     = guardOwnerScopedWrites tables OWNER_FIELDS deps"
proof -
  obtain tables' guarded where assms:
    "guardOwnerScopedWrites tables OWNER_FIELDS deps = (tables', guarded)" by fastforce
  note F = guard_fold [OF distinct_OWNER_FIELDS, of deps]
  have mo: "map_of tables' = (\<lambda>n. case map_of OWNER_FIELDS n of None \<Rightarrow> map_of tables n
      | Some f \<Rightarrow> guarded_entry deps n f (map_of tables n))"
    and g: "guarded = filter (\<lambda>n. guardable (map_of tables n)) (map fst OWNER_FIELDS)"
    using F [of tables "[]"] assms by (simp_all add: guardOwnerScopedWrites_def)
  have e: "map_of tables' n = guarded_entry deps n f (map_of tables n)"
    if "(n, f) \<in> set OWNER_FIELDS" for n f
    using that distinct_OWNER_FIELDS by (simp add: mo)
  have "fst (fold (guard_one deps) OWNER_FIELDS (tables', [])) = tables'"
    by (rule guard_fold_marked)
       (auto simp: e guarded_entry_def split: option.splits registry_entry.splits bool.splits)
  moreover have "snd (fold (guard_one deps) OWNER_FIELDS (tables', []))
      = filter (\<lambda>n. guardable (map_of tables' n)) (map fst OWNER_FIELDS)"
    using F [of tables' "[]"] by simp
  moreover have "\<dots> = guarded" unfolding g
    by (rule filter_cong) (auto simp: e guardable_entry)
  ultimately show ?thesis unfolding assms by (simp add: guardOwnerScopedWrites_def prod_eq_iff)
qed

end
