(* ===== verification/KeyLock.thy ===== *)
theory KeyLock
  imports FlairPrelude
begin

text \<open>
  Running a function under per-key locks: \<open>resources/key-lock.ts\<close> and the ordered nesting
  \<open>withKeyLocks\<close> of \<open>resources/relay-ops.ts\<close>.

  The lock itself is Harper's primary store: its \<open>tryLock\<close> and \<open>unlock\<close> are the fields of
  \<open>lock_ops\<close> over an abstract store state, and what the code relies on is the locale
  \<open>key_lock_store\<close>: \<open>tryLock\<close> succeeds exactly when nobody holds the key. A caller is a process:
  between two awaits of the JavaScript code it runs without interruption, so one attempt of the
  retry loop is one step, and the steps of all callers interleave freely.
\<close>

section \<open>The store\<close>

type_synonym lock_key = "string list"

record 's lock_ops =
  try_lock :: "lock_key \<Rightarrow> 's \<Rightarrow> bool \<times> 's"
  unlock :: "lock_key \<Rightarrow> 's \<Rightarrow> 's"

text \<open>A list of held keys is a store of this kind.\<close>

definition held_list_ops :: "lock_key list lock_ops" where
  "held_list_ops =
     \<lparr>try_lock = (\<lambda>k s. if k \<in> set s then (False, s) else (True, k # s)),
      unlock = (\<lambda>k s. removeAll k s)\<rparr>"

locale key_lock_store =
  fixes ops :: "'s lock_ops" and held :: "'s \<Rightarrow> lock_key set"
  assumes try_lock_result: "fst (try_lock ops k s) \<longleftrightarrow> k \<notin> held s"
    and try_lock_held: "held (snd (try_lock ops k s)) = insert k (held s)"
    and unlock_held: "held (unlock ops k s) = held s - {k}"

interpretation held_list: key_lock_store held_list_ops set
  by unfold_locales (auto simp: held_list_ops_def)

section \<open>One caller\<close>

datatype 'a key_lock_outcome = Done 'a | Busy | Unavailable

text \<open>
  A caller holding the first \<open>i\<close> of its keys after \<open>a\<close> failed attempts on the next one; a caller
  whose function runs under all of them; a caller that has its outcome.
\<close>

datatype 'a caller =
    Trying "lock_key list" nat nat
  | Running "lock_key list"
  | Ended "'a key_lock_outcome"

text \<open>Nested \<open>finally\<close> blocks unlock the innermost key first.\<close>

definition release_keys :: "'s lock_ops \<Rightarrow> lock_key list \<Rightarrow> 's \<Rightarrow> 's" where
  "release_keys ops ks s = fold (unlock ops) (rev ks) s"

text \<open>
  The call: without a lock in the store no key can be taken, with no keys left the function runs;
  a loop of no attempts ends \<open>busy\<close>.
\<close>

definition withKeyLocks :: "bool \<Rightarrow> nat \<Rightarrow> lock_key list \<Rightarrow> 'a caller" where
  "withKeyLocks has_lock attempts ks =
     (if ks = [] then Running []
      else if \<not> has_lock then Ended Unavailable
      else if attempts = 0 then Ended Busy
      else Trying ks 0 0)"

text \<open>One pass of the retry loop of \<open>withKeyLock\<close>.\<close>

definition withKeyLock_attempt ::
    "'s lock_ops \<Rightarrow> nat \<Rightarrow> lock_key list \<Rightarrow> nat \<Rightarrow> nat \<Rightarrow> 's \<Rightarrow> 'a caller \<times> 's" where
  "withKeyLock_attempt ops attempts ks i a s =
     (case try_lock ops (ks ! i) s of
        (True, s') \<Rightarrow> (if i + 1 = length ks then Running ks else Trying ks (i + 1) 0, s')
      | (False, s') \<Rightarrow>
          if a + 1 < attempts then (Trying ks i (a + 1), s')
          else (Ended Busy, release_keys ops (take i ks) s'))"

text \<open>The function settles with \<open>v\<close> (its value or its failure): every key is released.\<close>

definition withKeyLock_settle ::
    "'s lock_ops \<Rightarrow> lock_key list \<Rightarrow> 'a \<Rightarrow> 's \<Rightarrow> 'a caller \<times> 's" where
  "withKeyLock_settle ops ks v s = (Ended (Done v), release_keys ops ks s)"

section \<open>All callers of one process\<close>

type_synonym ('a, 's) callers = "(nat \<Rightarrow> 'a caller option) \<times> 's"

inductive lock_step :: "'s lock_ops \<Rightarrow> nat \<Rightarrow> ('a, 's) callers \<Rightarrow> ('a, 's) callers \<Rightarrow> bool"
  for ops :: "'s lock_ops" and attempts :: nat where
  call: "ps p = None \<Longrightarrow> distinct ks \<Longrightarrow>
    lock_step ops attempts (ps, s) (ps(p \<mapsto> withKeyLocks True attempts ks), s)"
| attempt: "ps p = Some (Trying ks i a) \<Longrightarrow> withKeyLock_attempt ops attempts ks i a s = (c, s') \<Longrightarrow>
    lock_step ops attempts (ps, s) (ps(p \<mapsto> c), s')"
| settle: "ps p = Some (Running ks) \<Longrightarrow> withKeyLock_settle ops ks v s = (c, s') \<Longrightarrow>
    lock_step ops attempts (ps, s) (ps(p \<mapsto> c), s')"

inductive_cases lock_stepE: "lock_step ops attempts st st'"

fun keys_of :: "'a caller \<Rightarrow> lock_key list" where
  "keys_of (Trying ks i a) = take i ks"
| "keys_of (Running ks) = ks"
| "keys_of (Ended v) = []"

definition keys_at :: "(nat \<Rightarrow> 'a caller option) \<Rightarrow> nat \<Rightarrow> lock_key list" where
  "keys_at ps p = (case ps p of None \<Rightarrow> [] | Some c \<Rightarrow> keys_of c)"

fun caller_ok :: "'a caller \<Rightarrow> bool" where
  "caller_ok (Trying ks i a) = (i < length ks \<and> distinct ks)"
| "caller_ok (Running ks) = distinct ks"
| "caller_ok (Ended v) = True"

lemma caller_ok_withKeyLocks [simp]:
  "distinct ks \<Longrightarrow> caller_ok (withKeyLocks b n ks)" "keys_of (withKeyLocks b n ks) = []"
  by (auto simp: withKeyLocks_def)

context key_lock_store
begin

lemma held_release: "held (release_keys ops ks s) = held s - set ks"
proof -
  have "held (fold (unlock ops) ks s) = held s - set ks" for ks
    by (induction ks arbitrary: s) (auto simp: unlock_held)
  from this [of "rev ks"] show ?thesis by (simp add: release_keys_def)
qed

lemma try_lock_cases:
  obtains "ks \<notin> held s" "fst (try_lock ops ks s)" "held (snd (try_lock ops ks s)) = insert ks (held s)"
  | "ks \<in> held s" "\<not> fst (try_lock ops ks s)" "held (snd (try_lock ops ks s)) = held s"
  using try_lock_result [of ks s] try_lock_held [of ks s] by (cases "ks \<in> held s") auto

text \<open>Every held key is held by exactly one caller, as far as that caller's progress says.\<close>

definition locks_inv :: "('a, 's) callers \<Rightarrow> bool" where
  "locks_inv st \<longleftrightarrow>
     held (snd st) = (\<Union>p. set (keys_at (fst st) p)) \<and>
     (\<forall>p q. p \<noteq> q \<longrightarrow> set (keys_at (fst st) p) \<inter> set (keys_at (fst st) q) = {}) \<and>
     (\<forall>p c. fst st p = Some c \<longrightarrow> caller_ok c)"

lemma keys_at_upd: "keys_at (ps(p \<mapsto> c)) q = (if q = p then keys_of c else keys_at ps q)"
  by (simp add: keys_at_def)

lemma locks_invI:
  assumes "\<And>k. k \<in> held s \<longleftrightarrow> (\<exists>p. k \<in> set (keys_at ps p))"
    and "\<And>k p q. k \<in> set (keys_at ps p) \<Longrightarrow> k \<in> set (keys_at ps q) \<Longrightarrow> p = q"
    and "\<And>p c. ps p = Some c \<Longrightarrow> caller_ok c"
  shows "locks_inv (ps, s)"
proof -
  have "held s = (\<Union>p. set (keys_at ps p))" using assms(1) by blast
  moreover have "\<forall>p q. p \<noteq> q \<longrightarrow> set (keys_at ps p) \<inter> set (keys_at ps q) = {}"
    using assms(2) by blast
  ultimately show ?thesis using assms(3) by (simp add: locks_inv_def)
qed

lemma locks_invD:
  assumes "locks_inv (ps, s)"
  shows "k \<in> held s \<longleftrightarrow> (\<exists>p. k \<in> set (keys_at ps p))"
    and "k \<in> set (keys_at ps p) \<Longrightarrow> k \<in> set (keys_at ps q) \<Longrightarrow> p = q"
    and "ps p = Some c \<Longrightarrow> caller_ok c"
  using assms by (auto simp: locks_inv_def)

lemma locks_inv_change:
  assumes inv: "locks_inv (ps, s)" and ok: "caller_ok c"
    and h: "held s' = (held s - set (keys_at ps p)) \<union> set (keys_of c)"
    and d: "set (keys_of c) \<inter> (held s - set (keys_at ps p)) = {}"
  shows "locks_inv (ps(p \<mapsto> c), s')"
proof (rule locks_invI)
  have other: "k \<in> held s - set (keys_at ps p)" if "k \<in> set (keys_at ps q)" "q \<noteq> p" for k q
    using locks_invD(1,2) [OF inv] that by blast
  show "k \<in> held s' \<longleftrightarrow> (\<exists>q. k \<in> set (keys_at (ps(p \<mapsto> c)) q))" for k
  proof
    assume "k \<in> held s'"
    then consider "k \<in> set (keys_of c)" | q where "k \<in> set (keys_at ps q)" "q \<noteq> p"
      using locks_invD(1) [OF inv, of k] h by blast
    then show "\<exists>q. k \<in> set (keys_at (ps(p \<mapsto> c)) q)"
      by cases (metis keys_at_upd)+
  next
    assume "\<exists>q. k \<in> set (keys_at (ps(p \<mapsto> c)) q)"
    then show "k \<in> held s'" using other [of k] h unfolding keys_at_upd by (auto split: if_splits)
  qed
  show "a = b" if "k \<in> set (keys_at (ps(p \<mapsto> c)) a)" "k \<in> set (keys_at (ps(p \<mapsto> c)) b)" for k a b
    using that other [of k a] other [of k b] d locks_invD(2) [OF inv, of k a b] unfolding keys_at_upd
    by (cases "a = p"; cases "b = p") auto
  show "caller_ok e" if "(ps(p \<mapsto> c)) q = Some e" for q e
    using that ok locks_invD(3) [OF inv] by (auto split: if_splits)
qed

lemma attempt_effect:
  assumes "withKeyLock_attempt ops attempts ks i a s = (c, s')" "i < length ks" "distinct ks"
    and "set (take i ks) \<subseteq> held s"
  shows "caller_ok c \<and> held s' = (held s - set (take i ks)) \<union> set (keys_of c) \<and>
     set (keys_of c) \<inter> (held s - set (take i ks)) = {}"
proof (cases rule: try_lock_cases [of "ks ! i" s])
  case 1
  then have c: "c = (if i + 1 = length ks then Running ks else Trying ks (i + 1) 0)"
    and h: "held s' = insert (ks ! i) (held s)"
    using assms(1) by (auto simp: withKeyLock_attempt_def split: prod.splits bool.splits)
  have "keys_of c = take (Suc i) ks" using assms(2) by (simp add: c)
  then have k: "set (keys_of c) = insert (ks ! i) (set (take i ks))"
    using assms(2) by (simp add: take_Suc_conv_app_nth)
  show ?thesis using assms(2-4) 1 h k by (auto simp: c)
next
  case 2
  then show ?thesis
    using assms held_release [of "take i ks"]
    by (auto simp: withKeyLock_attempt_def split: prod.splits bool.splits if_splits)
qed

lemma locks_inv_step:
  assumes "lock_step ops attempts st st'" "locks_inv st" shows "locks_inv st'"
  using assms(1)
proof cases
  case (call ps p ks s)
  then show ?thesis using locks_inv_change [of ps s "withKeyLocks True attempts ks" s p] assms(2)
    by (simp add: keys_at_def)
next
  case (attempt ps p ks i a s c s')
  then have inv: "locks_inv (ps, s)" and k: "keys_at ps p = take i ks"
    using assms(2) by (simp_all add: keys_at_def)
  have "set (take i ks) \<subseteq> held s" using locks_invD(1) [OF inv] k by (metis subsetI)
  moreover have "i < length ks" "distinct ks" using locks_invD(3) [OF inv attempt(3)] by auto
  ultimately show ?thesis
    using attempt_effect [OF attempt(4)] locks_inv_change [OF inv, of c s' p] k attempt(2) by simp
next
  case (settle ps p ks v s c s')
  then have inv: "locks_inv (ps, s)" and k: "keys_at ps p = ks"
    using assms(2) by (simp_all add: keys_at_def)
  then show ?thesis
    using locks_inv_change [OF inv, of c s' p] settle(2,4) by (auto simp: withKeyLock_settle_def held_release)
qed

lemma locks_inv_init: "held s = {} \<Longrightarrow> locks_inv (\<lambda>_. None, s)"
  by (simp add: locks_inv_def keys_at_def)

lemma locks_inv_reachable:
  assumes "(lock_step ops attempts)\<^sup>*\<^sup>* (\<lambda>_. None, s0) st" "held s0 = {}"
  shows "locks_inv st"
  using assms(1) by induction (auto intro: locks_inv_step locks_inv_init [OF assms(2)])

lemma running_exclusive:
  assumes "(lock_step ops attempts)\<^sup>*\<^sup>* (\<lambda>_. None, s0) (ps, s)" "held s0 = {}"
    and "ps p = Some (Running ks)" "ps q = Some (Running ks')" "k \<in> set ks" "k \<in> set ks'"
  shows "p = q"
  using locks_invD(2) [OF locks_inv_reachable [OF assms(1,2)], of k p q] assms(3-6)
  by (simp add: keys_at_def)

lemma all_released:
  assumes "(lock_step ops attempts)\<^sup>*\<^sup>* (\<lambda>_. None, s0) (ps, s)" "held s0 = {}"
    and "\<forall>p c. ps p = Some c \<longrightarrow> (\<exists>v. c = Ended v)"
  shows "held s = {}"
proof -
  have "keys_at ps p = []" for p 
  proof (cases "ps p")
    case (Some c)
    with assms(3) obtain v where "c = Ended v" by blast
    with Some show ?thesis by (simp add: keys_at_def)
  qed (simp add: keys_at_def)
  then show ?thesis using locks_invD(1) [OF locks_inv_reachable [OF assms(1,2)]] by auto
qed

text \<open>
  With keys taken in the order of a fixed level there is always a caller that can move forward:
  the one whose next key has the highest level.
\<close>

lemma someone_progresses:
  assumes inv: "locks_inv (ps, s)" and fin: "finite {p. ps p \<noteq> None}"
    and ord: "\<forall>p ks. (\<exists>i a. ps p = Some (Trying ks i a)) \<or> ps p = Some (Running ks) \<longrightarrow>
                sorted_wrt (\<lambda>x y. level x < (level y :: nat)) ks"
    and t: "ps p0 = Some (Trying ks0 i0 a0)"
  shows "(\<exists>p ks. ps p = Some (Running ks)) \<or>
         (\<exists>p ks i a. ps p = Some (Trying ks i a) \<and> ks ! i \<notin> held s)"
proof (rule ccontr)
  assume no: "\<not> ?thesis"
  let ?T = "{p. \<exists>ks i a. ps p = Some (Trying ks i a)}"
  define l where "l p = (case ps p of Some (Trying ks i a) \<Rightarrow> level (ks ! i) | _ \<Rightarrow> 0)" for p
  have "finite ?T" by (rule finite_subset [OF _ fin]) auto
  moreover have "?T \<noteq> {}" using t by auto
  ultimately obtain p where p: "p \<in> ?T" "l p = Max (l ` ?T)" "\<And>q. q \<in> ?T \<Longrightarrow> l q \<le> Max (l ` ?T)"
    by (smt (verit) Max_ge Max_in finite_imageI image_iff image_is_empty)
  then obtain ks i a where pk: "ps p = Some (Trying ks i a)" by auto
  then have "ks ! i \<in> held s" using no by blast
  then obtain q where q: "ks ! i \<in> set (keys_at ps q)" using inv by (auto simp: locks_inv_def)
  then obtain js j b where qk: "ps q = Some (Trying js j b)" "ks ! i \<in> set (take j js)"
  proof (cases "ps q")
    case (Some c)
    then show ?thesis using q no that by (cases c) (auto simp: keys_at_def)
  qed (use q in \<open>simp add: keys_at_def\<close>)
  have "j < length js" using inv qk(1) by (fastforce simp: locks_inv_def)
  with qk(2) obtain m where m: "m < j" "js ! m = ks ! i" by (auto simp: in_set_conv_nth)
  have "level (js ! m) < level (js ! j)"
    using ord qk(1) m(1) \<open>j < length js\<close> by (metis sorted_wrt_iff_nth_less)
  moreover have "level (js ! j) \<le> level (ks ! i)" using p(2) p(3) [of q] qk(1) pk by (simp add: l_def)
  ultimately show False using m(2) by simp
qed

end

section \<open>What the callers get\<close>

text \<open>C29. Functions run under key locks exclude each other: in every interleaving of any number
  of callers, two different callers whose functions are running hold disjoint keys, and once every
  call has ended, however it ended, no key is left locked. \<close>

theorem key_locks_exclusive:
  assumes "key_lock_store ops held" "held s0 = {}"
    and "(lock_step ops attempts)\<^sup>*\<^sup>* (\<lambda>_. None, s0) (ps, s)"
  shows "(\<forall>p q ks ks'. p \<noteq> q \<and> ps p = Some (Running ks) \<and> ps q = Some (Running ks') \<longrightarrow>
             set ks \<inter> set ks' = {}) \<and>
         ((\<forall>p c. ps p = Some c \<longrightarrow> (\<exists>v. c = Ended v)) \<longrightarrow> held s = {})"
  using key_lock_store.running_exclusive [OF assms(1,3,2)]
    key_lock_store.all_released [OF assms(1,3,2)] by blast

text \<open>C30. Nested locks taken in the order of a fixed level cannot deadlock: whenever some caller
  is still waiting for a key, another caller's function is running under all of its keys, or some
  waiting caller's next key is free, so that its next attempt succeeds. \<close>

theorem ordered_locks_never_deadlock:
  assumes "key_lock_store ops held" "held s0 = {}"
    and "(lock_step ops attempts)\<^sup>*\<^sup>* (\<lambda>_. None, s0) (ps, s)" "finite {p. ps p \<noteq> None}"
    and "\<forall>p ks. (\<exists>i a. ps p = Some (Trying ks i a)) \<or> ps p = Some (Running ks) \<longrightarrow>
           sorted_wrt (\<lambda>x y. level x < (level y :: nat)) ks"
    and "ps p0 = Some (Trying ks0 i0 a0)"
  shows "(\<exists>p ks. ps p = Some (Running ks)) \<or>
         (\<exists>p ks i a c s'. ps p = Some (Trying ks i a) \<and> ks ! i \<notin> held s \<and>
            withKeyLock_attempt ops attempts ks i a s = (c, s') \<and> (\<forall>v. c \<noteq> Ended v))"
proof -
  have "(\<exists>p ks. ps p = Some (Running ks)) \<or>
        (\<exists>p ks i a. ps p = Some (Trying ks i a) \<and> ks ! i \<notin> held s)"
    by (rule key_lock_store.someone_progresses [OF assms(1)
          key_lock_store.locks_inv_reachable [OF assms(1,3,2)] assms(4-6)])
  then show ?thesis
  proof
    assume "\<exists>p ks i a. ps p = Some (Trying ks i a) \<and> ks ! i \<notin> held s"
    then obtain p ks i a where p: "ps p = Some (Trying ks i a)" "ks ! i \<notin> held s" by blast
    then have "fst (try_lock ops (ks ! i) s)" using key_lock_store.try_lock_result [OF assms(1)] by blast
    then have "\<forall>v. fst (withKeyLock_attempt ops attempts ks i a s) \<noteq> Ended v"
      by (auto simp: withKeyLock_attempt_def split: prod.splits bool.splits)
    then show ?thesis using p by (metis prod.collapse)
  qed blast
qed

text \<open>The number of steps a caller has left at most.\<close>

fun steps_left :: "nat \<Rightarrow> 'a caller \<Rightarrow> nat" where
  "steps_left n (Trying ks i a) = (length ks - i) * n - a + 1"
| "steps_left n (Running ks) = 1"
| "steps_left n (Ended v) = 0"

text \<open>A call does not wait for ever: every attempt leaves it closer to its end, so a call for
  \<open>m\<close> keys makes at most \<open>m * attempts\<close> attempts before its function runs or it answers
  \<open>busy\<close>. \<close>

theorem attempts_are_bounded:
  assumes "i < length ks" "a < attempts"
  shows "(let c :: 'a caller = fst (withKeyLock_attempt ops attempts ks i a s) in
            steps_left attempts c < steps_left attempts (Trying ks i a) \<and>
            (\<forall>ks' i' a'. c = Trying ks' i' a' \<longrightarrow> ks' = ks \<and> i' < length ks \<and> a' < attempts)) \<and>
         steps_left attempts (withKeyLocks True attempts ks :: 'a caller) \<le> length ks * attempts + 1"
proof -
  obtain m where m: "length ks - i = Suc m" using assms(1) by (metis Suc_diff_Suc)
  then have "length ks - Suc i = m" by simp
  then show ?thesis using assms m
    by (auto simp: withKeyLock_attempt_def withKeyLocks_def Let_def split: prod.splits bool.splits)
qed

text \<open>Two callers with different keys run at the same time; a third waits for both.\<close>

definition three_callers :: "nat \<Rightarrow> nat caller option" where
  "three_callers = (\<lambda>_. None)
     (0 \<mapsto> Running [[''a'']], 1 \<mapsto> Running [[''b'']], 2 \<mapsto> Trying [[''a''], [''b'']] 0 1)"

lemma three_callers_reachable:
  "(lock_step held_list_ops 2)\<^sup>*\<^sup>* (\<lambda>_. None, []) (three_callers, [[''b''], [''a'']])"
proof -
  let ?S = "lock_step held_list_ops 2 :: (nat, lock_key list) callers \<Rightarrow> _"
  have c: "?S (ps, s) (ps(p \<mapsto> Trying ks 0 0), s)" if "ps p = None" "distinct ks" "ks \<noteq> []" for ps p ks s
    using lock_step.call [of ps p ks held_list_ops 2 s] that by (simp add: withKeyLocks_def)
  have g: "?S (ps, s) (ps(p \<mapsto> Running [k]), k # s)" if "ps p = Some (Trying [k] 0 0)" "k \<notin> set s" for ps p k s
    using lock_step.attempt [where ps = ps and s = s and ops = held_list_ops and attempts = 2, OF that(1) surjective_pairing] that(2)
    by (simp add: withKeyLock_attempt_def held_list_ops_def)
  have w: "?S (ps, s) (ps(p \<mapsto> Trying ks 0 1), s)" if "ps p = Some (Trying ks 0 0)" "ks ! 0 \<in> set s" for ps p ks s
    using lock_step.attempt [where ps = ps and s = s and ops = held_list_ops and attempts = 2, OF that(1) surjective_pairing] that(2)
    by (simp add: withKeyLock_attempt_def held_list_ops_def)
  let ?p1 = "(\<lambda>_. None)(0 \<mapsto> Trying [[''a'']] 0 0) :: nat \<Rightarrow> nat caller option"
  let ?p2 = "?p1(0 \<mapsto> Running [[''a'']])"
  let ?p3 = "?p2(1 \<mapsto> Trying [[''b'']] 0 0)"
  let ?p4 = "?p3(1 \<mapsto> Running [[''b'']])"
  let ?p5 = "?p4(2 \<mapsto> Trying [[''a''], [''b'']] 0 0)"
  let ?p6 = "?p5(2 \<mapsto> Trying [[''a''], [''b'']] 0 1)"
  have "?S (\<lambda>_. None, []) (?p1, [])" by (rule c) auto
  note r = r_into_rtranclp [of ?S, OF this]
  have "?S (?p1, []) (?p2, [[''a'']])" by (rule g) auto
  note r = rtranclp.rtrancl_into_rtrancl [of ?S, OF r this]
  have "?S (?p2, [[''a'']]) (?p3, [[''a'']])" by (rule c) auto
  note r = rtranclp.rtrancl_into_rtrancl [of ?S, OF r this]
  have "?S (?p3, [[''a'']]) (?p4, [[''b''], [''a'']])" by (rule g) auto
  note r = rtranclp.rtrancl_into_rtrancl [of ?S, OF r this]
  have "?S (?p4, [[''b''], [''a'']]) (?p5, [[''b''], [''a'']])" by (rule c) auto
  note r = rtranclp.rtrancl_into_rtrancl [of ?S, OF r this]
  have "?S (?p5, [[''b''], [''a'']]) (?p6, [[''b''], [''a'']])" by (rule w) auto
  note r = rtranclp.rtrancl_into_rtrancl [of ?S, OF r this]
  moreover have "?p6 = three_callers" by (auto simp: three_callers_def)
  ultimately show ?thesis by simp
qed

lemma key_locks_exclusive_witness:
  "three_callers 0 = Some (Running [[''a'']]) \<and> three_callers 1 = Some (Running [[''b'']]) \<and>
   set [[''a'']] \<inter> set [[''b'']] = ({} :: string list set)"
  using key_locks_exclusive [OF held_list.key_lock_store_axioms _ three_callers_reachable]
  by (simp add: three_callers_def)

lemma ordered_locks_never_deadlock_witness:
  "\<exists>p ks. three_callers p = Some (Running ks)"
proof -
  let ?l = "\<lambda>k :: string list. if k = [''a''] then 0 else 1 :: nat"
  have "(\<exists>p ks. three_callers p = Some (Running ks)) \<or>
        (\<exists>p ks i a c s'. three_callers p = Some (Trying ks i a) \<and> ks ! i \<notin> set [[''b''], [''a'']] \<and>
            withKeyLock_attempt held_list_ops 2 ks i a [[''b''], [''a'']] = (c, s') \<and> (\<forall>v. c \<noteq> Ended v))"
  proof (rule ordered_locks_never_deadlock
      [OF held_list.key_lock_store_axioms _ three_callers_reachable, where level = ?l])
    show "finite {p. three_callers p \<noteq> None}"
      by (rule finite_subset [of _ "{0, 1, 2}"]) (auto simp: three_callers_def split: if_splits)
    show "three_callers 2 = Some (Trying [[''a''], [''b'']] 0 1)" by (simp add: three_callers_def)
  qed (auto simp: three_callers_def split: if_splits)
  then show ?thesis by (auto simp: three_callers_def)
qed

lemma attempts_are_bounded_witness:
  "steps_left 200 (fst (withKeyLock_attempt held_list_ops 200 [[''k'']] 0 5 [[''k'']]) :: nat caller)
     < 196"
proof -
  have p: "(0::nat) < length [[''k'']]" "(5::nat) < 200" by simp_all
  show ?thesis
    using attempts_are_bounded [OF p, of held_list_ops "[[''k'']]", where 'a = nat]
    by (simp add: Let_def del: split_paired_All)
qed

end
