(* ===== verification/MemoryLock.thy ===== *)
theory MemoryLock
  imports KeyLock
begin

text \<open>
  The per-memory-id write lock and its capability tokens (\<open>resources/memory-write-lock.ts\<close>).

  The module state is the set of unknown-outcome markers and the token registry; a token is the
  number under which the registry knows it, and a value that is no token of this registry is
  \<open>NotAToken\<close>. One token is minted per acquisition, so the token's number is also the identity of
  the acquisition. A writer is a process: one pass of the retry loop runs without an await and is
  one step; the callback, a locked transaction scope and the settlement of the acquisition are
  further steps, and the steps of all writers interleave freely. The embedding-provider bound and
  the hold watchdog are timers that write nothing and are not modelled.
\<close>

section \<open>Ids and markers\<close>

definition MEMORY_LOCK_NAMESPACE :: string where "MEMORY_LOCK_NAMESPACE = ''memory''"
definition MEMORY_LOCK_ATTEMPTS :: nat where "MEMORY_LOCK_ATTEMPTS = 200"

definition memoryLockKey :: "js \<Rightarrow> lock_key" where
  "memoryLockKey i = [MEMORY_LOCK_NAMESPACE, js_String i]"

definition normalizeIds :: "js list \<Rightarrow> string list \<times> lock_key list" where
  "normalizeIds ids =
     (let unique = fold (\<lambda>i u. if js_String i \<in> set u then u else u @ [js_String i]) ids [];
          sorted_ids = sort unique in
      (sorted_ids, map (\<lambda>i. memoryLockKey (Str i)) sorted_ids))"

text \<open>\<open>outcomeUnknown\<close>, the module's set of markers.\<close>

definition markMemoryWriteOutcomeUnknown :: "js \<Rightarrow> string set \<Rightarrow> string set" where
  "markMemoryWriteOutcomeUnknown i m = insert (js_String i) m"

definition memoryWriteOutcomeUnknown :: "js \<Rightarrow> string set \<Rightarrow> bool" where
  "memoryWriteOutcomeUnknown i m = (js_String i \<in> m)"

section \<open>Tokens\<close>

datatype capability_refusal = NotToken | Revoked | WrongStore | IdNotCovered | ScopeAlreadyOpen

datatype held_value = Token nat | NotAToken

record token_state =
  tok_store :: nat
  tok_ids :: "string list"
  live :: bool
  admitting :: bool
  open_scope :: "nat option"

type_synonym token_registry = "nat \<Rightarrow> token_state option"

definition mintToken :: "nat \<Rightarrow> string list \<Rightarrow> nat \<Rightarrow> token_registry \<Rightarrow> token_registry" where
  "mintToken store ids t reg =
     reg(t \<mapsto> \<lparr>tok_store = store, tok_ids = ids, live = True, admitting = True, open_scope = None\<rparr>)"

fun tokenState :: "token_registry \<Rightarrow> held_value \<Rightarrow> capability_refusal + token_state" where
  "tokenState reg (Token t) = (case reg t of None \<Rightarrow> Inl NotToken | Some st \<Rightarrow> Inr st)"
| "tokenState reg NotAToken = Inl NotToken"

definition assertMemoryWriteLockToken ::
    "token_registry \<Rightarrow> held_value \<Rightarrow> nat option \<Rightarrow> js list \<Rightarrow> capability_refusal + unit" where
  "assertMemoryWriteLockToken reg h store ids =
     (case tokenState reg h of
        Inl e \<Rightarrow> Inl e
      | Inr st \<Rightarrow>
          if \<not> live st then Inl Revoked
          else if store \<noteq> None \<and> store \<noteq> Some (tok_store st) then Inl WrongStore
          else if \<exists>i \<in> set ids. js_String i \<notin> set (tok_ids st) then Inl IdNotCovered
          else Inr ())"

definition memoryWriteLockTokenIds :: "token_registry \<Rightarrow> held_value \<Rightarrow> capability_refusal + string list" where
  "memoryWriteLockTokenIds reg h = map_sum id tok_ids (tokenState reg h)"

text \<open>Admission of a scope, here already numbered \<open>sc\<close>: the token then knows it as its open one.\<close>

definition admitLockedScope ::
    "token_registry \<Rightarrow> held_value \<Rightarrow> nat \<Rightarrow> capability_refusal + token_registry" where
  "admitLockedScope reg h sc =
     (case assertMemoryWriteLockToken reg h None [] of
        Inl e \<Rightarrow> Inl e
      | Inr _ \<Rightarrow>
          (case h of
             NotAToken \<Rightarrow> Inl NotToken
           | Token t \<Rightarrow>
               (case reg t of
                  None \<Rightarrow> Inl NotToken
                | Some st \<Rightarrow>
                    if \<not> admitting st then Inl Revoked
                    else if open_scope st \<noteq> None then Inl ScopeAlreadyOpen
                    else Inr (reg(t \<mapsto> st\<lparr>open_scope := Some sc\<rparr>)))))"

text \<open>The \<open>settle\<close> of an admission.\<close>

definition close_scope :: "nat \<Rightarrow> nat \<Rightarrow> token_registry \<Rightarrow> token_registry" where
  "close_scope t sc reg =
     (case reg t of None \<Rightarrow> reg
      | Some st \<Rightarrow> if open_scope st = Some sc then reg(t \<mapsto> st\<lparr>open_scope := None\<rparr>) else reg)"

definition revokeToken :: "nat \<Rightarrow> token_registry \<Rightarrow> token_registry" where
  "revokeToken t reg =
     (case reg t of None \<Rightarrow> reg | Some st \<Rightarrow> reg(t \<mapsto> st\<lparr>admitting := False, live := False\<rparr>))"

section \<open>Writers\<close>

datatype 'v memory_lock_outcome =
  LockDone 'v | LockBusy | LockUnknown string | LockUnavailable | LockRejected

text \<open>
  A writer between two attempts (ids, attempts made, budget); one whose callback runs under its
  token; one whose callback has settled (\<open>None\<close> when it threw) and whose acquisition waits for the
  scope that was open then; one with its outcome.
\<close>

datatype 'v writer =
    Waiting "string list" nat nat
  | InCallback "string list" nat
  | Settling "string list" nat "nat option" "'v option"
  | Answered "'v memory_lock_outcome"

record ('s, 'v) world =
  wstore :: 's
  wreg :: token_registry
  wnext :: nat
  wmarks :: "string set"
  wscopes :: "nat \<Rightarrow> (nat \<times> bool option) option"
  writers :: "nat \<Rightarrow> 'v writer option"

definition start_acquire :: "bool \<Rightarrow> js list \<Rightarrow> nat \<Rightarrow> 'v writer" where
  "start_acquire has_lock ids attempts =
     (let (ids', keys) = normalizeIds ids in
      if \<not> has_lock \<or> keys = [] then Answered LockUnavailable
      else if attempts = 0 then Answered LockBusy
      else Waiting ids' 0 attempts)"

definition withMemoryWriteLock :: "bool \<Rightarrow> js list \<Rightarrow> 'v writer" where
  "withMemoryWriteLock has_lock ids = start_acquire has_lock ids MEMORY_LOCK_ATTEMPTS"

definition withMemoryWriteLockOnce :: "bool \<Rightarrow> js list \<Rightarrow> 'v writer" where
  "withMemoryWriteLockOnce has_lock ids = start_acquire has_lock ids 1"

fun take_keys :: "'s lock_ops \<Rightarrow> lock_key list \<Rightarrow> 's \<Rightarrow> lock_key list \<times> bool \<times> 's" where
  "take_keys ops [] s = ([], True, s)"
| "take_keys ops (k # ks) s =
     (case try_lock ops k s of
        (True, s') \<Rightarrow> (let (acq, ok, s'') = take_keys ops ks s' in (k # acq, ok, s''))
      | (False, s') \<Rightarrow> ([], False, s'))"

definition releaseAll :: "'s lock_ops \<Rightarrow> lock_key list \<Rightarrow> 's \<Rightarrow> 's" where
  "releaseAll ops acquired s = fold (unlock ops) (rev acquired) s"

definition acquire_attempt ::
    "'s lock_ops \<Rightarrow> nat \<Rightarrow> string list \<Rightarrow> nat \<Rightarrow> nat \<Rightarrow> ('s, 'v) world \<Rightarrow>
     'v writer \<times> ('s, 'v) world" where
  "acquire_attempt ops store ids attempt attempts w =
     (case find (\<lambda>i. memoryWriteOutcomeUnknown (Str i) (wmarks w)) ids of
        Some marked \<Rightarrow> (Answered (LockUnknown marked), w)
      | None \<Rightarrow>
          (case take_keys ops (map (\<lambda>i. memoryLockKey (Str i)) ids) (wstore w) of
             (acquired, True, s') \<Rightarrow>
               (InCallback ids (wnext w),
                w\<lparr>wstore := s', wreg := mintToken store ids (wnext w) (wreg w), wnext := Suc (wnext w)\<rparr>)
           | (acquired, False, s') \<Rightarrow>
               (if attempt + 1 < attempts then Waiting ids (attempt + 1) attempts else Answered LockBusy,
                w\<lparr>wstore := releaseAll ops acquired s'\<rparr>)))"

text \<open>The first half of \<open>settleAcquisition\<close>: close admission, remember the open scope.\<close>

definition callback_settles ::
    "string list \<Rightarrow> nat \<Rightarrow> 'v option \<Rightarrow> ('s, 'v) world \<Rightarrow> 'v writer \<times> ('s, 'v) world" where
  "callback_settles ids t v w =
     (case wreg w t of
        None \<Rightarrow> (Settling ids t None v, w)
      | Some st \<Rightarrow> (Settling ids t (open_scope st) v, w\<lparr>wreg := (wreg w)(t \<mapsto> st\<lparr>admitting := False\<rparr>)\<rparr>))"

text \<open>
  The second half, and the \<open>finally\<close> block: revoke the token, then release the keys. The failure
  of a scope that the callback did not await rejects the call.
\<close>

definition finish_acquire ::
    "'s lock_ops \<Rightarrow> string list \<Rightarrow> nat \<Rightarrow> bool \<Rightarrow> 'v option \<Rightarrow> ('s, 'v) world \<Rightarrow>
     'v writer \<times> ('s, 'v) world" where
  "finish_acquire ops ids t scope_ok v w =
     (Answered (case v of None \<Rightarrow> LockRejected | Some x \<Rightarrow> if scope_ok then LockDone x else LockRejected),
      w\<lparr>wreg := revokeToken t (wreg w),
        wstore := releaseAll ops (map (\<lambda>i. memoryLockKey (Str i)) ids) (wstore w)\<rparr>)"

fun scope_result :: "(nat \<Rightarrow> (nat \<times> bool option) option) \<Rightarrow> nat option \<Rightarrow> bool option" where
  "scope_result scopes None = Some True"
| "scope_result scopes (Some sc) = (case scopes sc of Some (_, r) \<Rightarrow> r | None \<Rightarrow> None)"

inductive writer_step :: "'s lock_ops \<Rightarrow> nat \<Rightarrow> ('s, 'v) world \<Rightarrow> ('s, 'v) world \<Rightarrow> bool"
  for ops :: "'s lock_ops" and store :: nat where
  call: "writers w p = None \<Longrightarrow>
    writer_step ops store w (w\<lparr>writers := (writers w)(p \<mapsto> start_acquire True ids n)\<rparr>)"
| attempt: "writers w p = Some (Waiting ids a n) \<Longrightarrow> acquire_attempt ops store ids a n w = (c, w') \<Longrightarrow>
    writer_step ops store w (w'\<lparr>writers := (writers w)(p \<mapsto> c)\<rparr>)"
| mark: "writer_step ops store w (w\<lparr>wmarks := markMemoryWriteOutcomeUnknown i (wmarks w)\<rparr>)"
| admit: "wscopes w sc = None \<Longrightarrow> admitLockedScope (wreg w) (Token t) sc = Inr reg \<Longrightarrow>
    writer_step ops store w (w\<lparr>wreg := reg, wscopes := (wscopes w)(sc \<mapsto> (t, None))\<rparr>)"
| settle_scope: "wscopes w sc = Some (t, None) \<Longrightarrow>
    writer_step ops store w
      (w\<lparr>wreg := close_scope t sc (wreg w), wscopes := (wscopes w)(sc \<mapsto> (t, Some ok))\<rparr>)"
| callback: "writers w p = Some (InCallback ids t) \<Longrightarrow> callback_settles ids t v w = (c, w') \<Longrightarrow>
    writer_step ops store w (w'\<lparr>writers := (writers w)(p \<mapsto> c)\<rparr>)"
| finish: "writers w p = Some (Settling ids t aw v) \<Longrightarrow> scope_result (wscopes w) aw = Some ok \<Longrightarrow>
    finish_acquire ops ids t ok v w = (c, w') \<Longrightarrow>
    writer_step ops store w (w'\<lparr>writers := (writers w)(p \<mapsto> c)\<rparr>)"

section \<open>Refusals\<close>

definition memoryBusyResponse :: "string \<Rightarrow> response" where
  "memoryBusyResponse callerId =
     \<lparr>status = 503, body = Obj [(''error'', Str ''memory_busy''), (''caller'', Str callerId)],
      headers = [(''content-type'', ''application/json'')]\<rparr>"

definition writeOutcomeUnknownResponse :: response where
  "writeOutcomeUnknownResponse =
     \<lparr>status = 503,
      body = Obj [(''error'', Str ''write_outcome_unknown''), (''outcome'', Str ''unconfirmed''),
        (''message'', Str ''the write outcome is unknown. Read the affected row before writing again.'')],
      headers = [(''content-type'', ''application/json'')]\<rparr>"

definition memoryLockUnavailableResponse :: response where
  "memoryLockUnavailableResponse =
     \<lparr>status = 503,
      body = Obj [(''error'', Str ''memory_lock_unavailable''),
        (''message'', Str (''this instance'' @ [CHR 39] @ ''s Memory store has no per-id write lock, so the write was refused; nothing was written''))],
      headers = [(''content-type'', ''application/json'')]\<rparr>"

fun memoryLockRefusal :: "'v memory_lock_outcome \<Rightarrow> string \<Rightarrow> response option" where
  "memoryLockRefusal LockBusy callerId = Some (memoryBusyResponse callerId)"
| "memoryLockRefusal (LockUnknown i) callerId = Some writeOutcomeUnknownResponse"
| "memoryLockRefusal LockUnavailable callerId = Some memoryLockUnavailableResponse"
| "memoryLockRefusal _ callerId = None"

section \<open>Normalised ids\<close>

lemma fold_unique:
  "distinct u \<Longrightarrow>
   distinct (fold (\<lambda>i u. if f i \<in> set u then u else u @ [f i]) ids u) \<and>
   set (fold (\<lambda>i u. if f i \<in> set u then u else u @ [f i]) ids u) = set u \<union> f ` set ids"
  by (induction ids arbitrary: u) (auto simp: insert_absorb)

lemma normalizeIds_props:
  "sorted (fst (normalizeIds ids))" "distinct (fst (normalizeIds ids))"
  "set (fst (normalizeIds ids)) = js_String ` set ids"
  using fold_unique [of "[]" js_String ids] by (simp_all add: normalizeIds_def Let_def)

lemma memoryLockKey_inj [simp]: "memoryLockKey (Str a) = memoryLockKey (Str b) \<longleftrightarrow> a = b"
  by (simp add: memoryLockKey_def)

section \<open>The invariant\<close>

definition mkeys :: "string list \<Rightarrow> lock_key set" where
  "mkeys ids = (\<lambda>i. memoryLockKey (Str i)) ` set ids"

fun holds :: "'v writer \<Rightarrow> (string list \<times> nat) option" where
  "holds (InCallback ids t) = Some (ids, t)"
| "holds (Settling ids t aw v) = Some (ids, t)"
| "holds _ = None"

text \<open>Who holds which ids under which token.\<close>

definition hmap :: "('s, 'v) world \<Rightarrow> nat \<Rightarrow> (string list \<times> nat) option" where
  "hmap w p = Option.bind (writers w p) holds"

fun settling_ok :: "token_registry \<Rightarrow> 'v writer \<Rightarrow> bool" where
  "settling_ok reg (Settling ids t aw v) =
     (\<exists>st. reg t = Some st \<and> \<not> admitting st \<and> (open_scope st = None \<or> open_scope st = aw))"
| "settling_ok reg _ = True"


lemma hmap_upd [simp]: "hmap (w\<lparr>writers := W(p \<mapsto> c)\<rparr>) = (\<lambda>q. Option.bind (W q) holds)(p := holds c)"
  by (auto simp: hmap_def fun_eq_iff)

lemma hmap_writers: "(\<lambda>q. Option.bind (writers w q) holds) = hmap w"
  by (simp add: hmap_def fun_eq_iff)

lemma hmap_frame [simp]:
  "hmap (w\<lparr>wstore := a\<rparr>) = hmap w" "hmap (w\<lparr>wreg := b\<rparr>) = hmap w"
  "hmap (w\<lparr>wnext := n\<rparr>) = hmap w" "hmap (w\<lparr>wmarks := m\<rparr>) = hmap w"
  "hmap (w\<lparr>wscopes := sc\<rparr>) = hmap w"
  by (simp_all add: hmap_def fun_eq_iff)

lemma hmap_at: "writers w p = Some c \<Longrightarrow> hmap w p = holds c" "writers w p = None \<Longrightarrow> hmap w p = None"
  by (simp_all add: hmap_def)

type_synonym holding = "nat \<Rightarrow> (string list \<times> nat) option"

text \<open>A holder's token is live and carries its ids; a live token has exactly one holder.\<close>

definition token_inv :: "nat \<Rightarrow> holding \<Rightarrow> token_registry \<Rightarrow> nat \<Rightarrow> bool" where
  "token_inv store H reg n \<longleftrightarrow>
     (\<forall>p ids t. H p = Some (ids, t) \<longrightarrow>
        (\<exists>st. reg t = Some st \<and> live st \<and> tok_ids st = ids \<and> tok_store st = store)) \<and>
     (\<forall>t st. reg t = Some st \<and> live st \<longrightarrow> (\<exists>p. H p = Some (tok_ids st, t))) \<and>
     (\<forall>t. reg t \<noteq> None \<longrightarrow> t < n) \<and>
     (\<forall>p q ids ids' t. H p = Some (ids, t) \<and> H q = Some (ids', t) \<longrightarrow> p = q)"

lemma token_invD:
  assumes "token_inv store H reg n"
  shows "H p = Some (ids, t) \<Longrightarrow> \<exists>st. reg t = Some st \<and> live st \<and> tok_ids st = ids \<and> tok_store st = store"
    and "reg t = Some st \<Longrightarrow> live st \<Longrightarrow> \<exists>p. H p = Some (tok_ids st, t)"
    and "reg t = Some st \<Longrightarrow> t < n"
    and "H p = Some (ids, t) \<Longrightarrow> H q = Some (ids', t) \<Longrightarrow> p = q"
  using assms by (auto simp: token_inv_def)

lemma token_invI:
  assumes "\<And>p ids t. H p = Some (ids, t) \<Longrightarrow>
        \<exists>st. reg t = Some st \<and> live st \<and> tok_ids st = ids \<and> tok_store st = store"
    and "\<And>t st. reg t = Some st \<Longrightarrow> live st \<Longrightarrow> \<exists>p. H p = Some (tok_ids st, t)"
    and "\<And>t st. reg t = Some st \<Longrightarrow> t < n"
    and "\<And>p q ids ids' t. H p = Some (ids, t) \<Longrightarrow> H q = Some (ids', t) \<Longrightarrow> p = q"
  shows "token_inv store H reg n"
  unfolding token_inv_def using assms by blast

lemma token_mint:
  assumes "token_inv store H reg n" "H p = None"
  shows "token_inv store (H(p \<mapsto> (ids, n))) (mintToken store ids n reg) (Suc n)"
proof (rule token_invI)
  have fresh: "reg n = None" using token_invD(3) [OF assms(1), of n] by (cases "reg n") auto
  then have nh: "H q \<noteq> Some (i, n)" for q i using token_invD(1) [OF assms(1), of q i n] by auto
  show "\<exists>st. mintToken store ids n reg t = Some st \<and> live st \<and> tok_ids st = i \<and> tok_store st = store"
    if "(H(p \<mapsto> (ids, n))) q = Some (i, t)" for q i t
    using that token_invD(1) [OF assms(1), of q i t] nh by (auto simp: mintToken_def split: if_splits)
  show "\<exists>q. (H(p \<mapsto> (ids, n))) q = Some (tok_ids st, t)"
    if "mintToken store ids n reg t = Some st" "live st" for t st
  proof (cases "t = n")
    case False
    with that token_invD(2) [OF assms(1), of t st] obtain q where "H q = Some (tok_ids st, t)"
      by (auto simp: mintToken_def)
    then show ?thesis using assms(2) by (intro exI [of _ q]) auto
  qed (use that in \<open>auto simp: mintToken_def\<close>)
  show "t < Suc n" if "mintToken store ids n reg t = Some st" for t st
    using that token_invD(3) [OF assms(1), of t] by (auto simp: mintToken_def less_Suc_eq split: if_splits)
  show "a = b" if "(H(p \<mapsto> (ids, n))) a = Some (i, t)" "(H(p \<mapsto> (ids, n))) b = Some (i', t)" for a b i i' t
    using that nh token_invD(4) [OF assms(1), of a i t b i'] by (auto split: if_splits)
qed

definition same_tokens :: "token_registry \<Rightarrow> token_registry \<Rightarrow> bool" where
  "same_tokens reg reg' \<longleftrightarrow>
     (\<forall>t. map_option (\<lambda>st. (live st, tok_ids st, tok_store st)) (reg' t) =
          map_option (\<lambda>st. (live st, tok_ids st, tok_store st)) (reg t))"

lemma token_same:
  assumes "token_inv store H reg n" "same_tokens reg reg'" shows "token_inv store H reg' n"
proof (rule token_invI)
  have e: "\<exists>st'. reg t = Some st' \<and> live st' = live st \<and> tok_ids st' = tok_ids st \<and> tok_store st' = tok_store st"
    if "reg' t = Some st" for t st
    using assms(2) that by (cases "reg t") (auto simp: same_tokens_def dest!: spec [of _ t])
  have e': "\<exists>st'. reg' t = Some st' \<and> live st' = live st \<and> tok_ids st' = tok_ids st \<and> tok_store st' = tok_store st"
    if "reg t = Some st" for t st
    using assms(2) that by (auto simp: same_tokens_def dest!: spec [of _ t] split: option.splits)
  show "\<exists>st. reg' t = Some st \<and> live st \<and> tok_ids st = ids \<and> tok_store st = store"
    if "H p = Some (ids, t)" for p ids t
    using token_invD(1) [OF assms(1) that] e' by metis
  show "\<exists>p. H p = Some (tok_ids st, t)" if "reg' t = Some st" "live st" for t st
    using e [OF that(1)] that(2) token_invD(2) [OF assms(1), of t] by metis
  show "t < n" if "reg' t = Some st" for t st
    using e [OF that] token_invD(3) [OF assms(1)] by metis
  show "p = q" if "H p = Some (ids, t)" "H q = Some (ids', t)" for p q ids ids' t
    using token_invD(4) [OF assms(1) that] .
qed

lemma token_revoke:
  assumes "token_inv store H reg n" "H p = Some (ids, t)"
  shows "token_inv store (H(p := None)) (revokeToken t reg) n"
proof (rule token_invI)
  obtain st where st: "reg t = Some st" using token_invD(1) [OF assms] by blast
  have other: "t' \<noteq> t" if "H q = Some (i, t')" "q \<noteq> p" for q i t'
    using token_invD(4) [OF assms(1), of q i t' p ids] assms(2) that by auto
  show "\<exists>st. revokeToken t reg t' = Some st \<and> live st \<and> tok_ids st = i \<and> tok_store st = store"
    if "(H(p := None)) q = Some (i, t')" for q i t'
    using that other [of q i t'] token_invD(1) [OF assms(1), of q i t'] st
    by (auto simp: revokeToken_def split: if_splits)
  show "\<exists>q. (H(p := None)) q = Some (tok_ids st', t')"
    if L: "revokeToken t reg t' = Some st'" "live st'" for t' st'
  proof -
    have t': "t' \<noteq> t" "reg t' = Some st'" using L st by (auto simp: revokeToken_def split: if_splits)
    then obtain q where "H q = Some (tok_ids st', t')" using token_invD(2) [OF assms(1) _ L(2)] by blast
    then show ?thesis using t' assms(2) by (intro exI [of _ q]) auto
  qed
  show "t' < n" if "revokeToken t reg t' = Some st'" for t' st'
    using that st token_invD(3) [OF assms(1)] by (auto simp: revokeToken_def split: if_splits)
  show "a = b" if "(H(p := None)) a = Some (i, t')" "(H(p := None)) b = Some (i', t')" for a b i i' t'
    using that token_invD(4) [OF assms(1), of a i t' b i'] by (auto split: if_splits)
qed

text \<open>An unsettled scope is the open one of a live token; a settling writer waits for it.\<close>

definition scope_inv :: "(nat \<Rightarrow> (nat \<times> bool option) option) \<Rightarrow> token_registry \<Rightarrow> (nat \<Rightarrow> 'v writer option) \<Rightarrow> bool" where
  "scope_inv SC reg W \<longleftrightarrow>
     (\<forall>sc t. SC sc = Some (t, None) \<longleftrightarrow> (\<exists>st. reg t = Some st \<and> open_scope st = Some sc)) \<and>
     (\<forall>t st. reg t = Some st \<and> open_scope st \<noteq> None \<longrightarrow> live st) \<and>
     (\<forall>p c. W p = Some c \<longrightarrow> settling_ok reg c)"

lemma holds_start [simp]: "holds (start_acquire b ids n) = None"
  by (simp add: start_acquire_def split: prod.split)

lemma settling_start [simp]: "settling_ok reg (start_acquire b ids n)"
  by (simp add: start_acquire_def split: prod.split)

lemma find_None_iff': "find P xs = None \<longleftrightarrow> (\<forall>x \<in> set xs. \<not> P x)"
  by (induction xs) auto

lemma attempt_cases:
  assumes "acquire_attempt ops store ids a n w = (c, w')"
  obtains (locked) s' acq where "take_keys ops (map (\<lambda>i. memoryLockKey (Str i)) ids) (wstore w) = (acq, True, s')"
      "c = InCallback ids (wnext w)"
      "w' = w\<lparr>wstore := s', wreg := mintToken store ids (wnext w) (wreg w), wnext := Suc (wnext w)\<rparr>"
  | (missed) s' acq where "take_keys ops (map (\<lambda>i. memoryLockKey (Str i)) ids) (wstore w) = (acq, False, s')"
      "holds c = None" "w' = w\<lparr>wstore := releaseAll ops acq s'\<rparr>" "\<forall>reg. settling_ok reg c"
  | (unknown) i where "c = Answered (LockUnknown i)" "w' = w"
proof (cases "find (\<lambda>i. memoryWriteOutcomeUnknown (Str i) (wmarks w)) ids")
  case None
  obtain acq ok s' where tk: "take_keys ops (map (\<lambda>i. memoryLockKey (Str i)) ids) (wstore w) = (acq, ok, s')"
    by (metis prod_cases3)
  show ?thesis
  proof (cases ok)
    case True
    then show ?thesis using assms None tk locked unfolding acquire_attempt_def by auto
  next
    case False
    then show ?thesis using assms None tk missed unfolding acquire_attempt_def by auto
  qed
next
  case (Some i)
  then show ?thesis using assms unknown unfolding acquire_attempt_def by auto
qed

lemma admit_cases:
  assumes "admitLockedScope reg (Token t) sc = Inr reg'"
  obtains st where "reg t = Some st" "live st" "admitting st" "open_scope st = None"
    "reg' = reg(t \<mapsto> st\<lparr>open_scope := Some sc\<rparr>)"
  using assms that
  by (auto simp: admitLockedScope_def assertMemoryWriteLockToken_def split: sum.splits option.splits if_splits)

definition token_ok :: "nat \<Rightarrow> ('s, 'v) world \<Rightarrow> bool" where
  "token_ok store w \<longleftrightarrow> token_inv store (hmap w) (wreg w) (wnext w)"

lemma token_ok_step:
  assumes "writer_step ops store w w'" "token_ok store w"
  shows "token_ok store w'"
  using assms(1)
proof cases
  case (call p ids n)
  then show ?thesis using assms(2) by (simp add: token_ok_def hmap_writers fun_upd_idem hmap_at)
next
  case (attempt p ids a n c w1)
  have np: "hmap w p = None" using attempt(2) by (simp add: hmap_at)
  from attempt(3) show ?thesis
  proof (cases rule: attempt_cases)
    case (locked s' acq)
    then show ?thesis
      using token_mint [OF assms(2)[unfolded token_ok_def] np, of ids] attempt(1)
      by (simp add: token_ok_def hmap_writers)
  qed (use assms(2) attempt np in \<open>simp_all add: token_ok_def hmap_writers fun_upd_idem\<close>)
next
  case (mark i)
  then show ?thesis using assms(2) by (simp add: token_ok_def)
next
  case (admit sc t reg)
  from admit(3) obtain st where "wreg w t = Some st" "reg = (wreg w)(t \<mapsto> st\<lparr>open_scope := Some sc\<rparr>)"
    by (rule admit_cases)
  then have "same_tokens (wreg w) reg" by (simp add: same_tokens_def)
  then show ?thesis using admit(1) assms(2) token_same by (auto simp: token_ok_def)
next
  case (settle_scope sc t ok)
  have "same_tokens (wreg w) (close_scope t sc (wreg w))"
    by (auto simp: same_tokens_def close_scope_def split: option.splits)
  then show ?thesis using settle_scope(1) assms(2) token_same by (auto simp: token_ok_def)
next
  case (callback p ids t v c w1)
  have h: "hmap w p = Some (ids, t)" using callback(2) by (simp add: hmap_at)
  have c: "holds c = Some (ids, t)" "wnext w1 = wnext w" "same_tokens (wreg w) (wreg w1)"
    using callback(3) by (auto simp: callback_settles_def same_tokens_def split: option.splits)
  then show ?thesis using callback(1) assms(2) h token_same [OF _ c(3)]
    by (simp add: token_ok_def hmap_writers fun_upd_idem)
next
  case (finish p ids t aw v ok c w1)
  have h: "hmap w p = Some (ids, t)" using finish(2) by (simp add: hmap_at)
  show ?thesis
    using finish token_revoke [OF assms(2)[unfolded token_ok_def] h]
    by (auto simp: token_ok_def hmap_writers finish_acquire_def)
qed

definition scope_ok :: "('s, 'v) world \<Rightarrow> bool" where
  "scope_ok w \<longleftrightarrow> scope_inv (wscopes w) (wreg w) (writers w)"

lemma scope_okD:
  assumes "scope_ok w"
  shows "wscopes w sc = Some (t, None) \<longleftrightarrow> (\<exists>st. wreg w t = Some st \<and> open_scope st = Some sc)"
    and "wreg w t = Some st \<Longrightarrow> open_scope st \<noteq> None \<Longrightarrow> live st"
    and "writers w p = Some c \<Longrightarrow> settling_ok (wreg w) c"
  using assms by (auto simp: scope_ok_def scope_inv_def)

lemma settling_frame:
  assumes "settling_ok reg c"
    and "\<And>t st. reg t = Some st \<Longrightarrow> \<not> admitting st \<Longrightarrow>
      \<exists>st'. reg' t = Some st' \<and> \<not> admitting st' \<and> (open_scope st' = None \<or> open_scope st' = open_scope st)"
  shows "settling_ok reg' c"
proof (cases c)
  case (Settling ids t aw v)
  then obtain st where "reg t = Some st" "\<not> admitting st" "open_scope st = None \<or> open_scope st = aw"
    using assms(1) by auto
  with assms(2) [of t st] Settling show ?thesis by auto
qed (use assms(1) in auto)

lemma scope_ok_step:
  assumes "writer_step ops store w w'" "scope_ok w" "token_ok store w"
  shows "scope_ok w'"
  using assms(1)
proof cases
  case (call p ids n)
  then show ?thesis using assms(2) by (auto simp: scope_ok_def scope_inv_def)
next
  case (attempt p ids a n c w1)
  from attempt(3) show ?thesis
  proof (cases rule: attempt_cases)
    case (locked s' acq)
    have fresh: "wreg w (wnext w) = None"
      using assms(3) by (cases "wreg w (wnext w)") (auto simp: token_ok_def dest: token_invD(3))
    have m: "mintToken store ids (wnext w) (wreg w) t =
        (if t = wnext w then Some \<lparr>tok_store = store, tok_ids = ids, live = True, admitting = True, open_scope = None\<rparr>
         else wreg w t)" for t by (simp add: mintToken_def)
    have "settling_ok (mintToken store ids (wnext w) (wreg w)) d" if "writers w q = Some d" for q d
      by (rule settling_frame [OF scope_okD(3) [OF assms(2) that]]) (use fresh in \<open>auto simp: m\<close>)
    then show ?thesis
      using assms(2) attempt(1) locked fresh by (auto simp: scope_ok_def scope_inv_def m)
  qed (use assms(2) attempt in \<open>auto simp: scope_ok_def scope_inv_def\<close>)
next
  case (mark i)
  then show ?thesis using assms(2) by (simp add: scope_ok_def)
next
  case (admit sc t reg)
  from admit(3) obtain st where st: "wreg w t = Some st" "live st" "admitting st" "open_scope st = None"
    "reg = (wreg w)(t \<mapsto> st\<lparr>open_scope := Some sc\<rparr>)"
    by (rule admit_cases)
  have "settling_ok reg d" if "writers w q = Some d" for q d
    by (rule settling_frame [OF scope_okD(3) [OF assms(2) that]]) (use st in auto)
  moreover have "open_scope st' \<noteq> Some sc" if "wreg w t' = Some st'" for t' st'
    using scope_okD(1) [OF assms(2), of sc t'] admit(2) that by auto
  ultimately show ?thesis
    using admit(1,2) assms(2) st by (auto simp: scope_ok_def scope_inv_def)
next
  case (settle_scope sc t ok)
  then obtain st where st: "wreg w t = Some st" "open_scope st = Some sc"
    using scope_okD(1) [OF assms(2)] by blast
  have r: "close_scope t sc (wreg w) = (wreg w)(t \<mapsto> st\<lparr>open_scope := None\<rparr>)"
    using st by (simp add: close_scope_def)
  have "settling_ok (close_scope t sc (wreg w)) d" if "writers w q = Some d" for q d
    by (rule settling_frame [OF scope_okD(3) [OF assms(2) that]]) (use st in \<open>auto simp: r\<close>)
  moreover have "((wscopes w)(sc \<mapsto> (t, Some ok))) sc' = Some (t', None) \<longleftrightarrow>
      (\<exists>st'. ((wreg w)(t \<mapsto> st\<lparr>open_scope := None\<rparr>)) t' = Some st' \<and> open_scope st' = Some sc')" for sc' t'
  proof (cases "sc' = sc")
    case True
    have "t' = t" if "wreg w t' = Some st'" "open_scope st' = Some sc" for st'
      using scope_okD(1) [OF assms(2), of sc t'] settle_scope(2) that by auto
    then show ?thesis using True by auto
  next
    case False
    then show ?thesis using scope_okD(1) [OF assms(2), of sc' t'] st by (cases "t' = t") auto
  qed
  moreover have "live st'" if "((wreg w)(t \<mapsto> st\<lparr>open_scope := None\<rparr>)) t' = Some st'" "open_scope st' \<noteq> None" for t' st'
    using scope_okD(2) [OF assms(2), of t' st'] that by (auto split: if_splits)
  ultimately have "scope_inv ((wscopes w)(sc \<mapsto> (t, Some ok))) ((wreg w)(t \<mapsto> st\<lparr>open_scope := None\<rparr>)) (writers w)"
    unfolding scope_inv_def r by blast
  then show ?thesis using settle_scope(1) by (simp add: scope_ok_def r)
next
  case (callback p ids t v c w1)
  have "hmap w p = Some (ids, t)" using callback(2) by (simp add: hmap_at)
  then obtain st where st: "wreg w t = Some st" "live st"
    using assms(3) token_invD(1) unfolding token_ok_def by blast
  then have c: "c = Settling ids t (open_scope st) v"
    "w1 = w\<lparr>wreg := (wreg w)(t \<mapsto> st\<lparr>admitting := False\<rparr>)\<rparr>"
    using callback(3) by (simp_all add: callback_settles_def)
  have "settling_ok ((wreg w)(t \<mapsto> st\<lparr>admitting := False\<rparr>)) d" if "writers w q = Some d" for q d
    by (rule settling_frame [OF scope_okD(3) [OF assms(2) that]]) (use st in auto)
  then show ?thesis using callback(1) assms(2) st c by (auto simp: scope_ok_def scope_inv_def)
next
  case (finish p ids t aw v ok c w1)
  then obtain st where st: "wreg w t = Some st" "\<not> admitting st" "open_scope st = None \<or> open_scope st = aw"
    using scope_okD(3) [OF assms(2) finish(2)] by auto
  have none: "open_scope st = None"
  proof (rule ccontr)
    assume "open_scope st \<noteq> None"
    then obtain sc where "open_scope st = Some sc" "aw = Some sc" using st(3) by auto
    then show False using scope_okD(1) [OF assms(2), of sc t] st(1) finish(3) by auto
  qed
  have r: "revokeToken t (wreg w) = (wreg w)(t \<mapsto> st\<lparr>admitting := False, live := False\<rparr>)"
    using st by (simp add: revokeToken_def)
  have "settling_ok (revokeToken t (wreg w)) d" if "writers w q = Some d" for q d
    by (rule settling_frame [OF scope_okD(3) [OF assms(2) that]]) (use st in \<open>auto simp: r\<close>)
  moreover have "wscopes w sc = Some (t', None) \<longleftrightarrow>
      (\<exists>st'. revokeToken t (wreg w) t' = Some st' \<and> open_scope st' = Some sc)" for sc t'
    using scope_okD(1) [OF assms(2), of sc t'] st none by (cases "t' = t") (auto simp: r)
  moreover have "live st'" if "revokeToken t (wreg w) t' = Some st'" "open_scope st' \<noteq> None" for t' st'
    using scope_okD(2) [OF assms(2), of t' st'] that none by (cases "t' = t") (auto simp: r)
  moreover have "\<forall>reg. settling_ok reg c" using finish(4) by (auto simp: finish_acquire_def)
  ultimately have "scope_inv (wscopes w) (revokeToken t (wreg w)) ((writers w)(p \<mapsto> c))"
    unfolding scope_inv_def by (simp; blast)
  then show ?thesis using finish(1,4) by (auto simp: scope_ok_def finish_acquire_def)
qed

section \<open>Keys\<close>

context key_lock_store
begin

definition keys_ok :: "('s, 'v) world \<Rightarrow> bool" where
  "keys_ok w \<longleftrightarrow>
     (\<forall>k. k \<in> held (wstore w) \<longleftrightarrow> (\<exists>p ids t. hmap w p = Some (ids, t) \<and> k \<in> mkeys ids)) \<and>
     (\<forall>k p q ids ids' t t'. hmap w p = Some (ids, t) \<and> hmap w q = Some (ids', t') \<and>
        k \<in> mkeys ids \<and> k \<in> mkeys ids' \<longrightarrow> p = q)"

lemma keys_okD:
  assumes "keys_ok w"
  shows "k \<in> held (wstore w) \<longleftrightarrow> (\<exists>p ids t. hmap w p = Some (ids, t) \<and> k \<in> mkeys ids)"
    and "hmap w p = Some (ids, t) \<Longrightarrow> hmap w q = Some (ids', t') \<Longrightarrow> k \<in> mkeys ids \<Longrightarrow>
      k \<in> mkeys ids' \<Longrightarrow> p = q"
  using assms unfolding keys_ok_def by blast+

lemma held_releaseAll: "held (releaseAll ops ks s) = held s - set ks"
  using held_release [of ks s] by (simp add: releaseAll_def release_keys_def)

lemma take_keys_effect:
  assumes "take_keys ops ks s = (acq, ok, s')"
  shows "held s' = held s \<union> set acq \<and> set acq \<inter> held s = {} \<and> (ok \<longrightarrow> acq = ks)"
  using assms
proof (induction ks arbitrary: s acq)
  case (Cons k ks)
  show ?case
  proof (cases rule: try_lock_cases [of k s])
    case 1
    obtain acq1 s1 where t: "take_keys ops ks (snd (try_lock ops k s)) = (acq1, ok, s')" "acq = k # acq1"
      using Cons.prems 1 by (cases "try_lock ops k s") (auto split: prod.splits)
    from Cons.IH [OF t(1)] 1 t(2) show ?thesis by auto
  next
    case 2
    then show ?thesis using Cons.prems by (cases "try_lock ops k s") auto
  qed
qed simp

lemma set_mkeys [simp]: "set (map (\<lambda>i. memoryLockKey (Str i)) ids) = mkeys ids"
  by (simp add: mkeys_def)

lemma keys_ok_frame:
  "keys_ok w \<Longrightarrow> hmap w' = hmap w \<Longrightarrow> held (wstore w') = held (wstore w) \<Longrightarrow> keys_ok w'"
  by (simp add: keys_ok_def)

lemma keys_ok_take:
  assumes "keys_ok w" "hmap w p = None" "hmap w' = (hmap w)(p \<mapsto> (ids, t))"
    and "held (wstore w') = held (wstore w) \<union> mkeys ids" "mkeys ids \<inter> held (wstore w) = {}"
  shows "keys_ok w'"
proof -
  have 1: "k \<in> held (wstore w') \<longleftrightarrow> (\<exists>q i u. hmap w' q = Some (i, u) \<and> k \<in> mkeys i)" for k
  proof
    assume "k \<in> held (wstore w')"
    then consider "k \<in> mkeys ids" | q i u where "hmap w q = Some (i, u)" "k \<in> mkeys i"
      using keys_okD(1) [OF assms(1), of k] assms(4) by auto
    then show "\<exists>q i u. hmap w' q = Some (i, u) \<and> k \<in> mkeys i"
    proof cases
      case 2
      then show ?thesis using assms(2,3) by (intro exI [of _ q]) auto
    qed (use assms(3) in auto)
  qed (use keys_okD(1) [OF assms(1), of k] assms(3,4) in \<open>auto split: if_splits\<close>)
  have 2: "a = b" if "hmap w' a = Some (i, u)" "hmap w' b = Some (j, v)" "k \<in> mkeys i" "k \<in> mkeys j"
    for a b i j u v k
  proof -
    have n: "k \<notin> mkeys ids" if "hmap w q = Some (l, x)" "k \<in> mkeys l" for q l x
      using that keys_okD(1) [OF assms(1), of k] assms(5) by blast
    show ?thesis using that n keys_okD(2) [OF assms(1), of a i u b j v k] assms(3) by (auto split: if_splits)
  qed
  show ?thesis unfolding keys_ok_def using 1 2 by blast
qed

lemma keys_ok_drop:
  assumes "keys_ok w" "hmap w p = Some (ids, t)" "hmap w' = (hmap w)(p := None)"
    and "held (wstore w') = held (wstore w) - mkeys ids"
  shows "keys_ok w'"
proof -
  have 1: "k \<in> held (wstore w') \<longleftrightarrow> (\<exists>q i u. hmap w' q = Some (i, u) \<and> k \<in> mkeys i)" for k
  proof
    assume k: "k \<in> held (wstore w')"
    then obtain q i u where q: "hmap w q = Some (i, u)" "k \<in> mkeys i"
      using keys_okD(1) [OF assms(1), of k] assms(4) by auto
    with k assms(2,4) have "q \<noteq> p" by auto
    with q assms(3) show "\<exists>q i u. hmap w' q = Some (i, u) \<and> k \<in> mkeys i" by (intro exI [of _ q]) auto
  next
    assume "\<exists>q i u. hmap w' q = Some (i, u) \<and> k \<in> mkeys i"
    then obtain q i u where q: "hmap w q = Some (i, u)" "k \<in> mkeys i" "q \<noteq> p"
      using assms(3) by (auto split: if_splits)
    then have "k \<in> held (wstore w)" using keys_okD(1) [OF assms(1), of k] by blast
    moreover have "k \<notin> mkeys ids"
      using keys_okD(2) [OF assms(1) q(1) assms(2) q(2)] q(3) by blast
    ultimately show "k \<in> held (wstore w')" using assms(4) by simp
  qed
  have 2: "a = b" if "hmap w' a = Some (i, u)" "hmap w' b = Some (j, v)" "k \<in> mkeys i" "k \<in> mkeys j"
    for a b i j u v k
    using that keys_okD(2) [OF assms(1), of a i u b j v k] assms(3) by (auto split: if_splits)
  show ?thesis unfolding keys_ok_def using 1 2 by blast
qed

lemma keys_ok_step:
  assumes "writer_step ops store w w'" "keys_ok w"
  shows "keys_ok w'"
  using assms(1)
proof cases
  case (call p ids n)
  then show ?thesis
    by (intro keys_ok_frame [OF assms(2)]) (simp_all add: hmap_writers fun_upd_idem hmap_at)
next
  case (attempt p ids a n c w1)
  have np: "hmap w p = None" using attempt(2) by (simp add: hmap_at)
  from attempt(3) show ?thesis
  proof (cases rule: attempt_cases)
    case (locked s' acq)
    then show ?thesis
      using take_keys_effect [OF locked(1)] attempt(1) set_mkeys [of ids]
      by (intro keys_ok_take [OF assms(2) np]) (auto simp: hmap_writers simp del: set_mkeys set_map list.set_map)
  next
    case (missed s' acq)
    then show ?thesis
      using take_keys_effect [OF missed(1)] attempt(1) np
      by (intro keys_ok_frame [OF assms(2)])
         (auto simp: hmap_writers fun_upd_idem held_releaseAll)
  next
    case (unknown i)
    then show ?thesis using attempt(1) np
      by (intro keys_ok_frame [OF assms(2)]) (auto simp: hmap_writers fun_upd_idem)
  qed
next
  case (callback p ids t v c w1)
  have "holds c = Some (ids, t)" "wstore w1 = wstore w"
    using callback(3) by (auto simp: callback_settles_def split: option.splits)
  then show ?thesis using callback(1,2)
    by (intro keys_ok_frame [OF assms(2)]) (auto simp: hmap_writers fun_upd_idem hmap_at)
next
  case (finish p ids t aw v ok c w1)
  have "hmap w p = Some (ids, t)" using finish(2) by (simp add: hmap_at)
  then show ?thesis
    using finish by (intro keys_ok_drop [OF assms(2)])
      (auto simp: hmap_writers finish_acquire_def held_releaseAll mkeys_def)
qed (use assms(2) in \<open>auto intro: keys_ok_frame\<close>)

definition world_ok :: "nat \<Rightarrow> ('s, 'v) world \<Rightarrow> bool" where
  "world_ok store w \<longleftrightarrow> token_ok store w \<and> scope_ok w \<and> keys_ok w"

lemma world_ok_step: "writer_step ops store w w' \<Longrightarrow> world_ok store w \<Longrightarrow> world_ok store w'"
  using token_ok_step scope_ok_step keys_ok_step by (auto simp: world_ok_def)

lemma covered_held:
  assumes "world_ok store w" "assertMemoryWriteLockToken (wreg w) (Token t) (Some store) ids = Inr ()"
    and "i \<in> set ids"
  shows "memoryLockKey i \<in> held (wstore w)"
proof -
  obtain st where st: "wreg w t = Some st" "live st" "js_String i \<in> set (tok_ids st)"
    using assms(2,3) by (auto simp: assertMemoryWriteLockToken_def split: sum.splits option.splits if_splits)
  then obtain p where "hmap w p = Some (tok_ids st, t)"
    using assms(1) token_invD(2) unfolding world_ok_def token_ok_def by blast
  moreover have "memoryLockKey i \<in> mkeys (tok_ids st)"
    using st(3) by (auto simp: mkeys_def memoryLockKey_def)
  ultimately show ?thesis using keys_okD(1) assms(1) unfolding world_ok_def by blast
qed

lemma covered_unique:
  assumes "world_ok store w" "assertMemoryWriteLockToken (wreg w) (Token t) None [i] = Inr ()"
    and "assertMemoryWriteLockToken (wreg w) (Token t') None [i] = Inr ()"
  shows "t = t'"
proof -
  have k: "\<exists>p ids. hmap w p = Some (ids, u) \<and> memoryLockKey i \<in> mkeys ids"
    if A: "assertMemoryWriteLockToken (wreg w) (Token u) None [i] = Inr ()" for u
  proof -
    obtain st where st: "wreg w u = Some st" "live st" "js_String i \<in> set (tok_ids st)"
      using A by (auto simp: assertMemoryWriteLockToken_def split: sum.splits option.splits if_splits)
    then show ?thesis
      using assms(1) token_invD(2) unfolding world_ok_def token_ok_def
      by (fastforce simp: mkeys_def memoryLockKey_def)
  qed
  obtain p ids q ids' where "hmap w p = Some (ids, t)" "memoryLockKey i \<in> mkeys ids"
    "hmap w q = Some (ids', t')" "memoryLockKey i \<in> mkeys ids'"
    using k [OF assms(2)] k [OF assms(3)] by blast
  then show ?thesis
    using keys_okD(2) [of w p ids t q ids' t'] assms(1) unfolding world_ok_def by auto
qed

end

definition initial_world :: "'s \<Rightarrow> ('s, 'v) world" where
  "initial_world s = \<lparr>wstore = s, wreg = (\<lambda>_. None), wnext = 0, wmarks = {},
     wscopes = (\<lambda>_. None), writers = (\<lambda>_. None)\<rparr>"

context key_lock_store
begin

lemma world_ok_reachable:
  assumes "(writer_step ops store)\<^sup>*\<^sup>* (initial_world s0) w" "held s0 = {}"
  shows "world_ok store w"
  using assms(1)
proof induction
  case base
  show ?case using assms(2)
    by (simp add: world_ok_def token_ok_def scope_ok_def scope_inv_def keys_ok_def token_inv_def
        initial_world_def hmap_def)
qed (rule world_ok_step)

end

section \<open>What a token guarantees\<close>

text \<open>C5. A checked write that a token admits is exclusive: in every reachable state, under any
  interleaving of writers, markers and scopes, a token that passes the check for a store and a list
  of ids names ids whose keys are all locked at that moment, and no other token passes the check
  for any of them. \<close>

theorem token_means_exclusive_ids:
  assumes "key_lock_store ops held" "held s0 = {}"
    and "(writer_step ops store)\<^sup>*\<^sup>* (initial_world s0) w"
    and "assertMemoryWriteLockToken (wreg w) h (Some store) ids = Inr ()" "i \<in> set ids"
  shows "memoryLockKey i \<in> held (wstore w) \<and>
    (\<forall>h' st'. assertMemoryWriteLockToken (wreg w) h' st' [i] = Inr () \<longrightarrow> h' = h)"
proof -
  note ok = key_lock_store.world_ok_reachable [OF assms(1,3,2)]
  obtain t where t: "h = Token t" using assms(4) by (cases h) (auto simp: assertMemoryWriteLockToken_def)
  have weaken: "assertMemoryWriteLockToken (wreg w) h' None [i] = Inr ()"
    if "assertMemoryWriteLockToken (wreg w) h' st' js = Inr ()" "i \<in> set js" for h' st' js
    using that by (auto simp: assertMemoryWriteLockToken_def split: sum.splits if_splits)
  have "h' = h" if a: "assertMemoryWriteLockToken (wreg w) h' st' [i] = Inr ()" for h' st'
  proof -
    obtain t' where "h' = Token t'" using a by (cases h') (auto simp: assertMemoryWriteLockToken_def)
    then show ?thesis
      using key_lock_store.covered_unique [OF assms(1) ok, of t' i t] weaken [OF a] weaken [OF assms(4,5)] t by simp
  qed
  then show ?thesis
    using key_lock_store.covered_held [OF assms(1) ok] assms(4,5) t by blast
qed

text \<open>No writer holds a key while it waits and none keeps a key or a working token after its
  answer: the locked keys are exactly those of the writers whose callback is running or whose
  acquisition is settling, so when every writer has its answer nothing is locked and every token is
  refused as revoked. \<close>

theorem keys_end_with_the_call:
  assumes "key_lock_store ops held" "held s0 = {}"
    and "(writer_step ops store)\<^sup>*\<^sup>* (initial_world s0) w"
  shows "held (wstore w) =
      (\<Union>{mkeys ids | ids. \<exists>p t. writers w p = Some (InCallback ids t) \<or>
         (\<exists>aw v. writers w p = Some (Settling ids t aw v))}) \<and>
    ((\<forall>p c. writers w p = Some c \<longrightarrow> (\<exists>out. c = Answered out)) \<longrightarrow>
       held (wstore w) = {} \<and>
       (\<forall>t st ids. wreg w t \<noteq> None \<longrightarrow>
          assertMemoryWriteLockToken (wreg w) (Token t) st ids = Inl Revoked))"
proof -
  note ok = key_lock_store.world_ok_reachable [OF assms(1,3,2)]
  have k: "key_lock_store.keys_ok held w" and tk: "token_inv store (hmap w) (wreg w) (wnext w)"
    using ok by (simp_all add: key_lock_store.world_ok_def [OF assms(1)] token_ok_def)
  have h: "hmap w p = Some (ids, t) \<longleftrightarrow> writers w p = Some (InCallback ids t) \<or>
      (\<exists>aw v. writers w p = Some (Settling ids t aw v))" for p ids t
  proof (cases "writers w p")
    case (Some c)
    then show ?thesis by (cases c) (auto simp: hmap_def)
  qed (simp add: hmap_def)
  have eq: "held (wstore w) = (\<Union>{mkeys ids | ids. \<exists>p t. writers w p = Some (InCallback ids t) \<or>
         (\<exists>aw v. writers w p = Some (Settling ids t aw v))})"
  proof (rule set_eqI)
    fix x
    have "x \<in> held (wstore w) \<longleftrightarrow> (\<exists>p ids t. hmap w p = Some (ids, t) \<and> x \<in> mkeys ids)"
      by (rule key_lock_store.keys_okD(1) [OF assms(1) k])
    then show "x \<in> held (wstore w) \<longleftrightarrow> x \<in> (\<Union>{mkeys ids | ids.
        \<exists>p t. writers w p = Some (InCallback ids t) \<or> (\<exists>aw v. writers w p = Some (Settling ids t aw v))})"
      by (simp add: h Union_iff) metis
  qed
  have "held (wstore w) = {} \<and> (\<forall>t st ids. wreg w t \<noteq> None \<longrightarrow>
          assertMemoryWriteLockToken (wreg w) (Token t) st ids = Inl Revoked)"
    if fin: "\<forall>p c. writers w p = Some c \<longrightarrow> (\<exists>out. c = Answered out)"
  proof -
    have none: "hmap w p = None" for p
    proof (cases "writers w p")
      case (Some c)
      then obtain out where "c = Answered out" using fin by blast
      then show ?thesis using Some by (simp add: hmap_def)
    qed (simp add: hmap_def)
    have "held (wstore w) = {}" using key_lock_store.keys_okD(1) [OF assms(1) k] none by auto
    moreover have "\<not> live st" if "wreg w t = Some st" for t st
      using token_invD(2) [OF tk that] none by auto
    ultimately show ?thesis by (auto simp: assertMemoryWriteLockToken_def)
  qed
  with eq show ?thesis by blast
qed

text \<open>The keys outlive every locked transaction: as long as a scope that was admitted on a
  token has not settled, whether or not the callback still runs, that token is live and every key
  of its acquisition is locked. \<close>

theorem open_scope_keeps_keys:
  assumes "key_lock_store ops held" "held s0 = {}"
    and "(writer_step ops store)\<^sup>*\<^sup>* (initial_world s0) w"
    and "wscopes w sc = Some (t, None)"
  shows "\<exists>ids. memoryWriteLockTokenIds (wreg w) (Token t) = Inr ids \<and>
    assertMemoryWriteLockToken (wreg w) (Token t) (Some store) (map Str ids) = Inr () \<and>
    mkeys ids \<subseteq> held (wstore w)"
proof -
  note ok = key_lock_store.world_ok_reachable [OF assms(1,3,2)]
  have so: "scope_ok w" and tk: "token_inv store (hmap w) (wreg w) (wnext w)"
    and k: "key_lock_store.keys_ok held w"
    using ok by (simp_all add: key_lock_store.world_ok_def [OF assms(1)] token_ok_def)
  obtain st where st: "wreg w t = Some st" "open_scope st = Some sc"
    using scope_okD(1) [OF so] assms(4) by blast
  then have l: "live st" using scope_okD(2) [OF so] by auto
  obtain p where p: "hmap w p = Some (tok_ids st, t)" using token_invD(2) [OF tk st(1) l] by blast
  have "tok_store st = store" using token_invD(1) [OF tk p] st(1) by auto
  moreover have "mkeys (tok_ids st) \<subseteq> held (wstore w)"
    using key_lock_store.keys_okD(1) [OF assms(1) k] p by blast
  ultimately show ?thesis
    using st(1) l by (auto simp: memoryWriteLockTokenIds_def assertMemoryWriteLockToken_def)
qed

text \<open>A world with one writer inside its callback and one open scope.\<close>

definition locked_world :: "(lock_key list, nat) world" where
  "locked_world =
     \<lparr>wstore = [[''memory'', ''m1'']],
      wreg = [0 \<mapsto> \<lparr>tok_store = 7, tok_ids = [''m1''], live = True, admitting = True, open_scope = Some 4\<rparr>],
      wnext = 1, wmarks = {}, wscopes = [4 \<mapsto> (0, None)],
      writers = [0 \<mapsto> InCallback [''m1''] 0]\<rparr>"

lemma locked_world_reachable:
  "(writer_step held_list_ops 7)\<^sup>*\<^sup>* (initial_world []) locked_world"
proof -
  let ?S = "writer_step held_list_ops 7 :: (lock_key list, nat) world \<Rightarrow> _"
  let ?w0 = "initial_world [] :: (lock_key list, nat) world"
  let ?w1 = "?w0\<lparr>writers := (writers ?w0)(0 \<mapsto> start_acquire True [Str ''m1''] 200)\<rparr>"
  let ?st = "\<lparr>tok_store = 7, tok_ids = [''m1''], live = True, admitting = True, open_scope = None\<rparr>"
  let ?w1' = "?w1\<lparr>wstore := [[''memory'', ''m1'']], wreg := [0 \<mapsto> ?st], wnext := 1\<rparr>"
  let ?w2 = "?w1'\<lparr>writers := (writers ?w1)(0 \<mapsto> InCallback [''m1''] 0)\<rparr>"
  have a: "start_acquire True [Str ''m1''] 200 = (Waiting [''m1''] 0 200 :: nat writer)"
    by (simp add: start_acquire_def normalizeIds_def)
  have "?S ?w0 ?w1" by (rule writer_step.call) (simp add: initial_world_def)
  note r = r_into_rtranclp [of ?S, OF this]
  have "?S ?w1 ?w2"
  proof (rule writer_step.attempt)
    show "writers ?w1 0 = Some (Waiting [''m1''] 0 200)" by (simp add: a)
    show "acquire_attempt held_list_ops 7 [''m1''] 0 200 ?w1 = (InCallback [''m1''] 0, ?w1')"
      by (simp add: acquire_attempt_def memoryWriteOutcomeUnknown_def initial_world_def memoryLockKey_def
          MEMORY_LOCK_NAMESPACE_def held_list_ops_def mintToken_def)
  qed
  note r = rtranclp.rtrancl_into_rtrancl [of ?S, OF r this]
  have "?S ?w2 (?w2\<lparr>wreg := [0 \<mapsto> ?st\<lparr>open_scope := Some 4\<rparr>], wscopes := (wscopes ?w2)(4 \<mapsto> (0, None))\<rparr>)"
    by (rule writer_step.admit)
       (simp_all add: initial_world_def admitLockedScope_def assertMemoryWriteLockToken_def)
  note r = rtranclp.rtrancl_into_rtrancl [of ?S, OF r this]
  moreover have "?w2\<lparr>wreg := [0 \<mapsto> ?st\<lparr>open_scope := Some 4\<rparr>], wscopes := (wscopes ?w2)(4 \<mapsto> (0, None))\<rparr> = locked_world"
    by (simp add: locked_world_def initial_world_def)
  ultimately show ?thesis by simp
qed

lemma token_means_exclusive_ids_witness:
  "assertMemoryWriteLockToken (wreg locked_world) (Token 0) (Some 7) [Str ''m1''] = Inr () \<and>
   memoryLockKey (Str ''m1'') \<in> set (wstore locked_world)"
proof -
  have a: "assertMemoryWriteLockToken (wreg locked_world) (Token 0) (Some 7) [Str ''m1''] = Inr ()"
    by (simp add: assertMemoryWriteLockToken_def locked_world_def)
  show ?thesis
    using token_means_exclusive_ids [OF held_list.key_lock_store_axioms _ locked_world_reachable a, of "Str ''m1''"] a
    by simp
qed

lemma keys_end_with_the_call_witness:
  "set (wstore locked_world) = mkeys [''m1'']"
  using keys_end_with_the_call [OF held_list.key_lock_store_axioms _ locked_world_reachable]
  by (auto simp: locked_world_def split: if_splits)

lemma open_scope_keeps_keys_witness:
  "wscopes locked_world 4 = Some (0, None) \<and>
   (\<exists>ids. memoryWriteLockTokenIds (wreg locked_world) (Token 0) = Inr ids \<and>
      mkeys ids \<subseteq> set (wstore locked_world))"
proof -
  have o: "wscopes locked_world 4 = Some (0, None)" by (simp add: locked_world_def)
  show ?thesis
    using open_scope_keeps_keys [OF held_list.key_lock_store_axioms _ locked_world_reachable o] o by auto
qed

end
