(* ===== verification/FederationCrypto.thy ===== *)
theory FederationCrypto
  imports FlairPrelude "HOL-Library.Multiset"
begin

text \<open>
  Signing inputs and replay-protected requests (\<open>resources/federation-crypto.ts\<close>).

  Ed25519 signing and verification (tweetnacl, with the base64url coding of keys and signatures
  around it) and SHA-256 are the fields of \<open>crypto\<close>; the text a field is given is the argument of
  the \<open>TextEncoder\<close>. A verification that throws answers \<open>False\<close>. The clock and the random nonce
  are arguments.
\<close>

section \<open>Canonical JSON\<close>

text \<open>An array index: the decimal numeral of a number below \<open>2^32 - 1\<close>.\<close>

definition is_array_index :: "string \<Rightarrow> bool" where
  "is_array_index s \<longleftrightarrow>
     s \<noteq> [] \<and> list_all is_digit s \<and> (hd s \<noteq> CHR ''0'' \<or> s = ''0'') \<and>
     (case digits_in 10 0 s of None \<Rightarrow> False | Some n \<Rightarrow> n < 4294967295)"

definition index_value :: "string \<Rightarrow> nat" where
  "index_value s = (case digits_in 10 0 s of None \<Rightarrow> 0 | Some n \<Rightarrow> n)"

text \<open>The order in which an object lists its own keys: array indices ascending, then the rest.\<close>

definition enum_order :: "(string \<times> 'a) list \<Rightarrow> (string \<times> 'a) list" where
  "enum_order kvs =
     sort_key (\<lambda>kv. index_value (fst kv)) (filter (\<lambda>kv. is_array_index (fst kv)) kvs) @
     filter (\<lambda>kv. \<not> is_array_index (fst kv)) kvs"

primrec sortKeys :: "js \<Rightarrow> js" where
  "sortKeys Undef = Undef"
| "sortKeys Null = Null"
| "sortKeys (Bool b) = Bool b"
| "sortKeys (Num n) = Num n"
| "sortKeys (Str s) = Str s"
| "sortKeys (Arr vs) = Arr (map sortKeys vs)"
| "sortKeys (Obj kvs) = Obj (enum_order (sort_key fst (map (map_prod id sortKeys) kvs)))"

definition hex_lower :: "nat \<Rightarrow> char" where
  "hex_lower n = (if n < 10 then char_of (n + 48) else char_of (n + 87))"

definition json_char :: "char \<Rightarrow> string" where
  "json_char c =
     (if c = CHR 34 then [CHR 92, CHR 34]
      else if c = CHR 92 then [CHR 92, CHR 92]
      else if c = CHR 8 then [CHR 92, CHR ''b'']
      else if c = CHR 9 then [CHR 92, CHR ''t'']
      else if c = CHR 10 then [CHR 92, CHR ''n'']
      else if c = CHR 12 then [CHR 92, CHR ''f'']
      else if c = CHR 13 then [CHR 92, CHR ''r'']
      else if code c < 32
        then [CHR 92, CHR ''u'', CHR ''0'', CHR ''0'', hex_lower (code c div 16), hex_lower (code c mod 16)]
      else [c])"

definition json_string :: "string \<Rightarrow> string" where
  "json_string s = [CHR 34] @ concat (map json_char s) @ [CHR 34]"

text \<open>\<open>JSON.stringify\<close>; \<open>None\<close> is \<open>undefined\<close>, which an object drops and an array writes as null.\<close>

primrec json_stringify :: "js \<Rightarrow> string option" where
  "json_stringify Undef = None"
| "json_stringify Null = Some ''null''"
| "json_stringify (Bool b) = Some (if b then ''true'' else ''false'')"
| "json_stringify (Num n) = Some (if is_finite n then js_num_string n else ''null'')"
| "json_stringify (Str s) = Some (json_string s)"
| "json_stringify (Arr vs) =
     Some (''['' @ join_with '','' (map (\<lambda>t. case t of None \<Rightarrow> ''null'' | Some x \<Rightarrow> x)
                                     (map json_stringify vs)) @ '']'')"
| "json_stringify (Obj kvs) =
     Some (''{'' @ join_with '','' (List.map_filter
              (\<lambda>(k, t). map_option (\<lambda>x. json_string k @ '':'' @ x) t)
              (map (map_prod id json_stringify) kvs)) @ ''}'')"

definition canonicalize :: "js \<Rightarrow> string" where
  "canonicalize v = (case json_stringify (sortKeys v) of None \<Rightarrow> ''undefined'' | Some t \<Rightarrow> t)"

text \<open>The order in which properties were added does not reach the signing input.\<close>

lemma sort_by_key_unique:
  assumes "mset xs = mset ys" "distinct (map fst xs)"
  shows "sort_key fst xs = sort_key fst ys"
proof (rule properties_for_sort_key)
  show "mset (sort_key fst ys) = mset xs" using assms(1) by simp
  show "sorted (map fst (sort_key fst ys))" by simp
  have d: "distinct (map fst ys)" using assms
    by (metis mset_eq_imp_distinct_iff mset_map)
  show "filter (\<lambda>y. fst k = fst y) (sort_key fst ys) = filter (\<lambda>x. fst k = fst x) xs"
    if "k \<in> set (sort_key fst ys)" for k
  proof -
    have one: "filter (\<lambda>x. fst k = fst x) zs = [k]" if "distinct (map fst zs)" "k \<in> set zs" for zs
      using that
    proof (induction zs)
      case (Cons z zs)
      have n: "fst x \<noteq> fst z" if "x \<in> set zs" for x
        using Cons.prems(1) that by (auto simp: rev_image_eqI)
      show ?case
      proof (cases "k = z")
        case True
        then have "\<forall>x \<in> set zs. fst k \<noteq> fst x" using n by metis
        then have "filter (\<lambda>x. fst k = fst x) zs = []" by (simp add: filter_empty_conv)
        then show ?thesis using True by simp
      next
        case False
        then show ?thesis using Cons n [of k] by auto
      qed
    qed simp
    have "k \<in> set xs" "k \<in> set ys" using that assms(1) by (auto dest: mset_eq_setD)
    moreover have "distinct (map fst (sort_key fst ys))" using d
      by (simp add: distinct_map)
    ultimately show ?thesis using one [of xs] one [of "sort_key fst ys"] assms(2) by simp
  qed
qed

lemma sort_keys_perm:
  assumes "mset kvs = mset kvs'" "distinct (map fst kvs)"
  shows "canonicalize (Obj kvs) = canonicalize (Obj kvs')"
proof -
  have "mset (map (map_prod id sortKeys) kvs) = mset (map (map_prod id sortKeys) kvs')"
    using assms(1) by (simp add: mset_map)
  moreover have "distinct (map fst (map (map_prod id sortKeys) kvs))"
    using assms(2) by (simp add: comp_def)
  ultimately have "sort_key fst (map (map_prod id sortKeys) kvs) = sort_key fst (map (map_prod id sortKeys) kvs')"
    by (rule sort_by_key_unique)
  then show ?thesis by (simp add: canonicalize_def)
qed

section \<open>Signing and verifying a body\<close>

record crypto =
  sign_detached :: "string \<Rightarrow> string \<Rightarrow> string"
  verify_detached :: "string \<Rightarrow> js \<Rightarrow> string \<Rightarrow> bool"
  sha256_hex :: "string \<Rightarrow> string"

definition signBody :: "crypto \<Rightarrow> jobj \<Rightarrow> string \<Rightarrow> string" where
  "signBody cr bdy secretKey = sign_detached cr (canonicalize (Obj bdy)) secretKey"

definition verifyBodySignature :: "crypto \<Rightarrow> jobj \<Rightarrow> string \<Rightarrow> bool" where
  "verifyBodySignature cr bdy publicKey =
     (let signature = getp bdy ''signature''; rest = AList.delete ''signature'' bdy in
      if \<not> truthy signature then False
      else verify_detached cr (canonicalize (Obj rest)) signature publicKey)"

section \<open>Freshness\<close>

definition FEDERATION_WINDOW_MS :: int where "FEDERATION_WINDOW_MS = 30000"

datatype fresh_reason = Stale | Future | Replay | InvalidSignature | StoreUnavailable

record precheck_ok =
  pc_nonce :: string
  verificationBody :: jobj

definition precheckFresh :: "jobj \<Rightarrow> int \<Rightarrow> int \<Rightarrow> fresh_reason + precheck_ok" where
  "precheckFresh bdy windowMs now =
     (let signature = getp bdy ''signature''; ts = getp bdy ''_ts''; nonce = getp bdy ''_nonce'';
          rest = AList.delete ''signature'' (AList.delete ''_ts'' (AList.delete ''_nonce'' bdy)) in
      if \<not> truthy signature then Inl InvalidSignature
      else (case ts of
          Num (Fin q) \<Rightarrow>
            (case nonce of
               Str n \<Rightarrow>
                 if n = [] then Inl InvalidSignature
                 else if of_int now - q > of_int windowMs then Inl Stale
                 else if of_int now - q < - of_int windowMs then Inl Future
                 else Inr \<lparr>pc_nonce = n,
                   verificationBody = [(''_ts'', ts), (''_nonce'', nonce)] @ rest @ [(''signature'', signature)]\<rparr>
             | _ \<Rightarrow> Inl InvalidSignature)
        | _ \<Rightarrow> Inl InvalidSignature))"

text \<open>\<open>createNonceStore\<close>: a \<open>Map\<close> from nonce to the time it was seen.\<close>

type_synonym nonce_store = "(string \<times> int) list"

definition nonce_has :: "nonce_store \<Rightarrow> string \<Rightarrow> bool" where
  "nonce_has st key = (map_of st key \<noteq> None)"

definition nonce_set :: "nonce_store \<Rightarrow> string \<Rightarrow> int \<Rightarrow> nonce_store" where
  "nonce_set st key v = AList.update key v st"

definition nonce_evict :: "nonce_store \<Rightarrow> int \<Rightarrow> nonce_store" where
  "nonce_evict st olderThan = filter (\<lambda>(k, ts). \<not> ts < olderThan) st"

definition signBodyFresh :: "crypto \<Rightarrow> jobj \<Rightarrow> string \<Rightarrow> int \<Rightarrow> string \<Rightarrow> jobj" where
  "signBodyFresh cr bdy secretKey ts nonce =
     (let tsBody = spread bdy [(''_ts'', Num (jint ts)), (''_nonce'', Str nonce)] in
      spread tsBody [(''signature'', Str (signBody cr tsBody secretKey))])"

definition verifyBodySignatureFresh ::
    "crypto \<Rightarrow> jobj \<Rightarrow> string \<Rightarrow> int \<Rightarrow> int \<Rightarrow> nonce_store option \<Rightarrow>
     (fresh_reason + unit) \<times> nonce_store option" where
  "verifyBodySignatureFresh cr bdy publicKey windowMs now nonceStore =
     (case precheckFresh bdy windowMs now of
        Inl r \<Rightarrow> (Inl r, nonceStore)
      | Inr pre \<Rightarrow>
          let nonce = pc_nonce pre;
              evicted = map_option (\<lambda>st. nonce_evict st (now - 2 * windowMs)) nonceStore in
          if (case evicted of None \<Rightarrow> False | Some st \<Rightarrow> nonce_has st nonce)
          then (Inl Replay, evicted)
          else if \<not> verifyBodySignature cr (verificationBody pre) publicKey
          then (Inl InvalidSignature, evicted)
          else (Inr (), map_option (\<lambda>st. nonce_set st nonce now) evicted))"

text \<open>
  The asynchronous recorder: a claim that throws is \<open>None\<close>; its check and its record are one
  operation on its own state.
\<close>

datatype claim_result = Recorded | ReplayClaim | ClaimUnavailable

record 's replay_recorder =
  knownReplay :: "string \<Rightarrow> int \<Rightarrow> 's \<Rightarrow> bool"
  claim :: "string \<Rightarrow> 's \<Rightarrow> claim_result option \<times> 's"

definition verifyBodySignatureFreshOnce ::
    "crypto \<Rightarrow> jobj \<Rightarrow> string \<Rightarrow> int option \<Rightarrow> int \<Rightarrow> 's replay_recorder \<Rightarrow> 's \<Rightarrow>
     (fresh_reason + unit) \<times> 's" where
  "verifyBodySignatureFreshOnce cr bdy publicKey windowMs now replay s =
     (case precheckFresh bdy (case windowMs of None \<Rightarrow> FEDERATION_WINDOW_MS | Some w \<Rightarrow> w) now of
        Inl r \<Rightarrow> (Inl r, s)
      | Inr pre \<Rightarrow>
          if knownReplay replay (pc_nonce pre) now s then (Inl Replay, s)
          else if \<not> verifyBodySignature cr (verificationBody pre) publicKey
          then (Inl InvalidSignature, s)
          else (case claim replay (pc_nonce pre) s of
              (Some Recorded, s') \<Rightarrow> (Inr (), s')
            | (Some ReplayClaim, s') \<Rightarrow> (Inl Replay, s')
            | (Some ClaimUnavailable, s') \<Rightarrow> (Inl StoreUnavailable, s')
            | (None, s') \<Rightarrow> (Inl StoreUnavailable, s')))"

section \<open>A signed body verifies, once\<close>

lemma spread_props [simp]:
  "distinct (map fst ob) \<Longrightarrow> distinct (map fst (spread ob kvs))"
  "fst ` set (spread ob kvs) = fst ` set ob \<union> fst ` set kvs"
  by (induction kvs arbitrary: ob) (simp_all add: spread_def split: prod.splits)

lemma mset_eq_by_map_of:
  assumes "distinct (map fst xs)" "distinct (map fst ys)" "map_of xs = map_of ys"
  shows "mset xs = mset ys"
proof -
  have "set xs = set ys" using assms by (metis map_of_inject_set)
  moreover have "distinct xs" "distinct ys" using assms by (simp_all add: distinct_map)
  ultimately show ?thesis by (simp add: set_eq_iff_mset_eq_distinct)
qed

lemma precheck_signed:
  assumes "distinct (map fst bdy)" "''signature'' \<notin> fst ` set bdy" "nonce \<noteq> []" "\<bar>now - ts\<bar> \<le> w"
    and "sign_detached cr (canonicalize (Obj (spread bdy [(''_ts'', Num (jint ts)), (''_nonce'', Str nonce)]))) sk \<noteq> []"
    and "verify_detached cr (canonicalize (Obj (spread bdy [(''_ts'', Num (jint ts)), (''_nonce'', Str nonce)])))
           (Str (signBody cr (spread bdy [(''_ts'', Num (jint ts)), (''_nonce'', Str nonce)]) sk)) pk"
  shows "\<exists>pre. precheckFresh (signBodyFresh cr bdy sk ts nonce) w now = Inr pre \<and> pc_nonce pre = nonce \<and>
           verifyBodySignature cr (verificationBody pre) pk"
proof -
  let ?t = "spread bdy [(''_ts'', Num (jint ts)), (''_nonce'', Str nonce)]"
  let ?sig = "signBody cr ?t sk"
  let ?b = "signBodyFresh cr bdy sk ts nonce"
  have b: "?b = AList.update ''signature'' (Str ?sig) ?t" by (simp add: signBodyFresh_def spread_def Let_def)
  have db: "distinct (map fst ?b)" using assms(1) by (simp add: b)
  have sig: "?sig \<noteq> []" using assms(5) by (simp add: signBody_def)
  let ?rest = "AList.delete ''signature'' (AList.delete ''_ts'' (AList.delete ''_nonce'' ?b))"
  have "\<bar>rat_of_int now - rat_of_int ts\<bar> \<le> rat_of_int w"
    using assms(4) by (metis of_int_abs of_int_diff of_int_le_iff)
  then have lim: "\<not> rat_of_int now - rat_of_int ts > rat_of_int w" "\<not> rat_of_int now - rat_of_int ts < - rat_of_int w"
    by linarith+
  have g: "getp ?b ''signature'' = Str ?sig" "getp ?b ''_ts'' = Num (jint ts)" "getp ?b ''_nonce'' = Str nonce"
    by (simp_all add: b spread_def)
  have pre: "precheckFresh ?b w now = Inr \<lparr>pc_nonce = nonce,
      verificationBody = [(''_ts'', Num (jint ts)), (''_nonce'', Str nonce)] @ ?rest @ [(''signature'', Str ?sig)]\<rparr>"
    using lim sig assms(3) by (simp add: precheckFresh_def g Let_def)
  let ?v = "[(''_ts'', Num (jint ts)), (''_nonce'', Str nonce)] @ ?rest"
  have del: "AList.delete ''signature'' (?v @ [(''signature'', Str ?sig)]) = ?v"
    by (simp add: AList.delete_eq filter_empty_conv)
  have "canonicalize (Obj ?v) = canonicalize (Obj ?t)"
  proof (rule sort_keys_perm)
    show d: "distinct (map fst ?v)" using db by auto
    have ns: "map_of bdy ''signature'' = None" using assms(2) by (simp add: map_of_eq_None_iff)
    have "map_of ?v k = map_of ?t k" for k
      by (cases "k = ''_ts''"; cases "k = ''_nonce''"; cases "k = ''signature''")
         (simp_all add: b spread_def delete_conv' update_conv' ns)
    then have "map_of ?v = map_of ?t" by blast
    then show "mset ?v = mset ?t" by (intro mset_eq_by_map_of d) (use assms(1) in simp_all)
  qed
  then have "verifyBodySignature cr (?v @ [(''signature'', Str ?sig)]) pk"
    using assms(6) sig unfolding verifyBodySignature_def del
    by (simp add: getp_def delete_conv' map_add_def)
  then show ?thesis using pre by simp
qed

text \<open>What \<open>signBodyFresh\<close> signs, \<open>verifyBodySignatureFresh\<close> accepts within the window:
  for every body without a signature of its own, every non-empty nonce the store does not hold and
  every signature scheme whose signatures verify under the matching key, whatever order the body's
  properties are in after transport. \<close>

theorem signed_body_verifies:
  assumes "distinct (map fst bdy)" "''signature'' \<notin> fst ` set bdy" "nonce \<noteq> []" "\<bar>now - ts\<bar> \<le> w"
    and "\<forall>m. sign_detached cr m sk \<noteq> [] \<and> verify_detached cr m (Str (sign_detached cr m sk)) pk"
    and "\<forall>st. store = Some st \<longrightarrow> \<not> nonce_has (nonce_evict st (now - 2 * w)) nonce"
  shows "fst (verifyBodySignatureFresh cr (signBodyFresh cr bdy sk ts nonce) pk w now store) = Inr () \<and>
         canonicalize (Obj (rev bdy)) = canonicalize (Obj bdy)"
proof -
  obtain pre where pre: "precheckFresh (signBodyFresh cr bdy sk ts nonce) w now = Inr pre" "pc_nonce pre = nonce"
      "verifyBodySignature cr (verificationBody pre) pk"
    using precheck_signed [of bdy nonce now ts w cr sk pk] assms(1-5) by (auto simp: signBody_def)
  have "canonicalize (Obj (rev bdy)) = canonicalize (Obj bdy)"
    by (rule sort_keys_perm [symmetric]) (use assms(1) in simp_all)
  then show ?thesis using pre assms(6)
    by (auto simp: verifyBodySignatureFresh_def Let_def split: option.splits)
qed

text \<open>The requests one process verifies against one store, each with its key and its time.\<close>

fun verify_all ::
    "crypto \<Rightarrow> int \<Rightarrow> nonce_store \<Rightarrow> (jobj \<times> string \<times> int) list \<Rightarrow> (fresh_reason + unit) list" where
  "verify_all cr w st [] = []"
| "verify_all cr w st ((b, pk, now) # rs) =
     (case verifyBodySignatureFresh cr b pk w now (Some st) of
        (r, Some st') \<Rightarrow> r # verify_all cr w st' rs
      | (r, None) \<Rightarrow> r # verify_all cr w st rs)"

lemma length_verify_all [simp]: "length (verify_all cr w st rs) = length rs"
  by (induction rs arbitrary: st) (auto split: prod.splits option.splits)

lemma map_of_evict: "map_of st n = Some v \<Longrightarrow> t \<le> v \<Longrightarrow> map_of (nonce_evict st t) n = Some v"
  by (induction st) (auto simp: nonce_evict_def)

lemma precheck_InrD:
  assumes "precheckFresh b w now = Inr pre"
  shows "\<exists>q. getp b ''_nonce'' = Str (pc_nonce pre) \<and> getp b ''_ts'' = Num (Fin q) \<and>
    q - of_int w \<le> of_int now \<and> of_int now \<le> q + of_int w"
  using assms by (auto simp: precheckFresh_def Let_def split: if_splits js.splits jnum.splits)

lemma fresh_store:
  obtains st' where "snd (verifyBodySignatureFresh cr b pk w now (Some st)) = Some st'"
    "\<And>n v. map_of st n = Some v \<Longrightarrow> now - 2 * w \<le> v \<Longrightarrow> map_of st' n = Some v"
    "fst (verifyBodySignatureFresh cr b pk w now (Some st)) = Inr () \<Longrightarrow>
       \<exists>n q. getp b ''_nonce'' = Str n \<and> getp b ''_ts'' = Num (Fin q) \<and> map_of st' n = Some now \<and>
         q - of_int w \<le> of_int now \<and> of_int now \<le> q + of_int w"
proof (cases "precheckFresh b w now")
  case (Inl r)
  then show ?thesis using that [of st] by (simp add: verifyBodySignatureFresh_def)
next
  case (Inr pre)
  let ?e = "nonce_evict st (now - 2 * w)"
  show ?thesis
  proof (cases "nonce_has ?e (pc_nonce pre) \<or> \<not> verifyBodySignature cr (verificationBody pre) pk")
    case True
    then have "snd (verifyBodySignatureFresh cr b pk w now (Some st)) = Some ?e"
      "fst (verifyBodySignatureFresh cr b pk w now (Some st)) \<noteq> Inr ()"
      using Inr by (auto simp: verifyBodySignatureFresh_def Let_def)
    then show ?thesis using that [of ?e] map_of_evict by blast
  next
    case False
    then have v: "verifyBodySignatureFresh cr b pk w now (Some st) = (Inr (), Some (nonce_set ?e (pc_nonce pre) now))"
      using Inr by (simp add: verifyBodySignatureFresh_def Let_def)
    have "map_of (nonce_set ?e (pc_nonce pre) now) n = Some v" if "map_of st n = Some v" "now - 2 * w \<le> v" for n v
      using map_of_evict [OF that] False by (auto simp: nonce_has_def nonce_set_def update_conv')
    moreover have "map_of (nonce_set ?e (pc_nonce pre) now) (pc_nonce pre) = Some now"
      by (simp add: nonce_set_def update_conv')
    ultimately show ?thesis
      using that [of "nonce_set ?e (pc_nonce pre) now"] v precheck_InrD [OF Inr] by auto
  qed
qed

lemma known_nonce_refused:
  assumes "map_of st n = Some v" "now - 2 * w \<le> v" "getp b ''_nonce'' = Str n"
  shows "fst (verifyBodySignatureFresh cr b pk w now (Some st)) \<noteq> Inr ()"
proof (cases "precheckFresh b w now")
  case (Inr pre)
  then have "pc_nonce pre = n" using precheck_InrD [OF Inr] assms(3) by auto
  then show ?thesis using Inr map_of_evict [OF assms(1,2)]
    by (simp add: verifyBodySignatureFresh_def Let_def nonce_has_def)
qed (simp add: verifyBodySignatureFresh_def)

lemma verify_all_Cons:
  "verify_all cr w st ((b, pk, now) # rs) =
     fst (verifyBodySignatureFresh cr b pk w now (Some st)) #
     verify_all cr w (the (snd (verifyBodySignatureFresh cr b pk w now (Some st)))) rs"
  by (rule fresh_store [of cr b pk w now st]) (auto split: prod.splits option.splits)

declare verify_all.simps(2) [simp del]

lemma held_nonce_never_accepted:
  assumes "map_of st n = Some v" "sorted (map (\<lambda>(b, pk, t). t) rs)" "j < length rs"
    and "rs ! j = (b, pk, t)" "getp b ''_nonce'' = Str n" "t - 2 * w \<le> v"
  shows "verify_all cr w st rs ! j \<noteq> Inr ()"
  using assms
proof (induction rs arbitrary: st j)
  case (Cons r rs)
  obtain b0 pk0 t0 where r: "r = (b0, pk0, t0)" by (cases r)
  obtain st' where st': "snd (verifyBodySignatureFresh cr b0 pk0 w t0 (Some st)) = Some st'"
    "\<And>n v. map_of st n = Some v \<Longrightarrow> t0 - 2 * w \<le> v \<Longrightarrow> map_of st' n = Some v"
    using fresh_store [of cr b0 pk0 w t0 st] by metis
  show ?case
  proof (cases j)
    case 0
    then show ?thesis
      using Cons.prems r known_nonce_refused [of st n v t w b cr pk] by (simp add: verify_all_Cons)
  next
    case (Suc i)
    have "(b, pk, t) \<in> set rs" using Cons.prems(3,4) Suc by (auto simp: in_set_conv_nth)
    then have "t0 \<le> t" using Cons.prems(2) r by force
    then have "map_of st' n = Some v" using st'(2) Cons.prems(1,6) by simp
    then show ?thesis
      using Cons.IH [of st' i] Cons.prems Suc r st'(1) by (simp add: verify_all_Cons)
  qed
qed simp

lemma accepted_at:
  assumes "verify_all cr w st rs ! j = Inr ()" "rs ! j = (b, pk, t)" "j < length rs"
  shows "\<exists>st2. fst (verifyBodySignatureFresh cr b pk w t (Some st2)) = Inr ()"
  using assms
proof (induction rs arbitrary: st j)
  case (Cons r rs)
  obtain b0 pk0 t0 where r: "r = (b0, pk0, t0)" by (cases r)
  then show ?case using Cons by (cases j) (auto simp: verify_all_Cons)
qed simp

lemma accepted_window:
  assumes "fst (verifyBodySignatureFresh cr b pk w t (Some st)) = Inr ()" "getp b ''_ts'' = Num (Fin q)"
  shows "of_int t \<le> q + of_int w"
proof (rule fresh_store [of cr b pk w t st])
qed (use assms in auto)

text \<open>C8. A captured request cannot be replayed: in any run of verifications against one nonce
  store, under a clock that does not go back, two accepted requests never carry the same nonce and
  the same timestamp; the store forgets a nonce only when its timestamp has left the window. \<close>

theorem no_replay_in_window:
  assumes "sorted (map (\<lambda>(b, pk, t). t) rs)" "i < j" "j < length rs"
    and "verify_all cr w st rs ! i = Inr ()" "verify_all cr w st rs ! j = Inr ()"
  shows "getp (fst (rs ! i)) ''_nonce'' \<noteq> getp (fst (rs ! j)) ''_nonce'' \<or>
         getp (fst (rs ! i)) ''_ts'' \<noteq> getp (fst (rs ! j)) ''_ts''"
  using assms
proof (induction rs arbitrary: st i j)
  case (Cons r rs)
  obtain b pk t where r: "r = (b, pk, t)" by (cases r)
  obtain st' where st': "snd (verifyBodySignatureFresh cr b pk w t (Some st)) = Some st'"
    "fst (verifyBodySignatureFresh cr b pk w t (Some st)) = Inr () \<Longrightarrow>
       \<exists>n q. getp b ''_nonce'' = Str n \<and> getp b ''_ts'' = Num (Fin q) \<and> map_of st' n = Some t \<and>
         q - of_int w \<le> of_int t \<and> of_int t \<le> q + of_int w"
    using fresh_store [of cr b pk w t st] by metis
  obtain j' where j: "j = Suc j'" using Cons.prems(2) by (cases j) auto
  show ?case
  proof (cases i)
    case (Suc i')
    then show ?thesis
      using Cons.IH [of i' j' st'] Cons.prems r j st'(1) by (simp add: verify_all_Cons)
  next
    case 0
    obtain b2 pk2 t2 where r2: "rs ! j' = (b2, pk2, t2)" by (cases "rs ! j'")
    have acc: "verify_all cr w st' rs ! j' = Inr ()"
      using Cons.prems(5) r j st'(1) by (simp add: verify_all_Cons)
    obtain n q where nq: "getp b ''_nonce'' = Str n" "getp b ''_ts'' = Num (Fin q)" "map_of st' n = Some t"
        "q - of_int w \<le> of_int t"
      using st'(2) Cons.prems(4) r 0 by (auto simp: verify_all_Cons)
    show ?thesis
    proof (rule ccontr)
      assume "\<not> ?thesis"
      then have same: "getp b2 ''_nonce'' = Str n" "getp b2 ''_ts'' = Num (Fin q)"
        using 0 r j r2 nq by auto
      obtain st2 where "fst (verifyBodySignatureFresh cr b2 pk2 w t2 (Some st2)) = Inr ()"
        using accepted_at [OF acc r2] Cons.prems(3) j by auto
      then have "of_int t2 \<le> q + of_int w"
        using accepted_window same(2) by blast
      then have "t2 - 2 * w \<le> t" using nq(4) by linarith
      then show False
        using held_nonce_never_accepted [OF nq(3), of rs j' b2 pk2 t2 w cr] Cons.prems(1,3) r j r2 same(1) acc
        by simp
    qed
  qed
qed simp

lemma signed_body_verifies_witness:
  "let cr = \<lparr>sign_detached = \<lambda>m k. k @ m, verify_detached = \<lambda>m s k. s = Str (k @ m), sha256_hex = \<lambda>m. m\<rparr> in
   fst (verifyBodySignatureFresh cr (signBodyFresh cr [(''b'', Str ''x''), (''a'', Null)] ''k'' 1000 ''n1'')
          ''k'' 30000 2000 (Some [(''n0'', 900)])) = Inr ()"
proof -
  let ?cr = "\<lparr>sign_detached = \<lambda>m k. k @ m, verify_detached = \<lambda>m s k. s = Str (k @ m), sha256_hex = \<lambda>m. m\<rparr>"
  have "fst (verifyBodySignatureFresh ?cr (signBodyFresh ?cr [(''b'', Str ''x''), (''a'', Null)] ''k'' 1000 ''n1'')
          ''k'' 30000 2000 (Some [(''n0'', 900)])) = Inr () \<and>
      canonicalize (Obj (rev [(''b'', Str ''x''), (''a'', Null)])) = canonicalize (Obj [(''b'', Str ''x''), (''a'', Null)])"
    by (rule signed_body_verifies) (simp_all add: nonce_has_def nonce_evict_def)
  then show ?thesis by (simp add: Let_def)
qed

lemma no_replay_in_window_witness:
  "(let cr = \<lparr>sign_detached = \<lambda>m k. k @ m, verify_detached = \<lambda>m s k. True, sha256_hex = \<lambda>m. m\<rparr>;
        req = (\<lambda>n. [(''_ts'', Num (Fin 0)), (''_nonce'', Str n), (''signature'', Str ''s'')]);
        rs = [(req ''a'', ''k'', 1), (req ''b'', ''k'', 2)] in
    verify_all cr 5 [] rs = [Inr (), Inr ()] \<and> getp (req ''a'') ''_nonce'' \<noteq> getp (req ''b'') ''_nonce'')"
proof -
  let ?cr = "\<lparr>sign_detached = \<lambda>m k. k @ m, verify_detached = \<lambda>m s k. True, sha256_hex = \<lambda>m. m\<rparr> :: crypto"
  let ?req = "\<lambda>n. [(''_ts'', Num (Fin 0)), (''_nonce'', Str n), (''signature'', Str ''s'')]"
  let ?rs = "[(?req ''a'', ''k'', 1), (?req ''b'', ''k'', 2)] :: (jobj \<times> string \<times> int) list"
  have p: "precheckFresh (?req n) 5 t = Inr \<lparr>pc_nonce = n, verificationBody =
      [(''_ts'', Num (Fin 0)), (''_nonce'', Str n), (''signature'', Str ''s'')]\<rparr>" if "n \<noteq> []" "t = 1 \<or> t = 2" for n t
    using that by (auto simp: precheckFresh_def Let_def)
  have v: "verifyBodySignatureFresh ?cr (?req n) k 5 t (Some st) =
      (if nonce_has (nonce_evict st (t - 10)) n then (Inl Replay, Some (nonce_evict st (t - 10)))
       else (Inr (), Some (nonce_set (nonce_evict st (t - 10)) n t)))" if "n \<noteq> []" "t = 1 \<or> t = 2" for n t k st
    using that by (simp add: verifyBodySignatureFresh_def p verifyBodySignature_def)
  have r: "verify_all ?cr 5 [] ?rs = [Inr (), Inr ()]"
    by (simp add: verify_all_Cons v nonce_has_def nonce_evict_def nonce_set_def)
  have "getp (fst (?rs ! 0)) ''_nonce'' \<noteq> getp (fst (?rs ! 1)) ''_nonce'' \<or>
         getp (fst (?rs ! 0)) ''_ts'' \<noteq> getp (fst (?rs ! 1)) ''_ts''"
    by (rule no_replay_in_window [where cr = ?cr and w = 5 and st = "[]"]) (simp_all add: r)
  then show ?thesis using r by (simp add: Let_def)
qed

text \<open>With the authoritative recorder a nonce is claimed last and only for a verified body: a
  request is accepted exactly when its body passes the freshness check, is not a known replay,
  verifies, and the recorder answers that it recorded the nonce just now; a body that does not
  verify leaves the recorder as it was, so nobody can burn another peer's nonce. \<close>

theorem once_claims_after_verifying:
  "(fst (verifyBodySignatureFreshOnce cr b pk w now rec s) = Inr () \<longleftrightarrow>
      (\<exists>pre. precheckFresh b (case w of None \<Rightarrow> FEDERATION_WINDOW_MS | Some v \<Rightarrow> v) now = Inr pre \<and>
         \<not> knownReplay rec (pc_nonce pre) now s \<and>
         verifyBodySignature cr (verificationBody pre) pk \<and>
         fst (claim rec (pc_nonce pre) s) = Some Recorded)) \<and>
   ((\<nexists>pre. precheckFresh b (case w of None \<Rightarrow> FEDERATION_WINDOW_MS | Some v \<Rightarrow> v) now = Inr pre \<and>
         verifyBodySignature cr (verificationBody pre) pk) \<longrightarrow>
      snd (verifyBodySignatureFreshOnce cr b pk w now rec s) = s)"
  by (auto simp: verifyBodySignatureFreshOnce_def Let_def
           split: sum.splits prod.splits option.splits claim_result.splits if_splits)

lemma once_claims_after_verifying_witness:
  "let cr = \<lparr>sign_detached = \<lambda>m k. m, verify_detached = \<lambda>m s k. False, sha256_hex = \<lambda>m. m\<rparr>;
       rec = \<lparr>knownReplay = \<lambda>_ _ _. False, claim = \<lambda>n seen. (Some Recorded, n # seen)\<rparr> in
   snd (verifyBodySignatureFreshOnce cr
     [(''_ts'', Num (Fin 0)), (''_nonce'', Str ''n''), (''signature'', Str ''s'')] ''k'' None 5 rec []) = []"
  using once_claims_after_verifying [of "\<lparr>sign_detached = \<lambda>m k. m, verify_detached = \<lambda>m s k. False, sha256_hex = \<lambda>m. m\<rparr>"
      "[(''_ts'', Num (Fin 0)), (''_nonce'', Str ''n''), (''signature'', Str ''s'')]" "''k''" None 5
      "\<lparr>knownReplay = \<lambda>_ _ _. False, claim = \<lambda>n seen. (Some Recorded, n # seen)\<rparr>" "[]"]
  by (simp add: Let_def verifyBodySignature_def)

end
