(* ===== verification/Relay.thy ===== *)
theory Relay
  imports OwnerGuard KeyLock FederationCrypto
begin

text \<open>
  The message relay: \<open>resources/relay-lib.ts\<close> (canonical bodies, caps, the message state machine)
  and \<open>resources/relay-ops.ts\<close> (send, inbox, consume, dead letters, deadline sweep).

  A stored message is an object. What the code is given is a field of \<open>relay_deps\<close>: the message
  table over an abstract store, the agent lookup and the org lookup, each as the code sees it (a
  lookup that throws is \<open>Inl\<close>), the parsing and printing of dates, and \<open>localeCompare\<close>. The laws
  the table is relied on for are the locale \<open>message_table\<close>. The check-and-write of a send runs
  under the three key locks of \<open>send_lock_keys\<close>, whose outcome is an argument of \<open>relaySend\<close>; that
  the keyed sections exclude each other is the subject of the theory \<open>KeyLock\<close>.
\<close>

section \<open>Messages\<close>

definition DEFAULT_INBOX_CAP :: int where "DEFAULT_INBOX_CAP = 1000"
definition DEFAULT_PER_SENDER_CAP :: int where "DEFAULT_PER_SENDER_CAP = 100"

definition positiveIntEnv :: "string option \<Rightarrow> int \<Rightarrow> int" where
  "positiveIntEnv raw fallback =
     (case raw of None \<Rightarrow> fallback
      | Some r \<Rightarrow> let n = js_Number r in if is_integer n \<and> jlt (Fin 0) n then int_of_jnum n else fallback)"

type_synonym envmap = "string \<Rightarrow> string option"

definition inboxCap :: "envmap \<Rightarrow> int" where
  "inboxCap env = positiveIntEnv (env ''FLAIR_RELAY_INBOX_CAP'') DEFAULT_INBOX_CAP"

definition perSenderCap :: "envmap \<Rightarrow> int" where
  "perSenderCap env = positiveIntEnv (env ''FLAIR_RELAY_PER_SENDER_CAP'') DEFAULT_PER_SENDER_CAP"

definition LOCAL_ORG_SENTINEL :: string where "LOCAL_ORG_SENTINEL = ''local''"

definition CONTENT_HASH_FIELDS :: "string list" where
  "CONTENT_HASH_FIELDS = [''from'', ''to'', ''threadId'', ''seq'', ''kind'', ''body'', ''orgScope'',
     ''deadline'', ''inReplyTo'', ''parentContentHash'', ''senderModel'', ''senderProvider'', ''senderRunId'']"

definition SIGNED_BODY_FIELDS :: "string list" where
  "SIGNED_BODY_FIELDS = [''id'', ''from'', ''to'', ''threadId'', ''seq'', ''kind'', ''body'', ''orgScope'',
     ''deadline'', ''inReplyTo'', ''parentContentHash'', ''createdAt'', ''contentHash'', ''senderModel'',
     ''senderProvider'', ''senderRunId'']"

definition computeContentHash :: "crypto \<Rightarrow> jobj \<Rightarrow> string" where
  "computeContentHash cr msg = sha256_hex cr (canonicalize (Obj (pick msg CONTENT_HASH_FIELDS)))"

definition signedBody :: "jobj \<Rightarrow> jobj" where
  "signedBody msg = pick msg SIGNED_BODY_FIELDS"

definition sealMessage :: "crypto \<Rightarrow> jobj \<Rightarrow> string \<Rightarrow> jobj" where
  "sealMessage cr msg secretKey =
     (let withHash = spread msg [(''contentHash'', Str (computeContentHash cr msg))];
          signature = signBody cr (signedBody withHash) secretKey in
      spread withHash [(''signature'', Str signature)])"

datatype signature_fault = MissingSignature | ContentHashMismatch | BadSignature

definition verifyMessageSignature :: "crypto \<Rightarrow> jobj \<Rightarrow> string \<Rightarrow> signature_fault + unit" where
  "verifyMessageSignature cr msg publicKey =
     (if \<not> truthy (getp msg ''signature'') then Inl MissingSignature
      else if \<not> strict_eq (getp msg ''contentHash'') (Str (computeContentHash cr msg)) then Inl ContentHashMismatch
      else if \<not> verifyBodySignature cr (spread (signedBody msg) [(''signature'', getp msg ''signature'')]) publicKey
        then Inl BadSignature
      else Inr ())"

record cap_counts =
  recipientUnconsumed :: int
  senderUnconsumed :: int

record caps =
  inbox :: int
  perSender :: int

datatype cap_scope = RecipientScope | SenderScope

definition capDecision :: "cap_counts \<Rightarrow> caps \<Rightarrow> cap_scope + unit" where
  "capDecision counts c =
     (if senderUnconsumed counts \<ge> perSender c then Inl SenderScope
      else if recipientUnconsumed counts \<ge> inbox c then Inl RecipientScope
      else Inr ())"

definition isUnconsumed :: "js \<Rightarrow> bool" where
  "isUnconsumed state \<longleftrightarrow> state = Str ''submitted'' \<or> state = Str ''delivered''"

definition reconcileState :: "js \<Rightarrow> js \<Rightarrow> js" where
  "reconcileState localState incomingState =
     (if localState = Str ''consumed'' \<or> incomingState = Str ''consumed'' then Str ''consumed''
      else if localState = Str ''failed'' then Str ''failed''
      else incomingState)"

text \<open>\<open>new Date(d).getTime()\<close> is the argument \<open>date\<close>: \<open>NaN\<close> for what is no date.\<close>

definition sweepDecision :: "(js \<Rightarrow> jnum) \<Rightarrow> jobj \<Rightarrow> int \<Rightarrow> bool" where
  "sweepDecision date row now =
     (if \<not> isUnconsumed (getp row ''state'') then False
      else if \<not> truthy (getp row ''deadline'') then False
      else if jlt (jint now) (date (getp row ''deadline'')) then False
      else True)"

section \<open>Dependencies and responses\<close>

record 's msg_table =
  tget :: "string \<Rightarrow> 's \<Rightarrow> unit + jobj option"
  tput :: "jobj \<Rightarrow> 's \<Rightarrow> 's"
  tsearch :: "(string \<times> js) list \<Rightarrow> 's \<Rightarrow> jobj list"

record 's relay_deps =
  messages :: "'s msg_table"
  agent_get :: "string \<Rightarrow> unit + jobj option"
  resolveOrg :: "string option"
  dateOf :: "js \<Rightarrow> jnum"
  isoOf :: "int \<Rightarrow> string"
  localeLe :: "js \<Rightarrow> js \<Rightarrow> bool"
  crypt :: crypto
  envOf :: envmap

datatype relay_result = Refused response | Answer jobj | Rows "jobj list" | Failed nat

definition json_error :: "nat \<Rightarrow> string \<Rightarrow> response" where
  "json_error st e = json_response st (Obj [(''error'', Str e)])"

definition UNAUTH :: relay_result where "UNAUTH = Refused (json_error 401 ''authentication required'')"
definition FORBIDDEN :: "string \<Rightarrow> relay_result" where "FORBIDDEN e = Refused (json_error 403 e)"
definition NOT_FOUND :: relay_result where "NOT_FOUND = Refused (json_error 404 ''not found'')"
definition BAD_REQUEST :: "string \<Rightarrow> relay_result" where "BAD_REQUEST e = Refused (json_error 400 e)"

definition CONFLICT :: "string \<Rightarrow> relay_result" where
  "CONFLICT e = Refused (json_response 409 (Obj [(''error'', Str e), (''reason'', Str ''seq_conflict'')]))"

fun scope_name :: "cap_scope \<Rightarrow> string" where
  "scope_name RecipientScope = ''recipient''" | "scope_name SenderScope = ''sender''"

definition INBOX_FULL :: "cap_scope \<Rightarrow> relay_result" where
  "INBOX_FULL sc = Refused (json_response 429 (Obj [(''error'', Str ''inbox full''),
     (''reason'', Str ''inbox_full''), (''scope'', Str (scope_name sc))]))"

definition SEND_BUSY :: relay_result where
  "SEND_BUSY = Refused (json_response 409 (Obj [(''error'', Str ''send in progress''), (''reason'', Str ''send_contended'')]))"

definition SEND_LOCK_UNAVAILABLE :: relay_result where
  "SEND_LOCK_UNAVAILABLE = Refused (json_response 503 (Obj [(''error'', Str ''send lock unavailable''),
     (''message'', Str ''the Message store has no per-key lock; the send was refused'')]))"

fun fault_text :: "signature_fault \<Rightarrow> string" where
  "fault_text MissingSignature = ''missing_signature''"
| "fault_text ContentHashMismatch = ''content_hash_mismatch''"
| "fault_text BadSignature = ''invalid_signature''"

definition SEND_LOCK_NAMESPACE :: string where "SEND_LOCK_NAMESPACE = ''flair-relay-send''"
definition SEND_LOCK_ATTEMPTS :: nat where "SEND_LOCK_ATTEMPTS = 200"

definition send_lock_keys :: "jobj \<Rightarrow> lock_key list" where
  "send_lock_keys content =
     [[SEND_LOCK_NAMESPACE, ''id'', js_String (getp content ''id'')],
      [SEND_LOCK_NAMESPACE, ''recipient'', js_String (getp content ''to'')],
      [SEND_LOCK_NAMESPACE, ''from'', js_String (getp content ''from'')]]"

definition REQUIRED_SEND_FIELDS :: "string list" where
  "REQUIRED_SEND_FIELDS = [''id'', ''from'', ''to'', ''threadId'', ''kind'', ''body'', ''createdAt'', ''signature'']"

definition acceptedView :: "jobj \<Rightarrow> jobj" where
  "acceptedView row = map (\<lambda>f. (f, getp row f))
     [''id'', ''orgScope'', ''from'', ''to'', ''threadId'', ''seq'', ''kind'', ''createdAt'', ''contentHash'',
      ''state'', ''deliveredAt'']"

section \<open>Send\<close>

definition max_seq :: "jobj \<Rightarrow> jobj list \<Rightarrow> jnum" where
  "max_seq content rows =
     fold (\<lambda>r prevMaxSeq.
        if \<not> strict_eq (getp r ''from'') (getp content ''from'') \<or>
           \<not> strict_eq (getp r ''threadId'') (getp content ''threadId'') then prevMaxSeq
        else (case getp r ''seq'' of Num n \<Rightarrow> if jlt prevMaxSeq n then n else prevMaxSeq | _ \<Rightarrow> prevMaxSeq))
       rows (jint (- 1))"

definition count_unconsumed :: "jobj \<Rightarrow> jobj list \<Rightarrow> cap_counts" where
  "count_unconsumed content rows =
     fold (\<lambda>r c.
        if \<not> strict_eq (getp r ''to'') (getp content ''to'') \<or> \<not> isUnconsumed (getp r ''state'') then c
        else c\<lparr>recipientUnconsumed := recipientUnconsumed c + 1,
               senderUnconsumed := senderUnconsumed c +
                 (if strict_eq (getp r ''from'') (getp content ''from'') then 1 else 0)\<rparr>)
       rows \<lparr>recipientUnconsumed = 0, senderUnconsumed = 0\<rparr>"

fun num_of :: "js \<Rightarrow> jnum" where
  "num_of (Num n) = n"
| "num_of _ = NaN"

definition delivered_row :: "jobj \<Rightarrow> string \<Rightarrow> jobj" where
  "delivered_row content now =
     (let clean = AList.delete ''deliveredAt'' (AList.delete ''failureReason''
                    (AList.delete ''consumedAt'' (AList.delete ''state'' content))) in
      spread clean [(''kind'', coalesce (getp content ''kind'') (Str ''message'')),
                    (''state'', Str ''delivered''), (''deliveredAt'', Str now)])"

definition storeAndDeliver :: "'s relay_deps \<Rightarrow> jobj \<Rightarrow> int \<Rightarrow> 's \<Rightarrow> relay_result \<times> 's" where
  "storeAndDeliver deps content now s =
     (case tget (messages deps) (js_String (getp content ''id'')) s of
        Inl _ \<Rightarrow> (Refused (ownerMutationRefusal ''Message''), s)
      | Inr (Some existing) \<Rightarrow>
          if isForbiddenOwnerMutation (Obj existing) ''from'' (Str (js_String (getp content ''from'')))
          then (Refused (ownerMutationRefusal ''Message''), s)
          else (Answer (acceptedView existing), s)
      | Inr None \<Rightarrow>
          let recipientRows = tsearch (messages deps) [(''to'', getp content ''to'')] s in
          case find (\<lambda>r. strict_eq (getp r ''from'') (getp content ''from'') \<and>
                      strict_eq (getp r ''to'') (getp content ''to'') \<and>
                      strict_eq (getp r ''contentHash'') (getp content ''contentHash'')) recipientRows of
            Some dup \<Rightarrow> (Answer (acceptedView dup), s)
          | None \<Rightarrow>
              let prevMaxSeq = max_seq content
                    (tsearch (messages deps) [(''threadId'', getp content ''threadId'')] s) in
              if jle (num_of (getp content ''seq'')) prevMaxSeq
              then (CONFLICT (''seq '' @ js_String (getp content ''seq'') @ '' is not ahead of the last seq ('' @
                      js_num_string prevMaxSeq @ '') for this (from, threadId)''), s)
              else (case capDecision (count_unconsumed content recipientRows)
                           \<lparr>inbox = inboxCap (envOf deps), perSender = perSenderCap (envOf deps)\<rparr> of
                  Inl sc \<Rightarrow> (INBOX_FULL sc, s)
                | Inr _ \<Rightarrow>
                    let row = delivered_row content (isoOf deps now) in
                    (Answer (acceptedView row), tput (messages deps) row s)))"

text \<open>The checks of \<open>relaySend\<close> before it takes its locks: a refusal, or the content to store.\<close>

definition relaySend_checks :: "'s relay_deps \<Rightarrow> auth_verdict \<Rightarrow> jobj \<Rightarrow> relay_result + jobj" where
  "relaySend_checks deps auth content =
     (if auth = Anonymous then Inl UNAUTH
      else case find (\<lambda>f. nullish (getp content f) \<or> getp content f = Str []) REQUIRED_SEND_FIELDS of
          Some f \<Rightarrow> Inl (BAD_REQUEST (''missing required field: '' @ f))
        | None \<Rightarrow>
            if \<not> (case getp content ''seq'' of Num n \<Rightarrow> is_integer n \<and> \<not> jlt n (Fin 0) | _ \<Rightarrow> False)
            then Inl (BAD_REQUEST ''seq must be a non-negative integer'')
            else if \<not> nullish (getp content ''deadline'') \<and>
                    \<not> (case getp content ''deadline'' of Str d \<Rightarrow> dateOf deps (Str d) \<noteq> NaN | _ \<Rightarrow> False)
            then Inl (BAD_REQUEST ''deadline must be a valid ISO-8601 timestamp'')
            else if (case auth of Agent a False \<Rightarrow> \<not> strict_eq (getp content ''from'') (Str a) | _ \<Rightarrow> False)
            then Inl (FORBIDDEN ''forbidden: `from` must match the authenticated agent'')
            else if \<not> strict_eq (getp content ''orgScope'')
                      (Str (case resolveOrg deps of None \<Rightarrow> LOCAL_ORG_SENTINEL | Some org \<Rightarrow> org))
            then Inl (FORBIDDEN ''forbidden: orgScope is server-resolved, not settable from the body'')
            else case agent_get deps (js_String (getp content ''from'')) of
                Inr (Some sender) \<Rightarrow>
                  if \<not> truthy (getp sender ''publicKey'')
                  then Inl (FORBIDDEN ''forbidden: unknown sender principal'')
                  else (case verifyMessageSignature (crypt deps) content (js_String (getp sender ''publicKey'')) of
                      Inl fault \<Rightarrow> Inl (BAD_REQUEST (''signature: '' @ fault_text fault))
                    | Inr _ \<Rightarrow> Inr (AList.update ''contentHash'' (Str (computeContentHash (crypt deps) content)) content))
              | _ \<Rightarrow> Inl (FORBIDDEN ''forbidden: unknown sender principal''))"

definition relaySend ::
    "'s relay_deps \<Rightarrow> auth_verdict \<Rightarrow> jobj \<Rightarrow> unit key_lock_outcome \<Rightarrow> int \<Rightarrow> 's \<Rightarrow> relay_result \<times> 's" where
  "relaySend deps auth content locked now s =
     (case relaySend_checks deps auth content of
        Inl r \<Rightarrow> (r, s)
      | Inr content' \<Rightarrow>
          (case locked of
             Busy \<Rightarrow> (SEND_BUSY, s)
           | Unavailable \<Rightarrow> (SEND_LOCK_UNAVAILABLE, s)
           | Done _ \<Rightarrow> storeAndDeliver deps content' now s))"

section \<open>Inbox, consume, dead letters, sweep\<close>

definition resolveSelfScope :: "auth_verdict \<Rightarrow> string option \<Rightarrow> relay_result + string" where
  "resolveSelfScope auth requested =
     (case auth of
        Agent a False \<Rightarrow>
          if requested \<noteq> None \<and> requested \<noteq> Some [] \<and> requested \<noteq> Some a
          then Inl (FORBIDDEN ''forbidden: can only act on your own messages'') else Inr a
      | _ \<Rightarrow>
          (case requested of
             None \<Rightarrow> Inl (FORBIDDEN ''forbidden: a target principal id is required'')
           | Some r \<Rightarrow> if r = [] then Inl (FORBIDDEN ''forbidden: a target principal id is required'') else Inr r))"

definition seq_le :: "jobj \<Rightarrow> jobj \<Rightarrow> bool" where
  "seq_le a b =
     (\<not> jlt (Fin 0) (jsub (num_of (coalesce (getp a ''seq'') (Num (Fin 0))))
                          (num_of (coalesce (getp b ''seq'') (Num (Fin 0))))))"

definition relayInbox :: "'s relay_deps \<Rightarrow> auth_verdict \<Rightarrow> string option \<Rightarrow> 's \<Rightarrow> relay_result" where
  "relayInbox deps auth requestedTo s =
     (if auth = Anonymous then UNAUTH
      else case resolveSelfScope auth requestedTo of
          Inl r \<Rightarrow> r
        | Inr to \<Rightarrow>
            Rows (sort_by seq_le
              (filter (\<lambda>r. getp r ''to'' = Str to \<and> isUnconsumed (getp r ''state''))
                 (tsearch (messages deps) [(''to'', Str to)] s))))"

definition relayConsume :: "'s relay_deps \<Rightarrow> auth_verdict \<Rightarrow> string \<Rightarrow> int \<Rightarrow> 's \<Rightarrow> relay_result \<times> 's" where
  "relayConsume deps auth rid now s =
     (if auth = Anonymous then (UNAUTH, s)
      else if rid = [] then (BAD_REQUEST ''missing message id'', s)
      else case tget (messages deps) rid s of
          Inr (Some row) \<Rightarrow>
            if (case auth of Agent a False \<Rightarrow> getp row ''to'' = Str a | _ \<Rightarrow> True)
            then (if getp row ''state'' = Str ''consumed'' then (Answer row, s)
                  else let updated = spread row
                             [(''state'', reconcileState (getp row ''state'') (Str ''consumed'')),
                              (''consumedAt'', Str (isoOf deps now))] in
                       (Answer updated, tput (messages deps) updated s))
            else (NOT_FOUND, s)
        | _ \<Rightarrow> (NOT_FOUND, s))"

definition relayDeadLetters :: "'s relay_deps \<Rightarrow> auth_verdict \<Rightarrow> string option \<Rightarrow> 's \<Rightarrow> relay_result" where
  "relayDeadLetters deps auth requestedFrom s =
     (if auth = Anonymous then UNAUTH
      else case resolveSelfScope auth requestedFrom of
          Inl r \<Rightarrow> r
        | Inr from \<Rightarrow>
            Rows (sort_by (\<lambda>a b. localeLe deps (coalesce (getp a ''createdAt'') (Str []))
                                               (coalesce (getp b ''createdAt'') (Str [])))
              (filter (\<lambda>r. getp r ''from'' = Str from \<and> getp r ''state'' = Str ''failed'')
                 (tsearch (messages deps) [(''from'', Str from), (''state'', Str ''failed'')] s))))"

text \<open>The two reads of the sweep, merged by id, and the writes that follow them.\<close>

definition sweep_candidates :: "'s relay_deps \<Rightarrow> 's \<Rightarrow> jobj list" where
  "sweep_candidates deps s =
     map snd (fold (\<lambda>r byId. if nullish (getp r ''id'') then byId
                             else AList.update (js_String (getp r ''id'')) r byId)
       (tsearch (messages deps) [(''state'', Str ''submitted'')] s @
        tsearch (messages deps) [(''state'', Str ''delivered'')] s) [])"

fun sweep_write :: "'s relay_deps \<Rightarrow> int \<Rightarrow> jobj list \<Rightarrow> nat \<times> 's \<Rightarrow> nat \<times> 's" where
  "sweep_write deps now [] (failed, s) = (failed, s)"
| "sweep_write deps now (row # rows) (failed, s) =
     (if \<not> sweepDecision (dateOf deps) row now then sweep_write deps now rows (failed, s)
      else if reconcileState (getp row ''state'') (Str ''failed'') \<noteq> Str ''failed''
      then sweep_write deps now rows (failed, s)
      else sweep_write deps now rows
             (failed + 1,
              tput (messages deps)
                (spread row [(''state'', Str ''failed''), (''failureReason'', Str ''deadline'')]) s))"

definition relaySweepDeadlines :: "'s relay_deps \<Rightarrow> auth_verdict \<Rightarrow> int \<Rightarrow> 's \<Rightarrow> relay_result \<times> 's" where
  "relaySweepDeadlines deps auth now s =
     (if auth = Anonymous then (UNAUTH, s)
      else if (case auth of Agent a False \<Rightarrow> True | _ \<Rightarrow> False)
      then (FORBIDDEN ''forbidden: deadline sweep is an administrative operation'', s)
      else (let (failed, s') = sweep_write deps now (sweep_candidates deps s) (0, s) in (Failed failed, s')))"

section \<open>The message table\<close>

locale message_table =
  fixes T :: "'s msg_table" and contents :: "'s \<Rightarrow> string \<Rightarrow> jobj option"
  assumes tget_result: "tget T i s = Inl () \<or> tget T i s = Inr (contents s i)"
    and tput_contents: "\<not> nullish (getp r ''id'') \<Longrightarrow>
          contents (tput T r s) = (contents s)(js_String (getp r ''id'') \<mapsto> r)"
    and row_key: "contents s i = Some r \<Longrightarrow> \<not> nullish (getp r ''id'') \<and> js_String (getp r ''id'') = i"
    and tsearch_sound: "r \<in> set (tsearch T cs s) \<Longrightarrow> \<exists>i. contents s i = Some r"
    and tsearch_complete: "contents s i = Some r \<Longrightarrow> \<forall>(k, v) \<in> set cs. strict_eq (getp r k) v \<Longrightarrow>
          r \<in> set (tsearch T cs s)"
    and tsearch_distinct: "distinct (tsearch T cs s)"
    and finite_contents: "finite (dom (contents s))"

text \<open>
  The in-memory table of the relay's unit tests: rows by id, and a search that returns every row.
\<close>

definition row_id :: "jobj \<Rightarrow> string" where
  "row_id r = js_String (getp r ''id'')"

fun visible :: "jobj list \<Rightarrow> jobj list" where
  "visible [] = []"
| "visible (r # rs) =
     (if nullish (getp r ''id'') then visible rs
      else r # filter (\<lambda>x. row_id x \<noteq> row_id r) (visible rs))"

definition memory_table :: "jobj list msg_table" where
  "memory_table =
     \<lparr>tget = (\<lambda>i s. Inr (find (\<lambda>r. row_id r = i) (visible s))),
      tput = (\<lambda>r s. r # s),
      tsearch = (\<lambda>cs s. visible s)\<rparr>"

definition memory_contents :: "jobj list \<Rightarrow> string \<Rightarrow> jobj option" where
  "memory_contents s i = find (\<lambda>r. row_id r = i) (visible s)"

lemma visible_props: "r \<in> set (visible s) \<Longrightarrow> \<not> nullish (getp r ''id'')"
  "distinct (map row_id (visible s))"
proof -
  show "r \<in> set (visible s) \<Longrightarrow> \<not> nullish (getp r ''id'')"
    by (induction s) (auto split: if_splits)
  show "distinct (map row_id (visible s))"
    by (induction s) (auto simp: distinct_map_filter)
qed

lemma find_unique:
  "distinct (map f xs) \<Longrightarrow> find (\<lambda>r. f r = i) xs = Some x \<longleftrightarrow> x \<in> set xs \<and> f x = i"
  by (induction xs) auto

lemma memory_contents_iff: "memory_contents s i = Some r \<longleftrightarrow> r \<in> set (visible s) \<and> row_id r = i"
  unfolding memory_contents_def by (rule find_unique [OF visible_props(2)])

interpretation memory: message_table memory_table memory_contents
proof unfold_locales
  fix i s r cs
  show "tget memory_table i s = Inl () \<or> tget memory_table i s = Inr (memory_contents s i)"
    by (simp add: memory_table_def memory_contents_def)
  show "memory_contents (tput memory_table r s) = (memory_contents s)(js_String (getp r ''id'') \<mapsto> r)"
    if "\<not> nullish (getp r ''id'')"
  proof
    fix j
    have "find (\<lambda>x. row_id x = j) (filter (\<lambda>x. row_id x \<noteq> row_id r) xs) = find (\<lambda>x. row_id x = j) xs"
      if "j \<noteq> row_id r" for xs :: "jobj list"
      using that by (induction xs) auto
    then show "memory_contents (tput memory_table r s) j
        = ((memory_contents s)(js_String (getp r ''id'') \<mapsto> r)) j"
      using that by (auto simp: memory_table_def memory_contents_def row_id_def)
  qed
  show "\<not> nullish (getp r ''id'') \<and> js_String (getp r ''id'') = i" if "memory_contents s i = Some r"
    using that visible_props(1) by (auto simp: memory_contents_iff row_id_def)
  show "\<exists>i. memory_contents s i = Some r" if "r \<in> set (tsearch memory_table cs s)"
    using that by (auto simp: memory_contents_iff memory_table_def)
  show "r \<in> set (tsearch memory_table cs s)" if "memory_contents s i = Some r"
    using that by (auto simp: memory_contents_iff memory_table_def)
  show "distinct (tsearch memory_table cs s)"
    using visible_props(2) [of s] by (simp add: memory_table_def distinct_map)
  have "dom (memory_contents s) \<subseteq> row_id ` set (visible s)"
    by (auto simp: memory_contents_iff)
  then show "finite (dom (memory_contents s))" by (rule finite_subset) simp
qed

section \<open>What one operation does to the table\<close>

lemma getp_spread_single [simp]: "getp (spread ob [(k, v)]) f = (if f = k then v else getp ob f)"
  by (simp add: spread_def)

lemma getp_spread_pair [simp]:
  "getp (spread ob [(k, v), (l, u)]) f = (if f = l then u else if f = k then v else getp ob f)"
  by (simp add: spread_def)

lemma getp_delivered:
  "getp (delivered_row c n) f =
     (if f = ''deliveredAt'' then Str n else if f = ''state'' then Str ''delivered''
      else if f = ''kind'' then coalesce (getp c ''kind'') (Str ''message'')
      else if f = ''consumedAt'' \<or> f = ''failureReason'' then Undef else getp c f)"
  by (simp add: delivered_row_def spread_def)

text \<open>The fields no later operation touches.\<close>

definition same_message :: "jobj \<Rightarrow> jobj \<Rightarrow> bool" where
  "same_message r r' \<longleftrightarrow>
     (\<forall>f. f \<notin> {''state'', ''consumedAt'', ''failureReason''} \<longrightarrow> getp r' f = getp r f)"

lemma same_message_refl [simp]: "same_message r r"
  by (simp add: same_message_def)

lemma same_messageD:
  assumes "same_message r r'"
  shows "getp r' ''to'' = getp r ''to''" "getp r' ''from'' = getp r ''from''"
    "getp r' ''threadId'' = getp r ''threadId''" "getp r' ''seq'' = getp r ''seq''"
    "getp r' ''id'' = getp r ''id''"
  using assms by (auto simp: same_message_def)

text \<open>
  Rows change only into consumed or failed ones, and a consumed row not at all.
\<close>

definition row_evolves :: "jobj \<Rightarrow> jobj \<Rightarrow> bool" where
  "row_evolves r r' \<longleftrightarrow> same_message r r' \<and>
     (r' = r \<or> (\<not> isUnconsumed (getp r' ''state'') \<and> getp r ''state'' \<noteq> Str ''consumed''))"

definition evolves :: "(string \<Rightarrow> jobj option) \<Rightarrow> (string \<Rightarrow> jobj option) \<Rightarrow> bool" where
  "evolves C C' \<longleftrightarrow> (\<forall>i. rel_option row_evolves (C i) (C' i))"

lemma row_evolves_refl [simp]: "row_evolves r r"
  by (simp add: row_evolves_def)

lemma evolves_refl [simp]: "evolves C C"
  by (simp add: evolves_def option.rel_refl)

lemma evolves_fwd: "evolves C C' \<Longrightarrow> C i = Some r \<Longrightarrow> \<exists>r'. C' i = Some r' \<and> row_evolves r r'"
  unfolding evolves_def by (metis option.rel_cases option.inject option.distinct(1))

lemma evolves_back: "evolves C C' \<Longrightarrow> C' i = Some r' \<Longrightarrow> \<exists>r. C i = Some r \<and> row_evolves r r'"
  unfolding evolves_def by (metis option.rel_cases option.inject option.distinct(1))

lemma evolves_None: "evolves C C' \<Longrightarrow> C' i = None \<longleftrightarrow> C i = None"
  using evolves_fwd [of C C' i] evolves_back [of C C' i] by (cases "C i"; cases "C' i") auto

lemma update_same: "map_of m k = Some v \<Longrightarrow> AList.update k v m = m"
  by (induction m) auto

context message_table
begin

lemma contents_inj: "contents s i = Some r \<Longrightarrow> contents s j = Some r \<Longrightarrow> i = j"
  using row_key by blast

definition accepts :: "'s relay_deps \<Rightarrow> jobj \<Rightarrow> 's \<Rightarrow> bool" where
  "accepts deps c s \<longleftrightarrow>
     contents s (js_String (getp c ''id'')) = None \<and>
     \<not> jle (num_of (getp c ''seq'')) (max_seq c (tsearch T [(''threadId'', getp c ''threadId'')] s)) \<and>
     capDecision (count_unconsumed c (tsearch T [(''to'', getp c ''to'')] s))
       \<lparr>inbox = inboxCap (envOf deps), perSender = perSenderCap (envOf deps)\<rparr> = Inr ()"

lemma storeAndDeliver_effect:
  assumes "messages deps = T"
  shows "snd (storeAndDeliver deps c now s) = s \<or>
     (accepts deps c s \<and> snd (storeAndDeliver deps c now s) = tput T (delivered_row c (isoOf deps now)) s)"
proof (cases "tget T (js_String (getp c ''id'')) s")
  case (Inr o1)
  then have o1: "o1 = contents s (js_String (getp c ''id''))" using tget_result by (metis Inl_Inr_False Inr_inject)
  show ?thesis
  proof (cases o1)
    case None
    then show ?thesis using Inr o1 assms
      by (simp add: storeAndDeliver_def accepts_def Let_def split: option.splits sum.splits if_splits)
  qed (use Inr assms in \<open>simp add: storeAndDeliver_def\<close>)
qed (use assms in \<open>simp add: storeAndDeliver_def\<close>)

lemma checks_content:
  assumes "relaySend_checks deps auth c = Inr c'"
  shows "c' = AList.update ''contentHash'' (Str (computeContentHash (crypt deps) c)) c \<and>
    (\<forall>f \<in> set REQUIRED_SEND_FIELDS. \<not> nullish (getp c f) \<and> getp c f \<noteq> Str [])"
  using assms
  by (auto simp: relaySend_checks_def find_None_iff split: if_splits option.splits sum.splits auth_verdict.splits)

lemma relaySend_effect:
  assumes "messages deps = T"
  shows "snd (relaySend deps auth c lk now s) = s \<or>
     (\<exists>c'. relaySend_checks deps auth c = Inr c' \<and> accepts deps c' s \<and> \<not> nullish (getp c' ''id'') \<and>
        lk = Done () \<and>
        snd (relaySend deps auth c lk now s) = tput T (delivered_row c' (isoOf deps now)) s)"
proof (cases "relaySend_checks deps auth c")
  case (Inr c')
  have "\<not> nullish (getp c ''id'')" using checks_content [OF Inr] by (simp add: REQUIRED_SEND_FIELDS_def)
  then have "\<not> nullish (getp c' ''id'')" using checks_content [OF Inr] by simp
  then show ?thesis using Inr storeAndDeliver_effect [OF assms, of c' now s]
    by (cases lk) (auto simp: relaySend_def)
qed (simp add: relaySend_def)

text \<open>Consume.\<close>

lemma relayConsume_effect:
  assumes "messages deps = T"
  shows "snd (relayConsume deps auth i now s) = s \<or>
     (\<exists>r r'. contents s i = Some r \<and> getp r ''state'' \<noteq> Str ''consumed'' \<and>
        (case auth of Anonymous \<Rightarrow> False | Agent a False \<Rightarrow> getp r ''to'' = Str a | _ \<Rightarrow> True) \<and>
        r' = spread r [(''state'', Str ''consumed''), (''consumedAt'', Str (isoOf deps now))] \<and>
        contents (snd (relayConsume deps auth i now s)) = (contents s)(i \<mapsto> r'))"
proof (cases "tget T i s")
  case (Inr o1)
  then have o1: "o1 = contents s i" using tget_result by (metis Inl_Inr_False Inr_inject)
  show ?thesis
  proof (cases o1)
    case (Some r)
    then have r: "contents s i = Some r" using o1 by simp
    note k = row_key [OF r]
    then have "contents (tput T (spread r [(''state'', Str ''consumed''), (''consumedAt'', Str (isoOf deps now))]) s)
        = (contents s)(i \<mapsto> spread r [(''state'', Str ''consumed''), (''consumedAt'', Str (isoOf deps now))])"
      by (subst tput_contents) simp_all
    then show ?thesis using r Some Inr assms
      by (auto simp: relayConsume_def reconcileState_def Let_def split: auth_verdict.splits bool.splits)
  qed (use Inr assms in \<open>simp add: relayConsume_def\<close>)
qed (use assms in \<open>simp add: relayConsume_def\<close>)

lemma relayConsume_evolves:
  assumes "messages deps = T"
  shows "evolves (contents s) (contents (snd (relayConsume deps auth i now s)))"
proof -
  consider "snd (relayConsume deps auth i now s) = s"
    | r where "contents s i = Some r" "getp r ''state'' \<noteq> Str ''consumed''"
      "contents (snd (relayConsume deps auth i now s)) =
         (contents s)(i \<mapsto> spread r [(''state'', Str ''consumed''), (''consumedAt'', Str (isoOf deps now))])"
    using relayConsume_effect [OF assms, of auth i now s] by blast
  then show ?thesis
  proof cases
    case 2
    have "row_evolves r (spread r [(''state'', Str ''consumed''), (''consumedAt'', Str (isoOf deps now))])"
      using 2(2) by (simp add: row_evolves_def same_message_def isUnconsumed_def)
    then show ?thesis using 2(1) by (auto simp: 2(3) evolves_def option.rel_refl)
  qed simp
qed

text \<open>The sweep.\<close>

definition failed_row :: "jobj \<Rightarrow> jobj" where
  "failed_row r = spread r [(''state'', Str ''failed''), (''failureReason'', Str ''deadline'')]"

lemma sweep_write_contents:
  assumes "messages deps = T" "\<forall>r \<in> set rows. R (js_String (getp r ''id'')) = Some r \<and> \<not> nullish (getp r ''id'')"
  shows "contents (snd (sweep_write deps now rows (n, s))) i =
     (case R i of
        Some r \<Rightarrow> if r \<in> set rows \<and> js_String (getp r ''id'') = i \<and> sweepDecision (dateOf deps) r now
                  then Some (failed_row r) else contents s i
      | None \<Rightarrow> contents s i)"
  using assms(2)
proof (induction rows arbitrary: n s)
  case Nil
  show ?case by (simp split: option.split)
next
  case (Cons r rows)
  have rec: "reconcileState (getp r ''state'') (Str ''failed'') = Str ''failed''"
    if "sweepDecision (dateOf deps) r now"
    using that by (auto simp: sweepDecision_def isUnconsumed_def reconcileState_def split: if_splits)
  have key: "R (js_String (getp r ''id'')) = Some r" "\<not> nullish (getp r ''id'')" using Cons.prems by auto
  have put: "contents (tput T (failed_row r) s) = (contents s)(js_String (getp r ''id'') \<mapsto> failed_row r)"
    using tput_contents [of "failed_row r" s] key(2) by (simp add: failed_row_def)
  show ?case
  proof (cases "sweepDecision (dateOf deps) r now")
    case False
    have "contents (snd (sweep_write deps now (r # rows) (n, s))) i = contents (snd (sweep_write deps now rows (n, s))) i"
      using False by simp
    then show ?thesis using Cons False by (auto split: option.splits)
  next
    case True
    have "contents (snd (sweep_write deps now (r # rows) (n, s))) i =
        contents (snd (sweep_write deps now rows (n + 1, tput T (failed_row r) s))) i"
      using True rec assms(1) by (simp add: failed_row_def)
    moreover have "contents (snd (sweep_write deps now rows (n + 1, tput T (failed_row r) s))) i =
      (case R i of
        Some r' \<Rightarrow> if r' \<in> set rows \<and> js_String (getp r' ''id'') = i \<and> sweepDecision (dateOf deps) r' now
                  then Some (failed_row r') else contents (tput T (failed_row r) s) i
      | None \<Rightarrow> contents (tput T (failed_row r) s) i)"
      by (rule Cons.IH) (use Cons.prems in auto)
    ultimately show ?thesis using key(1) True by (auto simp: put split: option.splits)
  qed
qed

lemma fold_by_id:
  assumes "\<forall>r \<in> set rows. R (js_String (getp r ''id'')) = Some r"
    "\<forall>(k, v) \<in> set m. R k = Some v" "distinct (map fst m)"
  shows "(let m' = fold (\<lambda>r byId. if nullish (getp r ''id'') then byId
                             else AList.update (js_String (getp r ''id'')) r byId) rows m in
     distinct (map fst m') \<and> snd ` set m' = snd ` set m \<union> {r \<in> set rows. \<not> nullish (getp r ''id'')})"
  using assms
proof (induction rows arbitrary: m)
  case (Cons r rows)
  let ?k = "js_String (getp r ''id'')"
  show ?case
  proof (cases "nullish (getp r ''id'')")
    case True
    then show ?thesis using Cons by (auto simp: Let_def)
  next
    case False
    let ?m = "AList.update ?k r m"
    have s: "set ?m = insert (?k, r) (set m)"
    proof (cases "?k \<in> fst ` set m")
      case True
      then obtain v where "(?k, v) \<in> set m" by auto
      with Cons.prems(1,2) have in_m: "(?k, r) \<in> set m" by fastforce
      then have "map_of m ?k = Some r" using Cons.prems(3) by simp
      then have "AList.update ?k r m = m" by (rule update_same)
      then show ?thesis using in_m by auto
    next
      case False
      then show ?thesis by (simp add: update_absent)
    qed
    have "\<forall>(k, v) \<in> set ?m. R k = Some v" using Cons.prems(1,2) by (auto simp: s)
    moreover have "distinct (map fst ?m)" using Cons.prems(3) by simp
    ultimately show ?thesis using Cons.IH [of ?m] Cons.prems(1) False by (auto simp: Let_def s)
  qed
qed simp

lemma sweep_candidates_set:
  assumes "messages deps = T"
  shows "set (sweep_candidates deps s) =
    set (tsearch T [(''state'', Str ''submitted'')] s) \<union> set (tsearch T [(''state'', Str ''delivered'')] s)"
proof -
  let ?rows = "tsearch T [(''state'', Str ''submitted'')] s @ tsearch T [(''state'', Str ''delivered'')] s"
  have k: "contents s (js_String (getp r ''id'')) = Some r \<and> \<not> nullish (getp r ''id'')" if A: "r \<in> set ?rows" for r
  proof -
    have "\<exists>i. contents s i = Some r" using A by (auto dest: tsearch_sound)
    then obtain i where "contents s i = Some r" ..
    then show ?thesis using row_key by metis
  qed
  have "snd ` set (fold (\<lambda>r byId. if nullish (getp r ''id'') then byId
                             else AList.update (js_String (getp r ''id'')) r byId) ?rows [])
     = {r \<in> set ?rows. \<not> nullish (getp r ''id'')}"
    using fold_by_id [of ?rows "contents s" "[]"] k unfolding Let_def by auto
  then show ?thesis using assms k by (auto simp: sweep_candidates_def)
qed

lemma candidates_stored:
  assumes "messages deps = T"
  shows "\<forall>r \<in> set (sweep_candidates deps s).
    contents s (js_String (getp r ''id'')) = Some r \<and> \<not> nullish (getp r ''id'')"
proof -
  have "\<exists>i. contents s i = Some r" if "r \<in> set (sweep_candidates deps s)" for r
    using that tsearch_sound by (auto simp: sweep_candidates_set [OF assms])
  then show ?thesis using row_key by metis
qed

lemma overdue_is_candidate:
  assumes "messages deps = T" "contents s j = Some r" "sweepDecision (dateOf deps) r now"
  shows "r \<in> set (sweep_candidates deps s)"
proof -
  have "getp r ''state'' = Str ''submitted'' \<or> getp r ''state'' = Str ''delivered''"
    using assms(3) by (auto simp: sweepDecision_def isUnconsumed_def split: if_splits)
  then show ?thesis
    using tsearch_complete [OF assms(2), of "[(''state'', Str ''submitted'')]"]
      tsearch_complete [OF assms(2), of "[(''state'', Str ''delivered'')]"]
    by (auto simp: sweep_candidates_set [OF assms(1)])
qed

lemma sweep_contents:
  assumes "messages deps = T" "case auth of Agent a False \<Rightarrow> False | Anonymous \<Rightarrow> False | _ \<Rightarrow> True"
  shows "contents (snd (relaySweepDeadlines deps auth now s)) i =
    map_option (\<lambda>r. if sweepDecision (dateOf deps) r now then failed_row r else r) (contents s i)"
proof -
  let ?c = "sweep_candidates deps s"
  note R = candidates_stored [OF assms(1), of s]
  have "contents (snd (relaySweepDeadlines deps auth now s)) i =
      contents (snd (sweep_write deps now ?c (0, s))) i"
    using assms(2) by (auto simp: relaySweepDeadlines_def split: prod.splits auth_verdict.splits bool.splits)
  also have "\<dots> = map_option (\<lambda>r. if sweepDecision (dateOf deps) r now then failed_row r else r) (contents s i)"
    using sweep_write_contents [OF assms(1) R, of now 0 s i] overdue_is_candidate [OF assms(1), of s i]
      row_key [of s i]
    by (auto split: option.splits)
  finally show ?thesis .
qed

lemma sweep_evolves:
  assumes "messages deps = T"
  shows "evolves (contents s) (contents (snd (relaySweepDeadlines deps auth now s)))"
proof (cases "case auth of Agent a False \<Rightarrow> False | Anonymous \<Rightarrow> False | _ \<Rightarrow> True")
  case True
  have "row_evolves r (failed_row r)" if "sweepDecision (dateOf deps) r now" for r
    using that by (auto simp: row_evolves_def same_message_def failed_row_def sweepDecision_def isUnconsumed_def split: if_splits)
  then show ?thesis
    unfolding evolves_def sweep_contents [OF assms True] by (auto simp: option.rel_map intro!: option.rel_refl_strong)
next
  case False
  then have "snd (relaySweepDeadlines deps auth now s) = s"
    by (auto simp: relaySweepDeadlines_def split: auth_verdict.splits bool.splits)
  then show ?thesis by simp
qed

end

section \<open>Runs of operations\<close>

datatype relay_op =
    Send auth_verdict jobj "unit key_lock_outcome" int
  | Consume auth_verdict string int
  | Sweep auth_verdict int

fun run_op :: "'s relay_deps \<Rightarrow> relay_op \<Rightarrow> 's \<Rightarrow> 's" where
  "run_op deps (Send auth c lk now) s = snd (relaySend deps auth c lk now s)"
| "run_op deps (Consume auth i now) s = snd (relayConsume deps auth i now s)"
| "run_op deps (Sweep auth now) s = snd (relaySweepDeadlines deps auth now s)"

definition run_ops :: "'s relay_deps \<Rightarrow> relay_op list \<Rightarrow> 's \<Rightarrow> 's" where
  "run_ops deps ops s = fold (run_op deps) ops s"

definition unconsumed_for :: "(string \<Rightarrow> jobj option) \<Rightarrow> string \<Rightarrow> string set" where
  "unconsumed_for C to = {i. \<exists>r. C i = Some r \<and> getp r ''to'' = Str to \<and> isUnconsumed (getp r ''state'')}"

definition unconsumed_from :: "(string \<Rightarrow> jobj option) \<Rightarrow> string \<Rightarrow> string \<Rightarrow> string set" where
  "unconsumed_from C to f =
     {i. \<exists>r. C i = Some r \<and> getp r ''to'' = Str to \<and> getp r ''from'' = Str f \<and> isUnconsumed (getp r ''state'')}"

definition caps_hold :: "envmap \<Rightarrow> (string \<Rightarrow> jobj option) \<Rightarrow> bool" where
  "caps_hold env C \<longleftrightarrow>
     (\<forall>to. int (card (unconsumed_for C to)) \<le> inboxCap env) \<and>
     (\<forall>to f. int (card (unconsumed_from C to f)) \<le> perSenderCap env)"

definition seqs_differ :: "(string \<Rightarrow> jobj option) \<Rightarrow> bool" where
  "seqs_differ C \<longleftrightarrow>
     (\<forall>i j r r' f t. C i = Some r \<and> C j = Some r' \<and> i \<noteq> j \<and>
        getp r ''from'' = Str f \<and> getp r' ''from'' = Str f \<and>
        getp r ''threadId'' = Str t \<and> getp r' ''threadId'' = Str t \<longrightarrow>
        getp r ''seq'' \<noteq> getp r' ''seq'')"

lemma count_unconsumed_fold:
  "fold (\<lambda>r c. if \<not> P r then c
       else c\<lparr>recipientUnconsumed := recipientUnconsumed c + 1,
              senderUnconsumed := senderUnconsumed c + (if Q r then 1 else 0)\<rparr>) rows k =
   \<lparr>recipientUnconsumed = recipientUnconsumed k + int (length (filter P rows)),
    senderUnconsumed = senderUnconsumed k + int (length (filter (\<lambda>r. P r \<and> Q r) rows))\<rparr>"
  by (induction rows arbitrary: k) auto

lemma count_unconsumed_eq:
  assumes "getp c ''to'' = Str t"
  shows "count_unconsumed c rows =
    \<lparr>recipientUnconsumed = int (length (filter (\<lambda>r. getp r ''to'' = Str t \<and> isUnconsumed (getp r ''state'')) rows)),
     senderUnconsumed = int (length (filter (\<lambda>r. (getp r ''to'' = Str t \<and> isUnconsumed (getp r ''state'')) \<and>
        strict_eq (getp r ''from'') (getp c ''from'')) rows))\<rparr>"
  using count_unconsumed_fold [of "\<lambda>r. getp r ''to'' = Str t \<and> isUnconsumed (getp r ''state'')"
      "\<lambda>r. strict_eq (getp r ''from'') (getp c ''from'')" rows "\<lparr>recipientUnconsumed = 0, senderUnconsumed = 0\<rparr>"]
  unfolding count_unconsumed_def assms by (simp add: de_Morgan_conj)

definition seq_step :: "jobj \<Rightarrow> jobj \<Rightarrow> jnum \<Rightarrow> jnum" where
  "seq_step c r p =
     (if \<not> strict_eq (getp r ''from'') (getp c ''from'') \<or>
         \<not> strict_eq (getp r ''threadId'') (getp c ''threadId'') then p
      else (case getp r ''seq'' of Num n \<Rightarrow> if jlt p n then n else p | _ \<Rightarrow> p))"

lemma max_seq_step: "max_seq c rows = fold (seq_step c) rows (jint (- 1))"
  by (simp add: max_seq_def seq_step_def [abs_def])

lemma jlt_jle_trans: "jle a p \<Longrightarrow> jlt p n \<Longrightarrow> jle a n"
  by (cases a; cases p; cases n) auto

lemma seq_step_mono: "jle a p \<Longrightarrow> jle a (seq_step c r p)"
  by (auto simp: seq_step_def dest: jlt_jle_trans split: js.splits)

lemma fold_seq_mono: "jle a p \<Longrightarrow> jle a (fold (seq_step c) rs p)"
  by (induction rs arbitrary: p) (auto intro: seq_step_mono)

lemma seq_step_number: "p \<noteq> NaN \<Longrightarrow> seq_step c r p \<noteq> NaN"
  by (auto simp: seq_step_def split: js.splits)

lemma max_seq_bound:
  assumes "r \<in> set rows" "strict_eq (getp r ''from'') (getp c ''from'')"
    "strict_eq (getp r ''threadId'') (getp c ''threadId'')" "getp r ''seq'' = Num (Fin q)"
  shows "jle (Fin q) (max_seq c rows)"
proof -
  have "jle (Fin q) (fold (seq_step c) rs p)" if "r \<in> set rs" "p \<noteq> NaN" for rs p
    using that
  proof (induction rs arbitrary: p)
    case (Cons x rs)
    show ?case
    proof (cases "x = r")
      case True
      have "jle (Fin q) (seq_step c r p)"
        using assms Cons.prems(2) by (cases p) (auto simp: seq_step_def)
      then show ?thesis using True fold_seq_mono by simp
    next
      case False
      then show ?thesis using Cons seq_step_number [OF Cons.prems(2)] by simp
    qed
  qed simp
  then show ?thesis using assms(1) by (simp add: max_seq_step)
qed

lemma card_le_Suc: "B \<subseteq> insert k A \<Longrightarrow> finite A \<Longrightarrow> card B \<le> Suc (card A)"
  by (metis card_insert_le_m1 card_mono finite_insert card_insert_if le_SucI order_trans order_refl)

context message_table
begin

lemma card_rows:
  assumes "\<And>r. P r \<Longrightarrow> \<forall>(k, v) \<in> set cs. strict_eq (getp r k) v"
  shows "card {i. \<exists>r. contents s i = Some r \<and> P r} = length (filter P (tsearch T cs s))"
proof -
  let ?I = "{i. \<exists>r. contents s i = Some r \<and> P r}"
  let ?L = "filter P (tsearch T cs s)"
  have inj: "inj_on (\<lambda>i. the (contents s i)) ?I"
    using contents_inj by (auto simp: inj_on_def)
  have img: "(\<lambda>i. the (contents s i)) ` ?I = set ?L"
  proof
    show "(\<lambda>i. the (contents s i)) ` ?I \<subseteq> set ?L"
    proof
      fix x assume "x \<in> (\<lambda>i. the (contents s i)) ` ?I"
      then obtain i where i: "contents s i = Some x" "P x" by auto
      then show "x \<in> set ?L" using tsearch_complete [OF i(1) assms [OF i(2)]] by simp
    qed
    show "set ?L \<subseteq> (\<lambda>i. the (contents s i)) ` ?I"
    proof
      fix r assume "r \<in> set ?L"
      then have "\<exists>i. contents s i = Some r" "P r" by (auto dest: tsearch_sound)
      then obtain i where "contents s i = Some r" "P r" by blast
      then show "r \<in> (\<lambda>i. the (contents s i)) ` ?I" by force
    qed
  qed
  have "card ?I = card (set ?L)" using card_image [OF inj] by (simp only: img)
  also have "\<dots> = length ?L" by (rule distinct_card) (simp add: tsearch_distinct)
  finally show ?thesis .
qed

lemma accepts_caps:
  assumes "accepts deps c s" "getp c ''to'' = Str t"
  shows "int (card (unconsumed_for (contents s) t)) < inboxCap (envOf deps)"
    and "getp c ''from'' = Str f \<Longrightarrow> int (card (unconsumed_from (contents s) t f)) < perSenderCap (envOf deps)"
proof -
  let ?rows = "tsearch T [(''to'', getp c ''to'')] s"
  have a: "card (unconsumed_for (contents s) t) =
      length (filter (\<lambda>r. getp r ''to'' = Str t \<and> isUnconsumed (getp r ''state'')) ?rows)"
    unfolding unconsumed_for_def by (rule card_rows) (use assms(2) in auto)
  show "int (card (unconsumed_for (contents s) t)) < inboxCap (envOf deps)"
    using assms(1) unfolding accepts_def count_unconsumed_eq [OF assms(2)] a
    by (simp add: capDecision_def split: if_splits)
  assume f: "getp c ''from'' = Str f"
  have b: "card (unconsumed_from (contents s) t f) =
      length (filter (\<lambda>r. (getp r ''to'' = Str t \<and> isUnconsumed (getp r ''state'')) \<and>
        strict_eq (getp r ''from'') (getp c ''from'')) ?rows)"
    unfolding unconsumed_from_def
    by (subst card_rows [of _ "[(''to'', getp c ''to'')]", symmetric])
       (use assms(2) f in \<open>auto intro!: arg_cong [where f = card]\<close>)
  show "int (card (unconsumed_from (contents s) t f)) < perSenderCap (envOf deps)"
    using assms(1) unfolding accepts_def count_unconsumed_eq [OF assms(2)] b
    by (simp add: capDecision_def split: if_splits)
qed

lemma accepts_ahead:
  assumes "accepts deps c s" "contents s i = Some r" "strict_eq (getp r ''from'') (getp c ''from'')"
    "strict_eq (getp r ''threadId'') (getp c ''threadId'')" "getp r ''seq'' = Num (Fin q)"
    "getp c ''seq'' = Num (Fin p)"
  shows "q < p"
proof -
  have "r \<in> set (tsearch T [(''threadId'', getp c ''threadId'')] s)"
    by (rule tsearch_complete [OF assms(2)]) (use assms(4) in auto)
  then have b: "jle (Fin q) (max_seq c (tsearch T [(''threadId'', getp c ''threadId'')] s))"
    by (rule max_seq_bound [OF _ assms(3-5)])
  have "\<not> jle (Fin p) (max_seq c (tsearch T [(''threadId'', getp c ''threadId'')] s))"
    using assms(1,6) by (simp add: accepts_def)
  with b show ?thesis by (cases "max_seq c (tsearch T [(''threadId'', getp c ''threadId'')] s)") auto
qed

text \<open>Every operation lets the rows evolve or stores one accepted message under a free id.\<close>

lemma run_op_cases:
  assumes "messages deps = T"
  obtains (evolve) "evolves (contents s) (contents (run_op deps op s))"
  | (store) c n p where "accepts deps c s" "getp c ''seq'' = Num (Fin p)" "contents s (js_String (getp c ''id'')) = None"
      "contents (run_op deps op s) = (contents s)(js_String (getp c ''id'') \<mapsto> delivered_row c n)"
proof (cases op)
  case (Send auth c lk now)
  from relaySend_effect [OF assms, of auth c lk now s] show ?thesis
  proof (elim disjE exE conjE)
    assume "snd (relaySend deps auth c lk now s) = s"
    then show ?thesis using evolve Send by simp
  next
    fix c'
    assume c': "relaySend_checks deps auth c = Inr c'" "accepts deps c' s" "\<not> nullish (getp c' ''id'')"
      "snd (relaySend deps auth c lk now s) = tput T (delivered_row c' (isoOf deps now)) s"
    have "\<exists>q. getp c ''seq'' = Num (Fin q)"
      using c'(1) by (auto simp: relaySend_checks_def split: if_splits option.splits js.splits elim!: is_integerE)
    then obtain q where "getp c' ''seq'' = Num (Fin q)" using checks_content [OF c'(1)] by auto
    moreover have "contents (tput T (delivered_row c' (isoOf deps now)) s) =
        (contents s)(js_String (getp c' ''id'') \<mapsto> delivered_row c' (isoOf deps now))"
      using tput_contents [of "delivered_row c' (isoOf deps now)" s] c'(3) by (simp add: getp_delivered)
    ultimately show ?thesis using store [OF c'(2)] c'(2,4) Send by (simp add: accepts_def)
  qed
next
  case (Consume auth i now)
  then show ?thesis using evolve relayConsume_evolves [OF assms] by simp
next
  case (Sweep auth now)
  then show ?thesis using evolve sweep_evolves [OF assms] by simp
qed

lemma finite_unconsumed: "finite (unconsumed_for (contents s) t)" "finite (unconsumed_from (contents s) t f)"
  by (rule finite_subset [OF _ finite_contents [of s]]; auto simp: unconsumed_for_def unconsumed_from_def)+

lemma caps_step:
  assumes "messages deps = T" "caps_hold (envOf deps) (contents s)"
  shows "caps_hold (envOf deps) (contents (run_op deps op s))"
  using assms(1)
proof (cases rule: run_op_cases [where s = s and op = op])
  case evolve
  note fin = finite_unconsumed [of s]
  have was: "\<exists>r. contents s i = Some r \<and> getp r ''to'' = getp r' ''to'' \<and> getp r ''from'' = getp r' ''from'' \<and>
      isUnconsumed (getp r ''state'')"
    if A: "contents (run_op deps op s) i = Some r'" "isUnconsumed (getp r' ''state'')" for i r'
  proof -
    obtain r where r: "contents s i = Some r" "row_evolves r r'" using evolves_back [OF evolve A(1)] by blast
    then show ?thesis using A(2) by (auto simp: row_evolves_def dest: same_messageD)
  qed
  have s1: "unconsumed_for (contents (run_op deps op s)) t \<subseteq> unconsumed_for (contents s) t" for t
    unfolding unconsumed_for_def using was by fastforce
  have s2: "unconsumed_from (contents (run_op deps op s)) t f \<subseteq> unconsumed_from (contents s) t f" for t f
    unfolding unconsumed_from_def using was by fastforce
  have "card (unconsumed_for (contents (run_op deps op s)) t) \<le> card (unconsumed_for (contents s) t)"
    "card (unconsumed_from (contents (run_op deps op s)) t f) \<le> card (unconsumed_from (contents s) t f)" for t f
    using card_mono [OF fin(1) s1] card_mono [OF fin(2) s2] by simp_all
  then show ?thesis using assms(2) unfolding caps_hold_def
    by (meson of_nat_le_iff order_trans)
next
  case (store c n p)
  note fin = finite_unconsumed [of s]
  let ?k = "js_String (getp c ''id'')"
  let ?C = "contents (run_op deps op s)"
  have "int (card (unconsumed_for ?C t)) \<le> inboxCap (envOf deps)" for t
  proof (cases "getp c ''to'' = Str t")
    case True
    have "unconsumed_for ?C t \<subseteq> insert ?k (unconsumed_for (contents s) t)"
      by (auto simp: unconsumed_for_def store(4) split: if_splits)
    then have "card (unconsumed_for ?C t) \<le> Suc (card (unconsumed_for (contents s) t))"
      using fin(1) by (rule card_le_Suc)
    then show ?thesis using accepts_caps(1) [OF store(1) True] by linarith
  next
    case False
    then have "unconsumed_for ?C t = unconsumed_for (contents s) t"
      using store(3) by (auto simp: unconsumed_for_def store(4) getp_delivered split: if_splits)
    then show ?thesis using assms(2) by (simp add: caps_hold_def)
  qed
  moreover have "int (card (unconsumed_from ?C t f)) \<le> perSenderCap (envOf deps)" for t f
  proof (cases "getp c ''to'' = Str t \<and> getp c ''from'' = Str f")
    case True
    have "unconsumed_from ?C t f \<subseteq> insert ?k (unconsumed_from (contents s) t f)"
      by (auto simp: unconsumed_from_def store(4) split: if_splits)
    then have "card (unconsumed_from ?C t f) \<le> Suc (card (unconsumed_from (contents s) t f))"
      using fin(2) by (rule card_le_Suc)
    then show ?thesis using accepts_caps(2) [OF store(1)] True by force
  next
    case False
    then have "unconsumed_from ?C t f = unconsumed_from (contents s) t f"
      using store(3) by (auto simp: unconsumed_from_def store(4) getp_delivered split: if_splits)
    then show ?thesis using assms(2) by (simp add: caps_hold_def)
  qed
  ultimately show ?thesis by (simp add: caps_hold_def)
qed

lemma seqs_step:
  assumes "messages deps = T" "seqs_differ (contents s)"
  shows "seqs_differ (contents (run_op deps op s))"
  using assms(1)
proof (cases rule: run_op_cases [where s = s and op = op])
  case evolve
  show ?thesis unfolding seqs_differ_def
  proof (intro allI impI, elim conjE)
    fix i j r r' f t
    assume a: "contents (run_op deps op s) i = Some r" "contents (run_op deps op s) j = Some r'" "i \<noteq> j"
      "getp r ''from'' = Str f" "getp r' ''from'' = Str f" "getp r ''threadId'' = Str t" "getp r' ''threadId'' = Str t"
    obtain q q' where "contents s i = Some q" "row_evolves q r" "contents s j = Some q'" "row_evolves q' r'"
      using evolves_back [OF evolve a(1)] evolves_back [OF evolve a(2)] by blast
    moreover then have "getp r ''seq'' = getp q ''seq''" "getp r' ''seq'' = getp q' ''seq''"
        "getp q ''from'' = Str f" "getp q' ''from'' = Str f" "getp q ''threadId'' = Str t" "getp q' ''threadId'' = Str t"
      using a(4-7) by (auto simp: row_evolves_def dest: same_messageD)
    ultimately show "getp r ''seq'' \<noteq> getp r' ''seq''" using assms(2) a(3) unfolding seqs_differ_def by metis
  qed
next
  case (store c n p)
  have new: "getp r ''seq'' \<noteq> Num (Fin p)"
    if "contents s i = Some r" "getp r ''from'' = Str f" "getp c ''from'' = Str f"
      "getp r ''threadId'' = Str t" "getp c ''threadId'' = Str t" for i r f t
    using accepts_ahead [OF store(1) that(1), of p p] store(2) that by auto
  show ?thesis unfolding seqs_differ_def
  proof (intro allI impI, elim conjE)
    fix i j r r' f t
    assume a: "contents (run_op deps op s) i = Some r" "contents (run_op deps op s) j = Some r'" "i \<noteq> j"
      "getp r ''from'' = Str f" "getp r' ''from'' = Str f" "getp r ''threadId'' = Str t" "getp r' ''threadId'' = Str t"
    show "getp r ''seq'' \<noteq> getp r' ''seq''"
    proof (cases "i = js_String (getp c ''id'') \<or> j = js_String (getp c ''id'')")
      case False
      then show ?thesis using a assms(2) unfolding store(4) seqs_differ_def by (metis fun_upd_other)
    next
      case True
      then show ?thesis using a new store(2) unfolding store(4)
        by (auto simp: getp_delivered split: if_splits; metis)
    qed
  qed
qed

lemma consumed_step:
  assumes "messages deps = T" "contents s i = Some r" "getp r ''state'' = Str ''consumed''"
  shows "contents (run_op deps op s) i = Some r"
  using assms(1)
proof (cases rule: run_op_cases [where s = s and op = op])
  case evolve
  then show ?thesis using evolves_fwd [OF evolve assms(2)] assms(3) by (auto simp: row_evolves_def)
next
  case (store c n p)
  then show ?thesis using assms(2) by auto
qed

end

section \<open>Properties of every run\<close>

lemma fold_inv: "(\<And>op s. P s \<Longrightarrow> P (f op s)) \<Longrightarrow> P s \<Longrightarrow> P (fold f ops s)"
  by (induction ops arbitrary: s) auto

lemma caps_positive: "0 < inboxCap env" "0 < perSenderCap env"
proof -
  have "0 < positiveIntEnv raw d" if "0 < d" for raw d
    using that by (auto simp: positiveIntEnv_def Let_def split: option.splits elim!: is_integerE)
  then show "0 < inboxCap env" "0 < perSenderCap env"
    by (simp_all add: inboxCap_def perSenderCap_def DEFAULT_INBOX_CAP_def DEFAULT_PER_SENDER_CAP_def)
qed

text \<open>C28. A consumed message stays exactly as it is: no later sequence of sends, redeliveries,
  consumes and deadline sweeps, by whomever and whenever, changes a consumed row, so its sender is
  never told that it failed. \<close>

theorem consumed_is_absorbing:
  assumes "message_table T contents" "messages deps = T"
    and "contents s i = Some r" "getp r ''state'' = Str ''consumed''"
  shows "contents (run_ops deps ops s) i = Some r"
  unfolding run_ops_def
  by (rule fold_inv [where P = "\<lambda>s. contents s i = Some r"])
     (use message_table.consumed_step [OF assms(1,2) _ assms(4)] assms(3) in blast)+

text \<open>C27. No inbox ever holds more than its cap of unconsumed messages and no sender more than
  its sub-cap of them in any inbox: after every sequence of operations on an initially empty table,
  for every recipient and every sender. \<close>

theorem inbox_caps_hold:
  assumes "message_table T contents" "messages deps = T" "dom (contents s0) = {}"
  shows "caps_hold (envOf deps) (contents (run_ops deps ops s0))"
  unfolding run_ops_def
proof (rule fold_inv [where P = "\<lambda>s. caps_hold (envOf deps) (contents s)"])
  show "caps_hold (envOf deps) (contents (run_op deps op s))" if "caps_hold (envOf deps) (contents s)" for op s
    by (rule message_table.caps_step [OF assms(1,2) that])
  have none: "contents s0 i = None" for i using assms(3) by blast
  have "unconsumed_for (contents s0) t = {}" "unconsumed_from (contents s0) t f = {}" for t f
    by (simp_all add: unconsumed_for_def unconsumed_from_def none)
  then show "caps_hold (envOf deps) (contents s0)"
    using caps_positive [of "envOf deps"] by (simp add: caps_hold_def)
qed

text \<open>Within a thread a sender's messages never share a sequence number: after every sequence
  of operations on an initially empty table, two different stored messages of the same sender and
  thread have different numbers. \<close>

theorem thread_sequence_unique:
  assumes "message_table T contents" "messages deps = T" "dom (contents s0) = {}"
  shows "seqs_differ (contents (run_ops deps ops s0))"
  unfolding run_ops_def
proof (rule fold_inv [where P = "\<lambda>s. seqs_differ (contents s)"])
  show "seqs_differ (contents (run_op deps op s))" if "seqs_differ (contents s)" for op s
    by (rule message_table.seqs_step [OF assms(1,2) that])
  show "seqs_differ (contents s0)" using assms(3) by (auto simp: seqs_differ_def)
qed

text \<open>C26. What gets stored is authentic: a send that changes the table was made by an
  authenticated caller, who if not an administrator is the message's sender; all three locks were
  held; the content hash is the hash of the content and the signature verifies under the key
  registered for the sender; the organisation is the server's; and the lifecycle fields of the
  stored row are the server's own. \<close>

theorem stored_message_authentic:
  assumes "message_table T contents" "messages deps = T"
    and "contents (snd (relaySend deps auth c lk now s)) \<noteq> contents s"
  shows "\<exists>sender row. auth \<noteq> Anonymous \<and> (\<forall>a. auth = Agent a False \<longrightarrow> getp c ''from'' = Str a) \<and> lk = Done () \<and>
     agent_get deps (js_String (getp c ''from'')) = Inr (Some sender) \<and>
     verifyMessageSignature (crypt deps) c (js_String (getp sender ''publicKey'')) = Inr () \<and>
     getp c ''contentHash'' = Str (computeContentHash (crypt deps) c) \<and>
     getp c ''orgScope'' = Str (case resolveOrg deps of None \<Rightarrow> LOCAL_ORG_SENTINEL | Some org \<Rightarrow> org) \<and>
     contents s (js_String (getp c ''id'')) = None \<and>
     contents (snd (relaySend deps auth c lk now s)) = (contents s)(js_String (getp c ''id'') \<mapsto> row) \<and>
     getp row ''state'' = Str ''delivered'' \<and> getp row ''consumedAt'' = Undef \<and> getp row ''failureReason'' = Undef \<and>
     getp row ''deliveredAt'' = Str (isoOf deps now)"
proof -
  have "snd (relaySend deps auth c lk now s) \<noteq> s" using assms(3) by auto
  then obtain c' where c': "relaySend_checks deps auth c = Inr c'" "message_table.accepts T contents deps c' s"
      "\<not> nullish (getp c' ''id'')" "lk = Done ()"
      "snd (relaySend deps auth c lk now s) = tput T (delivered_row c' (isoOf deps now)) s"
    using message_table.relaySend_effect [OF assms(1,2), of auth c lk now s] by blast
  have id: "getp c' ''id'' = getp c ''id''" using message_table.checks_content [OF assms(1) c'(1)] by simp
  have put: "contents (tput T (delivered_row c' (isoOf deps now)) s)
      = (contents s)(js_String (getp c ''id'') \<mapsto> delivered_row c' (isoOf deps now))"
    using message_table.tput_contents [OF assms(1), of "delivered_row c' (isoOf deps now)" s] c'(3) id
    by (simp add: getp_delivered)
  have free: "contents s (js_String (getp c ''id'')) = None"
    using c'(2) id by (simp add: message_table.accepts_def [OF assms(1)])
  obtain sender where snd: "agent_get deps (js_String (getp c ''from'')) = Inr (Some sender)"
      "verifyMessageSignature (crypt deps) c (js_String (getp sender ''publicKey'')) = Inr ()"
    and chk: "auth \<noteq> Anonymous" "\<forall>a. auth = Agent a False \<longrightarrow> getp c ''from'' = Str a"
      "getp c ''orgScope'' = Str (case resolveOrg deps of None \<Rightarrow> LOCAL_ORG_SENTINEL | Some org \<Rightarrow> org)"
    using c'(1) by (auto simp: relaySend_checks_def split: if_splits option.splits sum.splits auth_verdict.splits bool.splits)
  have "getp c ''contentHash'' = Str (computeContentHash (crypt deps) c)"
    using snd(2) by (auto simp: verifyMessageSignature_def split: if_splits)
  then show ?thesis
    using snd chk c'(4,5) put free
    by (intro exI [of _ sender] exI [of _ "delivered_row c' (isoOf deps now)"]) (simp add: getp_delivered)
qed

text \<open>Only the recipient, an administrator or the server itself consumes a message, and nobody
  else can probe for ids: a consume that changes the table names a stored, unconsumed message that
  is addressed to the calling agent unless the caller is privileged, and for a non-admin agent that
  is not the recipient the answer is the very answer of a missing id. \<close>

theorem consume_only_by_recipient:
  assumes "message_table T contents" "messages deps = T"
  shows "(contents (snd (relayConsume deps (Agent a False) i now s)) \<noteq> contents s \<longrightarrow>
            (\<exists>r. contents s i = Some r \<and> getp r ''to'' = Str a \<and> getp r ''state'' \<noteq> Str ''consumed'')) \<and>
         (i \<noteq> [] \<and> (\<forall>r. contents s i = Some r \<longrightarrow> getp r ''to'' \<noteq> Str a) \<longrightarrow>
            relayConsume deps (Agent a False) i now s = (NOT_FOUND, s)) \<and>
         snd (relayConsume deps Anonymous i now s) = s"
proof (intro conjI impI)
  assume "contents (snd (relayConsume deps (Agent a False) i now s)) \<noteq> contents s"
  then show "\<exists>r. contents s i = Some r \<and> getp r ''to'' = Str a \<and> getp r ''state'' \<noteq> Str ''consumed''"
    using message_table.relayConsume_effect [OF assms, of "Agent a False" i now s] by auto
next
  assume "i \<noteq> [] \<and> (\<forall>r. contents s i = Some r \<longrightarrow> getp r ''to'' \<noteq> Str a)"
  then show "relayConsume deps (Agent a False) i now s = (NOT_FOUND, s)"
    using message_table.tget_result [OF assms(1), of i s] assms(2)
    by (auto simp: relayConsume_def split: option.splits)
qed (simp add: relayConsume_def)

lemma relaySend_checks_cong:
  assumes "dateOf d = dateOf e" "resolveOrg d = resolveOrg e" "crypt d = crypt e"
    "agent_get d (js_String (getp c ''from'')) = agent_get e (js_String (getp c ''from''))"
  shows "relaySend_checks d auth c = relaySend_checks e auth c"
  by (simp only: relaySend_checks_def assms)

text \<open>A send does not reveal whether its recipient exists: its answer and its effect depend on
  the agent table only through the sender's own entry. \<close>

theorem send_no_recipient_oracle:
  assumes "agent_get deps (js_String (getp c ''from'')) = lookup' (js_String (getp c ''from''))"
  shows "relaySend (deps\<lparr>agent_get := lookup'\<rparr>) auth c lk now s = relaySend deps auth c lk now s"
proof -
  have "storeAndDeliver (deps\<lparr>agent_get := lookup'\<rparr>) d now s = storeAndDeliver deps d now s" for d
    by (simp add: storeAndDeliver_def Let_def split: sum.split option.split)
  moreover have "relaySend_checks (deps\<lparr>agent_get := lookup'\<rparr>) auth c = relaySend_checks deps auth c"
    by (rule relaySend_checks_cong) (simp_all add: assms)
  ultimately show ?thesis by (simp add: relaySend_def split: sum.split key_lock_outcome.split)
qed

text \<open>The deadline sweep fails exactly the overdue: run by the server or an administrator it
  turns every unconsumed message whose deadline is a date not in the future into a failed one with
  the reason \<open>deadline\<close> and leaves every other message untouched. \<close>

theorem sweep_fails_exactly_overdue:
  assumes "message_table T contents" "messages deps = T" "auth = Internal \<or> auth = Agent a True"
  shows "contents (snd (relaySweepDeadlines deps auth now s)) i =
     (case contents s i of None \<Rightarrow> None
      | Some r \<Rightarrow> Some (if isUnconsumed (getp r ''state'') \<and> truthy (getp r ''deadline'') \<and>
                           \<not> jlt (jint now) (dateOf deps (getp r ''deadline''))
                        then spread r [(''state'', Str ''failed''), (''failureReason'', Str ''deadline'')] else r))"
  using message_table.sweep_contents [OF assms(1,2), of auth now s i] assms(3)
  by (auto simp: sweepDecision_def message_table.failed_row_def [OF assms(1)] split: option.splits if_splits)


text \<open>The sweep reads its candidates before it writes them back, and a consume between the two
  is lost: when the recipient consumes an overdue message after the sweep has read it, the consume
  is answered and stored, and then the sweep's write puts the stale row back as failed, although
  \<open>consumed\<close> is meant to be absorbing. \<close>

theorem sweep_overwrites_concurrent_consume:
  assumes "message_table T contents" "messages deps = T"
    and "contents s i = Some r" "sweepDecision (dateOf deps) r now"
    and "relayConsume deps auth i now' s = (Answer row, s')"
  shows "contents s' i = Some row \<and> getp row ''state'' = Str ''consumed'' \<and>
     (\<exists>lost. contents (snd (sweep_write deps now (sweep_candidates deps s) (0, s'))) i = Some lost \<and>
        getp lost ''state'' = Str ''failed'' \<and> getp lost ''consumedAt'' = getp r ''consumedAt'')"
proof -
  have get: "tget T i s = Inr (Some r)"
    using message_table.tget_result [OF assms(1), of i s] assms(2,3,5)
    by (auto simp: relayConsume_def UNAUTH_def BAD_REQUEST_def NOT_FOUND_def split: if_splits)
  have st: "getp r ''state'' \<noteq> Str ''consumed''"
    using assms(4) by (auto simp: sweepDecision_def isUnconsumed_def split: if_splits)
  have key: "\<not> nullish (getp r ''id'')" "js_String (getp r ''id'') = i"
    using message_table.row_key [OF assms(1,3)] by auto
  have row: "row = spread r [(''state'', Str ''consumed''), (''consumedAt'', Str (isoOf deps now'))]"
    "s' = tput T row s"
    using assms(2,5) get st
    by (auto simp: relayConsume_def Let_def reconcileState_def UNAUTH_def BAD_REQUEST_def NOT_FOUND_def
             split: if_splits)
  have "contents s' = (contents s)(i \<mapsto> row)"
    using message_table.tput_contents [OF assms(1), of row s] key row by simp
  then have A: "contents s' i = Some row \<and> getp row ''state'' = Str ''consumed''"
    using row(1) by simp
  have R: "\<forall>q \<in> set (sweep_candidates deps s). contents s (js_String (getp q ''id'')) = Some q \<and>
      \<not> nullish (getp q ''id'')"
    using message_table.candidates_stored [OF assms(1,2)] .
  have "r \<in> set (sweep_candidates deps s)"
    by (rule message_table.overdue_is_candidate [OF assms(1,2,3,4)])
  then have "contents (snd (sweep_write deps now (sweep_candidates deps s) (0, s'))) i =
      Some (message_table.failed_row r)"
    using message_table.sweep_write_contents [OF assms(1,2) R, of now 0 s' i] assms(3,4) key by simp
  then show ?thesis using A by (simp add: message_table.failed_row_def [OF assms(1)])
qed

definition demo_deps :: "jobj list relay_deps" where
  "demo_deps = \<lparr>messages = memory_table, agent_get = (\<lambda>a. Inr (Some [(''publicKey'', Str ''k'')])),
     resolveOrg = None, dateOf = (\<lambda>d. case d of Str s \<Rightarrow> Fin 10 | _ \<Rightarrow> NaN), isoOf = int_string,
     localeLe = (\<lambda>a b. True),
     crypt = \<lparr>sign_detached = \<lambda>m k. k, verify_detached = \<lambda>m s k. True, sha256_hex = \<lambda>m. ''h''\<rparr>,
     envOf = (\<lambda>v. None)\<rparr>"

definition demo_message :: jobj where
  "demo_message = [(''id'', Str ''m''), (''from'', Str ''a''), (''to'', Str ''b''), (''threadId'', Str ''t''),
     (''seq'', Num (Fin 0)), (''kind'', Str ''message''), (''body'', Str ''hi''), (''orgScope'', Str ''local''),
     (''deadline'', Str ''d''), (''createdAt'', Str ''c''), (''contentHash'', Str ''h''), (''signature'', Str ''s'')]"

lemma demo_send:
  "snd (relaySend demo_deps (Agent ''a'' False) demo_message (Done ()) 5 []) = [delivered_row demo_message ''5'']"
  by code_simp


lemma demo_row: "memory_contents [delivered_row demo_message ''5''] ''m'' = Some (delivered_row demo_message ''5'')"
  by code_simp

lemma demo_fields [simp]:
  "getp demo_message ''state'' = Undef" "getp demo_message ''to'' = Str ''b''" "getp demo_message ''from'' = Str ''a''"
  "getp demo_message ''deadline'' = Str ''d''" "getp demo_message ''id'' = Str ''m''"
  by (simp_all add: demo_message_def)

lemma demo_overdue: "sweepDecision (dateOf demo_deps) (delivered_row demo_message ''5'') 20"
  by (simp add: sweepDecision_def getp_delivered isUnconsumed_def demo_deps_def)

lemma consumed_is_absorbing_witness:
  "memory_contents (run_ops demo_deps [Sweep Internal 20, Send (Agent ''a'' False) demo_message (Done ()) 30,
      Consume (Agent ''b'' False) ''m'' 31] [[(''id'', Str ''m''), (''state'', Str ''consumed'')]]) ''m'' =
   Some [(''id'', Str ''m''), (''state'', Str ''consumed'')]"
  by (rule consumed_is_absorbing [OF memory.message_table_axioms])
     (simp_all add: demo_deps_def memory_contents_def row_id_def)

lemma inbox_caps_hold_witness:
  "caps_hold (envOf demo_deps) (memory_contents (run_ops demo_deps
     [Send (Agent ''a'' False) demo_message (Done ()) 5, Sweep Internal 20] []))"
  by (rule inbox_caps_hold [OF memory.message_table_axioms])
     (simp_all add: demo_deps_def memory_contents_def dom_def)

lemma thread_sequence_unique_witness:
  "seqs_differ (memory_contents (run_ops demo_deps
     [Send (Agent ''a'' False) demo_message (Done ()) 5, Sweep Internal 20] []))"
  by (rule thread_sequence_unique [OF memory.message_table_axioms, of demo_deps])
     (simp_all add: demo_deps_def memory_contents_def dom_def)

lemma stored_message_authentic_witness:
  "verifyMessageSignature (crypt demo_deps) demo_message ''k'' = Inr () \<and>
   getp demo_message ''contentHash'' = Str (computeContentHash (crypt demo_deps) demo_message)"
proof -
  have ne: "memory_contents (snd (relaySend demo_deps (Agent ''a'' False) demo_message (Done ()) 5 []))
      \<noteq> memory_contents []"
  proof
    assume "memory_contents (snd (relaySend demo_deps (Agent ''a'' False) demo_message (Done ()) 5 []))
      = memory_contents []"
    then have "memory_contents [delivered_row demo_message ''5''] ''m'' = memory_contents [] ''m''"
      by (simp only: demo_send)
    then show False by (simp only: demo_row) (simp add: memory_contents_def)
  qed
  show ?thesis
    using stored_message_authentic [OF memory.message_table_axioms _ ne]
    by (auto simp: demo_deps_def)
qed

lemma consume_only_by_recipient_witness:
  "relayConsume demo_deps (Agent ''c'' False) ''m'' 6 [delivered_row demo_message ''5''] =
     (NOT_FOUND, [delivered_row demo_message ''5''])"
  using consume_only_by_recipient [OF memory.message_table_axioms, of demo_deps "''c''" "''m''" 6
      "[delivered_row demo_message ''5'']"]
  by (simp add: demo_row demo_deps_def getp_delivered)

lemma send_no_recipient_oracle_witness:
  "relaySend (demo_deps\<lparr>agent_get := (\<lambda>a. if a = ''b'' then Inr None else Inr (Some [(''publicKey'', Str ''k'')]))\<rparr>)
     (Agent ''a'' False) demo_message (Done ()) 5 [] = relaySend demo_deps (Agent ''a'' False) demo_message (Done ()) 5 []"
  by (rule send_no_recipient_oracle) (simp add: demo_deps_def)

lemma sweep_fails_exactly_overdue_witness:
  "memory_contents (snd (relaySweepDeadlines demo_deps Internal 20 [delivered_row demo_message ''5''])) ''m'' =
   Some (spread (delivered_row demo_message ''5'') [(''state'', Str ''failed''), (''failureReason'', Str ''deadline'')])"
  using sweep_fails_exactly_overdue [OF memory.message_table_axioms, of demo_deps Internal "''a''" 20
      "[delivered_row demo_message ''5'']" "''m''"]
  by (simp add: demo_row demo_deps_def getp_delivered isUnconsumed_def)

lemma sweep_overwrites_concurrent_consume_witness:
  "\<exists>s' lost. relayConsume demo_deps (Agent ''b'' False) ''m'' 15 [delivered_row demo_message ''5''] =
       (Answer (spread (delivered_row demo_message ''5'') [(''state'', Str ''consumed''), (''consumedAt'', Str ''15'')]), s') \<and>
     memory_contents (snd (sweep_write demo_deps 20
       (sweep_candidates demo_deps [delivered_row demo_message ''5'']) (0, s'))) ''m'' = Some lost \<and>
     getp lost ''state'' = Str ''failed''"
proof -
  let ?row = "spread (delivered_row demo_message ''5'') [(''state'', Str ''consumed''), (''consumedAt'', Str ''15'')]"
  have iso: "isoOf demo_deps 15 = ''15''" by code_simp
  have get: "tget memory_table ''m'' [delivered_row demo_message ''5''] = Inr (Some (delivered_row demo_message ''5''))"
    using demo_row by (simp add: memory_table_def memory_contents_def)
  have m: "messages demo_deps = memory_table" by (simp add: demo_deps_def)
  have c: "relayConsume demo_deps (Agent ''b'' False) ''m'' 15 [delivered_row demo_message ''5''] =
      (Answer ?row, tput memory_table ?row [delivered_row demo_message ''5''])"
    by (simp add: relayConsume_def m get iso getp_delivered reconcileState_def Let_def)
  show ?thesis
    using sweep_overwrites_concurrent_consume [OF memory.message_table_axioms m demo_row demo_overdue c] c
    by blast
qed

text \<open>The keys of a send are in the order of their kind, the level that \<open>withKeyLocks\<close> relies on.\<close>

definition send_lock_level :: "lock_key \<Rightarrow> nat" where
  "send_lock_level k =
     (case k of [_, tag, _] \<Rightarrow> if tag = ''id'' then 0 else if tag = ''recipient'' then 1 else 2 | _ \<Rightarrow> 3)"

text \<open>Concurrent sends never deadlock: in every reachable state of sends that take their id,
  recipient and sender keys, whenever some send waits for a key then another holds all of its keys
  or some waiting send's next attempt succeeds. \<close>

lemma sends_never_deadlock:
  assumes "key_lock_store ops held" "held s0 = {}"
    and "(lock_step ops SEND_LOCK_ATTEMPTS)\<^sup>*\<^sup>* (\<lambda>_. None, s0) (ps, s)" "finite {p. ps p \<noteq> None}"
    and "\<forall>p ks. (\<exists>i a. ps p = Some (Trying ks i a)) \<or> ps p = Some (Running ks) \<longrightarrow> (\<exists>c. ks = send_lock_keys c)"
    and "ps p0 = Some (Trying ks0 i0 a0)"
  shows "(\<exists>p ks. ps p = Some (Running ks)) \<or>
         (\<exists>p ks i a. ps p = Some (Trying ks i a) \<and> ks ! i \<notin> held s)"
proof -
  have lvl: "sorted_wrt (\<lambda>x y. send_lock_level x < send_lock_level y) (send_lock_keys c)" for c
    by (simp add: send_lock_keys_def send_lock_level_def)
  show ?thesis
    by (rule key_lock_store.someone_progresses [OF assms(1)
          key_lock_store.locks_inv_reachable [OF assms(1,3,2)] assms(4) _ assms(6), where level = send_lock_level])
       (use assms(5) lvl in blast)
qed

end
