(* ===== verification/ReplayStore.thy ===== *)
theory ReplayStore
  imports KeyLock FederationCrypto
begin

text \<open>
  The instance-wide replay store: \<open>resources/replay-store.ts\<close>. One check-and-record, \<open>recordOnce\<close>,
  behind the two replay guards, the ID-JAG \<open>jti\<close> record and the OAuth single-use record.

  The table and Harper's \<open>transaction\<close> are fields of \<open>replay_deps\<close>; what of them may be missing is
  data, since the code checks it. The synchronous part of a claim (contract check, \<open>tryLock\<close>,
  \<open>getEntry\<close>) is one step, the commit of the row another, the release of the lock with the answer a
  third, and the steps of all claims of all threads interleave with the clock and with the table's
  expiration. What the table promises is the locale \<open>replay_table\<close>.
\<close>

section \<open>The store contract\<close>

definition REPLAY_TABLE :: string where "REPLAY_TABLE = ''ReplayNonce''"
definition REPLAY_RETENTION_S :: int where "REPLAY_RETENTION_S = 120"
definition REPLAY_RETENTION_MS :: int where "REPLAY_RETENTION_MS = REPLAY_RETENTION_S * 1000"
definition REPLAY_LOCK_NAMESPACE :: string where "REPLAY_LOCK_NAMESPACE = ''flair-replay''"

record 's replay_deps =
  table_defined :: bool
  has_primaryStore :: bool
  store_functions :: "string list"
  has_put :: bool
  has_transaction :: bool
  expirationMS :: js
  rd_name :: "string option"
  rd_lockNamespace :: "string option"
  rd_locks :: "'s lock_ops"
  rd_getEntry :: "string \<Rightarrow> 's \<Rightarrow> unit + bool"
  rd_commit :: "string \<Rightarrow> int \<Rightarrow> int \<Rightarrow> 's \<Rightarrow> bool \<times> 's"

text \<open>
  \<open>rd_getEntry\<close> says whether the row is there or throws; \<open>rd_commit\<close> is the transaction that puts
  the row \<open>{id, seenAt}\<close> (key, seenAt, clock), with whether it resolves.
\<close>

definition STORE_METHODS :: "string list" where
  "STORE_METHODS = [''tryLock'', ''unlock'', ''getEntry'']"

definition table_label :: "'s replay_deps \<Rightarrow> string" where
  "table_label deps = ''flair.'' @ (case rd_name deps of None \<Rightarrow> REPLAY_TABLE | Some n \<Rightarrow> n)"

definition keeps_at_most :: "js \<Rightarrow> jnum \<Rightarrow> bool" where
  "keeps_at_most e bound \<longleftrightarrow>
     (case e of Num x \<Rightarrow> jlt (Fin 0) x \<and> jle x bound | _ \<Rightarrow> False)"

definition replayStoreContractGap :: "'s replay_deps \<Rightarrow> jnum option \<Rightarrow> string option" where
  "replayStoreContractGap deps windowMs =
     (if \<not> table_defined deps then Some (''table '' @ table_label deps @ '' is not defined'')
      else if \<not> has_primaryStore deps then Some (table_label deps @ '' has no primaryStore'')
      else case find (\<lambda>m. m \<notin> set (store_functions deps)) STORE_METHODS of
          Some m \<Rightarrow> Some (table_label deps @ ''.primaryStore.'' @ m @ '' is not a function'')
        | None \<Rightarrow>
            if \<not> has_put deps then Some (table_label deps @ ''.put is not a function'')
            else if \<not> has_transaction deps then Some ''Harper's transaction() is not available''
            else (case windowMs of
                None \<Rightarrow> None
              | Some w \<Rightarrow>
                  if keeps_at_most (expirationMS deps) (jadd w w)
                  then Some (table_label deps @ '' keeps rows '' @ js_String (expirationMS deps) @
                         '' ms, not longer than twice the '' @ js_num_string w @ '' ms window'')
                  else None))"

definition replayWindowGap :: "jnum \<Rightarrow> string option \<Rightarrow> string option" where
  "replayWindowGap windowMs source =
     (let what = (case source of
            Some src \<Rightarrow> if src = [] then ''replay window '' @ js_num_string windowMs @ '' ms''
                        else ''replay window '' @ js_num_string windowMs @ '' ms ('' @ src @ '')''
          | None \<Rightarrow> ''replay window '' @ js_num_string windowMs @ '' ms'') in
      if \<not> is_finite windowMs \<or> jle windowMs (Fin 0) then Some (what @ '' is not a positive number'')
      else if jle (jint REPLAY_RETENTION_MS) (jadd windowMs windowMs)
      then Some (what @ '' must be below '' @ int_string (REPLAY_RETENTION_MS div 2) @ '' ms: flair.'' @
             REPLAY_TABLE @ '' keeps a nonce '' @ int_string REPLAY_RETENTION_MS @
             '' ms, and that must exceed twice the window'')
      else None)"

section \<open>Check and record\<close>

datatype record_outcome = RowWritten | RowPresent | Contended

text \<open>
  Where a call of \<open>recordOnce\<close> is: its transaction is committing, it has committed (or failed) and
  will release the lock, or it has settled with an outcome, \<open>None\<close> when it threw.
\<close>

datatype record_phase = Writing | Written bool | Settled "record_outcome option"

definition record_lock_key :: "'s replay_deps \<Rightarrow> string \<Rightarrow> lock_key" where
  "record_lock_key deps key =
     [case rd_lockNamespace deps of None \<Rightarrow> REPLAY_LOCK_NAMESPACE | Some n \<Rightarrow> n, key]"

definition recordOnce :: "'s replay_deps \<Rightarrow> string \<Rightarrow> 's \<Rightarrow> record_phase \<times> 's" where
  "recordOnce deps key s =
     (case replayStoreContractGap deps None of
        Some _ \<Rightarrow> (Settled None, s)
      | None \<Rightarrow>
          (case try_lock (rd_locks deps) (record_lock_key deps key) s of
             (False, s') \<Rightarrow> (Settled (Some Contended), s')
           | (True, s') \<Rightarrow>
               (case rd_getEntry deps key s' of
                  Inl _ \<Rightarrow> (Settled None, unlock (rd_locks deps) (record_lock_key deps key) s')
                | Inr True \<Rightarrow> (Settled (Some RowPresent), unlock (rd_locks deps) (record_lock_key deps key) s')
                | Inr False \<Rightarrow> (Writing, s'))))"

definition recordOnce_write :: "'s replay_deps \<Rightarrow> string \<Rightarrow> int \<Rightarrow> int \<Rightarrow> 's \<Rightarrow> record_phase \<times> 's" where
  "recordOnce_write deps key seenAt clock s = (case rd_commit deps key seenAt clock s of (ok, s') \<Rightarrow> (Written ok, s'))"

definition recordOnce_finish :: "'s replay_deps \<Rightarrow> string \<Rightarrow> bool \<Rightarrow> 's \<Rightarrow> record_phase \<times> 's" where
  "recordOnce_finish deps key ok s =
     (Settled (if ok then Some RowWritten else None), unlock (rd_locks deps) (record_lock_key deps key) s)"

section \<open>The guards\<close>

datatype replay_scope = AgentScope | FederationScope

fun scope_text :: "replay_scope \<Rightarrow> string" where
  "scope_text AgentScope = ''a''" | "scope_text FederationScope = ''f''"

record guard_opts =
  g_windowMs :: jnum
  g_source :: "string option"
  g_cacheLimit :: int

record guard_cache =
  seen :: "(string \<times> int) list"
  lastPrune :: int

definition full_key :: "replay_scope \<Rightarrow> string \<Rightarrow> string" where
  "full_key sc key = scope_text sc @ '':'' @ key"

definition prune :: "guard_opts \<Rightarrow> int \<Rightarrow> guard_cache \<Rightarrow> guard_cache" where
  "prune opts now c =
     (if now - lastPrune c < 1000 \<and> int (length (seen c)) < g_cacheLimit opts then c
      else let kept = filter (\<lambda>(k, t). \<not> jlt (jadd (g_windowMs opts) (g_windowMs opts)) (jint (now - t))) (seen c) in
        \<lparr>seen = (if int (length kept) \<ge> g_cacheLimit opts then [] else kept), lastPrune = now\<rparr>)"

definition guard_knownReplay :: "guard_opts \<Rightarrow> replay_scope \<Rightarrow> string \<Rightarrow> int \<Rightarrow> guard_cache \<Rightarrow> bool \<times> guard_cache" where
  "guard_knownReplay opts sc key now c =
     (let c' = prune opts now c in (map_of (seen c') (full_key sc key) \<noteq> None, c'))"

text \<open>What \<open>claim\<close> does before its first wait: a gap refuses without touching the store.\<close>

definition guard_claim :: "guard_opts \<Rightarrow> 's replay_deps \<Rightarrow> replay_scope \<Rightarrow> string \<Rightarrow> 's \<Rightarrow> record_phase \<times> 's" where
  "guard_claim opts deps sc key s =
     (if replayWindowGap (g_windowMs opts) (g_source opts) \<noteq> None then (Settled None, s)
      else if replayStoreContractGap deps (Some (g_windowMs opts)) \<noteq> None then (Settled None, s)
      else recordOnce deps (full_key sc key) s)"

text \<open>The answer of a claim whose \<open>recordOnce\<close> has settled, with what the cache remembers.\<close>

definition guard_answer ::
    "guard_opts \<Rightarrow> replay_scope \<Rightarrow> string \<Rightarrow> int \<Rightarrow> record_outcome option \<Rightarrow> guard_cache \<Rightarrow> claim_result \<times> guard_cache" where
  "guard_answer opts sc key now res c =
     (case res of
        None \<Rightarrow> (ClaimUnavailable, c)
      | Some Contended \<Rightarrow> (ReplayClaim, c)
      | Some RowPresent \<Rightarrow> (ReplayClaim, let c' = prune opts now c in c'\<lparr>seen := AList.update (full_key sc key) now (seen c')\<rparr>)
      | Some RowWritten \<Rightarrow> (Recorded, let c' = prune opts now c in c'\<lparr>seen := AList.update (full_key sc key) now (seen c')\<rparr>))"

definition agentKey :: "string \<Rightarrow> string \<Rightarrow> string" where
  "agentKey agentId nonce = agentId @ '':'' @ nonce"

definition isKnownAgentReplay :: "guard_opts \<Rightarrow> string \<Rightarrow> string \<Rightarrow> int \<Rightarrow> guard_cache \<Rightarrow> bool \<times> guard_cache" where
  "isKnownAgentReplay opts agentId nonce now c = guard_knownReplay opts AgentScope (agentKey agentId nonce) now c"

datatype agent_nonce_claim = NonceOk | NonceRefused string nat

fun claimAgentNonce :: "claim_result \<Rightarrow> agent_nonce_claim" where
  "claimAgentNonce Recorded = NonceOk"
| "claimAgentNonce ReplayClaim = NonceRefused ''nonce_replay_detected'' 401"
| "claimAgentNonce ClaimUnavailable = NonceRefused ''replay_store_unavailable'' 503"

section \<open>The records that outlive a minimum\<close>

definition ID_JAG_REPLAY_TABLE :: string where "ID_JAG_REPLAY_TABLE = ''IdJagReplay''"
definition ID_JAG_LOCK_NAMESPACE :: string where "ID_JAG_LOCK_NAMESPACE = ''flair-replay-id-jag''"
definition OAUTH_SINGLE_USE_TABLE :: string where "OAUTH_SINGLE_USE_TABLE = ''OAuthSingleUse''"
definition OAUTH_SINGLE_USE_LOCK_NAMESPACE :: string where
  "OAUTH_SINGLE_USE_LOCK_NAMESPACE = ''flair-replay-oauth''"

definition idJagReplayDeps :: "'s replay_deps \<Rightarrow> 's replay_deps" where
  "idJagReplayDeps raw = raw\<lparr>rd_name := Some ID_JAG_REPLAY_TABLE, rd_lockNamespace := Some ID_JAG_LOCK_NAMESPACE\<rparr>"

definition oauthSingleUseDeps :: "'s replay_deps \<Rightarrow> 's replay_deps" where
  "oauthSingleUseDeps raw =
     raw\<lparr>rd_name := Some OAUTH_SINGLE_USE_TABLE, rd_lockNamespace := Some OAUTH_SINGLE_USE_LOCK_NAMESPACE\<rparr>"

definition storeRetentionGap :: "'s replay_deps \<Rightarrow> jnum \<Rightarrow> string \<Rightarrow> string option" where
  "storeRetentionGap deps minRetentionMs basis =
     (case replayStoreContractGap deps None of
        Some g \<Rightarrow> Some g
      | None \<Rightarrow>
          if keeps_at_most (expirationMS deps) minRetentionMs
          then Some (table_label deps @ '' keeps rows '' @ js_String (expirationMS deps) @
                 '' ms, not longer than the '' @ js_num_string minRetentionMs @ '' ms '' @ basis)
          else None)"

definition claimIdJagJti :: "'s replay_deps \<Rightarrow> string \<Rightarrow> jnum \<Rightarrow> 's \<Rightarrow> record_phase \<times> 's" where
  "claimIdJagJti raw jti minRetentionMs s =
     (let deps = idJagReplayDeps raw in
      if storeRetentionGap deps minRetentionMs ''an assertion can stay acceptable'' \<noteq> None then (Settled None, s)
      else recordOnce deps jti s)"

datatype single_use_kind = CodeUse | RefreshUse

definition single_use_key :: "single_use_kind \<Rightarrow> string \<Rightarrow> string" where
  "single_use_key kind hex = (if kind = RefreshUse then ''r'' else ''c'') @ '':'' @ hex"

definition claimOAuthSingleUse :: "'s replay_deps \<Rightarrow> single_use_kind \<Rightarrow> string \<Rightarrow> jnum \<Rightarrow> 's \<Rightarrow> record_phase \<times> 's" where
  "claimOAuthSingleUse raw kind sha256Hex minRetentionMs s =
     (let deps = oauthSingleUseDeps raw in
      if storeRetentionGap deps minRetentionMs ''a redeemed authorization code or refresh token can be presented'' \<noteq> None
      then (Settled None, s)
      else recordOnce deps (single_use_key kind sha256Hex) s)"

text \<open>The answer of those two: a lock miss is refused like a stored row.\<close>

fun single_use_answer :: "record_outcome option \<Rightarrow> claim_result" where
  "single_use_answer None = ClaimUnavailable"
| "single_use_answer (Some RowWritten) = Recorded"
| "single_use_answer (Some RowPresent) = ReplayClaim"
| "single_use_answer (Some Contended) = ReplayClaim"

section \<open>Gaps reported at boot\<close>

definition replayStoreBootGaps :: "(replay_scope \<Rightarrow> guard_opts) \<Rightarrow> 's replay_deps \<Rightarrow> string list" where
  "replayStoreBootGaps opts deps =
     concat (map (\<lambda>g.
        case (case replayWindowGap (g_windowMs (opts g)) (g_source (opts g)) of
                Some gap \<Rightarrow> Some gap
              | None \<Rightarrow> replayStoreContractGap deps (Some (g_windowMs (opts g)))) of
          None \<Rightarrow> []
        | Some gap \<Rightarrow> [(if g = AgentScope then ''agent auth'' else ''federation'') @ '': '' @ gap])
       [AgentScope, FederationScope])"

definition replayStoreStoreGaps :: "string \<Rightarrow> 's replay_deps \<Rightarrow> jnum \<Rightarrow> string \<Rightarrow> string list" where
  "replayStoreStoreGaps label deps minRetentionMs basis =
     (case storeRetentionGap deps minRetentionMs basis of None \<Rightarrow> [] | Some gap \<Rightarrow> [label @ '': '' @ gap])"

section \<open>All claims of an instance\<close>

record claim_call =
  cl_thread :: nat
  cl_scope :: replay_scope
  cl_key :: string
  cl_now :: int
  cl_done :: "int option"
  cl_phase :: record_phase
  cl_answer :: "claim_result option"

text \<open>\<open>cl_done\<close> records when the row was committed, for the statements only.\<close>

record 's claims_world =
  cw_clock :: int
  cw_store :: 's
  cw_caches :: "nat \<Rightarrow> replay_scope \<Rightarrow> guard_cache"
  cw_calls :: "nat \<Rightarrow> claim_call option"

definition call_key :: "claim_call \<Rightarrow> string" where
  "call_key c = full_key (cl_scope c) (cl_key c)"

text \<open>Expiration removes rows, none before it is \<open>retention\<close> old.\<close>

definition expires ::
    "('s \<Rightarrow> lock_key set) \<Rightarrow> ('s \<Rightarrow> string \<Rightarrow> int option) \<Rightarrow> int \<Rightarrow> int \<Rightarrow> 's \<Rightarrow> 's \<Rightarrow> bool" where
  "expires held rows retention clock s s' \<longleftrightarrow>
     held s' = held s \<and>
     (\<forall>k. rows s' k = rows s k \<or>
          (rows s' k = None \<and> (\<exists>t. rows s k = Some t \<and> t + retention \<le> clock)))"

definition with_cache :: "nat \<Rightarrow> replay_scope \<Rightarrow> guard_cache \<Rightarrow> 's claims_world \<Rightarrow> 's claims_world" where
  "with_cache th sc c w = w\<lparr>cw_caches := (cw_caches w)(th := (cw_caches w th)(sc := c))\<rparr>"

inductive claim_step ::
    "(replay_scope \<Rightarrow> guard_opts) \<Rightarrow> 's replay_deps \<Rightarrow> ('s \<Rightarrow> 's \<Rightarrow> int \<Rightarrow> bool) \<Rightarrow>
     's claims_world \<Rightarrow> 's claims_world \<Rightarrow> bool"
  for opts deps expiry where
  tick: "cw_clock w \<le> t \<Longrightarrow> claim_step opts deps expiry w (w\<lparr>cw_clock := t\<rparr>)"
| expire: "expiry (cw_store w) s' (cw_clock w) \<Longrightarrow> claim_step opts deps expiry w (w\<lparr>cw_store := s'\<rparr>)"
| known: "guard_knownReplay (opts sc) sc key (cw_clock w) (cw_caches w th sc) = (b, c) \<Longrightarrow>
    claim_step opts deps expiry w (with_cache th sc c w)"
| start: "cw_calls w p = None \<Longrightarrow> guard_claim (opts sc) deps sc key (cw_store w) = (ph, s') \<Longrightarrow>
    claim_step opts deps expiry w
      (w\<lparr>cw_store := s', cw_calls := (cw_calls w)(p \<mapsto>
           \<lparr>cl_thread = th, cl_scope = sc, cl_key = key, cl_now = cw_clock w, cl_done = None,
            cl_phase = ph, cl_answer = None\<rparr>)\<rparr>)"
| commit: "cw_calls w p = Some c \<Longrightarrow> cl_phase c = Writing \<Longrightarrow>
    recordOnce_write deps (call_key c) (cl_now c) (cw_clock w) (cw_store w) = (ph, s') \<Longrightarrow>
    claim_step opts deps expiry w
      (w\<lparr>cw_store := s', cw_calls := (cw_calls w)(p \<mapsto>
           c\<lparr>cl_phase := ph, cl_done := if ph = Written True then Some (cw_clock w) else None\<rparr>)\<rparr>)"
| settle: "cw_calls w p = Some c \<Longrightarrow> cl_phase c = Written ok \<Longrightarrow>
    recordOnce_finish deps (call_key c) ok (cw_store w) = (ph, s') \<Longrightarrow>
    claim_step opts deps expiry w
      (w\<lparr>cw_store := s', cw_calls := (cw_calls w)(p \<mapsto> c\<lparr>cl_phase := ph\<rparr>)\<rparr>)"
| answer: "cw_calls w p = Some c \<Longrightarrow> cl_phase c = Settled res \<Longrightarrow> cl_answer c = None \<Longrightarrow>
    guard_answer (opts (cl_scope c)) (cl_scope c) (cl_key c) (cl_now c) res
      (cw_caches w (cl_thread c) (cl_scope c)) = (a, cache) \<Longrightarrow>
    claim_step opts deps expiry w
      ((with_cache (cl_thread c) (cl_scope c) cache w)
         \<lparr>cw_calls := (cw_calls w)(p \<mapsto> c\<lparr>cl_answer := Some a\<rparr>)\<rparr>)"

inductive_cases claim_stepE: "claim_step opts deps expiry w w'"

definition claims_start :: "int \<Rightarrow> 's \<Rightarrow> 's claims_world" where
  "claims_start t0 s0 = \<lparr>cw_clock = t0, cw_store = s0,
     cw_caches = (\<lambda>_ _. \<lparr>seen = [], lastPrune = 0\<rparr>), cw_calls = (\<lambda>_. None)\<rparr>"

section \<open>What the table promises\<close>

locale replay_table = key_lock_store "rd_locks deps" held
  for deps :: "'s replay_deps" and held :: "'s \<Rightarrow> lock_key set" +
  fixes rows :: "'s \<Rightarrow> string \<Rightarrow> int option"
  assumes lock_rows: "rows (snd (try_lock (rd_locks deps) l s)) = rows s"
    and unlock_rows: "rows (unlock (rd_locks deps) l s) = rows s"
    and get_rows: "rd_getEntry deps k s = Inl () \<or> rd_getEntry deps k s = Inr (rows s k \<noteq> None)"
    and commit_held: "held (snd (rd_commit deps k seenAt clock s)) = held s"
    and commit_rows: "rows (snd (rd_commit deps k seenAt clock s)) = (rows s)(k \<mapsto> clock) \<or>
          \<not> fst (rd_commit deps k seenAt clock s) \<and> rows (snd (rd_commit deps k seenAt clock s)) = rows s"

text \<open>A store in memory: the held lock keys and the rows with the time they were written.\<close>

type_synonym memory_rows = "lock_key list \<times> (string \<times> int) list"

definition memory_replay_deps :: "memory_rows replay_deps" where
  "memory_replay_deps =
     \<lparr>table_defined = True, has_primaryStore = True, store_functions = STORE_METHODS,
      has_put = True, has_transaction = True, expirationMS = Num (jint REPLAY_RETENTION_MS),
      rd_name = None, rd_lockNamespace = None,
      rd_locks = \<lparr>try_lock = (\<lambda>k (h, r). if k \<in> set h then (False, (h, r)) else (True, (k # h, r))),
                  unlock = (\<lambda>k (h, r). (removeAll k h, r))\<rparr>,
      rd_getEntry = (\<lambda>k (h, r). Inr (map_of r k \<noteq> None)),
      rd_commit = (\<lambda>k seenAt clock (h, r). (True, (h, AList.update k clock r)))\<rparr>"

interpretation memory_replay: replay_table memory_replay_deps "\<lambda>(h, r). set h" "\<lambda>(h, r). map_of r"
  by unfold_locales
     (auto simp: memory_replay_deps_def update_conv' split: prod.splits if_splits)

section \<open>One claim per key and window\<close>

definition writing :: "claim_call \<Rightarrow> bool" where
  "writing c \<longleftrightarrow> (case cl_phase c of Settled _ \<Rightarrow> False | _ \<Rightarrow> True)"

definition committed :: "claim_call \<Rightarrow> bool" where
  "committed c \<longleftrightarrow> cl_phase c = Written True \<or> cl_phase c = Settled (Some RowWritten)"

definition call_ok ::
    "(replay_scope \<Rightarrow> guard_opts) \<Rightarrow> 's replay_deps \<Rightarrow> int \<Rightarrow> int \<Rightarrow> (string \<Rightarrow> int option) \<Rightarrow> lock_key set \<Rightarrow> claim_call \<Rightarrow> bool" where
  "call_ok opts deps retention clock R H c \<longleftrightarrow>
     cl_now c \<le> clock \<and>
     (writing c \<longrightarrow> record_lock_key deps (call_key c) \<in> H) \<and>
     (committed c \<longrightarrow> (\<exists>t. cl_now c \<le> t \<and> t \<le> clock \<and>
        ((\<exists>t'. R (call_key c) = Some t' \<and> t \<le> t') \<or> t + retention \<le> clock))) \<and>
     (writing c \<or> committed c \<longrightarrow>
        replayWindowGap (g_windowMs (opts (cl_scope c))) (g_source (opts (cl_scope c))) = None \<and>
        replayStoreContractGap deps (Some (g_windowMs (opts (cl_scope c)))) = None) \<and>
     (cl_answer c = Some Recorded \<longrightarrow> cl_phase c = Settled (Some RowWritten)) \<and>
     (cl_answer c \<noteq> None \<longrightarrow> (\<exists>r. cl_phase c = Settled r))"

definition calls_apart :: "int \<Rightarrow> claim_call \<Rightarrow> claim_call \<Rightarrow> bool" where
  "calls_apart retention c d \<longleftrightarrow>
     (call_key c = call_key d \<longrightarrow>
        \<not> (writing c \<and> writing d) \<and>
        ((writing c \<or> committed c) \<and> (writing d \<or> committed d) \<longrightarrow>
           cl_now c + retention \<le> cl_now d \<or> cl_now d + retention \<le> cl_now c))"

definition claims_inv ::
    "(replay_scope \<Rightarrow> guard_opts) \<Rightarrow> 's replay_deps \<Rightarrow> int \<Rightarrow> ('s \<Rightarrow> lock_key set) \<Rightarrow> ('s \<Rightarrow> string \<Rightarrow> int option) \<Rightarrow>
     's claims_world \<Rightarrow> bool" where
  "claims_inv opts deps retention held rows w \<longleftrightarrow>
     (\<forall>k t. rows (cw_store w) k = Some t \<longrightarrow> t \<le> cw_clock w) \<and>
     (\<forall>p c. cw_calls w p = Some c \<longrightarrow>
        call_ok opts deps retention (cw_clock w) (rows (cw_store w)) (held (cw_store w)) c) \<and>
     (\<forall>p q c d. cw_calls w p = Some c \<and> cw_calls w q = Some d \<and> p \<noteq> q \<longrightarrow> calls_apart retention c d)"

lemma calls_apart_sym: "calls_apart R c d \<longleftrightarrow> calls_apart R d c"
  by (auto simp: calls_apart_def)

lemma claims_inv_change:
  assumes inv: "claims_inv opts deps R held rows w"
    and calls: "cw_calls w' = (cw_calls w)(p \<mapsto> c)"
    and ok: "call_ok opts deps R (cw_clock w') (rows (cw_store w')) (held (cw_store w')) c"
    and times: "\<And>k t. rows (cw_store w') k = Some t \<Longrightarrow> t \<le> cw_clock w'"
    and others: "\<And>q d. cw_calls w q = Some d \<Longrightarrow> q \<noteq> p \<Longrightarrow>
        call_ok opts deps R (cw_clock w) (rows (cw_store w)) (held (cw_store w)) d \<Longrightarrow>
        call_ok opts deps R (cw_clock w') (rows (cw_store w')) (held (cw_store w')) d \<and> calls_apart R c d"
  shows "claims_inv opts deps R held rows w'"
  unfolding claims_inv_def
proof (intro conjI allI impI)
  show "t \<le> cw_clock w'" if "rows (cw_store w') k = Some t" for k t using times [OF that] .
  have old: "call_ok opts deps R (cw_clock w) (rows (cw_store w)) (held (cw_store w)) d" if "cw_calls w q = Some d" for q d
    using inv that by (simp add: claims_inv_def)
  show "call_ok opts deps R (cw_clock w') (rows (cw_store w')) (held (cw_store w')) d"
    if "cw_calls w' q = Some d" for q d
    using that ok others [of q d] old [of q d] by (cases "q = p") (auto simp: calls)
  show "calls_apart R d e" if "cw_calls w' a = Some d \<and> cw_calls w' b = Some e \<and> a \<noteq> b" for a b d e
  proof -
    consider "a = p" "b \<noteq> p" | "b = p" "a \<noteq> p" | "a \<noteq> p" "b \<noteq> p" using \<open>_ \<and> _ \<and> a \<noteq> b\<close> by auto
    then show ?thesis
    proof cases
      case 1
      then show ?thesis using that others [of b e] old [of b e] by (auto simp: calls split: if_splits)
    next
      case 2
      then show ?thesis using that others [of a d] old [of a d] by (auto simp: calls calls_apart_sym split: if_splits)
    next
      case 3
      then show ?thesis using that inv by (auto simp: calls claims_inv_def)
    qed
  qed
qed

lemma claims_inv_store:
  assumes inv: "claims_inv opts deps R held rows w"
    and calls: "cw_calls w' = cw_calls w"
    and times: "\<And>k t. rows (cw_store w') k = Some t \<Longrightarrow> t \<le> cw_clock w'"
    and others: "\<And>d. call_ok opts deps R (cw_clock w) (rows (cw_store w)) (held (cw_store w)) d \<Longrightarrow>
        call_ok opts deps R (cw_clock w') (rows (cw_store w')) (held (cw_store w')) d"
  shows "claims_inv opts deps R held rows w'"
  using assms unfolding claims_inv_def by metis

lemma call_ok_mono:
  assumes ok: "call_ok opts deps R clock Rw H c" and "clock \<le> clock'"
    and lock: "writing c \<Longrightarrow> record_lock_key deps (call_key c) \<in> H'"
    and rows: "\<And>t. Rw (call_key c) = Some t \<Longrightarrow> (\<exists>t'. Rw' (call_key c) = Some t' \<and> t \<le> t') \<or> t + R \<le> clock'"
  shows "call_ok opts deps R clock' Rw' H' c"
proof -
  have "\<exists>t. cl_now c \<le> t \<and> t \<le> clock' \<and>
        ((\<exists>t'. Rw' (call_key c) = Some t' \<and> t \<le> t') \<or> t + R \<le> clock')" if "committed c"
  proof -
    obtain t where t: "cl_now c \<le> t" "t \<le> clock" "(\<exists>t'. Rw (call_key c) = Some t' \<and> t \<le> t') \<or> t + R \<le> clock"
      using ok \<open>committed c\<close> unfolding call_ok_def by blast
    have "(\<exists>t'. Rw' (call_key c) = Some t' \<and> t \<le> t') \<or> t + R \<le> clock'"
      using t(3)
    proof (elim disjE exE conjE)
      fix t' assume t': "Rw (call_key c) = Some t'" "t \<le> t'"
      from rows [OF t'(1)] show ?thesis
      proof (elim disjE exE conjE)
        fix u assume "Rw' (call_key c) = Some u" "t' \<le> u"
        then show ?thesis using t'(2) by (intro disjI1 exI [of _ u]) simp
      qed (use t'(2) in simp)
    qed (use assms(2) in simp)
    then show ?thesis using t(1,2) assms(2) by (intro exI [of _ t]) simp
  qed
  then show ?thesis using ok assms(2) lock unfolding call_ok_def by simp
qed

lemma call_ok_lock: "call_ok opts deps R clock Rw H c \<Longrightarrow> writing c \<Longrightarrow> record_lock_key deps (call_key c) \<in> H"
  by (simp add: call_ok_def)

text \<open>What the start of a claim does.\<close>

context replay_table
begin

lemma recordOnce_cases:
  assumes "recordOnce deps key s = (ph, s')"
  obtains (quiet) res where "ph = Settled res" "res \<noteq> Some RowWritten" "rows s' = rows s"
      "held s' = held s"
  | (writing) "ph = Writing" "rows s' = rows s" "rows s key = None"
      "record_lock_key deps key \<notin> held s" "held s' = insert (record_lock_key deps key) (held s)"
proof (cases "replayStoreContractGap deps None")
  case (Some g)
  then show ?thesis using assms quiet by (auto simp: recordOnce_def)
next
  case None
  let ?l = "record_lock_key deps key"
  let ?s = "snd (try_lock (rd_locks deps) ?l s)"
  note r = lock_rows [of ?l s]
  show ?thesis
  proof (cases rule: try_lock_cases [of ?l s])
    case 1
    have un: "held (unlock (rd_locks deps) ?l ?s) = held s" "rows (unlock (rd_locks deps) ?l ?s) = rows s"
      using 1 r by (simp_all add: unlock_held unlock_rows)
    from get_rows [of key ?s] show ?thesis
    proof
      assume "rd_getEntry deps key ?s = Inl ()"
      then show ?thesis using assms None 1 un quiet [of None]
        by (auto simp: recordOnce_def split: prod.splits)
    next
      assume g: "rd_getEntry deps key ?s = Inr (rows ?s key \<noteq> None)"
      show ?thesis
      proof (cases "rows s key")
        case None': None
        have "ph = Writing \<and> s' = ?s"
          using assms None 1 g None' r by (auto simp: recordOnce_def split: prod.splits)
        then show ?thesis using writing 1 r None' by auto
      next
        case (Some t)
        have "ph = Settled (Some RowPresent) \<and> s' = unlock (rd_locks deps) ?l ?s"
          using assms None 1 g Some r by (auto simp: recordOnce_def split: prod.splits)
        then show ?thesis using quiet [of "Some RowPresent"] un by auto
      qed
    qed
  next
    case 2
    have "ph = Settled (Some Contended) \<and> s' = ?s"
      using assms None 2 by (auto simp: recordOnce_def split: prod.splits)
    then show ?thesis using quiet [of "Some Contended"] 2 r by auto
  qed
qed

lemma guard_claim_cases:
  assumes "guard_claim g deps sc key s = (ph, s')"
  obtains (quiet) res where "ph = Settled res" "res \<noteq> Some RowWritten" "rows s' = rows s" "held s' = held s"
  | (writing) "ph = Writing" "rows s' = rows s" "rows s (full_key sc key) = None"
      "record_lock_key deps (full_key sc key) \<notin> held s"
      "held s' = insert (record_lock_key deps (full_key sc key)) (held s)"
      "replayWindowGap (g_windowMs g) (g_source g) = None" "replayStoreContractGap deps (Some (g_windowMs g)) = None"
proof (cases "replayWindowGap (g_windowMs g) (g_source g) = None \<and> replayStoreContractGap deps (Some (g_windowMs g)) = None")
  case False
  then have "ph = Settled None \<and> s' = s" using assms by (auto simp: guard_claim_def split: if_splits)
  then show ?thesis using quiet [of None] by simp
next
  case True
  then have "recordOnce deps (full_key sc key) s = (ph, s')" using assms by (simp add: guard_claim_def)
  then show ?thesis using True quiet writing by (cases rule: recordOnce_cases) auto
qed

lemma inv_times: "claims_inv opts deps R held rows w \<Longrightarrow> rows (cw_store w) k = Some t \<Longrightarrow> t \<le> cw_clock w"
  by (simp add: claims_inv_def)

lemma claims_inv_step:
  assumes step: "claim_step opts deps (\<lambda>s s' t. expires held rows R t s s') w w'"
    and inv: "claims_inv opts deps R held rows w"
  shows "claims_inv opts deps R held rows w'"
  using step
proof (cases rule: claim_step.cases)
  case (tick t)
  show ?thesis
  proof (rule claims_inv_store [OF inv])
    show "s \<le> cw_clock w'" if "rows (cw_store w') k = Some s" for k s
      using inv_times [OF inv, of k s] that tick by simp
    fix d assume d: "call_ok opts deps R (cw_clock w) (rows (cw_store w)) (held (cw_store w)) d"
    show "call_ok opts deps R (cw_clock w') (rows (cw_store w')) (held (cw_store w')) d"
      by (rule call_ok_mono [OF d]) (use tick call_ok_lock [OF d] in auto)
  qed (simp add: tick(1))
next
  case (expire s')
  then have x: "held s' = held (cw_store w)" "\<forall>k. rows s' k = rows (cw_store w) k \<or>
      (rows s' k = None \<and> (\<exists>t. rows (cw_store w) k = Some t \<and> t + R \<le> cw_clock w))"
    by (simp_all add: expires_def)
  have e: "rows s' k = Some t \<or> t + R \<le> cw_clock w" if "rows (cw_store w) k = Some t" for k t
    using x(2) [rule_format, of k] that by auto
  show ?thesis
  proof (rule claims_inv_store [OF inv])
    show "t \<le> cw_clock w'" if "rows (cw_store w') k = Some t" for k t
      using inv_times [OF inv, of k t] x(2) [rule_format, of k] that by (auto simp: expire(1))
    fix d assume d: "call_ok opts deps R (cw_clock w) (rows (cw_store w)) (held (cw_store w)) d"
    show "call_ok opts deps R (cw_clock w') (rows (cw_store w')) (held (cw_store w')) d"
      by (rule call_ok_mono [OF d]) (use e call_ok_lock [OF d] in \<open>auto simp: expire(1) x(1)\<close>)
  qed (simp add: expire(1))
next
  case (known sc key th b c)
  show ?thesis
    by (rule claims_inv_store [OF inv]) (simp_all add: known(1) with_cache_def inv_times [OF inv])
next
  case (start p sc key ph s' th)
  let ?c = "\<lparr>cl_thread = th, cl_scope = sc, cl_key = key, cl_now = cw_clock w, cl_done = None,
            cl_phase = ph, cl_answer = None\<rparr>"
  have k: "call_key ?c = full_key sc key" by (simp add: call_key_def)
  from start(3) show ?thesis
  proof (cases rule: guard_claim_cases)
    case (quiet res)
    then have q: "\<not> writing ?c" "\<not> committed ?c" by (simp_all add: writing_def committed_def)
    show ?thesis
      by (rule claims_inv_change [OF inv, where p = p and c = ?c])
         (use quiet q in \<open>auto simp: start(1) call_ok_def calls_apart_def inv_times [OF inv]\<close>)
  next
    case writing
    then have q: "writing ?c" "\<not> committed ?c" by (simp_all add: writing_def committed_def)
    show ?thesis
    proof (rule claims_inv_change [OF inv, where p = p and c = ?c])
      show "call_ok opts deps R (cw_clock w') (rows (cw_store w')) (held (cw_store w')) ?c"
        unfolding call_ok_def k using q writing(5-7) by (simp add: start(1))
      fix d assume d: "call_ok opts deps R (cw_clock w) (rows (cw_store w)) (held (cw_store w)) d"
      have "\<not> writing d" if "call_key ?c = call_key d"
        using call_ok_lock [OF d] that writing(4) unfolding k by metis
      moreover have "cl_now d + R \<le> cw_clock w" if "call_key ?c = call_key d" "committed d"
        using d that writing(3) unfolding call_ok_def k by force
      ultimately have "calls_apart R ?c d" by (auto simp: calls_apart_def)
      moreover have "call_ok opts deps R (cw_clock w') (rows (cw_store w')) (held (cw_store w')) d"
        by (rule call_ok_mono [OF d]) (use writing(2,5) call_ok_lock [OF d] in \<open>simp_all add: start(1)\<close>)
      ultimately show "call_ok opts deps R (cw_clock w') (rows (cw_store w')) (held (cw_store w')) d \<and>
          calls_apart R ?c d" by simp
    qed (simp_all add: start(1) writing(2) inv_times [OF inv])
  qed
next
  case (commit p c ph s')
  have st: "s' = snd (rd_commit deps (call_key c) (cl_now c) (cw_clock w) (cw_store w))"
    "ph = Written (fst (rd_commit deps (call_key c) (cl_now c) (cw_clock w) (cw_store w)))"
    using commit(4) by (auto simp: recordOnce_write_def split: prod.splits)
  let ?c = "c\<lparr>cl_phase := ph, cl_done := if ph = Written True then Some (cw_clock w) else None\<rparr>"
  have ok: "call_ok opts deps R (cw_clock w) (rows (cw_store w)) (held (cw_store w)) c"
    using inv commit(2) by (simp add: claims_inv_def)
  have h: "held s' = held (cw_store w)" by (simp add: st commit_held)
  have r: "rows s' = (rows (cw_store w))(call_key c \<mapsto> cw_clock w) \<or> ph \<noteq> Written True \<and> rows s' = rows (cw_store w)"
    using commit_rows [of "call_key c" "cl_now c" "cw_clock w" "cw_store w"] by (auto simp: st)
  have k: "call_key ?c = call_key c" by (simp add: call_key_def)
  have cw: "writing c" using commit(3) by (simp add: writing_def)
  have clk: "t \<le> cw_clock w" if "rows (cw_store w) k = Some t" for k t
    by (rule inv_times [OF inv that])
  show ?thesis
  proof (rule claims_inv_change [OF inv, where p = p and c = ?c])
    show "call_ok opts deps R (cw_clock w') (rows (cw_store w')) (held (cw_store w')) ?c"
      using ok cw h r commit(3) unfolding call_ok_def k
      by (auto simp: commit(1) committed_def st(2))
    fix q d assume d: "cw_calls w q = Some d" "q \<noteq> p"
      "call_ok opts deps R (cw_clock w) (rows (cw_store w)) (held (cw_store w)) d"
    have "calls_apart R c d" using inv commit(2) d(1,2) unfolding claims_inv_def by metis
    then have "calls_apart R ?c d" using cw by (simp add: calls_apart_def k)
    moreover have "call_ok opts deps R (cw_clock w') (rows (cw_store w')) (held (cw_store w')) d"
      by (rule call_ok_mono [OF d(3)]) (use r call_ok_lock [OF d(3)] clk in \<open>auto simp: commit(1) h\<close>)
    ultimately show "call_ok opts deps R (cw_clock w') (rows (cw_store w')) (held (cw_store w')) d \<and>
          calls_apart R ?c d" by simp
  qed (use r in \<open>auto simp: commit(1) inv_times [OF inv] split: if_splits\<close>)
next
  case (settle p c ok ph s')
  let ?c = "c\<lparr>cl_phase := ph\<rparr>"
  have ph: "ph = Settled (if ok then Some RowWritten else None)"
    "s' = unlock (rd_locks deps) (record_lock_key deps (call_key c)) (cw_store w)"
    using settle(4) by (auto simp: recordOnce_finish_def)
  have okc: "call_ok opts deps R (cw_clock w) (rows (cw_store w)) (held (cw_store w)) c"
    using inv settle(2) by (simp add: claims_inv_def)
  have k: "call_key ?c = call_key c" by (simp add: call_key_def)
  have cw: "writing c" "committed c = ok" using settle(3) by (simp_all add: writing_def committed_def)
  have nw: "\<not> writing ?c" "committed ?c = ok" using ph by (simp_all add: writing_def committed_def)
  have lk: "record_lock_key deps a = record_lock_key deps b \<longleftrightarrow> a = b" for a b
    by (simp add: record_lock_key_def)
  show ?thesis
  proof (rule claims_inv_change [OF inv, where p = p and c = ?c])
    show "call_ok opts deps R (cw_clock w') (rows (cw_store w')) (held (cw_store w')) ?c"
      using okc cw nw settle(3) unfolding call_ok_def k by (auto simp: settle(1) ph unlock_rows)
    fix q d assume d: "cw_calls w q = Some d" "q \<noteq> p"
      "call_ok opts deps R (cw_clock w) (rows (cw_store w)) (held (cw_store w)) d"
    have ap: "calls_apart R c d" using inv settle(2) d(1,2) unfolding claims_inv_def by metis
    then have "calls_apart R ?c d" using cw nw unfolding calls_apart_def k by auto
    moreover have "call_ok opts deps R (cw_clock w') (rows (cw_store w')) (held (cw_store w')) d"
      by (rule call_ok_mono [OF d(3)])
         (use call_ok_lock [OF d(3)] ap cw(1) in \<open>auto simp: settle(1) ph unlock_rows unlock_held lk calls_apart_def\<close>)
    ultimately show "call_ok opts deps R (cw_clock w') (rows (cw_store w')) (held (cw_store w')) d \<and>
          calls_apart R ?c d" by simp
  qed (simp_all add: settle(1) ph unlock_rows inv_times [OF inv])
next
  case (answer p c res a cache)
  let ?c = "c\<lparr>cl_answer := Some a\<rparr>"
  have okc: "call_ok opts deps R (cw_clock w) (rows (cw_store w)) (held (cw_store w)) c"
    using inv answer(2) by (simp add: claims_inv_def)
  have a: "a = Recorded \<Longrightarrow> res = Some RowWritten"
    using answer(5) by (auto simp: guard_answer_def split: option.splits record_outcome.splits)
  have k: "call_key ?c = call_key c" "writing ?c = writing c" "committed ?c = committed c"
    by (simp_all add: call_key_def writing_def committed_def)
  show ?thesis
  proof (rule claims_inv_change [OF inv, where p = p and c = ?c])
    show "call_ok opts deps R (cw_clock w') (rows (cw_store w')) (held (cw_store w')) ?c"
      using okc a answer(3) unfolding call_ok_def k by (auto simp: answer(1) with_cache_def)
    fix q d assume d: "cw_calls w q = Some d" "q \<noteq> p"
      "call_ok opts deps R (cw_clock w) (rows (cw_store w)) (held (cw_store w)) d"
    have "calls_apart R c d" using inv answer(2) d(1,2) unfolding claims_inv_def by metis
    then show "call_ok opts deps R (cw_clock w') (rows (cw_store w')) (held (cw_store w')) d \<and>
          calls_apart R ?c d" using d(3) unfolding calls_apart_def k by (simp add: answer(1) with_cache_def)
  qed (simp_all add: answer(1) with_cache_def inv_times [OF inv])
qed

lemma claims_inv_reachable:
  assumes "(claim_step opts deps (\<lambda>s s' t. expires held rows R t s s'))\<^sup>*\<^sup>* (claims_start t0 s0) w"
    and "\<forall>k t. rows s0 k = Some t \<longrightarrow> t \<le> t0"
  shows "claims_inv opts deps R held rows w"
  using assms(1)
proof (induction rule: rtranclp_induct)
  case base
  show ?case using assms(2) by (simp add: claims_inv_def claims_start_def)
next
  case (step w w')
  then show ?case using claims_inv_step by blast
qed

end

text \<open>A window that has no gap is shorter than half the time the table keeps a row.\<close>

definition keeps_rows :: "'s replay_deps \<Rightarrow> int \<Rightarrow> bool" where
  "keeps_rows deps retention \<longleftrightarrow>
     (case expirationMS deps of Num (Fin q) \<Rightarrow> 0 < q \<and> q \<le> of_int retention | _ \<Rightarrow> REPLAY_RETENTION_MS \<le> retention)"

lemma window_fits:
  assumes "replayWindowGap w src = None" "replayStoreContractGap deps (Some w) = None" "keeps_rows deps retention"
  obtains q where "w = Fin q" "2 * q < of_int retention"
proof -
  obtain q where q: "w = Fin q" "0 < q" "2 * q < of_int REPLAY_RETENTION_MS"
    using assms(1) by (cases w) (auto simp: replayWindowGap_def Let_def split: if_splits)
  have "\<not> keeps_at_most (expirationMS deps) (jadd w w)"
    using assms(2) by (auto simp: replayStoreContractGap_def split: if_splits option.splits)
  then have "2 * q < of_int retention"
    using assms(3) q unfolding keeps_rows_def keeps_at_most_def
    by (auto split: js.splits jnum.splits)
  then show ?thesis using that q(1) by blast
qed

text \<open>C9. A signed request is accepted at most once, instance-wide: in every interleaving of the
  claims of all threads with each other, with failing commits, with the clock and with the table's
  expiration, two claims of the same key that are both recorded are so far apart that no timestamp
  is within the guard's window at both. \<close>

theorem one_claim_per_window:
  assumes "replay_table deps held rows" "keeps_rows deps retention"
    and "(claim_step opts deps (\<lambda>s s' t. expires held rows retention t s s'))\<^sup>*\<^sup>* (claims_start t0 s0) w"
    and "\<forall>k t. rows s0 k = Some t \<longrightarrow> t \<le> t0"
    and "cw_calls w p = Some c" "cl_answer c = Some Recorded"
    and "cw_calls w q = Some d" "cl_answer d = Some Recorded" "p \<noteq> q"
    and "cl_scope d = cl_scope c" "cl_key d = cl_key c"
  shows "\<exists>win. g_windowMs (opts (cl_scope c)) = Fin win \<and>
           \<not> (\<bar>of_int (cl_now c - ts)\<bar> \<le> win \<and> \<bar>of_int (cl_now d - ts)\<bar> \<le> win)"
proof -
  note inv = replay_table.claims_inv_reachable [OF assms(1,3,4)]
  have c: "committed c" "committed d"
    using inv assms(5-8) by (auto simp: claims_inv_def call_ok_def committed_def)
  then have "replayWindowGap (g_windowMs (opts (cl_scope c))) (g_source (opts (cl_scope c))) = None"
    "replayStoreContractGap deps (Some (g_windowMs (opts (cl_scope c)))) = None"
    using inv assms(5) unfolding claims_inv_def call_ok_def by blast+
  then obtain win where win: "g_windowMs (opts (cl_scope c)) = Fin win" "2 * win < of_int retention"
    using window_fits [OF _ _ assms(2)] by metis
  have "calls_apart retention c d" using inv assms(5,7,9) unfolding claims_inv_def by blast
  then have "cl_now c + retention \<le> cl_now d \<or> cl_now d + retention \<le> cl_now c"
    using c assms(10,11) by (simp add: calls_apart_def call_key_def)
  then have "(of_int (cl_now c) + of_int retention :: rat) \<le> of_int (cl_now d) \<or>
      (of_int (cl_now d) + of_int retention :: rat) \<le> of_int (cl_now c)"
    by (metis of_int_add of_int_le_iff)
  then have "\<not> (\<bar>of_int (cl_now c - ts)\<bar> \<le> win \<and> \<bar>of_int (cl_now d - ts)\<bar> \<le> win)"
    using win(2) by (auto simp: abs_le_iff)
  then show ?thesis using win(1) by blast
qed

text \<open>A store that cannot be relied on refuses: with any gap in the store contract, the window
  or the retention, no claim touches the store and the answer is \<open>unavailable\<close>, and a claim whose
  read or commit fails is answered \<open>unavailable\<close> too, never \<open>recorded\<close>. \<close>

theorem unusable_store_refuses:
  "(replayWindowGap (g_windowMs g) (g_source g) \<noteq> None \<or>
      replayStoreContractGap deps (Some (g_windowMs g)) \<noteq> None \<longrightarrow> guard_claim g deps sc key s = (Settled None, s)) \<and>
   (storeRetentionGap (idJagReplayDeps deps) m ''an assertion can stay acceptable'' \<noteq> None \<longrightarrow>
      claimIdJagJti deps key m s = (Settled None, s)) \<and>
   (storeRetentionGap (oauthSingleUseDeps deps) m
        ''a redeemed authorization code or refresh token can be presented'' \<noteq> None \<longrightarrow>
      claimOAuthSingleUse deps kind key m s = (Settled None, s)) \<and>
   fst (recordOnce_finish deps key False s) = Settled None \<and>
   guard_answer g sc key now None cache = (ClaimUnavailable, cache) \<and> single_use_answer None = ClaimUnavailable \<and>
   claimAgentNonce ClaimUnavailable = NonceRefused ''replay_store_unavailable'' 503 \<and>
   (\<forall>res. fst (guard_answer g sc key now res cache) = Recorded \<longleftrightarrow> res = Some RowWritten)"
  by (auto simp: guard_claim_def claimIdJagJti_def claimOAuthSingleUse_def recordOnce_finish_def guard_answer_def Let_def
           split: option.splits record_outcome.splits)

text \<open>The early answer is sound: the memory of a thread only holds keys the store has confirmed.\<close>

lemma known_after_claim:
  assumes "fst (guard_knownReplay g sc key now (snd (guard_answer g sc' key' now' res cache)))"
    and "map_of (seen cache) (full_key sc key) = None"
  shows "full_key sc key = full_key sc' key' \<and> (res = Some RowWritten \<or> res = Some RowPresent)"
proof -
  have p: "map_of (seen (prune g t c)) k = None" if "map_of (seen c) k = None" for t c k
    using that by (auto simp: prune_def Let_def map_of_eq_None_iff)
  show ?thesis
    using assms p [of "snd (guard_answer g sc' key' now' res cache)" "full_key sc key" now]
      p [of cache "full_key sc key" now']
    by (cases "full_key sc key = full_key sc' key'")
       (auto simp: guard_knownReplay_def guard_answer_def Let_def update_conv'
             split: option.splits record_outcome.splits if_splits)
qed

section \<open>A run\<close>

definition demo_guard :: "replay_scope \<Rightarrow> guard_opts" where
  "demo_guard sc = \<lparr>g_windowMs = jint 30000, g_source = None, g_cacheLimit = 100000\<rparr>"

definition demo_call :: "int \<Rightarrow> claim_call" where
  "demo_call t = \<lparr>cl_thread = 0, cl_scope = AgentScope, cl_key = ''n'', cl_now = t, cl_done = Some t,
     cl_phase = Settled (Some RowWritten), cl_answer = Some Recorded\<rparr>"

abbreviation demo_step :: "memory_rows claims_world \<Rightarrow> memory_rows claims_world \<Rightarrow> bool" where
  "demo_step \<equiv> claim_step demo_guard memory_replay_deps
     (\<lambda>s s' t. expires (\<lambda>(h, r). set h) (\<lambda>(h, r). map_of r) REPLAY_RETENTION_MS t s s')"

lemma demo_gaps: "replayWindowGap (Fin 30000) None = None" "replayStoreContractGap memory_replay_deps None = None"
  "replayStoreContractGap memory_replay_deps (Some (Fin 30000)) = None"
  by (simp_all add: replayWindowGap_def replayStoreContractGap_def memory_replay_deps_def STORE_METHODS_def
       keeps_at_most_def REPLAY_RETENTION_MS_def REPLAY_RETENTION_S_def Let_def)

lemma demo_claim:
  assumes "cw_calls w p = None" "cw_store w = ([], [])" "full_key AgentScope ''n'' = k"
  shows "\<exists>caches. demo_step\<^sup>*\<^sup>* w (w\<lparr>cw_store := ([], [(k, cw_clock w)]), cw_caches := caches,
            cw_calls := (cw_calls w)(p \<mapsto> demo_call (cw_clock w))\<rparr>)"
proof -
  let ?l = "[REPLAY_LOCK_NAMESPACE, k]"
  let ?c0 = "\<lparr>cl_thread = 0, cl_scope = AgentScope, cl_key = ''n'', cl_now = cw_clock w, cl_done = None,
      cl_phase = Writing, cl_answer = None\<rparr>"
  let ?c1 = "?c0\<lparr>cl_phase := Written True, cl_done := Some (cw_clock w)\<rparr>"
  let ?c2 = "?c1\<lparr>cl_phase := Settled (Some RowWritten)\<rparr>"
  let ?w1 = "w\<lparr>cw_store := ([?l], []), cw_calls := (cw_calls w)(p \<mapsto> ?c0)\<rparr>"
  let ?w2 = "?w1\<lparr>cw_store := ([?l], [(k, cw_clock w)]), cw_calls := (cw_calls ?w1)(p \<mapsto> ?c1)\<rparr>"
  let ?w3 = "?w2\<lparr>cw_store := ([], [(k, cw_clock w)]), cw_calls := (cw_calls ?w2)(p \<mapsto> ?c2)\<rparr>"
  have "guard_claim (demo_guard AgentScope) memory_replay_deps AgentScope ''n'' (cw_store w) = (Writing, ([?l], []))"
    using assms(2,3)
    by (simp add: guard_claim_def demo_guard_def demo_gaps recordOnce_def record_lock_key_def)
       (simp add: memory_replay_deps_def)
  then have 1: "demo_step w ?w1" by (rule claim_step.start [OF assms(1)])
  have "demo_step ?w1 (?w1\<lparr>cw_store := ([?l], [(k, cw_clock w)]), cw_calls := (cw_calls ?w1)(p \<mapsto>
      ?c0\<lparr>cl_phase := Written True, cl_done := if Written True = Written True then Some (cw_clock ?w1) else None\<rparr>)\<rparr>)"
    by (rule claim_step.commit)
       (simp_all add: recordOnce_write_def call_key_def assms(3) memory_replay_deps_def)
  then have 2: "demo_step ?w1 ?w2" by simp
  have 3: "demo_step ?w2 ?w3"
    by (rule claim_step.settle [where ok = True])
       (simp_all add: recordOnce_finish_def call_key_def assms(3) record_lock_key_def, simp add: memory_replay_deps_def)
  obtain a cache where g: "guard_answer (demo_guard AgentScope) AgentScope ''n'' (cw_clock w) (Some RowWritten)
      (cw_caches ?w3 0 AgentScope) = (a, cache)" by (cases "guard_answer (demo_guard AgentScope) AgentScope ''n'' (cw_clock w)
      (Some RowWritten) (cw_caches ?w3 0 AgentScope)") 
  then have a: "a = Recorded" by (simp add: guard_answer_def)
  have "demo_step ?w3 ((with_cache (cl_thread ?c2) (cl_scope ?c2) cache ?w3)
      \<lparr>cw_calls := (cw_calls ?w3)(p \<mapsto> ?c2\<lparr>cl_answer := Some a\<rparr>)\<rparr>)"
    by (rule claim_step.answer [where res = "Some RowWritten"]) (use g in simp_all)
  then have "demo_step ?w3 (w\<lparr>cw_store := ([], [(k, cw_clock w)]),
      cw_caches := (cw_caches w)(0 := (cw_caches w 0)(AgentScope := cache)),
      cw_calls := (cw_calls w)(p \<mapsto> demo_call (cw_clock w))\<rparr>)"
    by (simp add: with_cache_def demo_call_def a)
  with 1 2 3 show ?thesis by (meson converse_rtranclp_into_rtranclp rtranclp.rtrancl_refl)
qed

lemma one_claim_per_window_witness:
  "\<not> (\<bar>of_int (0 - 60000 :: int)\<bar> \<le> (30000 :: rat) \<and> \<bar>of_int (120000 - 60000 :: int)\<bar> \<le> (30000 :: rat))"
proof -
  let ?k = "full_key AgentScope ''n''"
  let ?w0 = "claims_start 0 ([], []) :: memory_rows claims_world"
  obtain ca where 1: "demo_step\<^sup>*\<^sup>* ?w0 (?w0\<lparr>cw_store := ([], [(?k, 0)]), cw_caches := ca,
      cw_calls := (cw_calls ?w0)(0 \<mapsto> demo_call 0)\<rparr>)"
    using demo_claim [of ?w0 0, OF _ _ refl] by (auto simp: claims_start_def)
  let ?w1 = "?w0\<lparr>cw_store := ([], [(?k, 0)]), cw_caches := ca, cw_calls := (cw_calls ?w0)(0 \<mapsto> demo_call 0)\<rparr>"
  let ?w2 = "?w1\<lparr>cw_clock := 120000\<rparr>"
  let ?w3 = "?w2\<lparr>cw_store := ([], [])\<rparr>"
  have 2: "demo_step ?w1 ?w2" by (rule claim_step.tick) (simp add: claims_start_def)
  have 3: "demo_step ?w2 ?w3"
    by (rule claim_step.expire)
       (simp add: expires_def REPLAY_RETENTION_MS_def REPLAY_RETENTION_S_def)
  obtain cb where 4: "demo_step\<^sup>*\<^sup>* ?w3 (?w3\<lparr>cw_store := ([], [(?k, 120000)]), cw_caches := cb,
      cw_calls := (cw_calls ?w3)(1 \<mapsto> demo_call 120000)\<rparr>)"
    using demo_claim [of ?w3 1, OF _ _ refl] by (auto simp: claims_start_def)
  let ?w4 = "?w3\<lparr>cw_store := ([], [(?k, 120000)]), cw_caches := cb,
      cw_calls := (cw_calls ?w3)(1 \<mapsto> demo_call 120000)\<rparr>"
  have r: "demo_step\<^sup>*\<^sup>* ?w0 ?w4"
    by (rule rtranclp_trans [OF rtranclp_trans [OF 1] 4]) (use 2 3 in \<open>meson rtranclp.rtrancl_into_rtrancl rtranclp.rtrancl_refl\<close>)
  have "\<exists>win. g_windowMs (demo_guard (cl_scope (demo_call 0))) = Fin win \<and>
      \<not> (\<bar>of_int (cl_now (demo_call 0) - 60000)\<bar> \<le> win \<and> \<bar>of_int (cl_now (demo_call 120000) - 60000)\<bar> \<le> win)"
    by (rule one_claim_per_window [where p = 0 and q = 1, OF memory_replay.replay_table_axioms _ r])
       (simp_all add: keeps_rows_def memory_replay_deps_def claims_start_def demo_call_def
         REPLAY_RETENTION_MS_def REPLAY_RETENTION_S_def)
  then show ?thesis by (simp add: demo_guard_def demo_call_def)
qed

lemma unusable_store_refuses_witness:
  "guard_claim \<lparr>g_windowMs = jint 60000, g_source = Some ''FLAIR_AGENT_AUTH_WINDOW_MS'', g_cacheLimit = 10\<rparr>
     memory_replay_deps AgentScope ''n'' ([], []) = (Settled None, ([], []))"
  using unusable_store_refuses [of "\<lparr>g_windowMs = jint 60000, g_source = Some ''FLAIR_AGENT_AUTH_WINDOW_MS'', g_cacheLimit = 10\<rparr>"
      memory_replay_deps AgentScope "''n''" "([], [])"]
  by (simp add: replayWindowGap_def REPLAY_RETENTION_MS_def REPLAY_RETENTION_S_def Let_def)

end
