(* ===== verification/Bm25.thy ===== *)
theory Bm25
  imports FlairPrelude "HOL-Library.Multiset"
begin

text \<open>
  Lexical retrieval: \<open>resources/bm25.ts\<close> (tokenizer, BM25 scoring of a corpus, rank fusion) and
  \<open>resources/bm25-filter.ts\<close> (the condition and time filters of a candidate).

  Scores are numbers of an ordered field, computed in the order of the code; \<open>Math.log\<close> is the
  argument \<open>mlog\<close>. Dates are given by the two functions of \<open>dates\<close>, \<open>Date.parse\<close> and
  \<open>new Date(..)\<close>, with \<open>None\<close> for an invalid date.
\<close>

section \<open>Mode and parameters\<close>

definition RETRIEVAL_MODES :: "string list" where
  "RETRIEVAL_MODES = [''hybrid'', ''vector-only'', ''bm25-only'']"

definition retrievalMode :: "(string \<Rightarrow> string option) \<Rightarrow> string + string" where
  "retrievalMode env =
     (case env ''FLAIR_RETRIEVAL_MODE'' of
        Some raw \<Rightarrow>
          let v = js_lower raw in
          if v \<in> set RETRIEVAL_MODES then Inr v
          else Inl (''unknown FLAIR_RETRIEVAL_MODE value \"'' @ raw @ ''\" (accepted: '' @
                    join_with '', '' RETRIEVAL_MODES @ '')'')
      | None \<Rightarrow>
          let legacy = js_lower (case env ''FLAIR_HYBRID_RETRIEVAL'' of None \<Rightarrow> ''true'' | Some s \<Rightarrow> s) in
          Inr (if legacy = ''true'' \<or> legacy = ''1'' \<or> legacy = ''on'' then ''hybrid'' else ''vector-only''))"

definition BM25_K1 :: "'f::linordered_field" where "BM25_K1 = 12 / 10"
definition BM25_B :: "'f::linordered_field" where "BM25_B = 75 / 100"
definition RRF_K :: nat where "RRF_K = 60"
definition SEM_LIMIT :: nat where "SEM_LIMIT = 50"

section \<open>Tokens\<close>

definition STOP :: "string list" where
  "STOP = split_on CHR '' '' (concat
     [''a an the and or but of to in on at for with from by as is are was were be been being '',
      ''this that these those it its do does did so if then than when how what why who whom which while '',
      ''i you he she we they them his her our your their not no yes can will would should could may might '',
      ''have has had get got into out over under again about up down off all any each''])"

definition is_token_char :: "char \<Rightarrow> bool" where
  "is_token_char c \<longleftrightarrow> (97 \<le> code c \<and> code c \<le> 122) \<or> (48 \<le> code c \<and> code c \<le> 57)"

text \<open>\<open>s.match(/[a-z0-9]+/g)\<close>: the maximal runs.\<close>

fun token_runs :: "string \<Rightarrow> string \<Rightarrow> string list" where
  "token_runs acc [] = (if acc = [] then [] else [rev acc])"
| "token_runs acc (c # cs) =
     (if is_token_char c then token_runs (c # acc) cs
      else if acc = [] then token_runs [] cs else rev acc # token_runs [] cs)"

definition tokenize :: "string \<Rightarrow> string list" where
  "tokenize text = filter (\<lambda>t. 1 < length t \<and> t \<notin> set STOP) (token_runs [] (js_lower text))"

text \<open>\<open>[...new Set(xs)]\<close>: first occurrences, in order.\<close>

definition js_set :: "'a list \<Rightarrow> 'a list" where
  "js_set xs = rev (remdups (rev xs))"

text \<open>A map from terms to their counts, in insertion order.\<close>

definition inc_count :: "string \<Rightarrow> (string \<times> nat) list \<Rightarrow> (string \<times> nat) list" where
  "inc_count t m = AList.update t ((case map_of m t of None \<Rightarrow> 0 | Some n \<Rightarrow> n) + 1) m"

definition term_counts :: "string list \<Rightarrow> (string \<times> nat) list" where
  "term_counts toks = fold inc_count toks []"

section \<open>BM25 over a corpus\<close>

record bm25_doc =
  doc_id :: string
  doc_content :: string

definition idf_of :: "('f::linordered_field \<Rightarrow> 'f) \<Rightarrow> int \<Rightarrow> nat \<Rightarrow> 'f" where
  "idf_of mlog N n = mlog (1 + (of_int N - of_nat n + 1 / 2) / (of_nat n + 1 / 2))"

definition term_weight :: "'f::linordered_field \<Rightarrow> nat \<Rightarrow> nat \<Rightarrow> 'f \<Rightarrow> 'f" where
  "term_weight idf f dl lengthNorm =
     (let numer = of_nat f * (BM25_K1 + 1);
          denom = of_nat f + BM25_K1 * (1 - BM25_B + BM25_B * (of_nat dl / lengthNorm)) in
      idf * (numer / denom))"

definition or_one :: "'f::linordered_field \<Rightarrow> 'f" where
  "or_one x = (if x = 0 then 1 else x)"

text \<open>\<open>(a, b) => (b.score - a.score) || (a.id < b.id ? -1 : a.id > b.id ? 1 : 0)\<close> is not positive.\<close>

definition score_le :: "string \<times> 'f::linorder \<Rightarrow> string \<times> 'f \<Rightarrow> bool" where
  "score_le a b \<longleftrightarrow> snd b < snd a \<or> (snd b = snd a \<and> fst a \<le> fst b)"

definition buildBM25_rank :: "('f::linordered_field \<Rightarrow> 'f) \<Rightarrow> bm25_doc list \<Rightarrow> string \<Rightarrow> (string \<times> 'f) list" where
  "buildBM25_rank mlog docs query =
     (let N = length docs;
          docTokens = map (\<lambda>d. tokenize (doc_content d)) docs;
          docLen = map length docTokens;
          avgdl = of_nat (sum_list docLen) / of_nat (if N = 0 then 1 else N);
          tfPerDoc = map term_counts docTokens;
          df = fold (\<lambda>tf df. fold inc_count (map fst tf) df) tfPerDoc [];
          idf = map (\<lambda>(term, n). (term, idf_of mlog (int N) n)) df;
          qToks = js_set (tokenize query);
          scored = map (\<lambda>i.
            (doc_id (docs ! i),
             fold (\<lambda>term s.
               (case map_of (tfPerDoc ! i) term of
                  None \<Rightarrow> s
                | Some f \<Rightarrow> if f = 0 then s
                    else s + term_weight (case map_of idf term of None \<Rightarrow> 0 | Some v \<Rightarrow> v) f (docLen ! i) (or_one avgdl)))
               qToks 0)) [0..<N] in
      sort_by score_le scored)"

section \<open>Rank fusion\<close>

fun rrf_list :: "nat \<Rightarrow> string list \<Rightarrow> (string \<times> 'f::linordered_field) list \<Rightarrow> (string \<times> 'f) list" where
  "rrf_list idx [] score = score"
| "rrf_list idx (i # is) score =
     (case map_of score i of
        None \<Rightarrow> rrf_list (idx + 1) is score
      | Some v \<Rightarrow> rrf_list (idx + 1) is (AList.update i (v + 1 / of_nat (RRF_K + idx + 1)) score))"

definition rrfScores :: "string list list \<Rightarrow> string list \<Rightarrow> (string \<times> 'f::linordered_field) list" where
  "rrfScores rankings universe =
     fold (\<lambda>lst score. rrf_list 0 lst score) rankings
       (fold (\<lambda>i score. AList.update i 0 score) universe [])"

definition fuseRrfNormalized :: "string list \<Rightarrow> string list \<Rightarrow> (string \<times> 'f::linordered_field) list" where
  "fuseRrfNormalized semIds bm25Ids =
     (let union = js_set (semIds @ bm25Ids);
          raw = rrfScores [semIds, bm25Ids] union;
          maxRrf = fold (\<lambda>(_, v) m. if m < v then v else m) raw 0 in
      if maxRrf \<le> 0 then fold (\<lambda>(i, _) norm. AList.update i 0 norm) raw []
      else fold (\<lambda>(i, v) norm. AList.update i (v / maxRrf) norm) raw [])"

section \<open>The candidate filter\<close>

datatype condition =
    Leaf (c_attribute: js) (c_comparator: string) (c_value: js)
  | Group (c_operator: string) (c_conditions: "condition list")

text \<open>\<open>xs.includes(v)\<close>\<close>

definition js_includes :: "js list \<Rightarrow> js \<Rightarrow> bool" where
  "js_includes xs v \<longleftrightarrow> (\<exists>x \<in> set xs. strict_eq x v \<or> (x = Num NaN \<and> v = Num NaN))"

definition matchLeaf :: "js \<Rightarrow> string \<Rightarrow> js \<Rightarrow> jobj \<Rightarrow> bool" where
  "matchLeaf attribute comparator value rec =
     (let actual = getp rec (js_String attribute) in
      if comparator = ''equals''
      then (case actual of Arr xs \<Rightarrow> js_includes xs value | _ \<Rightarrow> strict_eq actual value)
      else if comparator = ''not_equal''
      then (case actual of Arr xs \<Rightarrow> \<not> js_includes xs value | _ \<Rightarrow> \<not> strict_eq actual value)
      else False)"

fun matchCondition :: "condition \<Rightarrow> jobj \<Rightarrow> bool" where
  "matchCondition (Group op cs) rec =
     (let results = map (\<lambda>c. matchCondition c rec) cs in
      if op = ''or'' then list_ex (\<lambda>b. b) results else list_all (\<lambda>b. b) results)"
| "matchCondition (Leaf a cmp v) rec = matchLeaf a cmp v rec"

fun matchesConditions :: "condition list \<Rightarrow> jobj \<Rightarrow> bool" where
  "matchesConditions [] rec = True"
| "matchesConditions (c # cs) rec = (if \<not> matchCondition c rec then False else matchesConditions cs rec)"

record dates =
  date_parse :: "js \<Rightarrow> int option"
  new_date :: "js \<Rightarrow> int option"

record time_filters =
  sinceDate :: "int option option"
  asOf :: "string option"

definition date_before :: "int option \<Rightarrow> int option \<Rightarrow> bool" where
  "date_before a b = (case (a, b) of (Some x, Some y) \<Rightarrow> x < y | _ \<Rightarrow> False)"

text \<open>\<open>v > s\<close> and \<open>v <= s\<close> for a string \<open>s\<close>.\<close>

definition js_gt_string :: "js \<Rightarrow> string \<Rightarrow> bool" where
  "js_gt_string v s =
     (case v of Num n \<Rightarrow> jlt (js_Number s) n
      | Bool b \<Rightarrow> jlt (js_Number s) (Fin (if b then 1 else 0))
      | Null \<Rightarrow> jlt (js_Number s) (Fin 0) | Undef \<Rightarrow> False
      | _ \<Rightarrow> s < js_String v)"

definition js_le_string :: "js \<Rightarrow> string \<Rightarrow> bool" where
  "js_le_string v s =
     (case v of Num n \<Rightarrow> jle n (js_Number s)
      | Bool b \<Rightarrow> jle (Fin (if b then 1 else 0)) (js_Number s)
      | Null \<Rightarrow> jle (Fin 0) (js_Number s) | Undef \<Rightarrow> False
      | _ \<Rightarrow> js_String v \<le> s)"

definition passesRecordFilters :: "dates \<Rightarrow> jobj \<Rightarrow> time_filters \<Rightarrow> int \<Rightarrow> bool" where
  "passesRecordFilters D rec f now =
     (if truthy (getp rec ''expiresAt'') \<and> date_before (date_parse D (getp rec ''expiresAt'')) (Some now) then False
      else if (case sinceDate f of None \<Rightarrow> False
               | Some d \<Rightarrow> truthy (getp rec ''createdAt'') \<and> date_before (new_date D (getp rec ''createdAt'')) d) then False
      else if (case asOf f of None \<Rightarrow> False
               | Some a \<Rightarrow> a \<noteq> [] \<and> truthy (getp rec ''validFrom'') \<and> js_gt_string (getp rec ''validFrom'') a) then False
      else if (case asOf f of None \<Rightarrow> False
               | Some a \<Rightarrow> a \<noteq> [] \<and> truthy (getp rec ''validTo'') \<and> js_le_string (getp rec ''validTo'') a) then False
      else if truthy (getp rec ''validTo'') \<and> date_before (date_parse D (getp rec ''validTo'')) (Some now) then False
      else True)"

definition isAllowedBm25Candidate :: "dates \<Rightarrow> jobj \<Rightarrow> condition list \<Rightarrow> time_filters \<Rightarrow> int \<Rightarrow> bool" where
  "isAllowedBm25Candidate D rec conditions f now \<longleftrightarrow>
     matchesConditions conditions rec \<and> passesRecordFilters D rec f now"

text \<open>
  The corpus-scan leg of \<open>retrieveCandidates\<close> in \<open>resources/semantic-retrieval-core.ts\<close>: filter the rows,
  score what is left, keep the positive scores and the first \<open>limit\<close> of them.
\<close>

definition content_of :: "jobj \<Rightarrow> string" where
  "content_of rec = (case getp rec ''content'' of Str s \<Rightarrow> s | _ \<Rightarrow> [])"

definition id_of :: "jobj \<Rightarrow> string" where
  "id_of rec = (case getp rec ''id'' of Str s \<Rightarrow> s | _ \<Rightarrow> [])"

definition scan_leg ::
    "('f::linordered_field \<Rightarrow> 'f) \<Rightarrow> dates \<Rightarrow> condition list \<Rightarrow> time_filters \<Rightarrow> (jobj \<Rightarrow> bool) \<Rightarrow> int \<Rightarrow>
     nat \<Rightarrow> string \<Rightarrow> jobj list \<Rightarrow> string list" where
  "scan_leg mlog D conditions f allowed now limit q rows =
     (let docs = map (\<lambda>r. \<lparr>doc_id = id_of r, doc_content = content_of r\<rparr>)
            (filter (\<lambda>r. isAllowedBm25Candidate D r conditions f now \<and> allowed r) rows) in
      map fst (take limit (filter (\<lambda>r. 0 < snd r) (buildBM25_rank mlog docs q))))"

section \<open>Closed forms\<close>

lemma count_list_snoc [simp]: "count_list (xs @ [y]) t = count_list xs t + (if y = t then 1 else 0)"
  by (induction xs) auto

lemma term_counts_snoc: "term_counts (toks @ [t]) = inc_count t (term_counts toks)"
  by (simp add: term_counts_def)

lemma map_of_inc_count:
  "map_of (inc_count k m) t = (if t = k then Some ((case map_of m k of None \<Rightarrow> 0 | Some n \<Rightarrow> n) + 1) else map_of m t)"
  by (simp add: inc_count_def update_conv')

lemma inc_count_keys [simp]: "distinct (map fst m) \<Longrightarrow> distinct (map fst (inc_count k m))"
  "fst ` set (inc_count k m) = insert k (fst ` set m)"
  by (simp_all add: inc_count_def)

lemma map_of_term_counts:
  "map_of (term_counts toks) t = (if t \<in> set toks then Some (count_list toks t) else None)"
proof (induction toks rule: rev_induct)
  case Nil
  show ?case by (simp add: term_counts_def)
next
  case (snoc x toks)
  then show ?case by (auto simp: term_counts_snoc map_of_inc_count)
qed

lemma distinct_term_counts: "distinct (map fst (term_counts toks))"
  by (induction toks rule: rev_induct) (simp_all add: term_counts_snoc, simp add: term_counts_def)

lemma set_term_counts: "fst ` set (term_counts toks) = set toks"
  by (induction toks rule: rev_induct) (simp_all add: term_counts_snoc, simp add: term_counts_def)

lemma term_counts_pair: "(t, f) \<in> set (term_counts toks) \<longleftrightarrow> t \<in> set toks \<and> f = count_list toks t"
  using map_of_term_counts [of toks t] distinct_term_counts [of toks]
  by (metis map_of_SomeD map_of_eq_Some_iff option.inject option.distinct(1))

text \<open>Counting one key more for every element of a list without repetitions.\<close>

lemma inc_counts:
  "distinct ks \<Longrightarrow> map_of (fold inc_count ks m) t =
    (if t \<in> set ks then Some ((case map_of m t of None \<Rightarrow> 0 | Some n \<Rightarrow> n) + 1) else map_of m t)"
  by (induction ks arbitrary: m) (auto simp: map_of_inc_count)

definition doc_freq :: "string list list \<Rightarrow> string \<Rightarrow> nat" where
  "doc_freq tokss t = length (filter (\<lambda>toks. t \<in> set toks) tokss)"

lemma doc_freq_simps [simp]: "doc_freq [] t = 0"
  "doc_freq (toks # tokss) t = (if t \<in> set toks then 1 else 0) + doc_freq tokss t"
  by (simp_all add: doc_freq_def)

lemma df_fold:
  "map_of (fold (\<lambda>tf df. fold inc_count (map fst tf) df) (map term_counts tokss) m) t =
   (if doc_freq tokss t = 0 then map_of m t
    else Some ((case map_of m t of None \<Rightarrow> 0 | Some n \<Rightarrow> n) + doc_freq tokss t))"
proof (induction tokss arbitrary: m)
  case (Cons toks tokss)
  have "map_of (fold inc_count (map fst (term_counts toks)) m) t =
     (if t \<in> set toks then Some ((case map_of m t of None \<Rightarrow> 0 | Some n \<Rightarrow> n) + 1) else map_of m t)"
    using inc_counts [OF distinct_term_counts, of toks m t] by (simp add: set_term_counts)
  then show ?case
    using Cons [of "fold inc_count (map fst (term_counts toks)) m"] by simp
qed simp

definition doc_score ::
    "('f::linordered_field \<Rightarrow> 'f) \<Rightarrow> int \<Rightarrow> (string \<Rightarrow> nat) \<Rightarrow> 'f \<Rightarrow> string list \<Rightarrow> string list \<Rightarrow> 'f" where
  "doc_score mlog N df lengthNorm qToks toks =
     fold (\<lambda>term s. if term \<in> set toks
        then s + term_weight (idf_of mlog N (df term)) (count_list toks term) (length toks) lengthNorm else s) qToks 0"

lemma count_list_pos: "t \<in> set toks \<Longrightarrow> count_list toks t \<noteq> 0"
  by (induction toks) auto

lemma fold_cong_all: "(\<And>x a. x \<in> set xs \<Longrightarrow> f x a = g x a) \<Longrightarrow> fold f xs a = fold g xs a"
  by (induction xs arbitrary: a) auto

lemma map_of_map_snd: "map_of (map (\<lambda>(k, v). (k, h k v)) m) t = map_option (h t) (map_of m t)"
  by (induction m) auto

lemma buildBM25_rank_eq:
  "buildBM25_rank mlog docs q =
     (let tokss = map (\<lambda>d. tokenize (doc_content d)) docs;
          N = length docs; avgdl = of_nat (sum_list (map length tokss)) / of_nat (if N = 0 then 1 else N) in
      sort_by score_le (map (\<lambda>d. (doc_id d,
        doc_score mlog (int N) (doc_freq tokss) (or_one avgdl) (js_set (tokenize q)) (tokenize (doc_content d)))) docs))"
proof -
  let ?tokss = "map (\<lambda>d. tokenize (doc_content d)) docs"
  let ?N = "length docs"
  let ?avg = "of_nat (sum_list (map length ?tokss)) / of_nat (if ?N = 0 then 1 else ?N)"
  let ?df = "fold (\<lambda>tf df. fold inc_count (map fst tf) df) (map term_counts ?tokss) []"
  let ?idf = "map (\<lambda>(term, n). (term, idf_of mlog (int ?N) n)) ?df"
  have idf: "map_of ?idf t = Some (idf_of mlog (int ?N) (doc_freq ?tokss t))" if "t \<in> set toks" "toks \<in> set ?tokss" for t toks
  proof -
    have "doc_freq ?tokss t \<noteq> 0" using that by (auto simp: doc_freq_def filter_empty_conv)
    then have "map_of ?df t = Some (doc_freq ?tokss t)" by (subst df_fold) simp
    then show ?thesis by (simp add: map_of_map_snd [of "\<lambda>k n. idf_of mlog (int ?N) n"])
  qed
  have one: "(doc_id (docs ! i),
             fold (\<lambda>term s.
               (case map_of (map term_counts ?tokss ! i) term of
                  None \<Rightarrow> s
                | Some f \<Rightarrow> if f = 0 then s
                    else s + term_weight (case map_of ?idf term of None \<Rightarrow> 0 | Some v \<Rightarrow> v) f (map length ?tokss ! i) (or_one ?avg)))
               (js_set (tokenize q)) 0) =
      (\<lambda>d. (doc_id d, doc_score mlog (int ?N) (doc_freq ?tokss) (or_one ?avg) (js_set (tokenize q))
            (tokenize (doc_content d)))) (docs ! i)" if i: "i < ?N" for i
  proof -
    let ?toks = "tokenize (doc_content (docs ! i))"
    have m: "?toks \<in> set ?tokss" using i by simp
    have tf: "map term_counts ?tokss ! i = term_counts ?toks" "map length ?tokss ! i = length ?toks"
      using i by simp_all
    show ?thesis
      unfolding doc_score_def tf
      by (simp only: prod.inject simp_thms, rule fold_cong_all)
         (use idf [OF _ m] in \<open>simp add: map_of_term_counts count_list_pos del: map_map\<close>)
  qed
  have "map (\<lambda>i. (doc_id (docs ! i),
             fold (\<lambda>term s.
               (case map_of (map term_counts ?tokss ! i) term of
                  None \<Rightarrow> s
                | Some f \<Rightarrow> if f = 0 then s
                    else s + term_weight (case map_of ?idf term of None \<Rightarrow> 0 | Some v \<Rightarrow> v) f (map length ?tokss ! i) (or_one ?avg)))
               (js_set (tokenize q)) 0)) [0..<?N] =
      map (\<lambda>i. (\<lambda>d. (doc_id d, doc_score mlog (int ?N) (doc_freq ?tokss) (or_one ?avg) (js_set (tokenize q))
            (tokenize (doc_content d)))) (docs ! i)) [0..<?N]"
    using one by (intro map_cong) auto
  also have "\<dots> = map (\<lambda>d. (doc_id d, doc_score mlog (int ?N) (doc_freq ?tokss) (or_one ?avg) (js_set (tokenize q))
            (tokenize (doc_content d)))) docs"
    using map_nth [of docs] by (metis (no_types, lifting) map_map comp_apply map_cong)
  finally show ?thesis unfolding buildBM25_rank_def Let_def by simp
qed

section \<open>The order of a ranking\<close>

lemma score_le_total: "score_le a b \<or> score_le b a"
  by (auto simp: score_le_def)

lemma score_le_trans: "score_le a b \<Longrightarrow> score_le b c \<Longrightarrow> score_le a c"
  by (auto simp: score_le_def)

lemma score_le_antisym: "score_le a b \<Longrightarrow> score_le b a \<Longrightarrow> a = b"
  by (auto simp: score_le_def prod_eq_iff)

lemma mset_insert_by [simp]: "mset (insert_by le x ys) = add_mset x (mset ys)"
  by (induction ys) auto

lemma mset_sort_by [simp]: "mset (sort_by le xs) = mset xs"
  by (induction xs) (auto simp: sort_by_def)

lemma sorted_sort_by:
  assumes "\<And>a b. le a b \<or> le b a" "\<And>a b c. le a b \<Longrightarrow> le b c \<Longrightarrow> le a c"
  shows "sorted_wrt le (sort_by le xs)"
proof -
  have "sorted_wrt le (insert_by le x ys)" if "sorted_wrt le ys" for x ys
    using that
  proof (induction ys)
    case (Cons y ys)
    then have y: "\<forall>z \<in> set ys. le y z" "sorted_wrt le (insert_by le x ys)" by simp_all
    show ?case
    proof (cases "le x y")
      case True
      then have "\<forall>z \<in> set ys. le x z" using y(1) assms(2) by blast
      then show ?thesis using True Cons.prems by simp
    next
      case False
      then have "le y x" using assms(1) by blast
      then show ?thesis using False y by simp
    qed
  qed simp
  then show ?thesis by (induction xs) (auto simp: sort_by_def)
qed

lemma sorted_unique:
  assumes "\<And>a b. le a b \<Longrightarrow> le b a \<Longrightarrow> a = b" "sorted_wrt le xs" "sorted_wrt le ys" "mset xs = mset ys"
  shows "xs = ys"
  using assms(2-4)
proof (induction xs arbitrary: ys)
  case (Cons x xs)
  then obtain y zs where ys: "ys = y # zs" by (cases ys) auto
  have "x = y"
  proof (rule ccontr)
    assume "x \<noteq> y"
    have "x \<in> set ys" "y \<in> set (x # xs)" using Cons.prems(3) ys by (metis list.set_intros(1) set_mset_mset)+
    then have "x \<in> set zs" "y \<in> set xs" using \<open>x \<noteq> y\<close> ys by auto
    then have "le y x" "le x y" using Cons.prems(1,2) ys by auto
    then show False using assms(1) \<open>x \<noteq> y\<close> by blast
  qed
  then show ?case using Cons ys by auto
qed simp

lemma sorted_score: "sorted_wrt score_le (sort_by score_le xs)"
  by (rule sorted_sort_by [OF score_le_total score_le_trans])

lemma sort_by_score_unique:
  assumes "mset xs = mset ys"
  shows "sort_by score_le xs = sort_by score_le ys"
  by (rule sorted_unique [OF score_le_antisym sorted_score sorted_score]) (simp_all add: assms)

lemma filter_sort_by_score: "filter P (sort_by score_le xs) = sort_by score_le (filter P xs)"
  by (rule sorted_unique [OF score_le_antisym _ sorted_score])
     (simp_all add: sorted_wrt_filter [OF sorted_score])

lemma set_js_set [simp]: "set (js_set xs) = set xs" and distinct_js_set [simp]: "distinct (js_set xs)"
  by (simp_all add: js_set_def)

section \<open>Properties of the fusion\<close>

fun rrf_gain :: "nat \<Rightarrow> string list \<Rightarrow> string \<Rightarrow> 'f::linordered_field" where
  "rrf_gain idx [] i = 0"
| "rrf_gain idx (x # xs) i = (if x = i then 1 / of_nat (RRF_K + idx + 1) else 0) + rrf_gain (idx + 1) xs i"

lemma rrf_gain_nonneg: "0 \<le> (rrf_gain idx xs i :: 'f::linordered_field)"
  by (induction xs arbitrary: idx) (auto intro!: add_nonneg_nonneg)

lemma rrf_gain_pos: "i \<in> set xs \<Longrightarrow> 0 < (rrf_gain idx xs i :: 'f::linordered_field)"
proof (induction xs arbitrary: idx)
  case (Cons x xs)
  show ?case
  proof (cases "x = i")
    case True
    have "0 < (1 :: 'f) / of_nat (RRF_K + idx + 1)" by (rule divide_pos_pos [OF zero_less_one], rule iffD2 [OF of_nat_0_less_iff], simp)
    then show ?thesis using True rrf_gain_nonneg [of "idx + 1" xs i, where 'f = 'f] by (simp add: add_pos_nonneg)
  next
    case False
    then show ?thesis using Cons by simp
  qed
qed simp

lemma map_of_rrf_list:
  "map_of (rrf_list idx xs m) i = map_option (\<lambda>v. v + rrf_gain idx xs i) (map_of m i)"
  by (induction xs arbitrary: idx m) (auto simp: update_conv' option.map_comp comp_def option.map_ident ac_simps split: option.splits)

lemma keys_rrf_list: "fst ` set (rrf_list idx xs m) = fst ` set m"
  by (induction xs arbitrary: idx m)
     (auto simp: map_of_eq_None_iff split: option.splits dest: map_of_SomeD intro: rev_image_eqI)

lemma distinct_rrf_list: "distinct (map fst m) \<Longrightarrow> distinct (map fst (rrf_list idx xs m))"
  by (induction xs arbitrary: idx m) (auto split: option.splits)

lemma zeros: "map_of (fold (\<lambda>i. AList.update i 0) xs m) i = (if i \<in> set xs then Some 0 else map_of m i)"
  by (induction xs arbitrary: m) (auto simp: update_conv')

lemma map_of_rrfScores:
  "map_of (rrfScores [xs, ys] universe) i =
     (if i \<in> set universe then Some (rrf_gain 0 xs i + rrf_gain 0 ys i) else None)"
  by (simp add: rrfScores_def map_of_rrf_list zeros)

lemma distinct_rrfScores: "distinct (map fst (rrfScores rankings universe))"
proof -
  have z: "distinct (map fst (fold (\<lambda>i. AList.update i 0) universe m))" if "distinct (map fst m)" for m :: "(string \<times> 'a) list"
    using that by (induction universe arbitrary: m) auto
  have "distinct (map fst (fold (\<lambda>lst score. rrf_list 0 lst score) rankings m))" if "distinct (map fst m)" for m :: "(string \<times> 'a) list"
    using that by (induction rankings arbitrary: m) (auto simp: distinct_rrf_list)
  then show ?thesis using z by (simp add: rrfScores_def)
qed

lemma fold_max:
  fixes raw :: "('a \<times> 'f::linorder) list"
  shows "fold (\<lambda>(_, v) m. if m < v then v else m) raw z = Max (insert z (snd ` set raw))"
proof (induction raw arbitrary: z)
  case (Cons p raw)
  obtain k v where p: "p = (k, v)" by (cases p)
  have "fold (\<lambda>(_, v) m. if m < v then v else m) (p # raw) z = Max (insert (max z v) (snd ` set raw))"
    using Cons by (simp add: p max_def)
  also have "\<dots> = Max (insert z (snd ` set (p # raw)))"
    by (cases "raw = []") (simp_all add: p max.assoc)
  finally show ?case .
qed simp

lemma fold_rekey:
  assumes "distinct (map fst raw)"
  shows "map_of (fold (\<lambda>(i, v) norm. AList.update i (g v) norm) raw m) i =
    (case map_of raw i of None \<Rightarrow> map_of m i | Some v \<Rightarrow> Some (g v))"
  using assms
  by (induction raw arbitrary: m)
     (auto simp: update_conv' map_of_eq_None_iff split: option.splits dest: map_of_SomeD intro: rev_image_eqI)

text \<open>The fused score is a ranking value of the union of both candidate lists: exactly the ids of
  the two lists get one, every value is above 0 and at most 1, the best of the union has exactly 1,
  and an id that is ahead of another in both lists (absent counts as last) never ranks below it. \<close>

theorem fused_scores:
  fixes semIds bm25Ids
  defines "m \<equiv> (fuseRrfNormalized semIds bm25Ids :: (string \<times> 'f::linordered_field) list)"
  shows "(map_of m i = None \<longleftrightarrow> i \<notin> set semIds \<union> set bm25Ids) \<and>
     (\<forall>v. map_of m i = Some v \<longrightarrow> 0 < v \<and> v \<le> 1) \<and>
     (semIds @ bm25Ids \<noteq> [] \<longrightarrow> (\<exists>j. map_of m j = Some 1)) \<and>
     (\<forall>v w. map_of m i = Some v \<and> map_of m j = Some w \<and>
        (rrf_gain 0 semIds j :: 'f) \<le> rrf_gain 0 semIds i \<and> (rrf_gain 0 bm25Ids j :: 'f) \<le> rrf_gain 0 bm25Ids i \<longrightarrow> w \<le> v)"
proof -
  let ?U = "set semIds \<union> set bm25Ids"
  define raw where "raw = (rrfScores [semIds, bm25Ids] (js_set (semIds @ bm25Ids)) :: (string \<times> 'f) list)"
  define mx where "mx = fold (\<lambda>(_, v) m. if m < v then v else m) raw 0"
  define g where "g i = (rrf_gain 0 semIds i + rrf_gain 0 bm25Ids i :: 'f)" for i
  have raw: "map_of raw i = (if i \<in> ?U then Some (g i) else None)" for i
    by (simp add: raw_def map_of_rrfScores g_def)
  have d: "distinct (map fst raw)" by (simp add: raw_def distinct_rrfScores)
  have gpos: "0 < g i" if "i \<in> ?U" for i
    using that rrf_gain_pos [of i semIds 0, where 'f = 'f] rrf_gain_pos [of i bm25Ids 0, where 'f = 'f]
      rrf_gain_nonneg [of 0 semIds i, where 'f = 'f] rrf_gain_nonneg [of 0 bm25Ids i, where 'f = 'f]
    by (auto simp: g_def intro: add_pos_nonneg add_nonneg_pos)
  have vals: "snd ` set raw = g ` ?U"
  proof -
    have "set raw = {(i, v). map_of raw i = Some v}" using d by auto
    then show ?thesis by (auto simp: raw image_iff split: if_splits) 
  qed
  have mx: "mx = Max (insert 0 (g ` ?U))" by (simp add: mx_def fold_max vals)
  have le: "g i \<le> mx" if "i \<in> ?U" for i unfolding mx using that by (intro Max_ge) auto
  have mm: "map_of m i = (if i \<in> ?U then Some (g i / mx) else None)" for i
  proof (cases "?U = {}")
    case True
    then show ?thesis by (simp add: m_def fuseRrfNormalized_def Let_def rrfScores_def js_set_def)
  next
    case False
    then obtain k where k: "k \<in> ?U" by (meson ex_in_conv)
    have "0 < mx" using gpos [OF k] le [OF k] by linarith
    then have "m = fold (\<lambda>(i, v) norm. AList.update i (v / mx) norm) raw []"
      by (simp add: m_def fuseRrfNormalized_def Let_def flip: raw_def mx_def)
    then show ?thesis using fold_rekey [OF d, of "\<lambda>v. v / mx" "[]" i] by (simp add: raw)
  qed
  have mxpos: "0 < mx" if "i \<in> ?U" for i using gpos [OF that] le [OF that] by linarith
  have "\<exists>j. map_of m j = Some 1" if "semIds @ bm25Ids \<noteq> []"
  proof -
    have "?U \<noteq> {}" using that by auto
    then have "mx \<in> insert 0 (g ` ?U)" unfolding mx by (intro Max_in) auto
    moreover have "mx \<noteq> 0" using \<open>?U \<noteq> {}\<close> mxpos by (metis ex_in_conv less_irrefl)
    ultimately obtain j where "j \<in> ?U" "g j = mx" by auto
    then show ?thesis using mm mxpos [of j] by (intro exI [of _ j]) auto
  qed
  moreover have "g j / mx \<le> g i / mx"
    if "j \<in> ?U" "(rrf_gain 0 semIds j :: 'f) \<le> rrf_gain 0 semIds i" "(rrf_gain 0 bm25Ids j :: 'f) \<le> rrf_gain 0 bm25Ids i"
    using that mxpos [OF that(1)] unfolding g_def by (intro divide_right_mono add_mono) simp_all
  moreover have "0 < g i / mx \<and> g i / mx \<le> 1" if "i \<in> ?U"
    using gpos [OF that] le [OF that] mxpos [OF that] by (simp add: divide_le_eq_1_pos)
  ultimately show ?thesis by (auto simp: mm split: if_splits)
qed

lemma fused_scores_witness:
  "\<exists>v. map_of (fuseRrfNormalized [''a'', ''b''] [''b'', ''c''] :: (string \<times> rat) list) ''b'' = Some v \<and> 0 < v \<and> v \<le> 1"
  using fused_scores [of "[''a'', ''b'']" "[''b'', ''c'']" "''b''", where 'f = rat]
  by (cases "map_of (fuseRrfNormalized [''a'', ''b''] [''b'', ''c''] :: (string \<times> rat) list) ''b''") auto

end
