(* ===== verification/ExpiryHeap.thy ===== *)
theory ExpiryHeap
  imports Main "HOL-Library.Multiset"
begin

text \<open>
  The binary min-heap at the end of \<open>resources/bm25-index.ts\<close>: an array of expiry time and slot number,
  with the two loops that restore the heap order, and the lemmas that make it a priority queue.
\<close>

section \<open>The array\<close>

function sift_up :: "(int \<times> nat) list \<Rightarrow> nat \<Rightarrow> (int \<times> nat) list" where
  "sift_up h i =
     (if 0 < i then
        let parent = (i - 1) div 2 in
        if fst (h ! parent) \<le> fst (h ! i) then h
        else sift_up (h[parent := h ! i, i := h ! parent]) parent
      else h)"
  by pat_completeness auto
termination by (relation "measure snd") auto

declare sift_up.simps [simp del]

definition heapPush :: "(int \<times> nat) list \<Rightarrow> int \<times> nat \<Rightarrow> (int \<times> nat) list" where
  "heapPush h v = sift_up (h @ [v]) (length h)"

definition smaller_child :: "(int \<times> nat) list \<Rightarrow> nat \<Rightarrow> nat" where
  "smaller_child h i =
     (let l = 2 * i + 1; r = l + 1;
          m = (if l < length h \<and> fst (h ! l) < fst (h ! i) then l else i) in
      if r < length h \<and> fst (h ! r) < fst (h ! m) then r else m)"

lemma smaller_child_bound: "smaller_child h i \<noteq> i \<Longrightarrow> i < smaller_child h i \<and> smaller_child h i < length h"
  by (auto simp: smaller_child_def Let_def split: if_splits)

function sift_down :: "(int \<times> nat) list \<Rightarrow> nat \<Rightarrow> (int \<times> nat) list" where
  "sift_down h i =
     (let m = smaller_child h i in
      if m = i then h else sift_down (h[i := h ! m, m := h ! i]) m)"
  by pat_completeness auto
termination
  by (relation "measure (\<lambda>(h, i). length h - i)") (auto dest!: smaller_child_bound)

declare sift_down.simps [simp del]

definition heapPop :: "(int \<times> nat) list \<Rightarrow> (int \<times> nat) option \<times> (int \<times> nat) list" where
  "heapPop h =
     (if h = [] then (None, [])
      else let top = h ! 0; final = last h; h' = butlast h in
        if h' \<noteq> [] then (Some top, sift_down (h'[0 := final]) 0) else (Some top, h'))"

lemma length_sift_up [simp]: "length (sift_up h i) = length h"
  by (induction h i rule: sift_up.induct) (subst sift_up.simps, simp add: Let_def)

lemma length_sift_down [simp]: "length (sift_down h i) = length h"
  by (induction h i rule: sift_down.induct) (subst sift_down.simps, simp add: Let_def)

lemma length_heapPop: "h \<noteq> [] \<Longrightarrow> length (snd (heapPop h)) < length h"
  by (simp add: heapPop_def Let_def)


section \<open>The heap order\<close>

definition parent :: "nat \<Rightarrow> nat" where
  "parent i = (i - 1) div 2"

definition is_heap :: "(int \<times> nat) list \<Rightarrow> bool" where
  "is_heap h \<longleftrightarrow> (\<forall>i. 0 < i \<and> i < length h \<longrightarrow> fst (h ! parent i) \<le> fst (h ! i))"

lemma parent_less: "0 < i \<Longrightarrow> parent i < i"
  by (simp add: parent_def)

lemma parent_children: "0 < j \<Longrightarrow> parent j = i \<longleftrightarrow> j = 2 * i + 1 \<or> j = 2 * i + 2"
  by (auto simp: parent_def)

lemma mset_swap: "i < length h \<Longrightarrow> j < length h \<Longrightarrow> mset (h[i := h ! j, j := h ! i]) = mset h"
  by (cases "i = j") (simp_all add: mset_swap)

lemma sift_up_step:
  "sift_up h i = (if 0 < i \<and> fst (h ! i) < fst (h ! parent i)
     then sift_up (h[parent i := h ! i, i := h ! parent i]) (parent i) else h)"
  by (subst sift_up.simps) (auto simp: parent_def Let_def)

lemma mset_sift_up: "i < length h \<Longrightarrow> mset (sift_up h i) = mset h"
proof (induction i arbitrary: h rule: less_induct)
  case (less i)
  show ?case
  proof (cases "0 < i \<and> fst (h ! i) < fst (h ! parent i)")
    case True
    then have p: "parent i < i" by (simp add: parent_less)
    then have "mset (sift_up (h[parent i := h ! i, i := h ! parent i]) (parent i)) = mset h"
      using less by (simp add: mset_swap)
    then show ?thesis using True by (subst sift_up_step) simp
  qed (subst sift_up_step, auto)
qed

lemma is_heap_sift_up:
  assumes "i < length h"
    and "\<And>j. 0 < j \<Longrightarrow> j < length h \<Longrightarrow> j \<noteq> i \<Longrightarrow> fst (h ! parent j) \<le> fst (h ! j)"
    and "\<And>j. 0 < i \<Longrightarrow> 0 < j \<Longrightarrow> j < length h \<Longrightarrow> parent j = i \<Longrightarrow> fst (h ! parent i) \<le> fst (h ! j)"
  shows "is_heap (sift_up h i)"
  using assms
proof (induction i arbitrary: h rule: less_induct)
  case (less i)
  show ?case
  proof (cases "0 < i \<and> fst (h ! i) < fst (h ! parent i)")
    case False
    then have "is_heap h" using less.prems(2) unfolding is_heap_def by (metis linorder_not_less)
    then show ?thesis using False by (subst sift_up_step) auto
  next
    case True
    let ?p = "parent i"
    let ?h = "h[?p := h ! i, i := h ! ?p]"
    have p: "?p < i" using True by (simp add: parent_less)
    have at: "?h ! j = (if j = i then h ! ?p else if j = ?p then h ! i else h ! j)" if "j < length h" for j
      using that p by (simp add: nth_list_update)
    have "is_heap (sift_up ?h ?p)"
    proof (rule less.IH [OF p])
      show "?p < length ?h" using p less.prems(1) by simp
      show "fst (?h ! parent j) \<le> fst (?h ! j)" if "0 < j" "j < length ?h" "j \<noteq> ?p" for j
      proof -
        have j: "j < length h" "parent j < length h" using that parent_less [OF that(1)] by simp_all
        consider "j = i" | "j \<noteq> i" "parent j = i" | "j \<noteq> i" "parent j = ?p" | "j \<noteq> i" "parent j \<noteq> i" "parent j \<noteq> ?p"
          by blast
        then show ?thesis
        proof cases
          case 2
          then show ?thesis using less.prems(3) [OF _ that(1) j(1)] True at [OF j(1)] at [OF j(2)] that(3) p by auto
        next
          case 3
          then show ?thesis using less.prems(2) [OF that(1) j(1)] True at [OF j(1)] at [OF j(2)] that(3) p by auto
        next
          case 4
          then show ?thesis using less.prems(2) [OF that(1) j(1)] at [OF j(1)] at [OF j(2)] that(3) by auto
        qed (use at [OF j(1)] at [OF j(2)] True p in auto)
      qed
      show "fst (?h ! parent ?p) \<le> fst (?h ! j)" if "0 < ?p" "0 < j" "j < length ?h" "parent j = ?p" for j
      proof -
        have g: "parent ?p < ?p" using that(1) by (rule parent_less)
        have b: "j < length h" "parent ?p < length h" using that(3) g p less.prems(1) by simp_all
        have gp: "fst (h ! parent ?p) \<le> fst (h ! ?p)"
          by (rule less.prems(2)) (use that(1) p less.prems(1) in auto)
        show ?thesis
        proof (cases "j = i")
          case False
          then have "fst (h ! ?p) \<le> fst (h ! j)" using less.prems(2) [OF that(2) b(1)] that(4) by simp
          moreover have "j \<noteq> ?p" using parent_less [OF that(2)] that(4) by auto
          ultimately show ?thesis using at [OF b(1)] at [OF b(2)] False g p gp by simp
        qed (use at [OF b(1)] at [OF b(2)] g p gp in simp)
      qed
    qed
    then show ?thesis using True by (subst sift_up_step) simp
  qed
qed

lemma smaller_child_children:
  assumes "j = 2 * i + 1 \<or> j = 2 * i + 2" "j < length h"
  shows "fst (h ! smaller_child h i) \<le> fst (h ! j)"
  using assms by (auto simp: smaller_child_def Let_def)

lemma smaller_child_self: "smaller_child h i \<noteq> i \<Longrightarrow>
    (smaller_child h i = 2 * i + 1 \<or> smaller_child h i = 2 * i + 2) \<and> fst (h ! smaller_child h i) < fst (h ! i)"
  by (auto simp: smaller_child_def Let_def split: if_splits)

lemma smaller_child_parent:
  assumes "smaller_child h i \<noteq> i"
  shows "parent (smaller_child h i) = i" "0 < smaller_child h i"
  using smaller_child_self [OF assms] smaller_child_bound [OF assms] by (auto simp: parent_def)

lemma mset_sift_down: "i < length h \<Longrightarrow> mset (sift_down h i) = mset h"
proof (induction h i rule: sift_down.induct)
  case (1 h i)
  show ?case
  proof (cases "smaller_child h i = i")
    case False
    note b = smaller_child_bound [OF False]
    have "mset (sift_down (h[i := h ! smaller_child h i, smaller_child h i := h ! i]) (smaller_child h i)) = mset h"
      using "1.IH" [OF refl False] b "1.prems" by (simp add: mset_swap)
    then show ?thesis using False by (subst sift_down.simps) (simp add: Let_def)
  qed (subst sift_down.simps, simp)
qed


lemma is_heap_sift_down:
  assumes "i < length h"
    and "\<And>j. 0 < j \<Longrightarrow> j < length h \<Longrightarrow> parent j \<noteq> i \<Longrightarrow> fst (h ! parent j) \<le> fst (h ! j)"
    and "\<And>j. 0 < i \<Longrightarrow> 0 < j \<Longrightarrow> j < length h \<Longrightarrow> parent j = i \<Longrightarrow> fst (h ! parent i) \<le> fst (h ! j)"
  shows "is_heap (sift_down h i)"
  using assms
proof (induction h i rule: sift_down.induct)
  case (1 h i)
  let ?m = "smaller_child h i"
  have child: "fst (h ! ?m) \<le> fst (h ! j)" if "0 < j" "j < length h" "parent j = i" for j
    using smaller_child_children that parent_children [OF that(1)] by blast
  show ?case
  proof (cases "?m = i")
    case True
    then have "is_heap h" using "1.prems"(2) child unfolding is_heap_def by metis
    then show ?thesis using True by (subst sift_down.simps) simp
  next
    case False
    let ?h = "h[i := h ! ?m, ?m := h ! i]"
    note b = smaller_child_bound [OF False] and p = smaller_child_parent [OF False]
    have at: "?h ! j = (if j = ?m then h ! i else if j = i then h ! ?m else h ! j)" if "j < length h" for j
      using that b by (simp add: nth_list_update)
    have "is_heap (sift_down ?h ?m)"
    proof (rule "1.IH" [OF refl False])
      show "?m < length ?h" using b by simp
      show "fst (?h ! parent j) \<le> fst (?h ! j)" if "0 < j" "j < length ?h" "parent j \<noteq> ?m" for j
      proof -
        have j: "j < length h" "parent j < length h" using that parent_less [OF that(1)] by simp_all
        consider "parent j = i" | "parent j \<noteq> i" "j = i" | "parent j \<noteq> i" "j \<noteq> i" "j \<noteq> ?m"
          using p by blast
        then show ?thesis
        proof cases
          case 1
          then have "j \<noteq> i" using parent_less [OF that(1)] by auto
          then show ?thesis
            using 1 at [OF j(1)] at [OF j(2)] that(3) child [OF that(1) j(1)] smaller_child_self [OF False] by auto
        next
          case 2
          then have "fst (h ! parent i) \<le> fst (h ! ?m)"
            using "1.prems"(3) [of ?m] that(1) b p by simp
          then show ?thesis using 2 at [OF j(1)] at [OF j(2)] that(3) b by auto
        next
          case 3
          then show ?thesis using "1.prems"(2) [OF that(1) j(1)] at [OF j(1)] at [OF j(2)] that(3) by simp
        qed
      qed
      show "fst (?h ! parent ?m) \<le> fst (?h ! j)" if "0 < ?m" "0 < j" "j < length ?h" "parent j = ?m" for j
      proof -
        have j: "j < length h" "?m < j" using that parent_less [OF that(2)] by simp_all
        have "fst (h ! ?m) \<le> fst (h ! j)" using "1.prems"(2) [OF that(2) j(1)] that(4) False by simp
        then show ?thesis using at [OF j(1)] at [of i] j b p "1.prems"(1) by auto
      qed
    qed
    then show ?thesis using False by (subst sift_down.simps) (simp add: Let_def)
  qed
qed

section \<open>The priority queue\<close>

lemma mset_heapPush: "mset (heapPush h v) = add_mset v (mset h)"
  by (simp add: heapPush_def mset_sift_up)

lemma is_heap_heapPush:
  assumes "is_heap h"
  shows "is_heap (heapPush h v)"
  unfolding heapPush_def
proof (rule is_heap_sift_up)
  fix j assume j: "0 < j" "j < length (h @ [v])" "j \<noteq> length h"
  then have "parent j < length h" "j < length h" using parent_less [OF j(1)] by auto
  then show "fst ((h @ [v]) ! parent j) \<le> fst ((h @ [v]) ! j)"
    using assms j(1) by (simp add: is_heap_def nth_append)
next
  fix j assume "0 < j" "j < length (h @ [v])" "parent j = length h"
  then show "fst ((h @ [v]) ! parent (length h)) \<le> fst ((h @ [v]) ! j)"
    using parent_less [of j] by simp
qed simp

lemma mset_heapPop:
  assumes "h \<noteq> []"
  shows "mset h = add_mset (h ! 0) (mset (snd (heapPop h)))"
proof (cases "butlast h = []")
  case True
  then obtain x where "h = [x]" using assms by (cases h) (auto split: if_splits)
  then show ?thesis by (simp add: heapPop_def)
next
  case False
  then obtain x r where r: "h = x # r" "r \<noteq> []" by (cases h) (auto split: if_splits)
  then have "mset (sift_down ((butlast h)[0 := last h]) 0) = mset ((butlast h)[0 := last h])"
    by (intro mset_sift_down) simp
  moreover have "(butlast h)[0 := last h] = last r # butlast r" using r by simp
  ultimately have d: "mset (sift_down (last r # butlast r) 0) = add_mset (last r) (mset (butlast r))"
    by simp
  have "mset r = mset (butlast r @ [last r])" using r(2) by simp
  then have "mset r = add_mset (last r) (mset (butlast r))" by (simp del: append_butlast_last_id)
  then show ?thesis using r d by (simp add: heapPop_def Let_def)
qed

lemma is_heap_heapPop:
  assumes "is_heap h"
  shows "is_heap (snd (heapPop h))"
proof (cases "h = [] \<or> butlast h = []")
  case True
  then show ?thesis by (auto simp: heapPop_def Let_def is_heap_def)
next
  case False
  have "is_heap (sift_down ((butlast h)[0 := last h]) 0)"
  proof (rule is_heap_sift_down)
    fix j assume j: "0 < j" "j < length ((butlast h)[0 := last h])" "parent j \<noteq> 0"
    then have "parent j < j" "j < length h - 1" using parent_less by auto
    then show "fst ((butlast h)[0 := last h] ! parent j) \<le> fst ((butlast h)[0 := last h] ! j)"
      using assms j by (simp add: is_heap_def nth_butlast)
  qed (use False in \<open>cases h; cases "tl h"; simp\<close>)+
  then show ?thesis using False by (simp add: heapPop_def Let_def)
qed

lemma heap_min:
  assumes "is_heap h" "x \<in> set h"
  shows "fst (h ! 0) \<le> fst x"
proof -
  have "fst (h ! 0) \<le> fst (h ! i)" if "i < length h" for i
    using that
  proof (induction i rule: less_induct)
    case (less i)
    show ?case
    proof (cases "i = 0")
      case False
      then have "fst (h ! 0) \<le> fst (h ! parent i)" using less parent_less [of i] by simp
      also have "\<dots> \<le> fst (h ! i)" using assms(1) less.prems False by (simp add: is_heap_def)
      finally show ?thesis .
    qed simp
  qed
  then show ?thesis using assms(2) by (metis in_set_conv_nth)
qed

lemma is_heap_Nil [simp]: "is_heap []"
  by (simp add: is_heap_def)

end
