(* ===== verification/Bm25Index.thy ===== *)
theory Bm25Index
  imports Bm25 ExpiryHeap
begin

text \<open>
  The incrementally maintained lexical index: \<open>resources/bm25-index.ts\<close>. The index is a record with a
  field per member of the class \<open>Bm25Index\<close>; a \<open>Map\<close> is an association list in insertion order, a
  posting keeps its two arrays with their capacity, the expiry heap is its array. The clock of a
  query is an argument. Slot numbers and term counts stay far below \<open>2^31\<close>, the range of the
  posting arrays' elements.
\<close>

section \<open>What the index stores\<close>

definition SUPPORTED_SCOPE_ATTRS :: "string list" where
  "SUPPORTED_SCOPE_ATTRS = [''agentId'', ''visibility'', ''archived'', ''tags'', ''subject'', ''durability'',
     ''source'', ''sessionId'', ''promotionStatus'', ''parentId'', ''derivedFrom'',
     ''supersedes'', ''contentHash'', ''embeddingModel'']"

definition TEMPORAL_ATTRS :: "string list" where
  "TEMPORAL_ATTRS = [''createdAt'', ''expiresAt'', ''validFrom'', ''validTo'']"

definition INDEX_SELECT :: "string list" where
  "INDEX_SELECT = [''id'', ''content''] @ SUPPORTED_SCOPE_ATTRS @ TEMPORAL_ATTRS"

definition MAX_CACHED_BODIES :: nat where "MAX_CACHED_BODIES = 1024"
definition MAX_CACHED_BODY_CHARS :: nat where "MAX_CACHED_BODY_CHARS = 512 * 1024"

definition INDEX_META_ATTRS :: "string list" where
  "INDEX_META_ATTRS = SUPPORTED_SCOPE_ATTRS @ TEMPORAL_ATTRS"

definition sameIndexValue :: "js \<Rightarrow> js \<Rightarrow> bool" where
  "sameIndexValue a b =
     (case (a, b) of
        (Arr xs, Arr ys) \<Rightarrow> length xs = length ys \<and> list_all2 (\<lambda>v w. \<not> is_object v \<and> strict_eq v w) xs ys
      | _ \<Rightarrow> \<not> is_object a \<and> strict_eq a b)"

record slot =
  s_id :: string
  s_dl :: nat
  s_nTerms :: nat
  s_meta :: jobj
  s_pkey :: string
  s_expiry :: "int option"

text \<open>\<open>s_expiry\<close> is \<open>None\<close> for \<open>Infinity\<close>.\<close>

record posting =
  p_slots :: "nat list"
  p_tfs :: "nat list"
  p_len :: nat

record agg =
  agg_count :: int
  agg_sumDl :: int

definition emptyPosting :: posting where
  "emptyPosting = \<lparr>p_slots = replicate 4 0, p_tfs = replicate 4 0, p_len = 0\<rparr>"

definition pushPosting :: "posting \<Rightarrow> nat \<Rightarrow> nat \<Rightarrow> posting" where
  "pushPosting p slot tf =
     (let p' = (if p_len p = length (p_slots p)
                then p\<lparr>p_slots := p_slots p @ replicate (length (p_slots p)) 0,
                       p_tfs := p_tfs p @ replicate (length (p_tfs p)) 0\<rparr>
                else p) in
      \<lparr>p_slots = (p_slots p')[p_len p' := slot], p_tfs = (p_tfs p')[p_len p' := tf], p_len = p_len p' + 1\<rparr>)"

definition posting_list :: "posting \<Rightarrow> (nat \<times> nat) list" where
  "posting_list p = take (p_len p) (zip (p_slots p) (p_tfs p))"

record index =
  bx_slots :: "slot option list"
  bx_slotOf :: "(string \<times> nat) list"
  bx_freeSlots :: "nat list"
  bx_postings :: "(string \<times> posting) list"
  bx_totalPostings :: int
  bx_deadPostings :: int
  bx_partitions :: "(string \<times> agg) list"
  bx_facets :: "(string \<times> (string \<times> agg) list) list"
  bx_partitionRep :: "(string \<times> jobj) list"
  bx_expiryHeap :: "(int \<times> nat) list"
  bx_sweptTo :: int
  bx_retired :: "nat set"
  bx_cachedBodies :: "(string \<times> string) list"
  bx_cachedBodyChars :: int

definition new_index :: index where
  "new_index = \<lparr>bx_slots = [], bx_slotOf = [], bx_freeSlots = [], bx_postings = [], bx_totalPostings = 0,
     bx_deadPostings = 0, bx_partitions = [], bx_facets = [], bx_partitionRep = [], bx_expiryHeap = [],
     bx_sweptTo = 0, bx_retired = {}, bx_cachedBodies = [], bx_cachedBodyChars = 0\<rparr>"

definition clear :: "index \<Rightarrow> index" where
  "clear idx = new_index"

section \<open>Aggregates\<close>

definition bump :: "string \<Rightarrow> int \<Rightarrow> int \<Rightarrow> (string \<times> agg) list \<Rightarrow> (string \<times> agg) list" where
  "bump key dl cnt m =
     (case map_of m key of
        Some a \<Rightarrow> AList.update key \<lparr>agg_count = agg_count a + cnt, agg_sumDl = agg_sumDl a + dl\<rparr> m
      | None \<Rightarrow> AList.update key \<lparr>agg_count = cnt, agg_sumDl = dl\<rparr> m)"

definition partitionKeyOf :: "jobj \<Rightarrow> string" where
  "partitionKeyOf meta =
     js_String (coalesce (getp meta ''agentId'') (Str [CHR 0x01])) @ [CHR 0x00] @
     js_String (coalesce (getp meta ''visibility'') (Str [CHR 0x01])) @ [CHR 0x00] @
     (if getp meta ''archived'' = Bool True then ''1'' else ''0'')"

definition facet_key :: "string \<Rightarrow> string \<Rightarrow> string" where
  "facet_key attr value = attr @ [CHR 0x00] @ value"

definition facetKeysOf :: "jobj \<Rightarrow> string list" where
  "facetKeysOf meta =
     (case getp meta ''tags'' of Arr tags \<Rightarrow> map (\<lambda>t. facet_key ''tags'' (js_String t)) tags | _ \<Rightarrow> []) @
     (if nullish (getp meta ''subject'') then [] else [facet_key ''subject'' (js_String (getp meta ''subject''))])"

definition bump_facet :: "string \<Rightarrow> int \<Rightarrow> int \<Rightarrow> string \<Rightarrow> (string \<times> (string \<times> agg) list) list \<Rightarrow> (string \<times> (string \<times> agg) list) list" where
  "bump_facet pkey dl cnt fk facets =
     AList.update fk (bump pkey dl cnt (case map_of facets fk of None \<Rightarrow> [] | Some m \<Rightarrow> m)) facets"

definition addToAggregates :: "slot \<Rightarrow> index \<Rightarrow> index" where
  "addToAggregates entry idx =
     idx\<lparr>bx_partitions := bump (s_pkey entry) (int (s_dl entry)) 1 (bx_partitions idx),
         bx_partitionRep :=
           (if map_of (bx_partitionRep idx) (s_pkey entry) \<noteq> None then bx_partitionRep idx
            else AList.update (s_pkey entry)
                   [(''id'', Str []), (''agentId'', getp (s_meta entry) ''agentId''),
                    (''visibility'', getp (s_meta entry) ''visibility''),
                    (''archived'', getp (s_meta entry) ''archived'')] (bx_partitionRep idx)),
         bx_facets := fold (bump_facet (s_pkey entry) (int (s_dl entry)) 1) (facetKeysOf (s_meta entry)) (bx_facets idx)\<rparr>"

definition unbump_facet :: "string \<Rightarrow> int \<Rightarrow> string \<Rightarrow> (string \<times> (string \<times> agg) list) list \<Rightarrow> (string \<times> (string \<times> agg) list) list" where
  "unbump_facet pkey dl fk facets =
     (case map_of facets fk of None \<Rightarrow> facets | Some m \<Rightarrow> AList.update fk (bump pkey (- dl) (- 1) m) facets)"

definition removeFromAggregates :: "slot \<Rightarrow> index \<Rightarrow> index" where
  "removeFromAggregates entry idx =
     idx\<lparr>bx_partitions := bump (s_pkey entry) (- int (s_dl entry)) (- 1) (bx_partitions idx),
         bx_facets := fold (unbump_facet (s_pkey entry) (int (s_dl entry))) (facetKeysOf (s_meta entry)) (bx_facets idx)\<rparr>"

definition mergeFacetAggregates ::
    "(string \<times> (string \<times> agg) list) list \<Rightarrow> string \<Rightarrow> string list \<Rightarrow> (string \<times> agg) list" where
  "mergeFacetAggregates facets attr values =
     (case values of
        [v] \<Rightarrow> (case map_of facets (facet_key attr v) of None \<Rightarrow> [] | Some m \<Rightarrow> m)
      | _ \<Rightarrow>
          fold (\<lambda>v merged.
             (case map_of facets (facet_key attr v) of
                None \<Rightarrow> merged
              | Some m \<Rightarrow> fold (\<lambda>(pkey, a). bump pkey (agg_sumDl a) (agg_count a)) m merged)) values [])"

definition min_expiry :: "int option \<Rightarrow> int option \<Rightarrow> int option" where
  "min_expiry a b = (case (a, b) of (None, _) \<Rightarrow> b | (_, None) \<Rightarrow> a | (Some x, Some y) \<Rightarrow> Some (min x y))"

definition expiryOf :: "dates \<Rightarrow> jobj \<Rightarrow> int option" where
  "expiryOf D meta =
     (let bound = (\<lambda>v. if truthy v then date_parse D v else None) in
      min_expiry (bound (getp meta ''expiresAt'')) (bound (getp meta ''validTo'')))"

section \<open>The cache of bodies\<close>

definition forgetBody :: "string \<Rightarrow> index \<Rightarrow> index" where
  "forgetBody i idx =
     (case map_of (bx_cachedBodies idx) i of
        None \<Rightarrow> idx
      | Some content \<Rightarrow> idx\<lparr>bx_cachedBodyChars := bx_cachedBodyChars idx - int (length content),
                           bx_cachedBodies := AList.delete i (bx_cachedBodies idx)\<rparr>)"

text \<open>The eviction loop: the oldest body goes while the new one does not fit.\<close>

function evict_bodies :: "nat \<Rightarrow> index \<Rightarrow> index" where
  "evict_bodies n idx =
     (if bx_cachedBodies idx \<noteq> [] \<and>
         (MAX_CACHED_BODIES \<le> length (bx_cachedBodies idx) \<or> int MAX_CACHED_BODY_CHARS < bx_cachedBodyChars idx + int n)
      then evict_bodies n (forgetBody (fst (hd (bx_cachedBodies idx))) idx) else idx)"
  by pat_completeness auto
termination
proof (relation "measure (\<lambda>(n, idx). length (bx_cachedBodies idx))", simp)
  fix n and idx :: index
  assume a: "bx_cachedBodies idx \<noteq> [] \<and>
    (MAX_CACHED_BODIES \<le> length (bx_cachedBodies idx) \<or> int MAX_CACHED_BODY_CHARS < bx_cachedBodyChars idx + int n)"
  then obtain k v r where b: "bx_cachedBodies idx = (k, v) # r" by (metis list.exhaust surj_pair)
  have "length (AList.delete k r) \<le> length r" by (simp add: AList.delete_eq)
  then show "((n, forgetBody (fst (hd (bx_cachedBodies idx))) idx), n, idx) \<in> measure (\<lambda>(n, idx). length (bx_cachedBodies idx))"
    by (simp add: forgetBody_def b)
qed

declare evict_bodies.simps [simp del]

definition rememberBody :: "string \<Rightarrow> string \<Rightarrow> index \<Rightarrow> index" where
  "rememberBody i content idx =
     (let idx1 = forgetBody i idx in
      if MAX_CACHED_BODY_CHARS < length content then idx1
      else let idx2 = evict_bodies (length content) idx1 in
        idx2\<lparr>bx_cachedBodies := AList.update i content (bx_cachedBodies idx2),
             bx_cachedBodyChars := bx_cachedBodyChars idx2 + int (length content)\<rparr>)"

section \<open>Maintenance\<close>

definition slot_at :: "index \<Rightarrow> nat \<Rightarrow> slot option" where
  "slot_at idx s = (if s < length (bx_slots idx) then bx_slots idx ! s else None)"

fun compact_postings :: "slot option list \<Rightarrow> (string \<times> posting) list \<Rightarrow> (string \<times> posting) list" where
  "compact_postings slots [] = []"
| "compact_postings slots ((term, p) # ps) =
     (let kept = filter (\<lambda>(s, f). s < length slots \<and> slots ! s \<noteq> None) (posting_list p); w = length kept in
      if w = 0 then compact_postings slots ps
      else (term, \<lparr>p_slots = map fst kept @ drop w (p_slots p), p_tfs = map snd kept @ drop w (p_tfs p), p_len = w\<rparr>)
             # compact_postings slots ps)"

definition maybeCompact :: "index \<Rightarrow> index" where
  "maybeCompact idx =
     (if bx_deadPostings idx * 4 \<le> bx_totalPostings idx \<or> bx_totalPostings idx = 0 then idx
      else let ps = compact_postings (bx_slots idx) (bx_postings idx) in
        idx\<lparr>bx_postings := ps,
            bx_totalPostings := int (sum_list (map (\<lambda>(_, p). p_len p) ps)),
            bx_deadPostings := 0,
            bx_freeSlots := filter (\<lambda>s. bx_slots idx ! s = None) [0..<length (bx_slots idx)]\<rparr>)"

definition remove :: "string \<Rightarrow> index \<Rightarrow> index" where
  "remove i idx =
     (case map_of (bx_slotOf idx) i of
        None \<Rightarrow> idx
      | Some s \<Rightarrow>
          let entry = slot_at idx s;
              idx1 = (forgetBody i (idx\<lparr>bx_slotOf := AList.delete i (bx_slotOf idx)\<rparr>))
                       \<lparr>bx_slots := (bx_slots idx)[s := None]\<rparr>;
              idx2 = (case entry of
                  None \<Rightarrow> idx1
                | Some e \<Rightarrow>
                    let idx' = (if s \<in> bx_retired idx1 then idx1\<lparr>bx_retired := bx_retired idx1 - {s}\<rparr>
                                else removeFromAggregates e idx1) in
                    idx'\<lparr>bx_deadPostings := bx_deadPostings idx' + int (s_nTerms e)\<rparr>) in
          maybeCompact idx2)"

definition unchanged :: "index \<Rightarrow> jobj \<Rightarrow> bool" where
  "unchanged idx record \<longleftrightarrow>
     (case map_of (bx_slotOf idx) (id_of record) of
        None \<Rightarrow> False
      | Some s \<Rightarrow>
          (case slot_at idx s of
             None \<Rightarrow> False
           | Some previous \<Rightarrow>
               map_of (bx_cachedBodies idx) (id_of record) = Some (content_of record) \<and>
               list_all (\<lambda>attr. has_own (Obj (s_meta previous)) attr = has_own (Obj record) attr \<and>
                  sameIndexValue (getp (s_meta previous) attr) (getp record attr)) INDEX_META_ATTRS))"

definition meta_of :: "jobj \<Rightarrow> jobj" where
  "meta_of record =
     (''id'', Str (id_of record)) #
     map (\<lambda>a. (a, getp record a)) (filter (\<lambda>a. has_own (Obj record) a) INDEX_META_ATTRS)"

definition entry_of :: "dates \<Rightarrow> jobj \<Rightarrow> slot" where
  "entry_of D record =
     (let tokens = tokenize (content_of record); meta = meta_of record in
      \<lparr>s_id = id_of record, s_dl = length tokens, s_nTerms = length (term_counts tokens), s_meta = meta,
       s_pkey = partitionKeyOf meta, s_expiry = expiryOf D meta\<rparr>)"

definition add_posting :: "nat \<Rightarrow> string \<times> nat \<Rightarrow> (string \<times> posting) list \<Rightarrow> (string \<times> posting) list" where
  "add_posting slot tc ps =
     (case tc of (term, tf) \<Rightarrow>
        AList.update term (pushPosting (case map_of ps term of None \<Rightarrow> emptyPosting | Some p \<Rightarrow> p) slot tf) ps)"

definition admit :: "dates \<Rightarrow> jobj \<Rightarrow> index \<Rightarrow> index" where
  "admit D record idx =
     (let tf = term_counts (tokenize (content_of record));
          slot = (if bx_freeSlots idx \<noteq> [] then last (bx_freeSlots idx) else length (bx_slots idx));
          idx1 = idx\<lparr>bx_freeSlots := butlast (bx_freeSlots idx)\<rparr>;
          entry = entry_of D record;
          idx2 = idx1\<lparr>bx_slots := (if slot < length (bx_slots idx) then (bx_slots idx)[slot := Some entry]
                                   else bx_slots idx @ [Some entry]),
                      bx_slotOf := AList.update (id_of record) slot (bx_slotOf idx)\<rparr>;
          idx3 = rememberBody (id_of record) (content_of record) idx2;
          idx4 = idx3\<lparr>bx_postings := fold (add_posting slot) tf (bx_postings idx3),
                      bx_totalPostings := bx_totalPostings idx3 + int (length tf)\<rparr> in
      if (case s_expiry entry of None \<Rightarrow> False | Some e \<Rightarrow> e \<le> bx_sweptTo idx4)
      then idx4\<lparr>bx_retired := insert slot (bx_retired idx4)\<rparr>
      else
        let idx5 = addToAggregates entry idx4 in
        (case s_expiry entry of
           None \<Rightarrow> idx5
         | Some e \<Rightarrow> idx5\<lparr>bx_expiryHeap := heapPush (bx_expiryHeap idx5) (e, slot)\<rparr>))"

definition upsert :: "dates \<Rightarrow> jobj \<Rightarrow> index \<Rightarrow> index" where
  "upsert D record idx =
     (if id_of record = [] then idx
      else if unchanged idx record then rememberBody (id_of record) (content_of record) idx
      else admit D record (remove (id_of record) idx))"

function sweep_loop :: "int \<Rightarrow> index \<Rightarrow> index" where
  "sweep_loop now idx =
     (if bx_expiryHeap idx \<noteq> [] \<and> fst (bx_expiryHeap idx ! 0) < now then
        let top = bx_expiryHeap idx ! 0;
            idx' = idx\<lparr>bx_expiryHeap := snd (heapPop (bx_expiryHeap idx))\<rparr> in
        sweep_loop now
          (case slot_at idx' (snd top) of
             None \<Rightarrow> idx'
           | Some entry \<Rightarrow>
               if s_expiry entry \<noteq> Some (fst top) then idx'
               else if snd top \<in> bx_retired idx' then idx'
               else removeFromAggregates entry (idx'\<lparr>bx_retired := insert (snd top) (bx_retired idx')\<rparr>))
      else idx)"
  by pat_completeness auto
termination
  by (relation "measure (\<lambda>(now, idx). length (bx_expiryHeap idx))")
     (auto simp: Let_def removeFromAggregates_def intro: length_heapPop split: option.split)

declare sweep_loop.simps [simp del]

definition sweep :: "int \<Rightarrow> index \<Rightarrow> index" where
  "sweep now idx =
     (if now \<le> bx_sweptTo idx then idx\<lparr>bx_sweptTo := max (bx_sweptTo idx) now\<rparr>
      else sweep_loop now (idx\<lparr>bx_sweptTo := now\<rparr>))"

section \<open>Planning a query\<close>

record query_plan =
  qp_partitionConditions :: "condition list"
  qp_facet :: "(string \<times> string list) option"
  qp_exact :: bool

fun conditionAttrs :: "condition \<Rightarrow> string list option" where
  "conditionAttrs (Group op cs) =
     (if op \<noteq> ''or'' \<and> op \<noteq> ''and'' then None
      else foldr (\<lambda>c out. case (conditionAttrs c, out) of (Some a, Some b) \<Rightarrow> Some (a @ b) | _ \<Rightarrow> None) cs (Some []))"
| "conditionAttrs (Leaf a cmp v) =
     (case a of
        Str attr \<Rightarrow> if cmp \<noteq> ''equals'' \<and> cmp \<noteq> ''not_equal'' then None else Some [attr]
      | _ \<Rightarrow> None)"

fun facet_leaves :: "condition list \<Rightarrow> string option \<Rightarrow> string list \<Rightarrow> (string \<times> string list) option" where
  "facet_leaves [] attr values = (case attr of None \<Rightarrow> None | Some a \<Rightarrow> if a = [] then None else Some (a, values))"
| "facet_leaves (Group _ _ # cs) attr values = None"
| "facet_leaves (Leaf a cmp v # cs) attr values =
     (if cmp \<noteq> ''equals'' then None
      else case attr of
          None \<Rightarrow> facet_leaves cs (Some (js_String a)) (values @ [js_String v])
        | Some b \<Rightarrow> if b \<noteq> js_String a then None else facet_leaves cs attr (values @ [js_String v]))"

definition asFacet :: "condition \<Rightarrow> (string \<times> string list) option" where
  "asFacet c =
     (case c of
        Leaf a cmp v \<Rightarrow> if cmp \<noteq> ''equals'' then None else Some (js_String a, [js_String v])
      | Group op cs \<Rightarrow> if op \<noteq> ''or'' \<or> cs = [] then None else facet_leaves cs None [])"

definition PARTITION_ATTRS :: "string list" where "PARTITION_ATTRS = [''agentId'', ''visibility'', ''archived'']"
definition FACET_ATTRS :: "string list" where "FACET_ATTRS = [''tags'', ''subject'']"

record allowed_pred =
  ap_allows :: "jobj \<Rightarrow> bool"
  ap_scopableOnly :: bool

fun plan_loop :: "condition list \<Rightarrow> condition list \<times> (string \<times> string list) option \<times> bool \<Rightarrow>
    condition list \<times> (string \<times> string list) option \<times> bool" where
  "plan_loop [] st = st"
| "plan_loop (c # cs) (pcs, facet, exact) =
     (if list_all (\<lambda>a. a \<in> set PARTITION_ATTRS) (case conditionAttrs c of None \<Rightarrow> [] | Some as \<Rightarrow> as)
      then plan_loop cs (pcs @ [c], facet, exact)
      else case asFacet c of
          Some f \<Rightarrow>
            if fst f \<in> set FACET_ATTRS \<and> facet = None then plan_loop cs (pcs, Some f, exact)
            else plan_loop cs (pcs @ [c], facet, True)
        | None \<Rightarrow> plan_loop cs (pcs @ [c], facet, True))"

definition planQuery :: "condition list \<Rightarrow> time_filters \<Rightarrow> allowed_pred option \<Rightarrow> query_plan option" where
  "planQuery conditions f isAllowed =
     (if list_ex (\<lambda>c. conditionAttrs c = None) conditions then None
      else if list_ex (\<lambda>c. list_ex (\<lambda>a. a \<notin> set SUPPORTED_SCOPE_ATTRS) (case conditionAttrs c of None \<Rightarrow> [] | Some as \<Rightarrow> as)) conditions
      then None
      else
        let temporallyFiltered = (sinceDate f \<noteq> None \<or> (asOf f \<noteq> None \<and> asOf f \<noteq> Some []));
            hoistable = (case isAllowed of None \<Rightarrow> True | Some p \<Rightarrow> ap_scopableOnly p) in
        case plan_loop conditions ([], None, temporallyFiltered \<or> \<not> hoistable) of
          (pcs, facet, exact) \<Rightarrow>
            Some \<lparr>qp_partitionConditions = pcs, qp_facet = (if exact then None else facet), qp_exact = exact\<rparr>)"

section \<open>Answering a query\<close>

definition allows :: "allowed_pred option \<Rightarrow> jobj \<Rightarrow> bool" where
  "allows isAllowed meta = (case isAllowed of None \<Rightarrow> True | Some p \<Rightarrow> ap_allows p meta)"

definition stats ::
    "dates \<Rightarrow> index \<Rightarrow> query_plan \<Rightarrow> condition list \<Rightarrow> time_filters \<Rightarrow> allowed_pred option \<Rightarrow> int \<Rightarrow> int \<times> int" where
  "stats D idx plan conditions f isAllowed now =
     (if qp_exact plan then
        fold (\<lambda>entry (N, sumDl).
          (case entry of
             None \<Rightarrow> (N, sumDl)
           | Some e \<Rightarrow>
               if matchesConditions conditions (s_meta e) \<and> passesRecordFilters D (s_meta e) f now \<and>
                  allows isAllowed (s_meta e)
               then (N + 1, sumDl + int (s_dl e)) else (N, sumDl))) (bx_slots idx) (0, 0)
      else
        fold (\<lambda>(pkey, a) (N, sumDl).
          (if agg_count a = 0 then (N, sumDl)
           else case map_of (bx_partitionRep idx) pkey of
               None \<Rightarrow> (N, sumDl)
             | Some rep \<Rightarrow>
                 if matchesConditions (qp_partitionConditions plan) rep \<and> allows isAllowed rep
                 then (N + agg_count a, sumDl + agg_sumDl a) else (N, sumDl)))
          (case qp_facet plan of
             None \<Rightarrow> bx_partitions idx
           | Some (attr, values) \<Rightarrow> mergeFacetAggregates (bx_facets idx) attr values) (0, 0))"

definition in_scope ::
    "dates \<Rightarrow> index \<Rightarrow> condition list \<Rightarrow> time_filters \<Rightarrow> allowed_pred option \<Rightarrow> int \<Rightarrow> nat \<Rightarrow> bool" where
  "in_scope D idx conditions f isAllowed now s =
     (case slot_at idx s of
        None \<Rightarrow> False
      | Some e \<Rightarrow> matchesConditions conditions (s_meta e) \<and> passesRecordFilters D (s_meta e) f now \<and>
                  allows isAllowed (s_meta e))"

definition rank ::
    "('f::linordered_field \<Rightarrow> 'f) \<Rightarrow> dates \<Rightarrow> condition list \<Rightarrow> time_filters \<Rightarrow> allowed_pred option \<Rightarrow> int \<Rightarrow>
     nat \<Rightarrow> string \<Rightarrow> index \<Rightarrow> string list option \<times> index" where
  "rank mlog D conditions f isAllowed now limit q idx0 =
     (case planQuery conditions f isAllowed of
        None \<Rightarrow> (None, idx0)
      | Some plan \<Rightarrow>
          let idx = sweep now idx0; qToks = js_set (tokenize q) in
          if qToks = [] then (Some [], idx)
          else
            let check = in_scope D idx conditions f isAllowed now;
                lists = (\<lambda>t. case map_of (bx_postings idx) t of None \<Rightarrow> [] | Some p \<Rightarrow> posting_list p);
                df = (\<lambda>t. length (filter (\<lambda>(s, _). check s) (lists t)));
                (N, sumDl) = stats D idx plan conditions f isAllowed now;
                avgdl = of_int sumDl / of_int (if N = 0 then 1 else N);
                lengthNorm = or_one avgdl;
                scores = fold (\<lambda>t scores.
                  fold (\<lambda>(s, tf) scores.
                    (if check s then
                       AList.update s ((case map_of scores s of None \<Rightarrow> 0 | Some v \<Rightarrow> v) +
                         term_weight (idf_of mlog N (df t)) tf
                           (case slot_at idx s of None \<Rightarrow> 0 | Some e \<Rightarrow> s_dl e) lengthNorm) scores
                     else scores)) (lists t) scores) qToks [];
                out = map (\<lambda>(s, v). (case slot_at idx s of None \<Rightarrow> [] | Some e \<Rightarrow> s_id e, v)) (filter (\<lambda>(s, v). 0 < v) scores) in
            (Some (map fst (take limit (sort_by score_le out))), idx))"

end
