(* ===== verification/Bm25Invariant.thy ===== *)
theory Bm25Invariant
  imports Bm25Index
begin

text \<open>
  The representation invariants of the lexical index over the corpus it stands for, and their
  preservation by every operation of \<open>Bm25Index\<close>.
\<close>

section \<open>Aggregates\<close>

definition agg_at :: "(string \<times> agg) list \<Rightarrow> string \<Rightarrow> int \<times> int" where
  "agg_at m k = (case map_of m k of None \<Rightarrow> (0, 0) | Some a \<Rightarrow> (agg_count a, agg_sumDl a))"

definition facet_at :: "(string \<times> (string \<times> agg) list) list \<Rightarrow> string \<Rightarrow> string \<Rightarrow> int \<times> int" where
  "facet_at F fk k = agg_at (case map_of F fk of None \<Rightarrow> [] | Some m \<Rightarrow> m) k"

lemma agg_at_Nil [simp]: "agg_at [] k = (0, 0)"
  by (simp add: agg_at_def)

lemma agg_at_bump:
  "agg_at (bump k dl n m) k' =
     (if k' = k then (fst (agg_at m k) + n, snd (agg_at m k) + dl) else agg_at m k')"
  by (auto simp: agg_at_def bump_def update_conv' split: option.split)

lemma bump_keys [simp]: "fst ` set (bump k dl n m) = insert k (fst ` set m)"
  "distinct (map fst m) \<Longrightarrow> distinct (map fst (bump k dl n m))"
  by (auto simp: bump_def split: option.split dest: map_of_SomeD)

lemma facet_at_bump_facet:
  "facet_at (bump_facet k dl n fk F) fk' k' =
     (if fk' = fk \<and> k' = k then (fst (facet_at F fk k) + n, snd (facet_at F fk k) + dl) else facet_at F fk' k')"
  by (auto simp: facet_at_def bump_facet_def update_conv' agg_at_bump split: option.split)

lemma facet_at_unbump_facet:
  "map_of F fk \<noteq> None \<Longrightarrow> facet_at (unbump_facet k dl fk F) fk' k' =
     (if fk' = fk \<and> k' = k then (fst (facet_at F fk k) - 1, snd (facet_at F fk k) - dl) else facet_at F fk' k')"
  by (auto simp: facet_at_def unbump_facet_def update_conv' agg_at_bump split: option.split)

definition facets_distinct :: "(string \<times> (string \<times> agg) list) list \<Rightarrow> bool" where
  "facets_distinct F \<longleftrightarrow> (\<forall>fk m. map_of F fk = Some m \<longrightarrow> distinct (map fst m))"

lemma facets_distinct_bump: "facets_distinct F \<Longrightarrow> facets_distinct (bump_facet k dl n fk F)"
  by (auto simp: facets_distinct_def bump_facet_def update_conv' split: option.split)

lemma facets_distinct_unbump: "facets_distinct F \<Longrightarrow> facets_distinct (unbump_facet k dl fk F)"
  by (auto simp: facets_distinct_def unbump_facet_def update_conv' split: option.split)

lemma facet_key_present:
  "map_of (bump_facet k dl n fk F) fk' = None \<longleftrightarrow> fk' \<noteq> fk \<and> map_of F fk' = None"
  "map_of (unbump_facet k dl fk F) fk' = None \<longleftrightarrow> map_of F fk' = None"
  by (auto simp: bump_facet_def unbump_facet_def update_conv' split: option.split)

lemma fold_bump_facet:
  "facet_at (fold (bump_facet k dl 1) fks F) fk k' =
     (if k' = k then (fst (facet_at F fk k) + int (count_list fks fk), snd (facet_at F fk k) + int (count_list fks fk) * dl)
      else facet_at F fk k')"
  by (induction fks arbitrary: F) (auto simp: facet_at_bump_facet algebra_simps)

lemma fold_bump_facet_distinct: "facets_distinct F \<Longrightarrow> facets_distinct (fold (bump_facet k dl 1) fks F)"
  by (induction fks arbitrary: F) (auto simp: facets_distinct_bump)

lemma fold_bump_facet_present:
  "map_of (fold (bump_facet k dl 1) fks F) fk = None \<longleftrightarrow> fk \<notin> set fks \<and> map_of F fk = None"
  by (induction fks arbitrary: F) (auto simp: facet_key_present)

lemma fold_unbump_facet:
  "(\<forall>x \<in> set fks. map_of F x \<noteq> None) \<Longrightarrow>
   facet_at (fold (unbump_facet k dl) fks F) fk k' =
     (if k' = k then (fst (facet_at F fk k) - int (count_list fks fk), snd (facet_at F fk k) - int (count_list fks fk) * dl)
      else facet_at F fk k')"
proof (induction fks arbitrary: F)
  case (Cons x fks)
  have p: "\<forall>y \<in> set fks. map_of (unbump_facet k dl x F) y \<noteq> None"
    using Cons.prems by (simp add: facet_key_present)
  have x: "map_of F x \<noteq> None" using Cons.prems by simp
  show ?case
    using Cons.IH [OF p] by (auto simp: facet_at_unbump_facet [OF x] algebra_simps)
qed simp

lemma fold_unbump_facet_distinct: "facets_distinct F \<Longrightarrow> facets_distinct (fold (unbump_facet k dl) fks F)"
  by (induction fks arbitrary: F) (auto simp: facets_distinct_unbump)

lemma fold_unbump_facet_present: "map_of (fold (unbump_facet k dl) fks F) fk = None \<longleftrightarrow> map_of F fk = None"
  by (induction fks arbitrary: F) (auto simp: facet_key_present)

definition rep_of :: "jobj \<Rightarrow> jobj" where
  "rep_of m = [(''id'', Str []), (''agentId'', getp m ''agentId''), (''visibility'', getp m ''visibility''),
     (''archived'', getp m ''archived'')]"

text \<open>The aggregates count the slots of \<open>A\<close>, whose entries are \<open>E\<close> and satisfy \<open>P\<close>.\<close>

definition key_sum :: "nat set \<Rightarrow> (nat \<Rightarrow> slot) \<Rightarrow> (slot \<Rightarrow> int) \<Rightarrow> string \<Rightarrow> int" where
  "key_sum A E w k = (\<Sum>s\<in>A. if s_pkey (E s) = k then w (E s) else 0)"

lemma key_sum_cong: "(\<And>s. s \<in> A \<Longrightarrow> E' s = E s) \<Longrightarrow> key_sum A E' w k = key_sum A E w k"
  unfolding key_sum_def by (rule sum.cong) auto

lemma key_sum_insert: "finite A \<Longrightarrow> s \<notin> A \<Longrightarrow>
    key_sum (insert s A) E w k = (if s_pkey (E s) = k then w (E s) else 0) + key_sum A E w k"
  by (simp add: key_sum_def)

lemma key_sum_remove: "finite A \<Longrightarrow> s \<in> A \<Longrightarrow>
    key_sum (A - {s}) E w k = key_sum A E w k - (if s_pkey (E s) = k then w (E s) else 0)"
  unfolding key_sum_def by (subst sum_diff1) auto

definition facet_count :: "string \<Rightarrow> slot \<Rightarrow> int" where
  "facet_count fk e = int (count_list (facetKeysOf (s_meta e)) fk)"

definition agg_inv ::
    "(jobj \<Rightarrow> bool) \<Rightarrow> nat set \<Rightarrow> (nat \<Rightarrow> slot) \<Rightarrow> (string \<times> agg) list \<Rightarrow>
     (string \<times> (string \<times> agg) list) list \<Rightarrow> (string \<times> jobj) list \<Rightarrow> bool" where
  "agg_inv P A E parts F reps \<longleftrightarrow>
     distinct (map fst parts) \<and> facets_distinct F \<and>
     (\<forall>k. agg_at parts k = (key_sum A E (\<lambda>_. 1) k, key_sum A E (\<lambda>e. int (s_dl e)) k)) \<and>
     (\<forall>fk k. facet_at F fk k =
        (key_sum A E (facet_count fk) k, key_sum A E (\<lambda>e. facet_count fk e * int (s_dl e)) k)) \<and>
     (\<forall>s\<in>A. \<forall>fk\<in>set (facetKeysOf (s_meta (E s))). map_of F fk \<noteq> None) \<and>
     (\<forall>k rep. map_of reps k = Some rep \<longrightarrow> (\<exists>m. P m \<and> partitionKeyOf m = k \<and> rep = rep_of m)) \<and>
     (\<forall>s\<in>A. map_of reps (s_pkey (E s)) \<noteq> None)"

lemma agg_inv_empty: "agg_inv P {} E [] [] []"
  by (simp add: agg_inv_def facets_distinct_def facet_at_def key_sum_def)

lemma agg_inv_cong:
  assumes "agg_inv P A E parts F reps" "\<And>s. s \<in> A \<Longrightarrow> E' s = E s"
  shows "agg_inv P A E' parts F reps"
  using assms(1) key_sum_cong [of A E' E] assms(2) unfolding agg_inv_def by simp

lemma agg_inv_add:
  assumes inv: "agg_inv P A E parts F reps" and fin: "finite A" and s: "s \<notin> A" "E s = e"
    and e: "P (s_meta e)" "s_pkey e = partitionKeyOf (s_meta e)"
  shows "agg_inv P (insert s A) E (bump (s_pkey e) (int (s_dl e)) 1 parts)
     (fold (bump_facet (s_pkey e) (int (s_dl e)) 1) (facetKeysOf (s_meta e)) F)
     (if map_of reps (s_pkey e) \<noteq> None then reps else AList.update (s_pkey e) (rep_of (s_meta e)) reps)"
    (is "agg_inv P ?A E ?parts ?F ?reps")
proof -
  note i = inv [unfolded agg_inv_def]
  have "agg_at ?parts k = (key_sum ?A E (\<lambda>_. 1) k, key_sum ?A E (\<lambda>e. int (s_dl e)) k)" for k
    using i by (auto simp: agg_at_bump key_sum_insert [OF fin s(1)] s(2))
  moreover have "facet_at ?F fk k = (key_sum ?A E (facet_count fk) k, key_sum ?A E (\<lambda>e. facet_count fk e * int (s_dl e)) k)"
    for fk k
    using i by (auto simp: fold_bump_facet key_sum_insert [OF fin s(1)] s(2) facet_count_def)
  moreover have "distinct (map fst ?parts) \<and> facets_distinct ?F" using i by (simp add: fold_bump_facet_distinct)
  moreover have "\<forall>s\<in>?A. \<forall>fk\<in>set (facetKeysOf (s_meta (E s))). map_of ?F fk \<noteq> None"
    using i s(2) by (auto simp: fold_bump_facet_present)
  moreover have "\<forall>k rep. map_of ?reps k = Some rep \<longrightarrow> (\<exists>m. P m \<and> partitionKeyOf m = k \<and> rep = rep_of m)"
    using i e by (auto simp: update_conv')
  moreover have "\<forall>s\<in>?A. map_of ?reps (s_pkey (E s)) \<noteq> None"
    using i s(2) by (auto simp: update_conv')
  ultimately show ?thesis unfolding agg_inv_def by blast
qed

lemma agg_inv_remove:
  assumes inv: "agg_inv P A E parts F reps" and fin: "finite A" and s: "s \<in> A" "E s = e"
  shows "agg_inv P (A - {s}) E (bump (s_pkey e) (- int (s_dl e)) (- 1) parts)
     (fold (unbump_facet (s_pkey e) (int (s_dl e))) (facetKeysOf (s_meta e)) F) reps"
    (is "agg_inv P ?A E ?parts ?F reps")
proof -
  note i = inv [unfolded agg_inv_def]
  have p: "\<forall>x \<in> set (facetKeysOf (s_meta e)). map_of F x \<noteq> None" using i s by blast
  have "agg_at ?parts k = (key_sum ?A E (\<lambda>_. 1) k, key_sum ?A E (\<lambda>e. int (s_dl e)) k)" for k
    using i by (auto simp: agg_at_bump key_sum_remove [OF fin s(1)] s(2))
  moreover have "facet_at ?F fk k = (key_sum ?A E (facet_count fk) k, key_sum ?A E (\<lambda>e. facet_count fk e * int (s_dl e)) k)"
    for fk k
    using i by (auto simp: fold_unbump_facet [OF p] key_sum_remove [OF fin s(1)] s(2) facet_count_def)
  moreover have "distinct (map fst ?parts) \<and> facets_distinct ?F" using i by (simp add: fold_unbump_facet_distinct)
  moreover have "\<forall>s\<in>?A. \<forall>fk\<in>set (facetKeysOf (s_meta (E s))). map_of ?F fk \<noteq> None"
    using i by (auto simp: fold_unbump_facet_present)
  ultimately show ?thesis using i unfolding agg_inv_def by blast
qed

section \<open>Postings\<close>

definition posting_ok :: "posting \<Rightarrow> bool" where
  "posting_ok p \<longleftrightarrow> p_len p \<le> length (p_slots p) \<and> length (p_tfs p) = length (p_slots p) \<and> 0 < length (p_slots p)"

definition plist :: "(string \<times> posting) list \<Rightarrow> string \<Rightarrow> (nat \<times> nat) list" where
  "plist ps t = (case map_of ps t of None \<Rightarrow> [] | Some p \<Rightarrow> posting_list p)"

definition postings_ok :: "(string \<times> posting) list \<Rightarrow> bool" where
  "postings_ok ps \<longleftrightarrow> distinct (map fst ps) \<and> (\<forall>t p. map_of ps t = Some p \<longrightarrow> posting_ok p)"

lemma emptyPosting_ok [simp]: "posting_ok emptyPosting" "posting_list emptyPosting = []"
  by (simp_all add: posting_ok_def emptyPosting_def posting_list_def)

lemma take_zip_update:
  "n < length xs \<Longrightarrow> length ys = length xs \<Longrightarrow>
   take (Suc n) (zip (xs[n := x]) (ys[n := y])) = take n (zip xs ys) @ [(x, y)]"
  by (simp add: take_Suc_conv_app_nth take_zip)

lemma pushPosting:
  assumes "posting_ok p"
  shows "posting_ok (pushPosting p s f)" "posting_list (pushPosting p s f) = posting_list p @ [(s, f)]"
proof -
  show "posting_ok (pushPosting p s f)"
    using assms by (auto simp: posting_ok_def pushPosting_def Let_def Suc_le_eq)
  show "posting_list (pushPosting p s f) = posting_list p @ [(s, f)]"
  proof (cases "p_len p = length (p_slots p)")
    case True
    let ?n = "length (p_slots p)"
    let ?xs = "p_slots p @ replicate ?n 0" and ?ys = "p_tfs p @ replicate (length (p_tfs p)) 0"
    have "take (Suc ?n) (zip (?xs[?n := s]) (?ys[?n := f])) = take ?n (zip ?xs ?ys) @ [(s, f)]"
      by (rule take_zip_update) (use assms in \<open>auto simp: posting_ok_def\<close>)
    moreover have "take ?n (zip ?xs ?ys) = zip (p_slots p) (p_tfs p)"
      using assms by (simp add: posting_ok_def zip_append)
    ultimately show ?thesis using True assms
      by (simp add: posting_ok_def pushPosting_def posting_list_def)
  next
    case False
    then show ?thesis using assms
      by (simp add: posting_ok_def pushPosting_def posting_list_def take_zip_update)
  qed
qed

lemma add_posting:
  assumes "postings_ok ps"
  shows "postings_ok (add_posting s (t, f) ps)"
    "plist (add_posting s (t, f) ps) t' = plist ps t' @ (if t' = t then [(s, f)] else [])"
  using assms pushPosting [of "case map_of ps t of None \<Rightarrow> emptyPosting | Some p \<Rightarrow> p" s f]
  by (auto simp: postings_ok_def plist_def add_posting_def update_conv' split: option.splits)

lemma add_postings:
  assumes "postings_ok ps" "distinct (map fst tf)"
  shows "postings_ok (fold (add_posting s) tf ps) \<and>
    plist (fold (add_posting s) tf ps) t = plist ps t @ (case map_of tf t of None \<Rightarrow> [] | Some f \<Rightarrow> [(s, f)])"
  using assms
proof (induction tf arbitrary: ps)
  case (Cons x tf)
  obtain t0 f0 where x: "x = (t0, f0)" by (cases x)
  note a = add_posting [OF Cons.prems(1), of s t0 f0]
  have n: "map_of tf t0 = None" using Cons.prems(2) x by (simp add: map_of_eq_None_iff)
  show ?case using Cons.IH [OF a(1)] Cons.prems(2) x a(2) n by auto
qed simp

definition kept :: "slot option list \<Rightarrow> nat \<times> nat \<Rightarrow> bool" where
  "kept slots x \<longleftrightarrow> fst x < length slots \<and> slots ! fst x \<noteq> None"

lemma compact_postings:
  assumes "postings_ok ps"
  shows "postings_ok (compact_postings slots ps) \<and>
    fst ` set (compact_postings slots ps) \<subseteq> fst ` set ps \<and>
    (\<forall>t. plist (compact_postings slots ps) t = filter (kept slots) (plist ps t))"
  using assms
proof (induction ps)
  case Nil
  show ?case by (simp add: postings_ok_def plist_def)
next
  case (Cons x ps)
  obtain t0 p where x: "x = (t0, p)" by (cases x)
  let ?k = "filter (kept slots) (posting_list p)"
  let ?w = "length ?k"
  let ?p = "\<lparr>p_slots = map fst ?k @ drop ?w (p_slots p), p_tfs = map snd ?k @ drop ?w (p_tfs p), p_len = ?w\<rparr>"
  have k: "filter (\<lambda>(s, f). s < length slots \<and> slots ! s \<noteq> None) (posting_list p) = ?k"
    by (rule filter_cong) (auto simp: kept_def)
  have ok: "posting_ok p" using Cons.prems x by (auto simp: postings_ok_def dest: spec [of _ t0])
  have d: "t0 \<notin> fst ` set ps" "distinct (map fst ps)" using Cons.prems x by (simp_all add: postings_ok_def)
  have tail: "postings_ok ps"
    unfolding postings_ok_def
  proof (intro conjI allI impI)
    fix t q assume "map_of ps t = Some q"
    then have "map_of ((t0, p) # ps) t = Some q" using d(1) by (auto dest: map_of_SomeD intro: rev_image_eqI)
    then show "posting_ok q" using Cons.prems x by (simp add: postings_ok_def)
  qed (rule d(2))
  note IH = Cons.IH [OF tail]
  have t0: "plist ps t0 = []" using d(1) by (simp add: plist_def map_of_eq_None_iff [THEN iffD2])
  have w: "?w \<le> length (p_slots p)"
    using ok length_filter_le [of "kept slots" "posting_list p"] by (simp add: posting_ok_def posting_list_def)
  have pok: "posting_ok ?p" using ok w by (simp add: posting_ok_def)
  have pl: "posting_list ?p = ?k"
    using ok w by (simp add: posting_list_def posting_ok_def zip_append zip_map_fst_snd)
  show ?case
  proof (cases "?w = 0")
    case True
    then have c: "compact_postings slots (x # ps) = compact_postings slots ps"
      unfolding x compact_postings.simps k by (simp add: Let_def)
    have "plist (compact_postings slots ps) t = filter (kept slots) (plist (x # ps) t)" for t
      using IH True t0 x by (auto simp: plist_def)
    then show ?thesis using IH x unfolding c by auto
  next
    case False
    then have c: "compact_postings slots (x # ps) = (t0, ?p) # compact_postings slots ps"
      unfolding x compact_postings.simps k by (simp only: Let_def if_False)
    have "plist (compact_postings slots (x # ps)) t = filter (kept slots) (plist (x # ps) t)" for t
      using IH x pl unfolding c by (simp add: plist_def)
    moreover have "postings_ok (compact_postings slots (x # ps))"
      using IH d(1) pok unfolding c postings_ok_def by auto
    ultimately show ?thesis using IH x unfolding c by auto
  qed
qed

section \<open>The invariant\<close>

definition live :: "index \<Rightarrow> nat set" where
  "live idx = {s. slot_at idx s \<noteq> None}"

definition ent :: "index \<Rightarrow> nat \<Rightarrow> slot" where
  "ent idx s = the (slot_at idx s)"

definition active :: "index \<Rightarrow> nat set" where
  "active idx = live idx - bx_retired idx"

lemma finite_live [simp]: "finite (live idx)"
  by (rule finite_subset [of _ "{..<length (bx_slots idx)}"]) (auto simp: live_def slot_at_def split: if_splits)

lemma finite_active [simp]: "finite (active idx)"
  by (simp add: active_def)

definition slots_inv :: "dates \<Rightarrow> (string \<Rightarrow> jobj option) \<Rightarrow> index \<Rightarrow> bool" where
  "slots_inv D C idx \<longleftrightarrow>
     distinct (map fst (bx_slotOf idx)) \<and>
     (\<forall>i s. map_of (bx_slotOf idx) i = Some s \<longrightarrow> (\<exists>r. C i = Some r \<and> slot_at idx s = Some (entry_of D r))) \<and>
     (\<forall>i r. C i = Some r \<longrightarrow> id_of r = i \<and> i \<noteq> [] \<and> map_of (bx_slotOf idx) i \<noteq> None) \<and>
     (\<forall>s e. slot_at idx s = Some e \<longrightarrow> map_of (bx_slotOf idx) (s_id e) = Some s) \<and>
     distinct (bx_freeSlots idx) \<and>
     (\<forall>s \<in> set (bx_freeSlots idx). s < length (bx_slots idx) \<and> bx_slots idx ! s = None)"

definition term_hits :: "nat \<Rightarrow> jobj \<Rightarrow> string \<Rightarrow> (nat \<times> nat) list" where
  "term_hits s r t =
     (let toks = tokenize (content_of r) in if t \<in> set toks then [(s, count_list toks t)] else [])"

definition post_inv :: "(string \<Rightarrow> jobj option) \<Rightarrow> index \<Rightarrow> bool" where
  "post_inv C idx \<longleftrightarrow>
     postings_ok (bx_postings idx) \<and>
     (\<forall>t x. x \<in> set (plist (bx_postings idx) t) \<longrightarrow> fst x < length (bx_slots idx) \<and> fst x \<notin> set (bx_freeSlots idx)) \<and>
     (\<forall>i s r t. map_of (bx_slotOf idx) i = Some s \<and> C i = Some r \<longrightarrow>
        filter (\<lambda>x. fst x = s) (plist (bx_postings idx) t) = term_hits s r t)"

definition exp_inv :: "index \<Rightarrow> bool" where
  "exp_inv idx \<longleftrightarrow>
     is_heap (bx_expiryHeap idx) \<and> (\<forall>x \<in> set (bx_expiryHeap idx). bx_sweptTo idx \<le> fst x) \<and>
     bx_retired idx \<subseteq> live idx \<and>
     (\<forall>s \<in> bx_retired idx. \<exists>x. s_expiry (ent idx s) = Some x \<and> x \<le> bx_sweptTo idx) \<and>
     (\<forall>s \<in> active idx. \<forall>x. s_expiry (ent idx s) = Some x \<longrightarrow> (x, s) \<in> set (bx_expiryHeap idx))"

definition body_inv :: "(string \<Rightarrow> jobj option) \<Rightarrow> index \<Rightarrow> bool" where
  "body_inv C idx \<longleftrightarrow>
     distinct (map fst (bx_cachedBodies idx)) \<and>
     bx_cachedBodyChars idx = int (sum_list (map (\<lambda>x. length (snd x)) (bx_cachedBodies idx))) \<and>
     bx_cachedBodyChars idx \<le> int MAX_CACHED_BODY_CHARS \<and> length (bx_cachedBodies idx) \<le> MAX_CACHED_BODIES \<and>
     (\<forall>i c. map_of (bx_cachedBodies idx) i = Some c \<longrightarrow> (\<exists>r. C i = Some r \<and> content_of r = c))"

definition idx_inv :: "dates \<Rightarrow> (jobj \<Rightarrow> bool) \<Rightarrow> (string \<Rightarrow> jobj option) \<Rightarrow> index \<Rightarrow> bool" where
  "idx_inv D P C idx \<longleftrightarrow>
     slots_inv D C idx \<and> post_inv C idx \<and> exp_inv idx \<and> body_inv C idx \<and>
     agg_inv P (active idx) (ent idx) (bx_partitions idx) (bx_facets idx) (bx_partitionRep idx) \<and>
     (\<forall>i r. C i = Some r \<longrightarrow> P (meta_of r))"

section \<open>The cache of bodies\<close>

lemma forgetBody_frame: "\<exists>b c. forgetBody i idx = idx\<lparr>bx_cachedBodyChars := c, bx_cachedBodies := b\<rparr>"
proof (cases "map_of (bx_cachedBodies idx) i")
  case None
  then show ?thesis by (intro exI [of _ "bx_cachedBodies idx"] exI [of _ "bx_cachedBodyChars idx"]) (simp add: forgetBody_def)
qed (auto simp: forgetBody_def)

lemma evict_bodies_frame: "\<exists>b c. evict_bodies n idx = idx\<lparr>bx_cachedBodyChars := c, bx_cachedBodies := b\<rparr>"
proof (induction n idx rule: evict_bodies.induct)
  case (1 n idx)
  show ?case
  proof (cases "bx_cachedBodies idx \<noteq> [] \<and>
         (MAX_CACHED_BODIES \<le> length (bx_cachedBodies idx) \<or> int MAX_CACHED_BODY_CHARS < bx_cachedBodyChars idx + int n)")
    case True
    obtain b c where "forgetBody (fst (hd (bx_cachedBodies idx))) idx = idx\<lparr>bx_cachedBodyChars := c, bx_cachedBodies := b\<rparr>"
      using forgetBody_frame by blast
    then show ?thesis using "1.IH" [OF True] True by (subst evict_bodies.simps) auto
  next
    case False
    then have "evict_bodies n idx = idx" by (subst evict_bodies.simps) auto
    then show ?thesis by (intro exI [of _ "bx_cachedBodies idx"] exI [of _ "bx_cachedBodyChars idx"]) simp
  qed
qed

lemma rememberBody_frame: "\<exists>b c. rememberBody i t idx = idx\<lparr>bx_cachedBodyChars := c, bx_cachedBodies := b\<rparr>"
proof -
  obtain b c where 1: "forgetBody i idx = idx\<lparr>bx_cachedBodyChars := c, bx_cachedBodies := b\<rparr>"
    using forgetBody_frame by blast
  obtain b' c' where 2: "evict_bodies (length t) (forgetBody i idx) =
      (forgetBody i idx)\<lparr>bx_cachedBodyChars := c', bx_cachedBodies := b'\<rparr>"
    using evict_bodies_frame by blast
  show ?thesis
  proof (cases "MAX_CACHED_BODY_CHARS < length t")
    case True
    then show ?thesis by (auto simp: rememberBody_def 1)
  next
    case False
    then have "rememberBody i t idx = idx\<lparr>bx_cachedBodyChars := c' + int (length t), bx_cachedBodies := AList.update i t b'\<rparr>"
      using 2 by (simp add: rememberBody_def Let_def 1)
    then show ?thesis by blast
  qed
qed

text \<open>The fields the body cache does not touch.\<close>

lemma slot_at_frame [simp]:
  "slot_at (idx\<lparr>bx_cachedBodyChars := c, bx_cachedBodies := b\<rparr>) = slot_at idx"
  by (simp add: slot_at_def fun_eq_iff)

lemma frame_inv:
  assumes "idx' = idx\<lparr>bx_cachedBodyChars := c, bx_cachedBodies := b\<rparr>"
  shows "slots_inv D C idx' = slots_inv D C idx" "post_inv C idx' = post_inv C idx" "exp_inv idx' = exp_inv idx"
    "active idx' = active idx" "ent idx' = ent idx" "bx_partitions idx' = bx_partitions idx"
    "bx_facets idx' = bx_facets idx" "bx_partitionRep idx' = bx_partitionRep idx" "live idx' = live idx"
  by (simp_all add: assms slots_inv_def post_inv_def exp_inv_def active_def live_def ent_def fun_eq_iff)

lemma delete_absent: "i \<notin> fst ` set m \<Longrightarrow> AList.delete i m = m"
  by (induction m) auto

lemma sum_lengths_delete:
  "distinct (map fst m) \<Longrightarrow> map_of m i = Some c \<Longrightarrow>
   sum_list (map (\<lambda>x. length (snd x)) (AList.delete i m)) + length c = sum_list (map (\<lambda>x. length (snd x)) m)"
proof (induction m)
  case (Cons x m)
  show ?case
  proof (cases "fst x = i")
    case True
    then have "AList.delete i (x # m) = m" using Cons.prems(1) by (cases x) (simp add: delete_absent)
    then show ?thesis using Cons.prems(2) True by (cases x) simp
  next
    case False
    then show ?thesis using Cons by (cases x) auto
  qed
qed simp

lemma forgetBody_inv:
  assumes "body_inv C idx"
  shows "body_inv C (forgetBody i idx)" "map_of (bx_cachedBodies (forgetBody i idx)) i = None"
proof -
  show "map_of (bx_cachedBodies (forgetBody i idx)) i = None"
    by (auto simp: forgetBody_def delete_conv' split: option.split)
  show "body_inv C (forgetBody i idx)"
  proof (cases "map_of (bx_cachedBodies idx) i")
    case (Some c)
    have d: "distinct (map fst (bx_cachedBodies idx))" using assms by (simp add: body_inv_def)
    have "length (AList.delete i (bx_cachedBodies idx)) \<le> length (bx_cachedBodies idx)" by (simp add: AList.delete_eq)
    then show ?thesis
      using assms sum_lengths_delete [OF d Some] Some
      by (auto simp: body_inv_def forgetBody_def delete_conv')
  qed (use assms in \<open>simp add: forgetBody_def\<close>)
qed

text \<open>The eviction loop never runs on an empty cache, so the code's loop ends with the model's.\<close>

lemma body_cache_empty: "body_inv C idx \<Longrightarrow> bx_cachedBodies idx = [] \<Longrightarrow> bx_cachedBodyChars idx = 0"
  by (simp add: body_inv_def)

lemma evict_bodies_inv:
  assumes "body_inv C idx" "n \<le> MAX_CACHED_BODY_CHARS"
  shows "body_inv C (evict_bodies n idx) \<and> length (bx_cachedBodies (evict_bodies n idx)) < MAX_CACHED_BODIES \<and>
    bx_cachedBodyChars (evict_bodies n idx) + int n \<le> int MAX_CACHED_BODY_CHARS \<and>
    (map_of (bx_cachedBodies idx) i = None \<longrightarrow> map_of (bx_cachedBodies (evict_bodies n idx)) i = None)"
  using assms
proof (induction n idx rule: evict_bodies.induct)
  case (1 n idx)
  show ?case
  proof (cases "bx_cachedBodies idx \<noteq> [] \<and>
         (MAX_CACHED_BODIES \<le> length (bx_cachedBodies idx) \<or> int MAX_CACHED_BODY_CHARS < bx_cachedBodyChars idx + int n)")
    case True
    let ?k = "fst (hd (bx_cachedBodies idx))"
    have "map_of (bx_cachedBodies (forgetBody ?k idx)) i = None" if "map_of (bx_cachedBodies idx) i = None"
      using that by (auto simp: forgetBody_def delete_conv' split: option.split)
    then show ?thesis
      using "1.IH" [OF True forgetBody_inv(1) [OF "1.prems"(1)] "1.prems"(2)] True
      by (subst (1 2 3 4) evict_bodies.simps) auto
  next
    case False
    then have e: "evict_bodies n idx = idx" by (subst evict_bodies.simps) auto
    show ?thesis
    proof (cases "bx_cachedBodies idx = []")
      case True
      then show ?thesis using e "1.prems" body_cache_empty [OF "1.prems"(1) True]
        by (simp add: MAX_CACHED_BODIES_def)
    qed (use False e "1.prems"(1) in auto)
  qed
qed

lemma body_inv_change:
  assumes "body_inv C idx" "\<And>i c. map_of (bx_cachedBodies idx) i = Some c \<Longrightarrow> C' i = C i"
  shows "body_inv C' idx"
  using assms by (auto simp: body_inv_def)

lemma rememberBody_inv:
  assumes "body_inv C idx" "C i = Some r" "content_of r = c"
  shows "body_inv C (rememberBody i c idx)"
proof (cases "MAX_CACHED_BODY_CHARS < length c")
  case True
  then show ?thesis using forgetBody_inv [OF assms(1)] by (simp add: rememberBody_def)
next
  case False
  let ?i2 = "evict_bodies (length c) (forgetBody i idx)"
  have e: "body_inv C ?i2 \<and> length (bx_cachedBodies ?i2) < MAX_CACHED_BODIES \<and>
      bx_cachedBodyChars ?i2 + int (length c) \<le> int MAX_CACHED_BODY_CHARS \<and> map_of (bx_cachedBodies ?i2) i = None"
    using evict_bodies_inv [OF forgetBody_inv(1) [OF assms(1), of i], of "length c" i]
      forgetBody_inv(2) [OF assms(1), of i] False by simp
  have u: "AList.update i c (bx_cachedBodies ?i2) = bx_cachedBodies ?i2 @ [(i, c)]"
    using e by (intro update_absent) (auto simp: map_of_eq_None_iff)
  have k: "i \<notin> fst ` set (bx_cachedBodies ?i2)" using e by (simp add: map_of_eq_None_iff)
  have m: "map_of (bx_cachedBodies ?i2 @ [(i, c)]) j = (if j = i then Some c else map_of (bx_cachedBodies ?i2) j)" for j
    using e by (auto simp: map_add_def split: option.split)
  show ?thesis
    using e k m assms(2,3) False unfolding body_inv_def
    by (auto simp: rememberBody_def Let_def u)
qed

section \<open>Removing a document\<close>

lemma slots_invD:
  assumes "slots_inv D C idx"
  shows "map_of (bx_slotOf idx) i = Some s \<Longrightarrow> \<exists>r. C i = Some r \<and> slot_at idx s = Some (entry_of D r)"
    "C i = Some r \<Longrightarrow> id_of r = i \<and> i \<noteq> [] \<and> (\<exists>s. map_of (bx_slotOf idx) i = Some s \<and> slot_at idx s = Some (entry_of D r))"
    "slot_at idx s = Some e \<Longrightarrow> map_of (bx_slotOf idx) (s_id e) = Some s"
    "slot_at idx s = Some e \<Longrightarrow> \<exists>r. C (s_id e) = Some r \<and> e = entry_of D r"
proof -
  note i = assms [unfolded slots_inv_def]
  show a: "\<exists>r. C i = Some r \<and> slot_at idx s = Some (entry_of D r)" if "map_of (bx_slotOf idx) i = Some s" for i s
    using i that by blast
  show "id_of r = i \<and> i \<noteq> [] \<and> (\<exists>s. map_of (bx_slotOf idx) i = Some s \<and> slot_at idx s = Some (entry_of D r))"
    if "C i = Some r" for i r
  proof -
    obtain s where "map_of (bx_slotOf idx) i = Some s" using i \<open>C i = Some r\<close> by blast
    then show ?thesis using i a [of i s] \<open>C i = Some r\<close> by auto
  qed
  show c: "map_of (bx_slotOf idx) (s_id e) = Some s" if "slot_at idx s = Some e" for s e
    using i that by blast
  show "\<exists>r. C (s_id e) = Some r \<and> e = entry_of D r" if "slot_at idx s = Some e" for s e
    using a [OF c [OF that]] that by auto
qed

lemma s_id_entry [simp]: "s_id (entry_of D r) = id_of r"
  by (simp add: entry_of_def Let_def)

lemma maybeCompact_inv:
  assumes "idx_inv D P C idx"
  shows "idx_inv D P C (maybeCompact idx)"
proof (cases "bx_deadPostings idx * 4 \<le> bx_totalPostings idx \<or> bx_totalPostings idx = 0")
  case True
  then show ?thesis using assms by (simp add: maybeCompact_def)
next
  case False
  let ?ps = "compact_postings (bx_slots idx) (bx_postings idx)"
  let ?idx = "maybeCompact idx"
  have f: "bx_slots ?idx = bx_slots idx" "bx_slotOf ?idx = bx_slotOf idx" "bx_retired ?idx = bx_retired idx"
    "bx_partitions ?idx = bx_partitions idx" "bx_facets ?idx = bx_facets idx"
    "bx_partitionRep ?idx = bx_partitionRep idx" "bx_expiryHeap ?idx = bx_expiryHeap idx"
    "bx_sweptTo ?idx = bx_sweptTo idx" "bx_cachedBodies ?idx = bx_cachedBodies idx"
    "bx_cachedBodyChars ?idx = bx_cachedBodyChars idx" "bx_postings ?idx = ?ps"
    "bx_freeSlots ?idx = filter (\<lambda>s. bx_slots idx ! s = None) [0..<length (bx_slots idx)]"
    using False by (simp_all add: maybeCompact_def Let_def)
  have sl: "slot_at ?idx = slot_at idx" by (simp add: slot_at_def fun_eq_iff f)
  then have same: "live ?idx = live idx" "ent ?idx = ent idx" "active ?idx = active idx"
    by (simp_all add: live_def ent_def active_def fun_eq_iff f)
  have pi: "post_inv C idx" "slots_inv D C idx" using assms by (simp_all add: idx_inv_def)
  note c = compact_postings [of "bx_postings idx" "bx_slots idx"]
  have ok: "postings_ok (bx_postings idx)" using pi(1) by (simp add: post_inv_def)
  have pl: "plist ?ps t = filter (kept (bx_slots idx)) (plist (bx_postings idx) t)" for t using c [OF ok] by blast
  have "post_inv C ?idx"
    unfolding post_inv_def f pl
  proof (intro conjI allI impI)
    show "postings_ok ?ps" using c [OF ok] by blast
    fix t x assume "x \<in> set (filter (kept (bx_slots idx)) (plist (bx_postings idx) t))"
    then have k: "kept (bx_slots idx) x" by simp
    then show "fst x < length (bx_slots idx)" by (simp add: kept_def)
    show "fst x \<notin> set (filter (\<lambda>s. bx_slots idx ! s = None) [0..<length (bx_slots idx)])"
      using k by (simp add: kept_def)
  next
    fix i s r t assume a: "map_of (bx_slotOf idx) i = Some s \<and> C i = Some r"
    then have "slot_at idx s \<noteq> None" using slots_invD(1) [OF pi(2)] by fastforce
    then have "filter (\<lambda>x. fst x = s) (filter (kept (bx_slots idx)) (plist (bx_postings idx) t))
        = filter (\<lambda>x. fst x = s) (plist (bx_postings idx) t)"
      by (auto simp: filter_filter kept_def slot_at_def intro!: filter_cong split: if_splits)
    then show "filter (\<lambda>x. fst x = s) (filter (kept (bx_slots idx)) (plist (bx_postings idx) t)) = term_hits s r t"
      using pi(1) a by (simp add: post_inv_def)
  qed
  moreover have "slots_inv D C ?idx"
    unfolding slots_inv_def sl f
    by (intro conjI; (rule pi(2) [unfolded slots_inv_def, THEN conjunct1] | use pi(2) [unfolded slots_inv_def] in blast | simp))
  moreover have "exp_inv ?idx" using assms by (simp add: idx_inv_def exp_inv_def f same)
  moreover have "body_inv C ?idx" using assms by (simp add: idx_inv_def body_inv_def f)
  ultimately show ?thesis using assms by (simp add: idx_inv_def same f)
qed

lemma remove_inv:
  assumes "idx_inv D P C idx"
  shows "idx_inv D P (C(i := None)) (remove i idx)"
proof (cases "map_of (bx_slotOf idx) i")
  case None
  have "C i = None" using assms slots_invD(2) [of D C idx i] None by (cases "C i") (auto simp: idx_inv_def)
  then have "C(i := None) = C" by (simp add: fun_upd_idem)
  then show ?thesis using assms None by (simp add: remove_def)
next
  case (Some s)
  have inv: "slots_inv D C idx" "post_inv C idx" "exp_inv idx" "body_inv C idx"
    "agg_inv P (active idx) (ent idx) (bx_partitions idx) (bx_facets idx) (bx_partitionRep idx)"
    using assms by (simp_all add: idx_inv_def)
  note I = slots_invD [OF inv(1)]
  obtain r where r: "C i = Some r" "slot_at idx s = Some (entry_of D r)" using I(1) [OF Some] by blast
  let ?e = "entry_of D r"
  obtain b c where fb: "forgetBody i (idx\<lparr>bx_slotOf := AList.delete i (bx_slotOf idx)\<rparr>) =
      (idx\<lparr>bx_slotOf := AList.delete i (bx_slotOf idx)\<rparr>)\<lparr>bx_cachedBodyChars := c, bx_cachedBodies := b\<rparr>"
    using forgetBody_frame by blast
  define idx1 where "idx1 = (forgetBody i (idx\<lparr>bx_slotOf := AList.delete i (bx_slotOf idx)\<rparr>))\<lparr>bx_slots := (bx_slots idx)[s := None]\<rparr>"
  define idx' where "idx' = (if s \<in> bx_retired idx1 then idx1\<lparr>bx_retired := bx_retired idx1 - {s}\<rparr> else removeFromAggregates ?e idx1)"
  define idx2 where "idx2 = idx'\<lparr>bx_deadPostings := bx_deadPostings idx' + int (s_nTerms ?e)\<rparr>"
  have rm: "remove i idx = maybeCompact idx2" using Some r(2) by (simp add: remove_def Let_def idx2_def idx'_def idx1_def)
  have sb: "s < length (bx_slots idx)" using r(2) by (simp add: slot_at_def split: if_splits)
  have f: "bx_slots idx2 = (bx_slots idx)[s := None]" "bx_slotOf idx2 = AList.delete i (bx_slotOf idx)"
    "bx_freeSlots idx2 = bx_freeSlots idx" "bx_postings idx2 = bx_postings idx"
    "bx_expiryHeap idx2 = bx_expiryHeap idx" "bx_sweptTo idx2 = bx_sweptTo idx"
    "bx_retired idx2 = bx_retired idx - {s}" "bx_partitionRep idx2 = bx_partitionRep idx"
    "bx_cachedBodies idx2 = b" "bx_cachedBodyChars idx2 = c"
    by (auto simp: idx2_def idx'_def idx1_def fb removeFromAggregates_def)
  have at: "slot_at idx2 t = (if t = s then None else slot_at idx t)" for t
    using sb by (auto simp: slot_at_def f nth_list_update)
  have lv: "live idx2 = live idx - {s}" "active idx2 = active idx - {s}"
    by (auto simp: live_def active_def at f)
  have en: "ent idx2 t = ent idx t" if "t \<noteq> s" for t using that by (simp add: ent_def at)
  have es: "ent idx s = ?e" by (simp add: ent_def r(2))
  have uniq: "j = i" if A: "map_of (bx_slotOf idx) j = Some s" for j
  proof -
    obtain q where q: "C j = Some q" "slot_at idx s = Some (entry_of D q)" using I(1) [OF A] by blast
    then have "s_id (entry_of D q) = s_id (entry_of D r)" using r(2) by simp
    then show ?thesis using I(2) [OF q(1)] I(2) [OF r(1)] by simp
  qed
  have S: "slots_inv D (C(i := None)) idx2"
    unfolding slots_inv_def f
  proof (intro conjI allI impI ballI)
    show "distinct (map fst (AList.delete i (bx_slotOf idx)))" using inv(1) by (simp add: slots_inv_def)
    show "distinct (bx_freeSlots idx)" using inv(1) by (simp add: slots_inv_def)
    fix t assume "t \<in> set (bx_freeSlots idx)"
    then have "t < length (bx_slots idx)" "bx_slots idx ! t = None" using inv(1) by (auto simp: slots_inv_def)
    then show "t < length ((bx_slots idx)[s := None])" "(bx_slots idx)[s := None] ! t = None"
      by (simp, cases "t = s", simp_all)
  next
    fix j t assume a: "map_of (AList.delete i (bx_slotOf idx)) j = Some t"
    then have j: "j \<noteq> i" "map_of (bx_slotOf idx) j = Some t" by (auto simp: delete_conv' split: if_splits)
    then have "t \<noteq> s" using uniq by blast
    then show "\<exists>r. (C(i := None)) j = Some r \<and> slot_at idx2 t = Some (entry_of D r)" using I(1) [OF j(2)] j at by auto
  next
    fix j q assume "(C(i := None)) j = Some q"
    then have j: "j \<noteq> i" "C j = Some q" by (auto split: if_splits)
    show "id_of q = j" "j \<noteq> []" using I(2) [OF j(2)] by auto
    show "map_of (AList.delete i (bx_slotOf idx)) j \<noteq> None" using I(2) [OF j(2)] j(1) by (auto simp: delete_conv')
  next
    fix t e assume "slot_at idx2 t = Some e"
    then have t: "t \<noteq> s" "slot_at idx t = Some e" by (auto simp: at split: if_splits)
    have "s_id e \<noteq> i" using I(3) [OF t(2)] Some t(1) by auto
    then show "map_of (AList.delete i (bx_slotOf idx)) (s_id e) = Some t" using I(3) [OF t(2)] by (simp add: delete_conv')
  qed
  have Q: "post_inv (C(i := None)) idx2"
    using inv(2) unfolding post_inv_def f by (auto simp: delete_conv' split: if_splits)
  have X: "exp_inv idx2"
    using inv(3) unfolding exp_inv_def f lv by (auto simp: en)
  have "body_inv C (idx\<lparr>bx_slotOf := AList.delete i (bx_slotOf idx)\<rparr>)" using inv(4) by (simp add: body_inv_def)
  note fbi = forgetBody_inv [OF this, of i]
  have "body_inv (C(i := None)) (forgetBody i (idx\<lparr>bx_slotOf := AList.delete i (bx_slotOf idx)\<rparr>))"
    by (rule body_inv_change [OF fbi(1)]) (use fbi(2) in auto)
  then have B: "body_inv (C(i := None)) idx2" by (simp add: body_inv_def f fb)
  have A: "agg_inv P (active idx2) (ent idx2) (bx_partitions idx2) (bx_facets idx2) (bx_partitionRep idx2)"
  proof (cases "s \<in> bx_retired idx")
    case True
    then have "active idx2 = active idx" unfolding lv by (auto simp: active_def)
    moreover have "bx_partitions idx2 = bx_partitions idx" "bx_facets idx2 = bx_facets idx" using True by (simp_all add: idx2_def idx'_def idx1_def fb)
    moreover have "ent idx2 t = ent idx t" if "t \<in> active idx" for t
      using that True en [of t] unfolding active_def by blast
    ultimately show ?thesis
      using agg_inv_cong [OF inv(5), of "ent idx2"] by (simp add: f(8))
  next
    case False
    then have "s \<in> active idx" using r(2) by (simp add: active_def live_def)
    then have "agg_inv P (active idx - {s}) (ent idx) (bump (s_pkey ?e) (- int (s_dl ?e)) (- 1) (bx_partitions idx))
       (fold (unbump_facet (s_pkey ?e) (int (s_dl ?e))) (facetKeysOf (s_meta ?e)) (bx_facets idx)) (bx_partitionRep idx)"
      using agg_inv_remove [OF inv(5) finite_active _ es] by blast
    moreover have "bx_partitions idx2 = bump (s_pkey ?e) (- int (s_dl ?e)) (- 1) (bx_partitions idx)"
      "bx_facets idx2 = fold (unbump_facet (s_pkey ?e) (int (s_dl ?e))) (facetKeysOf (s_meta ?e)) (bx_facets idx)"
      using False by (simp_all add: idx2_def idx'_def idx1_def fb removeFromAggregates_def)
    ultimately show ?thesis unfolding lv(2) f(8) by (metis (no_types, lifting) agg_inv_cong Diff_iff en singletonI)
  qed
  have "idx_inv D P (C(i := None)) idx2"
    using S Q X B A assms by (auto simp: idx_inv_def split: if_splits)
  then show ?thesis unfolding rm by (rule maybeCompact_inv)
qed

section \<open>Admitting a document\<close>

lemma rememberBody_idx_inv:
  assumes "idx_inv D P C idx" "C i = Some r" "content_of r = c"
  shows "idx_inv D P C (rememberBody i c idx)"
proof -
  obtain b k where e: "rememberBody i c idx = idx\<lparr>bx_cachedBodyChars := k, bx_cachedBodies := b\<rparr>"
    using rememberBody_frame by blast
  have "body_inv C (rememberBody i c idx)"
    using rememberBody_inv [of C idx i r c] assms by (simp add: idx_inv_def)
  then show ?thesis using assms(1) unfolding idx_inv_def frame_inv [OF e] by simp
qed

lemma exp_inv_admit:
  assumes inv: "exp_inv idx" and fresh: "s \<notin> live idx"
    and lv: "live idx' = insert s (live idx)" and en: "\<And>t. t \<noteq> s \<Longrightarrow> ent idx' t = ent idx t"
    and sw: "bx_sweptTo idx' = bx_sweptTo idx"
    and cases: "(bx_retired idx' = insert s (bx_retired idx) \<and> bx_expiryHeap idx' = bx_expiryHeap idx \<and>
                  (\<exists>x. s_expiry (ent idx' s) = Some x \<and> x \<le> bx_sweptTo idx)) \<or>
        (bx_retired idx' = bx_retired idx \<and> s_expiry (ent idx' s) = None \<and> bx_expiryHeap idx' = bx_expiryHeap idx) \<or>
        (\<exists>x. bx_retired idx' = bx_retired idx \<and> s_expiry (ent idx' s) = Some x \<and> bx_sweptTo idx < x \<and>
             bx_expiryHeap idx' = heapPush (bx_expiryHeap idx) (x, s))"
  shows "exp_inv idx'"
proof -
  have sr: "s \<notin> bx_retired idx" using inv fresh by (auto simp: exp_inv_def)
  have hp: "set (heapPush h v) = insert v (set h)" for h v
    using mset_heapPush [of h v] by (metis set_mset_add_mset_insert set_mset_mset)
  have heap: "is_heap (bx_expiryHeap idx')" "set (bx_expiryHeap idx) \<subseteq> set (bx_expiryHeap idx')"
    "\<forall>x \<in> set (bx_expiryHeap idx'). bx_sweptTo idx' \<le> fst x"
    using cases inv by (auto simp: exp_inv_def is_heap_heapPush hp sw)
  have sub: "bx_retired idx' \<subseteq> live idx'" using cases inv by (auto simp: exp_inv_def lv)
  have ret: "\<exists>x. s_expiry (ent idx' t) = Some x \<and> x \<le> bx_sweptTo idx'" if "t \<in> bx_retired idx'" for t
  proof (cases "t = s")
    case True
    then show ?thesis using that cases sr by (auto simp: sw)
  next
    case False
    then have "t \<in> bx_retired idx" using that cases by auto
    then show ?thesis using inv en [OF False] by (auto simp: exp_inv_def sw)
  qed
  have act: "(x, t) \<in> set (bx_expiryHeap idx')" if "t \<in> active idx'" "s_expiry (ent idx' t) = Some x" for t x
  proof (cases "t = s")
    case True
    then show ?thesis using that cases by (auto simp: active_def hp)
  next
    case False
    then have "t \<in> active idx" using that(1) cases by (auto simp: active_def lv)
    moreover have "s_expiry (ent idx t) = Some x" using that(2) en [OF False] by simp
    ultimately have "(x, t) \<in> set (bx_expiryHeap idx)" using inv by (simp add: exp_inv_def)
    then show ?thesis using heap(2) by blast
  qed
  show ?thesis unfolding exp_inv_def using heap sub ret act by blast
qed

lemma entry_fields [simp]: "s_meta (entry_of D r) = meta_of r" "s_pkey (entry_of D r) = partitionKeyOf (meta_of r)"
  "s_expiry (entry_of D r) = expiryOf D (meta_of r)" "s_dl (entry_of D r) = length (tokenize (content_of r))"
  by (simp_all add: entry_of_def Let_def)

lemma admit_inv:
  assumes base: "idx_inv D P C idx" and new: "C (id_of r) = None" "id_of r \<noteq> []" "P (meta_of r)"
  shows "idx_inv D P (C(id_of r \<mapsto> r)) (admit D r idx)"
proof -
  have inv: "slots_inv D C idx" "post_inv C idx" "exp_inv idx" "body_inv C idx"
    "agg_inv P (active idx) (ent idx) (bx_partitions idx) (bx_facets idx) (bx_partitionRep idx)"
    using base by (simp_all add: idx_inv_def)
  note I = slots_invD [OF inv(1)]
  define s where "s = (if bx_freeSlots idx \<noteq> [] then last (bx_freeSlots idx) else length (bx_slots idx))"
  define tf where "tf = term_counts (tokenize (content_of r))"
  let ?e = "entry_of D r" and ?C = "C(id_of r \<mapsto> r)"
  define idx2 where "idx2 = idx\<lparr>bx_freeSlots := butlast (bx_freeSlots idx),
      bx_slots := (if s < length (bx_slots idx) then (bx_slots idx)[s := Some ?e] else bx_slots idx @ [Some ?e]),
      bx_slotOf := AList.update (id_of r) s (bx_slotOf idx)\<rparr>"
  obtain b k where rb: "rememberBody (id_of r) (content_of r) idx2 = idx2\<lparr>bx_cachedBodyChars := k, bx_cachedBodies := b\<rparr>"
    using rememberBody_frame by blast
  define idx3 where "idx3 = rememberBody (id_of r) (content_of r) idx2"
  define idx4 where "idx4 = idx3\<lparr>bx_postings := fold (add_posting s) tf (bx_postings idx3),
                      bx_totalPostings := bx_totalPostings idx3 + int (length tf)\<rparr>"
  have f4: "bx_slots idx4 = (if s < length (bx_slots idx) then (bx_slots idx)[s := Some ?e] else bx_slots idx @ [Some ?e])"
    "bx_slotOf idx4 = AList.update (id_of r) s (bx_slotOf idx)" "bx_freeSlots idx4 = butlast (bx_freeSlots idx)"
    "bx_postings idx4 = fold (add_posting s) tf (bx_postings idx)" "bx_retired idx4 = bx_retired idx"
    "bx_sweptTo idx4 = bx_sweptTo idx" "bx_expiryHeap idx4 = bx_expiryHeap idx"
    "bx_partitions idx4 = bx_partitions idx" "bx_facets idx4 = bx_facets idx" "bx_partitionRep idx4 = bx_partitionRep idx"
    "bx_cachedBodies idx4 = bx_cachedBodies idx3" "bx_cachedBodyChars idx4 = bx_cachedBodyChars idx3"
    by (auto simp: idx4_def idx3_def rb) (auto simp: idx2_def)
  define idx' where "idx' = admit D r idx"
  have ad: "idx' = (if (case s_expiry ?e of None \<Rightarrow> False | Some e \<Rightarrow> e \<le> bx_sweptTo idx4)
      then idx4\<lparr>bx_retired := insert s (bx_retired idx4)\<rparr>
      else let idx5 = addToAggregates ?e idx4 in
        (case s_expiry ?e of None \<Rightarrow> idx5 | Some e \<Rightarrow> idx5\<lparr>bx_expiryHeap := heapPush (bx_expiryHeap idx5) (e, s)\<rparr>))"
    unfolding idx'_def admit_def Let_def idx4_def idx3_def idx2_def s_def tf_def by simp
  have f: "bx_slots idx' = bx_slots idx4" "bx_slotOf idx' = bx_slotOf idx4" "bx_freeSlots idx' = bx_freeSlots idx4"
    "bx_postings idx' = bx_postings idx4" "bx_sweptTo idx' = bx_sweptTo idx4"
    "bx_cachedBodies idx' = bx_cachedBodies idx4" "bx_cachedBodyChars idx' = bx_cachedBodyChars idx4"
    by (auto simp: ad Let_def addToAggregates_def split: option.split)
  have free: "slot_at idx s = None" "x \<in> set (plist (bx_postings idx) t) \<Longrightarrow> fst x \<noteq> s"
    "s \<notin> set (butlast (bx_freeSlots idx))" "s \<le> length (bx_slots idx)" for x t
  proof -
    have fr: "distinct (bx_freeSlots idx)" "\<forall>u \<in> set (bx_freeSlots idx). u < length (bx_slots idx) \<and> bx_slots idx ! u = None"
      using inv(1) by (simp_all add: slots_inv_def)
    have pr: "fst x < length (bx_slots idx) \<and> fst x \<notin> set (bx_freeSlots idx)" if "x \<in> set (plist (bx_postings idx) t)" for x t
      using inv(2) that unfolding post_inv_def by blast
    show "slot_at idx s = None" using fr(2) by (auto simp: s_def slot_at_def)
    show "fst x \<noteq> s" if "x \<in> set (plist (bx_postings idx) t)" for x t
      using pr [OF that] by (auto simp: s_def split: if_splits)
    show "s \<notin> set (butlast (bx_freeSlots idx))"
    proof (cases "bx_freeSlots idx = []")
      case False
      then show ?thesis using fr(1) by (simp add: s_def) (metis append_butlast_last_id distinct_append disjoint_iff list.set_intros(1))
    qed simp
    show "s \<le> length (bx_slots idx)" using fr(2) by (auto simp: s_def intro: less_imp_le)
  qed
  have at: "slot_at idx' t = (if t = s then Some ?e else slot_at idx t)" for t
    using free(4) by (auto simp: slot_at_def f f4 nth_list_update nth_append)
  have lv: "live idx' = insert s (live idx)" by (auto simp: live_def at)
  have nl: "s \<notin> live idx" using free(1) by (simp add: live_def)
  have en: "ent idx' t = ent idx t" if "t \<noteq> s" for t using that by (simp add: ent_def at)
  have es: "ent idx' s = ?e" by (simp add: ent_def at)
  have nr: "s \<notin> bx_retired idx" using inv(3) nl by (auto simp: exp_inv_def)
  have nm: "map_of (bx_slotOf idx) (id_of r) = None"
    using I(1) [of "id_of r"] new(1) by (cases "map_of (bx_slotOf idx) (id_of r)") auto
  have S: "slots_inv D ?C idx'"
    unfolding slots_inv_def f f4
  proof (intro conjI allI impI ballI)
    show "distinct (map fst (AList.update (id_of r) s (bx_slotOf idx)))" using inv(1) by (simp add: slots_inv_def)
    show "distinct (butlast (bx_freeSlots idx))" using inv(1) by (simp add: slots_inv_def distinct_butlast)
    fix t assume t: "t \<in> set (butlast (bx_freeSlots idx))"
    then have u: "t < length (bx_slots idx)" "bx_slots idx ! t = None"
      using inv(1) by (auto simp: slots_inv_def dest: in_set_butlastD)
    have "t \<noteq> s" using t free(3) by blast
    then show "t < length (if s < length (bx_slots idx) then (bx_slots idx)[s := Some ?e] else bx_slots idx @ [Some ?e])"
      "(if s < length (bx_slots idx) then (bx_slots idx)[s := Some ?e] else bx_slots idx @ [Some ?e]) ! t = None"
      using u by (auto simp: nth_append)
  next
    fix j t assume a: "map_of (AList.update (id_of r) s (bx_slotOf idx)) j = Some t"
    show "\<exists>q. ?C j = Some q \<and> slot_at idx' t = Some (entry_of D q)"
    proof (cases "j = id_of r")
      case True
      then show ?thesis using a by (simp add: update_conv' at)
    next
      case False
      then have "map_of (bx_slotOf idx) j = Some t" using a by (simp add: update_conv')
      from I(1) [OF this] show ?thesis using False free(1) by (auto simp: at)
    qed
  next
    fix j q assume "?C j = Some q"
    then consider "j = id_of r" "q = r" | "j \<noteq> id_of r" "C j = Some q" by (auto split: if_splits)
    then have "id_of q = j \<and> j \<noteq> [] \<and> map_of (AList.update (id_of r) s (bx_slotOf idx)) j \<noteq> None"
    proof cases
      case 2
      then show ?thesis using I(2) [OF 2(2)] by (auto simp: update_conv')
    qed (simp add: new update_conv')
    then show "id_of q = j" "j \<noteq> []" "map_of (AList.update (id_of r) s (bx_slotOf idx)) j \<noteq> None" by simp_all
  next
    fix t e assume a: "slot_at idx' t = Some e"
    show "map_of (AList.update (id_of r) s (bx_slotOf idx)) (s_id e) = Some t"
    proof (cases "t = s")
      case False
      then have e: "slot_at idx t = Some e" using a by (simp add: at)
      then have "s_id e \<noteq> id_of r" using I(3) [OF e] nm by auto
      then show ?thesis using I(3) [OF e] by (simp add: update_conv')
    qed (use a in \<open>auto simp: at update_conv'\<close>)
  qed
  have ok: "postings_ok (bx_postings idx)" using inv(2) by (simp add: post_inv_def)
  have ap: "postings_ok (bx_postings idx')"
    "plist (bx_postings idx') t = plist (bx_postings idx) t @ (case map_of tf t of None \<Rightarrow> [] | Some f \<Rightarrow> [(s, f)])" for t
    using add_postings [OF ok, of tf s t] by (simp_all add: f f4 tf_def distinct_term_counts)
  have Q: "post_inv ?C idx'"
    unfolding post_inv_def
  proof (intro conjI allI impI)
    show "postings_ok (bx_postings idx')" by (rule ap(1))
    fix t x assume x: "x \<in> set (plist (bx_postings idx') t)"
    have len: "s < length (bx_slots idx')" "length (bx_slots idx) \<le> length (bx_slots idx')"
      using free(4) by (auto simp: f f4)
    consider "x \<in> set (plist (bx_postings idx) t)" | "fst x = s"
      using x unfolding ap(2) by (auto split: option.splits)
    then have "fst x < length (bx_slots idx') \<and> fst x \<notin> set (bx_freeSlots idx')"
    proof cases
      case 1
      then have "fst x < length (bx_slots idx)" "fst x \<notin> set (bx_freeSlots idx)"
        using inv(2) unfolding post_inv_def by blast+
      then show ?thesis using len(2) by (auto simp: f(3) f4(3) dest: in_set_butlastD)
    next
      case 2
      then show ?thesis using len(1) free(3) by (simp add: f(3) f4(3))
    qed
    then show "fst x < length (bx_slots idx')" "fst x \<notin> set (bx_freeSlots idx')" by simp_all
  next
    fix j t q u assume a: "map_of (bx_slotOf idx') j = Some t \<and> ?C j = Some q"
    show "filter (\<lambda>x. fst x = t) (plist (bx_postings idx') u) = term_hits t q u"
    proof (cases "j = id_of r")
      case True
      then have "t = s" "q = r" using a by (auto simp: f f4 update_conv')
      moreover have "filter (\<lambda>x. fst x = s) (plist (bx_postings idx) u) = []"
        using free(2) by (auto simp: filter_empty_conv)
      ultimately show ?thesis
        by (simp add: ap(2) term_hits_def Let_def tf_def map_of_term_counts)
    next
      case False
      then have j: "map_of (bx_slotOf idx) j = Some t" "C j = Some q" using a by (auto simp: f f4 update_conv')
      then have "t \<noteq> s" using I(1) [OF j(1)] free(1) by auto
      then show ?thesis using inv(2) j by (auto simp: ap(2) post_inv_def split: option.split)
    qed
  qed
  have b2: "body_inv C idx2" using inv(4) by (simp add: body_inv_def idx2_def)
  have cb: "C i \<noteq> None" if "map_of (bx_cachedBodies idx) i = Some c" for i c
    using inv(4) that unfolding body_inv_def by blast
  have "body_inv ?C idx2"
  proof (rule body_inv_change [OF b2])
    fix i c assume "map_of (bx_cachedBodies idx2) i = Some c"
    then have "C i \<noteq> None" using cb by (simp add: idx2_def)
    then show "?C i = C i" using new(1) by auto
  qed
  then have "body_inv ?C idx3" unfolding idx3_def by (rule rememberBody_inv [where r = r]) simp_all
  then have B: "body_inv ?C idx'" by (simp add: body_inv_def f f4)
  let ?dead = "case s_expiry ?e of None \<Rightarrow> False | Some e \<Rightarrow> e \<le> bx_sweptTo idx4"
  have X: "exp_inv idx'"
  proof (rule exp_inv_admit [OF inv(3) nl lv en])
    show "bx_sweptTo idx' = bx_sweptTo idx" by (simp add: f f4)
    show "(bx_retired idx' = insert s (bx_retired idx) \<and> bx_expiryHeap idx' = bx_expiryHeap idx \<and>
                  (\<exists>x. s_expiry (ent idx' s) = Some x \<and> x \<le> bx_sweptTo idx)) \<or>
        (bx_retired idx' = bx_retired idx \<and> s_expiry (ent idx' s) = None \<and> bx_expiryHeap idx' = bx_expiryHeap idx) \<or>
        (\<exists>x. bx_retired idx' = bx_retired idx \<and> s_expiry (ent idx' s) = Some x \<and> bx_sweptTo idx < x \<and>
             bx_expiryHeap idx' = heapPush (bx_expiryHeap idx) (x, s))"
      unfolding es by (cases "s_expiry ?e") (auto simp: ad Let_def addToAggregates_def f4)
  qed
  have A: "agg_inv P (active idx') (ent idx') (bx_partitions idx') (bx_facets idx') (bx_partitionRep idx')"
  proof (cases ?dead)
    case True
    then have "active idx' = active idx" unfolding active_def lv by (auto simp: ad f4 nl)
    moreover have "bx_partitions idx' = bx_partitions idx" "bx_facets idx' = bx_facets idx"
      "bx_partitionRep idx' = bx_partitionRep idx" using True by (simp_all add: ad f4)
    moreover have "ent idx' t = ent idx t" if "t \<in> active idx" for t using that nl by (intro en) (auto simp: active_def)
    ultimately show ?thesis using agg_inv_cong [OF inv(5), of "ent idx'"] by simp
  next
    case False
    then have "bx_retired idx' = bx_retired idx"
      by (auto simp: ad Let_def addToAggregates_def f4 split: option.split)
    then have act: "active idx' = insert s (active idx)" unfolding active_def lv using nr by auto
    have na: "s \<notin> active idx" using nl by (simp add: active_def)
    have e: "agg_inv P (active idx) (ent idx') (bx_partitions idx) (bx_facets idx) (bx_partitionRep idx)"
    proof (rule agg_inv_cong [OF inv(5)])
      fix t assume "t \<in> active idx"
      then have "t \<noteq> s" using na by blast
      then show "ent idx' t = ent idx t" by (rule en)
    qed
    have "agg_inv P (insert s (active idx)) (ent idx') (bump (s_pkey ?e) (int (s_dl ?e)) 1 (bx_partitions idx))
       (fold (bump_facet (s_pkey ?e) (int (s_dl ?e)) 1) (facetKeysOf (s_meta ?e)) (bx_facets idx))
       (if map_of (bx_partitionRep idx) (s_pkey ?e) \<noteq> None then bx_partitionRep idx
        else AList.update (s_pkey ?e) (rep_of (s_meta ?e)) (bx_partitionRep idx))"
      by (rule agg_inv_add [OF e finite_active na es]) (use new(3) in simp_all)
    moreover have "bx_partitions idx' = bump (s_pkey ?e) (int (s_dl ?e)) 1 (bx_partitions idx)"
      "bx_facets idx' = fold (bump_facet (s_pkey ?e) (int (s_dl ?e)) 1) (facetKeysOf (s_meta ?e)) (bx_facets idx)"
      "bx_partitionRep idx' = (if map_of (bx_partitionRep idx) (s_pkey ?e) \<noteq> None then bx_partitionRep idx
        else AList.update (s_pkey ?e) (rep_of (s_meta ?e)) (bx_partitionRep idx))"
      using False unfolding ad addToAggregates_def rep_of_def Let_def f4 by (auto split: option.split)
    ultimately show ?thesis unfolding act by simp
  qed
  have "\<forall>i q. ?C i = Some q \<longrightarrow> P (meta_of q)" using base new(3) by (auto simp: idx_inv_def)
  then show ?thesis using S Q X B A unfolding idx_inv_def idx'_def by simp
qed

section \<open>Storing a document\<close>

lemma sameIndexValue_eq: "sameIndexValue a b \<Longrightarrow> a = b"
proof -
  have s: "strict_eq v w \<Longrightarrow> v = w" for v w by (induction v w rule: strict_eq.induct) auto
  assume h: "sameIndexValue a b"
  show ?thesis
  proof (cases "\<exists>xs ys. a = Arr xs \<and> b = Arr ys")
    case True
    then obtain xs ys where e: "a = Arr xs" "b = Arr ys" by blast
    then have "list_all2 (\<lambda>v w. \<not> is_object v \<and> strict_eq v w) xs ys" using h by (simp add: sameIndexValue_def)
    then have "list_all2 (=) xs ys" by (rule list_all2_mono) (use s in blast)
    then show ?thesis using e by (simp add: list.rel_eq)
  next
    case False
    then have "strict_eq a b" using h by (auto simp: sameIndexValue_def split: js.splits)
    then show ?thesis by (rule s)
  qed
qed

lemma map_of_meta:
  assumes "a \<in> set INDEX_META_ATTRS"
  shows "map_of (meta_of r) a = map_of r a"
proof -
  have "a \<noteq> ''id''" using assms by (auto simp: INDEX_META_ATTRS_def SUPPORTED_SCOPE_ATTRS_def TEMPORAL_ATTRS_def)
  moreover have "map_of (map (\<lambda>a. (a, getp r a)) (filter (has_own (Obj r)) xs)) a = (if a \<in> set xs then map_of r a else None)" for xs
    by (induction xs) (auto simp: getp_def)
  ultimately show ?thesis using assms by (simp add: meta_of_def del: has_own.simps)
qed

lemma getp_meta: "a \<in> set INDEX_META_ATTRS \<Longrightarrow> getp (meta_of r) a = getp r a"
  and has_meta: "a \<in> set INDEX_META_ATTRS \<Longrightarrow> has_own (Obj (meta_of r)) a = has_own (Obj r) a"
  by (simp_all add: getp_def map_of_meta)

lemma meta_of_cong:
  assumes "id_of r = id_of q"
    "\<And>a. a \<in> set INDEX_META_ATTRS \<Longrightarrow> has_own (Obj r) a = has_own (Obj q) a \<and> getp r a = getp q a"
  shows "meta_of r = meta_of q"
proof -
  have "map (\<lambda>a. (a, getp r a)) (filter (has_own (Obj r)) xs) = map (\<lambda>a. (a, getp q a)) (filter (has_own (Obj q)) xs)"
    if "set xs \<subseteq> set INDEX_META_ATTRS" for xs
    using that assms(2) by (induction xs) (auto simp del: has_own.simps)
  then show ?thesis by (simp add: meta_of_def assms(1) del: has_own.simps)
qed

lemma unchanged_entry:
  assumes inv: "idx_inv D P C idx" and u: "unchanged idx r"
  shows "\<exists>q. C (id_of r) = Some q \<and> content_of q = content_of r \<and> meta_of q = meta_of r"
proof -
  have i: "slots_inv D C idx" "body_inv C idx" using inv by (simp_all add: idx_inv_def)
  obtain s where s: "map_of (bx_slotOf idx) (id_of r) = Some s" using u by (auto simp: unchanged_def split: option.splits)
  obtain q where q: "C (id_of r) = Some q" "slot_at idx s = Some (entry_of D q)" using slots_invD(1) [OF i(1) s] by blast
  have idq: "id_of q = id_of r" using slots_invD(2) [OF i(1) q(1)] by simp
  have b: "map_of (bx_cachedBodies idx) (id_of r) = Some (content_of r)" and
    a: "list_all (\<lambda>attr. has_own (Obj (meta_of q)) attr = has_own (Obj r) attr \<and>
                  sameIndexValue (getp (meta_of q) attr) (getp r attr)) INDEX_META_ATTRS"
    using u s q(2) by (simp_all add: unchanged_def)
  have c: "content_of q = content_of r" using i(2) b q(1) unfolding body_inv_def by fastforce
  have "meta_of q = meta_of r"
  proof (rule meta_of_cong [OF idq])
    fix a assume m: "a \<in> set INDEX_META_ATTRS"
    then show "has_own (Obj q) a = has_own (Obj r) a \<and> getp q a = getp r a"
      using a sameIndexValue_eq getp_meta [OF m, of q] has_meta [OF m, of q] unfolding list_all_iff by metis
  qed
  then show ?thesis using q(1) c by blast
qed

lemma idx_inv_replace:
  assumes inv: "idx_inv D P C idx" and q: "C (id_of r) = Some q" "content_of q = content_of r" "meta_of q = meta_of r"
  shows "idx_inv D P (C(id_of r \<mapsto> r)) idx"
proof -
  have i: "slots_inv D C idx" "post_inv C idx" "body_inv C idx" using inv by (simp_all add: idx_inv_def)
  have idq: "id_of q = id_of r" "id_of r \<noteq> []" using slots_invD(2) [OF i(1) q(1)] by simp_all
  have e: "entry_of D q = entry_of D r" by (simp add: entry_of_def q idq)
  have "slots_inv D (C(id_of r \<mapsto> r)) idx"
    using i(1) q(1) e idq unfolding slots_inv_def by (auto simp: fun_upd_apply) (metis option.inject)+
  moreover have "post_inv (C(id_of r \<mapsto> r)) idx"
    using i(2) q unfolding post_inv_def term_hits_def by auto
  moreover have "body_inv (C(id_of r \<mapsto> r)) idx"
    using i(3) q unfolding body_inv_def by (metis fun_upd_apply option.inject)
  moreover have "\<forall>i x. (C(id_of r \<mapsto> r)) i = Some x \<longrightarrow> P (meta_of x)"
    using inv q(1,3) unfolding idx_inv_def by (metis fun_upd_apply option.inject)
  ultimately show ?thesis using inv unfolding idx_inv_def by blast
qed

lemma upsert_inv:
  assumes inv: "idx_inv D P C idx" and p: "P (meta_of r)"
  shows "idx_inv D P (if id_of r = [] then C else C(id_of r \<mapsto> r)) (upsert D r idx)"
proof -
  consider "id_of r = []" | "id_of r \<noteq> []" "unchanged idx r" | "id_of r \<noteq> []" "\<not> unchanged idx r" by blast
  then show ?thesis
  proof cases
    case 2
    obtain q where q: "C (id_of r) = Some q" "content_of q = content_of r" "meta_of q = meta_of r"
      using unchanged_entry [OF inv 2(2)] by blast
    from rememberBody_idx_inv [OF idx_inv_replace [OF inv q], of "id_of r" r] show ?thesis
      using 2 by (simp add: upsert_def)
  next
    case 3
    have "idx_inv D P ((C(id_of r := None))(id_of r \<mapsto> r)) (admit D r (remove (id_of r) idx))"
      by (rule admit_inv [OF remove_inv [OF inv]]) (use 3 p in simp_all)
    then show ?thesis using 3 by (simp add: upsert_def)
  qed (use inv in \<open>simp add: upsert_def\<close>)
qed

lemma clear_inv: "idx_inv D P (\<lambda>_. None) (clear idx)"
proof -
  have s: "slot_at new_index s = None" for s by (simp add: slot_at_def new_index_def)
  have l: "live new_index = {}" "active new_index = {}" by (simp_all add: live_def active_def s)
  have "slots_inv D (\<lambda>_. None) new_index" by (simp add: slots_inv_def s) (simp add: new_index_def)
  moreover have "post_inv (\<lambda>_. None) new_index" by (simp add: post_inv_def new_index_def postings_ok_def plist_def)
  moreover have "exp_inv new_index" by (simp add: exp_inv_def l) (simp add: new_index_def is_heap_def)
  moreover have "body_inv (\<lambda>_. None) new_index"
    by (simp add: body_inv_def new_index_def)
  ultimately show ?thesis by (simp add: idx_inv_def clear_def l) (simp add: new_index_def agg_inv_empty)
qed

section \<open>The sweep\<close>

definition swept_state :: "dates \<Rightarrow> (jobj \<Rightarrow> bool) \<Rightarrow> (string \<Rightarrow> jobj option) \<Rightarrow> index \<Rightarrow> bool" where
  "swept_state D P C idx \<longleftrightarrow>
     slots_inv D C idx \<and> post_inv C idx \<and> body_inv C idx \<and>
     agg_inv P (active idx) (ent idx) (bx_partitions idx) (bx_facets idx) (bx_partitionRep idx) \<and>
     (\<forall>i r. C i = Some r \<longrightarrow> P (meta_of r)) \<and>
     is_heap (bx_expiryHeap idx) \<and> bx_retired idx \<subseteq> live idx \<and>
     (\<forall>s \<in> bx_retired idx. \<exists>x. s_expiry (ent idx s) = Some x \<and> x \<le> bx_sweptTo idx) \<and>
     (\<forall>s \<in> active idx. \<forall>x. s_expiry (ent idx s) = Some x \<longrightarrow> (x, s) \<in> set (bx_expiryHeap idx))"

lemma idx_inv_swept: "idx_inv D P C idx \<longleftrightarrow>
    swept_state D P C idx \<and> (\<forall>x \<in> set (bx_expiryHeap idx). bx_sweptTo idx \<le> fst x)"
  by (auto simp: idx_inv_def swept_state_def exp_inv_def)

definition retire_top :: "index \<Rightarrow> index" where
  "retire_top idx =
     (let top = bx_expiryHeap idx ! 0; idx' = idx\<lparr>bx_expiryHeap := snd (heapPop (bx_expiryHeap idx))\<rparr> in
        (case slot_at idx' (snd top) of
             None \<Rightarrow> idx'
           | Some entry \<Rightarrow>
               if s_expiry entry \<noteq> Some (fst top) then idx'
               else if snd top \<in> bx_retired idx' then idx'
               else removeFromAggregates entry (idx'\<lparr>bx_retired := insert (snd top) (bx_retired idx')\<rparr>)))"

lemma sweep_loop_step:
  "sweep_loop now idx = (if bx_expiryHeap idx \<noteq> [] \<and> fst (bx_expiryHeap idx ! 0) < now
     then sweep_loop now (retire_top idx) else idx)"
  by (subst sweep_loop.simps) (simp add: retire_top_def Let_def)

lemma parts_cong:
  assumes "bx_slots i' = bx_slots i" "bx_slotOf i' = bx_slotOf i"
    "bx_freeSlots i' = bx_freeSlots i" "bx_postings i' = bx_postings i" "bx_cachedBodies i' = bx_cachedBodies i"
    "bx_cachedBodyChars i' = bx_cachedBodyChars i"
  shows "slots_inv D C i' = slots_inv D C i" "post_inv C i' = post_inv C i" "body_inv C i' = body_inv C i"
proof -
  have "slot_at i' = slot_at i" by (simp add: slot_at_def fun_eq_iff assms)
  then show "slots_inv D C i' = slots_inv D C i" "post_inv C i' = post_inv C i" "body_inv C i' = body_inv C i"
    by (simp_all only: slots_inv_def post_inv_def body_inv_def assms)
qed

lemma retire_top_inv:
  assumes inv: "swept_state D P C idx" and h: "bx_expiryHeap idx \<noteq> []" "fst (bx_expiryHeap idx ! 0) \<le> bx_sweptTo idx"
  shows "swept_state D P C (retire_top idx) \<and> bx_sweptTo (retire_top idx) = bx_sweptTo idx \<and>
    bx_slots (retire_top idx) = bx_slots idx \<and> bx_postings (retire_top idx) = bx_postings idx \<and>
    bx_slotOf (retire_top idx) = bx_slotOf idx"
proof -
  obtain ts s where top: "bx_expiryHeap idx ! 0 = (ts, s)" by (cases "bx_expiryHeap idx ! 0")
  define hp where "hp = snd (heapPop (bx_expiryHeap idx))"
  define i0 where "i0 = idx\<lparr>bx_expiryHeap := hp\<rparr>"
  have hs: "set (bx_expiryHeap idx) = insert (ts, s) (set hp)"
    using mset_heapPop [OF h(1)] top by (metis hp_def set_mset_add_mset_insert set_mset_mset)
  have heap: "is_heap hp" using inv by (simp add: hp_def swept_state_def is_heap_heapPop)
  have sl0: "slot_at i0 = slot_at idx" by (simp add: slot_at_def i0_def fun_eq_iff)
  have same0: "live i0 = live idx" "ent i0 = ent idx" "active i0 = active idx"
    by (simp_all add: live_def ent_def active_def sl0 fun_eq_iff) (simp add: i0_def)
  have fr0: "slots_inv D C i0" "post_inv C i0" "body_inv C i0"
    using inv parts_cong [of i0 idx] by (simp_all add: swept_state_def i0_def)
  consider (retire) e where "slot_at idx s = Some e" "s_expiry e = Some ts" "s \<notin> bx_retired idx"
    | (skip) "slot_at idx s = None \<or> s_expiry (ent idx s) \<noteq> Some ts \<or> s \<in> bx_retired idx"
    unfolding ent_def by (cases "slot_at idx s") auto
  then show ?thesis
  proof cases
    case skip
    then have r: "retire_top idx = i0"
      unfolding retire_top_def top Let_def i0_def [symmetric, unfolded hp_def]
      by (auto simp: i0_def hp_def slot_at_def ent_def split: option.split)
    have "(x, t) \<in> set hp" if "t \<in> active idx" "s_expiry (ent idx t) = Some x" for t x
    proof -
      have "(x, t) \<in> set (bx_expiryHeap idx)" using inv that by (simp add: swept_state_def)
      moreover have "(x, t) \<noteq> (ts, s)" using that skip by (auto simp: active_def live_def)
      ultimately show ?thesis using hs by blast
    qed
    then show ?thesis
      using inv fr0 heap unfolding r swept_state_def same0 by (simp add: i0_def)
  next
    case retire
    define i1 where "i1 = i0\<lparr>bx_retired := insert s (bx_retired idx)\<rparr>"
    have "retire_top idx = removeFromAggregates e i1"
      using retire unfolding retire_top_def top Let_def
      by (auto simp: i1_def i0_def hp_def slot_at_def split: if_splits)
    then have r: "bx_retired (retire_top idx) = insert s (bx_retired idx)" "bx_sweptTo (retire_top idx) = bx_sweptTo idx"
      "bx_slots (retire_top idx) = bx_slots idx" "bx_postings (retire_top idx) = bx_postings idx"
      "bx_slotOf (retire_top idx) = bx_slotOf idx" "bx_expiryHeap (retire_top idx) = hp"
      "bx_freeSlots (retire_top idx) = bx_freeSlots idx"
      "bx_cachedBodies (retire_top idx) = bx_cachedBodies idx" "bx_cachedBodyChars (retire_top idx) = bx_cachedBodyChars idx"
      "bx_partitionRep (retire_top idx) = bx_partitionRep idx"
      "bx_partitions (retire_top idx) = bump (s_pkey e) (- int (s_dl e)) (- 1) (bx_partitions idx)"
      "bx_facets (retire_top idx) = fold (unbump_facet (s_pkey e) (int (s_dl e))) (facetKeysOf (s_meta e)) (bx_facets idx)"
      by (simp_all add: removeFromAggregates_def i1_def i0_def)
    have sl: "slot_at (retire_top idx) = slot_at idx" by (simp add: slot_at_def fun_eq_iff r)
    have same: "live (retire_top idx) = live idx" "ent (retire_top idx) = ent idx" "active (retire_top idx) = active idx - {s}"
      by (simp_all add: live_def ent_def active_def sl fun_eq_iff r) blast
    have act: "s \<in> active idx" "ent idx s = e" using retire by (simp_all add: active_def live_def ent_def)
    have agg: "agg_inv P (active idx) (ent idx) (bx_partitions idx) (bx_facets idx) (bx_partitionRep idx)"
      using inv by (simp add: swept_state_def)
    have A: "agg_inv P (active idx - {s}) (ent idx) (bump (s_pkey e) (- int (s_dl e)) (- 1) (bx_partitions idx))
       (fold (unbump_facet (s_pkey e) (int (s_dl e))) (facetKeysOf (s_meta e)) (bx_facets idx)) (bx_partitionRep idx)"
      by (rule agg_inv_remove [OF agg finite_active act])
    have fr: "slots_inv D C (retire_top idx)" "post_inv C (retire_top idx)" "body_inv C (retire_top idx)"
      using inv parts_cong [of "retire_top idx" idx] by (simp_all add: swept_state_def r)
    have H: "\<forall>t \<in> active idx - {s}. \<forall>x. s_expiry (ent idx t) = Some x \<longrightarrow> (x, t) \<in> set hp"
      using inv hs unfolding swept_state_def by blast
    have sub: "insert s (bx_retired idx) \<subseteq> live idx" using inv act(1) by (auto simp: swept_state_def active_def)
    have R: "\<forall>t \<in> insert s (bx_retired idx). \<exists>x. s_expiry (ent idx t) = Some x \<and> x \<le> bx_sweptTo idx"
      using inv act(2) retire(2) h(2) top by (auto simp: swept_state_def)
    have P: "\<forall>i r. C i = Some r \<longrightarrow> P (meta_of r)" using inv by (simp add: swept_state_def)
    show ?thesis unfolding swept_state_def same r using fr A H sub R P heap by blast
  qed
qed

lemma sweep_loop_inv:
  assumes "swept_state D P C idx" "now \<le> bx_sweptTo idx"
  shows "swept_state D P C (sweep_loop now idx) \<and> bx_sweptTo (sweep_loop now idx) = bx_sweptTo idx \<and>
    (\<forall>x \<in> set (bx_expiryHeap (sweep_loop now idx)). now \<le> fst x) \<and>
    bx_slots (sweep_loop now idx) = bx_slots idx \<and> bx_postings (sweep_loop now idx) = bx_postings idx \<and>
    bx_slotOf (sweep_loop now idx) = bx_slotOf idx"
  using assms
proof (induction "length (bx_expiryHeap idx)" arbitrary: idx rule: less_induct)
  case less
  show ?case
  proof (cases "bx_expiryHeap idx \<noteq> [] \<and> fst (bx_expiryHeap idx ! 0) < now")
    case True
    note r = retire_top_inv [OF less.prems(1)]
    have len: "length (bx_expiryHeap (retire_top idx)) < length (bx_expiryHeap idx)"
      using length_heapPop [of "bx_expiryHeap idx"] True
      by (auto simp: retire_top_def Let_def removeFromAggregates_def split: option.split)
    have t: "swept_state D P C (retire_top idx)" "bx_sweptTo (retire_top idx) = bx_sweptTo idx"
      "bx_slots (retire_top idx) = bx_slots idx" "bx_postings (retire_top idx) = bx_postings idx"
      "bx_slotOf (retire_top idx) = bx_slotOf idx"
      using r True less.prems(2) by auto
    show ?thesis using less.hyps [OF len t(1)] less.prems(2) True t by (subst (1 2 3 4 5 6) sweep_loop_step) simp
  next
    case False
    then have e: "sweep_loop now idx = idx" by (subst sweep_loop_step) auto
    have "now \<le> fst x" if "x \<in> set (bx_expiryHeap idx)" for x
      using that False heap_min [of "bx_expiryHeap idx" x] less.prems(1) by (cases "bx_expiryHeap idx") (auto simp: swept_state_def)
    then show ?thesis using e less.prems(1) by simp
  qed
qed

lemma sweep_inv:
  assumes "idx_inv D P C idx"
  shows "idx_inv D P C (sweep now idx) \<and> bx_sweptTo (sweep now idx) = max (bx_sweptTo idx) now \<and>
    bx_slots (sweep now idx) = bx_slots idx \<and> bx_postings (sweep now idx) = bx_postings idx \<and>
    bx_slotOf (sweep now idx) = bx_slotOf idx"
proof (cases "now \<le> bx_sweptTo idx")
  case True
  then have "sweep now idx = idx" by (simp add: sweep_def max_def)
  then show ?thesis using assms True by simp
next
  case False
  define i0 where "i0 = idx\<lparr>bx_sweptTo := now\<rparr>"
  have sl: "slot_at i0 = slot_at idx" by (simp add: slot_at_def i0_def fun_eq_iff)
  have same: "live i0 = live idx" "ent i0 = ent idx" "active i0 = active idx"
    by (simp_all add: live_def ent_def active_def sl fun_eq_iff) (simp add: i0_def)
  have fr: "slots_inv D C i0" "post_inv C i0" "body_inv C i0"
    using assms parts_cong [of i0 idx] by (simp_all add: idx_inv_def i0_def)
  have "\<forall>s \<in> bx_retired idx. \<exists>x. s_expiry (ent idx s) = Some x \<and> x \<le> now"
  proof
    fix s assume "s \<in> bx_retired idx"
    then obtain x where "s_expiry (ent idx s) = Some x" "x \<le> bx_sweptTo idx"
      using assms unfolding idx_inv_def exp_inv_def by blast
    then show "\<exists>x. s_expiry (ent idx s) = Some x \<and> x \<le> now" using False by (intro exI [of _ x]) simp
  qed
  then have "swept_state D P C i0"
    using assms fr unfolding idx_inv_def exp_inv_def swept_state_def same by (simp add: i0_def)
  from sweep_loop_inv [OF this, of now] show ?thesis
    using False unfolding idx_inv_swept by (simp add: sweep_def max_def i0_def)
qed

end
