(* ===== verification/Bm25Equiv.thy ===== *)
theory Bm25Equiv
  imports Bm25Invariant
begin

text \<open>
  The lexical index answers like the corpus scan it replaces: the index reached by any sequence of
  operations stands for the corpus those operations describe, and an answer of \<open>rank\<close> is the scan of
  \<open>resources/bm25.ts\<close> over that corpus.
\<close>

section \<open>Operations and the corpus\<close>

datatype index_op =
    Upsert jobj
  | Remove string
  | Clear
  | Sweep int

fun index_step :: "dates \<Rightarrow> index_op \<Rightarrow> index \<Rightarrow> index" where
  "index_step D (Upsert r) idx = upsert D r idx"
| "index_step D (Remove i) idx = remove i idx"
| "index_step D Clear idx = clear idx"
| "index_step D (Sweep now) idx = sweep now idx"

fun corpus_step :: "index_op \<Rightarrow> (string \<Rightarrow> jobj option) \<Rightarrow> string \<Rightarrow> jobj option" where
  "corpus_step (Upsert r) C = (if id_of r = [] then C else C(id_of r \<mapsto> r))"
| "corpus_step (Remove i) C = C(i := None)"
| "corpus_step Clear C = (\<lambda>_. None)"
| "corpus_step (Sweep now) C = C"

definition index_run :: "dates \<Rightarrow> index_op list \<Rightarrow> index" where
  "index_run D ops = fold (index_step D) ops new_index"

definition corpus_run :: "index_op list \<Rightarrow> string \<Rightarrow> jobj option" where
  "corpus_run ops = fold corpus_step ops (\<lambda>_. None)"

text \<open>A query only sweeps: what \<open>rank\<close> does to the index is a step \<open>Sweep\<close> or nothing.\<close>

lemma rank_index:
  "snd (rank mlog D conditions f isAllowed now limit q idx) \<in> {idx, index_step D (Sweep now) idx}"
  by (auto simp: rank_def Let_def split: option.split prod.split)

lemma step_inv:
  assumes "idx_inv D P C idx" "\<And>r. op = Upsert r \<Longrightarrow> P (meta_of r)"
  shows "idx_inv D P (corpus_step op C) (index_step D op idx)"
  using assms by (cases op) (simp_all add: upsert_inv remove_inv clear_inv sweep_inv del: fun_upd_apply split del: if_split)

lemma run_inv:
  assumes "\<And>r. Upsert r \<in> set ops \<Longrightarrow> P (meta_of r)"
  shows "idx_inv D P (corpus_run ops) (index_run D ops)"
proof -
  have "idx_inv D P (fold corpus_step ops C) (fold (index_step D) ops idx)"
    if "idx_inv D P C idx" "\<And>r. Upsert r \<in> set ops \<Longrightarrow> P (meta_of r)" for C idx
    using that
  proof (induction ops arbitrary: C idx)
    case (Cons op ops)
    have "idx_inv D P (corpus_step op C) (index_step D op idx)"
      by (rule step_inv [OF Cons.prems(1)]) (use Cons.prems(2) in auto)
    from Cons.IH [OF this] Cons.prems(2) show ?case by simp
  qed simp
  from this [OF clear_inv [of D P undefined, unfolded clear_def] assms] show ?thesis
    by (simp add: corpus_run_def index_run_def)
qed

section \<open>Rows and slots\<close>

definition live_slots :: "index \<Rightarrow> nat list" where
  "live_slots idx = filter (\<lambda>s. slot_at idx s \<noteq> None) [0..<length (bx_slots idx)]"

lemma set_live_slots [simp]: "set (live_slots idx) = live idx"
  by (auto simp: live_slots_def live_def slot_at_def split: if_splits)

lemma distinct_live_slots [simp]: "distinct (live_slots idx)"
  by (simp add: live_slots_def)

definition row_at :: "(string \<Rightarrow> jobj option) \<Rightarrow> index \<Rightarrow> nat \<Rightarrow> jobj" where
  "row_at C idx s = the (C (s_id (ent idx s)))"

lemma row_at:
  assumes "slots_inv D C idx" "s \<in> live idx"
  shows "ent idx s = entry_of D (row_at C idx s)" "C (s_id (ent idx s)) = Some (row_at C idx s)"
    "map_of (bx_slotOf idx) (id_of (row_at C idx s)) = Some s" "s_id (ent idx s) = id_of (row_at C idx s)"
proof -
  obtain e where e: "slot_at idx s = Some e" "ent idx s = e" using assms(2) by (auto simp: live_def ent_def)
  note I = slots_invD [OF assms(1)]
  obtain r where r: "C (s_id e) = Some r" "e = entry_of D r" using I(4) [OF e(1)] by blast
  have m: "map_of (bx_slotOf idx) (s_id e) = Some s" using I(3) [OF e(1)] .
  have "row_at C idx s = r" using e r by (simp add: row_at_def)
  then show "ent idx s = entry_of D (row_at C idx s)" "C (s_id (ent idx s)) = Some (row_at C idx s)"
    "map_of (bx_slotOf idx) (id_of (row_at C idx s)) = Some s" "s_id (ent idx s) = id_of (row_at C idx s)"
    using e r m by simp_all
qed

text \<open>The rows a scan would read.\<close>

definition enumerates :: "jobj list \<Rightarrow> (string \<Rightarrow> jobj option) \<Rightarrow> bool" where
  "enumerates rows C \<longleftrightarrow> distinct (map id_of rows) \<and> set rows = ran C"

lemma rows_of_slots:
  assumes "slots_inv D C idx" "enumerates rows C"
  shows "mset (map (row_at C idx) (live_slots idx)) = mset rows"
proof -
  note I = slots_invD [OF assms(1)]
  have inj: "inj_on (row_at C idx) (live idx)"
  proof (rule inj_onI)
    fix s t assume "s \<in> live idx" "t \<in> live idx" "row_at C idx s = row_at C idx t"
    then show "s = t" using row_at(3) [OF assms(1)] by (metis option.inject)
  qed
  have "row_at C idx ` live idx = ran C"
  proof (intro equalityI subsetI)
    fix r assume "r \<in> row_at C idx ` live idx"
    then show "r \<in> ran C" using row_at(2) [OF assms(1)] by (auto simp: ran_def)
  next
    fix r assume "r \<in> ran C"
    then obtain i where i: "C i = Some r" by (auto simp: ran_def)
    then obtain s where s: "slot_at idx s = Some (entry_of D r)" "id_of r = i" using I(2) [OF i] by blast
    then have "s \<in> live idx" "row_at C idx s = r" using i by (simp_all add: live_def row_at_def ent_def)
    then show "r \<in> row_at C idx ` live idx" by blast
  qed
  then have "set (map (row_at C idx) (live_slots idx)) = set rows" using assms(2) by (simp add: enumerates_def)
  moreover have "distinct (map (row_at C idx) (live_slots idx))" using inj by (simp add: distinct_map)
  moreover have "distinct rows" using assms(2) by (simp add: enumerates_def distinct_map)
  ultimately show ?thesis by (metis set_eq_iff_mset_eq_distinct)
qed

text \<open>What the filters of a query read is in the entry.\<close>

lemma matchCondition_cong:
  assumes "conditionAttrs c = Some attrs" "\<And>a. a \<in> set attrs \<Longrightarrow> getp r a = getp q a"
  shows "matchCondition c r = matchCondition c q"
  using assms
proof (induction c arbitrary: attrs)
  case (Leaf a cmp v)
  then obtain s where "a = Str s" "attrs = [s]" by (auto split: js.splits if_splits)
  then show ?case using Leaf by (simp add: matchLeaf_def)
next
  case (Group op cs)
  have f: "foldr (\<lambda>c out. case (conditionAttrs c, out) of (Some a, Some b) \<Rightarrow> Some (a @ b) | _ \<Rightarrow> None) cs (Some []) = Some attrs"
    using Group.prems(1) by (simp split: if_splits)
  have "\<forall>c \<in> set cs. \<exists>as. conditionAttrs c = Some as \<and> set as \<subseteq> set attrs"
    using f
  proof (induction cs arbitrary: attrs)
    case (Cons c cs)
    then obtain a b where "conditionAttrs c = Some a" "attrs = a @ b"
      "foldr (\<lambda>c out. case (conditionAttrs c, out) of (Some a, Some b) \<Rightarrow> Some (a @ b) | _ \<Rightarrow> None) cs (Some []) = Some b"
      by (auto split: option.splits)
    then show ?case using Cons.IH [of b] by fastforce
  qed simp
  then have "matchCondition c r = matchCondition c q" if "c \<in> set cs" for c
    using Group that by (metis subsetD)
  then show ?case by (simp add: Let_def list_ex_iff list_all_iff)
qed

lemma matchesConditions_all: "matchesConditions cs r \<longleftrightarrow> (\<forall>c \<in> set cs. matchCondition c r)"
  by (induction cs) auto

definition scopable_conditions :: "condition list \<Rightarrow> bool" where
  "scopable_conditions cs \<longleftrightarrow> (\<forall>c \<in> set cs. \<exists>as. conditionAttrs c = Some as \<and> set as \<subseteq> set SUPPORTED_SCOPE_ATTRS)"

lemma if_none2: "(if a then None else if b then None else x) = Some p \<Longrightarrow> \<not> a \<and> \<not> b"
  by (auto split: if_splits)

lemma planQuery_scopable:
  assumes "planQuery cs f al = Some plan"
  shows "scopable_conditions cs"
  unfolding scopable_conditions_def
proof
  fix c assume c: "c \<in> set cs"
  have "\<not> list_ex (\<lambda>c. conditionAttrs c = None) cs"
    "\<not> list_ex (\<lambda>c. list_ex (\<lambda>a. a \<notin> set SUPPORTED_SCOPE_ATTRS) (case conditionAttrs c of None \<Rightarrow> [] | Some as \<Rightarrow> as)) cs"
    using if_none2 [OF assms [unfolded planQuery_def]] by blast+
  then show "\<exists>as. conditionAttrs c = Some as \<and> set as \<subseteq> set SUPPORTED_SCOPE_ATTRS"
    using c by (cases "conditionAttrs c") (auto simp: list_ex_iff)
qed

lemma matches_meta:
  assumes "scopable_conditions cs"
  shows "matchesConditions cs (meta_of r) = matchesConditions cs r"
  unfolding matchesConditions_all
proof (rule ball_cong [OF refl])
  fix c assume "c \<in> set cs"
  then obtain as where "conditionAttrs c = Some as" "set as \<subseteq> set SUPPORTED_SCOPE_ATTRS"
    using assms by (auto simp: scopable_conditions_def)
  then show "matchCondition c (meta_of r) = matchCondition c r"
    by (intro matchCondition_cong) (auto simp: INDEX_META_ATTRS_def intro!: getp_meta)
qed

lemma passes_meta: "passesRecordFilters D (meta_of r) f now = passesRecordFilters D r f now"
proof -
  have "getp (meta_of r) a = getp r a" if "a \<in> set TEMPORAL_ATTRS" for a
    by (rule getp_meta) (use that in \<open>simp add: INDEX_META_ATTRS_def\<close>)
  then have "getp (meta_of r) ''createdAt'' = getp r ''createdAt''" "getp (meta_of r) ''expiresAt'' = getp r ''expiresAt''"
    "getp (meta_of r) ''validFrom'' = getp r ''validFrom''" "getp (meta_of r) ''validTo'' = getp r ''validTo''"
    by (simp_all add: TEMPORAL_ATTRS_def)
  then show ?thesis by (simp only: passesRecordFilters_def)
qed

definition scanned :: "dates \<Rightarrow> condition list \<Rightarrow> time_filters \<Rightarrow> allowed_pred option \<Rightarrow> int \<Rightarrow> jobj \<Rightarrow> bool" where
  "scanned D cs f al now r \<longleftrightarrow> isAllowedBm25Candidate D r cs f now \<and> allows al (meta_of r)"

lemma in_scope_row:
  assumes "slots_inv D C idx" "scopable_conditions cs"
  shows "in_scope D idx cs f al now s \<longleftrightarrow> s \<in> live idx \<and> scanned D cs f al now (row_at C idx s)"
proof (cases "slot_at idx s")
  case (Some e)
  then have l: "s \<in> live idx" "ent idx s = e" by (simp_all add: live_def ent_def)
  then have "s_meta e = meta_of (row_at C idx s)" using row_at(1) [OF assms(1) l(1)] by (metis entry_fields(1))
  then show ?thesis using Some l(1)
    by (simp add: in_scope_def scanned_def isAllowedBm25Candidate_def matches_meta [OF assms(2)] passes_meta)
qed (simp add: in_scope_def live_def)

section \<open>Scores\<close>

lemma filter_by_key:
  assumes "distinct S"
  shows "mset (filter (\<lambda>x. fst x \<in> set S) L) = mset (concat (map (\<lambda>s. filter (\<lambda>x. fst x = s) L) S))"
proof (induction L)
  case (Cons x L)
  have "mset (concat (map (\<lambda>s. filter (\<lambda>y. fst y = s) (x # L)) S)) =
      mset (concat (map (\<lambda>s. filter (\<lambda>y. fst y = s) L) S)) + (if fst x \<in> set S then {#x#} else {#})"
    using assms by (induction S) auto
  then show ?case using Cons by simp
qed simp

lemma term_hits_slots:
  assumes inv: "slots_inv D C idx" "post_inv C idx" and s: "s \<in> live idx"
  shows "filter (\<lambda>x. fst x = s) (plist (bx_postings idx) t) = term_hits s (row_at C idx s) t"
proof -
  have "C (id_of (row_at C idx s)) = Some (row_at C idx s)"
    using row_at(2,4) [OF inv(1) s] by simp
  then show ?thesis using inv(2) row_at(3) [OF inv(1) s] unfolding post_inv_def by blast
qed

definition row_toks :: "(string \<Rightarrow> jobj option) \<Rightarrow> index \<Rightarrow> nat \<Rightarrow> string list" where
  "row_toks C idx s = tokenize (content_of (row_at C idx s))"

lemma document_frequency:
  assumes inv: "slots_inv D C idx" "post_inv C idx" and K: "distinct K" "set K \<subseteq> live idx" "\<And>s. check s \<longleftrightarrow> s \<in> set K"
  shows "length (filter (\<lambda>(s, _). check s) (plist (bx_postings idx) t)) = doc_freq (map (row_toks C idx) K) t"
proof -
  let ?L = "plist (bx_postings idx) t"
  have "length (filter (\<lambda>(s, _). check s) ?L) = length (filter (\<lambda>x. fst x \<in> set K) ?L)"
    by (rule arg_cong [where f = length], rule filter_cong) (auto simp: K(3))
  also have "\<dots> = length (concat (map (\<lambda>s. filter (\<lambda>x. fst x = s) ?L) K))"
    using filter_by_key [OF K(1), of ?L] by (metis size_mset)
  also have "\<dots> = length (concat (map (\<lambda>s. term_hits s (row_at C idx s) t) K))"
    using K(2) term_hits_slots [OF inv] by (intro arg_cong [where f = length] arg_cong [where f = concat] map_cong) auto
  also have "\<dots> = doc_freq (map (row_toks C idx) K) t"
    by (induction K) (simp_all add: term_hits_def row_toks_def Let_def)
  finally show ?thesis .
qed

definition val :: "(nat \<times> 'f::linordered_field) list \<Rightarrow> nat \<Rightarrow> 'f" where
  "val scores s = (case map_of scores s of None \<Rightarrow> 0 | Some v \<Rightarrow> v)"

definition score_step ::
    "(nat \<Rightarrow> bool) \<Rightarrow> (nat \<Rightarrow> nat \<Rightarrow> 'f::linordered_field) \<Rightarrow> nat \<times> nat \<Rightarrow> (nat \<times> 'f) list \<Rightarrow> (nat \<times> 'f) list" where
  "score_step check w x scores =
     (if check (fst x) then AList.update (fst x) (val scores (fst x) + w (fst x) (snd x)) scores else scores)"

lemma score_steps:
  "val (fold (score_step check w) L scores) s =
     (if check s then fold (\<lambda>x v. v + w s (snd x)) (filter (\<lambda>x. fst x = s) L) (val scores s) else val scores s)"
  by (induction L arbitrary: scores) (auto simp: score_step_def val_def update_conv')

lemma score_keys:
  "distinct (map fst scores) \<Longrightarrow> distinct (map fst (fold (score_step check w) L scores))"
  "fst ` set (fold (score_step check w) L scores) \<subseteq> fst ` set scores \<union> {s. check s}"
proof (induction L arbitrary: scores)
  case (Cons x L)
  { case 1
    then show ?case using Cons(1) [of "score_step check w x scores"] by (simp add: score_step_def)
  next
    case 2
    have "fst ` set (score_step check w x scores) \<subseteq> fst ` set scores \<union> {s. check s}"
      by (auto simp: score_step_def)
    then have "fst ` set (fold (score_step check w) L (score_step check w x scores)) \<subseteq> fst ` set scores \<union> {s. check s}"
      using Cons(2) [of "score_step check w x scores"] by blast
    then show ?case by simp }
qed simp_all

lemma all_scores:
  assumes inv: "slots_inv D C idx" "post_inv C idx" and ck: "\<And>s. check s \<Longrightarrow> s \<in> live idx"
    and w: "\<And>t s f. check s \<Longrightarrow> w t s f = term_weight (idf_of mlog N (df t)) f (length (row_toks C idx s)) nrm"
  defines "S \<equiv> \<lambda>ts scores. fold (\<lambda>t. fold (score_step check (w t)) (plist (bx_postings idx) t)) ts scores"
  shows "check s \<Longrightarrow> val (S qToks []) s = doc_score mlog N df nrm qToks (row_toks C idx s)"
    "distinct (map fst (S qToks []))" "fst ` set (S qToks []) \<subseteq> {s. check s}"
proof -
  have one: "fold (\<lambda>x v. v + w t s (snd x)) (filter (\<lambda>x. fst x = s) (plist (bx_postings idx) t)) v =
      (if t \<in> set (row_toks C idx s)
       then v + term_weight (idf_of mlog N (df t)) (count_list (row_toks C idx s) t) (length (row_toks C idx s)) nrm else v)"
    if "check s" for t s v
    using that by (simp add: term_hits_slots [OF inv ck] term_hits_def row_toks_def Let_def w)
  have "val (S ts scores) s = fold (\<lambda>t v. if t \<in> set (row_toks C idx s)
       then v + term_weight (idf_of mlog N (df t)) (count_list (row_toks C idx s) t) (length (row_toks C idx s)) nrm else v)
       ts (val scores s)" if "check s" for ts scores s
    using that unfolding S_def by (induction ts arbitrary: scores) (simp_all add: score_steps one)
  from this [of s qToks "[]"] show "check s \<Longrightarrow> val (S qToks []) s = doc_score mlog N df nrm qToks (row_toks C idx s)"
    by (simp add: doc_score_def val_def)
  have "distinct (map fst scores) \<Longrightarrow> distinct (map fst (S ts scores))" for ts scores
    unfolding S_def by (induction ts arbitrary: scores) (simp_all add: score_keys(1))
  then show "distinct (map fst (S qToks []))" by simp
  have "fst ` set scores \<subseteq> {s. check s} \<Longrightarrow> fst ` set (S ts scores) \<subseteq> {s. check s}" for ts scores
    unfolding S_def
  proof (induction ts arbitrary: scores)
    case (Cons t ts)
    have "fst ` set (fold (score_step check (w t)) (plist (bx_postings idx) t) scores) \<subseteq> {s. check s}"
      using score_keys(2) [of check "w t" "plist (bx_postings idx) t" scores] Cons.prems by blast
    from Cons.IH [OF this] show ?case by simp
  qed simp
  then show "fst ` set (S qToks []) \<subseteq> {s. check s}" by simp
qed

lemma positive_scores:
  assumes sc: "distinct (map fst scores)" "fst ` set scores \<subseteq> set K" "distinct K" "\<And>s. s \<in> set K \<Longrightarrow> val scores s = g s"
  shows "mset (filter (\<lambda>(s, v). 0 < v) scores) = mset (filter (\<lambda>(s, v). 0 < v) (map (\<lambda>s. (s, g s)) K))"
proof -
  have m: "map_of scores s = Some v \<longleftrightarrow> (s, v) \<in> set scores" for s v using sc(1) by (rule map_of_eq_Some_iff)
  have "set (filter (\<lambda>(s, v). 0 < v) scores) = set (filter (\<lambda>(s, v). 0 < v) (map (\<lambda>s. (s, g s)) K))"
  proof (intro set_eqI)
    fix x :: "nat \<times> 'a"
    obtain s v where x: "x = (s, v)" by (cases x)
    have "(s, v) \<in> set scores \<and> 0 < v \<longleftrightarrow> s \<in> set K \<and> v = g s \<and> 0 < v"
    proof
      assume a: "(s, v) \<in> set scores \<and> 0 < v"
      then have "s \<in> set K" using sc(2) by force
      moreover have "val scores s = v" using a by (simp add: val_def flip: m)
      ultimately show "s \<in> set K \<and> v = g s \<and> 0 < v" using sc(4) a by auto
    next
      assume a: "s \<in> set K \<and> v = g s \<and> 0 < v"
      then have "0 < val scores s" "val scores s = v" using sc(4) by auto
      then show "(s, v) \<in> set scores \<and> 0 < v" by (auto simp: val_def m split: option.splits)
    qed
    then show "x \<in> set (filter (\<lambda>(s, v). 0 < v) scores) \<longleftrightarrow>
        x \<in> set (filter (\<lambda>(s, v). 0 < v) (map (\<lambda>s. (s, g s)) K))"
      by (auto simp: x)
  qed
  moreover have "distinct (filter (\<lambda>(s, v). 0 < v) scores)" using sc(1) by (simp add: distinct_map)
  moreover have "distinct (filter (\<lambda>(s, v). 0 < v) (map (\<lambda>s. (s, g s)) K))"
    using sc(3) by (intro distinct_filter) (simp add: distinct_map inj_on_def)
  ultimately show ?thesis by (metis set_eq_iff_mset_eq_distinct)
qed

text \<open>The part of \<open>rank\<close> after the plan, the sweep and the tokens, on a swept index.\<close>

definition rank_ids ::
    "('f::linordered_field \<Rightarrow> 'f) \<Rightarrow> index \<Rightarrow> (nat \<Rightarrow> bool) \<Rightarrow> int \<times> int \<Rightarrow> nat \<Rightarrow> string list \<Rightarrow> string list" where
  "rank_ids mlog idx check st limit qToks =
     (let nrm = or_one (of_int (snd st) / of_int (if fst st = 0 then 1 else fst st));
          df = (\<lambda>t. length (filter (\<lambda>(s, _). check s) (plist (bx_postings idx) t)));
          w = (\<lambda>t s f. term_weight (idf_of mlog (fst st) (df t)) f (case slot_at idx s of None \<Rightarrow> 0 | Some e \<Rightarrow> s_dl e) nrm);
          scores = fold (\<lambda>t. fold (score_step check (w t)) (plist (bx_postings idx) t)) qToks [];
          out = map (\<lambda>(s, v). (case slot_at idx s of None \<Rightarrow> [] | Some e \<Rightarrow> s_id e, v)) (filter (\<lambda>(s, v). 0 < v) scores) in
      map fst (take limit (sort_by score_le out)))"

lemma rank_eq:
  assumes "planQuery conditions f isAllowed = Some plan"
  shows "fst (rank mlog D conditions f isAllowed now limit q idx) =
    Some (if tokenize q = [] then []
          else rank_ids mlog (sweep now idx) (in_scope D (sweep now idx) conditions f isAllowed now)
                 (stats D (sweep now idx) plan conditions f isAllowed now) limit (js_set (tokenize q)))"
proof -
  have e: "js_set (tokenize q) = [] \<longleftrightarrow> tokenize q = []" by (simp add: js_set_def)
  have step: "(\<lambda>(s, tf) scores. if check s then AList.update s ((case map_of scores s of None \<Rightarrow> 0 | Some v \<Rightarrow> v) + h s tf) scores
      else scores) = score_step check h" for check and h :: "nat \<Rightarrow> nat \<Rightarrow> 'a"
    by (auto simp: fun_eq_iff score_step_def val_def)
  show ?thesis
    unfolding rank_def assms option.case Let_def e rank_ids_def step plist_def
    by (simp split: prod.split)
qed

lemma ranking:
  assumes inv: "slots_inv D C idx" "post_inv C idx"
    and K: "distinct K" "set K \<subseteq> live idx" "\<And>s. check s \<longleftrightarrow> s \<in> set K"
    and st: "fst st = int (length K)" "snd st = int (sum_list (map (\<lambda>s. length (row_toks C idx s)) K))"
    and docs: "mset docs = mset (map (\<lambda>s. \<lparr>doc_id = id_of (row_at C idx s), doc_content = content_of (row_at C idx s)\<rparr>) K)"
  shows "rank_ids mlog idx check st limit (js_set (tokenize q)) =
    map fst (take limit (filter (\<lambda>r. 0 < snd r) (buildBM25_rank mlog docs q)))"
proof -
  let ?toks = "row_toks C idx"
  let ?df = "\<lambda>t. length (filter (\<lambda>(s, _). check s) (plist (bx_postings idx) t))"
  define nrm where "nrm = or_one (of_int (snd st) / (of_int (if fst st = 0 then 1 else fst st)) :: 'a)"
  define g where "g s = doc_score mlog (fst st) ?df nrm (js_set (tokenize q)) (?toks s)" for s
  define w where "w = (\<lambda>t s f. term_weight (idf_of mlog (fst st) (?df t)) f (case slot_at idx s of None \<Rightarrow> 0 | Some e \<Rightarrow> s_dl e) nrm)"
  define scores where "scores = fold (\<lambda>t. fold (score_step check (w t)) (plist (bx_postings idx) t)) (js_set (tokenize q)) []"
  have ck: "\<And>s. check s \<Longrightarrow> s \<in> live idx" using K by auto
  have sl: "slot_at idx s = Some (entry_of D (row_at C idx s))" if "s \<in> live idx" for s
    using row_at(1) [OF inv(1) that] that by (auto simp: live_def ent_def)
  have wt: "w t s f = term_weight (idf_of mlog (fst st) (?df t)) f (length (?toks s)) nrm" if "check s" for t s f
    using sl [OF ck [OF that]] by (simp add: w_def row_toks_def)
  note all = all_scores [where check = check and w = w and df = ?df and N = "fst st" and nrm = nrm and mlog = mlog
      and qToks = "js_set (tokenize q)", OF inv ck wt, folded scores_def]
  have sc: "distinct (map fst scores)" "fst ` set scores \<subseteq> set K" "\<And>s. s \<in> set K \<Longrightarrow> val scores s = g s"
    using all K(3) by (simp_all add: g_def subset_iff)
  have m: "mset (filter (\<lambda>(s, v). 0 < v) scores) = mset (filter (\<lambda>(s, v). 0 < v) (map (\<lambda>s. (s, g s)) K))"
    by (rule positive_scores [OF sc(1,2) K(1) sc(3)])
  have mp: "mset (map h docs) = mset (map (\<lambda>s. h \<lparr>doc_id = id_of (row_at C idx s), doc_content = content_of (row_at C idx s)\<rparr>) K)" for h :: "bm25_doc \<Rightarrow> 'z"
    by (simp add: docs multiset.map_comp comp_def)
  have df: "doc_freq (map (\<lambda>d. tokenize (doc_content d)) docs) t = ?df t" for t
  proof -
    have "?df t = doc_freq (map ?toks K) t" by (rule document_frequency [OF inv K])
    also have "\<dots> = size (filter_mset (\<lambda>toks. t \<in> set toks) (mset (map ?toks K)))"
      by (metis doc_freq_def mset_filter size_mset)
    also have "mset (map ?toks K) = mset (map (\<lambda>d. tokenize (doc_content d)) docs)"
      unfolding mp by (simp add: row_toks_def [abs_def])
    finally show ?thesis by (metis doc_freq_def mset_filter size_mset)
  qed
  have len: "length docs = length K" using docs by (metis length_map size_mset)
  have sum: "sum_list (map length (map (\<lambda>d. tokenize (doc_content d)) docs)) = sum_list (map (\<lambda>s. length (?toks s)) K)"
  proof -
    have "mset (map length (map (\<lambda>d. tokenize (doc_content d)) docs)) = mset (map (\<lambda>s. length (?toks s)) K)"
      unfolding map_map
      unfolding mp by (simp add: row_toks_def [abs_def])
    then show ?thesis by (metis sum_mset_sum_list)
  qed
  let ?score = "\<lambda>d. (doc_id d, doc_score mlog (int (length docs)) (doc_freq (map (\<lambda>d. tokenize (doc_content d)) docs))
      (or_one (of_nat (sum_list (map length (map (\<lambda>d. tokenize (doc_content d)) docs))) / of_nat (if length docs = 0 then 1 else length docs)))
      (js_set (tokenize q)) (tokenize (doc_content d)))"
  have "buildBM25_rank mlog docs q = sort_by score_le (map ?score docs)"
    unfolding buildBM25_rank_eq Let_def ..
  also have "map ?score docs = map (\<lambda>d. (doc_id d, doc_score mlog (fst st) ?df nrm (js_set (tokenize q)) (tokenize (doc_content d)))) docs"
    unfolding sum len ext [of "doc_freq (map (\<lambda>d. tokenize (doc_content d)) docs)" ?df, OF df]
    by (simp add: st nrm_def)
  finally have b: "buildBM25_rank mlog docs q = sort_by score_le (map (\<lambda>d. (doc_id d, doc_score mlog (fst st) ?df nrm (js_set (tokenize q)) (tokenize (doc_content d)))) docs)" .
  let ?sd = "\<lambda>d. (doc_id d, doc_score mlog (fst st) ?df nrm (js_set (tokenize q)) (tokenize (doc_content d)))"
  let ?out = "map (\<lambda>(s, v). (case slot_at idx s of None \<Rightarrow> [] | Some e \<Rightarrow> s_id e, v)) (filter (\<lambda>(s, v). 0 < v) scores)"
  have "mset ?out = image_mset (\<lambda>(s, v). (case slot_at idx s of None \<Rightarrow> [] | Some e \<Rightarrow> s_id e, v))
      (mset (filter (\<lambda>(s, v). 0 < v) (map (\<lambda>s. (s, g s)) K)))"
    using m by (metis mset_map)
  also have "\<dots> = mset (filter (\<lambda>r. 0 < snd r) (map (\<lambda>s. (id_of (row_at C idx s), g s)) K))"
    using K(2) by (induction K) (auto simp: sl)
  also have "\<dots> = mset (filter (\<lambda>r. 0 < snd r) (map ?sd docs))"
  proof -
    have "mset (map (\<lambda>s. (id_of (row_at C idx s), g s)) K) = mset (map ?sd docs)"
      unfolding mp by (simp add: g_def row_toks_def)
    then show ?thesis by (metis mset_filter)
  qed
  finally have o: "mset ?out = mset (filter (\<lambda>r. 0 < snd r) (map ?sd docs))" .
  have "rank_ids mlog idx check st limit (js_set (tokenize q)) = map fst (take limit (sort_by score_le ?out))"
    unfolding rank_ids_def Let_def scores_def w_def nrm_def ..
  also have "\<dots> = map fst (take limit (filter (\<lambda>r. 0 < snd r) (buildBM25_rank mlog docs q)))"
    unfolding b filter_sort_by_score sort_by_score_unique [OF o] ..
  finally show ?thesis .
qed

section \<open>Corpus statistics, entry by entry\<close>

definition scope_list :: "index \<Rightarrow> (nat \<Rightarrow> bool) \<Rightarrow> nat list" where
  "scope_list idx check = filter check (live_slots idx)"

lemma entries_of_slots: "map (ent idx) (live_slots idx) = map the (filter (\<lambda>x. x \<noteq> None) (bx_slots idx))"
proof -
  have "map (ent idx) (live_slots idx) = map (\<lambda>s. the (bx_slots idx ! s)) (filter (\<lambda>s. bx_slots idx ! s \<noteq> None) [0..<length (bx_slots idx)])"
    unfolding live_slots_def by (rule map_cong) (auto simp: slot_at_def ent_def intro!: filter_cong)
  also have "\<dots> = map the (filter (\<lambda>x. x \<noteq> None) (map ((!) (bx_slots idx)) [0..<length (bx_slots idx)]))"
    by (simp add: filter_map comp_def)
  finally show ?thesis by (simp add: map_nth)
qed

lemma stats_exact:
  assumes exact: "qp_exact plan"
  shows "stats D idx plan cs f al now =
    (int (length (scope_list idx (in_scope D idx cs f al now))),
     int (sum_list (map (\<lambda>s. s_dl (ent idx s)) (scope_list idx (in_scope D idx cs f al now)))))"
proof -
  define Q where "Q e \<longleftrightarrow> matchesConditions cs (s_meta e) \<and> passesRecordFilters D (s_meta e) f now \<and> allows al (s_meta e)" for e :: slot
  have F: "fold (\<lambda>entry (N, sumDl). (case entry of None \<Rightarrow> (N, sumDl) | Some e \<Rightarrow>
        if Q e then (N + 1, sumDl + int (s_dl e)) else (N, sumDl))) xs (a, b) =
      (a + int (length (filter Q (map the (filter (\<lambda>x. x \<noteq> None) xs)))),
       b + int (sum_list (map s_dl (filter Q (map the (filter (\<lambda>x. x \<noteq> None) xs))))))" for xs a b
    by (induction xs arbitrary: a b) (auto split: option.split)
  have c: "in_scope D idx cs f al now s = Q (ent idx s)" if "s \<in> live idx" for s
    using that by (auto simp: in_scope_def live_def ent_def Q_def)
  have K: "map (ent idx) (scope_list idx (in_scope D idx cs f al now)) = filter Q (map (ent idx) (live_slots idx))"
    unfolding scope_list_def filter_map by (rule arg_cong [where f = "map (ent idx)"], rule filter_cong) (simp_all add: c)
  have "stats D idx plan cs f al now = (int (length (filter Q (map (ent idx) (live_slots idx)))),
       int (sum_list (map s_dl (filter Q (map (ent idx) (live_slots idx))))))"
    using F [of "bx_slots idx" 0 0] unfolding stats_def entries_of_slots Q_def
    by (simp only: exact if_True add_0)
  then show ?thesis unfolding K [symmetric] by (simp add: comp_def)
qed

section \<open>Corpus statistics from the aggregates\<close>

lemma key_sums:
  assumes fin: "finite A" "finite Ks" and other: "\<And>k. k \<notin> Ks \<Longrightarrow> key_sum A E w k = 0"
  shows "(\<Sum>k\<in>Ks. if good k then key_sum A E w k else 0) = (\<Sum>s\<in>A. if good (s_pkey (E s)) then w (E s) else 0)"
proof -
  let ?K = "Ks \<union> (\<lambda>s. s_pkey (E s)) ` A"
  have "(\<Sum>k\<in>Ks. if good k then key_sum A E w k else 0) = (\<Sum>k\<in>?K. if good k then key_sum A E w k else 0)"
    by (rule sum.mono_neutral_left) (use fin other in auto)
  also have "\<dots> = (\<Sum>k\<in>?K. \<Sum>s\<in>A. if k = s_pkey (E s) then (if good (s_pkey (E s)) then w (E s) else 0) else 0)"
    unfolding key_sum_def by (rule sum.cong) (auto intro!: sum.cong sum.neutral)
  also have "\<dots> = (\<Sum>s\<in>A. \<Sum>k\<in>?K. if k = s_pkey (E s) then (if good (s_pkey (E s)) then w (E s) else 0) else 0)"
    by (rule sum.swap)
  also have "\<dots> = (\<Sum>s\<in>A. if good (s_pkey (E s)) then w (E s) else 0)"
    by (rule sum.cong) (use fin in \<open>simp_all add: sum.delta\<close>)
  finally show ?thesis .
qed

definition agg_step ::
    "(string \<times> jobj) list \<Rightarrow> (jobj \<Rightarrow> bool) \<Rightarrow> string \<times> agg \<Rightarrow> int \<times> int \<Rightarrow> int \<times> int" where
  "agg_step reps ok x st =
     (case x of (pkey, a) \<Rightarrow>
       if agg_count a = 0 then st
       else case map_of reps pkey of
           None \<Rightarrow> st
         | Some rep \<Rightarrow> if ok rep then (fst st + agg_count a, snd st + agg_sumDl a) else st)"

definition good_key :: "(string \<times> jobj) list \<Rightarrow> (jobj \<Rightarrow> bool) \<Rightarrow> string \<Rightarrow> bool" where
  "good_key reps ok k \<longleftrightarrow> (case map_of reps k of None \<Rightarrow> False | Some rep \<Rightarrow> ok rep)"

lemma aggregate_total:
  assumes d: "distinct (map fst parts)" and fin: "finite A"
    and at: "\<And>k. agg_at parts k = (key_sum A E w k, key_sum A E u k)"
    and pos: "\<And>s. s \<in> A \<Longrightarrow> 0 \<le> w (E s) \<and> (w (E s) = 0 \<longrightarrow> u (E s) = 0)"
  shows "fold (agg_step reps ok) parts (0, 0) =
    (\<Sum>s\<in>A. if good_key reps ok (s_pkey (E s)) then w (E s) else 0,
     \<Sum>s\<in>A. if good_key reps ok (s_pkey (E s)) then u (E s) else 0)"
proof -
  let ?good = "good_key reps ok"
  let ?Ks = "fst ` set parts"
  have F: "fold (agg_step reps ok) xs (a, b) =
      (a + sum_list (map (\<lambda>x. if ?good (fst x) then agg_count (snd x) else 0) xs),
       b + sum_list (map (\<lambda>x. if ?good (fst x) \<and> agg_count (snd x) \<noteq> 0 then agg_sumDl (snd x) else 0) xs))" for xs a b
    by (induction xs arbitrary: a b) (auto simp: agg_step_def good_key_def split: option.split)
  have m: "map_of parts (fst x) = Some (snd x)" if "x \<in> set parts" for x using d that by simp
  have z: "key_sum A E w k = 0" "key_sum A E u k = 0" if "k \<notin> ?Ks" for k
  proof -
    have "map_of parts k = None" using that by (simp add: map_of_eq_None_iff)
    then have "agg_at parts k = (0, 0)" by (simp add: agg_at_def)
    then show "key_sum A E w k = 0" "key_sum A E u k = 0" using at [of k] by simp_all
  qed
  have zero: "key_sum A E u k = 0" if "key_sum A E w k = 0" for k
  proof -
    have "\<forall>s\<in>A. (if s_pkey (E s) = k then w (E s) else 0) = 0"
      using that fin pos unfolding key_sum_def by (subst (asm) sum_nonneg_eq_0_iff) auto
    then have "\<forall>s\<in>A. (if s_pkey (E s) = k then u (E s) else 0) = 0" using pos by auto
    then show ?thesis unfolding key_sum_def by (rule sum.neutral)
  qed
  have L: "sum_list (map h parts) = (\<Sum>k\<in>?Ks. g k)" if h: "\<And>x. x \<in> set parts \<Longrightarrow> h x = g (fst x)"
    for h :: "string \<times> agg \<Rightarrow> int" and g
  proof -
    have "sum_list (map h parts) = (\<Sum>x\<in>set parts. h x)" using d by (simp add: sum_list_distinct_conv_sum_set distinct_map)
    also have "\<dots> = (\<Sum>x\<in>set parts. g (fst x))" using h by (rule sum.cong [OF refl])
    also have "\<dots> = (\<Sum>k\<in>?Ks. g k)" using d by (simp add: sum.reindex distinct_map)
    finally show ?thesis .
  qed
  have "sum_list (map (\<lambda>x. if ?good (fst x) then agg_count (snd x) else 0) parts) =
      (\<Sum>k\<in>?Ks. if ?good k then key_sum A E w k else 0)"
  proof (rule L)
    fix x assume "x \<in> set parts"
    then have "agg_at parts (fst x) = (agg_count (snd x), agg_sumDl (snd x))" by (simp add: agg_at_def m)
    then show "(if ?good (fst x) then agg_count (snd x) else 0) = (if ?good (fst x) then key_sum A E w (fst x) else 0)"
      using at [of "fst x"] by simp
  qed
  moreover have "sum_list (map (\<lambda>x. if ?good (fst x) \<and> agg_count (snd x) \<noteq> 0 then agg_sumDl (snd x) else 0) parts) =
      (\<Sum>k\<in>?Ks. if ?good k then key_sum A E u k else 0)"
  proof (rule L)
    fix x assume "x \<in> set parts"
    then have "agg_at parts (fst x) = (agg_count (snd x), agg_sumDl (snd x))" by (simp add: agg_at_def m)
    then show "(if ?good (fst x) \<and> agg_count (snd x) \<noteq> 0 then agg_sumDl (snd x) else 0) =
        (if ?good (fst x) then key_sum A E u (fst x) else 0)"
      using at [of "fst x"] zero [of "fst x"] by auto
  qed
  ultimately show ?thesis
    unfolding F [of parts 0 0] using key_sums [OF fin, of ?Ks E w ?good] key_sums [OF fin, of ?Ks E u ?good] z by simp
qed

lemma agg_at_merge:
  assumes "distinct (map fst m)"
  shows "agg_at (fold (\<lambda>(pkey, a). bump pkey (agg_sumDl a) (agg_count a)) m merged) k =
    (fst (agg_at merged k) + fst (agg_at m k), snd (agg_at merged k) + snd (agg_at m k))"
  using assms
proof (induction m arbitrary: merged)
  case (Cons x m)
  obtain pk a where x: "x = (pk, a)" by (cases x)
  have n: "map_of m pk = None" using Cons.prems x by (simp add: map_of_eq_None_iff)
  show ?case using Cons.IH [of "bump pk (agg_sumDl a) (agg_count a) merged"] Cons.prems n
    by (auto simp: x agg_at_bump agg_at_def [of "_ # _"] agg_at_def [of m])
qed simp

lemma mergeFacetAggregates_at:
  assumes "facets_distinct F"
  shows "distinct (map fst (mergeFacetAggregates F attr values))"
    "agg_at (mergeFacetAggregates F attr values) k =
      (sum_list (map (\<lambda>v. fst (facet_at F (facet_key attr v) k)) values),
       sum_list (map (\<lambda>v. snd (facet_at F (facet_key attr v) k)) values))"
proof -
  let ?step = "\<lambda>v merged. (case map_of F (facet_key attr v) of None \<Rightarrow> merged
     | Some m \<Rightarrow> fold (\<lambda>(pkey, a). bump pkey (agg_sumDl a) (agg_count a)) m merged)"
  have dm: "distinct (map fst m)" if "map_of F (facet_key attr v) = Some m" for v m
    using assms that by (auto simp: facets_distinct_def)
  have ds: "distinct (map fst (fold (\<lambda>(pkey, a). bump pkey (agg_sumDl a) (agg_count a)) m merged))"
    if "distinct (map fst merged)" for m merged
    using that by (induction m arbitrary: merged) auto
  have "distinct (map fst (fold ?step values merged))" if "distinct (map fst merged)" for merged
    using that by (induction "values" arbitrary: merged) (auto simp: ds split: option.split)
  from this [of "[]"] have 1: "distinct (map fst (fold ?step values []))" by simp
  have "agg_at (fold ?step values merged) k =
      (fst (agg_at merged k) + sum_list (map (\<lambda>v. fst (facet_at F (facet_key attr v) k)) values),
       snd (agg_at merged k) + sum_list (map (\<lambda>v. snd (facet_at F (facet_key attr v) k)) values))" for merged
    by (induction "values" arbitrary: merged) (auto simp: facet_at_def agg_at_merge dm split: option.split)
  from this [of "[]"] have 2: "agg_at (fold ?step values []) k =
      (sum_list (map (\<lambda>v. fst (facet_at F (facet_key attr v) k)) values),
       sum_list (map (\<lambda>v. snd (facet_at F (facet_key attr v) k)) values))" by simp
  consider v where "values = [v]" | "mergeFacetAggregates F attr values = fold ?step values []"
    unfolding mergeFacetAggregates_def by (cases "values"; cases "tl values") auto
  then show "distinct (map fst (mergeFacetAggregates F attr values))"
    "agg_at (mergeFacetAggregates F attr values) k =
      (sum_list (map (\<lambda>v. fst (facet_at F (facet_key attr v) k)) values),
       sum_list (map (\<lambda>v. snd (facet_at F (facet_key attr v) k)) values))"
    using 1 2 by (cases; auto simp: mergeFacetAggregates_def facet_at_def dm split: option.split)+
qed

lemma key_sum_values:
  "sum_list (map (\<lambda>v. key_sum A E (g v) k) vs) = key_sum A E (\<lambda>e. sum_list (map (\<lambda>v. g v e) vs)) k"
proof (induction vs)
  case Nil
  show ?case by (simp add: key_sum_def)
next
  case (Cons v vs)
  then show ?case by (simp add: key_sum_def sum.distrib [symmetric]) (rule sum.cong; simp)
qed

section \<open>Regular records and conditions\<close>

text \<open>
  The values the writers of a memory record produce. A key of a partition or a facet joins the
  printed values with NUL bytes, so it separates records only when the values are strings without
  NUL; the aggregates are exact for these records and, with the same kind of values, conditions.
\<close>

fun plain_value :: "js \<Rightarrow> bool" where
  "plain_value (Str s) \<longleftrightarrow> CHR 0x00 \<notin> set s \<and> s \<noteq> [CHR 0x01]"
| "plain_value v \<longleftrightarrow> nullish v"

fun is_str :: "js \<Rightarrow> bool" where
  "is_str (Str s) = True"
| "is_str v = False"

fun plain_tags :: "js \<Rightarrow> bool" where
  "plain_tags (Arr ts) \<longleftrightarrow> list_all is_str ts \<and> distinct (map js_String ts)"
| "plain_tags v \<longleftrightarrow> nullish v"

definition regular_meta :: "jobj \<Rightarrow> bool" where
  "regular_meta m \<longleftrightarrow> plain_value (getp m ''agentId'') \<and> plain_value (getp m ''visibility'') \<and>
     \<not> is_object (getp m ''archived'') \<and> plain_tags (getp m ''tags'') \<and>
     (nullish (getp m ''subject'') \<or> is_str (getp m ''subject''))"

fun regular_values :: "condition \<Rightarrow> bool" where
  "regular_values (Group op cs) = list_all regular_values cs"
| "regular_values (Leaf a cmp v) =
     (if js_String a = ''archived'' then v = Bool True
      else if js_String a \<in> {''agentId'', ''visibility'', ''tags'', ''subject''} then is_str v else True)"

definition regular_facet :: "condition \<Rightarrow> bool" where
  "regular_facet c =
     (case asFacet c of None \<Rightarrow> True
      | Some (attr, vs) \<Rightarrow> distinct vs \<and> (attr = ''tags'' \<longrightarrow> length vs = 1))"

definition regular_conditions :: "condition list \<Rightarrow> bool" where
  "regular_conditions cs \<longleftrightarrow> list_all (\<lambda>c. regular_values c \<and> regular_facet c) cs"

definition same_value :: "js \<Rightarrow> js \<Rightarrow> bool" where
  "same_value v w \<longleftrightarrow> (nullish v \<and> nullish w) \<or> v = w"

definition same_owner :: "jobj \<Rightarrow> jobj \<Rightarrow> bool" where
  "same_owner m n \<longleftrightarrow> same_value (getp m ''agentId'') (getp n ''agentId'') \<and>
     same_value (getp m ''visibility'') (getp n ''visibility'')"

definition same_partition :: "jobj \<Rightarrow> jobj \<Rightarrow> bool" where
  "same_partition m n \<longleftrightarrow> same_owner m n \<and> (getp m ''archived'' = Bool True \<longleftrightarrow> getp n ''archived'' = Bool True)"

lemma split_sep: "c \<notin> set a \<Longrightarrow> c \<notin> set b \<Longrightarrow> a @ c # x = b @ c # y \<Longrightarrow> a = b \<and> x = y"
proof (induction a arbitrary: b)
  case Nil
  then show ?case by (cases b) auto
next
  case (Cons z a)
  then show ?case by (cases b) auto
qed

lemma plain_key:
  assumes "plain_value v" "plain_value w" "js_String (coalesce v (Str [CHR 0x01])) = js_String (coalesce w (Str [CHR 0x01]))"
  shows "same_value v w"
  using assms by (cases v; cases w) (auto simp: same_value_def coalesce_def)

lemma plain_no_nul: "plain_value v \<Longrightarrow> CHR 0x00 \<notin> set (js_String (coalesce v (Str [CHR 0x01])))"
  by (cases v) (auto simp: coalesce_def)

lemma partitionKey_same:
  assumes "regular_meta m" "regular_meta n" "partitionKeyOf m = partitionKeyOf n"
  shows "same_partition m n"
proof -
  have r: "plain_value (getp m ''agentId'')" "plain_value (getp n ''agentId'')"
    "plain_value (getp m ''visibility'')" "plain_value (getp n ''visibility'')"
    using assms by (simp_all add: regular_meta_def)
  let ?a = "\<lambda>x. js_String (coalesce (getp x ''agentId'') (Str [CHR 0x01]))"
  let ?v = "\<lambda>x. js_String (coalesce (getp x ''visibility'') (Str [CHR 0x01]))"
  let ?z = "\<lambda>x. if getp x ''archived'' = Bool True then ''1'' else ''0''"
  have "?a m @ CHR 0x00 # (?v m @ CHR 0x00 # ?z m) = ?a n @ CHR 0x00 # (?v n @ CHR 0x00 # ?z n)"
    using assms(3) by (simp add: partitionKeyOf_def)
  then have 1: "?a m = ?a n \<and> ?v m @ CHR 0x00 # ?z m = ?v n @ CHR 0x00 # ?z n"
    by (rule split_sep [OF plain_no_nul [OF r(1)] plain_no_nul [OF r(2)]])
  from conjunct2 [OF 1] have 2: "?v m = ?v n \<and> ?z m = ?z n"
    by (rule split_sep [OF plain_no_nul [OF r(3)] plain_no_nul [OF r(4)]])
  show ?thesis
    using plain_key [OF r(1,2)] plain_key [OF r(3,4)] 1 2
    by (auto simp: same_partition_def same_owner_def split: if_splits)
qed

lemma archived_leaf:
  "\<not> is_object v \<Longrightarrow> (case v of Arr xs \<Rightarrow> p xs | _ \<Rightarrow> strict_eq v (Bool True)) \<longleftrightarrow> v = Bool True"
  by (cases v) auto

lemma owner_leaf:
  assumes "plain_value v" "plain_value w" "same_value v w"
  shows "(case v of Arr xs \<Rightarrow> p xs | _ \<Rightarrow> strict_eq v (Str s)) \<longleftrightarrow> (case w of Arr xs \<Rightarrow> p xs | _ \<Rightarrow> strict_eq w (Str s))"
  using assms by (cases v; cases w) (auto simp: same_value_def)

lemma partition_leaf:
  assumes r: "regular_meta m" "regular_meta n" "same_partition m n"
    and a: "s \<in> set PARTITION_ATTRS" "regular_values (Leaf (Str s) cmp v)"
  shows "matchLeaf (Str s) cmp v m = matchLeaf (Str s) cmp v n"
proof -
  consider "s = ''archived''" "v = Bool True" | t where "s \<in> {''agentId'', ''visibility''}" "v = Str t"
    using a by (cases v) (auto simp: PARTITION_ATTRS_def split: if_splits)
  then show ?thesis
  proof cases
    case 1
    then show ?thesis
      using r archived_leaf [of "getp m ''archived''"] archived_leaf [of "getp n ''archived''"]
      by (cases "getp m ''archived''"; cases "getp n ''archived''")
         (auto simp: matchLeaf_def regular_meta_def same_partition_def)
  next
    case 2
    then have "plain_value (getp m s)" "plain_value (getp n s)" "same_value (getp m s) (getp n s)"
      using r by (auto simp: regular_meta_def same_partition_def same_owner_def)
    then show ?thesis
      using 2 by (cases "getp m s"; cases "getp n s") (auto simp: matchLeaf_def same_value_def)
  qed
qed

lemma conditionAttrs_parts:
  assumes "conditionAttrs (Group op cs) = Some attrs"
  shows "\<forall>c \<in> set cs. \<exists>as. conditionAttrs c = Some as \<and> set as \<subseteq> set attrs"
proof -
  have "foldr (\<lambda>c out. case (conditionAttrs c, out) of (Some a, Some b) \<Rightarrow> Some (a @ b) | _ \<Rightarrow> None) cs (Some []) = Some attrs"
    using assms by (simp split: if_splits)
  then show ?thesis
  proof (induction cs arbitrary: attrs)
    case (Cons c cs)
    then obtain a b where "conditionAttrs c = Some a" "attrs = a @ b"
      "foldr (\<lambda>c out. case (conditionAttrs c, out) of (Some a, Some b) \<Rightarrow> Some (a @ b) | _ \<Rightarrow> None) cs (Some []) = Some b"
      by (auto split: option.splits)
    then show ?case using Cons.IH [of b] by fastforce
  qed simp
qed

lemma partition_condition:
  assumes r: "regular_meta m" "regular_meta n" "same_partition m n"
    and c: "conditionAttrs c = Some attrs" "set attrs \<subseteq> set PARTITION_ATTRS" "regular_values c"
  shows "matchCondition c m = matchCondition c n"
  using c
proof (induction c arbitrary: attrs)
  case (Leaf a cmp v)
  then obtain s where s: "a = Str s" "attrs = [s]" by (auto split: js.splits if_splits)
  then show ?case using partition_leaf [OF r, of s cmp v] Leaf.prems by simp
next
  case (Group op cs)
  have "matchCondition c m = matchCondition c n" if "c \<in> set cs" for c
  proof -
    obtain as where "conditionAttrs c = Some as" "set as \<subseteq> set attrs"
      using conditionAttrs_parts [OF Group.prems(1)] \<open>c \<in> set cs\<close> by blast
    then show ?thesis using Group.IH [OF \<open>c \<in> set cs\<close>, of as] Group.prems \<open>c \<in> set cs\<close> by (auto simp: list_all_iff)
  qed
  then show ?case by (simp add: Let_def list_ex_iff list_all_iff)
qed

lemma rep_condition:
  assumes "conditionAttrs c = Some attrs" "set attrs \<subseteq> set PARTITION_ATTRS"
  shows "matchCondition c (rep_of m) = matchCondition c m"
proof (rule matchCondition_cong [OF assms(1)])
  fix a assume "a \<in> set attrs"
  then have "a \<in> {''agentId'', ''visibility'', ''archived''}" using assms(2) by (auto simp: PARTITION_ATTRS_def)
  then show "getp (rep_of m) a = getp m a" by (auto simp: rep_of_def)
qed

text \<open>A facet condition counts each entry once.\<close>

lemma facet_key_eq: "a \<in> set FACET_ATTRS \<Longrightarrow> b \<in> set FACET_ATTRS \<Longrightarrow> facet_key a v = facet_key b w \<longleftrightarrow> a = b \<and> v = w"
  by (auto simp: FACET_ATTRS_def facet_key_def)

lemma count_list_map_inj: "inj_on f (insert x (set xs)) \<Longrightarrow> count_list (map f xs) (f x) = count_list xs x"
  by (induction xs) (auto simp: inj_on_def)

lemma count_facet:
  assumes "regular_meta m"
  shows "count_list (facetKeysOf m) (facet_key ''tags'' v) = (if matchLeaf (Str ''tags'') ''equals'' (Str v) m then 1 else 0)"
    "count_list (facetKeysOf m) (facet_key ''subject'' v) = (if matchLeaf (Str ''subject'') ''equals'' (Str v) m then 1 else 0)"
proof -
  have a: "''tags'' \<in> set FACET_ATTRS" "''subject'' \<in> set FACET_ATTRS" by (simp_all add: FACET_ATTRS_def)
  note k = facet_key_eq [OF a(1) a(1)] facet_key_eq [OF a(2) a(2)] facet_key_eq [OF a(1) a(2)] facet_key_eq [OF a(2) a(1)]
  have t: "count_list (map (\<lambda>t. facet_key ''tags'' (js_String t)) ts) (facet_key ''tags'' v) = (if v \<in> js_String ` set ts then 1 else 0)"
    if "distinct (map js_String ts)" for ts
    using that by (induction ts) (auto simp: k)
  have u: "count_list (map (\<lambda>t. facet_key ''tags'' (js_String t)) ts) (facet_key ''subject'' v) = 0" for ts
    by (induction ts) (auto simp: k)
  have i: "js_includes ts (Str v) \<longleftrightarrow> v \<in> js_String ` set ts" if "list_all is_str ts" for ts
    using that by (induction ts) (auto simp: js_includes_def elim!: is_str.elims)
  have s: "getp m ''subject'' = Undef \<or> getp m ''subject'' = Null \<or> (\<exists>x. getp m ''subject'' = Str x)"
    using assms by (cases "getp m ''subject''") (auto simp: regular_meta_def)
  show "count_list (facetKeysOf m) (facet_key ''tags'' v) = (if matchLeaf (Str ''tags'') ''equals'' (Str v) m then 1 else 0)"
    using s assms t i by (cases "getp m ''tags''") (auto simp: facetKeysOf_def matchLeaf_def k regular_meta_def)
  show "count_list (facetKeysOf m) (facet_key ''subject'' v) = (if matchLeaf (Str ''subject'') ''equals'' (Str v) m then 1 else 0)"
    using s u assms by (cases "getp m ''tags''") (auto simp: facetKeysOf_def matchLeaf_def k regular_meta_def)
qed

lemma facet_leaves_match:
  assumes "facet_leaves cs attr vals = Some (b, ws)" "\<forall>c \<in> set cs. \<exists>as. conditionAttrs c = Some as" "\<forall>c \<in> set cs. regular_values c"
    "b \<in> set FACET_ATTRS"
  shows "(attr = None \<or> attr = Some b) \<and> (\<exists>us. ws = vals @ us \<and>
    (\<forall>m. list_ex (\<lambda>c. matchCondition c m) cs \<longleftrightarrow> (\<exists>v \<in> set us. matchLeaf (Str b) ''equals'' (Str v) m)))"
  using assms
proof (induction cs attr vals rule: facet_leaves.induct)
  case (1 attr vals)
  then show ?case by (auto split: option.splits if_splits)
next
  case (3 a cmp v cs attr vals)
  obtain s where s: "a = Str s" using 3(4) by (auto split: js.splits if_splits)
  have e: "cmp = ''equals''" using 3(3) by (auto split: if_splits)
  have rest: "\<forall>c \<in> set cs. \<exists>as. conditionAttrs c = Some as" "\<forall>c \<in> set cs. regular_values c" using 3(4,5) by auto
  have nxt: "(attr = None \<or> attr = Some s) \<and> facet_leaves cs (Some s) (vals @ [js_String v]) = Some (b, ws)"
    using 3(3) by (auto simp: s e split: option.splits if_splits)
  have IH: "s = b \<and> (\<exists>us. ws = (vals @ [js_String v]) @ us \<and>
    (\<forall>m. list_ex (\<lambda>c. matchCondition c m) cs \<longleftrightarrow> (\<exists>v \<in> set us. matchLeaf (Str b) ''equals'' (Str v) m)))"
  proof (cases attr)
    case None
    then show ?thesis using 3(1) [OF _ None _ rest] nxt e 3(6) by (simp add: s)
  next
    case (Some c)
    then show ?thesis using 3(2) [OF _ Some _ _ rest] nxt e 3(6) by (simp add: s)
  qed
  then obtain us where us: "s = b" "ws = vals @ js_String v # us"
    "\<forall>m. list_ex (\<lambda>c. matchCondition c m) cs \<longleftrightarrow> (\<exists>v \<in> set us. matchLeaf (Str b) ''equals'' (Str v) m)" by auto
  have "is_str v" using 3(5,6) us(1) by (auto simp: s FACET_ATTRS_def split: if_splits)
  then have v: "v = Str (js_String v)" by (cases v) auto
  have "\<exists>us. ws = vals @ us \<and>
    (\<forall>m. list_ex (\<lambda>c. matchCondition c m) (Leaf a cmp v # cs) \<longleftrightarrow> (\<exists>v \<in> set us. matchLeaf (Str b) ''equals'' (Str v) m))"
    using us v by (intro exI [of _ "js_String v # us"]) (simp add: s e)
  then show ?case using nxt us(1) by blast
qed simp

lemma asFacet_match:
  assumes "asFacet c = Some (b, ws)" "conditionAttrs c = Some attrs" "regular_values c" "b \<in> set FACET_ATTRS"
  shows "matchCondition c m \<longleftrightarrow> (\<exists>v \<in> set ws. matchLeaf (Str b) ''equals'' (Str v) m)"
proof (cases c)
  case (Leaf a cmp v)
  then obtain s where s: "a = Str s" using assms(2) by (auto split: js.splits if_splits)
  have e: "cmp = ''equals''" "b = s" "ws = [js_String v]" using assms(1) by (auto simp: asFacet_def Leaf s split: if_splits)
  have "is_str v" using assms(3,4) by (auto simp: Leaf s e FACET_ATTRS_def split: if_splits)
  then have "v = Str (js_String v)" by (cases v) auto
  then show ?thesis using e by (simp add: Leaf s)
next
  case (Group op cs)
  have g: "op = ''or''" "facet_leaves cs None [] = Some (b, ws)" using assms(1) by (auto simp: asFacet_def Group split: if_splits)
  have p: "\<forall>c \<in> set cs. \<exists>as. conditionAttrs c = Some as" "\<forall>c \<in> set cs. regular_values c"
    using conditionAttrs_parts [OF assms(2) [unfolded Group]] assms(3) by (auto simp: Group list_all_iff)
  obtain us where "ws = us" "\<forall>m. list_ex (\<lambda>c. matchCondition c m) cs \<longleftrightarrow> (\<exists>v \<in> set us. matchLeaf (Str b) ''equals'' (Str v) m)"
    using facet_leaves_match [OF g(2) p assms(4)] by auto
  then show ?thesis by (simp add: Group g Let_def list_ex_iff)
qed

definition partition_only :: "condition \<Rightarrow> bool" where
  "partition_only c \<longleftrightarrow> (\<exists>as. conditionAttrs c = Some as \<and> set as \<subseteq> set PARTITION_ATTRS)"

lemma plan_loop_split:
  assumes "plan_loop cs (pcs, fc, ex) = (pcs', fc', False)" "\<forall>c \<in> set cs. \<exists>as. conditionAttrs c = Some as"
  shows "\<not> ex \<and> (\<exists>ps. pcs' = pcs @ ps \<and> (\<forall>c \<in> set ps. partition_only c) \<and>
    ((fc' = fc \<and> set cs = set ps) \<or>
     (fc = None \<and> (\<exists>c f. c \<in> set cs \<and> asFacet c = Some f \<and> fst f \<in> set FACET_ATTRS \<and> fc' = Some f \<and> set cs = insert c (set ps)))))"
  using assms
proof (induction cs arbitrary: pcs fc ex)
  case Nil
  then show ?case by simp
next
  case (Cons c cs)
  have rest: "\<forall>c \<in> set cs. \<exists>as. conditionAttrs c = Some as" using Cons.prems(2) by simp
  obtain as where as: "conditionAttrs c = Some as" using Cons.prems(2) by auto
  show ?case
  proof (cases "set as \<subseteq> set PARTITION_ATTRS")
    case True
    then have "plan_loop cs (pcs @ [c], fc, ex) = (pcs', fc', False)"
      using Cons.prems(1) by (simp add: as list_all_iff subset_iff split: if_splits)
    from Cons.IH [OF this rest] obtain ps where ps: "\<not> ex" "pcs' = (pcs @ [c]) @ ps" "\<forall>c \<in> set ps. partition_only c"
      "(fc' = fc \<and> set cs = set ps) \<or>
     (fc = None \<and> (\<exists>d f. d \<in> set cs \<and> asFacet d = Some f \<and> fst f \<in> set FACET_ATTRS \<and> fc' = Some f \<and> set cs = insert d (set ps)))"
      by blast
    have "partition_only c" using as True by (auto simp: partition_only_def)
    then show ?thesis using ps by (intro conjI exI [of _ "c # ps"]) auto
  next
    case False
    then have step: "plan_loop (c # cs) (pcs, fc, ex) = (case asFacet c of
          Some f \<Rightarrow> if fst f \<in> set FACET_ATTRS \<and> fc = None then plan_loop cs (pcs, Some f, ex)
            else plan_loop cs (pcs @ [c], fc, True)
        | None \<Rightarrow> plan_loop cs (pcs @ [c], fc, True))"
      by (auto simp: as list_all_iff)
    have n: "plan_loop cs (pcs @ [c], fc, True) \<noteq> (pcs', fc', False)" using Cons.IH [OF _ rest] by blast
    then obtain f where f: "asFacet c = Some f" "fst f \<in> set FACET_ATTRS" "fc = None" "plan_loop cs (pcs, Some f, ex) = (pcs', fc', False)"
      using Cons.prems(1) unfolding step by (auto split: option.splits if_splits)
    from Cons.IH [OF f(4) rest] obtain ps where "\<not> ex" "pcs' = pcs @ ps" "\<forall>c \<in> set ps. partition_only c"
      "fc' = Some f" "set cs = set ps" by blast
    then show ?thesis using f(1,2,3) by (intro conjI exI [of _ ps] disjI2 exI [of _ c] exI [of _ f]) simp_all
  qed
qed

lemma planQuery_split:
  assumes "planQuery cs f al = Some plan" "\<not> qp_exact plan"
  shows "sinceDate f = None" "asOf f = None \<or> asOf f = Some []" "al = None \<or> ap_scopableOnly (the al)"
    "(\<forall>c \<in> set (qp_partitionConditions plan). partition_only c)"
    "(qp_facet plan = None \<and> set cs = set (qp_partitionConditions plan)) \<or>
     (\<exists>c f. c \<in> set cs \<and> asFacet c = Some f \<and> fst f \<in> set FACET_ATTRS \<and> qp_facet plan = Some f \<and>
       set cs = insert c (set (qp_partitionConditions plan)))"
proof -
  have sc: "\<forall>c \<in> set cs. \<exists>as. conditionAttrs c = Some as"
    using planQuery_scopable [OF assms(1)] by (auto simp: scopable_conditions_def)
  obtain pcs fc ex where pl: "plan_loop cs ([], None, (sinceDate f \<noteq> None \<or> (asOf f \<noteq> None \<and> asOf f \<noteq> Some [])) \<or>
      \<not> (case al of None \<Rightarrow> True | Some p \<Rightarrow> ap_scopableOnly p)) = (pcs, fc, ex)" by (metis prod_cases3)
  have p: "plan = \<lparr>qp_partitionConditions = pcs, qp_facet = (if ex then None else fc), qp_exact = ex\<rparr>"
    using assms(1) if_none2 [OF assms(1) [unfolded planQuery_def]] unfolding planQuery_def Let_def pl by simp
  then have "ex = False" using assms(2) by simp
  with pl have "plan_loop cs ([], None, (sinceDate f \<noteq> None \<or> (asOf f \<noteq> None \<and> asOf f \<noteq> Some [])) \<or>
      \<not> (case al of None \<Rightarrow> True | Some p \<Rightarrow> ap_scopableOnly p)) = (pcs, fc, False)" by simp
  note s = plan_loop_split [OF this sc]
  show "sinceDate f = None" "asOf f = None \<or> asOf f = Some []" "al = None \<or> ap_scopableOnly (the al)"
    using s by (auto split: option.splits)
  show "\<forall>c \<in> set (qp_partitionConditions plan). partition_only c" using s p by auto
  show "(qp_facet plan = None \<and> set cs = set (qp_partitionConditions plan)) \<or>
     (\<exists>c f. c \<in> set cs \<and> asFacet c = Some f \<and> fst f \<in> set FACET_ATTRS \<and> qp_facet plan = Some f \<and>
       set cs = insert c (set (qp_partitionConditions plan)))"
    using s p \<open>ex = False\<close> by auto
qed

definition owner_predicate :: "allowed_pred option \<Rightarrow> bool" where
  "owner_predicate al \<longleftrightarrow>
     (\<forall>p m n. al = Some p \<and> ap_scopableOnly p \<and> same_owner m n \<longrightarrow> ap_allows p m = ap_allows p n)"

text \<open>\<open>readAllowed\<close> predicates read the attributes the index stores.\<close>

definition stored_predicate :: "allowed_pred option \<Rightarrow> bool" where
  "stored_predicate al \<longleftrightarrow> (\<forall>r. allows al (meta_of r) = allows al r)"

lemma passes_expiry:
  assumes "sinceDate f = None" "asOf f = None \<or> asOf f = Some []"
  shows "passesRecordFilters D m f now \<longleftrightarrow> (\<forall>x. expiryOf D m = Some x \<longrightarrow> now \<le> x)"
proof -
  let ?e = "if truthy (getp m ''expiresAt'') then date_parse D (getp m ''expiresAt'') else None"
  let ?v = "if truthy (getp m ''validTo'') then date_parse D (getp m ''validTo'') else None"
  have "passesRecordFilters D m f now \<longleftrightarrow> \<not> date_before ?e (Some now) \<and> \<not> date_before ?v (Some now)"
    using assms by (auto simp: passesRecordFilters_def date_before_def)
  also have "\<dots> \<longleftrightarrow> (\<forall>x. min_expiry ?e ?v = Some x \<longrightarrow> now \<le> x)"
    by (cases ?e; cases ?v) (auto simp: date_before_def min_expiry_def)
  finally show ?thesis by (simp add: expiryOf_def Let_def)
qed

lemma active_passes:
  assumes inv: "exp_inv idx" and sw: "bx_sweptTo idx = now" and live: "s \<in> live idx"
    and edge: "s_expiry (ent idx s) \<noteq> Some now" and e: "s_expiry (ent idx s) = expiryOf D (s_meta (ent idx s))"
    and f: "sinceDate f = None" "asOf f = None \<or> asOf f = Some []"
  shows "passesRecordFilters D (s_meta (ent idx s)) f now \<longleftrightarrow> s \<in> active idx"
proof
  assume p: "passesRecordFilters D (s_meta (ent idx s)) f now"
  have "s \<notin> bx_retired idx"
  proof
    assume "s \<in> bx_retired idx"
    then obtain x where "s_expiry (ent idx s) = Some x" "x \<le> now" using inv sw unfolding exp_inv_def by blast
    then show False using p edge unfolding passes_expiry [OF f] e by fastforce
  qed
  then show "s \<in> active idx" using live by (simp add: active_def)
next
  assume a: "s \<in> active idx"
  show "passesRecordFilters D (s_meta (ent idx s)) f now"
    unfolding passes_expiry [OF f]
  proof (intro allI impI)
    fix x assume "expiryOf D (s_meta (ent idx s)) = Some x"
    then have "(x, s) \<in> set (bx_expiryHeap idx)" using inv a e by (simp add: exp_inv_def)
    then show "now \<le> x" using inv sw by (auto simp: exp_inv_def)
  qed
qed

lemma aggregate_fold:
  assumes "\<not> qp_exact plan"
  shows "stats D idx plan cs f al now =
     fold (agg_step (bx_partitionRep idx) (\<lambda>rep. matchesConditions (qp_partitionConditions plan) rep \<and> allows al rep))
       (case qp_facet plan of
             None \<Rightarrow> bx_partitions idx
           | Some (attr, vs) \<Rightarrow> mergeFacetAggregates (bx_facets idx) attr vs) (0, 0)"
proof -
  have "(\<lambda>(pkey, a) (N, sumDl).
          (if agg_count a = 0 then (N, sumDl)
           else case map_of reps pkey of
               None \<Rightarrow> (N, sumDl)
             | Some rep \<Rightarrow> if ok rep then (N + agg_count a, sumDl + agg_sumDl a) else (N, sumDl))) = agg_step reps ok" for reps ok
    by (auto simp: fun_eq_iff agg_step_def split: option.split)
  then show ?thesis using assms unfolding stats_def by simp
qed

definition facet_weight :: "(string \<times> string list) option \<Rightarrow> slot \<Rightarrow> int" where
  "facet_weight fc e =
     (case fc of None \<Rightarrow> 1 | Some (attr, vs) \<Rightarrow> sum_list (map (\<lambda>v. facet_count (facet_key attr v) e) vs))"

lemma facet_weight_bool:
  assumes r: "regular_meta (s_meta e)"
    and c: "asFacet c = Some (b, ws)" "conditionAttrs c = Some attrs" "regular_values c" "regular_facet c" "b \<in> set FACET_ATTRS"
  shows "facet_weight (Some (b, ws)) e = (if matchCondition c (s_meta e) then 1 else 0)"
proof -
  let ?hit = "\<lambda>v. matchLeaf (Str b) ''equals'' (Str v) (s_meta e)"
  have fc: "facet_count (facet_key b v) e = (if ?hit v then 1 else 0)" for v
    using c(5) count_facet [OF r, of v] by (auto simp: FACET_ATTRS_def facet_count_def)
  have ws: "distinct ws" "b = ''tags'' \<Longrightarrow> length ws = 1" using c(1,4) by (auto simp: regular_facet_def)
  have one: "v = w" if "v \<in> set ws" "w \<in> set ws" "?hit v" "?hit w" for v w
  proof (cases "b = ''tags''")
    case True
    then show ?thesis using ws(2) that(1,2) by (cases ws) auto
  next
    case False
    then have "b = ''subject''" using c(5) by (simp add: FACET_ATTRS_def)
    then show ?thesis using that(3,4) r by (cases "getp (s_meta e) ''subject''") (auto simp: matchLeaf_def regular_meta_def)
  qed
  have "sum_list (map (\<lambda>v. if ?hit v then 1 else (0 :: int)) ws) = (if \<exists>v \<in> set ws. ?hit v then 1 else 0)"
    using ws(1) one
  proof (induction ws)
    case (Cons v ws)
    show ?case
    proof (cases "?hit v")
      case True
      have "\<not> ?hit w" if "w \<in> set ws" for w
      proof
        assume "?hit w"
        then have "v = w" using Cons.prems(2) [of v w] that True by simp
        then show False using Cons.prems(1) that by simp
      qed
      then have z: "map (\<lambda>v. if ?hit v then 1 else (0 :: int)) ws = map (\<lambda>_. 0) ws" by simp
      have "sum_list (map (\<lambda>v. if ?hit v then 1 else (0 :: int)) ws) = 0" unfolding z by simp
      then show ?thesis using True by simp
    next
      case False
      then show ?thesis using Cons by auto
    qed
  qed simp
  then show ?thesis unfolding asFacet_match [OF c(1,2,3,5)] by (simp add: facet_weight_def fc)
qed

lemma good_partition:
  assumes agg: "agg_inv regular_meta A E parts F reps" and s: "s \<in> A" "s_pkey (E s) = partitionKeyOf (s_meta (E s))"
    and r: "regular_meta (s_meta (E s))" "list_all regular_values pcs" "\<forall>c \<in> set pcs. partition_only c" "owner_predicate al"
      "al = None \<or> ap_scopableOnly (the al)"
  shows "good_key reps (\<lambda>rep. matchesConditions pcs rep \<and> allows al rep) (s_pkey (E s)) \<longleftrightarrow>
    matchesConditions pcs (s_meta (E s)) \<and> allows al (s_meta (E s))"
proof -
  obtain rep where rep: "map_of reps (s_pkey (E s)) = Some rep" using agg s(1) unfolding agg_inv_def by blast
  then obtain m where m: "regular_meta m" "partitionKeyOf m = s_pkey (E s)" "rep = rep_of m"
    using agg unfolding agg_inv_def by blast
  have same: "same_partition m (s_meta (E s))" by (rule partitionKey_same) (use m r(1) s(2) in simp_all)
  have "matchCondition c rep = matchCondition c (s_meta (E s))" if mem: "c \<in> set pcs" for c
  proof -
    obtain as where as: "conditionAttrs c = Some as" "set as \<subseteq> set PARTITION_ATTRS"
      using bspec [OF r(3) mem] unfolding partition_only_def by blast
    have "regular_values c" using r(2) mem by (simp add: list_all_iff)
    then show ?thesis using rep_condition [OF as] partition_condition [OF m(1) r(1) same as] m(3) by simp
  qed
  moreover have "allows al rep = allows al (s_meta (E s))"
  proof (cases al)
    case (Some p)
    have "same_owner rep (s_meta (E s))"
      using same m(3) by (simp add: same_partition_def same_owner_def rep_of_def)
    then show ?thesis using r(4,5) Some unfolding owner_predicate_def by (auto simp: allows_def)
  qed (simp add: allows_def)
  ultimately show ?thesis by (simp add: good_key_def rep matchesConditions_all)
qed

lemma sum_filter_list:
  fixes h :: "nat \<Rightarrow> int"
  assumes "distinct xs"
  shows "(\<Sum>s\<in>set xs. if p s then h s else 0) = sum_list (map h (filter p xs))"
  using assms by (induction xs) auto

lemma stats_aggregate:
  assumes inv: "idx_inv D regular_meta C idx" and plan: "planQuery cs f al = Some plan" "\<not> qp_exact plan"
    and reg: "regular_conditions cs" "owner_predicate al" and sw: "bx_sweptTo idx = now"
    and edge: "\<And>i r. C i = Some r \<Longrightarrow> expiryOf D (meta_of r) \<noteq> Some now"
  shows "stats D idx plan cs f al now =
    (int (length (scope_list idx (in_scope D idx cs f al now))),
     int (sum_list (map (\<lambda>s. s_dl (ent idx s)) (scope_list idx (in_scope D idx cs f al now)))))"
proof -
  have i: "slots_inv D C idx" "exp_inv idx"
    "agg_inv regular_meta (active idx) (ent idx) (bx_partitions idx) (bx_facets idx) (bx_partitionRep idx)"
    using inv by (simp_all add: idx_inv_def)
  let ?fc = "qp_facet plan" and ?pcs = "qp_partitionConditions plan" and ?E = "ent idx"
  let ?ok = "\<lambda>rep. matchesConditions ?pcs rep \<and> allows al rep"
  let ?parts = "case ?fc of None \<Rightarrow> bx_partitions idx | Some (attr, vs) \<Rightarrow> mergeFacetAggregates (bx_facets idx) attr vs"
  let ?w = "facet_weight ?fc" and ?u = "\<lambda>e. facet_weight ?fc e * int (s_dl e)"
  note sp = planQuery_split [OF plan]
  have e: "s_meta (?E s) = meta_of (row_at C idx s)" "s_pkey (?E s) = partitionKeyOf (s_meta (?E s))"
    "s_expiry (?E s) = expiryOf D (s_meta (?E s))" "regular_meta (s_meta (?E s))" "s_expiry (?E s) \<noteq> Some now"
    if "s \<in> live idx" for s
  proof -
    note q = row_at [OF i(1) that]
    show "s_meta (?E s) = meta_of (row_at C idx s)" "s_pkey (?E s) = partitionKeyOf (s_meta (?E s))"
      "s_expiry (?E s) = expiryOf D (s_meta (?E s))" by (subst q(1), simp)+
    show "regular_meta (s_meta (?E s))" using inv q(2) by (subst q(1)) (auto simp: idx_inv_def)
    show "s_expiry (?E s) \<noteq> Some now" using edge [OF q(2)] by (subst q(1)) simp
  qed
  have regc: "list_all regular_values ?pcs"
  proof -
    have "set ?pcs \<subseteq> set cs" using sp(5) by blast
    then show ?thesis using reg(1) by (auto simp: regular_conditions_def list_all_iff)
  qed
  have d: "distinct (map fst ?parts)" and at: "agg_at ?parts k = (key_sum (active idx) ?E ?w k, key_sum (active idx) ?E ?u k)" for k
  proof -
    have fd: "facets_distinct (bx_facets idx)" using i(3) by (simp add: agg_inv_def)
    show "distinct (map fst ?parts)"
      using i(3) mergeFacetAggregates_at(1) [OF fd] by (auto simp: agg_inv_def split: option.split)
    show "agg_at ?parts k = (key_sum (active idx) ?E ?w k, key_sum (active idx) ?E ?u k)"
    proof (cases ?fc)
      case None
      then show ?thesis using i(3) by (simp add: agg_inv_def facet_weight_def [abs_def])
    next
      case (Some a)
      obtain attr vs where a: "a = (attr, vs)" by (cases a)
      have u: "sum_list (map (\<lambda>v. facet_count (facet_key attr v) x) vs) * int (s_dl x) =
          sum_list (map (\<lambda>v. facet_count (facet_key attr v) x * int (s_dl x)) vs)" for x
        by (simp add: sum_list_mult_const)
      show ?thesis
        using i(3) mergeFacetAggregates_at(2) [OF fd, of attr vs k]
        by (simp add: Some a agg_inv_def key_sum_values facet_weight_def [abs_def] u)
    qed
  qed
  have pos: "0 \<le> ?w (?E s) \<and> (?w (?E s) = 0 \<longrightarrow> ?u (?E s) = 0)" for s
    by (auto simp: facet_weight_def facet_count_def intro!: sum_list_nonneg split: option.split)
  have total: "stats D idx plan cs f al now =
     (\<Sum>s\<in>active idx. if good_key (bx_partitionRep idx) ?ok (s_pkey (?E s)) then ?w (?E s) else 0,
      \<Sum>s\<in>active idx. if good_key (bx_partitionRep idx) ?ok (s_pkey (?E s)) then ?u (?E s) else 0)"
    unfolding aggregate_fold [OF plan(2)] by (rule aggregate_total [OF d finite_active at pos])
  have hit: "matchesConditions cs (s_meta (?E s)) \<longleftrightarrow> matchesConditions ?pcs (s_meta (?E s)) \<and> ?w (?E s) = 1"
    "?w (?E s) \<in> {0, 1}" if "s \<in> live idx" for s
  proof -
    show "matchesConditions cs (s_meta (?E s)) \<longleftrightarrow> matchesConditions ?pcs (s_meta (?E s)) \<and> ?w (?E s) = 1"
      "?w (?E s) \<in> {0, 1}"
    proof (atomize (full), cases ?fc)
      case None
      then have "set cs = set ?pcs" using sp(5) by auto
      then show "(matchesConditions cs (s_meta (?E s)) \<longleftrightarrow> matchesConditions ?pcs (s_meta (?E s)) \<and> ?w (?E s) = 1) \<and> ?w (?E s) \<in> {0, 1}"
        by (simp add: None facet_weight_def matchesConditions_all)
    next
      case (Some a)
      obtain b ws where a: "a = (b, ws)" by (cases a)
      obtain c where c: "c \<in> set cs" "asFacet c = Some (b, ws)" "b \<in> set FACET_ATTRS" "set cs = insert c (set ?pcs)"
        using sp(5) Some a by auto
      obtain attrs where "conditionAttrs c = Some attrs" using planQuery_scopable [OF plan(1)] c(1) by (auto simp: scopable_conditions_def)
      moreover have "regular_values c" "regular_facet c" using reg(1) c(1) by (auto simp: regular_conditions_def list_all_iff)
      ultimately have "facet_weight (Some (b, ws)) (?E s) = (if matchCondition c (s_meta (?E s)) then 1 else 0)"
        using facet_weight_bool [OF e(4) [OF that] c(2)] c(3) by blast
      then show "(matchesConditions cs (s_meta (?E s)) \<longleftrightarrow> matchesConditions ?pcs (s_meta (?E s)) \<and> ?w (?E s) = 1) \<and> ?w (?E s) \<in> {0, 1}"
        by (auto simp: Some a c(4) matchesConditions_all)
    qed
  qed
  have check: "in_scope D idx cs f al now s \<longleftrightarrow> s \<in> active idx \<and> good_key (bx_partitionRep idx) ?ok (s_pkey (?E s)) \<and> ?w (?E s) = 1"
    if "s \<in> live idx" for s
  proof -
    have "in_scope D idx cs f al now s \<longleftrightarrow>
        matchesConditions cs (s_meta (?E s)) \<and> passesRecordFilters D (s_meta (?E s)) f now \<and> allows al (s_meta (?E s))"
      using that by (auto simp: in_scope_def live_def ent_def)
    also have "\<dots> \<longleftrightarrow> s \<in> active idx \<and> (matchesConditions ?pcs (s_meta (?E s)) \<and> allows al (s_meta (?E s))) \<and> ?w (?E s) = 1"
      using active_passes [OF i(2) sw that e(5) [OF that] e(3) [OF that] sp(1,2)] hit(1) [OF that] by auto
    also have "\<dots> \<longleftrightarrow> s \<in> active idx \<and> good_key (bx_partitionRep idx) ?ok (s_pkey (?E s)) \<and> ?w (?E s) = 1"
      using good_partition [OF i(3) _ e(2) [OF that] e(4) [OF that] regc sp(4) reg(2) sp(3)] by blast
    finally show ?thesis .
  qed
  have sums: "(\<Sum>s\<in>active idx. if good_key (bx_partitionRep idx) ?ok (s_pkey (?E s)) then ?w (?E s) * h s else 0) =
      sum_list (map h (scope_list idx (in_scope D idx cs f al now)))" for h :: "nat \<Rightarrow> int"
  proof -
    have "(\<Sum>s\<in>active idx. if good_key (bx_partitionRep idx) ?ok (s_pkey (?E s)) then ?w (?E s) * h s else 0) =
        (\<Sum>s\<in>live idx. if in_scope D idx cs f al now s then h s else 0)"
    proof (rule sum.mono_neutral_cong_left)
      show "active idx \<subseteq> live idx" by (auto simp: active_def)
      show "\<forall>s\<in>live idx - active idx. (if in_scope D idx cs f al now s then h s else 0) = 0" using check by auto
      fix s assume "s \<in> active idx"
      then have l: "s \<in> live idx" by (simp add: active_def)
      show "(if good_key (bx_partitionRep idx) ?ok (s_pkey (?E s)) then ?w (?E s) * h s else 0) =
          (if in_scope D idx cs f al now s then h s else 0)"
        using check [OF l] hit(2) [OF l] \<open>s \<in> active idx\<close> by auto
    qed simp
    then show ?thesis using sum_filter_list [of "live_slots idx" "in_scope D idx cs f al now" h] by (simp add: scope_list_def)
  qed
  have n: "int (length xs) = sum_list (map (\<lambda>_. 1) xs)" for xs :: "nat list" by (induction xs) auto
  have m: "int (sum_list (map g xs)) = sum_list (map (\<lambda>s. int (g s)) xs)" for g and xs :: "nat list" by (induction xs) auto
  show ?thesis unfolding total n m prod.inject
    using sums [of "\<lambda>_. 1", unfolded mult_1_right] sums [of "\<lambda>s. int (s_dl (?E s))"] by (rule conjI)
qed

section \<open>The index and the scan\<close>

lemma rank_scan:
  assumes inv: "idx_inv D regular_meta C idx" and rows: "enumerates rows C"
    and reg: "regular_conditions cs" "owner_predicate al" "stored_predicate al" and sw: "bx_sweptTo idx \<le> now"
    and edge: "\<And>r. r \<in> set rows \<Longrightarrow> expiryOf D r \<noteq> Some now"
    and out: "fst (rank mlog D cs f al now limit q idx) = Some ids"
  shows "ids = scan_leg mlog D cs f (allows al) now limit q rows"
proof -
  obtain plan where plan: "planQuery cs f al = Some plan" using out by (cases "planQuery cs f al") (auto simp: rank_def)
  define idx' where "idx' = sweep now idx"
  have inv': "idx_inv D regular_meta C idx'" "bx_sweptTo idx' = now"
    using sweep_inv [OF inv, of now] sw by (simp_all add: idx'_def)
  have i: "slots_inv D C idx'" "post_inv C idx'" using inv'(1) by (simp_all add: idx_inv_def)
  let ?check = "in_scope D idx' cs f al now"
  define K where "K = scope_list idx' ?check"
  let ?docs = "map (\<lambda>r. \<lparr>doc_id = id_of r, doc_content = content_of r\<rparr>)
        (filter (\<lambda>r. isAllowedBm25Candidate D r cs f now \<and> allows al r) rows)"
  note check = in_scope_row [OF i(1) planQuery_scopable [OF plan], of f al now]
  have expiry_meta: "expiryOf D (meta_of r) = expiryOf D r" for r
    by (simp add: expiryOf_def getp_meta INDEX_META_ATTRS_def TEMPORAL_ATTRS_def)
  have edge': "expiryOf D (meta_of r) \<noteq> Some now" if "C i = Some r" for i r
    using edge [of r] rows that by (auto simp: expiry_meta enumerates_def ran_def)
  have stats: "stats D idx' plan cs f al now = (int (length K), int (sum_list (map (\<lambda>s. s_dl (ent idx' s)) K)))"
  proof (cases "qp_exact plan")
    case True
    then show ?thesis unfolding K_def by (rule stats_exact)
  next
    case False
    then show ?thesis unfolding K_def by (rule stats_aggregate [OF inv'(1) plan _ reg(1,2) inv'(2) edge'])
  qed
  have K: "distinct K" "set K \<subseteq> live idx'" "?check s \<longleftrightarrow> s \<in> set K" for s
    using check by (auto simp: K_def scope_list_def)
  have dl: "map (\<lambda>s. s_dl (ent idx' s)) K = map (\<lambda>s. length (row_toks C idx' s)) K"
  proof (rule map_cong [OF refl])
    fix s assume "s \<in> set K"
    then have "s \<in> live idx'" using K(2) by blast
    from row_at(1) [OF i(1) this] show "s_dl (ent idx' s) = length (row_toks C idx' s)" by (simp add: row_toks_def)
  qed
  have docs: "mset ?docs = mset (map (\<lambda>s. \<lparr>doc_id = id_of (row_at C idx' s), doc_content = content_of (row_at C idx' s)\<rparr>) K)"
  proof -
    have k: "map (row_at C idx') K = filter (scanned D cs f al now) (map (row_at C idx') (live_slots idx'))"
      unfolding K_def scope_list_def filter_map comp_def
      by (rule arg_cong [where f = "map (row_at C idx')"], rule filter_cong) (simp_all add: check)
    have "mset (filter (scanned D cs f al now) (map (row_at C idx') (live_slots idx'))) = mset (filter (scanned D cs f al now) rows)"
      unfolding mset_filter rows_of_slots [OF i(1) rows] ..
    moreover have "scanned D cs f al now = (\<lambda>r. isAllowedBm25Candidate D r cs f now \<and> allows al r)"
      using reg(3) by (simp add: scanned_def fun_eq_iff stored_predicate_def)
    ultimately have "mset (map (row_at C idx') K) = mset (filter (\<lambda>r. isAllowedBm25Candidate D r cs f now \<and> allows al r) rows)"
      unfolding k by simp
    from arg_cong [OF this, of "image_mset (\<lambda>r. \<lparr>doc_id = id_of r, doc_content = content_of r\<rparr>)"]
    show ?thesis by (simp add: multiset.map_comp comp_def)
  qed
  have e: "rank_ids mlog idx' ?check (stats D idx' plan cs f al now) limit (js_set (tokenize q)) =
      scan_leg mlog D cs f (allows al) now limit q rows"
    unfolding scan_leg_def Let_def
    by (rule ranking [OF i K _ _ docs]) (simp_all add: stats dl)
  show ?thesis
  proof (cases "tokenize q = []")
    case True
    have b: "buildBM25_rank mlog ?docs q = sort_by score_le (map (\<lambda>d. (doc_id d, 0)) ?docs)"
      unfolding buildBM25_rank_eq Let_def True by (simp add: doc_score_def js_set_def)
    have "filter (\<lambda>r. 0 < snd r) (map (\<lambda>d. (doc_id d, 0 :: 'a)) ?docs) = []" by (simp add: filter_map comp_def)
    then have "filter (\<lambda>r. 0 < snd r) (buildBM25_rank mlog ?docs q) = sort_by score_le []"
      by (simp only: b filter_sort_by_score)
    then have "filter (\<lambda>r. 0 < snd r) (buildBM25_rank mlog ?docs q) = []" by (simp add: sort_by_def)
    then have "scan_leg mlog D cs f (allows al) now limit q rows = []" unfolding scan_leg_def Let_def by simp
    then show ?thesis using out True by (simp add: rank_eq [OF plan])
  next
    case False
    then show ?thesis using out e by (simp add: rank_eq [OF plan] idx'_def)
  qed
qed

text \<open>C23. After any sequence of stores, deletions, resets and sweeps, the index represents exactly the
  corpus those operations leave: every stored record has one slot with its current entry, no other slot
  is live, a deleted id has none, and the postings of a live slot are the term counts of its current
  content, whatever was stored, compacted or reused before. \<close>

theorem index_refines_corpus:
  "(\<forall>i r. corpus_run ops i = Some r \<longrightarrow> id_of r = i \<and>
       (\<exists>s. map_of (bx_slotOf (index_run D ops)) i = Some s \<and> slot_at (index_run D ops) s = Some (entry_of D r) \<and>
          (\<forall>t. filter (\<lambda>x. fst x = s) (plist (bx_postings (index_run D ops)) t) =
             (let toks = tokenize (content_of r) in if t \<in> set toks then [(s, count_list toks t)] else [])))) \<and>
     (\<forall>i. corpus_run ops i = None \<longrightarrow> map_of (bx_slotOf (index_run D ops)) i = None) \<and>
     (\<forall>s e. slot_at (index_run D ops) s = Some e \<longrightarrow> map_of (bx_slotOf (index_run D ops)) (s_id e) = Some s)"
proof -
  have "idx_inv D (\<lambda>_. True) (corpus_run ops) (index_run D ops)" by (rule run_inv) simp
  then have i: "slots_inv D (corpus_run ops) (index_run D ops)" "post_inv (corpus_run ops) (index_run D ops)" by (simp_all add: idx_inv_def)
  note I = slots_invD [OF i(1)]
  have "\<exists>s. map_of (bx_slotOf (index_run D ops)) j = Some s \<and> slot_at (index_run D ops) s = Some (entry_of D r) \<and>
          (\<forall>t. filter (\<lambda>x. fst x = s) (plist (bx_postings (index_run D ops)) t) =
             (let toks = tokenize (content_of r) in if t \<in> set toks then [(s, count_list toks t)] else []))"
    if a: "corpus_run ops j = Some r" for j r
  proof -
    obtain s where s: "map_of (bx_slotOf (index_run D ops)) j = Some s" "slot_at (index_run D ops) s = Some (entry_of D r)"
      using I(2) [OF a] by blast
    then have "filter (\<lambda>x. fst x = s) (plist (bx_postings (index_run D ops)) t) = term_hits s r t" for t
      using i(2) a unfolding post_inv_def by blast
    then show ?thesis using s by (auto simp: term_hits_def)
  qed
  moreover have "map_of (bx_slotOf (index_run D ops)) j = None" if "corpus_run ops j = None" for j
    using I(1) [of j] that by (cases "map_of (bx_slotOf (index_run D ops)) j") auto
  ultimately show ?thesis using I(2,3) by blast
qed


definition demo_dates :: dates where
  "demo_dates = \<lparr>date_parse = (\<lambda>v. Some (int (length (js_String v)))), new_date = (\<lambda>v. Some 0)\<rparr>"

definition demo_filters :: time_filters where
  "demo_filters = \<lparr>sinceDate = None, asOf = None\<rparr>"

definition demo_row :: "string \<Rightarrow> js \<Rightarrow> jobj" where
  "demo_row i ex = [(''id'', Str i), (''content'', Str ''red fox''), (''agentId'', Str ''x''),
     (''tags'', Arr [Str ''a'', Str ''b'']), (''expiresAt'', ex)]"

lemma demo_meta: "meta_of (demo_row i ex) = [(''id'', Str i), (''agentId'', Str ''x''),
     (''tags'', Arr [Str ''a'', Str ''b'']), (''expiresAt'', ex)]"
  by (simp add: meta_of_def demo_row_def INDEX_META_ATTRS_def SUPPORTED_SCOPE_ATTRS_def TEMPORAL_ATTRS_def getp_def id_of_def)

lemma demo_plan: "planQuery [Leaf (Str ''tags'') ''equals'' (Str ''a'')] demo_filters None =
    Some \<lparr>qp_partitionConditions = [], qp_facet = Some (''tags'', [''a'']), qp_exact = False\<rparr>"
  by (simp add: planQuery_def SUPPORTED_SCOPE_ATTRS_def PARTITION_ATTRS_def FACET_ATTRS_def asFacet_def demo_filters_def)

lemma demo_regular: "regular_meta (meta_of (demo_row i ex))"
  by (simp add: demo_meta regular_meta_def getp_def)

lemma sweptTo_upsert: "bx_sweptTo (upsert D r idx) = bx_sweptTo idx"
proof -
  have rb: "bx_sweptTo (rememberBody i c x) = bx_sweptTo x" for i c x
    using rememberBody_frame [of i c x] by auto
  have "bx_sweptTo (remove i x) = bx_sweptTo x" for i x
    using forgetBody_frame [of i "x\<lparr>bx_slotOf := AList.delete i (bx_slotOf x)\<rparr>"]
    by (auto simp: remove_def maybeCompact_def Let_def removeFromAggregates_def split: option.split)
  then show ?thesis
    by (auto simp: upsert_def rb admit_def Let_def addToAggregates_def split: option.split)
qed


lemma index_refines_corpus_witness:
  "\<exists>s. map_of (bx_slotOf (index_run demo_dates [Upsert (demo_row ''m1'' Null), Sweep 4, Upsert (demo_row ''m2'' Null), Remove ''m1''])) ''m2'' = Some s \<and>
     slot_at (index_run demo_dates [Upsert (demo_row ''m1'' Null), Sweep 4, Upsert (demo_row ''m2'' Null), Remove ''m1'']) s =
       Some (entry_of demo_dates (demo_row ''m2'' Null))"
proof -
  let ?ops = "[Upsert (demo_row ''m1'' Null), Sweep 4, Upsert (demo_row ''m2'' Null), Remove ''m1'']"
  have i: "id_of (demo_row i ex) = i" for i ex by (simp add: id_of_def demo_row_def getp_def)
  have "corpus_run ?ops ''m2'' = Some (demo_row ''m2'' Null)" by (simp add: corpus_run_def i)
  then show ?thesis using index_refines_corpus [of ?ops demo_dates] by blast
qed

section \<open>What is out of scope has no influence\<close>

lemma buildBM25_rank_mset:
  assumes m: "mset docs = mset docs'"
  shows "buildBM25_rank mlog docs q = buildBM25_rank mlog docs' q"
proof -
  have mp: "mset (map h docs) = mset (map h docs')" for h :: "bm25_doc \<Rightarrow> 'z" using m by simp
  let ?tk = "\<lambda>d. tokenize (doc_content d)"
  have df: "doc_freq (map ?tk docs) = doc_freq (map ?tk docs')"
  proof
    fix t
    have "mset (filter (\<lambda>toks. t \<in> set toks) (map ?tk docs)) = mset (filter (\<lambda>toks. t \<in> set toks) (map ?tk docs'))"
      by (metis mp mset_filter)
    then show "doc_freq (map ?tk docs) t = doc_freq (map ?tk docs') t" unfolding doc_freq_def by (metis size_mset)
  qed
  have sums: "sum_list (map length (map ?tk docs)) = sum_list (map length (map ?tk docs'))"
    unfolding map_map by (metis mp sum_mset_sum_list)
  have len: "length docs = length docs'" using m by (metis size_mset)
  show ?thesis unfolding buildBM25_rank_eq Let_def df sums len by (rule sort_by_score_unique [OF mp])
qed

lemma scan_leg_scope:
  assumes "distinct rows" "distinct rows'"
    "\<And>r. isAllowedBm25Candidate D r cs f now \<and> allowed r \<Longrightarrow> r \<in> set rows \<longleftrightarrow> r \<in> set rows'"
  shows "scan_leg mlog D cs f allowed now limit q rows = scan_leg mlog D cs f allowed now limit q rows'"
proof -
  let ?keep = "filter (\<lambda>r. isAllowedBm25Candidate D r cs f now \<and> allowed r)"
  have "mset (?keep rows) = mset (?keep rows')"
    using assms by (subst set_eq_iff_mset_eq_distinct [symmetric]) auto
  then have "mset (map (\<lambda>r. \<lparr>doc_id = id_of r, doc_content = content_of r\<rparr>) (?keep rows)) =
      mset (map (\<lambda>r. \<lparr>doc_id = id_of r, doc_content = content_of r\<rparr>) (?keep rows'))" by (simp only: mset_map)
  from buildBM25_rank_mset [OF this, of mlog q] show ?thesis unfolding scan_leg_def Let_def by (rule arg_cong)
qed

text \<open>C38. A query learns nothing about records outside its scope, under the conditions of \<open>index_equals_scan\<close> for both indexes: all
  their stored records, the hidden ones included, are regular, none of them expires exactly at the clock of the query, and that clock
  is not before the last sweep of either. Two such indexes whose stored records agree on the records that pass the query's regular
  conditions, temporal filters and read predicate give the same answer, so neither the number, the length nor the terms of the
  hidden records can be seen in it.\<close>

theorem hidden_records_have_no_influence:
  assumes "\<And>r. Upsert r \<in> set ops \<union> set ops' \<Longrightarrow> regular_meta (meta_of r)"
    and "enumerates rows (corpus_run ops)" "enumerates rows' (corpus_run ops')"
    and "bx_sweptTo (index_run D ops) \<le> now" "bx_sweptTo (index_run D ops') \<le> now"
    and "regular_conditions cs" "owner_predicate al" "stored_predicate al"
    and "\<And>r. r \<in> set rows \<union> set rows' \<Longrightarrow> expiryOf D r \<noteq> Some now"
    and "\<And>r. isAllowedBm25Candidate D r cs f now \<and> allows al r \<Longrightarrow> r \<in> set rows \<longleftrightarrow> r \<in> set rows'"
    and "fst (rank mlog D cs f al now limit q (index_run D ops)) = Some ids"
    and "fst (rank mlog D cs f al now limit q (index_run D ops')) = Some ids'"
  shows "ids = ids'"
proof -
  have "distinct rows" "distinct rows'" using assms(2,3) by (simp_all add: enumerates_def distinct_map)
  note scope = scan_leg_scope [OF this assms(10)]
  have r: "\<And>r. Upsert r \<in> set ops \<Longrightarrow> regular_meta (meta_of r)" "\<And>r. Upsert r \<in> set ops' \<Longrightarrow> regular_meta (meta_of r)"
    "\<And>r. r \<in> set rows \<Longrightarrow> expiryOf D r \<noteq> Some now" "\<And>r. r \<in> set rows' \<Longrightarrow> expiryOf D r \<noteq> Some now"
    using assms(1,9) by auto
  have "ids = scan_leg mlog D cs f (allows al) now limit q rows"
    by (rule rank_scan [OF run_inv [where P = regular_meta, OF r(1)] assms(2,6,7,8,4) r(3) assms(11)])
  moreover have "ids' = scan_leg mlog D cs f (allows al) now limit q rows'"
    by (rule rank_scan [OF run_inv [where P = regular_meta, OF r(2)] assms(3,6,7,8,5) r(4) assms(12)])
  ultimately show ?thesis using scope by simp
qed

definition demo_ops :: "index_op list" where
  "demo_ops = [Upsert (demo_row ''m1'' Null)]"

definition demo_ops_hidden :: "index_op list" where
  "demo_ops_hidden = [Upsert (demo_row ''m1'' Null), Upsert (demo_row ''m2'' (Str ''2''))]"

definition demo_conditions :: "condition list" where
  "demo_conditions = [Leaf (Str ''tags'') ''equals'' (Str ''a'')]"

lemma hidden_records_have_no_influence_witness:
  "fst (rank (\<lambda>x :: rat. x) demo_dates demo_conditions demo_filters None 3 5 ''fox'' (index_run demo_dates demo_ops)) =
    fst (rank (\<lambda>x :: rat. x) demo_dates demo_conditions demo_filters None 3 5 ''fox'' (index_run demo_dates demo_ops_hidden))"
proof -
  let ?cs = demo_conditions and ?ops = demo_ops and ?ops' = demo_ops_hidden
  have i: "id_of (demo_row i ex) = i" for i ex by (simp add: id_of_def demo_row_def getp_def)
  note p = demo_plan [folded demo_conditions_def]
  obtain ids where ids: "fst (rank (\<lambda>x :: rat. x) demo_dates ?cs demo_filters None 3 5 ''fox'' (index_run demo_dates ?ops)) = Some ids"
    by (simp add: rank_eq [OF p])
  obtain ids' where ids': "fst (rank (\<lambda>x :: rat. x) demo_dates ?cs demo_filters None 3 5 ''fox'' (index_run demo_dates ?ops')) = Some ids'"
    by (simp add: rank_eq [OF p])
  have C: "corpus_run ?ops = (\<lambda>_. None)(''m1'' \<mapsto> demo_row ''m1'' Null)"
    "corpus_run ?ops' = (\<lambda>_. None)(''m1'' \<mapsto> demo_row ''m1'' Null, ''m2'' \<mapsto> demo_row ''m2'' (Str ''2''))"
    by (simp_all add: corpus_run_def i demo_ops_def demo_ops_hidden_def)
  have e: "enumerates [demo_row ''m1'' Null] (corpus_run ?ops)"
    "enumerates [demo_row ''m1'' Null, demo_row ''m2'' (Str ''2'')] (corpus_run ?ops')"
    unfolding C by (simp_all add: enumerates_def i ran_map_upd insert_commute)
  have w: "bx_sweptTo (index_run demo_dates ?ops) \<le> 3" "bx_sweptTo (index_run demo_dates ?ops') \<le> 3"
    by (simp_all add: index_run_def sweptTo_upsert new_index_def demo_ops_def demo_ops_hidden_def)
  have c: "regular_conditions ?cs" by (simp add: regular_conditions_def regular_facet_def asFacet_def demo_conditions_def)
  have a: "owner_predicate None" "stored_predicate None" by (simp_all add: owner_predicate_def stored_predicate_def allows_def)
  have x: "expiryOf demo_dates r \<noteq> Some 3"
    if "r \<in> set [demo_row ''m1'' Null] \<union> set [demo_row ''m1'' Null, demo_row ''m2'' (Str ''2'')]" for r
    using that by (auto simp: expiryOf_def demo_row_def getp_def demo_dates_def min_expiry_def)
  have hidden: "\<not> isAllowedBm25Candidate demo_dates (demo_row ''m2'' (Str ''2'')) ?cs demo_filters 3"
    by (simp add: isAllowedBm25Candidate_def passesRecordFilters_def demo_row_def getp_def demo_dates_def demo_filters_def date_before_def)
  have s: "r \<in> set [demo_row ''m1'' Null] \<longleftrightarrow> r \<in> set [demo_row ''m1'' Null, demo_row ''m2'' (Str ''2'')]"
    if "isAllowedBm25Candidate demo_dates r ?cs demo_filters 3 \<and> allows None r" for r
    using that hidden by auto
  have "ids = ids'"
    by (rule hidden_records_have_no_influence [OF _ e w c a x s ids ids']) (use demo_regular in \<open>auto simp: demo_ops_def demo_ops_hidden_def\<close>)
  then show ?thesis using ids ids' by simp
qed

section \<open>Where the index and the scan differ\<close>

text \<open>A record that is stored after a sweep and expires exactly at the sweep's clock is in scope of a
  query at that clock (the filters compare with \<open><\<close>) but the index has retired it (it compares with
  \<open><=\<close>), so the corpus statistics of the query do not count it: the document count is 0 while the
  record itself is ranked. \<close>

theorem boundary_record_not_counted:
  assumes "id_of r \<noteq> []" "expiryOf D r = Some now" "0 < now"
  shows "let idx = index_run D [Sweep now, Upsert r];
             plan = \<lparr>qp_partitionConditions = [], qp_facet = None, qp_exact = False\<rparr> in
    planQuery [] demo_filters None = Some plan \<and>
    in_scope D idx [] demo_filters None now 0 \<and> stats D idx plan [] demo_filters None now = (0, 0)"
proof -
  define i0 where "i0 = new_index\<lparr>bx_sweptTo := now\<rparr>"
  have sw: "sweep now new_index = i0" using assms(3) by (simp add: sweep_def i0_def new_index_def sweep_loop.simps)
  have e: "expiryOf D (meta_of r) = Some now"
    using assms(2) by (simp add: expiryOf_def getp_meta INDEX_META_ATTRS_def TEMPORAL_ATTRS_def)
  have rm: "remove (id_of r) i0 = i0" "\<not> unchanged i0 r" by (simp_all add: remove_def unchanged_def i0_def new_index_def)
  define i2 where "i2 = i0\<lparr>bx_freeSlots := [], bx_slots := [Some (entry_of D r)], bx_slotOf := [(id_of r, 0)]\<rparr>"
  obtain b k where rb: "rememberBody (id_of r) (content_of r) i2 = i2\<lparr>bx_cachedBodyChars := k, bx_cachedBodies := b\<rparr>"
    using rememberBody_frame by blast
  have "admit D r i0 = i2\<lparr>bx_cachedBodyChars := k, bx_cachedBodies := b, bx_postings := fold (add_posting 0) (term_counts (tokenize (content_of r))) [],
       bx_totalPostings := int (length (term_counts (tokenize (content_of r)))), bx_retired := {0}\<rparr>"
    unfolding admit_def Let_def by (simp add: i0_def new_index_def e rb [unfolded i2_def i0_def new_index_def, simplified] i2_def)
  moreover have "index_run D [Sweep now, Upsert r] = admit D r i0"
    using assms(1) by (simp add: index_run_def sw upsert_def rm)
  ultimately have idx: "bx_slots (index_run D [Sweep now, Upsert r]) = [Some (entry_of D r)]"
    "bx_partitions (index_run D [Sweep now, Upsert r]) = []"
    by (simp_all add: i2_def i0_def new_index_def)
  have "passesRecordFilters D (meta_of r) demo_filters now"
    by (subst passes_expiry) (simp_all add: demo_filters_def e)
  then show ?thesis
    by (simp add: Let_def planQuery_def in_scope_def slot_at_def idx stats_def allows_def) (simp add: demo_filters_def)
qed

lemma boundary_record_not_counted_witness:
  "let idx = index_run demo_dates [Sweep 6, Upsert (demo_row ''m'' (Str ''monday''))];
       plan = \<lparr>qp_partitionConditions = [], qp_facet = None, qp_exact = False\<rparr> in
    planQuery [] demo_filters None = Some plan \<and>
    in_scope demo_dates idx [] demo_filters None 6 0 \<and> stats demo_dates idx plan [] demo_filters None 6 = (0, 0)"
  by (rule boundary_record_not_counted)
     (simp_all add: id_of_def expiryOf_def demo_row_def getp_def demo_dates_def min_expiry_def)

lemma first_record:
  assumes "id_of r \<noteq> []" "expiryOf D r = None"
  shows "bx_slots (index_run D [Upsert r]) = [Some (entry_of D r)]"
    "bx_partitionRep (index_run D [Upsert r]) = [(partitionKeyOf (meta_of r), rep_of (meta_of r))]"
    "bx_facets (index_run D [Upsert r]) =
       fold (bump_facet (partitionKeyOf (meta_of r)) (int (length (tokenize (content_of r)))) 1) (facetKeysOf (meta_of r)) []"
proof -
  have e: "expiryOf D (meta_of r) = None"
    using assms(2) by (simp add: expiryOf_def getp_meta INDEX_META_ATTRS_def TEMPORAL_ATTRS_def)
  have rm: "remove (id_of r) new_index = new_index" "\<not> unchanged new_index r" by (simp_all add: remove_def unchanged_def new_index_def)
  define i2 where "i2 = new_index\<lparr>bx_freeSlots := [], bx_slots := [Some (entry_of D r)], bx_slotOf := [(id_of r, 0)]\<rparr>"
  obtain b k where rb: "rememberBody (id_of r) (content_of r) i2 = i2\<lparr>bx_cachedBodyChars := k, bx_cachedBodies := b\<rparr>"
    using rememberBody_frame by blast
  have "admit D r new_index = addToAggregates (entry_of D r) (i2\<lparr>bx_cachedBodyChars := k, bx_cachedBodies := b,
      bx_postings := fold (add_posting 0) (term_counts (tokenize (content_of r))) [],
      bx_totalPostings := int (length (term_counts (tokenize (content_of r))))\<rparr>)"
    unfolding admit_def Let_def by (simp add: new_index_def e rb [unfolded i2_def new_index_def, simplified] i2_def)
  moreover have "index_run D [Upsert r] = admit D r new_index"
    using assms(1) by (simp add: index_run_def upsert_def rm)
  ultimately show "bx_slots (index_run D [Upsert r]) = [Some (entry_of D r)]"
    "bx_partitionRep (index_run D [Upsert r]) = [(partitionKeyOf (meta_of r), rep_of (meta_of r))]"
    "bx_facets (index_run D [Upsert r]) =
       fold (bump_facet (partitionKeyOf (meta_of r)) (int (length (tokenize (content_of r)))) 1) (facetKeysOf (meta_of r)) []"
    by (simp_all add: addToAggregates_def rep_of_def i2_def new_index_def)
qed

text \<open>A query for either of two tags counts a record that has both of them twice: the statistics from
  the facet aggregates say two documents while the scan of the slots counts one. \<close>

theorem two_tags_counted_twice:
  defines "cs \<equiv> [Group ''or'' [Leaf (Str ''tags'') ''equals'' (Str ''a''), Leaf (Str ''tags'') ''equals'' (Str ''b'')]]"
    and "idx \<equiv> index_run demo_dates [Upsert (demo_row ''m'' Null)]"
  shows "\<exists>plan. planQuery cs demo_filters None = Some plan \<and> \<not> qp_exact plan \<and>
     fst (stats demo_dates idx plan cs demo_filters None 5) = 2 \<and>
     fst (stats demo_dates idx (plan\<lparr>qp_exact := True\<rparr>) cs demo_filters None 5) = 1"
proof -
  let ?plan = "\<lparr>qp_partitionConditions = [], qp_facet = Some (''tags'', [''a'', ''b'']), qp_exact = False\<rparr>"
  have p: "planQuery cs demo_filters None = Some ?plan"
    by (simp add: cs_def planQuery_def SUPPORTED_SCOPE_ATTRS_def PARTITION_ATTRS_def FACET_ATTRS_def asFacet_def demo_filters_def)
  have i: "id_of (demo_row ''m'' Null) \<noteq> []" "expiryOf demo_dates (demo_row ''m'' Null) = None"
    by (simp_all add: id_of_def expiryOf_def demo_row_def getp_def min_expiry_def)
  note f = first_record [OF i]
  let ?k = "partitionKeyOf (meta_of (demo_row ''m'' Null))" and ?dl = "int (length (tokenize (content_of (demo_row ''m'' Null))))"
  have k: "facetKeysOf (meta_of (demo_row ''m'' Null)) = [facet_key ''tags'' ''a'', facet_key ''tags'' ''b'']"
    by (simp add: demo_meta facetKeysOf_def getp_def)
  have ab: "facet_key ''tags'' ''a'' \<noteq> facet_key ''tags'' ''b''" by (simp add: facet_key_def)
  have "mergeFacetAggregates (bx_facets idx) ''tags'' [''a'', ''b''] = [(?k, \<lparr>agg_count = 2, agg_sumDl = 2 * ?dl\<rparr>)]"
    unfolding idx_def f k mergeFacetAggregates_def
    using ab ab [symmetric] by (simp add: bump_facet_def bump_def)
  then have "fst (stats demo_dates idx ?plan cs demo_filters None 5) = 2"
    by (simp add: stats_def) (simp add: idx_def f allows_def)
  moreover have "fst (stats demo_dates idx (?plan\<lparr>qp_exact := True\<rparr>) cs demo_filters None 5) = 1"
    unfolding idx_def stats_def f
    by (simp add: demo_meta cs_def matchLeaf_def js_includes_def passesRecordFilters_def demo_filters_def allows_def getp_def)
  ultimately show ?thesis using p by (intro exI [of _ ?plan]) simp
qed

end
