(* ===== verification/Bm25Service.thy ===== *)
theory Bm25Service
  imports Bm25Equiv
begin

text \<open>
  The process-wide lexical index and its life cycle: \<open>resources/bm25-index-service.ts\<close>. The module's
  variables are the record \<open>service\<close>; what runs between two awaits is one function on it. A build is
  a process that is resumed with what it awaited (\<open>build_resume\<close>); builds, the table, its change feed
  and the write hooks interleave in the relation \<open>svc_step\<close>. The clock is an argument.
\<close>

section \<open>Configuration\<close>

definition bm25IndexEnabled :: "(string \<Rightarrow> string option) \<Rightarrow> bool" where
  "bm25IndexEnabled env =
     (let v = js_lower (case env ''FLAIR_BM25_INDEX'' of None \<Rightarrow> ''true'' | Some s \<Rightarrow> s) in
      v = ''true'' \<or> v = ''1'' \<or> v = ''on'')"

definition bm25IndexInRetrievalPath :: "(string \<Rightarrow> string option) \<Rightarrow> bool" where
  "bm25IndexInRetrievalPath env =
     (case retrievalMode env of Inr m \<Rightarrow> m \<noteq> ''vector-only'' | Inl _ \<Rightarrow> True)"

section \<open>The service\<close>

datatype svc_state = SvcEmpty | SvcBuilding | SvcReady | SvcDisabled

datatype pending_event = EvUpsert jobj | EvDelete string

record service =
  sv_index :: index
  sv_state :: svc_state
  sv_buildPromise :: "nat option"
  sv_pending :: "pending_event list option"
  sv_feedStarted :: bool
  sv_disabledReason :: string
  sv_builtCount :: nat
  sv_totalCount :: nat
  sv_startedAt :: "int option"
  sv_finishedAt :: "int option"
  sv_buildDurationMs :: "int option"
  sv_buildSerial :: nat

text \<open>\<open>sv_buildPromise\<close> names the build whose promise it is by that build's serial number.\<close>

definition new_service :: service where
  "new_service = \<lparr>sv_index = new_index, sv_state = SvcEmpty, sv_buildPromise = None, sv_pending = None,
     sv_feedStarted = False, sv_disabledReason = [], sv_builtCount = 0, sv_totalCount = 0, sv_startedAt = None,
     sv_finishedAt = None, sv_buildDurationMs = None, sv_buildSerial = 0\<rparr>"

definition project :: "js \<Rightarrow> jobj option" where
  "project row =
     (case row of
        Obj ob \<Rightarrow>
          (case getp ob ''id'' of
             Str i \<Rightarrow> Some ((''id'', Str i) #
               map (\<lambda>k. (k, getp ob k)) (filter (\<lambda>k. k \<noteq> ''id'' \<and> has_own row k) INDEX_SELECT))
           | _ \<Rightarrow> None)
      | _ \<Rightarrow> None)"

definition apply_event :: "dates \<Rightarrow> pending_event \<Rightarrow> service \<Rightarrow> service" where
  "apply_event D ev s =
     (case ev of
        EvDelete i \<Rightarrow> s\<lparr>sv_index := remove i (sv_index s)\<rparr>
      | EvUpsert r \<Rightarrow> s\<lparr>sv_index := upsert D r (sv_index s)\<rparr>)"

definition markBm25IndexStale :: "string \<Rightarrow> service \<Rightarrow> service" where
  "markBm25IndexStale reason s =
     (if sv_state s = SvcDisabled then s
      else s\<lparr>sv_buildSerial := sv_buildSerial s + 1, sv_disabledReason := reason, sv_state := SvcEmpty,
             sv_buildPromise := None, sv_builtCount := 0, sv_totalCount := 0, sv_startedAt := None,
             sv_finishedAt := None, sv_buildDurationMs := None\<rparr>)"

definition record_event :: "dates \<Rightarrow> pending_event \<Rightarrow> service \<Rightarrow> service" where
  "record_event D ev s =
     (if sv_state s = SvcDisabled \<or> sv_state s = SvcEmpty then s
      else if sv_state s = SvcBuilding then
        (case sv_pending s of
           None \<Rightarrow> markBm25IndexStale ''in-flight build lost its event buffer'' s
         | Some p \<Rightarrow> s\<lparr>sv_pending := Some (p @ [ev])\<rparr>)
      else apply_event D ev s)"

definition noteMemoryUpsert :: "dates \<Rightarrow> js \<Rightarrow> service \<Rightarrow> service" where
  "noteMemoryUpsert D row s = (case project row of None \<Rightarrow> s | Some r \<Rightarrow> record_event D (EvUpsert r) s)"

definition noteMemoryDelete :: "dates \<Rightarrow> js \<Rightarrow> service \<Rightarrow> service" where
  "noteMemoryDelete D i s =
     (case i of Str k \<Rightarrow> if 0 < length k then record_event D (EvDelete k) s else s | _ \<Rightarrow> s)"

definition stampFinished :: "int \<Rightarrow> service \<Rightarrow> service" where
  "stampFinished now s =
     (if sv_finishedAt s \<noteq> None then s
      else s\<lparr>sv_finishedAt := Some now,
             sv_buildDurationMs := (case sv_startedAt s of None \<Rightarrow> None | Some t \<Rightarrow> Some (now - t))\<rparr>)"

definition disable :: "int \<Rightarrow> string \<Rightarrow> service \<Rightarrow> service" where
  "disable now reason s =
     stampFinished now (s\<lparr>sv_state := SvcDisabled, sv_disabledReason := reason, sv_buildPromise := None,
       sv_pending := None, sv_index := clear (sv_index s), sv_builtCount := 0\<rparr>)"

section \<open>The change feed\<close>

record feed_event =
  fe_type :: js
  fe_id :: js
  fe_value :: js

definition feed_consume :: "dates \<Rightarrow> feed_event \<Rightarrow> service \<Rightarrow> service" where
  "feed_consume D ev s =
     (if fe_type ev = Str ''delete'' then record_event D (EvDelete (js_String (fe_id ev))) s
      else if fe_type ev \<in> {Str ''put'', Str ''insert'', Str ''update'', Str ''upsert''} then
        (case project (fe_value ev) of
           Some r \<Rightarrow> record_event D (EvUpsert r) s
         | None \<Rightarrow> markBm25IndexStale (''feed '' @ js_String (fe_type ev) @ '' event carried no usable record'') s)
      else if fe_type ev \<noteq> Undef then
        markBm25IndexStale (''unhandled feed event type '' @ js_String (fe_type ev)) s
      else s)"

text \<open>The end of the feed: \<open>None\<close> when it ended, \<open>Some msg\<close> when it threw.\<close>

definition feed_end :: "int \<Rightarrow> string option \<Rightarrow> service \<Rightarrow> service" where
  "feed_end now err s =
     (case err of
        None \<Rightarrow> disable now ''change feed ended'' s
      | Some msg \<Rightarrow> disable now (''change feed error: '' @ msg) s)"

section \<open>A build\<close>

datatype build_phase =
    AwaitFeed
  | Counting nat
  | CountYield
  | Scanning nat
  | Returned bool

datatype resume =
    Resumed
  | Row js
  | ScanEnd
  | Failed string

definition build_live :: "nat \<Rightarrow> service \<Rightarrow> bool" where
  "build_live serial s \<longleftrightarrow> sv_state s = SvcBuilding \<and> serial = sv_buildSerial s"

definition build_begin :: "int \<Rightarrow> service \<Rightarrow> nat \<times> service" where
  "build_begin now s =
     (let serial = sv_buildSerial s + 1 in
      (serial, s\<lparr>sv_buildSerial := serial, sv_state := SvcBuilding, sv_pending := Some [],
                 sv_index := clear (sv_index s), sv_builtCount := 0, sv_totalCount := 0, sv_startedAt := Some now,
                 sv_finishedAt := None, sv_buildDurationMs := None, sv_feedStarted := True\<rparr>))"

definition build_finish :: "dates \<Rightarrow> int \<Rightarrow> service \<Rightarrow> service" where
  "build_finish D now s =
     (let buffered = (case sv_pending s of None \<Rightarrow> [] | Some p \<Rightarrow> p) in
      fold (apply_event D) buffered
        (s\<lparr>sv_pending := None, sv_state := SvcReady, sv_finishedAt := Some now,
           sv_buildDurationMs := Some (now - (case sv_startedAt s of None \<Rightarrow> now | Some t \<Rightarrow> t))\<rparr>))"

fun has_string_id :: "js \<Rightarrow> bool" where
  "has_string_id (Obj ob) = (case getp ob ''id'' of Str _ \<Rightarrow> True | _ \<Rightarrow> False)"
| "has_string_id _ = False"

definition build_resume ::
    "dates \<Rightarrow> nat \<Rightarrow> int \<Rightarrow> resume \<Rightarrow> build_phase \<Rightarrow> service \<Rightarrow> build_phase \<times> service" where
  "build_resume D serial now inp phase s =
     (case (phase, inp) of
        (Returned b, _) \<Rightarrow> (Returned b, s)
      | (_, Failed msg) \<Rightarrow>
          (Returned False, if serial = sv_buildSerial s then disable now (''build failed: '' @ msg) s else s)
      | (AwaitFeed, Resumed) \<Rightarrow> if build_live serial s then (Counting 0, s) else (Returned False, s)
      | (Counting n, Row row) \<Rightarrow>
          if build_live serial s then (Counting (if has_string_id row then n + 1 else n), s) else (Returned False, s)
      | (Counting n, ScanEnd) \<Rightarrow>
          if build_live serial s then (CountYield, s\<lparr>sv_totalCount := n\<rparr>) else (Returned False, s)
      | (CountYield, Resumed) \<Rightarrow> if build_live serial s then (Scanning 0, s) else (Returned False, s)
      | (Scanning n, Row row) \<Rightarrow>
          if \<not> build_live serial s then (Returned False, s)
          else (case project row of
              None \<Rightarrow> (Scanning n, s)
            | Some r \<Rightarrow> (Scanning (n + 1), s\<lparr>sv_index := upsert D r (sv_index s), sv_builtCount := n + 1\<rparr>))
      | (Scanning n, ScanEnd) \<Rightarrow>
          if build_live serial s then (Returned True, build_finish D now s) else (Returned False, s)
      | _ \<Rightarrow> (phase, s))"

text \<open>\<open>finally\<close>: the promise is dropped when the build it belongs to has ended.\<close>

definition build_settled :: "nat \<Rightarrow> service \<Rightarrow> service" where
  "build_settled serial s = (if sv_buildPromise s = Some serial then s\<lparr>sv_buildPromise := None\<rparr> else s)"

section \<open>Queries\<close>

datatype readiness = Answer bool | Await nat

text \<open>\<open>ensureReady\<close> up to its await: an answer, or the build whose promise it returns.\<close>

definition ensureReady :: "(string \<Rightarrow> string option) \<Rightarrow> int \<Rightarrow> service \<Rightarrow> readiness \<times> service" where
  "ensureReady env now s =
     (if \<not> bm25IndexEnabled env then (Answer False, s)
      else if sv_state s = SvcDisabled then (Answer False, s)
      else if sv_state s = SvcReady then (Answer True, s)
      else case sv_buildPromise s of
          Some serial \<Rightarrow> (Await serial, s)
        | None \<Rightarrow> (case build_begin now s of (serial, s') \<Rightarrow> (Await serial, s'\<lparr>sv_buildPromise := Some serial\<rparr>)))"

text \<open>\<open>indexedBm25Ids\<close> after its await, which answered \<open>ready\<close>.\<close>

definition indexedBm25Ids ::
    "('f::linordered_field \<Rightarrow> 'f) \<Rightarrow> dates \<Rightarrow> condition list \<Rightarrow> time_filters \<Rightarrow> allowed_pred option \<Rightarrow> int \<Rightarrow>
     nat \<Rightarrow> string \<Rightarrow> bool \<Rightarrow> service \<Rightarrow> string list option \<times> service" where
  "indexedBm25Ids mlog D conditions f isAllowed now limit q ready s =
     (if \<not> ready then (None, s)
      else case rank mlog D conditions f isAllowed now limit q (sv_index s) of
          (ids, idx) \<Rightarrow> (ids, s\<lparr>sv_index := idx\<rparr>))"

section \<open>The service among writers, the feed and queries\<close>

datatype table_event = Put jobj | Del string | Reload

fun feed_of :: "table_event \<Rightarrow> feed_event" where
  "feed_of (Put ob) = \<lparr>fe_type = Str ''put'', fe_id = getp ob ''id'', fe_value = Obj ob\<rparr>"
| "feed_of (Del i) = \<lparr>fe_type = Str ''delete'', fe_id = Str i, fe_value = Undef\<rparr>"
| "feed_of Reload = \<lparr>fe_type = Str ''reload'', fe_id = Undef, fe_value = Undef\<rparr>"

type_synonym memory_table = "string \<Rightarrow> jobj option"

text \<open>The rows as the index stores them.\<close>

definition table_view :: "memory_table \<Rightarrow> string \<Rightarrow> jobj option" where
  "table_view T i = (case T i of None \<Rightarrow> None | Some ob \<Rightarrow> project (Obj ob))"

text \<open>
  The table, the undelivered events of its feed, the service, the phase of every build by its serial
  number and what the scan of the live build has to do: the rows it may meet, the ids it has to
  meet (present since it started, unwritten) and the ids it has met.
\<close>

record svc_world =
  w_table :: memory_table
  w_subscribed :: bool
  w_starter :: "nat option"
  w_queue :: "table_event list"
  w_svc :: service
  w_runs :: "nat \<Rightarrow> build_phase option"
  w_rows :: "jobj set"
  w_stable :: "string set"
  w_seen :: "string set"

definition svc_start :: "memory_table \<Rightarrow> svc_world" where
  "svc_start T = \<lparr>w_table = T, w_subscribed = False, w_starter = None, w_queue = [], w_svc = new_service,
     w_runs = (\<lambda>_. None), w_rows = {}, w_stable = {}, w_seen = {}\<rparr>"

definition event_ids :: "table_event \<Rightarrow> string set" where
  "event_ids ev = (case ev of Put ob \<Rightarrow> {id_of ob} | Del i \<Rightarrow> {i} | Reload \<Rightarrow> UNIV)"

definition table_after :: "table_event \<Rightarrow> memory_table \<Rightarrow> memory_table" where
  "table_after ev T = (case ev of Put ob \<Rightarrow> T(id_of ob \<mapsto> ob) | Del i \<Rightarrow> T(i := None) | Reload \<Rightarrow> T)"

definition commit :: "table_event \<Rightarrow> memory_table \<Rightarrow> svc_world \<Rightarrow> svc_world" where
  "commit ev T w =
     w\<lparr>w_table := T, w_queue := (if w_subscribed w then w_queue w @ [ev] else w_queue w),
       w_rows := w_rows w \<union> ran T, w_stable := w_stable w - event_ids ev\<rparr>"

definition note_event :: "dates \<Rightarrow> table_event \<Rightarrow> service \<Rightarrow> service" where
  "note_event D ev s =
     (case ev of Put ob \<Rightarrow> noteMemoryUpsert D (Obj ob) s | Del i \<Rightarrow> noteMemoryDelete D (Str i) s | Reload \<Rightarrow> s)"

definition row_ok :: "(jobj \<Rightarrow> bool) \<Rightarrow> jobj \<Rightarrow> bool" where
  "row_ok P ob \<longleftrightarrow> getp ob ''id'' = Str (id_of ob) \<and> id_of ob \<noteq> [] \<and> P (meta_of ob)"

definition table_ok :: "(jobj \<Rightarrow> bool) \<Rightarrow> memory_table \<Rightarrow> bool" where
  "table_ok P T \<longleftrightarrow> (\<forall>i ob. T i = Some ob \<longrightarrow> id_of ob = i \<and> row_ok P ob)"

definition event_ok :: "(jobj \<Rightarrow> bool) \<Rightarrow> table_event \<Rightarrow> bool" where
  "event_ok P ev \<longleftrightarrow> (case ev of Put ob \<Rightarrow> row_ok P ob | Del i \<Rightarrow> i \<noteq> [] | Reload \<Rightarrow> False)"

text \<open>What a committed write left, or a later undelivered event will correct.\<close>

definition note_timely :: "svc_world \<Rightarrow> table_event \<Rightarrow> bool" where
  "note_timely w ev \<longleftrightarrow>
     (\<forall>i \<in> event_ids ev. table_after ev (w_table w) i = w_table w i \<or> (\<exists>q \<in> set (w_queue w). i \<in> event_ids q \<and> q \<noteq> Reload))"

definition buffered_ids :: "service \<Rightarrow> string set" where
  "buffered_ids s = (case sv_pending s of None \<Rightarrow> {} | Some p \<Rightarrow>
     (\<lambda>ev. case ev of EvUpsert r \<Rightarrow> id_of r | EvDelete i \<Rightarrow> i) ` set p)"

definition scan_input :: "svc_world \<Rightarrow> nat \<Rightarrow> resume \<Rightarrow> bool" where
  "scan_input w n inp \<longleftrightarrow>
     (build_live n (w_svc w) \<longrightarrow>
       (case inp of Row row \<Rightarrow> (\<exists>ob \<in> w_rows w. row = Obj ob) | ScanEnd \<Rightarrow> w_stable w \<subseteq> w_seen w | _ \<Rightarrow> True))"

definition resume_world :: "dates \<Rightarrow> nat \<Rightarrow> int \<Rightarrow> resume \<Rightarrow> build_phase \<Rightarrow> svc_world \<Rightarrow> svc_world" where
  "resume_world D n now inp ph w =
     (case build_resume D n now inp ph (w_svc w) of
        (ph', s') \<Rightarrow>
          let enter = (ph = CountYield \<and> ph' = Scanning 0); live = build_live n (w_svc w) in
          w\<lparr>w_svc := s', w_runs := (w_runs w)(n \<mapsto> ph'),
            w_subscribed := w_subscribed w \<or> (ph = AwaitFeed \<and> inp = Resumed \<and> w_starter w = Some n),
            w_rows := (if enter then ran (w_table w) else w_rows w),
            w_stable := (if enter then dom (w_table w) else w_stable w),
            w_seen := (if enter then {} else
              case (ph, inp) of
                (Scanning _, Row (Obj ob)) \<Rightarrow> if live then insert (id_of ob) (w_seen w) else w_seen w
              | _ \<Rightarrow> w_seen w)\<rparr>)"

definition query_world :: "(string \<Rightarrow> string option) \<Rightarrow> int \<Rightarrow> svc_world \<Rightarrow> svc_world" where
  "query_world env now w =
     (case ensureReady env now (w_svc w) of
        (Answer b, s') \<Rightarrow> w\<lparr>w_svc := s'\<rparr>
      | (Await n, s') \<Rightarrow>
          if w_runs w n = None
          then w\<lparr>w_svc := s', w_runs := (w_runs w)(n \<mapsto> AwaitFeed),
                 w_starter := (if sv_feedStarted (w_svc w) then w_starter w else Some n)\<rparr>
          else w\<lparr>w_svc := s'\<rparr>)"

inductive svc_step :: "dates \<Rightarrow> (jobj \<Rightarrow> bool) \<Rightarrow> svc_world \<Rightarrow> svc_world \<Rightarrow> bool" for D P where
  written: "event_ok P ev \<Longrightarrow> w_subscribed w \<or> event_ids ev \<inter> buffered_ids (w_svc w) = {} \<Longrightarrow>
    svc_step D P w (commit ev (table_after ev (w_table w)) w)"
| written_noted: "event_ok P ev \<Longrightarrow> w' = commit ev (table_after ev (w_table w)) w \<Longrightarrow>
    svc_step D P w (w'\<lparr>w_svc := note_event D ev (w_svc w')\<rparr>)"
| noted: "event_ok P ev \<Longrightarrow> note_timely w ev \<Longrightarrow> svc_step D P w (w\<lparr>w_svc := note_event D ev (w_svc w)\<rparr>)"
| reloaded: "table_ok P T \<Longrightarrow> w_subscribed w \<Longrightarrow> svc_step D P w (commit Reload T w)"
| delivered: "w_queue w = ev # q \<Longrightarrow>
    svc_step D P w (w\<lparr>w_queue := q, w_svc := feed_consume D (feed_of ev) (w_svc w)\<rparr>)"
| feed_ended: "svc_step D P w (w\<lparr>w_svc := feed_end now err (w_svc w)\<rparr>)"
| queried: "svc_step D P w (query_world env now w)"
| ranked: "svc_step D P w (w\<lparr>w_svc := (w_svc w)\<lparr>sv_index := sweep now (sv_index (w_svc w))\<rparr>\<rparr>)"
| resumed: "w_runs w n = Some ph \<Longrightarrow> scan_input w n inp \<Longrightarrow> svc_step D P w (resume_world D n now inp ph w)"
| settled: "w_runs w n = Some (Returned b) \<Longrightarrow> svc_step D P w (w\<lparr>w_svc := build_settled n (w_svc w)\<rparr>)"

inductive svc_reach :: "dates \<Rightarrow> (jobj \<Rightarrow> bool) \<Rightarrow> svc_world \<Rightarrow> bool" for D P where
  start: "table_ok P T \<Longrightarrow> svc_reach D P (svc_start T)"
| step: "svc_reach D P w \<Longrightarrow> svc_step D P w w' \<Longrightarrow> svc_reach D P w'"

section \<open>Projection and events\<close>

lemma project_row:
  assumes "row_ok P ob"
  shows "\<exists>r. project (Obj ob) = Some r \<and> id_of r = id_of ob \<and> meta_of r = meta_of ob \<and> content_of r = content_of ob"
proof -
  have i: "getp ob ''id'' = Str (id_of ob)" using assms by (simp add: row_ok_def)
  define r where "r = (''id'', Str (id_of ob)) # map (\<lambda>k. (k, getp ob k)) (filter (\<lambda>k. k \<noteq> ''id'' \<and> has_own (Obj ob) k) INDEX_SELECT)"
  have p: "project (Obj ob) = Some r" by (simp add: project_def i r_def del: has_own.simps)
  have m: "map_of (map (\<lambda>k. (k, getp ob k)) (filter (\<lambda>k. k \<noteq> ''id'' \<and> has_own (Obj ob) k) xs)) a =
      (if a \<in> set xs \<and> a \<noteq> ''id'' then map_of ob a else None)" for xs a
    by (induction xs) (auto simp: getp_def)
  have a: "map_of r a = map_of ob a" if "a \<in> set INDEX_SELECT" "a \<noteq> ''id''" for a
    using that unfolding r_def by (simp add: m del: has_own.simps)
  have idr: "id_of r = id_of ob" by (simp add: r_def id_of_def [of "_ # _"])
  have "meta_of r = meta_of ob"
  proof (rule meta_of_cong [OF idr])
    fix x assume "x \<in> set INDEX_META_ATTRS"
    then have "x \<in> set INDEX_SELECT" "x \<noteq> ''id''"
      by (auto simp: INDEX_META_ATTRS_def INDEX_SELECT_def SUPPORTED_SCOPE_ATTRS_def TEMPORAL_ATTRS_def)
    then show "has_own (Obj r) x = has_own (Obj ob) x \<and> getp r x = getp ob x" by (simp add: a getp_def)
  qed
  moreover have "content_of r = content_of ob"
    using a [of "''content''"] by (simp add: content_of_def getp_def INDEX_SELECT_def)
  ultimately show ?thesis using p idr by blast
qed

fun ev_key :: "pending_event \<Rightarrow> string" where
  "ev_key (EvUpsert r) = id_of r"
| "ev_key (EvDelete i) = i"

fun ev_val :: "pending_event \<Rightarrow> jobj option" where
  "ev_val (EvUpsert r) = Some r"
| "ev_val (EvDelete i) = None"

fun ev_ok :: "(jobj \<Rightarrow> bool) \<Rightarrow> pending_event \<Rightarrow> bool" where
  "ev_ok P (EvUpsert r) \<longleftrightarrow> id_of r \<noteq> [] \<and> P (meta_of r)"
| "ev_ok P (EvDelete i) \<longleftrightarrow> i \<noteq> []"

text \<open>The last value the events give an id.\<close>

definition final :: "pending_event list \<Rightarrow> string \<Rightarrow> jobj option option" where
  "final evs = fold (\<lambda>ev f. f(ev_key ev \<mapsto> ev_val ev)) evs Map.empty"

lemma final_Nil [simp]: "final [] i = None"
  by (simp add: final_def)

lemma final_snoc [simp]: "final (xs @ [ev]) = (final xs)(ev_key ev \<mapsto> ev_val ev)"
  by (simp add: final_def)

lemma final_append: "final (xs @ ys) i = (case final ys i of None \<Rightarrow> final xs i | Some v \<Rightarrow> Some v)"
proof (induction ys rule: rev_induct)
  case (snoc y ys)
  have "final (xs @ ys @ [y]) = (final (xs @ ys))(ev_key y \<mapsto> ev_val y)" using final_snoc [of "xs @ ys" y] by simp
  then show ?case using snoc by (simp split: option.split)
qed simp

lemma final_Cons: "final (ev # evs) i = (case final evs i of None \<Rightarrow> if i = ev_key ev then Some (ev_val ev) else None | Some v \<Rightarrow> Some v)"
  using final_append [of "[ev]" evs i] by (simp add: final_def [of "[ev]"] split: option.split)

lemma final_key: "final evs i \<noteq> None \<longleftrightarrow> i \<in> ev_key ` set evs"
  by (induction evs rule: rev_induct) auto

definition represents :: "dates \<Rightarrow> (jobj \<Rightarrow> bool) \<Rightarrow> index \<Rightarrow> (string \<Rightarrow> jobj option) \<Rightarrow> bool" where
  "represents D P idx C \<longleftrightarrow>
     (\<exists>ops. idx = index_run D ops \<and> C = corpus_run ops \<and> (\<forall>r. Upsert r \<in> set ops \<longrightarrow> P (meta_of r)))"

lemma represents_step:
  assumes "represents D P idx C" "\<And>r. op = Upsert r \<Longrightarrow> P (meta_of r)"
  shows "represents D P (index_step D op idx) (corpus_step op C)"
proof -
  obtain ops where ops: "idx = index_run D ops" "C = corpus_run ops" "\<forall>r. Upsert r \<in> set ops \<longrightarrow> P (meta_of r)"
    using assms(1) by (auto simp: represents_def)
  show ?thesis unfolding represents_def
    by (rule exI [of _ "ops @ [op]"]) (use ops assms(2) in \<open>auto simp: index_run_def corpus_run_def\<close>)
qed

lemma represents_new: "represents D P (clear idx) (\<lambda>_. None)"
  unfolding represents_def by (rule exI [of _ "[]"]) (simp add: index_run_def corpus_run_def clear_def)

lemma represents_sweep: "represents D P idx C \<Longrightarrow> represents D P (sweep now idx) C"
  using represents_step [of D P idx C "Sweep now"] by simp

lemma represents_apply:
  assumes "represents D P (sv_index s) C" "ev_ok P ev"
  shows "represents D P (sv_index (apply_event D ev s)) (C(ev_key ev := ev_val ev))"
proof (cases ev)
  case (EvUpsert r)
  then show ?thesis using represents_step [OF assms(1), of "Upsert r"] assms(2) by (simp add: apply_event_def)
next
  case (EvDelete i)
  then show ?thesis using represents_step [OF assms(1), of "Remove i"] by (simp add: apply_event_def)
qed

lemma represents_fold:
  "represents D P (sv_index s) C \<Longrightarrow> (\<forall>ev \<in> set evs. ev_ok P ev) \<Longrightarrow>
   represents D P (sv_index (fold (apply_event D) evs s)) (\<lambda>i. case final evs i of None \<Rightarrow> C i | Some v \<Rightarrow> v)"
proof (induction evs arbitrary: s C)
  case Nil
  then show ?case by simp
next
  case (Cons ev evs)
  have "represents D P (sv_index (apply_event D ev s)) (C(ev_key ev := ev_val ev))"
    by (rule represents_apply) (use Cons.prems in auto)
  from Cons.IH [OF this] Cons.prems(2)
  have "represents D P (sv_index (fold (apply_event D) (ev # evs) s))
      (\<lambda>i. case final evs i of None \<Rightarrow> (C(ev_key ev := ev_val ev)) i | Some v \<Rightarrow> v)" by simp
  moreover have "(\<lambda>i. case final evs i of None \<Rightarrow> (C(ev_key ev := ev_val ev)) i | Some v \<Rightarrow> v) =
      (\<lambda>i. case final (ev # evs) i of None \<Rightarrow> C i | Some v \<Rightarrow> v)"
    by (auto simp: fun_eq_iff final_Cons split: option.split)
  ultimately show ?case by simp
qed

lemma apply_event_frame:
  "apply_event D ev s = s\<lparr>sv_index := sv_index (apply_event D ev s)\<rparr>"
  "fold (apply_event D) evs s = s\<lparr>sv_index := sv_index (fold (apply_event D) evs s)\<rparr>"
proof -
  show 1: "apply_event D ev s = s\<lparr>sv_index := sv_index (apply_event D ev s)\<rparr>" for ev s
    by (simp add: apply_event_def split: pending_event.split)
  show "fold (apply_event D) evs s = s\<lparr>sv_index := sv_index (fold (apply_event D) evs s)\<rparr>"
  proof (induction evs arbitrary: s)
    case (Cons ev evs)
    show ?case using Cons [of "apply_event D ev s"] by simp (metis (no_types, lifting) "1" service.update_convs(1) service.surjective)
  qed simp
qed

section \<open>The invariant of the service\<close>

fun pend1 :: "table_event \<Rightarrow> pending_event list" where
  "pend1 (Put ob) = (case project (Obj ob) of None \<Rightarrow> [] | Some r \<Rightarrow> [EvUpsert r])"
| "pend1 (Del i) = [EvDelete i]"
| "pend1 Reload = []"

definition pend :: "table_event list \<Rightarrow> pending_event list" where
  "pend Q = concat (map pend1 Q)"

lemma pend_simps [simp]: "pend [] = []" "pend (ev # Q) = pend1 ev @ pend Q" "pend (Q @ Q') = pend Q @ pend Q'"
  by (simp_all add: pend_def)

fun after :: "table_event list \<Rightarrow> table_event list" where
  "after [] = []"
| "after (ev # Q) = (if Reload \<in> set (ev # Q) then after Q else ev # Q)"

lemma after_quiet [simp]: "Reload \<notin> set Q \<Longrightarrow> after Q = Q"
  by (cases Q) auto

lemma after_snoc: "after (Q @ [ev]) = (if ev = Reload then [] else after Q @ [ev])"
  by (induction Q) auto

definition fresh :: "pending_event list \<Rightarrow> memory_table \<Rightarrow> bool" where
  "fresh evs T \<longleftrightarrow> (\<forall>i v. final evs i = Some v \<longrightarrow> v = table_view T i)"

definition settled_ids :: "pending_event list \<Rightarrow> memory_table \<Rightarrow> (string \<Rightarrow> jobj option) \<Rightarrow> bool" where
  "settled_ids evs T C \<longleftrightarrow> (\<forall>i. final evs i = None \<longrightarrow> C i = table_view T i)"

definition feed_inv :: "(jobj \<Rightarrow> bool) \<Rightarrow> svc_world \<Rightarrow> bool" where
  "feed_inv P w \<longleftrightarrow>
     table_ok P (w_table w) \<and> (\<forall>ev \<in> set (w_queue w). ev = Reload \<or> event_ok P ev) \<and>
     fresh (pend (after (w_queue w))) (w_table w)"

definition scan_ok :: "(jobj \<Rightarrow> bool) \<Rightarrow> svc_world \<Rightarrow> pending_event list \<Rightarrow> (string \<Rightarrow> jobj option) \<Rightarrow> bool" where
  "scan_ok P w evs C \<longleftrightarrow>
     (\<forall>ob \<in> w_rows w. row_ok P ob) \<and>
     (\<forall>i. Reload \<notin> set (w_queue w) \<and> final evs i = None \<longrightarrow>
        (\<forall>ob \<in> w_rows w. id_of ob = i \<longrightarrow> w_table w i = Some ob) \<and>
        (w_table w i \<noteq> None \<longrightarrow> i \<in> w_stable w) \<and>
        (C i = None \<or> C i = table_view (w_table w) i) \<and> (i \<in> w_seen w \<longrightarrow> C i = table_view (w_table w) i))"

lemma scan_ok_svc: "scan_ok P (w\<lparr>w_svc := s\<rparr>) evs C = scan_ok P w evs C"
  by (simp add: scan_ok_def)

definition build_inv :: "(jobj \<Rightarrow> bool) \<Rightarrow> svc_world \<Rightarrow> (string \<Rightarrow> jobj option) \<Rightarrow> bool" where
  "build_inv P w C \<longleftrightarrow>
     (\<exists>L ph. sv_pending (w_svc w) = Some L \<and> (\<forall>ev \<in> set L. ev_ok P ev) \<and>
        sv_buildPromise (w_svc w) = Some (sv_buildSerial (w_svc w)) \<and>
        w_runs w (sv_buildSerial (w_svc w)) = Some ph \<and> (\<forall>b. ph \<noteq> Returned b) \<and> sv_feedStarted (w_svc w) \<and>
        (w_subscribed w \<or> (ph = AwaitFeed \<and> w_starter w = Some (sv_buildSerial (w_svc w)))) \<and>
        (Reload \<notin> set (w_queue w) \<longrightarrow> fresh (L @ pend (w_queue w)) (w_table w)) \<and>
        ((\<forall>n. ph \<noteq> Scanning n) \<longrightarrow> C = (\<lambda>_. None)) \<and>
        (\<forall>n. ph = Scanning n \<longrightarrow> scan_ok P w (L @ pend (w_queue w)) C))"

definition svc_inv :: "dates \<Rightarrow> (jobj \<Rightarrow> bool) \<Rightarrow> svc_world \<Rightarrow> bool" where
  "svc_inv D P w \<longleftrightarrow>
     feed_inv P w \<and> (\<forall>n ph. w_runs w n = Some ph \<longrightarrow> n \<le> sv_buildSerial (w_svc w)) \<and>
     (\<not> w_subscribed w \<longrightarrow> w_queue w = [] \<and>
        (sv_state (w_svc w) = SvcEmpty \<and> \<not> sv_feedStarted (w_svc w) \<or> sv_state (w_svc w) = SvcBuilding \<or>
         sv_state (w_svc w) = SvcDisabled)) \<and>
     (\<exists>C. represents D P (sv_index (w_svc w)) C \<and>
        (sv_state (w_svc w) = SvcEmpty \<longrightarrow> sv_buildPromise (w_svc w) = None) \<and>
        (sv_state (w_svc w) = SvcReady \<longrightarrow> w_subscribed w \<and>
           (Reload \<notin> set (w_queue w) \<longrightarrow> settled_ids (pend (w_queue w)) (w_table w) C)) \<and>
        (sv_state (w_svc w) = SvcBuilding \<longrightarrow> build_inv P w C))"

text \<open>The events of the table and of the hooks, as the service sees them.\<close>

lemma event_pending:
  assumes "event_ok P ev"
  shows "\<exists>p. pend1 ev = [p] \<and> ev_ok P p \<and> event_ids ev = {ev_key p} \<and>
    (\<forall>T. ev_val p = table_view (table_after ev T) (ev_key p)) \<and>
    note_event D ev = record_event D p \<and> feed_consume D (feed_of ev) = record_event D p"
proof (cases ev)
  case (Put ob)
  then have r: "row_ok P ob" using assms by (simp add: event_ok_def)
  obtain r where "project (Obj ob) = Some r" "id_of r = id_of ob" "meta_of r = meta_of ob" using project_row [OF r] by blast
  then show ?thesis using r Put
    by (intro exI [of _ "EvUpsert r"])
       (auto simp: row_ok_def event_ids_def table_view_def table_after_def note_event_def noteMemoryUpsert_def feed_consume_def fun_eq_iff)
next
  case (Del i)
  then show ?thesis using assms
    by (intro exI [of _ "EvDelete i"])
       (auto simp: event_ok_def event_ids_def table_view_def table_after_def note_event_def noteMemoryDelete_def feed_consume_def fun_eq_iff)
qed (use assms in \<open>simp add: event_ok_def\<close>)

lemma pend_keys:
  assumes "\<forall>q \<in> set Q. q = Reload \<or> event_ok P q" "q \<in> set Q" "q \<noteq> Reload" "i \<in> event_ids q"
  shows "final (pend Q) i \<noteq> None"
proof -
  have "event_ok P q" using assms by blast
  from event_pending [OF this] obtain p where "pend1 q = [p]" "event_ids q = {ev_key p}" by blast
  then have "p \<in> set (pend Q)" "i = ev_key p" using assms(2,4) by (auto simp: pend_def intro: bexI [of _ q])
  then show ?thesis unfolding final_key by blast
qed

lemma record_event_frame:
  "sv_buildSerial (record_event D ev s) \<ge> sv_buildSerial s"
  by (auto simp: record_event_def apply_event_def markBm25IndexStale_def split: option.split pending_event.split)

text \<open>Recording an event that is final for its id, or superseded by one that is.\<close>

lemma record_inv:
  assumes inv: "svc_inv D P w" and ev: "ev_ok P ev"
    and val: "ev_val ev = table_view (w_table w) (ev_key ev) \<or> final (pend (w_queue w)) (ev_key ev) \<noteq> None"
  shows "svc_inv D P (w\<lparr>w_svc := record_event D ev (w_svc w)\<rparr>)"
proof -
  obtain C where C: "represents D P (sv_index (w_svc w)) C"
    "sv_state (w_svc w) = SvcEmpty \<longrightarrow> sv_buildPromise (w_svc w) = None"
    "sv_state (w_svc w) = SvcReady \<longrightarrow> w_subscribed w \<and>
           (Reload \<notin> set (w_queue w) \<longrightarrow> settled_ids (pend (w_queue w)) (w_table w) C)"
    "sv_state (w_svc w) = SvcBuilding \<longrightarrow> build_inv P w C"
    using inv by (auto simp: svc_inv_def)
  show ?thesis
  proof (cases "sv_state (w_svc w)")
    case SvcReady
    have r: "record_event D ev (w_svc w) = (w_svc w)\<lparr>sv_index := sv_index (apply_event D ev (w_svc w))\<rparr>"
      using SvcReady apply_event_frame(1) [of D ev "w_svc w"] by (simp add: record_event_def)
    have "settled_ids (pend (w_queue w)) (w_table w) (C(ev_key ev := ev_val ev))" if "Reload \<notin> set (w_queue w)"
      using C(3) SvcReady val that by (auto simp: settled_ids_def)
    then show ?thesis
      using inv SvcReady C(3) represents_apply [OF C(1) ev] unfolding svc_inv_def r
      by (auto simp: feed_inv_def)
  next
    case SvcBuilding
    then have "build_inv P w C" using C(4) by simp
    then obtain L ph where B: "sv_pending (w_svc w) = Some L" "\<forall>ev \<in> set L. ev_ok P ev"
        "sv_buildPromise (w_svc w) = Some (sv_buildSerial (w_svc w))"
        "w_runs w (sv_buildSerial (w_svc w)) = Some ph" "\<forall>b. ph \<noteq> Returned b" "sv_feedStarted (w_svc w)"
        "w_subscribed w \<or> (ph = AwaitFeed \<and> w_starter w = Some (sv_buildSerial (w_svc w)))"
        "Reload \<notin> set (w_queue w) \<longrightarrow> fresh (L @ pend (w_queue w)) (w_table w)"
        "(\<forall>n. ph \<noteq> Scanning n) \<longrightarrow> C = (\<lambda>_. None)"
        "\<forall>n. ph = Scanning n \<longrightarrow> scan_ok P w (L @ pend (w_queue w)) C"
      unfolding build_inv_def by blast
    have r: "record_event D ev (w_svc w) = (w_svc w)\<lparr>sv_pending := Some (L @ [ev])\<rparr>"
      using SvcBuilding B(1) by (simp add: record_event_def)
    have fin: "final ((L @ [ev]) @ pend (w_queue w)) i =
        (if final (pend (w_queue w)) i = None \<and> i = ev_key ev then Some (ev_val ev) else final (L @ pend (w_queue w)) i)" for i
      by (auto simp: final_append simp del: append_assoc split: option.split)
    have fr: "fresh ((L @ [ev]) @ pend (w_queue w)) (w_table w)" if "Reload \<notin> set (w_queue w)"
      using B(8) that val unfolding fresh_def fin by auto
    have sc: "scan_ok P w ((L @ [ev]) @ pend (w_queue w)) C" if "scan_ok P w (L @ pend (w_queue w)) C"
      using that unfolding scan_ok_def fin by (auto split: if_splits)
    have "build_inv P (w\<lparr>w_svc := record_event D ev (w_svc w)\<rparr>) C"
      unfolding build_inv_def r
    proof (rule exI [of _ "L @ [ev]"], rule exI [of _ ph], intro conjI)
      show "\<forall>ev\<in>set (L @ [ev]). ev_ok P ev" using B(2) ev by simp
      show "\<forall>n. ph = Scanning n \<longrightarrow>
          scan_ok P (w\<lparr>w_svc := (w_svc w)\<lparr>sv_pending := Some (L @ [ev])\<rparr>\<rparr>)
            ((L @ [ev]) @ pend (w_queue (w\<lparr>w_svc := (w_svc w)\<lparr>sv_pending := Some (L @ [ev])\<rparr>\<rparr>))) C"
        unfolding scan_ok_svc using B(10) sc by simp
    qed (use B(3-9) fr in simp_all)
    then show ?thesis using inv SvcBuilding C(1) unfolding svc_inv_def r by (auto simp: feed_inv_def)
  qed (use inv in \<open>simp_all add: record_event_def\<close>)
qed

lemma stale_inv:
  assumes inv: "svc_inv D P w" and sub: "w_subscribed w"
  shows "svc_inv D P (w\<lparr>w_svc := markBm25IndexStale reason (w_svc w)\<rparr>)"
proof (cases "sv_state (w_svc w) = SvcDisabled")
  case True
  then show ?thesis using inv by (simp add: markBm25IndexStale_def)
next
  case False
  then show ?thesis using inv sub unfolding svc_inv_def
    by (auto simp: markBm25IndexStale_def feed_inv_def intro: le_SucI)
qed

lemma disable_inv:
  assumes inv: "svc_inv D P w"
  shows "svc_inv D P (w\<lparr>w_svc := disable now reason (w_svc w)\<rparr>)"
proof -
  have s: "sv_state (disable now reason s) = SvcDisabled" "sv_buildSerial (disable now reason s) = sv_buildSerial s"
    "sv_index (disable now reason s) = clear (sv_index s)" for s
    by (simp_all add: disable_def stampFinished_def)
  have "\<exists>C. represents D P (clear (sv_index (w_svc w))) C" using represents_new by blast
  then show ?thesis using inv unfolding svc_inv_def by (simp add: s feed_inv_def)
qed

section \<open>Every step keeps the invariant\<close>

lemma table_after_view:
  assumes "event_ok P ev" "pend1 ev = [p]" "event_ids ev = {ev_key p}" "ev_val p = table_view (table_after ev T) (ev_key p)"
  shows "table_view (table_after ev T) i = (if i = ev_key p then ev_val p else table_view T i)"
  using assms by (cases ev) (auto simp: table_after_def table_view_def event_ids_def split: if_splits)

lemma table_after_ok: "table_ok P T \<Longrightarrow> event_ok P ev \<Longrightarrow> table_ok P (table_after ev T)"
  by (cases ev) (auto simp: table_ok_def table_after_def event_ok_def)

definition svc_with :: "dates \<Rightarrow> (jobj \<Rightarrow> bool) \<Rightarrow> svc_world \<Rightarrow> (string \<Rightarrow> jobj option) \<Rightarrow> bool" where
  "svc_with D P w C \<longleftrightarrow>
     feed_inv P w \<and> (\<forall>n ph. w_runs w n = Some ph \<longrightarrow> n \<le> sv_buildSerial (w_svc w)) \<and>
     (\<not> w_subscribed w \<longrightarrow> w_queue w = [] \<and>
        (sv_state (w_svc w) = SvcEmpty \<and> \<not> sv_feedStarted (w_svc w) \<or> sv_state (w_svc w) = SvcBuilding \<or>
         sv_state (w_svc w) = SvcDisabled)) \<and>
     represents D P (sv_index (w_svc w)) C \<and>
        (sv_state (w_svc w) = SvcEmpty \<longrightarrow> sv_buildPromise (w_svc w) = None) \<and>
        (sv_state (w_svc w) = SvcReady \<longrightarrow> w_subscribed w \<and>
           (Reload \<notin> set (w_queue w) \<longrightarrow> settled_ids (pend (w_queue w)) (w_table w) C)) \<and>
        (sv_state (w_svc w) = SvcBuilding \<longrightarrow> build_inv P w C)"

lemma svc_inv_with: "svc_inv D P w \<longleftrightarrow> (\<exists>C. svc_with D P w C)"
  unfolding svc_inv_def svc_with_def by blast

lemma svc_withD:
  assumes "svc_with D P w C"
  shows "feed_inv P w" "w_runs w n = Some ph \<Longrightarrow> n \<le> sv_buildSerial (w_svc w)"
    "\<not> w_subscribed w \<Longrightarrow> w_queue w = []"
    "\<not> w_subscribed w \<Longrightarrow> sv_state (w_svc w) = SvcEmpty \<and> \<not> sv_feedStarted (w_svc w) \<or> sv_state (w_svc w) = SvcBuilding \<or>
         sv_state (w_svc w) = SvcDisabled"
    "represents D P (sv_index (w_svc w)) C" "sv_state (w_svc w) = SvcEmpty \<Longrightarrow> sv_buildPromise (w_svc w) = None"
    "sv_state (w_svc w) = SvcReady \<Longrightarrow> w_subscribed w"
    "sv_state (w_svc w) = SvcReady \<Longrightarrow> Reload \<notin> set (w_queue w) \<Longrightarrow> settled_ids (pend (w_queue w)) (w_table w) C"
    "sv_state (w_svc w) = SvcBuilding \<Longrightarrow> build_inv P w C"
  using assms unfolding svc_with_def by blast+

lemma svc_invI:
  assumes "feed_inv P w" "\<And>n ph. w_runs w n = Some ph \<Longrightarrow> n \<le> sv_buildSerial (w_svc w)"
    "\<not> w_subscribed w \<Longrightarrow> w_queue w = []"
    "\<not> w_subscribed w \<Longrightarrow> sv_state (w_svc w) = SvcEmpty \<and> \<not> sv_feedStarted (w_svc w) \<or> sv_state (w_svc w) = SvcBuilding \<or>
         sv_state (w_svc w) = SvcDisabled"
    "represents D P (sv_index (w_svc w)) C" "sv_state (w_svc w) = SvcEmpty \<Longrightarrow> sv_buildPromise (w_svc w) = None"
    "sv_state (w_svc w) = SvcReady \<Longrightarrow> w_subscribed w"
    "sv_state (w_svc w) = SvcReady \<Longrightarrow> Reload \<notin> set (w_queue w) \<Longrightarrow> settled_ids (pend (w_queue w)) (w_table w) C"
    "sv_state (w_svc w) = SvcBuilding \<Longrightarrow> build_inv P w C"
  shows "svc_inv D P w"
  using assms unfolding svc_inv_def by blast

definition build_with ::
    "(jobj \<Rightarrow> bool) \<Rightarrow> svc_world \<Rightarrow> (string \<Rightarrow> jobj option) \<Rightarrow> pending_event list \<Rightarrow> build_phase \<Rightarrow> bool" where
  "build_with P w C L ph \<longleftrightarrow>
     sv_pending (w_svc w) = Some L \<and> (\<forall>ev \<in> set L. ev_ok P ev) \<and>
        sv_buildPromise (w_svc w) = Some (sv_buildSerial (w_svc w)) \<and>
        w_runs w (sv_buildSerial (w_svc w)) = Some ph \<and> (\<forall>b. ph \<noteq> Returned b) \<and> sv_feedStarted (w_svc w) \<and>
        (w_subscribed w \<or> (ph = AwaitFeed \<and> w_starter w = Some (sv_buildSerial (w_svc w)))) \<and>
        (Reload \<notin> set (w_queue w) \<longrightarrow> fresh (L @ pend (w_queue w)) (w_table w)) \<and>
        ((\<forall>n. ph \<noteq> Scanning n) \<longrightarrow> C = (\<lambda>_. None)) \<and>
        (\<forall>n. ph = Scanning n \<longrightarrow> scan_ok P w (L @ pend (w_queue w)) C)"

lemma build_inv_with: "build_inv P w C \<longleftrightarrow> (\<exists>L ph. build_with P w C L ph)"
  unfolding build_inv_def build_with_def ..

lemma build_withD:
  assumes "build_with P w C L ph"
  shows "sv_pending (w_svc w) = Some L" "\<forall>ev \<in> set L. ev_ok P ev"
        "sv_buildPromise (w_svc w) = Some (sv_buildSerial (w_svc w))"
        "w_runs w (sv_buildSerial (w_svc w)) = Some ph" "\<forall>b. ph \<noteq> Returned b" "sv_feedStarted (w_svc w)"
        "w_subscribed w \<or> (ph = AwaitFeed \<and> w_starter w = Some (sv_buildSerial (w_svc w)))"
        "Reload \<notin> set (w_queue w) \<Longrightarrow> fresh (L @ pend (w_queue w)) (w_table w)"
        "\<forall>n. ph \<noteq> Scanning n \<Longrightarrow> C = (\<lambda>_. None)"
        "ph = Scanning n \<Longrightarrow> scan_ok P w (L @ pend (w_queue w)) C"
  using assms unfolding build_with_def by blast+

lemma build_invI:
  assumes "sv_pending (w_svc w) = Some L" "\<forall>ev \<in> set L. ev_ok P ev"
        "sv_buildPromise (w_svc w) = Some (sv_buildSerial (w_svc w))"
        "w_runs w (sv_buildSerial (w_svc w)) = Some ph" "\<forall>b. ph \<noteq> Returned b" "sv_feedStarted (w_svc w)"
        "w_subscribed w \<or> (ph = AwaitFeed \<and> w_starter w = Some (sv_buildSerial (w_svc w)))"
        "Reload \<notin> set (w_queue w) \<Longrightarrow> fresh (L @ pend (w_queue w)) (w_table w)"
        "\<forall>n. ph \<noteq> Scanning n \<Longrightarrow> C = (\<lambda>_. None)"
        "\<And>n. ph = Scanning n \<Longrightarrow> scan_ok P w (L @ pend (w_queue w)) C"
  shows "build_inv P w C"
  using assms unfolding build_inv_def by blast

lemma commit_fields [simp]:
  "w_table (commit ev T w) = T" "w_subscribed (commit ev T w) = w_subscribed w" "w_starter (commit ev T w) = w_starter w"
  "w_queue (commit ev T w) = (if w_subscribed w then w_queue w @ [ev] else w_queue w)" "w_svc (commit ev T w) = w_svc w"
  "w_runs (commit ev T w) = w_runs w" "w_rows (commit ev T w) = w_rows w \<union> ran T"
  "w_stable (commit ev T w) = w_stable w - event_ids ev" "w_seen (commit ev T w) = w_seen w"
  by (simp_all add: commit_def)

lemma buffered_key: "sv_pending s = Some L \<Longrightarrow> buffered_ids s = ev_key ` set L"
  unfolding buffered_ids_def by (auto intro!: image_cong split: pending_event.split)

lemma commit_inv:
  assumes inv: "svc_inv D P w" and ev: "event_ok P ev"
    and free: "w_subscribed w \<or> event_ids ev \<inter> buffered_ids (w_svc w) = {}"
  shows "svc_inv D P (commit ev (table_after ev (w_table w)) w)"
proof -
  let ?T = "w_table w" and ?T' = "table_after ev (w_table w)" and ?w = "commit ev (table_after ev (w_table w)) w"
  from inv obtain C where IW: "svc_with D P w C" unfolding svc_inv_with ..
  note I = svc_withD [OF IW]
  have nr: "ev \<noteq> Reload" using ev by (auto simp: event_ok_def)
  obtain p where p: "pend1 ev = [p]" "ev_ok P p" "event_ids ev = {ev_key p}" "ev_val p = table_view ?T' (ev_key p)"
    using event_pending [OF ev] by blast
  note view = table_after_view [OF ev p(1,3,4)]
  have fr: "fresh (evs @ [p]) ?T'" if "fresh evs ?T" for evs
    using that by (auto simp: fresh_def view)
  have T': "table_ok P ?T'" using I(1) ev by (simp add: feed_inv_def table_after_ok)
  have F: "feed_inv P ?w"
    using I(1,3) T' ev nr fr p(1) unfolding feed_inv_def by (auto simp: after_snoc fresh_def)
  have other: "table_after ev ?T i = ?T i" if "i \<notin> event_ids ev" for i
    using that nr by (cases ev) (auto simp: table_after_def event_ids_def)
  show ?thesis
  proof (rule svc_invI [OF F])
    show "represents D P (sv_index (w_svc ?w)) C" using I(5) by simp
    assume st: "sv_state (w_svc ?w) = SvcReady" "Reload \<notin> set (w_queue ?w)"
    then have sub: "w_subscribed w" and q: "Reload \<notin> set (w_queue w)" using I(7) by (auto split: if_splits)
    then have "settled_ids (pend (w_queue w)) ?T C" using I(8) st by simp
    then show "settled_ids (pend (w_queue ?w)) (w_table ?w) C"
      using sub p(1) by (auto simp: settled_ids_def view)
  next
    assume st: "sv_state (w_svc ?w) = SvcBuilding"
    then obtain L ph where BW: "build_with P w C L ph" using I(9) by (auto simp: build_inv_with)
    note B = build_withD [OF BW]
    have fresh': "fresh (L @ pend (w_queue ?w)) (w_table ?w)" if "Reload \<notin> set (w_queue ?w)"
    proof (cases "w_subscribed w")
      case True
      then show ?thesis using fr [OF B(8)] that p(1) by simp
    next
      case False
      then have k: "ev_key p \<notin> ev_key ` set L" using free p(3) buffered_key [OF B(1)] by auto
      then have "final L (ev_key p) = None" using final_key by blast
      then have "v = table_view ?T' i" if "final L i = Some v" for i v
        using that B(8) I(3) False unfolding view by (auto simp: fresh_def)
      then show ?thesis using I(3) False by (simp add: fresh_def)
    qed
    have scan': "scan_ok P ?w (L @ pend (w_queue ?w)) C" if n: "ph = Scanning n" for n
    proof -
      have sub: "w_subscribed w" using B(7) n by auto
      have sc: "scan_ok P w (L @ pend (w_queue w)) C" by (rule B(10) [OF n])
      have rows: "row_ok P ob" if "ob \<in> w_rows w \<union> ran ?T'" for ob
        using that sc T' by (auto simp: scan_ok_def table_ok_def ran_def)
      show ?thesis
        unfolding scan_ok_def
      proof (intro conjI allI impI)
        show "\<forall>ob\<in>w_rows ?w. row_ok P ob" using rows by simp
        fix i assume a: "Reload \<notin> set (w_queue ?w) \<and> final (L @ pend (w_queue ?w)) i = None"
        then have i: "i \<noteq> ev_key p" "final (L @ pend (w_queue w)) i = None" "Reload \<notin> set (w_queue w)"
          using sub p(1) by (auto simp: final_append split: option.splits if_splits)
        have ti: "?T' i = ?T i" "table_view ?T' i = table_view ?T i" using other [of i] i(1) p(3) view [of i] by auto
        note s = sc [unfolded scan_ok_def, THEN conjunct2, rule_format, OF conjI [OF i(3,2)]]
        show "\<forall>ob\<in>w_rows ?w. id_of ob = i \<longrightarrow> w_table ?w i = Some ob"
          using s ti(1) T' by (auto simp: table_ok_def ran_def)
        show "w_table ?w i \<noteq> None \<Longrightarrow> i \<in> w_stable ?w" using s ti(1) i(1) p(3) by simp
        show "C i = None \<or> C i = table_view (w_table ?w) i" using s ti(2) by simp
        show "i \<in> w_seen ?w \<Longrightarrow> C i = table_view (w_table ?w) i" using s ti(2) by simp
      qed
    qed
    show "build_inv P ?w C"
      by (rule build_invI [where L = L and ph = ph]) (use B fresh' scan' in simp_all)
  qed (use I in simp_all)
qed

lemma reload_inv:
  assumes inv: "svc_inv D P w" and T: "table_ok P T" and sub: "w_subscribed w"
  shows "svc_inv D P (commit Reload T w)"
proof -
  from inv obtain C where IW: "svc_with D P w C" unfolding svc_inv_with ..
  note I = svc_withD [OF IW]
  have F: "feed_inv P (commit Reload T w)" using I(1) T sub by (auto simp: feed_inv_def after_snoc fresh_def)
  show ?thesis
  proof (rule svc_invI [OF F])
    show "represents D P (sv_index (w_svc (commit Reload T w))) C" using I(5) by simp
    assume "sv_state (w_svc (commit Reload T w)) = SvcBuilding"
    then obtain L ph where BW: "build_with P w C L ph" using I(9) by (auto simp: build_inv_with)
    note B = build_withD [OF BW]
    have "scan_ok P (commit Reload T w) evs C" if "ph = Scanning n" for n evs
      using B(10) [OF that] T sub by (auto simp: scan_ok_def table_ok_def ran_def)
    then show "build_inv P (commit Reload T w) C"
      by (intro build_invI [where L = L and ph = ph]) (use B sub in simp_all)
  qed (use I sub in simp_all)
qed

lemma deliver_inv:
  assumes inv: "svc_inv D P w" and Q: "w_queue w = ev # q"
  shows "svc_inv D P (w\<lparr>w_queue := q, w_svc := feed_consume D (feed_of ev) (w_svc w)\<rparr>)"
proof -
  from inv obtain C where IW: "svc_with D P w C" unfolding svc_inv_with ..
  note I = svc_withD [OF IW]
  have sub: "w_subscribed w" using I(3) Q by auto
  have fq: "fresh (pend (after q)) (w_table w)"
  proof (cases "Reload \<in> set (ev # q)")
    case True
    then show ?thesis using I(1) Q by (simp add: feed_inv_def)
  next
    case False
    then have "after q = q" by simp
    moreover have "fresh (pend1 ev @ pend q) (w_table w)" using I(1) Q False by (simp add: feed_inv_def)
    ultimately show ?thesis by (auto simp: fresh_def final_append)
  qed
  define w1 where "w1 = w\<lparr>w_queue := q\<rparr>"
  show ?thesis
  proof (cases "ev = Reload")
    case True
    have "feed_consume D (feed_of ev) (w_svc w) = (if sv_state (w_svc w) = SvcDisabled then w_svc w
        else markBm25IndexStale (''unhandled feed event type '' @ ''reload'') (w_svc w))"
      by (simp add: True feed_consume_def markBm25IndexStale_def)
    moreover have "svc_inv D P (w\<lparr>w_queue := q, w_svc := markBm25IndexStale r (w_svc w)\<rparr>)"
      if "sv_state (w_svc w) \<noteq> SvcDisabled" for r
      using that I sub fq Q
      by (intro svc_invI [where C = C]) (auto simp: markBm25IndexStale_def feed_inv_def intro: le_SucI)
    moreover have "svc_inv D P (w\<lparr>w_queue := q\<rparr>)" if "sv_state (w_svc w) = SvcDisabled"
      using that I sub fq Q by (intro svc_invI [where C = C]) (auto simp: feed_inv_def)
    moreover have "w\<lparr>w_queue := q, w_svc := w_svc w\<rparr> = w\<lparr>w_queue := q\<rparr>" by simp
    ultimately show ?thesis by (auto split: if_splits)
  next
    case False
    have ok: "event_ok P ev" using I(1) Q False by (auto simp: feed_inv_def)
    obtain p where p: "pend1 ev = [p]" "ev_ok P p" "feed_consume D (feed_of ev) = record_event D p"
      using event_pending [OF ok] by blast
    have F: "feed_inv P (w\<lparr>w_queue := q, w_svc := s\<rparr>)" for s using I(1) Q fq by (simp add: feed_inv_def)
    consider "sv_state (w_svc w) = SvcEmpty \<or> sv_state (w_svc w) = SvcDisabled" | "sv_state (w_svc w) = SvcReady" | "sv_state (w_svc w) = SvcBuilding"
      by (cases "sv_state (w_svc w)") auto
    then show ?thesis
    proof cases
      case 1
      then have "record_event D p (w_svc w) = w_svc w" by (auto simp: record_event_def)
      then show ?thesis unfolding p(3) using 1 I sub by (intro svc_invI [where C = C, OF F]) auto
    next
      case 2
      have r: "record_event D p (w_svc w) = (w_svc w)\<lparr>sv_index := sv_index (apply_event D p (w_svc w))\<rparr>"
        using 2 apply_event_frame(1) [of D p "w_svc w"] by (simp add: record_event_def)
      have S: "settled_ids (pend q) (w_table w) (C(ev_key p := ev_val p))" if "Reload \<notin> set q"
      proof -
        have s: "settled_ids (p # pend q) (w_table w) C" using I(8) [OF 2] that Q False p(1) by simp
        have f: "fresh (p # pend q) (w_table w)" using I(1) Q False that p(1) by (simp add: feed_inv_def)
        show ?thesis
          unfolding settled_ids_def
        proof (intro allI impI)
          fix i assume n: "final (pend q) i = None"
          show "(C(ev_key p := ev_val p)) i = table_view (w_table w) i"
          proof (cases "i = ev_key p")
            case True
            then have "final (p # pend q) i = Some (ev_val p)" using n by (simp add: final_Cons)
            then show ?thesis using f True by (simp add: fresh_def)
          next
            case False
            then have "final (p # pend q) i = None" using n by (simp add: final_Cons)
            then show ?thesis using s False by (simp add: settled_ids_def)
          qed
        qed
      qed
      show ?thesis unfolding p(3) r
        by (rule svc_invI [OF F, where C = "C(ev_key p := ev_val p)"])
           (use 2 I sub S represents_apply [OF I(5) p(2)] in \<open>simp_all del: fun_upd_apply\<close>)
    next
      case 3
      then obtain L ph where BW: "build_with P w C L ph" using I(9) by (auto simp: build_inv_with)
      note B = build_withD [OF BW]
      have r: "record_event D p (w_svc w) = (w_svc w)\<lparr>sv_pending := Some (L @ [p])\<rparr>"
        using 3 B(1) by (simp add: record_event_def)
      have e: "(L @ [p]) @ pend q = L @ pend (w_queue w)" using Q p(1) by simp
      have m: "Reload \<in> set (w_queue w) \<longleftrightarrow> Reload \<in> set q" using Q False by simp
      have sc: "scan_ok P (w\<lparr>w_queue := q, w_svc := s\<rparr>) ((L @ [p]) @ pend q) C" if "ph = Scanning n" for n s
        using B(10) [OF that] unfolding e scan_ok_def by (simp add: m)
      have fr: "fresh ((L @ [p]) @ pend q) (w_table w)" if "Reload \<notin> set q" unfolding e using B(8) that m by simp
      have "build_inv P (w\<lparr>w_queue := q, w_svc := (w_svc w)\<lparr>sv_pending := Some (L @ [p])\<rparr>\<rparr>) C"
        by (rule build_invI [where L = "L @ [p]" and ph = ph]) (use B p(2) sc fr sub in \<open>simp_all del: append_assoc\<close>)
      then show ?thesis unfolding p(3) r
        by (intro svc_invI [where C = C, OF F]) (use 3 I sub in auto)
    qed
  qed
qed

lemma query_inv:
  assumes inv: "svc_inv D P w"
  shows "svc_inv D P (query_world env now w)"
proof -
  from inv obtain C where IW: "svc_with D P w C" unfolding svc_inv_with ..
  note I = svc_withD [OF IW]
  let ?s = "w_svc w"
  consider (same) "query_world env now w = w" | (starts) "sv_state ?s = SvcEmpty"
    "ensureReady env now ?s = (Await (sv_buildSerial ?s + 1), (snd (build_begin now ?s))\<lparr>sv_buildPromise := Some (sv_buildSerial ?s + 1)\<rparr>)"
  proof (cases "sv_state ?s")
    case SvcBuilding
    then obtain L ph where BW: "build_with P w C L ph" using I(9) by (auto simp: build_inv_with)
    note B = build_withD [OF BW]
    have "query_world env now w = w" using SvcBuilding B(3,4) by (simp add: query_world_def ensureReady_def)
    then show ?thesis by (rule same)
  next
    case SvcEmpty
    then show ?thesis
    proof (cases "bm25IndexEnabled env")
      case True
      then have "ensureReady env now ?s = (Await (sv_buildSerial ?s + 1), (snd (build_begin now ?s))\<lparr>sv_buildPromise := Some (sv_buildSerial ?s + 1)\<rparr>)"
        using SvcEmpty I(6) by (simp add: ensureReady_def build_begin_def Let_def)
      then show ?thesis using SvcEmpty starts by blast
    qed (rule same, simp add: query_world_def ensureReady_def)
  qed (rule same, simp add: query_world_def ensureReady_def)+
  then show ?thesis
  proof cases
    case same
    then show ?thesis using inv by simp
  next
    case starts
    let ?n = "sv_buildSerial ?s + 1"
    have new: "w_runs w ?n = None" using I(2) by (cases "w_runs w ?n") fastforce+
    have q: "query_world env now w = w\<lparr>w_svc := (snd (build_begin now ?s))\<lparr>sv_buildPromise := Some ?n\<rparr>,
        w_runs := (w_runs w)(?n \<mapsto> AwaitFeed), w_starter := (if sv_feedStarted ?s then w_starter w else Some ?n)\<rparr>"
      using new unfolding query_world_def starts(2) by simp
    have st: "w_subscribed w \<or> \<not> sv_feedStarted ?s" using I(4) starts(1) by auto
    have F: "feed_inv P (query_world env now w)" using I(1) unfolding q by (simp add: feed_inv_def)
    have fr: "fresh (pend (w_queue w)) (w_table w)" if "Reload \<notin> set (w_queue w)" using I(1) that by (simp add: feed_inv_def)
    have "build_inv P (query_world env now w) (\<lambda>_. None)"
      unfolding q by (rule build_invI [where L = "[]" and ph = AwaitFeed]) (use st fr in \<open>auto simp: build_begin_def Let_def\<close>)
    then show ?thesis
      by (intro svc_invI [OF F, where C = "\<lambda>_. None"])
         (use I(2,3) represents_new in \<open>auto simp: q build_begin_def Let_def intro: le_SucI split: if_splits\<close>)
  qed
qed

lemma ranked_inv:
  assumes inv: "svc_inv D P w"
  shows "svc_inv D P (w\<lparr>w_svc := (w_svc w)\<lparr>sv_index := sweep now (sv_index (w_svc w))\<rparr>\<rparr>)"
proof -
  from inv obtain C where IW: "svc_with D P w C" unfolding svc_inv_with ..
  note I = svc_withD [OF IW]
  show ?thesis
  proof (rule svc_invI [where C = C])
    assume "sv_state (w_svc (w\<lparr>w_svc := (w_svc w)\<lparr>sv_index := sweep now (sv_index (w_svc w))\<rparr>\<rparr>)) = SvcBuilding"
    then have "build_inv P w C" using I(9) by simp
    then show "build_inv P (w\<lparr>w_svc := (w_svc w)\<lparr>sv_index := sweep now (sv_index (w_svc w))\<rparr>\<rparr>) C"
      unfolding build_inv_def scan_ok_svc by simp
  qed (use I represents_sweep in \<open>auto simp: feed_inv_def\<close>)
qed

lemma settled_inv:
  assumes inv: "svc_inv D P w" and r: "w_runs w n = Some (Returned b)"
  shows "svc_inv D P (w\<lparr>w_svc := build_settled n (w_svc w)\<rparr>)"
proof (cases "sv_buildPromise (w_svc w) = Some n")
  case True
  from inv obtain C where IW: "svc_with D P w C" unfolding svc_inv_with ..
  note I = svc_withD [OF IW]
  have nb: "sv_state (w_svc w) \<noteq> SvcBuilding"
  proof
    assume "sv_state (w_svc w) = SvcBuilding"
    then obtain L ph where BW: "build_with P w C L ph" using I(9) by (auto simp: build_inv_with)
    note B = build_withD [OF BW]
    show False using B(3,4,5) True r by auto
  qed
  then show ?thesis
    by (intro svc_invI [where C = C]) (use I True in \<open>auto simp: feed_inv_def build_settled_def\<close>)
qed (use inv in \<open>simp add: build_settled_def\<close>)

lemma resume_other:
  assumes "\<not> build_live n s" "\<forall>msg. inp \<noteq> Failed msg"
  shows "snd (build_resume D n now inp ph s) = s"
    "fst (build_resume D n now inp ph s) = ph \<or> (\<exists>b. fst (build_resume D n now inp ph s) = Returned b)"
  using assms by (auto simp: build_resume_def split: build_phase.split resume.split)

lemma resume_failed:
  "build_resume D n now (Failed msg) ph s =
     (case ph of Returned b \<Rightarrow> (Returned b, s)
      | _ \<Rightarrow> (Returned False, if n = sv_buildSerial s then disable now (''build failed: '' @ msg) s else s))"
  by (auto simp: build_resume_def split: build_phase.split)

lemma frame_run:
  assumes inv: "svc_inv D P w" and n: "n \<le> sv_buildSerial (w_svc w)"
    and ph: "sv_state (w_svc w) = SvcBuilding \<Longrightarrow> n \<noteq> sv_buildSerial (w_svc w)"
    and sub: "w_subscribed w \<Longrightarrow> b"
  shows "svc_inv D P (w\<lparr>w_subscribed := b, w_runs := (w_runs w)(n \<mapsto> ph')\<rparr>)" (is "svc_inv D P ?w")
proof -
  from inv obtain C where IW: "svc_with D P w C" unfolding svc_inv_with ..
  note I = svc_withD [OF IW]
  show ?thesis
  proof (rule svc_invI [where C = C])
    assume st: "sv_state (w_svc ?w) = SvcBuilding"
    then have "build_inv P w C" "n \<noteq> sv_buildSerial (w_svc w)" using I(9) ph by simp_all
    then show "build_inv P ?w C" using sub unfolding build_inv_def scan_ok_def by auto
  qed (use I n sub in \<open>auto simp: feed_inv_def split: if_splits\<close>)
qed

lemma finish_inv:
  assumes F: "feed_inv P w" and rn: "\<And>m ph. w_runs w m = Some ph \<Longrightarrow> m \<le> sv_buildSerial (w_svc w)"
    and sub: "w_subscribed w" and C: "represents D P (sv_index s) C"
    and L: "sv_pending s = Some L" "\<forall>ev \<in> set L. ev_ok P ev"
    and fr: "Reload \<notin> set (w_queue w) \<Longrightarrow> fresh (L @ pend (w_queue w)) (w_table w)"
    and sc: "scan_ok P w (L @ pend (w_queue w)) C" and all: "w_stable w \<subseteq> w_seen w"
    and w: "w_svc w = build_finish D now s"
  shows "svc_inv D P w"
proof -
  let ?C = "\<lambda>i. case final L i of None \<Rightarrow> C i | Some v \<Rightarrow> v"
  define s0 where "s0 = s\<lparr>sv_pending := None, sv_state := SvcReady, sv_finishedAt := Some now,
           sv_buildDurationMs := Some (now - (case sv_startedAt s of None \<Rightarrow> now | Some t \<Rightarrow> t))\<rparr>"
  have f: "build_finish D now s = fold (apply_event D) L s0" using L(1) by (simp add: build_finish_def s0_def)
  have st: "sv_state (w_svc w) = SvcReady"
    unfolding w f by (subst apply_event_frame(2)) (simp add: s0_def)
  have rep: "represents D P (sv_index (w_svc w)) ?C"
    unfolding w f by (rule represents_fold [OF _ L(2)]) (use C in \<open>simp add: s0_def\<close>)
  show ?thesis
  proof (rule svc_invI [OF F rn _ _ rep])
    assume q: "Reload \<notin> set (w_queue w)"
    show "settled_ids (pend (w_queue w)) (w_table w) ?C"
      unfolding settled_ids_def
    proof (intro allI impI)
      fix i assume n: "final (pend (w_queue w)) i = None"
      show "?C i = table_view (w_table w) i"
      proof (cases "final L i")
        case (Some v)
        then have "final (L @ pend (w_queue w)) i = Some v" using n by (simp add: final_append)
        then show ?thesis using fr [OF q] Some by (simp add: fresh_def)
      next
        case None
        then have "final (L @ pend (w_queue w)) i = None" using n by (simp add: final_append)
        then have s: "w_table w i \<noteq> None \<longrightarrow> i \<in> w_stable w" "C i = None \<or> C i = table_view (w_table w) i"
          "i \<in> w_seen w \<longrightarrow> C i = table_view (w_table w) i"
          using sc q unfolding scan_ok_def by blast+
        show ?thesis
        proof (cases "w_table w i")
          case None
          then show ?thesis using s(2) \<open>final L i = None\<close> by (simp add: table_view_def)
        next
          case (Some ob)
          then show ?thesis using s(1,3) all \<open>final L i = None\<close> by auto
        qed
      qed
    qed
  qed (use sub st in simp_all)
qed

lemma resume_inv:
  assumes inv: "svc_inv D P w" and run: "w_runs w n = Some ph" and inp: "scan_input w n inp"
  shows "svc_inv D P (resume_world D n now inp ph w)"
proof -
  from inv obtain C where IW: "svc_with D P w C" unfolding svc_inv_with ..
  note I = svc_withD [OF IW]
  let ?s = "w_svc w"
  have nle: "n \<le> sv_buildSerial ?s" by (rule I(2) [OF run])
  consider (failed) msg where "inp = Failed msg" | (dead) "\<not> build_live n ?s" "\<forall>msg. inp \<noteq> Failed msg"
    | (live) "build_live n ?s" "\<forall>msg. inp \<noteq> Failed msg" by blast
  then show ?thesis
  proof cases
    case failed
    have rs: "resume_world D n now inp ph w = w\<lparr>w_svc := snd (build_resume D n now inp ph ?s),
        w_runs := (w_runs w)(n \<mapsto> fst (build_resume D n now inp ph ?s))\<rparr>"
      unfolding failed resume_failed resume_world_def by (auto simp: Let_def split: build_phase.split)
    show ?thesis
    proof (cases "(\<forall>b. ph \<noteq> Returned b) \<and> n = sv_buildSerial ?s")
      case True
      then have r: "build_resume D n now inp ph ?s = (Returned False, disable now (''build failed: '' @ msg) ?s)"
        unfolding failed resume_failed by (cases ph) auto
      have d: "sv_state (disable now reason s) = SvcDisabled" "sv_buildSerial (disable now reason s) = sv_buildSerial s"
        "sv_index (disable now reason s) = clear (sv_index s)" for reason s
        by (simp_all add: disable_def stampFinished_def)
      show ?thesis unfolding rs r
        by (rule svc_invI [where C = "\<lambda>_. None"])
           (use I nle represents_new in \<open>auto simp: feed_inv_def d split: if_splits\<close>)
    next
      case False
      then obtain b where r: "build_resume D n now inp ph ?s = (Returned b, ?s)"
        unfolding failed resume_failed by (cases ph) auto
      have nb: "sv_state ?s = SvcBuilding \<Longrightarrow> n \<noteq> sv_buildSerial ?s"
      proof
        assume st: "sv_state ?s = SvcBuilding" and e: "n = sv_buildSerial ?s"
        then obtain L ph' where BW: "build_with P w C L ph'" using I(9) by (auto simp: build_inv_with)
        show False using build_withD(4,5) [OF BW] False run e by auto
      qed
      have "resume_world D n now inp ph w = w\<lparr>w_subscribed := w_subscribed w, w_runs := (w_runs w)(n \<mapsto> Returned b)\<rparr>"
        by (simp add: rs r)
      then show ?thesis using frame_run [OF inv nle nb, of "w_subscribed w" "Returned b"] by simp
    qed
  next
    case dead
    note o = resume_other [OF dead, of D now ph]
    have nb: "sv_state ?s = SvcBuilding \<Longrightarrow> n \<noteq> sv_buildSerial ?s" using dead(1) by (auto simp: build_live_def)
    obtain ph' where r: "build_resume D n now inp ph ?s = (ph', ?s)" "ph' = ph \<or> (\<exists>b. ph' = Returned b)"
      using o by (cases "build_resume D n now inp ph ?s") auto
    have "resume_world D n now inp ph w = w\<lparr>w_subscribed := w_subscribed w \<or> (ph = AwaitFeed \<and> inp = Resumed \<and> w_starter w = Some n),
        w_runs := (w_runs w)(n \<mapsto> ph')\<rparr>"
      using r(2) dead(1) unfolding resume_world_def r(1) by (auto simp: Let_def split: build_phase.split resume.split js.split)
    then show ?thesis
      using frame_run [OF inv nle nb, of "w_subscribed w \<or> (ph = AwaitFeed \<and> inp = Resumed \<and> w_starter w = Some n)" ph'] by simp
  next
    case live
    then have st: "sv_state ?s = SvcBuilding" "n = sv_buildSerial ?s" by (simp_all add: build_live_def)
    then obtain L ph0 where BW: "build_with P w C L ph0" using I(9) by (auto simp: build_inv_with)
    note B = build_withD [OF BW]
    have ph0: "ph0 = ph" using B(4) run st(2) by simp
    have upd: "svc_inv D P (w\<lparr>w_svc := s', w_runs := (w_runs w)(n \<mapsto> ph'), w_subscribed := True\<rparr>)"
      if "sv_index s' = sv_index ?s" "sv_state s' = SvcBuilding" "sv_buildSerial s' = sv_buildSerial ?s" "sv_pending s' = sv_pending ?s"
        "sv_buildPromise s' = sv_buildPromise ?s" "sv_feedStarted s' = sv_feedStarted ?s" "C = (\<lambda>_. None)" "\<forall>b. ph' \<noteq> Returned b" "\<forall>k. ph' \<noteq> Scanning k"
      for s' ph'
    proof (rule svc_invI [where C = C])
      show "build_inv P (w\<lparr>w_svc := s', w_runs := (w_runs w)(n \<mapsto> ph'), w_subscribed := True\<rparr>) C"
        by (rule build_invI [where L = L and ph = ph']) (use that B st(2) in simp_all)
    qed (use that I nle in \<open>auto simp: feed_inv_def split: if_splits\<close>)
    have sub: "w_subscribed w" if "ph \<noteq> AwaitFeed" using B(7) ph0 that by simp
    have C0: "C = (\<lambda>_. None)" if "\<forall>k. ph \<noteq> Scanning k" using B(9) ph0 that by simp
    consider (await) "ph = AwaitFeed" "inp = Resumed" | (row) k r where "ph = Counting k" "inp = Row r"
      | (counted) k where "ph = Counting k" "inp = ScanEnd" | (enter) "ph = CountYield" "inp = Resumed"
      | (scan) k r where "ph = Scanning k" "inp = Row r" | (finish) k where "ph = Scanning k" "inp = ScanEnd"
      | (idle) "build_resume D n now inp ph ?s = (ph, ?s)" "ph \<noteq> AwaitFeed \<or> inp \<noteq> Resumed"
        "\<forall>k r. ph \<noteq> Scanning k \<or> inp \<noteq> Row r"
      using live(2) B(5) unfolding ph0 by (cases ph; cases inp) (auto simp: build_resume_def)
    then show ?thesis
    proof cases
      case await
      then have "resume_world D n now inp ph w = w\<lparr>w_svc := ?s, w_runs := (w_runs w)(n \<mapsto> Counting 0), w_subscribed := True\<rparr>"
        using B(7) live(1) st(2) by (auto simp: resume_world_def build_resume_def Let_def)
      then show ?thesis using upd [of ?s "Counting 0"] st(1) C0 await by simp
    next
      case row
      then have "resume_world D n now inp ph w = w\<lparr>w_svc := ?s, w_runs := (w_runs w)(n \<mapsto> Counting (if has_string_id r then k + 1 else k)), w_subscribed := True\<rparr>"
        using sub live(1) by (simp add: resume_world_def build_resume_def Let_def)
      then show ?thesis using upd [of ?s "Counting (if has_string_id r then k + 1 else k)"] st(1) C0 row by simp
    next
      case counted
      then have "resume_world D n now inp ph w = w\<lparr>w_svc := ?s\<lparr>sv_totalCount := k\<rparr>, w_runs := (w_runs w)(n \<mapsto> CountYield), w_subscribed := True\<rparr>"
        using sub live(1) by (simp add: resume_world_def build_resume_def Let_def)
      then show ?thesis using upd [of "?s\<lparr>sv_totalCount := k\<rparr>" CountYield] st(1) C0 counted by simp
    next
      case enter
      let ?w = "w\<lparr>w_runs := (w_runs w)(n \<mapsto> Scanning 0), w_rows := ran (w_table w), w_stable := dom (w_table w), w_seen := {}\<rparr>"
      have e: "resume_world D n now inp ph w = ?w"
        using enter sub live(1) by (simp add: resume_world_def build_resume_def Let_def)
      have T: "table_ok P (w_table w)" using I(1) by (simp add: feed_inv_def)
      have C1: "C = (\<lambda>_. None)" using C0 enter by simp
      then have sc: "scan_ok P ?w (L @ pend (w_queue w)) C"
        using T by (auto simp: scan_ok_def table_ok_def ran_def)
      have "build_inv P ?w C"
        by (rule build_invI [where L = L and ph = "Scanning 0"]) (use B(1-8) C1 st(2) sc sub enter in simp_all)
      then show ?thesis unfolding e
        by (intro svc_invI [where C = C]) (use I nle st sub enter in \<open>auto simp: feed_inv_def split: if_splits\<close>)
    next
      case scan
      have sc: "scan_ok P w (L @ pend (w_queue w)) C" using B(10) ph0 scan by simp
      obtain ob where ob: "r = Obj ob" "ob \<in> w_rows w" using inp live(1) scan(2) by (auto simp: scan_input_def)
      then have rok: "row_ok P ob" using sc by (simp add: scan_ok_def)
      obtain q where q: "project (Obj ob) = Some q" "id_of q = id_of ob" "meta_of q = meta_of ob" using project_row [OF rok] by blast
      let ?s' = "?s\<lparr>sv_index := upsert D q (sv_index ?s), sv_builtCount := k + 1\<rparr>"
      let ?w = "w\<lparr>w_svc := ?s', w_runs := (w_runs w)(n \<mapsto> Scanning (k + 1)), w_seen := insert (id_of ob) (w_seen w)\<rparr>"
      let ?C = "C(id_of ob \<mapsto> q)"
      have e: "resume_world D n now inp ph w = ?w"
        using scan ob(1) q(1) sub live(1) by (simp add: resume_world_def build_resume_def Let_def)
      have rep: "represents D P (upsert D q (sv_index ?s)) ?C"
        using represents_step [OF I(5), of "Upsert q"] rok q(2,3) by (simp add: row_ok_def)
      have sc': "scan_ok P ?w (L @ pend (w_queue w)) ?C"
        unfolding scan_ok_def
      proof (intro conjI allI impI)
        show "\<forall>ob\<in>w_rows ?w. row_ok P ob" using sc by (simp add: scan_ok_def)
        fix i assume a: "Reload \<notin> set (w_queue ?w) \<and> final (L @ pend (w_queue w)) i = None"
        then have s: "\<forall>ob \<in> w_rows w. id_of ob = i \<longrightarrow> w_table w i = Some ob" "w_table w i \<noteq> None \<longrightarrow> i \<in> w_stable w"
          "C i = None \<or> C i = table_view (w_table w) i" "i \<in> w_seen w \<longrightarrow> C i = table_view (w_table w) i"
          using sc unfolding scan_ok_def by auto
        show "\<forall>ob\<in>w_rows ?w. id_of ob = i \<longrightarrow> w_table ?w i = Some ob" "w_table ?w i \<noteq> None \<Longrightarrow> i \<in> w_stable ?w"
          using s(1,2) by simp_all
        have self: "?C i = table_view (w_table w) i" if "i = id_of ob"
          using s(1) ob(2) that q(1) by (simp add: table_view_def)
        show "?C i = None \<or> ?C i = table_view (w_table ?w) i" using self s(3) by auto
        show "i \<in> w_seen ?w \<Longrightarrow> ?C i = table_view (w_table ?w) i" using self s(4) by auto
      qed
      have "build_inv P ?w ?C"
        by (rule build_invI [where L = L and ph = "Scanning (k + 1)"]) (use B st(2) sc' sub scan in \<open>simp_all del: fun_upd_apply\<close>, simp add: st(2))
      then show ?thesis unfolding e
        by (intro svc_invI [where C = ?C]) (use I nle st sub scan rep in \<open>auto simp: feed_inv_def split: if_splits\<close>)
    next
      case finish
      have sc: "scan_ok P w (L @ pend (w_queue w)) C" using B(10) ph0 finish by simp
      have all: "w_stable w \<subseteq> w_seen w" using inp live(1) finish(2) by (simp add: scan_input_def)
      let ?w = "w\<lparr>w_svc := build_finish D now ?s, w_runs := (w_runs w)(n \<mapsto> Returned True)\<rparr>"
      have e: "resume_world D n now inp ph w = ?w"
        using finish sub live(1) by (simp add: resume_world_def build_resume_def Let_def)
      have ser: "sv_buildSerial (build_finish D now ?s) = sv_buildSerial ?s"
        unfolding build_finish_def Let_def by (subst apply_event_frame(2)) simp
      show ?thesis unfolding e
        by (rule finish_inv [where s = ?s and L = L and C = C])
           (use I B sc all sub finish nle in \<open>auto simp: feed_inv_def scan_ok_def ser split: if_splits\<close>)
    next
      case idle
      have "resume_world D n now inp ph w = w"
        using idle run unfolding resume_world_def idle(1)
        by (auto simp: Let_def map_upd_triv split: build_phase.split resume.split js.split)
      then show ?thesis using inv by simp
    qed
  qed
qed

lemma step_inv_svc:
  assumes "svc_inv D P w" "svc_step D P w w'"
  shows "svc_inv D P w'"
  using assms(2)
proof cases
  case (written ev)
  then show ?thesis using commit_inv [OF assms(1)] by simp
next
  case (written_noted ev w1)
  have one: "svc_inv D P (w1\<lparr>w_svc := note_event D ev (w_svc w1)\<rparr>)"
    if "w_subscribed w \<or> event_ids ev \<inter> buffered_ids (w_svc w) = {}"
  proof -
    have i: "svc_inv D P w1" using commit_inv [OF assms(1) written_noted(2) that] written_noted(3) by simp
    obtain p where p: "ev_ok P p" "event_ids ev = {ev_key p}" "ev_val p = table_view (table_after ev (w_table w)) (ev_key p)"
      "note_event D ev = record_event D p" using event_pending [OF written_noted(2)] by blast
    show ?thesis unfolding p(4) by (rule record_inv [OF i p(1)]) (use p(3) written_noted(3) in simp)
  qed
  show ?thesis
  proof (cases "w_subscribed w \<or> event_ids ev \<inter> buffered_ids (w_svc w) = {}")
    case True
    then show ?thesis using one written_noted(1) by simp
  next
    case False
    \<comment> \<open>before the subscription: the buffered event of the id is followed by the one of this write\<close>
    from assms(1) obtain C where IW: "svc_with D P w C" unfolding svc_inv_with ..
    note I = svc_withD [OF IW]
    have buf: "sv_pending (w_svc w) \<noteq> None" using False by (auto simp: buffered_ids_def)
    obtain p where p: "pend1 ev = [p]" "ev_ok P p" "event_ids ev = {ev_key p}"
      "ev_val p = table_view (table_after ev (w_table w)) (ev_key p)" "note_event D ev = record_event D p"
      using event_pending [OF written_noted(2)] by blast
    have q: "w_queue w1 = []" "w_svc w1 = w_svc w" "w_subscribed w1 = w_subscribed w" using False I(3) written_noted(3) by simp_all
    have T: "table_ok P (w_table w1)" using I(1) written_noted(2,3) by (simp add: feed_inv_def table_after_ok)
    then have F: "feed_inv P (w1\<lparr>w_svc := s\<rparr>)" for s using q by (simp add: feed_inv_def fresh_def)
    show ?thesis
    proof (cases "sv_state (w_svc w) = SvcBuilding")
      case True
      then obtain L ph where BW: "build_with P w C L ph" using I(9) by (auto simp: build_inv_with)
      note B = build_withD [OF BW]
      have r: "record_event D p (w_svc w) = (w_svc w)\<lparr>sv_pending := Some (L @ [p])\<rparr>"
        using True B(1) by (simp add: record_event_def)
      have a: "ph = AwaitFeed" using B(7) False by auto
      have oldL: "fresh L (w_table w)" using B(8) I(3) False by simp
      have "fresh (L @ [p]) (w_table w1)"
        using oldL p(4) table_after_view [OF written_noted(2) p(1,3,4)] written_noted(3) by (auto simp: fresh_def)
      then have "build_inv P (w1\<lparr>w_svc := record_event D p (w_svc w)\<rparr>) C"
        unfolding r by (intro build_invI [where L = "L @ [p]" and ph = ph]) (use B p(2) a q written_noted(3) in auto)
      then show ?thesis unfolding written_noted(1) p(5) q(2) 
        by (intro svc_invI [OF F, where C = C]) (use I True q r written_noted(3) in auto)
    next
      case nb: False
      have "record_event D p (w_svc w) = w_svc w" using nb I(4) False by (auto simp: record_event_def)
      then show ?thesis unfolding written_noted(1) p(5) q(2)
        by (intro svc_invI [OF F, where C = C]) (use I nb q False written_noted(3) in auto)
    qed
  qed
next
  case (noted ev)
  obtain p where p: "ev_ok P p" "event_ids ev = {ev_key p}" "ev_val p = table_view (table_after ev (w_table w)) (ev_key p)"
    "note_event D ev = record_event D p" using event_pending [OF noted(2)] by blast
  have Q: "\<forall>q \<in> set (w_queue w). q = Reload \<or> event_ok P q" using assms(1) by (simp add: svc_inv_def feed_inv_def)
  have "ev_val p = table_view (w_table w) (ev_key p) \<or> final (pend (w_queue w)) (ev_key p) \<noteq> None"
    using noted(3) p(2,3) pend_keys [OF Q] unfolding note_timely_def by (auto simp: table_view_def)
  then show ?thesis unfolding noted(1) p(4) by (rule record_inv [OF assms(1) p(1)])
next
  case (reloaded T)
  then show ?thesis using reload_inv [OF assms(1)] by simp
next
  case (delivered ev q)
  then show ?thesis using deliver_inv [OF assms(1)] by simp
next
  case (feed_ended now err)
  then show ?thesis using disable_inv [OF assms(1)] by (simp add: feed_end_def split: option.split)
next
  case (queried env now)
  then show ?thesis using query_inv [OF assms(1)] by simp
next
  case (ranked now)
  then show ?thesis using ranked_inv [OF assms(1)] by simp
next
  case (resumed n ph inp now)
  then show ?thesis using resume_inv [OF assms(1)] by simp
next
  case (settled n b)
  then show ?thesis using settled_inv [OF assms(1)] by simp
qed

lemma reach_inv: "svc_reach D P w \<Longrightarrow> svc_inv D P w"
proof (induction rule: svc_reach.induct)
  case (start T)
  have "represents D P new_index (\<lambda>_. None)" using represents_new [of D P new_index] by (simp add: clear_def)
  then show ?case using start by (auto simp: svc_inv_def svc_start_def new_service_def feed_inv_def fresh_def)
next
  case (step w w')
  then show ?case using step_inv_svc by blast
qed

section \<open>What the service guarantees\<close>

text \<open>C25. The lexical index follows the Memory table as long as no write hook runs late. Over the interleavings of the steps of
  \<open>svc_step\<close> (committed writes and deletions, reloads once the feed is subscribed, deliveries in commit order, write hooks, queries,
  sweeps and any number of builds, aborted, failed or restarted), an index that answers as ready and has no feed event outstanding
  holds exactly the current rows, and a build that is running never lost its event buffer. The steps leave out a hook that runs
  after the feed delivered a newer write of its id (\<open>note_timely\<close>), where the claim fails (\<open>late_hook_restores_an_old_row\<close>), and a write of an
  id buffered by a hook before the feed is subscribed that has no hook of its own in the same step; they take the scan of a build to
  answer rows that were stored since it began and to reach every row that no write touched meanwhile.\<close>

theorem ready_index_is_the_table:
  assumes "svc_reach D P w"
  shows "(sv_state (w_svc w) = SvcReady \<and> w_queue w = [] \<longrightarrow>
       (\<exists>ops. sv_index (w_svc w) = index_run D ops \<and> corpus_run ops = table_view (w_table w))) \<and>
     (sv_state (w_svc w) = SvcBuilding \<longrightarrow> sv_pending (w_svc w) \<noteq> None)"
proof -
  from reach_inv [OF assms] obtain C where IW: "svc_with D P w C" unfolding svc_inv_with ..
  note I = svc_withD [OF IW]
  have "C = table_view (w_table w)" if "sv_state (w_svc w) = SvcReady" "w_queue w = []"
    using I(8) [OF that(1)] that(2) by (simp add: settled_ids_def fun_eq_iff)
  then show ?thesis using I(5,9) unfolding represents_def build_inv_with by (auto dest: build_withD)
qed

text \<open>A lexical answer is a fact about the table: when a query is answered by a ready index whose feed is
  drained, the ids are those of the scan over the table's current rows, in the same order, under the conditions of \<open>index_equals_scan\<close>.\<close>

theorem lexical_answer_is_table_scan:
  assumes "svc_reach D regular_meta w" "sv_state (w_svc w) = SvcReady" "w_queue w = []"
    and "enumerates rows (table_view (w_table w))" "bx_sweptTo (sv_index (w_svc w)) \<le> now"
    and "regular_conditions cs" "owner_predicate al" "stored_predicate al"
    and "\<And>r. r \<in> set rows \<Longrightarrow> expiryOf D r \<noteq> Some now"
    and "fst (indexedBm25Ids mlog D cs f al now limit q True (w_svc w)) = Some ids"
  shows "ids = scan_leg mlog D cs f (allows al) now limit q rows"
proof -
  from reach_inv [OF assms(1)] obtain C where IW: "svc_with D regular_meta w C" unfolding svc_inv_with ..
  note I = svc_withD [OF IW]
  have "C = table_view (w_table w)" using I(8) [OF assms(2)] assms(3) by (simp add: settled_ids_def fun_eq_iff)
  then obtain ops where ops: "sv_index (w_svc w) = index_run D ops" "table_view (w_table w) = corpus_run ops"
    "\<And>r. Upsert r \<in> set ops \<Longrightarrow> regular_meta (meta_of r)"
    using I(5) by (auto simp: represents_def)
  have "idx_inv D regular_meta (table_view (w_table w)) (sv_index (w_svc w))"
    unfolding ops(1,2) by (rule run_inv) (rule ops(3))
  then show ?thesis
    by (rule rank_scan [OF _ assms(4,6-8,5,9)]) (use assms(10) in \<open>simp_all add: indexedBm25Ids_def split: prod.splits\<close>)
qed

lemma indexed_fst:
  "fst (indexedBm25Ids mlog D cs f al now limit q True s) = fst (rank mlog D cs f al now limit q (sv_index s))"
  by (simp add: indexedBm25Ids_def split: prod.split)

section \<open>A run of the service\<close>

definition demo_env :: "string \<Rightarrow> string option" where
  "demo_env = (\<lambda>_. None)"

lemma demo_enabled: "bm25IndexEnabled demo_env"
  unfolding bm25IndexEnabled_def demo_env_def by code_simp

definition demo_table :: memory_table where
  "demo_table = (\<lambda>_. None)(''m1'' \<mapsto> demo_row ''m1'' Null)"

definition demo_projected :: jobj where
  "demo_projected = [(''id'', Str ''m1''), (''content'', Str ''red fox''), (''agentId'', Str ''x''),
     (''tags'', Arr [Str ''a'', Str ''b'']), (''expiresAt'', Null)]"

lemma demo_project: "project (Obj (demo_row ''m1'' Null)) = Some demo_projected"
  by (simp add: project_def demo_row_def demo_projected_def INDEX_SELECT_def SUPPORTED_SCOPE_ATTRS_def TEMPORAL_ATTRS_def getp_def)

lemma demo_id: "id_of (demo_row ''m1'' Null) = ''m1''" "id_of demo_projected = ''m1''"
  by (simp_all add: id_of_def demo_row_def demo_projected_def getp_def)

lemma demo_row_ok: "row_ok regular_meta (demo_row ''m1'' Null)"
  unfolding row_ok_def using demo_regular by (simp add: demo_id) (simp add: demo_row_def getp_def)

lemma demo_table_view: "table_view demo_table = (\<lambda>_. None)(''m1'' \<mapsto> demo_projected)"
  by (auto simp: table_view_def demo_table_def demo_project fun_eq_iff)

definition demo_resume :: "resume \<Rightarrow> svc_world \<Rightarrow> svc_world" where
  "demo_resume inp w = resume_world demo_dates 1 2 inp (the (w_runs w 1)) w"

definition demo_world :: svc_world where
  "demo_world = demo_resume ScanEnd (demo_resume (Row (Obj (demo_row ''m1'' Null))) (demo_resume Resumed (demo_resume ScanEnd
     (demo_resume Resumed (query_world demo_env 1 (svc_start demo_table))))))"

lemma demo_steps:
  defines "w1 \<equiv> query_world demo_env 1 (svc_start demo_table)"
  defines "w2 \<equiv> demo_resume Resumed w1"
  defines "w3 \<equiv> demo_resume ScanEnd w2"
  defines "w4 \<equiv> demo_resume Resumed w3"
  defines "w5 \<equiv> demo_resume (Row (Obj (demo_row ''m1'' Null))) w4"
  shows "svc_reach demo_dates regular_meta demo_world \<and> sv_state (w_svc demo_world) = SvcReady \<and>
    w_queue demo_world = [] \<and> w_table demo_world = demo_table \<and>
    sv_index (w_svc demo_world) = upsert demo_dates demo_projected new_index"
proof -
  let ?s1 = "(snd (build_begin 1 new_service))\<lparr>sv_buildPromise := Some 1\<rparr>"
  have e1: "ensureReady demo_env 1 new_service = (Await 1, ?s1)"
    by (simp add: ensureReady_def demo_enabled build_begin_def Let_def new_service_def)
  have s1: "?s1 = \<lparr>sv_index = new_index, sv_state = SvcBuilding, sv_buildPromise = Some 1, sv_pending = Some [],
     sv_feedStarted = True, sv_disabledReason = [], sv_builtCount = 0, sv_totalCount = 0, sv_startedAt = Some 1,
     sv_finishedAt = None, sv_buildDurationMs = None, sv_buildSerial = 1\<rparr>"
    by (simp add: build_begin_def Let_def new_service_def clear_def)
  have w1: "w1 = (svc_start demo_table)\<lparr>w_svc := ?s1, w_runs := (\<lambda>_. None)(1 \<mapsto> AwaitFeed), w_starter := Some 1\<rparr>"
    unfolding w1_def query_world_def by (simp add: svc_start_def e1) (simp add: new_service_def)
  have w2: "w2 = w1\<lparr>w_runs := (\<lambda>_. None)(1 \<mapsto> Counting 0), w_subscribed := True\<rparr>"
    unfolding w2_def demo_resume_def w1 s1 by (simp add: resume_world_def build_resume_def build_live_def s1 Let_def svc_start_def)
  have w3: "w3 = w2\<lparr>w_runs := (\<lambda>_. None)(1 \<mapsto> CountYield), w_svc := ?s1\<lparr>sv_totalCount := 0\<rparr>\<rparr>"
    unfolding w3_def demo_resume_def w2 w1 s1 by (simp add: resume_world_def build_resume_def build_live_def s1 Let_def svc_start_def)
  have w4: "w4 = w3\<lparr>w_runs := (\<lambda>_. None)(1 \<mapsto> Scanning 0), w_rows := {demo_row ''m1'' Null}, w_stable := {''m1''}\<rparr>"
    unfolding w4_def demo_resume_def w3 w2 w1 s1
    by (simp add: resume_world_def build_resume_def build_live_def s1 Let_def svc_start_def demo_table_def)
  have w5: "w5 = w4\<lparr>w_runs := (\<lambda>_. None)(1 \<mapsto> Scanning 1), w_seen := {''m1''},
      w_svc := ?s1\<lparr>sv_totalCount := 0, sv_index := upsert demo_dates demo_projected new_index, sv_builtCount := 1\<rparr>\<rparr>"
    unfolding w5_def demo_resume_def w4 w3 w2 w1 s1
    by (simp add: resume_world_def build_resume_def build_live_def s1 Let_def svc_start_def demo_project demo_id)
  have w6: "demo_world = demo_resume ScanEnd w5"
    by (simp add: demo_world_def w5_def w4_def w3_def w2_def w1_def)
  have runs: "w_runs w1 1 = Some AwaitFeed" "w_runs w2 1 = Some (Counting 0)" "w_runs w3 1 = Some CountYield"
    "w_runs w4 1 = Some (Scanning 0)" "w_runs w5 1 = Some (Scanning 1)"
    by (simp_all add: w5 w4 w3 w2 w1)
  have inp: "scan_input w1 1 Resumed" "scan_input w2 1 ScanEnd" "scan_input w3 1 Resumed"
    "scan_input w4 1 (Row (Obj (demo_row ''m1'' Null)))" "scan_input w5 1 ScanEnd"
    by (simp_all add: scan_input_def) (simp_all add: w5 w4 w3 w2 w1 svc_start_def)
  have "table_ok regular_meta demo_table" using demo_row_ok by (auto simp: table_ok_def demo_table_def demo_id split: if_splits)
  then have r0: "svc_reach demo_dates regular_meta (svc_start demo_table)" by (rule svc_reach.start)
  have go: "svc_reach demo_dates regular_meta (demo_resume i w)"
    if "svc_reach demo_dates regular_meta w" "w_runs w 1 = Some ph" "scan_input w 1 i" for w i ph
    using svc_step.resumed [OF that(2,3), of demo_dates regular_meta 2] that(1,2) unfolding demo_resume_def by (auto intro: svc_reach.step)
  have "svc_reach demo_dates regular_meta w1" unfolding w1_def by (rule svc_reach.step [OF r0 svc_step.queried])
  then have "svc_reach demo_dates regular_meta demo_world"
    unfolding w6 using go runs inp unfolding w5_def [symmetric] w4_def w3_def w2_def
    by (metis w2_def w3_def w4_def w5_def)
  moreover have l5: "build_live 1 (w_svc w5)" unfolding w5 s1 by (simp add: build_live_def)
  moreover have "w_svc demo_world = build_finish demo_dates 2 (w_svc w5)" "w_queue demo_world = []" "w_table demo_world = demo_table"
    unfolding w6 demo_resume_def runs
    by (simp_all add: resume_world_def build_resume_def l5 [unfolded One_nat_def] Let_def) (simp_all add: w5 w4 w3 w2 w1 svc_start_def)
  moreover have "build_finish demo_dates 2 (w_svc w5) = (w_svc w5)\<lparr>sv_pending := None, sv_state := SvcReady, sv_finishedAt := Some 2,
           sv_buildDurationMs := Some 1\<rparr>"
    unfolding w5 s1 by (simp add: build_finish_def Let_def)
  ultimately show ?thesis by (simp add: w5)
qed

lemma ready_index_is_the_table_witness:
  "\<exists>ops. sv_index (w_svc demo_world) = index_run demo_dates ops \<and> corpus_run ops = table_view demo_table"
  using ready_index_is_the_table [of demo_dates regular_meta demo_world] demo_steps by auto

lemma lexical_answer_is_table_scan_witness:
  "fst (indexedBm25Ids (\<lambda>x :: rat. x) demo_dates [Leaf (Str ''tags'') ''equals'' (Str ''a'')] demo_filters None 3 5 ''fox'' True (w_svc demo_world)) =
   Some (scan_leg (\<lambda>x :: rat. x) demo_dates [Leaf (Str ''tags'') ''equals'' (Str ''a'')] demo_filters (allows None) 3 5 ''fox'' [demo_projected])"
proof -
  let ?cs = "[Leaf (Str ''tags'') ''equals'' (Str ''a'')]"
  note d = demo_steps
  obtain ids where ids: "fst (indexedBm25Ids (\<lambda>x :: rat. x) demo_dates ?cs demo_filters None 3 5 ''fox'' True (w_svc demo_world)) = Some ids"
    unfolding indexed_fst rank_eq [OF demo_plan] by blast
  have e: "enumerates [demo_projected] (table_view (w_table demo_world))"
    using d by (simp add: demo_table_view enumerates_def ran_map_upd)
  have w: "bx_sweptTo (sv_index (w_svc demo_world)) \<le> 3" using d by (simp add: sweptTo_upsert) (simp add: new_index_def)
  have c: "regular_conditions ?cs" by (simp add: regular_conditions_def regular_facet_def asFacet_def)
  have a: "owner_predicate None" "stored_predicate None" by (simp_all add: owner_predicate_def stored_predicate_def allows_def)
  have x: "expiryOf demo_dates r \<noteq> Some 3" if "r \<in> set [demo_projected]" for r
    using that by (simp add: expiryOf_def demo_projected_def getp_def min_expiry_def)
  have "ids = scan_leg (\<lambda>x :: rat. x) demo_dates ?cs demo_filters (allows None) 3 5 ''fox'' [demo_projected]"
    by (rule lexical_answer_is_table_scan [OF _ _ _ e w c a x ids]) (use d in simp_all)
  then show ?thesis using ids by simp
qed

section \<open>Where the service departs from its comments\<close>

text \<open>A query that was told the index is ready ranks without looking at the state again: when the index is
  disabled before the query resumes, the answer is an empty list, not the refusal that makes the caller
  scan the corpus. \<close>

theorem answer_of_a_disabled_index:
  assumes "planQuery cs f al = Some plan"
  shows "fst (indexedBm25Ids mlog D cs f al now limit q True (disable t reason s)) = Some []"
proof -
  have i: "sv_index (disable t reason s) = new_index" by (simp add: disable_def stampFinished_def clear_def)
  have "idx_inv D (\<lambda>_. True) (\<lambda>_. None) new_index" using clear_inv [of D "\<lambda>_. True" new_index] by (simp add: clear_def)
  then have p: "bx_postings (sweep now new_index) = []" using sweep_inv by (auto simp: new_index_def)
  have z: "fold (\<lambda>t x. x) ts y = y" for ts :: "string list" and y :: "(nat \<times> 'a) list" by (induction ts) auto
  have "rank_ids mlog (sweep now new_index) check st limit ts = []" for check st ts
    by (simp add: rank_ids_def Let_def p plist_def z sort_by_def id_def)
  then show ?thesis unfolding indexed_fst rank_eq [OF assms] i by simp
qed

text \<open>A hook that arrives after the feed has delivered a newer write of the same record puts the older row
  back, and no outstanding event corrects it. \<close>

theorem late_hook_restores_an_old_row:
  assumes "svc_reach D P w" "sv_state (w_svc w) = SvcReady" "w_queue w = []" "row_ok P ob"
  shows "\<exists>C. represents D P (sv_index (noteMemoryUpsert D (Obj ob) (w_svc w))) C \<and> C (id_of ob) = project (Obj ob)"
proof -
  from reach_inv [OF assms(1)] obtain C where IW: "svc_with D P w C" unfolding svc_inv_with ..
  obtain r where r: "project (Obj ob) = Some r" "id_of r = id_of ob" "meta_of r = meta_of ob" using project_row [OF assms(4)] by blast
  have "ev_ok P (EvUpsert r)" using assms(4) r by (simp add: row_ok_def)
  from represents_apply [OF svc_withD(5) [OF IW] this]
  show ?thesis using assms(2) r by (auto simp: noteMemoryUpsert_def record_event_def)
qed

end
