(* ===== verification/DedupCluster.thy ===== *)
theory DedupCluster
  imports FlairPrelude
begin

text \<open>
  Counting the clusters of near-duplicate memories: \<open>resources/dedup-cluster.ts\<close>. The two maps of the
  union-find structure are association lists in insertion order; the loops of \<open>find\<close> follow parent
  pointers without a bound, so they are partial functions and that they return is proved.
\<close>

section \<open>Union-find\<close>

definition DEDUP_CLUSTER_ANN_K_DEFAULT :: nat where "DEDUP_CLUSTER_ANN_K_DEFAULT = 10"
definition DEDUP_CLUSTER_MAX_MEMORIES_DEFAULT :: nat where "DEDUP_CLUSTER_MAX_MEMORIES_DEFAULT = 20000"

record union_find =
  uf_parent :: "(string \<times> string) list"
  uf_rank :: "(string \<times> nat) list"

definition new_uf :: union_find where
  "new_uf = \<lparr>uf_parent = [], uf_rank = []\<rparr>"

definition ensure :: "string \<Rightarrow> union_find \<Rightarrow> union_find" where
  "ensure x u =
     (if map_of (uf_parent u) x = None
      then u\<lparr>uf_parent := AList.update x x (uf_parent u), uf_rank := AList.update x 0 (uf_rank u)\<rparr> else u)"

partial_function (option) find_root :: "(string \<times> string) list \<Rightarrow> string \<Rightarrow> string option" where
  "find_root p r = (case map_of p r of None \<Rightarrow> None | Some q \<Rightarrow> if q = r then Some r else find_root p q)"

partial_function (option) compress :: "string \<Rightarrow> (string \<times> string) list \<Rightarrow> string \<Rightarrow> (string \<times> string) list option" where
  "compress rt p cur =
     (case map_of p cur of
        None \<Rightarrow> None
      | Some q \<Rightarrow> if q = rt then Some p else compress rt (AList.update cur rt p) q)"

definition uf_find :: "string \<Rightarrow> union_find \<Rightarrow> (string \<times> union_find) option" where
  "uf_find x u =
     (let u1 = ensure x u in
      case find_root (uf_parent u1) x of
        None \<Rightarrow> None
      | Some rt \<Rightarrow>
          (case compress rt (uf_parent u1) x of
             None \<Rightarrow> None
           | Some p \<Rightarrow> Some (rt, u1\<lparr>uf_parent := p\<rparr>)))"

definition rank_at :: "union_find \<Rightarrow> string \<Rightarrow> nat" where
  "rank_at u x = (case map_of (uf_rank u) x of None \<Rightarrow> 0 | Some n \<Rightarrow> n)"

definition uf_union :: "string \<Rightarrow> string \<Rightarrow> union_find \<Rightarrow> union_find option" where
  "uf_union a b u =
     (case uf_find a u of
        None \<Rightarrow> None
      | Some (ra, u1) \<Rightarrow>
          (case uf_find b u1 of
             None \<Rightarrow> None
           | Some (rb, u2) \<Rightarrow>
               Some (if ra = rb then u2
                 else if rank_at u2 ra < rank_at u2 rb then u2\<lparr>uf_parent := AList.update ra rb (uf_parent u2)\<rparr>
                 else if rank_at u2 rb < rank_at u2 ra then u2\<lparr>uf_parent := AList.update rb ra (uf_parent u2)\<rparr>
                 else u2\<lparr>uf_parent := AList.update rb ra (uf_parent u2),
                         uf_rank := AList.update ra (rank_at u2 ra + 1) (uf_rank u2)\<rparr>)))"

definition uf_nodes :: "union_find \<Rightarrow> string list" where
  "uf_nodes u = map fst (uf_parent u)"

section \<open>The aggregate\<close>

record cluster_stats =
  clusterCount :: nat
  largestClusterSize :: nat
  totalMemoriesInClusters :: nat

fun union_edges :: "(string \<times> string) list \<Rightarrow> union_find \<Rightarrow> union_find option" where
  "union_edges [] u = Some u"
| "union_edges ((a, b) # es) u =
     (if a = b then union_edges es u else case uf_union a b u of None \<Rightarrow> None | Some u' \<Rightarrow> union_edges es u')"

fun root_sizes :: "string list \<Rightarrow> union_find \<Rightarrow> (string \<times> nat) list \<Rightarrow> (string \<times> nat) list option" where
  "root_sizes [] u sizes = Some sizes"
| "root_sizes (i # is) u sizes =
     (case uf_find i u of
        None \<Rightarrow> None
      | Some (rt, u') \<Rightarrow>
          root_sizes is u' (AList.update rt ((case map_of sizes rt of None \<Rightarrow> 0 | Some n \<Rightarrow> n) + 1) sizes))"

definition count_sizes :: "(string \<times> nat) list \<Rightarrow> cluster_stats" where
  "count_sizes sizes =
     fold (\<lambda>(_, size) st.
       if size < 2 then st
       else \<lparr>clusterCount = clusterCount st + 1,
             largestClusterSize = (if largestClusterSize st < size then size else largestClusterSize st),
             totalMemoriesInClusters = totalMemoriesInClusters st + size\<rparr>)
       sizes \<lparr>clusterCount = 0, largestClusterSize = 0, totalMemoriesInClusters = 0\<rparr>"

definition countDedupClusters :: "(string \<times> string) list \<Rightarrow> cluster_stats option" where
  "countDedupClusters edges =
     (case union_edges edges new_uf of
        None \<Rightarrow> None
      | Some u \<Rightarrow> (case root_sizes (uf_nodes u) u [] of None \<Rightarrow> None | Some sizes \<Rightarrow> Some (count_sizes sizes)))"

section \<open>Parent pointers\<close>

text \<open>Ranks grow along parent pointers that do not loop, so following them ends.\<close>

definition forest :: "(string \<times> string) list \<Rightarrow> (string \<Rightarrow> nat) \<Rightarrow> bool" where
  "forest p rk \<longleftrightarrow>
     (\<forall>x y. map_of p x = Some y \<longrightarrow> map_of p y \<noteq> None \<and> (y = x \<or> rk x < rk y))"

lemma forest_bound: "finite (dom (map_of p)) \<Longrightarrow> \<exists>B. \<forall>x \<in> dom (map_of p). rk x \<le> (B :: nat)"
  by (rule exI [of _ "Max (rk ` dom (map_of p))"]) simp

lemma root_induct [consumes 2, case_names root step]:
  assumes "forest p rk" "map_of p x \<noteq> None"
    and "\<And>x. map_of p x = Some x \<Longrightarrow> Q x"
    and "\<And>x y. map_of p x = Some y \<Longrightarrow> y \<noteq> x \<Longrightarrow> rk x < rk y \<Longrightarrow> Q y \<Longrightarrow> Q x"
  shows "Q x"
proof -
  obtain B where B: "\<forall>x \<in> dom (map_of p). rk x \<le> B" using forest_bound [OF finite_dom_map_of, of p rk] by (rule exE)
  show ?thesis using assms(2)
  proof (induction "B - rk x" arbitrary: x rule: less_induct)
    case less
    then obtain y where y: "map_of p x = Some y" by auto
    show ?case
    proof (cases "y = x")
      case True
      then show ?thesis using assms(3) y by simp
    next
      case False
      then have "map_of p y \<noteq> None" "rk x < rk y" using assms(1) y by (auto simp: forest_def)
      note yp = this
      have "rk y \<le> B" using B yp(1) by (simp add: dom_def)
      then have "B - rk y < B - rk x" using yp(2) by simp
      then have "Q y" using yp(1) by (rule less.hyps)
      then show ?thesis by (rule assms(4) [OF y False yp(2)])
    qed
  qed
qed

lemma find_root_simps: "map_of p x = Some x \<Longrightarrow> find_root p x = Some x"
  "map_of p x = Some y \<Longrightarrow> y \<noteq> x \<Longrightarrow> find_root p x = find_root p y"
  by (subst find_root.simps, simp)+

lemma find_root_some:
  assumes "forest p rk" "map_of p x \<noteq> None"
  shows "\<exists>r. find_root p x = Some r \<and> map_of p r = Some r \<and> (r = x \<or> rk x < rk r)"
  using assms
proof (induction rule: root_induct)
  case (root x)
  then show ?case by (simp add: find_root_simps)
next
  case (step x y)
  then show ?case using find_root_simps(2) [OF step(1,2)] by force
qed

text \<open>Redirecting a node to its root keeps every root.\<close>

lemma redirect:
  assumes f: "forest p rk" and r: "find_root p c = Some r" "c \<noteq> r" "map_of p c \<noteq> None"
  shows "forest (AList.update c r p) rk"
    "map_of p y \<noteq> None \<Longrightarrow> find_root (AList.update c r p) y = find_root p y"
proof -
  have rr: "map_of p r = Some r" "rk c < rk r" using find_root_some [OF f r(3)] r(1,2) by auto
  show "forest (AList.update c r p) rk" using f rr by (auto simp: forest_def update_conv')
  assume "map_of p y \<noteq> None"
  with f show "find_root (AList.update c r p) y = find_root p y"
  proof (induction rule: root_induct)
    case (root y)
    then have "y \<noteq> c" using r(1,2) find_root_simps(1) [OF root] by auto
    then show ?case using root by (simp add: find_root_simps update_conv')
  next
    case (step y z)
    show ?case
    proof (cases "y = c")
      case True
      have "find_root (AList.update c r p) c = find_root (AList.update c r p) r"
        by (rule find_root_simps(2)) (use r(2) in \<open>simp_all add: update_conv'\<close>)
      also have "\<dots> = Some r" by (rule find_root_simps(1)) (use rr r(2) in \<open>simp add: update_conv'\<close>)
      finally show ?thesis using True r(1) by simp
    next
      case False
      then have "find_root (AList.update c r p) y = find_root (AList.update c r p) z"
        by (intro find_root_simps(2)) (use step in \<open>simp_all add: update_conv'\<close>)
      then show ?thesis using step find_root_simps(2) [OF step(1,2)] by simp
    qed
  qed
qed

lemma compress_some:
  assumes "forest p rk" "map_of p x \<noteq> None" "find_root p x = Some r" "distinct (map fst p)"
  shows "\<exists>p'. compress r p x = Some p' \<and> forest p' rk \<and> distinct (map fst p') \<and> map fst p' = map fst p \<and>
    (\<forall>y. map_of p y \<noteq> None \<longrightarrow> find_root p' y = find_root p y)"
proof -
  obtain B where B: "\<forall>x \<in> fst ` set p. rk x \<le> B" by (metis finite_dom_map_of forest_bound dom_map_of_conv_image_fst)
  show ?thesis using assms B
  proof (induction "B - rk x" arbitrary: x p rule: less_induct)
    case less
    obtain q where q: "map_of p x = Some q" using less.prems(2) by auto
    show ?case
    proof (cases "q = r")
      case True
      have "compress r p x = Some p" by (subst compress.simps) (simp add: q True)
      then show ?thesis using less.prems by simp
    next
      case False
      have xr: "x \<noteq> r"
      proof
        assume "x = r"
        then have "map_of p x = Some x" using find_root_some [OF less.prems(1,2)] less.prems(3) by auto
        then show False using q False \<open>x = r\<close> by simp
      qed
      have qx: "q \<noteq> x" using find_root_simps(1) [of p x] q xr less.prems(3) by auto
      let ?p = "AList.update x r p"
      note rd = redirect [OF less.prems(1,3) xr less.prems(2)]
      have mq: "map_of p q \<noteq> None" "rk x < rk q" using less.prems(1) q qx by (auto simp: forest_def)
      have fq: "find_root p q = Some r" using find_root_simps(2) [OF q qx] less.prems(3) by simp
      have k: "map fst ?p = map fst p" using less.prems(2) by (simp add: update_keys) (auto dest!: map_of_SomeD intro: rev_image_eqI)
      have "q \<in> fst ` set p" using mq(1) by (metis map_of_eq_None_iff)
      then have m: "B - rk q < B - rk x" using mq(2) less.prems(5) by (meson diff_less_mono2 less_le_trans)
      have s: "set (map fst ?p) = set (map fst p)" using k by simp
      have "\<exists>p'. compress r ?p q = Some p' \<and> forest p' rk \<and> distinct (map fst p') \<and> map fst p' = map fst ?p \<and>
          (\<forall>y. map_of ?p y \<noteq> None \<longrightarrow> find_root p' y = find_root ?p y)"
      proof (rule less.hyps [OF m rd(1)])
        show "map_of ?p q \<noteq> None" using mq(1) by (simp add: update_conv')
        show "find_root ?p q = Some r" using rd(2) [OF mq(1)] fq by simp
        show "distinct (map fst ?p)" using less.prems(4) by simp
        show "\<forall>x\<in>fst ` set ?p. rk x \<le> B" using less.prems(5) s by simp
      qed
      moreover have "compress r p x = compress r ?p q" by (subst compress.simps) (simp add: q False)
      ultimately show ?thesis using rd(2) k by (auto simp: update_conv')
    qed
  qed
qed

section \<open>The structure as a partition\<close>

definition uf_ok :: "union_find \<Rightarrow> bool" where
  "uf_ok u \<longleftrightarrow> forest (uf_parent u) (rank_at u) \<and> distinct (map fst (uf_parent u))"

definition nodes_of :: "union_find \<Rightarrow> string set" where
  "nodes_of u = fst ` set (uf_parent u)"

lemma in_nodes: "x \<in> nodes_of u \<longleftrightarrow> map_of (uf_parent u) x \<noteq> None"
  unfolding nodes_of_def by (metis map_of_eq_None_iff)

definition rep :: "union_find \<Rightarrow> string \<Rightarrow> string" where
  "rep u x = the (find_root (uf_parent u) x)"

lemma rep_some:
  assumes "uf_ok u" "x \<in> nodes_of u"
  shows "find_root (uf_parent u) x = Some (rep u x)" "rep u x \<in> nodes_of u" "map_of (uf_parent u) (rep u x) = Some (rep u x)"
  using find_root_some [of "uf_parent u" "rank_at u" x] assms by (auto simp: uf_ok_def in_nodes rep_def)

lemma rep_rep: "uf_ok u \<Longrightarrow> x \<in> nodes_of u \<Longrightarrow> rep u (rep u x) = rep u x"
  using rep_some(3) [of u x] find_root_simps(1) [of "uf_parent u" "rep u x"] by (simp add: rep_def)

lemma ensure_ok:
  assumes "uf_ok u"
  shows "uf_ok (ensure x u) \<and> nodes_of (ensure x u) = insert x (nodes_of u) \<and>
    (\<forall>y \<in> nodes_of u. rep (ensure x u) y = rep u y) \<and> (x \<notin> nodes_of u \<longrightarrow> rep (ensure x u) x = x)"
proof (cases "x \<in> nodes_of u")
  case True
  then have "ensure x u = u" by (auto simp: ensure_def in_nodes)
  then show ?thesis using True assms by auto
next
  case False
  let ?p = "AList.update x x (uf_parent u)"
  have e: "uf_parent (ensure x u) = ?p" "rank_at (ensure x u) = (rank_at u)(x := 0)"
    using False by (auto simp: ensure_def in_nodes rank_at_def update_conv' fun_eq_iff)
  have f: "forest (uf_parent u) (rank_at u)" "distinct (map fst (uf_parent u))" using assms by (simp_all add: uf_ok_def)
  have nx: "y \<noteq> x \<and> z \<noteq> x" if "map_of (uf_parent u) y = Some z" for y z
    using f(1) that False unfolding forest_def in_nodes by fastforce
  have ok: "uf_ok (ensure x u)"
    using f nx unfolding uf_ok_def e forest_def by (auto simp: update_conv')
  have "find_root ?p y = find_root (uf_parent u) y" if "map_of (uf_parent u) y \<noteq> None" for y
    using f(1) that
  proof (induction rule: root_induct)
    case (root y)
    then show ?case using nx by (simp add: find_root_simps update_conv')
  next
    case (step y z)
    have "find_root ?p y = find_root ?p z" by (rule find_root_simps(2)) (use step nx in \<open>auto simp: update_conv'\<close>)
    then show ?case using step find_root_simps(2) [OF step(1,2)] by simp
  qed
  then have "\<forall>y \<in> nodes_of u. rep (ensure x u) y = rep u y" by (simp add: rep_def e in_nodes)
  moreover have "rep (ensure x u) x = x" using find_root_simps(1) [of ?p x] by (simp add: rep_def e update_conv')
  moreover have "nodes_of (ensure x u) = insert x (nodes_of u)" by (auto simp: nodes_of_def e)
  ultimately show ?thesis using ok by blast
qed

lemma uf_find_some:
  assumes "uf_ok u"
  shows "\<exists>u'. uf_find x u = Some (rep (ensure x u) x, u') \<and> uf_ok u' \<and> nodes_of u' = insert x (nodes_of u) \<and>
    rank_at u' = rank_at (ensure x u) \<and> (\<forall>y \<in> insert x (nodes_of u). rep u' y = rep (ensure x u) y) \<and>
    (x \<in> nodes_of u \<longrightarrow> uf_nodes u' = uf_nodes u)"
proof -
  let ?u = "ensure x u"
  note e = ensure_ok [OF assms, of x]
  have x: "x \<in> nodes_of ?u" using e by simp
  have f: "forest (uf_parent ?u) (rank_at ?u)" "distinct (map fst (uf_parent ?u))" using e by (simp_all add: uf_ok_def)
  note r = rep_some [OF conjunct1 [OF e] x]
  obtain p where p: "compress (rep ?u x) (uf_parent ?u) x = Some p" "forest p (rank_at ?u)" "distinct (map fst p)"
    "map fst p = map fst (uf_parent ?u)" "\<forall>y. map_of (uf_parent ?u) y \<noteq> None \<longrightarrow> find_root p y = find_root (uf_parent ?u) y"
    using compress_some [OF f(1) _ r(1) f(2)] x unfolding in_nodes by blast
  let ?u' = "?u\<lparr>uf_parent := p\<rparr>"
  have "uf_find x u = Some (rep ?u x, ?u')" using r(1) p(1) by (simp add: uf_find_def Let_def)
  moreover have rk: "rank_at ?u' = rank_at ?u" by (simp add: rank_at_def fun_eq_iff)
  moreover have "uf_ok ?u'" using p(2,3) by (simp add: uf_ok_def rk)
  moreover have n: "nodes_of ?u' = nodes_of ?u" using p(4) by (metis nodes_of_def list.set_map union_find.select_convs(1) union_find.surjective union_find.update_convs(1))
  moreover have "\<forall>y \<in> nodes_of ?u. rep ?u' y = rep ?u y" using p(5) by (simp add: rep_def in_nodes)
  moreover have "x \<in> nodes_of u \<longrightarrow> uf_nodes ?u' = uf_nodes u"
    using p(4) by (auto simp: uf_nodes_def ensure_def in_nodes)
  ultimately show ?thesis using e by auto
qed

text \<open>Hanging one root below another.\<close>

lemma hang:
  assumes f: "forest p rk" and r: "map_of p a = Some a" "map_of p b = Some b" "a \<noteq> b" and y: "map_of p y \<noteq> None"
  shows "find_root (AList.update a b p) y = (if find_root p y = Some a then Some b else find_root p y)"
  using f y
proof (induction rule: root_induct)
  case (root y)
  show ?case
  proof (cases "y = a")
    case True
    have "find_root (AList.update a b p) a = find_root (AList.update a b p) b"
      by (rule find_root_simps(2)) (use r in \<open>simp_all add: update_conv'\<close>)
    also have "\<dots> = Some b" by (rule find_root_simps(1)) (use r in \<open>simp add: update_conv'\<close>)
    finally show ?thesis using True r by (simp add: find_root_simps)
  next
    case False
    then show ?thesis using root by (simp add: find_root_simps update_conv')
  qed
next
  case (step y z)
  then have "y \<noteq> a" using r(1) by auto
  then have "find_root (AList.update a b p) y = find_root (AList.update a b p) z"
    by (intro find_root_simps(2)) (use step in \<open>simp_all add: update_conv'\<close>)
  then show ?case using step find_root_simps(2) [OF step(1,2)] by simp
qed

lemma hang_ok:
  assumes u: "uf_ok u" and r: "map_of (uf_parent u) a = Some a" "map_of (uf_parent u) b = Some b" "a \<noteq> b"
    and p: "uf_parent u' = AList.update a b (uf_parent u)"
    and rk: "rank_at u a < rank_at u' b" "rank_at u b \<le> rank_at u' b" "\<And>x. x \<noteq> b \<Longrightarrow> rank_at u' x = rank_at u x"
  shows "uf_ok u' \<and> nodes_of u' = nodes_of u \<and>
    (\<forall>y \<in> nodes_of u. rep u' y = (if rep u y = a then b else rep u y))"
proof -
  have f: "forest (uf_parent u) (rank_at u)" "distinct (map fst (uf_parent u))" using u by (simp_all add: uf_ok_def)
  have "forest (AList.update a b (uf_parent u)) (rank_at u')"
    unfolding forest_def
  proof (intro allI impI)
    fix x y assume a: "map_of (AList.update a b (uf_parent u)) x = Some y"
    show "map_of (AList.update a b (uf_parent u)) y \<noteq> None \<and> (y = x \<or> rank_at u' x < rank_at u' y)"
    proof (cases "x = a")
      case True
      then show ?thesis using a r rk by (auto simp: update_conv')
    next
      case False
      then have xy: "map_of (uf_parent u) x = Some y" using a by (simp add: update_conv')
      then have "map_of (uf_parent u) y \<noteq> None" "y = x \<or> rank_at u x < rank_at u y" using f(1) by (auto simp: forest_def)
      note yy = this
      have xb: "x = b \<Longrightarrow> y = b" using xy r(2) by simp
      have "y = x \<or> rank_at u' x < rank_at u' y"
      proof (cases "y = x \<or> x = b")
        case False
        then have "rank_at u' x < rank_at u y" using rk(3) [of x] yy(2) by simp
        then show ?thesis using rk(2) rk(3) [of y] by (cases "y = b") auto
      qed (use xb in auto)
      then show ?thesis using yy(1) by (simp add: update_conv')
    qed
  qed
  then have ok: "uf_ok u'" using f(2) by (simp add: uf_ok_def p)
  have n: "nodes_of u' = nodes_of u" using r(1) by (auto simp: nodes_of_def p dest: map_of_SomeD intro: rev_image_eqI)
  have "rep u' y = (if rep u y = a then b else rep u y)" if "y \<in> nodes_of u" for y
    using hang [OF f(1) r] that rep_some(1) [OF u that] by (auto simp: rep_def p in_nodes)
  then show ?thesis using ok n by blast
qed

lemma uf_union_some:
  assumes u: "uf_ok u"
  shows "\<exists>u'. uf_union a b u = Some u' \<and> uf_ok u' \<and> nodes_of u' = insert a (insert b (nodes_of u)) \<and>
    (let r = rep (ensure b (ensure a u)) in
     \<forall>x \<in> nodes_of u'. \<forall>y \<in> nodes_of u'. rep u' x = rep u' y \<longleftrightarrow>
       r x = r y \<or> (r x = r a \<and> r y = r b) \<or> (r x = r b \<and> r y = r a))"
proof -
  obtain u1 where u1: "uf_find a u = Some (rep (ensure a u) a, u1)" "uf_ok u1" "nodes_of u1 = insert a (nodes_of u)"
    "\<forall>y \<in> insert a (nodes_of u). rep u1 y = rep (ensure a u) y" using uf_find_some [OF u, of a] by blast
  obtain u2 where u2: "uf_find b u1 = Some (rep (ensure b u1) b, u2)" "uf_ok u2" "nodes_of u2 = insert b (nodes_of u1)"
    "\<forall>y \<in> insert b (nodes_of u1). rep u2 y = rep (ensure b u1) y" using uf_find_some [OF u1(2), of b] by blast
  let ?r = "rep (ensure b (ensure a u))" and ?N = "insert a (insert b (nodes_of u))"
  note ea = ensure_ok [OF u, of a]
  have ea': "uf_ok (ensure a u)" "nodes_of (ensure a u) = insert a (nodes_of u)" using ea by simp_all
  note eb = ensure_ok [OF ea'(1), of b]
  note eb1 = ensure_ok [OF u1(2), of b]
  have same: "rep u2 x = ?r x" if "x \<in> ?N" for x
  proof (cases "x = b \<and> b \<notin> insert a (nodes_of u)")
    case True
    then show ?thesis using u2(4) eb eb1 ea'(2) u1(3) by simp
  next
    case False
    then have x: "x \<in> insert a (nodes_of u)" using that by auto
    have "rep u2 x = rep (ensure b u1) x" using u2(4) u1(3) x by blast
    also have "\<dots> = rep u1 x" using eb1 u1(3) x by blast
    also have "\<dots> = rep (ensure a u) x" using u1(4) x by blast
    also have "\<dots> = ?r x" using eb x unfolding ea'(2) by metis
    finally show ?thesis .
  qed
  have n: "nodes_of u2 = ?N" using u1(3) u2(3) by auto
  have ab: "a \<in> nodes_of u2" "b \<in> nodes_of u2" by (simp_all add: n)
  have ra: "rep (ensure a u) a = rep u2 a"
  proof -
    have "rep u2 a = rep (ensure b u1) a" using u2(4) u1(3) by simp
    also have "\<dots> = rep u1 a" using eb1 u1(3) by blast
    also have "\<dots> = rep (ensure a u) a" using u1(4) by simp
    finally show ?thesis ..
  qed
  have rb: "rep (ensure b u1) b = rep u2 b" using u2(4) by simp
  let ?ra = "rep u2 a" and ?rb = "rep u2 b"
  have roots: "map_of (uf_parent u2) ?ra = Some ?ra" "map_of (uf_parent u2) ?rb = Some ?rb"
    using rep_some(3) [OF u2(2)] ab by simp_all
  have rk: "rank_at (u\<lparr>uf_parent := p\<rparr>) = rank_at u" "rank_at (u\<lparr>uf_parent := p, uf_rank := AList.update x k (uf_rank u)\<rparr>) = (rank_at u)(x := k)"
    for u :: union_find and p x k by (auto simp: rank_at_def update_conv' fun_eq_iff)
  have un: "uf_union a b u = Some (if ?ra = ?rb then u2
                 else if rank_at u2 ?ra < rank_at u2 ?rb then u2\<lparr>uf_parent := AList.update ?ra ?rb (uf_parent u2)\<rparr>
                 else if rank_at u2 ?rb < rank_at u2 ?ra then u2\<lparr>uf_parent := AList.update ?rb ?ra (uf_parent u2)\<rparr>
                 else u2\<lparr>uf_parent := AList.update ?rb ?ra (uf_parent u2),
                         uf_rank := AList.update ?ra (rank_at u2 ?ra + 1) (uf_rank u2)\<rparr>)" (is "_ = Some ?u'")
    unfolding uf_union_def by (simp add: u1(1) u2(1) ra rb)
  have "uf_ok ?u' \<and> nodes_of ?u' = ?N \<and>
      ((?ra = ?rb \<and> ?u' = u2) \<or>
       (?ra \<noteq> ?rb \<and> ((\<forall>y \<in> ?N. rep ?u' y = (if rep u2 y = ?ra then ?rb else rep u2 y)) \<or>
          (\<forall>y \<in> ?N. rep ?u' y = (if rep u2 y = ?rb then ?ra else rep u2 y)))))"
  proof -
    consider "?ra = ?rb" | "?ra \<noteq> ?rb" "rank_at u2 ?ra < rank_at u2 ?rb" | "?ra \<noteq> ?rb" "rank_at u2 ?rb < rank_at u2 ?ra"
      | "?ra \<noteq> ?rb" "rank_at u2 ?ra = rank_at u2 ?rb" by linarith
    then show ?thesis
    proof cases
      case 1
      then show ?thesis using u2(2) n by simp
    next
      case 2
      have "?u' = u2\<lparr>uf_parent := AList.update ?ra ?rb (uf_parent u2)\<rparr>" using 2 by simp
      then show ?thesis
        using hang_ok [OF u2(2) roots 2(1), of ?u'] 2 n by (simp add: rk)
    next
      case 3
      have "?u' = u2\<lparr>uf_parent := AList.update ?rb ?ra (uf_parent u2)\<rparr>" using 3 by simp
      then show ?thesis
        using hang_ok [OF u2(2) roots(2,1) 3(1) [symmetric], of ?u'] 3 n by (simp add: rk)
    next
      case 4
      have "?u' = u2\<lparr>uf_parent := AList.update ?rb ?ra (uf_parent u2),
                         uf_rank := AList.update ?ra (rank_at u2 ?ra + 1) (uf_rank u2)\<rparr>" using 4 by simp
      then show ?thesis
        using hang_ok [OF u2(2) roots(2,1) 4(1) [symmetric], of ?u'] 4 n by (simp add: rk)
    qed
  qed
  then obtain u' where w: "uf_union a b u = Some u'" "uf_ok u'" "nodes_of u' = ?N" and c: "(?ra = ?rb \<and> u' = u2) \<or>
       (?ra \<noteq> ?rb \<and> ((\<forall>y \<in> ?N. rep u' y = (if rep u2 y = ?ra then ?rb else rep u2 y)) \<or>
          (\<forall>y \<in> ?N. rep u' y = (if rep u2 y = ?rb then ?ra else rep u2 y))))"
    using un by blast
  have "rep u' x = rep u' y \<longleftrightarrow> ?r x = ?r y \<or> (?r x = ?r a \<and> ?r y = ?r b) \<or> (?r x = ?r b \<and> ?r y = ?r a)"
    if "x \<in> ?N" "y \<in> ?N" for x y
  proof -
    note r = same [OF that(1), symmetric] same [OF that(2), symmetric] same [of a, simplified, symmetric] same [of b, simplified, symmetric]
    from c show ?thesis
    proof (elim disjE conjE)
      assume "?ra = ?rb" "u' = u2"
      then show ?thesis unfolding r by auto
    next
      assume h: "?ra \<noteq> ?rb" "\<forall>y \<in> ?N. rep u' y = (if rep u2 y = ?ra then ?rb else rep u2 y)"
      show ?thesis unfolding r using h(1) bspec [OF h(2) that(1)] bspec [OF h(2) that(2)] by auto
    next
      assume h: "?ra \<noteq> ?rb" "\<forall>y \<in> ?N. rep u' y = (if rep u2 y = ?rb then ?ra else rep u2 y)"
      show ?thesis unfolding r using h(1) bspec [OF h(2) that(1)] bspec [OF h(2) that(2)] by auto
    qed
  qed
  then show ?thesis using w by (auto simp: Let_def)
qed


section \<open>Clusters as connected components\<close>

definition conn :: "(string \<times> string) set \<Rightarrow> (string \<times> string) set" where
  "conn E = (E \<union> E\<inverse>)\<^sup>*"

definition dup_nodes :: "(string \<times> string) set \<Rightarrow> string set" where
  "dup_nodes E = {x. \<exists>y. x \<noteq> y \<and> ((x, y) \<in> E \<or> (y, x) \<in> E)}"

definition clusters :: "(string \<times> string) set \<Rightarrow> string set set" where
  "clusters E = (\<lambda>x. {y. (x, y) \<in> conn E}) ` dup_nodes E"

lemma conn_refl: "(x, x) \<in> conn E" by (simp add: conn_def)

lemma conn_sym: "(x, y) \<in> conn E \<Longrightarrow> (y, x) \<in> conn E"
  unfolding conn_def by (metis converse_Un converse_converse rtrancl_converseI sup_commute)

lemma conn_trans: "(x, y) \<in> conn E \<Longrightarrow> (y, z) \<in> conn E \<Longrightarrow> (x, z) \<in> conn E"
  unfolding conn_def by (rule rtrancl_trans)

lemma conn_insert:
  "(x, y) \<in> conn (insert (a, b) E) \<longleftrightarrow>
    (x, y) \<in> conn E \<or> ((x, a) \<in> conn E \<and> (b, y) \<in> conn E) \<or> ((x, b) \<in> conn E \<and> (a, y) \<in> conn E)"
proof -
  have "insert (a, b) E \<union> (insert (a, b) E)\<inverse> = insert (a, b) (insert (b, a) (E \<union> E\<inverse>))" by auto
  then have "(x, y) \<in> conn (insert (a, b) E) \<longleftrightarrow> (x, y) \<in> conn E \<or> ((x, b) \<in> conn E \<and> (a, y) \<in> conn E) \<or>
      (((x, a) \<in> conn E \<or> (x, b) \<in> conn E) \<and> ((b, y) \<in> conn E \<or> (a, y) \<in> conn E))"
    by (simp add: conn_def rtrancl_insert)
  then show ?thesis using conn_trans [of x a E y] conn_trans [of x b E y] by blast
qed

lemma conn_loop: "conn (insert (a, a) E) = conn E"
proof -
  have "(x, y) \<in> conn (insert (a, a) E) \<longleftrightarrow> (x, y) \<in> conn E" for x y
    using conn_trans [of x a E y] by (auto simp: conn_insert)
  then show ?thesis by auto
qed

lemma dup_nodes_insert: "dup_nodes (insert (a, b) E) = (if a = b then {} else {a, b}) \<union> dup_nodes E"
  by (auto simp: dup_nodes_def)

lemma conn_out:
  assumes "(x, y) \<in> conn E" "x \<notin> dup_nodes E"
  shows "y = x"
  using assms(1) unfolding conn_def
proof (induction rule: rtrancl_induct)
  case (step y z)
  then have "(x, z) \<in> E \<or> (z, x) \<in> E" by auto
  then show ?case using assms(2) by (auto simp: dup_nodes_def)
qed simp

lemma conn_dup: "(x, y) \<in> conn E \<Longrightarrow> x \<in> dup_nodes E \<Longrightarrow> y \<in> dup_nodes E"
  using conn_out [of y x E] conn_sym [of x y E] by auto

text \<open>The structure represents the relation \<open>conn E\<close>.\<close>

definition represents :: "union_find \<Rightarrow> (string \<times> string) set \<Rightarrow> bool" where
  "represents u E \<longleftrightarrow> uf_ok u \<and> dup_nodes E \<subseteq> nodes_of u \<and>
     (\<forall>x \<in> nodes_of u. \<forall>y \<in> nodes_of u. rep u x = rep u y \<longleftrightarrow> (x, y) \<in> conn E)"

lemma represents_ensure:
  assumes "represents u E"
  shows "represents (ensure c u) E"
proof -
  have u: "uf_ok u" and d: "dup_nodes E \<subseteq> nodes_of u"
    and r: "\<And>x y. x \<in> nodes_of u \<Longrightarrow> y \<in> nodes_of u \<Longrightarrow> rep u x = rep u y \<longleftrightarrow> (x, y) \<in> conn E"
    using assms by (auto simp: represents_def)
  note e = ensure_ok [OF u, of c]
  have new: "rep (ensure c u) x = rep (ensure c u) c \<longleftrightarrow> (x, c) \<in> conn E" if "c \<notin> nodes_of u" "x \<in> nodes_of u" for x
  proof -
    have "rep u x \<noteq> c" using rep_some(2) [OF u that(2)] that(1) by auto
    moreover have "(x, c) \<notin> conn E" using conn_out [of c x E] conn_sym [of x c E] d that by auto
    ultimately show ?thesis using e that by auto
  qed
  show ?thesis
  proof (cases "c \<in> nodes_of u")
    case True
    then have "ensure c u = u" by (auto simp: ensure_def in_nodes)
    then show ?thesis using assms by simp
  next
    case False
    have "rep (ensure c u) x = rep (ensure c u) y \<longleftrightarrow> (x, y) \<in> conn E"
      if xy: "x \<in> insert c (nodes_of u)" "y \<in> insert c (nodes_of u)" for x y
    proof -
      consider "x = c" "y = c" | "x = c" "y \<in> nodes_of u" | "x \<in> nodes_of u" "y = c" | "x \<in> nodes_of u" "y \<in> nodes_of u"
        using xy by blast
      then show ?thesis
      proof cases
        case 2
        then show ?thesis using new [OF False, of y] conn_sym [of x y E] conn_sym [of y x E] by metis
      next
        case 3
        then show ?thesis using new [OF False, of x] by metis
      next
        case 4
        then show ?thesis using e r by metis
      qed (simp add: conn_refl)
    qed
    then show ?thesis using e d unfolding represents_def by blast
  qed
qed

lemma represents_union:
  assumes "represents u E" "a \<noteq> b"
  shows "\<exists>u'. uf_union a b u = Some u' \<and> represents u' (insert (a, b) E) \<and> nodes_of u' = insert a (insert b (nodes_of u))"
proof -
  let ?e = "ensure b (ensure a u)"
  have e: "represents ?e E" by (intro represents_ensure assms)
  have u: "uf_ok u" using assms by (simp add: represents_def)
  obtain u' where u': "uf_union a b u = Some u'" "uf_ok u'" "nodes_of u' = insert a (insert b (nodes_of u))"
    "\<forall>x \<in> nodes_of u'. \<forall>y \<in> nodes_of u'. rep u' x = rep u' y \<longleftrightarrow>
       rep ?e x = rep ?e y \<or> (rep ?e x = rep ?e a \<and> rep ?e y = rep ?e b) \<or> (rep ?e x = rep ?e b \<and> rep ?e y = rep ?e a)"
    using uf_union_some [OF u, of a b] unfolding Let_def by blast
  have n: "nodes_of ?e = nodes_of u'"
    using ensure_ok [OF u, of a] ensure_ok [of "ensure a u" b] u'(3) by auto
  have r: "rep ?e x = rep ?e y \<longleftrightarrow> (x, y) \<in> conn E" if "x \<in> nodes_of u'" "y \<in> nodes_of u'" for x y
    using e that n by (simp add: represents_def)
  have ab: "a \<in> nodes_of u'" "b \<in> nodes_of u'" using u'(3) by auto
  have "rep u' x = rep u' y \<longleftrightarrow> (x, y) \<in> conn (insert (a, b) E)" if "x \<in> nodes_of u'" "y \<in> nodes_of u'" for x y
    using u'(4) that r [OF that] r [OF that(1) ab(1)] r [OF that(1) ab(2)] r [OF that(2) ab(1)] r [OF that(2) ab(2)]
      conn_sym [of y a E] conn_sym [of a y E] conn_sym [of y b E] conn_sym [of b y E]
    by (simp add: conn_insert) metis
  moreover have "dup_nodes (insert (a, b) E) \<subseteq> nodes_of u'"
    using e n ab by (auto simp: dup_nodes_insert represents_def)
  ultimately show ?thesis using u' by (auto simp: represents_def)
qed

lemma union_edges_some:
  assumes "represents u E"
  shows "\<exists>u'. union_edges es u = Some u' \<and> represents u' (E \<union> set es) \<and> nodes_of u' = nodes_of u \<union> dup_nodes (set es)"
  using assms
proof (induction es arbitrary: u E)
  case Nil
  then show ?case by (simp add: dup_nodes_def)
next
  case (Cons e es)
  obtain a b where e: "e = (a, b)" by fastforce
  show ?case
  proof (cases "a = b")
    case True
    have "represents u (insert e E)" using Cons.prems True by (simp add: e represents_def conn_loop dup_nodes_insert)
    then show ?thesis using Cons.IH [of u "insert e E"] True by (auto simp: e dup_nodes_insert)
  next
    case False
    obtain u1 where u1: "uf_union a b u = Some u1" "represents u1 (insert (a, b) E)"
      "nodes_of u1 = insert a (insert b (nodes_of u))" using represents_union [OF Cons.prems False] by blast
    then show ?thesis using Cons.IH [OF u1(2)] False by (auto simp: e dup_nodes_insert)
  qed
qed


text \<open>Counting: the sizes per root are the sizes of the classes.\<close>

definition size_of :: "(string \<times> nat) list \<Rightarrow> string \<Rightarrow> nat" where
  "size_of sizes r = (case map_of sizes r of None \<Rightarrow> 0 | Some n \<Rightarrow> n)"

lemma root_sizes_some:
  assumes "uf_ok u" "set is \<subseteq> nodes_of u" "distinct (map fst sizes)"
  shows "\<exists>s'. root_sizes is u sizes = Some s' \<and> distinct (map fst s') \<and>
    fst ` set s' = fst ` set sizes \<union> rep u ` set is \<and>
    (\<forall>r. size_of s' r = size_of sizes r + length (filter (\<lambda>i. rep u i = r) is))"
  using assms
proof (induction "is" arbitrary: u sizes)
  case Nil
  then show ?case by simp
next
  case (Cons i js)
  have i: "ensure i u = u" using Cons.prems(2) by (auto simp: ensure_def in_nodes)
  obtain u' where u': "uf_find i u = Some (rep u i, u')" "uf_ok u'" "nodes_of u' = nodes_of u"
    "\<forall>y \<in> nodes_of u. rep u' y = rep u y"
    using uf_find_some [OF Cons.prems(1), of i] Cons.prems(2) unfolding i by (auto simp: insert_absorb)
  let ?s = "AList.update (rep u i) (size_of sizes (rep u i) + 1) sizes"
  have step: "root_sizes (i # js) u sizes = root_sizes js u' ?s" by (simp add: u'(1) size_of_def)
  have js: "rep u' j = rep u j" if "j \<in> set js" for j using u'(4) that Cons.prems(2) by auto
  have sz: "size_of ?s r = size_of sizes r + (if r = rep u i then 1 else 0)" for r
    by (simp add: size_of_def update_conv')
  have fl: "filter (\<lambda>i. rep u' i = r) js = filter (\<lambda>i. rep u i = r) js" for r
    using js by (intro filter_cong) simp_all
  have im: "rep u' ` set js = rep u ` set js" using js by simp
  have "set js \<subseteq> nodes_of u'" "distinct (map fst ?s)" using Cons.prems u'(3) by (simp_all add: distinct_update)
  from Cons.IH [OF u'(2) this] obtain s' where s': "root_sizes js u' ?s = Some s'" "distinct (map fst s')"
    "fst ` set s' = fst ` set ?s \<union> rep u' ` set js"
    "\<forall>r. size_of s' r = size_of ?s r + length (filter (\<lambda>i. rep u' i = r) js)" by (elim exE conjE)
  show ?case
  proof (intro exI [of _ s'] conjI allI)
    show "root_sizes (i # js) u sizes = Some s'" using step s'(1) by simp
    show "distinct (map fst s')" by (rule s'(2))
    show "fst ` set s' = fst ` set sizes \<union> rep u ` set (i # js)" unfolding s'(3) im by simp
    show "size_of s' r = size_of sizes r + length (filter (\<lambda>k. rep u k = r) (i # js))" for r
      using s'(4) [rule_format, of r] sz [of r] fl [of r] by auto
  qed
qed

lemma count_sizes_eq:
  assumes "\<forall>(r, n) \<in> set sizes. 2 \<le> n"
  shows "count_sizes sizes = \<lparr>clusterCount = length sizes, largestClusterSize = Max (insert 0 (snd ` set sizes)),
    totalMemoriesInClusters = sum_list (map snd sizes)\<rparr>"
proof -
  have "fold (\<lambda>(_, size) st.
       if size < 2 then st
       else \<lparr>clusterCount = clusterCount st + 1,
             largestClusterSize = (if largestClusterSize st < size then size else largestClusterSize st),
             totalMemoriesInClusters = totalMemoriesInClusters st + size\<rparr>) sizes \<lparr>clusterCount = c, largestClusterSize = l, totalMemoriesInClusters = t\<rparr>
    = \<lparr>clusterCount = c + length sizes, largestClusterSize = Max (insert l (snd ` set sizes)),
       totalMemoriesInClusters = t + sum_list (map snd sizes)\<rparr>" for c l t
    using assms
  proof (induction sizes arbitrary: c l t)
    case (Cons e es)
    obtain r n where e: "e = (r, n)" by fastforce
    have "Max (insert (max l n) (snd ` set es)) = Max (insert l (insert n (snd ` set es)))"
      by (cases "set es = {}") (simp_all add: max.assoc)
    then show ?case using Cons by (auto simp: e max_def not_less split: if_splits)
  qed simp
  then show ?thesis by (simp add: count_sizes_def)
qed

text \<open>C39. The clusters that are counted are the connected components of the near-duplicate edges: for
  every edge list, with duplicated, symmetric and self edges, the loops end and the three numbers are the
  number of components with at least two memories, the size of the largest one and the number of memories
  in any.\<close>

theorem clusters_are_components:
  "countDedupClusters edges = Some \<lparr>clusterCount = card (clusters (set edges)),
     largestClusterSize = Max (insert 0 (card ` clusters (set edges))),
     totalMemoriesInClusters = card (dup_nodes (set edges))\<rparr>"
proof -
  let ?E = "set edges"
  have "represents new_uf {}"
    by (simp add: represents_def uf_ok_def forest_def new_uf_def nodes_of_def dup_nodes_def)
  from union_edges_some [OF this, of edges] obtain u where u: "union_edges edges new_uf = Some u" "represents u ?E"
    "nodes_of u = dup_nodes ?E" by (auto simp: new_uf_def nodes_of_def)
  have ok: "uf_ok u" and r: "rep u x = rep u y \<longleftrightarrow> (x, y) \<in> conn ?E" if "x \<in> dup_nodes ?E" "y \<in> dup_nodes ?E" for x y
    using u(2,3) that by (auto simp: represents_def)
  have ok: "uf_ok u" using u(2) by (simp add: represents_def)
  have ns: "set (uf_nodes u) = dup_nodes ?E" "distinct (uf_nodes u)"
    using u(3) ok by (simp_all add: uf_nodes_def nodes_of_def uf_ok_def)
  obtain s where s: "root_sizes (uf_nodes u) u [] = Some s" "distinct (map fst s)" "fst ` set s = rep u ` dup_nodes ?E"
    "\<forall>r. size_of s r = length (filter (\<lambda>i. rep u i = r) (uf_nodes u))"
    using root_sizes_some [OF ok, of "uf_nodes u" "[]"] u(3) ns by (auto simp: size_of_def)
  define cl where "cl rt = {y \<in> dup_nodes ?E. rep u y = rt}" for rt
  have sz: "n = card (cl rt)" if "(rt, n) \<in> set s" for rt n
  proof -
    have "size_of s rt = n" using that s(2) by (simp add: size_of_def)
    moreover have "length (filter (\<lambda>i. rep u i = rt) (uf_nodes u)) = card (cl rt)"
      using distinct_card [of "filter (\<lambda>i. rep u i = rt) (uf_nodes u)"] ns by (simp add: cl_def)
    ultimately show ?thesis using s(4) by simp
  qed
  have cls: "{y. (x, y) \<in> conn ?E} = cl (rep u x)" if "x \<in> dup_nodes ?E" for x
    using r [OF that] conn_dup [of x _ ?E] that unfolding cl_def by (intro set_eqI) (simp, metis)
  have clusters: "clusters ?E = cl ` fst ` set s" unfolding s(3) clusters_def image_image using cls by (intro image_cong) auto
  have fin: "finite (dup_nodes ?E)" using ns(1) by (metis List.finite_set)
  have two: "2 \<le> card (cl rt)" if rt: "rt \<in> fst ` set s" for rt
  proof -
    obtain x where x: "x \<in> dup_nodes ?E" "rt = rep u x" using rt unfolding s(3) by auto
    then obtain y where y: "x \<noteq> y" "(x, y) \<in> ?E \<or> (y, x) \<in> ?E" by (auto simp: dup_nodes_def)
    then have "(x, y) \<in> conn ?E" by (auto simp: conn_def)
    then have "{x, y} \<subseteq> cl rt" using x r [of x y] conn_dup [of x y ?E] by (auto simp: cl_def)
    then have "card {x, y} \<le> card (cl rt)" using fin by (intro card_mono) (auto simp: cl_def)
    then show ?thesis using y(1) by simp
  qed
  have inj: "inj_on cl (fst ` set s)"
  proof (rule inj_onI)
    fix a b assume a: "a \<in> fst ` set s" and b: "b \<in> fst ` set s" and e: "cl a = cl b"
    have "cl a \<noteq> {}" using two [OF a] by auto
    then show "a = b" using e by (auto simp: cl_def)
  qed
  have "card (clusters ?E) = length s"
    unfolding clusters using card_image [OF inj] distinct_card [OF s(2)] by simp
  moreover have "snd ` set s = card ` clusters ?E"
    unfolding clusters image_image using sz by (intro image_cong) auto
  moreover have "sum_list (map snd s) = card (dup_nodes ?E)"
  proof -
    have "sum_list (map snd s) = sum_list (map (\<lambda>rt. card (cl rt)) (map fst s))"
      unfolding map_map using sz by (intro arg_cong [where f = sum_list] map_cong) auto
    also have "\<dots> = (\<Sum>rt \<in> rep u ` dup_nodes ?E. card (cl rt))"
      using sum_list_distinct_conv_sum_set [OF s(2)] s(3) by simp
    also have "\<dots> = card (dup_nodes ?E)"
      using sum.image_gen [OF fin, of "\<lambda>_. 1 :: nat" "rep u"] by (simp add: cl_def)
    finally show ?thesis .
  qed
  moreover have "\<forall>(r, n) \<in> set s. 2 \<le> n" using sz two by force
  ultimately show ?thesis
    unfolding countDedupClusters_def by (simp add: u(1) s(1) count_sizes_eq)
qed

end
