(* ===== verification/JsOps.thy ===== *)
theory JsOps
  imports FlairPrelude
begin

text \<open>
  More of the JavaScript library: the relational operators on dynamic values, deep equality, and the text
  of a date.
\<close>

section \<open>Relational operators\<close>

text \<open>\<open>ToPrimitive\<close> of an object is its text; \<open>ToNumber\<close> of the other values.\<close>

fun js_prim :: "js \<Rightarrow> js" where
  "js_prim (Arr vs) = Str (js_String (Arr vs))"
| "js_prim (Obj kvs) = Str (js_String (Obj kvs))"
| "js_prim v = v"

fun js_num :: "js \<Rightarrow> jnum" where
  "js_num Undef = NaN"
| "js_num Null = Fin 0"
| "js_num (Bool b) = Fin (if b then 1 else 0)"
| "js_num (Num n) = n"
| "js_num (Str s) = js_Number s"
| "js_num v = js_Number (js_String v)"

text \<open>\<open>a < b\<close> and \<open>a <= b\<close>: two strings by code units, anything else as numbers.\<close>

definition js_lt :: "js \<Rightarrow> js \<Rightarrow> bool" where
  "js_lt a b = (case (js_prim a, js_prim b) of (Str x, Str y) \<Rightarrow> x < y | (x, y) \<Rightarrow> jlt (js_num x) (js_num y))"

definition js_le :: "js \<Rightarrow> js \<Rightarrow> bool" where
  "js_le a b = (case (js_prim a, js_prim b) of (Str x, Str y) \<Rightarrow> x \<le> y | (x, y) \<Rightarrow> jle (js_num x) (js_num y))"

lemma js_cmp_Str [simp]: "js_lt (Str x) (Str y) \<longleftrightarrow> x < y" "js_le (Str x) (Str y) \<longleftrightarrow> x \<le> y"
  by (simp_all add: js_lt_def js_le_def)

lemma js_cmp_Num [simp]: "js_lt (Num x) (Num y) \<longleftrightarrow> jlt x y" "js_le (Num x) (Num y) \<longleftrightarrow> jle x y"
  by (simp_all add: js_lt_def js_le_def)

lemma jlt_irrefl [simp]: "\<not> jlt n n"
  by (cases n) simp_all

lemma jlt_jle: "jlt a b \<Longrightarrow> jle a b"
  by (cases a; cases b) simp_all

lemma jlt_not_jle: "jlt a b \<Longrightarrow> \<not> jle b a"
  by (cases a; cases b) simp_all

lemma js_lt_irrefl [simp]: "\<not> js_lt v v"
  by (auto simp: js_lt_def split: js.splits)

lemma js_lt_not_le: "js_lt a b \<Longrightarrow> \<not> js_le b a"
  by (auto simp: js_lt_def js_le_def split: js.splits dest: jlt_not_jle)

section \<open>The text of a date\<close>

text \<open>The proleptic Gregorian date of a day number, days counted from 1970-01-01: years start on the first
  of March, so that the leap day is the last day of its year.\<close>

definition civil_from_days :: "int \<Rightarrow> int \<times> int \<times> int" where
  "civil_from_days d =
     (let z = d + 719468; era = z div 146097; doe = z mod 146097;
          yoe = (doe - doe div 1460 + doe div 36524 - doe div 146096) div 365;
          doy = doe - (365 * yoe + yoe div 4 - yoe div 100);
          mp = (5 * doy + 2) div 153;
          m = (if mp < 10 then mp + 3 else mp - 9)
      in (yoe + era * 400 + (if m \<le> 2 then 1 else 0), m, doy - (153 * mp + 2) div 5 + 1))"

definition pad_left :: "nat \<Rightarrow> string \<Rightarrow> string" where
  "pad_left n s = replicate (n - length s) (CHR ''0'') @ s"

definition pad_int :: "nat \<Rightarrow> int \<Rightarrow> string" where
  "pad_int n i = pad_left n (nat_digits (nat i))"

text \<open>\<open>new Date(ms).toISOString()\<close>; outside the range of a date it throws a \<open>RangeError\<close>.\<close>

definition MAX_DATE_MS :: int where "MAX_DATE_MS = 8640000000000000"

definition iso_text :: "int \<Rightarrow> string" where
  "iso_text ms =
     (let (y, m, d) = civil_from_days (ms div 86400000); t = ms mod 86400000;
          year = (if 0 \<le> y \<and> y \<le> 9999 then pad_int 4 y
                  else (if y < 0 then ''-'' else ''+'') @ pad_int 6 \<bar>y\<bar>)
      in year @ ''-'' @ pad_int 2 m @ ''-'' @ pad_int 2 d @ ''T'' @ pad_int 2 (t div 3600000) @ '':'' @
         pad_int 2 (t div 60000 mod 60) @ '':'' @ pad_int 2 (t div 1000 mod 60) @ ''.'' @ pad_int 3 (t mod 1000) @ ''Z'')"

definition toISOString :: "int \<Rightarrow> string option" where
  "toISOString ms = (if \<bar>ms\<bar> \<le> MAX_DATE_MS then Some (iso_text ms) else None)"

lemma iso_text_examples:
  "civil_from_days 0 = (1970, 1, 1)" "civil_from_days 11016 = (2000, 2, 29)" "civil_from_days (- 1) = (1969, 12, 31)"
  by code_simp+

end
