(* ===== verification/FedClassify.thy ===== *)
theory FedClassify
  imports FederationCrypto JsOps
begin

text \<open>
  What a receiver decides about one inbound federation record without reading its tables:
  \<open>resources/federation-classify.ts\<close>, with the two rules about Agent records it uses,
  \<open>resources/agent-admin.ts\<close> and \<open>resources/agent-status-guard.ts\<close>. A record is the object that was
  received; a stored row is \<open>None\<close> when the read found none. Two objects that were read separately are
  never the same reference, so \<open>===\<close> is \<open>strict_eq\<close>.
\<close>

section \<open>Administrators\<close>

definition ADMIN_ROLE :: string where "ADMIN_ROLE = ''admin''"

definition agentRecordIsAdmin :: "js \<Rightarrow> bool" where
  "agentRecordIsAdmin rec \<longleftrightarrow> field rec ''role'' = Str ADMIN_ROLE"

definition configuredAdminAgentIds :: "string option \<Rightarrow> string set" where
  "configuredAdminAgentIds raw =
     set (filter (\<lambda>s. s \<noteq> []) (map js_trim (split_on (CHR '','') (case raw of None \<Rightarrow> [] | Some s \<Rightarrow> s))))"

definition reconcileAdminFields :: "jobj \<Rightarrow> jobj" where
  "reconcileAdminFields content =
     (if getp content ''role'' = Str ADMIN_ROLE \<or> getp content ''admin'' = Bool True
      then AList.update ''admin'' (Bool True) (AList.update ''role'' (Str ADMIN_ROLE) content)
      else AList.update ''admin'' (Bool False) content)"

definition adminFieldsDisagree :: "js \<Rightarrow> bool" where
  "adminFieldsDisagree rec \<longleftrightarrow>
     is_object rec \<and> agentRecordIsAdmin rec \<noteq> (field rec ''admin'' = Bool True)"

section \<open>The lifecycle status of a principal\<close>

definition AGENT_STATUS_FIELD :: string where "AGENT_STATUS_FIELD = ''status''"

definition effectiveAgentStatus :: "js \<Rightarrow> js" where
  "effectiveAgentStatus v = (if v = Undef then Str ''active'' else v)"

definition AGENT_STATUS_ADMIN_ONLY_ERROR :: string where
  "AGENT_STATUS_ADMIN_ONLY_ERROR =
     ''forbidden: status is administrator-only (a trusted internal call is excepted); report liveness through Presence''"

definition writeIncludesStatus :: "js \<Rightarrow> bool" where
  "writeIncludesStatus content \<longleftrightarrow> is_object content \<and> has_own content AGENT_STATUS_FIELD"

datatype write_admission = AdmitInternal | AdmitAdmin | AdmitNonAdmin | AdmitDeny

definition admitPrincipalWrite :: "js \<Rightarrow> write_admission" where
  "admitPrincipalWrite auth =
     (if \<not> is_object auth then AdmitDeny
      else if field auth ''kind'' = Str ''internal'' then AdmitInternal
      else if field auth ''kind'' = Str ''agent''
        then (if field auth ''isAdmin'' = Bool True then AdmitAdmin else AdmitNonAdmin)
      else AdmitDeny)"

definition statusWriteRefusal :: "js \<Rightarrow> bool \<Rightarrow> response option" where
  "statusWriteRefusal content callerIsAdmin =
     (if callerIsAdmin \<or> \<not> writeIncludesStatus content then None
      else Some \<lparr>status = 403, body = Obj [(''error'', Str AGENT_STATUS_ADMIN_ONLY_ERROR)],
                  headers = [(''content-type'', ''application/json'')]\<rparr>)"

section \<open>The vocabulary of skip reasons\<close>

type_synonym skip_reason = string

definition SKIP_REASON_CLASS :: "(skip_reason \<times> string) list" where
  "SKIP_REASON_CLASS =
    [(''unknown_table'', ''non_retryable''),
     (''non_originator'', ''non_retryable''),
     (''future_timestamp'', ''retryable''),
     (''no_op_same_hash'', ''non_retryable''),
     (''unknown_originator_key'', ''retryable''),
     (''invalid_signature'', ''non_retryable''),
     (''missing_signature'', ''non_retryable''),
     (''principal_mismatch'', ''non_retryable''),
     (''pointer_not_federated'', ''non_retryable''),
     (''agent_status_not_federated'', ''non_retryable''),
     (''agent_pending_key_not_federated'', ''non_retryable''),
     (''agent_identity_not_from_home'', ''non_retryable''),
     (''agent_admin_id_not_federated'', ''non_retryable''),
     (''id_mismatch'', ''non_retryable''),
     (''invalid_expiry'', ''non_retryable''),
     (''merge_target_changed'', ''retryable''),
     (''merge_target_busy'', ''retryable''),
     (''merge_error'', ''retryable''),
     (''invalid_agent_id'', ''non_retryable''),
     (''skill_not_federated'', ''non_retryable''),
     (''seed_id_not_federated'', ''non_retryable''),
     (''content_suffix_id_not_federated'', ''non_retryable''),
     (''presence_receive_disabled'', ''non_retryable''),
     (''presence_agent_not_replicated'', ''retryable''),
     (''presence_agent_homed_elsewhere'', ''non_retryable''),
     (''presence_stale_heartbeat'', ''non_retryable''),
     (''presence_invalid_shape'', ''non_retryable''),
     (''presence_future_timestamp'', ''non_retryable'')]"

definition SKIP_REASONS :: "skip_reason list" where
  "SKIP_REASONS = map fst SKIP_REASON_CLASS"

definition RETRYABLE_SKIP_REASONS :: "skip_reason list" where
  "RETRYABLE_SKIP_REASONS = filter (\<lambda>r. map_of SKIP_REASON_CLASS r = Some ''retryable'') (map fst SKIP_REASON_CLASS)"

fun isSkipReason :: "js \<Rightarrow> bool" where
  "isSkipReason (Str s) = (s \<in> set SKIP_REASONS)"
| "isSkipReason _ = False"

section \<open>Tables\<close>

definition FEDERATION_TABLE_POLICY :: "(string \<times> bool) list" where
  "FEDERATION_TABLE_POLICY =
    [(''Memory'', True), (''Soul'', False), (''Agent'', False), (''Relationship'', False), (''Message'', True),
     (''Presence'', False)]"

definition PRINCIPAL_OWNER_FIELD :: "(string \<times> string) list" where
  "PRINCIPAL_OWNER_FIELD = [(''Memory'', ''agentId''), (''Message'', ''from'')]"

definition principalOwnerField :: "string \<Rightarrow> string" where
  "principalOwnerField table = (case map_of PRINCIPAL_OWNER_FIELD table of None \<Rightarrow> ''agentId'' | Some f \<Rightarrow> f)"

definition FEDERATION_SYNC_TABLES :: "string list" where
  "FEDERATION_SYNC_TABLES = map fst FEDERATION_TABLE_POLICY"

definition PRINCIPAL_OWNING_TABLES :: "string list" where
  "PRINCIPAL_OWNING_TABLES = filter (\<lambda>t. map_of FEDERATION_TABLE_POLICY t = Some True) FEDERATION_SYNC_TABLES"

section \<open>Signed bodies\<close>

definition recordSignatureVersion :: "jobj \<Rightarrow> js" where
  "recordSignatureVersion rec = coalesce (getp rec ''v'') (Num (jint 1))"

text \<open>\<open>v >= 2\<close>\<close>

definition principal_signed :: "jobj \<Rightarrow> bool" where
  "principal_signed rec \<longleftrightarrow> js_le (Num (jint 2)) (recordSignatureVersion rec)"

definition reconstructRecordVerifyBody :: "jobj \<Rightarrow> js \<Rightarrow> jobj" where
  "reconstructRecordVerifyBody rec originator =
     (let payload = AList.delete ''signature'' (AList.delete ''v'' (AList.delete ''principalId'' rec));
          verifyPayload =
            (if principal_signed rec \<and> getp rec ''principalId'' \<noteq> Undef
             then spread payload [(''principalId'', getp rec ''principalId'')] else payload)
      in spread verifyPayload [(''v'', recordSignatureVersion rec), (''originatorInstanceId'', originator),
           (''signature'', getp rec ''signature'')])"

definition checkPrincipalEntitlement :: "jobj \<Rightarrow> bool \<Rightarrow> skip_reason option" where
  "checkPrincipalEntitlement rec enforceV1Principal =
     (case getp rec ''table'' of
        Str t \<Rightarrow>
          (if t \<notin> set PRINCIPAL_OWNING_TABLES then None
           else
             let unnamed = (case getp rec ''principalId'' of Str p \<Rightarrow> p = [] | _ \<Rightarrow> True) in
             if principal_signed rec
             then (if unnamed \<or> \<not> strict_eq (getp rec ''principalId'') (field (getp rec ''data'') (principalOwnerField t))
                   then Some ''principal_mismatch'' else None)
             else if enforceV1Principal \<and> unnamed then Some ''principal_mismatch'' else None)
      | _ \<Rightarrow> None)"

section \<open>Classification\<close>

datatype classify_result = Merge js | Skip skip_reason

definition FEDERATION_POINTER_FIELDS :: "string list" where
  "FEDERATION_POINTER_FIELDS = [''hostSource'', ''hostSourceScope'', ''hostSourceVisibility'']"

definition inboundCarriesPointer :: "js \<Rightarrow> bool" where
  "inboundCarriesPointer d \<longleftrightarrow> is_object d \<and> list_ex (\<lambda>f. field d f \<noteq> Undef) FEDERATION_POINTER_FIELDS"

text \<open>\<open>new Date(now.getTime() + 5 * 60 * 1000).toISOString()\<close>; a clock beyond the range of dates throws.\<close>

definition fiveMinFromNow :: "int \<Rightarrow> string" where
  "fiveMinFromNow now = iso_text (now + 5 * 60 * 1000)"

definition same_hash_no_op :: "jobj \<Rightarrow> jobj option \<Rightarrow> bool" where
  "same_hash_no_op rec local =
     (let remoteContentHash = field (getp rec ''data'') ''contentHash'' in
      case local of
        None \<Rightarrow> False
      | Some row \<Rightarrow>
          truthy (getp row ''contentHash'') \<and> truthy remoteContentHash \<and>
          strict_eq (getp row ''contentHash'') remoteContentHash \<and>
          js_le (getp rec ''updatedAt'') (coalesce (getp row ''updatedAt'') (Str [])))"

definition classifyRecord ::
  "jobj \<Rightarrow> js \<Rightarrow> string \<Rightarrow> jobj option \<Rightarrow> string list \<Rightarrow> int \<Rightarrow> classify_result" where
  "classifyRecord rec peerRole receiverInstanceId local knownTables now =
     (if getp rec ''table'' \<notin> Str ` set knownTables then Skip ''unknown_table''
      else if inboundCarriesPointer (getp rec ''data'') then Skip ''pointer_not_federated''
      else
        let originator = coalesce (getp rec ''originatorInstanceId'') (Str receiverInstanceId) in
        if originator \<noteq> Str receiverInstanceId \<and> peerRole \<noteq> Str ''hub'' then Skip ''non_originator''
        else if js_lt (Str (fiveMinFromNow now)) (getp rec ''updatedAt'') then Skip ''future_timestamp''
        else if same_hash_no_op rec local then Skip ''no_op_same_hash''
        else Merge originator)"

section \<open>Agent records\<close>

definition inboundChangesExistingPrincipalStatus :: "jobj \<Rightarrow> jobj option \<Rightarrow> bool" where
  "inboundChangesExistingPrincipalStatus rec local =
     (case local of
        None \<Rightarrow> False
      | Some row \<Rightarrow>
          getp rec ''table'' = Str ''Agent'' \<and> is_object (getp rec ''data'') \<and>
          \<not> strict_eq (effectiveAgentStatus (field (getp rec ''data'') ''status'')) (effectiveAgentStatus (getp row ''status'')))"

definition PENDING_PUBLIC_KEY :: string where "PENDING_PUBLIC_KEY = ''pending''"

definition inboundChangesExistingPendingKey :: "jobj \<Rightarrow> jobj option \<Rightarrow> bool" where
  "inboundChangesExistingPendingKey rec local =
     (case local of
        None \<Rightarrow> False
      | Some row \<Rightarrow>
          getp rec ''table'' = Str ''Agent'' \<and> getp row ''publicKey'' = Str PENDING_PUBLIC_KEY \<and>
          is_object (getp rec ''data'') \<and> has_own (getp rec ''data'') ''publicKey'' \<and>
          \<not> strict_eq (field (getp rec ''data'') ''publicKey'') (getp row ''publicKey''))"

definition no_home :: "js \<Rightarrow> bool" where
  "no_home v \<longleftrightarrow> v = Null \<or> v = Undef \<or> v = Str []"

definition sameAgentHome :: "js \<Rightarrow> js \<Rightarrow> bool" where
  "sameAgentHome a b \<longleftrightarrow> (no_home a \<and> no_home b) \<or> strict_eq a b"

definition senderIsAgentHome :: "jobj option \<Rightarrow> string \<Rightarrow> bool" where
  "senderIsAgentHome local senderInstanceId =
     (case local of
        None \<Rightarrow> False
      | Some row \<Rightarrow> (case getp row ''originatorInstanceId'' of Str home \<Rightarrow> home \<noteq> [] \<and> home = senderInstanceId | _ \<Rightarrow> False))"

definition inboundChangesAgentIdentity :: "jobj \<Rightarrow> jobj option \<Rightarrow> bool" where
  "inboundChangesAgentIdentity rec local =
     (case local of
        None \<Rightarrow> False
      | Some row \<Rightarrow>
          let d = getp rec ''data'' in
          getp rec ''table'' = Str ''Agent'' \<and> is_object d \<and>
          (if has_own d ''publicKey'' \<and> \<not> strict_eq (field d ''publicKey'') (getp row ''publicKey'') then True
           else has_own d ''originatorInstanceId'' \<and>
             \<not> sameAgentHome (field d ''originatorInstanceId'') (getp row ''originatorInstanceId'')))"

definition agentIdentityRefusal :: "jobj \<Rightarrow> jobj option \<Rightarrow> string \<Rightarrow> skip_reason option" where
  "agentIdentityRefusal rec local senderInstanceId =
     (if \<not> inboundChangesAgentIdentity rec local then None
      else if senderIsAgentHome local senderInstanceId then None else Some ''agent_identity_not_from_home'')"

definition agentAdminIdCreateRefusal :: "jobj \<Rightarrow> jobj option \<Rightarrow> string set \<Rightarrow> skip_reason option" where
  "agentAdminIdCreateRefusal rec local configuredAdminIds =
     (if getp rec ''table'' \<noteq> Str ''Agent'' \<or> local \<noteq> None then None
      else case getp rec ''id'' of
          Str i \<Rightarrow> if i \<in> configuredAdminIds then Some ''agent_admin_id_not_federated'' else None
        | _ \<Rightarrow> None)"

text \<open>One of the two authority fields of the row that is written: \<open>sentinel\<close> is the value that means
  administrator.\<close>

definition keep_stored_field :: "string \<Rightarrow> js \<Rightarrow> jobj \<Rightarrow> jobj \<Rightarrow> jobj" where
  "keep_stored_field k sentinel stored merged =
     (if (getp merged k = sentinel) \<noteq> (getp stored k = sentinel)
      then (if has_own (Obj stored) k then AList.update k (getp stored k) merged else AList.delete k merged)
      else merged)"

definition keepReceiverAgentAuthority :: "jobj \<Rightarrow> jobj option \<Rightarrow> jobj" where
  "keepReceiverAgentAuthority merged stored =
     (case stored of
        None \<Rightarrow>
          let m1 = (if getp merged ''role'' = Str ADMIN_ROLE then AList.delete ''role'' merged else merged) in
          if getp m1 ''admin'' = Bool True then AList.update ''admin'' (Bool False) m1 else m1
      | Some row \<Rightarrow>
          keep_stored_field ''admin'' (Bool True) row (keep_stored_field ''role'' (Str ADMIN_ROLE) row merged))"


section \<open>Lemmas\<close>

named_theorems fed_guards \<open>the guards of the Agent rules\<close>

declare inboundChangesExistingPrincipalStatus_def [fed_guards] inboundChangesAgentIdentity_def [fed_guards]
  agentIdentityRefusal_def [fed_guards] agentAdminIdCreateRefusal_def [fed_guards] senderIsAgentHome_def [fed_guards]

lemma update_same_value: "map_of m k = Some v \<Longrightarrow> AList.update k v m = m"
  by (induction m) auto

lemma map_of_rev_distinct: "distinct (map fst xs) \<Longrightarrow> map_of (rev xs) = map_of xs"
  by (subst map_of_inject_set) (simp_all flip: rev_map)

lemma agentRecordIsAdmin_Obj [simp]: "agentRecordIsAdmin (Obj ob) \<longleftrightarrow> getp ob ''role'' = Str ADMIN_ROLE"
  by (simp add: agentRecordIsAdmin_def)

lemma getp_keep_stored_field:
  "getp (keep_stored_field k sentinel stored merged) k' =
     (if k' = k \<and> (getp merged k = sentinel) \<noteq> (getp stored k = sentinel) then getp stored k else getp merged k')"
  by (auto simp: keep_stored_field_def getp_def delete_conv' update_conv' split: option.splits)

lemma classify_mergeD:
  assumes "classifyRecord rec peerRole receiver local known now = Merge originator"
  shows "getp rec ''table'' \<in> Str ` set known" "\<not> inboundCarriesPointer (getp rec ''data'')"
    "originator = coalesce (getp rec ''originatorInstanceId'') (Str receiver)"
    "originator = Str receiver \<or> peerRole = Str ''hub''"
    "\<not> js_lt (Str (fiveMinFromNow now)) (getp rec ''updatedAt'')" "\<not> same_hash_no_op rec local"
  using assms by (auto simp: classifyRecord_def Let_def split: if_splits)

lemma reasons_in:
  "classifyRecord rec peerRole receiver local known now = Skip r \<Longrightarrow> r \<in> set SKIP_REASONS"
  "checkPrincipalEntitlement rec b = Some r \<Longrightarrow> r \<in> set SKIP_REASONS"
  "agentIdentityRefusal rec local sender = Some r \<Longrightarrow> r \<in> set SKIP_REASONS"
  "agentAdminIdCreateRefusal rec local ids = Some r \<Longrightarrow> r \<in> set SKIP_REASONS"
  by (auto simp: classifyRecord_def checkPrincipalEntitlement_def fed_guards Let_def SKIP_REASONS_def SKIP_REASON_CLASS_def
      split: if_splits js.splits option.splits)

text \<open>The two spellings of administrator cannot be stored disagreeing: whatever a write body says in
  \<open>role\<close> and \<open>admin\<close>, after the reconciliation both fields agree, the record is an administrator exactly when
  either spelling asked for it, every other field is unchanged, and a second pass changes nothing.\<close>

theorem reconciled_admin_agrees:
  "\<not> adminFieldsDisagree (Obj (reconcileAdminFields r)) \<and>
   (agentRecordIsAdmin (Obj (reconcileAdminFields r)) \<longleftrightarrow> getp r ''role'' = Str ADMIN_ROLE \<or> getp r ''admin'' = Bool True) \<and>
   (k \<noteq> ''admin'' \<and> k \<noteq> ''role'' \<longrightarrow> getp (reconcileAdminFields r) k = getp r k) \<and>
   reconcileAdminFields (reconcileAdminFields r) = reconcileAdminFields r"
  by (simp add: reconcileAdminFields_def adminFieldsDisagree_def update_same_value update_conv')

lemma reconciled_admin_agrees_witness:
  "agentRecordIsAdmin (Obj (reconcileAdminFields [(''role'', Str ''COO''), (''admin'', Bool True)])) \<and>
   getp (reconcileAdminFields [(''name'', Str ''x''), (''admin'', Bool True)]) ''name'' = Str ''x''"
  using reconciled_admin_agrees [of "[(''role'', Str ''COO''), (''admin'', Bool True)]" "''name''"]
    reconciled_admin_agrees [of "[(''name'', Str ''x''), (''admin'', Bool True)]" "''name''"]
  by simp

section \<open>The record a spoke signs\<close>

text \<open>What the push of \<open>src/commands/federation.ts\<close> signs and sends for one row; \<open>prin\<close> is the value of
  \<open>principalIdFromRow\<close>.\<close>

definition push_fields :: "string \<Rightarrow> jobj \<Rightarrow> string \<Rightarrow> jobj" where
  "push_fields table row inst =
     [(''v'', Num (jint 2)), (''table'', Str table), (''id'', getp row ''id''), (''data'', Obj row),
      (''updatedAt'', coalesce (getp row ''updatedAt'') (getp row ''createdAt'')), (''originatorInstanceId'', Str inst)]"

definition signed_payload :: "string \<Rightarrow> jobj \<Rightarrow> string \<Rightarrow> js \<Rightarrow> jobj" where
  "signed_payload table row inst prin =
     push_fields table row inst @ (if truthy prin then [(''principalId'', prin)] else [])"

definition push_record :: "crypto \<Rightarrow> string \<Rightarrow> string \<Rightarrow> jobj \<Rightarrow> string \<Rightarrow> js \<Rightarrow> jobj" where
  "push_record cr secretKey table row inst prin =
     push_fields table row inst @ [(''signature'', Str (signBody cr (signed_payload table row inst prin) secretKey))] @
     (if truthy prin then [(''principalId'', prin)] else [])"

text \<open>C37. A record that a spoke signs verifies at the receiver: the body the receiver rebuilds from the
  received record, its properties in any order, is the signed one, for every table, row and principal, with
  and without a principal id, whichever peer relayed it.\<close>

theorem record_signature_roundtrip:
  assumes law: "\<forall>m. sign_detached cr m sk \<noteq> [] \<and> verify_detached cr m (Str (sign_detached cr m sk)) pk"
    and wire: "distinct (map fst rec)" "map_of rec = map_of (push_record cr sk table row inst prin)"
  shows "verifyBodySignature cr (reconstructRecordVerifyBody rec (Str inst)) pk"
proof -
  let ?p = "signed_payload table row inst prin"
  let ?sig = "Str (signBody cr ?p sk)"
  let ?b = "reconstructRecordVerifyBody rec (Str inst)"
  have g: "getp rec k = getp (push_record cr sk table row inst prin) k" for k by (simp add: getp_def wire(2))
  have v: "recordSignatureVersion rec = Num (jint 2)" "principal_signed rec"
    by (simp_all add: recordSignatureVersion_def principal_signed_def g push_record_def push_fields_def coalesce_def)
  have m: "map_of ?b k = map_of (?p @ [(''signature'', ?sig)]) k" for k
    using v by (cases "truthy prin")
      (auto simp: reconstructRecordVerifyBody_def spread_def Let_def update_conv' delete_conv' g wire(2) push_record_def
        signed_payload_def push_fields_def)
  have d: "distinct (map fst ?b)" using wire(1) by (auto simp: reconstructRecordVerifyBody_def Let_def)
  have p: "distinct (map fst ?p)" "map_of ?p ''signature'' = None" by (simp_all add: signed_payload_def push_fields_def)
  have r: "map_of (AList.delete ''signature'' ?b) = map_of ?p"
    using p(2) by (auto simp: delete_conv' fun_eq_iff m map_add_def split: option.splits)
  have "canonicalize (Obj (AList.delete ''signature'' ?b)) = canonicalize (Obj ?p)"
    using mset_eq_by_map_of [OF _ p(1) r] d by (intro sort_keys_perm) auto
  moreover have "getp ?b ''signature'' = ?sig" using p(2) by (simp add: getp_def m map_add_def)
  ultimately show ?thesis using law by (simp add: verifyBodySignature_def signBody_def)
qed

definition demo_crypto :: crypto where
  "demo_crypto = \<lparr>sign_detached = \<lambda>m k. k @ m, verify_detached = \<lambda>m s k. s = Str (k @ m), sha256_hex = \<lambda>m. m\<rparr>"

lemma record_signature_roundtrip_witness:
  "verifyBodySignature demo_crypto
     (reconstructRecordVerifyBody
        (rev (push_record demo_crypto ''k'' ''Memory'' [(''id'', Str ''m1''), (''updatedAt'', Str ''2026-01-01'')] ''spoke'' (Str ''a1'')))
        (Str ''spoke'')) ''k''"
proof (rule record_signature_roundtrip)
  let ?r = "push_record demo_crypto ''k'' ''Memory'' [(''id'', Str ''m1''), (''updatedAt'', Str ''2026-01-01'')] ''spoke'' (Str ''a1'')"
  have d: "distinct (map fst ?r)" by (simp add: push_record_def push_fields_def)
  show "distinct (map fst (rev ?r))" using d by (simp flip: rev_map)
  show "map_of (rev ?r) = map_of ?r" by (rule map_of_rev_distinct [OF d])
qed (simp add: demo_crypto_def)

end
