(* ===== verification/PresenceReceipt.thy ===== *)
theory PresenceReceipt
  imports FedClassify
begin

text \<open>
  Presence replication: what a spoke sends (\<open>src/federation/presence-send.ts\<close>) and what the receiver
  validates, merges and refuses (\<open>resources/presence-receipt.ts\<close>). A \<open>bigint\<close> column value is modelled as the
  number it holds; \<open>Date.parse\<close> is a parameter; the clock is an argument, in milliseconds.
\<close>

section \<open>Receiving: flag, vocabulary and caps\<close>

definition flag_on :: "string option \<Rightarrow> bool" where
  "flag_on v =
     (let raw = js_lower (js_trim (case v of None \<Rightarrow> [] | Some s \<Rightarrow> s)) in
      raw = ''1'' \<or> raw = ''true'' \<or> raw = ''yes'' \<or> raw = ''on'')"

definition presenceReceiveEnabled :: "(string \<Rightarrow> string option) \<Rightarrow> bool" where
  "presenceReceiveEnabled env = flag_on (env ''FLAIR_FEDERATION_PRESENCE_RECEIVE'')"

definition PRESENCE_ACTIVITIES :: "string list" where
  "PRESENCE_ACTIVITIES = [''coding'', ''reviewing'', ''planning'', ''debugging'', ''idle'']"

definition PRESENCE_CURRENT_TASK_MAX_LENGTH :: nat where "PRESENCE_CURRENT_TASK_MAX_LENGTH = 200"

fun sanitizePresenceCurrentTask :: "js \<Rightarrow> js" where
  "sanitizePresenceCurrentTask (Str s) =
     (let trimmed = js_trim s in if trimmed = [] then Null else Str (take PRESENCE_CURRENT_TASK_MAX_LENGTH trimmed))"
| "sanitizePresenceCurrentTask _ = Null"

definition PRESENCE_FUTURE_ALLOWANCE_MS :: int where "PRESENCE_FUTURE_ALLOWANCE_MS = 5 * 60 * 1000"
definition PRESENCE_VERSION_MAX_LENGTH :: nat where "PRESENCE_VERSION_MAX_LENGTH = 64"

fun finiteNumber :: "js \<Rightarrow> rat option" where
  "finiteNumber (Num (Fin q)) = Some q"
| "finiteNumber _ = None"

fun presenceMs :: "js \<Rightarrow> rat option" where
  "presenceMs (Num (Fin q)) = Some q"
| "presenceMs (Str s) = (if js_trim s = [] then None else case js_Number s of Fin q \<Rightarrow> Some q | _ \<Rightarrow> None)"
| "presenceMs _ = None"

fun presenceVersion :: "js \<Rightarrow> js" where
  "presenceVersion (Str s) = (if length s \<le> PRESENCE_VERSION_MAX_LENGTH then Str s else Null)"
| "presenceVersion _ = Null"

section \<open>Receiving: home, validation and merge\<close>

definition presenceHomeBindingReason :: "jobj option \<Rightarrow> string \<Rightarrow> skip_reason option" where
  "presenceHomeBindingReason agentRow senderInstanceId =
     (case agentRow of
        None \<Rightarrow> Some ''presence_agent_not_replicated''
      | Some row \<Rightarrow>
          (case getp row ''originatorInstanceId'' of
             Str home \<Rightarrow> if home = [] \<or> home \<noteq> senderInstanceId then Some ''presence_agent_homed_elsewhere'' else None
           | _ \<Rightarrow> Some ''presence_agent_homed_elsewhere''))"

definition too_far_ahead :: "rat \<Rightarrow> int \<Rightarrow> bool" where
  "too_far_ahead q receivedAt \<longleftrightarrow> of_int (receivedAt + PRESENCE_FUTURE_ALLOWANCE_MS) < q"

definition bad_activity :: "js \<Rightarrow> bool" where
  "bad_activity v \<longleftrightarrow> \<not> nullish v \<and> v \<notin> Str ` set PRESENCE_ACTIVITIES"

text \<open>The optional stamp of the activity: its value, or why the record is refused.\<close>

definition activity_stamp :: "js \<Rightarrow> int \<Rightarrow> skip_reason + rat option" where
  "activity_stamp v receivedAt =
     (if nullish v then Inr None
      else case finiteNumber v of
          None \<Rightarrow> Inl ''presence_invalid_shape''
        | Some q \<Rightarrow> if too_far_ahead q receivedAt then Inl ''presence_future_timestamp'' else Inr (Some q))"

definition opt_num :: "rat option \<Rightarrow> js" where
  "opt_num v = (case v of None \<Rightarrow> Null | Some q \<Rightarrow> Num (Fin q))"

definition validatePresenceReceipt :: "string \<Rightarrow> js \<Rightarrow> int \<Rightarrow> string \<Rightarrow> skip_reason + jobj" where
  "validatePresenceReceipt recordId d receivedAt senderInstanceId =
     (case d of
        Obj _ \<Rightarrow>
          (case field d ''agentId'' of
             Str agentId \<Rightarrow>
               (if agentId = [] \<or> agentId \<noteq> recordId then Inl ''presence_invalid_shape''
                else case finiteNumber (field d ''lastHeartbeatAt'') of
                    None \<Rightarrow> Inl ''presence_invalid_shape''
                  | Some hb \<Rightarrow>
                      if too_far_ahead hb receivedAt then Inl ''presence_future_timestamp''
                      else if bad_activity (field d ''activity'') then Inl ''presence_invalid_shape''
                      else (case activity_stamp (field d ''activityUpdatedAt'') receivedAt of
                          Inl r \<Rightarrow> Inl r
                        | Inr aut \<Rightarrow> Inr (
                            [(''agentId'', Str agentId), (''lastHeartbeatAt'', Num (Fin hb)),
                             (''currentTask'', sanitizePresenceCurrentTask (field d ''currentTask'')),
                             (''activityUpdatedAt'', opt_num aut),
                             (''flairVersion'', presenceVersion (field d ''flairVersion'')),
                             (''harperVersion'', presenceVersion (field d ''harperVersion'')),
                             (''originatorInstanceId'', Str senderInstanceId), (''receivedAt'', Num (jint receivedAt))] @
                            (case field d ''activity'' of Str a \<Rightarrow> [(''activity'', Str a)] | _ \<Rightarrow> []))))
           | _ \<Rightarrow> Inl ''presence_invalid_shape'')
      | _ \<Rightarrow> Inl ''presence_invalid_shape'')"

definition stored_ms :: "jobj option \<Rightarrow> string \<Rightarrow> rat option" where
  "stored_ms local k = (case local of None \<Rightarrow> None | Some row \<Rightarrow> presenceMs (getp row k))"

definition stale_heartbeat :: "jobj option \<Rightarrow> jobj \<Rightarrow> bool" where
  "stale_heartbeat local incoming =
     (case stored_ms local ''lastHeartbeatAt'' of
        None \<Rightarrow> False
      | Some localHb \<Rightarrow>
          js_lt (getp incoming ''lastHeartbeatAt'') (Num (Fin localHb)) \<or>
          (strict_eq (getp incoming ''lastHeartbeatAt'') (Num (Fin localHb)) \<and>
           (case (stored_ms local ''activityUpdatedAt'', presenceMs (getp incoming ''activityUpdatedAt'')) of
              (Some localAut, Some incAut) \<Rightarrow> incAut < localAut | _ \<Rightarrow> False)))"

text \<open>On a heartbeat tie the incoming activity replaces the stored one only with a strictly newer stamp.\<close>

definition keep_stored_activity :: "jobj option \<Rightarrow> jobj \<Rightarrow> bool" where
  "keep_stored_activity local incoming =
     (let incAut = presenceMs (getp incoming ''activityUpdatedAt''); localAut = stored_ms local ''activityUpdatedAt'';
          tied = (case stored_ms local ''lastHeartbeatAt'' of
              None \<Rightarrow> False | Some localHb \<Rightarrow> strict_eq (getp incoming ''lastHeartbeatAt'') (Num (Fin localHb)));
          newer = (case incAut of None \<Rightarrow> False | Some a \<Rightarrow> (case localAut of None \<Rightarrow> True | Some b \<Rightarrow> b < a))
      in tied \<and> \<not> newer)"

definition merged_stamp :: "jobj option \<Rightarrow> jobj \<Rightarrow> rat option" where
  "merged_stamp local incoming =
     (let incAut = presenceMs (getp incoming ''activityUpdatedAt''); localAut = stored_ms local ''activityUpdatedAt'' in
      if keep_stored_activity local incoming then localAut
      else case incAut of None \<Rightarrow> localAut | Some a \<Rightarrow> (case localAut of None \<Rightarrow> Some a | Some b \<Rightarrow> Some (max a b)))"

text \<open>The stored activity when it is text, else \<open>Undef\<close>.\<close>

definition stored_activity :: "jobj option \<Rightarrow> js" where
  "stored_activity local =
     (case local of None \<Rightarrow> Undef | Some row \<Rightarrow> (case getp row ''activity'' of Str a \<Rightarrow> Str a | _ \<Rightarrow> Undef))"

definition merged_activity :: "jobj option \<Rightarrow> jobj \<Rightarrow> js" where
  "merged_activity local incoming =
     (if keep_stored_activity local incoming
      then coalesce (stored_activity local) (coalesce (getp incoming ''activity'') (Str ''idle''))
      else coalesce (coalesce (getp incoming ''activity'') (stored_activity local)) (Str ''idle''))"

definition merged_task :: "jobj option \<Rightarrow> jobj \<Rightarrow> js" where
  "merged_task local incoming =
     (if keep_stored_activity local incoming
      then coalesce (case local of None \<Rightarrow> Undef | Some row \<Rightarrow> getp row ''currentTask'') Null
      else coalesce (getp incoming ''currentTask'') Null)"

definition mergePresenceReceipt :: "jobj option \<Rightarrow> jobj \<Rightarrow> int \<Rightarrow> skip_reason + jobj" where
  "mergePresenceReceipt local incoming receivedAt =
     (if stale_heartbeat local incoming then Inl ''presence_stale_heartbeat''
      else Inr
        [(''agentId'', getp incoming ''agentId''), (''lastHeartbeatAt'', getp incoming ''lastHeartbeatAt''),
         (''currentTask'', merged_task local incoming), (''activity'', merged_activity local incoming),
         (''activityUpdatedAt'', opt_num (merged_stamp local incoming)),
         (''flairVersion'', coalesce (getp incoming ''flairVersion'') Null),
         (''harperVersion'', coalesce (getp incoming ''harperVersion'') Null),
         (''originatorInstanceId'', coalesce (getp incoming ''originatorInstanceId'') Null),
         (''receivedAt'', Num (jint receivedAt))])"

definition presenceWriteHomeRefusal :: "jobj option \<Rightarrow> string option \<Rightarrow> (string \<times> string) option" where
  "presenceWriteHomeRefusal agentRow localInstanceId =
     (case (case agentRow of None \<Rightarrow> Undef | Some row \<Rightarrow> getp row ''originatorInstanceId'') of
        Str home \<Rightarrow>
          (if home = [] \<or> localInstanceId = Some home then None
           else Some (''presence_agent_homed_elsewhere'',
             ''this agent's presence is homed on another instance; write it there''))
      | _ \<Rightarrow> None)"

section \<open>Sending\<close>

definition PRESENCE_SEND_FUTURE_ALLOWANCE_MS :: int where "PRESENCE_SEND_FUTURE_ALLOWANCE_MS = 5 * 60 * 1000"
definition PRESENCE_SEND_OVERLAP_MS :: int where "PRESENCE_SEND_OVERLAP_MS = 30 * 1000"

definition PRESENCE_SEND_RETRYABLE_SKIP_REASONS :: "string list" where
  "PRESENCE_SEND_RETRYABLE_SKIP_REASONS =
    [''future_timestamp'', ''unknown_originator_key'', ''merge_target_changed'', ''merge_target_busy'',
     ''merge_error'', ''presence_agent_not_replicated'']"

definition PRESENCE_SEND_RECEIVE_DISABLED_SKIP_REASON :: string where
  "PRESENCE_SEND_RECEIVE_DISABLED_SKIP_REASON = ''presence_receive_disabled''"

definition presenceSendEnabled :: "(string \<Rightarrow> string option) \<Rightarrow> bool" where
  "presenceSendEnabled env = flag_on (env ''FLAIR_FEDERATION_PRESENCE_SEND'')"

fun toMs :: "js \<Rightarrow> rat option" where
  "toMs (Num (Fin q)) = Some q"
| "toMs (Str s) = (if js_trim s = [] then None else case js_Number s of Fin q \<Rightarrow> Some q | _ \<Rightarrow> None)"
| "toMs _ = None"

definition presenceCursorMs :: "jobj \<Rightarrow> rat option" where
  "presenceCursorMs row =
     (let cursor = (case (toMs (getp row ''lastHeartbeatAt''), toMs (getp row ''activityUpdatedAt'')) of
          (None, activity) \<Rightarrow> activity
        | (heartbeat, None) \<Rightarrow> heartbeat
        | (Some h, Some a) \<Rightarrow> Some (max h a))
      in case cursor of None \<Rightarrow> None | Some c \<Rightarrow> if \<bar>c\<bar> \<le> of_int MAX_DATE_MS then Some c else None)"

definition presenceWatermarkMs :: "(string \<Rightarrow> rat option) \<Rightarrow> js \<Rightarrow> rat" where
  "presenceWatermarkMs date_parse v =
     (case v of Str s \<Rightarrow> (if js_trim s = [] then 0 else case date_parse s of None \<Rightarrow> 0 | Some ms \<Rightarrow> ms) | _ \<Rightarrow> 0)"

definition selectPresenceRowsToSend :: "jobj list \<Rightarrow> string \<Rightarrow> rat \<Rightarrow> jobj list" where
  "selectPresenceRowsToSend rows instanceId watermarkMs =
     filter (\<lambda>row. getp row ''originatorInstanceId'' = Str instanceId \<and>
       (case presenceCursorMs row of None \<Rightarrow> False | Some c \<Rightarrow> watermarkMs < c)) rows"

text \<open>The loop over the stamps of a row that is sent.\<close>

fun normalize_stamps :: "string list \<Rightarrow> jobj \<Rightarrow> jobj option" where
  "normalize_stamps [] d = Some d"
| "normalize_stamps (k # ks) d =
     (if k \<noteq> ''lastHeartbeatAt'' \<and> nullish (getp d k) then normalize_stamps ks d
      else case toMs (getp d k) of
          None \<Rightarrow> None
        | Some t \<Rightarrow> normalize_stamps ks (AList.update k (Num (Fin t)) d))"

text \<open>\<open>new Date(q)\<close> drops the fraction of a millisecond.\<close>

definition whole_ms :: "rat \<Rightarrow> int" where
  "whole_ms q = (if 0 \<le> q then \<lfloor>q\<rfloor> else - \<lfloor>- q\<rfloor>)"

definition presenceWireRecord :: "jobj \<Rightarrow> string \<Rightarrow> jobj option" where
  "presenceWireRecord row instanceId =
     (case (getp row ''agentId'', presenceCursorMs row) of
        (Str agentId, Some cursor) \<Rightarrow>
          (if agentId = [] then None
           else case normalize_stamps [''lastHeartbeatAt'', ''activityUpdatedAt'', ''receivedAt'']
                  (spread row [(''id'', Str agentId), (''agentId'', Str agentId)]) of
               None \<Rightarrow> None
             | Some d \<Rightarrow> Some
                 [(''v'', Num (jint 2)), (''table'', Str ''Presence''), (''id'', Str agentId), (''data'', Obj d),
                  (''updatedAt'', Str (iso_text (whole_ms cursor))), (''originatorInstanceId'', Str instanceId)])
      | _ \<Rightarrow> None)"


section \<open>What is sent is accepted\<close>

lemma normalize_stampsD:
  assumes "normalize_stamps ks d = Some d'"
  shows "getp d' k = (if k \<notin> set ks \<or> (k \<noteq> ''lastHeartbeatAt'' \<and> nullish (getp d k)) then getp d k
      else Num (Fin (the (toMs (getp d k)))))"
    "k \<in> set ks \<Longrightarrow> k \<noteq> ''lastHeartbeatAt'' \<and> nullish (getp d k) \<or> toMs (getp d k) \<noteq> None"
proof -
  have "getp d' k = (if k \<notin> set ks \<or> (k \<noteq> ''lastHeartbeatAt'' \<and> nullish (getp d k)) then getp d k
        else Num (Fin (the (toMs (getp d k))))) \<and>
      (k \<in> set ks \<longrightarrow> k \<noteq> ''lastHeartbeatAt'' \<and> nullish (getp d k) \<or> toMs (getp d k) \<noteq> None)"
    using assms
  proof (induction ks arbitrary: d)
    case (Cons a ks)
    then show ?case
      using Cons.IH [of d] Cons.IH [of "AList.update a (Num (Fin (the (toMs (getp d a))))) d"]
      by (auto split: if_splits option.splits)
  qed simp
  then show "getp d' k = (if k \<notin> set ks \<or> (k \<noteq> ''lastHeartbeatAt'' \<and> nullish (getp d k)) then getp d k
      else Num (Fin (the (toMs (getp d k)))))"
    "k \<in> set ks \<Longrightarrow> k \<noteq> ''lastHeartbeatAt'' \<and> nullish (getp d k) \<or> toMs (getp d k) \<noteq> None" by auto
qed

lemma cursor_bounds:
  assumes "presenceCursorMs row = Some c"
  shows "toMs (getp row ''lastHeartbeatAt'') = Some h \<Longrightarrow> h \<le> c" "toMs (getp row ''activityUpdatedAt'') = Some a \<Longrightarrow> a \<le> c"
  using assms by (auto simp: presenceCursorMs_def Let_def split: option.splits if_splits)

text \<open>A presence row that a spoke puts on the wire is accepted: when the row's cursor is within the
  sender's allowance of its scan and the receiver's clock is not behind that scan, the receiver's validation of
  the wire record succeeds, keeps the agent and the heartbeat, and homes the row on the verified sender,
  whatever other properties the row has; an activity must be absent or from the vocabulary.\<close>

theorem presence_wire_accepted:
  assumes w: "presenceWireRecord row inst = Some rec" and c: "presenceCursorMs row = Some c"
    and ahead: "c \<le> of_int (scanAt + PRESENCE_SEND_FUTURE_ALLOWANCE_MS)" "scanAt \<le> receivedAt"
    and act: "\<not> bad_activity (getp row ''activity'')"
  shows "\<exists>i d v. getp rec ''table'' = Str ''Presence'' \<and> getp rec ''id'' = Str i \<and> getp rec ''data'' = Obj d \<and> getp d ''id'' = Str i \<and>
     getp row ''agentId'' = Str i \<and> validatePresenceReceipt i (Obj d) receivedAt sender = Inr v \<and>
     getp v ''agentId'' = Str i \<and> Some (getp v ''lastHeartbeatAt'') = map_option (\<lambda>q. Num (Fin q)) (toMs (getp row ''lastHeartbeatAt'')) \<and>
     getp v ''originatorInstanceId'' = Str sender"
proof -
  obtain i where i: "getp row ''agentId'' = Str i" "i \<noteq> []" using w by (auto simp: presenceWireRecord_def split: js.splits option.splits if_splits)
  let ?d0 = "spread row [(''id'', Str i), (''agentId'', Str i)]" and ?ks = "[''lastHeartbeatAt'', ''activityUpdatedAt'', ''receivedAt'']"
  obtain d where d: "normalize_stamps ?ks ?d0 = Some d" and rec: "getp rec ''table'' = Str ''Presence''" "getp rec ''id'' = Str i" "getp rec ''data'' = Obj d"
    using w i c by (auto simp: presenceWireRecord_def split: option.splits)
  have g0: "getp ?d0 k = (if k = ''id'' \<or> k = ''agentId'' then Str i else getp row k)" for k by (simp add: spread_def)
  note n = normalize_stampsD [OF d]
  obtain h where h: "toMs (getp row ''lastHeartbeatAt'') = Some h" using n(2) [of "''lastHeartbeatAt''"] by (auto simp: g0)
  have gd: "getp d ''id'' = Str i" "getp d ''agentId'' = Str i" "getp d ''lastHeartbeatAt'' = Num (Fin h)"
    "getp d ''activity'' = getp row ''activity''"
    using n(1) by (simp_all add: g0 h)
  have le: "q \<le> c \<Longrightarrow> \<not> too_far_ahead q receivedAt" for q
    using ahead by (auto simp: too_far_ahead_def PRESENCE_SEND_FUTURE_ALLOWANCE_MS_def PRESENCE_FUTURE_ALLOWANCE_MS_def)
  have hb: "\<not> too_far_ahead h receivedAt" by (rule le, rule cursor_bounds(1) [OF c h])
  obtain aut where aut: "activity_stamp (getp d ''activityUpdatedAt'') receivedAt = Inr aut"
  proof (cases "nullish (getp row ''activityUpdatedAt'')")
    case True
    then have "activity_stamp (getp d ''activityUpdatedAt'') receivedAt = Inr None" using n(1) by (simp add: g0 activity_stamp_def)
    then show ?thesis by (rule that)
  next
    case False
    then obtain a where a: "toMs (getp row ''activityUpdatedAt'') = Some a" using n(2) [of "''activityUpdatedAt''"] by (auto simp: g0)
    then have "getp d ''activityUpdatedAt'' = Num (Fin a)" using n(1) False by (simp add: g0)
    moreover have "\<not> too_far_ahead a receivedAt" by (rule le, rule cursor_bounds(2) [OF c a])
    ultimately have "activity_stamp (getp d ''activityUpdatedAt'') receivedAt = Inr (Some a)" by (simp add: activity_stamp_def)
    then show ?thesis by (rule that)
  qed
  have "\<exists>v. validatePresenceReceipt i (Obj d) receivedAt sender = Inr v \<and> getp v ''agentId'' = Str i \<and>
      getp v ''lastHeartbeatAt'' = Num (Fin h) \<and> getp v ''originatorInstanceId'' = Str sender"
    using i(2) hb act aut by (auto simp: validatePresenceReceipt_def gd)
  then show ?thesis using rec gd(1) i(1) h by auto
qed

section \<open>What is stored\<close>

definition receive_presence :: "jobj \<times> int \<Rightarrow> jobj option \<Rightarrow> jobj option" where
  "receive_presence r local = (case mergePresenceReceipt local (fst r) (snd r) of Inl _ \<Rightarrow> local | Inr row \<Rightarrow> Some row)"

definition heartbeat_of :: "jobj \<Rightarrow> rat" where
  "heartbeat_of row = the (finiteNumber (getp row ''lastHeartbeatAt''))"

lemma presenceMs_opt_num [simp]: "presenceMs (opt_num v) = v"
  by (cases v) (simp_all add: opt_num_def)

lemma receive_heartbeat:
  assumes "getp inc ''lastHeartbeatAt'' = Num (Fin q)"
    and "local = None \<or> (\<exists>row. local = Some row \<and> getp row ''lastHeartbeatAt'' = Num (Fin h))"
  shows "\<exists>row. receive_presence (inc, t) local = Some row \<and>
    getp row ''lastHeartbeatAt'' = Num (Fin (if local = None then q else max h q))"
  using assms
  by (auto simp: receive_presence_def mergePresenceReceipt_def stale_heartbeat_def stored_ms_def max_def split: option.splits)

lemma receive_stamp_mono:
  "case stored_ms local ''activityUpdatedAt'' of None \<Rightarrow> True
   | Some b \<Rightarrow> \<exists>c. stored_ms (receive_presence (inc, t) local) ''activityUpdatedAt'' = Some c \<and> b \<le> c"
proof (cases "stale_heartbeat local inc")
  case True
  then show ?thesis by (auto simp: receive_presence_def mergePresenceReceipt_def split: option.splits)
next
  case False
  then have "stored_ms (receive_presence (inc, t) local) ''activityUpdatedAt'' = merged_stamp local inc"
    by (simp add: receive_presence_def mergePresenceReceipt_def stored_ms_def)
  then show ?thesis by (auto simp: merged_stamp_def Let_def split: option.splits)
qed

lemma receive_all_heartbeat:
  assumes "\<forall>r \<in> set rs. \<exists>q. getp (fst r) ''lastHeartbeatAt'' = Num (Fin q)" "getp row ''lastHeartbeatAt'' = Num (Fin h)"
  shows "\<exists>row'. fold receive_presence rs (Some row) = Some row' \<and>
    getp row' ''lastHeartbeatAt'' = Num (Fin (Max (insert h (heartbeat_of ` fst ` set rs))))"
  using assms
proof (induction rs arbitrary: row h)
  case (Cons r rs)
  obtain q where q: "getp (fst r) ''lastHeartbeatAt'' = Num (Fin q)" using Cons.prems(1) by auto
  obtain row1 where r1: "receive_presence r (Some row) = Some row1" "getp row1 ''lastHeartbeatAt'' = Num (Fin (max h q))"
    using receive_heartbeat [OF q, of "Some row" h "snd r"] Cons.prems(2) by auto
  have "Max (insert (max h q) (heartbeat_of ` fst ` set rs)) = Max (insert h (heartbeat_of ` fst ` set (r # rs)))"
    using q by (cases "set rs = {}") (simp_all add: heartbeat_of_def max.assoc)
  then show ?case using Cons.IH [OF _ r1(2)] Cons.prems(1) r1(1) by simp
qed simp

text \<open>Presence replication converges on the latest heartbeat: after any receipts, in any order and with
  any repetitions, the stored heartbeat is the latest one received, and no receipt lowers the stored activity
  stamp.\<close>

theorem presence_converges:
  assumes "rs \<noteq> []" "\<forall>r \<in> set rs. \<exists>q. getp (fst r) ''lastHeartbeatAt'' = Num (Fin q)"
  shows "\<exists>row. fold receive_presence rs None = Some row \<and>
     getp row ''lastHeartbeatAt'' = Num (Fin (Max (heartbeat_of ` fst ` set rs))) \<and>
     (\<forall>r b. stored_ms (Some row) ''activityUpdatedAt'' = Some b \<longrightarrow>
        (\<exists>c. stored_ms (receive_presence r (Some row)) ''activityUpdatedAt'' = Some c \<and> b \<le> c))"
proof -
  obtain r rs' where r: "rs = r # rs'" using assms(1) by (cases rs) auto
  obtain q where q: "getp (fst r) ''lastHeartbeatAt'' = Num (Fin q)" using assms(2) r by auto
  obtain row1 where r1: "receive_presence r None = Some row1" "getp row1 ''lastHeartbeatAt'' = Num (Fin q)"
    using receive_heartbeat [OF q, of None undefined "snd r"] by auto
  obtain row where row: "fold receive_presence rs' (Some row1) = Some row"
    "getp row ''lastHeartbeatAt'' = Num (Fin (Max (insert q (heartbeat_of ` fst ` set rs'))))"
    using receive_all_heartbeat [OF _ r1(2), of rs'] assms(2) r by auto
  have "Max (heartbeat_of ` fst ` set rs) = Max (insert q (heartbeat_of ` fst ` set rs'))" using q by (simp add: r heartbeat_of_def)
  moreover have "\<exists>c. stored_ms (receive_presence k (Some row)) ''activityUpdatedAt'' = Some c \<and> b \<le> c"
    if "stored_ms (Some row) ''activityUpdatedAt'' = Some b" for k b
    using receive_stamp_mono [where local = "Some row" and inc = "fst k" and t = "snd k"] that by simp
  ultimately show ?thesis using row r1 by (auto simp: r)
qed

definition demo_presence :: "rat \<Rightarrow> jobj" where
  "demo_presence q = [(''agentId'', Str ''a1''), (''lastHeartbeatAt'', Num (Fin q)), (''activityUpdatedAt'', Num (Fin q))]"

lemma presence_converges_witness:
  "\<exists>row. fold receive_presence [(demo_presence 5, 9), (demo_presence 7, 10), (demo_presence 6, 11)] None = Some row \<and>
     getp row ''lastHeartbeatAt'' = Num (Fin 7)"
  using presence_converges [of "[(demo_presence 5, 9), (demo_presence 7, 10), (demo_presence 6, 11)]"]
  by (simp add: demo_presence_def heartbeat_of_def) blast

lemma presence_wire_accepted_witness:
  "\<exists>rec i d v. presenceWireRecord (demo_presence 5) ''spoke'' = Some rec \<and> getp rec ''id'' = Str i \<and> getp rec ''data'' = Obj d \<and>
     validatePresenceReceipt i (Obj d) 7 ''spoke'' = Inr v"
proof -
  have c: "presenceCursorMs (demo_presence 5) = Some 5" by (simp add: presenceCursorMs_def demo_presence_def MAX_DATE_MS_def)
  obtain rec where r: "presenceWireRecord (demo_presence 5) ''spoke'' = Some rec"
    by (simp add: presenceWireRecord_def c) (simp add: demo_presence_def spread_def)
  then show ?thesis
    using presence_wire_accepted [OF r c, of 6 7 "''spoke''"]
    by (auto simp: PRESENCE_SEND_FUTURE_ALLOWANCE_MS_def bad_activity_def demo_presence_def)
qed

end
