(* ===== verification/WriteBack.thy ===== *)
theory WriteBack
  imports FederationCrypto JsOps
begin

text \<open>
  Writing back a row that was read, planned over and may have changed meanwhile: \<open>resources/write-back.ts\<close>.
  The stored row of one id is an \<open>option\<close>; other writers change it between any two steps of a write-back. The
  database commits the staged row or, when another write was committed after the last check, may drop it
  although the commit resolves; what it stores for a staged put or update is the parameter \<open>table\<close>.
\<close>

section \<open>Comparing rows\<close>

text \<open>\<open>isDeepStrictEqual\<close>: the same value up to the order of properties.\<close>

definition isDeepStrictEqual :: "js \<Rightarrow> js \<Rightarrow> bool" where
  "isDeepStrictEqual a b \<longleftrightarrow> sortKeys a = sortKeys b"

definition WRITE_BACK_IDENTITY_FIELDS :: "string list" where
  "WRITE_BACK_IDENTITY_FIELDS = [''id'', ''agentId'', ''instanceToken'', ''contentHash'', ''createdAt'']"

definition sameStoredRow :: "jobj option \<Rightarrow> jobj option \<Rightarrow> bool" where
  "sameStoredRow row basis =
     (case (row, basis) of
        (None, None) \<Rightarrow> True
      | (Some r, Some b) \<Rightarrow>
          js_String (getp r ''id'') = js_String (getp b ''id'') \<and> strict_eq (getp r ''agentId'') (getp b ''agentId'') \<and>
          strict_eq (getp r ''instanceToken'') (getp b ''instanceToken'') \<and>
          strict_eq (getp r ''contentHash'') (getp b ''contentHash'') \<and> strict_eq (getp r ''createdAt'') (getp b ''createdAt'')
      | _ \<Rightarrow> False)"

definition storedRowChangedRefusal :: "string \<Rightarrow> response" where
  "storedRowChangedRefusal tableName =
     \<lparr>status = 409, body = Obj [(''error'', Str ''stored_row_changed''),
        (''message'', Str (tableName @ '' row changed since it was read; not written''))],
      headers = [(''content-type'', ''application/json'')]\<rparr>"

definition writeBackIdentity :: "jobj \<Rightarrow> jobj" where
  "writeBackIdentity row = map (\<lambda>k. (k, getp row k)) WRITE_BACK_IDENTITY_FIELDS"

definition WRITE_BACK_ATTEMPTS :: nat where "WRITE_BACK_ATTEMPTS = 3"

definition js_of_row :: "jobj option \<Rightarrow> js" where
  "js_of_row row = (case row of None \<Rightarrow> Undef | Some r \<Rightarrow> Obj r)"

definition row_field :: "jobj option \<Rightarrow> string \<Rightarrow> js" where
  "row_field row k = (case row of None \<Rightarrow> Undef | Some r \<Rightarrow> getp r k)"

definition committedShowsFields :: "jobj option \<Rightarrow> jobj option \<Rightarrow> jobj \<Rightarrow> bool" where
  "committedShowsFields committed ident fs \<longleftrightarrow>
     sameStoredRow committed ident \<and> list_all (\<lambda>(k, v). isDeepStrictEqual (row_field committed k) v) fs"

datatype committed_verdict = Shown | Mismatch | Unreadable

text \<open>The committed read is \<open>None\<close> when it throws.\<close>

definition verifyCommittedFields ::
  "jobj option option \<Rightarrow> jobj option \<Rightarrow> jobj \<Rightarrow> (jobj \<Rightarrow> bool) option \<Rightarrow> committed_verdict" where
  "verifyCommittedFields fresh_read ident fs also_ok =
     (case fresh_read of
        None \<Rightarrow> Unreadable
      | Some None \<Rightarrow> Mismatch
      | Some (Some row) \<Rightarrow>
          if (case also_ok of None \<Rightarrow> True | Some f \<Rightarrow> f row) \<and> committedShowsFields (Some row) ident fs then Shown
          else Mismatch)"

definition HARPER_MANAGED_FIELDS :: "string list" where
  "HARPER_MANAGED_FIELDS = [''__createdtime__'', ''__updatedtime__'']"

definition withoutHarperManagedFields :: "jobj \<Rightarrow> jobj" where
  "withoutHarperManagedFields row = fold AList.delete HARPER_MANAGED_FIELDS row"

section \<open>Write grants\<close>

definition GRANTED_CLOSE_REVOKED :: string where "GRANTED_CLOSE_REVOKED = ''granted_close_revoked''"

definition grantedCloseRevokedRefusal :: response where
  "grantedCloseRevokedRefusal =
     \<lparr>status = 409, body = Obj [(''error'', Str GRANTED_CLOSE_REVOKED),
        (''message'', Str ''the write grant authorizing this close was revoked; not written'')],
      headers = [(''content-type'', ''application/json'')]\<rparr>"

text \<open>The rows of the grants of one grantee and owner as the search yields them, \<open>None\<close> where it throws.\<close>

fun writeGrantHeld :: "js option list \<Rightarrow> bool" where
  "writeGrantHeld [] = False"
| "writeGrantHeld (None # gs) = False"
| "writeGrantHeld (Some g # gs) = (if field g ''scope'' = Str ''write'' then True else writeGrantHeld gs)"

section \<open>Plans and options\<close>

text \<open>The evidence of a plan: idempotent (\<open>None\<close>) or the field that carries the marker of the attempt.\<close>

datatype wb_plan =
    WbWrite jobj "string option"
  | WbUpdate jobj "string option"
  | WbSkip "string option"

fun plan_marker :: "wb_plan \<Rightarrow> string option" where
  "plan_marker (WbWrite _ m) = m"
| "plan_marker (WbUpdate _ m) = m"
| "plan_marker (WbSkip _) = None"

fun plan_values :: "wb_plan \<Rightarrow> jobj" where
  "plan_values (WbWrite v _) = v"
| "plan_values (WbUpdate v _) = v"
| "plan_values (WbSkip _) = []"

record wb_opts =
  wb_attempts :: nat
  wb_matches :: "(jobj option \<Rightarrow> bool) option"
  wb_matchFields :: "string list"
  wb_wholeRow :: bool
  wb_verifyAlso :: "(jobj option \<Rightarrow> bool) option"

definition sameTarget :: "wb_opts \<Rightarrow> jobj option \<Rightarrow> jobj option \<Rightarrow> bool" where
  "sameTarget opts basis row =
     (case row of
        None \<Rightarrow> basis = None
      | Some r \<Rightarrow>
          (case basis of
             None \<Rightarrow> False
           | Some b \<Rightarrow>
               sameStoredRow row basis \<and> (\<not> wb_wholeRow opts \<or> isDeepStrictEqual (Obj r) (Obj b)) \<and>
               list_all (\<lambda>k. isDeepStrictEqual (getp r k) (getp b k)) (wb_matchFields opts)))"

text \<open>The values that are staged: a plan that is not idempotent carries the id of the attempt.\<close>

definition staged_values :: "wb_plan \<Rightarrow> string \<Rightarrow> jobj" where
  "staged_values p writeId =
     (case plan_marker p of None \<Rightarrow> plan_values p | Some m \<Rightarrow> AList.update m (Str writeId) (plan_values p))"

definition update_identity :: "jobj \<Rightarrow> jobj \<Rightarrow> jobj" where
  "update_identity patch basis =
     fold (\<lambda>k acc. if has_own (Obj patch) k then AList.update k (getp patch k) acc else acc) WRITE_BACK_IDENTITY_FIELDS basis"

definition committedShowsWrite :: "jobj option \<Rightarrow> jobj option \<Rightarrow> wb_plan \<Rightarrow> string \<Rightarrow> bool" where
  "committedShowsWrite committed basis p writeId =
     (let marked = (case plan_marker p of None \<Rightarrow> True | Some m \<Rightarrow> row_field committed m = Str writeId);
          is_marker = (\<lambda>k. plan_marker p = Some k);
          managed = (\<lambda>k. k \<in> set HARPER_MANAGED_FIELDS) in
      case p of
        WbSkip _ \<Rightarrow> True
      | WbUpdate patch _ \<Rightarrow>
          marked \<and> sameStoredRow committed (map_option (update_identity patch) basis) \<and>
          list_all (\<lambda>(k, v). is_marker k \<or> isDeepStrictEqual (row_field committed k) v) patch
      | WbWrite row _ \<Rightarrow>
          marked \<and> sameStoredRow committed (Some row) \<and>
          list_all (\<lambda>(k, v). managed k \<or> is_marker k \<or> isDeepStrictEqual (row_field committed k) v) row \<and>
          (case committed of None \<Rightarrow> True
           | Some c \<Rightarrow> list_all (\<lambda>k. managed k \<or> has_own (Obj row) k \<or> is_marker k) (map fst c)))"

section \<open>A write-back as a process\<close>

datatype wb_result =
    Applied wb_plan
  | Skipped "string option"
  | Conflict nat
  | Unconfirmed nat
  | Failed

datatype wb_phase =
    WbBegin nat
  | WbStaged nat "jobj option" wb_plan string
  | WbConfirmed nat "jobj option" wb_plan string
  | WbCommitted nat wb_plan string
  | WbDone wb_result

text \<open>The committed row, the phase, and what was observed of the run: the commits of this call, the attempts that
  committed, the row the last verification read, whether another writer was active since the last confirmation, and the steps
  this call has made.\<close>

record wb_world =
  wb_store :: "jobj option"
  wb_phase :: wb_phase
  wb_commits :: nat
  wb_by :: "nat list"
  wb_seen :: "jobj option"
  wb_clean :: bool
  wb_steps :: nat

text \<open>What the database stores when a staged plan is committed over a row.\<close>

type_synonym wb_table = "wb_plan \<Rightarrow> string \<Rightarrow> jobj option \<Rightarrow> jobj option"

text \<open>The part inside the transaction up to the staged write: \<open>row\<close> is the transaction's read, \<open>can_update\<close>
  says that the table has an incremental update.\<close>

definition wb_stage :: "wb_opts \<Rightarrow> bool \<Rightarrow> jobj option \<Rightarrow> nat \<Rightarrow> jobj option \<Rightarrow> wb_plan \<Rightarrow> string \<Rightarrow> wb_phase" where
  "wb_stage opts can_update basis a row p writeId =
     (if (case wb_matches opts of None \<Rightarrow> False | Some f \<Rightarrow> \<not> f row) then WbDone (Skipped None)
      else case p of
          WbSkip reason \<Rightarrow> WbDone (Skipped reason)
        | _ \<Rightarrow>
            if \<not> sameTarget opts basis row then WbDone (Conflict a)
            else if plan_marker p = Some [] then WbDone Failed
            else if (case p of WbUpdate _ _ \<Rightarrow> \<not> can_update | _ \<Rightarrow> False) then WbDone Failed
            else WbStaged a row p writeId)"

text \<open>\<open>confirmCommittedRow\<close>: the committed row, read afresh, must be the one the transaction read.\<close>

definition wb_confirm :: "wb_opts \<Rightarrow> nat \<Rightarrow> jobj option \<Rightarrow> wb_plan \<Rightarrow> string \<Rightarrow> jobj option \<Rightarrow> wb_phase" where
  "wb_confirm opts a row p writeId committed =
     (if isDeepStrictEqual (js_of_row committed) (js_of_row row) then WbConfirmed a row p writeId
      else if wb_attempts opts \<le> a then WbDone (Conflict (wb_attempts opts)) else WbBegin (a + 1))"

text \<open>The verification after the commit; \<open>None\<close> is a read that throws.\<close>

definition wb_verify :: "wb_opts \<Rightarrow> jobj option \<Rightarrow> nat \<Rightarrow> wb_plan \<Rightarrow> string \<Rightarrow> jobj option option \<Rightarrow> wb_phase" where
  "wb_verify opts basis a p writeId fresh_read =
     (case fresh_read of
        None \<Rightarrow> if plan_marker p \<noteq> None then WbDone (Unconfirmed a) else WbDone Failed
      | Some committed \<Rightarrow>
          if \<not> committedShowsWrite committed basis p writeId \<or>
             (case wb_verifyAlso opts of None \<Rightarrow> False | Some f \<Rightarrow> \<not> f committed)
          then (if plan_marker p \<noteq> None then WbDone (Unconfirmed a)
                else if wb_attempts opts \<le> a then WbDone (Unconfirmed (wb_attempts opts)) else WbBegin (a + 1))
          else WbDone (Applied p))"

inductive wb_step ::
  "wb_opts \<Rightarrow> bool \<Rightarrow> (jobj option \<Rightarrow> wb_plan set) \<Rightarrow> jobj option \<Rightarrow> wb_table \<Rightarrow> wb_world \<Rightarrow> wb_world \<Rightarrow> bool"
  for opts can_update plan basis table
where
  others: "wb_step opts can_update plan basis table w (w\<lparr>wb_store := s, wb_clean := False\<rparr>)"
| stage: "wb_phase w = WbBegin a \<Longrightarrow> p \<in> plan (wb_store w) \<Longrightarrow>
    wb_step opts can_update plan basis table w
      (w\<lparr>wb_phase := wb_stage opts can_update basis a (wb_store w) p writeId, wb_steps := wb_steps w + 1\<rparr>)"
| confirm: "wb_phase w = WbStaged a row p i \<Longrightarrow>
    wb_step opts can_update plan basis table w
      (w\<lparr>wb_phase := wb_confirm opts a row p i (wb_store w), wb_clean := True, wb_steps := wb_steps w + 1\<rparr>)"
| landed: "wb_phase w = WbConfirmed a row p i \<Longrightarrow>
    wb_step opts can_update plan basis table w
      (w\<lparr>wb_phase := WbCommitted a p i, wb_store := table p i (wb_store w), wb_commits := wb_commits w + 1,
         wb_by := a # wb_by w, wb_steps := wb_steps w + 1\<rparr>)"
| dropped: "wb_phase w = WbConfirmed a row p i \<Longrightarrow> \<not> wb_clean w \<Longrightarrow>
    wb_step opts can_update plan basis table w
      (w\<lparr>wb_phase := WbCommitted a p i, wb_commits := wb_commits w + 1, wb_by := a # wb_by w, wb_steps := wb_steps w + 1\<rparr>)"
| aborted: "wb_phase w = WbBegin a \<or> wb_phase w = WbStaged a row p i \<or> wb_phase w = WbConfirmed a row p i \<Longrightarrow>
    wb_step opts can_update plan basis table w (w\<lparr>wb_phase := WbDone Failed, wb_steps := wb_steps w + 1\<rparr>)"
| verify: "wb_phase w = WbCommitted a p i \<Longrightarrow> r = None \<or> r = Some (wb_store w) \<Longrightarrow>
    wb_step opts can_update plan basis table w
      (w\<lparr>wb_phase := wb_verify opts basis a p i r, wb_seen := wb_store w, wb_steps := wb_steps w + 1\<rparr>)"

definition wb_start :: "jobj option \<Rightarrow> wb_world" where
  "wb_start s = \<lparr>wb_store = s, wb_phase = WbBegin 1, wb_commits = 0, wb_by = [], wb_seen = None, wb_clean = False, wb_steps = 0\<rparr>"

inductive wb_reach ::
  "wb_opts \<Rightarrow> bool \<Rightarrow> (jobj option \<Rightarrow> wb_plan set) \<Rightarrow> jobj option \<Rightarrow> wb_table \<Rightarrow> wb_world \<Rightarrow> bool"
  for opts can_update plan basis table
where
  start: "wb_reach opts can_update plan basis table (wb_start s)"
| step: "wb_reach opts can_update plan basis table w \<Longrightarrow> wb_step opts can_update plan basis table w w' \<Longrightarrow>
    wb_reach opts can_update plan basis table w'"


section \<open>The invariant of a write-back\<close>

inductive_cases wb_stepE: "wb_step opts can_update plan basis table w w'"

lemma isDeepStrictEqual_refl [simp]: "isDeepStrictEqual v v"
  by (simp add: isDeepStrictEqual_def)

text \<open>\<open>planned\<close>: the plan was made over a row that is still the basis, and writes.\<close>

definition planned :: "wb_opts \<Rightarrow> (jobj option \<Rightarrow> wb_plan set) \<Rightarrow> jobj option \<Rightarrow> jobj option \<Rightarrow> wb_plan \<Rightarrow> bool" where
  "planned opts plan basis row p \<longleftrightarrow> sameTarget opts basis row \<and> p \<in> plan row \<and> (\<forall>r. p \<noteq> WbSkip r)"

fun phase_ok :: "wb_opts \<Rightarrow> (jobj option \<Rightarrow> wb_plan set) \<Rightarrow> jobj option \<Rightarrow> wb_world \<Rightarrow> wb_phase \<Rightarrow> bool" where
  "phase_ok opts plan basis w (WbBegin a) =
     (1 \<le> a \<and> a \<le> wb_attempts opts \<and> wb_commits w < a \<and> wb_steps w \<le> 4 * (a - 1))"
| "phase_ok opts plan basis w (WbStaged a row p i) =
     (1 \<le> a \<and> a \<le> wb_attempts opts \<and> wb_commits w < a \<and> wb_steps w \<le> 4 * (a - 1) + 1 \<and> planned opts plan basis row p)"
| "phase_ok opts plan basis w (WbConfirmed a row p i) =
     (1 \<le> a \<and> a \<le> wb_attempts opts \<and> wb_commits w < a \<and> wb_steps w \<le> 4 * (a - 1) + 2 \<and> planned opts plan basis row p \<and>
      (wb_clean w \<longrightarrow> isDeepStrictEqual (js_of_row (wb_store w)) (js_of_row row)))"
| "phase_ok opts plan basis w (WbCommitted a p i) =
     (1 \<le> a \<and> a \<le> wb_attempts opts \<and> 1 \<le> wb_commits w \<and> wb_commits w \<le> a \<and> wb_steps w \<le> 4 * (a - 1) + 3 \<and>
      (\<exists>row. planned opts plan basis row p))"
| "phase_ok opts plan basis w (WbDone r) =
     (wb_steps w \<le> 4 * wb_attempts opts \<and>
      (case r of
         Applied p \<Rightarrow> 1 \<le> wb_commits w \<and> (\<exists>row. planned opts plan basis row p) \<and>
           (\<exists>i. committedShowsWrite (wb_seen w) basis p i) \<and> (case wb_verifyAlso opts of None \<Rightarrow> True | Some f \<Rightarrow> f (wb_seen w))
       | Conflict n \<Rightarrow> wb_commits w < n \<and> n \<le> wb_attempts opts
       | Skipped r \<Rightarrow> r = None \<or> (\<exists>row. WbSkip r \<in> plan row)
       | _ \<Rightarrow> True))"

lemma stage_ok:
  assumes "phase_ok opts plan basis w (WbBegin a)" "p \<in> plan (wb_store w)"
  shows "phase_ok opts plan basis (w\<lparr>wb_phase := x, wb_steps := wb_steps w + 1\<rparr>) (wb_stage opts can_update basis a (wb_store w) p i)"
proof (cases p)
  case (WbSkip r)
  then have "\<exists>row. WbSkip r \<in> plan row" using assms(2) by auto
  then show ?thesis using assms(1) WbSkip by (auto simp: wb_stage_def)
qed (use assms in \<open>auto simp: wb_stage_def planned_def\<close>)

lemma confirm_ok:
  assumes "phase_ok opts plan basis w (WbStaged a row p i)"
  shows "phase_ok opts plan basis (w\<lparr>wb_phase := x, wb_clean := True, wb_steps := wb_steps w + 1\<rparr>)
    (wb_confirm opts a row p i (wb_store w))"
  using assms by (auto simp: wb_confirm_def)

lemma verify_ok:
  assumes "phase_ok opts plan basis w (WbCommitted a p i)" "r = None \<or> r = Some (wb_store w)"
  shows "phase_ok opts plan basis (w\<lparr>wb_phase := x, wb_seen := wb_store w, wb_steps := wb_steps w + 1\<rparr>) (wb_verify opts basis a p i r)"
  using assms by (auto simp: wb_verify_def split: option.splits)

lemma step_ok:
  assumes "wb_step opts can_update plan basis table w w'" "phase_ok opts plan basis w (wb_phase w)"
  shows "phase_ok opts plan basis w' (wb_phase w')"
  using assms(1)
proof cases
  case (others s)
  then show ?thesis using assms(2) by (cases "wb_phase w") (auto split: wb_result.splits option.splits)
next
  case (stage a p i)
  then show ?thesis using stage_ok assms(2) by fastforce
next
  case (confirm a row p i)
  then show ?thesis using confirm_ok assms(2) by fastforce
next
  case (verify a p i r)
  then show ?thesis using verify_ok assms(2) by fastforce
qed (use assms(2) in \<open>auto split: wb_result.splits\<close>)

lemma reach_ok:
  assumes "wb_reach opts can_update plan basis table w" "1 \<le> wb_attempts opts"
  shows "phase_ok opts plan basis w (wb_phase w)"
  using assms(1)
proof induction
  case (start s)
  then show ?case using assms(2) by (simp add: wb_start_def)
next
  case (step w w')
  then show ?case by (blast intro: step_ok)
qed

text \<open>The attempts that committed: one entry for each commit, each of an attempt up to the current one, and of an earlier one
  until the current one commits.\<close>

fun attempts_before :: "wb_phase \<Rightarrow> nat \<Rightarrow> bool" where
  "attempts_before (WbBegin a) b \<longleftrightarrow> b < a"
| "attempts_before (WbStaged a _ _ _) b \<longleftrightarrow> b < a"
| "attempts_before (WbConfirmed a _ _ _) b \<longleftrightarrow> b < a"
| "attempts_before (WbCommitted a _ _) b \<longleftrightarrow> b \<le> a"
| "attempts_before (WbDone (Conflict n)) b \<longleftrightarrow> b < n"
| "attempts_before (WbDone _) b \<longleftrightarrow> True"

definition commits_ok :: "wb_opts \<Rightarrow> wb_world \<Rightarrow> bool" where
  "commits_ok opts w \<longleftrightarrow> length (wb_by w) = wb_commits w \<and> (\<forall>b \<in> set (wb_by w). attempts_before (wb_phase w) b) \<and>
     (case wb_phase w of WbBegin a \<Rightarrow> a \<le> wb_attempts opts | WbStaged a _ _ _ \<Rightarrow> a \<le> wb_attempts opts
        | WbConfirmed a _ _ _ \<Rightarrow> a \<le> wb_attempts opts | WbCommitted a _ _ \<Rightarrow> a \<le> wb_attempts opts | WbDone _ \<Rightarrow> True)"

lemma stage_commits:
  assumes "commits_ok opts w" "wb_phase w = WbBegin a"
  shows "commits_ok opts (w\<lparr>wb_phase := wb_stage opts can_update basis a (wb_store w) p i, wb_steps := k\<rparr>)"
  using assms by (cases p) (auto simp: commits_ok_def wb_stage_def)

lemma confirm_commits:
  assumes "commits_ok opts w" "wb_phase w = WbStaged a row p i"
  shows "commits_ok opts (w\<lparr>wb_phase := wb_confirm opts a row p i (wb_store w), wb_clean := c, wb_steps := k\<rparr>)"
  using assms by (fastforce simp: commits_ok_def wb_confirm_def)

lemma verify_commits:
  assumes "commits_ok opts w" "wb_phase w = WbCommitted a p i"
  shows "commits_ok opts (w\<lparr>wb_phase := wb_verify opts basis a p i r, wb_seen := s, wb_steps := k\<rparr>)"
  using assms by (fastforce simp: commits_ok_def wb_verify_def split: option.splits)

lemma reach_commits:
  assumes "wb_reach opts can_update plan basis table w" "1 \<le> wb_attempts opts"
  shows "commits_ok opts w"
  using assms(1)
proof induction
  case (start s)
  then show ?case using assms(2) by (simp add: wb_start_def commits_ok_def)
next
  case (step w w')
  from step(2) show ?case
  proof cases
    case (stage a p i)
    then show ?thesis using stage_commits step.IH by metis
  next
    case (confirm a row p i)
    then show ?thesis using confirm_commits step.IH by metis
  next
    case (verify a p i r)
    then show ?thesis using verify_commits step.IH by metis
  qed (use step.IH in \<open>auto simp: commits_ok_def split: wb_phase.splits\<close>)
qed

section \<open>What a write-back guarantees\<close>

text \<open>C2. A write-back loses no update, in every interleaving with other writers. Each commit of the call is of a plan that the attempt
  made over the row it read, which was still the row the caller selected (the same identity, fields and, where asked, whole row);
  and if no other writer was active between the attempt's last check and its commit, that row is what the commit replaces, by what
  the table stores for the plan. When the call ends in a conflict of attempt \<open>n\<close>, every commit it made was of an attempt
  before \<open>n\<close>: the refusing attempt committed nothing.\<close>

theorem write_back_no_lost_update:
  assumes "wb_reach opts can_update plan basis table w" "1 \<le> wb_attempts opts"
  shows "(\<forall>w'. wb_step opts can_update plan basis table w w' \<and> wb_commits w' \<noteq> wb_commits w \<longrightarrow>
       (\<exists>a row p i. wb_phase w = WbConfirmed a row p i \<and> wb_by w' = a # wb_by w \<and> sameTarget opts basis row \<and> p \<in> plan row \<and>
          (wb_clean w \<longrightarrow> isDeepStrictEqual (js_of_row (wb_store w)) (js_of_row row) \<and> wb_store w' = table p i (wb_store w)))) \<and>
     (\<forall>n. wb_phase w = WbDone (Conflict n) \<longrightarrow>
       n \<le> wb_attempts opts \<and> length (wb_by w) = wb_commits w \<and> (\<forall>b \<in> set (wb_by w). b < n))"
proof (intro conjI allI impI; (elim conjE)?)
  note ok = reach_ok [OF assms] and coms = reach_commits [OF assms]
  show "\<exists>a row p i. wb_phase w = WbConfirmed a row p i \<and> wb_by w' = a # wb_by w \<and> sameTarget opts basis row \<and> p \<in> plan row \<and>
      (wb_clean w \<longrightarrow> isDeepStrictEqual (js_of_row (wb_store w)) (js_of_row row) \<and> wb_store w' = table p i (wb_store w))"
    if "wb_step opts can_update plan basis table w w'" "wb_commits w' \<noteq> wb_commits w" for w'
    using that(1)
  proof cases
    case (landed a row p i)
    then show ?thesis using ok by (auto simp: planned_def)
  next
    case (dropped a row p i)
    then show ?thesis using ok by (auto simp: planned_def)
  qed (use that(2) in simp_all)
  fix n
  assume "wb_phase w = WbDone (Conflict n)"
  then show "n \<le> wb_attempts opts" "length (wb_by w) = wb_commits w" "\<forall>b \<in> set (wb_by w). b < n"
    using ok coms by (simp_all add: commits_ok_def)
qed

text \<open>A write-back that answers that it applied its plan did: its transaction was committed, and the
  committed row read afterwards shows every field the plan wrote (and, for a full row, no other field but the
  database's own), in every interleaving with other writers.\<close>

theorem applied_write_is_shown:
  assumes "wb_reach opts can_update plan basis table w" "1 \<le> wb_attempts opts" "wb_phase w = WbDone (Applied p)"
  shows "1 \<le> wb_commits w \<and> (\<exists>row. sameTarget opts basis row \<and> p \<in> plan row) \<and>
     (\<forall>v k x. p = WbUpdate v None \<and> (k, x) \<in> set v \<longrightarrow> isDeepStrictEqual (row_field (wb_seen w) k) x) \<and>
     (\<forall>v. p = WbWrite v None \<longrightarrow>
        (\<exists>c. wb_seen w = Some c \<and> (\<forall>k x. (k, x) \<in> set v \<and> k \<notin> set HARPER_MANAGED_FIELDS \<longrightarrow> isDeepStrictEqual (getp c k) x) \<and>
           (\<forall>k \<in> fst ` set c. k \<in> set HARPER_MANAGED_FIELDS \<or> k \<in> fst ` set v)))"
proof -
  have ok: "phase_ok opts plan basis w (WbDone (Applied p))" using reach_ok [OF assms(1,2)] assms(3) by simp
  then obtain i row where i: "committedShowsWrite (wb_seen w) basis p i" and row: "planned opts plan basis row p" "1 \<le> wb_commits w" by auto
  have "isDeepStrictEqual (row_field (wb_seen w) k) x" if "p = WbUpdate v None" "(k, x) \<in> set v" for v k x
    using i that by (auto simp: committedShowsWrite_def list_all_iff)
  moreover have "\<exists>c. wb_seen w = Some c \<and> (\<forall>k x. (k, x) \<in> set v \<and> k \<notin> set HARPER_MANAGED_FIELDS \<longrightarrow> isDeepStrictEqual (getp c k) x) \<and>
           (\<forall>k \<in> fst ` set c. k \<in> set HARPER_MANAGED_FIELDS \<or> k \<in> fst ` set v)" if p: "p = WbWrite v None" for v
  proof -
    obtain c where c: "wb_seen w = Some c" using i p by (auto simp: committedShowsWrite_def sameStoredRow_def split: option.splits)
    have own: "(\<exists>y. map_of v k = Some y) \<longleftrightarrow> k \<in> fst ` set v" for k by (metis not_None_eq map_of_eq_None_iff)
    have "\<forall>(k, x) \<in> set v. k \<in> set HARPER_MANAGED_FIELDS \<or> isDeepStrictEqual (getp c k) x"
      "\<forall>k \<in> fst ` set c. k \<in> set HARPER_MANAGED_FIELDS \<or> k \<in> fst ` set v"
      using i unfolding p c by (simp_all add: committedShowsWrite_def list_all_iff row_field_def own)
    then show ?thesis using c by blast
  qed
  ultimately show ?thesis using row by (auto simp: planned_def)
qed

text \<open>C32. A write-back ends: it makes at most four steps of its own per attempt, and while it has not ended
  it can always make one, whatever the other writers do, provided the plan decides every row.\<close>

theorem write_back_terminates:
  assumes "wb_reach opts can_update plan basis table w" "1 \<le> wb_attempts opts" "\<forall>row. plan row \<noteq> {}"
  shows "wb_steps w \<le> 4 * wb_attempts opts \<and>
     ((\<exists>r. wb_phase w = WbDone r) \<or>
      (\<exists>w'. wb_step opts can_update plan basis table w w' \<and> wb_steps w' = wb_steps w + 1))"
proof -
  note ok = reach_ok [OF assms(1,2)]
  have "wb_steps w \<le> 4 * wb_attempts opts" using ok by (cases "wb_phase w") auto
  moreover have "(\<exists>r. wb_phase w = WbDone r) \<or>
      (\<exists>w'. wb_step opts can_update plan basis table w w' \<and> wb_steps w' = wb_steps w + 1)"
  proof (cases "wb_phase w")
    case (WbBegin a)
    obtain p where p: "p \<in> plan (wb_store w)" using assms(3) by blast
    show ?thesis using wb_step.stage [where w = w and plan = plan, OF WbBegin p] by fastforce
  next
    case (WbStaged a row p i)
    show ?thesis using wb_step.confirm [where w = w and plan = plan, OF WbStaged] by fastforce
  next
    case (WbConfirmed a row p i)
    show ?thesis using wb_step.landed [where w = w and plan = plan, OF WbConfirmed] by fastforce
  next
    case (WbCommitted a p i)
    show ?thesis using wb_step.verify [where w = w and r = None, OF WbCommitted] by fastforce
  qed blast
  ultimately show ?thesis by blast
qed


definition demo_stored :: "int \<Rightarrow> jobj" where
  "demo_stored n = [(''id'', Str ''m1''), (''n'', Num (jint n))]"

definition demo_wb_opts :: wb_opts where
  "demo_wb_opts = \<lparr>wb_attempts = 1, wb_matches = None, wb_matchFields = [], wb_wholeRow = True, wb_verifyAlso = None\<rparr>"

abbreviation demo_plan_wb :: wb_plan where
  "demo_plan_wb \<equiv> WbWrite (demo_stored 2) None"

definition demo_wb_world :: "wb_phase \<Rightarrow> int \<Rightarrow> nat \<Rightarrow> jobj option \<Rightarrow> bool \<Rightarrow> nat \<Rightarrow> wb_world" where
  "demo_wb_world ph n c s cl k = \<lparr>wb_store = Some (demo_stored n), wb_phase = ph, wb_commits = c, wb_by = replicate c 1, wb_seen = s, wb_clean = cl, wb_steps = k\<rparr>"

abbreviation demo_wb_reach :: "wb_world \<Rightarrow> bool" where
  "demo_wb_reach \<equiv> wb_reach demo_wb_opts True (\<lambda>row. {demo_plan_wb}) (Some (demo_stored 1)) (\<lambda>p i s. Some (plan_values p))"

lemma demo_wb_run:
  "demo_wb_reach (demo_wb_world (WbConfirmed 1 (Some (demo_stored 1)) demo_plan_wb []) 1 0 None True 2)"
  "demo_wb_reach (demo_wb_world (WbDone (Applied demo_plan_wb)) 2 1 (Some (demo_stored 2)) True 4)"
proof -
  let ?step = "wb_step demo_wb_opts True (\<lambda>row. {demo_plan_wb}) (Some (demo_stored 1)) (\<lambda>p i s. Some (plan_values p))"
  let ?w0 = "demo_wb_world (WbBegin 1) 1 0 None False 0"
  let ?w1 = "demo_wb_world (WbStaged 1 (Some (demo_stored 1)) demo_plan_wb []) 1 0 None False 1"
  let ?w2 = "demo_wb_world (WbConfirmed 1 (Some (demo_stored 1)) demo_plan_wb []) 1 0 None True 2"
  let ?w3 = "demo_wb_world (WbCommitted 1 demo_plan_wb []) 2 1 None True 3"
  let ?w4 = "demo_wb_world (WbDone (Applied demo_plan_wb)) 2 1 (Some (demo_stored 2)) True 4"
  have r0: "demo_wb_reach ?w0"
    using wb_reach.start [of demo_wb_opts True "\<lambda>row. {demo_plan_wb}" "Some (demo_stored 1)" _ "Some (demo_stored 1)"]
    by (simp add: wb_start_def demo_wb_world_def)
  have "?step ?w0 ?w1"
    using wb_step.stage [where w = ?w0 and a = 1 and plan = "\<lambda>row. {demo_plan_wb}" and p = demo_plan_wb and opts = demo_wb_opts
        and basis = "Some (demo_stored 1)" and can_update = True and writeId = "[]"]
    by (simp add: demo_wb_world_def wb_stage_def sameTarget_def sameStoredRow_def demo_wb_opts_def demo_stored_def)
  moreover have "?step ?w1 ?w2"
    using wb_step.confirm [where w = ?w1 and opts = demo_wb_opts and row = "Some (demo_stored 1)" and a = 1 and p = demo_plan_wb and i = "[]"]
    by (simp add: demo_wb_world_def wb_confirm_def numeral_2_eq_2)
  moreover have "?step ?w2 ?w3"
    using wb_step.landed [where w = ?w2 and row = "Some (demo_stored 1)" and a = 1 and p = demo_plan_wb and i = "[]"
        and table = "\<lambda>p i s. Some (plan_values p)"]
    by (simp add: demo_wb_world_def)
  moreover have "?step ?w3 ?w4"
    using wb_step.verify [where w = ?w3 and opts = demo_wb_opts and a = 1 and p = demo_plan_wb and i = "[]" and basis = "Some (demo_stored 1)"
        and r = "Some (Some (demo_stored 2))"]
    by (simp add: demo_wb_world_def wb_verify_def committedShowsWrite_def sameStoredRow_def demo_wb_opts_def row_field_def demo_stored_def)
  ultimately show "demo_wb_reach ?w2" "demo_wb_reach ?w4" using r0 by (blast intro: wb_reach.step)+
qed

lemma write_back_no_lost_update_witness:
  "wb_store (demo_wb_world (WbCommitted 1 demo_plan_wb []) 2 1 None True 3) = Some (demo_stored 2) \<and>
   sameTarget demo_wb_opts (Some (demo_stored 1)) (Some (demo_stored 1))"
proof -
  let ?w2 = "demo_wb_world (WbConfirmed 1 (Some (demo_stored 1)) demo_plan_wb []) 1 0 None True 2"
  let ?w3 = "demo_wb_world (WbCommitted 1 demo_plan_wb []) 2 1 None True 3"
  have "wb_step demo_wb_opts True (\<lambda>row. {demo_plan_wb}) (Some (demo_stored 1)) (\<lambda>p i s. Some (plan_values p)) ?w2 ?w3"
    using wb_step.landed [where w = ?w2 and row = "Some (demo_stored 1)" and a = 1 and p = demo_plan_wb and i = "[]"
        and table = "\<lambda>p i s. Some (plan_values p)"]
    by (simp add: demo_wb_world_def)
  moreover have "1 \<le> wb_attempts demo_wb_opts" "wb_commits ?w3 \<noteq> wb_commits ?w2" by (simp_all add: demo_wb_world_def demo_wb_opts_def)
  ultimately have "\<exists>a row p i. wb_phase ?w2 = WbConfirmed a row p i \<and> sameTarget demo_wb_opts (Some (demo_stored 1)) row"
    using write_back_no_lost_update [OF demo_wb_run(1)] by blast
  then show ?thesis by (simp add: demo_wb_world_def)
qed

lemma applied_write_is_shown_witness:
  "\<exists>c. wb_seen (demo_wb_world (WbDone (Applied demo_plan_wb)) 2 1 (Some (demo_stored 2)) True 4) = Some c \<and>
     isDeepStrictEqual (getp c ''n'') (Num (jint 2))"
  using applied_write_is_shown [OF demo_wb_run(2), of demo_plan_wb]
  by (simp add: demo_wb_world_def demo_wb_opts_def demo_stored_def)

lemma write_back_terminates_witness:
  "wb_steps (demo_wb_world (WbDone (Applied demo_plan_wb)) 2 1 (Some (demo_stored 2)) True 4) \<le> 4"
  using write_back_terminates [OF demo_wb_run(2)] by (simp add: demo_wb_opts_def)

end
