(* ===== verification/MemDurability.thy ===== *)
theory MemDurability
  imports FederationCrypto JsOps
begin

text \<open>
  The durability tiers of a Memory row and the expiry an ephemeral one carries
  (\<open>resources/memory-durability.ts\<close>), and the attributes a Memory row may hold
  (\<open>src/lib/memory-attributes.ts\<close>, \<open>resources/memory-declared-attributes.ts\<close>). \<open>Date.parse\<close> is the argument
  \<open>date_parse\<close> (\<open>None\<close> for \<open>NaN\<close>), the clock an argument in milliseconds.
\<close>

section \<open>Tiers\<close>

definition WRITABLE_DURABILITIES :: "string list" where
  "WRITABLE_DURABILITIES = [''permanent'', ''persistent'', ''standard'', ''ephemeral'']"

definition assertValidDurability :: "js \<Rightarrow> string option" where
  "assertValidDurability durability =
     (if nullish durability then None
      else if durability \<in> Str ` set WRITABLE_DURABILITIES then None
      else Some (''durability must be '' @
        join_with '' or '' (map (\<lambda>v. [CHR 34] @ v @ [CHR 34]) WRITABLE_DURABILITIES) @ '' (got: '' @
        (case json_stringify durability of None \<Rightarrow> ''undefined'' | Some t \<Rightarrow> t) @ ''). Omit it to use the default '' @
        [CHR 34] @ ''standard'' @ [CHR 34] @ ''.''))"

section \<open>The expiry of an ephemeral row\<close>

definition MS_PER_HOUR :: int where "MS_PER_HOUR = 3600000"

definition take_digits :: "nat \<Rightarrow> string \<Rightarrow> (string \<times> string) option" where
  "take_digits n s = (if n \<le> length s \<and> list_all is_digit (take n s) then Some (take n s, drop n s) else None)"

definition expect :: "string \<Rightarrow> string \<Rightarrow> string option" where
  "expect pre s = (if starts_with pre s then Some (drop (length pre) s) else None)"

definition take_year :: "string \<Rightarrow> (string \<times> string) option" where
  "take_year s =
     (case s of
        c # cs \<Rightarrow>
          if c = CHR ''+'' \<or> c = CHR ''-'' then map_option (\<lambda>(d, r). (c # d, r)) (take_digits 6 cs) else take_digits 4 s
      | [] \<Rightarrow> None)"

text \<open>The optional seconds and fraction, and the zone.\<close>

definition zone_ok :: "string \<Rightarrow> bool" where
  "zone_ok s \<longleftrightarrow> s = ''Z'' \<or> s = ''+00:00''"

definition seconds_and_zone :: "string \<Rightarrow> bool" where
  "seconds_and_zone s =
     (zone_ok s \<or>
      (case Option.bind (expect '':'' s) (take_digits 2) of
         None \<Rightarrow> False
       | Some (_, r) \<Rightarrow>
           zone_ok r \<or>
           (case expect ''.'' r of
              None \<Rightarrow> False
            | Some f \<Rightarrow> takeWhile is_digit f \<noteq> [] \<and> zone_ok (dropWhile is_digit f))))"

text \<open>The captured year, month and day of a UTC timestamp.\<close>

definition utc_timestamp :: "string \<Rightarrow> (string \<times> string \<times> string) option" where
  "utc_timestamp s =
     Option.bind (take_year s) (\<lambda>(y, r1).
     Option.bind (Option.bind (expect ''-'' r1) (take_digits 2)) (\<lambda>(m, r2).
     Option.bind (Option.bind (expect ''-'' r2) (take_digits 2)) (\<lambda>(d, r3).
     Option.bind (Option.bind (expect ''T'' r3) (take_digits 2)) (\<lambda>(_, r4).
     Option.bind (Option.bind (expect '':'' r4) (take_digits 2)) (\<lambda>(_, r5).
       if seconds_and_zone r5 then Some (y, m, d) else None)))))"

text \<open>The instant of a value that is a UTC timestamp on a day of the calendar.\<close>

definition valid_utc_instant :: "(string \<Rightarrow> int option) \<Rightarrow> js \<Rightarrow> int option" where
  "valid_utc_instant date_parse v =
     (case v of
        Str s \<Rightarrow>
          (case utc_timestamp s of
             None \<Rightarrow> None
           | Some (y, m, d) \<Rightarrow>
               (case (date_parse s, date_parse (takeWhile (\<lambda>c. c \<noteq> CHR ''T'') s @ ''T00:00:00Z'')) of
                  (Some parsed, Some calendar) \<Rightarrow>
                    (let (yy, mm, dd) = civil_from_days (calendar div 86400000) in
                     if jint yy = js_Number y \<and> jint mm = js_Number m \<and> jint dd = js_Number d then Some parsed else None)
                | _ \<Rightarrow> None))
      | _ \<Rightarrow> None)"

text \<open>\<open>Number(process.env.FLAIR_EPHEMERAL_TTL_HOURS || 24)\<close>\<close>

definition ttl_hours :: "string option \<Rightarrow> jnum" where
  "ttl_hours env = (case env of Some s \<Rightarrow> if s = [] then jint 24 else js_Number s | None \<Rightarrow> jint 24)"

text \<open>\<open>new Date(q)\<close> drops the fraction of a millisecond.\<close>

definition clip_ms :: "rat \<Rightarrow> int" where
  "clip_ms q = (if 0 \<le> q then \<lfloor>q\<rfloor> else - \<lfloor>- q\<rfloor>)"

definition default_expiry :: "string option \<Rightarrow> int \<Rightarrow> string option" where
  "default_expiry env now =
     (case ttl_hours env of
        Fin q \<Rightarrow> toISOString (clip_ms (of_int now + q * of_int MS_PER_HOUR))
      | _ \<Rightarrow> None)"

text \<open>The outcome: the stamped body, the refusal, or the \<open>RangeError\<close> of a date out of range.\<close>

datatype expiry_outcome = Stamped jobj | ExpiryError string | ExpiryThrow

definition carried_tier :: "jobj \<Rightarrow> jobj option \<Rightarrow> jobj" where
  "carried_tier content preExisting =
     (case preExisting of
        None \<Rightarrow> content
      | Some row \<Rightarrow>
          if nullish (getp content ''durability'') \<and> \<not> nullish (getp row ''durability'')
          then AList.update ''durability'' (getp row ''durability'') content else content)"

definition stampEphemeralExpiry ::
  "(string \<Rightarrow> int option) \<Rightarrow> string option \<Rightarrow> int \<Rightarrow> bool \<Rightarrow> jobj \<Rightarrow> jobj option \<Rightarrow> expiry_outcome" where
  "stampEphemeralExpiry date_parse env now incoming content0 preExisting =
     (let content = carried_tier content0 preExisting;
          was_ephemeral = (case preExisting of None \<Rightarrow> False | Some row \<Rightarrow> getp row ''durability'' = Str ''ephemeral'');
          old = (case preExisting of None \<Rightarrow> Undef | Some row \<Rightarrow> getp row ''expiresAt'');
          explicitExpiry = getp content ''expiresAt'' \<noteq> Undef;
          carriedExpiry = \<not> incoming \<and> \<not> explicitExpiry \<and> was_ephemeral \<and> \<not> nullish old
      in
        if getp content ''durability'' \<noteq> Str ''ephemeral''
        then Stamped (if was_ephemeral \<and> \<not> explicitExpiry then AList.update ''expiresAt'' Null content else content)
        else if explicitExpiry \<or> carriedExpiry
        then (case valid_utc_instant date_parse (if explicitExpiry then getp content ''expiresAt'' else old) of
                None \<Rightarrow> ExpiryError ''expiresAt must be a valid UTC ISO date''
              | Some parsed \<Rightarrow>
                  if incoming \<and> (parsed < 0 \<or> now + 365 * 24 * MS_PER_HOUR < parsed)
                  then ExpiryError ''incoming expiresAt must be between the Unix epoch and receiver time plus 365 days''
                  else (case toISOString parsed of
                      None \<Rightarrow> ExpiryThrow
                    | Some t \<Rightarrow> Stamped (AList.update ''expiresAt'' (Str t) content)))
        else (case default_expiry env now of
            None \<Rightarrow> ExpiryThrow
          | Some t \<Rightarrow> Stamped (AList.update ''expiresAt'' (Str t) content)))"

section \<open>Attributes\<close>

definition DECLARED_MEMORY_ATTRIBUTES :: "string list" where
  "DECLARED_MEMORY_ATTRIBUTES =
    [''id'', ''agentId'', ''content'', ''contentHash'', ''trigger'', ''visibility'', ''embedding'', ''embeddingModel'',
     ''embeddedContentHash'', ''tags'', ''durability'', ''source'', ''type'', ''createdAt'', ''updatedAt'',
     ''instanceToken'', ''expiresAt'', ''retrievalCount'', ''lastRetrieved'', ''usageCount'', ''writeBackWriteId'',
     ''promotionStatus'', ''promotedAt'', ''promotedBy'', ''promotionContentHash'', ''archived'', ''archivedAt'',
     ''archivedBy'', ''parentId'', ''derivedFrom'', ''sessionId'', ''lastReflected'', ''supersedes'', ''subject'',
     ''summary'', ''validFrom'', ''validTo'', ''_safetyFlags'', ''provenance'', ''originatorInstanceId'',
     ''metadata'', ''entities'', ''skillSubjectId'']"

definition UNDECLARED_ALLOWED :: "string list" where
  "UNDECLARED_ALLOWED = [''meta'', ''kind'', ''_originatorInstanceId'', ''_syncedFrom'', ''_syncedAt'']"

definition MEMORY_ATTRIBUTES :: "string list" where
  "MEMORY_ATTRIBUTES = DECLARED_MEMORY_ATTRIBUTES @ UNDECLARED_ALLOWED"

definition isDeclaredMemoryAttribute :: "string \<Rightarrow> bool" where
  "isDeclaredMemoryAttribute key \<longleftrightarrow> key \<in> set DECLARED_MEMORY_ATTRIBUTES"

text \<open>Both strips change the body in place and return the removed keys.\<close>

definition stripUndeclaredMemoryAttributes :: "jobj \<Rightarrow> jobj \<times> string list" where
  "stripUndeclaredMemoryAttributes ob =
     (filter (\<lambda>(k, _). k \<in> set MEMORY_ATTRIBUTES) ob, filter (\<lambda>k. k \<notin> set MEMORY_ATTRIBUTES) (map fst (enum_order ob)))"

definition SERVER_STAMPED_MEMORY_FIELDS :: "string list" where
  "SERVER_STAMPED_MEMORY_FIELDS = [''writeBackWriteId'', ''instanceToken'', ''provenance'', ''skillSubjectId'']"

definition stripServerStampedFields :: "jobj \<Rightarrow> jobj \<times> string list" where
  "stripServerStampedFields ob =
     (filter (\<lambda>(k, _). k \<notin> set SERVER_STAMPED_MEMORY_FIELDS) ob,
      filter (\<lambda>k. k \<in> set SERVER_STAMPED_MEMORY_FIELDS) (map fst (enum_order ob)))"

definition stripInboundMemoryRow :: "jobj \<Rightarrow> jobj \<times> string list" where
  "stripInboundMemoryRow row = stripUndeclaredMemoryAttributes row"

lemma getp_filter_keys: "getp (filter (\<lambda>(k, _). P k) ob) k = (if P k then getp ob k else Undef)"
  by (induction ob) auto

lemma getp_stripInbound: "getp (fst (stripInboundMemoryRow ob)) k = (if k \<in> set MEMORY_ATTRIBUTES then getp ob k else Undef)"
  by (simp add: stripInboundMemoryRow_def stripUndeclaredMemoryAttributes_def getp_filter_keys [of "\<lambda>k. k \<in> set MEMORY_ATTRIBUTES"])

lemma getp_stripServerStamped:
  "getp (fst (stripServerStampedFields ob)) k = (if k \<in> set SERVER_STAMPED_MEMORY_FIELDS then Undef else getp ob k)"
  by (simp add: stripServerStampedFields_def getp_filter_keys [of "\<lambda>k. k \<notin> set SERVER_STAMPED_MEMORY_FIELDS"])

section \<open>Every ephemeral row expires\<close>

lemma carried_tier_keeps: "k \<noteq> ''durability'' \<Longrightarrow> getp (carried_tier content pre) k = getp content k"
  by (simp add: carried_tier_def split: option.splits)

text \<open>No ephemeral row is stored without an expiry, and a row that is no longer ephemeral keeps none by
  accident: after the stamp a row is ephemeral only with the text of a date in its expiry, a peer cannot push
  one that outlives a year, and a row whose tier changed away from ephemeral and that names no expiry of its
  own has it cleared; nothing else but the tier and the expiry is touched.\<close>

theorem ephemeral_rows_expire:
  assumes "stampEphemeralExpiry date_parse env now incoming content pre = Stamped out"
  shows "(getp out ''durability'' = Str ''ephemeral'' \<longrightarrow>
       (\<exists>ms. getp out ''expiresAt'' = Str (iso_text ms) \<and> \<bar>ms\<bar> \<le> MAX_DATE_MS \<and>
          (incoming \<and> getp content ''expiresAt'' \<noteq> Undef \<longrightarrow> 0 \<le> ms \<and> ms \<le> now + 365 * 24 * MS_PER_HOUR))) \<and>
     (getp out ''durability'' \<noteq> Str ''ephemeral'' \<and> getp content ''expiresAt'' = Undef \<and>
        pre = Some row \<and> getp row ''durability'' = Str ''ephemeral'' \<longrightarrow> getp out ''expiresAt'' = Null) \<and>
     (k \<noteq> ''durability'' \<and> k \<noteq> ''expiresAt'' \<longrightarrow> getp out k = getp content k)"
proof -
  let ?c = "carried_tier content pre"
  have x: "getp ?c ''expiresAt'' = getp content ''expiresAt''" by (simp add: carried_tier_keeps)
  show ?thesis
  proof (cases "getp ?c ''durability'' = Str ''ephemeral''")
    case True
    obtain ms where ms: "out = AList.update ''expiresAt'' (Str (iso_text ms)) ?c" "\<bar>ms\<bar> \<le> MAX_DATE_MS"
      "incoming \<and> getp content ''expiresAt'' \<noteq> Undef \<longrightarrow> 0 \<le> ms \<and> ms \<le> now + 365 * 24 * MS_PER_HOUR"
      using assms True
      by (auto simp: stampEphemeralExpiry_def Let_def x default_expiry_def toISOString_def
          split: if_splits option.splits jnum.splits)
    then show ?thesis using True by (auto simp: carried_tier_keeps)
  next
    case False
    have "out = (if (case pre of None \<Rightarrow> False | Some row \<Rightarrow> getp row ''durability'' = Str ''ephemeral'') \<and> getp content ''expiresAt'' = Undef
        then AList.update ''expiresAt'' Null ?c else ?c)"
      using assms False by (simp add: stampEphemeralExpiry_def Let_def x)
    then show ?thesis using False by (auto simp: carried_tier_keeps x split: if_splits)
  qed
qed

lemma ephemeral_rows_expire_witness:
  "\<exists>ms. getp [(''durability'', Str ''ephemeral''), (''expiresAt'', Str (iso_text 86400000))] ''expiresAt'' = Str (iso_text ms) \<and>
     \<bar>ms\<bar> \<le> MAX_DATE_MS"
proof -
  have "stampEphemeralExpiry (\<lambda>_. None) None 0 True [(''durability'', Str ''ephemeral'')] None =
      Stamped [(''durability'', Str ''ephemeral''), (''expiresAt'', Str (iso_text 86400000))]"
    by (simp add: stampEphemeralExpiry_def carried_tier_def Let_def default_expiry_def ttl_hours_def clip_ms_def toISOString_def
        MAX_DATE_MS_def MS_PER_HOUR_def)
  from ephemeral_rows_expire [OF this, of undefined "[]"] show ?thesis by simp
qed

text \<open>A mistyped time to live makes every write of an ephemeral row without an expiry throw.\<close>

theorem bad_ttl_throws:
  assumes "js_Number ttl = NaN"
  shows "stampEphemeralExpiry date_parse (Some ttl) now incoming [(''durability'', Str ''ephemeral'')] None = ExpiryThrow"
proof -
  have "ttl \<noteq> []" using assms by (auto simp: js_Number_def js_trim_def Let_def)
  then show ?thesis using assms
    by (simp add: stampEphemeralExpiry_def carried_tier_def Let_def default_expiry_def ttl_hours_def)
qed

end
