(* ===== verification/IdRules.thy ===== *)
theory IdRules
  imports RequestTarget JsOps MemDurability
begin

text \<open>
  Rules on ids and on single rows that several writers share: the agent-id rule (\<open>src/lib/agent-id-rule.ts\<close>),
  the Memory id policy and its refusals (\<open>src/lib/memory-id-policy.ts\<close>, \<open>resources/memory-id-guard.ts\<close>), the reserved
  seed ids (\<open>resources/seed-reservation.ts\<close>), the skill tests (\<open>resources/skill-write.ts\<close>) and the empty
  embedding (\<open>resources/memory-embedding-value.ts\<close>).
\<close>

section \<open>Id rules\<close>

definition AGENT_ID_ERROR :: string where "AGENT_ID_ERROR = ''invalid_agent_id''"

definition agent_id_char :: "char \<Rightarrow> bool" where
  "agent_id_char c \<longleftrightarrow> (97 \<le> code c \<and> code c \<le> 122) \<or> (65 \<le> code c \<and> code c \<le> 90) \<or> is_digit c \<or> c = CHR ''_'' \<or> c = CHR ''-''"

definition agent_id_pattern :: "string \<Rightarrow> bool" where
  "agent_id_pattern s \<longleftrightarrow> 1 \<le> length s \<and> length s \<le> 64 \<and> list_all agent_id_char s"

definition MAX_SAFE_INTEGER :: int where "MAX_SAFE_INTEGER = 9007199254740991"

definition AGENT_ID_RULE :: string where "AGENT_ID_RULE = ''^[a-zA-Z0-9_-]{1,64}$''"

definition AGENT_ID_STRING_REMEDY :: string where "AGENT_ID_STRING_REMEDY = ''send the agent id as a string''"

text \<open>A decoded JSON value is never a \<open>BigInt\<close>.\<close>

fun isUnsafeAgentIdWireValue :: "js \<Rightarrow> bool" where
  "isUnsafeAgentIdWireValue (Num n) \<longleftrightarrow> is_integer n \<and> \<not> \<bar>int_of_jnum n\<bar> \<le> MAX_SAFE_INTEGER"
| "isUnsafeAgentIdWireValue _ \<longleftrightarrow> False"

definition invalidAgentIdMessage :: "js \<Rightarrow> string" where
  "invalidAgentIdMessage v =
     (let rule = ''an agent id must match '' @ AGENT_ID_RULE @ '' (1-64 characters: A-Z, a-z, 0-9, _ or -)'' in
      if isUnsafeAgentIdWireValue v then AGENT_ID_STRING_REMEDY
      else ''invalid agent id '' @
        (if v = Undef \<or> (case v of Num n \<Rightarrow> \<not> is_finite n | _ \<Rightarrow> False) then js_String v
         else case json_stringify v of Some t \<Rightarrow> t | None \<Rightarrow> []) @ '': '' @ rule)"

fun isValidAgentId :: "js \<Rightarrow> bool" where
  "isValidAgentId (Str s) = agent_id_pattern s"
| "isValidAgentId (Num n) =
     (is_integer n \<and> \<bar>int_of_jnum n\<bar> \<le> MAX_SAFE_INTEGER \<and> agent_id_pattern (js_num_string n))"
| "isValidAgentId _ = False"

definition MEMORY_CONTENT_SELECTOR_SUFFIX :: string where "MEMORY_CONTENT_SELECTOR_SUFFIX = ''.content''"

fun endsWithContentSelectorSuffix :: "js \<Rightarrow> bool" where
  "endsWithContentSelectorSuffix (Str s) = starts_with (rev MEMORY_CONTENT_SELECTOR_SUFFIX) (rev s)"
| "endsWithContentSelectorSuffix _ = False"

definition decodeMemoryIdSegment :: "string \<Rightarrow> string" where
  "decodeMemoryIdSegment raw = (case decodeURIComponent raw of None \<Rightarrow> raw | Some s \<Rightarrow> s)"

text \<open>\<open>/%2f/i.test(s)\<close>\<close>

fun has_encoded_slash :: "string \<Rightarrow> bool" where
  "has_encoded_slash (a # b # c # cs) \<longleftrightarrow>
     (a = CHR ''%'' \<and> b = CHR ''2'' \<and> (c = CHR ''f'' \<or> c = CHR ''F'')) \<or> has_encoded_slash (b # c # cs)"
| "has_encoded_slash _ \<longleftrightarrow> False"

definition idSegmentHasEncodedSlash :: "string \<Rightarrow> bool" where
  "idSegmentHasEncodedSlash segment \<longleftrightarrow> has_encoded_slash segment \<or> has_encoded_slash (decodeMemoryIdSegment segment)"

section \<open>Refusals on Memory ids\<close>

definition id_refusal :: "nat \<Rightarrow> string \<Rightarrow> string \<Rightarrow> response" where
  "id_refusal st err msg =
     \<lparr>status = st, body = Obj [(''error'', Str err), (''message'', Str msg)], headers = [(''content-type'', ''application/json'')]\<rparr>"

definition CONTENT_SUFFIX_ID_ERROR :: string where "CONTENT_SUFFIX_ID_ERROR = ''memory_id_content_suffix''"

definition contentSuffixIdDenial :: "string \<Rightarrow> response" where
  "contentSuffixIdDenial i =
     id_refusal 400 CONTENT_SUFFIX_ID_ERROR
       (''Memory ids must not end in '' @ [CHR 34] @ MEMORY_CONTENT_SELECTOR_SUFFIX @ [CHR 34] @ ''.'')"

definition refuseContentSuffixId :: "js list \<Rightarrow> js \<Rightarrow> response option" where
  "refuseContentSuffixId ids pathname =
     (let rawId = (case pathname of Str p \<Rightarrow> [Str (decodeMemoryIdSegment (last (split_on (CHR ''/'') p)))] | _ \<Rightarrow> [Undef]) in
      case find endsWithContentSelectorSuffix (ids @ rawId) of None \<Rightarrow> None | Some bad \<Rightarrow> Some (contentSuffixIdDenial (js_String bad)))"

definition resolveMemoryReferenceId :: "string \<Rightarrow> string" where
  "resolveMemoryReferenceId ref =
     (let decoded = decodeMemoryIdSegment ref in
      case index_of_char (CHR ''.'') decoded of
        None \<Rightarrow> decoded
      | Some dot \<Rightarrow> if drop (dot + 1) decoded \<in> set DECLARED_MEMORY_ATTRIBUTES then take dot decoded else decoded)"

definition SUPERSEDES_TARGET_UNREADABLE_ERROR :: string where
  "SUPERSEDES_TARGET_UNREADABLE_ERROR = ''supersedes_target_unreadable''"

definition SUPERSEDES_TARGET_MISSING_ERROR :: string where
  "SUPERSEDES_TARGET_MISSING_ERROR = ''supersedes_target_missing''"

text \<open>The argument is the \<open>statusCode\<close> of the error.\<close>

definition supersedesTargetUnreadable :: "js \<Rightarrow> response" where
  "supersedesTargetUnreadable err_status =
     id_refusal (case err_status of Num n \<Rightarrow> if jle (jint 400) n \<and> jlt n (jint 500) then 400 else 503 | _ \<Rightarrow> 503)
       SUPERSEDES_TARGET_UNREADABLE_ERROR ''the record named by `supersedes` could not be read; nothing was written''"

definition supersedesTargetMissing :: response where
  "supersedesTargetMissing =
     id_refusal 409 SUPERSEDES_TARGET_MISSING_ERROR ''the record named by `supersedes` does not exist; nothing was written''"

section \<open>Reserved ids and skills\<close>

definition SEED_SKILL_ROW_ID :: string where "SEED_SKILL_ROW_ID = ''skill:using-flair''"

definition RESERVED_SEED_IDS :: "(string \<times> string list) list" where
  "RESERVED_SEED_IDS = [(''Memory'', [SEED_SKILL_ROW_ID])]"

definition isReservedSeedId :: "string \<Rightarrow> js \<Rightarrow> bool" where
  "isReservedSeedId table i =
     (case i of
        Str s \<Rightarrow> (case map_of RESERVED_SEED_IDS table of None \<Rightarrow> False | Some xs \<Rightarrow> s \<in> set xs)
      | Num n \<Rightarrow> (case map_of RESERVED_SEED_IDS table of None \<Rightarrow> False | Some xs \<Rightarrow> js_num_string n \<in> set xs)
      | _ \<Rightarrow> False)"

definition SKILL_TAG :: string where "SKILL_TAG = ''skill''"

definition isSkillWrite :: "jobj \<Rightarrow> bool" where
  "isSkillWrite content = (case getp content ''tags'' of Arr vs \<Rightarrow> Str SKILL_TAG \<in> set vs | _ \<Rightarrow> False)"

definition MEMORY_EMBEDDING_INPUT_FIELDS :: "string list" where
  "MEMORY_EMBEDDING_INPUT_FIELDS = [''content'', ''trigger'']"

definition embedTextField :: "jobj \<Rightarrow> string" where
  "embedTextField row =
     (if isSkillWrite row \<and> (case getp row ''trigger'' of Str t \<Rightarrow> t \<noteq> [] | _ \<Rightarrow> False) then ''trigger'' else ''content'')"

definition skillEmbedText :: "jobj \<Rightarrow> js" where
  "skillEmbedText content = getp content (embedTextField content)"

text \<open>The refusal, or the body with its tier forced.\<close>

definition enforceSkillDurability :: "jobj \<Rightarrow> response + jobj" where
  "enforceSkillDurability content =
     (if \<not> isSkillWrite content then Inr content
      else if getp content ''durability'' = Str ''ephemeral'' \<or> getp content ''durability'' = Str ''session''
      then Inl (id_refusal 400 ''skill_durability'' ''skill memories must be durability=persistent; ephemeral/session rejected'')
      else Inr (AList.update ''durability'' (Str ''persistent'') content))"

definition rejectSkillWritePath :: "jobj \<Rightarrow> response option" where
  "rejectSkillWritePath content =
     (if \<not> isSkillWrite content then None
      else Some (id_refusal 400 ''skill_write_path''
        ''skill memories must be written via skill_store (or Memory post/put); this path does not gate skill writes''))"

section \<open>Embeddings\<close>

definition isEmptyEmbedding :: "js \<Rightarrow> bool" where
  "isEmptyEmbedding v \<longleftrightarrow> v = Arr []"

definition normalizeEmptyEmbedding :: "jobj \<Rightarrow> jobj" where
  "normalizeEmptyEmbedding row =
     (if isEmptyEmbedding (getp row ''embedding'') then AList.update ''embedding'' Null row else row)"

end
