(* ===== verification/FedMerge.thy ===== *)
theory FedMerge
  imports Relay PresenceReceipt WriteBack MemDurability IdRules
begin

text \<open>
  The receiving side of a federation sync: \<open>FederationSync.post\<close> of \<open>resources/Federation.ts\<close>, over the id
  rules of theory \<open>IdRules\<close>. One record is first checked and
  prepared against the row that was read (\<open>fed_prepare\<close>) and then written through the write-back process, whose
  plan (\<open>fed_plan\<close>) decides again on the row of its transaction.
\<close>

section \<open>Merging two rows\<close>

definition payloadIdMismatch :: "jobj \<Rightarrow> bool" where
  "payloadIdMismatch rec \<longleftrightarrow>
     \<not> truthy (getp rec ''data'') \<or> \<not> strict_eq (field (getp rec ''data'') ''id'') (getp rec ''id'')"

text \<open>\<open>Object.assign(target, source)\<close>\<close>

definition object_assign :: "jobj \<Rightarrow> jobj \<Rightarrow> jobj" where
  "object_assign target source = fold (\<lambda>(k, v). AList.update k v) (enum_order source) target"

definition mergeRecord :: "jobj option \<Rightarrow> js \<Rightarrow> jobj \<Rightarrow> jobj" where
  "mergeRecord local remoteUpdatedAt incoming =
     (case local of
        None \<Rightarrow> incoming
      | Some row \<Rightarrow>
          let localUpdated = coalesce (getp row ''updatedAt'') (Str []);
              remoteUpdated = coalesce remoteUpdatedAt (Str [])
          in if js_lt localUpdated remoteUpdated
             then AList.update ''updatedAt'' remoteUpdated
               (object_assign row (if nullish (getp incoming ''visibility'') then AList.delete ''visibility'' incoming else incoming))
             else row)"

section \<open>The receiver\<close>

text \<open>What the receiver reads while it handles a record: its settings, the sender that the batch was verified
  for, the pinned keys, its clock, and a fresh token.\<close>

record fed_env =
  fe_crypto :: crypto
  fe_sender :: string
  fe_peer :: jobj
  fe_key_of :: "js \<Rightarrow> js"
  fe_require_signatures :: bool
  fe_require_principal :: bool
  fe_presence :: bool
  fe_admin_ids :: "string set"
  fe_date_parse :: "string \<Rightarrow> int option"
  fe_ttl :: "string option"
  fe_now :: int
  fe_uuid :: string

definition env_true :: "string option \<Rightarrow> bool" where
  "env_true v \<longleftrightarrow> js_lower (case v of None \<Rightarrow> [] | Some s \<Rightarrow> s) = ''true''"

definition requireRecordSignatures :: "(string \<Rightarrow> string option) \<Rightarrow> bool" where
  "requireRecordSignatures env = env_true (env ''FLAIR_FEDERATION_REQUIRE_RECORD_SIGNATURES'')"

definition requireRecordPrincipal :: "(string \<Rightarrow> string option) \<Rightarrow> bool" where
  "requireRecordPrincipal env = env_true (env ''FLAIR_FEDERATION_REQUIRE_RECORD_PRINCIPAL'')"

text \<open>The per-record signature gate: the key is the one pinned for the claimed originator.\<close>

definition signature_gate :: "fed_env \<Rightarrow> jobj \<Rightarrow> js \<Rightarrow> skip_reason option" where
  "signature_gate e rec originator =
     (if truthy (getp rec ''signature'')
      then (case (if originator = Str (fe_sender e) then getp (fe_peer e) ''publicKey'' else fe_key_of e originator) of
              Str key \<Rightarrow>
                if key = [] then Some ''unknown_originator_key''
                else if \<not> verifyBodySignature (fe_crypto e) (reconstructRecordVerifyBody rec originator) key
                then Some ''invalid_signature'' else None
            | v \<Rightarrow> if truthy v then Some ''invalid_signature'' else Some ''unknown_originator_key'')
      else if fe_require_signatures e then Some ''missing_signature'' else None)"

text \<open>The Memory bookkeeping: declared attributes only, the originator's provenance, the receiver's token.\<close>

definition memory_incarnation :: "fed_env \<Rightarrow> jobj option \<Rightarrow> jobj \<Rightarrow> jobj" where
  "memory_incarnation e local merged0 =
     (let merged = fst (stripInboundMemoryRow merged0);
          mergedProvenance = getp merged ''provenance'';
          stripped = fst (stripServerStampedFields merged);
          restored = (case mergedProvenance of Str p \<Rightarrow> AList.update ''provenance'' (Str p) stripped | _ \<Rightarrow> stripped);
          token = (case local of None \<Rightarrow> Str (fe_uuid e)
             | Some row \<Rightarrow> (case getp row ''instanceToken'' of
                  Str t \<Rightarrow> if t = [] then Str (fe_uuid e) else Str t | _ \<Rightarrow> Str (fe_uuid e)))
      in AList.update ''instanceToken'' token restored)"

datatype prepared =
    Refused skip_reason
  | PresenceRow jobj
  | MergedRow jobj
  | PrepareThrows

text \<open>The sequence of checks on the prepared row, and the row that the write-back is given.\<close>

definition fed_merge_checks :: "fed_env \<Rightarrow> jobj \<Rightarrow> string \<Rightarrow> js \<Rightarrow> jobj option \<Rightarrow> jobj \<Rightarrow> prepared" where
  "fed_merge_checks e rec table originator local incoming =
     (let mergedData0 = mergeRecord local (getp rec ''updatedAt'') incoming;
          mergedData1 = (if table = ''Memory'' then fst (stripInboundMemoryRow mergedData0) else mergedData0)
      in
        if table = ''Agent'' \<and> \<not> isValidAgentId (getp rec ''id'') then Refused AGENT_ID_ERROR
        else if table = ''Memory'' \<and> isSkillWrite mergedData1 then Refused ''skill_not_federated''
        else if isReservedSeedId table (getp rec ''id'') then Refused ''seed_id_not_federated''
        else if table = ''Memory'' \<and> endsWithContentSelectorSuffix (getp mergedData1 ''id'')
        then Refused ''content_suffix_id_not_federated''
        else case toISOString (fe_now e) of
            None \<Rightarrow> PrepareThrows
          | Some stamp \<Rightarrow>
              let stamped = spread mergedData1
                    [(''_originatorInstanceId'', originator), (''_syncedFrom'', Str (fe_sender e)), (''_syncedAt'', Str stamp)]
              in MergedRow (if table = ''Memory'' then memory_incarnation e local stamped else stamped))"

definition fed_prepare :: "fed_env \<Rightarrow> jobj \<Rightarrow> jobj option \<Rightarrow> jobj option \<Rightarrow> prepared" where
  "fed_prepare e rec local agentRow =
     (if payloadIdMismatch rec then Refused ''id_mismatch''
      else case classifyRecord rec (getp (fe_peer e) ''role'') (fe_sender e) local FEDERATION_SYNC_TABLES (fe_now e) of
          Skip reason \<Rightarrow> Refused reason
        | Merge originator \<Rightarrow>
            if getp rec ''table'' = Str ''Presence'' \<and> \<not> fe_presence e then Refused ''presence_receive_disabled''
            else (case signature_gate e rec originator of
                Some reason \<Rightarrow> Refused reason
              | None \<Rightarrow>
                  (case checkPrincipalEntitlement rec (fe_require_principal e) of
                     Some reason \<Rightarrow> Refused reason
                   | None \<Rightarrow>
                       (case (getp rec ''table'', getp rec ''id'', getp rec ''data'') of
                          (Str table, Str i, Obj d) \<Rightarrow>
                            if table = ''Presence''
                            then (case validatePresenceReceipt i (Obj d) (fe_now e) (fe_sender e) of
                                    Inl reason \<Rightarrow> Refused reason
                                  | Inr row \<Rightarrow>
                                      (case presenceHomeBindingReason agentRow (fe_sender e) of
                                         Some reason \<Rightarrow> Refused reason
                                       | None \<Rightarrow>
                                           (case mergePresenceReceipt local row (fe_now e) of
                                              Inl reason \<Rightarrow> Refused reason
                                            | Inr _ \<Rightarrow> PresenceRow row)))
                            else if table = ''Memory''
                            then (case stampEphemeralExpiry (fe_date_parse e) (fe_ttl e) (fe_now e) True d local of
                                    ExpiryError _ \<Rightarrow> Refused ''invalid_expiry''
                                  | ExpiryThrow \<Rightarrow> PrepareThrows
                                  | Stamped incoming \<Rightarrow> fed_merge_checks e rec table originator local incoming)
                            else fed_merge_checks e rec table originator local d
                        | _ \<Rightarrow> PrepareThrows))))"

section \<open>The plans\<close>

text \<open>The plan of the generic merge over the row of the transaction.\<close>

definition message_guard :: "jobj option \<Rightarrow> jobj \<Rightarrow> jobj" where
  "message_guard row merged =
     (let reconciled = reconcileState (row_field row ''state'') (getp merged ''state'');
          m1 = AList.update ''state'' reconciled merged
      in if reconciled = Str ''consumed''
         then AList.update ''consumedAt'' (coalesce (coalesce (row_field row ''consumedAt'') (getp m1 ''consumedAt'')) Null)
                (AList.update ''failureReason'' Null m1)
         else m1)"

definition memory_plan :: "jobj option \<Rightarrow> jobj \<Rightarrow> wb_plan" where
  "memory_plan row merged0 =
     (let merged = normalizeEmptyEmbedding merged0 in
      case row of
        None \<Rightarrow> WbWrite merged None
      | Some r \<Rightarrow>
          if list_ex (\<lambda>k. \<not> has_own (Obj merged) k) (map fst r) then WbWrite merged None
          else WbUpdate (filter (\<lambda>(k, v). \<not> isDeepStrictEqual (getp r k) v) merged) None)"

definition agent_plan :: "fed_env \<Rightarrow> jobj \<Rightarrow> jobj option \<Rightarrow> jobj \<Rightarrow> wb_plan" where
  "agent_plan e rec row merged =
     (if inboundChangesExistingPrincipalStatus rec row then WbSkip (Some ''agent_status_not_federated'')
      else if inboundChangesExistingPendingKey rec row then WbSkip (Some ''agent_pending_key_not_federated'')
      else case agentAdminIdCreateRefusal rec row (fe_admin_ids e) of
          Some r \<Rightarrow> WbSkip (Some r)
        | None \<Rightarrow>
            (case agentIdentityRefusal rec row (fe_sender e) of
               Some r \<Rightarrow> WbSkip (Some r)
             | None \<Rightarrow> WbWrite (keepReceiverAgentAuthority merged row) None))"

definition fed_plan :: "fed_env \<Rightarrow> jobj \<Rightarrow> jobj \<Rightarrow> jobj option \<Rightarrow> wb_plan" where
  "fed_plan e rec merged row =
     (if getp rec ''table'' = Str ''Agent'' then agent_plan e rec row merged
      else if getp rec ''table'' = Str ''Message'' then WbWrite (message_guard row merged) None
      else if getp rec ''table'' = Str ''Memory'' then memory_plan row merged
      else WbWrite merged None)"

text \<open>The plan of a presence receipt reads the Agent row again.\<close>

definition presence_plan :: "fed_env \<Rightarrow> jobj \<Rightarrow> jobj option \<Rightarrow> jobj option \<Rightarrow> wb_plan" where
  "presence_plan e validated agentRow row =
     (case presenceHomeBindingReason agentRow (fe_sender e) of
        Some r \<Rightarrow> WbSkip (Some r)
      | None \<Rightarrow> (case mergePresenceReceipt row validated (fe_now e) of
          Inl r \<Rightarrow> WbSkip (Some r) | Inr merged \<Rightarrow> WbWrite merged None))"

definition fed_wb_opts :: wb_opts where
  "fed_wb_opts = \<lparr>wb_attempts = 1, wb_matches = None, wb_matchFields = [], wb_wholeRow = True, wb_verifyAlso = None\<rparr>"

section \<open>Outcomes and accounting\<close>

datatype merge_outcome = SkippedFor skip_reason | MergedOne | Indeterminate

fun outcome_of :: "skip_reason \<Rightarrow> wb_result \<Rightarrow> merge_outcome" where
  "outcome_of d (Applied _) = MergedOne"
| "outcome_of d (Skipped r) = SkippedFor (case r of None \<Rightarrow> d | Some reason \<Rightarrow> reason)"
| "outcome_of d (Conflict _) = SkippedFor ''merge_target_changed''"
| "outcome_of d (Unconfirmed _) = Indeterminate"
| "outcome_of d Failed = Indeterminate"

text \<open>\<open>mergeOne\<close>: how a record can end. The write-back is a process of its own; a Memory record whose row lock is
  not granted is not written; a failure before the write-back started is \<open>merge_error\<close>.\<close>

inductive merge_one :: "fed_env \<Rightarrow> wb_table \<Rightarrow> jobj \<Rightarrow> jobj option \<Rightarrow> merge_outcome \<Rightarrow> bool"
  for e table rec local
where
  refused: "fed_prepare e rec local agentRow = Refused r \<Longrightarrow> merge_one e table rec local (SkippedFor r)"
| threw: "merge_one e table rec local (SkippedFor ''merge_error'')"
| busy: "fed_prepare e rec local agentRow = MergedRow m \<Longrightarrow> getp rec ''table'' = Str ''Memory'' \<Longrightarrow>
    merge_one e table rec local (SkippedFor ''merge_target_busy'')"
| written: "fed_prepare e rec local agentRow = MergedRow m \<Longrightarrow>
    wb_reach fed_wb_opts True (\<lambda>row. {fed_plan e rec m row}) local table w \<Longrightarrow> wb_phase w = WbDone r \<Longrightarrow>
    merge_one e table rec local (outcome_of ''agent_status_not_federated'' r)"
| presence: "fed_prepare e rec local agentRow = PresenceRow v \<Longrightarrow>
    wb_reach fed_wb_opts True (\<lambda>row. range (\<lambda>a. presence_plan e v a row)) local table w \<Longrightarrow> wb_phase w = WbDone r \<Longrightarrow>
    merge_one e table rec local (outcome_of ''presence_invalid_shape'' r)"
| deadline: "merge_one e table rec local Indeterminate"


text \<open>What the batch counts.\<close>

record sync_tally =
  st_merged :: nat
  st_skipped :: nat
  st_reasons :: "(string \<times> nat) list"
  st_refused :: "(js \<times> js \<times> skip_reason) list"
  st_indeterminate :: "(js \<times> js) list"

definition recordSkip :: "skip_reason \<Rightarrow> jobj \<Rightarrow> sync_tally \<Rightarrow> sync_tally" where
  "recordSkip reason rec t =
     t\<lparr>st_skipped := st_skipped t + 1,
       st_reasons := AList.update reason ((case map_of (st_reasons t) reason of None \<Rightarrow> 0 | Some n \<Rightarrow> n) + 1) (st_reasons t),
       st_refused := st_refused t @ [(getp rec ''table'', getp rec ''id'', reason)]\<rparr>"

definition tally_one :: "jobj \<times> merge_outcome \<Rightarrow> sync_tally \<Rightarrow> sync_tally" where
  "tally_one ro t =
     (case snd ro of
        SkippedFor reason \<Rightarrow> recordSkip reason (fst ro) t
      | MergedOne \<Rightarrow> t\<lparr>st_merged := st_merged t + 1\<rparr>
      | Indeterminate \<Rightarrow> t\<lparr>st_indeterminate := st_indeterminate t @ [(getp (fst ro) ''table'', getp (fst ro) ''id'')]\<rparr>)"

definition tally_start :: sync_tally where
  "tally_start = \<lparr>st_merged = 0, st_skipped = 0, st_reasons = [], st_refused = [], st_indeterminate = []\<rparr>"

definition sync_counts :: "(jobj \<times> merge_outcome) list \<Rightarrow> sync_tally" where
  "sync_counts ros = fold tally_one ros tally_start"

text \<open>The checks before any record is handled: the shape of the body, the peer, the signature, the batch keys. The
  dash of two texts is written as a hyphen.\<close>

fun batch_key_error :: "js list \<Rightarrow> (string \<times> string) set \<Rightarrow> string option" where
  "batch_key_error [] offered = None"
| "batch_key_error (r # rs) offered =
     (case (field r ''table'', field r ''id'') of
        (Str t, Str i) \<Rightarrow>
          (if t = [] \<or> i = [] \<or> field (field r ''data'') ''id'' \<noteq> Str i then Some ''invalid_sync_batch_key''
           else if (t, i) \<in> offered then Some ''duplicate_sync_batch_key''
           else batch_key_error rs (insert (t, i) offered))
      | _ \<Rightarrow> Some ''invalid_sync_batch_key'')"

definition sync_error :: "nat \<Rightarrow> string \<Rightarrow> response" where
  "sync_error st msg = \<lparr>status = st, body = Obj [(''error'', Str msg)], headers = [(''content-type'', ''application/json'')]\<rparr>"

definition federationVerifyRefusal :: "fresh_reason \<Rightarrow> response" where
  "federationVerifyRefusal reason =
     (if reason = StoreUnavailable
      then \<lparr>status = 503, body = Obj [(''error'', Str ''replay_store_unavailable''),
             (''detail'', Str ''This instance cannot record request nonces right now, so it refuses signed federation requests. The server log names the cause.'')],
             headers = [(''content-type'', ''application/json'')]\<rparr>
      else sync_error 401 (''invalid signature - '' @
        (case reason of Stale \<Rightarrow> ''stale'' | Future \<Rightarrow> ''future'' | Replay \<Rightarrow> ''replay'' | _ \<Rightarrow> ''invalid_signature'')))"

definition sync_admit :: "js \<Rightarrow> jobj option \<Rightarrow> fresh_reason + unit \<Rightarrow> response + js list" where
  "sync_admit d peer verified =
     (case field d ''records'' of
        Arr records \<Rightarrow>
          (if \<not> truthy (field d ''instanceId'') then Inl (sync_error 400 ''instanceId and records[] required'')
           else if (case peer of None \<Rightarrow> True | Some p \<Rightarrow> getp p ''status'' = Str ''revoked'')
           then Inl (sync_error 403 ''unknown or revoked peer'')
           else if \<not> truthy (field d ''signature'')
           then Inl (sync_error 401 ''signature required - sync requests must be signed'')
           else (case verified of
               Inl reason \<Rightarrow> Inl (federationVerifyRefusal reason)
             | Inr _ \<Rightarrow> (case batch_key_error records {} of Some err \<Rightarrow> Inl (sync_error 400 err) | None \<Rightarrow> Inr records)))
      | _ \<Rightarrow> Inl (sync_error 400 ''instanceId and records[] required''))"

text \<open>The peer row after a batch: heard from always, merged from only when something merged.\<close>

definition peer_after_sync :: "jobj \<Rightarrow> js \<Rightarrow> string \<Rightarrow> nat \<Rightarrow> jobj" where
  "peer_after_sync peer lamportClock nowIso merged =
     spread peer ([(''lastSyncAt'', Str nowIso),
        (''lastSyncCursor'', Str (if nullish lamportClock then nowIso else js_String lamportClock)),
        (''status'', Str ''connected''), (''updatedAt'', Str nowIso)] @
        (if 0 < merged then [(''lastMergeAt'', Str nowIso)] else []))"

definition sync_log_status :: "sync_tally \<Rightarrow> nat \<Rightarrow> string" where
  "sync_log_status t merge_errors =
     (if 0 < merge_errors then ''partial''
      else if 0 < st_skipped t \<or> st_indeterminate t \<noteq> [] then ''partial'' else ''success'')"


section \<open>Deep equality and assignment\<close>

lemma map_of_filter_key: "map_of (filter (\<lambda>x. fst x = k) xs) k = map_of xs k"
  by (induction xs) auto

lemma filter_key_sort: "filter (\<lambda>x. fst x = k) (sort_key (\<lambda>x. g (fst x)) xs) = filter (\<lambda>x. fst x = k) xs"
proof -
  have f: "filter (\<lambda>x. fst x = k) ys = filter (\<lambda>x. fst x = k) (filter (\<lambda>x. g (fst x) = g k) ys)" for ys :: "('a \<times> 'b) list"
    by (induction ys) auto
  show ?thesis by (subst (1 2) f) (simp only: sort_key_stable)
qed

lemma map_of_enum_order [simp]: "map_of (enum_order kvs) = map_of kvs"
proof
  fix k
  have "filter (\<lambda>x. fst x = k) (enum_order kvs) = filter (\<lambda>x. fst x = k) kvs"
  proof -
    have "filter (\<lambda>x. fst x = k) (filter (\<lambda>kv. P (fst kv)) kvs) = (if P k then filter (\<lambda>x. fst x = k) kvs else [])" for P
      by (induction kvs) auto
    note this [of is_array_index] this [of "\<lambda>k. \<not> is_array_index k"]
    then show ?thesis unfolding enum_order_def filter_append filter_key_sort by auto
  qed
  then show "map_of (enum_order kvs) k = map_of kvs k" by (metis map_of_filter_key)
qed

lemma map_of_sort_fst: "map_of (sort_key fst kvs) = map_of (kvs :: (string \<times> 'a) list)"
proof
  fix k
  have "filter (\<lambda>x. fst x = k) (sort_key fst kvs) = filter (\<lambda>x. fst x = k) kvs"
    using filter_key_sort [of k "\<lambda>x. x" kvs] by simp
  then show "map_of (sort_key fst kvs) k = map_of kvs k" by (metis map_of_filter_key)
qed

lemma map_of_map_value: "map_of (map (map_prod id f) kvs) k = map_option f (map_of kvs k)"
  by (induction kvs) auto

lemma deep_map_of:
  assumes "isDeepStrictEqual (Obj r) (Obj b)"
  shows "map_option sortKeys (map_of r k) = map_option sortKeys (map_of b k)"
proof -
  have "enum_order (sort_key fst (map (map_prod id sortKeys) r)) = enum_order (sort_key fst (map (map_prod id sortKeys) b))"
    using assms by (simp add: isDeepStrictEqual_def)
  then have "map_of (map (map_prod id sortKeys) r) k = map_of (map (map_prod id sortKeys) b) k"
    by (metis map_of_enum_order map_of_sort_fst)
  then show ?thesis by (simp add: map_of_map_value)
qed

lemma deep_getp:
  assumes "isDeepStrictEqual (Obj r) (Obj b)"
  shows "isDeepStrictEqual (getp r k) (getp b k)"
  using deep_map_of [OF assms, of k]
  by (cases "map_of r k"; cases "map_of b k") (simp_all add: getp_def isDeepStrictEqual_def)

lemma deep_atom:
  assumes "isDeepStrictEqual a b"
  shows "a = Str s \<longleftrightarrow> b = Str s" "a = Undef \<longleftrightarrow> b = Undef" "a = Null \<longleftrightarrow> b = Null" "a = Bool t \<longleftrightarrow> b = Bool t"
  using assms by (cases a; cases b; simp add: isDeepStrictEqual_def)+

lemma map_of_fold_update:
  "map_of (fold (\<lambda>(k, v). AList.update k v) xs t) k = (case map_of (rev xs) k of None \<Rightarrow> map_of t k | Some v \<Rightarrow> Some v)"
  by (induction xs arbitrary: t) (auto simp: map_add_def update_conv' split: option.splits)

lemma getp_object_assign:
  assumes "distinct (map fst src)"
  shows "getp (object_assign t src) k = (if has_own (Obj src) k then getp src k else getp t k)"
proof -
  have "distinct (map fst (enum_order src))"
  proof -
    have "mset (map fst (enum_order src)) = mset (map fst src)"
      by (simp add: enum_order_def flip: image_mset_union mset_filter)
        (metis image_mset_union multiset_partition mset_filter mset_map)
    then show ?thesis using assms by (metis mset_eq_imp_distinct_iff)
  qed
  then have "map_of (rev (enum_order src)) = map_of src" by (simp add: map_of_rev_distinct)
  then show ?thesis by (auto simp: object_assign_def getp_def map_of_fold_update split: option.splits)
qed

lemma getp_mergeRecord:
  assumes "distinct (map fst inc)" "k \<noteq> ''updatedAt''" "k \<noteq> ''visibility''"
  shows "getp (mergeRecord local upd inc) k =
    (case local of
       None \<Rightarrow> getp inc k
     | Some row \<Rightarrow> if js_lt (coalesce (getp row ''updatedAt'') (Str [])) (coalesce upd (Str [])) \<and> has_own (Obj inc) k
         then getp inc k else getp row k)"
proof -
  have "distinct (map fst (AList.delete ''visibility'' inc))" using assms(1) by simp
  then show ?thesis
    using assms by (auto simp: mergeRecord_def Let_def getp_object_assign delete_conv' split: option.splits)
qed


section \<open>What a prepared record has passed\<close>

lemma prepare_mergedD:
  assumes "fed_prepare e rec local agentRow = MergedRow m" "getp rec ''table'' = Str table"
  obtains originator i d incoming where
    "\<not> payloadIdMismatch rec" "getp rec ''id'' = Str i" "getp rec ''data'' = Obj d" "table \<noteq> ''Presence''"
    "classifyRecord rec (getp (fe_peer e) ''role'') (fe_sender e) local FEDERATION_SYNC_TABLES (fe_now e) = Merge originator"
    "signature_gate e rec originator = None" "checkPrincipalEntitlement rec (fe_require_principal e) = None"
    "fed_merge_checks e rec table originator local incoming = MergedRow m"
    "table \<noteq> ''Memory'' \<Longrightarrow> incoming = d"
    "table = ''Memory'' \<Longrightarrow> stampEphemeralExpiry (fe_date_parse e) (fe_ttl e) (fe_now e) True d local = Stamped incoming"
proof -
  obtain originator where c: "\<not> payloadIdMismatch rec"
    "classifyRecord rec (getp (fe_peer e) ''role'') (fe_sender e) local FEDERATION_SYNC_TABLES (fe_now e) = Merge originator"
    "signature_gate e rec originator = None" "checkPrincipalEntitlement rec (fe_require_principal e) = None"
    using assms(1) by (auto simp: fed_prepare_def split: if_splits classify_result.splits option.splits)
  obtain i where i: "getp rec ''id'' = Str i"
    using assms by (auto simp: fed_prepare_def c split: if_splits js.splits)
  obtain d where d: "getp rec ''data'' = Obj d"
    using assms by (auto simp: fed_prepare_def c i split: if_splits js.splits)
  have np: "table \<noteq> ''Presence''"
    using assms by (auto simp: fed_prepare_def c i d split: if_splits sum.splits option.splits)
  show ?thesis
  proof (cases "table = ''Memory''")
    case True
    then obtain incoming where "stampEphemeralExpiry (fe_date_parse e) (fe_ttl e) (fe_now e) True d local = Stamped incoming"
      "fed_merge_checks e rec table originator local incoming = MergedRow m"
      using assms by (auto simp: fed_prepare_def c i d split: if_splits expiry_outcome.splits)
    then show ?thesis using that [OF c(1) i d np c(2-4)] True by blast
  next
    case False
    then have "fed_merge_checks e rec table originator local d = MergedRow m"
      using assms np by (auto simp: fed_prepare_def c i d)
    then show ?thesis using that [OF c(1) i d np c(2-4)] False by blast
  qed
qed

lemma merge_checks_row:
  assumes "fed_merge_checks e rec table originator local incoming = MergedRow m" "table \<noteq> ''Memory''"
    "k \<noteq> ''_originatorInstanceId''" "k \<noteq> ''_syncedFrom''" "k \<noteq> ''_syncedAt''"
  shows "getp m k = getp (mergeRecord local (getp rec ''updatedAt'') incoming) k"
  using assms by (auto simp: fed_merge_checks_def Let_def spread_def split: if_splits option.splits)

lemma planned_run:
  assumes "wb_reach fed_wb_opts True plan local table w" "wb_phase w = WbDone (Applied p)"
  obtains row where "p \<in> plan row" "\<forall>r. p \<noteq> WbSkip r" "local = None \<Longrightarrow> row = None"
    "\<And>s. local = Some s \<Longrightarrow> \<exists>r. row = Some r \<and> isDeepStrictEqual (Obj r) (Obj s)"
proof -
  obtain row where "planned fed_wb_opts plan local row p"
    using reach_ok [OF assms(1)] assms(2) by (auto simp: fed_wb_opts_def)
  then show ?thesis using that [of row]
    by (cases row; cases local) (auto simp: planned_def sameTarget_def fed_wb_opts_def)
qed

lemma agent_plan_writes:
  assumes "agent_plan e rec row m = p" "\<forall>r. p \<noteq> WbSkip r"
  shows "p = WbWrite (keepReceiverAgentAuthority m row) None" "\<not> inboundChangesExistingPrincipalStatus rec row"
    "agentAdminIdCreateRefusal rec row (fe_admin_ids e) = None" "agentIdentityRefusal rec row (fe_sender e) = None"
  using assms by (auto simp: agent_plan_def split: if_splits option.splits)

lemma authority_other: "k \<noteq> ''role'' \<Longrightarrow> k \<noteq> ''admin'' \<Longrightarrow> getp (keepReceiverAgentAuthority m row) k = getp m k"
  by (auto simp: keepReceiverAgentAuthority_def Let_def getp_keep_stored_field split: option.splits)

lemma authority_kept:
  "agentRecordIsAdmin (Obj (keepReceiverAgentAuthority m (Some r))) \<longleftrightarrow> agentRecordIsAdmin (Obj r)"
  "getp (keepReceiverAgentAuthority m (Some r)) ''admin'' = Bool True \<longleftrightarrow> getp r ''admin'' = Bool True"
  by (auto simp: keepReceiverAgentAuthority_def getp_keep_stored_field)

lemma authority_new:
  "\<not> agentRecordIsAdmin (Obj (keepReceiverAgentAuthority m None))"
  "getp (keepReceiverAgentAuthority m None) ''admin'' \<noteq> Bool True"
  by (auto simp: keepReceiverAgentAuthority_def Let_def ADMIN_ROLE_def)

section \<open>Administrators and identities\<close>

definition same_value :: "js \<Rightarrow> js \<Rightarrow> bool" where
  "same_value a b \<longleftrightarrow> isDeepStrictEqual a b \<or> (no_home a \<and> no_home b)"

lemma same_value_refl [simp]: "same_value v v"
  by (simp add: same_value_def)

lemma no_home_deep: "isDeepStrictEqual a b \<Longrightarrow> no_home a \<longleftrightarrow> no_home b"
  using deep_atom [of a b] by (auto simp: no_home_def)

text \<open>C1. Federation grants no authority: when an inbound Agent record is applied, in every interleaving with
  local writers, a new row is not an administrator in either field and does not take a configured administrator
  id; a row that was read keeps whether it is an administrator, keeps its effective lifecycle status, and keeps
  its public key and its home unless the verified sender of the batch is that home.\<close>

theorem federation_grants_no_authority:
  assumes prep: "fed_prepare e rec local agentRow = MergedRow m" "getp rec ''table'' = Str ''Agent''"
    and keys: "getp rec ''data'' = Obj d" "distinct (map fst d)"
    and run: "wb_reach fed_wb_opts True (\<lambda>row. {fed_plan e rec m row}) local table w" "wb_phase w = WbDone (Applied p)"
  shows "\<exists>v. p = WbWrite v None \<and>
    (case local of
       None \<Rightarrow> \<not> agentRecordIsAdmin (Obj v) \<and> getp v ''admin'' \<noteq> Bool True \<and> getp rec ''id'' \<notin> Str ` fe_admin_ids e
     | Some s \<Rightarrow>
         (agentRecordIsAdmin (Obj v) \<longleftrightarrow> agentRecordIsAdmin (Obj s)) \<and> (getp v ''admin'' = Bool True \<longleftrightarrow> getp s ''admin'' = Bool True) \<and>
         isDeepStrictEqual (effectiveAgentStatus (getp v ''status'')) (effectiveAgentStatus (getp s ''status'')) \<and>
         (\<not> senderIsAgentHome (Some s) (fe_sender e) \<longrightarrow>
            same_value (getp v ''publicKey'') (getp s ''publicKey'') \<and>
            same_value (getp v ''originatorInstanceId'') (getp s ''originatorInstanceId'')))"
proof -
  obtain row where row: "p = fed_plan e rec m row" "\<forall>r. p \<noteq> WbSkip r" "local = None \<Longrightarrow> row = None"
    "\<And>s. local = Some s \<Longrightarrow> \<exists>r. row = Some r \<and> isDeepStrictEqual (Obj r) (Obj s)"
    using planned_run [OF run] by (metis singletonD)
  obtain originator i d' incoming where pr: "getp rec ''id'' = Str i" "getp rec ''data'' = Obj d'"
    "fed_merge_checks e rec ''Agent'' originator local incoming = MergedRow m" "''Agent'' \<noteq> ''Memory'' \<Longrightarrow> incoming = d'"
    by (rule prepare_mergedD [OF prep]) blast
  have inc: "incoming = d" using pr(2,4) keys(1) by simp
  have ap: "agent_plan e rec row m = p" using row(1) prep(2) by (simp add: fed_plan_def)
  note w = agent_plan_writes [OF ap row(2)]
  let ?v = "keepReceiverAgentAuthority m row"
  show ?thesis
  proof (cases local)
    case None
    then show ?thesis using row(3) w(1,3) authority_new [of m] prep(2) pr(1)
      by (auto simp: agentAdminIdCreateRefusal_def split: if_splits)
  next
    case (Some s)
    obtain r where r: "row = Some r" "isDeepStrictEqual (Obj r) (Obj s)" using row(4) [OF Some] by blast
    note dg = deep_getp [OF r(2)]
    have gm: "getp ?v k = (if js_lt (coalesce (getp s ''updatedAt'') (Str [])) (coalesce (getp rec ''updatedAt'') (Str [])) \<and> has_own (Obj d) k
        then getp d k else getp s k)"
      if "k \<in> {''status'', ''publicKey'', ''originatorInstanceId''}" for k
      using that merge_checks_row [OF pr(3), of k] getp_mergeRecord [OF keys(2), of k local "getp rec ''updatedAt''"]
      by (auto simp: authority_other inc Some)
    have adm: "agentRecordIsAdmin (Obj ?v) \<longleftrightarrow> agentRecordIsAdmin (Obj s)" "getp ?v ''admin'' = Bool True \<longleftrightarrow> getp s ''admin'' = Bool True"
      using authority_kept [of m r] deep_atom [OF dg [of "''role''"]] deep_atom [OF dg [of "''admin''"]] by (simp_all add: r(1))
    have st: "isDeepStrictEqual (effectiveAgentStatus (getp ?v ''status'')) (effectiveAgentStatus (getp s ''status''))"
    proof -
      have "effectiveAgentStatus (getp d ''status'') = effectiveAgentStatus (getp r ''status'')"
        using w(2) prep(2) keys(1) by (auto simp: r(1) inboundChangesExistingPrincipalStatus_def dest: strict_eq_imp)
      moreover have "isDeepStrictEqual (effectiveAgentStatus (getp r ''status'')) (effectiveAgentStatus (getp s ''status''))"
        using dg [of "''status''"] deep_atom(2) [OF dg [of "''status''"]] by (auto simp: effectiveAgentStatus_def)
      ultimately show ?thesis using gm [of "''status''"] by auto
    qed
    have ident: "same_value (getp ?v ''publicKey'') (getp s ''publicKey'') \<and>
        same_value (getp ?v ''originatorInstanceId'') (getp s ''originatorInstanceId'')" if n: "\<not> senderIsAgentHome (Some s) (fe_sender e)"
    proof -
      have "\<not> senderIsAgentHome (Some r) (fe_sender e)"
        using n deep_atom(1) [OF dg [of "''originatorInstanceId''"]] by (auto simp: senderIsAgentHome_def split: js.splits)
      then have "\<not> inboundChangesAgentIdentity rec row" using w(4) by (auto simp: agentIdentityRefusal_def r(1) split: if_splits)
      then have "has_own (Obj d) ''publicKey'' \<Longrightarrow> getp d ''publicKey'' = getp r ''publicKey''"
        "has_own (Obj d) ''originatorInstanceId'' \<Longrightarrow> sameAgentHome (getp d ''originatorInstanceId'') (getp r ''originatorInstanceId'')"
        using prep(2) keys(1) by (auto simp: inboundChangesAgentIdentity_def Let_def r(1) dest: strict_eq_imp split: if_splits)
      note h = this
      have "same_value (getp d ''originatorInstanceId'') (getp s ''originatorInstanceId'')" if "has_own (Obj d) ''originatorInstanceId''"
        using h(2) [OF that] dg [of "''originatorInstanceId''"] no_home_deep [OF dg [of "''originatorInstanceId''"]]
        by (auto simp: sameAgentHome_def same_value_def dest: strict_eq_imp)
      then show ?thesis using h(1) dg [of "''publicKey''"] gm [of "''publicKey''"] gm [of "''originatorInstanceId''"]
        by (auto simp: same_value_def)
    qed
    show ?thesis using w(1) adm st ident by (simp add: Some)
  qed
qed


section \<open>An uncontended run\<close>

lemma quiet_run:
  assumes p: "p \<in> plan s" "\<forall>r. p \<noteq> WbSkip r" "plan_marker p = None" and t: "sameTarget fed_wb_opts s s"
    and shows_it: "committedShowsWrite (table p [] s) s p []"
  shows "\<exists>w. wb_reach fed_wb_opts True plan s table w \<and> wb_phase w = WbDone (Applied p)"
proof -
  let ?step = "wb_step fed_wb_opts True plan s table"
  define w1 where "w1 = (wb_start s)\<lparr>wb_phase := WbStaged 1 s p [], wb_steps := 1\<rparr>"
  define w2 where "w2 = w1\<lparr>wb_phase := WbConfirmed 1 s p [], wb_clean := True, wb_steps := wb_steps w1 + 1\<rparr>"
  define w3 where "w3 = w2\<lparr>wb_phase := WbCommitted 1 p [], wb_store := table p [] (wb_store w2), wb_commits := wb_commits w2 + 1,
      wb_by := 1 # wb_by w2, wb_steps := wb_steps w2 + 1\<rparr>"
  define w4 where "w4 = w3\<lparr>wb_phase := WbDone (Applied p), wb_seen := wb_store w3, wb_steps := wb_steps w3 + 1\<rparr>"
  have st: "wb_stage fed_wb_opts True s 1 s p [] = WbStaged 1 s p []"
    using p(2,3) t by (cases p) (auto simp: wb_stage_def fed_wb_opts_def)
  have s1: "?step (wb_start s) w1"
    using wb_step.stage [where w = "wb_start s" and a = 1 and plan = plan and p = p and writeId = "[]" and opts = fed_wb_opts
        and can_update = True and basis = s and table = table] p(1) st
    by (simp add: w1_def wb_start_def)
  have s2: "?step w1 w2"
    using wb_step.confirm [where w = w1 and opts = fed_wb_opts and row = s and a = 1 and p = p and i = "[]" and can_update = True
        and plan = plan and basis = s and table = table]
    by (simp add: w2_def wb_confirm_def) (simp add: w1_def wb_start_def)
  have s3: "?step w2 w3"
    using wb_step.landed [where w = w2 and opts = fed_wb_opts and row = s and a = 1 and p = p and i = "[]" and can_update = True
        and plan = plan and basis = s and table = table]
    by (simp add: w3_def) (simp add: w2_def)
  have s4: "?step w3 w4"
  proof -
    have ph: "wb_phase w3 = WbCommitted 1 p []" "wb_store w3 = table p [] s" by (simp_all add: w3_def w2_def w1_def wb_start_def)
    then have "wb_verify fed_wb_opts s 1 p [] (Some (wb_store w3)) = WbDone (Applied p)"
      using shows_it by (simp add: wb_verify_def fed_wb_opts_def)
    then show ?thesis
      using wb_step.verify [where w = w3 and opts = fed_wb_opts and a = 1 and p = p and i = "[]" and r = "Some (wb_store w3)"
          and can_update = True and plan = plan and basis = s and table = table] ph
      by (simp add: w4_def)
  qed
  have "wb_reach fed_wb_opts True plan s table w4"
    by (rule wb_reach.step [OF wb_reach.step [OF wb_reach.step [OF wb_reach.step [OF wb_reach.start s1] s2] s3] s4])
  then show ?thesis by (auto simp: w4_def)
qed

lemma jlt_NaN [simp]: "\<not> jlt n NaN"
  by (cases n) simp_all

definition demo_env :: fed_env where
  "demo_env = \<lparr>fe_crypto = demo_crypto, fe_sender = ''spoke'', fe_peer = [(''role'', Str ''spoke'')], fe_key_of = (\<lambda>_. Undef),
     fe_require_signatures = False, fe_require_principal = False, fe_presence = True, fe_admin_ids = {''root''},
     fe_date_parse = (\<lambda>_. None), fe_ttl = None, fe_now = 0, fe_uuid = ''t1''\<rparr>"

definition demo_sync :: "string \<Rightarrow> jobj \<Rightarrow> jobj" where
  "demo_sync table d = [(''table'', Str table), (''id'', getp d ''id''), (''data'', Obj d)]"

definition demo_meta :: "jobj" where
  "demo_meta = [(''_originatorInstanceId'', Str ''spoke''), (''_syncedFrom'', Str ''spoke''), (''_syncedAt'', Str (iso_text 0))]"

text \<open>The database of the examples stores a full row as it is given.\<close>

abbreviation demo_store :: wb_table where
  "demo_store \<equiv> \<lambda>p i s. Some (plan_values p)"

lemma classify_demo:
  "table \<in> set FEDERATION_SYNC_TABLES \<Longrightarrow> \<not> inboundCarriesPointer (Obj d) \<Longrightarrow> local = None \<or> (\<exists>s. local = Some s \<and> getp s ''contentHash'' = Undef) \<Longrightarrow>
   classifyRecord (demo_sync table d) (Str ''spoke'') ''spoke'' local FEDERATION_SYNC_TABLES 0 = Merge (Str ''spoke'')"
  by (auto simp: classifyRecord_def demo_sync_def coalesce_def same_hash_no_op_def js_lt_def)

lemma prepare_demo:
  assumes "table \<in> set FEDERATION_SYNC_TABLES" "table \<noteq> ''Presence''" "table \<noteq> ''Memory''"
    and "getp d ''id'' = Str i" "agent_id_pattern i" "\<not> inboundCarriesPointer (Obj d)" "isReservedSeedId table (Str i) = False"
    and "local = None \<or> (\<exists>s. local = Some s \<and> getp s ''contentHash'' = Undef)"
  shows "fed_prepare demo_env (demo_sync table d) local agentRow =
    MergedRow (spread (mergeRecord local Undef d) demo_meta)"
proof -
  have g: "getp (demo_sync table d) ''table'' = Str table" "getp (demo_sync table d) ''id'' = Str i"
    "getp (demo_sync table d) ''data'' = Obj d" "getp (demo_sync table d) ''signature'' = Undef"
    "getp (demo_sync table d) ''updatedAt'' = Undef"
    using assms(4) by (simp_all add: demo_sync_def)
  have c: "classifyRecord (demo_sync table d) (Str ''spoke'') ''spoke'' local FEDERATION_SYNC_TABLES 0 = Merge (Str ''spoke'')"
    using assms by (intro classify_demo) auto
  have n: "checkPrincipalEntitlement (demo_sync table d) False = None"
    by (simp add: checkPrincipalEntitlement_def g principal_signed_def recordSignatureVersion_def coalesce_def demo_sync_def)
  have m: "\<not> payloadIdMismatch (demo_sync table d)" using assms(4) by (simp add: payloadIdMismatch_def g)
  have s: "signature_gate demo_env (demo_sync table d) (Str ''spoke'') = None" by (simp add: signature_gate_def g demo_env_def)
  show ?thesis
    using assms by (simp add: fed_prepare_def m demo_env_def c n g s [unfolded demo_env_def] fed_merge_checks_def Let_def toISOString_def MAX_DATE_MS_def
        demo_meta_def)
qed

lemma federation_grants_no_authority_witness:
  "\<exists>v. \<not> agentRecordIsAdmin (Obj v) \<and> getp v ''admin'' \<noteq> Bool True \<and>
     (\<exists>w. wb_reach fed_wb_opts True
        (\<lambda>row. {fed_plan demo_env (demo_sync ''Agent'' [(''id'', Str ''a1''), (''role'', Str ''admin''), (''admin'', Bool True)])
           (spread (mergeRecord None Undef [(''id'', Str ''a1''), (''role'', Str ''admin''), (''admin'', Bool True)]) demo_meta) row}) None demo_store w \<and>
        wb_phase w = WbDone (Applied (WbWrite v None)))"
proof -
  let ?d = "[(''id'', Str ''a1''), (''role'', Str ''admin''), (''admin'', Bool True)]"
  let ?rec = "demo_sync ''Agent'' ?d" and ?m = "spread (mergeRecord None Undef ?d) demo_meta"
  let ?plan = "\<lambda>row. {fed_plan demo_env ?rec ?m row}"
  have prep: "fed_prepare demo_env ?rec None None = MergedRow ?m"
    by (rule prepare_demo [where i = "''a1''"])
      (simp_all add: FEDERATION_SYNC_TABLES_def FEDERATION_TABLE_POLICY_def agent_id_pattern_def agent_id_char_def code_def is_digit_def
        inboundCarriesPointer_def FEDERATION_POINTER_FIELDS_def isReservedSeedId_def RESERVED_SEED_IDS_def)
  let ?p = "fed_plan demo_env ?rec ?m None"
  have p: "?p = WbWrite (keepReceiverAgentAuthority ?m None) None"
    by (simp add: fed_plan_def agent_plan_def demo_sync_def inboundChangesExistingPrincipalStatus_def
        inboundChangesExistingPendingKey_def agentAdminIdCreateRefusal_def demo_env_def agentIdentityRefusal_def inboundChangesAgentIdentity_def)
  have "committedShowsWrite (demo_store ?p [] None) None ?p []"
    unfolding p by (simp add: committedShowsWrite_def sameStoredRow_def row_field_def mergeRecord_def spread_def demo_meta_def
        keepReceiverAgentAuthority_def ADMIN_ROLE_def Let_def)
  then obtain w where w: "wb_reach fed_wb_opts True ?plan None demo_store w" "wb_phase w = WbDone (Applied ?p)"
    using quiet_run [of ?p ?plan None demo_store] p by (auto simp: sameTarget_def)
  show ?thesis
    using federation_grants_no_authority [OF prep _ _ _ w] w p by (auto simp: demo_sync_def)
qed


section \<open>Consumed messages\<close>

text \<open>A sync never takes a consumption back: when an inbound Message is applied over a row that was read,
  in every interleaving with local writers, a consumed message stays consumed, keeps when it was consumed and
  has no failure reason, and a failed message can only become consumed, whatever state and time the peer sent.\<close>

theorem consumed_survives_federation:
  assumes prep: "fed_prepare e rec (Some s) agentRow = MergedRow m" "getp rec ''table'' = Str ''Message''"
    and run: "wb_reach fed_wb_opts True (\<lambda>row. {fed_plan e rec m row}) (Some s) table w" "wb_phase w = WbDone (Applied p)"
  shows "\<exists>v. p = WbWrite v None \<and>
    (getp s ''state'' = Str ''consumed'' \<longrightarrow> getp v ''state'' = Str ''consumed'' \<and> getp v ''failureReason'' = Null \<and>
       (\<not> nullish (getp s ''consumedAt'') \<longrightarrow> isDeepStrictEqual (getp v ''consumedAt'') (getp s ''consumedAt''))) \<and>
    (getp s ''state'' = Str ''failed'' \<longrightarrow> getp v ''state'' \<in> {Str ''failed'', Str ''consumed''})"
proof -
  obtain row where row: "p = fed_plan e rec m row" "\<And>s'. Some s = Some s' \<Longrightarrow> \<exists>r. row = Some r \<and> isDeepStrictEqual (Obj r) (Obj s')"
    using planned_run [OF run] by (metis singletonD)
  obtain r where r: "row = Some r" "isDeepStrictEqual (Obj r) (Obj s)" using row(2) by blast
  note dg = deep_getp [OF r(2)]
  have "nullish (getp r ''consumedAt'') \<longleftrightarrow> nullish (getp s ''consumedAt'')"
    using deep_atom(2,3) [OF dg [of "''consumedAt''"]] by (simp add: nullish_def)
  moreover have "p = WbWrite (message_guard (Some r) m) None" using row(1) prep(2) r(1) by (simp add: fed_plan_def)
  ultimately show ?thesis
    using deep_atom(1) [OF dg [of "''state''"]] dg [of "''consumedAt''"]
    by (auto simp: message_guard_def Let_def reconcileState_def row_field_def coalesce_def)
qed

lemma consumed_survives_federation_witness:
  "\<exists>v. getp v ''state'' = Str ''consumed'' \<and>
     (\<exists>w. wb_reach fed_wb_opts True
        (\<lambda>row. {fed_plan demo_env (demo_sync ''Message'' [(''id'', Str ''m1''), (''state'', Str ''failed'')])
           (spread (mergeRecord (Some [(''id'', Str ''m1''), (''state'', Str ''consumed'')]) Undef [(''id'', Str ''m1''), (''state'', Str ''failed'')])
              demo_meta) row}) (Some [(''id'', Str ''m1''), (''state'', Str ''consumed'')]) demo_store w \<and>
        wb_phase w = WbDone (Applied (WbWrite v None)))"
proof -
  let ?s = "[(''id'', Str ''m1''), (''state'', Str ''consumed'')]" and ?d = "[(''id'', Str ''m1''), (''state'', Str ''failed'')]"
  let ?rec = "demo_sync ''Message'' ?d" and ?m = "spread (mergeRecord (Some ?s) Undef ?d) demo_meta"
  let ?plan = "\<lambda>row. {fed_plan demo_env ?rec ?m row}"
  have prep: "fed_prepare demo_env ?rec (Some ?s) None = MergedRow ?m"
    by (rule prepare_demo [where i = "''m1''"])
      (simp_all add: FEDERATION_SYNC_TABLES_def FEDERATION_TABLE_POLICY_def agent_id_pattern_def agent_id_char_def code_def is_digit_def
        inboundCarriesPointer_def FEDERATION_POINTER_FIELDS_def isReservedSeedId_def RESERVED_SEED_IDS_def)
  have m: "?m = ?s @ demo_meta" by (simp add: mergeRecord_def coalesce_def spread_def demo_meta_def)
  let ?p = "fed_plan demo_env ?rec ?m (Some ?s)"
  have p: "?p = WbWrite (?s @ demo_meta @ [(''failureReason'', Null), (''consumedAt'', Null)]) None"
    unfolding m by (simp add: fed_plan_def demo_sync_def message_guard_def Let_def reconcileState_def row_field_def demo_meta_def coalesce_def)
  have "committedShowsWrite (demo_store ?p [] (Some ?s)) (Some ?s) ?p []"
    unfolding p by (simp add: committedShowsWrite_def sameStoredRow_def row_field_def demo_meta_def)
  then obtain w where w: "wb_reach fed_wb_opts True ?plan (Some ?s) demo_store w" "wb_phase w = WbDone (Applied ?p)"
    using quiet_run [of ?p ?plan "Some ?s" demo_store] p by (auto simp: sameTarget_def sameStoredRow_def fed_wb_opts_def)
  obtain v where "?p = WbWrite v None" "getp v ''state'' = Str ''consumed''"
    using consumed_survives_federation [OF prep _ w] by (auto simp: demo_sync_def)
  then show ?thesis using w by auto
qed

section \<open>Authenticity\<close>

lemma prepare_passed:
  assumes "fed_prepare e rec local agentRow = MergedRow m \<or> fed_prepare e rec local agentRow = PresenceRow v"
  obtains originator where "\<not> payloadIdMismatch rec"
    "classifyRecord rec (getp (fe_peer e) ''role'') (fe_sender e) local FEDERATION_SYNC_TABLES (fe_now e) = Merge originator"
    "signature_gate e rec originator = None" "checkPrincipalEntitlement rec (fe_require_principal e) = None"
  using assms by (auto simp: fed_prepare_def split: if_splits classify_result.splits option.splits)

lemma merged_prepared:
  assumes "merge_one e table rec local MergedOne"
  obtains agentRow m v where "fed_prepare e rec local agentRow = MergedRow m \<or> fed_prepare e rec local agentRow = PresenceRow v"
  using assms by (cases rule: merge_one.cases) auto

text \<open>C10. What is merged is authentic: a record of a verified batch is merged only when it is of a federated
  table, its payload is the row its envelope names, its claimed originator is the sender or the sender is a hub,
  any signature it carries verifies over its rebuilt body under the key pinned for that originator (never the
  relaying sender's), a signature is present where the receiver requires one, and a record of a table that
  principals own whose signature version is at least 2 names the principal that owns the row. A record signed
  under version 1, or of another table, merges without naming one.\<close>

theorem merged_record_is_authentic:
  assumes "merge_one e table rec local MergedOne"
  shows "\<exists>originator t. getp rec ''table'' = Str t \<and> t \<in> set FEDERATION_SYNC_TABLES \<and>
     strict_eq (field (getp rec ''data'') ''id'') (getp rec ''id'') \<and>
     originator = coalesce (getp rec ''originatorInstanceId'') (Str (fe_sender e)) \<and>
     (originator = Str (fe_sender e) \<or> getp (fe_peer e) ''role'' = Str ''hub'') \<and>
     (truthy (getp rec ''signature'') \<longrightarrow>
        (\<exists>key. (if originator = Str (fe_sender e) then getp (fe_peer e) ''publicKey'' else fe_key_of e originator) = Str key \<and>
           verifyBodySignature (fe_crypto e) (reconstructRecordVerifyBody rec originator) key)) \<and>
     (fe_require_signatures e \<longrightarrow> truthy (getp rec ''signature'')) \<and>
     (t \<in> set PRINCIPAL_OWNING_TABLES \<and> principal_signed rec \<longrightarrow>
        (\<exists>pid. pid \<noteq> [] \<and> getp rec ''principalId'' = Str pid \<and> field (getp rec ''data'') (principalOwnerField t) = Str pid))"
proof -
  obtain agentRow m v where pr: "fed_prepare e rec local agentRow = MergedRow m \<or> fed_prepare e rec local agentRow = PresenceRow v"
    by (rule merged_prepared [OF assms])
  obtain originator where o: "\<not> payloadIdMismatch rec"
    "classifyRecord rec (getp (fe_peer e) ''role'') (fe_sender e) local FEDERATION_SYNC_TABLES (fe_now e) = Merge originator"
    "signature_gate e rec originator = None" "checkPrincipalEntitlement rec (fe_require_principal e) = None"
    by (rule prepare_passed [OF pr])
  note c = classify_mergeD [OF o(2)]
  obtain t where t: "getp rec ''table'' = Str t" "t \<in> set FEDERATION_SYNC_TABLES" using c(1) by auto
  have "truthy (getp rec ''signature'') \<longrightarrow>
        (\<exists>key. (if originator = Str (fe_sender e) then getp (fe_peer e) ''publicKey'' else fe_key_of e originator) = Str key \<and>
           verifyBodySignature (fe_crypto e) (reconstructRecordVerifyBody rec originator) key)"
    using o(3) unfolding signature_gate_def by (auto split: js.splits if_splits)
  moreover have "fe_require_signatures e \<longrightarrow> truthy (getp rec ''signature'')"
    using o(3) by (auto simp: signature_gate_def split: if_splits)
  moreover have "t \<in> set PRINCIPAL_OWNING_TABLES \<and> principal_signed rec \<longrightarrow>
        (\<exists>pid. pid \<noteq> [] \<and> getp rec ''principalId'' = Str pid \<and> field (getp rec ''data'') (principalOwnerField t) = Str pid)"
    using o(4) t(1) by (auto simp: checkPrincipalEntitlement_def Let_def split: js.splits if_splits)
  moreover have "strict_eq (field (getp rec ''data'') ''id'') (getp rec ''id'')" using o(1) by (simp add: payloadIdMismatch_def)
  ultimately show ?thesis using t c(3,4) by blast
qed

section \<open>The vocabulary is closed\<close>

lemma in_reasons:
  "''id_mismatch'' \<in> set SKIP_REASONS" "''merge_error'' \<in> set SKIP_REASONS" "''merge_target_busy'' \<in> set SKIP_REASONS"
  "''merge_target_changed'' \<in> set SKIP_REASONS" "''presence_receive_disabled'' \<in> set SKIP_REASONS" "''invalid_expiry'' \<in> set SKIP_REASONS"
  "AGENT_ID_ERROR \<in> set SKIP_REASONS" "''skill_not_federated'' \<in> set SKIP_REASONS" "''seed_id_not_federated'' \<in> set SKIP_REASONS"
  "''content_suffix_id_not_federated'' \<in> set SKIP_REASONS" "''agent_status_not_federated'' \<in> set SKIP_REASONS"
  "''agent_pending_key_not_federated'' \<in> set SKIP_REASONS" "''unknown_originator_key'' \<in> set SKIP_REASONS"
  "''invalid_signature'' \<in> set SKIP_REASONS" "''missing_signature'' \<in> set SKIP_REASONS" "''presence_invalid_shape'' \<in> set SKIP_REASONS"
  "''presence_future_timestamp'' \<in> set SKIP_REASONS" "''presence_agent_not_replicated'' \<in> set SKIP_REASONS"
  "''presence_agent_homed_elsewhere'' \<in> set SKIP_REASONS" "''presence_stale_heartbeat'' \<in> set SKIP_REASONS"
  by (simp_all add: SKIP_REASONS_def SKIP_REASON_CLASS_def AGENT_ID_ERROR_def)

lemma gate_reasons: "signature_gate e rec o' = Some r \<Longrightarrow> r \<in> set SKIP_REASONS"
  by (auto simp: signature_gate_def in_reasons split: if_splits js.splits)

lemma presence_reasons:
  "validatePresenceReceipt i d t sender = Inl r \<Longrightarrow> r \<in> set SKIP_REASONS"
  "presenceHomeBindingReason agentRow sender = Some r \<Longrightarrow> r \<in> set SKIP_REASONS"
  "mergePresenceReceipt local row t = Inl r \<Longrightarrow> r \<in> set SKIP_REASONS"
  by (auto simp: validatePresenceReceipt_def activity_stamp_def presenceHomeBindingReason_def mergePresenceReceipt_def in_reasons
      split: js.splits option.splits if_splits sum.splits)

lemma check_reasons: "fed_merge_checks e rec table originator local incoming = Refused r \<Longrightarrow> r \<in> set SKIP_REASONS"
  by (auto simp: fed_merge_checks_def Let_def in_reasons split: if_splits option.splits)

lemma prepare_reasons:
  assumes "fed_prepare e rec local agentRow = Refused r"
  shows "r \<in> set SKIP_REASONS"
  using assms reasons_in(1,2) gate_reasons presence_reasons check_reasons
  unfolding fed_prepare_def
  by (auto simp: in_reasons split: if_splits classify_result.splits option.splits js.splits sum.splits expiry_outcome.splits)

lemma plan_reasons:
  "fed_plan e rec m row = WbSkip (Some r) \<Longrightarrow> r \<in> set SKIP_REASONS"
  "presence_plan e v a row = WbSkip (Some r) \<Longrightarrow> r \<in> set SKIP_REASONS"
  using reasons_in(3,4) presence_reasons(2,3)
  by (auto simp: fed_plan_def agent_plan_def memory_plan_def presence_plan_def Let_def in_reasons split: if_splits option.splits sum.splits)

lemma skipped_planned:
  assumes "wb_reach fed_wb_opts True plan local table w" "wb_phase w = WbDone (Skipped (Some r))"
  shows "\<exists>row. WbSkip (Some r) \<in> plan row"
  using reach_ok [OF assms(1)] assms(2) by (auto simp: fed_wb_opts_def)

lemma outcome_reasons:
  assumes "SkippedFor r = outcome_of d res" "d \<in> set SKIP_REASONS" "\<And>q. res = Skipped (Some q) \<Longrightarrow> q \<in> set SKIP_REASONS"
  shows "r \<in> set SKIP_REASONS"
  using assms by (cases res) (auto simp: in_reasons split: option.splits)

text \<open>C36. The vocabulary of skip reasons is closed: whatever is received and however the write-back ends, the
  reason a record is reported skipped for is a member of the typed union, so its retry class is defined.\<close>

theorem skip_reasons_closed:
  assumes "merge_one e table rec local (SkippedFor r)"
  shows "isSkipReason (Str r) \<and> (\<exists>c. map_of SKIP_REASON_CLASS r = Some c \<and> c \<in> {''retryable'', ''non_retryable''} \<and>
     (c = ''retryable'' \<longleftrightarrow> r \<in> set RETRYABLE_SKIP_REASONS))"
proof -
  have "r \<in> set SKIP_REASONS"
    using assms
  proof (cases rule: merge_one.cases)
    case (refused agentRow)
    then show ?thesis by (rule prepare_reasons)
  next
    case (written agentRow m w res)
    have "q \<in> set SKIP_REASONS" if "res = Skipped (Some q)" for q
      using skipped_planned [OF written(3), of q] written(4) that plan_reasons(1) by fastforce
    then show ?thesis by (rule outcome_reasons [OF written(1) in_reasons(11)])
  next
    case (presence agentRow v w res)
    have "q \<in> set SKIP_REASONS" if "res = Skipped (Some q)" for q
      using skipped_planned [OF presence(3), of q] presence(4) that plan_reasons(2) by fastforce
    then show ?thesis by (rule outcome_reasons [OF presence(1) in_reasons(16)])
  qed (simp_all add: in_reasons)
  then obtain c where c: "(r, c) \<in> set SKIP_REASON_CLASS" by (auto simp: SKIP_REASONS_def)
  have "distinct (map fst SKIP_REASON_CLASS)" by (simp add: SKIP_REASON_CLASS_def)
  then have m: "map_of SKIP_REASON_CLASS r = Some c" using c by simp
  moreover have "c \<in> {''retryable'', ''non_retryable''}" using c by (auto simp: SKIP_REASON_CLASS_def)
  moreover have "c = ''retryable'' \<longleftrightarrow> r \<in> set RETRYABLE_SKIP_REASONS"
    using c m by (auto simp: RETRYABLE_SKIP_REASONS_def image_iff intro: bexI [of _ "(r, c)"])
  ultimately show ?thesis using \<open>r \<in> set SKIP_REASONS\<close> by simp
qed


lemma skip_reasons_closed_witness:
  "isSkipReason (Str ''id_mismatch'')"
proof -
  have "fed_prepare demo_env [(''table'', Str ''Memory''), (''id'', Str ''m1''), (''data'', Obj [(''id'', Str ''m2'')])] None None = Refused ''id_mismatch''"
    by (simp add: fed_prepare_def payloadIdMismatch_def)
  from skip_reasons_closed [OF merge_one.refused [where table = demo_store, OF this]] show ?thesis by simp
qed

lemma merged_record_is_authentic_witness:
  "\<exists>t. getp (demo_sync ''Agent'' [(''id'', Str ''a1'')]) ''table'' = Str t \<and> t \<in> set FEDERATION_SYNC_TABLES"
proof -
  let ?d = "[(''id'', Str ''a1'')]"
  let ?rec = "demo_sync ''Agent'' ?d" and ?m = "spread (mergeRecord None Undef ?d) demo_meta"
  let ?plan = "\<lambda>row. {fed_plan demo_env ?rec ?m row}"
  have prep: "fed_prepare demo_env ?rec None None = MergedRow ?m"
    by (rule prepare_demo [where i = "''a1''"])
      (simp_all add: FEDERATION_SYNC_TABLES_def FEDERATION_TABLE_POLICY_def agent_id_pattern_def agent_id_char_def code_def is_digit_def
        inboundCarriesPointer_def FEDERATION_POINTER_FIELDS_def isReservedSeedId_def RESERVED_SEED_IDS_def)
  let ?p = "fed_plan demo_env ?rec ?m None"
  have p: "?p = WbWrite (keepReceiverAgentAuthority ?m None) None"
    by (simp add: fed_plan_def agent_plan_def demo_sync_def inboundChangesExistingPrincipalStatus_def
        inboundChangesExistingPendingKey_def agentAdminIdCreateRefusal_def demo_env_def agentIdentityRefusal_def inboundChangesAgentIdentity_def)
  have "committedShowsWrite (demo_store ?p [] None) None ?p []"
    unfolding p by (simp add: committedShowsWrite_def sameStoredRow_def row_field_def mergeRecord_def spread_def demo_meta_def
        keepReceiverAgentAuthority_def ADMIN_ROLE_def Let_def)
  then obtain w where "wb_reach fed_wb_opts True ?plan None demo_store w" "wb_phase w = WbDone (Applied ?p)"
    using quiet_run [of ?p ?plan None demo_store] p by (auto simp: sameTarget_def)
  from merge_one.written [OF prep this] have "merge_one demo_env demo_store ?rec None MergedOne" by simp
  from merged_record_is_authentic [OF this] show ?thesis by blast
qed

section \<open>Memory rows\<close>

lemma getp_memory_incarnation:
  "getp (memory_incarnation e local m) k =
     (if k = ''instanceToken'' then
        (case local of None \<Rightarrow> Str (fe_uuid e)
         | Some row \<Rightarrow> (case getp row ''instanceToken'' of Str t \<Rightarrow> if t = [] then Str (fe_uuid e) else Str t | _ \<Rightarrow> Str (fe_uuid e)))
      else if k = ''provenance'' then (case getp m ''provenance'' of Str p \<Rightarrow> Str p | _ \<Rightarrow> Undef)
      else if k \<in> set SERVER_STAMPED_MEMORY_FIELDS \<or> k \<notin> set MEMORY_ATTRIBUTES then Undef else getp m k)"
proof -
  have "''provenance'' \<in> set SERVER_STAMPED_MEMORY_FIELDS" "''provenance'' \<in> set MEMORY_ATTRIBUTES"
    by (simp_all add: SERVER_STAMPED_MEMORY_FIELDS_def MEMORY_ATTRIBUTES_def DECLARED_MEMORY_ATTRIBUTES_def)
  then show ?thesis
    by (auto simp: memory_incarnation_def Let_def getp_stripInbound getp_stripServerStamped split: js.splits)
qed

text \<open>A received Memory row is a local incarnation: it holds only declared attributes (no pointer to a host
  source), it is no skill and not the reserved seed row, its token is the one the receiver stored or a fresh one
  and never the peer's, and when it is applied over a stored row with a token, no write-back changes that token.\<close>

theorem federated_memory_is_local:
  assumes prep: "fed_prepare e rec local agentRow = MergedRow m" "getp rec ''table'' = Str ''Memory''"
  shows "(\<forall>k. getp m k \<noteq> Undef \<longrightarrow> k \<in> set MEMORY_ATTRIBUTES) \<and> (\<forall>k \<in> set FEDERATION_POINTER_FIELDS. getp m k = Undef) \<and>
     \<not> isSkillWrite m \<and> getp rec ''id'' \<noteq> Str SEED_SKILL_ROW_ID \<and>
     (\<forall>s t. local = Some s \<and> getp s ''instanceToken'' = Str t \<and> t \<noteq> [] \<longrightarrow>
        getp m ''instanceToken'' = Str t \<and>
        (\<forall>row v. fed_plan e rec m row = WbWrite v None \<longrightarrow> getp v ''instanceToken'' = Str t) \<and>
        (\<forall>r v. isDeepStrictEqual (Obj r) (Obj s) \<and> fed_plan e rec m (Some r) = WbUpdate v None \<longrightarrow>
           (''instanceToken'', Str t) \<notin> set v))"
proof -
  obtain originator i d incoming where pr: "getp rec ''id'' = Str i"
    "fed_merge_checks e rec ''Memory'' originator local incoming = MergedRow m"
    by (rule prepare_mergedD [OF prep]) blast
  let ?m0 = "fst (stripInboundMemoryRow (mergeRecord local (getp rec ''updatedAt'') incoming))"
  obtain st where m: "m = memory_incarnation e local (spread ?m0
      [(''_originatorInstanceId'', originator), (''_syncedFrom'', Str (fe_sender e)), (''_syncedAt'', Str st)])"
    and ns: "\<not> isSkillWrite ?m0" "\<not> isReservedSeedId ''Memory'' (getp rec ''id'')"
    using pr(2) by (auto simp: fed_merge_checks_def Let_def split: if_splits option.splits)
  have at: "''instanceToken'' \<in> set MEMORY_ATTRIBUTES" "''provenance'' \<in> set MEMORY_ATTRIBUTES" "''tags'' \<in> set MEMORY_ATTRIBUTES"
    "''tags'' \<notin> set SERVER_STAMPED_MEMORY_FIELDS" "\<forall>k \<in> set FEDERATION_POINTER_FIELDS. k \<notin> set MEMORY_ATTRIBUTES"
    by (simp_all add: MEMORY_ATTRIBUTES_def DECLARED_MEMORY_ATTRIBUTES_def UNDECLARED_ALLOWED_def SERVER_STAMPED_MEMORY_FIELDS_def
        FEDERATION_POINTER_FIELDS_def)
  have decl: "k \<in> set MEMORY_ATTRIBUTES" if "getp m k \<noteq> Undef" for k
    using that at(1,2) unfolding m getp_memory_incarnation by (auto split: if_splits)
  have tags: "getp m ''tags'' = getp ?m0 ''tags''"
    using at(3,4) unfolding m getp_memory_incarnation by (simp add: spread_def)
  have tok: "getp m ''instanceToken'' = Str t" if "local = Some s" "getp s ''instanceToken'' = Str t" "t \<noteq> []" for s t
    using that unfolding m getp_memory_incarnation by simp
  have pl: "fed_plan e rec m row = memory_plan row m" for row using prep(2) by (simp add: fed_plan_def)
  have wr: "getp v ''instanceToken'' = getp m ''instanceToken''" if "memory_plan row m = WbWrite v None" for row v
    using that by (auto simp: memory_plan_def Let_def normalizeEmptyEmbedding_def split: option.splits if_splits)
  have up: "(''instanceToken'', Str t) \<notin> set v" if "memory_plan (Some r) m = WbUpdate v None"
      "isDeepStrictEqual (Obj r) (Obj s)" "getp s ''instanceToken'' = Str t" for r s t v
  proof
    assume "(''instanceToken'', Str t) \<in> set v"
    then have "\<not> isDeepStrictEqual (getp r ''instanceToken'') (Str t)"
      using that(1) by (auto simp: memory_plan_def Let_def split: if_splits)
    then show False using deep_getp [OF that(2), of "''instanceToken''"] that(3) by simp
  qed
  have seed: "getp rec ''id'' \<noteq> Str SEED_SKILL_ROW_ID" using ns(2) by (auto simp: isReservedSeedId_def RESERVED_SEED_IDS_def)
  have skill: "\<not> isSkillWrite m" using ns(1) tags by (simp add: isSkillWrite_def)
  have ptr: "\<forall>k \<in> set FEDERATION_POINTER_FIELDS. getp m k = Undef" using decl at(5) by blast
  show ?thesis
  proof (intro conjI allI impI; (elim conjE)?)
    show "\<And>k. getp m k \<noteq> Undef \<Longrightarrow> k \<in> set MEMORY_ATTRIBUTES" by (rule decl)
    fix s t assume st: "local = Some s" "getp s ''instanceToken'' = Str t" "t \<noteq> []"
    show "getp m ''instanceToken'' = Str t" by (rule tok [OF st])
    show "\<And>row v. fed_plan e rec m row = WbWrite v None \<Longrightarrow> getp v ''instanceToken'' = Str t"
      unfolding pl using wr tok [OF st] by simp
    show "\<And>r v. isDeepStrictEqual (Obj r) (Obj s) \<Longrightarrow> fed_plan e rec m (Some r) = WbUpdate v None \<Longrightarrow>
        (''instanceToken'', Str t) \<notin> set v"
      unfolding pl using up st(2) by blast
  qed (rule ptr skill seed)+
qed

lemma federated_memory_is_local_witness:
  "\<exists>m. fed_prepare demo_env (demo_sync ''Memory'' [(''id'', Str ''m1'')])
        (Some [(''id'', Str ''m1''), (''instanceToken'', Str ''here'')]) None = MergedRow m \<and> getp m ''instanceToken'' = Str ''here''"
proof -
  let ?s = "[(''id'', Str ''m1''), (''instanceToken'', Str ''here'')]" and ?d = "[(''id'', Str ''m1'')]"
  let ?rec = "demo_sync ''Memory'' ?d"
  have g: "getp ?rec ''table'' = Str ''Memory''" "getp ?rec ''id'' = Str ''m1''" "getp ?rec ''data'' = Obj ?d"
    "getp ?rec ''signature'' = Undef" "getp ?rec ''updatedAt'' = Undef"
    by (simp_all add: demo_sync_def)
  have c: "classifyRecord ?rec (Str ''spoke'') ''spoke'' (Some ?s) FEDERATION_SYNC_TABLES 0 = Merge (Str ''spoke'')"
    by (rule classify_demo) (simp_all add: FEDERATION_SYNC_TABLES_def FEDERATION_TABLE_POLICY_def inboundCarriesPointer_def FEDERATION_POINTER_FIELDS_def)
  have n: "checkPrincipalEntitlement ?rec False = None"
    by (simp add: checkPrincipalEntitlement_def g principal_signed_def recordSignatureVersion_def coalesce_def demo_sync_def)
  have x: "\<not> payloadIdMismatch ?rec" by (simp add: payloadIdMismatch_def g)
  have s: "signature_gate demo_env ?rec (Str ''spoke'') = None" by (simp add: signature_gate_def g demo_env_def)
  have st: "stampEphemeralExpiry dp env now True ?d (Some ?s) = Stamped ?d" for dp env now
    by (simp add: stampEphemeralExpiry_def carried_tier_def)
  have "\<exists>m. fed_prepare demo_env ?rec (Some ?s) None = MergedRow m"
    using c n s [unfolded demo_env_def]
    by (simp add: fed_prepare_def x demo_env_def g st fed_merge_checks_def Let_def toISOString_def MAX_DATE_MS_def
        inboundCarriesPointer_def FEDERATION_POINTER_FIELDS_def isReservedSeedId_def RESERVED_SEED_IDS_def mergeRecord_def coalesce_def
        stripInboundMemoryRow_def stripUndeclaredMemoryAttributes_def isSkillWrite_def spread_def SEED_SKILL_ROW_ID_def starts_with_def
        MEMORY_CONTENT_SELECTOR_SUFFIX_def MEMORY_ATTRIBUTES_def DECLARED_MEMORY_ATTRIBUTES_def UNDECLARED_ALLOWED_def)
  then obtain m where m: "fed_prepare demo_env ?rec (Some ?s) None = MergedRow m" by blast
  then show ?thesis using federated_memory_is_local [OF m g(1)] by simp
qed

section \<open>Accounting\<close>

lemma tally_fold:
  "let t' = fold tally_one ros t in
     st_merged t' + st_skipped t' + length (st_indeterminate t') = st_merged t + st_skipped t + length (st_indeterminate t) + length ros \<and>
     length (st_refused t') + st_skipped t = length (st_refused t) + st_skipped t' \<and>
     (\<forall>r. (case map_of (st_reasons t') r of None \<Rightarrow> 0 | Some n \<Rightarrow> n) =
        (case map_of (st_reasons t) r of None \<Rightarrow> 0 | Some n \<Rightarrow> n) + length (filter (\<lambda>ro. snd ro = SkippedFor r) ros)) \<and>
     st_merged t' = st_merged t + length (filter (\<lambda>ro. snd ro = MergedOne) ros)"
proof (induction ros arbitrary: t)
  case (Cons ro ros)
  show ?case
  proof (cases "snd ro")
    case (SkippedFor reason)
    then show ?thesis using Cons [of "tally_one ro t"]
      by (auto simp: Let_def tally_one_def recordSkip_def update_conv')
  next
    case MergedOne
    then show ?thesis using Cons [of "tally_one ro t"] by (auto simp: Let_def tally_one_def)
  next
    case Indeterminate
    then show ?thesis using Cons [of "tally_one ro t"] by (auto simp: Let_def tally_one_def)
  qed
qed (simp add: Let_def)

text \<open>A sync batch accounts for every record: merged, skipped and indeterminate records add up to the
  records offered, every skipped record is in the refused list, the count under each reason is the number of
  records skipped for it, and an admitted batch names no row twice.\<close>

theorem sync_batch_accounted:
  "(let t = sync_counts ros in
     st_merged t + st_skipped t + length (st_indeterminate t) = length ros \<and> length (st_refused t) = st_skipped t \<and>
     (\<forall>r. (case map_of (st_reasons t) r of None \<Rightarrow> 0 | Some n \<Rightarrow> n) = length (filter (\<lambda>ro. snd ro = SkippedFor r) ros)) \<and>
     (getp (peer_after_sync peer clock now (st_merged t)) ''lastMergeAt'' \<noteq> getp peer ''lastMergeAt'' \<longrightarrow> (\<exists>ro \<in> set ros. snd ro = MergedOne))) \<and>
   (sync_admit d pr verified = Inr recs \<longrightarrow> distinct (map (\<lambda>r. (field r ''table'', field r ''id'')) recs))"
proof -
  have keys: "distinct (map (\<lambda>r. (field r ''table'', field r ''id'')) rs) \<and>
      (\<forall>r \<in> set rs. \<forall>t i. field r ''table'' = Str t \<and> field r ''id'' = Str i \<longrightarrow> (t, i) \<notin> seen) \<and>
      (\<forall>r \<in> set rs. \<exists>t i. field r ''table'' = Str t \<and> field r ''id'' = Str i)"
    if "batch_key_error rs seen = None" for rs seen
    using that
  proof (induction rs arbitrary: seen)
    case (Cons r rs)
    obtain t i where ti: "field r ''table'' = Str t" "field r ''id'' = Str i"
      using Cons.prems by (auto split: js.splits)
    then have "(t, i) \<notin> seen" "batch_key_error rs (insert (t, i) seen) = None" using Cons.prems by (auto split: if_splits)
    then show ?case using Cons.IH [of "insert (t, i) seen"] ti by (auto; fastforce)
  qed simp
  have "distinct (map (\<lambda>r. (field r ''table'', field r ''id'')) recs)" if "sync_admit d pr verified = Inr recs"
    using that keys by (auto simp: sync_admit_def split: js.splits if_splits sum.splits option.splits)
  moreover have "\<exists>ro \<in> set ros. snd ro = MergedOne"
    if "getp (peer_after_sync peer clock now (st_merged (sync_counts ros))) ''lastMergeAt'' \<noteq> getp peer ''lastMergeAt''"
  proof -
    have "0 < st_merged (sync_counts ros)" using that by (auto simp: peer_after_sync_def spread_def split: if_splits)
    then have "filter (\<lambda>ro. snd ro = MergedOne) ros \<noteq> []" using tally_fold [of ros tally_start] by (auto simp: sync_counts_def tally_start_def Let_def)
    then show ?thesis by (auto simp: filter_empty_conv)
  qed
  ultimately show ?thesis using tally_fold [of ros tally_start] by (simp add: sync_counts_def tally_start_def Let_def)
qed

lemma sync_batch_accounted_witness:
  "distinct (map (\<lambda>r. (field r ''table'', field r ''id'')) [Obj (demo_sync ''Soul'' [(''id'', Str ''s1'')])]) \<and>
   st_merged (sync_counts [(demo_sync ''Soul'' [(''id'', Str ''s1'')], MergedOne)]) = 1"
  using sync_batch_accounted [of "[(demo_sync ''Soul'' [(''id'', Str ''s1'')], MergedOne)]" "[]" Undef "[]"
      "Obj [(''instanceId'', Str ''spoke''), (''signature'', Str ''x''), (''records'', Arr [Obj (demo_sync ''Soul'' [(''id'', Str ''s1'')])])]"
      "Some []" "Inr ()" "[Obj (demo_sync ''Soul'' [(''id'', Str ''s1'')])]"]
  by (simp add: sync_counts_def tally_one_def tally_start_def)

end
