(* ===== verification/ReadScope.thy ===== *)
theory ReadScope
  imports Bm25 IdRules
begin

text \<open>
  Who may read a Memory row, and how a row gets its visibility: \<open>resources/memory-visibility.ts\<close>,
  \<open>resources/memory-read-scope.ts\<close>, the read scope, by-id gate, scoped search and attribution of
  \<open>resources/record-type-kit.ts\<close>, the second layer of the feed (\<open>readableRowEvent\<close> of \<open>resources/MemoryFeed.ts\<close>),
  the push filter of \<open>src/commands/federation.ts\<close>, and the tier and visibility section of \<open>Memory.post\<close>,
  \<open>put\<close> and \<open>patch\<close>. The database search that a scoped search calls is an argument; conditions are those of
  theory \<open>Bm25\<close>.
\<close>

section \<open>Visibility\<close>

definition PRIVATE_VISIBILITY :: string where "PRIVATE_VISIBILITY = ''private''"

definition SHARED_VISIBILITY :: string where "SHARED_VISIBILITY = ''shared''"

definition WRITABLE_VISIBILITIES :: "string list" where
  "WRITABLE_VISIBILITIES = [PRIVATE_VISIBILITY, SHARED_VISIBILITY]"

definition isPrivateVisibility :: "js \<Rightarrow> bool" where
  "isPrivateVisibility visibility \<longleftrightarrow> visibility = Str PRIVATE_VISIBILITY"

definition quoted :: "string \<Rightarrow> string" where
  "quoted s = [CHR 34] @ s @ [CHR 34]"

definition shown_json :: "js \<Rightarrow> string" where
  "shown_json v = (case json_stringify v of None \<Rightarrow> ''undefined'' | Some t \<Rightarrow> t)"

definition assertValidVisibility :: "js \<Rightarrow> string option" where
  "assertValidVisibility visibility =
     (if nullish visibility then None
      else if visibility \<in> Str ` set WRITABLE_VISIBILITIES then None
      else Some (''visibility must be '' @ join_with '' or '' (map quoted WRITABLE_VISIBILITIES) @
        '' (got: '' @ shown_json visibility @ ''). Omit it to use the durability-keyed default on a new '' @
        ''memory (permanent/persistent -> shared, standard/ephemeral -> private); on an update, '' @
        ''omitting it keeps a stored private or shared visibility.''))"

definition EPHEMERAL_DURABILITY :: string where "EPHEMERAL_DURABILITY = ''ephemeral''"

definition assertVisibilityAllowedForDurability :: "js \<Rightarrow> js \<Rightarrow> string option" where
  "assertVisibilityAllowedForDurability durability visibility =
     (if durability \<noteq> Str EPHEMERAL_DURABILITY then None
      else if nullish visibility \<or> visibility = Str PRIVATE_VISIBILITY then None
      else Some (''ephemeral memories are private-only (continuity journal tier, flair#1257): '' @
        ''durability '' @ quoted EPHEMERAL_DURABILITY @ '' cannot be written with visibility '' @ shown_json visibility @ ''. '' @
        ''Set visibility to '' @ quoted PRIVATE_VISIBILITY @ '' (for a new memory, omitting it also gives '' @
        quoted PRIVATE_VISIBILITY @ ''; an update keeps the record's stored visibility); for a memory '' @
        ''other agents should read, use durability '' @ quoted ''standard'' @ '', '' @ quoted ''persistent'' @ '', or '' @
        quoted ''permanent'' @ ''.''))"

definition defaultVisibilityForDurability :: "js \<Rightarrow> string" where
  "defaultVisibilityForDurability durability =
     (if durability = Str ''permanent'' \<or> durability = Str ''persistent'' then ''shared'' else ''private'')"

section \<open>The read scope\<close>

record read_scope =
  rs_condition :: condition
  rs_isAllowed :: "js \<Rightarrow> bool"

definition resolveReadScope :: "string \<Rightarrow> read_scope" where
  "resolveReadScope authAgentId =
     \<lparr>rs_condition = Group ''or''
        [Leaf (Str ''agentId'') ''equals'' (Str authAgentId),
         Leaf (Str ''visibility'') ''not_equal'' (Str PRIVATE_VISIBILITY)],
      rs_isAllowed = (\<lambda>row. truthy row \<and>
        (field row ''agentId'' = Str authAgentId \<or> \<not> isPrivateVisibility (field row ''visibility'')))\<rparr>"

definition ownerOnlyReadScope :: "string \<Rightarrow> string \<Rightarrow> read_scope" where
  "ownerOnlyReadScope ownerField authAgentId =
     \<lparr>rs_condition = Leaf (Str ownerField) ''equals'' (Str authAgentId),
      rs_isAllowed = (\<lambda>row. truthy row \<and> field row ownerField = Str authAgentId)\<rparr>"

datatype read_scope_mode = OwnerOnly | OpenWithinOrg

definition makeReadScope :: "read_scope_mode \<Rightarrow> string \<Rightarrow> string \<Rightarrow> read_scope" where
  "makeReadScope mode ownerField =
     (case mode of OpenWithinOrg \<Rightarrow> resolveReadScope | OwnerOnly \<Rightarrow> ownerOnlyReadScope ownerField)"

text \<open>\<open>resolveAllowedOwners\<close>: the rows of the grant search, or \<open>None\<close> where the search failed after the given rows.\<close>

definition resolveAllowedOwners :: "string \<Rightarrow> js list \<Rightarrow> js list" where
  "resolveAllowedOwners authAgentId grants =
     Str authAgentId # map (\<lambda>g. field g ''ownerId'')
       (filter (\<lambda>g. truthy (field g ''ownerId'') \<and> (field g ''scope'' = Str ''read'' \<or> field g ''scope'' = Str ''search'')) grants)"

section \<open>Gates\<close>

definition kit_error :: "nat \<Rightarrow> string \<Rightarrow> response" where
  "kit_error st msg = json_response st (Obj [(''error'', Str msg)])"

definition kit_forbidden :: "string \<Rightarrow> response" where "kit_forbidden msg = kit_error 403 msg"

definition kit_unauth :: response where "kit_unauth = kit_error 401 ''authentication required''"

definition kit_not_found :: response where "kit_not_found = kit_error 404 ''not found''"

datatype gate_outcome = Denied response | Unfiltered | Scoped string

definition resolveAuthGate :: "auth_verdict \<Rightarrow> response \<Rightarrow> gate_outcome" where
  "resolveAuthGate auth denyResponse =
     (case auth of
        Anonymous \<Rightarrow> Denied denyResponse
      | Internal \<Rightarrow> Unfiltered
      | Agent a admin \<Rightarrow> if admin then Unfiltered else Scoped a)"

text \<open>What a by-id read answers: the collection search, a refusal, or a row (\<open>Undef\<close> when none).\<close>

datatype read_answer = SearchOf js | ReadRefused response | ReadRow js

text \<open>The target is a bare id, a request target object or nothing; \<open>superGet\<close> reads with a target.\<close>

definition target_id :: "js \<Rightarrow> js" where
  "target_id target = (case target of Str s \<Rightarrow> Str s | t \<Rightarrow> field t ''id'')"

definition plain_target :: "js \<Rightarrow> js" where
  "plain_target target = Obj (if nullish (target_id target) then [] else [(''id'', target_id target)])"

definition is_shaped :: "js \<Rightarrow> bool" where
  "is_shaped target \<longleftrightarrow> \<not> nullish (field target ''select'') \<or> \<not> nullish (field target ''property'')"

definition byIdReadGate :: "(string \<Rightarrow> read_scope) \<Rightarrow> auth_verdict \<Rightarrow> (js \<Rightarrow> js) \<Rightarrow> js \<Rightarrow> read_answer" where
  "byIdReadGate readScope auth superGet target =
     (if \<not> truthy target \<or> truthy (field target ''isCollection'') then SearchOf target
      else case auth of
          Anonymous \<Rightarrow> ReadRefused kit_not_found
        | Internal \<Rightarrow> ReadRow (superGet target)
        | Agent a admin \<Rightarrow>
            if admin then ReadRow (superGet target)
            else
              let row = superGet (plain_target target) in
              if \<not> truthy row then ReadRefused kit_not_found
              else if \<not> rs_isAllowed (readScope a) row then ReadRefused kit_not_found
              else ReadRow (if is_shaped target then superGet target else row))"

section \<open>Scoped search\<close>

text \<open>The caller's query: an object with the given other properties, a bare iterable, a plain array, or nothing;
  its conditions are an array or iterable, a single condition, or absent.\<close>

datatype caller_conditions = Many "condition list" | One condition | Absent

datatype caller_query =
    QObject (q_rest: jobj) (q_conditions: caller_conditions) (q_operator: "string option")
  | QIterable "condition list"
  | QArray "condition list"
  | QNone

record scoped_query =
  sq_rest :: jobj
  sq_conditions :: "condition list"
  sq_operator :: string

fun callerConditions :: "caller_conditions \<Rightarrow> condition list" where
  "callerConditions (Many cs) = cs"
| "callerConditions (One c) = [c]"
| "callerConditions Absent = []"

definition compose :: "condition \<Rightarrow> condition list \<Rightarrow> string option \<Rightarrow> condition list" where
  "compose agentCondition conds operator =
     (case conds of
        [] \<Rightarrow> [agentCondition]
      | [c] \<Rightarrow> [agentCondition, c]
      | _ \<Rightarrow> [agentCondition, Group (case operator of None \<Rightarrow> ''and'' | Some op \<Rightarrow> if op = [] then ''and'' else op) conds])"

fun scopedSearch :: "(string \<Rightarrow> read_scope) \<Rightarrow> string \<Rightarrow> caller_query \<Rightarrow> scoped_query" where
  "scopedSearch readScope agentId (QIterable cs) =
     \<lparr>sq_rest = [], sq_conditions = compose (rs_condition (readScope agentId)) cs (Some ''and''), sq_operator = ''and''\<rparr>"
| "scopedSearch readScope agentId (QObject rest conds operator) =
     \<lparr>sq_rest = rest, sq_conditions = compose (rs_condition (readScope agentId)) (callerConditions conds) operator,
      sq_operator = ''and''\<rparr>"
| "scopedSearch readScope agentId (QArray cs) =
     \<lparr>sq_rest = [], sq_conditions = compose (rs_condition (readScope agentId)) cs (Some ''and''), sq_operator = ''and''\<rparr>"
| "scopedSearch readScope agentId QNone =
     \<lparr>sq_rest = [], sq_conditions = compose (rs_condition (readScope agentId)) [] (Some ''and''), sq_operator = ''and''\<rparr>"

section \<open>Attribution\<close>

datatype attribution_mode = ValidateTruthy | ValidateStrict | StampDefault | StampStrict

text \<open>The refusal, or the body with its attribution.\<close>

definition stampAttribution :: "auth_verdict \<Rightarrow> jobj \<Rightarrow> string \<Rightarrow> attribution_mode \<Rightarrow> string \<Rightarrow> response + jobj" where
  "stampAttribution auth content ownerField mode forbiddenMessage =
     (case auth of
        Agent a admin \<Rightarrow>
          if admin
          then Inr (if mode = StampDefault \<and> \<not> truthy (getp content ownerField)
                    then AList.update ownerField (Str a) content else content)
          else (case mode of
              ValidateTruthy \<Rightarrow>
                if truthy (getp content ownerField) \<and> getp content ownerField \<noteq> Str a
                then Inl (kit_forbidden forbiddenMessage) else Inr content
            | ValidateStrict \<Rightarrow>
                if getp content ownerField \<noteq> Str a then Inl (kit_forbidden forbiddenMessage) else Inr content
            | StampDefault \<Rightarrow> Inr (AList.update ownerField (Str a) content)
            | StampStrict \<Rightarrow>
                if truthy (getp content ownerField) \<and> getp content ownerField \<noteq> Str a
                then Inl (kit_forbidden forbiddenMessage)
                else Inr (AList.update ownerField (Str a) content))
      | _ \<Rightarrow> Inr content)"

text \<open>A body that a non-admin agent writes names that agent as its owner, or no owner where the table validates only
  a named one.\<close>

lemma attribution_is_caller:
  assumes "stampAttribution (Agent a False) content ownerField mode msg = Inr content'"
  shows "getp content' ownerField = Str a \<or> (mode = ValidateTruthy \<and> content' = content \<and> \<not> truthy (getp content ownerField))"
  using assms by (auto simp: stampAttribution_def split: attribution_mode.splits if_splits)

section \<open>The feed\<close>

text \<open>\<open>storedRowReadable\<close>: the re-read row, \<open>None\<close> when the read throws; \<open>closed_ok\<close> is the check of a retained
  closed skill payload, which can only withhold.\<close>

fun is_string_value :: "js \<Rightarrow> bool" where
  "is_string_value (Str _) \<longleftrightarrow> True"
| "is_string_value _ \<longleftrightarrow> False"

definition storedRowReadable :: "(js \<Rightarrow> js option) \<Rightarrow> (js \<Rightarrow> bool) \<Rightarrow> (js \<Rightarrow> bool) \<Rightarrow> js \<Rightarrow> bool" where
  "storedRowReadable readStored isAllowed closed_ok i =
     (if nullish i then False
      else case readStored i of
          None \<Rightarrow> False
        | Some stored \<Rightarrow>
            if \<not> is_object stored \<or> \<not> is_string_value (field stored ''agentId'') then False
            else if \<not> isAllowed stored then False
            else closed_ok stored)"

definition readableRowEvent :: "(js \<Rightarrow> js option) \<Rightarrow> (js \<Rightarrow> bool) \<Rightarrow> (js \<Rightarrow> bool) \<Rightarrow> js \<Rightarrow> bool" where
  "readableRowEvent readStored isAllowed closed_ok event =
     (if \<not> truthy event \<or> (field event ''type'' \<noteq> Str ''put'' \<and> field event ''type'' \<noteq> Str ''invalidate'') then False
      else let row = field event ''value'' in
        if \<not> is_object row then False
        else if is_string_value (field row ''agentId'') \<and> field row ''visibility'' \<noteq> Undef
        then isAllowed row \<and> closed_ok row
        else storedRowReadable readStored isAllowed closed_ok (field event ''id'') \<and> closed_ok row)"

text \<open>The events a non-admin subscriber is given.\<close>

definition feed_events :: "(js \<Rightarrow> js option) \<Rightarrow> (js \<Rightarrow> bool) \<Rightarrow> string \<Rightarrow> bool \<Rightarrow> js list \<Rightarrow> js list" where
  "feed_events readStored closed_ok agentId replaysHistory events =
     (let isAllowed = rs_isAllowed (resolveReadScope agentId) in
      filter (\<lambda>event. readableRowEvent readStored isAllowed closed_ok event \<and>
        (replaysHistory \<longrightarrow> storedRowReadable readStored isAllowed closed_ok (field event ''id''))) events)"

section \<open>The push filter\<close>

definition isFederationPrivateVisibility :: "js \<Rightarrow> bool" where
  "isFederationPrivateVisibility visibility \<longleftrightarrow> visibility = Str ''private''"

text \<open>The rows of one batch that are pushed, and how many are held back as private.\<close>

definition push_batch :: "string \<Rightarrow> string \<Rightarrow> jobj list \<Rightarrow> jobj list \<times> nat" where
  "push_batch table since batch =
     (let sinceCursor = filter (\<lambda>r. getp r ''updatedAt'' \<noteq> Null \<or> js_lt (Str since) (getp r ''createdAt'')) batch;
          federable = filter (\<lambda>r. table \<noteq> ''Memory'' \<or> \<not> isFederationPrivateVisibility (getp r ''visibility'')) sinceCursor
      in (federable, if table = ''Memory'' then length sinceCursor - length federable else 0))"

section \<open>Tier and visibility of a written row\<close>

definition tier_refusal :: "string \<Rightarrow> string \<Rightarrow> response" where
  "tier_refusal err msg = id_refusal 400 err msg"

text \<open>\<open>Response.json\<close> of the refused expiry.\<close>

definition expiry_refusal :: "string \<Rightarrow> response" where
  "expiry_refusal msg = id_refusal 400 ''invalid_expiry'' msg"

text \<open>A write that is refused, fails with an exception, or goes on with the given body.\<close>

datatype tier_outcome = TierRefused response | TierThrows | TierRow jobj

definition stamp_tier :: "(string \<Rightarrow> int option) \<Rightarrow> string option \<Rightarrow> int \<Rightarrow> jobj \<Rightarrow> jobj option \<Rightarrow> tier_outcome" where
  "stamp_tier dparse env now content preExisting =
     (case stampEphemeralExpiry dparse env now False content preExisting of
        ExpiryError msg \<Rightarrow> TierRefused (expiry_refusal msg)
      | ExpiryThrow \<Rightarrow> TierThrows
      | Stamped out \<Rightarrow> TierRow out)"

text \<open>The two visibility checks, on the tier the row will have.\<close>

definition visibility_refusal :: "js \<Rightarrow> js \<Rightarrow> js \<Rightarrow> response option" where
  "visibility_refusal named durability visibility =
     (case assertValidVisibility named of
        Some msg \<Rightarrow> Some (tier_refusal ''invalid_visibility'' msg)
      | None \<Rightarrow> map_option (tier_refusal ''invalid_visibility_for_durability'')
          (assertVisibilityAllowedForDurability durability visibility))"

definition with_default_visibility :: "jobj \<Rightarrow> jobj" where
  "with_default_visibility content =
     (if nullish (getp content ''visibility'')
      then AList.update ''visibility'' (Str (defaultVisibilityForDurability (getp content ''durability''))) content
      else content)"

definition post_tier :: "(string \<Rightarrow> int option) \<Rightarrow> string option \<Rightarrow> int \<Rightarrow> jobj \<Rightarrow> tier_outcome" where
  "post_tier dparse env now content =
     (case assertValidDurability (getp content ''durability'') of
        Some msg \<Rightarrow> TierRefused (tier_refusal ''invalid_durability'' msg)
      | None \<Rightarrow>
          (case enforceSkillDurability
              (if truthy (getp content ''durability'') then content
               else AList.update ''durability'' (Str ''standard'') content) of
             Inl denial \<Rightarrow> TierRefused denial
           | Inr c \<Rightarrow>
               (case visibility_refusal (getp c ''visibility'') (getp c ''durability'') (getp c ''visibility'') of
                  Some denial \<Rightarrow> TierRefused denial
                | None \<Rightarrow> stamp_tier dparse env now (with_default_visibility c) None)))"

definition carried_visibility :: "jobj option \<Rightarrow> jobj \<Rightarrow> jobj" where
  "carried_visibility preExisting content =
     (case preExisting of
        None \<Rightarrow> content
      | Some row \<Rightarrow>
          if nullish (getp content ''visibility'') \<and>
             (getp row ''visibility'' = Str PRIVATE_VISIBILITY \<or> getp row ''visibility'' = Str SHARED_VISIBILITY)
          then AList.update ''visibility'' (getp row ''visibility'') content else content)"

definition stored_field :: "jobj option \<Rightarrow> string \<Rightarrow> js" where
  "stored_field row k = (case row of None \<Rightarrow> Undef | Some r \<Rightarrow> getp r k)"

definition put_tier :: "(string \<Rightarrow> int option) \<Rightarrow> string option \<Rightarrow> int \<Rightarrow> jobj option \<Rightarrow> jobj \<Rightarrow> tier_outcome" where
  "put_tier dparse env now preExisting content =
     (case assertValidDurability (getp content ''durability'') of
        Some msg \<Rightarrow> TierRefused (tier_refusal ''invalid_durability'' msg)
      | None \<Rightarrow>
          (case enforceSkillDurability content of
             Inl denial \<Rightarrow> TierRefused denial
           | Inr c0 \<Rightarrow>
               let c = carried_visibility preExisting c0 in
               (case visibility_refusal (getp c ''visibility'')
                   (coalesce (getp c ''durability'') (stored_field preExisting ''durability'')) (getp c ''visibility'') of
                  Some denial \<Rightarrow> TierRefused denial
                | None \<Rightarrow>
                    stamp_tier dparse env now (if preExisting = None then with_default_visibility c else c) preExisting)))"

text \<open>A patch gives the fields that are merged over the stored row.\<close>

definition patch_tier :: "(string \<Rightarrow> int option) \<Rightarrow> string option \<Rightarrow> int \<Rightarrow> jobj option \<Rightarrow> jobj \<Rightarrow> tier_outcome" where
  "patch_tier dparse env now stored content0 =
     (let content = (if nullish (getp content0 ''visibility'') then AList.delete ''visibility'' content0 else content0);
          checked = getp content ''visibility'' \<noteq> Undef \<or> getp content ''durability'' \<noteq> Undef
      in if checked \<and> assertValidDurability (getp content ''durability'') \<noteq> None
         then TierRefused (tier_refusal ''invalid_durability'' (the (assertValidDurability (getp content ''durability''))))
         else case (if checked
              then visibility_refusal (getp content ''visibility'')
                (coalesce (getp content ''durability'') (stored_field stored ''durability''))
                (coalesce (getp content ''visibility'') (stored_field stored ''visibility''))
              else None) of
            Some denial \<Rightarrow> TierRefused denial
          | None \<Rightarrow> stamp_tier dparse env now content stored)"

section \<open>Searches stay in scope\<close>

text \<open>The two fields of the read scope are scalars in the schema.\<close>

definition scope_fields_plain :: "jobj \<Rightarrow> bool" where
  "scope_fields_plain row \<longleftrightarrow> (\<forall>k \<in> {''agentId'', ''visibility''}. \<not> (\<exists>vs. getp row k = Arr vs))"

lemma scope_condition:
  assumes "scope_fields_plain row"
  shows "matchCondition (rs_condition (resolveReadScope a)) row \<longleftrightarrow> rs_isAllowed (resolveReadScope a) (Obj row)"
  using assms
  by (auto simp: resolveReadScope_def matchLeaf_def Let_def scope_fields_plain_def isPrivateVisibility_def split: js.splits)

lemma scoped_head: "\<exists>cs. sq_conditions (scopedSearch readScope a q) = rs_condition (readScope a) # cs"
  by (cases q) (auto simp: compose_def split: list.splits)

text \<open>What the database is relied on for: a search whose operator is ''and'' answers no row that fails its first condition. Nothing is
  assumed of how it evaluates the caller's own conditions.\<close>

definition honours_first :: "(scoped_query \<Rightarrow> jobj list) \<Rightarrow> bool" where
  "honours_first superSearch \<longleftrightarrow>
     (\<forall>sq c cs. sq_operator sq = ''and'' \<and> sq_conditions sq = c # cs \<longrightarrow> (\<forall>row \<in> set (superSearch sq). matchCondition c row))"

text \<open>C3. A scoped search never leaves its reader's scope, for a database that honours the first condition of an ''and'' query and
  rows whose owner and visibility are not arrays. Whatever query the caller sends, with whatever operator, every row that is
  answered is the reader's own or not private; and over all such rows, answered or not, the conditions of an empty query select
  exactly those that the in-process predicate allows, which are the reader's own and those not private, a row without a visibility
  among them.\<close>

theorem search_stays_in_scope:
  assumes "honours_first superSearch"
  shows "(\<forall>q row. row \<in> set (superSearch (scopedSearch resolveReadScope a q)) \<and> scope_fields_plain row \<longrightarrow>
       rs_isAllowed (resolveReadScope a) (Obj row)) \<and>
     (\<forall>row. scope_fields_plain row \<longrightarrow>
       (matchesConditions (sq_conditions (scopedSearch resolveReadScope a QNone)) row \<longleftrightarrow>
          rs_isAllowed (resolveReadScope a) (Obj row)) \<and>
       (rs_isAllowed (resolveReadScope a) (Obj row) \<longleftrightarrow>
          getp row ''agentId'' = Str a \<or> getp row ''visibility'' \<noteq> Str PRIVATE_VISIBILITY) \<and>
       (getp row ''visibility'' = Undef \<longrightarrow> rs_isAllowed (resolveReadScope a) (Obj row)))"
proof -
  have "rs_isAllowed (resolveReadScope a) (Obj row)"
    if row: "row \<in> set (superSearch (scopedSearch resolveReadScope a q))" "scope_fields_plain row" for q row
  proof -
    obtain cs where cs: "sq_conditions (scopedSearch resolveReadScope a q) = rs_condition (resolveReadScope a) # cs"
      using scoped_head by blast
    have "sq_operator (scopedSearch resolveReadScope a q) = ''and''" by (cases q) simp_all
    then have "matchCondition (rs_condition (resolveReadScope a)) row"
      using assms cs row(1) unfolding honours_first_def by blast
    then show ?thesis using scope_condition [OF row(2), of a] by simp
  qed
  moreover have "matchesConditions (sq_conditions (scopedSearch resolveReadScope a QNone)) row \<longleftrightarrow> rs_isAllowed (resolveReadScope a) (Obj row)"
    if "scope_fields_plain row" for row
    using scope_condition [OF that, of a] by (simp add: compose_def)
  moreover have "rs_isAllowed (resolveReadScope a) (Obj row) \<longleftrightarrow>
      getp row ''agentId'' = Str a \<or> getp row ''visibility'' \<noteq> Str PRIVATE_VISIBILITY" for row
    by (simp add: resolveReadScope_def isPrivateVisibility_def)
  ultimately show ?thesis by (intro conjI allI impI; (elim conjE)?) simp_all
qed

lemma search_stays_in_scope_witness:
  "rs_isAllowed (resolveReadScope ''me'') (Obj [(''agentId'', Str ''you''), (''visibility'', Str ''shared'')])"
proof -
  let ?rows = "[[(''agentId'', Str ''you''), (''visibility'', Str ''private'')], [(''agentId'', Str ''you''), (''visibility'', Str ''shared'')]]"
  let ?row = "[(''agentId'', Str ''you''), (''visibility'', Str ''shared'')]"
  let ?q = "QObject [] (Many [Leaf (Str ''agentId'') ''equals'' (Str ''you''), Leaf (Str ''agentId'') ''equals'' (Str ''me'')]) (Some ''or'')"
  let ?search = "\<lambda>q. filter (matchesConditions (sq_conditions q)) ?rows"
  have "?row \<in> set (?search (scopedSearch resolveReadScope ''me'' ?q))"
    by (simp add: compose_def resolveReadScope_def matchLeaf_def PRIVATE_VISIBILITY_def)
  moreover have "scope_fields_plain ?row" by (simp add: scope_fields_plain_def)
  moreover have "honours_first ?search" by (auto simp: honours_first_def split: if_splits)
  ultimately show ?thesis using search_stays_in_scope [of ?search "''me''"] by blast
qed

section \<open>A by-id read reveals nothing\<close>

text \<open>C33. A by-id read reveals nothing outside the scope: for a non-admin agent an absent row and a row it may
  not read give the same answer, a row is answered (whole, or shaped by the caller's selection) only when the
  whole stored row is in the reader's scope, and an anonymous caller never gets a row.\<close>

theorem by_id_read_reveals_nothing:
  assumes "truthy target" "\<not> truthy (field target ''isCollection'')"
  shows "(\<not> truthy (superGet (plain_target target)) \<or> \<not> rs_isAllowed (readScope a) (superGet (plain_target target)) \<longrightarrow>
       byIdReadGate readScope (Agent a False) superGet target = ReadRefused kit_not_found) \<and>
     (byIdReadGate readScope (Agent a False) superGet target = ReadRow v \<longrightarrow>
       rs_isAllowed (readScope a) (superGet (plain_target target)) \<and>
       (v = superGet (plain_target target) \<or> is_shaped target \<and> v = superGet target)) \<and>
     byIdReadGate readScope Anonymous superGet target = ReadRefused kit_not_found"
  using assms by (auto simp: byIdReadGate_def Let_def)

lemma by_id_read_reveals_nothing_witness:
  "byIdReadGate resolveReadScope (Agent ''me'' False)
     (\<lambda>t. Obj [(''agentId'', Str ''you''), (''visibility'', Str ''private'')]) (Str ''m1'') = ReadRefused kit_not_found"
  using by_id_read_reveals_nothing [of "Str ''m1''" "\<lambda>t. Obj [(''agentId'', Str ''you''), (''visibility'', Str ''private'')]"
      resolveReadScope "''me''"]
  by (simp add: resolveReadScope_def isPrivateVisibility_def PRIVATE_VISIBILITY_def)

section \<open>Ephemeral rows stay private\<close>

text \<open>The invariant of a stored row: a visibility that a writer may name, and private while it is ephemeral.\<close>

definition tier_ok :: "jobj \<Rightarrow> bool" where
  "tier_ok row \<longleftrightarrow> getp row ''visibility'' \<in> Str ` set WRITABLE_VISIBILITIES \<and>
     (getp row ''durability'' = Str EPHEMERAL_DURABILITY \<longrightarrow> getp row ''visibility'' = Str PRIVATE_VISIBILITY)"

lemma valid_visibility_None: "assertValidVisibility v = None \<longleftrightarrow> nullish v \<or> v \<in> Str ` set WRITABLE_VISIBILITIES"
  unfolding assertValidVisibility_def by (cases "nullish v"; cases "v \<in> Str ` set WRITABLE_VISIBILITIES") simp_all

lemma visibility_allowed_None:
  "assertVisibilityAllowedForDurability d v = None \<longleftrightarrow> d \<noteq> Str EPHEMERAL_DURABILITY \<or> nullish v \<or> v = Str PRIVATE_VISIBILITY"
  unfolding assertVisibilityAllowedForDurability_def
  by (cases "d = Str EPHEMERAL_DURABILITY"; cases "nullish v \<or> v = Str PRIVATE_VISIBILITY") simp_all

lemma visibility_refusal_None:
  "visibility_refusal named d v = None \<longleftrightarrow>
     (nullish named \<or> named \<in> Str ` set WRITABLE_VISIBILITIES) \<and>
     (d \<noteq> Str EPHEMERAL_DURABILITY \<or> nullish v \<or> v = Str PRIVATE_VISIBILITY)"
  unfolding visibility_refusal_def valid_visibility_None [symmetric] visibility_allowed_None [symmetric]
  by (cases "assertValidVisibility named") simp_all

lemma visibility_passed:
  assumes "visibility_refusal named d v = None"
  shows "nullish named \<or> named \<in> Str ` set WRITABLE_VISIBILITIES"
    "d = Str EPHEMERAL_DURABILITY \<Longrightarrow> nullish v \<or> v = Str PRIVATE_VISIBILITY"
  using assms unfolding visibility_refusal_None by auto

lemma stamped_tier:
  assumes "stamp_tier dparse env now content pre = TierRow out"
  shows "getp out ''visibility'' = getp content ''visibility''"
    "getp out ''durability'' = getp (carried_tier content pre) ''durability''"
  using assms
  by (auto simp: stamp_tier_def stampEphemeralExpiry_def Let_def carried_tier_keeps split: expiry_outcome.splits if_splits option.splits)

lemma carried_tier_durability:
  "getp (carried_tier content pre) ''durability'' =
     (if nullish (getp content ''durability'') \<and> \<not> nullish (stored_field pre ''durability'')
      then stored_field pre ''durability'' else getp content ''durability'')"
  by (auto simp: carried_tier_def stored_field_def split: option.splits)

lemma default_visibility:
  "getp (with_default_visibility c) ''visibility'' =
     (if nullish (getp c ''visibility'') then Str (defaultVisibilityForDurability (getp c ''durability'')) else getp c ''visibility'')"
  "getp (with_default_visibility c) ''durability'' = getp c ''durability''"
  by (auto simp: with_default_visibility_def)

lemma default_writable:
  "defaultVisibilityForDurability d \<in> set WRITABLE_VISIBILITIES"
  "defaultVisibilityForDurability (Str EPHEMERAL_DURABILITY) = PRIVATE_VISIBILITY"
  by (auto simp: defaultVisibilityForDurability_def WRITABLE_VISIBILITIES_def PRIVATE_VISIBILITY_def SHARED_VISIBILITY_def
      EPHEMERAL_DURABILITY_def)

lemma tier_ok_new:
  assumes "visibility_refusal (getp c ''visibility'') (getp c ''durability'') (getp c ''visibility'') = None"
    "getp out ''visibility'' = getp (with_default_visibility c) ''visibility''" "getp out ''durability'' = getp c ''durability''"
  shows "tier_ok out"
  using visibility_passed [OF assms(1)] default_writable
  by (auto simp: tier_ok_def assms(2,3) default_visibility)

lemma tier_ok_update:
  assumes "visibility_refusal named (coalesce d (getp r ''durability'')) (coalesce named (getp r ''visibility'')) = None" "tier_ok r"
    "getp out ''visibility'' = coalesce named (getp r ''visibility'')"
    "getp out ''durability'' = coalesce d (getp r ''durability'') \<or> getp out ''durability'' = d \<and> nullish d"
  shows "tier_ok out"
proof -
  have w: "getp r ''visibility'' \<in> Str ` set WRITABLE_VISIBILITIES" using assms(2) by (simp add: tier_ok_def)
  then have nn: "\<not> nullish (getp r ''visibility'')" by auto
  have "getp out ''visibility'' \<in> Str ` set WRITABLE_VISIBILITIES"
    using visibility_passed(1) [OF assms(1)] w by (auto simp: assms(3) coalesce_def)
  moreover have "getp out ''visibility'' = Str PRIVATE_VISIBILITY" if "getp out ''durability'' = Str EPHEMERAL_DURABILITY"
  proof -
    have "coalesce d (getp r ''durability'') = Str EPHEMERAL_DURABILITY" using assms(4) that by auto
    from visibility_passed(2) [OF assms(1) this] nn show ?thesis by (auto simp: assms(3) coalesce_def split: if_splits)
  qed
  ultimately show ?thesis by (simp add: tier_ok_def)
qed

lemma skill_durability:
  assumes "enforceSkillDurability c = Inr c'"
  shows "getp c' ''visibility'' = getp c ''visibility''"
  using assms by (auto simp: enforceSkillDurability_def split: if_splits)

lemma post_tier_ok:
  assumes "post_tier dparse env now content = TierRow out"
  shows "tier_ok out"
proof -
  obtain c where c: "visibility_refusal (getp c ''visibility'') (getp c ''durability'') (getp c ''visibility'') = None"
    "stamp_tier dparse env now (with_default_visibility c) None = TierRow out"
    using assms unfolding post_tier_def by (auto split: option.splits sum.splits)
  show ?thesis
    using tier_ok_new [OF c(1)] stamped_tier [OF c(2)] by (simp add: default_visibility carried_tier_def)
qed

lemma put_tier_ok:
  assumes "put_tier dparse env now stored content = TierRow out" "\<And>r. stored = Some r \<Longrightarrow> tier_ok r"
  shows "tier_ok out"
proof -
  obtain c0 where c0: "visibility_refusal (getp (carried_visibility stored c0) ''visibility'')
      (coalesce (getp (carried_visibility stored c0) ''durability'') (stored_field stored ''durability''))
      (getp (carried_visibility stored c0) ''visibility'') = None"
    "stamp_tier dparse env now (if stored = None then with_default_visibility (carried_visibility stored c0)
       else carried_visibility stored c0) stored = TierRow out"
    using assms(1) unfolding put_tier_def by (auto simp: Let_def split: option.splits sum.splits)
  note st = stamped_tier [OF c0(2)]
  show ?thesis
  proof (cases stored)
    case None
    have "visibility_refusal (getp c0 ''visibility'') (getp c0 ''durability'') (getp c0 ''visibility'') = None"
      using c0(1) by (auto simp: None carried_visibility_def stored_field_def visibility_refusal_def coalesce_def
          visibility_allowed_None EPHEMERAL_DURABILITY_def split: if_splits option.splits)
    then show ?thesis
      using tier_ok_new [of c0 out] st by (simp add: None carried_visibility_def carried_tier_def default_visibility)
  next
    case (Some r)
    have ok: "tier_ok r" by (rule assms(2) [OF Some])
    let ?v = "getp (carried_visibility stored c0) ''visibility''"
    have v: "?v = coalesce ?v (getp r ''visibility'')" and d: "getp (carried_visibility stored c0) ''durability'' = getp c0 ''durability''"
      using ok by (auto simp: Some carried_visibility_def coalesce_def tier_ok_def WRITABLE_VISIBILITIES_def)
    have "visibility_refusal ?v (coalesce (getp c0 ''durability'') (getp r ''durability'')) (coalesce ?v (getp r ''visibility'')) = None"
      using c0(1) v d by (simp add: Some stored_field_def)
    moreover have "getp out ''visibility'' = coalesce ?v (getp r ''visibility'')" using st(1) v by (simp add: Some)
    moreover have "getp out ''durability'' = coalesce (getp c0 ''durability'') (getp r ''durability'') \<or>
        getp out ''durability'' = getp c0 ''durability'' \<and> nullish (getp c0 ''durability'')"
      using st(2) d by (auto simp: Some carried_tier_durability stored_field_def coalesce_def)
    ultimately show ?thesis by (rule tier_ok_update [OF _ ok])
  qed
qed

text \<open>Assigning a list of entries with distinct keys.\<close>

lemma getp_spread:
  assumes "distinct (map fst kvs)"
  shows "getp (spread ob kvs) k = (if has_own (Obj kvs) k then getp kvs k else getp ob k)"
proof -
  have "map_of (spread ob kvs) k = (case map_of kvs k of None \<Rightarrow> map_of ob k | Some v \<Rightarrow> Some v)"
    using assms
  proof (induction kvs arbitrary: ob)
    case (Cons kv kvs)
    obtain k' v where kv: "kv = (k', v)" by (cases kv) auto
    have "map_of (spread ob (kv # kvs)) k = map_of (spread (AList.update k' v ob) kvs) k"
      by (simp add: spread_def kv)
    also have "\<dots> = (case map_of kvs k of None \<Rightarrow> map_of (AList.update k' v ob) k | Some v \<Rightarrow> Some v)"
      using Cons by simp
    also have "\<dots> = (case map_of (kv # kvs) k of None \<Rightarrow> map_of ob k | Some v \<Rightarrow> Some v)"
    proof -
      have "map_of kvs k' = None" using Cons.prems by (simp add: kv map_of_eq_None_iff)
      then show ?thesis by (cases "k = k'") (simp_all add: kv update_conv' split: option.splits)
    qed
    finally show ?case .
  qed (simp add: spread_def)
  then show ?thesis by (auto simp: getp_def split: option.splits)
qed

lemma stamp_distinct:
  assumes "stamp_tier dparse env now content pre = TierRow out" "distinct (map fst content)"
  shows "distinct (map fst out)"
proof -
  have "distinct (map fst (carried_tier content pre))" using assms(2) by (simp add: carried_tier_def split: option.splits)
  then show ?thesis using assms(1)
    by (auto simp: stamp_tier_def stampEphemeralExpiry_def Let_def split: expiry_outcome.splits if_splits option.splits)
qed

text \<open>A decoded JSON object has no member that is \<open>undefined\<close>.\<close>

definition no_undef :: "jobj \<Rightarrow> bool" where
  "no_undef kvs \<longleftrightarrow> Undef \<notin> snd ` set kvs"

lemma no_undef_update [simp]: "v \<noteq> Undef \<Longrightarrow> no_undef m \<Longrightarrow> no_undef (AList.update k v m)"
  by (induction m) (auto simp: no_undef_def)

lemma no_undef_delete [simp]: "no_undef m \<Longrightarrow> no_undef (AList.delete k m)"
  by (auto simp: no_undef_def AList.delete_eq)

lemma not_nullishD: "\<not> nullish v \<Longrightarrow> v \<noteq> Undef"
  by auto

lemma getp_spread_defined:
  assumes "distinct (map fst kvs)" "no_undef kvs"
  shows "getp (spread ob kvs) k = (if getp kvs k = Undef then getp ob k else getp kvs k)"
proof -
  have "map_of kvs k = None \<longleftrightarrow> getp kvs k = Undef"
    using assms(2) unfolding no_undef_def by (force simp: getp_def split: option.splits dest: map_of_SomeD)
  then show ?thesis by (simp add: getp_spread [OF assms(1)])
qed

lemma stamp_defined:
  assumes "stamp_tier dparse env now content pre = TierRow out" "no_undef content"
  shows "no_undef out"
proof -
  have "no_undef (carried_tier content pre)"
    using assms(2) by (auto simp: carried_tier_def dest: not_nullishD split: option.splits)
  then show ?thesis using assms(1)
    by (auto simp: stamp_tier_def stampEphemeralExpiry_def Let_def split: expiry_outcome.splits if_splits option.splits)
qed

lemma patch_tier_ok:
  assumes p: "patch_tier dparse env now (Some r) content0 = TierRow out" and ok: "tier_ok r"
    and d: "distinct (map fst content0)" and u: "no_undef content0"
  shows "tier_ok (spread r out)"
proof -
  define c where "c = (if nullish (getp content0 ''visibility'') then AList.delete ''visibility'' content0 else content0)"
  let ?checked = "getp c ''visibility'' \<noteq> Undef \<or> getp c ''durability'' \<noteq> Undef"
  let ?named = "getp c ''visibility''" and ?d = "getp c ''durability''"
  have st: "stamp_tier dparse env now c (Some r) = TierRow out"
    and ch: "?checked \<Longrightarrow> visibility_refusal ?named (coalesce ?d (getp r ''durability'')) (coalesce ?named (getp r ''visibility'')) = None"
    using p unfolding patch_tier_def c_def [symmetric] Let_def by (auto simp: stored_field_def split: if_splits option.splits)
  have dc: "distinct (map fst c)" using d by (simp add: c_def)
  have n: "?named = Undef \<or> \<not> nullish ?named" by (auto simp: c_def)
  note g = stamped_tier [OF st]
  have "no_undef c" using u by (simp add: c_def)
  note gs = getp_spread_defined [OF stamp_distinct [OF st dc] stamp_defined [OF st this]]
  have v: "getp (spread r out) ''visibility'' = coalesce ?named (getp r ''visibility'')"
    using n by (auto simp: gs g(1) coalesce_def)
  have du: "getp (spread r out) ''durability'' = coalesce ?d (getp r ''durability'') \<or>
      getp (spread r out) ''durability'' = ?d \<and> nullish ?d"
    by (auto simp: gs g(2) carried_tier_durability stored_field_def coalesce_def)
  show ?thesis
  proof (cases ?checked)
    case True
    show ?thesis by (rule tier_ok_update [OF ch [OF True] ok v du])
  next
    case False
    then show ?thesis using v du ok by (auto simp: tier_ok_def coalesce_def)
  qed
qed

text \<open>C22. Ephemeral rows stay private, for rows whose stored visibility is one a writer may name and is private while the row is
  ephemeral (\<open>tier_ok\<close>). A row that POST or PUT newly stores has this, PUT and PATCH keep it of a row that has it, whether they name the
  tier, the visibility, both or neither, and an ephemeral row that has it is in no other agent's read scope and is never pushed to a
  peer. A row from before visibilities were written does not have it: a PUT over it is \<open>legacy_row_becomes_readable_ephemeral\<close>.\<close>

theorem ephemeral_rows_stay_private:
  assumes "tier_ok r" "distinct (map fst content)" "no_undef content"
  shows "(post_tier dparse env now content = TierRow out \<longrightarrow> tier_ok out) \<and>
     (put_tier dparse env now None content = TierRow out \<longrightarrow> tier_ok out) \<and>
     (put_tier dparse env now (Some r) content = TierRow out \<longrightarrow> tier_ok out) \<and>
     (patch_tier dparse env now (Some r) content = TierRow out \<longrightarrow> tier_ok (spread r out)) \<and>
     (getp r ''durability'' = Str EPHEMERAL_DURABILITY \<longrightarrow>
        (getp r ''agentId'' \<noteq> Str a \<longrightarrow> \<not> rs_isAllowed (resolveReadScope a) (Obj r)) \<and>
        r \<notin> set (fst (push_batch ''Memory'' since batch)))"
proof (intro conjI impI)
  show "tier_ok out" if "post_tier dparse env now content = TierRow out" by (rule post_tier_ok [OF that])
  show "tier_ok out" if "put_tier dparse env now None content = TierRow out" by (rule put_tier_ok [OF that]) simp
  show "tier_ok out" if "put_tier dparse env now (Some r) content = TierRow out"
    by (rule put_tier_ok [OF that]) (use assms(1) in simp)
  show "tier_ok (spread r out)" if "patch_tier dparse env now (Some r) content = TierRow out"
    by (rule patch_tier_ok [OF that assms])
  show "\<not> rs_isAllowed (resolveReadScope a) (Obj r)" if "getp r ''durability'' = Str EPHEMERAL_DURABILITY" "getp r ''agentId'' \<noteq> Str a"
    using assms(1) that by (simp add: tier_ok_def resolveReadScope_def isPrivateVisibility_def)
  show "r \<notin> set (fst (push_batch ''Memory'' since batch))" if "getp r ''durability'' = Str EPHEMERAL_DURABILITY"
    using assms(1) that by (simp add: tier_ok_def push_batch_def Let_def isFederationPrivateVisibility_def PRIVATE_VISIBILITY_def)
qed

lemma ephemeral_rows_stay_private_witness:
  "\<exists>out. patch_tier (\<lambda>_. None) None 0 (Some [(''durability'', Str ''standard''), (''visibility'', Str ''private'')])
      [(''durability'', Str ''ephemeral'')] = TierRow out \<and>
     tier_ok (spread [(''durability'', Str ''standard''), (''visibility'', Str ''private'')] out)"
proof -
  let ?r = "[(''durability'', Str ''standard''), (''visibility'', Str ''private'')]" and ?c = "[(''durability'', Str ''ephemeral'')]"
  have ok: "tier_ok ?r" by (simp add: tier_ok_def WRITABLE_VISIBILITIES_def PRIVATE_VISIBILITY_def SHARED_VISIBILITY_def EPHEMERAL_DURABILITY_def)
  have "assertValidDurability (Str ''ephemeral'') = None"
    by (simp add: assertValidDurability_def WRITABLE_DURABILITIES_def)
  moreover have "visibility_refusal Undef (Str ''ephemeral'') (Str ''private'') = None"
    by (simp add: visibility_refusal_None PRIVATE_VISIBILITY_def)
  ultimately have "\<exists>out. patch_tier (\<lambda>_. None) None 0 (Some ?r) ?c = TierRow out"
    by (simp add: patch_tier_def Let_def coalesce_def stored_field_def stamp_tier_def stampEphemeralExpiry_def carried_tier_def
        default_expiry_def ttl_hours_def toISOString_def MAX_DATE_MS_def MS_PER_HOUR_def clip_ms_def)
  then show ?thesis using ephemeral_rows_stay_private [OF ok, of ?c] by (auto simp: no_undef_def)
qed

text \<open>The invariant is needed: over a stored row that never had a visibility, a PUT that makes it ephemeral stores an
  ephemeral row that every agent may read and that is pushed to peers.\<close>

theorem legacy_row_becomes_readable_ephemeral:
  "\<exists>out. put_tier (\<lambda>_. None) None 0 (Some [(''agentId'', Str ''me''), (''durability'', Str ''standard'')])
      [(''agentId'', Str ''me''), (''durability'', Str ''ephemeral'')] = TierRow out \<and>
     getp out ''durability'' = Str EPHEMERAL_DURABILITY \<and> rs_isAllowed (resolveReadScope ''you'') (Obj out)"
proof -
  let ?r = "[(''agentId'', Str ''me''), (''durability'', Str ''standard'')]" and ?c = "[(''agentId'', Str ''me''), (''durability'', Str ''ephemeral'')]"
  have "assertValidDurability (Str ''ephemeral'') = None"
    by (simp add: assertValidDurability_def WRITABLE_DURABILITIES_def)
  moreover have "visibility_refusal Undef (Str ''ephemeral'') Undef = None"
    by (simp add: visibility_refusal_None)
  ultimately show ?thesis
    by (simp add: put_tier_def Let_def coalesce_def stored_field_def stamp_tier_def stampEphemeralExpiry_def carried_tier_def
        default_expiry_def ttl_hours_def toISOString_def MAX_DATE_MS_def MS_PER_HOUR_def clip_ms_def enforceSkillDurability_def
        isSkillWrite_def carried_visibility_def EPHEMERAL_DURABILITY_def resolveReadScope_def isPrivateVisibility_def PRIVATE_VISIBILITY_def)
qed

end
