(* ===== verification/GrantedClose.thy ===== *)
theory GrantedClose
  imports ReadScope WriteBack
begin

text \<open>
  A write that supersedes another row: who may close the predecessor and with which visibility the successor is
  written (\<open>resources/grant-visibility.ts\<close> and the supersede functions of \<open>resources/Memory.ts\<close>). The reads of the
  Memory and MemoryGrant tables are arguments; a read of the table can answer at two instants, in the write's
  transaction and on committed state.
\<close>

section \<open>The visibility rule of a write grant\<close>

definition GRANT_VISIBILITY_REFUSAL :: string where "GRANT_VISIBILITY_REFUSAL = ''grant_cannot_change_visibility''"

definition PREDECESSOR_VISIBILITY_CHANGED :: string where "PREDECESSOR_VISIBILITY_CHANGED = ''predecessor_visibility_changed''"

definition grantVisibilityRefusal :: response where
  "grantVisibilityRefusal = id_refusal 403 GRANT_VISIBILITY_REFUSAL
     ''a write grant does not include changing a record's visibility; visibility is set by the owner or an admin''"

definition predecessorVisibilityChangedRefusal :: response where
  "predecessorVisibilityChangedRefusal = id_refusal 409 PREDECESSOR_VISIBILITY_CHANGED
     (''the superseded record's visibility changed during this write; nothing was written. '' @
      ''A retry that omits visibility carries its current visibility'')"

definition readVisibility :: "js \<Rightarrow> string" where
  "readVisibility visibility = (if isPrivateVisibility visibility then PRIVATE_VISIBILITY else SHARED_VISIBILITY)"

definition visibilityChanges :: "js \<Rightarrow> js \<Rightarrow> bool" where
  "visibilityChanges prior nxt \<longleftrightarrow> readVisibility prior \<noteq> readVisibility nxt"

definition committedVisibilityDiffers :: "jobj option \<Rightarrow> js \<Rightarrow> bool" where
  "committedVisibilityDiffers committed successorVisibility =
     (case committed of None \<Rightarrow> False | Some row \<Rightarrow> visibilityChanges (getp row ''visibility'') successorVisibility)"

definition applyGrantedVisibility :: "jobj \<Rightarrow> jobj \<Rightarrow> js \<Rightarrow> response + jobj" where
  "applyGrantedVisibility content predecessor requested =
     (if \<not> nullish requested \<and> visibilityChanges (getp predecessor ''visibility'') requested
      then Inl grantVisibilityRefusal
      else Inr (AList.update ''visibility'' (Str (readVisibility (getp predecessor ''visibility''))) content))"

record version_plan =
  vp_kind :: string
  vp_predecessor :: "jobj option"
  vp_successor :: "jobj option"
  vp_grantedClose :: js

definition grantedSuccessorVisibilityDenial :: "version_plan \<Rightarrow> response option" where
  "grantedSuccessorVisibilityDenial plan =
     (if vp_kind plan = ''delete'' \<or> \<not> truthy (vp_grantedClose plan) then None
      else case (vp_predecessor plan, vp_successor plan) of
          (Some p, Some s) \<Rightarrow>
            if visibilityChanges (getp p ''visibility'') (getp s ''visibility'') then Some grantVisibilityRefusal else None
        | _ \<Rightarrow> None)"

section \<open>Authorizing a supersede\<close>

text \<open>The close a write may perform: the row, the owner the authorization read saw, and the grantee that a
  committed grant must still name.\<close>

record supersede_close =
  sc_id :: js
  sc_ownerId :: js
  sc_granteeId :: "string option"

definition canonicalizeSupersedes :: "jobj \<Rightarrow> jobj" where
  "canonicalizeSupersedes content =
     (case getp content ''supersedes'' of
        Str s \<Rightarrow> AList.update ''supersedes'' (Str (resolveMemoryReferenceId s)) content
      | _ \<Rightarrow> content)"

text \<open>The authorization read: a row, none, or a failure with its status code.\<close>

datatype target_read = TargetRow jobj | TargetMissing | TargetFails js

definition validateAndAuthorizeSupersedes ::
  "jobj \<Rightarrow> auth_verdict \<Rightarrow> response option \<Rightarrow> jobj option \<Rightarrow> js \<Rightarrow> (js \<Rightarrow> target_read) \<Rightarrow> (string \<Rightarrow> js \<Rightarrow> bool)
    \<Rightarrow> response + jobj \<times> supersede_close option" where
  "validateAndAuthorizeSupersedes content0 auth seedDenial stored requestedVisibility readTarget hasWriteGrant =
     (let content = (if getp content0 ''supersedes'' = Null then AList.delete ''supersedes'' content0 else content0);
          ref = getp content ''supersedes''
      in
        if ref \<noteq> Undef \<and> \<not> is_string_value ref
        then Inl \<lparr>status = 400, body = Obj [(''error'', Str ''supersedes must be a string (memory ID)'')],
                 headers = [(''Content-Type'', ''application/json'')]\<rparr>
        else case seedDenial of
            Some denial \<Rightarrow> Inl denial
          | None \<Rightarrow>
              if \<not> truthy ref then Inr (content, None)
              else case auth of
                  Agent a False \<Rightarrow>
                    (case readTarget ref of
                       TargetFails c \<Rightarrow> Inl (supersedesTargetUnreadable c)
                     | TargetMissing \<Rightarrow>
                         (case stored of
                            Some row \<Rightarrow> if getp row ''supersedes'' = ref then Inr (content, None) else Inl supersedesTargetMissing
                          | None \<Rightarrow> Inl supersedesTargetMissing)
                     | TargetRow target \<Rightarrow>
                         if getp target ''agentId'' = Str a
                         then Inr (content, Some \<lparr>sc_id = ref, sc_ownerId = getp target ''agentId'', sc_granteeId = None\<rparr>)
                         else if \<not> hasWriteGrant a (getp target ''agentId'')
                         then Inl (kit_forbidden ''forbidden: cannot supersede a memory owned by another agent without a write grant'')
                         else (case applyGrantedVisibility content target requestedVisibility of
                             Inl denial \<Rightarrow> Inl denial
                           | Inr granted \<Rightarrow>
                               (case assertVisibilityAllowedForDurability
                                   (coalesce (getp granted ''durability'') (stored_field stored ''durability''))
                                   (getp granted ''visibility'') of
                                  Some msg \<Rightarrow> Inl (tier_refusal ''invalid_visibility_for_durability'' msg)
                                | None \<Rightarrow>
                                    Inr (granted, Some \<lparr>sc_id = ref, sc_ownerId = getp target ''agentId'', sc_granteeId = Some a\<rparr>))))
                | _ \<Rightarrow> Inr (content, Some \<lparr>sc_id = ref, sc_ownerId = Undef, sc_granteeId = None\<rparr>))"

definition supersedeClosePatch :: "jobj \<Rightarrow> jobj" where
  "supersedeClosePatch content =
     [(''validTo'', coalesce (getp content ''validFrom'') (getp content ''createdAt'')),
      (''updatedAt'', coalesce (getp content ''createdAt'') (getp content ''updatedAt''))]"

section \<open>Staging the close\<close>

datatype close_failure = TargetChanged | StorageRefused | VisibilityChanged | GrantRevoked

text \<open>\<open>stageGrantedClose\<close>: \<open>existing\<close> is the row of the transaction, \<open>committed\<close> the committed row and
  \<open>grants\<close> the committed grants read once the close is staged; \<open>refused\<close> is whether storage answered the put with
  a response.\<close>

definition stageGrantedClose ::
  "supersede_close \<Rightarrow> jobj \<Rightarrow> js \<Rightarrow> jobj option \<Rightarrow> bool \<Rightarrow> jobj option \<Rightarrow> (string \<Rightarrow> js \<Rightarrow> js option list)
    \<Rightarrow> close_failure + jobj" where
  "stageGrantedClose close patch successorVisibility existing refused committed grants =
     (case existing of
        None \<Rightarrow> Inl TargetChanged
      | Some row \<Rightarrow>
          if \<not> strict_eq (getp row ''agentId'') (sc_ownerId close) then Inl TargetChanged
          else
            let closed = fst (stripUndeclaredMemoryAttributes (spread row patch)) in
            if refused then Inl StorageRefused
            else if committedVisibilityDiffers committed successorVisibility then Inl VisibilityChanged
            else if \<not> isDeepStrictEqual (js_of_row committed) (Obj row) then Inl TargetChanged
            else if \<not> (case sc_granteeId close of Some g \<Rightarrow> writeGrantHeld (grants g (sc_ownerId close)) | None \<Rightarrow> False)
            then Inl GrantRevoked
            else Inr closed)"

text \<open>\<open>write_response_withheld\<close> is the refusal of a storage response.\<close>

definition grantedCloseRefusal :: "response \<Rightarrow> close_failure \<Rightarrow> response" where
  "grantedCloseRefusal withheld e =
     (case e of
        StorageRefused \<Rightarrow> withheld
      | VisibilityChanged \<Rightarrow> predecessorVisibilityChangedRefusal
      | GrantRevoked \<Rightarrow> grantedCloseRevokedRefusal
      | TargetChanged \<Rightarrow> storedRowChangedRefusal ''Memory'')"

section \<open>A write grant changes no visibility\<close>

lemma authorized_close:
  assumes "validateAndAuthorizeSupersedes content0 (Agent a False) seedDenial stored requested readTarget hasWriteGrant =
      Inr (content, Some close)"
  obtains target where "readTarget (sc_id close) = TargetRow target" "sc_ownerId close = getp target ''agentId''"
    "sc_granteeId close = None \<Longrightarrow> getp target ''agentId'' = Str a"
    "\<And>g. sc_granteeId close = Some g \<Longrightarrow> g = a \<and> getp target ''agentId'' \<noteq> Str a \<and> hasWriteGrant a (getp target ''agentId'') \<and>
       getp content ''visibility'' = Str (readVisibility (getp target ''visibility'')) \<and>
       (nullish requested \<or> \<not> visibilityChanges (getp target ''visibility'') requested) \<and>
       assertVisibilityAllowedForDurability (coalesce (getp content ''durability'') (stored_field stored ''durability''))
         (getp content ''visibility'') = None"
proof -
  define c where "c = (if getp content0 ''supersedes'' = Null then AList.delete ''supersedes'' content0 else content0)"
  have v: "validateAndAuthorizeSupersedes content0 (Agent a False) seedDenial stored requested readTarget hasWriteGrant =
      Inr (content, Some close)" by (rule assms)
  obtain target where t: "readTarget (getp c ''supersedes'') = TargetRow target"
    using v unfolding validateAndAuthorizeSupersedes_def Let_def c_def [symmetric]
    by (auto split: if_splits option.splits target_read.splits)
  show ?thesis
  proof (cases "getp target ''agentId'' = Str a")
    case True
    then have "close = \<lparr>sc_id = getp c ''supersedes'', sc_ownerId = getp target ''agentId'', sc_granteeId = None\<rparr>"
      using v unfolding validateAndAuthorizeSupersedes_def Let_def c_def [symmetric]
      by (auto simp: t split: if_splits option.splits)
    then show ?thesis using that [of target] t True by simp
  next
    case False
    obtain granted where g: "applyGrantedVisibility c target requested = Inr granted" "content = granted"
      "assertVisibilityAllowedForDurability (coalesce (getp granted ''durability'') (stored_field stored ''durability''))
         (getp granted ''visibility'') = None" "hasWriteGrant a (getp target ''agentId'')"
      "close = \<lparr>sc_id = getp c ''supersedes'', sc_ownerId = getp target ''agentId'', sc_granteeId = Some a\<rparr>"
      using v unfolding validateAndAuthorizeSupersedes_def Let_def c_def [symmetric]
      by (auto simp: t False split: if_splits option.splits sum.splits)
    have "getp granted ''visibility'' = Str (readVisibility (getp target ''visibility''))"
      "nullish requested \<or> \<not> visibilityChanges (getp target ''visibility'') requested"
      using g(1) by (auto simp: applyGrantedVisibility_def split: if_splits)
    note vis = this
    have sel: "sc_id close = getp c ''supersedes''" "sc_ownerId close = getp target ''agentId''" "sc_granteeId close = Some a"
      by (simp_all add: g(5))
    show ?thesis
    proof (rule that)
      show "readTarget (sc_id close) = TargetRow target" by (simp only: sel t)
      show "sc_ownerId close = getp target ''agentId''" by (rule sel(2))
      show "getp target ''agentId'' = Str a" if "sc_granteeId close = None" using that sel(3) by simp
      show "g = a \<and> getp target ''agentId'' \<noteq> Str a \<and> hasWriteGrant a (getp target ''agentId'') \<and>
         getp content ''visibility'' = Str (readVisibility (getp target ''visibility'')) \<and>
         (nullish requested \<or> \<not> visibilityChanges (getp target ''visibility'') requested) \<and>
         assertVisibilityAllowedForDurability (coalesce (getp content ''durability'') (stored_field stored ''durability''))
           (getp content ''visibility'') = None" if "sc_granteeId close = Some g" for g
        unfolding g(2) using that sel(3) False g(3,4) vis by (intro conjI) simp_all
    qed
  qed
qed

lemma strict_eq_same: "strict_eq v w \<Longrightarrow> v = w"
  by (cases v; cases w) simp_all

lemma staged_close:
  assumes "stageGrantedClose close patch v existing refused committed grants = Inr shut"
  obtains row c g where "existing = Some row" "committed = Some c" "isDeepStrictEqual (Obj c) (Obj row)"
    "getp row ''agentId'' = sc_ownerId close" "\<not> refused" "\<not> visibilityChanges (getp c ''visibility'') v"
    "sc_granteeId close = Some g" "writeGrantHeld (grants g (sc_ownerId close))"
    "shut = fst (stripUndeclaredMemoryAttributes (spread row patch))"
proof -
  obtain row where row: "existing = Some row" using assms by (auto simp: stageGrantedClose_def split: option.splits)
  have c: "strict_eq (getp row ''agentId'') (sc_ownerId close)" "\<not> refused" "\<not> committedVisibilityDiffers committed v"
    "isDeepStrictEqual (js_of_row committed) (Obj row)" "shut = fst (stripUndeclaredMemoryAttributes (spread row patch))"
    "case sc_granteeId close of Some g \<Rightarrow> writeGrantHeld (grants g (sc_ownerId close)) | None \<Rightarrow> False"
    using assms by (auto simp: stageGrantedClose_def row Let_def split: if_splits)
  obtain cr where "committed = Some cr"
    using c(4) by (cases committed) (auto simp: js_of_row_def isDeepStrictEqual_def)
  then show ?thesis using that [of row cr] row c
    by (auto simp: committedVisibilityDiffers_def js_of_row_def split: option.splits dest: strict_eq_same)
qed

text \<open>C21. A write grant changes no visibility and closes nothing it does not cover: when a write of a non-admin
  agent closes another agent's row (an administrator needs no grant), that row was read as the named owner's and is still the committed row, the
  owner's committed grant still holds, the successor reads exactly as the closed row and was not asked to read
  otherwise, an ephemeral successor is private, and the closed row keeps its owner, visibility and content.\<close>

theorem granted_close_keeps_visibility:
  assumes auth: "validateAndAuthorizeSupersedes content0 (Agent a False) seedDenial stored requested readTarget hasWriteGrant =
      Inr (content, Some close)" "sc_ownerId close \<noteq> Str a"
    and staged: "stageGrantedClose close (supersedeClosePatch content) (getp content ''visibility'') existing refused committed grants =
      Inr shut"
  shows "\<exists>row c. existing = Some row \<and> committed = Some c \<and> isDeepStrictEqual (Obj c) (Obj row) \<and>
     getp row ''agentId'' = sc_ownerId close \<and> hasWriteGrant a (sc_ownerId close) \<and> writeGrantHeld (grants a (sc_ownerId close)) \<and>
     readVisibility (getp content ''visibility'') = readVisibility (getp c ''visibility'') \<and>
     (nullish requested \<or> readVisibility requested = readVisibility (getp c ''visibility'')) \<and>
     (coalesce (getp content ''durability'') (stored_field stored ''durability'') = Str EPHEMERAL_DURABILITY \<longrightarrow>
        getp content ''visibility'' = Str PRIVATE_VISIBILITY) \<and>
     getp shut ''agentId'' = getp row ''agentId'' \<and> getp shut ''visibility'' = getp row ''visibility'' \<and>
     getp shut ''content'' = getp row ''content''"
proof -
  obtain target where t: "sc_ownerId close = getp target ''agentId''"
    "sc_granteeId close = None \<Longrightarrow> getp target ''agentId'' = Str a"
    "\<And>g. sc_granteeId close = Some g \<Longrightarrow> g = a \<and> getp target ''agentId'' \<noteq> Str a \<and> hasWriteGrant a (getp target ''agentId'') \<and>
       getp content ''visibility'' = Str (readVisibility (getp target ''visibility'')) \<and>
       (nullish requested \<or> \<not> visibilityChanges (getp target ''visibility'') requested) \<and>
       assertVisibilityAllowedForDurability (coalesce (getp content ''durability'') (stored_field stored ''durability''))
         (getp content ''visibility'') = None"
    by (rule authorized_close [OF auth(1)]) (rule that; assumption)
  obtain row c g where s: "existing = Some row" "committed = Some c" "isDeepStrictEqual (Obj c) (Obj row)"
    "getp row ''agentId'' = sc_ownerId close" "\<not> visibilityChanges (getp c ''visibility'') (getp content ''visibility'')"
    "sc_granteeId close = Some g" "writeGrantHeld (grants g (sc_ownerId close))"
    "shut = fst (stripUndeclaredMemoryAttributes (spread row (supersedeClosePatch content)))"
    by (rule staged_close [OF staged]) (rule that; assumption)
  note tg = t(3) [OF s(6)]
  have "readVisibility (Str (readVisibility v)) = readVisibility v" for v
    by (simp add: readVisibility_def isPrivateVisibility_def PRIVATE_VISIBILITY_def SHARED_VISIBILITY_def)
  then have vis: "readVisibility (getp content ''visibility'') = readVisibility (getp c ''visibility'')"
    "nullish requested \<or> readVisibility requested = readVisibility (getp c ''visibility'')"
    using tg s(5) by (auto simp: visibilityChanges_def)
  have eph: "getp content ''visibility'' = Str PRIVATE_VISIBILITY"
    if "coalesce (getp content ''durability'') (stored_field stored ''durability'') = Str EPHEMERAL_DURABILITY"
    using tg that by (auto simp: visibility_allowed_None)
  have kept: "getp shut k = getp row k" if "k \<in> {''agentId'', ''visibility'', ''content''}" for k
  proof -
    have "k \<in> set MEMORY_ATTRIBUTES" using that by (auto simp: MEMORY_ATTRIBUTES_def DECLARED_MEMORY_ATTRIBUTES_def)
    moreover have "getp (spread row (supersedeClosePatch content)) k = getp row k"
      using that by (auto simp: supersedeClosePatch_def spread_def)
    ultimately show ?thesis using getp_stripInbound [of "spread row (supersedeClosePatch content)" k]
      by (simp add: s(8) stripInboundMemoryRow_def)
  qed
  show ?thesis using s tg t(1) vis eph kept by auto
qed

lemma granted_close_keeps_visibility_witness:
  "\<exists>content close shut.
     validateAndAuthorizeSupersedes [(''supersedes'', Str ''m1'')] (Agent ''me'' False) None None Undef
       (\<lambda>_. TargetRow [(''id'', Str ''m1''), (''agentId'', Str ''you''), (''visibility'', Str ''private'')]) (\<lambda>g ow. True) =
       Inr (content, Some close) \<and>
     getp content ''visibility'' = Str ''private'' \<and> getp shut ''visibility'' = Str ''private''"
proof -
  let ?row = "[(''id'', Str ''m1''), (''agentId'', Str ''you''), (''visibility'', Str ''private'')]"
  let ?content = "[(''supersedes'', Str ''m1''), (''visibility'', Str ''private'')]"
  let ?close = "\<lparr>sc_id = Str ''m1'', sc_ownerId = Str ''you'', sc_granteeId = Some ''me''\<rparr>"
  let ?shut = "fst (stripUndeclaredMemoryAttributes (spread ?row (supersedeClosePatch ?content)))"
  have a: "validateAndAuthorizeSupersedes [(''supersedes'', Str ''m1'')] (Agent ''me'' False) None None Undef
       (\<lambda>_. TargetRow ?row) (\<lambda>g ow. True) = Inr (?content, Some ?close)"
    by (simp add: validateAndAuthorizeSupersedes_def Let_def applyGrantedVisibility_def readVisibility_def isPrivateVisibility_def
        PRIVATE_VISIBILITY_def assertVisibilityAllowedForDurability_def coalesce_def stored_field_def EPHEMERAL_DURABILITY_def)
  have st: "stageGrantedClose ?close (supersedeClosePatch ?content) (getp ?content ''visibility'') (Some ?row) False (Some ?row)
      (\<lambda>g ow. [Some (Obj [(''scope'', Str ''write'')])]) = Inr ?shut"
    by (simp add: stageGrantedClose_def Let_def committedVisibilityDiffers_def visibilityChanges_def js_of_row_def isDeepStrictEqual_def)
  have "getp ?shut ''visibility'' = Str ''private''"
    using granted_close_keeps_visibility [OF a _ st] by auto
  then show ?thesis using a by auto
qed

end
