(* ===== verification/HostPointer.thy ===== *)
theory HostPointer
  imports ReadScope
begin

text \<open>
  Host pointers of Memory rows: the validator (\<open>resources/host-source.ts\<close>), the write-body inputs and the pointer
  rows (\<open>resources/memory-host-source.ts\<close>, \<open>buildPointerForWrite\<close> of \<open>resources/Memory.ts\<close>), the gated read
  projection (\<open>resources/host-source-visibility.ts\<close>) and the citation (\<open>resources/host-source-citation.ts\<close>).
  \<open>JSON.parse\<close> and the \<open>URL\<close> parser are the arguments \<open>json_parse\<close> and \<open>url_parse\<close> (\<open>None\<close> where they throw). A text of
  the model has no combining characters, so it is its own NFC form.
\<close>

section \<open>The validator\<close>

record url_parts =
  url_protocol :: string
  url_username :: string
  url_password :: string
  url_host :: string
  url_pathname :: string

record url_lib =
  json_parse :: "string \<Rightarrow> js option"
  url_parse :: "string \<Rightarrow> url_parts option"

definition HOST_SOURCE_HOSTS :: "string list" where "HOST_SOURCE_HOSTS = [''openclaw'', ''cursor'', ''codex'']"

definition HOST_SOURCE_KINDS :: "string list" where "HOST_SOURCE_KINDS = [''run'', ''launch'', ''turn'']"

definition HOST_SOURCE_PAIRS :: "(string \<times> string) list" where
  "HOST_SOURCE_PAIRS = [(''openclaw'', ''run''), (''cursor'', ''launch''), (''codex'', ''turn'')]"

definition host_id_char :: "char \<Rightarrow> bool" where
  "host_id_char c \<longleftrightarrow> (97 \<le> code c \<and> code c \<le> 122) \<or> (65 \<le> code c \<and> code c \<le> 90) \<or> is_digit c \<or> c \<in> set ''._:/@#-''"

definition HOST_SOURCE_ID_RE :: "string \<Rightarrow> bool" where
  "HOST_SOURCE_ID_RE s \<longleftrightarrow> 1 \<le> length s \<and> length s \<le> 256 \<and> list_all host_id_char s"

definition HOST_SOURCE_URL_MAX :: nat where "HOST_SOURCE_URL_MAX = 2048"

definition FORBIDDEN_CHAR :: "char \<Rightarrow> bool" where
  "FORBIDDEN_CHAR c \<longleftrightarrow> code c \<le> 31 \<or> (127 \<le> code c \<and> code c \<le> 159)"

definition host_field :: "string \<Rightarrow> js \<Rightarrow> string + string" where
  "host_field name v =
     (case v of
        Str s \<Rightarrow> if list_ex FORBIDDEN_CHAR s
          then Inl (''hostSource.'' @ name @ '' contains a control character or bidi override'') else Inr s
      | _ \<Rightarrow> Inl (''hostSource.'' @ name @ '' must be a string''))"

text \<open>The authority of a URL text: what follows the scheme up to the path, query or fragment.\<close>

definition url_authority :: "string \<Rightarrow> string" where
  "url_authority s =
     takeWhile (\<lambda>c. c \<notin> set ''/?#'') (if js_lower (take 8 s) = ''https://'' then drop 8 s else s)"

definition check_url :: "url_lib \<Rightarrow> js \<Rightarrow> string + string option" where
  "check_url L v =
     (if v = Undef then Inr None
      else case host_field ''url'' v of
          Inl err \<Rightarrow> Inl err
        | Inr u \<Rightarrow>
            if HOST_SOURCE_URL_MAX < length u
            then Inl (''hostSource.url exceeds '' @ js_num_string (jint (int HOST_SOURCE_URL_MAX)) @ '' characters'')
            else (case url_parse L u of
                None \<Rightarrow> Inl (''hostSource.url '' @ shown_json (Str u) @ '' is not a valid URL'')
              | Some parsed \<Rightarrow>
                  if url_protocol parsed \<noteq> ''https:'' then Inl ''hostSource.url must be https''
                  else if CHR ''@'' \<in> set (url_authority u) \<or> url_username parsed \<noteq> [] \<or> url_password parsed \<noteq> []
                  then Inl ''hostSource.url must not carry userinfo''
                  else Inr (Some u)))"

definition pointer_value :: "string \<Rightarrow> string \<Rightarrow> string \<Rightarrow> string option \<Rightarrow> jobj" where
  "pointer_value host kind i url =
     [(''v'', Num (Fin 1)), (''host'', Str host), (''kind'', Str kind), (''id'', Str i)] @
     (case url of None \<Rightarrow> [] | Some u \<Rightarrow> [(''url'', Str u)])"

definition check_vocabulary :: "string \<Rightarrow> string \<Rightarrow> string \<Rightarrow> string option" where
  "check_vocabulary host kind i =
     (if host \<notin> set HOST_SOURCE_HOSTS then Some (''hostSource.host '' @ shown_json (Str host) @ '' is not in the closed set'')
      else if kind \<notin> set HOST_SOURCE_KINDS then Some (''hostSource.kind '' @ shown_json (Str kind) @ '' is not in the closed set'')
      else if (host, kind) \<notin> set HOST_SOURCE_PAIRS
      then Some (''hostSource host/kind '' @ shown_json (Str (host @ ''/'' @ kind)) @ '' is not an allowed pair'')
      else if \<not> HOST_SOURCE_ID_RE i then Some (''hostSource.id '' @ shown_json (Str i) @ '' does not match the id grammar'')
      else None)"

text \<open>The error, or the canonical text and the value.\<close>

definition validate_object :: "url_lib \<Rightarrow> jobj \<Rightarrow> string + string \<times> jobj" where
  "validate_object L ob =
     (case find (\<lambda>k. k \<notin> {''v'', ''host'', ''kind'', ''id'', ''url''}) (map fst (enum_order ob)) of
        Some k \<Rightarrow> Inl (''hostSource: unknown key '' @ shown_json (Str k))
      | None \<Rightarrow>
          if getp ob ''v'' \<noteq> Num (Fin 1) then Inl (''hostSource: unsupported v '' @ shown_json (getp ob ''v'') @ '' (only 1)'')
          else case host_field ''host'' (getp ob ''host'') of Inl err \<Rightarrow> Inl err | Inr host \<Rightarrow>
            (case host_field ''kind'' (getp ob ''kind'') of Inl err \<Rightarrow> Inl err | Inr kind \<Rightarrow>
              (case host_field ''id'' (getp ob ''id'') of Inl err \<Rightarrow> Inl err | Inr i \<Rightarrow>
                (case check_vocabulary host kind i of Some err \<Rightarrow> Inl err | None \<Rightarrow>
                  (case check_url L (getp ob ''url'') of Inl err \<Rightarrow> Inl err | Inr url \<Rightarrow>
                     Inr (shown_json (Obj (pointer_value host kind i url)), pointer_value host kind i url))))))"

definition validateHostSource :: "url_lib \<Rightarrow> js \<Rightarrow> string + string \<times> jobj" where
  "validateHostSource L input =
     (case (case input of Str s \<Rightarrow> json_parse L s | v \<Rightarrow> Some v) of
        None \<Rightarrow> Inl ''hostSource must be an object or its canonical JSON string''
      | Some (Obj ob) \<Rightarrow> validate_object L ob
      | Some _ \<Rightarrow> Inl ''hostSource must be an object'')"

definition parseHostSource :: "url_lib \<Rightarrow> js \<Rightarrow> jobj option" where
  "parseHostSource L stored =
     (case stored of
        Str s \<Rightarrow>
          if s = [] then None
          else (case json_parse L s of
              None \<Rightarrow> None
            | Some parsed \<Rightarrow> (case validateHostSource L parsed of Inl _ \<Rightarrow> None | Inr (_, v) \<Rightarrow> Some v))
      | _ \<Rightarrow> None)"

section \<open>Pointer rows\<close>

definition POINTER_INPUT_KEYS :: "string list" where
  "POINTER_INPUT_KEYS = [''hostSource'', ''hostSourceScope'', ''hostSourceVisibility'']"

record pointer_inputs =
  pi_hostSource :: js
  pi_hostSourceScope :: js
  pi_forgedVisibility :: bool

text \<open>The inputs found, and the body without them.\<close>

definition extractPointerInputs :: "jobj \<Rightarrow> pointer_inputs \<times> jobj" where
  "extractPointerInputs content =
     (\<lparr>pi_hostSource = getp content ''hostSource'', pi_hostSourceScope = getp content ''hostSourceScope'',
       pi_forgedVisibility = (\<not> nullish (getp content ''hostSourceVisibility''))\<rparr>,
      fold AList.delete POINTER_INPUT_KEYS content)"

record pointer_row =
  pr_memoryId :: string
  pr_hostSource :: js
  pr_scopeAtWrite :: js
  pr_authorId :: js
  pr_memoryInstanceToken :: js
  pr_receivedAt :: js

definition buildPointerRow :: "string \<Rightarrow> string \<Rightarrow> js \<Rightarrow> string \<Rightarrow> js \<Rightarrow> string \<Rightarrow> pointer_row" where
  "buildPointerRow memoryId canonical scopeAtWrite authorId token receivedAt =
     \<lparr>pr_memoryId = memoryId, pr_hostSource = Str canonical, pr_scopeAtWrite = coalesce scopeAtWrite Null,
      pr_authorId = Str authorId, pr_memoryInstanceToken = coalesce token Null, pr_receivedAt = Str receivedAt\<rparr>"

fun nonempty_string :: "js \<Rightarrow> string option" where
  "nonempty_string (Str s) = (if s = [] then None else Some s)"
| "nonempty_string _ = None"

definition isPointerEchoOf :: "url_lib \<Rightarrow> js \<Rightarrow> pointer_row option \<Rightarrow> string \<Rightarrow> bool" where
  "isPointerEchoOf L input storedPointer writerAuthorId =
     (case storedPointer of
        None \<Rightarrow> False
      | Some p \<Rightarrow>
          is_string_value (pr_hostSource p) \<and> nonempty_string (pr_authorId p) = Some writerAuthorId \<and>
          (case validateHostSource L input of Inl _ \<Rightarrow> False | Inr (canonical, _) \<Rightarrow> pr_hostSource p = Str canonical))"

text \<open>\<open>loadPointerRows\<close> over the rows of the table: the rows of the wanted ids, the last of an id.\<close>

definition loadPointerRows :: "pointer_row list \<Rightarrow> js list \<Rightarrow> (string \<times> pointer_row) list" where
  "loadPointerRows rows ids =
     fold (\<lambda>p m. AList.update (pr_memoryId p) p m)
       (filter (\<lambda>p. pr_memoryId p \<noteq> [] \<and> Str (pr_memoryId p) \<in> set ids) rows) []"

definition pointerAuthorId :: "auth_verdict \<Rightarrow> string" where
  "pointerAuthorId auth = (case auth of Agent a _ \<Rightarrow> a | _ \<Rightarrow> [])"

definition stampInstanceToken :: "string \<Rightarrow> jobj option \<Rightarrow> jobj \<Rightarrow> jobj" where
  "stampInstanceToken fresh existing content =
     AList.update ''instanceToken'' (Str (case nonempty_string (stored_field existing ''instanceToken'') of
        None \<Rightarrow> fresh | Some t \<Rightarrow> t)) content"

definition hostSourceBadRequest :: "string \<Rightarrow> string \<Rightarrow> response" where
  "hostSourceBadRequest err message = id_refusal 400 err message"

definition buildPointerForWrite ::
  "url_lib \<Rightarrow> pointer_inputs \<Rightarrow> string \<Rightarrow> js \<Rightarrow> auth_verdict \<Rightarrow> js \<Rightarrow> pointer_row option \<Rightarrow> string \<Rightarrow> response + pointer_row option" where
  "buildPointerForWrite L inputs memoryId visibility auth token storedPointer now =
     (if nullish (pi_hostSource inputs)
      then (if pi_hostSourceScope inputs \<noteq> Undef
            then Inl (hostSourceBadRequest ''invalid_host_source_scope'' ''hostSourceScope requires a hostSource'') else Inr None)
      else case validateHostSource L (pi_hostSource inputs) of
          Inl err \<Rightarrow> Inl (hostSourceBadRequest ''invalid_host_source'' err)
        | Inr (canonical, _) \<Rightarrow>
            if pi_hostSourceScope inputs = Undef \<and> isPointerEchoOf L (pi_hostSource inputs) storedPointer (pointerAuthorId auth)
            then Inr None
            else if pi_hostSourceScope inputs \<noteq> Undef \<and> pi_hostSourceScope inputs \<noteq> Str ''record''
            then Inl (hostSourceBadRequest ''invalid_host_source_scope''
              (''hostSourceScope must be '' @ quoted ''record'' @ '' or omitted; a scope wider than the record is refused (got '' @
               shown_json (pi_hostSourceScope inputs) @ '')''))
            else Inr (Some (buildPointerRow memoryId canonical
              (if pi_hostSourceScope inputs \<noteq> Undef then coalesce visibility Null else Null)
              (pointerAuthorId auth) (coalesce token Null) now)))"

section \<open>The gated projection\<close>

definition HOST_SOURCE_WITHHELD :: string where "HOST_SOURCE_WITHHELD = ''withheld''"

definition narrowerVisibility :: "js \<Rightarrow> js \<Rightarrow> string" where
  "narrowerVisibility a b = (if isPrivateVisibility a \<or> isPrivateVisibility b then ''private'' else ''shared'')"

definition renderHostSourceUrl :: "url_lib \<Rightarrow> string \<Rightarrow> string" where
  "renderHostSourceUrl L url =
     (case url_parse L url of None \<Rightarrow> url | Some u \<Rightarrow> url_protocol u @ ''//'' @ url_host u @ url_pathname u)"

definition renderableCanonical :: "url_lib \<Rightarrow> js \<Rightarrow> js" where
  "renderableCanonical L stored =
     (case parseHostSource L stored of
        None \<Rightarrow> Str HOST_SOURCE_WITHHELD
      | Some parsed \<Rightarrow>
          (case getp parsed ''url'' of
             Str u \<Rightarrow> Obj (AList.update ''url'' (Str (renderHostSourceUrl L u)) parsed)
           | _ \<Rightarrow> Obj parsed))"

datatype pointer_outcome = NoPointer | ShowPointer | Withheld

definition pointerOutcomeFor :: "jobj \<Rightarrow> string option \<Rightarrow> pointer_row option \<Rightarrow> pointer_outcome" where
  "pointerOutcomeFor rec reader pointer =
     (case pointer of
        None \<Rightarrow> NoPointer
      | Some p \<Rightarrow>
          if nonempty_string (pr_hostSource p) = None then NoPointer
          else (case nonempty_string (pr_authorId p) of
              None \<Rightarrow> NoPointer
            | Some author \<Rightarrow>
                if getp rec ''agentId'' \<noteq> Str author then NoPointer
                else if nonempty_string (getp rec ''instanceToken'') = None \<or>
                  nonempty_string (getp rec ''instanceToken'') \<noteq> nonempty_string (pr_memoryInstanceToken p) then NoPointer
                else if getp rec ''archived'' = Bool True then NoPointer
                else if reader = Some author then ShowPointer
                else if nullish (pr_scopeAtWrite p) then Withheld
                else if isPrivateVisibility (Str (narrowerVisibility (pr_scopeAtWrite p) (getp rec ''visibility''))) then Withheld
                else ShowPointer))"

definition INLINE_POINTER_FIELDS :: "string list" where
  "INLINE_POINTER_FIELDS = [''hostSource'', ''hostSourceScope'', ''hostSourceVisibility'']"

definition stripInlinePointerFields :: "jobj \<Rightarrow> jobj" where
  "stripInlinePointerFields rec = fold AList.delete INLINE_POINTER_FIELDS rec"

definition projectHostSource :: "url_lib \<Rightarrow> jobj \<Rightarrow> string option \<Rightarrow> pointer_row option \<Rightarrow> jobj" where
  "projectHostSource L rec reader pointer =
     (case (pointerOutcomeFor rec reader pointer, pointer) of
        (Withheld, _) \<Rightarrow> AList.update ''hostSource'' (Str HOST_SOURCE_WITHHELD) (stripInlinePointerFields rec)
      | (ShowPointer, Some p) \<Rightarrow>
          AList.update ''hostSource'' (renderableCanonical L (pr_hostSource p)) (stripInlinePointerFields rec)
      | _ \<Rightarrow> stripInlinePointerFields rec)"

definition projectRowsThroughPointers :: "url_lib \<Rightarrow> pointer_row list \<Rightarrow> jobj list \<Rightarrow> string option \<Rightarrow> jobj list" where
  "projectRowsThroughPointers L table rows reader =
     (let pointers = loadPointerRows table (filter (\<lambda>v. nonempty_string v \<noteq> None) (map (\<lambda>r. getp r ''id'') rows)) in
      map (\<lambda>row. case getp row ''id'' of
          Str i \<Rightarrow> projectHostSource L row reader (map_of pointers i)
        | _ \<Rightarrow> stripInlinePointerFields row) rows)"

section \<open>The citation\<close>

definition HOST_SOURCE_ID_DISPLAY_CHARS :: nat where "HOST_SOURCE_ID_DISPLAY_CHARS = 8"

definition HOST_SOURCE_WITHHELD_CITATION :: string where "HOST_SOURCE_WITHHELD_CITATION = ''[via withheld]''"

definition formatHostSourceCitation :: "js \<Rightarrow> string option" where
  "formatHostSourceCitation rendered =
     (if rendered = Str ''withheld'' \<or> rendered = Str HOST_SOURCE_WITHHELD_CITATION then Some HOST_SOURCE_WITHHELD_CITATION
      else case (field rendered ''host'', field rendered ''kind'', field rendered ''id'') of
          (Str host, Str kind, Str i) \<Rightarrow>
            if i = [] then None
            else Some (''[via '' @ host @ ''/'' @ kind @ '' '' @ take HOST_SOURCE_ID_DISPLAY_CHARS i @ '' (unverified)]'')
        | _ \<Rightarrow> None)"

section \<open>A pointer is never wider than its record\<close>

lemma nonempty_string_Some: "nonempty_string v = Some s \<longleftrightarrow> v = Str s \<and> s \<noteq> []"
  by (cases v) auto

lemma getp_stripInline [simp]:
  "getp (stripInlinePointerFields rec) k = (if k \<in> set INLINE_POINTER_FIELDS then Undef else getp rec k)"
  by (simp add: stripInlinePointerFields_def INLINE_POINTER_FIELDS_def)

lemma outcome_show:
  assumes "pointerOutcomeFor rec reader (Some p) = ShowPointer"
  obtains author t where "pr_authorId p = Str author" "getp rec ''agentId'' = Str author" "t \<noteq> []"
    "getp rec ''instanceToken'' = Str t" "pr_memoryInstanceToken p = Str t" "getp rec ''archived'' \<noteq> Bool True"
    "reader = Some author \<or> \<not> nullish (pr_scopeAtWrite p) \<and> \<not> isPrivateVisibility (pr_scopeAtWrite p) \<and>
       \<not> isPrivateVisibility (getp rec ''visibility'')"
proof -
  obtain author where a: "pr_authorId p = Str author"
    using assms by (auto simp: pointerOutcomeFor_def nonempty_string_Some split: option.splits if_splits)
  have "nonempty_string (getp rec ''instanceToken'') \<noteq> None"
  proof
    assume "nonempty_string (getp rec ''instanceToken'') = None"
    then show False using assms by (simp add: pointerOutcomeFor_def split: option.splits if_splits)
  qed
  then obtain t where t: "nonempty_string (getp rec ''instanceToken'') = Some t" by blast
  have r: "nonempty_string (pr_memoryInstanceToken p) = Some t" "getp rec ''agentId'' = Str author" "getp rec ''archived'' \<noteq> Bool True"
    "reader = Some author \<or> \<not> nullish (pr_scopeAtWrite p) \<and>
       \<not> isPrivateVisibility (Str (narrowerVisibility (pr_scopeAtWrite p) (getp rec ''visibility'')))"
    using assms t by (auto simp: pointerOutcomeFor_def a split: option.splits if_splits)
  have "\<not> isPrivateVisibility (pr_scopeAtWrite p) \<and> \<not> isPrivateVisibility (getp rec ''visibility'')"
    if "\<not> isPrivateVisibility (Str (narrowerVisibility (pr_scopeAtWrite p) (getp rec ''visibility'')))"
    using that by (auto simp: narrowerVisibility_def isPrivateVisibility_def PRIVATE_VISIBILITY_def)
  then show ?thesis using that [of author t] a t r by (auto simp: nonempty_string_Some)
qed

lemma built_pointer:
  assumes "buildPointerForWrite L inputs i vis auth token stored now = Inr (Some p)"
  shows "pr_authorId p = Str (pointerAuthorId auth)" "pr_memoryInstanceToken p = coalesce token Null"
    "\<not> nullish (pr_scopeAtWrite p) \<Longrightarrow> pi_hostSourceScope inputs = Str ''record'' \<and> pr_scopeAtWrite p = vis"
  using assms
  by (auto simp: buildPointerForWrite_def buildPointerRow_def coalesce_def split: if_splits sum.splits prod.splits)

text \<open>C34. A pointer is never wider than its record: of a pointer that a write stored, any later read of the row by
  any reader shows the pointer itself only for the same incarnation of an unarchived row of the writer, to the
  writer, or to others when the write opted in, the row was not private then and is not private now; every other
  read shows nothing or the withheld mark, and no read returns an inline pointer field or changes another field.\<close>

theorem pointer_never_wider:
  assumes "buildPointerForWrite L inputs i vis auth token stored now = Inr (Some p)"
  shows "let out = projectHostSource L rec reader (Some p) in
     (getp out ''hostSource'' = Undef \<or> getp out ''hostSource'' = Str HOST_SOURCE_WITHHELD \<or>
        getp rec ''agentId'' = Str (pointerAuthorId auth) \<and> token = getp rec ''instanceToken'' \<and> getp rec ''archived'' \<noteq> Bool True \<and>
        (reader = Some (pointerAuthorId auth) \<or>
           pi_hostSourceScope inputs = Str ''record'' \<and> \<not> nullish vis \<and> \<not> isPrivateVisibility vis \<and>
           \<not> isPrivateVisibility (getp rec ''visibility''))) \<and>
     getp out ''hostSourceScope'' = Undef \<and> getp out ''hostSourceVisibility'' = Undef \<and>
     (\<forall>k. k \<notin> set INLINE_POINTER_FIELDS \<longrightarrow> getp out k = getp rec k)"
proof (cases "pointerOutcomeFor rec reader (Some p)")
  case ShowPointer
  obtain author t where o: "pr_authorId p = Str author" "getp rec ''agentId'' = Str author" "t \<noteq> []"
    "getp rec ''instanceToken'' = Str t" "pr_memoryInstanceToken p = Str t" "getp rec ''archived'' \<noteq> Bool True"
    "reader = Some author \<or> \<not> nullish (pr_scopeAtWrite p) \<and> \<not> isPrivateVisibility (pr_scopeAtWrite p) \<and>
       \<not> isPrivateVisibility (getp rec ''visibility'')"
    by (rule outcome_show [OF ShowPointer])
  note b = built_pointer [OF assms]
  have "author = pointerAuthorId auth" using o(1) b(1) by simp
  moreover have "token = getp rec ''instanceToken''" using o(4,5) b(2) by (auto simp: coalesce_def split: if_splits)
  ultimately show ?thesis using o b(3)
    by (auto simp: projectHostSource_def ShowPointer Let_def INLINE_POINTER_FIELDS_def)
qed (auto simp: projectHostSource_def Let_def INLINE_POINTER_FIELDS_def)

definition demo_url_lib :: url_lib where
  "demo_url_lib = \<lparr>json_parse = (\<lambda>_. None), url_parse = (\<lambda>_. None)\<rparr>"

lemma pointer_never_wider_witness:
  "\<exists>p. buildPointerForWrite demo_url_lib \<lparr>pi_hostSource = Obj (pointer_value ''cursor'' ''launch'' ''l1'' None),
        pi_hostSourceScope = Undef, pi_forgedVisibility = False\<rparr> ''m1'' (Str ''shared'') (Agent ''me'' False) (Str ''t1'') None ''now'' =
        Inr (Some p) \<and>
     getp (projectHostSource demo_url_lib [(''agentId'', Str ''me''), (''instanceToken'', Str ''t1'')] (Some ''you'') (Some p))
       ''hostSourceScope'' = Undef"
proof -
  let ?inputs = "\<lparr>pi_hostSource = Obj (pointer_value ''cursor'' ''launch'' ''l1'' None), pi_hostSourceScope = Undef, pi_forgedVisibility = False\<rparr>"
  have "\<exists>c v. validateHostSource demo_url_lib (pi_hostSource ?inputs) = Inr (c, v)"
    by (simp add: validateHostSource_def validate_object_def pointer_value_def enum_order_def is_array_index_def host_field_def
        check_vocabulary_def HOST_SOURCE_HOSTS_def HOST_SOURCE_KINDS_def HOST_SOURCE_PAIRS_def HOST_SOURCE_ID_RE_def host_id_char_def
        FORBIDDEN_CHAR_def code_def is_digit_def check_url_def)
  then obtain p where p: "buildPointerForWrite demo_url_lib ?inputs ''m1'' (Str ''shared'') (Agent ''me'' False) (Str ''t1'') None ''now'' =
      Inr (Some p)"
    by (auto simp: buildPointerForWrite_def isPointerEchoOf_def)
  show ?thesis using p pointer_never_wider [OF p, of "[(''agentId'', Str ''me''), (''instanceToken'', Str ''t1'')]" "Some ''you''"]
    by (auto simp: Let_def)
qed

section \<open>The canonical form\<close>

lemma valid_fields:
  assumes "validate_object L ob = Inr (canonical, v)"
  obtains host kind i url where "v = pointer_value host kind i url" "canonical = shown_json (Obj v)"
    "check_vocabulary host kind i = None" "check_url L (getp ob ''url'') = Inr url"
    "host_field ''host'' (Str host) = Inr host" "host_field ''kind'' (Str kind) = Inr kind" "host_field ''id'' (Str i) = Inr i"
  using assms
  by (auto simp: validate_object_def host_field_def split: option.splits if_splits sum.splits js.splits)

lemma url_revalidates: "check_url L v = Inr (Some u) \<Longrightarrow> check_url L (Str u) = Inr (Some u)"
  by (auto simp: check_url_def host_field_def Let_def split: if_splits sum.splits option.splits js.splits)

text \<open>C40. The stored form of a host pointer is canonical: it names an allowed host and kind and an id of the grammar,
  validating the stored text again gives the same text and value, so a client that echoes it keeps it, reading it
  back gives the value, and the citation names host, kind and the first eight characters of the id only.\<close>

theorem host_source_canonical:
  assumes "validateHostSource L input = Inr (canonical, v)" "json_parse L canonical = Some (Obj v)"
  shows "\<exists>host kind i. getp v ''host'' = Str host \<and> getp v ''kind'' = Str kind \<and> getp v ''id'' = Str i \<and>
     (host, kind) \<in> set HOST_SOURCE_PAIRS \<and> HOST_SOURCE_ID_RE i \<and>
     validateHostSource L (Str canonical) = Inr (canonical, v) \<and> parseHostSource L (Str canonical) = Some v \<and>
     formatHostSourceCitation (Obj v) = Some (''[via '' @ host @ ''/'' @ kind @ '' '' @ take 8 i @ '' (unverified)]'')"
proof -
  obtain ob where ob: "validate_object L ob = Inr (canonical, v)"
    using assms(1) by (auto simp: validateHostSource_def split: option.splits js.splits)
  obtain host kind i url where f: "v = pointer_value host kind i url" "canonical = shown_json (Obj v)"
    "check_vocabulary host kind i = None" "check_url L (getp ob ''url'') = Inr url"
    "host_field ''host'' (Str host) = Inr host" "host_field ''kind'' (Str kind) = Inr kind" "host_field ''id'' (Str i) = Inr i"
    by (rule valid_fields [OF ob])
  have g: "getp v ''v'' = Num (Fin 1)" "getp v ''host'' = Str host" "getp v ''kind'' = Str kind" "getp v ''id'' = Str i"
    "getp v ''url'' = (case url of None \<Rightarrow> Undef | Some u \<Rightarrow> Str u)"
    by (auto simp: f(1) pointer_value_def split: option.splits)
  have u: "check_url L (getp v ''url'') = Inr url"
    using f(4) url_revalidates by (cases url) (auto simp: g check_url_def)
  have k: "set (map fst (enum_order v)) \<subseteq> {''v'', ''host'', ''kind'', ''id'', ''url''}"
    by (auto simp: enum_order_def f(1) pointer_value_def split: option.splits)
  then have n: "find (\<lambda>k. k \<notin> {''v'', ''host'', ''kind'', ''id'', ''url''}) (map fst (enum_order v)) = None"
    by (auto simp: find_None_iff)
  have val: "validate_object L v = Inr (canonical, v)"
    unfolding validate_object_def n by (simp add: g f(3,5-7) u [unfolded g] f(2) flip: f(1))
  have "canonical \<noteq> []" by (simp add: f(2) shown_json_def json_stringify_def)
  then have "parseHostSource L (Str canonical) = Some v"
    using assms(2) val by (simp add: parseHostSource_def validateHostSource_def)
  moreover have "validateHostSource L (Str canonical) = Inr (canonical, v)" using assms(2) val by (simp add: validateHostSource_def)
  moreover have "(host, kind) \<in> set HOST_SOURCE_PAIRS" "HOST_SOURCE_ID_RE i"
    using f(3) by (auto simp: check_vocabulary_def split: if_splits)
  moreover have "formatHostSourceCitation (Obj v) = Some (''[via '' @ host @ ''/'' @ kind @ '' '' @ take 8 i @ '' (unverified)]'')"
    using \<open>HOST_SOURCE_ID_RE i\<close> by (auto simp: formatHostSourceCitation_def g HOST_SOURCE_ID_RE_def HOST_SOURCE_ID_DISPLAY_CHARS_def)
  ultimately show ?thesis using g by blast
qed

lemma host_source_canonical_witness:
  "\<exists>v. validateHostSource \<lparr>json_parse = (\<lambda>_. Some (Obj (pointer_value ''cursor'' ''launch'' ''l1'' None))), url_parse = (\<lambda>_. None)\<rparr>
      (Str (shown_json (Obj (pointer_value ''cursor'' ''launch'' ''l1'' None)))) =
      Inr (shown_json (Obj (pointer_value ''cursor'' ''launch'' ''l1'' None)), v) \<and> getp v ''host'' = Str ''cursor''"
proof -
  let ?v = "pointer_value ''cursor'' ''launch'' ''l1'' None"
  let ?L = "\<lparr>json_parse = (\<lambda>_. Some (Obj ?v)), url_parse = (\<lambda>_. None)\<rparr>"
  have a: "validateHostSource ?L (Obj ?v) = Inr (shown_json (Obj ?v), ?v)"
    by (simp add: validateHostSource_def validate_object_def enum_order_def is_array_index_def host_field_def pointer_value_def
        check_vocabulary_def HOST_SOURCE_HOSTS_def HOST_SOURCE_KINDS_def HOST_SOURCE_PAIRS_def HOST_SOURCE_ID_RE_def host_id_char_def
        FORBIDDEN_CHAR_def code_def is_digit_def check_url_def)
  have "json_parse ?L (shown_json (Obj ?v)) = Some (Obj ?v)" by simp
  from host_source_canonical [OF a this] show ?thesis by (intro exI [of _ ?v]) (auto simp: pointer_value_def)
qed

end
