(* ===== verification/LockedTxn.thy ===== *)
theory LockedTxn
  imports MemoryLock
begin

text \<open>
  The locked transaction scope of nested Memory writes: \<open>resources/memory-write-transaction.ts\<close>, over the tokens of
  theory \<open>MemoryLock\<close>. One scope is modelled with all its writes: the function that opened it, the bodies of the writes
  and the database run as processes whose steps interleave freely. The transaction and its commit are the database's;
  a write body is whatever calls \<open>stage\<close> and ends with an answer, in any order the code allows.
\<close>

section \<open>The scope\<close>

datatype tx_refusal = LockRefusal capability_refusal | NotATransaction | TransactionMismatch | TransactionClosed

datatype scope_error = CapabilityError tx_refusal | ErrorValue js

datatype body_answer = BodyValue js | BodyResponse response | BodyThrew scope_error

datatype write_receipt = ReceiptPending | ReceiptStaged | ReceiptRefused response | ReceiptRejected scope_error

datatype scope_phase = ScopeOpen | ScopeDraining | ScopeClosed

text \<open>A tracked write: its receipt, whether it staged, its resume gate once opened, and what its body answered.\<close>

record locked_write =
  lw_id :: string
  lw_receipt :: write_receipt
  lw_staged :: bool
  lw_gate :: "bool option"
  lw_answer :: "body_answer option"

record scope_state =
  ss_acquisition :: nat
  ss_phase :: scope_phase
  ss_txOpen :: bool
  ss_writes :: "locked_write list"
  ss_confirmations :: "nat list"
  ss_failure :: "scope_error option"

definition open_scope_state :: "nat \<Rightarrow> scope_state" where
  "open_scope_state acquisition =
     \<lparr>ss_acquisition = acquisition, ss_phase = ScopeOpen, ss_txOpen = True, ss_writes = [], ss_confirmations = [],
      ss_failure = None\<rparr>"

definition lockedTransactionContext :: "scope_state option \<Rightarrow> tx_refusal + scope_state" where
  "lockedTransactionContext tx =
     (case tx of
        None \<Rightarrow> Inl NotATransaction
      | Some st \<Rightarrow> if ss_phase st = ScopeClosed \<or> \<not> ss_txOpen st then Inl TransactionClosed else Inr st)"

section \<open>Admission\<close>

definition admission_check :: "token_registry \<Rightarrow> held_value \<Rightarrow> scope_state option \<Rightarrow> nat \<Rightarrow> js list \<Rightarrow> tx_refusal + scope_state" where
  "admission_check reg held tx store ids =
     (case assertMemoryWriteLockToken reg held (Some store) ids of
        Inl e \<Rightarrow> Inl (LockRefusal e)
      | Inr _ \<Rightarrow>
          (case tx of
             None \<Rightarrow> Inl NotATransaction
           | Some st \<Rightarrow>
               if held \<noteq> Token (ss_acquisition st) then Inl TransactionMismatch
               else if ss_phase st \<noteq> ScopeOpen \<or> \<not> ss_txOpen st then Inl TransactionClosed
               else Inr st))"

text \<open>A refusal inside an open scope is remembered and aborts it; the first one counts.\<close>

definition admitLockedMemoryWrite ::
    "token_registry \<Rightarrow> held_value \<Rightarrow> scope_state option \<Rightarrow> nat \<Rightarrow> js list \<Rightarrow> (tx_refusal + scope_state) \<times> scope_state option" where
  "admitLockedMemoryWrite reg held tx store ids =
     (case admission_check reg held tx store ids of
        Inr st \<Rightarrow> (Inr st, tx)
      | Inl e \<Rightarrow>
          (Inl e, map_option (\<lambda>st. if ss_phase st = ScopeOpen \<and> ss_failure st = None
                                   then st\<lparr>ss_failure := Some (CapabilityError e)\<rparr> else st) tx))"

definition join_refused :: "bool \<Rightarrow> scope_state \<Rightarrow> bool" where
  "join_refused same_context st \<longleftrightarrow> \<not> same_context \<or> ss_phase st = ScopeClosed \<or> \<not> ss_txOpen st"

section \<open>A tracked write\<close>

definition track_write :: "string \<Rightarrow> scope_state \<Rightarrow> tx_refusal + scope_state" where
  "track_write i st =
     (if ss_phase st \<noteq> ScopeOpen then Inl TransactionClosed
      else Inr (st\<lparr>ss_writes := ss_writes st @
        [\<lparr>lw_id = i, lw_receipt = ReceiptPending, lw_staged = False, lw_gate = None, lw_answer = None\<rparr>]\<rparr>))"

definition update_write :: "nat \<Rightarrow> (locked_write \<Rightarrow> locked_write) \<Rightarrow> scope_state \<Rightarrow> scope_state" where
  "update_write k f st = st\<lparr>ss_writes := (ss_writes st)[k := f (ss_writes st ! k)]\<rparr>"

definition settle_receipt :: "write_receipt \<Rightarrow> locked_write \<Rightarrow> locked_write" where
  "settle_receipt r w = (if lw_receipt w = ReceiptPending then w\<lparr>lw_receipt := r\<rparr> else w)"

text \<open>\<open>stage()\<close> of the write number \<open>k\<close>; \<open>None\<close> is a second staging, which is rejected.\<close>

definition stage_write :: "nat \<Rightarrow> scope_state \<Rightarrow> scope_state option" where
  "stage_write k st =
     (if lw_staged (ss_writes st ! k) then None
      else Some ((update_write k (\<lambda>w. settle_receipt ReceiptStaged (w\<lparr>lw_staged := True\<rparr>)) st)
                   \<lparr>ss_confirmations := ss_confirmations st @ [k]\<rparr>))"

definition neither_error :: scope_error where
  "neither_error = ErrorValue (Str ''flair: a checked Memory write returned neither staged nor a refusal'')"

definition unstaged_receipt :: "body_answer \<Rightarrow> write_receipt" where
  "unstaged_receipt a =
     (case a of BodyResponse r \<Rightarrow> ReceiptRefused r | BodyValue _ \<Rightarrow> ReceiptRejected neither_error | BodyThrew e \<Rightarrow> ReceiptRejected e)"

definition body_settles :: "nat \<Rightarrow> body_answer \<Rightarrow> scope_state \<Rightarrow> scope_state" where
  "body_settles k a st =
     update_write k (\<lambda>w. let w' = w\<lparr>lw_answer := Some a\<rparr> in
        if lw_staged w then w' else settle_receipt (unstaged_receipt a) w') st"

section \<open>Running the scope\<close>

datatype work_result = WorkValue js | WorkResponse response | WorkThrew scope_error

datatype drain_verdict = AbortThrow scope_error | AbortRefuse response | CommitWith js

fun first_rejected :: "locked_write list \<Rightarrow> scope_error option" where
  "first_rejected [] = None"
| "first_rejected (w # ws) = (case lw_receipt w of ReceiptRejected e \<Rightarrow> Some e | _ \<Rightarrow> first_rejected ws)"

fun first_refused :: "locked_write list \<Rightarrow> response option" where
  "first_refused [] = None"
| "first_refused (w # ws) = (case lw_receipt w of ReceiptRefused r \<Rightarrow> Some r | _ \<Rightarrow> first_refused ws)"

text \<open>What the drained scope does, in the order of the checks.\<close>

definition drain_decision :: "work_result \<Rightarrow> scope_state \<Rightarrow> drain_verdict" where
  "drain_decision work st =
     (case work of
        WorkThrew e \<Rightarrow> AbortThrow e
      | _ \<Rightarrow>
          (case ss_failure st of
             Some e \<Rightarrow> AbortThrow e
           | None \<Rightarrow>
               (case first_rejected (ss_writes st) of
                  Some e \<Rightarrow> AbortThrow e
                | None \<Rightarrow>
                    (case work of
                       WorkResponse r \<Rightarrow> AbortRefuse r
                     | WorkValue v \<Rightarrow> (case first_refused (ss_writes st) of Some r \<Rightarrow> AbortRefuse r | None \<Rightarrow> CommitWith v)
                     | WorkThrew e \<Rightarrow> AbortThrow e))))"

datatype scope_outcome = ScopeCommitted js "js list" | ScopeRefused response | ScopeThrew scope_error

fun first_threw :: "body_answer list \<Rightarrow> scope_error option" where
  "first_threw [] = None" | "first_threw (BodyThrew e # as) = Some e" | "first_threw (_ # as) = first_threw as"

fun first_response :: "body_answer list \<Rightarrow> response option" where
  "first_response [] = None" | "first_response (BodyResponse r # as) = Some r" | "first_response (_ # as) = first_response as"

fun confirmed_values :: "body_answer list \<Rightarrow> js list" where
  "confirmed_values [] = []" | "confirmed_values (BodyValue v # as) = v # confirmed_values as"
| "confirmed_values (_ # as) = confirmed_values as"

text \<open>The outcome once every confirmation has answered.\<close>

definition confirmation_outcome :: "js \<Rightarrow> body_answer list \<Rightarrow> scope_outcome" where
  "confirmation_outcome v answers =
     (case first_threw answers of
        Some e \<Rightarrow> ScopeThrew e
      | None \<Rightarrow> (case first_response answers of Some r \<Rightarrow> ScopeRefused r | None \<Rightarrow> ScopeCommitted v (confirmed_values answers)))"

text \<open>The \<open>finally\<close> block: the scope is closed, and a write still waiting ends without its tail.\<close>

definition close_gates :: "scope_state \<Rightarrow> scope_state" where
  "close_gates st = st\<lparr>ss_phase := ScopeClosed,
     ss_writes := map (\<lambda>w. if lw_staged w \<and> lw_gate w = None then w\<lparr>lw_gate := Some False\<rparr> else w) (ss_writes st)\<rparr>"

datatype scope_run = Working | Draining work_result | Committing js | Confirming js "body_answer list" | Finished scope_outcome

record scope_world =
  sw_state :: scope_state
  sw_run :: scope_run
  sw_committed :: bool

definition fresh_scope :: "nat \<Rightarrow> scope_world" where
  "fresh_scope acquisition = \<lparr>sw_state = open_scope_state acquisition, sw_run = Working, sw_committed = False\<rparr>"

definition finish_scope :: "scope_outcome \<Rightarrow> scope_world \<Rightarrow> scope_world" where
  "finish_scope out w = w\<lparr>sw_state := close_gates (sw_state w), sw_run := Finished out\<rparr>"

definition decided :: "drain_verdict \<Rightarrow> scope_world \<Rightarrow> scope_world" where
  "decided d w =
     (case d of
        AbortThrow e \<Rightarrow> finish_scope (ScopeThrew e) w
      | AbortRefuse r \<Rightarrow> finish_scope (ScopeRefused r) w
      | CommitWith v \<Rightarrow> w\<lparr>sw_run := Committing v\<rparr>)"

inductive scope_step :: "scope_world \<Rightarrow> scope_world \<Rightarrow> bool" where
  admission: "admitLockedMemoryWrite reg held (Some (sw_state w)) store ids = (res, Some st) \<Longrightarrow>
    scope_step w (w\<lparr>sw_state := st\<rparr>)"
| track: "track_write i (sw_state w) = Inr st \<Longrightarrow> scope_step w (w\<lparr>sw_state := st\<rparr>)"
| stage: "k < length (ss_writes (sw_state w)) \<Longrightarrow> stage_write k (sw_state w) = Some st \<Longrightarrow>
    scope_step w (w\<lparr>sw_state := st\<rparr>)"
| answer: "k < length (ss_writes (sw_state w)) \<Longrightarrow> lw_answer (ss_writes (sw_state w) ! k) = None \<Longrightarrow>
    scope_step w (w\<lparr>sw_state := body_settles k a (sw_state w)\<rparr>)"
| transaction_ends: "scope_step w (w\<lparr>sw_state := (sw_state w)\<lparr>ss_txOpen := False\<rparr>\<rparr>)"
| work_settles: "sw_run w = Working \<Longrightarrow>
    scope_step w (w\<lparr>sw_run := Draining work, sw_state := (sw_state w)\<lparr>ss_phase := ScopeDraining\<rparr>\<rparr>)"
| drained: "sw_run w = Draining work \<Longrightarrow> \<forall>lw \<in> set (ss_writes (sw_state w)). lw_receipt lw \<noteq> ReceiptPending \<Longrightarrow>
    scope_step w (decided (drain_decision work (sw_state w)) w)"
| commit: "sw_run w = Committing v \<Longrightarrow> scope_step w (w\<lparr>sw_run := Confirming v [], sw_committed := True\<rparr>)"
| commit_fails: "sw_run w = Committing v \<Longrightarrow> scope_step w (finish_scope (ScopeThrew e) w)"
| open_gate: "sw_run w = Confirming v as \<Longrightarrow> length as < length (ss_confirmations (sw_state w)) \<Longrightarrow>
    lw_gate (ss_writes (sw_state w) ! (ss_confirmations (sw_state w) ! length as)) = None \<Longrightarrow>
    scope_step w (w\<lparr>sw_state := update_write (ss_confirmations (sw_state w) ! length as) (lw_gate_update (\<lambda>_. Some True)) (sw_state w)\<rparr>)"
| confirmed: "sw_run w = Confirming v as \<Longrightarrow> length as < length (ss_confirmations (sw_state w)) \<Longrightarrow>
    lw_gate (ss_writes (sw_state w) ! (ss_confirmations (sw_state w) ! length as)) = Some True \<Longrightarrow>
    lw_answer (ss_writes (sw_state w) ! (ss_confirmations (sw_state w) ! length as)) = Some a \<Longrightarrow>
    scope_step w (w\<lparr>sw_run := Confirming v (as @ [a])\<rparr>)"
| confirmed_all: "sw_run w = Confirming v as \<Longrightarrow> length as = length (ss_confirmations (sw_state w)) \<Longrightarrow>
    scope_step w (finish_scope (confirmation_outcome v as) w)"

section \<open>The invariant\<close>

definition confirmations_ok :: "scope_state \<Rightarrow> bool" where
  "confirmations_ok st \<longleftrightarrow>
     distinct (ss_confirmations st) \<and> (\<forall>k \<in> set (ss_confirmations st). k < length (ss_writes st)) \<and>
     (\<forall>k < length (ss_writes st). lw_staged (ss_writes st ! k) \<longleftrightarrow> k \<in> set (ss_confirmations st)) \<and>
     (\<forall>k < length (ss_writes st). lw_receipt (ss_writes st ! k) = ReceiptStaged \<longrightarrow> lw_staged (ss_writes st ! k))"

definition all_staged :: "scope_state \<Rightarrow> bool" where
  "all_staged st \<longleftrightarrow> (\<forall>w \<in> set (ss_writes st). lw_receipt w = ReceiptStaged)"

definition answers_of :: "scope_state \<Rightarrow> body_answer option list" where
  "answers_of st = map (\<lambda>k. lw_answer (ss_writes st ! k)) (ss_confirmations st)"

definition gates_wait :: "scope_state \<Rightarrow> bool" where
  "gates_wait st \<longleftrightarrow> (\<forall>w \<in> set (ss_writes st). lw_gate w \<noteq> Some True)"

fun run_ok :: "scope_run \<Rightarrow> bool \<Rightarrow> scope_state \<Rightarrow> bool" where
  "run_ok Working c st = (\<not> c \<and> ss_phase st = ScopeOpen)"
| "run_ok (Draining _) c st = (\<not> c \<and> ss_phase st = ScopeDraining)"
| "run_ok (Committing _) c st = (\<not> c \<and> ss_phase st = ScopeDraining \<and> ss_failure st = None \<and> all_staged st)"
| "run_ok (Confirming _ as) c st =
     (c \<and> ss_phase st = ScopeDraining \<and> length as \<le> length (ss_confirmations st) \<and>
      map Some as = take (length as) (answers_of st))"
| "run_ok (Finished out) c st =
     (ss_phase st = ScopeClosed \<and>
      (if c then \<exists>v as. out = confirmation_outcome v as \<and> map Some as = answers_of st else \<forall>v cs. out \<noteq> ScopeCommitted v cs))"

definition scope_inv :: "scope_world \<Rightarrow> bool" where
  "scope_inv w \<longleftrightarrow>
     confirmations_ok (sw_state w) \<and> run_ok (sw_run w) (sw_committed w) (sw_state w) \<and>
     (if sw_committed w then ss_failure (sw_state w) = None \<and> all_staged (sw_state w) else gates_wait (sw_state w))"

lemma update_write_simps [simp]:
  "length (ss_writes (update_write k f st)) = length (ss_writes st)" "ss_confirmations (update_write k f st) = ss_confirmations st"
  "ss_phase (update_write k f st) = ss_phase st" "ss_failure (update_write k f st) = ss_failure st"
  "k < length (ss_writes st) \<Longrightarrow> ss_writes (update_write k f st) ! j = (if j = k then f (ss_writes st ! k) else ss_writes st ! j)"
  by (simp_all add: update_write_def nth_list_update)

lemma all_staged_nth: "all_staged st \<longleftrightarrow> (\<forall>k < length (ss_writes st). lw_receipt (ss_writes st ! k) = ReceiptStaged)"
  unfolding all_staged_def by (rule all_set_conv_all_nth)

lemma gates_wait_nth: "gates_wait st \<longleftrightarrow> (\<forall>k < length (ss_writes st). lw_gate (ss_writes st ! k) \<noteq> Some True)"
  unfolding gates_wait_def by (rule all_set_conv_all_nth)

text \<open>An update of one write that neither stages it nor settles it as staged.\<close>

lemma update_frame:
  assumes "k < length (ss_writes st)" "lw_staged (f (ss_writes st ! k)) = lw_staged (ss_writes st ! k)"
    and "lw_receipt (f (ss_writes st ! k)) = ReceiptStaged \<longleftrightarrow> lw_receipt (ss_writes st ! k) = ReceiptStaged"
  shows "confirmations_ok (update_write k f st) = confirmations_ok st" "all_staged (update_write k f st) = all_staged st"
  using assms by (auto simp: confirmations_ok_def all_staged_nth)

lemma gates_frame:
  assumes "k < length (ss_writes st)" "lw_gate (f (ss_writes st ! k)) = lw_gate (ss_writes st ! k)"
  shows "gates_wait (update_write k f st) = gates_wait st"
  using assms by (auto simp: gates_wait_nth)

lemma answers_frame:
  assumes "k < length (ss_writes st)" "confirmations_ok st"
    and "\<And>a. lw_answer (ss_writes st ! k) = Some a \<Longrightarrow> lw_answer (f (ss_writes st ! k)) = Some a"
    and "map Some as = take n (answers_of st)"
  shows "map Some as = take n (answers_of (update_write k f st))"
proof (rule nth_equalityI)
  show "length (map Some as) = length (take n (answers_of (update_write k f st)))"
    using arg_cong [OF assms(4), of length] by (simp add: answers_of_def)
  fix i assume i: "i < length (map Some as)"
  then have "i < n" "i < length (ss_confirmations st)" using arg_cong [OF assms(4), of length] by (auto simp: answers_of_def)
  moreover have "Some (as ! i) = take n (answers_of st) ! i" using i assms(4) by (metis length_map nth_map)
  ultimately show "map Some as ! i = take n (answers_of (update_write k f st)) ! i"
    using assms(1) assms(3) [of "as ! i"] i by (auto simp: answers_of_def dest: sym)
qed

lemma answers_frame_all:
  assumes "k < length (ss_writes st)" "confirmations_ok st"
    and "\<And>a. lw_answer (ss_writes st ! k) = Some a \<Longrightarrow> lw_answer (f (ss_writes st ! k)) = Some a"
    and "map Some as = answers_of st"
  shows "map Some as = answers_of (update_write k f st)"
  using answers_frame [where f = f and n = "length (answers_of st)", OF assms(1-3)] assms(4)
  by (simp add: answers_of_def)

lemma run_frame:
  assumes k: "k < length (ss_writes st)" "confirmations_ok st"
    and a: "\<And>a. lw_answer (ss_writes st ! k) = Some a \<Longrightarrow> lw_answer (f (ss_writes st ! k)) = Some a"
    and s: "all_staged (update_write k f st) = all_staged st" and r: "run_ok r c st"
  shows "run_ok r c (update_write k f st)"
proof (cases r)
  case (Confirming v as)
  then have t: "map Some as = take (length as) (answers_of st)" using r by simp
  have "map Some as = take (length as) (answers_of (update_write k f st))" by (rule answers_frame [where f = f, OF k]) (use a t in simp_all)
  then show ?thesis using r Confirming by simp
next
  case (Finished out)
  show ?thesis
  proof (cases c)
    case True
    then obtain v as where "out = confirmation_outcome v as" "map Some as = answers_of st" using r Finished by auto
    then have "\<exists>v as. out = confirmation_outcome v as \<and> map Some as = answers_of (update_write k f st)"
      using answers_frame_all [where f = f, OF k a] by blast
    then show ?thesis using r True Finished by simp
  qed (use r Finished in simp)
qed (use r s in simp_all)

lemma staged_when_all:
  assumes "confirmations_ok st" "all_staged st" "k < length (ss_writes st)"
  shows "lw_staged (ss_writes st ! k)"
  using assms by (auto simp: confirmations_ok_def all_staged_nth)

lemma no_rejected: "first_rejected ws = None \<Longrightarrow> w \<in> set ws \<Longrightarrow> lw_receipt w \<noteq> ReceiptRejected e"
  by (induction ws) (auto split: write_receipt.splits)

lemma no_refused: "first_refused ws = None \<Longrightarrow> w \<in> set ws \<Longrightarrow> lw_receipt w \<noteq> ReceiptRefused r"
  by (induction ws) (auto split: write_receipt.splits)

lemma decision_commits:
  assumes "drain_decision work st = CommitWith v" "\<forall>w \<in> set (ss_writes st). lw_receipt w \<noteq> ReceiptPending"
  shows "work = WorkValue v \<and> ss_failure st = None \<and> all_staged st"
proof -
  have d: "ss_failure st = None" "first_rejected (ss_writes st) = None" "first_refused (ss_writes st) = None" "work = WorkValue v"
    using assms(1) by (auto simp: drain_decision_def split: work_result.splits option.splits)
  have "lw_receipt w = ReceiptStaged" if "w \<in> set (ss_writes st)" for w
    using no_rejected [OF d(2) that] no_refused [OF d(3) that] assms(2) that by (cases "lw_receipt w") auto
  then show ?thesis using d by (simp add: all_staged_def)
qed

lemma close_gates_frame:
  "confirmations_ok (close_gates st) = confirmations_ok st" "all_staged (close_gates st) = all_staged st"
  "gates_wait (close_gates st) = gates_wait st" "ss_phase (close_gates st) = ScopeClosed"
  "ss_failure (close_gates st) = ss_failure st"
  "confirmations_ok st \<Longrightarrow> answers_of (close_gates st) = answers_of st"
proof -
  have w: "lw_staged (ss_writes (close_gates st) ! k) = lw_staged (ss_writes st ! k)"
    "lw_receipt (ss_writes (close_gates st) ! k) = lw_receipt (ss_writes st ! k)"
    "lw_answer (ss_writes (close_gates st) ! k) = lw_answer (ss_writes st ! k)"
    "lw_gate (ss_writes (close_gates st) ! k) = Some True \<longleftrightarrow> lw_gate (ss_writes st ! k) = Some True"
    if "k < length (ss_writes st)" for k
    using that by (auto simp: close_gates_def)
  have l: "length (ss_writes (close_gates st)) = length (ss_writes st)" "ss_confirmations (close_gates st) = ss_confirmations st"
    by (simp_all add: close_gates_def)
  show "confirmations_ok (close_gates st) = confirmations_ok st" "all_staged (close_gates st) = all_staged st"
    "gates_wait (close_gates st) = gates_wait st"
    using w by (simp_all add: confirmations_ok_def all_staged_nth gates_wait_nth l)
  show "confirmations_ok st \<Longrightarrow> answers_of (close_gates st) = answers_of st"
    using w(3) by (auto simp: answers_of_def l confirmations_ok_def)
qed (simp_all add: close_gates_def)

lemma finished_scope_inv:
  assumes "scope_inv w" "ss_phase (sw_state w) \<noteq> ScopeOpen"
    and "if sw_committed w then \<exists>v as. out = confirmation_outcome v as \<and> map Some as = answers_of (sw_state w)
         else \<forall>v cs. out \<noteq> ScopeCommitted v cs"
  shows "scope_inv (finish_scope out w)"
  using assms by (simp add: scope_inv_def finish_scope_def close_gates_frame)

lemma admission_frame:
  assumes "admitLockedMemoryWrite reg held (Some st) store ids = (res, Some st')"
  shows "st' = st \<or> (ss_phase st = ScopeOpen \<and> (\<exists>e. st' = st\<lparr>ss_failure := Some e\<rparr>))"
  using assms by (auto simp: admitLockedMemoryWrite_def split: sum.splits if_splits)

lemma failure_frame:
  "confirmations_ok (st\<lparr>ss_failure := e\<rparr>) = confirmations_ok st" "gates_wait (st\<lparr>ss_failure := e\<rparr>) = gates_wait st"
  "confirmations_ok (st\<lparr>ss_txOpen := b\<rparr>) = confirmations_ok st" "gates_wait (st\<lparr>ss_txOpen := b\<rparr>) = gates_wait st"
  "all_staged (st\<lparr>ss_txOpen := b\<rparr>) = all_staged st" "answers_of (st\<lparr>ss_txOpen := b\<rparr>) = answers_of st"
  "confirmations_ok (st\<lparr>ss_phase := ph\<rparr>) = confirmations_ok st" "gates_wait (st\<lparr>ss_phase := ph\<rparr>) = gates_wait st"
  by (simp_all add: confirmations_ok_def gates_wait_def all_staged_def answers_of_def)

lemma open_is_working: "run_ok r c st \<Longrightarrow> ss_phase st = ScopeOpen \<Longrightarrow> r = Working \<and> \<not> c"
  by (cases r) auto

lemma track_inv:
  assumes "scope_inv w" "track_write i (sw_state w) = Inr st"
  shows "scope_inv (w\<lparr>sw_state := st\<rparr>)"
proof -
  have o: "ss_phase (sw_state w) = ScopeOpen" and st: "st = sw_state w\<lparr>ss_writes := ss_writes (sw_state w) @
      [\<lparr>lw_id = i, lw_receipt = ReceiptPending, lw_staged = False, lw_gate = None, lw_answer = None\<rparr>]\<rparr>"
    using assms(2) by (auto simp: track_write_def split: if_splits)
  have "sw_run w = Working" "\<not> sw_committed w" using assms(1) o open_is_working unfolding scope_inv_def by blast+
  then show ?thesis
    using assms(1) o by (auto simp: scope_inv_def st confirmations_ok_def gates_wait_def nth_append less_Suc_eq)
qed

lemma stage_inv:
  assumes "scope_inv w" "k < length (ss_writes (sw_state w))" "stage_write k (sw_state w) = Some st"
  shows "scope_inv (w\<lparr>sw_state := st\<rparr>)"
proof -
  let ?s = "sw_state w"
  have ns: "\<not> lw_staged (ss_writes ?s ! k)" using assms(3) by (auto simp: stage_write_def split: if_splits)
  have st: "st = (update_write k (\<lambda>w. settle_receipt ReceiptStaged (w\<lparr>lw_staged := True\<rparr>)) ?s)\<lparr>ss_confirmations := ss_confirmations ?s @ [k]\<rparr>"
    using assms(3) ns by (simp add: stage_write_def)
  have ok: "confirmations_ok ?s" using assms(1) by (simp add: scope_inv_def)
  then have na: "\<not> all_staged ?s" using staged_when_all assms(2) ns by blast
  have nc: "\<not> sw_committed w" using assms(1) na by (auto simp: scope_inv_def)
  have "confirmations_ok st"
    using ok ns assms(2) by (auto simp: st confirmations_ok_def settle_receipt_def less_Suc_eq split: if_splits)
  moreover have "gates_wait st"
    using assms(1,2) nc by (auto simp: st scope_inv_def gates_wait_nth settle_receipt_def split: if_splits)
  moreover have "run_ok (sw_run w) (sw_committed w) st"
    using assms(1) na nc by (cases "sw_run w") (auto simp: st scope_inv_def)
  ultimately show ?thesis using nc by (simp add: scope_inv_def)
qed

lemma answer_inv:
  assumes "scope_inv w" "k < length (ss_writes (sw_state w))" "lw_answer (ss_writes (sw_state w) ! k) = None"
  shows "scope_inv (w\<lparr>sw_state := body_settles k a (sw_state w)\<rparr>)"
proof -
  let ?s = "sw_state w" and ?lw = "ss_writes (sw_state w) ! k"
  define f where "f = (\<lambda>w. let w' = w\<lparr>lw_answer := Some a\<rparr> in
        if lw_staged w then w' else settle_receipt (unstaged_receipt a) w')"
  have st: "body_settles k a ?s = update_write k f ?s" by (simp add: body_settles_def f_def)
  have ok: "confirmations_ok ?s" "run_ok (sw_run w) (sw_committed w) ?s" using assms(1) by (simp_all add: scope_inv_def)
  have u: "lw_staged (f ?lw) = lw_staged ?lw" "lw_gate (f ?lw) = lw_gate ?lw"
    by (simp_all add: f_def Let_def settle_receipt_def)
  have r: "lw_receipt (f ?lw) = ReceiptStaged \<longleftrightarrow> lw_receipt ?lw = ReceiptStaged"
    by (auto simp: f_def Let_def settle_receipt_def unstaged_receipt_def split: body_answer.splits)
  note fr = update_frame [where f = f, OF assms(2) u(1) r] gates_frame [where f = f, OF assms(2) u(2)]
  have "run_ok (sw_run w) (sw_committed w) (update_write k f ?s)"
    by (rule run_frame [OF assms(2) ok(1) _ fr(2) ok(2)]) (simp add: assms(3))
  then show ?thesis using assms(1) fr by (simp add: scope_inv_def st)
qed

lemma gate_inv:
  assumes "scope_inv w" "sw_committed w" "k < length (ss_writes (sw_state w))"
  shows "scope_inv (w\<lparr>sw_state := update_write k (lw_gate_update (\<lambda>_. Some True)) (sw_state w)\<rparr>)"
proof -
  have ok: "confirmations_ok (sw_state w)" "run_ok (sw_run w) True (sw_state w)" using assms(1,2) by (simp_all add: scope_inv_def)
  note fr = update_frame [OF assms(3), of "lw_gate_update (\<lambda>_. Some True)"]
  have "run_ok (sw_run w) True (update_write k (lw_gate_update (\<lambda>_. Some True)) (sw_state w))"
    by (rule run_frame [OF assms(3) ok(1) _ _ ok(2)]) (simp_all add: fr)
  then show ?thesis using assms(1,2) fr by (simp add: scope_inv_def)
qed

lemma scope_step_inv:
  assumes "scope_step w w'" "scope_inv w"
  shows "scope_inv w'"
  using assms(1)
proof cases
  case (admission reg held store ids res st)
  show ?thesis
  proof (cases "st = sw_state w")
    case True
    then show ?thesis using assms(2) admission(1) by simp
  next
    case False
    then obtain e where e: "ss_phase (sw_state w) = ScopeOpen" "st = sw_state w\<lparr>ss_failure := Some e\<rparr>"
      using admission_frame [OF admission(2)] by blast
    have "sw_run w = Working" "\<not> sw_committed w" using assms(2) e(1) open_is_working unfolding scope_inv_def by blast+
    then show ?thesis using assms(2) e by (simp add: admission(1) scope_inv_def failure_frame)
  qed
next
  case (track i st)
  then show ?thesis using track_inv [OF assms(2)] by simp
next
  case (stage k st)
  then show ?thesis using stage_inv [OF assms(2)] by simp
next
  case (answer k a)
  then show ?thesis using answer_inv [OF assms(2)] by simp
next
  case transaction_ends
  have "run_ok (sw_run w) (sw_committed w) (sw_state w\<lparr>ss_txOpen := False\<rparr>)"
    using assms(2) by (cases "sw_run w") (auto simp: scope_inv_def failure_frame)
  then show ?thesis using assms(2) by (simp add: transaction_ends scope_inv_def failure_frame)
next
  case (work_settles work)
  then show ?thesis using assms(2) by (simp add: scope_inv_def failure_frame)
next
  case (drained work)
  have run: "\<not> sw_committed w" "ss_phase (sw_state w) = ScopeDraining" using assms(2) drained(2) by (simp_all add: scope_inv_def)
  show ?thesis
  proof (cases "drain_decision work (sw_state w)")
    case (CommitWith v)
    then show ?thesis using decision_commits [OF _ drained(3)] assms(2) run by (simp add: drained(1) decided_def scope_inv_def)
  qed (use run in \<open>auto simp: drained(1) decided_def intro!: finished_scope_inv [OF assms(2)]\<close>)
next
  case (commit v)
  then show ?thesis using assms(2) by (simp add: scope_inv_def)
next
  case (commit_fails v e)
  have "ss_phase (sw_state w) \<noteq> ScopeOpen" "\<not> sw_committed w" using assms(2) commit_fails(2) by (simp_all add: scope_inv_def)
  then show ?thesis unfolding commit_fails(1) by (intro finished_scope_inv [OF assms(2)]) simp_all
next
  case (open_gate v as)
  have "ss_confirmations (sw_state w) ! length as < length (ss_writes (sw_state w))"
    using assms(2) open_gate(3) by (simp add: scope_inv_def confirmations_ok_def)
  then show ?thesis using gate_inv [OF assms(2)] assms(2) open_gate(1,2) by (simp add: scope_inv_def)
next
  case (confirmed v as a)
  have "map Some (as @ [a]) = take (length (as @ [a])) (answers_of (sw_state w))"
    using assms(2) confirmed(2,3,5) by (simp add: scope_inv_def take_Suc_conv_app_nth answers_of_def)
  then show ?thesis using assms(2) confirmed(1,2,3) by (simp add: scope_inv_def del: map_append)
next
  case (confirmed_all v as)
  have "map Some as = answers_of (sw_state w)" using assms(2) confirmed_all(2,3) by (simp add: scope_inv_def answers_of_def)
  moreover have "ss_phase (sw_state w) \<noteq> ScopeOpen" "sw_committed w" using assms(2) confirmed_all(2) by (simp_all add: scope_inv_def)
  ultimately show ?thesis unfolding confirmed_all(1) by (intro finished_scope_inv [OF assms(2)]) auto
qed

lemma scope_reachable: "scope_step\<^sup>*\<^sup>* (fresh_scope n) w \<Longrightarrow> scope_inv w"
proof (induction rule: rtranclp_induct)
  case base
  show ?case by (simp add: fresh_scope_def open_scope_state_def scope_inv_def confirmations_ok_def gates_wait_def)
qed (rule scope_step_inv)

lemma confirmed_outcome:
  assumes "confirmation_outcome v as = ScopeCommitted v' cs"
  shows "v' = v \<and> as = map BodyValue cs"
proof -
  have no: "first_threw as = None" "first_response as = None" "v' = v" "cs = confirmed_values as"
    using assms by (auto simp: confirmation_outcome_def split: option.splits)
  have "as = map BodyValue (confirmed_values as)"
    using no(1,2) by (induction as rule: confirmed_values.induct) auto
  then show ?thesis using no by simp
qed

text \<open>C7. A locked scope is all or nothing, however its writes, its function and the database interleave: no write resumes
  past its gate before the commit; a commit finds every admitted write staged and no refused admission; and the scope
  reports committed only after the commit, with every write's own answer, in staging order.\<close>

theorem locked_scope_all_or_nothing:
  assumes "scope_step\<^sup>*\<^sup>* (fresh_scope acquisition) w"
  shows "(\<not> sw_committed w \<longrightarrow> (\<forall>lw \<in> set (ss_writes (sw_state w)). lw_gate lw \<noteq> Some True)) \<and>
    (sw_committed w \<longrightarrow> ss_failure (sw_state w) = None \<and> (\<forall>lw \<in> set (ss_writes (sw_state w)). lw_receipt lw = ReceiptStaged)) \<and>
    (\<forall>v values. sw_run w = Finished (ScopeCommitted v values) \<longrightarrow>
       sw_committed w \<and> length values = length (ss_writes (sw_state w)) \<and> distinct (ss_confirmations (sw_state w)) \<and>
       set (ss_confirmations (sw_state w)) = {..<length (ss_writes (sw_state w))} \<and>
       (\<forall>i < length values. lw_answer (ss_writes (sw_state w) ! (ss_confirmations (sw_state w) ! i)) = Some (BodyValue (values ! i))))"
proof -
  let ?s = "sw_state w"
  note inv = scope_reachable [OF assms]
  have "sw_committed w \<and> length vs = length (ss_writes ?s) \<and> distinct (ss_confirmations ?s) \<and>
       set (ss_confirmations ?s) = {..<length (ss_writes ?s)} \<and>
       (\<forall>i < length vs. lw_answer (ss_writes ?s ! (ss_confirmations ?s ! i)) = Some (BodyValue (vs ! i)))"
    if f: "sw_run w = Finished (ScopeCommitted v vs)" for v vs
  proof -
    have c: "sw_committed w" using inv f by (auto simp: scope_inv_def split: if_splits)
    then obtain v' as where o: "ScopeCommitted v vs = confirmation_outcome v' as" "map Some as = answers_of ?s"
      using inv f by (auto simp: scope_inv_def)
    have as: "as = map BodyValue vs" using confirmed_outcome [of v' as v vs] o(1) by simp
    have ok: "confirmations_ok ?s" "all_staged ?s" using inv c by (simp_all add: scope_inv_def)
    then have "set (ss_confirmations ?s) = {..<length (ss_writes ?s)}"
      using staged_when_all [OF ok] by (auto simp: confirmations_ok_def)
    moreover have "distinct (ss_confirmations ?s)" using ok(1) by (simp add: confirmations_ok_def)
    ultimately have "length (ss_confirmations ?s) = length (ss_writes ?s)" using distinct_card [of "ss_confirmations ?s"] by simp
    moreover have len: "length vs = length (ss_confirmations ?s)" using arg_cong [OF o(2), of length] by (simp add: as answers_of_def)
    moreover have "lw_answer (ss_writes ?s ! (ss_confirmations ?s ! i)) = Some (BodyValue (vs ! i))" if "i < length vs" for i
      using arg_cong [OF o(2), of "\<lambda>xs. xs ! i"] that len by (simp add: as answers_of_def)
    ultimately show ?thesis using c \<open>set _ = _\<close> \<open>distinct _\<close> by simp
  qed
  then show ?thesis using inv by (auto simp: scope_inv_def gates_wait_def all_staged_def)
qed

text \<open>What an admission proves: the value is the scope's own token, live, of this store, and covers the ids.\<close>

lemma admission_token:
  assumes "admitLockedMemoryWrite reg held (Some st) store ids = (Inr st', tx)"
  shows "\<exists>tok. held = Token (ss_acquisition st) \<and> reg (ss_acquisition st) = Some tok \<and> live tok \<and> tok_store tok = store \<and>
    js_String ` set ids \<subseteq> set (tok_ids tok) \<and> ss_phase st = ScopeOpen \<and> ss_txOpen st \<and> tx = Some st"
proof -
  have c: "admission_check reg held (Some st) store ids = Inr st'" "tx = Some st"
    using assms by (auto simp: admitLockedMemoryWrite_def split: sum.splits)
  then have a: "assertMemoryWriteLockToken reg held (Some store) ids = Inr ()" and h: "held = Token (ss_acquisition st)"
    "ss_phase st = ScopeOpen" "ss_txOpen st"
    by (auto simp: admission_check_def split: sum.splits if_splits)
  obtain tok where "reg (ss_acquisition st) = Some tok" "live tok" "tok_store tok = store" "\<forall>i \<in> set ids. js_String i \<in> set (tok_ids tok)"
    using a by (auto simp: h assertMemoryWriteLockToken_def split: option.splits if_splits)
  then show ?thesis using h c(2) by auto
qed

section \<open>A scope of two writes\<close>

definition demo_write :: "string \<Rightarrow> locked_write" where
  "demo_write i = \<lparr>lw_id = i, lw_receipt = ReceiptPending, lw_staged = False, lw_gate = None, lw_answer = None\<rparr>"

definition demo_scope :: "locked_write list \<Rightarrow> nat list \<Rightarrow> scope_state" where
  "demo_scope ws cs = (open_scope_state 0)\<lparr>ss_writes := ws, ss_confirmations := cs\<rparr>"

definition staged_write :: "string \<Rightarrow> locked_write" where
  "staged_write i = (demo_write i)\<lparr>lw_staged := True, lw_receipt := ReceiptStaged\<rparr>"

definition answered_write :: "string \<Rightarrow> locked_write" where
  "answered_write i = (staged_write i)\<lparr>lw_gate := Some True, lw_answer := Some (BodyValue (Str i))\<rparr>"

definition demo_world :: "locked_write list \<Rightarrow> nat list \<Rightarrow> scope_phase \<Rightarrow> scope_run \<Rightarrow> bool \<Rightarrow> scope_world" where
  "demo_world ws cs ph r c = \<lparr>sw_state = (demo_scope ws cs)\<lparr>ss_phase := ph\<rparr>, sw_run = r, sw_committed = c\<rparr>"

lemmas demo_defs = demo_world_def demo_scope_def open_scope_state_def demo_write_def staged_write_def answered_write_def

lemma demo_scope_run:
  "scope_step\<^sup>*\<^sup>* (fresh_scope 0)
     (demo_world [answered_write ''a'', answered_write ''b''] [1, 0] ScopeClosed
        (Finished (ScopeCommitted (Str ''ok'') [Str ''b'', Str ''a''])) True)"
proof -
  let ?w = "\<lambda>ws cs ph r c. demo_world ws cs ph r c" and ?f = "\<lambda>w. w\<lparr>lw_gate := Some True\<rparr>"
  have p1: "scope_step\<^sup>*\<^sup>* (fresh_scope 0) (?w [demo_write ''a''] [] ScopeOpen Working False)"
    by (rule r_into_rtranclp) (use scope_step.track [of "''a''" "fresh_scope 0"] in \<open>simp add: fresh_scope_def demo_defs track_write_def\<close>)
  have p2: "scope_step\<^sup>*\<^sup>* (fresh_scope 0) (?w [demo_write ''a'', demo_write ''b''] [] ScopeOpen Working False)"
    by (rule rtranclp.rtrancl_into_rtrancl [OF p1]) (use scope_step.track [of "''b''" "?w [demo_write ''a''] [] ScopeOpen Working False"] in \<open>simp add: demo_defs track_write_def\<close>)
  have p3: "scope_step\<^sup>*\<^sup>* (fresh_scope 0) (?w [demo_write ''a'', staged_write ''b''] [1] ScopeOpen Working False)"
    by (rule rtranclp.rtrancl_into_rtrancl [OF p2]) (use scope_step.stage [of 1 "?w [demo_write ''a'', demo_write ''b''] [] ScopeOpen Working False"] in \<open>simp add: demo_defs stage_write_def update_write_def settle_receipt_def\<close>)
  have p4: "scope_step\<^sup>*\<^sup>* (fresh_scope 0) (?w [staged_write ''a'', staged_write ''b''] [1, 0] ScopeOpen Working False)"
    by (rule rtranclp.rtrancl_into_rtrancl [OF p3]) (use scope_step.stage [of 0 "?w [demo_write ''a'', staged_write ''b''] [1] ScopeOpen Working False"] in \<open>simp add: demo_defs stage_write_def update_write_def settle_receipt_def\<close>)
  have p5: "scope_step\<^sup>*\<^sup>* (fresh_scope 0) (?w [staged_write ''a'', staged_write ''b''] [1, 0] ScopeDraining (Draining (WorkValue (Str ''ok''))) False)"
    by (rule rtranclp.rtrancl_into_rtrancl [OF p4]) (use scope_step.work_settles [of "?w [staged_write ''a'', staged_write ''b''] [1, 0] ScopeOpen Working False" "WorkValue (Str ''ok'')"] in \<open>simp add: demo_defs\<close>)
  have p6: "scope_step\<^sup>*\<^sup>* (fresh_scope 0) (?w [staged_write ''a'', staged_write ''b''] [1, 0] ScopeDraining (Committing (Str ''ok'')) False)"
    by (rule rtranclp.rtrancl_into_rtrancl [OF p5]) (use scope_step.drained [of "?w [staged_write ''a'', staged_write ''b''] [1, 0] ScopeDraining (Draining (WorkValue (Str ''ok''))) False"
        "WorkValue (Str ''ok'')"] in \<open>simp add: demo_defs decided_def drain_decision_def\<close>)
  have p7: "scope_step\<^sup>*\<^sup>* (fresh_scope 0) (?w [staged_write ''a'', staged_write ''b''] [1, 0] ScopeDraining (Confirming (Str ''ok'') []) True)"
    by (rule rtranclp.rtrancl_into_rtrancl [OF p6]) (use scope_step.commit [of "?w [staged_write ''a'', staged_write ''b''] [1, 0] ScopeDraining (Committing (Str ''ok'')) False"] in \<open>simp add: demo_defs\<close>)
  have p8: "scope_step\<^sup>*\<^sup>* (fresh_scope 0) (?w [staged_write ''a'', ?f (staged_write ''b'')] [1, 0] ScopeDraining (Confirming (Str ''ok'') []) True)"
    by (rule rtranclp.rtrancl_into_rtrancl [OF p7]) (use scope_step.open_gate [of "?w [staged_write ''a'', staged_write ''b''] [1, 0] ScopeDraining (Confirming (Str ''ok'') []) True" "Str ''ok''" "[]"] in \<open>simp add: demo_defs update_write_def\<close>)
  have p9: "scope_step\<^sup>*\<^sup>* (fresh_scope 0) (?w [staged_write ''a'', answered_write ''b''] [1, 0] ScopeDraining (Confirming (Str ''ok'') []) True)"
    by (rule rtranclp.rtrancl_into_rtrancl [OF p8]) (use scope_step.answer [of 1 "?w [staged_write ''a'', ?f (staged_write ''b'')] [1, 0] ScopeDraining (Confirming (Str ''ok'') []) True" "BodyValue (Str ''b'')"] in \<open>simp add: demo_defs body_settles_def update_write_def\<close>)
  have p10: "scope_step\<^sup>*\<^sup>* (fresh_scope 0) (?w [staged_write ''a'', answered_write ''b''] [1, 0] ScopeDraining (Confirming (Str ''ok'') [BodyValue (Str ''b'')]) True)"
    by (rule rtranclp.rtrancl_into_rtrancl [OF p9]) (use scope_step.confirmed [of "?w [staged_write ''a'', answered_write ''b''] [1, 0] ScopeDraining (Confirming (Str ''ok'') []) True" "Str ''ok''" "[]" "BodyValue (Str ''b'')"] in \<open>simp add: demo_defs\<close>)
  have p11: "scope_step\<^sup>*\<^sup>* (fresh_scope 0) (?w [?f (staged_write ''a''), answered_write ''b''] [1, 0] ScopeDraining (Confirming (Str ''ok'') [BodyValue (Str ''b'')]) True)"
    by (rule rtranclp.rtrancl_into_rtrancl [OF p10]) (use scope_step.open_gate [of "?w [staged_write ''a'', answered_write ''b''] [1, 0] ScopeDraining (Confirming (Str ''ok'') [BodyValue (Str ''b'')]) True"
        "Str ''ok''" "[BodyValue (Str ''b'')]"] in \<open>simp add: demo_defs update_write_def\<close>)
  have p12: "scope_step\<^sup>*\<^sup>* (fresh_scope 0) (?w [answered_write ''a'', answered_write ''b''] [1, 0] ScopeDraining (Confirming (Str ''ok'') [BodyValue (Str ''b'')]) True)"
    by (rule rtranclp.rtrancl_into_rtrancl [OF p11]) (use scope_step.answer [of 0 "?w [?f (staged_write ''a''), answered_write ''b''] [1, 0] ScopeDraining (Confirming (Str ''ok'') [BodyValue (Str ''b'')]) True"
        "BodyValue (Str ''a'')"] in \<open>simp add: demo_defs body_settles_def update_write_def\<close>)
  have p13: "scope_step\<^sup>*\<^sup>* (fresh_scope 0) (?w [answered_write ''a'', answered_write ''b''] [1, 0] ScopeDraining
      (Confirming (Str ''ok'') [BodyValue (Str ''b''), BodyValue (Str ''a'')]) True)"
    by (rule rtranclp.rtrancl_into_rtrancl [OF p12]) (use scope_step.confirmed [of "?w [answered_write ''a'', answered_write ''b''] [1, 0] ScopeDraining (Confirming (Str ''ok'') [BodyValue (Str ''b'')]) True"
        "Str ''ok''" "[BodyValue (Str ''b'')]" "BodyValue (Str ''a'')"] in \<open>simp add: demo_defs\<close>)
  have p14: "scope_step\<^sup>*\<^sup>* (fresh_scope 0) (?w [answered_write ''a'', answered_write ''b''] [1, 0] ScopeClosed
      (Finished (ScopeCommitted (Str ''ok'') [Str ''b'', Str ''a''])) True)"
    by (rule rtranclp.rtrancl_into_rtrancl [OF p13]) (use scope_step.confirmed_all [of "?w [answered_write ''a'', answered_write ''b''] [1, 0] ScopeDraining
        (Confirming (Str ''ok'') [BodyValue (Str ''b''), BodyValue (Str ''a'')]) True" "Str ''ok''" "[BodyValue (Str ''b''), BodyValue (Str ''a'')]"] in \<open>simp add: demo_defs finish_scope_def close_gates_def confirmation_outcome_def\<close>)
  show ?thesis by (rule p14)
qed

theorem locked_scope_all_or_nothing_witness:
  "lw_answer (answered_write ''b'') = Some (BodyValue (Str ''b'')) \<and>
   set (ss_confirmations (demo_scope [answered_write ''a'', answered_write ''b''] [1, 0])) = {..<2}"
  using locked_scope_all_or_nothing [OF demo_scope_run] by (simp add: demo_world_def demo_scope_def answered_write_def)

end
