(* ===== verification/VersionRecord.thy ===== *)
theory VersionRecord
  imports FederationCrypto ReadScope KeyLock
begin

text \<open>
  The append-only history of Soul entries and skills: \<open>resources/instruction-version-record.ts\<close>, with the write
  authority it dispatches to (\<open>resources/internal-authority.ts\<close>, \<open>soul-write-policy.ts\<close>, \<open>skill-write-policy.ts\<close>).
  The InstructionVersion and OrgEvent tables are a \<open>history_table\<close> over an abstract database state, whose laws are
  the locale \<open>history_store\<close>. A transaction that throws leaves the state it began with. The row a version
  describes is written by the argument \<open>mutate\<close>. A \<open>bigint\<close> column value is modelled as the number it holds.
\<close>

section \<open>Ids and digests\<close>

datatype subject_type = Soul | Skill

fun subject_name :: "subject_type \<Rightarrow> string" where
  "subject_name Soul = ''soul''" | "subject_name Skill = ''skill''"

definition INSTRUCTION_EVENT_ID_PREFIX :: string where "INSTRUCTION_EVENT_ID_PREFIX = ''instruction-change:''"

definition json_text :: "js \<Rightarrow> string" where
  "json_text v = (case json_stringify v of None \<Rightarrow> ''undefined'' | Some t \<Rightarrow> t)"

definition RECORD_HASH_FIELDS :: "string list" where
  "RECORD_HASH_FIELDS =
     [''id'', ''subjectType'', ''subjectId'', ''agentId'', ''key'', ''version'', ''kind'', ''rowId'', ''valueHash'',
      ''previousVersionHash'', ''soulSnapshot'', ''memoryId'', ''visibility'', ''actorKind'', ''actorId'',
      ''sourceClass'', ''createdAt'', ''guarded'', ''expectedVersion'']"

text \<open>The only \<open>bigint\<close> of a record is its version.\<close>

definition normalizeField :: "string \<Rightarrow> js \<Rightarrow> js" where
  "normalizeField f v =
     (case v of
        Num n \<Rightarrow> if f = ''version'' \<and> is_integer n then Str (int_string (int_of_jnum n)) else Num n
      | Undef \<Rightarrow> Null
      | _ \<Rightarrow> v)"

definition digest_input :: "jobj \<Rightarrow> string" where
  "digest_input rec = json_text (Arr (map (\<lambda>f. Arr [Str f, normalizeField f (getp rec f)]) RECORD_HASH_FIELDS))"

definition recordDigest :: "crypto \<Rightarrow> jobj \<Rightarrow> string" where
  "recordDigest cr rec = sha256_hex cr (digest_input rec)"

definition valueDigest :: "crypto \<Rightarrow> string option \<Rightarrow> js" where
  "valueDigest cr v = (case v of None \<Rightarrow> Null | Some s \<Rightarrow> Str (sha256_hex cr s))"

definition versionId :: "subject_type \<Rightarrow> string \<Rightarrow> int \<Rightarrow> string" where
  "versionId ty sid n = subject_name ty @ '':'' @ sid @ '':'' @ int_string n"

definition soulSubjectId :: "string \<Rightarrow> string \<Rightarrow> string" where
  "soulSubjectId agentId key =
     (if CHR '':'' \<in> set agentId \<or> CHR '':'' \<in> set key
      then '':'' @ json_text (Arr [Str agentId, Str key])
      else agentId @ '':'' @ key)"

text \<open>\<open>BigInt(v)\<close> of a column value; anything else throws.\<close>

definition big_of :: "js \<Rightarrow> int option" where
  "big_of v = (case v of Num n \<Rightarrow> if is_integer n then Some (int_of_jnum n) else None | _ \<Rightarrow> None)"

section \<open>Read authority\<close>

definition AUTHORIZED_SUBJECT_TYPES :: "string list" where "AUTHORIZED_SUBJECT_TYPES = [''soul'']"
definition SKILL_SUBJECT_TYPE :: string where "SKILL_SUBJECT_TYPE = ''skill''"

definition subjectTypeReadable :: "js \<Rightarrow> bool" where
  "subjectTypeReadable v = (case v of Str s \<Rightarrow> s \<in> set AUTHORIZED_SUBJECT_TYPES | _ \<Rightarrow> False)"

definition skillRefReadable :: "js \<Rightarrow> string \<Rightarrow> bool" where
  "skillRefReadable ref readerId =
     (if \<not> truthy ref \<or> \<not> is_object ref then False
      else case field ref ''agentId'' of
          Str owner \<Rightarrow>
            owner \<noteq> [] \<and> (field ref ''visibility'' = Str PRIVATE_VISIBILITY \<or> field ref ''visibility'' = Str SHARED_VISIBILITY) \<and>
            (owner = readerId \<or> field ref ''visibility'' = Str SHARED_VISIBILITY)
        | _ \<Rightarrow> False)"

section \<open>The event of a version\<close>

definition PRIVATE_SKILL_EVENT_OMITTED :: "string list" where
  "PRIVATE_SKILL_EVENT_OMITTED = [''valueHash'', ''previousVersionHash'', ''recordHash'']"

definition event_detail :: "jobj \<Rightarrow> jobj" where
  "event_detail rec =
     (let ty = (if getp rec ''subjectType'' = Str ''soul'' then ''soul'' else ''skill'');
          detail = [(''subjectType'', Str ty), (''subjectId'', getp rec ''subjectId''),
             (''key'', if ty = ''soul'' then coalesce (getp rec ''key'') Null else Null),
             (''changeKind'', getp rec ''kind''), (''actorKind'', getp rec ''actorKind''),
             (''actorId'', coalesce (getp rec ''actorId'') Null), (''sourceClass'', getp rec ''sourceClass''),
             (''valueHash'', coalesce (getp rec ''valueHash'') Null),
             (''previousVersionHash'', coalesce (getp rec ''previousVersionHash'') Null),
             (''recordHash'', coalesce (getp rec ''recordHash'') Null)] in
      if ty = ''skill'' \<and> getp rec ''visibility'' = Str PRIVATE_VISIBILITY
      then fold AList.delete PRIVATE_SKILL_EVENT_OMITTED detail else detail)"

definition instructionEventFor :: "jobj \<Rightarrow> jobj" where
  "instructionEventFor rec =
     (let ty = (if getp rec ''subjectType'' = Str ''soul'' then ''soul'' else ''skill'') in
      [(''id'', Str (INSTRUCTION_EVENT_ID_PREFIX @ js_String (getp rec ''id''))),
       (''authorId'', Str ''flair:internal''),
       (''kind'', Str (ty @ ''.changed'')),
       (''scope'', getp rec ''agentId''),
       (''summary'', Str ((if ty = ''soul'' then ''Soul entry'' else ''Skill'') @ '' '' @ js_String (getp rec ''kind'') @ ''d'')),
       (''detail'', Str (json_text (Obj (event_detail rec)))),
       (''targetIds'', Arr []),
       (''refId'', getp rec ''id''),
       (''createdAt'', getp rec ''createdAt'')])"

section \<open>Write authority\<close>

text \<open>What the authority rules read of a context: the internal marker, whether its request has headers, and the
  authorization header.\<close>

record req_context =
  rc_marker :: bool
  rc_hasHeaders :: bool
  rc_authorization :: string

definition isDeliberateInternalVerdict :: "req_context \<Rightarrow> auth_verdict \<Rightarrow> bool" where
  "isDeliberateInternalVerdict c auth \<longleftrightarrow> auth = Internal \<and> rc_marker c \<and> \<not> rc_hasHeaders c"

definition basic_header :: "string \<Rightarrow> bool" where
  "basic_header h \<longleftrightarrow> js_lower (take 5 h) = ''basic'' \<and> length h > 5 \<and> is_white (h ! 5)"

definition soulWriteSource :: "req_context \<Rightarrow> auth_verdict \<Rightarrow> string option" where
  "soulWriteSource c auth =
     (if isDeliberateInternalVerdict c auth then Some ''internal''
      else case auth of
          Agent _ admin \<Rightarrow> if admin \<and> basic_header (rc_authorization c) then Some ''operator'' else None
        | _ \<Rightarrow> None)"

definition skillWriteSource :: "req_context \<Rightarrow> auth_verdict \<Rightarrow> string option" where
  "skillWriteSource c auth =
     (if isDeliberateInternalVerdict c auth then Some ''internal''
      else case auth of
          Agent _ admin \<Rightarrow> if admin \<and> basic_header (rc_authorization c) then Some ''operator'' else Some ''agent''
        | _ \<Rightarrow> None)"

definition authorizeSoulWrite :: "req_context \<Rightarrow> auth_verdict \<Rightarrow> string option \<times> response option" where
  "authorizeSoulWrite c auth =
     (let source = soulWriteSource c auth in
      (source,
       if auth = Anonymous then Some kit_unauth
       else if source \<noteq> None then None
       else Some (kit_forbidden ''soul_write_requires_operator: use authenticated operator credentials'')))"

definition authorizeSkillVersionWrite :: "req_context \<Rightarrow> auth_verdict \<Rightarrow> string option \<times> response option" where
  "authorizeSkillVersionWrite c auth =
     (let source = skillWriteSource c auth in
      (source,
       if auth = Anonymous then Some kit_unauth
       else if source \<noteq> None then None
       else Some (kit_forbidden ''skill_write_requires_verified_identity'')))"

record attribution =
  at_actorKind :: string
  at_actorId :: "string option"
  at_sourceClass :: string

definition UNATTRIBUTED :: attribution where
  "UNATTRIBUTED = \<lparr>at_actorKind = ''internal'', at_actorId = None, at_sourceClass = ''internal''\<rparr>"

definition actor_of :: "auth_verdict \<Rightarrow> string option" where
  "actor_of auth = (case auth of Agent a _ \<Rightarrow> Some a | _ \<Rightarrow> None)"

definition resolveVersionAuthorization :: "subject_type \<Rightarrow> req_context \<Rightarrow> auth_verdict \<Rightarrow> attribution \<times> response option" where
  "resolveVersionAuthorization ty c auth =
     (case ty of
        Soul \<Rightarrow>
          (case authorizeSoulWrite c auth of
             (_, Some denied) \<Rightarrow> (UNATTRIBUTED, Some denied)
           | (source, None) \<Rightarrow>
               (\<lparr>at_actorKind = (if source = Some ''operator'' then ''operator'' else ''internal''),
                 at_actorId = actor_of auth, at_sourceClass = the source\<rparr>, None))
      | Skill \<Rightarrow>
          (case authorizeSkillVersionWrite c auth of
             (_, Some denied) \<Rightarrow> (UNATTRIBUTED, Some denied)
           | (source, None) \<Rightarrow>
               (\<lparr>at_actorKind = the source, at_actorId = actor_of auth, at_sourceClass = the source\<rparr>, None)))"

section \<open>The tables\<close>

record 's history_table =
  ht_search :: "(string \<times> js) list \<Rightarrow> 's \<Rightarrow> jobj list"
  ht_head :: "(string \<times> js) list \<Rightarrow> 's \<Rightarrow> jobj list"
  ht_get :: "string \<Rightarrow> 's \<Rightarrow> jobj option"
  ht_create :: "jobj \<Rightarrow> 's \<Rightarrow> 's"
  ht_delete :: "string \<Rightarrow> 's \<Rightarrow> 's"

text \<open>\<open>ht_head\<close> is the search sorted by descending version with limit 1. What may be missing is data: the version
  and event tables, the Soul search, and the raw writer of the version table. \<open>vd_valid\<close> and \<open>vd_event_valid\<close> are the
  tables' validators.\<close>

record 's ver_deps =
  vd_tableLike :: bool
  vd_eventsLike :: bool
  vd_rawWriter :: bool
  vd_versions :: "'s history_table"
  vd_events :: "'s history_table"
  vd_souls :: "((string \<times> js) list \<Rightarrow> 's \<Rightarrow> jobj list) option"
  vd_valid :: "jobj \<Rightarrow> bool"
  vd_eventValid :: "jobj \<Rightarrow> bool"
  vd_crypto :: crypto

text \<open>What is thrown inside a transaction: the refusal of the row's writer, or an error value, with whether it is an
  instance of the database's validation error.\<close>

datatype thrown = RowMutationDenied response | ThrownError js bool

definition plain_error :: thrown where "plain_error = ThrownError (Obj []) False"

definition bind_sum :: "'e + 'a \<Rightarrow> ('a \<Rightarrow> 'e + 'b) \<Rightarrow> 'e + 'b" where
  "bind_sum m f = (case m of Inl e \<Rightarrow> Inl e | Inr x \<Rightarrow> f x)"

definition subject_conds :: "subject_type \<Rightarrow> string \<Rightarrow> (string \<times> string) option \<Rightarrow> (string \<times> js) list" where
  "subject_conds ty sid identity =
     [(''subjectType'', Str (subject_name ty)), (''subjectId'', Str sid)] @
     (case identity of None \<Rightarrow> [] | Some (agentId, key) \<Rightarrow> [(''agentId'', Str agentId), (''key'', Str key)])"

definition readHead ::
    "'s ver_deps \<Rightarrow> subject_type \<Rightarrow> string \<Rightarrow> (string \<times> string) option \<Rightarrow> 's \<Rightarrow> thrown + jobj option" where
  "readHead deps ty sid identity s =
     (if \<not> vd_tableLike deps then Inl plain_error
      else Inr (case ht_head (vd_versions deps) (subject_conds ty sid identity) s of [] \<Rightarrow> None | r # _ \<Rightarrow> Some r))"

definition readSoulHead :: "'s ver_deps \<Rightarrow> string \<Rightarrow> string \<Rightarrow> 's \<Rightarrow> thrown + jobj option" where
  "readSoulHead deps agentId key s =
     bind_sum (readHead deps Soul (soulSubjectId agentId key) (Some (agentId, key)) s) (\<lambda>head.
       if head \<noteq> None \<or> soulSubjectId agentId key = agentId @ '':'' @ key then Inr head
       else readHead deps Soul (agentId @ '':'' @ key) (Some (agentId, key)) s)"

definition readVersionRecord :: "'s ver_deps \<Rightarrow> subject_type \<Rightarrow> string \<Rightarrow> string \<Rightarrow> 's \<Rightarrow> thrown + jobj option" where
  "readVersionRecord deps ty sid recordId s =
     (if \<not> vd_tableLike deps then Inl plain_error
      else Inr (find (\<lambda>r. js_String (getp r ''id'') = recordId) (ht_search (vd_versions deps) (subject_conds ty sid None) s)))"

fun find_version :: "int \<Rightarrow> jobj list \<Rightarrow> thrown + jobj option" where
  "find_version n [] = Inr None"
| "find_version n (r # rs) =
     (case big_of (getp r ''version'') of
        None \<Rightarrow> Inl plain_error
      | Some v \<Rightarrow> if v = n then Inr (Some r) else find_version n rs)"

definition readVersionRecordAfter :: "'s ver_deps \<Rightarrow> subject_type \<Rightarrow> string \<Rightarrow> js \<Rightarrow> 's \<Rightarrow> thrown + jobj option" where
  "readVersionRecordAfter deps ty sid version s =
     (if \<not> vd_tableLike deps then Inl plain_error
      else case big_of version of
          None \<Rightarrow> Inl plain_error
        | Some v \<Rightarrow> find_version (v + 1) (ht_search (vd_versions deps) (subject_conds ty sid None) s))"

section \<open>Appending a version\<close>

text \<open>The input of an append. The snapshot is taken from the row once its writer has run, here from the state.\<close>

record 's version_input =
  vi_type :: subject_type
  vi_subjectId :: string
  vi_agentId :: string
  vi_key :: "string option"
  vi_kind :: string
  vi_rowId :: string
  vi_value :: "string option"
  vi_soulSnapshot :: "string option"
  vi_memoryId :: "string option"
  vi_visibility :: "string option"
  vi_snapshot :: "('s \<Rightarrow> js) option"
  vi_expectedVersion :: "string option"
  vi_previousSubjectId :: "string option"
  vi_previousKey :: "string option"
  vi_previousAgentId :: "string option"
  vi_previousRowId :: "string option"

datatype 's prepared_input = PrepNone | PrepRefused response | PrepInput "'s version_input"
datatype row_result = RowValue js | RowResponse response
datatype version_outcome = VersionOk row_result string | VersionNo response

definition opt_js :: "string option \<Rightarrow> js" where
  "opt_js v = (case v of None \<Rightarrow> Null | Some s \<Rightarrow> Str s)"

definition staleHeadResponse :: "string \<Rightarrow> jobj option \<Rightarrow> response" where
  "staleHeadResponse expected head =
     json_response 409 (Obj [(''error'', Str ''instruction_version_head_mismatch''),
       (''message'', Str ''the subject's head has changed since the version you compared; re-read and retry''),
       (''expectedVersion'', Str expected),
       (''currentVersion'', case head of None \<Rightarrow> Null | Some h \<Rightarrow> getp h ''id'')])"

definition identityChanged :: "'s version_input \<Rightarrow> bool" where
  "identityChanged inp \<longleftrightarrow>
     vi_type inp = Soul \<and> vi_previousSubjectId inp \<noteq> None \<and>
     ((case vi_previousAgentId inp of None \<Rightarrow> vi_agentId inp | Some a \<Rightarrow> a) \<noteq> vi_agentId inp \<or>
      vi_previousKey inp \<noteq> vi_key inp)"

definition seal :: "crypto \<Rightarrow> jobj \<Rightarrow> jobj" where
  "seal cr rec = AList.update ''recordHash'' (Str (recordDigest cr rec)) rec"

definition head_link :: "jobj option \<Rightarrow> js" where
  "head_link head = (case head of None \<Rightarrow> Null | Some h \<Rightarrow> coalesce (getp h ''recordHash'') Null)"

definition next_version :: "jobj option \<Rightarrow> thrown + int" where
  "next_version head =
     (case head of None \<Rightarrow> Inr 1
      | Some h \<Rightarrow> (case big_of (getp h ''version'') of None \<Rightarrow> Inl plain_error | Some v \<Rightarrow> Inr (v + 1)))"

definition version_record :: "'s version_input \<Rightarrow> attribution \<Rightarrow> string \<Rightarrow> crypto \<Rightarrow> jobj option \<Rightarrow> int \<Rightarrow> jobj" where
  "version_record inp attr now cr head n = seal cr
     [(''id'', Str (versionId (vi_type inp) (vi_subjectId inp) n)),
      (''subjectType'', Str (subject_name (vi_type inp))), (''subjectId'', Str (vi_subjectId inp)),
      (''agentId'', Str (vi_agentId inp)), (''key'', opt_js (vi_key inp)), (''version'', Num (jint n)),
      (''kind'', Str (vi_kind inp)), (''rowId'', Str (vi_rowId inp)),
      (''valueHash'', if vi_kind inp = ''delete'' then Null else valueDigest cr (Some (case vi_value inp of None \<Rightarrow> [] | Some v \<Rightarrow> v))),
      (''previousVersionHash'', head_link head),
      (''soulSnapshot'', if vi_kind inp = ''delete'' then Null else opt_js (vi_soulSnapshot inp)),
      (''memoryId'', opt_js (vi_memoryId inp)), (''visibility'', opt_js (vi_visibility inp)),
      (''actorKind'', Str (at_actorKind attr)), (''actorId'', opt_js (at_actorId attr)), (''sourceClass'', Str (at_sourceClass attr)),
      (''createdAt'', Str now), (''guarded'', Bool (vi_expectedVersion inp \<noteq> None)),
      (''expectedVersion'', opt_js (vi_expectedVersion inp))]"

definition previous_agent :: "'s version_input \<Rightarrow> string" where
  "previous_agent inp = (case vi_previousAgentId inp of None \<Rightarrow> vi_agentId inp | Some a \<Rightarrow> a)"

definition previous_key :: "'s version_input \<Rightarrow> string" where
  "previous_key inp = (case vi_previousKey inp of None \<Rightarrow> [] | Some k \<Rightarrow> k)"

text \<open>The tombstone of the identity a Soul row leaves.\<close>

definition old_record :: "'s version_input \<Rightarrow> attribution \<Rightarrow> string \<Rightarrow> crypto \<Rightarrow> jobj option \<Rightarrow> int \<Rightarrow> jobj" where
  "old_record inp attr now cr head n =
     (let sid = soulSubjectId (previous_agent inp) (previous_key inp) in seal cr
     [(''id'', Str (versionId (vi_type inp) sid n)),
      (''subjectType'', Str (subject_name (vi_type inp))), (''subjectId'', Str sid),
      (''agentId'', Str (previous_agent inp)), (''key'', opt_js (vi_previousKey inp)), (''version'', Num (jint n)),
      (''kind'', Str ''delete''),
      (''rowId'', Str (case vi_previousRowId inp of None \<Rightarrow> vi_rowId inp | Some r \<Rightarrow> r)),
      (''valueHash'', Null), (''previousVersionHash'', head_link head), (''soulSnapshot'', Null),
      (''memoryId'', Null), (''visibility'', Null),
      (''actorKind'', Str (at_actorKind attr)), (''actorId'', opt_js (at_actorId attr)), (''sourceClass'', Str (at_sourceClass attr)),
      (''createdAt'', Str now), (''guarded'', Bool False), (''expectedVersion'', Null)])"

definition appendInstructionEvent :: "'s ver_deps \<Rightarrow> jobj \<Rightarrow> 's \<Rightarrow> thrown + 's" where
  "appendInstructionEvent deps rec s =
     (if \<not> vd_eventsLike deps then Inl plain_error
      else if \<not> vd_eventValid deps (instructionEventFor rec) then Inl plain_error
      else Inr (ht_create (vd_events deps) (instructionEventFor rec) s))"

definition store_version :: "'s ver_deps \<Rightarrow> jobj \<Rightarrow> 's \<Rightarrow> thrown + 's" where
  "store_version deps rec s =
     (if \<not> vd_valid deps rec then Inl plain_error
      else appendInstructionEvent deps rec (ht_create (vd_versions deps) rec s))"

text \<open>A Soul record carries the stored row.\<close>

definition with_snapshot :: "'s version_input \<Rightarrow> 's \<Rightarrow> thrown + 's version_input" where
  "with_snapshot inp s =
     (if vi_type inp = Soul \<and> vi_kind inp \<noteq> ''delete'' then
        (case vi_snapshot inp of
           None \<Rightarrow> Inr inp
         | Some snap \<Rightarrow>
             if \<not> truthy (snap s) then Inl plain_error
             else Inr (inp\<lparr>vi_soulSnapshot := Some (json_text (snap s)),
                            vi_value := (case field (snap s) ''value'' of Str v \<Rightarrow> Some v | _ \<Rightarrow> None)\<rparr>))
      else Inr inp)"

definition close_old_subject :: "'s ver_deps \<Rightarrow> 's version_input \<Rightarrow> attribution \<Rightarrow> string \<Rightarrow> 's \<Rightarrow> thrown + 's" where
  "close_old_subject deps inp attr now s =
     (if identityChanged inp then
        bind_sum (readSoulHead deps (previous_agent inp) (previous_key inp) s) (\<lambda>oldHead.
        bind_sum (next_version oldHead) (\<lambda>n.
          store_version deps (old_record inp attr now (vd_crypto deps) oldHead n) s))
      else Inr s)"

definition soul_occupied :: "'s ver_deps \<Rightarrow> 's version_input \<Rightarrow> 's \<Rightarrow> thrown + bool" where
  "soul_occupied deps inp s =
     (if identityChanged inp then
        (case vd_souls deps of
           None \<Rightarrow> Inl plain_error
         | Some search \<Rightarrow> Inr (\<exists>row \<in> set (search [(''agentId'', Str (vi_agentId inp)), (''key'', opt_js (vi_key inp))] s).
             js_String (getp row ''id'') \<noteq> vi_rowId inp))
      else Inr False)"

definition version_head :: "'s ver_deps \<Rightarrow> 's version_input \<Rightarrow> 's \<Rightarrow> thrown + jobj option" where
  "version_head deps inp s =
     (case vi_type inp of
        Soul \<Rightarrow> readSoulHead deps (vi_agentId inp) (case vi_key inp of None \<Rightarrow> [] | Some k \<Rightarrow> k) s
      | Skill \<Rightarrow> readHead deps Skill (vi_subjectId inp) None s)"

definition denied_result :: "row_result \<Rightarrow> thrown option" where
  "denied_result r = (case r of RowResponse resp \<Rightarrow> if 300 \<le> status resp then Some (RowMutationDenied resp) else None
                      | RowValue _ \<Rightarrow> None)"

type_synonym 's row_writer = "'s \<Rightarrow> thrown + row_result \<times> 's"

definition run_row :: "'s row_writer \<Rightarrow> 's \<Rightarrow> thrown + row_result \<times> 's" where
  "run_row mutate s =
     bind_sum (mutate s) (\<lambda>(r, s'). case denied_result r of Some e \<Rightarrow> Inl e | None \<Rightarrow> Inr (r, s'))"

definition append_version ::
    "'s ver_deps \<Rightarrow> attribution \<Rightarrow> string \<Rightarrow> 's version_input \<Rightarrow> 's row_writer \<Rightarrow> jobj option \<Rightarrow> 's \<Rightarrow> thrown + version_outcome \<times> 's" where
  "append_version deps attr now inp mutate head s =
     bind_sum (run_row mutate s) (\<lambda>(result, s1).
     bind_sum (with_snapshot inp s1) (\<lambda>inp'.
     bind_sum (close_old_subject deps inp' attr now s1) (\<lambda>s2.
     bind_sum (next_version head) (\<lambda>n.
     bind_sum (store_version deps (version_record inp' attr now (vd_crypto deps) head n) s2) (\<lambda>s3.
       Inr (VersionOk result (versionId (vi_type inp') (vi_subjectId inp') n), s3))))))"

text \<open>The append of a prepared input: the destination must be free and the head the one the caller compared.\<close>

definition append_input ::
    "'s ver_deps \<Rightarrow> attribution \<Rightarrow> string \<Rightarrow> subject_type \<Rightarrow> 's version_input \<Rightarrow> 's row_writer \<Rightarrow> 's \<Rightarrow> thrown + version_outcome \<times> 's" where
  "append_input deps attr now ty inp mutate s =
     (if vi_type inp \<noteq> ty \<or> \<not> vd_tableLike deps then Inl plain_error
      else bind_sum (soul_occupied deps inp s) (\<lambda>occupied.
        if occupied then Inr (VersionNo (json_response 409 (Obj [(''error'', Str ''soul_subject_occupied'')])), s)
        else bind_sum (version_head deps inp s) (\<lambda>head.
          case vi_expectedVersion inp of
            None \<Rightarrow> append_version deps attr now inp mutate head s
          | Some e \<Rightarrow>
              if (case head of None \<Rightarrow> True | Some h \<Rightarrow> getp h ''id'' \<noteq> Str e)
              then Inr (VersionNo (staleHeadResponse e head), s)
              else append_version deps attr now inp mutate head s)))"

text \<open>The function that \<open>recordVersion\<close> runs in its transaction.\<close>

definition record_body ::
    "'s ver_deps \<Rightarrow> req_context \<Rightarrow> auth_verdict \<Rightarrow> string \<Rightarrow> subject_type \<Rightarrow> ('s \<Rightarrow> thrown + 's prepared_input)
      \<Rightarrow> 's row_writer \<Rightarrow> 's \<Rightarrow> thrown + version_outcome \<times> 's" where
  "record_body deps c auth now ty prepare mutate s =
     (case resolveVersionAuthorization ty c auth of
        (_, Some denied) \<Rightarrow> Inr (VersionNo denied, s)
      | (attr, None) \<Rightarrow>
          bind_sum (prepare s) (\<lambda>p. case p of
              PrepNone \<Rightarrow> bind_sum (run_row mutate s) (\<lambda>(result, s'). Inr (VersionOk result [], s'))
            | PrepRefused resp \<Rightarrow> Inr (VersionNo resp, s)
            | PrepInput inp \<Rightarrow> append_input deps attr now ty inp mutate s))"

section \<open>Outcomes\<close>

definition well_formed_issue :: "js \<Rightarrow> bool" where
  "well_formed_issue issue \<longleftrightarrow>
     is_object issue \<and> is_string_value (field issue ''path'') \<and> is_string_value (field issue ''code'') \<and> is_string_value (field issue ''message'')"

definition validationErrorResponse :: "thrown \<Rightarrow> response option" where
  "validationErrorResponse e =
     (case e of
        ThrownError err isInstance \<Rightarrow>
          (case field err ''errors'' of
             Arr issues \<Rightarrow>
               if is_object err \<and> field err ''name'' = Str ''ValidationError'' \<and> field err ''code'' = Str ''ValidationError''
                  \<and> field err ''statusCode'' = Num (jint 400) \<and> issues \<noteq> [] \<and> list_all well_formed_issue issues \<and> isInstance
               then Some (json_response 400 (Obj [(''error'', Str ''ValidationError''), (''type'', Str ''error:ValidationError''),
                  (''code'', Str ''ValidationError''),
                  (''title'', case field err ''message'' of Str m \<Rightarrow> Str m | _ \<Rightarrow> Str ''invalid request body''),
                  (''status'', Num (jint 400)), (''detail'', Arr issues)]))
               else None
           | _ \<Rightarrow> None)
      | RowMutationDenied _ \<Rightarrow> None)"

definition append_failed :: response where
  "append_failed = json_response 500 (Obj [(''error'', Str ''instruction_version_append_failed''),
     (''message'', Str ''the version history append failed and the write was rolled back'')])"

definition thrown_outcome :: "thrown \<Rightarrow> version_outcome" where
  "thrown_outcome e =
     (case e of
        RowMutationDenied resp \<Rightarrow> VersionNo resp
      | _ \<Rightarrow> (case validationErrorResponse e of Some resp \<Rightarrow> VersionNo resp | None \<Rightarrow> VersionNo append_failed))"

definition version_busy :: response where
  "version_busy = json_response 409 (Obj [(''error'', Str ''instruction_version_busy''),
     (''message'', Str ''another instruction write is still in progress; retry'')])"

definition version_unavailable :: response where
  "version_unavailable = json_response 503 (Obj [(''error'', Str ''instruction_version_lock_unavailable''),
     (''message'', Str ''the InstructionVersion store has no per-key lock, so the write was refused'')])"

text \<open>\<open>recordVersion\<close> in a transaction it owns: \<open>lock\<close> is the outcome of the subject lock, \<open>commit\<close> what the commit throws.\<close>

definition recordVersion ::
    "'s ver_deps \<Rightarrow> unit key_lock_outcome \<Rightarrow> thrown option \<Rightarrow> req_context \<Rightarrow> auth_verdict \<Rightarrow> string \<Rightarrow> subject_type
      \<Rightarrow> ('s \<Rightarrow> thrown + 's prepared_input) \<Rightarrow> 's row_writer \<Rightarrow> 's \<Rightarrow> version_outcome \<times> 's" where
  "recordVersion deps lock commit c auth now ty prepare mutate s =
     (case lock of
        Busy \<Rightarrow> (VersionNo version_busy, s)
      | Unavailable \<Rightarrow> (VersionNo version_unavailable, s)
      | Done _ \<Rightarrow>
          (case bind_sum (record_body deps c auth now ty prepare mutate s)
                  (\<lambda>out. case commit of Some e \<Rightarrow> Inl e | None \<Rightarrow> Inr out) of
             Inl e \<Rightarrow> (thrown_outcome e, s)
           | Inr out \<Rightarrow> out))"

text \<open>Joined to the caller's open transaction, which a throw aborts (\<open>None\<close>); otherwise the caller commits what is staged.\<close>

definition recordVersion_joined ::
    "'s ver_deps \<Rightarrow> unit key_lock_outcome \<Rightarrow> req_context \<Rightarrow> auth_verdict \<Rightarrow> string \<Rightarrow> subject_type
      \<Rightarrow> ('s \<Rightarrow> thrown + 's prepared_input) \<Rightarrow> 's row_writer \<Rightarrow> 's \<Rightarrow> version_outcome \<times> 's option" where
  "recordVersion_joined deps lock c auth now ty prepare mutate s =
     (case lock of
        Busy \<Rightarrow> (VersionNo version_busy, Some s)
      | Unavailable \<Rightarrow> (VersionNo version_unavailable, Some s)
      | Done _ \<Rightarrow>
          (case record_body deps c auth now ty prepare mutate s of
             Inl e \<Rightarrow> (thrown_outcome e, None)
           | Inr (out, s') \<Rightarrow> (out, Some s')))"

section \<open>Removing an appended version\<close>

datatype removal = Removed | Superseded | RemovalBusy | RemovalUnavailable

text \<open>\<open>None\<close> is a removal that throws. The confirming reads see the state the transaction committed.\<close>

definition removeAppendedVersion ::
    "'s ver_deps \<Rightarrow> unit key_lock_outcome \<Rightarrow> subject_type \<Rightarrow> string \<Rightarrow> string \<Rightarrow> 's \<Rightarrow> removal option \<times> 's" where
  "removeAppendedVersion deps lock ty sid recordId s =
     (case lock of
        Busy \<Rightarrow> (Some RemovalBusy, s)
      | Unavailable \<Rightarrow> (Some RemovalUnavailable, s)
      | Done _ \<Rightarrow>
          (case readHead deps ty sid None s of
             Inl _ \<Rightarrow> (None, s)
           | Inr head \<Rightarrow>
               let confirm = (\<lambda>s'. if \<not> vd_rawWriter deps then (Some RemovalUnavailable, s')
                      else (Some (if ht_get (vd_versions deps) recordId s' = None then Removed else RemovalUnavailable), s')) in
               (case head of
                  None \<Rightarrow> confirm s
                | Some h \<Rightarrow>
                    if js_String (getp h ''id'') \<noteq> recordId then (Some Superseded, s)
                    else if \<not> vd_rawWriter deps then (Some RemovalUnavailable, s)
                    else if \<not> vd_eventsLike deps then (None, s)
                    else confirm (ht_delete (vd_events deps) (INSTRUCTION_EVENT_ID_PREFIX @ recordId)
                                    (ht_delete (vd_versions deps) recordId s)))))"

section \<open>Texts of different values differ\<close>

lemma hex_lower_inj: "n < 16 \<Longrightarrow> m < 16 \<Longrightarrow> hex_lower n = hex_lower m \<Longrightarrow> n = m"
  by (drule arg_cong [of _ _ "of_char :: char \<Rightarrow> nat"]) (auto simp: hex_lower_def split: if_splits)

lemma hex_pair_inj:
  assumes "hex_lower (of_char c div 16) = hex_lower (of_char d div 16)"
    and "hex_lower (of_char c mod 16) = hex_lower (of_char d mod 16)"
  shows "c = (d :: char)"
proof -
  have b: "of_char x div 16 < (16 :: nat)" for x :: char using nat_of_char_less_256 [of x] by linarith
  have "of_char c div 16 = (of_char d div 16 :: nat)" by (rule hex_lower_inj [OF b b assms(1)])
  moreover have "of_char c mod 16 = (of_char d mod 16 :: nat)" by (rule hex_lower_inj [OF _ _ assms(2)]) simp_all
  ultimately have "of_char c = (of_char d :: nat)" by (metis div_mult_mod_eq)
  then show ?thesis by simp
qed

lemma json_char_prefix: "json_char c @ x = json_char d @ y \<Longrightarrow> c = d \<and> x = y"
  by (auto simp: json_char_def code_def split: if_splits dest: hex_pair_inj)

lemma json_char_no_quote: "json_char c @ x \<noteq> CHR 34 # y"
  by (auto simp: json_char_def)

lemma json_chars_quote:
  "concat (map json_char a) @ CHR 34 # x = concat (map json_char b) @ CHR 34 # y \<Longrightarrow> a = b \<and> x = y"
proof (induction a arbitrary: b)
  case Nil
  then show ?case by (cases b) (auto dest: sym simp: json_char_no_quote)
next
  case (Cons c a)
  show ?case
  proof (cases b)
    case Nil
    with Cons.prems show ?thesis by (auto simp: json_char_no_quote)
  next
    case (Cons d b')
    with Cons.prems json_char_prefix [of c "concat (map json_char a) @ CHR 34 # x" d "concat (map json_char b') @ CHR 34 # y"]
    show ?thesis using Cons.IH [of b'] by simp
  qed
qed

lemma json_string_prefix: "json_string a @ x = json_string b @ y \<Longrightarrow> a = b \<and> x = y"
  using json_chars_quote [of a x b y] by (simp add: json_string_def)

fun record_value :: "js \<Rightarrow> bool" where
  "record_value (Str _) = True" | "record_value Null = True" | "record_value (Bool _) = True" | "record_value _ = False"

lemma json_text_simps:
  "json_text (Str a) = json_string a" "json_text Null = ''null''" "json_text (Bool b) = (if b then ''true'' else ''false'')"
  by (simp_all add: json_text_def)

lemma json_string_start: "json_string a @ x = CHR 34 # (concat (map json_char a) @ CHR 34 # x)"
  by (simp add: json_string_def)

lemma record_value_prefix:
  assumes "record_value v" "record_value w" "json_text v @ CHR '']'' # x = json_text w @ CHR '']'' # y"
  shows "v = w \<and> x = y"
proof (cases v)
  case (Str a)
  then show ?thesis using assms(2,3) json_string_prefix [of a "CHR '']'' # x" _ "CHR '']'' # y"]
    by (cases w) (auto simp: json_text_simps json_string_start split: if_splits)
next
  case Null
  then show ?thesis using assms(2,3) by (cases w) (simp_all add: json_text_simps json_string_start split: if_splits)
next
  case (Bool b)
  then show ?thesis using assms(2,3) by (cases w) (simp_all add: json_text_simps json_string_start split: if_splits)
qed (use assms(1) in simp_all)

lemma pair_text: "record_value v \<Longrightarrow> json_stringify (Arr [Str f, v]) = Some (''['' @ json_string f @ '','' @ json_text v @ '']'')"
  by (cases v) (simp_all add: json_text_def)

definition pair_json :: "string \<Rightarrow> js \<Rightarrow> string" where
  "pair_json f v = ''['' @ json_string f @ '','' @ json_text v @ '']''"

lemma pair_json_prefix: "record_value v \<Longrightarrow> record_value w \<Longrightarrow> pair_json f v @ x = pair_json f w @ y \<Longrightarrow> v = w \<and> x = y"
  using record_value_prefix [of v w x y] by (simp add: pair_json_def)

lemma pairs_prefix:
  assumes "\<forall>f \<in> set fs. record_value (u f) \<and> record_value (v f)"
    and "join_with '','' (map (\<lambda>f. pair_json f (u f)) fs) @ x = join_with '','' (map (\<lambda>f. pair_json f (v f)) fs) @ y"
  shows "\<forall>f \<in> set fs. u f = v f"
  using assms
proof (induction fs rule: induct_list012)
  case (2 f)
  then show ?case using pair_json_prefix [of "u f" "v f" f x y] by simp
next
  case (3 f g fs)
  let ?R = "\<lambda>w z. '','' @ join_with '','' (map (\<lambda>f. pair_json f (w f)) (g # fs)) @ z"
  have "pair_json f (u f) @ ?R u x = pair_json f (v f) @ ?R v y" using 3(4) by simp
  moreover have "record_value (u f)" "record_value (v f)" using 3(3) by simp_all
  ultimately have "u f = v f \<and> ?R u x = ?R v y" by (intro pair_json_prefix)
  then have "\<forall>f \<in> set (g # fs). u f = v f" using 3(3) by (intro 3(2)) simp_all
  then show ?case using \<open>u f = v f \<and> _\<close> by simp
qed simp


section \<open>Subjects and version ids\<close>

lemma colon_in_json: "CHR '':'' \<in> set s \<Longrightarrow> CHR '':'' \<in> set (json_string s)"
  using bexI [of "\<lambda>c. CHR '':'' \<in> set (json_char c)" "CHR '':''" "set s"] by (simp add: json_string_def json_char_def code_def)

lemma json_pair_text: "json_text (Arr [Str a, Str k]) = ''['' @ json_string a @ '','' @ json_string k @ '']''"
  by (simp add: json_text_def)

lemma soulSubjectId_inj:
  assumes "soulSubjectId a k = soulSubjectId a' k'"
  shows "a = a' \<and> k = k'"
proof -
  have plain: "False" if "CHR '':'' \<notin> set u" "CHR '':'' \<notin> set v" "CHR '':'' \<in> set b \<or> CHR '':'' \<in> set c"
    "u @ '':'' @ v = '':'' @ json_text (Arr [Str b, Str c])" for u v b c
  proof -
    have "u = []" using that(1,4) by (cases u) auto
    then have "v = json_text (Arr [Str b, Str c])" using that(4) by simp
    then show False using that(2,3) colon_in_json by (auto simp: json_pair_text)
  qed
  have colons: "u = u' \<and> v = v'" if "CHR '':'' \<notin> set u" "CHR '':'' \<notin> set u'" "u @ '':'' @ v = u' @ '':'' @ v'" for u v u' v'
    using that by (auto simp: append_eq_append_conv2 Cons_eq_append_conv append_eq_Cons_conv)
  show ?thesis
    using assms plain [of a k a' k'] plain [of a' k' a k] colons [of a a' k k']
      json_string_prefix [of a "'','' @ json_string k @ '']''" a' "'','' @ json_string k' @ '']''"]
      json_string_prefix [of k "'']''" k' "'']''"]
    by (auto simp: soulSubjectId_def json_pair_text split: if_splits)
qed

lemma digit_char_inj: "i < 10 \<Longrightarrow> j < 10 \<Longrightarrow> char_of (i + 48 :: nat) = (char_of (j + 48) :: char) \<Longrightarrow> i = j"
  by (drule arg_cong [of _ _ "of_char :: char \<Rightarrow> nat"]) simp

lemma digit_char_plain: "i < 10 \<Longrightarrow> CHR '':'' \<noteq> char_of (i + 48 :: nat)"
  by (rule notI, drule arg_cong [of _ _ "of_char :: char \<Rightarrow> nat"]) simp

lemma nat_digits_split:
  "nat_digits n = (if n < 10 then [] else nat_digits (n div 10)) @ [char_of (n mod 10 + 48)]"
  by (subst nat_digits.simps) simp

lemma nat_digits_plain: "CHR '':'' \<notin> set (nat_digits n)"
proof (induction n rule: nat_digits.induct)
  case (1 n)
  then show ?case using digit_char_plain [of "n mod 10"] by (subst nat_digits_split) simp
qed

lemma nat_digits_ne: "nat_digits n \<noteq> []"
  by (subst nat_digits_split) simp

lemma nat_digits_inj: "nat_digits n = nat_digits m \<Longrightarrow> n = m"
proof (induction n arbitrary: m rule: nat_digits.induct)
  case (1 n)
  have eq: "(if n < 10 then [] else nat_digits (n div 10)) = (if m < 10 then [] else nat_digits (m div 10))"
    "char_of (n mod 10 + 48) = (char_of (m mod 10 + 48) :: char)"
    using 1(2) by (subst (asm) nat_digits_split, subst (asm) (2) nat_digits_split, simp)+
  have "n mod 10 = m mod 10" by (rule digit_char_inj [OF _ _ eq(2)]) simp_all
  moreover have "n div 10 = m div 10"
  proof (cases "n < 10")
    case True
    then show ?thesis using eq(1) nat_digits_ne [of "m div 10"] by (auto split: if_splits)
  next
    case False
    then show ?thesis using eq(1) nat_digits_ne [of "n div 10"] 1(1) [OF False] by (auto split: if_splits)
  qed
  ultimately show ?case by (metis div_mult_mod_eq)
qed

lemma int_string_inj: "1 \<le> n \<Longrightarrow> 1 \<le> m \<Longrightarrow> int_string n = int_string m \<Longrightarrow> n = m"
  by (auto simp: int_string_def dest!: nat_digits_inj)

lemma last_colon: "CHR '':'' \<notin> set u \<Longrightarrow> CHR '':'' \<notin> set v \<Longrightarrow> a @ '':'' @ u = b @ '':'' @ v \<Longrightarrow> a = b \<and> u = v"
  by (auto simp: append_eq_append_conv2 Cons_eq_append_conv append_eq_Cons_conv)

lemma versionId_inj:
  assumes "versionId ty sid n = versionId ty' sid' m" "1 \<le> n" "1 \<le> m"
  shows "ty = ty' \<and> sid = sid' \<and> n = m"
proof -
  have no: "CHR '':'' \<notin> set (int_string i)" if "1 \<le> i" for i using that nat_digits_plain by (auto simp: int_string_def)
  have "(subject_name ty @ '':'' @ sid) = subject_name ty' @ '':'' @ sid' \<and> int_string n = int_string m"
    using last_colon [OF no [OF assms(2)] no [OF assms(3)], of "subject_name ty @ '':'' @ sid" "subject_name ty' @ '':'' @ sid'"] assms(1)
    by (simp add: versionId_def)
  then show ?thesis using int_string_inj [OF assms(2,3)] by (cases ty; cases ty') auto
qed


section \<open>The chain of a subject\<close>

definition matches_conds :: "(string \<times> js) list \<Rightarrow> jobj \<Rightarrow> bool" where
  "matches_conds conds r \<longleftrightarrow> (\<forall>(k, v) \<in> set conds. getp r k = v)"

definition version_num :: "jobj \<Rightarrow> int" where
  "version_num r = (case big_of (getp r ''version'') of None \<Rightarrow> 0 | Some v \<Rightarrow> v)"

text \<open>What the code relies on of the two tables: \<open>vc\<close> and \<open>ec\<close> are their contents by primary key.\<close>

locale history_store =
  fixes deps :: "'s ver_deps" and vc ec :: "'s \<Rightarrow> string \<Rightarrow> jobj option"
  assumes head_empty: "ht_head (vd_versions deps) conds s = [] \<Longrightarrow> vc s i = Some r \<Longrightarrow> \<not> matches_conds conds r"
    and head_first: "ht_head (vd_versions deps) conds s = r # rs \<Longrightarrow>
          matches_conds conds r \<and> (\<exists>i. vc s i = Some r) \<and>
          (\<forall>i r'. vc s i = Some r' \<longrightarrow> matches_conds conds r' \<longrightarrow> version_num r' \<le> version_num r)"
    and version_get: "ht_get (vd_versions deps) i s = vc s i"
    and version_create: "vc (ht_create (vd_versions deps) r s) = (vc s)(js_String (getp r ''id'') \<mapsto> r)"
      "ec (ht_create (vd_versions deps) r s) = ec s"
    and version_delete: "vc (ht_delete (vd_versions deps) i s) = (vc s)(i := None)"
      "ec (ht_delete (vd_versions deps) i s) = ec s"
    and event_create: "ec (ht_create (vd_events deps) r s) = (ec s)(js_String (getp r ''id'') \<mapsto> r)"
      "vc (ht_create (vd_events deps) r s) = vc s"
    and event_delete: "ec (ht_delete (vd_events deps) i s) = (ec s)(i := None)"
      "vc (ht_delete (vd_events deps) i s) = vc s"

definition event_id :: "string \<Rightarrow> string" where "event_id i = INSTRUCTION_EVENT_ID_PREFIX @ i"

text \<open>A stored version: its fields, its digest, its link to the version before it and its event.\<close>

definition chain_link ::
    "crypto \<Rightarrow> (string \<Rightarrow> jobj option) \<Rightarrow> (string \<Rightarrow> jobj option) \<Rightarrow> subject_type \<Rightarrow> string \<Rightarrow> int \<Rightarrow> jobj \<Rightarrow> bool" where
  "chain_link cr V E ty sid n r \<longleftrightarrow>
     1 \<le> n \<and> getp r ''id'' = Str (versionId ty sid n) \<and> getp r ''subjectType'' = Str (subject_name ty) \<and>
     getp r ''subjectId'' = Str sid \<and> getp r ''version'' = Num (jint n) \<and>
     getp r ''recordHash'' = Str (recordDigest cr r) \<and>
     (\<forall>f \<in> set RECORD_HASH_FIELDS. f = ''version'' \<or> record_value (getp r f)) \<and>
     (ty = Soul \<longrightarrow> (\<exists>a k. getp r ''agentId'' = Str a \<and> getp r ''key'' = Str k \<and> sid = soulSubjectId a k)) \<and>
     (if n = 1 then getp r ''previousVersionHash'' = Null
      else \<exists>p. V (versionId ty sid (n - 1)) = Some p \<and> getp r ''previousVersionHash'' = getp p ''recordHash'') \<and>
     E (event_id (versionId ty sid n)) = Some (instructionEventFor r)"

definition history_ok :: "crypto \<Rightarrow> (string \<Rightarrow> jobj option) \<Rightarrow> (string \<Rightarrow> jobj option) \<Rightarrow> bool" where
  "history_ok cr V E \<longleftrightarrow>
     (\<forall>i r. V i = Some r \<longrightarrow> (\<exists>ty sid n. i = versionId ty sid n \<and> chain_link cr V E ty sid n r))"

lemma event_id_inj [simp]: "event_id i = event_id j \<longleftrightarrow> i = j"
  by (simp add: event_id_def)

lemma history_okD:
  assumes "history_ok cr V E" "V (versionId ty sid n) = Some r" "1 \<le> n"
  shows "chain_link cr V E ty sid n r"
proof -
  obtain ty' sid' m where "versionId ty sid n = versionId ty' sid' m" "chain_link cr V E ty' sid' m r"
    using assms(1,2) unfolding history_ok_def by blast
  moreover from this(2) have "1 \<le> m" by (simp add: chain_link_def)
  ultimately show ?thesis using versionId_inj [of ty sid n ty' sid' m] assms(3) by simp
qed

lemma link_frame:
  assumes "chain_link cr V E ty sid n r"
    and "\<And>p. V (versionId ty sid (n - 1)) = Some p \<Longrightarrow> 1 \<le> n - 1 \<Longrightarrow> V' (versionId ty sid (n - 1)) = Some p"
    and "E' (event_id (versionId ty sid n)) = E (event_id (versionId ty sid n))"
  shows "chain_link cr V' E' ty sid n r"
  using assms unfolding chain_link_def by auto

lemma history_add:
  assumes "history_ok cr V E" "V (versionId ty sid n) = None"
    and "chain_link cr (V(versionId ty sid n \<mapsto> r)) (E(event_id (versionId ty sid n) \<mapsto> instructionEventFor r)) ty sid n r"
  shows "history_ok cr (V(versionId ty sid n \<mapsto> r)) (E(event_id (versionId ty sid n) \<mapsto> instructionEventFor r))"
  unfolding history_ok_def
proof (intro allI impI)
  fix i q assume q: "(V(versionId ty sid n \<mapsto> r)) i = Some q"
  show "\<exists>ty' sid' m. i = versionId ty' sid' m \<and>
      chain_link cr (V(versionId ty sid n \<mapsto> r)) (E(event_id (versionId ty sid n) \<mapsto> instructionEventFor r)) ty' sid' m q"
  proof (cases "i = versionId ty sid n")
    case True
    then show ?thesis using q assms(3) by auto
  next
    case False
    then have "V i = Some q" using q by simp
    then obtain ty' sid' m where m: "i = versionId ty' sid' m" "chain_link cr V E ty' sid' m q"
      using assms(1) unfolding history_ok_def by blast
    have "chain_link cr (V(versionId ty sid n \<mapsto> r)) (E(event_id (versionId ty sid n) \<mapsto> instructionEventFor r)) ty' sid' m q"
      by (rule link_frame [OF m(2)]) (use False m(1) assms(2) in auto)
    then show ?thesis using m(1) by blast
  qed
qed

lemma history_remove:
  assumes "history_ok cr V E" "V (versionId ty sid (n + 1)) = None" "1 \<le> n"
  shows "history_ok cr (V(versionId ty sid n := None)) (E(event_id (versionId ty sid n) := None))"
  unfolding history_ok_def
proof (intro allI impI)
  fix i q assume q: "(V(versionId ty sid n := None)) i = Some q"
  then have i: "i \<noteq> versionId ty sid n" "V i = Some q" by (auto split: if_splits)
  then obtain ty' sid' m where m: "i = versionId ty' sid' m" "chain_link cr V E ty' sid' m q"
    using assms(1) unfolding history_ok_def by blast
  have "versionId ty' sid' (m - 1) \<noteq> versionId ty sid n" if "1 \<le> m - 1"
    using versionId_inj [OF _ that assms(3), of ty' sid' ty sid] i(2) m(1) assms(2) by auto
  then have "chain_link cr (V(versionId ty sid n := None)) (E(event_id (versionId ty sid n) := None)) ty' sid' m q"
    using m i(1) by (intro link_frame [OF m(2)]) auto
  then show "\<exists>ty' sid' m. i = versionId ty' sid' m \<and>
      chain_link cr (V(versionId ty sid n := None)) (E(event_id (versionId ty sid n) := None)) ty' sid' m q"
    using m(1) by blast
qed


lemma history_cong:
  assumes "\<And>i. E' (event_id i) = E (event_id i)"
  shows "history_ok cr V E' = history_ok cr V E"
  unfolding history_ok_def chain_link_def by (simp add: assms)

text \<open>The head of a subject: the last version, or none at all.\<close>

definition head_at :: "(string \<Rightarrow> jobj option) \<Rightarrow> subject_type \<Rightarrow> string \<Rightarrow> jobj option \<Rightarrow> bool" where
  "head_at V ty sid head \<longleftrightarrow>
     (case head of
        None \<Rightarrow> \<forall>n\<ge>1. V (versionId ty sid n) = None
      | Some h \<Rightarrow> \<exists>n\<ge>1. V (versionId ty sid n) = Some h \<and> V (versionId ty sid (n + 1)) = None)"

text \<open>The shape of a record that is appended after a head.\<close>

definition record_shape :: "crypto \<Rightarrow> subject_type \<Rightarrow> string \<Rightarrow> int \<Rightarrow> jobj option \<Rightarrow> jobj \<Rightarrow> bool" where
  "record_shape cr ty sid n head r \<longleftrightarrow>
     getp r ''id'' = Str (versionId ty sid n) \<and> getp r ''subjectType'' = Str (subject_name ty) \<and>
     getp r ''subjectId'' = Str sid \<and> getp r ''version'' = Num (jint n) \<and>
     getp r ''recordHash'' = Str (recordDigest cr r) \<and>
     (\<forall>f \<in> set RECORD_HASH_FIELDS. f = ''version'' \<or> f = ''previousVersionHash'' \<or> record_value (getp r f)) \<and>
     (ty = Soul \<longrightarrow> (\<exists>a k. getp r ''agentId'' = Str a \<and> getp r ''key'' = Str k \<and> sid = soulSubjectId a k)) \<and>
     getp r ''previousVersionHash'' = head_link head"

lemma digest_seal [simp]: "recordDigest cr (seal cr r) = recordDigest cr r"
  by (simp add: recordDigest_def digest_input_def seal_def RECORD_HASH_FIELDS_def)

lemma getp_seal [simp]: "getp (seal cr r) k = (if k = ''recordHash'' then Str (recordDigest cr r) else getp r k)"
  by (simp add: seal_def)

definition wf_input :: "'s version_input \<Rightarrow> bool" where
  "wf_input inp \<longleftrightarrow>
     (vi_type inp = Soul \<longrightarrow>
        (\<exists>k. vi_key inp = Some k \<and> vi_subjectId inp = soulSubjectId (vi_agentId inp) k) \<and>
        (vi_previousSubjectId inp \<noteq> None \<longrightarrow> vi_previousKey inp \<noteq> None))"

lemma record_value_opt [simp]: "record_value (opt_js v)"
  by (simp add: opt_js_def split: option.splits)

lemma opt_js_simps [simp]: "opt_js None = Null" "opt_js (Some x) = Str x"
  by (simp_all add: opt_js_def)

lemma version_record_shape:
  assumes "wf_input inp"
  shows "record_shape cr (vi_type inp) (vi_subjectId inp) n head (version_record inp attr now cr head n)"
  using assms unfolding record_shape_def version_record_def wf_input_def
  by (auto simp: RECORD_HASH_FIELDS_def valueDigest_def)

lemma old_record_shape:
  assumes "wf_input inp" "identityChanged inp"
  shows "record_shape cr Soul (soulSubjectId (previous_agent inp) (previous_key inp)) n head (old_record inp attr now cr head n)"
  using assms unfolding record_shape_def old_record_def wf_input_def Let_def identityChanged_def
  by (auto simp: RECORD_HASH_FIELDS_def previous_key_def)

lemma old_subject_differs:
  assumes "wf_input inp" "identityChanged inp"
  shows "soulSubjectId (previous_agent inp) (previous_key inp) \<noteq> vi_subjectId inp"
  using assms soulSubjectId_inj [of "previous_agent inp" "previous_key inp" "vi_agentId inp"]
  by (auto simp: wf_input_def identityChanged_def previous_agent_def previous_key_def split: option.splits)

lemma next_version_at:
  assumes "history_ok cr V E" "head_at V ty sid head" "next_version head = Inr n"
  shows "1 \<le> n" "V (versionId ty sid n) = None"
    "if n = 1 then head_link head = Null
     else \<exists>p. V (versionId ty sid (n - 1)) = Some p \<and> head_link head = getp p ''recordHash'' \<and> record_value (head_link head)"
proof -
  have "1 \<le> n \<and> V (versionId ty sid n) = None \<and>
    (if n = 1 then head_link head = Null
     else \<exists>p. V (versionId ty sid (n - 1)) = Some p \<and> head_link head = getp p ''recordHash'' \<and> record_value (head_link head))"
  proof (cases head)
    case None
    then show ?thesis using assms(2,3) by (simp add: head_at_def next_version_def head_link_def)
  next
    case (Some h)
    then obtain m where m: "1 \<le> m" "V (versionId ty sid m) = Some h" "V (versionId ty sid (m + 1)) = None"
      using assms(2) by (auto simp: head_at_def)
    have link: "chain_link cr V E ty sid m h" by (rule history_okD [OF assms(1) m(2,1)])
    then have "big_of (getp h ''version'') = Some m" "getp h ''recordHash'' = Str (recordDigest cr h)"
      by (simp_all add: chain_link_def big_of_def)
    then show ?thesis using m assms(3) by (auto simp: Some next_version_def head_link_def coalesce_def nullish_def)
  qed
  then show "1 \<le> n" "V (versionId ty sid n) = None"
    "if n = 1 then head_link head = Null
     else \<exists>p. V (versionId ty sid (n - 1)) = Some p \<and> head_link head = getp p ''recordHash'' \<and> record_value (head_link head)"
    by simp_all
qed

lemma append_ok:
  assumes "history_ok cr V E" "head_at V ty sid head" "next_version head = Inr n" "record_shape cr ty sid n head r"
  shows "history_ok cr (V(versionId ty sid n \<mapsto> r)) (E(event_id (versionId ty sid n) \<mapsto> instructionEventFor r))"
proof (rule history_add [OF assms(1)])
  note at = next_version_at [OF assms(1-3)]
  show "V (versionId ty sid n) = None" by (rule at(2))
  have prev: "record_value (getp r ''previousVersionHash'')"
    using assms(4) at(3) by (auto simp: record_shape_def split: if_splits)
  have "if n = 1 then getp r ''previousVersionHash'' = Null
     else \<exists>p. (V(versionId ty sid n \<mapsto> r)) (versionId ty sid (n - 1)) = Some p \<and> getp r ''previousVersionHash'' = getp p ''recordHash''"
  proof (cases "n = 1")
    case False
    then have "versionId ty sid (n - 1) \<noteq> versionId ty sid n" using versionId_inj [of ty sid "n - 1" ty sid n] at(1) by auto
    then show ?thesis using at(3) assms(4) False by (auto simp: record_shape_def)
  qed (use at(3) assms(4) in \<open>simp add: record_shape_def\<close>)
  moreover have "\<forall>f \<in> set RECORD_HASH_FIELDS. f = ''version'' \<or> record_value (getp r f)"
    using prev assms(4) unfolding record_shape_def by metis
  ultimately show "chain_link cr (V(versionId ty sid n \<mapsto> r)) (E(event_id (versionId ty sid n) \<mapsto> instructionEventFor r)) ty sid n r"
    using assms(4) at(1) unfolding chain_link_def record_shape_def by simp
qed


text \<open>A row writer that leaves versions and their events alone.\<close>

definition keeps_history ::
    "('s \<Rightarrow> string \<Rightarrow> jobj option) \<Rightarrow> ('s \<Rightarrow> string \<Rightarrow> jobj option) \<Rightarrow> 's \<Rightarrow> 's \<Rightarrow> bool" where
  "keeps_history vc ec s s' \<longleftrightarrow> vc s' = vc s \<and> (\<forall>i. ec s' (event_id i) = ec s (event_id i))"

lemma bind_sum_Inr: "bind_sum m f = Inr y \<longleftrightarrow> (\<exists>x. m = Inr x \<and> f x = Inr y)"
  by (auto simp: bind_sum_def split: sum.splits)

lemma append_input_cases:
  assumes "append_input deps attr now ty inp mutate s = Inr (out, s')"
  obtains (refused) resp where "out = VersionNo resp" "s' = s"
  | (appended) head where "version_head deps inp s = Inr head"
      "append_version deps attr now inp mutate head s = Inr (out, s')"
      "\<And>e. vi_expectedVersion inp = Some e \<Longrightarrow> \<exists>h. head = Some h \<and> getp h ''id'' = Str e"
proof -
  obtain occupied where o: "soul_occupied deps inp s = Inr occupied"
    using assms by (auto simp: append_input_def bind_sum_Inr split: if_splits)
  show thesis
  proof (cases occupied)
    case True
    then show thesis using assms o by (intro refused) (auto simp: append_input_def bind_sum_def split: if_splits)
  next
    case False
    then obtain head where h: "version_head deps inp s = Inr head"
      using assms o by (auto simp: append_input_def bind_sum_Inr split: if_splits)
    let ?stale = "\<lambda>e. case head of None \<Rightarrow> True | Some h \<Rightarrow> getp h ''id'' \<noteq> Str e"
    have run: "(case vi_expectedVersion inp of None \<Rightarrow> append_version deps attr now inp mutate head s
       | Some e \<Rightarrow> if ?stale e then Inr (VersionNo (staleHeadResponse e head), s)
           else append_version deps attr now inp mutate head s) = Inr (out, s')"
      using assms o False h by (simp add: append_input_def bind_sum_def split: if_splits)
    show thesis
    proof (cases "\<exists>e. vi_expectedVersion inp = Some e \<and> ?stale e")
      case True
      then obtain e where "vi_expectedVersion inp = Some e" "?stale e" by blast
      then have "out = VersionNo (staleHeadResponse e head)" "s' = s" using run by simp_all
      then show thesis by (rule refused)
    next
      case False
      then show thesis using run by (intro appended [OF h]) (auto split: option.splits)
    qed
  qed
qed

context history_store begin

lemma conds_row:
  assumes "history_ok cr (vc s) E" "vc s i = Some r" "matches_conds (subject_conds ty sid identity) r"
  shows "\<exists>n\<ge>1. i = versionId ty sid n \<and> chain_link cr (vc s) E ty sid n r"
proof -
  obtain ty' sid' n where n: "i = versionId ty' sid' n" "chain_link cr (vc s) E ty' sid' n r"
    using assms(1,2) unfolding history_ok_def by blast
  have "getp r ''subjectType'' = Str (subject_name ty)" "getp r ''subjectId'' = Str sid"
    using assms(3) by (simp_all add: matches_conds_def subject_conds_def)
  then have "ty' = ty" "sid' = sid" using n(2) by (cases ty; cases ty'; simp add: chain_link_def)+
  then show ?thesis using n by (auto simp: chain_link_def)
qed

lemma row_matches:
  assumes "history_ok cr (vc s) E" "vc s (versionId ty sid n) = Some r" "1 \<le> n"
    and "\<And>a k. identity = Some (a, k) \<Longrightarrow> ty = Soul \<and> sid = soulSubjectId a k"
  shows "matches_conds (subject_conds ty sid identity) r" "version_num r = n"
proof -
  have link: "chain_link cr (vc s) E ty sid n r" by (rule history_okD [OF assms(1-3)])
  then show "version_num r = n" by (simp add: chain_link_def version_num_def big_of_def)
  show "matches_conds (subject_conds ty sid identity) r"
  proof (cases identity)
    case None
    then show ?thesis using link by (simp add: matches_conds_def subject_conds_def chain_link_def)
  next
    case (Some ak)
    then obtain a k where ak: "identity = Some (a, k)" by (cases ak) simp
    obtain a' k' where "getp r ''agentId'' = Str a'" "getp r ''key'' = Str k'" "sid = soulSubjectId a' k'"
      using link assms(4) [OF ak] by (auto simp: chain_link_def)
    then show ?thesis using link assms(4) [OF ak] soulSubjectId_inj [of a k a' k']
      by (simp add: ak matches_conds_def subject_conds_def chain_link_def)
  qed
qed

lemma readHead_at:
  assumes "history_ok cr (vc s) E" "readHead deps ty sid identity s = Inr head"
    and "\<And>a k. identity = Some (a, k) \<Longrightarrow> ty = Soul \<and> sid = soulSubjectId a k"
  shows "head_at (vc s) ty sid head"
proof (cases "ht_head (vd_versions deps) (subject_conds ty sid identity) s")
  case Nil
  have "vc s (versionId ty sid n) = None" if "1 \<le> n" for n
    using head_empty [OF Nil] row_matches(1) [OF assms(1) _ that assms(3)] by (cases "vc s (versionId ty sid n)") auto
  then show ?thesis using assms(2) Nil by (auto simp: readHead_def head_at_def split: if_splits)
next
  case (Cons r rs)
  then obtain i where i: "matches_conds (subject_conds ty sid identity) r" "vc s i = Some r"
    and top: "\<And>i r'. vc s i = Some r' \<Longrightarrow> matches_conds (subject_conds ty sid identity) r' \<Longrightarrow> version_num r' \<le> version_num r"
    using head_first [OF Cons] by blast
  obtain n where n: "1 \<le> n" "i = versionId ty sid n" using conds_row [OF assms(1) i(2,1)] by blast
  have num: "version_num r = n" using row_matches(2) [OF assms(1) _ n(1) assms(3)] i(2) n(2) by blast
  have "vc s (versionId ty sid (n + 1)) = None"
  proof (rule ccontr)
    assume "vc s (versionId ty sid (n + 1)) \<noteq> None"
    then obtain r' where r': "vc s (versionId ty sid (n + 1)) = Some r'" by blast
    show False using top [OF r'] row_matches [OF assms(1) r' _ assms(3)] n(1) num by simp
  qed
  moreover have "head = Some r" using assms(2) Cons by (auto simp: readHead_def split: if_splits)
  ultimately show ?thesis using i(2) n by (auto simp: head_at_def)
qed

lemma readSoulHead_at:
  assumes "history_ok cr (vc s) E" "readSoulHead deps a k s = Inr head"
  shows "head_at (vc s) Soul (soulSubjectId a k) head"
proof -
  obtain h where h: "readHead deps Soul (soulSubjectId a k) (Some (a, k)) s = Inr h"
    and rest: "(if h \<noteq> None \<or> soulSubjectId a k = a @ '':'' @ k then Inr h
       else readHead deps Soul (a @ '':'' @ k) (Some (a, k)) s) = Inr head"
    using assms(2) unfolding readSoulHead_def bind_sum_Inr by blast
  have first: "head_at (vc s) Soul (soulSubjectId a k) h" by (rule readHead_at [OF assms(1) h]) simp
  show ?thesis
  proof (cases "h \<noteq> None \<or> soulSubjectId a k = a @ '':'' @ k")
    case False
    have "head = None"
    proof (rule ccontr)
      assume "head \<noteq> None"
      then obtain r rs where "ht_head (vd_versions deps) (subject_conds Soul (a @ '':'' @ k) (Some (a, k))) s = r # rs"
        using rest False by (auto simp: readHead_def split: if_splits list.splits)
      then obtain i where i: "vc s i = Some r" "matches_conds (subject_conds Soul (a @ '':'' @ k) (Some (a, k))) r"
        using head_first by blast
      then obtain n where "chain_link cr (vc s) E Soul (a @ '':'' @ k) n r" using conds_row [OF assms(1)] by blast
      then show False using i(2) False by (auto simp: chain_link_def matches_conds_def subject_conds_def)
    qed
    then show ?thesis using first False by simp
  qed (use rest first in auto)
qed

lemma store_version_ok:
  assumes "history_ok cr (vc s) (ec s)" "head_at (vc s) ty sid head" "next_version head = Inr n"
    and "record_shape cr ty sid n head r" "store_version deps r s = Inr s'"
  shows "history_ok cr (vc s') (ec s')" "vc s' = (vc s)(versionId ty sid n \<mapsto> r)"
proof -
  have r: "getp r ''id'' = Str (versionId ty sid n)" using assms(4) by (simp add: record_shape_def)
  then have e: "getp (instructionEventFor r) ''id'' = Str (event_id (versionId ty sid n))"
    by (simp add: instructionEventFor_def Let_def event_id_def)
  have s': "s' = ht_create (vd_events deps) (instructionEventFor r) (ht_create (vd_versions deps) r s)"
    using assms(5) by (auto simp: store_version_def appendInstructionEvent_def split: if_splits)
  show "vc s' = (vc s)(versionId ty sid n \<mapsto> r)" by (simp add: s' version_create event_create r)
  moreover have "ec s' = (ec s)(event_id (versionId ty sid n) \<mapsto> instructionEventFor r)"
    by (simp add: s' version_create event_create e)
  ultimately show "history_ok cr (vc s') (ec s')" using append_ok [OF assms(1-4)] by simp
qed

lemma close_old_subject_ok:
  assumes "history_ok cr (vc s) (ec s)" "wf_input inp" "cr = vd_crypto deps"
    and "close_old_subject deps inp attr now s = Inr s'"
  shows "history_ok cr (vc s') (ec s')"
    "1 \<le> n \<Longrightarrow> vc s' (versionId (vi_type inp) (vi_subjectId inp) n) = vc s (versionId (vi_type inp) (vi_subjectId inp) n)"
proof -
  let ?sid = "soulSubjectId (previous_agent inp) (previous_key inp)"
  have "history_ok cr (vc s') (ec s') \<and>
    (\<forall>n\<ge>1. vc s' (versionId (vi_type inp) (vi_subjectId inp) n) = vc s (versionId (vi_type inp) (vi_subjectId inp) n))"
  proof (cases "identityChanged inp")
    case True
    obtain oldHead m where m: "readSoulHead deps (previous_agent inp) (previous_key inp) s = Inr oldHead"
      "next_version oldHead = Inr m" "store_version deps (old_record inp attr now (vd_crypto deps) oldHead m) s = Inr s'"
      using assms(4) True unfolding close_old_subject_def by (auto simp: bind_sum_Inr)
    note at = readSoulHead_at [OF assms(1) m(1)]
    note st = store_version_ok [OF assms(1) at m(2) _ m(3)]
    have shape: "record_shape cr Soul ?sid m oldHead (old_record inp attr now (vd_crypto deps) oldHead m)"
      unfolding assms(3) by (rule old_record_shape [OF assms(2) True])
    have "versionId (vi_type inp) (vi_subjectId inp) n \<noteq> versionId Soul ?sid m" if "1 \<le> n" for n
      using versionId_inj [of "vi_type inp" "vi_subjectId inp" n Soul ?sid m] that next_version_at(1) [OF assms(1) at m(2)]
        old_subject_differs [OF assms(2) True] by auto
    then show ?thesis using st [OF shape] by simp
  qed (use assms(1,4) in \<open>simp add: close_old_subject_def\<close>)
  then show "history_ok cr (vc s') (ec s')"
    "1 \<le> n \<Longrightarrow> vc s' (versionId (vi_type inp) (vi_subjectId inp) n) = vc s (versionId (vi_type inp) (vi_subjectId inp) n)"
    by simp_all
qed

lemma with_snapshot_frame:
  assumes "with_snapshot inp s = Inr inp'"
  shows "vi_type inp' = vi_type inp" "vi_subjectId inp' = vi_subjectId inp" "wf_input inp \<Longrightarrow> wf_input inp'"
    "vi_expectedVersion inp' = vi_expectedVersion inp" "vi_memoryId inp' = vi_memoryId inp" "vi_visibility inp' = vi_visibility inp"
  using assms by (auto simp: with_snapshot_def wf_input_def split: if_splits option.splits)

lemma version_head_at:
  assumes "history_ok cr (vc s) E" "wf_input inp" "version_head deps inp s = Inr head"
  shows "head_at (vc s) (vi_type inp) (vi_subjectId inp) head"
proof (cases "vi_type inp")
  case Soul
  then obtain k where "vi_key inp = Some k" "vi_subjectId inp = soulSubjectId (vi_agentId inp) k"
    using assms(2) by (auto simp: wf_input_def)
  then show ?thesis using assms(3) Soul readSoulHead_at [OF assms(1)] by (simp add: version_head_def)
next
  case Skill
  then show ?thesis using assms(3) by (auto simp: version_head_def intro!: readHead_at [OF assms(1)])
qed

text \<open>One append: the versions of the subject gain exactly the next record.\<close>

lemma append_version_ok:
  assumes ok: "history_ok (vd_crypto deps) (vc s) (ec s)" "wf_input inp"
    and keeps: "\<And>r s'. mutate s = Inr (r, s') \<Longrightarrow> keeps_history vc ec s s'"
    and head: "version_head deps inp s = Inr head"
    and run: "append_version deps attr now inp mutate head s = Inr (out, s')"
  shows "history_ok (vd_crypto deps) (vc s') (ec s')"
    "\<exists>n r result. next_version head = Inr n \<and> out = VersionOk result (versionId (vi_type inp) (vi_subjectId inp) n) \<and>
       vc s (versionId (vi_type inp) (vi_subjectId inp) n) = None \<and>
       vc s' (versionId (vi_type inp) (vi_subjectId inp) n) = Some r \<and>
       getp r ''expectedVersion'' = opt_js (vi_expectedVersion inp)"
proof -
  obtain result s1 inp' s2 n s3 where r: "run_row mutate s = Inr (result, s1)" "with_snapshot inp s1 = Inr inp'"
    "close_old_subject deps inp' attr now s1 = Inr s2" "next_version head = Inr n"
    "store_version deps (version_record inp' attr now (vd_crypto deps) head n) s2 = Inr s3"
    "out = VersionOk result (versionId (vi_type inp') (vi_subjectId inp') n)" "s' = s3"
    using run unfolding append_version_def by (auto simp: bind_sum_Inr)
  have "mutate s = Inr (result, s1)" using r(1) by (auto simp: run_row_def bind_sum_Inr split: option.splits)
  then have k: "vc s1 = vc s" "history_ok (vd_crypto deps) (vc s1) (ec s1)"
    using keeps [of result s1] ok(1) history_cong [of "ec s1" "ec s"] by (auto simp: keeps_history_def)
  note fr = with_snapshot_frame [OF r(2)]
  note cl = close_old_subject_ok [OF k(2) fr(3) [OF ok(2)] refl r(3)]
  have at: "head_at (vc s) (vi_type inp) (vi_subjectId inp) head" by (rule version_head_at [OF ok head])
  have at2: "head_at (vc s2) (vi_type inp') (vi_subjectId inp') head"
    using at cl(2) by (auto simp: head_at_def k(1) fr split: option.splits)
  note st = store_version_ok [OF cl(1) at2 r(4) version_record_shape [OF fr(3) [OF ok(2)]] r(5)]
  show "history_ok (vd_crypto deps) (vc s') (ec s')" using st(1) r(7) by simp
  have "vc s (versionId (vi_type inp) (vi_subjectId inp) n) = None" by (rule next_version_at(2) [OF ok(1) at r(4)])
  then show "\<exists>n r result. next_version head = Inr n \<and> out = VersionOk result (versionId (vi_type inp) (vi_subjectId inp) n) \<and>
       vc s (versionId (vi_type inp) (vi_subjectId inp) n) = None \<and>
       vc s' (versionId (vi_type inp) (vi_subjectId inp) n) = Some r \<and>
       getp r ''expectedVersion'' = opt_js (vi_expectedVersion inp)"
    using st(2) r(4,6,7) by (simp add: fr version_record_def)
qed

lemma record_body_ok:
  assumes ok: "history_ok (vd_crypto deps) (vc s) (ec s)"
    and keeps: "\<And>t r t'. mutate t = Inr (r, t') \<Longrightarrow> keeps_history vc ec t t'"
    and wf: "\<And>inp. prepare s = Inr (PrepInput inp) \<Longrightarrow> wf_input inp"
    and run: "record_body deps c auth now ty prepare mutate s = Inr (out, s')"
  shows "history_ok (vd_crypto deps) (vc s') (ec s')"
proof (cases "snd (resolveVersionAuthorization ty c auth)")
  case (Some denied)
  then show ?thesis using run ok by (auto simp: record_body_def split: prod.splits)
next
  case None
  then obtain attr where attr: "resolveVersionAuthorization ty c auth = (attr, None)" by (metis prod.collapse)
  obtain p where p: "prepare s = Inr p" using run by (auto simp: record_body_def attr bind_sum_Inr)
  show ?thesis
  proof (cases p)
    case PrepNone
    then obtain r where "run_row mutate s = Inr (r, s')" using run by (auto simp: record_body_def attr p bind_sum_def split: sum.splits)
    then have "mutate s = Inr (r, s')" by (auto simp: run_row_def bind_sum_Inr split: option.splits)
    then have "keeps_history vc ec s s'" by (rule keeps)
    then show ?thesis using ok history_cong [of "ec s'" "ec s"] by (auto simp: keeps_history_def)
  next
    case (PrepRefused resp)
    then show ?thesis using run ok by (auto simp: record_body_def attr p bind_sum_def)
  next
    case (PrepInput inp)
    have w: "wf_input inp" using wf p PrepInput by simp
    have "append_input deps attr now ty inp mutate s = Inr (out, s')"
      using run by (simp add: record_body_def attr p PrepInput bind_sum_def)
    then show ?thesis
    proof (cases rule: append_input_cases)
      case (appended head)
      show ?thesis by (rule append_version_ok(1) [OF ok w keeps appended(1,2)])
    qed (use ok in simp)
  qed
qed

lemma recordVersion_ok:
  assumes "history_ok (vd_crypto deps) (vc s) (ec s)"
    and "\<And>t r t'. mutate t = Inr (r, t') \<Longrightarrow> keeps_history vc ec t t'"
    and "\<And>inp. prepare s = Inr (PrepInput inp) \<Longrightarrow> wf_input inp"
    and "recordVersion deps lock commit c auth now ty prepare mutate s = (out, s')"
  shows "history_ok (vd_crypto deps) (vc s') (ec s')"
proof -
  have "s' = s \<or> record_body deps c auth now ty prepare mutate s = Inr (out, s')"
    using assms(4) by (auto simp: recordVersion_def bind_sum_def split: key_lock_outcome.splits sum.splits option.splits)
  then show ?thesis
  proof
    assume "record_body deps c auth now ty prepare mutate s = Inr (out, s')"
    with assms(1-3) show ?thesis by (rule record_body_ok)
  qed (use assms(1) in simp)
qed

lemma recordVersion_joined_ok:
  assumes "history_ok (vd_crypto deps) (vc s) (ec s)"
    and "\<And>t r t'. mutate t = Inr (r, t') \<Longrightarrow> keeps_history vc ec t t'"
    and "\<And>inp. prepare s = Inr (PrepInput inp) \<Longrightarrow> wf_input inp"
    and "recordVersion_joined deps lock c auth now ty prepare mutate s = (out, Some s')"
  shows "history_ok (vd_crypto deps) (vc s') (ec s')"
proof -
  have "s' = s \<or> record_body deps c auth now ty prepare mutate s = Inr (out, s')"
    using assms(4) by (auto simp: recordVersion_joined_def split: key_lock_outcome.splits sum.splits)
  then show ?thesis
  proof
    assume "record_body deps c auth now ty prepare mutate s = Inr (out, s')"
    with assms(1-3) show ?thesis by (rule record_body_ok)
  qed (use assms(1) in simp)
qed

lemma removal_ok:
  assumes ok: "history_ok cr (vc s) (ec s)" and run: "removeAppendedVersion deps lock ty sid recordId s = (res, s')"
  shows "history_ok cr (vc s') (ec s')"
proof (cases "s' = s")
  case False
  then obtain h where h: "readHead deps ty sid None s = Inr (Some h)" "js_String (getp h ''id'') = recordId"
    and s': "s' = ht_delete (vd_events deps) (INSTRUCTION_EVENT_ID_PREFIX @ recordId) (ht_delete (vd_versions deps) recordId s)"
    using run by (auto simp: removeAppendedVersion_def Let_def split: key_lock_outcome.splits sum.splits option.splits if_splits)
  have "head_at (vc s) ty sid (Some h)" by (rule readHead_at [OF ok h(1)]) simp
  then obtain n where n: "1 \<le> n" "vc s (versionId ty sid n) = Some h" "vc s (versionId ty sid (n + 1)) = None"
    by (auto simp: head_at_def)
  have "recordId = versionId ty sid n" using history_okD [OF ok n(2,1)] h(2) by (simp add: chain_link_def)
  then have "vc s' = (vc s)(versionId ty sid n := None)" "ec s' = (ec s)(event_id (versionId ty sid n) := None)"
    by (simp_all add: s' event_delete version_delete event_id_def)
  then show ?thesis using history_remove [OF ok n(3,1)] by simp
qed (use ok in simp)

lemma chain_below:
  assumes "history_ok cr (vc s) E" "vc s (versionId ty sid n) = Some r" "1 \<le> n" "1 \<le> k" "k \<le> n"
  shows "\<exists>p. vc s (versionId ty sid k) = Some p \<and> chain_link cr (vc s) E ty sid k p"
  using assms(5,2,3)
proof (induction n arbitrary: r rule: int_ge_induct)
  case base
  then show ?case using history_okD [OF assms(1)] by blast
next
  case (step n)
  have "chain_link cr (vc s) E ty sid (n + 1) r" by (rule history_okD [OF assms(1) step(3,4)])
  then obtain p where "vc s (versionId ty sid n) = Some p" using step(1) assms(4) by (auto simp: chain_link_def split: if_splits)
  then show ?case using step.IH step(1) assms(4) by simp
qed

end

section \<open>Histories\<close>

text \<open>The steps of an instance: appends in a transaction of their own or joined to the caller's (both serialized by the subject lock;
  a joined one is a step when the caller commits), removals, and writes of other rows.\<close>

inductive history_step ::
    "'s ver_deps \<Rightarrow> ('s \<Rightarrow> string \<Rightarrow> jobj option) \<Rightarrow> ('s \<Rightarrow> string \<Rightarrow> jobj option) \<Rightarrow> 's \<Rightarrow> 's \<Rightarrow> bool"
  for deps vc ec where
  append: "recordVersion deps lock commit c auth now ty prepare mutate s = (out, s') \<Longrightarrow>
    \<forall>inp. prepare s = Inr (PrepInput inp) \<longrightarrow> wf_input inp \<Longrightarrow>
    \<forall>t r t'. mutate t = Inr (r, t') \<longrightarrow> keeps_history vc ec t t' \<Longrightarrow> history_step deps vc ec s s'"
| joined: "recordVersion_joined deps lock c auth now ty prepare mutate s = (out, Some s') \<Longrightarrow>
    \<forall>inp. prepare s = Inr (PrepInput inp) \<longrightarrow> wf_input inp \<Longrightarrow>
    \<forall>t r t'. mutate t = Inr (r, t') \<longrightarrow> keeps_history vc ec t t' \<Longrightarrow> history_step deps vc ec s s'"
| removal: "removeAppendedVersion deps lock ty sid recordId s = (res, s') \<Longrightarrow> history_step deps vc ec s s'"
| other: "keeps_history vc ec s s' \<Longrightarrow> history_step deps vc ec s s'"

lemma history_reachable:
  assumes st: "history_store deps vc ec" and "(history_step deps vc ec)\<^sup>*\<^sup>* s0 s" and "\<forall>i. vc s0 i = None"
  shows "history_ok (vd_crypto deps) (vc s) (ec s)"
  using assms(2)
proof (induction rule: rtranclp_induct)
  case base
  then show ?case using assms(3) by (simp add: history_ok_def)
next
  case (step s s')
  from step(2) show ?case
  proof cases
    case append
    then show ?thesis using history_store.recordVersion_ok [OF st step(3)] by blast
  next
    case joined
    then show ?thesis using history_store.recordVersion_joined_ok [OF st step(3)] by blast
  next
    case removal
    then show ?thesis using history_store.removal_ok [OF st step(3)] by blast
  next
    case other
    then show ?thesis using step(3) history_cong [of "ec s'" "ec s"] by (auto simp: keeps_history_def)
  qed
qed

text \<open>C6. Every history of an instance is a set of unbroken chains: whatever appends, removals and other writes ran, a
  stored version sits at the id of its subject and number, every lower number of its subject is stored too, each
  carries the digest of its own fields, links to the digest of the version before it, and has its event.\<close>

theorem version_chain_intact:
  assumes "history_store deps vc ec" "(history_step deps vc ec)\<^sup>*\<^sup>* s0 s" "\<forall>i. vc s0 i = None"
    and "vc s i = Some r"
  shows "\<exists>ty sid n. 1 \<le> n \<and> i = versionId ty sid n \<and>
     (\<forall>k. 1 \<le> k \<and> k \<le> n \<longrightarrow> (\<exists>p. vc s (versionId ty sid k) = Some p \<and>
        getp p ''recordHash'' = Str (recordDigest (vd_crypto deps) p) \<and>
        (k = 1 \<longrightarrow> getp p ''previousVersionHash'' = Null) \<and>
        (1 < k \<longrightarrow> (\<exists>q. vc s (versionId ty sid (k - 1)) = Some q \<and> getp p ''previousVersionHash'' = getp q ''recordHash'')) \<and>
        ec s (INSTRUCTION_EVENT_ID_PREFIX @ versionId ty sid k) = Some (instructionEventFor p)))"
proof -
  note ok = history_reachable [OF assms(1-3)]
  then obtain ty sid n where n: "i = versionId ty sid n" "chain_link (vd_crypto deps) (vc s) (ec s) ty sid n r"
    using assms(4) unfolding history_ok_def by blast
  then have "1 \<le> n" by (simp add: chain_link_def)
  note below = history_store.chain_below [OF assms(1) ok assms(4) [unfolded n(1)] this]
  show ?thesis
  proof (intro exI [of _ ty] exI [of _ sid] exI [of _ n] conjI allI impI n(1) \<open>1 \<le> n\<close>)
    fix k assume k: "1 \<le> k \<and> k \<le> n"
    then obtain p where p: "vc s (versionId ty sid k) = Some p" "chain_link (vd_crypto deps) (vc s) (ec s) ty sid k p"
      using below by blast
    then show "\<exists>p. vc s (versionId ty sid k) = Some p \<and>
        getp p ''recordHash'' = Str (recordDigest (vd_crypto deps) p) \<and>
        (k = 1 \<longrightarrow> getp p ''previousVersionHash'' = Null) \<and>
        (1 < k \<longrightarrow> (\<exists>q. vc s (versionId ty sid (k - 1)) = Some q \<and> getp p ''previousVersionHash'' = getp q ''recordHash'')) \<and>
        ec s (INSTRUCTION_EVENT_ID_PREFIX @ versionId ty sid k) = Some (instructionEventFor p)"
      by (intro exI [of _ p]) (auto simp: chain_link_def event_id_def)
  qed
qed

lemma recordVersion_refused:
  assumes "recordVersion deps lock commit c auth now ty prepare mutate s = (VersionNo resp, s')"
    and "prepare s = Inr (PrepInput inp)"
  shows "s' = s"
proof -
  have "s' = s" if "append_input deps attr now ty inp mutate s = Inr (VersionNo resp, s')" for attr
    using that
  proof (cases rule: append_input_cases)
    case (appended head)
    then show ?thesis by (auto simp: append_version_def bind_sum_Inr)
  qed
  then show ?thesis
    using assms by (auto simp: recordVersion_def record_body_def bind_sum_def
        split: key_lock_outcome.splits sum.splits option.splits prod.splits)
qed

lemma recordVersion_accepted:
  assumes "recordVersion deps lock commit c auth now ty prepare mutate s = (out, s')"
    and "prepare s = Inr (PrepInput inp)" "\<nexists>resp. out = VersionNo resp"
  shows "\<exists>attr. append_input deps attr now ty inp mutate s = Inr (out, s')"
proof -
  have no: "\<exists>resp. thrown_outcome e = VersionNo resp" for e
    by (auto simp: thrown_outcome_def split: thrown.splits option.splits)
  have "record_body deps c auth now ty prepare mutate s = Inr (out, s')"
    using assms(1,3) no by (auto simp: recordVersion_def bind_sum_def split: key_lock_outcome.splits sum.splits option.splits)
  then show ?thesis using assms(2,3) by (auto simp: record_body_def bind_sum_def split: prod.splits option.splits)
qed

text \<open>C19. A guarded append compares and sets: it is refused without any change, or the head it named was the last version
  of its subject and the next number is now stored with that comparison on record.\<close>

theorem guarded_append_compares_and_sets:
  assumes "history_store deps vc ec" "(history_step deps vc ec)\<^sup>*\<^sup>* s0 s" "\<forall>i. vc s0 i = None"
    and "recordVersion deps lock commit c auth now ty prepare mutate s = (out, s')"
    and "prepare s = Inr (PrepInput inp)" "wf_input inp" "vi_expectedVersion inp = Some e"
    and "\<forall>t r t'. mutate t = Inr (r, t') \<longrightarrow> keeps_history vc ec t t'"
  shows "(\<exists>resp. out = VersionNo resp) \<and> s' = s \<or>
    (\<exists>n h r result. 1 \<le> n \<and> e = versionId (vi_type inp) (vi_subjectId inp) n \<and> vc s e = Some h \<and>
       vc s (versionId (vi_type inp) (vi_subjectId inp) (n + 1)) = None \<and>
       out = VersionOk result (versionId (vi_type inp) (vi_subjectId inp) (n + 1)) \<and>
       vc s' (versionId (vi_type inp) (vi_subjectId inp) (n + 1)) = Some r \<and> getp r ''expectedVersion'' = Str e)"
proof (cases "\<exists>resp. out = VersionNo resp")
  case True
  then obtain resp where "out = VersionNo resp" by blast
  then show ?thesis
    using recordVersion_refused [of deps lock commit c auth now ty prepare mutate s resp s' inp] assms(4,5) by simp
next
  case False
  note st = assms(1) and ok = history_reachable [OF assms(1-3)]
  obtain attr where run: "append_input deps attr now ty inp mutate s = Inr (out, s')"
    using recordVersion_accepted [OF assms(4,5)] False by blast
  then show ?thesis
  proof (cases rule: append_input_cases)
    case (appended head)
    obtain h where h: "head = Some h" "getp h ''id'' = Str e" using appended(3) [OF assms(7)] by blast
    have "head_at (vc s) (vi_type inp) (vi_subjectId inp) head" by (rule history_store.version_head_at [OF st ok assms(6) appended(1)])
    then obtain n where n: "1 \<le> n" "vc s (versionId (vi_type inp) (vi_subjectId inp) n) = Some h"
      by (auto simp: head_at_def h)
    have link: "chain_link (vd_crypto deps) (vc s) (ec s) (vi_type inp) (vi_subjectId inp) n h"
      by (rule history_okD [OF ok n(2,1)])
    then have e: "e = versionId (vi_type inp) (vi_subjectId inp) n" "next_version head = Inr (n + 1)"
      using h by (simp_all add: chain_link_def next_version_def big_of_def)
    show ?thesis
      using history_store.append_version_ok(2) [OF st ok assms(6) _ appended(1,2)] assms(7,8) n e by (intro disjI2) auto
  qed (use False in simp)
qed

section \<open>Tamper evidence\<close>

text \<open>What checking a copy of a chain establishes: typed records, each with the digest of its own fields and the digest
  of the one before it.\<close>

definition record_typed :: "jobj \<Rightarrow> bool" where
  "record_typed r \<longleftrightarrow> (\<exists>m\<ge>1. getp r ''version'' = Num (jint m)) \<and>
     (\<forall>f \<in> set RECORD_HASH_FIELDS. f = ''version'' \<or> record_value (getp r f))"

definition chain_verifies :: "crypto \<Rightarrow> (string \<Rightarrow> jobj option) \<Rightarrow> subject_type \<Rightarrow> string \<Rightarrow> int \<Rightarrow> bool" where
  "chain_verifies cr V ty sid n \<longleftrightarrow>
     (\<forall>k. 1 \<le> k \<and> k \<le> n \<longrightarrow> (\<exists>p. V (versionId ty sid k) = Some p \<and> record_typed p \<and>
        getp p ''recordHash'' = Str (recordDigest cr p) \<and>
        (1 < k \<longrightarrow> (\<exists>q. V (versionId ty sid (k - 1)) = Some q \<and> getp p ''previousVersionHash'' = getp q ''recordHash''))))"

lemma link_typed: "chain_link cr V E ty sid n r \<Longrightarrow> record_typed r"
  by (auto simp: chain_link_def record_typed_def)

context history_store begin

lemma history_verifies:
  assumes "history_ok cr (vc s) E" "vc s (versionId ty sid n) = Some r" "1 \<le> n"
  shows "chain_verifies cr (vc s) ty sid n"
  unfolding chain_verifies_def
proof (intro allI impI)
  fix k assume k: "1 \<le> k \<and> k \<le> n"
  then obtain p where p: "vc s (versionId ty sid k) = Some p" "chain_link cr (vc s) E ty sid k p"
    using chain_below [OF assms] by blast
  then show "\<exists>p. vc s (versionId ty sid k) = Some p \<and> record_typed p \<and>
        getp p ''recordHash'' = Str (recordDigest cr p) \<and>
        (1 < k \<longrightarrow> (\<exists>q. vc s (versionId ty sid (k - 1)) = Some q \<and> getp p ''previousVersionHash'' = getp q ''recordHash''))"
    by (intro exI [of _ p] conjI link_typed [OF p(2)]) (auto simp: chain_link_def)
qed

end

lemma normalized_id: "record_value v \<Longrightarrow> normalizeField f v = v"
  by (cases v) (simp_all add: normalizeField_def)

lemma normalized_version: "normalizeField ''version'' (Num (jint m)) = Str (int_string m)"
  by (simp add: normalizeField_def)

lemma typed_version: "record_typed r \<Longrightarrow> \<exists>m\<ge>1. getp r ''version'' = Num (jint m)"
  by (simp add: record_typed_def)

lemma typed_other: "record_typed r \<Longrightarrow> f \<in> set RECORD_HASH_FIELDS \<Longrightarrow> f \<noteq> ''version'' \<Longrightarrow> record_value (getp r f)"
  unfolding record_typed_def by blast

lemma normalized_value:
  assumes "record_typed r" "f \<in> set RECORD_HASH_FIELDS"
  shows "record_value (normalizeField f (getp r f))"
proof (cases "f = ''version''")
  case True
  then show ?thesis using typed_version [OF assms(1)] normalized_version by auto
next
  case False
  then show ?thesis using typed_other [OF assms] normalized_id by simp
qed

lemma normalized_inj:
  assumes "record_typed r" "record_typed r'" "f \<in> set RECORD_HASH_FIELDS"
    and "normalizeField f (getp r f) = normalizeField f (getp r' f)"
  shows "getp r f = getp r' f"
proof (cases "f = ''version''")
  case True
  obtain m m' where "1 \<le> m" "1 \<le> m'" "getp r f = Num (jint m)" "getp r' f = Num (jint m')"
    using typed_version [OF assms(1)] typed_version [OF assms(2)] True by blast
  then show ?thesis using assms(4) True int_string_inj [of m m'] by (simp add: normalized_version)
next
  case False
  then show ?thesis
    using assms(4) normalized_id [OF typed_other [OF assms(1,3)]] normalized_id [OF typed_other [OF assms(2,3)]] by simp
qed

lemma digest_input_inj:
  assumes "record_typed r" "record_typed r'" "digest_input r = digest_input r'"
  shows "\<forall>f \<in> set RECORD_HASH_FIELDS. getp r f = getp r' f"
proof -
  have as_pairs: "digest_input x = ''['' @ join_with '','' (map (\<lambda>f. pair_json f (normalizeField f (getp x f))) RECORD_HASH_FIELDS) @ '']''"
    if "record_typed x" for x
  proof -
    have "map (\<lambda>t. case t of None \<Rightarrow> ''null'' | Some y \<Rightarrow> y)
        (map json_stringify (map (\<lambda>f. Arr [Str f, normalizeField f (getp x f)]) RECORD_HASH_FIELDS)) =
      map (\<lambda>f. pair_json f (normalizeField f (getp x f))) RECORD_HASH_FIELDS"
      unfolding map_map comp_def
      by (rule map_cong [OF refl]) (simp only: pair_text [OF normalized_value [OF that]] option.case pair_json_def)
    then show ?thesis by (simp only: digest_input_def json_text_def json_stringify.simps option.case)
  qed
  have "\<forall>f \<in> set RECORD_HASH_FIELDS. normalizeField f (getp r f) = normalizeField f (getp r' f)"
  proof (rule pairs_prefix)
    show "\<forall>f \<in> set RECORD_HASH_FIELDS. record_value (normalizeField f (getp r f)) \<and> record_value (normalizeField f (getp r' f))"
      using normalized_value assms(1,2) by blast
    show "join_with '','' (map (\<lambda>f. pair_json f (normalizeField f (getp r f))) RECORD_HASH_FIELDS) @ '']'' =
      join_with '','' (map (\<lambda>f. pair_json f (normalizeField f (getp r' f))) RECORD_HASH_FIELDS) @ '']''"
      using assms(3) unfolding as_pairs [OF assms(1)] as_pairs [OF assms(2)] by simp
  qed
  then show ?thesis using normalized_inj [OF assms(1,2)] by blast
qed

lemma verified_link:
  assumes "chain_verifies cr V ty sid n" "1 < k" "k \<le> n" "V (versionId ty sid k) = Some p"
  shows "\<exists>q. V (versionId ty sid (k - 1)) = Some q \<and> getp p ''previousVersionHash'' = getp q ''recordHash''"
proof -
  have "1 \<le> k \<and> k \<le> n" using assms(2,3) by simp
  then show ?thesis using assms(1,2,4) unfolding chain_verifies_def by (metis option.inject)
qed

lemma equal_digest_fields:
  assumes "inj_on (sha256_hex cr) (digest_input ` (ran V \<union> ran V'))"
    and "chain_verifies cr V ty sid n" "chain_verifies cr V' ty sid n" "1 \<le> k" "k \<le> n"
    and "V (versionId ty sid k) = Some p" "V' (versionId ty sid k) = Some p'"
    and "getp p ''recordHash'' = getp p' ''recordHash''"
  shows "\<forall>f \<in> set RECORD_HASH_FIELDS. getp p f = getp p' f"
proof -
  have p: "record_typed p" "record_typed p'" "getp p ''recordHash'' = Str (recordDigest cr p)"
    "getp p' ''recordHash'' = Str (recordDigest cr p')"
    using assms(2-7) unfolding chain_verifies_def by auto
  have "sha256_hex cr (digest_input p) = sha256_hex cr (digest_input p')" using assms(8) p(3,4) by (simp add: recordDigest_def)
  then have "digest_input p = digest_input p'"
    by (rule inj_onD [OF assms(1)]) (intro imageI UnI1 ranI [of V, OF assms(6)], intro imageI UnI2 ranI [of V', OF assms(7)])
  then show ?thesis by (rule digest_input_inj [OF p(1,2)])
qed

text \<open>C20. The digest of a subject's head fixes its whole history, when no two digested texts of the two
  histories collide: a copy whose chain verifies and
  ends in the digest the instance stores agrees with the instance in every digested field of every version.\<close>

theorem head_digest_fixes_history:
  assumes "history_store deps vc ec" "(history_step deps vc ec)\<^sup>*\<^sup>* s0 s" "\<forall>i. vc s0 i = None"
    and "inj_on (sha256_hex (vd_crypto deps)) (digest_input ` (ran (vc s) \<union> ran V))" "chain_verifies (vd_crypto deps) V ty sid n"
    and "1 \<le> n" "vc s (versionId ty sid n) = Some r" "V (versionId ty sid n) = Some r'"
    and "getp r ''recordHash'' = getp r' ''recordHash''" "1 \<le> k" "k \<le> n"
  shows "\<exists>p p'. vc s (versionId ty sid k) = Some p \<and> V (versionId ty sid k) = Some p' \<and>
           (\<forall>f \<in> set RECORD_HASH_FIELDS. getp p f = getp p' f)"
proof -
  let ?cr = "vd_crypto deps"
  have ver: "chain_verifies ?cr (vc s) ty sid n"
    by (rule history_store.history_verifies [OF assms(1) history_reachable [OF assms(1-3)] assms(7,6)])
  have same: "\<exists>p p'. vc s (versionId ty sid (n - int i)) = Some p \<and> V (versionId ty sid (n - int i)) = Some p' \<and>
      getp p ''recordHash'' = getp p' ''recordHash'' \<and> (\<forall>f \<in> set RECORD_HASH_FIELDS. getp p f = getp p' f)"
    if "1 \<le> n - int i" for i
    using that
  proof (induction i)
    case 0
    show ?case unfolding of_nat_0 diff_zero
      using equal_digest_fields [OF assms(4) ver assms(5,6) order_refl assms(7-9)] assms(7-9) by blast
  next
    case (Suc i)
    let ?m = "n - int i"
    have le: "1 \<le> ?m" using Suc.prems by simp
    obtain p p' where p: "vc s (versionId ty sid ?m) = Some p" "V (versionId ty sid ?m) = Some p'"
      "\<forall>f \<in> set RECORD_HASH_FIELDS. getp p f = getp p' f" using Suc.IH [OF le] by blast
    have m: "1 < ?m" "?m \<le> n" "1 \<le> ?m - 1" "?m - 1 \<le> n" "n - int (Suc i) = ?m - 1" using Suc.prems by simp_all
    have "getp p ''previousVersionHash'' = getp p' ''previousVersionHash''" using p(3) by (simp add: RECORD_HASH_FIELDS_def)
    moreover obtain q where q: "vc s (versionId ty sid (?m - 1)) = Some q" "getp p ''previousVersionHash'' = getp q ''recordHash''"
      using verified_link [OF ver m(1,2) p(1)] by blast
    moreover obtain q' where q': "V (versionId ty sid (?m - 1)) = Some q'" "getp p' ''previousVersionHash'' = getp q' ''recordHash''"
      using verified_link [OF assms(5) m(1,2) p(2)] by blast
    ultimately have eq: "getp q ''recordHash'' = getp q' ''recordHash''" by simp
    note equal_digest_fields [OF assms(4) ver assms(5) m(3,4) q(1) q'(1) eq]
    then show ?case unfolding m(5) using q(1) q'(1) eq by blast
  qed
  have "n - int (nat (n - k)) = k" "1 \<le> n - int (nat (n - k))" using assms(10,11) by simp_all
  then show ?thesis using same [of "nat (n - k)"] by (simp only:) blast
qed

text \<open>The event of a private skill version shows none of the three digests, and an event is of its own version.\<close>

lemma private_skill_event_has_no_digest:
  assumes "getp r ''subjectType'' = Str ''skill''" "getp r ''visibility'' = Str PRIVATE_VISIBILITY"
    and "f \<in> set PRIVATE_SKILL_EVENT_OMITTED"
  shows "getp (event_detail r) f = Undef"
  using assms by (auto simp: event_detail_def Let_def PRIVATE_SKILL_EVENT_OMITTED_def)

section \<open>A database\<close>

text \<open>The in-memory tables of the unit tests: rows by id.\<close>

record memory_db =
  md_versions :: "(string \<times> jobj) list"
  md_events :: "(string \<times> jobj) list"
  md_souls :: "jobj list"

definition table_rows :: "(string \<times> jobj) list \<Rightarrow> jobj list" where
  "table_rows xs = map (\<lambda>k. the (map_of xs k)) (remdups (map fst xs))"

definition memory_history ::
    "(memory_db \<Rightarrow> (string \<times> jobj) list) \<Rightarrow> (((string \<times> jobj) list \<Rightarrow> (string \<times> jobj) list) \<Rightarrow> memory_db \<Rightarrow> memory_db)
      \<Rightarrow> memory_db history_table" where
  "memory_history rows upd =
     \<lparr>ht_search = (\<lambda>conds s. filter (matches_conds conds) (table_rows (rows s))),
      ht_head = (\<lambda>conds s. take 1 (sort_key (\<lambda>r. - version_num r) (filter (matches_conds conds) (table_rows (rows s))))),
      ht_get = (\<lambda>i s. map_of (rows s) i),
      ht_create = (\<lambda>r. upd (AList.update (js_String (getp r ''id'')) r)),
      ht_delete = (\<lambda>i. upd (AList.delete i))\<rparr>"

definition memory_deps :: "crypto \<Rightarrow> memory_db ver_deps" where
  "memory_deps cr =
     \<lparr>vd_tableLike = True, vd_eventsLike = True, vd_rawWriter = True,
      vd_versions = memory_history md_versions md_versions_update,
      vd_events = memory_history md_events md_events_update,
      vd_souls = Some (\<lambda>conds s. filter (matches_conds conds) (md_souls s)),
      vd_valid = (\<lambda>_. True), vd_eventValid = (\<lambda>_. True), vd_crypto = cr\<rparr>"

lemma set_table_rows: "r \<in> set (table_rows xs) \<longleftrightarrow> (\<exists>i. map_of xs i = Some r)"
proof
  assume "r \<in> set (table_rows xs)"
  then obtain k where "k \<in> fst ` set xs" "r = the (map_of xs k)" by (auto simp: table_rows_def)
  then show "\<exists>i. map_of xs i = Some r" by (metis map_of_eq_None_iff option.collapse)
next
  assume "\<exists>i. map_of xs i = Some r"
  then obtain i where i: "map_of xs i = Some r" by blast
  then have "i \<in> fst ` set xs" by (metis map_of_eq_None_iff option.distinct(1))
  then show "r \<in> set (table_rows xs)" using i by (force simp: table_rows_def)
qed

lemma first_sorted:
  assumes "take 1 (sort_key f xs) = (r :: jobj) # rs"
  shows "r \<in> set xs \<and> (\<forall>x \<in> set xs. (f r :: int) \<le> f x)"
proof -
  obtain ys where ys: "sort_key f xs = r # ys" using assms by (cases "sort_key f xs") auto
  then have "sorted (map f (r # ys))" by (metis sorted_sort_key)
  moreover have "set xs = set (r # ys)" by (metis set_sort ys)
  ultimately show ?thesis by auto
qed

lemma memory_table:
  "ht_head (vd_versions (memory_deps cr)) conds s =
     take 1 (sort_key (\<lambda>r. - version_num r) (filter (matches_conds conds) (table_rows (md_versions s))))"
  "ht_get (vd_versions (memory_deps cr)) i s = map_of (md_versions s) i"
  "ht_create (vd_versions (memory_deps cr)) r s = s\<lparr>md_versions := AList.update (js_String (getp r ''id'')) r (md_versions s)\<rparr>"
  "ht_delete (vd_versions (memory_deps cr)) i s = s\<lparr>md_versions := AList.delete i (md_versions s)\<rparr>"
  "ht_create (vd_events (memory_deps cr)) r s = s\<lparr>md_events := AList.update (js_String (getp r ''id'')) r (md_events s)\<rparr>"
  "ht_delete (vd_events (memory_deps cr)) i s = s\<lparr>md_events := AList.delete i (md_events s)\<rparr>"
  by (simp_all add: memory_deps_def memory_history_def)

lemma no_first_sorted:
  assumes "take 1 (sort_key (f :: jobj \<Rightarrow> int) xs) = []"
  shows "xs = []"
proof -
  have "sort_key f xs = []" using assms by (cases "sort_key f xs") simp_all
  then show ?thesis by (metis length_sort length_0_conv)
qed

interpretation memory_store: history_store "memory_deps cr" "\<lambda>s. map_of (md_versions s)" "\<lambda>s. map_of (md_events s)" for cr
proof
  fix conds and s :: memory_db and i r
  assume a: "ht_head (vd_versions (memory_deps cr)) conds s = []" "map_of (md_versions s) i = Some r"
  have "r \<in> set (table_rows (md_versions s))" using a(2) set_table_rows by blast
  moreover have "filter (matches_conds conds) (table_rows (md_versions s)) = []"
    by (rule no_first_sorted) (use a(1) in \<open>simp only: memory_table\<close>)
  ultimately show "\<not> matches_conds conds r" by (metis filter_empty_conv)
next
  fix conds and s :: memory_db and r rs
  assume "ht_head (vd_versions (memory_deps cr)) conds s = r # rs"
  then have f: "r \<in> set (filter (matches_conds conds) (table_rows (md_versions s)))"
    "\<forall>x \<in> set (filter (matches_conds conds) (table_rows (md_versions s))). - version_num r \<le> - version_num x"
    unfolding memory_table by (blast dest: first_sorted)+
  have m: "matches_conds conds r" "r \<in> set (table_rows (md_versions s))" using f(1) by simp_all
  have "version_num x \<le> version_num r" if "map_of (md_versions s) i = Some x" "matches_conds conds x" for i x
  proof -
    have "x \<in> set (table_rows (md_versions s))" using that(1) set_table_rows by blast
    then show ?thesis using f(2) that(2) by simp
  qed
  then show "matches_conds conds r \<and> (\<exists>i. map_of (md_versions s) i = Some r) \<and>
      (\<forall>i r'. map_of (md_versions s) i = Some r' \<longrightarrow> matches_conds conds r' \<longrightarrow> version_num r' \<le> version_num r)"
    using m set_table_rows by blast
qed (simp_all only: memory_table, simp_all add: fun_eq_iff update_conv' delete_conv')

section \<open>A short history\<close>

text \<open>A Soul entry is created and then updated with its first version as the expected one, by an internal call.\<close>

definition plain_crypto :: crypto where
  "plain_crypto = \<lparr>sign_detached = (\<lambda>_ _. []), verify_detached = (\<lambda>_ _ _. False), sha256_hex = (\<lambda>t. t)\<rparr>"

definition demo_subject :: string where "demo_subject = soulSubjectId ''flint'' ''role''"

definition demo_input :: "string \<Rightarrow> string option \<Rightarrow> memory_db version_input" where
  "demo_input kind expected =
     \<lparr>vi_type = Soul, vi_subjectId = demo_subject, vi_agentId = ''flint'', vi_key = Some ''role'',
      vi_kind = kind, vi_rowId = ''s1'', vi_value = Some ''v'', vi_soulSnapshot = None, vi_memoryId = None, vi_visibility = None,
      vi_snapshot = None, vi_expectedVersion = expected, vi_previousSubjectId = None, vi_previousKey = None,
      vi_previousAgentId = None, vi_previousRowId = None\<rparr>"

abbreviation demo_now :: string where "demo_now \<equiv> ''2026-01-01T00:00:00.000Z''"

definition demo_attribution :: attribution where
  "demo_attribution = \<lparr>at_actorKind = ''internal'', at_actorId = None, at_sourceClass = ''internal''\<rparr>"

definition demo_append :: "string \<Rightarrow> string option \<Rightarrow> memory_db \<Rightarrow> version_outcome \<times> memory_db" where
  "demo_append kind expected =
     recordVersion (memory_deps plain_crypto) (Done ()) None \<lparr>rc_marker = True, rc_hasHeaders = False, rc_authorization = []\<rparr>
       Internal demo_now Soul (\<lambda>_. Inr (PrepInput (demo_input kind expected))) (\<lambda>s. Inr (RowValue Null, s))"

definition first_id :: string where "first_id = versionId Soul demo_subject 1"
definition second_id :: string where "second_id = versionId Soul demo_subject 2"

definition first_record :: jobj where
  "first_record = version_record (demo_input ''create'' None) demo_attribution demo_now plain_crypto None 1"
definition second_record :: jobj where
  "second_record = version_record (demo_input ''update'' (Some first_id)) demo_attribution demo_now plain_crypto (Some first_record) 2"

definition empty_db :: memory_db where "empty_db = \<lparr>md_versions = [], md_events = [], md_souls = []\<rparr>"
definition one_version :: memory_db where
  "one_version = \<lparr>md_versions = [(first_id, first_record)],
     md_events = [(event_id first_id, instructionEventFor first_record)], md_souls = []\<rparr>"
definition two_versions :: memory_db where
  "two_versions = \<lparr>md_versions = [(first_id, first_record), (second_id, second_record)],
     md_events = [(event_id first_id, instructionEventFor first_record),
       (event_id second_id, instructionEventFor second_record)], md_souls = []\<rparr>"

lemma demo_wf: "wf_input (demo_input kind expected)"
  by (simp add: wf_input_def demo_input_def demo_subject_def)

lemma event_field_id: "getp (instructionEventFor r) ''id'' = Str (event_id (js_String (getp r ''id'')))"
  by (simp add: instructionEventFor_def Let_def event_id_def)

lemma first_fields:
  "getp first_record ''id'' = Str first_id" "getp first_record ''version'' = Num (jint 1)"
  "matches_conds (subject_conds Soul demo_subject (Some (''flint'', ''role''))) first_record"
  by (simp_all add: first_record_def version_record_def demo_input_def first_id_def matches_conds_def subject_conds_def)

lemma second_id_other: "second_id \<noteq> first_id"
  using versionId_inj [of Soul demo_subject 2 Soul demo_subject 1] by (auto simp: first_id_def second_id_def)

lemma second_fields: "getp second_record ''id'' = Str second_id"
  by (simp add: second_record_def version_record_def demo_input_def second_id_def)

lemma demo_auth:
  "resolveVersionAuthorization Soul \<lparr>rc_marker = True, rc_hasHeaders = False, rc_authorization = []\<rparr> Internal = (demo_attribution, None)"
  by (simp add: resolveVersionAuthorization_def authorizeSoulWrite_def soulWriteSource_def isDeliberateInternalVerdict_def
      actor_of_def demo_attribution_def Let_def)

lemma demo_flags:
  "vd_tableLike (memory_deps cr)" "vd_eventsLike (memory_deps cr)" "vd_valid (memory_deps cr) r" "vd_eventValid (memory_deps cr) r"
  "vd_crypto (memory_deps cr) = cr"
  by (simp_all add: memory_deps_def)

lemma demo_no_identity_change: "\<not> identityChanged (demo_input kind expected)"
  by (simp add: identityChanged_def demo_input_def)

lemma demo_snapshot: "with_snapshot (demo_input kind expected) s = Inr (demo_input kind expected)"
  by (simp add: with_snapshot_def demo_input_def)

lemma demo_head_empty: "version_head (memory_deps cr) (demo_input kind expected) empty_db = Inr None"
  by (simp add: version_head_def demo_input_def readSoulHead_def readHead_def bind_sum_def demo_flags memory_table empty_db_def
      table_rows_def)

lemma demo_head_one: "version_head (memory_deps cr) (demo_input kind expected) one_version = Inr (Some first_record)"
proof -
  have "readHead (memory_deps cr) Soul demo_subject (Some (''flint'', ''role'')) one_version = Inr (Some first_record)"
    using first_fields(3) by (simp add: readHead_def demo_flags memory_table one_version_def table_rows_def)
  then show ?thesis by (simp add: version_head_def demo_input_def readSoulHead_def bind_sum_def flip: demo_subject_def)
qed

lemma demo_append_eq:
  assumes "version_head (memory_deps plain_crypto) (demo_input kind expected) s = Inr head"
    and "\<And>e. expected = Some e \<Longrightarrow> \<exists>h. head = Some h \<and> getp h ''id'' = Str e" "next_version head = Inr n"
    and "r = version_record (demo_input kind expected) demo_attribution demo_now plain_crypto head n"
    and "i = versionId Soul demo_subject n"
  shows "demo_append kind expected s =
    (VersionOk (RowValue Null) i,
     s\<lparr>md_versions := AList.update i r (md_versions s),
       md_events := AList.update (event_id i) (instructionEventFor r) (md_events s)\<rparr>)"
proof -
  have id: "getp r ''id'' = Str i" by (simp add: assms(4,5) version_record_def demo_input_def)
  have ty: "vi_type (demo_input kind expected) = Soul" "vi_expectedVersion (demo_input kind expected) = expected"
    "vi_subjectId (demo_input kind expected) = demo_subject" by (simp_all add: demo_input_def)
  have "append_version (memory_deps plain_crypto) demo_attribution demo_now (demo_input kind expected)
      (\<lambda>s. Inr (RowValue Null, s)) head s = Inr (VersionOk (RowValue Null) i,
     s\<lparr>md_versions := AList.update i r (md_versions s),
       md_events := AList.update (event_id i) (instructionEventFor r) (md_events s)\<rparr>)"
    by (simp add: append_version_def run_row_def denied_result_def bind_sum_def demo_snapshot close_old_subject_def
        demo_no_identity_change assms(3) store_version_def appendInstructionEvent_def demo_flags memory_table ty
        event_field_id id flip: assms(4,5))
  then show ?thesis
    using assms(1,2)
    by (auto simp: demo_append_def recordVersion_def record_body_def demo_auth bind_sum_def append_input_def ty demo_flags
        soul_occupied_def demo_no_identity_change split: option.splits)
qed

lemma demo_run:
  "demo_append ''create'' None empty_db = (VersionOk (RowValue Null) first_id, one_version)"
  "demo_append ''update'' (Some first_id) one_version = (VersionOk (RowValue Null) second_id, two_versions)"
proof -
  have "next_version None = Inr 1" "next_version (Some first_record) = Inr 2"
    by (simp_all add: next_version_def first_fields big_of_def)
  then show "demo_append ''create'' None empty_db = (VersionOk (RowValue Null) first_id, one_version)"
    "demo_append ''update'' (Some first_id) one_version = (VersionOk (RowValue Null) second_id, two_versions)"
    using demo_append_eq [OF demo_head_empty _ _ first_record_def first_id_def]
      demo_append_eq [OF demo_head_one _ _ second_record_def second_id_def] second_id_other
    by (simp_all add: empty_db_def one_version_def two_versions_def first_fields)
qed

lemma demo_history:
  "(history_step (memory_deps plain_crypto) (\<lambda>s. map_of (md_versions s)) (\<lambda>s. map_of (md_events s)))\<^sup>*\<^sup>* empty_db one_version"
  "(history_step (memory_deps plain_crypto) (\<lambda>s. map_of (md_versions s)) (\<lambda>s. map_of (md_events s)))\<^sup>*\<^sup>* empty_db two_versions"
proof -
  have step: "history_step (memory_deps plain_crypto) (\<lambda>s. map_of (md_versions s)) (\<lambda>s. map_of (md_events s)) s s'"
    if "demo_append kind expected s = (out, s')" for kind expected s out s'
    using that unfolding demo_append_def by (rule history_step.append) (auto simp: demo_wf keeps_history_def)
  show "(history_step (memory_deps plain_crypto) (\<lambda>s. map_of (md_versions s)) (\<lambda>s. map_of (md_events s)))\<^sup>*\<^sup>* empty_db one_version"
    by (rule r_into_rtranclp) (rule step [OF demo_run(1)])
  then show "(history_step (memory_deps plain_crypto) (\<lambda>s. map_of (md_versions s)) (\<lambda>s. map_of (md_events s)))\<^sup>*\<^sup>* empty_db two_versions"
    by (rule rtranclp.rtrancl_into_rtrancl) (rule step [OF demo_run(2)])
qed

lemma demo_empty: "\<forall>i. map_of (md_versions empty_db) i = None"
  by (simp add: empty_db_def)

lemma demo_stored:
  "map_of (md_versions one_version) first_id = Some first_record" "map_of (md_versions two_versions) second_id = Some second_record"
  using second_id_other by (simp_all add: one_version_def two_versions_def)

lemmas demo_trace = memory_store.history_store_axioms demo_history(2) demo_empty

theorem version_chain_intact_witness:
  "\<exists>p. map_of (md_versions two_versions) (versionId Soul demo_subject 1) = Some p \<and> getp p ''previousVersionHash'' = Null"
proof -
  obtain ty sid n where n: "1 \<le> n" "second_id = versionId ty sid n" and
    below: "\<And>k. 1 \<le> k \<Longrightarrow> k \<le> n \<Longrightarrow> \<exists>p. map_of (md_versions two_versions) (versionId ty sid k) = Some p \<and>
        (k = 1 \<longrightarrow> getp p ''previousVersionHash'' = Null)"
    using version_chain_intact [OF demo_trace demo_stored(2)] by metis
  moreover have "ty = Soul" "sid = demo_subject" using versionId_inj [of Soul demo_subject 2 ty sid n] n by (auto simp: second_id_def)
  ultimately show ?thesis using below [of 1] by simp
qed

theorem guarded_append_compares_and_sets_witness:
  "demo_append ''update'' (Some first_id) one_version = (VersionOk (RowValue Null) second_id, two_versions) \<and>
   (\<exists>n h. first_id = versionId Soul demo_subject n \<and> map_of (md_versions one_version) first_id = Some h)"
proof -
  have inp: "wf_input (demo_input ''update'' (Some first_id))" "vi_expectedVersion (demo_input ''update'' (Some first_id)) = Some first_id"
    "vi_type (demo_input ''update'' (Some first_id)) = Soul" "vi_subjectId (demo_input ''update'' (Some first_id)) = demo_subject"
    by (rule demo_wf) (simp_all add: demo_input_def)
  show ?thesis
    using guarded_append_compares_and_sets [OF memory_store.history_store_axioms demo_history(1) demo_empty
        demo_run(2) [unfolded demo_append_def] refl inp(1,2)] demo_run(2)
    by (auto simp: keeps_history_def inp)
qed

theorem head_digest_fixes_history_witness:
  "\<exists>p. map_of (md_versions two_versions) first_id = Some p \<and> getp p ''kind'' = getp first_record ''kind''"
proof -
  have inj: "inj_on (sha256_hex (vd_crypto (memory_deps plain_crypto))) A" for A by (simp add: memory_deps_def plain_crypto_def)
  have ver: "chain_verifies (vd_crypto (memory_deps plain_crypto)) (map_of (md_versions two_versions)) Soul demo_subject 2"
    by (rule memory_store.history_verifies [OF history_reachable [OF demo_trace] demo_stored(2) [unfolded second_id_def]]) simp
  have two: "map_of (md_versions two_versions) (versionId Soul demo_subject 2) = Some second_record"
    using demo_stored(2) by (simp only: second_id_def)
  have "\<exists>p p'. map_of (md_versions two_versions) (versionId Soul demo_subject 1) = Some p \<and>
      map_of (md_versions two_versions) (versionId Soul demo_subject 1) = Some p' \<and>
      (\<forall>f \<in> set RECORD_HASH_FIELDS. getp p f = getp p' f)"
    by (rule head_digest_fixes_history [OF demo_trace inj ver _ two two refl]) simp_all
  then show ?thesis by (simp add: two_versions_def first_id_def)
qed

end
