(* ===== verification/ServerStamps.thy ===== *)
theory ServerStamps
  imports VersionRecord WriteBack IdRules
begin

text \<open>
  The fields of a row that the server decides, whatever a request body says: the originator and the receiver stamps
  of federation (\<open>resources/originator-instance.ts\<close>), the logical subject of a skill (\<open>resources/skill-subject.ts\<close>), a
  supplied vector and its model stamp (\<open>resources/memory-supplied-vector.ts\<close>), and the reserved seed rows
  (\<open>resources/seed-reservation.ts\<close>). A body that is no single record is a \<open>js\<close> value left as it is.
\<close>

section \<open>The originator\<close>

fun on_record :: "(jobj \<Rightarrow> jobj) \<Rightarrow> js \<Rightarrow> js" where
  "on_record f (Obj ob) = Obj (f ob)" | "on_record f v = v"

fun stored_record :: "js \<Rightarrow> jobj option" where
  "stored_record (Obj ob) = Some ob" | "stored_record v = None"

definition stampOriginatorOnCreateWith :: "string option \<Rightarrow> js \<Rightarrow> js" where
  "stampOriginatorOnCreateWith localId = on_record (AList.update ''originatorInstanceId'' (opt_js localId))"

definition keepStoredOriginator :: "jobj option \<Rightarrow> js \<Rightarrow> js" where
  "keepStoredOriginator stored = on_record (\<lambda>content.
     (case stored of
        Some row \<Rightarrow>
          if getp row ''originatorInstanceId'' \<noteq> Undef
          then AList.update ''originatorInstanceId'' (getp row ''originatorInstanceId'') content
          else AList.delete ''originatorInstanceId'' content
      | None \<Rightarrow> AList.delete ''originatorInstanceId'' content))"

definition applyOriginatorInstanceIdWith :: "string option \<Rightarrow> js \<Rightarrow> js \<Rightarrow> js" where
  "applyOriginatorInstanceIdWith localId stored content =
     (case stored_record stored of
        Some row \<Rightarrow> keepStoredOriginator (Some row) content
      | None \<Rightarrow> stampOriginatorOnCreateWith localId content)"

definition dropClientOriginator :: "js \<Rightarrow> js" where
  "dropClientOriginator = on_record (AList.delete ''originatorInstanceId'')"

definition FEDERATION_BOOKKEEPING_FIELDS :: "string list" where
  "FEDERATION_BOOKKEEPING_FIELDS = [''_originatorInstanceId'', ''_syncedFrom'', ''_syncedAt'']"

definition dropClientFederationBookkeeping :: "js \<Rightarrow> js" where
  "dropClientFederationBookkeeping = on_record (fold AList.delete FEDERATION_BOOKKEEPING_FIELDS)"

definition keep_or_drop :: "jobj option \<Rightarrow> string \<Rightarrow> jobj \<Rightarrow> jobj" where
  "keep_or_drop stored k content =
     (case stored of
        Some row \<Rightarrow> if getp row k \<noteq> Undef then AList.update k (getp row k) content else AList.delete k content
      | None \<Rightarrow> AList.delete k content)"

definition keepStoredFederationBookkeeping :: "jobj option \<Rightarrow> js \<Rightarrow> js" where
  "keepStoredFederationBookkeeping stored = on_record (fold (keep_or_drop stored) FEDERATION_BOOKKEEPING_FIELDS)"

definition applyFederationBookkeeping :: "js \<Rightarrow> js \<Rightarrow> js" where
  "applyFederationBookkeeping stored content =
     (case stored_record stored of
        Some row \<Rightarrow> keepStoredFederationBookkeeping (Some row) content
      | None \<Rightarrow> dropClientFederationBookkeeping content)"

section \<open>The row a write is over\<close>

text \<open>\<open>getId\<close> of a resource: a value, or \<open>None\<close> where there is no such method or it throws.\<close>

definition urlTargetId :: "js option \<Rightarrow> js option" where
  "urlTargetId getId = (case getId of Some (Str s) \<Rightarrow> Some (Str s) | Some (Num n) \<Rightarrow> Some (Num n) | _ \<Rightarrow> None)"

definition idTargetMismatchDenial :: "js \<Rightarrow> js \<Rightarrow> response" where
  "idTargetMismatchDenial bodyId targetId =
     id_refusal 400 ''id_target_mismatch''
       (''the request body id '' @ json_text bodyId @ '' does not match the address it was sent to ('' @ json_text targetId @ '')'')"

definition storedRowLookupFailure :: response where
  "storedRowLookupFailure = id_refusal 500 ''stored_row_lookup_failed''
     ''the existing record could not be read, so the write was refused''"

definition id_text :: "js \<Rightarrow> string option" where
  "id_text v = (case v of Str s \<Rightarrow> Some s | Num n \<Rightarrow> Some (js_num_string n) | _ \<Rightarrow> None)"

text \<open>\<open>readRow\<close> is the raw table read, or the resource's bound read where the table has no reader; \<open>None\<close> throws.\<close>

definition resolveStoredRow :: "js option \<Rightarrow> js \<Rightarrow> (js \<Rightarrow> js option) \<Rightarrow> response + jobj option" where
  "resolveStoredRow getId content readRow =
     (let target = urlTargetId getId;
          bodyId = (case content of Obj ob \<Rightarrow> if nullish (getp ob ''id'') then None else Some (getp ob ''id'') | _ \<Rightarrow> None) in
      case (target, bodyId) of
        (Some t, Some b) \<Rightarrow>
          if id_text b \<noteq> id_text t then Inl (idTargetMismatchDenial b t)
          else (case readRow t of None \<Rightarrow> Inl storedRowLookupFailure | Some row \<Rightarrow> Inr (stored_record row))
      | (Some t, None) \<Rightarrow> (case readRow t of None \<Rightarrow> Inl storedRowLookupFailure | Some row \<Rightarrow> Inr (stored_record row))
      | (None, Some b) \<Rightarrow> (case readRow b of None \<Rightarrow> Inl storedRowLookupFailure | Some row \<Rightarrow> Inr (stored_record row))
      | (None, None) \<Rightarrow> Inr None)"

section \<open>The subject of a skill\<close>

fun nonEmptyString :: "js \<Rightarrow> string option" where
  "nonEmptyString (Str s) = (if s = [] then None else Some s)" | "nonEmptyString v = None"

definition deriveSkillSubjectId :: "string \<Rightarrow> jobj option \<Rightarrow> jobj option \<Rightarrow> string" where
  "deriveSkillSubjectId newPhysicalId storedHead predecessor =
     (case nonEmptyString (stored_field predecessor ''skillSubjectId'') of Some s \<Rightarrow> s
      | None \<Rightarrow> (case nonEmptyString (stored_field predecessor ''id'') of Some s \<Rightarrow> s
      | None \<Rightarrow> (case nonEmptyString (stored_field storedHead ''skillSubjectId'') of Some s \<Rightarrow> s
      | None \<Rightarrow> (case nonEmptyString (stored_field storedHead ''id'') of Some s \<Rightarrow> s
      | None \<Rightarrow> newPhysicalId))))"

definition carrySkillSubjectId :: "jobj option \<Rightarrow> string \<Rightarrow> string" where
  "carrySkillSubjectId predecessor fallbackId =
     (case nonEmptyString (stored_field predecessor ''skillSubjectId'') of Some s \<Rightarrow> s
      | None \<Rightarrow> (case nonEmptyString (stored_field predecessor ''id'') of Some s \<Rightarrow> s | None \<Rightarrow> fallbackId))"

section \<open>A supplied vector\<close>

definition hasSuppliedEmbedding :: "js \<Rightarrow> bool" where "hasSuppliedEmbedding v \<longleftrightarrow> \<not> nullish v"

definition suppliesEmbeddingModel :: "js \<Rightarrow> bool" where
  "suppliesEmbeddingModel content = (case content of Obj ob \<Rightarrow> has_own content ''embeddingModel'' | _ \<Rightarrow> False)"

text \<open>A typed array is the list of its numbers here.\<close>

definition sameVector :: "js \<Rightarrow> js \<Rightarrow> bool" where "sameVector a b = isDeepStrictEqual a b"

record supplied_flags =
  sup_vector :: bool
  sup_stamp :: bool

definition suppliedVectorFlags :: "js \<Rightarrow> jobj option \<Rightarrow> supplied_flags" where
  "suppliedVectorFlags content stored =
     \<lparr>sup_vector = hasSuppliedEmbedding (field content ''embedding'') \<and>
        \<not> (case stored of Some row \<Rightarrow> sameVector (field content ''embedding'') (getp row ''embedding'') | None \<Rightarrow> False),
      sup_stamp = suppliesEmbeddingModel content \<and>
        \<not> (case stored of Some row \<Rightarrow> isDeepStrictEqual (field content ''embeddingModel'') (getp row ''embeddingModel'') | None \<Rightarrow> False)\<rparr>"

definition keepsSuppliedVector :: "auth_verdict \<Rightarrow> bool" where
  "keepsSuppliedVector auth = (case auth of Internal \<Rightarrow> True | Agent _ admin \<Rightarrow> admin | Anonymous \<Rightarrow> False)"

text \<open>The row after the discard, with whether a field was removed or replaced.\<close>

definition discardSuppliedVector :: "auth_verdict \<Rightarrow> supplied_flags \<Rightarrow> jobj option \<Rightarrow> js \<Rightarrow> js \<times> bool" where
  "discardSuppliedVector auth supplied stored content =
     (case content of
        Obj ob \<Rightarrow>
          if keepsSuppliedVector auth then (content, False)
          else
            let carriedVector = (\<not> sup_vector supplied \<and> hasSuppliedEmbedding (getp ob ''embedding''));
                drops = (sup_vector supplied \<and> hasSuppliedEmbedding (getp ob ''embedding''));
                ob1 = (if drops then AList.delete ''embedding'' ob else ob) in
            if (sup_vector supplied \<or> sup_stamp supplied) \<and> \<not> carriedVector
            then (Obj (AList.delete ''embeddingModel'' ob1), has_own (Obj ob1) ''embeddingModel'' \<or> drops)
            else (case stored of
                Some row \<Rightarrow>
                  if sup_stamp supplied \<and> sameVector (getp ob1 ''embedding'') (getp row ''embedding'')
                  then (Obj (if has_own (Obj row) ''embeddingModel''
                             then AList.update ''embeddingModel'' (getp row ''embeddingModel'') ob1
                             else AList.delete ''embeddingModel'' ob1), True)
                  else (Obj ob1, drops)
              | None \<Rightarrow> (Obj ob1, drops))
      | _ \<Rightarrow> (content, False))"

section \<open>Reserved seed rows\<close>

text \<open>The ids of a write: the bound id of its resource, and those of the body's records.\<close>

definition body_ids :: "js \<Rightarrow> js list" where
  "body_ids content = map (\<lambda>r. field r ''id'') (filter (\<lambda>r. has_own r ''id'') (case content of Arr rs \<Rightarrow> rs | _ \<Rightarrow> [content]))"

definition writeTargetIds :: "js option \<Rightarrow> js \<Rightarrow> js list" where
  "writeTargetIds getId content = (case getId of Some i \<Rightarrow> [i] | None \<Rightarrow> []) @ body_ids content"

definition reserved_denial :: "string \<Rightarrow> req_context \<Rightarrow> auth_verdict \<Rightarrow> response option" where
  "reserved_denial message c auth =
     (if auth = Anonymous then Some kit_unauth
      else if soulWriteSource c auth \<noteq> None then None
      else Some (kit_forbidden message))"

definition reservedSeedWriteDenial :: "string \<Rightarrow> js list \<Rightarrow> req_context \<Rightarrow> auth_verdict \<Rightarrow> response option" where
  "reservedSeedWriteDenial table ids c auth =
     (case find (isReservedSeedId table) ids of
        None \<Rightarrow> None
      | Some i \<Rightarrow> reserved_denial (''seed_id_reserved: '' @ table @ '' '' @ json_text (Str (js_String i)) @
          '' requires the operator source (an authenticated Basic administrator or deliberate internal call)'') c auth)"

text \<open>The verdict is resolved only when an id is reserved.\<close>

definition refuseReservedSeedWrite :: "string \<Rightarrow> js list \<Rightarrow> req_context \<Rightarrow> auth_verdict \<Rightarrow> response option" where
  "refuseReservedSeedWrite table ids c auth =
     (if \<not> list_ex (isReservedSeedId table) ids then None else reservedSeedWriteDenial table ids c auth)"

definition reservedSeedSubjectDenial :: "string \<Rightarrow> js list \<Rightarrow> req_context \<Rightarrow> auth_verdict \<Rightarrow> response option" where
  "reservedSeedSubjectDenial table subjectIds c auth =
     (case find (isReservedSeedId table) subjectIds of
        None \<Rightarrow> None
      | Some i \<Rightarrow> reserved_denial (''seed_subject_reserved: the '' @ table @ '' '' @ json_text (Str (js_String i)) @
          '' lineage requires the operator source (an authenticated Basic administrator or deliberate internal call)'') c auth)"

definition reservedSeedFeedWriteDenial :: "string \<Rightarrow> js list \<Rightarrow> response option" where
  "reservedSeedFeedWriteDenial table ids =
     (case find (\<lambda>i. \<not> nullish i \<and> isReservedSeedId table (Str (js_String i))) ids of
        None \<Rightarrow> None
      | Some i \<Rightarrow> Some (kit_forbidden (''seed_id_reserved: '' @ table @ '' '' @ json_text (Str (js_String i)) @
          '' is written by the flair init seed; the feed ingest does not write it'')))"

section \<open>What a body cannot set\<close>

lemma getp_keep_or_drop: "getp (keep_or_drop stored k ob) j = (if j = k then stored_field stored k else getp ob j)"
  by (simp add: keep_or_drop_def stored_field_def split: option.splits)

text \<open>The stamps of a stored row are the server's: after both rules a record holds the stored originator and receiver stamps, or
  on a create this instance's id and no receiver stamp, whatever its body said; every other field is the body's.\<close>

theorem server_stamps_stand:
  "\<exists>row. applyFederationBookkeeping stored (applyOriginatorInstanceIdWith localId stored (Obj ob)) = Obj row \<and>
     getp row ''originatorInstanceId'' =
       (case stored_record stored of Some r \<Rightarrow> getp r ''originatorInstanceId'' | None \<Rightarrow> opt_js localId) \<and>
     (\<forall>k \<in> set FEDERATION_BOOKKEEPING_FIELDS. getp row k = stored_field (stored_record stored) k) \<and>
     (\<forall>k. k \<notin> set (''originatorInstanceId'' # FEDERATION_BOOKKEEPING_FIELDS) \<longrightarrow> getp row k = getp ob k)"
  by (cases "stored_record stored")
     (simp_all add: applyFederationBookkeeping_def applyOriginatorInstanceIdWith_def keepStoredFederationBookkeeping_def
       dropClientFederationBookkeeping_def keepStoredOriginator_def stampOriginatorOnCreateWith_def
       FEDERATION_BOOKKEEPING_FIELDS_def getp_keep_or_drop stored_field_def)

lemma suppliedD:
  assumes "\<not> sup_vector (suppliedVectorFlags (Obj ob) stored)" "hasSuppliedEmbedding (getp ob ''embedding'')"
  shows "\<exists>s. stored = Some s \<and> sameVector (getp ob ''embedding'') (getp s ''embedding'')"
  using assms by (auto simp: suppliedVectorFlags_def split: option.splits)

lemma suppliedStampD:
  assumes "\<not> sup_stamp (suppliedVectorFlags (Obj ob) stored)" "has_own (Obj ob) ''embeddingModel''"
  shows "\<exists>s. stored = Some s \<and> isDeepStrictEqual (getp ob ''embeddingModel'') (getp s ''embeddingModel'')"
  using assms by (auto simp: suppliedVectorFlags_def suppliesEmbeddingModel_def split: option.splits)

lemma has_own_update [simp]: "has_own (Obj (AList.update k v ob)) j = (j = k \<or> has_own (Obj ob) j)"
  by (simp add: update_conv)

lemma has_own_delete [simp]: "has_own (Obj (AList.delete k ob)) j = (j \<noteq> k \<and> has_own (Obj ob) j)"
  by (simp add: delete_conv)

text \<open>A write that is neither an administrator's nor the process's own stores no vector and no model stamp that its caller chose:
  both are absent or those of the stored row.\<close>

theorem supplied_vector_discarded:
  assumes "\<not> keepsSuppliedVector auth"
    and "fst (discardSuppliedVector auth (suppliedVectorFlags (Obj ob) stored) stored (Obj ob)) = Obj row"
  shows "(hasSuppliedEmbedding (getp row ''embedding'') \<longrightarrow>
       (\<exists>s. stored = Some s \<and> sameVector (getp row ''embedding'') (getp s ''embedding''))) \<and>
    (has_own (Obj row) ''embeddingModel'' \<longrightarrow>
       (\<exists>s. stored = Some s \<and> isDeepStrictEqual (getp row ''embeddingModel'') (getp s ''embeddingModel'')))"
proof -
  let ?fl = "suppliedVectorFlags (Obj ob) stored"
  show ?thesis
  proof (cases "sup_vector ?fl")
    case True
    then have "hasSuppliedEmbedding (getp ob ''embedding'')" by (simp add: suppliedVectorFlags_def)
    then have "row = AList.delete ''embeddingModel'' (AList.delete ''embedding'' ob)"
      using assms True by (simp add: discardSuppliedVector_def)
    then show ?thesis by (simp add: hasSuppliedEmbedding_def nullish_def del: has_own.simps)
  next
    case False
    show ?thesis
    proof (cases "sup_stamp ?fl")
      case True
      show ?thesis
      proof (cases "hasSuppliedEmbedding (getp ob ''embedding'')")
        case False
        then have "row = AList.delete ''embeddingModel'' ob"
          using assms \<open>\<not> sup_vector ?fl\<close> True by (simp add: discardSuppliedVector_def)
        then show ?thesis using False by (simp del: has_own.simps)
      next
        case s: True
        obtain st where st: "stored = Some st" "sameVector (getp ob ''embedding'') (getp st ''embedding'')"
          using suppliedD [OF False s] by blast
        then have "row = (if has_own (Obj st) ''embeddingModel'' then AList.update ''embeddingModel'' (getp st ''embeddingModel'') ob
            else AList.delete ''embeddingModel'' ob)"
          using assms False True s by (simp add: discardSuppliedVector_def del: has_own.simps split: if_splits)
        then show ?thesis using st by (simp add: isDeepStrictEqual_def del: has_own.simps)
      qed
    next
      case n: False
      then have "row = ob" using assms False by (simp add: discardSuppliedVector_def split: option.splits)
      then show ?thesis using suppliedD [OF False] suppliedStampD [OF n] by (simp del: has_own.simps)
    qed
  qed
qed

definition stored_demo :: jobj where
  "stored_demo = [(''id'', Str ''m''), (''embedding'', Arr [Num (jint 1)]), (''embeddingModel'', Str ''nomic'')]"

theorem supplied_vector_discarded_witness:
  "fst (discardSuppliedVector (Agent ''a'' False)
      (suppliedVectorFlags (Obj [(''embedding'', Arr [Num (jint 1)]), (''embeddingModel'', Str ''other'')]) (Some stored_demo))
      (Some stored_demo) (Obj [(''embedding'', Arr [Num (jint 1)]), (''embeddingModel'', Str ''other'')])) =
     Obj [(''embedding'', Arr [Num (jint 1)]), (''embeddingModel'', Str ''nomic'')] \<and>
   isDeepStrictEqual (Str ''nomic'') (getp stored_demo ''embeddingModel'')"
proof -
  have run: "fst (discardSuppliedVector (Agent ''a'' False)
      (suppliedVectorFlags (Obj [(''embedding'', Arr [Num (jint 1)]), (''embeddingModel'', Str ''other'')]) (Some stored_demo))
      (Some stored_demo) (Obj [(''embedding'', Arr [Num (jint 1)]), (''embeddingModel'', Str ''other'')])) =
     Obj [(''embedding'', Arr [Num (jint 1)]), (''embeddingModel'', Str ''nomic'')]"
    by (simp add: discardSuppliedVector_def suppliedVectorFlags_def suppliesEmbeddingModel_def stored_demo_def sameVector_def
        isDeepStrictEqual_def keepsSuppliedVector_def hasSuppliedEmbedding_def nullish_def)
  have keep: "\<not> keepsSuppliedVector (Agent ''a'' False)" by (simp add: keepsSuppliedVector_def)
  show ?thesis using run supplied_vector_discarded [OF keep run] by (simp add: stored_demo_def)
qed

end
