(* ===== verification/VersionRead.thy ===== *)
theory VersionRead
  imports VersionRecord
begin

text \<open>
  Reading the version history: the REST resource \<open>resources/InstructionVersion.ts\<close>, the gate on the payload of a closed
  skill (\<open>closedSkillPayloadReadable\<close> of \<open>resources/skill-version-write.ts\<close>) and the open-live test of
  \<open>src/lib/open-live-row.ts\<close>. The reads of a subject's head and of a Memory row are fields of \<open>skill_reads\<close>, \<open>None\<close>
  where the read throws; the database search and get are arguments.
\<close>

section \<open>Live rows\<close>

record skill_reads =
  sk_head :: "string \<Rightarrow> jobj option option"
  sk_memory :: "string \<Rightarrow> js option"
  sk_dparse :: "string \<Rightarrow> int option"
  sk_now :: int

text \<open>\<open>Date.parse(v) > Date.now()\<close>\<close>

definition later_than_now :: "skill_reads \<Rightarrow> string \<Rightarrow> bool" where
  "later_than_now rd v \<longleftrightarrow> (case sk_dparse rd v of None \<Rightarrow> False | Some t \<Rightarrow> sk_now rd < t)"

definition isOpenLiveRow :: "skill_reads \<Rightarrow> js \<Rightarrow> bool" where
  "isOpenLiveRow rd row \<longleftrightarrow>
     truthy row \<and> is_object row \<and> field row ''archived'' \<noteq> Bool True \<and>
     (nullish (field row ''expiresAt'') \<or> (case field row ''expiresAt'' of Str v \<Rightarrow> later_than_now rd v | _ \<Rightarrow> False)) \<and>
     (case field row ''validTo'' of Str v \<Rightarrow> v = [] | _ \<Rightarrow> True)"

definition rowIsSkill :: "js \<Rightarrow> bool" where
  "rowIsSkill row \<longleftrightarrow> truthy row \<and> (case field row ''tags'' of Arr ts \<Rightarrow> Str ''skill'' \<in> set ts | _ \<Rightarrow> False)"

text \<open>The ends of validity that a current row must not have passed.\<close>

definition end_open :: "skill_reads \<Rightarrow> js \<Rightarrow> bool" where
  "end_open rd v \<longleftrightarrow> nullish v \<or> (case v of Str t \<Rightarrow> later_than_now rd t | _ \<Rightarrow> False)"

section \<open>The current authority over a skill\<close>

text \<open>The part that both gates share: the subject's head, and the live row it names.\<close>

definition live_authority :: "skill_reads \<Rightarrow> string \<Rightarrow> string \<Rightarrow> jobj \<Rightarrow> string \<Rightarrow> bool" where
  "live_authority rd subjectId reader head memoryId =
     (case sk_memory rd memoryId of
        None \<Rightarrow> False
      | Some live \<Rightarrow>
          truthy live \<and> field live ''id'' = Str memoryId \<and> field live ''skillSubjectId'' = Str subjectId \<and>
          strict_eq (field live ''agentId'') (getp head ''agentId'') \<and> field live ''archived'' \<noteq> Bool True \<and> rowIsSkill live \<and>
          end_open rd (field live ''validTo'') \<and> end_open rd (field live ''expiresAt'') \<and>
          skillRefReadable (Obj [(''agentId'', field live ''agentId''), (''visibility'', field live ''visibility'')]) reader)"

definition current_authority :: "skill_reads \<Rightarrow> string \<Rightarrow> string \<Rightarrow> bool" where
  "current_authority rd subjectId reader =
     (case sk_head rd subjectId of
        None \<Rightarrow> False
      | Some None \<Rightarrow> False
      | Some (Some head) \<Rightarrow>
          if getp head ''subjectType'' \<noteq> Str SKILL_SUBJECT_TYPE \<or> getp head ''subjectId'' \<noteq> Str subjectId then False
          else if \<not> (case getp head ''agentId'' of
                 Str owner \<Rightarrow> skillRefReadable (Obj [(''agentId'', Str owner), (''visibility'', getp head ''visibility'')]) owner
               | _ \<Rightarrow> False) then False
          else if getp head ''kind'' = Str ''delete'' then getp head ''memoryId'' = Null \<and> skillRefReadable (Obj head) reader
          else if getp head ''kind'' \<noteq> Str ''create'' \<and> getp head ''kind'' \<noteq> Str ''update'' then False
          else case getp head ''memoryId'' of
              Str memoryId \<Rightarrow> if memoryId = [] then False else live_authority rd subjectId reader head memoryId
            | _ \<Rightarrow> False)"

definition skillVersionReadable :: "skill_reads \<Rightarrow> auth_verdict \<Rightarrow> js \<Rightarrow> bool" where
  "skillVersionReadable rd auth row =
     (case auth of
        Internal \<Rightarrow> True
      | Anonymous \<Rightarrow> False
      | Agent reader admin \<Rightarrow>
          if admin then True
          else case field row ''subjectId'' of
              Str sid \<Rightarrow>
                if sid = [] then False
                else if \<not> skillRefReadable (Obj [(''agentId'', field row ''agentId''), (''visibility'', field row ''visibility'')]) reader
                then False
                else current_authority rd sid reader
            | _ \<Rightarrow> False)"

definition closedSkillPayloadReadable :: "skill_reads \<Rightarrow> js \<Rightarrow> string \<Rightarrow> bool" where
  "closedSkillPayloadReadable rd row readerId =
     (if \<not> truthy row \<or> \<not> is_object row \<or> \<not> rowIsSkill row then True
      else if isOpenLiveRow rd row then True
      else if \<not> skillRefReadable (Obj [(''agentId'', field row ''agentId''), (''visibility'', field row ''visibility'')]) readerId then False
      else current_authority rd
             (case field row ''skillSubjectId'' of Str s \<Rightarrow> if s = [] then js_String (field row ''id'') else s
              | _ \<Rightarrow> js_String (field row ''id'')) readerId)"

definition rowReadable :: "skill_reads \<Rightarrow> auth_verdict \<Rightarrow> js \<Rightarrow> bool" where
  "rowReadable rd auth row =
     (if \<not> truthy row \<or> \<not> is_object row then False
      else if subjectTypeReadable (field row ''subjectType'') then True
      else if field row ''subjectType'' = Str SKILL_SUBJECT_TYPE then skillVersionReadable rd auth row
      else False)"

section \<open>The resource\<close>

definition MUTATION_DENIED :: response where
  "MUTATION_DENIED = json_response 403 (Obj [(''error'', Str ''instruction_version_immutable''),
     (''message'', Str (''InstructionVersion: resource REST clients cannot write or delete version records; the server appends '' @
        ''them, and when a request's close fails it attempts to remove the version that request appended only while '' @
        ''that version is still the head, reporting a compensation failure when the removal cannot be confirmed''))])"

definition version_allowCreate :: bool where "version_allowCreate = False"
definition version_allowUpdate :: bool where "version_allowUpdate = False"
definition version_allowDelete :: bool where "version_allowDelete = False"

definition version_post :: response where "version_post = MUTATION_DENIED"
definition version_put :: response where "version_put = MUTATION_DENIED"
definition version_patch :: response where "version_patch = MUTATION_DENIED"
definition version_delete_verb :: response where "version_delete_verb = MUTATION_DENIED"

definition readableSubjectScope :: "string \<Rightarrow> read_scope" where
  "readableSubjectScope _ =
     \<lparr>rs_condition = Group ''or''
        [Leaf (Str ''subjectType'') ''equals'' (Str ''soul''), Leaf (Str ''subjectType'') ''equals'' (Str SKILL_SUBJECT_TYPE)],
      rs_isAllowed = (\<lambda>_. True)\<rparr>"

definition PAGING_KEYS :: "string list" where "PAGING_KEYS = [''select'', ''property'', ''limit'', ''offset'']"

fun withoutPagingOrSelection :: "caller_query \<Rightarrow> caller_query" where
  "withoutPagingOrSelection (QObject rest conds operator) =
     (if \<forall>k \<in> set PAGING_KEYS. getp rest k = Undef then QObject rest conds operator
      else QObject (fold AList.delete PAGING_KEYS rest) conds operator)"
| "withoutPagingOrSelection q = q"

definition page_number :: "js \<Rightarrow> jnum option" where
  "page_number raw = (if nullish raw then None else Some (js_num raw))"

fun pagingOf :: "caller_query \<Rightarrow> jnum option \<times> jnum option" where
  "pagingOf (QObject rest _ _) = (page_number (getp rest ''limit''), page_number (getp rest ''offset''))"
| "pagingOf _ = (None, None)"

text \<open>The generator of the authorized rows, with the counts of skipped and yielded ones.\<close>

fun authorizedRows :: "(js \<Rightarrow> bool) \<Rightarrow> jnum option \<Rightarrow> jnum option \<Rightarrow> nat \<Rightarrow> nat \<Rightarrow> js list \<Rightarrow> js list" where
  "authorizedRows readable limit offset skipped yielded [] = []"
| "authorizedRows readable limit offset skipped yielded (row # rows) =
     (if \<not> readable row then authorizedRows readable limit offset skipped yielded rows
      else if (case offset of None \<Rightarrow> False | Some k \<Rightarrow> jlt (jint (int skipped)) k)
      then authorizedRows readable limit offset (Suc skipped) yielded rows
      else if (case limit of None \<Rightarrow> False | Some l \<Rightarrow> jle l (jint (int yielded))) then []
      else row # authorizedRows readable limit offset skipped (Suc yielded) rows)"

datatype version_rows = RowsRefused response | RowsFound "js list"

definition version_search :: "skill_reads \<Rightarrow> auth_verdict \<Rightarrow> (scoped_query \<Rightarrow> js list) \<Rightarrow> caller_query \<Rightarrow> version_rows" where
  "version_search rd auth superSearch q =
     (if auth = Anonymous then RowsRefused kit_unauth
      else case pagingOf q of (limit, offset) \<Rightarrow>
        RowsFound (authorizedRows (rowReadable rd auth) limit offset 0 0
          (superSearch (scopedSearch readableSubjectScope (case auth of Agent a _ \<Rightarrow> a | _ \<Rightarrow> []) (withoutPagingOrSelection q)))))"

datatype version_answer = VersionSearch js | VersionRefused response | VersionRow row_result

definition version_get :: "skill_reads \<Rightarrow> auth_verdict \<Rightarrow> (js \<Rightarrow> row_result) \<Rightarrow> js \<Rightarrow> version_answer" where
  "version_get rd auth superGet target =
     (if \<not> truthy target \<or> truthy (field target ''isCollection'') then VersionSearch target
      else if auth = Anonymous then VersionRefused kit_not_found
      else
        let shaped = is_object target \<and> is_shaped target;
            plain = (if shaped \<and> \<not> nullish (target_id target) then Obj [(''id'', target_id target)] else target) in
        (case superGet plain of
           RowResponse _ \<Rightarrow> VersionRefused kit_not_found
         | RowValue row \<Rightarrow>
             if \<not> truthy row \<or> \<not> rowReadable rd auth row then VersionRefused kit_not_found
             else VersionRow (if shaped then superGet target else RowValue row)))"

section \<open>What a reader sees\<close>

lemma skill_ref: "skillRefReadable (Obj r) reader \<longleftrightarrow>
    (\<exists>owner. getp r ''agentId'' = Str owner \<and> owner \<noteq> [] \<and>
       (getp r ''visibility'' = Str SHARED_VISIBILITY \<or> owner = reader \<and> getp r ''visibility'' = Str PRIVATE_VISIBILITY))"
  by (auto simp: skillRefReadable_def split: js.splits)

lemma page_rows:
  "authorizedRows readable (map_option (\<lambda>l. jint (int l)) L) (map_option (\<lambda>k. jint (int k)) K) s y rows =
     (case L of None \<Rightarrow> id | Some l \<Rightarrow> take (l - y)) (drop (case K of None \<Rightarrow> 0 | Some k \<Rightarrow> k - s) (filter readable rows))"
proof (induction rows arbitrary: s y)
  case (Cons row rows)
  show ?case
    by (cases K; cases L) (use Cons.IH in \<open>auto simp: drop_Cons' take_Cons'\<close>)
qed (auto split: option.splits)

text \<open>A page of the history never counts a row its reader may not see: for whole limits and offsets, the search answers
  with exactly that page of the readable rows of a scan that carries neither page nor projection, with the subject scope
  as its outermost condition.\<close>

theorem version_search_pages_readable_rows:
  assumes "auth \<noteq> Anonymous" "getp rest ''limit'' = Num (jint (int l))" "getp rest ''offset'' = Num (jint (int k))"
  shows "\<exists>sq cs. version_search rd auth superSearch (QObject rest conds operator) =
      RowsFound (take l (drop k (filter (rowReadable rd auth) (superSearch sq)))) \<and>
     sq_conditions sq = rs_condition (readableSubjectScope []) # cs \<and> sq_operator sq = ''and'' \<and>
     (\<forall>key \<in> set PAGING_KEYS. getp (sq_rest sq) key = Undef)"
proof -
  let ?sq = "scopedSearch readableSubjectScope (case auth of Agent a _ \<Rightarrow> a | _ \<Rightarrow> [])
    (withoutPagingOrSelection (QObject rest conds operator))"
  have paging: "pagingOf (QObject rest conds operator) = (map_option (\<lambda>n. jint (int n)) (Some l), map_option (\<lambda>n. jint (int n)) (Some k))"
    by (simp add: page_number_def nullish_def assms)
  have "version_search rd auth superSearch (QObject rest conds operator) =
      RowsFound (take l (drop k (filter (rowReadable rd auth) (superSearch ?sq))))"
    using assms(1) page_rows [of "rowReadable rd auth" "Some l" "Some k" 0 0] by (simp add: version_search_def paging del: pagingOf.simps)
  moreover obtain cs where "sq_conditions ?sq = rs_condition (readableSubjectScope []) # cs"
    using scoped_head [of readableSubjectScope] by (fastforce simp: readableSubjectScope_def)
  moreover have "sq_operator ?sq = ''and''" "\<forall>key \<in> set PAGING_KEYS. getp (sq_rest ?sq) key = Undef"
    by (auto simp: PAGING_KEYS_def split: if_splits)
  ultimately show ?thesis by blast
qed

text \<open>C18. Reading an earlier version of a skill needs both authorities: the version's own and the current one. Tightening a skill
  to private, or handing it to another owner, closes its whole history to other agents.\<close>

theorem history_follows_current_authority:
  assumes "skillVersionReadable rd (Agent reader False) row"
  shows "(field row ''agentId'' = Str reader \<or> field row ''visibility'' = Str SHARED_VISIBILITY) \<and>
    (\<exists>sid head. field row ''subjectId'' = Str sid \<and> sk_head rd sid = Some (Some head) \<and>
      (if getp head ''kind'' = Str ''delete''
       then getp head ''agentId'' = Str reader \<or> getp head ''visibility'' = Str SHARED_VISIBILITY
       else \<exists>memoryId live. getp head ''memoryId'' = Str memoryId \<and> sk_memory rd memoryId = Some live \<and>
         field live ''agentId'' = getp head ''agentId'' \<and> rowIsSkill live \<and> field live ''archived'' \<noteq> Bool True \<and>
         (field live ''agentId'' = Str reader \<or> field live ''visibility'' = Str SHARED_VISIBILITY)))"
proof -
  obtain sid where sid: "field row ''subjectId'' = Str sid"
    "skillRefReadable (Obj [(''agentId'', field row ''agentId''), (''visibility'', field row ''visibility'')]) reader"
    "current_authority rd sid reader"
    using assms by (auto simp: skillVersionReadable_def split: js.splits if_splits)
  obtain head where head: "sk_head rd sid = Some (Some head)"
    using sid(3) by (auto simp: current_authority_def split: option.splits)
  show ?thesis
  proof (cases "getp head ''kind'' = Str ''delete''")
    case True
    then have "skillRefReadable (Obj head) reader" using sid(3) head by (auto simp: current_authority_def split: if_splits)
    then show ?thesis using sid(1,2) head True by (auto simp: skill_ref)
  next
    case False
    then obtain memoryId where m: "getp head ''memoryId'' = Str memoryId" "live_authority rd sid reader head memoryId"
      using sid(3) head by (auto simp: current_authority_def split: if_splits js.splits)
    then obtain live where l: "sk_memory rd memoryId = Some live" "strict_eq (field live ''agentId'') (getp head ''agentId'')"
      "rowIsSkill live" "field live ''archived'' \<noteq> Bool True"
      "skillRefReadable (Obj [(''agentId'', field live ''agentId''), (''visibility'', field live ''visibility'')]) reader"
      by (auto simp: live_authority_def split: option.splits)
    then have "field live ''agentId'' = getp head ''agentId''" by (auto simp: skill_ref)
    then show ?thesis using sid(1,2) head False m(1) l by (auto simp: skill_ref)
  qed
qed

section \<open>Two readers\<close>

definition demo_skill :: "string \<Rightarrow> jobj" where
  "demo_skill visibility = [(''id'', Str ''m2''), (''skillSubjectId'', Str ''k1''), (''agentId'', Str ''flint''),
     (''visibility'', Str visibility), (''tags'', Arr [Str ''skill''])]"

definition demo_version :: jobj where
  "demo_version = [(''subjectType'', Str ''skill''), (''subjectId'', Str ''k1''), (''agentId'', Str ''flint''),
     (''visibility'', Str ''shared''), (''kind'', Str ''update''), (''memoryId'', Str ''m2'')]"

definition demo_reads :: "string \<Rightarrow> skill_reads" where
  "demo_reads visibility = \<lparr>sk_head = (\<lambda>_. Some (Some demo_version)), sk_memory = (\<lambda>_. Some (Obj (demo_skill visibility))),
     sk_dparse = (\<lambda>_. None), sk_now = 0\<rparr>"

lemma demo_readable:
  "skillVersionReadable (demo_reads ''shared'') (Agent ''anvil'' False) (Obj demo_version)"
  "\<not> skillVersionReadable (demo_reads ''private'') (Agent ''anvil'' False) (Obj demo_version)"
  by code_simp+

theorem history_follows_current_authority_witness:
  "field (Obj demo_version) ''visibility'' = Str SHARED_VISIBILITY \<and>
   \<not> skillVersionReadable (demo_reads ''private'') (Agent ''anvil'' False) (Obj demo_version)"
  using history_follows_current_authority [OF demo_readable(1)] demo_readable(2) by (simp add: demo_version_def)

theorem version_search_pages_readable_rows_witness:
  "version_search (demo_reads ''private'') (Agent ''anvil'' False) (\<lambda>_. [Obj demo_version, Obj [(''subjectType'', Str ''soul'')]])
     (QObject [(''limit'', Num (jint 1)), (''offset'', Num (jint 0))] Absent None) = RowsFound [Obj [(''subjectType'', Str ''soul'')]]"
proof -
  have f: "filter (rowReadable (demo_reads ''private'') (Agent ''anvil'' False)) [Obj demo_version, Obj [(''subjectType'', Str ''soul'')]] =
      [Obj [(''subjectType'', Str ''soul'')]]" by code_simp
  show ?thesis
    using version_search_pages_readable_rows [of "Agent ''anvil'' False" "[(''limit'', Num (jint 1)), (''offset'', Num (jint 0))]" 1 0
        "demo_reads ''private''" "\<lambda>_. [Obj demo_version, Obj [(''subjectType'', Str ''soul'')]]" Absent None] f
    by auto
qed

end
