(* ===== verification/SkillWrite.thy ===== *)
theory SkillWrite
  imports ServerStamps VersionRead GrantedClose
begin

text \<open>
  Writing a skill: \<open>resources/skill-version-write.ts\<close>, and the plans and the delete confirmation of
  \<open>resources/Memory.ts\<close>. A write runs inside \<open>recordVersion\<close> of theory \<open>VersionRecord\<close>: the plan is made from the live head
  under the subject lock, the successor, the close and the version share one transaction, and the effect is then
  confirmed against the committed store. The Memory table is data of \<open>skill_deps\<close> over an abstract state; a committed
  read may see any state, so each of them has its own argument. The write journal's undo is a parameter.
\<close>

section \<open>The body of a skill write\<close>

definition response_json :: "nat \<Rightarrow> jobj \<Rightarrow> response" where
  "response_json st b = \<lparr>status = st, body = Obj b, headers = [(''content-type'', ''application/json'')]\<rparr>"

definition skillWriteConflict :: "string \<Rightarrow> response" where
  "skillWriteConflict e = response_json 409 [(''error'', Str e)]"

definition row_js :: "jobj option \<Rightarrow> js" where
  "row_js r = (case r of None \<Rightarrow> Null | Some ob \<Rightarrow> Obj ob)"

definition skillDefaultVisibility :: "js \<Rightarrow> string" where
  "skillDefaultVisibility durability =
     (if durability = Str ''permanent'' \<or> durability = Str ''persistent'' then ''shared'' else ''private'')"

definition skillVersionVisibility :: "jobj \<Rightarrow> string" where
  "skillVersionVisibility row =
     (case getp row ''visibility'' of
        Str v \<Rightarrow> if v = PRIVATE_VISIBILITY \<or> v = SHARED_VISIBILITY then v else skillDefaultVisibility (getp row ''durability'')
      | _ \<Rightarrow> skillDefaultVisibility (getp row ''durability''))"

text \<open>A string literal of a JSON text from its opening quote on, and what follows it.\<close>

fun split_literal :: "string \<Rightarrow> string \<times> string" where
  "split_literal [] = ([], [])"
| "split_literal (CHR 92 # c # cs) = (case split_literal cs of (l, r) \<Rightarrow> (CHR 92 # c # l, r))"
| "split_literal (c # cs) = (if c = CHR 34 then ([c], cs) else (case split_literal cs of (l, r) \<Rightarrow> (c # l, r)))"

lemma split_literal_length: "length (snd (split_literal s)) \<le> length s"
  by (induction s rule: split_literal.induct) (auto split: prod.splits)

text \<open>The scan of the text with its depth, whether a key comes next, and the keys seen at depth 1.\<close>

function dup_scan :: "(string \<Rightarrow> js option) \<Rightarrow> int \<Rightarrow> bool \<Rightarrow> js list \<Rightarrow> string \<Rightarrow> bool" where
  "dup_scan parse depth keyExpected keys [] = False"
| "dup_scan parse depth keyExpected keys (c # cs) =
     (if c = CHR 34 then
        (let l = fst (split_literal cs); r = snd (split_literal cs) in
         if depth = 1 \<and> keyExpected
         then (case parse (c # l) of
             Some key \<Rightarrow> if key \<in> set keys then True else dup_scan parse depth False (key # keys) r
           | None \<Rightarrow> False)
         else dup_scan parse depth keyExpected keys r)
      else if c = CHR ''{'' \<or> c = CHR ''['' then dup_scan parse (depth + 1) (if depth + 1 = 1 then True else keyExpected) keys cs
      else if c = CHR ''}'' \<or> c = CHR '']'' then dup_scan parse (depth - 1) keyExpected keys cs
      else if c = CHR '','' \<and> depth = 1 then dup_scan parse depth True keys cs
      else dup_scan parse depth keyExpected keys cs)"
  by pat_completeness auto
termination
  by (relation "measure (\<lambda>(_, _, _, _, s). length s)") (auto intro: le_imp_less_Suc split_literal_length)

definition skillMetadataHasDuplicateKey :: "(string \<Rightarrow> js option) \<Rightarrow> js \<Rightarrow> bool" where
  "skillMetadataHasDuplicateKey parse metadata =
     (case metadata of
        Str t \<Rightarrow> (case parse t of Some (Obj _) \<Rightarrow> dup_scan parse 0 False [] t | _ \<Rightarrow> False)
      | _ \<Rightarrow> False)"

definition skillPayloadUnchanged :: "jobj \<Rightarrow> jobj \<Rightarrow> bool" where
  "skillPayloadUnchanged base head \<longleftrightarrow>
     list_all (\<lambda>(k, v). k \<in> set [''embedding'', ''embeddingModel'', ''embeddedContentHash'', ''contentHash'', ''updatedAt'', ''instanceToken'',
         ''provenance'', ''skillSubjectId'', ''_safetyFlags'', ''_skillScan'', ''retrievalCount'', ''lastRetrieved''] \<or>
       isDeepStrictEqual v (getp head k)) base"

text \<open>The fields of the effective body that say what it embeds.\<close>

definition carried_vector :: "auth_verdict \<Rightarrow> jobj \<Rightarrow> jobj \<Rightarrow> jobj \<Rightarrow> jobj" where
  "carried_vector auth content source effective =
     (let textUnchanged = strict_eq (skillEmbedText effective) (skillEmbedText source);
          sourceHasVector = (case getp source ''embedding'' of Arr (_ # _) \<Rightarrow> True | _ \<Rightarrow> False);
          e1 = (if getp content ''embedding'' = Undef \<and> \<not> textUnchanged
                then AList.update ''embeddingModel'' Null (AList.update ''embedding'' Null effective) else effective);
          e2 = (if \<not> keepsSuppliedVector auth \<and> getp content ''embedding'' = Undef \<and> sourceHasVector \<and> textUnchanged
                then if getp source ''embeddingModel'' = Undef then AList.delete ''embeddingModel'' e1
                     else AList.update ''embeddingModel'' (getp source ''embeddingModel'') e1
                else e1) in
      AList.update ''embeddedContentHash''
        (if sourceHasVector \<and> getp content ''embedding'' = Undef \<and> textUnchanged
         then coalesce (getp source ''embeddedContentHash'') Null else Null) e2)"

text \<open>\<open>readPredecessor\<close> is the read of the superseded row, with the status of a failure.\<close>

definition prepared_body :: "(string \<Rightarrow> js option) \<Rightarrow> auth_verdict \<Rightarrow> jobj option \<Rightarrow> jobj option \<Rightarrow> jobj \<Rightarrow> response + jobj" where
  "prepared_body parse auth stored predecessor content =
     (let ref = getp content ''supersedes'';
          source = (case stored of Some r \<Rightarrow> r | None \<Rightarrow> (case predecessor of Some r \<Rightarrow> r | None \<Rightarrow> []));
          effective = AList.update ''tags''
            (coalesce (getp content ''tags'') (if rowIsSkill (row_js stored) then stored_field stored ''tags'' else stored_field predecessor ''tags''))
            (spread source content) in
      if truthy ref \<and> strict_eq ref (getp content ''id'') then Inl (skillWriteConflict ''skill_self_supersede'')
      else if truthy ref \<and> predecessor = None \<and> \<not> strict_eq ref (stored_field stored ''supersedes'')
      then Inl (skillWriteConflict ''skill_predecessor_missing'')
      else if getp content ''tags'' \<noteq> Undef \<and> \<not> isSkillWrite content
      then Inl (response_json 400 [(''error'', Str ''skill_lineage_tag_removed'')])
      else if \<not> nullish (getp content ''archived'') \<and> getp content ''archived'' \<noteq> Bool False \<or>
              \<not> nullish (getp content ''validTo'') \<and> getp content ''validTo'' \<noteq> Str []
      then Inl (response_json 400 [(''error'', Str ''skill_state_requires_delete'')])
      else if skillMetadataHasDuplicateKey parse (getp effective ''metadata'')
      then Inl (response_json 400 [(''error'', Str ''skill_metadata_duplicate_key'')])
      else let e = carried_vector auth content source effective in
        Inr (if getp content ''id'' = Undef then AList.delete ''id'' e else e))"

definition prepareSkillBody ::
    "(string \<Rightarrow> js option) \<Rightarrow> (string \<Rightarrow> js + jobj option) \<Rightarrow> jobj option \<Rightarrow> auth_verdict \<Rightarrow> jobj \<Rightarrow> response + jobj \<times> jobj option" where
  "prepareSkillBody parse readPredecessor stored auth content =
     (case (case getp content ''supersedes'' of Str i \<Rightarrow> if i = [] then Inr None else readPredecessor i | _ \<Rightarrow> Inr None) of
        Inl err \<Rightarrow> Inl (supersedesTargetUnreadable err)
      | Inr predecessor \<Rightarrow>
          if \<not> rowIsSkill (Obj content) \<and> \<not> rowIsSkill (row_js stored) \<and> \<not> rowIsSkill (row_js predecessor)
          then Inr (content, predecessor)
          else (case prepared_body parse auth stored predecessor content of
              Inl r \<Rightarrow> Inl r | Inr e \<Rightarrow> Inr (e, predecessor)))"

text \<open>The successor row: a carried vector only where the body names it, then the server's fields. The refusal of the durability
  rule is not read here.\<close>

definition named_vector :: "auth_verdict \<Rightarrow> jobj \<Rightarrow> jobj \<Rightarrow> jobj" where
  "named_vector auth base row =
     (if keepsSuppliedVector auth then row
      else fold (\<lambda>k r. if has_own (Obj base) k then r else AList.delete k r) [''embedding'', ''embeddingModel''] row)"

definition successor_link :: "string \<Rightarrow> string \<Rightarrow> js \<Rightarrow> jobj \<Rightarrow> jobj" where
  "successor_link successorId subjectId supersedes row =
     (let r = AList.update ''skillSubjectId'' (Str subjectId) (AList.update ''id'' (Str successorId) row) in
      if truthy supersedes then AList.update ''supersedes'' supersedes r else AList.delete ''supersedes'' r)"

definition opened :: "string \<Rightarrow> jobj \<Rightarrow> jobj" where
  "opened now row =
     fold AList.delete [''validTo'', ''archivedAt'', ''archivedBy''] (AList.update ''archived'' (Bool False) (AList.update ''updatedAt'' (Str now) row))"

definition buildSkillSuccessorRow ::
    "auth_verdict \<Rightarrow> jobj \<Rightarrow> jobj option \<Rightarrow> string \<Rightarrow> string \<Rightarrow> js \<Rightarrow> string \<Rightarrow> string \<Rightarrow> jobj" where
  "buildSkillSuccessorRow auth base predecessorRow successorId subjectId supersedes now uuid =
     (let r1 = named_vector auth base (case predecessorRow of Some p \<Rightarrow> spread p base | None \<Rightarrow> base);
          r2 = opened now (successor_link successorId subjectId supersedes r1);
          r3 = (case predecessorRow of
                  None \<Rightarrow> AList.update ''createdAt'' (case getp base ''createdAt'' of Str t \<Rightarrow> Str t | _ \<Rightarrow> Str now) r2
                | Some _ \<Rightarrow> r2);
          r4 = AList.update ''instanceToken'' (Str uuid) r3 in
      fst (stripUndeclaredMemoryAttributes (case enforceSkillDurability r4 of Inr r \<Rightarrow> r | Inl _ \<Rightarrow> r4)))"

section \<open>The table\<close>

record 's skill_deps =
  kd_versions :: "'s ver_deps"
  kd_tableLike :: bool
  kd_searchLike :: bool
  kd_get :: "string \<Rightarrow> 's \<Rightarrow> thrown + jobj option"
  kd_search :: "(string \<times> js) list \<Rightarrow> 's \<Rightarrow> thrown + jobj list"
  kd_put :: "jobj \<Rightarrow> 's \<Rightarrow> thrown + row_result \<times> 's"
  kd_grants :: "string \<Rightarrow> string \<Rightarrow> 's \<Rightarrow> js option list"
  kd_reads :: skill_reads

definition resolveSkillHead :: "'s skill_deps \<Rightarrow> string option \<Rightarrow> string option \<Rightarrow> 's \<Rightarrow> thrown + jobj option" where
  "resolveSkillHead deps subjectId addressedId s =
     (if \<not> kd_searchLike deps then Inl plain_error
      else bind_sum (case subjectId of Some (c # cs) \<Rightarrow> kd_search deps [(''skillSubjectId'', Str (c # cs))] s | _ \<Rightarrow> Inr []) (\<lambda>rows.
           bind_sum (case addressedId of Some (c # cs) \<Rightarrow> kd_get deps (c # cs) s | _ \<Rightarrow> Inr None) (\<lambda>addressed.
             let open_rows = filter (\<lambda>r. isOpenLiveRow (kd_reads deps) (Obj r)) rows;
                 named = (case addressed of
                     Some r \<Rightarrow> if isOpenLiveRow (kd_reads deps) (Obj r) \<and>
                          (\<not> truthy (getp r ''skillSubjectId'') \<or> strict_eq (getp r ''skillSubjectId'') (opt_js subjectId)) then [r] else []
                   | None \<Rightarrow> []);
                 live = fold (\<lambda>r m. AList.update (js_String (getp r ''id'')) r m) (open_rows @ named) [] in
             if length live > 1 then Inl (ThrownError (Obj [(''message'', Str ''skill_head_ambiguous'')]) False)
             else Inr (case live of [] \<Rightarrow> None | (_, r) # _ \<Rightarrow> Some r))))"

section \<open>Who may write\<close>

fun authorizeSkillOwners :: "'s skill_deps \<Rightarrow> req_context \<Rightarrow> auth_verdict \<Rightarrow> jobj option list \<Rightarrow> 's \<Rightarrow> thrown + response option" where
  "authorizeSkillOwners deps c auth [] s = Inr None"
| "authorizeSkillOwners deps c auth (None # rows) s = authorizeSkillOwners deps c auth rows s"
| "authorizeSkillOwners deps c auth (Some row # rows) s =
     (case getp row ''agentId'' of
        Str owner \<Rightarrow>
          if js_trim owner = [] then Inr (Some (kit_forbidden ''skill_owner_missing''))
          else (case auth of
              Agent a admin \<Rightarrow>
                if skillWriteSource c auth \<noteq> Some ''agent'' \<or> owner = a then authorizeSkillOwners deps c auth rows s
                else (case those (kd_grants deps a owner s) of
                    None \<Rightarrow> Inl plain_error
                  | Some grants \<Rightarrow>
                      if list_ex (\<lambda>g. field g ''scope'' = Str ''write'') grants then authorizeSkillOwners deps c auth rows s
                      else Inr (Some (kit_forbidden ''forbidden: cannot write a skill owned by another agent without a write grant'')))
            | _ \<Rightarrow> authorizeSkillOwners deps c auth rows s)
      | _ \<Rightarrow> Inr (Some (kit_forbidden ''skill_owner_missing'')))"

record granted_close =
  gc_granteeId :: string
  gc_ownerId :: string

definition grantedSkillClose :: "jobj option \<Rightarrow> req_context \<Rightarrow> auth_verdict \<Rightarrow> granted_close option" where
  "grantedSkillClose row c auth =
     (case (stored_field row ''agentId'', auth) of
        (Str owner, Agent a admin) \<Rightarrow>
          if js_trim owner = [] \<or> skillWriteSource c auth \<noteq> Some ''agent'' \<or> owner = a then None
          else Some \<lparr>gc_granteeId = a, gc_ownerId = owner\<rparr>
      | _ \<Rightarrow> None)"

definition snapshot_stale :: "'s skill_deps \<Rightarrow> js \<Rightarrow> jobj option \<Rightarrow> 's \<Rightarrow> thrown + bool" where
  "snapshot_stale deps i expected s =
     (if \<not> truthy i then Inr False
      else bind_sum (kd_get deps (js_String i) s) (\<lambda>current. Inr (\<not> isDeepStrictEqual (row_js current) (row_js expected))))"

definition validateSkillSnapshots :: "'s skill_deps \<Rightarrow> jobj option \<Rightarrow> jobj option \<Rightarrow> js \<Rightarrow> 's \<Rightarrow> thrown + response option" where
  "validateSkillSnapshots deps stored predecessor targetId s =
     bind_sum (snapshot_stale deps targetId stored s) (\<lambda>b1.
       if b1 then Inr (Some (skillWriteConflict ''skill_target_changed''))
       else bind_sum (snapshot_stale deps (stored_field predecessor ''id'') predecessor s) (\<lambda>b2.
         Inr (if b2 then Some (skillWriteConflict ''skill_target_changed'') else None)))"

text \<open>The re-checks once a close is staged, on the committed states \<open>c1\<close> and \<open>c2\<close>.\<close>

definition afterCloseStaged ::
    "'s skill_deps \<Rightarrow> granted_close option \<Rightarrow> (string \<times> jobj) option \<Rightarrow> 's \<Rightarrow> 's \<Rightarrow> thrown + response option" where
  "afterCloseStaged deps granted supersede c1 c2 =
     (case granted of
        None \<Rightarrow> Inr None
      | Some g \<Rightarrow>
          bind_sum (case supersede of
              None \<Rightarrow> Inr False
            | Some (predecessorId, successor) \<Rightarrow> bind_sum (kd_get deps predecessorId c1) (\<lambda>committed.
                Inr (committedVisibilityDiffers committed (getp successor ''visibility'')))) (\<lambda>differs.
            Inr (if differs then Some predecessorVisibilityChangedRefusal
                 else if writeGrantHeld (kd_grants deps (gc_granteeId g) (gc_ownerId g) c2) then None
                 else Some grantedCloseRevokedRefusal)))"

section \<open>Plans and hooks\<close>

record successor_plan =
  sp_kind :: string
  sp_predecessor :: "jobj option"
  sp_successor :: jobj
  sp_closePatch :: jobj
  sp_value :: "string option"
  sp_visibility :: "string option"
  sp_grantedClose :: "granted_close option"

record delete_plan =
  dp_predecessor :: jobj
  dp_closePatch :: jobj
  dp_visibility :: "string option"
  dp_grantedClose :: "granted_close option"

datatype skill_plan = SuccessorPlan successor_plan | DeletePlan delete_plan

datatype plan_answer = PlanNothing | PlanRefused response | PlanWrite skill_plan

definition WRITE_RESPONSE_WITHHELD_MESSAGE :: string where
  "WRITE_RESPONSE_WITHHELD_MESSAGE = ''the server does not report this write's result; read the row to see what is stored''"

definition withheldWriteResult :: response where
  "withheldWriteResult = response_json 500 [(''error'', Str ''write_response_withheld''), (''message'', Str WRITE_RESPONSE_WITHHELD_MESSAGE)]"

definition storageResult :: "row_result \<Rightarrow> row_result" where
  "storageResult v = (case v of RowResponse _ \<Rightarrow> RowResponse withheldWriteResult | RowValue x \<Rightarrow> RowValue x)"

text \<open>A hook answers a response, which refuses the write, or none.\<close>

type_synonym 's hook_result = "thrown + response option \<times> 's"

record 's skill_hooks =
  hk_create :: "jobj \<Rightarrow> 's \<Rightarrow> 's hook_result"
  hk_close :: "jobj \<Rightarrow> jobj \<Rightarrow> 's \<Rightarrow> 's hook_result"
  hk_pointer :: "skill_plan \<Rightarrow> 's \<Rightarrow> 's hook_result"
  hk_authorizeClose :: "jobj \<Rightarrow> 's \<Rightarrow> thrown + response option"

definition put_hook :: "'s skill_deps \<Rightarrow> jobj \<Rightarrow> 's \<Rightarrow> 's hook_result" where
  "put_hook deps row s =
     bind_sum (kd_put deps (normalizeEmptyEmbedding row) s) (\<lambda>(r, s').
       Inr (case storageResult r of RowResponse resp \<Rightarrow> Some resp | RowValue _ \<Rightarrow> None, s'))"

definition defaultSkillHooks ::
    "'s skill_deps \<Rightarrow> (skill_plan \<Rightarrow> 's \<Rightarrow> 's hook_result) \<Rightarrow> (jobj \<Rightarrow> 's \<Rightarrow> thrown + response option) \<Rightarrow> 's skill_hooks" where
  "defaultSkillHooks deps pointer authorizeClose =
     \<lparr>hk_create = put_hook deps, hk_close = (\<lambda>predecessor patch. put_hook deps (spread predecessor patch)),
      hk_pointer = pointer, hk_authorizeClose = authorizeClose\<rparr>"

record 's skill_args =
  ka_subjectId :: string
  ka_expectedVersion :: "string option"
  ka_head :: "'s \<Rightarrow> thrown + jobj option"
  ka_plan :: "jobj option \<Rightarrow> 's \<Rightarrow> bool \<Rightarrow> thrown + plan_answer"
  ka_hooks :: "'s skill_hooks"

section \<open>One attempt\<close>

definition skillUpdateUnconfirmedFailure :: response where
  "skillUpdateUnconfirmedFailure = response_json 500 [(''error'', Str ''skill_update_unconfirmed''),
     (''message'', Str ''the skill update could not be confirmed'')]"

definition plan_granted :: "skill_plan \<Rightarrow> granted_close option" where
  "plan_granted p = (case p of SuccessorPlan sp \<Rightarrow> sp_grantedClose sp | DeletePlan dp \<Rightarrow> dp_grantedClose dp)"

definition granted_js :: "granted_close option \<Rightarrow> js" where
  "granted_js g = (case g of None \<Rightarrow> Null | Some gc \<Rightarrow> Obj [(''granteeId'', Str (gc_granteeId gc)), (''ownerId'', Str (gc_ownerId gc))])"

definition plan_view :: "skill_plan \<Rightarrow> version_plan" where
  "plan_view p =
     (case p of
        SuccessorPlan sp \<Rightarrow> \<lparr>vp_kind = sp_kind sp, vp_predecessor = sp_predecessor sp, vp_successor = Some (sp_successor sp),
            vp_grantedClose = granted_js (sp_grantedClose sp)\<rparr>
      | DeletePlan dp \<Rightarrow> \<lparr>vp_kind = ''delete'', vp_predecessor = Some (dp_predecessor dp), vp_successor = None,
            vp_grantedClose = granted_js (dp_grantedClose dp)\<rparr>)"

definition supersedesPredecessor :: "skill_plan \<Rightarrow> bool" where
  "supersedesPredecessor p = (case p of SuccessorPlan sp \<Rightarrow> sp_kind sp = ''update'' \<and> sp_predecessor sp \<noteq> None | DeletePlan _ \<Rightarrow> False)"

datatype plan_verdict = NoWrite | NeedsOwnedCommit | RefusedPlan response | AcceptedPlan skill_plan

definition prepared_plan :: "'s skill_args \<Rightarrow> bool \<Rightarrow> 's \<Rightarrow> thrown + plan_verdict" where
  "prepared_plan args joined s =
     bind_sum (ka_head args s) (\<lambda>head. bind_sum (ka_plan args head s joined) (\<lambda>built.
       Inr (case built of
          PlanNothing \<Rightarrow> NoWrite
        | PlanRefused resp \<Rightarrow> RefusedPlan resp
        | PlanWrite p \<Rightarrow>
            if joined \<and> supersedesPredecessor p then NeedsOwnedCommit
            else (case grantedSuccessorVisibilityDenial (plan_view p) of Some d \<Rightarrow> RefusedPlan d | None \<Rightarrow> AcceptedPlan p))))"

definition skill_version_input :: "'s skill_args \<Rightarrow> skill_plan \<Rightarrow> 's version_input" where
  "skill_version_input args p =
     (let target = (case p of SuccessorPlan sp \<Rightarrow> sp_successor sp | DeletePlan dp \<Rightarrow> dp_predecessor dp) in
      \<lparr>vi_type = Skill, vi_subjectId = ka_subjectId args, vi_agentId = js_String (getp target ''agentId''), vi_key = None,
       vi_kind = (case p of SuccessorPlan sp \<Rightarrow> sp_kind sp | DeletePlan _ \<Rightarrow> ''delete''),
       vi_rowId = js_String (getp target ''id''),
       vi_value = (case p of SuccessorPlan sp \<Rightarrow> sp_value sp | DeletePlan _ \<Rightarrow> None),
       vi_soulSnapshot = None,
       vi_memoryId = (case p of SuccessorPlan sp \<Rightarrow> Some (js_String (getp (sp_successor sp) ''id'')) | DeletePlan _ \<Rightarrow> None),
       vi_visibility = (case p of SuccessorPlan sp \<Rightarrow> sp_visibility sp | DeletePlan dp \<Rightarrow> dp_visibility dp),
       vi_snapshot = None, vi_expectedVersion = ka_expectedVersion args,
       vi_previousSubjectId = None, vi_previousKey = None, vi_previousAgentId = None, vi_previousRowId = None\<rparr>)"

definition prepare_skill :: "'s skill_args \<Rightarrow> bool \<Rightarrow> 's \<Rightarrow> thrown + 's prepared_input" where
  "prepare_skill args joined s =
     bind_sum (prepared_plan args joined s) (\<lambda>p. Inr (case p of
        NoWrite \<Rightarrow> PrepNone
      | NeedsOwnedCommit \<Rightarrow> PrepRefused skillUpdateUnconfirmedFailure
      | RefusedPlan resp \<Rightarrow> PrepRefused resp
      | AcceptedPlan sp \<Rightarrow> PrepInput (skill_version_input args sp)))"

definition okResponse :: response where
  "okResponse = \<lparr>status = 200, body = Obj [(''ok'', Bool True)], headers = [(''Content-Type'', ''application/json'')]\<rparr>"

text \<open>The writes of a plan in the transaction; \<open>c1\<close> and \<open>c2\<close> are the committed states of the re-checks.\<close>

definition then_hook :: "'s hook_result \<Rightarrow> ('s \<Rightarrow> 's hook_result) \<Rightarrow> 's hook_result" where
  "then_hook m f = bind_sum m (\<lambda>(r, s). case r of Some resp \<Rightarrow> Inr (Some resp, s) | None \<Rightarrow> f s)"

definition recheck :: "thrown + response option \<Rightarrow> 's \<Rightarrow> 's hook_result" where
  "recheck m s = bind_sum m (\<lambda>r. Inr (r, s))"

definition withheld_hook :: "'s hook_result \<Rightarrow> 's hook_result" where
  "withheld_hook m = bind_sum m (\<lambda>(r, s). Inr (map_option (\<lambda>_. withheldWriteResult) r, s))"

definition write_plan :: "'s skill_deps \<Rightarrow> 's skill_hooks \<Rightarrow> 's \<Rightarrow> 's \<Rightarrow> skill_plan \<Rightarrow> 's \<Rightarrow> 's hook_result" where
  "write_plan deps hooks c1 c2 p s =
     (case p of
        DeletePlan dp \<Rightarrow>
          then_hook (withheld_hook (hk_close hooks (dp_predecessor dp) (dp_closePatch dp) s)) (\<lambda>s1.
          then_hook (recheck (afterCloseStaged deps (dp_grantedClose dp) None c1 c2) s1) (\<lambda>s2.
            hk_pointer hooks p s2))
      | SuccessorPlan sp \<Rightarrow>
          then_hook (withheld_hook (hk_create hooks (sp_successor sp) s)) (\<lambda>s1.
            case sp_predecessor sp of
              None \<Rightarrow> hk_pointer hooks p s1
            | Some predecessor \<Rightarrow>
                then_hook (withheld_hook (hk_close hooks predecessor (sp_closePatch sp) s1)) (\<lambda>s2.
                then_hook (recheck (afterCloseStaged deps (sp_grantedClose sp)
                    (Some (js_String (getp predecessor ''id''), sp_successor sp)) c1 c2) s2) (\<lambda>s3.
                  hk_pointer hooks p s3))))"

definition mutate_skill :: "'s skill_deps \<Rightarrow> 's skill_args \<Rightarrow> bool \<Rightarrow> 's \<Rightarrow> 's \<Rightarrow> 's row_writer" where
  "mutate_skill deps args joined c1 c2 s =
     (case prepared_plan args joined s of
        Inr (AcceptedPlan p) \<Rightarrow>
          bind_sum (write_plan deps (ka_hooks args) c1 c2 p s) (\<lambda>(r, s').
            Inr (RowResponse (case r of Some resp \<Rightarrow> resp | None \<Rightarrow> okResponse), s'))
      | _ \<Rightarrow> Inr (RowResponse okResponse, s))"

section \<open>Confirming a close\<close>

definition SKILL_UPDATE_CLOSE_ATTEMPTS :: nat where "SKILL_UPDATE_CLOSE_ATTEMPTS = 3"

definition skillUpdateNotClosedRefusal :: "nat \<Rightarrow> response" where
  "skillUpdateNotClosedRefusal attempts = response_json 409 [(''error'', Str ''skill_update_not_closed''),
     (''message'', Str (''the skill version close was not applied after '' @ int_string (int attempts) @ '' attempts; not updated''))]"

definition skillUpdateNotConfirmedRefusal :: response where
  "skillUpdateNotConfirmedRefusal = response_json 409 [(''error'', Str ''skill_update_not_confirmed''), (''message'', Str
     (''the committed store confirms neither this update's successor as the only live head nor its closure with this '' @
      ''request's version record present, the record with the next sequence number linked to it by hash, and that later '' @
      ''version deleting the successor or its row naming the successor as superseded''))]"

definition skillUpdateCompensationFailure :: "string \<Rightarrow> response" where
  "skillUpdateCompensationFailure m =
     response_json 500 [(''error'', Str ''skill_update_compensation_failed''), (''message'', Str m)]"

text \<open>The compensation of a write that did not land: \<open>None\<close> when it is confirmed undone. \<open>appended\<close> is the last version record
  of a skill that the journal wrote, \<open>undone\<close> the answer of the journal's undo, and \<open>lock\<close> that of the subject lock.\<close>

definition compensateUnlandedSkillUpdate ::
    "'s skill_deps \<Rightarrow> unit key_lock_outcome \<Rightarrow> (string \<times> string) option \<Rightarrow> thrown + bool \<Rightarrow> bool \<Rightarrow> 's \<Rightarrow> response option" where
  "compensateUnlandedSkillUpdate deps lock appended undone pointerChanged s =
     (let failure = Some (skillUpdateCompensationFailure
            (''the skill write's undo could not be confirmed; check its outcome, because its version and event may persist'' @
             (if pointerChanged then ''; a different host-pointer row was left in place'' else []))) in
      case lock of
        Done _ \<Rightarrow>
          (case (case appended of
                   Some (subjectId, i) \<Rightarrow>
                     bind_sum (readHead (kd_versions deps) Skill subjectId None s) (\<lambda>head.
                       case head of Some h \<Rightarrow> if js_String (getp h ''id'') \<noteq> i then Inr False else undone | None \<Rightarrow> undone)
                 | None \<Rightarrow> undone) of
             Inr True \<Rightarrow> None
           | _ \<Rightarrow> failure)
      | _ \<Rightarrow> failure)"

text \<open>The committed reads of one round see the states \<open>v 0, v 1, \<dots>\<close>.\<close>

definition confirmSupersededInOrder ::
    "'s skill_deps \<Rightarrow> string \<Rightarrow> jobj \<Rightarrow> string option \<Rightarrow> (nat \<Rightarrow> 's) \<Rightarrow> response option" where
  "confirmSupersededInOrder deps subjectId successor appendedVersionId v =
     (case appendedVersionId of
        None \<Rightarrow> Some skillUpdateNotConfirmedRefusal
      | Some recordId \<Rightarrow>
          (case bind_sum (readVersionRecord (kd_versions deps) Skill subjectId recordId (v 2)) (\<lambda>a.
                  case a of None \<Rightarrow> Inr None
                  | Some appended \<Rightarrow> bind_sum (readVersionRecordAfter (kd_versions deps) Skill subjectId (getp appended ''version'') (v 3))
                      (\<lambda>f. Inr (Some (appended, f)))) of
             Inl _ \<Rightarrow> Some skillUpdateUnconfirmedFailure
           | Inr None \<Rightarrow> Some skillUpdateNotConfirmedRefusal
           | Inr (Some (appended, following)) \<Rightarrow>
               if getp appended ''kind'' \<noteq> Str ''update'' \<or> js_String (getp appended ''memoryId'') \<noteq> js_String (getp successor ''id'')
               then Some skillUpdateNotConfirmedRefusal
               else (case following of
                   None \<Rightarrow> Some skillUpdateNotConfirmedRefusal
                 | Some f \<Rightarrow>
                     if \<not> strict_eq (getp f ''previousVersionHash'') (getp appended ''recordHash'') then Some skillUpdateNotConfirmedRefusal
                     else if getp f ''kind'' = Str ''delete''
                     then if js_String (coalesce (getp f ''rowId'') (Str [])) = js_String (getp successor ''id'') then None
                          else Some skillUpdateNotConfirmedRefusal
                     else if getp f ''kind'' \<noteq> Str ''update'' then Some skillUpdateNotConfirmedRefusal
                     else (case getp f ''memoryId'' of
                         Str (c # cs) \<Rightarrow>
                           (case kd_get deps (c # cs) (v 4) of
                              Inl _ \<Rightarrow> Some skillUpdateUnconfirmedFailure
                            | Inr None \<Rightarrow> Some skillUpdateNotConfirmedRefusal
                            | Inr (Some row) \<Rightarrow>
                                if js_String (coalesce (getp row ''supersedes'') (Str [])) = js_String (getp successor ''id'') then None
                                else Some skillUpdateNotConfirmedRefusal)
                       | _ \<Rightarrow> Some skillUpdateNotConfirmedRefusal))))"

text \<open>The effect of an update beyond its close: the successor is the sole live head, or it was superseded in order.\<close>

definition confirmsSingleHead ::
    "'s skill_deps \<Rightarrow> string \<Rightarrow> jobj \<Rightarrow> string option \<Rightarrow> (nat \<Rightarrow> 's) \<Rightarrow> response option" where
  "confirmsSingleHead deps subjectId successor appendedVersionId v =
     (case kd_get deps (js_String (getp successor ''id'')) (v 1) of
        Inl _ \<Rightarrow> Some skillUpdateUnconfirmedFailure
      | Inr None \<Rightarrow> Some skillUpdateNotConfirmedRefusal
      | Inr (Some committed) \<Rightarrow>
          if \<not> sameStoredRow (Some committed) (Some successor) then Some skillUpdateNotConfirmedRefusal
          else if \<not> isOpenLiveRow (kd_reads deps) (Obj committed)
          then (case getp committed ''validTo'' of
              Str (c # cs) \<Rightarrow> confirmSupersededInOrder deps subjectId successor appendedVersionId v
            | _ \<Rightarrow> Some skillUpdateNotConfirmedRefusal)
          else if \<not> kd_searchLike deps then Some skillUpdateUnconfirmedFailure
          else (case kd_search deps [(''skillSubjectId'', Str subjectId)] (v 2) of
              Inl _ \<Rightarrow> Some skillUpdateUnconfirmedFailure
            | Inr rows \<Rightarrow>
                if map (\<lambda>r. js_String (getp r ''id'')) (filter (\<lambda>r. isOpenLiveRow (kd_reads deps) (Obj r)) rows)
                     = [js_String (getp successor ''id'')]
                then None else Some skillUpdateNotConfirmedRefusal))"

text \<open>What the committed predecessor shows: confirmed, refused, not readable, or still open.\<close>

datatype close_reading = CloseConfirmed | CloseRefused response | CloseUnread | CloseOpen

definition close_view :: "'s skill_deps \<Rightarrow> jobj \<Rightarrow> ((nat \<Rightarrow> 's) \<Rightarrow> response option) \<Rightarrow> (nat \<Rightarrow> 's) \<Rightarrow> close_reading" where
  "close_view deps expected effect v =
     (case kd_get deps (js_String (getp expected ''id'')) (v 0) of
        Inl _ \<Rightarrow> CloseUnread
      | Inr None \<Rightarrow> CloseRefused (storedRowChangedRefusal ''Memory'')
      | Inr (Some committed) \<Rightarrow>
          if \<not> sameStoredRow (Some committed) (Some expected) then CloseRefused (storedRowChangedRefusal ''Memory'')
          else (case getp committed ''validTo'' of
              Str (c # cs) \<Rightarrow> (case effect v of None \<Rightarrow> CloseConfirmed | Some r \<Rightarrow> CloseRefused r)
            | _ \<Rightarrow> CloseOpen))"

text \<open>Applying the close again in a transaction of its own: a response that is thrown aborts it, one that is returned commits.\<close>

datatype reapplied = Reapplied | ReapplyRefused response | ReapplyFails

definition reapply_close ::
    "'s skill_deps \<Rightarrow> jobj \<Rightarrow> jobj \<Rightarrow> (jobj \<Rightarrow> 's \<Rightarrow> thrown + response option)
      \<Rightarrow> (jobj \<Rightarrow> thrown + response option) \<Rightarrow> thrown option \<Rightarrow> 's \<Rightarrow> reapplied" where
  "reapply_close deps expected closePatch authorize afterStaged commit s =
     (let committing = (\<lambda>r. case commit of Some _ \<Rightarrow> ReapplyFails | None \<Rightarrow> r) in
      case kd_get deps (js_String (getp expected ''id'')) s of
        Inl _ \<Rightarrow> ReapplyFails
      | Inr None \<Rightarrow> committing Reapplied
      | Inr (Some stored) \<Rightarrow>
          if \<not> sameStoredRow (Some stored) (Some expected) then committing (ReapplyRefused (storedRowChangedRefusal ''Memory''))
          else (case authorize stored s of
              Inl _ \<Rightarrow> ReapplyFails
            | Inr (Some denied) \<Rightarrow> committing (ReapplyRefused denied)
            | Inr None \<Rightarrow>
                (case kd_put deps (normalizeEmptyEmbedding (spread stored closePatch)) s of
                   Inl _ \<Rightarrow> ReapplyFails
                 | Inr (result, _) \<Rightarrow>
                     (case storageResult result of
                        RowResponse resp \<Rightarrow> ReapplyRefused resp
                      | RowValue _ \<Rightarrow>
                          (case afterStaged stored of
                             Inl _ \<Rightarrow> ReapplyFails
                           | Inr (Some revoked) \<Rightarrow> ReapplyRefused revoked
                           | Inr None \<Rightarrow> committing Reapplied)))))"

text \<open>The rounds of \<open>confirmSkillClose\<close>: \<open>view\<close> and \<open>again\<close> are the confirmation and the re-application of a round, \<open>compensation\<close> the answer of
  the compensation. The Boolean is whether the compensation was attempted.\<close>

fun confirm_rounds ::
    "(nat \<Rightarrow> close_reading) \<Rightarrow> (nat \<Rightarrow> reapplied) \<Rightarrow> response option \<Rightarrow> response \<Rightarrow> response \<Rightarrow> nat \<Rightarrow> nat \<Rightarrow> response option \<times> bool" where
  "confirm_rounds view again compensation refusal unconfirmed k left =
     (case view k of
        CloseConfirmed \<Rightarrow> (None, False)
      | CloseUnread \<Rightarrow> (Some unconfirmed, False)
      | CloseRefused r \<Rightarrow> (Some (case compensation of Some f \<Rightarrow> f | None \<Rightarrow> r), True)
      | CloseOpen \<Rightarrow>
          (case left of
             0 \<Rightarrow> (Some (case compensation of Some f \<Rightarrow> f | None \<Rightarrow> refusal), True)
           | Suc n \<Rightarrow>
               (case again k of
                  ReapplyFails \<Rightarrow> (Some unconfirmed, False)
                | ReapplyRefused r \<Rightarrow> (Some (case compensation of Some f \<Rightarrow> f | None \<Rightarrow> r), True)
                | Reapplied \<Rightarrow> confirm_rounds view again compensation refusal unconfirmed (Suc k) n)))"

declare confirm_rounds.simps [simp del]

text \<open>\<open>applied\<close> is whether the journal holds an applied write.\<close>

definition confirmSkillClose ::
    "(nat \<Rightarrow> close_reading) \<Rightarrow> (nat \<Rightarrow> reapplied) \<Rightarrow> response option \<Rightarrow> bool \<Rightarrow> response \<Rightarrow> response \<Rightarrow> nat \<Rightarrow> response option" where
  "confirmSkillClose view again compensation applied refusal unconfirmed attempts =
     (case confirm_rounds view again compensation refusal unconfirmed 0 attempts of
        (None, _) \<Rightarrow> None
      | (Some r, compensated) \<Rightarrow> if \<not> compensated \<and> applied then Some (case compensation of Some f \<Rightarrow> f | None \<Rightarrow> r) else Some r)"

text \<open>What the confirmation of an update meets: the committed states of each round, the commit of each re-application, the
  compensation's answer and the journal.\<close>

record 's confirm_env =
  ce_views :: "nat \<Rightarrow> nat \<Rightarrow> 's"
  ce_commits :: "nat \<Rightarrow> thrown option"
  ce_compensation :: "response option"
  ce_applied :: bool

definition update_view :: "'s skill_deps \<Rightarrow> string \<Rightarrow> jobj \<Rightarrow> jobj \<Rightarrow> string option \<Rightarrow> 's confirm_env \<Rightarrow> nat \<Rightarrow> close_reading" where
  "update_view deps subjectId predecessor successor appendedVersionId env k =
     close_view deps predecessor (confirmsSingleHead deps subjectId successor appendedVersionId) (ce_views env k)"

definition confirmSkillUpdate ::
    "'s skill_deps \<Rightarrow> string \<Rightarrow> jobj \<Rightarrow> jobj \<Rightarrow> jobj \<Rightarrow> granted_close option \<Rightarrow> (jobj \<Rightarrow> 's \<Rightarrow> thrown + response option)
      \<Rightarrow> string option \<Rightarrow> 's confirm_env \<Rightarrow> response option" where
  "confirmSkillUpdate deps subjectId predecessor closePatch successor grantedClose authorize appendedVersionId env =
     (if \<not> kd_tableLike deps then Some skillUpdateUnconfirmedFailure
      else confirmSkillClose
        (update_view deps subjectId predecessor successor appendedVersionId env)
        (\<lambda>k. reapply_close deps predecessor closePatch authorize
           (\<lambda>_. afterCloseStaged deps grantedClose (Some (js_String (getp predecessor ''id''), successor)) (ce_views env k 6) (ce_views env k 7))
           (ce_commits env k) (ce_views env k 5))
        (ce_compensation env) (ce_applied env) (skillUpdateNotClosedRefusal SKILL_UPDATE_CLOSE_ATTEMPTS)
        skillUpdateUnconfirmedFailure SKILL_UPDATE_CLOSE_ATTEMPTS)"

section \<open>The whole write\<close>

text \<open>What one attempt meets: the subject lock, the commit, the committed states of the re-checks, the confirmation's environment,
  and whether a refusal leaves applied writes that no compensation was attempted for.\<close>

record 's attempt_env =
  ae_lock :: "unit key_lock_outcome"
  ae_commit :: "thrown option"
  ae_check1 :: 's
  ae_check2 :: 's
  ae_confirm :: "'s confirm_env"
  ae_leftover :: bool

datatype attempt_outcome = OwnedCommitRequired | Attempted version_outcome

definition runSkillVersionAttempt ::
    "'s skill_deps \<Rightarrow> req_context \<Rightarrow> auth_verdict \<Rightarrow> string \<Rightarrow> 's skill_args \<Rightarrow> bool \<Rightarrow> 's attempt_env \<Rightarrow> 's \<Rightarrow> attempt_outcome \<times> 's option" where
  "runSkillVersionAttempt deps c auth now args joined env s =
     (let mutate = mutate_skill deps args joined (ae_check1 env) (ae_check2 env);
          (out, s') = (if joined then recordVersion_joined (kd_versions deps) (ae_lock env) c auth now Skill (prepare_skill args joined) mutate s
             else case recordVersion (kd_versions deps) (ae_lock env) (ae_commit env) c auth now Skill (prepare_skill args joined) mutate s of
                 (o1, t) \<Rightarrow> (o1, Some t)) in
      if ae_lock env = Done () \<and> snd (resolveVersionAuthorization Skill c auth) = None \<and> prepared_plan args joined s = Inr NeedsOwnedCommit
      then (OwnedCommitRequired, s')
      else (case (out, prepared_plan args joined s) of
          (VersionOk result version, Inr (AcceptedPlan (SuccessorPlan sp))) \<Rightarrow>
            (case sp_predecessor sp of
               Some predecessor \<Rightarrow>
                 if sp_kind sp = ''update''
                 then (case confirmSkillUpdate deps (ka_subjectId args) predecessor (sp_closePatch sp) (sp_successor sp) (sp_grantedClose sp)
                        (hk_authorizeClose (ka_hooks args)) (if version = [] then None else Some version) (ae_confirm env) of
                     Some refusal \<Rightarrow> (Attempted (VersionNo refusal), s')
                   | None \<Rightarrow> (Attempted out, s'))
                 else (Attempted out, s')
             | None \<Rightarrow> (Attempted out, s'))
        | _ \<Rightarrow> (Attempted out, s')))"

text \<open>A plan that supersedes, made in a caller's transaction, is made again from a fresh head and committed by the write itself.
  \<open>None\<close> is an error that is thrown.\<close>

definition runSkillVersionWriteInner ::
    "'s skill_deps \<Rightarrow> req_context \<Rightarrow> auth_verdict \<Rightarrow> string \<Rightarrow> 's skill_args \<Rightarrow> bool \<Rightarrow> 's attempt_env \<Rightarrow> 's attempt_env \<Rightarrow> 's \<Rightarrow> 's
      \<Rightarrow> version_outcome option \<times> 's option" where
  "runSkillVersionWriteInner deps c auth now args joined env1 env2 s1 s2 =
     (case runSkillVersionAttempt deps c auth now args joined env1 s1 of
        (Attempted out, s') \<Rightarrow> (Some out, s')
      | (OwnedCommitRequired, _) \<Rightarrow>
          (case runSkillVersionAttempt deps c auth now args False env2 s2 of
             (Attempted out, s') \<Rightarrow> (Some out, s')
           | (OwnedCommitRequired, s') \<Rightarrow> (None, s')))"

text \<open>A refused write with applied entries that nothing compensated yet is compensated.\<close>

definition compensated_outcome :: "'s attempt_env \<Rightarrow> version_outcome \<Rightarrow> version_outcome" where
  "compensated_outcome env out =
     (case out of
        VersionNo r \<Rightarrow> if ae_leftover env then VersionNo (case ce_compensation (ae_confirm env) of Some f \<Rightarrow> f | None \<Rightarrow> r) else out
      | VersionOk _ _ \<Rightarrow> out)"

definition runSkillVersionWrite ::
    "'s skill_deps \<Rightarrow> req_context \<Rightarrow> auth_verdict \<Rightarrow> string \<Rightarrow> 's skill_args \<Rightarrow> bool \<Rightarrow> 's attempt_env \<Rightarrow> 's attempt_env \<Rightarrow> 's \<Rightarrow> 's
      \<Rightarrow> version_outcome option \<times> 's option" where
  "runSkillVersionWrite deps c auth now args joined env1 env2 s1 s2 =
     (case runSkillVersionWriteInner deps c auth now args joined env1 env2 s1 s2 of
        (Some out, s') \<Rightarrow> (Some (compensated_outcome (if joined then env2 else env1) out), s')
      | (None, s') \<Rightarrow> (None, s'))"

section \<open>What an attempt that succeeds has done\<close>

lemma attempt_recorded:
  assumes "runSkillVersionAttempt deps c auth now args False env s = (Attempted (VersionOk res v), s')"
  shows "\<exists>t. recordVersion (kd_versions deps) (ae_lock env) (ae_commit env) c auth now Skill (prepare_skill args False)
      (mutate_skill deps args False (ae_check1 env) (ae_check2 env)) s = (VersionOk res v, t)"
proof -
  obtain out t where rec: "recordVersion (kd_versions deps) (ae_lock env) (ae_commit env) c auth now Skill (prepare_skill args False)
      (mutate_skill deps args False (ae_check1 env) (ae_check2 env)) s = (out, t)" by (meson surj_pair)
  have "out = VersionOk res v"
    using assms by (simp add: runSkillVersionAttempt_def rec split: if_splits version_outcome.splits sum.splits plan_verdict.splits
        skill_plan.splits option.splits)
  then show ?thesis using rec by blast
qed

lemma attempt_confirmed:
  assumes "runSkillVersionAttempt deps c auth now args False env s = (Attempted (VersionOk res v), s')"
    and "prepared_plan args False s = Inr (AcceptedPlan (SuccessorPlan sp))" "sp_predecessor sp = Some predecessor" "sp_kind sp = ''update''"
  shows "confirmSkillUpdate deps (ka_subjectId args) predecessor (sp_closePatch sp) (sp_successor sp) (sp_grantedClose sp)
      (hk_authorizeClose (ka_hooks args)) (if v = [] then None else Some v) (ae_confirm env) = None"
  using assms(1) attempt_recorded [OF assms(1)]
  by (auto simp: runSkillVersionAttempt_def assms(2-4) split: option.splits)

lemma recorded_body:
  assumes "recordVersion deps lock commit c auth now ty prepare mutate s = (VersionOk res v, t)"
  shows "\<exists>p. prepare s = Inr p \<and> (\<forall>r. p \<noteq> PrepRefused r) \<and> (\<exists>t'. run_row mutate s = Inr (res, t'))"
proof -
  have no: "thrown_outcome e \<noteq> VersionOk res v" for e by (auto simp: thrown_outcome_def split: thrown.splits option.splits)
  have "record_body deps c auth now ty prepare mutate s = Inr (VersionOk res v, t)"
    using assms no by (auto simp: recordVersion_def bind_sum_def split: key_lock_outcome.splits sum.splits option.splits)
  then obtain p attr where p: "prepare s = Inr p" "(case p of PrepNone \<Rightarrow> bind_sum (run_row mutate s) (\<lambda>(result, s'). Inr (VersionOk result [], s'))
      | PrepRefused resp \<Rightarrow> Inr (VersionNo resp, s)
      | PrepInput inp \<Rightarrow> append_input deps attr now ty inp mutate s) = Inr (VersionOk res v, t)"
    by (auto simp: record_body_def bind_sum_Inr split: prod.splits option.splits)
  show ?thesis
  proof (cases p)
    case PrepNone
    then show ?thesis using p by (auto simp: bind_sum_Inr)
  next
    case (PrepInput inp)
    then have "append_input deps attr now ty inp mutate s = Inr (VersionOk res v, t)" using p(2) by simp
    then show ?thesis
    proof (cases rule: append_input_cases)
      case (appended head)
      then show ?thesis using p(1) PrepInput by (auto simp: append_version_def bind_sum_Inr)
    qed simp
  qed (use p(2) in simp)
qed

text \<open>The plan of a recorded write: it wrote nothing, or all its writes ran and none was refused.\<close>

lemma recorded_plan:
  assumes "recordVersion vd lock commit c auth now Skill (prepare_skill args False) (mutate_skill deps args False c1 c2) s = (VersionOk res v, t)"
  shows "prepared_plan args False s = Inr NoWrite \<or>
    (\<exists>p r s1. prepared_plan args False s = Inr (AcceptedPlan p) \<and> write_plan deps (ka_hooks args) c1 c2 p s = Inr (r, s1) \<and>
      (\<forall>resp. r = Some resp \<longrightarrow> status resp < 300))"
proof -
  obtain p t' where p: "prepare_skill args False s = Inr p" "\<forall>r. p \<noteq> PrepRefused r" "run_row (mutate_skill deps args False c1 c2) s = Inr (res, t')"
    using recorded_body [OF assms] by blast
  then obtain pp where pp: "prepared_plan args False s = Inr pp" by (auto simp: prepare_skill_def bind_sum_Inr)
  show ?thesis
  proof (cases pp)
    case (AcceptedPlan q)
    obtain r s1 where w: "write_plan deps (ka_hooks args) c1 c2 q s = Inr (r, s1)"
      using p(3) by (auto simp: run_row_def mutate_skill_def pp AcceptedPlan bind_sum_Inr)
    then have "denied_result (RowResponse (case r of Some resp \<Rightarrow> resp | None \<Rightarrow> okResponse)) = None"
      using p(3) by (auto simp: run_row_def mutate_skill_def pp AcceptedPlan bind_sum_def split: option.splits)
    then have "\<forall>resp. r = Some resp \<longrightarrow> status resp < 300" by (auto simp: denied_result_def split: if_splits)
    then show ?thesis using pp AcceptedPlan w by blast
  qed (use p pp in \<open>auto simp: prepare_skill_def bind_sum_def\<close>)
qed

text \<open>A close whose writes ran passed both re-checks.\<close>

lemma then_hook_Inr:
  "then_hook m f = Inr (r, s) \<longleftrightarrow> (\<exists>r1 s1. m = Inr (r1, s1) \<and> (if r1 = None then f s1 = Inr (r, s) else r = r1 \<and> s = s1))"
  by (auto simp: then_hook_def bind_sum_Inr split: option.splits)

lemma recheck_Inr: "recheck m t = Inr (r, s) \<longleftrightarrow> m = Inr r \<and> s = t"
  by (auto simp: recheck_def bind_sum_Inr)

lemma recheck_status:
  assumes "afterCloseStaged deps (Some g) supersede c1 c2 = Inr (Some resp)"
  shows "300 \<le> status resp"
  using assms by (auto simp: afterCloseStaged_def bind_sum_Inr predecessorVisibilityChangedRefusal_def grantedCloseRevokedRefusal_def
      id_refusal_def split: if_splits)

lemma recheck_passed:
  assumes "afterCloseStaged deps (Some g) (Some (i, successor)) c1 c2 = Inr None"
  shows "writeGrantHeld (kd_grants deps (gc_granteeId g) (gc_ownerId g) c2) \<and>
    (\<exists>committed. kd_get deps i c1 = Inr committed \<and> \<not> committedVisibilityDiffers committed (getp successor ''visibility''))"
  using assms by (auto simp: afterCloseStaged_def bind_sum_Inr split: if_splits)

lemma withheld_status: "withheld_hook m = Inr (Some resp, s) \<Longrightarrow> 300 \<le> status resp"
  by (auto simp: withheld_hook_def bind_sum_Inr withheldWriteResult_def response_json_def)

lemma written_close_rechecked:
  assumes "write_plan deps hooks c1 c2 (SuccessorPlan sp) s = Inr (r, s1)" "\<forall>resp. r = Some resp \<longrightarrow> status resp < 300"
    and "sp_predecessor sp = Some predecessor" "sp_grantedClose sp = Some g"
  shows "afterCloseStaged deps (Some g) (Some (js_String (getp predecessor ''id''), sp_successor sp)) c1 c2 = Inr None"
proof -
  have low: "\<not> (r = Some resp \<and> 300 \<le> status resp)" for resp using assms(2) by fastforce
  obtain r1 t1 where t1: "withheld_hook (hk_create hooks (sp_successor sp) s) = Inr (r1, t1)"
    using assms(1) by (auto simp: write_plan_def then_hook_Inr)
  have high: "r' = Some resp \<Longrightarrow> withheld_hook m = Inr (r', t) \<Longrightarrow> 300 \<le> status resp" for r' resp m t
    using withheld_status [of m resp t] by simp
  have "r1 = None" using assms(1) t1 low high [OF _ t1] by (cases r1) (auto simp: write_plan_def then_hook_Inr)
  then obtain r2 t2 where t2: "withheld_hook (hk_close hooks predecessor (sp_closePatch sp) t1) = Inr (r2, t2)"
    using assms(1,3) t1 by (auto simp: write_plan_def then_hook_Inr)
  have "r2 = None" using assms(1,3) t1 t2 \<open>r1 = None\<close> low high [OF _ t2] by (cases r2) (auto simp: write_plan_def then_hook_Inr)
  then obtain r3 where t3: "afterCloseStaged deps (Some g) (Some (js_String (getp predecessor ''id''), sp_successor sp)) c1 c2 = Inr r3"
    using assms(1,3,4) t1 t2 \<open>r1 = None\<close> by (auto simp: write_plan_def then_hook_Inr recheck_Inr)
  have "r3 = None"
    using assms(1,3,4) t1 t2 t3 \<open>r1 = None\<close> \<open>r2 = None\<close> low recheck_status [of deps g _ c1 c2]
    by (cases r3) (auto simp: write_plan_def then_hook_Inr recheck_Inr)
  then show ?thesis using t3 by simp
qed

section \<open>What a confirmed close has shown\<close>

lemma confirm_rounds_None:
  "fst (confirm_rounds view again compensation refusal unconfirmed k left) = None \<Longrightarrow> \<exists>j. k \<le> j \<and> j \<le> k + left \<and> view j = CloseConfirmed"
proof (induction left arbitrary: k)
  case 0
  then show ?case by (subst (asm) confirm_rounds.simps) (auto split: close_reading.splits)
next
  case (Suc n)
  show ?case
  proof (cases "view k")
    case CloseConfirmed
    then show ?thesis by auto
  next
    case CloseOpen
    then have "fst (confirm_rounds view again compensation refusal unconfirmed (Suc k) n) = None"
      using Suc.prems by (subst (asm) confirm_rounds.simps) (auto split: reapplied.splits)
    then obtain j where "Suc k \<le> j" "j \<le> Suc k + n" "view j = CloseConfirmed" using Suc.IH by blast
    then show ?thesis by (intro exI [of _ j]) simp
  qed (use Suc.prems in \<open>subst (asm) confirm_rounds.simps, simp\<close>)+
qed

lemma confirmSkillClose_None:
  assumes "confirmSkillClose view again compensation applied refusal unconfirmed attempts = None"
  shows "\<exists>j \<le> attempts. view j = CloseConfirmed"
proof -
  have "fst (confirm_rounds view again compensation refusal unconfirmed 0 attempts) = None"
    using assms by (auto simp: confirmSkillClose_def split: prod.splits option.splits if_splits)
  then show ?thesis using confirm_rounds_None [of view again compensation refusal unconfirmed 0 attempts] by auto
qed

lemma confirmSkillUpdate_None:
  assumes "confirmSkillUpdate deps sid predecessor patch successor granted authorize appendedId env = None"
  shows "\<exists>k \<le> 3. update_view deps sid predecessor successor appendedId env k = CloseConfirmed"
proof -
  obtain again refusal where "confirmSkillClose (update_view deps sid predecessor successor appendedId env) again
      (ce_compensation env) (ce_applied env) refusal skillUpdateUnconfirmedFailure SKILL_UPDATE_CLOSE_ATTEMPTS = None"
    using assms by (auto simp: confirmSkillUpdate_def split: if_splits)
  from confirmSkillClose_None [OF this] show ?thesis by (simp add: SKILL_UPDATE_CLOSE_ATTEMPTS_def)
qed

end
