(* ===== verification/SkillPlan.thy ===== *)
theory SkillPlan
  imports SkillWrite OwnerGuard MemoryLock
begin

text \<open>
  What a skill write of \<open>resources/Memory.ts\<close> plans: the successor of a create or update (\<open>writeSkillCreateOrUpdate\<close>), the
  close of a delete with its confirmation (\<open>writeSkillDelete\<close>, \<open>confirmSkillDelete\<close>), and what the whole write grants. The
  operations on host pointers and the compensation of a delete are parameters.
\<close>

section \<open>Create and update\<close>

text \<open>A request, with its body prepared and its rows read.\<close>

record skill_request =
  kr_content :: jobj
  kr_stored :: "jobj option"
  kr_predecessor :: "jobj option"
  kr_put :: bool
  kr_pointer :: bool
  kr_inPlaceId :: "string option"
  kr_reembedding :: bool
  kr_requested :: "jobj option"

text \<open>What the server stamps: the instant, the two random ids and the id of this instance.\<close>

record skill_stamps =
  ks_now :: string
  ks_uuid :: string
  ks_token :: string
  ks_instance :: "string option"

definition in_place :: "skill_request \<Rightarrow> bool" where
  "in_place r \<longleftrightarrow> (case kr_inPlaceId r of Some (_ # _) \<Rightarrow> True | _ \<Rightarrow> False)"

definition explicit_successor :: "skill_request \<Rightarrow> bool" where
  "explicit_successor r \<longleftrightarrow> kr_predecessor r \<noteq> None \<and>
     (kr_stored r = None \<or> \<not> strict_eq (getp (kr_content r) ''supersedes'') (stored_field (kr_stored r) ''supersedes''))"

definition fresh_id :: "skill_request \<Rightarrow> skill_stamps \<Rightarrow> string" where
  "fresh_id r st = js_String (getp (kr_content r) ''agentId'') @ ''-'' @ ks_uuid st"

definition first_successor_id :: "skill_request \<Rightarrow> skill_stamps \<Rightarrow> string" where
  "first_successor_id r st =
     (if in_place r then the (kr_inPlaceId r)
      else if explicit_successor r \<or> kr_stored r = None then js_String (coalesce (getp (kr_content r) ''id'') (Str (fresh_id r st)))
      else fresh_id r st)"

definition skill_subject :: "skill_request \<Rightarrow> skill_stamps \<Rightarrow> string" where
  "skill_subject r st = deriveSkillSubjectId (first_successor_id r st) (kr_stored r) (kr_predecessor r)"

definition addressed_id :: "skill_request \<Rightarrow> string option" where
  "addressed_id r =
     (case kr_stored r of
        Some row \<Rightarrow> Some (js_String (getp row ''id''))
      | None \<Rightarrow> map_option (\<lambda>row. js_String (getp row ''id'')) (kr_predecessor r))"

definition reembeds_in_place :: "skill_request \<Rightarrow> jobj option \<Rightarrow> bool" where
  "reembeds_in_place r head \<longleftrightarrow> kr_put r \<and> kr_reembedding r \<and>
     (case head of None \<Rightarrow> False | Some h \<Rightarrow>
        strict_eq (getp h ''id'') (stored_field (kr_stored r) ''id'') \<and> skillPayloadUnchanged (kr_content r) h)"

definition successor_id :: "skill_request \<Rightarrow> skill_stamps \<Rightarrow> jobj option \<Rightarrow> string" where
  "successor_id r st head =
     (if reembeds_in_place r head then js_String (stored_field head ''id'') else first_successor_id r st)"

text \<open>The successor keeps its owner: the live head's agent.\<close>

definition successor_base :: "skill_request \<Rightarrow> jobj option \<Rightarrow> jobj" where
  "successor_base r head =
     AList.update ''agentId'' (coalesce (stored_field head ''agentId'') (getp (kr_content r) ''agentId'')) (kr_content r)"

definition successor_supersedes :: "skill_request \<Rightarrow> jobj option \<Rightarrow> js" where
  "successor_supersedes r head =
     (if reembeds_in_place r head then coalesce (stored_field head ''supersedes'') Null
      else if in_place r \<or> head = None then Null else Str (js_String (stored_field head ''id'')))"

definition stamped :: "skill_stamps \<Rightarrow> jobj option \<Rightarrow> jobj \<Rightarrow> jobj" where
  "stamped st head row =
     (case applyFederationBookkeeping (row_js head) (applyOriginatorInstanceIdWith (ks_instance st) (row_js head) (Obj row)) of
        Obj ob \<Rightarrow> normalizeEmptyEmbedding ob
      | _ \<Rightarrow> row)"

definition successor_row :: "auth_verdict \<Rightarrow> skill_request \<Rightarrow> skill_stamps \<Rightarrow> jobj option \<Rightarrow> jobj" where
  "successor_row auth r st head =
     (let row = buildSkillSuccessorRow auth (successor_base r head) head (successor_id r st head) (skill_subject r st)
            (successor_supersedes r head) (ks_now st) (ks_token st) in
      stamped st head
        (if reembeds_in_place r head
         then AList.update ''instanceToken'' (case stored_field head ''instanceToken'' of
             Str (t # ts) \<Rightarrow> Str (t # ts) | _ \<Rightarrow> getp (kr_content r) ''instanceToken'') row
         else row))"

definition close_patch :: "string \<Rightarrow> string \<Rightarrow> jobj" where
  "close_patch subjectId now = [(''skillSubjectId'', Str subjectId), (''validTo'', Str now), (''updatedAt'', Str now)]"

definition text_value :: "js \<Rightarrow> string option" where
  "text_value v = (case v of Str t \<Rightarrow> Some t | _ \<Rightarrow> None)"

definition update_plan :: "req_context \<Rightarrow> auth_verdict \<Rightarrow> skill_request \<Rightarrow> skill_stamps \<Rightarrow> jobj option \<Rightarrow> skill_plan" where
  "update_plan c auth r st head =
     (let successor = successor_row auth r st head;
          keeps = in_place r \<or> reembeds_in_place r head in
      SuccessorPlan
        \<lparr>sp_kind = (if head = None then ''create'' else ''update''),
         sp_predecessor = (if keeps then None else head),
         sp_successor = successor,
         sp_closePatch = (if keeps \<or> head = None then [] else close_patch (skill_subject r st) (ks_now st)),
         sp_value = text_value (getp successor ''content''),
         sp_visibility = Some (skillVersionVisibility successor),
         sp_grantedClose = (if keeps then None else grantedSkillClose head c auth)\<rparr>)"

text \<open>A reserved seed whose supplied fields equal the live head writes nothing.\<close>

definition in_place_unchanged :: "skill_request \<Rightarrow> jobj option \<Rightarrow> bool" where
  "in_place_unchanged r head \<longleftrightarrow> in_place r \<and> kr_put r \<and> \<not> kr_reembedding r \<and> kr_predecessor r = None \<and> \<not> kr_pointer r \<and>
     (case (head, kr_requested r) of
        (Some h, Some requested) \<Rightarrow> getp h ''id'' = Str (the (kr_inPlaceId r)) \<and> skillPayloadUnchanged requested h
      | _ \<Rightarrow> False)"

definition head_conflict :: "skill_request \<Rightarrow> jobj option \<Rightarrow> response option" where
  "head_conflict r head =
     (if (kr_stored r \<noteq> None \<or> kr_predecessor r \<noteq> None) \<and> head = None then Some (skillWriteConflict ''skill_head_missing'')
      else if explicit_successor r \<and> \<not> strict_eq (stored_field head ''id'') (stored_field (kr_predecessor r) ''id'')
      then Some (skillWriteConflict ''skill_predecessor_stale'')
      else if kr_stored r \<noteq> None \<and> \<not> strict_eq (stored_field head ''id'') (stored_field (kr_stored r) ''id'')
      then Some (skillWriteConflict ''skill_target_stale'')
      else None)"

definition create_or_update_plan ::
    "'s skill_deps \<Rightarrow> req_context \<Rightarrow> auth_verdict \<Rightarrow> skill_request \<Rightarrow> skill_stamps \<Rightarrow> jobj option \<Rightarrow> 's \<Rightarrow> bool \<Rightarrow> thrown + plan_answer" where
  "create_or_update_plan deps c auth r st head s joined =
     bind_sum (validateSkillSnapshots deps (kr_stored r) (kr_predecessor r) (coalesce (getp (kr_content r) ''id'') Null) s) (\<lambda>stale.
     bind_sum (authorizeSkillOwners deps c auth
         [kr_stored r, kr_predecessor r, Some (case head of Some h \<Rightarrow> h | None \<Rightarrow> kr_content r)] s) (\<lambda>denied.
       case denied of
         Some d \<Rightarrow> Inr (PlanRefused d)
       | None \<Rightarrow>
           if in_place_unchanged r head then Inr PlanNothing
           else (case stale of
               Some resp \<Rightarrow> Inr (PlanRefused resp)
             | None \<Rightarrow>
                 (case head_conflict r head of
                    Some resp \<Rightarrow> Inr (PlanRefused resp)
                  | None \<Rightarrow>
                      if joined
                      then bind_sum (kd_get deps (successor_id r st head) s) (\<lambda>_. Inr (PlanWrite (update_plan c auth r st head)))
                      else Inr (PlanWrite (update_plan c auth r st head))))))"

text \<open>The pointer operations of the host-pointer path.\<close>

record 's pointer_ops =
  pt_delete :: "string \<Rightarrow> 's \<Rightarrow> 's hook_result"
  pt_persist :: "jobj \<Rightarrow> 's \<Rightarrow> 's hook_result"

text \<open>The pointer hook; \<open>s0\<close> is the state the plan was made on and \<open>committed\<close> the committed state of the last check.\<close>

definition pointer_hook ::
    "'s skill_deps \<Rightarrow> 's pointer_ops \<Rightarrow> skill_request \<Rightarrow> bool \<Rightarrow> 's \<Rightarrow> 's \<Rightarrow> skill_plan \<Rightarrow> 's \<Rightarrow> 's hook_result" where
  "pointer_hook deps ptr r joined s0 committed p s =
     (case p of
        DeletePlan _ \<Rightarrow> Inr (None, s)
      | SuccessorPlan sp \<Rightarrow>
          then_hook (case sp_predecessor sp of
              Some closed_row \<Rightarrow> pt_delete ptr (js_String (getp closed_row ''id'')) s | None \<Rightarrow> Inr (None, s)) (\<lambda>s1.
          then_hook (if kr_pointer r then pt_persist ptr (sp_successor sp) s1 else Inr (None, s1)) (\<lambda>s2.
            if \<not> joined then Inr (None, s2)
            else bind_sum (kd_get deps (js_String (getp (sp_successor sp) ''id'')) s0) (\<lambda>basis.
              bind_sum (kd_get deps (js_String (getp (sp_successor sp) ''id'')) committed) (\<lambda>now_row.
                Inr (if sameStoredRow now_row basis then None else Some (skillWriteConflict ''skill_target_changed''), s2))))))"

definition create_or_update_args ::
    "'s skill_deps \<Rightarrow> 's pointer_ops \<Rightarrow> req_context \<Rightarrow> auth_verdict \<Rightarrow> skill_request \<Rightarrow> skill_stamps \<Rightarrow> bool \<Rightarrow> 's \<Rightarrow> 's \<Rightarrow> 's skill_args" where
  "create_or_update_args deps ptr c auth r st joined s0 committed =
     \<lparr>ka_subjectId = skill_subject r st, ka_expectedVersion = None,
      ka_head = resolveSkillHead deps (Some (skill_subject r st)) (addressed_id r),
      ka_plan = create_or_update_plan deps c auth r st,
      ka_hooks = defaultSkillHooks deps (pointer_hook deps ptr r joined s0 committed)
        (\<lambda>row. authorizeSkillOwners deps c auth [Some row])\<rparr>"

text \<open>\<open>writeSkillCreateOrUpdate\<close> of a PUT, which owns its transaction.\<close>

definition writeSkillUpdate ::
    "'s skill_deps \<Rightarrow> 's pointer_ops \<Rightarrow> req_context \<Rightarrow> auth_verdict \<Rightarrow> skill_request \<Rightarrow> skill_stamps \<Rightarrow> 's attempt_env \<Rightarrow> 's
      \<Rightarrow> (response + jobj) option \<times> 's option" where
  "writeSkillUpdate deps ptr c auth r st env s =
     (case reservedSeedSubjectDenial ''Memory'' [Str (skill_subject r st)] c auth of
        Some d \<Rightarrow> (Some (Inl d), Some s)
      | None \<Rightarrow>
          let args = create_or_update_args deps ptr c auth r st False s s in
          (case runSkillVersionWrite deps c auth (ks_now st) args False env env s s of
             (Some (VersionNo resp), s') \<Rightarrow> (Some (Inl resp), s')
           | (Some (VersionOk _ _), s') \<Rightarrow>
               (let row = (case prepared_plan args False s of
                     Inr (AcceptedPlan (SuccessorPlan sp)) \<Rightarrow> Some (sp_successor sp) | _ \<Rightarrow> None);
                    unchanged = (case ka_head args s of Inr (Some h) \<Rightarrow> h | _ \<Rightarrow> []) in
                (Some (Inr [(''id'', Str (case row of Some ob \<Rightarrow> js_String (getp ob ''id'') | None \<Rightarrow> first_successor_id r st)),
                   (''written'', Bool (row \<noteq> None)),
                   (''visibility'', Str (skillVersionVisibility (case row of Some ob \<Rightarrow> ob | None \<Rightarrow> unchanged)))]), s'))
           | (None, s') \<Rightarrow> (None, s')))"

section \<open>Delete\<close>

definition ownerChangedRefusal :: "string \<Rightarrow> response" where
  "ownerChangedRefusal tableName =
     \<lparr>status = 409, body = Obj [(''error'', Str ''owner_changed''), (''message'', Str (tableName @ '' owner confirmation failed; not deleted''))],
      headers = [(''content-type'', ''application/json'')]\<rparr>"

text \<open>The owners of the committed rows, for a caller that is no administrator; \<open>c1\<close> and \<open>c2\<close> are the committed states.\<close>

definition committed_owner_check :: "'s skill_deps \<Rightarrow> auth_verdict \<Rightarrow> jobj \<Rightarrow> jobj option \<Rightarrow> 's \<Rightarrow> 's \<Rightarrow> thrown + response option" where
  "committed_owner_check deps auth rec head c1 c2 =
     (case auth of
        Agent a admin \<Rightarrow>
          if admin then Inr None
          else bind_sum (kd_get deps (js_String (getp rec ''id'')) c1) (\<lambda>confirmed.
            if (case confirmed of Some row \<Rightarrow> isForbiddenOwnerMutation (Obj row) ''agentId'' (Str a) | None \<Rightarrow> False)
            then Inr (Some (ownerChangedRefusal ''Memory''))
            else (case head of
                None \<Rightarrow> Inr None
              | Some h \<Rightarrow> bind_sum (kd_get deps (js_String (getp h ''id'')) c2) (\<lambda>confirmedHead.
                  Inr (case confirmedHead of
                     None \<Rightarrow> Some (skillWriteConflict ''skill_head_missing'')
                   | Some row \<Rightarrow> if strict_eq (getp row ''agentId'') (getp h ''agentId'') then None
                                  else Some (ownerChangedRefusal ''Memory'')))))
      | _ \<Rightarrow> Inr None)"

text \<open>The plan of a delete. \<open>headLock\<close> are the ids the DELETE holds, \<open>unknown\<close> the ids whose last write has an unknown outcome, and
  \<open>load\<close> the read of a host pointer.\<close>

definition skill_delete_plan ::
    "'s skill_deps \<Rightarrow> req_context \<Rightarrow> auth_verdict \<Rightarrow> jobj \<Rightarrow> string list option \<Rightarrow> (string \<Rightarrow> bool) \<Rightarrow> (string \<Rightarrow> 's \<Rightarrow> thrown + js)
      \<Rightarrow> string \<Rightarrow> 's \<Rightarrow> 's \<Rightarrow> jobj option \<Rightarrow> 's \<Rightarrow> bool \<Rightarrow> thrown + plan_answer" where
  "skill_delete_plan deps c auth rec headLock unknown load now c1 c2 head s joined =
     (if (case (headLock, head) of (Some ids, Some h) \<Rightarrow> js_String (getp h ''id'') \<notin> set ids | _ \<Rightarrow> False)
      then Inr (PlanRefused (storedRowChangedRefusal ''Memory''))
      else bind_sum (committed_owner_check deps auth rec head c1 c2) (\<lambda>changed. case changed of
          Some d \<Rightarrow> Inr (PlanRefused d)
        | None \<Rightarrow> bind_sum (validateSkillSnapshots deps (Some rec) None (Str (js_String (getp rec ''id''))) s) (\<lambda>stale. case stale of
          Some d \<Rightarrow> Inr (PlanRefused d)
        | None \<Rightarrow> bind_sum (authorizeSkillOwners deps c auth [Some rec, head] s) (\<lambda>denied. case denied of
          Some d \<Rightarrow> Inr (PlanRefused d)
        | None \<Rightarrow>
            (case head of
               None \<Rightarrow> Inr (PlanRefused (skillWriteConflict ''skill_head_missing''))
             | Some h \<Rightarrow>
                 if unknown (js_String (getp h ''id'')) then Inr (PlanRefused writeOutcomeUnknownResponse)
                 else bind_sum (load (js_String (getp h ''id'')) s) (\<lambda>_.
                   Inr (PlanWrite (DeletePlan
                     \<lparr>dp_predecessor = h,
                      dp_closePatch = close_patch (js_String (coalesce (getp rec ''skillSubjectId'') (getp rec ''id''))) now,
                      dp_visibility = Some (skillVersionVisibility h), dp_grantedClose = grantedSkillClose (Some h) c auth\<rparr>))))))))"

definition SKILL_DELETE_CLOSE_ATTEMPTS :: nat where "SKILL_DELETE_CLOSE_ATTEMPTS = 3"

definition skillDeleteUnconfirmedFailure :: response where
  "skillDeleteUnconfirmedFailure = response_json 500 [(''error'', Str ''skill_delete_unconfirmed''),
     (''message'', Str ''the committed skill row could not be read; the delete is unverified'')]"

definition skillDeleteNotClosedRefusal :: "nat \<Rightarrow> response" where
  "skillDeleteNotClosedRefusal attempts = response_json 409 [(''error'', Str ''skill_delete_not_closed''),
     (''message'', Str (''the skill version close was not applied after '' @ int_string (int attempts) @ '' attempts; not deleted''))]"

text \<open>The refusal after the compensation: its own response, or the refusal with what became of the pointer.\<close>

definition undo_refusal :: "response + string \<Rightarrow> response \<Rightarrow> response" where
  "undo_refusal compensation refusal =
     (case compensation of
        Inl resp \<Rightarrow> resp
      | Inr outcome \<Rightarrow> response_json (status refusal)
          (AList.update ''pointerCompensation'' (Str outcome) (case body refusal of Obj ob \<Rightarrow> ob | _ \<Rightarrow> [])))"

definition delete_view :: "'s skill_deps \<Rightarrow> jobj \<Rightarrow> (response + string) \<Rightarrow> 's \<Rightarrow> close_reading" where
  "delete_view deps closedRow compensation s =
     (case kd_get deps (js_String (getp closedRow ''id'')) s of
        Inl _ \<Rightarrow> CloseUnread
      | Inr None \<Rightarrow> CloseConfirmed
      | Inr (Some committed) \<Rightarrow>
          if \<not> sameStoredRow (Some committed) (Some closedRow)
          then CloseRefused (undo_refusal compensation (storedRowChangedRefusal ''Memory''))
          else (case getp committed ''validTo'' of Str (_ # _) \<Rightarrow> CloseConfirmed | _ \<Rightarrow> CloseOpen))"

text \<open>A delete confirms the close alone; a row that is gone needs none. \<open>compensation\<close> is the answer of the undo.\<close>

definition confirmSkillDelete ::
    "'s skill_deps \<Rightarrow> req_context \<Rightarrow> auth_verdict \<Rightarrow> string \<Rightarrow> jobj \<Rightarrow> string \<Rightarrow> (response + string) \<Rightarrow> 's confirm_env \<Rightarrow> response option" where
  "confirmSkillDelete deps c auth subjectId closedRow now compensation env =
     fst (confirm_rounds
       (\<lambda>k. delete_view deps closedRow compensation (ce_views env k 0))
       (\<lambda>k. case reapply_close deps closedRow (close_patch subjectId now) (\<lambda>row. authorizeSkillOwners deps c auth [Some row])
              (\<lambda>stored. afterCloseStaged deps (grantedSkillClose (Some stored) c auth) None (ce_views env k 6) (ce_views env k 7))
              (ce_commits env k) (ce_views env k 5) of
            ReapplyRefused r \<Rightarrow> ReapplyRefused (undo_refusal compensation r) | other \<Rightarrow> other)
       None (undo_refusal compensation (skillDeleteNotClosedRefusal SKILL_DELETE_CLOSE_ATTEMPTS))
       skillDeleteUnconfirmedFailure 0 SKILL_DELETE_CLOSE_ATTEMPTS)"

record 's delete_env =
  de_attempt :: "'s attempt_env"
  de_owner1 :: 's
  de_owner2 :: 's
  de_headLock :: "string list option"
  de_unknown :: "string \<Rightarrow> bool"
  de_load :: "string \<Rightarrow> 's \<Rightarrow> thrown + js"
  de_compensation :: "response + string"

definition delete_args ::
    "'s skill_deps \<Rightarrow> 's pointer_ops \<Rightarrow> req_context \<Rightarrow> auth_verdict \<Rightarrow> jobj \<Rightarrow> string \<Rightarrow> 's delete_env \<Rightarrow> 's skill_args" where
  "delete_args deps ptr c auth rec now env =
     (let subjectId = js_String (coalesce (getp rec ''skillSubjectId'') (getp rec ''id'')) in
      \<lparr>ka_subjectId = subjectId, ka_expectedVersion = None,
       ka_head = resolveSkillHead deps (Some subjectId) (Some (js_String (getp rec ''id''))),
       ka_plan = skill_delete_plan deps c auth rec (de_headLock env) (de_unknown env) (de_load env) now (de_owner1 env) (de_owner2 env),
       ka_hooks = defaultSkillHooks deps
         (\<lambda>p s. case p of DeletePlan dp \<Rightarrow> pt_delete ptr (js_String (getp (dp_predecessor dp) ''id'')) s | SuccessorPlan _ \<Rightarrow> Inr (None, s))
         (\<lambda>row. authorizeSkillOwners deps c auth [Some row])\<rparr>)"

definition writeSkillDelete ::
    "'s skill_deps \<Rightarrow> 's pointer_ops \<Rightarrow> req_context \<Rightarrow> auth_verdict \<Rightarrow> jobj \<Rightarrow> string \<Rightarrow> 's delete_env \<Rightarrow> 's \<Rightarrow> response option \<times> 's option" where
  "writeSkillDelete deps ptr c auth rec now env s =
     (let args = delete_args deps ptr c auth rec now env in
      case reservedSeedSubjectDenial ''Memory'' [Str (ka_subjectId args)] c auth of
        Some d \<Rightarrow> (Some d, Some s)
      | None \<Rightarrow>
          (case (runSkillVersionWrite deps c auth now args False (de_attempt env) (de_attempt env) s s, prepared_plan args False s) of
             ((Some (VersionOk _ _), s'), Inr (AcceptedPlan (DeletePlan dp))) \<Rightarrow>
               (case confirmSkillDelete deps c auth (ka_subjectId args) (dp_predecessor dp) now (de_compensation env)
                       (ae_confirm (de_attempt env)) of
                  Some refusal \<Rightarrow> (Some refusal, s')
                | None \<Rightarrow> (Some (json_response 200 (Obj [(''id'', Str (js_String (getp (dp_predecessor dp) ''id''))),
                      (''deleted'', Bool True)])), s'))
           | ((Some (VersionNo resp), s'), _) \<Rightarrow> (Some resp, s')
           | ((_, s'), _) \<Rightarrow> (None, s')))"

section \<open>The successor of a row\<close>

lemma stamped_agent: "getp (stamped st head row) ''agentId'' = getp row ''agentId''"
  by (cases head) (simp_all add: stamped_def row_js_def applyFederationBookkeeping_def applyOriginatorInstanceIdWith_def
    keepStoredFederationBookkeeping_def dropClientFederationBookkeeping_def keepStoredOriginator_def stampOriginatorOnCreateWith_def
    FEDERATION_BOOKKEEPING_FIELDS_def getp_keep_or_drop normalizeEmptyEmbedding_def)

lemma getp_filter: "P k \<Longrightarrow> getp (filter (\<lambda>(k, _). P k) ob) k = getp ob k"
  by (induction ob) auto

lemma strip_keeps: "k \<in> set MEMORY_ATTRIBUTES \<Longrightarrow> getp (fst (stripUndeclaredMemoryAttributes row)) k = getp row k"
  using getp_filter [of "\<lambda>k. k \<in> set MEMORY_ATTRIBUTES" k row] by (simp add: stripUndeclaredMemoryAttributes_def)

lemma durability_agent: "getp (case enforceSkillDurability r of Inr x \<Rightarrow> x | Inl _ \<Rightarrow> r) ''agentId'' = getp r ''agentId''"
  by (auto simp: enforceSkillDurability_def)

lemma agent_declared: "''agentId'' \<in> set MEMORY_ATTRIBUTES"
  by (simp add: MEMORY_ATTRIBUTES_def DECLARED_MEMORY_ATTRIBUTES_def)

lemma named_vector_agent: "getp (named_vector auth base row) ''agentId'' = getp row ''agentId''"
  unfolding named_vector_def fold_simps o_apply id_apply by (simp del: has_own.simps)

lemma link_agent: "getp (successor_link i sid supersedes row) ''agentId'' = getp row ''agentId''"
  by (simp add: successor_link_def Let_def)

lemma opened_agent: "getp (opened now row) ''agentId'' = getp row ''agentId''"
  by (simp add: opened_def)

lemma built_agent: "getp (buildSkillSuccessorRow auth base head i sid supersedes now token) ''agentId'' =
    getp (case head of Some p \<Rightarrow> spread p base | None \<Rightarrow> base) ''agentId''"
proof -
  have created: "getp (case head of None \<Rightarrow> AList.update ''createdAt'' v row | Some _ \<Rightarrow> row) ''agentId'' = getp row ''agentId''" for v row
    by (cases head) simp_all
  have token: "getp (AList.update ''instanceToken'' v row) ''agentId'' = getp row ''agentId''" for v row
    by simp
  show ?thesis
    by (simp only: buildSkillSuccessorRow_def Let_def strip_keeps [OF agent_declared] durability_agent created token
        named_vector_agent link_agent opened_agent)
qed

text \<open>The successor of another agent's row keeps that agent as its owner.\<close>

lemma successor_owner:
  assumes "distinct (map fst (kr_content r))" "getp h ''agentId'' = Str owner"
  shows "getp (successor_row auth r st (Some h)) ''agentId'' = Str owner"
proof -
  have base: "getp (successor_base r (Some h)) ''agentId'' = Str owner"
    by (simp add: successor_base_def stored_field_def coalesce_def nullish_def assms(2))
  have "distinct (map fst (successor_base r (Some h)))" "has_own (Obj (successor_base r (Some h))) ''agentId''"
    using assms(1) by (simp_all add: successor_base_def distinct_update del: has_own.simps)
  then have "getp (spread h (successor_base r (Some h))) ''agentId'' = Str owner" using base by (simp add: getp_spread del: has_own.simps)
  then show ?thesis by (simp add: successor_row_def stamped_agent built_agent Let_def)
qed

section \<open>What a skill update that answers ok has done\<close>

lemma ok_update_attempt:
  assumes "writeSkillUpdate deps ptr c auth r st env s = (Some (Inr answer), s')"
  shows "\<exists>res v t. runSkillVersionAttempt deps c auth (ks_now st) (create_or_update_args deps ptr c auth r st False s s) False env s =
    (Attempted (VersionOk res v), t)"
proof -
  let ?args = "create_or_update_args deps ptr c auth r st False s s"
  obtain o1 t where o: "runSkillVersionAttempt deps c auth (ks_now st) ?args False env s = (o1, t)" by (meson surj_pair)
  show ?thesis
  proof (cases o1)
    case OwnedCommitRequired
    then show ?thesis using assms o by (simp add: writeSkillUpdate_def runSkillVersionWrite_def runSkillVersionWriteInner_def
          Let_def split: option.splits)
  next
    case (Attempted out)
    then obtain resp res v where out: "out = VersionOk res v \<or> out = VersionNo resp" by (cases out) auto
    have "\<exists>resp'. compensated_outcome env (VersionNo resp) = VersionNo resp'" by (simp add: compensated_outcome_def)
    then have "out \<noteq> VersionNo resp"
      using assms o Attempted by (auto simp: writeSkillUpdate_def runSkillVersionWrite_def runSkillVersionWriteInner_def Let_def
          split: option.splits)
    then show ?thesis using out o Attempted by blast
  qed
qed

lemma owner_present:
  assumes "authorizeSkillOwners deps c auth rows s = Inr None" "Some h \<in> set rows"
  shows "\<exists>owner. getp h ''agentId'' = Str owner \<and> js_trim owner \<noteq> []"
  using assms
proof (induction deps c auth rows s rule: authorizeSkillOwners.induct)
  case (3 deps c auth row rows s)
  then show ?case by (auto split: js.splits if_splits auth_verdict.splits option.splits)
qed simp_all

lemma grant_read:
  assumes "authorizeSkillOwners deps c (Agent a admin) rows s = Inr None" "Some h \<in> set rows"
    and "skillWriteSource c (Agent a admin) = Some ''agent''" "getp h ''agentId'' = Str owner" "owner \<noteq> a"
  shows "\<exists>grants. those (kd_grants deps a owner s) = Some grants \<and> list_ex (\<lambda>g. field g ''scope'' = Str ''write'') grants"
  using assms(1,2)
proof (induction rows)
  case (Cons row rows)
  then show ?case using assms(3-5)
    by (cases row) (auto split: js.splits if_splits option.splits)
qed simp

lemma planned_update:
  assumes "prepared_plan (create_or_update_args deps ptr c auth r st False s0 com) False s = Inr (AcceptedPlan p)"
    and "resolveSkillHead deps (Some (skill_subject r st)) (addressed_id r) s = Inr head"
  shows "p = update_plan c auth r st head \<and>
    authorizeSkillOwners deps c auth [kr_stored r, kr_predecessor r, Some (case head of Some h \<Rightarrow> h | None \<Rightarrow> kr_content r)] s = Inr None \<and>
    grantedSuccessorVisibilityDenial (plan_view p) = None"
  using assms
  by (auto simp: prepared_plan_def create_or_update_args_def create_or_update_plan_def bind_sum_Inr split: option.splits if_splits plan_answer.splits)

lemma unplanned_update:
  assumes "prepared_plan (create_or_update_args deps ptr c auth r st False s0 com) False s = Inr NoWrite"
  shows "in_place r"
  using assms
  by (auto simp: prepared_plan_def create_or_update_args_def create_or_update_plan_def bind_sum_Inr in_place_unchanged_def
      split: option.splits if_splits plan_answer.splits)

text \<open>The two ways in which the effect of an update is confirmed.\<close>

lemma confirmed_order:
  assumes "confirmSupersededInOrder deps sid successor appendedId v = None"
  shows "\<exists>recordId appended following. readVersionRecord (kd_versions deps) Skill sid recordId (v 2) = Inr (Some appended) \<and>
    js_String (getp appended ''memoryId'') = js_String (getp successor ''id'') \<and>
    readVersionRecordAfter (kd_versions deps) Skill sid (getp appended ''version'') (v 3) = Inr (Some following) \<and>
    getp following ''previousVersionHash'' = getp appended ''recordHash''"
proof -
  obtain recordId appended f where a: "appendedId = Some recordId"
    "readVersionRecord (kd_versions deps) Skill sid recordId (v 2) = Inr (Some appended)"
    "readVersionRecordAfter (kd_versions deps) Skill sid (getp appended ''version'') (v 3) = Inr f"
    using assms by (auto simp: confirmSupersededInOrder_def bind_sum_def split: option.splits sum.splits)
  then show ?thesis using assms strict_eq_imp
    by (fastforce simp: confirmSupersededInOrder_def bind_sum_def split: option.splits if_splits)
qed

lemma confirmed_head:
  assumes "confirmsSingleHead deps sid successor appendedId v = None"
  shows "(\<exists>rows. kd_search deps [(''skillSubjectId'', Str sid)] (v 2) = Inr rows \<and>
        map (\<lambda>x. js_String (getp x ''id'')) (filter (\<lambda>x. isOpenLiveRow (kd_reads deps) (Obj x)) rows) = [js_String (getp successor ''id'')]) \<or>
    (\<exists>recordId appended following. readVersionRecord (kd_versions deps) Skill sid recordId (v 2) = Inr (Some appended) \<and>
    js_String (getp appended ''memoryId'') = js_String (getp successor ''id'') \<and>
    readVersionRecordAfter (kd_versions deps) Skill sid (getp appended ''version'') (v 3) = Inr (Some following) \<and>
    getp following ''previousVersionHash'' = getp appended ''recordHash'')"
proof (cases "confirmSupersededInOrder deps sid successor appendedId v = None")
  case True
  then show ?thesis using confirmed_order by blast
next
  case False
  then show ?thesis using assms
    by (auto simp: confirmsSingleHead_def split: sum.splits option.splits if_splits js.splits list.splits)
qed

lemma close_viewD:
  assumes "close_view deps expected effect v = CloseConfirmed"
  shows "\<exists>row t. kd_get deps (js_String (getp expected ''id'')) (v 0) = Inr (Some row) \<and> sameStoredRow (Some row) (Some expected) \<and>
    getp row ''validTo'' = Str t \<and> t \<noteq> [] \<and> effect v = None"
proof -
  obtain row where row: "kd_get deps (js_String (getp expected ''id'')) (v 0) = Inr (Some row)" "sameStoredRow (Some row) (Some expected)"
    using assms by (auto simp: close_view_def split: sum.splits option.splits if_splits)
  then show ?thesis using assms by (auto simp: close_view_def split: js.splits list.splits option.splits)
qed

lemma ok_update_written:
  assumes "writeSkillUpdate deps ptr c auth r st env s = (Some (Inr answer), s')"
    and "resolveSkillHead deps (Some (skill_subject r st)) (addressed_id r) s = Inr (Some h)" "\<not> in_place r" "\<not> reembeds_in_place r (Some h)"
  obtains res v t r1 s1 sp where
    "runSkillVersionAttempt deps c auth (ks_now st) (create_or_update_args deps ptr c auth r st False s s) False env s =
       (Attempted (VersionOk res v), t)"
    "prepared_plan (create_or_update_args deps ptr c auth r st False s s) False s = Inr (AcceptedPlan (SuccessorPlan sp))"
    "SuccessorPlan sp = update_plan c auth r st (Some h)"
    "write_plan deps (ka_hooks (create_or_update_args deps ptr c auth r st False s s)) (ae_check1 env) (ae_check2 env) (SuccessorPlan sp) s = Inr (r1, s1)"
    "\<forall>resp. r1 = Some resp \<longrightarrow> status resp < 300"
    "authorizeSkillOwners deps c auth [kr_stored r, kr_predecessor r, Some h] s = Inr None"
    "grantedSuccessorVisibilityDenial (plan_view (SuccessorPlan sp)) = None"
proof -
  let ?args = "create_or_update_args deps ptr c auth r st False s s"
  obtain res v t where a: "runSkillVersionAttempt deps c auth (ks_now st) ?args False env s = (Attempted (VersionOk res v), t)"
    using ok_update_attempt [OF assms(1)] by blast
  obtain t' where rec: "recordVersion (kd_versions deps) (ae_lock env) (ae_commit env) c auth (ks_now st) Skill (prepare_skill ?args False)
      (mutate_skill deps ?args False (ae_check1 env) (ae_check2 env)) s = (VersionOk res v, t')"
    using attempt_recorded [OF a] by blast
  have "prepared_plan ?args False s \<noteq> Inr NoWrite" using assms(3) by (auto dest: unplanned_update)
  then obtain p r1 s1 where p: "prepared_plan ?args False s = Inr (AcceptedPlan p)"
    "write_plan deps (ka_hooks ?args) (ae_check1 env) (ae_check2 env) p s = Inr (r1, s1)" "\<forall>resp. r1 = Some resp \<longrightarrow> status resp < 300"
    using recorded_plan [OF rec] by blast
  note planned = planned_update [OF p(1) assms(2)]
  obtain sp where sp: "update_plan c auth r st (Some h) = SuccessorPlan sp" by (simp add: update_plan_def Let_def)
  have psp: "p = SuccessorPlan sp" using planned sp by simp
  have ao: "authorizeSkillOwners deps c auth [kr_stored r, kr_predecessor r, Some h] s = Inr None" using planned by simp
  have gd: "grantedSuccessorVisibilityDenial (plan_view p) = None" by (rule planned [THEN conjunct2, THEN conjunct2])
  show thesis
    by (rule that [OF a p(1) [unfolded psp] sp [symmetric] p(2) [unfolded psp] p(3) ao gd [unfolded psp]])
qed

text \<open>C11. A skill update of an agent that closes another agent's row and answers ok stands on a write grant that was still held on
  committed state after the close was staged; it changes neither the owner of the skill nor how it reads, as planned and
  as committed.\<close>

theorem cross_agent_update_stands_on_grant:
  assumes "writeSkillUpdate deps ptr c (Agent a admin) r st env s = (Some (Inr answer), s')"
    and "skillWriteSource c (Agent a admin) = Some ''agent''"
    and "resolveSkillHead deps (Some (skill_subject r st)) (addressed_id r) s = Inr (Some h)"
    and "getp h ''agentId'' = Str owner" "owner \<noteq> a"
    and "\<not> in_place r" "\<not> reembeds_in_place r (Some h)" "distinct (map fst (kr_content r))"
  shows "writeGrantHeld (kd_grants deps a owner (ae_check2 env)) \<and>
    getp (successor_row (Agent a admin) r st (Some h)) ''agentId'' = Str owner \<and>
    \<not> visibilityChanges (getp h ''visibility'') (getp (successor_row (Agent a admin) r st (Some h)) ''visibility'') \<and>
    (\<exists>committed. kd_get deps (js_String (getp h ''id'')) (ae_check1 env) = Inr committed \<and>
       \<not> committedVisibilityDiffers committed (getp (successor_row (Agent a admin) r st (Some h)) ''visibility''))"
proof -
  let ?succ = "successor_row (Agent a admin) r st (Some h)"
  obtain res v t r1 s1 sp where w: "SuccessorPlan sp = update_plan c (Agent a admin) r st (Some h)"
    "write_plan deps (ka_hooks (create_or_update_args deps ptr c (Agent a admin) r st False s s)) (ae_check1 env) (ae_check2 env)
       (SuccessorPlan sp) s = Inr (r1, s1)" "\<forall>resp. r1 = Some resp \<longrightarrow> status resp < 300"
    "authorizeSkillOwners deps c (Agent a admin) [kr_stored r, kr_predecessor r, Some h] s = Inr None"
    "grantedSuccessorVisibilityDenial (plan_view (SuccessorPlan sp)) = None"
    using ok_update_written [OF assms(1,3,6,7)] by metis
  have "\<exists>ow. getp h ''agentId'' = Str ow \<and> js_trim ow \<noteq> []" using owner_present [OF w(4), of h] by simp
  then have g: "grantedSkillClose (Some h) c (Agent a admin) = Some \<lparr>gc_granteeId = a, gc_ownerId = owner\<rparr>"
    using assms(2,4,5) by (simp add: grantedSkillClose_def stored_field_def)
  have sp: "sp_predecessor sp = Some h" "sp_successor sp = ?succ" "sp_grantedClose sp = Some \<lparr>gc_granteeId = a, gc_ownerId = owner\<rparr>"
    "sp_kind sp = ''update''"
    using w(1) assms(6,7) g by (simp_all add: update_plan_def Let_def)
  note checked = recheck_passed [OF written_close_rechecked [OF w(2,3) sp(1,3)]]
  have "\<not> visibilityChanges (getp h ''visibility'') (getp ?succ ''visibility'')"
    using w(5) by (auto simp: grantedSuccessorVisibilityDenial_def plan_view_def granted_js_def sp split: if_splits)
  then show ?thesis using checked successor_owner [OF assms(8,4)] by (simp add: sp)
qed

text \<open>C12. A skill update that superseded a row and answers ok has been confirmed on committed state, in one of at most four rounds: the
  superseded row, still the one that was planned on, is closed, and the successor is the only live head of its subject or
  was itself superseded by the version that follows this write's version and links to it by hash.\<close>

theorem skill_update_is_confirmed:
  assumes "writeSkillUpdate deps ptr c auth r st env s = (Some (Inr answer), s')"
    and "resolveSkillHead deps (Some (skill_subject r st)) (addressed_id r) s = Inr (Some h)" "\<not> in_place r" "\<not> reembeds_in_place r (Some h)"
  shows "\<exists>k \<le> 3. \<exists>row t. kd_get deps (js_String (getp h ''id'')) (ce_views (ae_confirm env) k 0) = Inr (Some row) \<and>
    sameStoredRow (Some row) (Some h) \<and> getp row ''validTo'' = Str t \<and> t \<noteq> [] \<and>
    ((\<exists>rows. kd_search deps [(''skillSubjectId'', Str (skill_subject r st))] (ce_views (ae_confirm env) k 2) = Inr rows \<and>
        map (\<lambda>x. js_String (getp x ''id'')) (filter (\<lambda>x. isOpenLiveRow (kd_reads deps) (Obj x)) rows) =
          [js_String (getp (successor_row auth r st (Some h)) ''id'')]) \<or>
     (\<exists>recordId appended following.
        readVersionRecord (kd_versions deps) Skill (skill_subject r st) recordId (ce_views (ae_confirm env) k 2) = Inr (Some appended) \<and>
        js_String (getp appended ''memoryId'') = js_String (getp (successor_row auth r st (Some h)) ''id'') \<and>
        readVersionRecordAfter (kd_versions deps) Skill (skill_subject r st) (getp appended ''version'') (ce_views (ae_confirm env) k 3)
          = Inr (Some following) \<and>
        getp following ''previousVersionHash'' = getp appended ''recordHash''))"
proof -
  let ?succ = "successor_row auth r st (Some h)"
  let ?args = "create_or_update_args deps ptr c auth r st False s s"
  obtain res v t sp where w: "runSkillVersionAttempt deps c auth (ks_now st) ?args False env s = (Attempted (VersionOk res v), t)"
    "prepared_plan ?args False s = Inr (AcceptedPlan (SuccessorPlan sp))" "SuccessorPlan sp = update_plan c auth r st (Some h)"
    using ok_update_written [OF assms] by metis
  have sp: "sp_predecessor sp = Some h" "sp_successor sp = ?succ" "sp_kind sp = ''update''"
    using w(3) assms(3,4) by (simp_all add: update_plan_def Let_def)
  have sid: "ka_subjectId ?args = skill_subject r st" by (simp add: create_or_update_args_def)
  let ?v = "if v = [] then None else Some v"
  obtain k where k: "k \<le> 3" "update_view deps (skill_subject r st) h ?succ ?v (ae_confirm env) k = CloseConfirmed"
    using confirmSkillUpdate_None [OF attempt_confirmed [OF w(1,2) sp(1,3)]] by (auto simp: sid sp(2))
  let ?views = "ce_views (ae_confirm env) k"
  obtain row t where row: "kd_get deps (js_String (getp h ''id'')) (?views 0) = Inr (Some row)" "sameStoredRow (Some row) (Some h)"
    "getp row ''validTo'' = Str t" "t \<noteq> []" "confirmsSingleHead deps (skill_subject r st) ?succ ?v ?views = None"
    using close_viewD [OF k(2) [unfolded update_view_def]] by blast
  show ?thesis
    by (intro exI [of _ k] exI [of _ row] exI [of _ t] conjI k(1) row(1-4) confirmed_head [OF row(5)])
qed

section \<open>One agent's update of another's skill\<close>

text \<open>A database of versions beside a Memory table.\<close>

type_synonym skill_db = "memory_db \<times> (string \<times> jobj) list"

definition on_versions :: "memory_db history_table \<Rightarrow> skill_db history_table" where
  "on_versions t =
     \<lparr>ht_search = (\<lambda>conds s. ht_search t conds (fst s)), ht_head = (\<lambda>conds s. ht_head t conds (fst s)),
      ht_get = (\<lambda>i s. ht_get t i (fst s)), ht_create = (\<lambda>r s. (ht_create t r (fst s), snd s)),
      ht_delete = (\<lambda>i s. (ht_delete t i (fst s), snd s))\<rparr>"

definition skill_versions :: "skill_db ver_deps" where
  "skill_versions =
     \<lparr>vd_tableLike = True, vd_eventsLike = True, vd_rawWriter = True,
      vd_versions = on_versions (vd_versions (memory_deps plain_crypto)), vd_events = on_versions (vd_events (memory_deps plain_crypto)),
      vd_souls = None, vd_valid = (\<lambda>_. True), vd_eventValid = (\<lambda>_. True), vd_crypto = plain_crypto\<rparr>"

definition skill_memory :: "skill_db skill_deps" where
  "skill_memory =
     \<lparr>kd_versions = skill_versions, kd_tableLike = True, kd_searchLike = True,
      kd_get = (\<lambda>i s. Inr (map_of (snd s) i)),
      kd_search = (\<lambda>conds s. Inr (filter (matches_conds conds) (map snd (snd s)))),
      kd_put = (\<lambda>row s. Inr (RowValue Undef, (fst s, AList.update (js_String (getp row ''id'')) row (snd s)))),
      kd_grants = (\<lambda>a owner s. [Some (Obj [(''granteeId'', Str a), (''ownerId'', Str owner), (''scope'', Str ''write'')])]),
      kd_reads = \<lparr>sk_head = (\<lambda>_. None), sk_memory = (\<lambda>_. None), sk_dparse = (\<lambda>_. None), sk_now = 0\<rparr>\<rparr>"

definition no_pointers :: "skill_db pointer_ops" where
  "no_pointers = \<lparr>pt_delete = (\<lambda>_ s. Inr (None, s)), pt_persist = (\<lambda>_ s. Inr (None, s))\<rparr>"

definition ember_row :: jobj where
  "ember_row = [(''id'', Str ''m1''), (''agentId'', Str ''ember''), (''content'', Str ''old''), (''tags'', Arr [Str ''skill'']),
     (''visibility'', Str ''shared''), (''durability'', Str ''persistent''), (''skillSubjectId'', Str ''k1'')]"

definition flint_row :: jobj where
  "flint_row = [(''id'', Str ''flint-u1''), (''agentId'', Str ''ember''), (''content'', Str ''new''), (''tags'', Arr [Str ''skill'']),
     (''visibility'', Str ''shared''), (''durability'', Str ''persistent''), (''skillSubjectId'', Str ''k1''),
     (''supersedes'', Str ''m1''), (''updatedAt'', Str ''2026-01-02''), (''archived'', Bool False), (''instanceToken'', Str ''t1'')]"

definition flint_request :: skill_request where
  "flint_request = \<lparr>kr_content = [(''id'', Str ''m1''), (''agentId'', Str ''flint''), (''content'', Str ''new'')],
     kr_stored = Some ember_row, kr_predecessor = None, kr_put = True, kr_pointer = False, kr_inPlaceId = None,
     kr_reembedding = False, kr_requested = None\<rparr>"

definition flint_stamps :: skill_stamps where
  "flint_stamps = \<lparr>ks_now = ''2026-01-02'', ks_uuid = ''u1'', ks_token = ''t1'', ks_instance = None\<rparr>"

definition flint_context :: req_context where
  "flint_context = \<lparr>rc_marker = False, rc_hasHeaders = True, rc_authorization = ''TPS-Ed25519 x''\<rparr>"

definition before_db :: skill_db where "before_db = (empty_db, [(''m1'', ember_row)])"

definition after_db :: skill_db where
  "after_db = (empty_db, [(''m1'', spread ember_row (close_patch ''k1'' ''2026-01-02'')), (''flint-u1'', flint_row)])"

definition flint_env :: "skill_db attempt_env" where
  "flint_env = \<lparr>ae_lock = Done (), ae_commit = None, ae_check1 = before_db, ae_check2 = before_db,
     ae_confirm = \<lparr>ce_views = (\<lambda>_ _. after_db), ce_commits = (\<lambda>_. None), ce_compensation = None, ce_applied = True\<rparr>, ae_leftover = False\<rparr>"

definition flint_args :: "skill_db skill_args" where
  "flint_args = create_or_update_args skill_memory no_pointers flint_context (Agent ''flint'' False) flint_request flint_stamps
     False before_db before_db"

definition flint_plan :: successor_plan where
  "flint_plan =
     \<lparr>sp_kind = ''update'', sp_predecessor = Some ember_row, sp_successor = flint_row,
      sp_closePatch = close_patch ''k1'' ''2026-01-02'', sp_value = Some ''new'', sp_visibility = Some ''shared'',
      sp_grantedClose = Some \<lparr>gc_granteeId = ''flint'', gc_ownerId = ''ember''\<rparr>\<rparr>"

lemma flint_head:
  "resolveSkillHead skill_memory (Some (skill_subject flint_request flint_stamps)) (addressed_id flint_request) before_db =
     Inr (Some ember_row)"
  by code_simp

lemma flint_successor: "successor_row (Agent ''flint'' False) flint_request flint_stamps (Some ember_row) = flint_row"
  by code_simp

lemma flint_planned: "prepared_plan flint_args False before_db = Inr (AcceptedPlan (SuccessorPlan flint_plan))"
  by code_simp

lemma flint_written: "mutate_skill skill_memory flint_args False before_db before_db before_db = Inr (RowResponse okResponse, after_db)"
  by code_simp

lemma flint_confirmed:
  "confirmSkillUpdate skill_memory ''k1'' ember_row (close_patch ''k1'' ''2026-01-02'') flint_row
     (Some \<lparr>gc_granteeId = ''flint'', gc_ownerId = ''ember''\<rparr>) authorize i (ae_confirm flint_env) = None"
  by code_simp

lemma flint_authorized:
  "resolveVersionAuthorization Skill flint_context (Agent ''flint'' False) =
     (\<lparr>at_actorKind = ''agent'', at_actorId = Some ''flint'', at_sourceClass = ''agent''\<rparr>, None)"
  by code_simp

lemma flint_basics:
  "ka_subjectId flint_args = ''k1''" "ka_expectedVersion flint_args = None"
  "reservedSeedSubjectDenial ''Memory'' [Str (skill_subject flint_request flint_stamps)] flint_context (Agent ''flint'' False) = None"
  by code_simp+

lemma flint_setting:
  "kd_versions skill_memory = skill_versions" "ks_now flint_stamps = ''2026-01-02''" "ae_lock flint_env = Done ()"
  "ae_commit flint_env = None" "ae_check1 flint_env = before_db" "ae_check2 flint_env = before_db"
  by (simp_all add: skill_memory_def flint_stamps_def flint_env_def)

lemma flint_no_head: "version_head skill_versions (skill_version_input flint_args p) before_db = Inr None"
  by (simp add: version_head_def skill_version_input_def flint_basics readHead_def skill_versions_def on_versions_def memory_table
      before_db_def empty_db_def table_rows_def Let_def)

lemma flint_input:
  "vi_type (skill_version_input flint_args p) = Skill" "vi_expectedVersion (skill_version_input flint_args p) = None"
  "vi_subjectId (skill_version_input flint_args p) = ''k1''"
  by (simp_all add: skill_version_input_def flint_basics Let_def)

lemma flint_stored: "\<exists>t. store_version skill_versions r s = Inr t"
  by (simp add: store_version_def appendInstructionEvent_def skill_versions_def)

lemma flint_recorded:
  "\<exists>t. recordVersion skill_versions (Done ()) None flint_context (Agent ''flint'' False) ''2026-01-02'' Skill (prepare_skill flint_args False)
     (mutate_skill skill_memory flint_args False before_db before_db) before_db = (VersionOk (RowResponse okResponse) (versionId Skill ''k1'' 1), t)"
proof -
  let ?inp = "skill_version_input flint_args (SuccessorPlan flint_plan)"
  let ?attr = "\<lparr>at_actorKind = ''agent'', at_actorId = Some ''flint'', at_sourceClass = ''agent''\<rparr>"
  have p: "prepare_skill flint_args False before_db = Inr (PrepInput ?inp)" by (simp add: prepare_skill_def bind_sum_def flint_planned)
  have run: "run_row (mutate_skill skill_memory flint_args False before_db before_db) before_db = Inr (RowResponse okResponse, after_db)"
    by (simp add: run_row_def flint_written bind_sum_def denied_result_def okResponse_def)
  obtain t where t: "store_version skill_versions (version_record ?inp ?attr ''2026-01-02'' (vd_crypto skill_versions) None 1) after_db = Inr t"
    using flint_stored by blast
  have "append_version skill_versions ?attr ''2026-01-02'' ?inp (mutate_skill skill_memory flint_args False before_db before_db) None before_db =
      Inr (VersionOk (RowResponse okResponse) (versionId Skill ''k1'' 1), t)"
    by (simp add: append_version_def run bind_sum_def with_snapshot_def flint_input close_old_subject_def identityChanged_def
        next_version_def t)
  then show ?thesis
    by (simp add: recordVersion_def record_body_def flint_authorized p bind_sum_def append_input_def flint_input flint_no_head
        soul_occupied_def identityChanged_def) (simp add: skill_versions_def)
qed

lemma flint_attempt:
  "\<exists>t. runSkillVersionAttempt skill_memory flint_context (Agent ''flint'' False) ''2026-01-02'' flint_args False flint_env before_db =
     (Attempted (VersionOk (RowResponse okResponse) (versionId Skill ''k1'' 1)), t)"
proof -
  obtain t where t: "recordVersion skill_versions (Done ()) None flint_context (Agent ''flint'' False) ''2026-01-02'' Skill
      (prepare_skill flint_args False) (mutate_skill skill_memory flint_args False before_db before_db) before_db =
      (VersionOk (RowResponse okResponse) (versionId Skill ''k1'' 1), t)"
    using flint_recorded by blast
  have plan: "sp_predecessor flint_plan = Some ember_row" "sp_kind flint_plan = ''update''" "sp_successor flint_plan = flint_row"
    "sp_closePatch flint_plan = close_patch ''k1'' ''2026-01-02''"
    "sp_grantedClose flint_plan = Some \<lparr>gc_granteeId = ''flint'', gc_ownerId = ''ember''\<rparr>"
    by (simp_all add: flint_plan_def)
  show ?thesis
    by (simp add: runSkillVersionAttempt_def flint_basics flint_setting t flint_planned plan flint_confirmed)
qed

lemma flint_updates:
  "\<exists>answer s'. writeSkillUpdate skill_memory no_pointers flint_context (Agent ''flint'' False) flint_request flint_stamps flint_env before_db =
     (Some (Inr answer), s')"
proof -
  obtain t where t: "runSkillVersionAttempt skill_memory flint_context (Agent ''flint'' False) ''2026-01-02'' flint_args False flint_env
      before_db = (Attempted (VersionOk (RowResponse okResponse) (versionId Skill ''k1'' 1)), t)"
    using flint_attempt by blast
  show ?thesis
    by (simp add: writeSkillUpdate_def flint_basics flint_setting runSkillVersionWrite_def runSkillVersionWriteInner_def t
        compensated_outcome_def Let_def flip: flint_args_def)
qed

lemma flint_fresh:
  "\<not> in_place flint_request" "\<not> reembeds_in_place flint_request (Some ember_row)" "distinct (map fst (kr_content flint_request))"
  "getp ember_row ''agentId'' = Str ''ember''" "skillWriteSource flint_context (Agent ''flint'' False) = Some ''agent''"
  by code_simp+

theorem cross_agent_update_stands_on_grant_witness:
  "writeGrantHeld (kd_grants skill_memory ''flint'' ''ember'' (ae_check2 flint_env)) \<and> getp flint_row ''agentId'' = Str ''ember'' \<and>
   \<not> visibilityChanges (getp ember_row ''visibility'') (getp flint_row ''visibility'')"
proof -
  obtain answer s' where run: "writeSkillUpdate skill_memory no_pointers flint_context (Agent ''flint'' False) flint_request flint_stamps
      flint_env before_db = (Some (Inr answer), s')" using flint_updates by blast
  have other: "(''ember'' :: string) \<noteq> ''flint''" by simp
  show ?thesis
    using cross_agent_update_stands_on_grant [OF run flint_fresh(5) flint_head flint_fresh(4) other flint_fresh(1-3)]
    by (simp add: flint_successor)
qed

theorem skill_update_is_confirmed_witness:
  "\<exists>k \<le> 3. \<exists>row t. kd_get skill_memory ''m1'' (ce_views (ae_confirm flint_env) k 0) = Inr (Some row) \<and>
     getp row ''validTo'' = Str t \<and> t \<noteq> []"
proof -
  obtain answer s' where run: "writeSkillUpdate skill_memory no_pointers flint_context (Agent ''flint'' False) flint_request flint_stamps
      flint_env before_db = (Some (Inr answer), s')" using flint_updates by blast
  have i: "js_String (getp ember_row ''id'') = ''m1''" by code_simp
  show ?thesis using skill_update_is_confirmed [OF run flint_head flint_fresh(1,2)] unfolding i by blast
qed

end
