(* ===== verification/WriteJournal.thy ===== *)
theory WriteJournal
  imports VersionRead WriteBack
begin

text \<open>
  The write journal: \<open>resources/write-journal.ts\<close>. A journal records every write that an owned transaction stages, with the row before
  and after it, and \<open>undo\<close> takes the applied writes back, newest first. The undo runs beside other writers, so it is a step
  relation: between any two of its awaits any committed row may change. A commit takes a fresh version. Reads are of committed
  rows; \<open>materialize\<close>, which copies a value, is the identity on values without a prototype of their own.
\<close>

section \<open>Entries\<close>

type_synonym place = "string \<times> string"

text \<open>A staged write: its identity, its transaction, its place, and whether it is one the journal can take back.\<close>

record jentry =
  je_operation :: nat
  je_transaction :: nat
  je_place :: place
  je_before :: js
  je_after :: js
  je_applied :: bool
  je_version :: nat

definition copy_js :: "js \<Rightarrow> js" where "copy_js v = (if nullish v then Undef else v)"

definition same_copy :: "js \<Rightarrow> js \<Rightarrow> bool" where "same_copy a b \<longleftrightarrow> isDeepStrictEqual (copy_js a) (copy_js b)"

text \<open>\<open>tags.includes("skill")\<close> of an array or a text.\<close>

fun has_infix :: "string \<Rightarrow> string \<Rightarrow> bool" where
  "has_infix p [] = (p = [])"
| "has_infix p (c # cs) = (take (length p) (c # cs) = p \<or> has_infix p cs)"

definition includes_skill :: "js \<Rightarrow> bool" where
  "includes_skill tags = (case tags of Arr xs \<Rightarrow> Str ''skill'' \<in> set xs | Str t \<Rightarrow> has_infix ''skill'' t | _ \<Rightarrow> False)"

definition undoable :: "skill_reads \<Rightarrow> jentry \<Rightarrow> js \<Rightarrow> bool" where
  "undoable rd e current \<longleftrightarrow>
     same_copy current (je_after e) \<and>
     (je_before e \<noteq> Undef \<or> \<not> includes_skill (field (je_after e) ''tags'') \<or>
      (truthy current \<and> field current ''archived'' \<noteq> Bool True \<and> \<not> truthy (field current ''validTo'') \<and>
       (nullish (field current ''expiresAt'') \<or> (case field current ''expiresAt'' of Str t \<Rightarrow> later_than_now rd t | _ \<Rightarrow> False))))"

section \<open>Recording\<close>

record journal =
  j_entries :: "jentry list"
  j_staged :: "nat list"
  j_transactions :: "nat list"

definition empty_journal :: journal where "empty_journal = \<lparr>j_entries = [], j_staged = [], j_transactions = []\<rparr>"

definition attach_transaction :: "nat \<Rightarrow> journal \<Rightarrow> journal" where
  "attach_transaction txn j = (if txn \<in> set (j_transactions j) then j else j\<lparr>j_transactions := j_transactions j @ [txn]\<rparr>)"

text \<open>The wrapped \<open>addWrite\<close>; \<open>supported\<close> says that the operation has a commit, a store and a key. \<open>False\<close>: it throws.\<close>

definition add_write :: "nat \<Rightarrow> nat \<Rightarrow> place \<Rightarrow> js \<Rightarrow> bool \<Rightarrow> journal \<Rightarrow> bool \<times> journal" where
  "add_write txn op p seen supported j =
     (supported,
      j\<lparr>j_entries := j_entries j @ [\<lparr>je_operation = op, je_transaction = txn, je_place = p, je_before = copy_js seen,
            je_after = Undef, je_applied = False, je_version = 0\<rparr>],
        j_staged := (if op \<in> set (j_staged j) then j_staged j else j_staged j @ [op])\<rparr>)"

text \<open>The wrapped commit at an instant: \<open>prior\<close> is what an earlier write of the transaction left there, \<open>base\<close> the committed row and
  \<open>staged\<close> the row the operation leaves, if it applies.\<close>

definition commit_entry :: "nat \<Rightarrow> js option \<Rightarrow> js \<Rightarrow> js option \<Rightarrow> jentry \<Rightarrow> jentry" where
  "commit_entry time prior base staged e =
     e\<lparr>je_before := copy_js (case prior of Some v \<Rightarrow> v | None \<Rightarrow> base),
       je_applied := staged \<noteq> None,
       je_after := (case staged of Some v \<Rightarrow> copy_js v | None \<Rightarrow> Undef),
       je_version := time\<rparr>"

definition update_entry :: "nat \<Rightarrow> (jentry \<Rightarrow> jentry) \<Rightarrow> journal \<Rightarrow> journal" where
  "update_entry op f j = j\<lparr>j_entries := map (\<lambda>e. if je_operation e = op then f e else e) (j_entries j)\<rparr>"

text \<open>\<open>writes\<close> are the operations a transaction now holds.\<close>

definition assertCoverage :: "(nat \<Rightarrow> nat list) \<Rightarrow> journal \<Rightarrow> bool" where
  "assertCoverage writes j \<longleftrightarrow>
     (\<forall>txn \<in> set (j_transactions j). \<forall>op \<in> set (writes txn). op \<in> je_operation ` set (j_entries j)) \<and>
     (\<forall>op \<in> set (j_staged j). op \<in> je_operation ` set (j_entries j))"

text \<open>A transaction that failed before its callback completed leaves nothing in the journal: \<open>links\<close> are its transactions and
  \<open>owner\<close> the transaction of an operation.\<close>

definition forget_links :: "nat list \<Rightarrow> (nat \<Rightarrow> nat) \<Rightarrow> journal \<Rightarrow> journal" where
  "forget_links links owner j =
     \<lparr>j_entries = filter (\<lambda>e. je_transaction e \<notin> set links) (j_entries j),
      j_staged = filter (\<lambda>op. owner op \<notin> set links) (j_staged j),
      j_transactions = filter (\<lambda>t. t \<notin> set links) (j_transactions j)\<rparr>"

definition end_transaction :: "bool \<Rightarrow> bool \<Rightarrow> nat list \<Rightarrow> (nat \<Rightarrow> nat) \<Rightarrow> (nat \<Rightarrow> nat list) \<Rightarrow> journal \<Rightarrow> bool \<times> journal" where
  "end_transaction failed completed links owner writes j =
     (if failed \<or> \<not> assertCoverage writes j
      then (False, if completed then j else forget_links links owner j)
      else (True, j))"

section \<open>Committed rows\<close>

text \<open>The committed row of a place with its version; an absent row has none.\<close>

record row_store =
  rs_rows :: "(place \<times> jobj \<times> nat) list"
  rs_clock :: nat

definition row_at :: "row_store \<Rightarrow> place \<Rightarrow> js" where
  "row_at db p = (case map_of (rs_rows db) p of Some (row, _) \<Rightarrow> Obj row | None \<Rightarrow> Undef)"

definition version_at :: "row_store \<Rightarrow> place \<Rightarrow> nat option" where
  "version_at db p = map_option snd (map_of (rs_rows db) p)"

text \<open>A commit of one row, at the next instant.\<close>

definition commit_row :: "place \<Rightarrow> jobj option \<Rightarrow> row_store \<Rightarrow> row_store" where
  "commit_row p v db =
     \<lparr>rs_rows = (case v of Some row \<Rightarrow> AList.update p (row, Suc (rs_clock db)) (rs_rows db) | None \<Rightarrow> AList.delete p (rs_rows db)),
      rs_clock = Suc (rs_clock db)\<rparr>"

definition row_of :: "js \<Rightarrow> jobj option" where "row_of v = (case v of Obj row \<Rightarrow> Some row | _ \<Rightarrow> None)"

section \<open>Undo\<close>

text \<open>What the undo reads of the tables: the places whose table can be undone, the host-pointer places, and the clock.\<close>

record undo_deps =
  ud_table :: "string \<Rightarrow> bool"
  ud_pointer :: "string \<Rightarrow> bool"
  ud_reads :: skill_reads

datatype undo_phase =
  Undoing
| Opened jentry nat
| Written jentry nat
| ReadBack jentry nat
| Checking "(place \<times> jentry) list"
| CheckingVersion jentry js "(place \<times> jentry) list"
| Ended

text \<open>The undo and the database beside it. The last field records the rows of the final reads.\<close>

record undo_world =
  uw_db :: row_store
  uw_todo :: "jentry list"
  uw_phase :: undo_phase
  uw_confirmed :: bool
  uw_pointerChanged :: bool
  uw_undone :: "(place \<times> jentry) list"
  uw_versions :: "(place \<times> nat) list"
  uw_seen :: "(place \<times> js) list"

definition start_undo :: "journal \<Rightarrow> row_store \<Rightarrow> undo_world" where
  "start_undo j db =
     \<lparr>uw_db = db, uw_todo = rev (j_entries j), uw_phase = Undoing, uw_confirmed = True, uw_pointerChanged = False, uw_undone = [],
      uw_versions = [], uw_seen = []\<rparr>"

definition expected_version :: "undo_world \<Rightarrow> jentry \<Rightarrow> nat" where
  "expected_version w e = (case map_of (uw_versions w) (je_place e) of Some v \<Rightarrow> v | None \<Rightarrow> je_version e)"

definition pointer_present :: "undo_deps \<Rightarrow> jentry \<Rightarrow> js \<Rightarrow> bool" where
  "pointer_present ud e current \<longleftrightarrow> ud_pointer ud (fst (je_place e)) \<and> \<not> nullish (field current ''hostSource'')"

text \<open>An entry given up: unconfirmed, with whether a different pointer row is there.\<close>

definition given_up :: "bool \<Rightarrow> undo_world \<Rightarrow> undo_world" where
  "given_up pointer w = w\<lparr>uw_phase := Undoing, uw_todo := tl (uw_todo w), uw_confirmed := False,
     uw_pointerChanged := (uw_pointerChanged w \<or> pointer)\<rparr>"

text \<open>The commit-time guard of an undo write.\<close>

definition undo_guard :: "undo_deps \<Rightarrow> jentry \<Rightarrow> nat \<Rightarrow> row_store \<Rightarrow> bool" where
  "undo_guard ud e expected db \<longleftrightarrow>
     undoable (ud_reads ud) e (row_at db (je_place e)) \<and>
     (case version_at db (je_place e) of Some v \<Rightarrow> v = expected | None \<Rightarrow> True)"

text \<open>The places whose undo wrote, grouped by store in the order of the maps.\<close>

definition undone_in_order :: "(place \<times> jentry) list \<Rightarrow> (place \<times> jentry) list" where
  "undone_in_order us = concat (map (\<lambda>s. filter (\<lambda>u. fst (fst u) = s) us) (remdups (map (fst \<circ> fst) us)))"

definition version_agrees :: "undo_world \<Rightarrow> place \<Rightarrow> nat option \<Rightarrow> bool" where
  "version_agrees w p expected \<longleftrightarrow> (case version_at (uw_db w) p of Some v \<Rightarrow> Some v = expected | None \<Rightarrow> True)"

text \<open>Who acts in a step: another writer, or the undo, which may write a row.\<close>

datatype undo_act = OtherWrites place | UndoWrites place | UndoSteps

inductive undo_step :: "undo_deps \<Rightarrow> undo_world \<Rightarrow> undo_act \<Rightarrow> undo_world \<Rightarrow> bool" for ud where
  other: "undo_step ud w (OtherWrites p) (w\<lparr>uw_db := commit_row p v (uw_db w)\<rparr>)"
| not_applied: "\<lbrakk>uw_phase w = Undoing; uw_todo w = e # es; \<not> je_applied e\<rbrakk> \<Longrightarrow> undo_step ud w UndoSteps (w\<lparr>uw_todo := es\<rparr>)"
| no_table: "\<lbrakk>uw_phase w = Undoing; uw_todo w = e # es; je_applied e; \<not> ud_table ud (fst (je_place e))\<rbrakk>
    \<Longrightarrow> undo_step ud w UndoSteps (given_up False w)"
| changed: "\<lbrakk>uw_phase w = Undoing; uw_todo w = e # es; je_applied e; ud_table ud (fst (je_place e));
     \<not> undoable (ud_reads ud) e (row_at (uw_db w) (je_place e))\<rbrakk>
    \<Longrightarrow> undo_step ud w UndoSteps (given_up (pointer_present ud e (row_at (uw_db w) (je_place e))) w)"
| opened: "\<lbrakk>uw_phase w = Undoing; uw_todo w = e # es; je_applied e; ud_table ud (fst (je_place e));
     undoable (ud_reads ud) e (row_at (uw_db w) (je_place e))\<rbrakk>
    \<Longrightarrow> undo_step ud w UndoSteps (w\<lparr>uw_phase := Opened e (expected_version w e)\<rparr>)"
| fails: "\<lbrakk>uw_phase w = Undoing \<and> (\<exists>es. uw_todo w = e # es \<and> je_applied e \<and> ud_table ud (fst (je_place e))) \<or>
      (\<exists>x. uw_phase w = Opened e x \<or> uw_phase w = Written e x \<or> uw_phase w = ReadBack e x);
     pointer \<longrightarrow> ud_pointer ud (fst (je_place e))\<rbrakk>
    \<Longrightarrow> undo_step ud w UndoSteps (given_up pointer w)"
| writes: "\<lbrakk>uw_phase w = Opened e expected; undo_guard ud e expected (uw_db w)\<rbrakk>
    \<Longrightarrow> undo_step ud w (UndoWrites (je_place e))
      (w\<lparr>uw_db := commit_row (je_place e) (row_of (je_before e)) (uw_db w), uw_phase := Written e (Suc (rs_clock (uw_db w)))\<rparr>)"
| skipped: "\<lbrakk>uw_phase w = Opened e expected; undo_guard ud e expected (uw_db w)\<rbrakk>
    \<Longrightarrow> undo_step ud w UndoSteps
      (w\<lparr>uw_db := (uw_db w)\<lparr>rs_clock := Suc (rs_clock (uw_db w))\<rparr>, uw_phase := Written e (Suc (rs_clock (uw_db w)))\<rparr>)"
| read_back: "uw_phase w = Written e t \<Longrightarrow> undo_step ud w UndoSteps
    (w\<lparr>uw_phase := ReadBack e t, uw_confirmed := (uw_confirmed w \<and> same_copy (row_at (uw_db w) (je_place e)) (je_before e))\<rparr>)"
| undone: "uw_phase w = ReadBack e t \<Longrightarrow> undo_step ud w UndoSteps
    (w\<lparr>uw_phase := Undoing, uw_todo := tl (uw_todo w), uw_confirmed := (uw_confirmed w \<and> version_agrees w (je_place e) (Some t)),
       uw_undone := AList.update (je_place e) e (uw_undone w), uw_versions := AList.update (je_place e) t (uw_versions w)\<rparr>)"
| check: "\<lbrakk>uw_phase w = Undoing; uw_todo w = []\<rbrakk>
    \<Longrightarrow> undo_step ud w UndoSteps (w\<lparr>uw_phase := Checking (undone_in_order (uw_undone w))\<rparr>)"
| check_fails: "uw_phase w = Checking ((p, e) # us) \<Longrightarrow> undo_step ud w UndoSteps (w\<lparr>uw_phase := Checking us, uw_confirmed := False\<rparr>)"
| check_reads: "uw_phase w = Checking ((p, e) # us) \<Longrightarrow> undo_step ud w UndoSteps
    (w\<lparr>uw_phase := CheckingVersion e (row_at (uw_db w) p) us, uw_seen := (p, row_at (uw_db w) p) # uw_seen w\<rparr>)"
| check_version: "uw_phase w = CheckingVersion e current us \<Longrightarrow> undo_step ud w UndoSteps
    (let good = same_copy current (je_before e) \<and> version_agrees w (je_place e) (map_of (uw_versions w) (je_place e)) in
     w\<lparr>uw_phase := Checking us, uw_confirmed := (uw_confirmed w \<and> good),
       uw_pointerChanged := (uw_pointerChanged w \<or> \<not> good \<and> pointer_present ud e current)\<rparr>)"
| ended: "uw_phase w = Checking [] \<Longrightarrow> undo_step ud w UndoSteps (w\<lparr>uw_phase := Ended\<rparr>)"

text \<open>A run of the undo, with the writes of others beside it, newest act first.\<close>

inductive undo_run :: "undo_deps \<Rightarrow> undo_world \<Rightarrow> (undo_act \<times> nat) list \<Rightarrow> undo_world \<Rightarrow> bool" for ud w0 where
  start: "undo_run ud w0 [] w0"
| step: "undo_run ud w0 acts w \<Longrightarrow> undo_step ud w act w' \<Longrightarrow> undo_run ud w0 ((act, rs_clock (uw_db w')) # acts) w'"

text \<open>The answer of \<open>undo\<close>: none while it runs.\<close>

definition undo_answer :: "undo_world \<Rightarrow> bool option" where
  "undo_answer w = (if uw_phase w = Ended then Some (uw_confirmed w) else None)"

section \<open>The undo loses no write of another\<close>

definition clock_after :: "row_store \<Rightarrow> (undo_act \<times> nat) list \<Rightarrow> row_store \<Rightarrow> bool" where
  "clock_after db0 acts db \<longleftrightarrow> rs_clock db0 \<le> rs_clock db \<and>
     (\<forall>p t. (OtherWrites p, t) \<in> set acts \<longrightarrow> rs_clock db0 < t \<and> t \<le> rs_clock db)"

text \<open>An instant that the undo, not another writer, committed at.\<close>

definition undo_instant :: "row_store \<Rightarrow> (undo_act \<times> nat) list \<Rightarrow> row_store \<Rightarrow> nat \<Rightarrow> bool" where
  "undo_instant db0 acts db t \<longleftrightarrow> rs_clock db0 < t \<and> t \<le> rs_clock db \<and> (\<forall>p. (OtherWrites p, t) \<notin> set acts)"

definition owned_version :: "jentry list \<Rightarrow> row_store \<Rightarrow> (undo_act \<times> nat) list \<Rightarrow> row_store \<Rightarrow> jentry \<Rightarrow> nat \<Rightarrow> bool" where
  "owned_version es db0 acts db e t \<longleftrightarrow> e \<in> set es \<and> je_applied e \<and> (je_version e = t \<or> undo_instant db0 acts db t)"

definition own_inv :: "jentry list \<Rightarrow> row_store \<Rightarrow> (undo_act \<times> nat) list \<Rightarrow> undo_world \<Rightarrow> bool" where
  "own_inv es db0 acts w \<longleftrightarrow>
     clock_after db0 acts (uw_db w) \<and> set (uw_todo w) \<subseteq> set es \<and>
     (\<forall>p t. map_of (uw_versions w) p = Some t \<longrightarrow> undo_instant db0 acts (uw_db w) t) \<and>
     (\<forall>e t. uw_phase w = Opened e t \<longrightarrow> owned_version es db0 acts (uw_db w) e t) \<and>
     (\<forall>e t. uw_phase w = Written e t \<or> uw_phase w = ReadBack e t \<longrightarrow> undo_instant db0 acts (uw_db w) t)"

lemma commit_clock [simp]: "rs_clock (commit_row p v db) = Suc (rs_clock db)"
  by (simp add: commit_row_def)

lemma clock_after_step:
  assumes "clock_after db0 acts db" "rs_clock db \<le> rs_clock db'"
    and "\<And>p. act = OtherWrites p \<Longrightarrow> rs_clock db < rs_clock db'"
  shows "clock_after db0 ((act, rs_clock db') # acts) db'"
  using assms by (fastforce simp: clock_after_def)

lemma undo_instant_step:
  assumes "undo_instant db0 acts db t" "rs_clock db \<le> rs_clock db'" "\<And>p. act = OtherWrites p \<Longrightarrow> rs_clock db < rs_clock db'"
  shows "undo_instant db0 ((act, rs_clock db') # acts) db' t"
  using assms by (fastforce simp: undo_instant_def)

lemma owned_version_step:
  assumes "owned_version es db0 acts db e t" "rs_clock db \<le> rs_clock db'" "\<And>p. act = OtherWrites p \<Longrightarrow> rs_clock db < rs_clock db'"
  shows "owned_version es db0 ((act, rs_clock db') # acts) db' e t"
  using assms undo_instant_step [of db0 acts db t db' act] by (auto simp: owned_version_def)

lemma step_clock:
  assumes "undo_step ud w act w'"
  shows "rs_clock (uw_db w) \<le> rs_clock (uw_db w')" "act = OtherWrites p \<Longrightarrow> rs_clock (uw_db w) < rs_clock (uw_db w')"
  using assms by (cases; simp add: given_up_def Let_def)+

lemma own_inv_frame:
  assumes "own_inv es db0 acts w" "rs_clock (uw_db w) \<le> rs_clock (uw_db w')"
    and "\<And>p. act = OtherWrites p \<Longrightarrow> rs_clock (uw_db w) < rs_clock (uw_db w')"
    and "set (uw_todo w') \<subseteq> set es" "uw_versions w' = uw_versions w"
    and "\<And>e t. uw_phase w' = Opened e t \<Longrightarrow> owned_version es db0 ((act, rs_clock (uw_db w')) # acts) (uw_db w') e t"
    and "\<And>e t. uw_phase w' = Written e t \<or> uw_phase w' = ReadBack e t \<Longrightarrow> undo_instant db0 ((act, rs_clock (uw_db w')) # acts) (uw_db w') t"
  shows "own_inv es db0 ((act, rs_clock (uw_db w')) # acts) w'"
  using assms(1,4-7) clock_after_step [OF _ assms(2,3), of db0 acts] undo_instant_step [OF _ assms(2,3), of db0 acts]
  unfolding own_inv_def by (intro conjI) (blast | simp)+

lemma own_inv_step:
  assumes "own_inv es db0 acts w" "undo_step ud w act w'"
  shows "own_inv es db0 ((act, rs_clock (uw_db w')) # acts) w'"
proof -
  note clock = step_clock [OF assms(2)]
  have inv: "clock_after db0 acts (uw_db w)" "set (uw_todo w) \<subseteq> set es"
    "\<And>p t. map_of (uw_versions w) p = Some t \<Longrightarrow> undo_instant db0 acts (uw_db w) t"
    "\<And>e t. uw_phase w = Opened e t \<Longrightarrow> owned_version es db0 acts (uw_db w) e t"
    "\<And>e t. uw_phase w = Written e t \<or> uw_phase w = ReadBack e t \<Longrightarrow> undo_instant db0 acts (uw_db w) t"
    using assms(1) unfolding own_inv_def by blast+
  note frame = own_inv_frame [OF assms(1) clock]
  have owned: "owned_version es db0 ((act, rs_clock (uw_db w')) # acts) (uw_db w') e t"
    if "uw_phase w = Opened e t" for e t using owned_version_step [OF inv(4) [OF that] clock] .
  have kept: "undo_instant db0 ((act, rs_clock (uw_db w')) # acts) (uw_db w') t" if "map_of (uw_versions w) p = Some t" for p t
    using undo_instant_step [OF inv(3) [OF that] clock] .
  have instant: "undo_instant db0 ((act, rs_clock (uw_db w')) # acts) (uw_db w') t"
    if "uw_phase w = Written e t \<or> uw_phase w = ReadBack e t" for e t using undo_instant_step [OF inv(5) [OF that] clock] .
  have rest: "set (tl (uw_todo w)) \<subseteq> set es" using inv(2) by (cases "uw_todo w") auto
  have new: "undo_instant db0 ((act, rs_clock (uw_db w')) # acts) (uw_db w') (Suc (rs_clock (uw_db w)))"
    if "rs_clock (uw_db w') = Suc (rs_clock (uw_db w))" "\<And>p. act \<noteq> OtherWrites p"
    using inv(1) that by (fastforce simp: undo_instant_def clock_after_def)
  show ?thesis
    using assms(2)
  proof cases
    case (other p v)
    show ?thesis by (rule frame) (use other inv(2) owned instant in auto)
  next
    case (not_applied e es')
    show ?thesis by (rule frame) (use not_applied inv(2) in auto)
  next
    case (no_table e es')
    show ?thesis by (rule frame) (use no_table rest in \<open>auto simp: given_up_def\<close>)
  next
    case (changed e es')
    show ?thesis by (rule frame) (use changed rest in \<open>auto simp: given_up_def\<close>)
  next
    case (opened e es')
    have "owned_version es db0 acts (uw_db w) e (expected_version w e)"
      using opened inv(2,3) by (auto simp: owned_version_def expected_version_def split: option.split)
    then have "owned_version es db0 ((act, rs_clock (uw_db w')) # acts) (uw_db w') e (expected_version w e)"
      by (rule owned_version_step [OF _ clock])
    then show ?thesis by (intro frame) (use opened inv(2) in auto)
  next
    case (fails e pointer)
    show ?thesis by (rule frame) (use fails rest in \<open>auto simp: given_up_def\<close>)
  next
    case (writes e expected)
    show ?thesis by (rule frame) (use writes inv(2) new in auto)
  next
    case (skipped e expected)
    show ?thesis by (rule frame) (use skipped inv(2) new in auto)
  next
    case (read_back e t)
    show ?thesis by (rule frame) (use read_back inv(2) instant in auto)
  next
    case (undone e t)
    have "undo_instant db0 ((act, rs_clock (uw_db w')) # acts) (uw_db w') v" if "map_of (uw_versions w') p = Some v" for p v
      using that undone(2,3) kept [of p v] instant [of e v] by (auto simp: update_conv' split: if_splits)
    then show ?thesis
      using clock_after_step [OF inv(1) clock] rest undone unfolding own_inv_def by auto
  next
    case check
    show ?thesis by (rule frame) (use check inv(2) in auto)
  next
    case (check_fails p e us)
    show ?thesis by (rule frame) (use check_fails inv(2) in auto)
  next
    case (check_reads p e us)
    show ?thesis by (rule frame) (use check_reads inv(2) in auto)
  next
    case (check_version e current us)
    show ?thesis by (rule frame) (use check_version inv(2) in \<open>auto simp: Let_def\<close>)
  next
    case ended
    show ?thesis by (rule frame) (use ended inv(2) in auto)
  qed
qed

lemma own_inv_run: "undo_run ud (start_undo j db) acts w \<Longrightarrow> own_inv (j_entries j) db acts w"
proof (induction rule: undo_run.induct)
  case start
  show ?case by (simp add: own_inv_def clock_after_def start_undo_def)
next
  case (step acts w act w')
  show ?case by (rule own_inv_step [OF step.IH step.hyps(2)])
qed

text \<open>C16. The undo never overwrites a row that another writer committed: every row it replaces is the one an applied write of its
  journal left, at the version of that write or of the undo itself. This holds for every interleaving with other writers.\<close>

theorem undo_overwrites_only_its_own_rows:
  assumes "undo_run ud (start_undo j db) acts w" "undo_step ud w (UndoWrites p) w'" "version_at (uw_db w) p = Some v"
    and "\<forall>e \<in> set (j_entries j). je_version e \<le> rs_clock db"
  shows "(\<forall>q. (OtherWrites q, v) \<notin> set acts) \<and>
    (\<exists>e \<in> set (j_entries j). je_applied e \<and> je_place e = p \<and> same_copy (row_at (uw_db w) p) (je_after e) \<and>
       (je_version e = v \<or> rs_clock db < v))"
proof -
  have inv: "own_inv (j_entries j) db acts w" by (rule own_inv_run [OF assms(1)])
  from assms(2) obtain e where e: "uw_phase w = Opened e v" "je_place e = p" "undoable (ud_reads ud) e (row_at (uw_db w) p)"
    by cases (use assms(3) in \<open>auto simp: undo_guard_def\<close>)
  have own: "owned_version (j_entries j) db acts (uw_db w) e v" and clock: "clock_after db acts (uw_db w)"
    using inv e(1) unfolding own_inv_def by blast+
  then have "\<forall>q. (OtherWrites q, v) \<notin> set acts"
    using assms(4) unfolding owned_version_def undo_instant_def clock_after_def by (metis leD)
  then show ?thesis using own e(2,3) by (auto simp: owned_version_def undo_instant_def undoable_def)
qed

section \<open>A confirmed undo restores\<close>

fun in_entry :: "undo_phase \<Rightarrow> jentry option" where
  "in_entry (Opened e _) = Some e"
| "in_entry (Written e _) = Some e"
| "in_entry (ReadBack e _) = Some e"
| "in_entry _ = None"

fun checks_left :: "undo_phase \<Rightarrow> (place \<times> jentry) list option" where
  "checks_left (Checking us) = Some us"
| "checks_left (CheckingVersion e _ us) = Some ((je_place e, e) # us)"
| "checks_left Ended = Some []"
| "checks_left _ = None"

definition earliest :: "jentry list \<Rightarrow> place \<Rightarrow> jentry option" where
  "earliest es p = find (\<lambda>e. je_applied e \<and> je_place e = p) es"

definition undo_shape :: "undo_world \<Rightarrow> bool" where
  "undo_shape w \<longleftrightarrow>
     (\<forall>e. in_entry (uw_phase w) = Some e \<longrightarrow> je_applied e \<and> (\<exists>es. uw_todo w = e # es)) \<and>
     (checks_left (uw_phase w) \<noteq> None \<longrightarrow> uw_todo w = []) \<and>
     (checks_left (uw_phase w) = None \<longrightarrow> uw_seen w = []) \<and>
     (\<forall>(p, e) \<in> set (uw_undone w). je_place e = p) \<and> distinct (map fst (uw_undone w)) \<and>
     (\<forall>us. checks_left (uw_phase w) = Some us \<longrightarrow> set us \<subseteq> set (uw_undone w)) \<and>
     (\<forall>e c us. uw_phase w = CheckingVersion e c us \<longrightarrow> (je_place e, c) \<in> set (uw_seen w))"

definition undone_inv :: "jentry list \<Rightarrow> undo_world \<Rightarrow> bool" where
  "undone_inv es w \<longleftrightarrow>
     (uw_confirmed w \<longrightarrow> (\<exists>ps. rev es = ps @ uw_todo w \<and> (\<forall>p. map_of (uw_undone w) p = earliest (rev ps) p)))"

definition seen_inv :: "undo_world \<Rightarrow> bool" where
  "seen_inv w \<longleftrightarrow>
     (\<forall>us. uw_confirmed w \<longrightarrow> checks_left (uw_phase w) = Some us \<longrightarrow>
       (\<forall>(p, e) \<in> set (uw_undone w). (p, e) \<in> set us \<or> (\<exists>row. (p, row) \<in> set (uw_seen w) \<and> same_copy row (je_before e))))"

lemma set_undone_in_order [simp]: "set (undone_in_order us) = set us"
  by (auto simp: undone_in_order_def image_iff)

lemma set_update_undone: "set (AList.update p e us) \<subseteq> insert (p, e) (set us)"
  by (induction us) auto

lemma undo_shape_step:
  assumes "undo_shape w" "undo_step ud w act w'"
  shows "undo_shape w'"
  using assms(2,1)
proof cases
  case (undone e t)
  then show ?thesis using assms(1) set_update_undone [of "je_place e" e "uw_undone w"] by (fastforce simp: undo_shape_def distinct_update)
next
  case (check_reads p e us)
  then show ?thesis using assms(1) by (auto simp: undo_shape_def)
qed (auto simp: undo_shape_def given_up_def Let_def)

lemma undone_inv_step:
  assumes "undone_inv es w" "undo_shape w" "undo_step ud w act w'"
  shows "undone_inv es w'"
  using assms(3)
proof cases
  case (not_applied e es')
  show ?thesis
    unfolding undone_inv_def
  proof
    assume "uw_confirmed w'"
    then obtain ps where ps: "rev es = ps @ uw_todo w" "\<forall>p. map_of (uw_undone w) p = earliest (rev ps) p"
      using assms(1) not_applied(2) by (auto simp: undone_inv_def)
    show "\<exists>ps. rev es = ps @ uw_todo w' \<and> (\<forall>p. map_of (uw_undone w') p = earliest (rev ps) p)"
      by (rule exI [of _ "ps @ [e]"]) (use ps not_applied in \<open>auto simp: earliest_def\<close>)
  qed
next
  case (undone e t)
  obtain es' where todo: "uw_todo w = e # es'" "je_applied e" using undone assms(2) by (auto simp: undo_shape_def)
  show ?thesis
    unfolding undone_inv_def
  proof
    assume "uw_confirmed w'"
    then obtain ps where ps: "rev es = ps @ uw_todo w" "\<forall>p. map_of (uw_undone w) p = earliest (rev ps) p"
      using assms(1) undone(2) by (auto simp: undone_inv_def)
    show "\<exists>ps. rev es = ps @ uw_todo w' \<and> (\<forall>p. map_of (uw_undone w') p = earliest (rev ps) p)"
      by (rule exI [of _ "ps @ [e]"]) (use ps todo undone(2) in \<open>auto simp: earliest_def update_conv'\<close>)
  qed
qed (use assms(1) in \<open>auto simp: undone_inv_def given_up_def Let_def\<close>)

lemma seen_inv_step:
  assumes "seen_inv w" "undo_shape w" "undo_step ud w act w'"
  shows "seen_inv w'"
  using assms(3)
proof cases
  case (check_reads p e us)
  then have "je_place e = p" using assms(2) by (auto simp: undo_shape_def)
  then show ?thesis using check_reads assms(1) by (fastforce simp: seen_inv_def)
next
  case (check_version e current us)
  then have "(je_place e, current) \<in> set (uw_seen w)" using assms(2) by (auto simp: undo_shape_def)
  then show ?thesis using check_version assms(1) by (fastforce simp: seen_inv_def Let_def)
qed (use assms(1) in \<open>auto simp: seen_inv_def given_up_def Let_def\<close>)

lemma undo_run_inv: "undo_run ud (start_undo j db) acts w \<Longrightarrow> undo_shape w \<and> undone_inv (j_entries j) w \<and> seen_inv w"
proof (induction rule: undo_run.induct)
  case start
  show ?case by (simp add: undo_shape_def undone_inv_def seen_inv_def start_undo_def earliest_def)
next
  case (step acts w act w')
  then show ?case by (blast intro: undo_shape_step undone_inv_step seen_inv_step)
qed

lemma no_write_when_checking: "undo_step ud w act w' \<Longrightarrow> checks_left (uw_phase w) \<noteq> None \<Longrightarrow> act \<noteq> UndoWrites q"
  by (cases rule: undo_step.cases) auto

text \<open>Where a final read comes from: after it the undo writes no row.\<close>

lemma seen_from:
  assumes "undo_run ud (start_undo j db) acts w" "(p, row) \<in> set (uw_seen w)"
  shows "\<exists>before after w1. acts = after @ before \<and> undo_run ud (start_undo j db) before w1 \<and> row = row_at (uw_db w1) p \<and>
    (\<forall>q t. (UndoWrites q, t) \<notin> set after)"
  using assms
proof (induction rule: undo_run.induct)
  case start
  then show ?case by (simp add: start_undo_def)
next
  case (step acts w act w')
  have shape: "undo_shape w" using undo_run_inv [OF step.hyps(1)] by blast
  show ?case
  proof (cases "(p, row) \<in> set (uw_seen w)")
    case True
    then obtain before after' w1 where *: "acts = after' @ before" "undo_run ud (start_undo j db) before w1" "row = row_at (uw_db w1) p"
      "\<forall>q t. (UndoWrites q, t) \<notin> set after'" using step.IH by blast
    have "checks_left (uw_phase w) \<noteq> None" using shape True by (auto simp: undo_shape_def)
    then have "act \<noteq> UndoWrites q" for q using no_write_when_checking [OF step.hyps(2)] by blast
    then show ?thesis using * by (intro exI [of _ before] exI [of _ "(act, rs_clock (uw_db w')) # after'"] exI [of _ w1]) auto
  next
    case False
    have "row = row_at (uw_db w) p \<and> act = UndoSteps"
      using step.hyps(2) step.prems False by cases (auto simp: given_up_def Let_def)
    then show ?thesis using step.hyps(1)
      by (intro exI [of _ acts] exI [of _ "[(act, rs_clock (uw_db w'))]"] exI [of _ w]) auto
  qed
qed

text \<open>C17. An undo that answers that it is confirmed has read back what it restored: for every place the journal's transactions wrote
  there was a moment of the run, after the undo's own last write, at which the database held the row from before the first of those
  writes. The moments differ from place to place, and other writers may have written before and may write again after them.\<close>

theorem confirmed_undo_restores:
  assumes "undo_run ud (start_undo j db) acts w" "undo_answer w = Some True" "earliest (j_entries j) p = Some e"
  shows "\<exists>before after w1. acts = after @ before \<and> undo_run ud (start_undo j db) before w1 \<and>
    same_copy (row_at (uw_db w1) p) (je_before e) \<and> (\<forall>q t. (UndoWrites q, t) \<notin> set after)"
proof -
  have ended: "uw_phase w = Ended" "uw_confirmed w" using assms(2) by (auto simp: undo_answer_def split: if_splits)
  have inv: "undo_shape w" "undone_inv (j_entries j) w" "seen_inv w" using undo_run_inv [OF assms(1)] by blast+
  have "uw_todo w = []" using inv(1) ended by (simp add: undo_shape_def)
  then have "map_of (uw_undone w) p = Some e" using inv(2) ended assms(3) by (cases p) (auto simp: undone_inv_def)
  then have "(p, e) \<in> set (uw_undone w)" by (rule map_of_SomeD)
  then obtain row where "(p, row) \<in> set (uw_seen w)" "same_copy row (je_before e)"
    using inv(3) ended by (fastforce simp: seen_inv_def)
  then show ?thesis using seen_from [OF assms(1)] by blast
qed

section \<open>The undo ends\<close>

definition undo_left :: "undo_world \<Rightarrow> nat" where
  "undo_left w = (case uw_phase w of
      Undoing \<Rightarrow> 6 * length (uw_todo w) + 2 * length (uw_undone w) + 2
    | Opened _ _ \<Rightarrow> 6 * length (uw_todo w) + 2 * length (uw_undone w) + 1
    | Written _ _ \<Rightarrow> 6 * length (uw_todo w) + 2 * length (uw_undone w)
    | ReadBack _ _ \<Rightarrow> 6 * length (uw_todo w) + 2 * length (uw_undone w) - 1
    | Checking us \<Rightarrow> 2 * length us + 1
    | CheckingVersion _ _ us \<Rightarrow> 2 * length us + 2
    | Ended \<Rightarrow> 0)"

lemma length_grouped: "distinct ss \<Longrightarrow> fst ` fst ` set us \<subseteq> set ss \<Longrightarrow>
    length (concat (map (\<lambda>s. filter (\<lambda>u. fst (fst u) = s) us) ss)) = length us"
proof (induction us)
  case (Cons u us)
  have one: "sum_list (map (\<lambda>s. if fst (fst u) = s then 1 else 0 :: nat) ss) = 1"
    using Cons.prems by (simp add: sum_list_distinct_conv_sum_set)
  have "length (concat (map (\<lambda>s. filter (\<lambda>u. fst (fst u) = s) (u # us)) ss)) =
      sum_list (map (\<lambda>s. (if fst (fst u) = s then 1 else 0) + length (filter (\<lambda>u. fst (fst u) = s) us)) ss)"
    by (auto simp: length_concat comp_def intro!: arg_cong [of _ _ sum_list])
  also have "\<dots> = 1 + length (concat (map (\<lambda>s. filter (\<lambda>u. fst (fst u) = s) us) ss))"
    by (simp only: sum_list_addf one length_concat map_map comp_def)
  finally show ?case using Cons by simp
qed (simp add: length_concat comp_def)

lemma length_undone_in_order: "length (undone_in_order us) = length us"
  unfolding undone_in_order_def by (rule length_grouped) (auto simp: image_comp)

lemma length_update_undone: "length (AList.update p e us) \<le> Suc (length us)"
  by (induction us) auto

lemma undo_left_step:
  assumes "undo_step ud w act w'" "undo_shape w"
  shows "(\<exists>p. act = OtherWrites p) \<and> undo_left w' = undo_left w \<or> undo_left w' < undo_left w"
  using assms(1)
proof cases
  case (other p v)
  then have "undo_left w' = undo_left w" by (cases "uw_phase w") (simp_all add: undo_left_def)
  then show ?thesis using other by blast
next
  case (fails e pointer)
  then obtain es where "uw_todo w = e # es" using assms(2) by (auto simp: undo_shape_def)
  then show ?thesis using fails by (auto simp: undo_left_def given_up_def)
next
  case (undone e t)
  then obtain es where "uw_todo w = e # es" using assms(2) by (auto simp: undo_shape_def)
  then show ?thesis using undone length_update_undone [of "je_place e" e "uw_undone w"] by (auto simp: undo_left_def)
next
  case (writes e x)
  then obtain es where "uw_todo w = e # es" using assms(2) by (auto simp: undo_shape_def)
  then show ?thesis using writes by (auto simp: undo_left_def)
next
  case (read_back e t)
  then obtain es where "uw_todo w = e # es" using assms(2) by (auto simp: undo_shape_def)
  then show ?thesis using read_back by (auto simp: undo_left_def)
qed (auto simp: undo_left_def given_up_def Let_def length_undone_in_order)

lemma undo_enabled:
  assumes "uw_phase w \<noteq> Ended"
  shows "\<exists>act w'. (\<forall>p. act \<noteq> OtherWrites p) \<and> undo_step ud w act w'"
proof -
  have step: "\<exists>act w'. (\<forall>p. act \<noteq> OtherWrites p) \<and> undo_step ud w act w'" if "undo_step ud w UndoSteps w'" for w'
    using that by blast
  show ?thesis
  proof (cases "uw_phase w")
    case Undoing
    show ?thesis
    proof (cases "uw_todo w")
      case Nil
      then show ?thesis by (rule step [OF undo_step.check [OF Undoing]])
    next
      case (Cons e es)
      consider "\<not> je_applied e" | "je_applied e" "\<not> ud_table ud (fst (je_place e))"
        | "je_applied e" "ud_table ud (fst (je_place e))" by blast
      then show ?thesis
        using step [OF undo_step.not_applied [OF Undoing Cons]] step [OF undo_step.no_table [OF Undoing Cons]]
          step [OF undo_step.opened [OF Undoing Cons]] step [OF undo_step.changed [OF Undoing Cons]]
        by cases blast+
    qed
  next
    case (Opened e x)
    have "undo_step ud w UndoSteps (given_up False w)" by (rule undo_step.fails [where e = e]) (use Opened in auto)
    then show ?thesis using step [OF undo_step.skipped [OF Opened]] step by blast
  next
    case (Written e t)
    show ?thesis by (rule step [OF undo_step.read_back [OF Written]])
  next
    case (ReadBack e t)
    show ?thesis by (rule step [OF undo_step.undone [OF ReadBack]])
  next
    case (Checking us)
    show ?thesis
    proof (cases us)
      case Nil
      show ?thesis by (rule step [OF undo_step.ended]) (use Checking Nil in simp)
    next
      case (Cons u us')
      show ?thesis by (rule step [OF undo_step.check_reads [of _ "fst u" "snd u" us']]) (use Checking Cons in simp)
    qed
  next
    case (CheckingVersion e c us)
    show ?thesis by (rule step [OF undo_step.check_version [OF CheckingVersion]])
  qed (use assms in simp)
qed

text \<open>Whatever other writers do, the undo takes at most six steps per entry and two more, and until it has ended it can take one.\<close>

theorem undo_terminates:
  assumes "undo_run ud (start_undo j db) acts w"
  shows "length (filter (\<lambda>(act, _). \<forall>p. act \<noteq> OtherWrites p) acts) \<le> 6 * length (j_entries j) + 2 \<and>
    (undo_answer w = None \<longrightarrow> (\<exists>act w'. (\<forall>p. act \<noteq> OtherWrites p) \<and> undo_step ud w act w'))"
proof -
  have "length (filter (\<lambda>(act, _). \<forall>p. act \<noteq> OtherWrites p) acts) + undo_left w \<le> 6 * length (j_entries j) + 2"
    using assms
  proof (induction rule: undo_run.induct)
    case (step acts w act w')
    then show ?case using undo_left_step [OF step.hyps(2)] undo_run_inv [OF step.hyps(1)] by fastforce
  qed (simp add: undo_left_def start_undo_def)
  then show ?thesis using undo_enabled [of w ud] by (auto simp: undo_answer_def)
qed

section \<open>A closed row opened again\<close>

definition open_row :: jobj where "open_row = [(''id'', Str ''m1''), (''content'', Str ''old'')]"
definition closed_row :: jobj where "closed_row = open_row @ [(''validTo'', Str ''2026-01-02'')]"

definition close_entry :: jentry where
  "close_entry = \<lparr>je_operation = 0, je_transaction = 0, je_place = (''Memory'', ''m1''), je_before = Obj open_row, je_after = Obj closed_row,
     je_applied = True, je_version = 1\<rparr>"

definition close_journal :: journal where "close_journal = \<lparr>j_entries = [close_entry], j_staged = [0], j_transactions = [0]\<rparr>"

definition closed_db :: row_store where "closed_db = \<lparr>rs_rows = [((''Memory'', ''m1''), closed_row, 1)], rs_clock = 1\<rparr>"

definition demo_undo :: undo_deps where
  "demo_undo = \<lparr>ud_table = (\<lambda>_. True), ud_pointer = (\<lambda>_. False),
     ud_reads = \<lparr>sk_head = (\<lambda>_. None), sk_memory = (\<lambda>_. None), sk_dparse = (\<lambda>_. None), sk_now = 0\<rparr>\<rparr>"

definition opened_world :: undo_world where
  "opened_world = (start_undo close_journal closed_db)\<lparr>uw_phase := Opened close_entry 1\<rparr>"

definition written_world :: undo_world where
  "written_world = opened_world\<lparr>uw_db := \<lparr>rs_rows = [((''Memory'', ''m1''), open_row, 2)], rs_clock = 2\<rparr>, uw_phase := Written close_entry 2\<rparr>"

lemma close_undoable: "undoable (ud_reads demo_undo) close_entry (row_at closed_db (''Memory'', ''m1''))"
  by (simp add: undoable_def close_entry_def closed_db_def row_at_def same_copy_def isDeepStrictEqual_def)

lemma demo_opened: "undo_run demo_undo (start_undo close_journal closed_db) [(UndoSteps, 1)] opened_world"
proof -
  have "undo_step demo_undo (start_undo close_journal closed_db) UndoSteps opened_world"
    using undo_step.opened [of "start_undo close_journal closed_db" close_entry "[]" demo_undo] close_undoable
    by (simp add: start_undo_def close_journal_def opened_world_def demo_undo_def expected_version_def close_entry_def)
  from undo_run.step [OF undo_run.start this] show ?thesis by (simp add: opened_world_def start_undo_def closed_db_def)
qed

lemma demo_writes: "undo_step demo_undo opened_world (UndoWrites (''Memory'', ''m1'')) written_world"
  using undo_step.writes [of opened_world close_entry 1 demo_undo] close_undoable
  by (simp add: opened_world_def written_world_def start_undo_def undo_guard_def version_at_def closed_db_def commit_row_def row_of_def
      close_entry_def numeral_2_eq_2)

lemma demo_restored:
  "\<exists>acts w. undo_run demo_undo (start_undo close_journal closed_db) acts w \<and> undo_answer w = Some True"
proof -
  let ?p = "(''Memory'', ''m1'')"
  have same: "same_copy (Obj open_row) (Obj open_row)" by (simp add: same_copy_def isDeepStrictEqual_def)
  have entry: "je_place close_entry = ?p" "je_before close_entry = Obj open_row" by (simp_all add: close_entry_def)
  have todo: "uw_todo written_world = [close_entry]" "uw_confirmed written_world" "uw_undone written_world = []"
    "uw_versions written_world = []" "uw_phase written_world = Written close_entry 2"
    "row_at (uw_db written_world) ?p = Obj open_row" "version_at (uw_db written_world) ?p = Some 2"
    by (simp_all add: written_world_def opened_world_def start_undo_def close_journal_def row_at_def version_at_def)
  define w1 where "w1 = written_world\<lparr>uw_phase := ReadBack close_entry 2\<rparr>"
  define w2 where "w2 = w1\<lparr>uw_phase := Undoing, uw_todo := [], uw_undone := [(?p, close_entry)], uw_versions := [(?p, 2)]\<rparr>"
  define w3 where "w3 = w2\<lparr>uw_phase := Checking [(?p, close_entry)]\<rparr>"
  define w4 where "w4 = w3\<lparr>uw_phase := CheckingVersion close_entry (Obj open_row) [], uw_seen := (?p, Obj open_row) # uw_seen w3\<rparr>"
  define w5 where "w5 = w4\<lparr>uw_phase := Checking []\<rparr>"
  have conf: "w\<lparr>uw_confirmed := True\<rparr> = w" if "uw_confirmed w" for w :: undo_world using that by (cases w) simp
  have pc: "w\<lparr>uw_pointerChanged := uw_pointerChanged w\<rparr> = w" for w :: undo_world by (cases w) simp
  have s1: "undo_step demo_undo written_world UndoSteps w1"
    using undo_step.read_back [OF todo(5), of demo_undo] same todo
    by (simp add: w1_def entry) (simp add: written_world_def opened_world_def start_undo_def)
  have s2: "undo_step demo_undo w1 UndoSteps w2"
    using undo_step.undone [of w1 close_entry 2 demo_undo] todo
    by (simp add: w1_def w2_def entry version_agrees_def) (simp add: written_world_def opened_world_def start_undo_def)
  have s3: "undo_step demo_undo w2 UndoSteps w3"
    using undo_step.check [of w2 demo_undo] by (simp add: w2_def w3_def undone_in_order_def)
  have s4: "undo_step demo_undo w3 UndoSteps w4"
    using undo_step.check_reads [of w3 ?p close_entry "[]" demo_undo] todo by (simp add: w1_def w2_def w3_def w4_def)
  have s5: "undo_step demo_undo w4 UndoSteps w5"
    using undo_step.check_version [of w4 close_entry "Obj open_row" "[]" demo_undo] same todo
    by (simp add: w1_def w2_def w3_def w4_def w5_def entry version_agrees_def Let_def)
      (simp add: written_world_def opened_world_def start_undo_def)
  have s6: "undo_step demo_undo w5 UndoSteps (w5\<lparr>uw_phase := Ended\<rparr>)" by (rule undo_step.ended) (simp add: w5_def)
  note run = undo_run.step [OF undo_run.step [OF undo_run.step [OF undo_run.step [OF undo_run.step [OF undo_run.step [OF
      undo_run.step [OF demo_opened demo_writes] s1] s2] s3] s4] s5] s6]
  have "undo_answer (w5\<lparr>uw_phase := Ended\<rparr>) = Some True"
    using todo(2) by (simp add: undo_answer_def w1_def w2_def w3_def w4_def w5_def)
  then show ?thesis using run by blast
qed

theorem undo_overwrites_only_its_own_rows_witness:
  "\<exists>e \<in> set (j_entries close_journal). je_applied e \<and> je_version e = 1 \<and>
     same_copy (row_at (uw_db opened_world) (''Memory'', ''m1'')) (je_after e)"
proof -
  have v: "version_at (uw_db opened_world) (''Memory'', ''m1'') = Some 1"
    by (simp add: opened_world_def start_undo_def closed_db_def version_at_def)
  have past: "\<forall>e \<in> set (j_entries close_journal). je_version e \<le> rs_clock closed_db"
    by (simp add: close_journal_def close_entry_def closed_db_def)
  show ?thesis
    using undo_overwrites_only_its_own_rows [OF demo_opened demo_writes v past] by (auto simp: closed_db_def)
qed

theorem confirmed_undo_restores_witness:
  "\<exists>acts w1. undo_run demo_undo (start_undo close_journal closed_db) acts w1 \<and>
     same_copy (row_at (uw_db w1) (''Memory'', ''m1'')) (Obj open_row)"
proof -
  obtain acts w where run: "undo_run demo_undo (start_undo close_journal closed_db) acts w" "undo_answer w = Some True"
    using demo_restored by blast
  have e: "earliest (j_entries close_journal) (''Memory'', ''m1'') = Some close_entry"
    by (simp add: earliest_def close_journal_def close_entry_def)
  show ?thesis using confirmed_undo_restores [OF run e] by (auto simp: close_entry_def)
qed

theorem undo_terminates_witness:
  "\<exists>act w'. (\<forall>p. act \<noteq> OtherWrites p) \<and> undo_step demo_undo opened_world act w'"
  using undo_terminates [OF demo_opened] by (simp add: undo_answer_def opened_world_def)

end
