(* ===== verification/FedRetry.thy ===== *)
theory FedRetry
  imports VersionRecord FedMerge
begin

text \<open>
  The retry table of a federation sender: \<open>src/src/lib/federation-retry-row.ts\<close>, \<open>federation-retry-queue.ts\<close>,
  \<open>resources/federation-retry-lib.ts\<close> and \<open>resources/FederationRetry.ts\<close>. A row is one obligation, to offer a refused record
  again; its conventions are checked by every reader, since the schema only fixes the names of its fields.
\<close>

section \<open>Rows\<close>

definition nonempty_text :: "js \<Rightarrow> bool" where "nonempty_text v \<longleftrightarrow> (case v of Str (_ # _) \<Rightarrow> True | _ \<Rightarrow> False)"

definition key_text :: "js \<Rightarrow> js \<Rightarrow> js \<Rightarrow> string" where "key_text peerId table recordId = json_text (Arr [peerId, table, recordId])"

text \<open>\<open>Inl\<close> is the message of the error that is thrown.\<close>

definition retryEntryKey :: "js \<Rightarrow> js \<Rightarrow> js \<Rightarrow> string + string" where
  "retryEntryKey peerId table recordId =
     (if \<not> nonempty_text peerId then Inl ''federation retry: peerId must be a non-empty string''
      else if \<not> nonempty_text table then Inl ''federation retry: table must be a non-empty string''
      else if \<not> nonempty_text recordId then Inl ''federation retry: recordId must be a non-empty string''
      else Inr (key_text peerId table recordId))"

definition parseRetryEntryKey :: "(string \<Rightarrow> js option) \<Rightarrow> string \<Rightarrow> (string \<times> string \<times> string) option" where
  "parseRetryEntryKey parse i =
     (case parse i of
        Some (Arr [Str p, Str t, Str r]) \<Rightarrow> if p = [] \<or> t = [] \<or> r = [] then None else Some (p, t, r)
      | _ \<Rightarrow> None)"

definition RETRY_RESOLUTIONS :: "string list" where
  "RETRY_RESOLUTIONS = [''merged'', ''refused_terminal'', ''source_deleted'', ''source_ineligible'', ''peer_unavailable'', ''retry_exhausted'']"

definition RETRY_BOUNDS :: "string list" where "RETRY_BOUNDS = [''attempts'', ''age'', ''both'']"

definition in_texts :: "string list \<Rightarrow> js \<Rightarrow> bool" where "in_texts ts v \<longleftrightarrow> (case v of Str t \<Rightarrow> t \<in> set ts | _ \<Rightarrow> False)"

definition isRetryResolution :: "js \<Rightarrow> bool" where "isRetryResolution v = in_texts RETRY_RESOLUTIONS v"
definition isRetryBound :: "js \<Rightarrow> bool" where "isRetryBound v = in_texts RETRY_BOUNDS v"

datatype retry_problem = IdMismatch | UnknownState | UnknownReason | OutcomeMismatch

definition outcome_mismatch :: "jobj \<Rightarrow> bool" where
  "outcome_mismatch row \<longleftrightarrow>
     (if getp row ''state'' = Str ''pending'' then \<not> nullish (getp row ''resolution'') \<or> \<not> nullish (getp row ''bound'')
      else \<not> isRetryResolution (getp row ''resolution'') \<or>
        (if getp row ''resolution'' = Str ''retry_exhausted'' then \<not> isRetryBound (getp row ''bound'') else \<not> nullish (getp row ''bound'')))"

definition row_key :: "jobj \<Rightarrow> string + string" where
  "row_key row = retryEntryKey (getp row ''peerId'') (getp row ''table'') (getp row ''recordId'')"

definition retryRowProblem :: "(js \<Rightarrow> bool) \<Rightarrow> jobj \<Rightarrow> retry_problem option" where
  "retryRowProblem isKnownReason row =
     (if (case row_key row of Inr k \<Rightarrow> getp row ''id'' \<noteq> Str k | Inl _ \<Rightarrow> True) then Some IdMismatch
      else if getp row ''state'' \<noteq> Str ''pending'' \<and> getp row ''state'' \<noteq> Str ''terminal'' then Some UnknownState
      else if \<not> nullish (getp row ''lastReason'') \<and> \<not> isKnownReason (getp row ''lastReason'') then Some UnknownReason
      else if outcome_mismatch row then Some OutcomeMismatch
      else None)"

definition RETRY_ROW_FIELDS :: "string list" where
  "RETRY_ROW_FIELDS =
     [''id'', ''peerId'', ''table'', ''recordId'', ''state'', ''firstRefusedAt'', ''attempts'', ''episodeId'', ''recordFingerprint'',
      ''lastReason'', ''lastAttemptSyncId'', ''lastAttemptAt'', ''completedAt'', ''resolution'', ''bound'', ''createdAt'', ''updatedAt'']"

text \<open>\<open>pickRetryRowFields\<close>: the declared fields that hold a value.\<close>

definition pickRetryRowFields :: "jobj \<Rightarrow> jobj" where
  "pickRetryRowFields row = map (\<lambda>f. (f, getp row f)) (filter (\<lambda>f. getp row f \<noteq> Undef) RETRY_ROW_FIELDS)"

section \<open>The sender's queue\<close>

definition MEMORY_RETRY_REASONS :: "string list" where
  "MEMORY_RETRY_REASONS =
     [''future_timestamp'', ''unknown_originator_key'', ''merge_target_changed'', ''merge_target_busy'', ''merge_error'',
      ''presence_agent_not_replicated'']"

definition MEMORY_PENDING_REASONS :: "string list" where "MEMORY_PENDING_REASONS = MEMORY_RETRY_REASONS @ [''retry_unknown'']"

definition RETRY_TERMINAL_FIELDS :: "string list" where "RETRY_TERMINAL_FIELDS = [''resolution'', ''completedAt'', ''bound'']"

definition MEMORY_RETRY_BACKOFF_MS :: "int list" where "MEMORY_RETRY_BACKOFF_MS = [0, 30000, 300000, 1800000]"

definition retryBackoffMs :: "int \<Rightarrow> int" where
  "retryBackoffMs attempts = MEMORY_RETRY_BACKOFF_MS ! nat (min (max attempts 1) 4 - 1)"

definition CONFIRM_FIELDS :: "string list" where
  "CONFIRM_FIELDS =
     [''id'', ''peerId'', ''table'', ''recordId'', ''state'', ''attempts'', ''lastReason'', ''lastAttemptAt'', ''firstRefusedAt'',
      ''createdAt'', ''resolution'', ''completedAt'', ''updatedAt'', ''bound'']"

text \<open>The first field in which a stored row does not echo a written record.\<close>

definition retryRowConfirmation :: "jobj \<Rightarrow> jobj option \<Rightarrow> string option" where
  "retryRowConfirmation rec stored =
     (case stored of
        None \<Rightarrow> Some ''row''
      | Some row \<Rightarrow>
          (case find (\<lambda>f. has_own (Obj rec) f \<and> \<not> strict_eq (coalesce (getp row f) Null) (coalesce (getp rec f) Null)) CONFIRM_FIELDS of
             Some f \<Rightarrow> Some f
           | None \<Rightarrow>
               if getp row ''state'' = Str ''pending'' then find (\<lambda>f. \<not> nullish (getp row f)) RETRY_TERMINAL_FIELDS else None))"

definition retryRowMalformedness :: "jobj \<Rightarrow> (retry_problem \<times> string) option" where
  "retryRowMalformedness row =
     (let problem = retryRowProblem (in_texts MEMORY_PENDING_REASONS) row;
          outcome = (if problem = Some OutcomeMismatch
            then Some (OutcomeMismatch, if \<not> isRetryResolution (getp row ''resolution'') then ''resolution'' else ''bound'') else None) in
      if problem = Some IdMismatch then Some (IdMismatch, ''id'')
      else if problem = Some UnknownState then Some (UnknownState, ''state'')
      else if problem = Some UnknownReason then Some (UnknownReason, ''lastReason'')
      else if getp row ''state'' = Str ''pending'' then
        (if \<not> in_texts MEMORY_PENDING_REASONS (getp row ''lastReason'') then Some (UnknownReason, ''lastReason'')
         else case retryRowConfirmation [] (Some row) of Some f \<Rightarrow> Some (OutcomeMismatch, f) | None \<Rightarrow> outcome)
      else outcome)"

datatype offer_problem = WrongState | WrongTable | OfferIdMismatch | OfferReason | OfferOutcome

definition offer_problem_of :: "retry_problem \<Rightarrow> offer_problem" where
  "offer_problem_of p = (case p of OutcomeMismatch \<Rightarrow> OfferOutcome | IdMismatch \<Rightarrow> OfferIdMismatch | UnknownState \<Rightarrow> WrongState | UnknownReason \<Rightarrow> OfferReason)"

definition retryOfferProblem :: "string \<Rightarrow> jobj \<Rightarrow> offer_problem option" where
  "retryOfferProblem table row =
     (if getp row ''state'' \<noteq> Str ''pending'' then Some WrongState
      else if getp row ''table'' \<noteq> Str table then Some WrongTable
      else if \<not> is_string_value (getp row ''peerId'') \<or> \<not> is_string_value (getp row ''recordId'') then Some OfferIdMismatch
      else if (case row_key row of Inr k \<Rightarrow> getp row ''id'' \<noteq> Str k | Inl _ \<Rightarrow> True) then Some OfferIdMismatch
      else (case retryRowMalformedness row of
          Some (p, _) \<Rightarrow> Some (offer_problem_of p)
        | None \<Rightarrow> if in_texts MEMORY_PENDING_REASONS (getp row ''lastReason'') then None else Some OfferReason))"

text \<open>The count of a row, if it holds a positive safe integer.\<close>

definition row_attempts :: "jobj \<Rightarrow> int option" where
  "row_attempts row =
     (case getp row ''attempts'' of
        Num n \<Rightarrow> if is_integer n \<and> \<bar>int_of_jnum n\<bar> \<le> MAX_SAFE_INTEGER \<and> 0 < int_of_jnum n then Some (int_of_jnum n) else None
      | _ \<Rightarrow> None)"

definition prior_attempts :: "jobj \<Rightarrow> int" where
  "prior_attempts row = (case row_attempts row of Some n \<Rightarrow> n | None \<Rightarrow> 0)"

definition retry_due :: "(string \<Rightarrow> int option) \<Rightarrow> int \<Rightarrow> string \<Rightarrow> jobj \<Rightarrow> bool" where
  "retry_due dparse nowMs table row \<longleftrightarrow> retryOfferProblem table row = None \<and>
     (case dparse (js_String (coalesce (getp row ''lastAttemptAt'') (Str []))) of
        None \<Rightarrow> True
      | Some t \<Rightarrow> t + retryBackoffMs (case row_attempts row of Some n \<Rightarrow> n | None \<Rightarrow> 1) \<le> nowMs)"

definition dueRetryRows :: "(string \<Rightarrow> int option) \<Rightarrow> int \<Rightarrow> string \<Rightarrow> jobj list \<Rightarrow> jobj list" where
  "dueRetryRows dparse nowMs table rows = filter (retry_due dparse nowMs table) rows"

definition cleared :: jobj where "cleared = map (\<lambda>f. (f, Null)) RETRY_TERMINAL_FIELDS"

text \<open>The row of a retryable refusal, and that of a reserved offer.\<close>

definition retryRowForRefusal :: "js \<Rightarrow> js \<Rightarrow> string \<Rightarrow> string \<Rightarrow> jobj option \<Rightarrow> bool \<Rightarrow> string + jobj" where
  "retryRowForRefusal peerId recordId reason nowIso existing attemptReserved =
     bind_sum (retryEntryKey peerId (Str ''Memory'') recordId) (\<lambda>i.
       Inr ([(''id'', Str i), (''peerId'', peerId), (''table'', Str ''Memory''), (''recordId'', recordId), (''state'', Str ''pending''),
         (''firstRefusedAt'', coalesce (stored_field existing ''firstRefusedAt'') (Str nowIso)),
         (''attempts'', Num (jint ((case existing of Some p \<Rightarrow> prior_attempts p | None \<Rightarrow> 0) + (if attemptReserved then 0 else 1)))),
         (''lastReason'', Str reason), (''lastAttemptAt'', Str nowIso),
         (''createdAt'', coalesce (stored_field existing ''createdAt'') (Str nowIso)), (''updatedAt'', Str nowIso)] @ cleared))"

definition retryRowForAttempt :: "jobj \<Rightarrow> string \<Rightarrow> string + jobj" where
  "retryRowForAttempt row nowIso =
     bind_sum (retryEntryKey (getp row ''peerId'') (Str ''Memory'') (getp row ''recordId'')) (\<lambda>i.
       Inr ([(''id'', Str i), (''peerId'', getp row ''peerId''), (''table'', Str ''Memory''), (''recordId'', getp row ''recordId''),
         (''state'', Str ''pending''), (''firstRefusedAt'', coalesce (getp row ''firstRefusedAt'') (Str nowIso)),
         (''attempts'', Num (jint (prior_attempts row + 1))), (''lastAttemptAt'', Str nowIso),
         (''createdAt'', coalesce (getp row ''createdAt'') (Str nowIso)), (''updatedAt'', Str nowIso)] @
         (case getp row ''lastReason'' of Str t \<Rightarrow> [(''lastReason'', Str t)] | _ \<Rightarrow> []) @ cleared))"

definition terminalRetryRow :: "jobj \<Rightarrow> string \<Rightarrow> string \<Rightarrow> jobj" where
  "terminalRetryRow row resolution nowIso =
     spread (spread [(''id'', getp row ''id'')] (pickRetryRowFields row))
       [(''state'', Str ''terminal''), (''resolution'', Str resolution), (''bound'', Null), (''completedAt'', Str nowIso), (''updatedAt'', Str nowIso)]"

text \<open>The operations endpoint merges an upsert into the stored row.\<close>

definition upserted :: "jobj option \<Rightarrow> jobj \<Rightarrow> jobj" where
  "upserted stored rec = spread (case stored of Some r \<Rightarrow> r | None \<Rightarrow> []) rec"

section \<open>One transition to an outcome\<close>

definition RETRY_LOCK_NAMESPACE :: string where "RETRY_LOCK_NAMESPACE = ''federation-retry''"
definition RETRY_LOCK_ATTEMPTS :: nat where "RETRY_LOCK_ATTEMPTS = 40"
definition RETRY_LOCK_WAIT_MS :: nat where "RETRY_LOCK_WAIT_MS = 25"
definition LOCAL_RETRY_REASONS :: "string list" where
  "LOCAL_RETRY_REASONS = [''transport_failure'', ''invalid_response'', ''retry_unknown'']"

definition known_reason :: "js \<Rightarrow> bool" where "known_reason v \<longleftrightarrow> isSkipReason v \<or> in_texts LOCAL_RETRY_REASONS v"

datatype terminal_code = Invalid | TableUnavailable | NotFound | Malformed | AlreadyTerminal | LockBusy | LockUnavailable | WriteFailed

record terminal_input =
  ti_peerId :: js
  ti_table :: js
  ti_recordId :: js
  ti_resolution :: js
  ti_bound :: js
  ti_now :: string

definition invalid_outcome :: "terminal_input \<Rightarrow> bool" where
  "invalid_outcome inp \<longleftrightarrow>
     \<not> isRetryResolution (ti_resolution inp) \<or>
     (\<not> nullish (ti_bound inp) \<and> \<not> isRetryBound (ti_bound inp)) \<or>
     (ti_resolution inp = Str ''retry_exhausted'' \<and> nullish (ti_bound inp)) \<or>
     (ti_resolution inp \<noteq> Str ''retry_exhausted'' \<and> \<not> nullish (ti_bound inp))"

definition terminal_row :: "terminal_input \<Rightarrow> jobj \<Rightarrow> jobj" where
  "terminal_row inp row =
     spread (pickRetryRowFields row)
       [(''state'', Str ''terminal''), (''resolution'', ti_resolution inp), (''bound'', coalesce (ti_bound inp) Null),
        (''completedAt'', Str (ti_now inp)), (''updatedAt'', Str (ti_now inp))]"

text \<open>What the transition meets: the table, the lock, the row its transaction reads, whether the write goes through, the row of the
  confirming read, and whether the transaction commits. A read that fails is \<open>None\<close>. The answer comes with the row it writes.\<close>

record terminal_env =
  te_tableLike :: bool
  te_lock :: "unit key_lock_outcome"
  te_stored :: "jobj option option"
  te_puts :: bool
  te_committed :: "jobj option option"
  te_commits :: bool

definition terminalizeRetryEntry :: "terminal_env \<Rightarrow> terminal_input \<Rightarrow> (terminal_code + string) \<times> jobj option" where
  "terminalizeRetryEntry env inp =
     (case retryEntryKey (ti_peerId inp) (ti_table inp) (ti_recordId inp) of
        Inl _ \<Rightarrow> (Inl Invalid, None)
      | Inr i \<Rightarrow>
          if invalid_outcome inp then (Inl Invalid, None)
          else if \<not> te_tableLike env then (Inl TableUnavailable, None)
          else (case te_lock env of
              Busy \<Rightarrow> (Inl LockBusy, None)
            | Unavailable \<Rightarrow> (Inl LockUnavailable, None)
            | Done _ \<Rightarrow>
                (case te_stored env of
                   None \<Rightarrow> (Inl WriteFailed, None)
                 | Some None \<Rightarrow> (Inl NotFound, None)
                 | Some (Some row) \<Rightarrow>
                     if retryRowProblem known_reason row \<noteq> None then (Inl Malformed, None)
                     else if getp row ''state'' \<noteq> Str ''pending'' then (Inl AlreadyTerminal, None)
                     else if \<not> te_puts env then (Inl WriteFailed, None)
                     else (case te_committed env of
                         Some committed \<Rightarrow>
                           if isDeepStrictEqual (case committed of Some r \<Rightarrow> Obj r | None \<Rightarrow> Undef) (Obj row) \<and> te_commits env
                           then (Inr i, Some (terminal_row inp row)) else (Inl WriteFailed, None)
                       | None \<Rightarrow> (Inl WriteFailed, None)))))"

section \<open>Rows the sender writes\<close>

lemma same_retryable_reasons: "set MEMORY_RETRY_REASONS = set RETRYABLE_SKIP_REASONS"
  by code_simp

lemma nonempty_text_Str [simp]: "nonempty_text (Str t) \<longleftrightarrow> t \<noteq> []"
  by (cases t) (simp_all add: nonempty_text_def)

lemma nonempty_textE: "nonempty_text v \<Longrightarrow> \<exists>t. v = Str t \<and> t \<noteq> []"
  by (auto simp: nonempty_text_def split: js.splits list.splits)

lemma retryEntryKey_Inr:
  "retryEntryKey p t r = Inr k \<longleftrightarrow> nonempty_text p \<and> nonempty_text t \<and> nonempty_text r \<and> k = key_text p t r"
  by (auto simp: retryEntryKey_def)

lemma key_text_Str: "key_text (Str p) (Str t) (Str r) = ''['' @ json_string p @ '','' @ json_string t @ '','' @ json_string r @ '']''"
  by (simp add: key_text_def json_text_def)

text \<open>The rows of different obligations have different keys.\<close>

lemma retryEntryKey_inj:
  assumes "retryEntryKey p t r = Inr k" "retryEntryKey p' t' r' = Inr k"
  shows "p = p' \<and> t = t' \<and> r = r'"
proof -
  obtain a b c where abc: "p = Str a" "t = Str b" "r = Str c" using assms(1) by (auto simp: retryEntryKey_Inr dest!: nonempty_textE)
  obtain a' b' c' where abc': "p' = Str a'" "t' = Str b'" "r' = Str c'"
    using assms(2) by (auto simp: retryEntryKey_Inr dest!: nonempty_textE)
  have "json_string a @ '','' @ json_string b @ '','' @ json_string c @ '']'' = json_string a' @ '','' @ json_string b' @ '','' @ json_string c' @ '']''"
    using assms by (simp add: retryEntryKey_Inr abc abc' key_text_Str)
  from json_string_prefix [OF this] have 1: "a = a'"
    "json_string b @ '','' @ json_string c @ '']'' = json_string b' @ '','' @ json_string c' @ '']''" by simp_all
  from json_string_prefix [OF 1(2)] have 2: "b = b'" "json_string c @ '']'' = json_string c' @ '']''" by simp_all
  from json_string_prefix [OF 2(2)] have "c = c'" by simp
  then show ?thesis using abc abc' 1 2 by simp
qed

lemma cleared_eq: "cleared = [(''resolution'', Null), (''completedAt'', Null), (''bound'', Null)]"
  by (simp add: cleared_def RETRY_TERMINAL_FIELDS_def)

text \<open>The fields of a row that a pending record was merged into.\<close>

definition pending_row :: "js \<Rightarrow> js \<Rightarrow> string \<Rightarrow> int \<Rightarrow> jobj \<Rightarrow> bool" where
  "pending_row peerId recordId reason attempts row \<longleftrightarrow>
     getp row ''id'' = Str (key_text peerId (Str ''Memory'') recordId) \<and> getp row ''peerId'' = peerId \<and> getp row ''table'' = Str ''Memory'' \<and>
     getp row ''recordId'' = recordId \<and> getp row ''state'' = Str ''pending'' \<and> getp row ''lastReason'' = Str reason \<and>
     getp row ''attempts'' = Num (jint attempts) \<and> getp row ''resolution'' = Null \<and> getp row ''completedAt'' = Null \<and> getp row ''bound'' = Null \<and>
     nonempty_text peerId \<and> nonempty_text recordId"

lemma refusal_row:
  assumes "retryRowForRefusal peerId recordId reason now existing reserved = Inr rec"
  shows "pending_row peerId recordId reason ((case existing of Some p \<Rightarrow> prior_attempts p | None \<Rightarrow> 0) + (if reserved then 0 else 1))
    (upserted stored rec)"
proof -
  have rec: "rec = [(''id'', Str (key_text peerId (Str ''Memory'') recordId)), (''peerId'', peerId), (''table'', Str ''Memory''), (''recordId'', recordId),
      (''state'', Str ''pending''), (''firstRefusedAt'', coalesce (stored_field existing ''firstRefusedAt'') (Str now)),
      (''attempts'', Num (jint ((case existing of Some p \<Rightarrow> prior_attempts p | None \<Rightarrow> 0) + (if reserved then 0 else 1)))),
      (''lastReason'', Str reason), (''lastAttemptAt'', Str now),
      (''createdAt'', coalesce (stored_field existing ''createdAt'') (Str now)), (''updatedAt'', Str now),
      (''resolution'', Null), (''completedAt'', Null), (''bound'', Null)]" "nonempty_text peerId" "nonempty_text recordId"
    using assms unfolding retryRowForRefusal_def cleared_eq by (auto simp: bind_sum_Inr retryEntryKey_Inr)
  have "distinct (map fst rec)" by (simp add: rec)
  note spread_rec = getp_spread [OF this]
  show ?thesis using rec(2,3) unfolding pending_row_def upserted_def spread_rec by (simp add: rec(1))
qed

lemma attempt_row:
  assumes "retryRowForAttempt row now = Inr rec" "getp row ''lastReason'' = Str reason"
  shows "pending_row (getp row ''peerId'') (getp row ''recordId'') reason (prior_attempts row + 1) (upserted stored rec)"
proof -
  have rec: "rec = [(''id'', Str (key_text (getp row ''peerId'') (Str ''Memory'') (getp row ''recordId''))), (''peerId'', getp row ''peerId''),
      (''table'', Str ''Memory''), (''recordId'', getp row ''recordId''),
      (''state'', Str ''pending''), (''firstRefusedAt'', coalesce (getp row ''firstRefusedAt'') (Str now)),
      (''attempts'', Num (jint (prior_attempts row + 1))), (''lastAttemptAt'', Str now),
      (''createdAt'', coalesce (getp row ''createdAt'') (Str now)), (''updatedAt'', Str now), (''lastReason'', Str reason),
      (''resolution'', Null), (''completedAt'', Null), (''bound'', Null)]" "nonempty_text (getp row ''peerId'')" "nonempty_text (getp row ''recordId'')"
    using assms(1) unfolding retryRowForAttempt_def cleared_eq assms(2) by (auto simp: bind_sum_Inr retryEntryKey_Inr)
  have "distinct (map fst rec)" by (simp add: rec)
  note spread_rec = getp_spread [OF this]
  show ?thesis using rec(2,3) unfolding pending_row_def upserted_def spread_rec by (simp add: rec(1))
qed

lemma pending_row_kept:
  assumes "pending_row peerId recordId reason attempts row" "reason \<in> set MEMORY_PENDING_REASONS"
  shows "retryRowMalformedness row = None" "retryOfferProblem ''Memory'' row = None"
proof -
  have known: "in_texts MEMORY_PENDING_REASONS (getp row ''lastReason'')" using assms by (simp add: pending_row_def in_texts_def)
  have texts: "is_string_value peerId" "is_string_value recordId" using assms(1) by (auto simp: pending_row_def dest!: nonempty_textE)
  have key: "row_key row = Inr (key_text peerId (Str ''Memory'') recordId)"
    using assms(1) by (simp add: pending_row_def row_key_def retryEntryKey_Inr)
  have "retryRowProblem (in_texts MEMORY_PENDING_REASONS) row = None"
    using assms(1) known key by (simp add: pending_row_def retryRowProblem_def outcome_mismatch_def)
  moreover have "retryRowConfirmation [] (Some row) = None"
    using assms(1) by (simp add: pending_row_def retryRowConfirmation_def RETRY_TERMINAL_FIELDS_def CONFIRM_FIELDS_def)
  ultimately show good: "retryRowMalformedness row = None"
    using assms(1) known by (simp add: pending_row_def retryRowMalformedness_def)
  show "retryOfferProblem ''Memory'' row = None"
    using assms(1) known key texts good by (simp add: pending_row_def retryOfferProblem_def)
qed

lemma offer_row:
  assumes "retryOfferProblem table row = None"
  shows "row_key row = Inr (key_text (getp row ''peerId'') (Str table) (getp row ''recordId''))"
    "getp row ''id'' = Str (key_text (getp row ''peerId'') (Str table) (getp row ''recordId''))" "getp row ''table'' = Str table"
    "nonempty_text (getp row ''peerId'')" "nonempty_text (getp row ''recordId'')" "nonempty_text (Str table)"
    "\<exists>reason \<in> set MEMORY_PENDING_REASONS. getp row ''lastReason'' = Str reason" "getp row ''state'' = Str ''pending''"
    "retryRowMalformedness row = None"
  using assms
  by (auto simp: retryOfferProblem_def row_key_def retryEntryKey_Inr in_texts_def split: if_splits sum.splits option.splits js.splits)

lemma distinct_fields: "distinct RETRY_ROW_FIELDS"
  by code_simp

lemma distinct_picked: "distinct (map fst (pickRetryRowFields row))"
  using distinct_fields by (simp add: pickRetryRowFields_def comp_def)

lemma getp_picked: "getp (pickRetryRowFields row) f = (if f \<in> set RETRY_ROW_FIELDS then getp row f else Undef)"
proof -
  have "getp (map (\<lambda>f. (f, getp row f)) (filter (\<lambda>f. getp row f \<noteq> Undef) fs)) f = (if f \<in> set fs then getp row f else Undef)" for fs
    by (induction fs) auto
  then show ?thesis by (simp only: pickRetryRowFields_def)
qed

lemma has_own_dom: "has_own (Obj kvs) f \<longleftrightarrow> f \<in> fst ` set kvs"
  by (rule has_own_Obj)

lemma has_own_picked: "has_own (Obj (pickRetryRowFields row)) f \<longleftrightarrow> f \<in> set RETRY_ROW_FIELDS \<and> getp row f \<noteq> Undef"
  unfolding has_own_dom pickRetryRowFields_def by (auto simp: image_iff)

lemma distinct_spread: "distinct (map fst ob) \<Longrightarrow> distinct (map fst (spread ob kvs))"
  unfolding spread_def by (induction kvs arbitrary: ob) (auto simp: distinct_update)

lemma has_own_spread: "has_own (Obj (spread ob kvs)) f \<longleftrightarrow> has_own (Obj ob) f \<or> has_own (Obj kvs) f"
proof -
  have "fst ` set (fold (\<lambda>(k, v) r. AList.update k v r) kvs ob) = fst ` set ob \<union> fst ` set kvs"
    by (induction kvs arbitrary: ob) (simp_all add: dom_update split_beta)
  then show ?thesis unfolding has_own_dom spread_def by blast
qed

abbreviation outcome_fields :: "string \<Rightarrow> string \<Rightarrow> jobj" where
  "outcome_fields resolution now \<equiv>
     [(''state'', Str ''terminal''), (''resolution'', Str resolution), (''bound'', Null), (''completedAt'', Str now), (''updatedAt'', Str now)]"

lemma getp_upserted_terminal:
  "getp (upserted stored (terminalRetryRow row resolution now)) f =
     (if f \<in> fst ` set (outcome_fields resolution now) then getp (outcome_fields resolution now) f
      else if f \<in> set RETRY_ROW_FIELDS \<and> getp row f \<noteq> Undef then getp row f
      else if f = ''id'' then getp row ''id''
      else getp (case stored of Some r \<Rightarrow> r | None \<Rightarrow> []) f)"
proof -
  let ?out = "outcome_fields resolution now"
  let ?base = "spread [(''id'', getp row ''id'')] (pickRetryRowFields row)"
  have d: "distinct (map fst ?out)" "distinct (map fst (spread ?base ?out))"
    by simp (intro distinct_spread, simp)
  have own: "has_own (Obj (spread ?base ?out)) f \<longleftrightarrow>
      f = ''id'' \<or> (f \<in> set RETRY_ROW_FIELDS \<and> getp row f \<noteq> Undef) \<or> f \<in> fst ` set ?out"
    unfolding has_own_spread has_own_picked unfolding has_own_dom by simp
  have out: "has_own (Obj ?out) f \<longleftrightarrow> f \<in> fst ` set ?out" by (rule has_own_dom)
  have base: "getp ?base f = (if f \<in> set RETRY_ROW_FIELDS \<and> getp row f \<noteq> Undef then getp row f else if f = ''id'' then getp row ''id'' else Undef)"
    unfolding getp_spread [OF distinct_picked] has_own_picked getp_picked by simp
  show ?thesis
    unfolding upserted_def terminalRetryRow_def getp_spread [OF d(2)] own getp_spread [OF d(1)] out base by argo
qed

lemma terminal_row_kept:
  fixes now :: string and stored :: "jobj option"
  assumes "retryOfferProblem ''Memory'' row = None" "resolution \<in> set RETRY_RESOLUTIONS" "resolution \<noteq> ''retry_exhausted''"
  defines "new \<equiv> upserted stored (terminalRetryRow row resolution now)"
  shows "retryRowMalformedness new = None" "retryOfferProblem ''Memory'' new = Some WrongState" "getp new ''state'' = Str ''terminal''"
    "getp new ''resolution'' = Str resolution" "getp new ''id'' = getp row ''id''"
proof -
  note old = offer_row [OF assms(1)]
  have defined: "getp row f \<noteq> Undef" if "f \<in> {''id'', ''peerId'', ''table'', ''recordId'', ''lastReason''}" for f
    using that old(2-5,7) by (auto simp: nonempty_text_def)
  have kept: "getp new f = getp row f" if "f \<in> {''id'', ''peerId'', ''table'', ''recordId'', ''lastReason''}" for f
  proof -
    have "f \<in> set RETRY_ROW_FIELDS" "f \<notin> fst ` set (outcome_fields resolution now)" using that by (auto simp: RETRY_ROW_FIELDS_def)
    then show ?thesis using defined [OF that] unfolding new_def getp_upserted_terminal by (simp only: if_True if_False simp_thms)
  qed
  have set_to: "getp new ''state'' = Str ''terminal''" "getp new ''resolution'' = Str resolution" "getp new ''bound'' = Null"
    unfolding new_def getp_upserted_terminal by simp_all
  have "row_key new = Inr (key_text (getp row ''peerId'') (Str ''Memory'') (getp row ''recordId''))"
    using old(1) kept [of "''peerId''"] kept [of "''table''"] kept [of "''recordId''"] by (simp add: row_key_def)
  moreover have "in_texts MEMORY_PENDING_REASONS (getp new ''lastReason'')"
  proof -
    obtain reason where "reason \<in> set MEMORY_PENDING_REASONS" "getp row ''lastReason'' = Str reason" using old(7) by blast
    then show ?thesis using kept [of "''lastReason''"] by (simp add: in_texts_def)
  qed
  moreover have "isRetryResolution (Str resolution)" using assms(2) by (simp add: isRetryResolution_def in_texts_def)
  ultimately show "retryRowMalformedness new = None"
    using set_to kept [of "''id''"] old(2) assms(3) by (simp add: retryRowMalformedness_def retryRowProblem_def outcome_mismatch_def)
  show "retryOfferProblem ''Memory'' new = Some WrongState" "getp new ''state'' = Str ''terminal''"
    "getp new ''resolution'' = Str resolution" "getp new ''id'' = getp row ''id''"
    using set_to kept [of "''id''"] by (simp_all add: retryOfferProblem_def)
qed


text \<open>Whatever row is stored under an obligation, the row that a write of the sender leaves passes the reader's checks: a refusal and
  a reserved offer leave a pending row that may be offered again, of the same obligation, with the attempts counted; an outcome leaves
  a row of the same id that is never offered again.\<close>

theorem sender_rows_are_well_formed:
  fixes now :: string and stored :: "jobj option"
  assumes "retryOfferProblem ''Memory'' row = None" "resolution \<in> set RETRY_RESOLUTIONS" "resolution \<noteq> ''retry_exhausted''"
    "reason \<in> set MEMORY_PENDING_REASONS" "retryRowForRefusal peerId recordId reason now existing reserved = Inr refused"
    "retryRowForAttempt row now = Inr attempted"
  shows "retryOfferProblem ''Memory'' (upserted stored refused) = None"
    "getp (upserted stored refused) ''id'' = Str (key_text peerId (Str ''Memory'') recordId)"
    "retryOfferProblem ''Memory'' (upserted stored attempted) = None" "getp (upserted stored attempted) ''id'' = getp row ''id''"
    "getp (upserted stored attempted) ''attempts'' = Num (jint (prior_attempts row + 1))"
    "retryRowMalformedness (upserted stored (terminalRetryRow row resolution now)) = None"
    "retryOfferProblem ''Memory'' (upserted stored (terminalRetryRow row resolution now)) = Some WrongState"
    "getp (upserted stored (terminalRetryRow row resolution now)) ''id'' = getp row ''id''"
proof -
  note old = offer_row [OF assms(1)]
  obtain was where was: "was \<in> set MEMORY_PENDING_REASONS" "getp row ''lastReason'' = Str was" using old(7) by blast
  note refused = refusal_row [OF assms(5), of stored] and attempted = attempt_row [OF assms(6) was(2), of stored]
  show "retryOfferProblem ''Memory'' (upserted stored refused) = None" by (rule pending_row_kept(2) [OF refused assms(4)])
  show "getp (upserted stored refused) ''id'' = Str (key_text peerId (Str ''Memory'') recordId)" using refused by (simp add: pending_row_def)
  show "retryOfferProblem ''Memory'' (upserted stored attempted) = None" by (rule pending_row_kept(2) [OF attempted was(1)])
  show "getp (upserted stored attempted) ''id'' = getp row ''id''" "getp (upserted stored attempted) ''attempts'' = Num (jint (prior_attempts row + 1))"
    using attempted old(2) by (simp_all add: pending_row_def)
  note over = terminal_row_kept [OF assms(1-3), of stored now]
  show "retryRowMalformedness (upserted stored (terminalRetryRow row resolution now)) = None" by (rule over(1))
  show "retryOfferProblem ''Memory'' (upserted stored (terminalRetryRow row resolution now)) = Some WrongState" by (rule over(2))
  show "getp (upserted stored (terminalRetryRow row resolution now)) ''id'' = getp row ''id''" by (rule over(5))
qed

definition demo_refused :: jobj where
  "demo_refused = (case retryRowForRefusal (Str ''p'') (Str ''m'') ''merge_error'' ''t'' None False of Inr r \<Rightarrow> r | Inl _ \<Rightarrow> [])"

theorem sender_rows_are_well_formed_witness:
  "retryOfferProblem ''Memory'' (upserted (Some demo_refused) (terminalRetryRow demo_refused ''merged'' ''t'')) = Some WrongState"
proof -
  have refused: "retryRowForRefusal (Str ''p'') (Str ''m'') ''merge_error'' ''t'' None False = Inr demo_refused" by code_simp
  have offered: "retryOfferProblem ''Memory'' demo_refused = None" by code_simp
  have "isl (retryRowForAttempt demo_refused ''t'') = False" by code_simp
  then obtain r where attempted: "retryRowForAttempt demo_refused ''t'' = Inr r" by (cases "retryRowForAttempt demo_refused ''t''") simp_all
  have outcome: "''merged'' \<in> set RETRY_RESOLUTIONS" "''merged'' \<noteq> ''retry_exhausted''" "''merge_error'' \<in> set MEMORY_PENDING_REASONS"
    by code_simp+
  show ?thesis
    by (rule sender_rows_are_well_formed(7) [OF offered outcome refused attempted])
qed

section \<open>An outcome is final\<close>

lemma getp_terminal_row:
  "getp (terminal_row inp row) f =
     (if f \<in> {''state'', ''resolution'', ''bound'', ''completedAt'', ''updatedAt''}
      then getp [(''state'', Str ''terminal''), (''resolution'', ti_resolution inp), (''bound'', coalesce (ti_bound inp) Null),
        (''completedAt'', Str (ti_now inp)), (''updatedAt'', Str (ti_now inp))] f
      else getp (pickRetryRowFields row) f)"
proof -
  let ?out = "[(''state'', Str ''terminal''), (''resolution'', ti_resolution inp), (''bound'', coalesce (ti_bound inp) Null),
        (''completedAt'', Str (ti_now inp)), (''updatedAt'', Str (ti_now inp))]"
  have "distinct (map fst ?out)" by simp
  moreover have "has_own (Obj ?out) f \<longleftrightarrow> f \<in> {''state'', ''resolution'', ''bound'', ''completedAt'', ''updatedAt''}"
    unfolding has_own_dom by simp
  ultimately show ?thesis unfolding terminal_row_def by (simp only: getp_spread)
qed

lemma terminalized:
  assumes "terminalizeRetryEntry env inp = (Inr i, Some new)"
  shows "retryEntryKey (ti_peerId inp) (ti_table inp) (ti_recordId inp) = Inr i" "\<not> invalid_outcome inp"
    "\<exists>row. te_stored env = Some (Some row) \<and> retryRowProblem known_reason row = None \<and> getp row ''state'' = Str ''pending'' \<and>
       new = terminal_row inp row"
  using assms unfolding terminalizeRetryEntry_def
  by (simp_all split: sum.splits if_splits key_lock_outcome.splits option.splits)

lemma terminal_row_problem:
  assumes "retryRowProblem known_reason row = None" "\<not> invalid_outcome inp"
  shows "retryRowProblem known_reason (terminal_row inp row) = None"
proof -
  have kept: "getp (terminal_row inp row) f = getp row f" if "f \<in> {''id'', ''peerId'', ''table'', ''recordId'', ''lastReason''}" for f
  proof -
    have "f \<in> set RETRY_ROW_FIELDS" "f \<notin> {''state'', ''resolution'', ''bound'', ''completedAt'', ''updatedAt''}"
      using that by (auto simp: RETRY_ROW_FIELDS_def)
    then show ?thesis unfolding getp_terminal_row by (simp only: if_False if_True getp_picked)
  qed
  have set_to: "getp (terminal_row inp row) ''state'' = Str ''terminal''" "getp (terminal_row inp row) ''resolution'' = ti_resolution inp"
    "getp (terminal_row inp row) ''bound'' = coalesce (ti_bound inp) Null"
    unfolding getp_terminal_row by simp_all
  have key: "row_key (terminal_row inp row) = row_key row"
    unfolding row_key_def using kept [of "''peerId''"] kept [of "''table''"] kept [of "''recordId''"] by simp
  have "\<not> outcome_mismatch (terminal_row inp row)"
    using assms(2) by (auto simp: outcome_mismatch_def invalid_outcome_def set_to coalesce_def)
  then show ?thesis
    using assms(1) unfolding retryRowProblem_def key kept [of "''id''", simplified] kept [of "''lastReason''", simplified] set_to
    by (simp split: if_splits)
qed

text \<open>C35. An entry reaches an outcome once: after a transition that answered its key, the stored row carries the outcome that was asked
  for, passes the checks of every reader, and any further transition of it, to any outcome, is refused as already terminal and writes
  nothing.\<close>

theorem retry_outcome_is_final:
  assumes "terminalizeRetryEntry env inp = (Inr i, Some new)"
    "te_stored env' = Some (Some new)" "te_tableLike env'" "te_lock env' = Done u"
    "retryEntryKey (ti_peerId inp') (ti_table inp') (ti_recordId inp') = Inr j" "\<not> invalid_outcome inp'"
  shows "terminalizeRetryEntry env' inp' = (Inl AlreadyTerminal, None) \<and> retryRowProblem known_reason new = None \<and>
    getp new ''state'' = Str ''terminal'' \<and> getp new ''resolution'' = ti_resolution inp"
proof -
  from terminalized(3) [OF assms(1)] obtain row where row: "retryRowProblem known_reason row = None" "new = terminal_row inp row" by blast
  have good: "retryRowProblem known_reason new = None" unfolding row(2) by (rule terminal_row_problem [OF row(1) terminalized(2) [OF assms(1)]])
  have state: "getp new ''state'' = Str ''terminal''" and outcome: "getp new ''resolution'' = ti_resolution inp"
    unfolding row(2) getp_terminal_row by simp_all
  have "terminalizeRetryEntry env' inp' = (Inl AlreadyTerminal, None)"
    using assms(2-6) good state by (simp add: terminalizeRetryEntry_def)
  then show ?thesis using good state outcome by blast
qed

definition demo_terminal_env :: "jobj \<Rightarrow> terminal_env" where
  "demo_terminal_env row = \<lparr>te_tableLike = True, te_lock = Done (), te_stored = Some (Some row), te_puts = True,
     te_committed = Some (Some row), te_commits = True\<rparr>"

definition demo_outcome :: "string \<Rightarrow> terminal_input" where
  "demo_outcome resolution = \<lparr>ti_peerId = Str ''p'', ti_table = Str ''Memory'', ti_recordId = Str ''m'', ti_resolution = Str resolution,
     ti_bound = Undef, ti_now = ''u''\<rparr>"

theorem retry_outcome_is_final_witness:
  "terminalizeRetryEntry (demo_terminal_env (terminal_row (demo_outcome ''merged'') demo_refused)) (demo_outcome ''source_deleted'') =
     (Inl AlreadyTerminal, None)"
proof -
  have key: "retryEntryKey (Str ''p'') (Str ''Memory'') (Str ''m'') = Inr (key_text (Str ''p'') (Str ''Memory'') (Str ''m''))"
    by (simp add: retryEntryKey_Inr)
  have first: "terminalizeRetryEntry (demo_terminal_env demo_refused) (demo_outcome ''merged'') =
      (Inr (key_text (Str ''p'') (Str ''Memory'') (Str ''m'')), Some (terminal_row (demo_outcome ''merged'') demo_refused))"
    by code_simp
  have valid: "\<not> invalid_outcome (demo_outcome ''source_deleted'')" by code_simp
  show ?thesis
    by (rule retry_outcome_is_final [OF first _ _ _ _ valid, where u = "()" and j = "key_text (Str ''p'') (Str ''Memory'') (Str ''m'')", THEN conjunct1])
      (simp_all add: demo_terminal_env_def demo_outcome_def key)
qed

end
