(* ===== verification/FedSend.thy ===== *)
theory FedSend
  imports FedRetry
begin

text \<open>
  The sync a federation sender runs (\<open>runFederationSyncOnce\<close> of \<open>src/src/commands/federation.ts\<close>): how a batch is sent and its
  answer read, how the retry table is kept beside it, how rows are gathered into batches, and when the cursor advances. The hub and
  the operations endpoint are arguments: the hub as a function from its state and a batch to its answer, the endpoint as a table
  with a list of faults that its calls meet in turn.
\<close>

section \<open>The answer to a batch\<close>

text \<open>No answer (a timeout, a dropped connection), an answer that is not ok, or one whose body is JSON or not.\<close>

datatype reply = NoReply | NotOk int | OkBody "js option"

datatype send_error = NoAnswer | Status int | NotJson | BadCounts | NotAccounted

record outcomes =
  oc_merged :: int
  oc_skipped :: int
  oc_refused :: "(string \<times> string \<times> string) list"
  oc_indeterminate :: "(string \<times> string) list"

definition isSyncBatchCount :: "js \<Rightarrow> nat \<Rightarrow> bool" where
  "isSyncBatchCount v batchSize \<longleftrightarrow>
     (case v of
        Num n \<Rightarrow> is_integer n \<and> \<bar>int_of_jnum n\<bar> \<le> MAX_SAFE_INTEGER \<and> 0 \<le> int_of_jnum n \<and> int_of_jnum n \<le> int batchSize
      | _ \<Rightarrow> False)"

definition count_value :: "js \<Rightarrow> int" where "count_value v = (case v of Num n \<Rightarrow> int_of_jnum n | _ \<Rightarrow> 0)"

definition parseSyncBatchCounts :: "js \<Rightarrow> nat \<Rightarrow> (int \<times> int) option" where
  "parseSyncBatchCounts answer batchSize =
     (case answer of
        Obj b \<Rightarrow>
          if \<not> isSyncBatchCount (getp b ''merged'') batchSize \<or> \<not> isSyncBatchCount (getp b ''skipped'') batchSize then None
          else (let merged = count_value (getp b ''merged''); skipped = count_value (getp b ''skipped'') in
            if int batchSize < merged + skipped then None else Some (merged, skipped))
      | _ \<Rightarrow> None)"

definition refused_entry :: "js \<Rightarrow> (string \<times> string \<times> string) option" where
  "refused_entry e =
     (case e of
        Obj b \<Rightarrow> (case (getp b ''table'', getp b ''id'', getp b ''reason'') of (Str t, Str i, Str r) \<Rightarrow> Some (t, i, r) | _ \<Rightarrow> None)
      | _ \<Rightarrow> None)"

definition parseSyncBatchRefused :: "js \<Rightarrow> (string \<times> string \<times> string) list" where
  "parseSyncBatchRefused answer =
     (case answer of Obj b \<Rightarrow> (case getp b ''refused'' of Arr es \<Rightarrow> List.map_filter refused_entry es | _ \<Rightarrow> []) | _ \<Rightarrow> [])"

definition indeterminate_entry :: "js \<Rightarrow> (string \<times> string) option" where
  "indeterminate_entry e =
     (case e of Obj b \<Rightarrow> (case (getp b ''table'', getp b ''id'') of (Str t, Str i) \<Rightarrow> Some (t, i) | _ \<Rightarrow> None) | _ \<Rightarrow> None)"

definition parseSyncBatchIndeterminate :: "js \<Rightarrow> (string \<times> string) list" where
  "parseSyncBatchIndeterminate answer =
     (case answer of Obj b \<Rightarrow> (case getp b ''indeterminate'' of Arr es \<Rightarrow> List.map_filter indeterminate_entry es | _ \<Rightarrow> []) | _ \<Rightarrow> [])"

definition outcome_key :: "js \<Rightarrow> js \<Rightarrow> string" where "outcome_key table i = json_text (Arr [table, i])"

definition record_key :: "jobj \<Rightarrow> string" where "record_key r = outcome_key (getp r ''table'') (getp r ''id'')"

definition refused_keys :: "outcomes \<Rightarrow> (string \<times> string) list" where
  "refused_keys res = map (\<lambda>(t, i, reason). (outcome_key (Str t) (Str i), reason)) (oc_refused res)"

definition undecided_keys :: "outcomes \<Rightarrow> string list" where
  "undecided_keys res = map (\<lambda>(t, i). outcome_key (Str t) (Str i)) (oc_indeterminate res)"

definition unresolved :: "outcomes \<Rightarrow> string list" where "unresolved res = map fst (refused_keys res) @ undecided_keys res"

definition valid_list :: "js \<Rightarrow> nat \<Rightarrow> bool" where
  "valid_list raw n \<longleftrightarrow> raw = Undef \<or> (case raw of Arr xs \<Rightarrow> length xs = n | _ \<Rightarrow> False)"

text \<open>The answer accounts for every record that was offered.\<close>

definition accounted :: "jobj list \<Rightarrow> js \<Rightarrow> outcomes \<Rightarrow> bool" where
  "accounted batch answer res \<longleftrightarrow>
     valid_list (field answer ''refused'') (length (oc_refused res)) \<and>
     valid_list (field answer ''indeterminate'') (length (oc_indeterminate res)) \<and>
     (\<forall>entry \<in> set (unresolved res). entry \<in> set (map record_key batch)) \<and>
     length (remdups (unresolved res)) = length (unresolved res) \<and>
     oc_skipped res = int (length (oc_refused res)) \<and>
     oc_merged res + int (length (oc_refused res)) + int (length (oc_indeterminate res)) = int (length batch)"

definition must_account :: "bool \<Rightarrow> jobj list \<Rightarrow> bool" where
  "must_account validatePresence batch \<longleftrightarrow> validatePresence \<or> (case batch of r # _ \<Rightarrow> getp r ''table'' = Str ''Memory'' | [] \<Rightarrow> False)"

definition read_reply :: "bool \<Rightarrow> jobj list \<Rightarrow> reply \<Rightarrow> send_error + outcomes" where
  "read_reply validatePresence batch r =
     (case r of
        NoReply \<Rightarrow> Inl NoAnswer
      | NotOk st \<Rightarrow> Inl (Status st)
      | OkBody None \<Rightarrow> Inl NotJson
      | OkBody (Some answer) \<Rightarrow>
          (case parseSyncBatchCounts answer (length batch) of
             None \<Rightarrow> Inl BadCounts
           | Some (merged, skipped) \<Rightarrow>
               (let res = \<lparr>oc_merged = merged, oc_skipped = skipped, oc_refused = parseSyncBatchRefused answer,
                  oc_indeterminate = parseSyncBatchIndeterminate answer\<rparr> in
                if must_account validatePresence batch \<and> \<not> accounted batch answer res then Inl NotAccounted else Inr res)))"

definition TIMEOUT_STATUSES :: "int list" where "TIMEOUT_STATUSES = [408, 413, 502, 503, 504]"

definition splits :: "reply \<Rightarrow> bool" where
  "splits r \<longleftrightarrow> (case r of NoReply \<Rightarrow> True | NotOk st \<Rightarrow> st \<in> set TIMEOUT_STATUSES | OkBody _ \<Rightarrow> False)"

definition join_outcomes :: "outcomes \<Rightarrow> outcomes \<Rightarrow> outcomes" where
  "join_outcomes l r =
     \<lparr>oc_merged = oc_merged l + oc_merged r, oc_skipped = oc_skipped l + oc_skipped r,
      oc_refused = oc_refused l @ oc_refused r, oc_indeterminate = oc_indeterminate l @ oc_indeterminate r\<rparr>"

text \<open>A batch that meets a timeout is halved, down to single records.\<close>

function sendBatch :: "('w \<Rightarrow> jobj list \<Rightarrow> reply \<times> 'w) \<Rightarrow> bool \<Rightarrow> jobj list \<Rightarrow> 'w \<Rightarrow> (send_error + outcomes) \<times> 'w" where
  "sendBatch post validatePresence batch w =
     (let (r, w1) = post w batch; mid = length batch div 2 in
      if 1 < length batch \<and> splits r then
        (case sendBatch post validatePresence (take mid batch) w1 of
           (Inl e, w2) \<Rightarrow> (Inl e, w2)
         | (Inr left, w2) \<Rightarrow>
             (case sendBatch post validatePresence (drop mid batch) w2 of
                (Inl e, w3) \<Rightarrow> (Inl e, w3)
              | (Inr right, w3) \<Rightarrow> (Inr (join_outcomes left right), w3)))
      else (read_reply validatePresence batch r, w1))"
  by pat_completeness auto
termination by (relation "measure (\<lambda>(post, v, batch, w). length batch)") auto

declare sendBatch.simps [simp del]

section \<open>What an accepted answer accounts for\<close>

lemma length_remdups_eq: "length (remdups xs) = length xs \<longleftrightarrow> distinct xs"
  by (metis distinct_remdups length_remdups_card_conv card_distinct distinct_card)

definition fully_accounted :: "jobj list \<Rightarrow> outcomes \<Rightarrow> bool" where
  "fully_accounted batch res \<longleftrightarrow>
     set (unresolved res) \<subseteq> set (map record_key batch) \<and> distinct (unresolved res) \<and>
     oc_skipped res = int (length (oc_refused res)) \<and>
     oc_merged res + int (length (oc_refused res)) + int (length (oc_indeterminate res)) = int (length batch)"

lemma read_reply_accounts:
  assumes "read_reply v batch r = Inr res" "must_account v batch"
  shows "fully_accounted batch res"
  using assms unfolding read_reply_def
  by (auto simp: Let_def accounted_def fully_accounted_def length_remdups_eq split: reply.splits option.splits if_splits)

lemma unresolved_join: "set (unresolved (join_outcomes l r)) = set (unresolved l) \<union> set (unresolved r)"
  by (auto simp: unresolved_def join_outcomes_def refused_keys_def undecided_keys_def)

lemma distinct_join:
  assumes "distinct (unresolved l)" "distinct (unresolved r)" "set (unresolved l) \<inter> set (unresolved r) = {}"
  shows "distinct (unresolved (join_outcomes l r))"
proof -
  have interleave: "distinct ((a1 @ a2) @ b1 @ b2)"
    if "distinct (a1 @ b1)" "distinct (a2 @ b2)" "set (a1 @ b1) \<inter> set (a2 @ b2) = {}" for a1 a2 b1 b2 :: "string list"
    using that by auto
  have "unresolved (join_outcomes l r) =
      (map fst (refused_keys l) @ map fst (refused_keys r)) @ undecided_keys l @ undecided_keys r"
    by (simp add: unresolved_def join_outcomes_def refused_keys_def undecided_keys_def)
  then show ?thesis using interleave [OF assms [unfolded unresolved_def]] by simp
qed

lemma fully_accounted_join:
  assumes "fully_accounted xs l" "fully_accounted ys r" "distinct (map record_key (xs @ ys))"
  shows "fully_accounted (xs @ ys) (join_outcomes l r)"
proof -
  have sub: "set (unresolved l) \<subseteq> set (map record_key xs)" "set (unresolved r) \<subseteq> set (map record_key ys)"
    using assms(1,2) by (simp_all add: fully_accounted_def)
  then have "set (unresolved l) \<inter> set (unresolved r) = {}" using assms(3) by fastforce
  then have "distinct (unresolved (join_outcomes l r))" using assms(1,2) distinct_join by (simp add: fully_accounted_def)
  moreover have "set (unresolved (join_outcomes l r)) \<subseteq> set (map record_key (xs @ ys))" using sub unfolding unresolved_join by auto
  ultimately show ?thesis using assms(1,2) by (simp add: fully_accounted_def join_outcomes_def)
qed

lemma must_account_part:
  assumes "v \<or> (\<forall>r \<in> set batch. getp r ''table'' = Str ''Memory'')" "set part \<subseteq> set batch" "part \<noteq> []"
  shows "must_account v part"
  using assms by (cases part) (auto simp: must_account_def)

text \<open>C15. However a batch of Memory or of Presence records is split on its way, an answer that is accepted accounts for it: the merged,
  refused and undecided records add up to those offered, every refusal and every undecided entry names an offered record, and none is
  named twice.\<close>

theorem sent_batch_is_accounted:
  assumes "sendBatch post v batch w = (Inr res, w')" "distinct (map record_key batch)" "batch \<noteq> []"
    "v \<or> (\<forall>r \<in> set batch. getp r ''table'' = Str ''Memory'')"
  shows "set (unresolved res) \<subseteq> set (map record_key batch) \<and> distinct (unresolved res) \<and> oc_skipped res = int (length (oc_refused res)) \<and>
    oc_merged res + int (length (oc_refused res)) + int (length (oc_indeterminate res)) = int (length batch)"
proof -
  have "fully_accounted batch res"
    using assms
  proof (induction post v batch w arbitrary: res w' rule: sendBatch.induct)
    case (1 post v batch w)
    obtain r w1 where r: "post w batch = (r, w1)" by fastforce
    let ?mid = "length batch div 2"
    show ?case
    proof (cases "1 < length batch \<and> splits r")
      case True
      obtain l w2 where l: "sendBatch post v (take ?mid batch) w1 = (Inr l, w2)"
        using "1.prems"(1) r True by (subst (asm) sendBatch.simps) (auto simp: Let_def split: prod.splits sum.splits)
      obtain q w3 where q: "sendBatch post v (drop ?mid batch) w2 = (Inr q, w3)" and res: "res = join_outcomes l q"
        using "1.prems"(1) r True l by (subst (asm) sendBatch.simps) (auto simp: Let_def split: prod.splits sum.splits)
      have halves: "take ?mid batch \<noteq> []" "drop ?mid batch \<noteq> []" using True by auto
      have tables: "v \<or> (\<forall>r \<in> set part. getp r ''table'' = Str ''Memory'')" if "set part \<subseteq> set batch" for part using "1.prems"(4) that by blast
      have both: "distinct (map record_key (take ?mid batch @ drop ?mid batch))" using "1.prems"(2) by simp
      then have parts: "distinct (map record_key (take ?mid batch))" "distinct (map record_key (drop ?mid batch))"
        unfolding map_append distinct_append by blast+
      have "fully_accounted (take ?mid batch @ drop ?mid batch) res"
        unfolding res
        using "1.IH"(1) [OF r [symmetric] refl refl True l] "1.IH"(2) [OF r [symmetric] refl refl True l [symmetric] refl q]
          halves parts tables [OF set_take_subset] tables [OF set_drop_subset] both
        by (intro fully_accounted_join) blast+
      then show ?thesis by simp
    next
      case False
      then have "read_reply v batch r = Inr res" using "1.prems"(1) r by (subst (asm) sendBatch.simps) (auto simp: Let_def)
      then show ?thesis using must_account_part [OF "1.prems"(4) subset_refl "1.prems"(3)] by (rule read_reply_accounts)
    qed
  qed
  then show ?thesis by (simp add: fully_accounted_def)
qed


definition demo_hub :: "nat \<Rightarrow> jobj list \<Rightarrow> reply \<times> nat" where
  "demo_hub w batch =
     (if 1 < length batch then NotOk 408 else OkBody (Some (Obj [(''merged'', Num (jint 1)), (''skipped'', Num (jint 0))])), Suc w)"

definition demo_batch :: "jobj list" where
  "demo_batch = [[(''table'', Str ''Memory''), (''id'', Str ''m1'')], [(''table'', Str ''Memory''), (''id'', Str ''m2'')]]"

theorem sent_batch_is_accounted_witness:
  "sendBatch demo_hub False demo_batch 0 =
     (Inr \<lparr>oc_merged = 2, oc_skipped = 0, oc_refused = [], oc_indeterminate = []\<rparr>, 3) \<and> (2 :: int) + 0 + 0 = int (length demo_batch)"
proof -
  have sent: "sendBatch demo_hub False demo_batch 0 = (Inr \<lparr>oc_merged = 2, oc_skipped = 0, oc_refused = [], oc_indeterminate = []\<rparr>, 3)"
    by code_simp
  have "distinct (map record_key demo_batch)" "demo_batch \<noteq> []" by code_simp+
  moreover have "False \<or> (\<forall>r \<in> set demo_batch. getp r ''table'' = Str ''Memory'')" by (simp add: demo_batch_def)
  ultimately have "2 + int (length ([] :: (string \<times> string \<times> string) list)) + int (length ([] :: (string \<times> string) list)) = int (length demo_batch)"
    using sent_batch_is_accounted [OF sent] by simp
  then show ?thesis using sent by simp
qed

section \<open>How often a batch is sent\<close>

definition counting :: "('w \<Rightarrow> jobj list \<Rightarrow> reply \<times> 'w) \<Rightarrow> nat \<times> 'w \<Rightarrow> jobj list \<Rightarrow> reply \<times> nat \<times> 'w" where
  "counting post w batch = (case post (snd w) batch of (r, w') \<Rightarrow> (r, Suc (fst w), w'))"

text \<open>Halving ends: a batch of n records takes at most 2n - 1 requests, whatever the hub answers.\<close>

theorem split_is_bounded:
  assumes "sendBatch (counting post) v batch (n, w) = (a, m, w')" "batch \<noteq> []"
  shows "m < n + 2 * length batch"
  using assms
proof (induction "length batch" arbitrary: batch n w a m w' rule: less_induct)
  case less
  let ?mid = "length batch div 2"
  obtain r w1 where r: "counting post (n, w) batch = (r, Suc n, w1)" by (cases "post w batch") (auto simp: counting_def)
  show ?case
  proof (cases "1 < length batch \<and> splits r")
    case True
    obtain b k w2 where l: "sendBatch (counting post) v (take ?mid batch) (Suc n, w1) = (b, k, w2)" by (metis prod.exhaust)
    have k: "k < Suc n + 2 * length (take ?mid batch)" by (rule less.hyps [OF _ l]) (use True in auto)
    show ?thesis
    proof (cases b)
      case (Inl e)
      then have "m = k" using less.prems(1) r True l by (subst (asm) sendBatch.simps) (simp add: Let_def)
      moreover have "2 * ?mid \<le> length batch" "k < Suc n + 2 * ?mid" using k by simp_all
      ultimately show ?thesis using True by linarith
    next
      case (Inr left)
      obtain c j w3 where q: "sendBatch (counting post) v (drop ?mid batch) (k, w2) = (c, j, w3)" by (metis prod.exhaust)
      have j: "j < k + 2 * length (drop ?mid batch)" by (rule less.hyps [OF _ q]) (use True in auto)
      have "m = j" using less.prems(1) r True l q Inr by (subst (asm) sendBatch.simps) (simp add: Let_def split: sum.splits)
      then show ?thesis using j k True by simp
    qed
  next
    case False
    then have "m = Suc n" using less.prems(1) r by (subst (asm) sendBatch.simps) (auto simp: Let_def)
    then show ?thesis using less.prems(2) by (cases batch) simp_all
  qed
qed

theorem split_is_bounded_witness: "fst (snd (sendBatch (counting demo_hub) False demo_batch (0, 0))) < 4"
proof -
  obtain a m w' where m: "sendBatch (counting demo_hub) False demo_batch (0, 0) = (a, m, w')" by (metis prod.exhaust)
  show ?thesis using split_is_bounded [OF m] m by (simp add: demo_batch_def)
qed

end
