(* ===== verification/FedSync.thy ===== *)
theory FedSync
  imports FedSend
begin

text \<open>
  The rest of \<open>runFederationSyncOnce\<close> (\<open>src/src/commands/federation.ts\<close>): the retry bookkeeping beside the batches, the selection
  of rows to offer again, the gathering of rows into batches, and the stamp of the cursor. The calls to the operations endpoint meet
  a list of faults, one for each call; every call may fail before or after it took effect.
\<close>

section \<open>State of one run\<close>

datatype ops_fault = Served | Lost | Unanswered

datatype push_error = ReadFailed | RetryWriteFailed | NotConfirmed string | BadKey string | KeyUnavailable | QueryFailed | SendFailed send_error

record 'w sender =
  retryTable :: "(js \<times> jobj) list"
  pendingRetries :: "(js \<times> jobj) list"
  reservedOffers :: "js list"
  reservationTargets :: "(string \<times> jobj) list"
  reportedMalformed :: "js list"
  opsFaults :: "ops_fault list"
  clockReads :: nat
  hubState :: 'w
  sent :: "(jobj list \<times> outcomes) list"

record 'w push_env =
  pe_peer :: js
  pe_instance :: string
  pe_secretKey :: "string option"
  pe_crypto :: crypto
  pe_parse :: "string \<Rightarrow> js option"
  pe_dparse :: "string \<Rightarrow> int option"
  pe_iso :: "nat \<Rightarrow> string"
  pe_ms :: "nat \<Rightarrow> int"
  pe_since :: string
  pe_query :: "string \<Rightarrow> bool \<Rightarrow> jobj list option"
  pe_memory :: "jobj list"
  pe_post :: "'w \<Rightarrow> jobj list \<Rightarrow> reply \<times> 'w"

text \<open>Every operation answers an error or a value, and the state it leaves.\<close>

definition andThen :: "('e + 'a) \<times> 's \<Rightarrow> ('a \<Rightarrow> 's \<Rightarrow> ('e + 'b) \<times> 's) \<Rightarrow> ('e + 'b) \<times> 's" where
  "andThen m f = (case m of (Inl e, s) \<Rightarrow> (Inl e, s) | (Inr x, s) \<Rightarrow> f x s)"

primrec each :: "('a \<Rightarrow> 's \<Rightarrow> ('e + unit) \<times> 's) \<Rightarrow> 'a list \<Rightarrow> 's \<Rightarrow> ('e + unit) \<times> 's" where
  "each f [] s = (Inr (), s)"
| "each f (x # xs) s = andThen (f x s) (\<lambda>_. each f xs)"

definition nowIso :: "'w push_env \<Rightarrow> 'w sender \<Rightarrow> string \<times> 'w sender" where
  "nowIso env s = (pe_iso env (clockReads s), s\<lparr>clockReads := Suc (clockReads s)\<rparr>)"

definition next_fault :: "'w sender \<Rightarrow> ops_fault \<times> 'w sender" where
  "next_fault s = (case opsFaults s of [] \<Rightarrow> (Served, s) | f # fs \<Rightarrow> (f, s\<lparr>opsFaults := fs\<rparr>))"

section \<open>The retry table\<close>

definition reportMalformedRetryRow :: "js \<Rightarrow> 'w sender \<Rightarrow> 'w sender" where
  "reportMalformedRetryRow i s =
     (if i \<in> set (reportedMalformed s) then s else s\<lparr>reportedMalformed := reportedMalformed s @ [i]\<rparr>)"

definition ops_read :: "('w sender \<Rightarrow> 'a) \<Rightarrow> 'w sender \<Rightarrow> (push_error + 'a) \<times> 'w sender" where
  "ops_read f s = (case next_fault s of (Served, s') \<Rightarrow> (Inr (f s'), s') | (_, s') \<Rightarrow> (Inl ReadFailed, s'))"

definition pending_match :: "js \<Rightarrow> jobj \<Rightarrow> bool" where
  "pending_match peer row \<longleftrightarrow>
     getp row ''peerId'' = peer \<and> getp row ''table'' = Str ''Memory'' \<and> getp row ''state'' = Str ''pending''"

definition loadPendingRetries :: "'w push_env \<Rightarrow> 'w sender \<Rightarrow> (push_error + unit) \<times> 'w sender" where
  "loadPendingRetries env s =
     andThen (ops_read (\<lambda>s. filter (pending_match (pe_peer env)) (map snd (retryTable s))) s) (\<lambda>rows s.
       (Inr (), s\<lparr>pendingRetries := fold (\<lambda>row. AList.update (getp row ''id'') row) rows (pendingRetries s)\<rparr>))"

definition stored_rows :: "string list \<Rightarrow> (js \<times> jobj) list \<Rightarrow> (js \<times> jobj) list" where
  "stored_rows keys table =
     fold (\<lambda>row. if is_string_value (getp row ''id'') then AList.update (getp row ''id'') row else id)
       (List.map_filter (\<lambda>k. map_of table (Str k)) (remdups keys)) []"

definition readStoredRetryRows :: "string list \<Rightarrow> 'w sender \<Rightarrow> (push_error + (js \<times> jobj) list) \<times> 'w sender" where
  "readStoredRetryRows keys s = (if keys = [] then (Inr [], s) else ops_read (\<lambda>s. stored_rows keys (retryTable s)) s)"

definition confirmRetryRow :: "jobj \<Rightarrow> 'w sender \<Rightarrow> (push_error + unit) \<times> 'w sender" where
  "confirmRetryRow rec s =
     andThen (ops_read (\<lambda>s. map_of (retryTable s) (getp rec ''id'')) s) (\<lambda>found s.
       let stored = (case found of Some r \<Rightarrow> if strict_eq (getp r ''id'') (getp rec ''id'') then Some r else None | None \<Rightarrow> None) in
       case retryRowConfirmation rec stored of Some f \<Rightarrow> (Inl (NotConfirmed f), s) | None \<Rightarrow> (Inr (), s))"

datatype retry_write = Upsert | Update

definition put_row :: "jobj \<Rightarrow> 'w sender \<Rightarrow> 'w sender" where
  "put_row rec s =
     s\<lparr>retryTable := AList.update (getp rec ''id'') (upserted (map_of (retryTable s) (getp rec ''id'')) rec) (retryTable s)\<rparr>"

text \<open>An update of a row that is not there matches none, and its answer names no row.\<close>

definition matches :: "retry_write \<Rightarrow> jobj \<Rightarrow> 'w sender \<Rightarrow> bool" where
  "matches operation rec s \<longleftrightarrow> operation = Upsert \<or> map_of (retryTable s) (getp rec ''id'') \<noteq> None"

definition writeRetryRow :: "retry_write \<Rightarrow> jobj \<Rightarrow> 'w sender \<Rightarrow> (push_error + unit) \<times> 'w sender" where
  "writeRetryRow operation rec s =
     (case next_fault s of
        (Lost, s') \<Rightarrow> (Inl RetryWriteFailed, s')
      | (Unanswered, s') \<Rightarrow> (Inl RetryWriteFailed, if matches operation rec s' then put_row rec s' else s')
      | (Served, s') \<Rightarrow>
          if matches operation rec s' then confirmRetryRow rec (put_row rec s')
          else (Inl (NotConfirmed ''update_hashes''), s'))"

definition retireRetry :: "jobj \<Rightarrow> string \<Rightarrow> string \<Rightarrow> 'w sender \<Rightarrow> (push_error + unit) \<times> 'w sender" where
  "retireRetry row resolution now s =
     andThen (writeRetryRow Update (terminalRetryRow row resolution now) s) (\<lambda>_ s.
       (Inr (), s\<lparr>pendingRetries := AList.delete (getp row ''id'') (pendingRetries s)\<rparr>))"

definition loadMemoryRow :: "'w push_env \<Rightarrow> js \<Rightarrow> 'w sender \<Rightarrow> (push_error + jobj option) \<times> 'w sender" where
  "loadMemoryRow env i s = ops_read (\<lambda>_. find (\<lambda>r. getp r ''id'' = i) (pe_memory env)) s"

section \<open>The outcomes of a batch\<close>

definition retry_key :: "'w push_env \<Rightarrow> js \<Rightarrow> push_error + string" where
  "retry_key env recordId = (case retryEntryKey (pe_peer env) (Str ''Memory'') recordId of Inl m \<Rightarrow> Inl (BadKey m) | Inr k \<Rightarrow> Inr k)"

primrec memory_keys :: "'w push_env \<Rightarrow> jobj list \<Rightarrow> push_error + string list" where
  "memory_keys env [] = Inr []"
| "memory_keys env (r # rs) =
     (if getp r ''table'' = Str ''Memory''
      then bind_sum (retry_key env (getp r ''id'')) (\<lambda>k. bind_sum (memory_keys env rs) (\<lambda>ks. Inr (k # ks)))
      else memory_keys env rs)"

datatype verdict = Undecided | RefusedFor string | NotRefused

definition verdict_of :: "outcomes \<Rightarrow> jobj \<Rightarrow> verdict" where
  "verdict_of res r =
     (if record_key r \<in> set (undecided_keys res) then Undecided
      else case map_of (rev (refused_keys res)) (record_key r) of Some reason \<Rightarrow> RefusedFor reason | None \<Rightarrow> NotRefused)"

definition keep_pending ::
    "'w push_env \<Rightarrow> string \<Rightarrow> js \<Rightarrow> string \<Rightarrow> jobj option \<Rightarrow> bool \<Rightarrow> 'w sender \<Rightarrow> (push_error + unit) \<times> 'w sender" where
  "keep_pending env now recordId reason prior attemptReserved s =
     (case retryRowForRefusal (pe_peer env) recordId reason now prior attemptReserved of
        Inl m \<Rightarrow> (Inl (BadKey m), s)
      | Inr row \<Rightarrow> andThen (writeRetryRow Upsert row s) (\<lambda>_ s.
          (Inr (), s\<lparr>pendingRetries := AList.update (getp row ''id'') row (pendingRetries s)\<rparr>)))"

definition is_malformed :: "jobj option \<Rightarrow> bool" where
  "is_malformed stored \<longleftrightarrow> (case stored of Some row \<Rightarrow> retryRowMalformedness row \<noteq> None | None \<Rightarrow> False)"

definition not_offerable :: "jobj option \<Rightarrow> bool" where
  "not_offerable prior \<longleftrightarrow> (case prior of Some row \<Rightarrow> retryOfferProblem ''Memory'' row \<noteq> None | None \<Rightarrow> False)"

definition settle_record ::
    "'w push_env \<Rightarrow> string \<Rightarrow> (js \<times> jobj) list \<Rightarrow> outcomes \<Rightarrow> jobj \<Rightarrow> 'w sender \<Rightarrow> (push_error + unit) \<times> 'w sender" where
  "settle_record env now storedRows res record s =
     (if getp record ''table'' \<noteq> Str ''Memory'' then (Inr (), s)
      else case retry_key env (getp record ''id'') of
        Inl e \<Rightarrow> (Inl e, s)
      | Inr key \<Rightarrow>
          (let attemptReserved = Str key \<in> set (reservedOffers s);
               s1 = s\<lparr>reservedOffers := removeAll (Str key) (reservedOffers s)\<rparr>;
               prior = map_of (pendingRetries s1) (Str key) in
           if is_malformed (map_of storedRows (Str key)) then (Inr (), reportMalformedRetryRow (Str key) s1)
           else if not_offerable prior then (Inr (), s1)
           else (case verdict_of res record of
               Undecided \<Rightarrow> keep_pending env now (getp record ''id'') ''retry_unknown'' prior attemptReserved s1
             | RefusedFor reason \<Rightarrow>
                 if reason \<in> set MEMORY_RETRY_REASONS
                 then keep_pending env now (getp record ''id'') reason prior attemptReserved s1
                 else (case prior of Some row \<Rightarrow> retireRetry row ''refused_terminal'' now s1 | None \<Rightarrow> (Inr (), s1))
             | NotRefused \<Rightarrow> (case prior of Some row \<Rightarrow> retireRetry row ''merged'' now s1 | None \<Rightarrow> (Inr (), s1)))))"

definition applyMemoryOutcomes :: "'w push_env \<Rightarrow> jobj list \<Rightarrow> outcomes \<Rightarrow> 'w sender \<Rightarrow> (push_error + unit) \<times> 'w sender" where
  "applyMemoryOutcomes env batch res s =
     (let (now, s1) = nowIso env s in
      case memory_keys env batch of
        Inl e \<Rightarrow> (Inl e, s1)
      | Inr keys \<Rightarrow> andThen (readStoredRetryRows keys s1) (\<lambda>storedRows. each (settle_record env now storedRows res) batch))"

text \<open>An attempt is reserved for each record of the batch that has a pending row.\<close>

definition reserve_record :: "string \<Rightarrow> jobj \<Rightarrow> 'w sender \<Rightarrow> (push_error + unit) \<times> 'w sender" where
  "reserve_record now record s =
     (if getp record ''table'' \<noteq> Str ''Memory'' then (Inr (), s)
      else case map_of (reservationTargets s) (js_String (getp record ''id'')) of
        None \<Rightarrow> (Inr (), s)
      | Some pending \<Rightarrow>
          (let s1 = s\<lparr>reservationTargets := AList.delete (js_String (getp record ''id'')) (reservationTargets s)\<rparr> in
           case retryRowForAttempt pending now of
             Inl m \<Rightarrow> (Inl (BadKey m), s1)
           | Inr reserved \<Rightarrow> andThen (writeRetryRow Upsert reserved s1) (\<lambda>_ s.
               (Inr (), s\<lparr>pendingRetries := AList.update (getp reserved ''id'') reserved (pendingRetries s),
                 reservedOffers := List.insert (getp reserved ''id'') (reservedOffers s)\<rparr>))))"

definition reserveBatchAttempts :: "'w push_env \<Rightarrow> jobj list \<Rightarrow> 'w sender \<Rightarrow> (push_error + unit) \<times> 'w sender" where
  "reserveBatchAttempts env batch s = (let (now, s1) = nowIso env s in each (reserve_record now) batch s1)"

section \<open>Selection and batches\<close>

definition principalIdFromRow :: "'w push_env \<Rightarrow> jobj \<Rightarrow> js" where
  "principalIdFromRow env row =
     (case getp row ''provenance'' of
        Str (c # cs) \<Rightarrow>
          (case pe_parse env (c # cs) of
             Some v \<Rightarrow> if nullish v \<or> nullish (field v ''verified'') then Undef
               else coalesce (field (field v ''verified'') ''agentId'') Undef
           | None \<Rightarrow> Undef)
      | _ \<Rightarrow> Undef)"

definition reserve_targets :: "'w push_env \<Rightarrow> jobj list \<Rightarrow> 'w sender \<Rightarrow> (push_error + unit) \<times> 'w sender" where
  "reserve_targets env = each (\<lambda>row s.
     (case retry_key env (getp row ''id'') of
        Inl e \<Rightarrow> (Inl e, s)
      | Inr key \<Rightarrow>
          (case map_of (pendingRetries s) (Str key) of
             Some pending \<Rightarrow>
               if retryOfferProblem ''Memory'' pending \<noteq> None then (Inr (), s)
               else (Inr (), s\<lparr>reservationTargets := AList.update (js_String (getp row ''id'')) pending (reservationTargets s)\<rparr>)
           | None \<Rightarrow> (Inr (), s))))"

text \<open>The due rows, each offered again, retired or already selected; the answer is the list of rows to send.\<close>

primrec reoffer :: "'w push_env \<Rightarrow> jobj list \<Rightarrow> js list \<Rightarrow> jobj list \<Rightarrow> 'w sender \<Rightarrow> (push_error + jobj list) \<times> 'w sender" where
  "reoffer env [] seen rows s = (Inr rows, s)"
| "reoffer env (pending # due) seen rows s =
     (if getp pending ''recordId'' \<in> set seen then reoffer env due seen rows s
      else andThen (loadMemoryRow env (getp pending ''recordId'') s) (\<lambda>found s.
        case found of
          None \<Rightarrow> (let (now, s') = nowIso env s in
            andThen (retireRetry pending ''source_deleted'' now s') (\<lambda>_. reoffer env due seen rows))
        | Some row \<Rightarrow>
            if isFederationPrivateVisibility (getp row ''visibility'') then
              (let (now, s') = nowIso env s in
               andThen (retireRetry pending ''source_ineligible'' now s') (\<lambda>_. reoffer env due seen rows))
            else reoffer env due (getp pending ''recordId'' # seen) (rows @ [row])
              (s\<lparr>reservationTargets := AList.update (js_String (getp row ''id'')) pending (reservationTargets s)\<rparr>)))"

definition select_retries :: "'w push_env \<Rightarrow> jobj list \<Rightarrow> 'w sender \<Rightarrow> (push_error + jobj list) \<times> 'w sender" where
  "select_retries env rows s =
     (let s1 = fold (\<lambda>(i, row) s. if retryRowMalformedness row \<noteq> None then reportMalformedRetryRow (getp row ''id'') s else s)
            (pendingRetries s) s in
      andThen (reserve_targets env rows s1) (\<lambda>_ s2.
        (let now = pe_ms env (clockReads s2); s3 = s2\<lparr>clockReads := Suc (clockReads s2)\<rparr> in
         reoffer env (dueRetryRows (pe_dparse env) now ''Memory'' (map snd (pendingRetries s3))) (map (\<lambda>r. getp r ''id'') rows) rows s3)))"

definition BUDGET_BYTES :: nat where "BUDGET_BYTES = 2000000"
definition BUDGET_RECORDS :: nat where "BUDGET_RECORDS = 50"

definition wire_record :: "'w push_env \<Rightarrow> string \<Rightarrow> string \<Rightarrow> jobj \<Rightarrow> jobj" where
  "wire_record env secretKey table row = push_record (pe_crypto env) secretKey table row (pe_instance env) (principalIdFromRow env row)"

definition wire_bytes :: "jobj \<Rightarrow> nat" where "wire_bytes sr = length (json_text (Obj sr))"

definition flush :: "'w push_env \<Rightarrow> string \<Rightarrow> jobj list \<Rightarrow> 'w sender \<Rightarrow> (push_error + unit) \<times> 'w sender" where
  "flush env table batch s =
     andThen (if table = ''Memory'' then reserveBatchAttempts env batch s else (Inr (), s)) (\<lambda>_ s1.
       case sendBatch (pe_post env) False batch (hubState s1) of
         (Inl e, w) \<Rightarrow> (Inl (SendFailed e), s1\<lparr>hubState := w\<rparr>)
       | (Inr res, w) \<Rightarrow>
           (let s2 = s1\<lparr>hubState := w\<rparr> in
            andThen (if table = ''Memory'' then applyMemoryOutcomes env batch res s2 else (Inr (), s2)) (\<lambda>_ s3.
              (Inr (), s3\<lparr>sent := sent s3 @ [(batch, res)]\<rparr>))))"

text \<open>Whether a batch is full before a record of the given size.\<close>

definition full :: "jobj list \<Rightarrow> nat \<Rightarrow> nat \<Rightarrow> bool" where
  "full batch batchBytes srBytes \<longleftrightarrow> BUDGET_RECORDS \<le> length batch \<or> (batch \<noteq> [] \<and> BUDGET_BYTES < batchBytes + srBytes)"

primrec push_rows ::
    "'w push_env \<Rightarrow> string \<Rightarrow> string \<Rightarrow> jobj list \<Rightarrow> jobj list \<Rightarrow> nat \<Rightarrow> 'w sender \<Rightarrow> (push_error + unit) \<times> 'w sender" where
  "push_rows env secretKey table [] batch bytes s = (if batch = [] then (Inr (), s) else flush env table batch s)"
| "push_rows env secretKey table (row # rows) batch bytes s =
     (let sr = wire_record env secretKey table row; srBytes = wire_bytes sr in
      if full batch bytes srBytes
      then andThen (flush env table batch s) (\<lambda>_. push_rows env secretKey table rows [sr] srBytes)
      else push_rows env secretKey table rows (batch @ [sr]) (bytes + srBytes) s)"

definition push_table :: "'w push_env \<Rightarrow> string \<Rightarrow> 'w sender \<Rightarrow> (push_error + unit) \<times> 'w sender" where
  "push_table env table s =
     (case (pe_query env table True, pe_query env table False) of
        (Some updated, Some undated) \<Rightarrow>
          (let rows = fst (push_batch table (pe_since env) updated) @ fst (push_batch table (pe_since env) undated) in
           andThen (if table = ''Memory'' \<and> pendingRetries s \<noteq> [] then select_retries env rows s else (Inr rows, s)) (\<lambda>rows s1.
             if rows = [] then (Inr (), s1)
             else (case pe_secretKey env of
                 None \<Rightarrow> (Inl KeyUnavailable, s1)
               | Some k \<Rightarrow> push_rows env k table rows [] 0 s1)))
      | _ \<Rightarrow> (Inl QueryFailed, s))"

section \<open>The run and its cursor\<close>

definition TABLES :: "string list" where "TABLES = [''Memory'', ''Soul'', ''Agent'', ''Relationship'']"

definition push_generic :: "'w push_env \<Rightarrow> 'w sender \<Rightarrow> (push_error + unit) \<times> 'w sender" where
  "push_generic env s = andThen (loadPendingRetries env s) (\<lambda>_. each (push_table env) TABLES)"

definition totalMerged :: "'w sender \<Rightarrow> int" where "totalMerged s = (\<Sum>(batch, res) \<leftarrow> sent s. oc_merged res)"
definition totalSkipped :: "'w sender \<Rightarrow> int" where "totalSkipped s = (\<Sum>(batch, res) \<leftarrow> sent s. oc_skipped res)"

text \<open>Whether the run persists its cursor: \<open>presence\<close> is the number of Presence batches sent, or \<open>None\<close> when that part failed, and
  \<open>pingOk\<close> whether the ping of an idle run was answered.\<close>

definition stampLocalContact :: "'w push_env \<Rightarrow> nat option \<Rightarrow> bool \<Rightarrow> 'w sender \<Rightarrow> bool \<times> 'w sender" where
  "stampLocalContact env presence pingOk s =
     (case push_generic env s of
        (Inl e, s') \<Rightarrow> (False, s')
      | (Inr _, s') \<Rightarrow>
          ((case presence of
              None \<Rightarrow> 0 < length (sent s')
            | Some n \<Rightarrow> if length (sent s') + n = 0 then pingOk else True), s'))"

end
