(* ===== verification/FedOwed.thy ===== *)
theory FedOwed
  imports FedSync
begin

text \<open>
  The obligations of a sender (\<open>FedSync\<close>): what each operation keeps of the retry table, the queue and the targets, and that the cursor
  passes no Memory row that is still owed without a pending row that stands.
\<close>

section \<open>Sequences of calls\<close>

lemma andThen_Inr: "andThen m f = (Inr y, s') \<longleftrightarrow> (\<exists>x s. m = (Inr x, s) \<and> f x s = (Inr y, s'))"
  by (auto simp: andThen_def split: prod.splits sum.splits)

lemma andThen_keeps:
  assumes "P (snd m)" "\<And>x s. m = (Inr x, s) \<Longrightarrow> P s \<Longrightarrow> P (snd (f x s))"
  shows "P (snd (andThen m f))"
  using assms by (cases m) (auto simp: andThen_def split: sum.splits)

lemma each_keeps:
  assumes "\<And>x s. x \<in> set xs \<Longrightarrow> P s \<Longrightarrow> P (snd (f x s))" "P s"
  shows "P (snd (each f xs s))"
  using assms
proof (induction xs arbitrary: s)
  case (Cons x xs)
  show ?case unfolding each.simps
  proof (rule andThen_keeps)
    show "P (snd (f x s))" using Cons.prems by simp
    fix y t
    assume "P t"
    then show "P (snd (each f xs t))" using Cons.IH Cons.prems(1) by simp
  qed
qed simp

lemma faults_self: "\<exists>fs. s = s\<lparr>opsFaults := fs\<rparr>"
  by (rule exI [of _ "opsFaults s"]) simp

lemma ops_read_state: "\<exists>fs. snd (ops_read f s) = s\<lparr>opsFaults := fs\<rparr>"
  by (auto simp: ops_read_def next_fault_def intro: faults_self split: list.splits ops_fault.splits)

lemma ops_read_Inr: "ops_read f s = (Inr x, s') \<Longrightarrow> x = f s' \<and> (\<exists>fs. s' = s\<lparr>opsFaults := fs\<rparr>)"
  using ops_read_state [of f s] by (auto simp: ops_read_def split: prod.splits ops_fault.splits)

lemma confirm_state: "\<exists>fs. snd (confirmRetryRow rec s) = s\<lparr>opsFaults := fs\<rparr>"
  unfolding confirmRetryRow_def
proof (rule andThen_keeps [where P = "\<lambda>t. \<exists>fs. t = s\<lparr>opsFaults := fs\<rparr>"])
  show "\<exists>fs. snd (ops_read (\<lambda>s. map_of (retryTable s) (getp rec ''id'')) s) = s\<lparr>opsFaults := fs\<rparr>" by (rule ops_read_state)
qed (auto simp: Let_def split: option.splits)

lemma put_row_faults [simp]: "put_row rec (s\<lparr>opsFaults := fs\<rparr>) = (put_row rec s)\<lparr>opsFaults := fs\<rparr>"
  by (simp add: put_row_def)

lemma next_fault_state: "\<exists>fs. snd (next_fault s) = s\<lparr>opsFaults := fs\<rparr>"
  by (auto simp: next_fault_def intro: faults_self split: list.splits)

text \<open>A write leaves the table as it was or with the row merged; one that succeeds, with the row merged.\<close>

lemma write_state:
  "(\<exists>fs. snd (writeRetryRow operation rec s) = (put_row rec s)\<lparr>opsFaults := fs\<rparr>) \<or>
   (isl (fst (writeRetryRow operation rec s)) \<and> (\<exists>fs. snd (writeRetryRow operation rec s) = s\<lparr>opsFaults := fs\<rparr>))"
proof -
  obtain f t where f: "next_fault s = (f, t)" by fastforce
  obtain fs where t: "t = s\<lparr>opsFaults := fs\<rparr>" using next_fault_state [of s] f by auto
  obtain fs' where c: "snd (confirmRetryRow rec (put_row rec t)) = (put_row rec t)\<lparr>opsFaults := fs'\<rparr>" using confirm_state by blast
  then have c': "snd (confirmRetryRow rec (put_row rec t)) = (put_row rec s)\<lparr>opsFaults := fs'\<rparr>" by (simp add: t)
  show ?thesis
    using c' unfolding writeRetryRow_def f by (auto simp: t split: ops_fault.splits)
qed

lemma write_keeps:
  assumes "P s" "P (put_row rec s)" "\<And>s fs. P s \<Longrightarrow> P (s\<lparr>opsFaults := fs\<rparr>)"
  shows "P (snd (writeRetryRow operation rec s))"
  using write_state [of operation rec s] assms by (metis (no_types))

lemma write_Inr: "writeRetryRow operation rec s = (Inr u, s') \<Longrightarrow> \<exists>fs. s' = (put_row rec s)\<lparr>opsFaults := fs\<rparr>"
  using write_state [of operation rec s] by auto

section \<open>Rows of the table, the queue and the targets\<close>

definition sound_rec :: "jobj \<Rightarrow> bool" where
  "sound_rec rec \<longleftrightarrow> (\<forall>stored. retryRowMalformedness (upserted stored rec) = None)"

definition offer_rec :: "jobj \<Rightarrow> bool" where
  "offer_rec rec \<longleftrightarrow> sound_rec rec \<and> (\<forall>stored. retryOfferProblem ''Memory'' (upserted stored rec) = None) \<and>
     retryOfferProblem ''Memory'' rec = None"

lemma offer_malformedness: "retryOfferProblem table row = None \<Longrightarrow> retryRowMalformedness row = None"
  by (rule offer_row(9))

lemma pending_row_own:
  assumes "pending_row p i reason n (upserted None rec)" "distinct (map fst rec)"
  shows "pending_row p i reason n rec"
proof -
  have "getp (spread [] rec) f = getp rec f" for f
    using getp_spread [OF assms(2), of "[]" f] by (cases "map_of rec f") (auto simp: getp_def has_own.simps simp del: has_own_Obj)
  then show ?thesis using assms(1) by (simp add: pending_row_def upserted_def)
qed

lemma refusal_rec:
  assumes "retryRowForRefusal peer i reason now prior reserved = Inr rec" "reason \<in> set MEMORY_PENDING_REASONS"
  shows "offer_rec rec" "getp rec ''id'' = Str (key_text peer (Str ''Memory'') i)"
proof -
  have d: "distinct (map fst rec)"
    using assms(1) unfolding retryRowForRefusal_def cleared_eq by (auto simp: bind_sum_Inr)
  note row = refusal_row [OF assms(1)]
  note own = pending_row_own [OF row d]
  show "offer_rec rec"
    unfolding offer_rec_def sound_rec_def using pending_row_kept [OF row assms(2)] pending_row_kept(2) [OF own assms(2)] by blast
  show "getp rec ''id'' = Str (key_text peer (Str ''Memory'') i)" using own by (simp add: pending_row_def)
qed

lemma attempt_rec:
  assumes "retryRowForAttempt row now = Inr rec" "retryOfferProblem ''Memory'' row = None"
  shows "offer_rec rec" "getp rec ''id'' = getp row ''id''"
proof -
  note old = offer_row [OF assms(2)]
  obtain reason where reason: "reason \<in> set MEMORY_PENDING_REASONS" "getp row ''lastReason'' = Str reason" using old(7) by blast
  have d: "distinct (map fst rec)"
    using assms(1) unfolding retryRowForAttempt_def cleared_eq reason(2) by (auto simp: bind_sum_Inr)
  note row = attempt_row [OF assms(1) reason(2)]
  note own = pending_row_own [OF row d]
  show "offer_rec rec"
    unfolding offer_rec_def sound_rec_def using pending_row_kept [OF row reason(1)] pending_row_kept(2) [OF own reason(1)] by blast
  show "getp rec ''id'' = getp row ''id''" using own old(2) by (simp add: pending_row_def)
qed

lemma terminal_rec:
  assumes "retryOfferProblem ''Memory'' row = None" "resolution \<in> set RETRY_RESOLUTIONS" "resolution \<noteq> ''retry_exhausted''"
  shows "sound_rec (terminalRetryRow row resolution now)" "getp (terminalRetryRow row resolution now) ''id'' = getp row ''id''"
proof -
  show "sound_rec (terminalRetryRow row resolution now)"
    unfolding sound_rec_def using terminal_row_kept(1) [OF assms] by blast
  have "''id'' \<notin> fst ` set (outcome_fields resolution now)" "''id'' \<in> set RETRY_ROW_FIELDS" by (simp_all add: RETRY_ROW_FIELDS_def)
  moreover have "distinct (map fst (outcome_fields resolution now))" by simp
  ultimately show "getp (terminalRetryRow row resolution now) ''id'' = getp row ''id''"
    unfolding terminalRetryRow_def getp_spread [OF \<open>distinct (map fst (outcome_fields resolution now))\<close>] has_own_dom
      getp_spread [OF distinct_picked] getp_picked
    by (simp only: if_False if_True) (simp split: if_splits)
qed

lemma set_update_subset: "set (AList.update k v al) \<subseteq> insert (k, v) (set al)"
  by (induction al) auto

lemma ball_update: "\<forall>x \<in> set al. P x \<Longrightarrow> P (k, v) \<Longrightarrow> \<forall>x \<in> set (AList.update k v al). P x"
  using set_update_subset [of k v al] by (auto dest: subsetD)

definition broken :: "(js \<times> jobj) list \<Rightarrow> string \<Rightarrow> bool" where
  "broken table k \<longleftrightarrow> (\<exists>row \<in> snd ` set table. getp row ''id'' = Str k \<and> retryRowMalformedness row \<noteq> None)"

definition stands :: "string \<Rightarrow> 'w sender \<Rightarrow> bool" where
  "stands k s \<longleftrightarrow> (\<exists>row. map_of (retryTable s) (Str k) = Some row \<and> retryOfferProblem ''Memory'' row = None)"

definition table_ok :: "(js \<times> jobj) list \<Rightarrow> (js \<times> jobj) list \<Rightarrow> bool" where
  "table_ok t0 table \<longleftrightarrow> (\<forall>(k, row) \<in> set table. retryRowMalformedness row \<noteq> None \<longrightarrow> row \<in> snd ` set t0)"

definition queue_ok :: "(js \<times> jobj) list \<Rightarrow> (js \<times> jobj) list \<Rightarrow> bool" where
  "queue_ok t0 queue \<longleftrightarrow>
     (\<forall>(k, row) \<in> set queue. getp row ''id'' = k \<and>
        (retryOfferProblem ''Memory'' row \<noteq> None \<longrightarrow> row \<in> snd ` set t0 \<and> retryRowMalformedness row \<noteq> None))"

definition targets_ok :: "(string \<times> jobj) list \<Rightarrow> bool" where
  "targets_ok targets \<longleftrightarrow> (\<forall>(i, row) \<in> set targets. retryOfferProblem ''Memory'' row = None)"

definition sender_inv :: "(js \<times> jobj) list \<Rightarrow> 'w sender \<Rightarrow> bool" where
  "sender_inv t0 s \<longleftrightarrow> table_ok t0 (retryTable s) \<and> queue_ok t0 (pendingRetries s) \<and> targets_ok (reservationTargets s)"

lemma sender_inv_others [simp]:
  "sender_inv t0 (s\<lparr>opsFaults := a\<rparr>) = sender_inv t0 s" "sender_inv t0 (s\<lparr>clockReads := b\<rparr>) = sender_inv t0 s"
  "sender_inv t0 (s\<lparr>hubState := c\<rparr>) = sender_inv t0 s" "sender_inv t0 (s\<lparr>sent := d\<rparr>) = sender_inv t0 s"
  "sender_inv t0 (s\<lparr>reservedOffers := e\<rparr>) = sender_inv t0 s" "sender_inv t0 (s\<lparr>reportedMalformed := f\<rparr>) = sender_inv t0 s"
  by (simp_all add: sender_inv_def)

lemma stands_others [simp]:
  "stands k (s\<lparr>opsFaults := a\<rparr>) = stands k s" "stands k (s\<lparr>clockReads := b\<rparr>) = stands k s"
  "stands k (s\<lparr>hubState := c\<rparr>) = stands k s" "stands k (s\<lparr>sent := d\<rparr>) = stands k s"
  "stands k (s\<lparr>reservedOffers := e\<rparr>) = stands k s" "stands k (s\<lparr>reportedMalformed := f\<rparr>) = stands k s"
  "stands k (s\<lparr>pendingRetries := g\<rparr>) = stands k s" "stands k (s\<lparr>reservationTargets := h\<rparr>) = stands k s"
  by (simp_all add: stands_def)

lemma table_ok_update: "table_ok t0 table \<Longrightarrow> retryRowMalformedness row = None \<Longrightarrow> table_ok t0 (AList.update k row table)"
  unfolding table_ok_def by (rule ball_update) simp_all

lemma queue_ok_update:
  "queue_ok t0 queue \<Longrightarrow> retryOfferProblem ''Memory'' row = None \<Longrightarrow> queue_ok t0 (AList.update (getp row ''id'') row queue)"
  unfolding queue_ok_def by (rule ball_update) simp_all

lemma queue_ok_delete: "queue_ok t0 queue \<Longrightarrow> queue_ok t0 (AList.delete k queue)"
  by (auto simp: queue_ok_def AList.delete_eq)

lemma targets_ok_update: "targets_ok targets \<Longrightarrow> retryOfferProblem ''Memory'' row = None \<Longrightarrow> targets_ok (AList.update i row targets)"
  unfolding targets_ok_def by (rule ball_update) simp_all

lemma targets_ok_delete: "targets_ok targets \<Longrightarrow> targets_ok (AList.delete i targets)"
  by (auto simp: targets_ok_def AList.delete_eq)

lemma put_inv: "sender_inv t0 s \<Longrightarrow> sound_rec rec \<Longrightarrow> sender_inv t0 (put_row rec s)"
  by (simp add: sender_inv_def put_row_def sound_rec_def table_ok_update)

lemma put_stands_self: "offer_rec rec \<Longrightarrow> getp rec ''id'' = Str k \<Longrightarrow> stands k (put_row rec s)"
  by (simp add: stands_def put_row_def offer_rec_def update_conv')

lemma put_stands_other: "getp rec ''id'' \<noteq> Str k \<Longrightarrow> stands k (put_row rec s) = stands k s"
  by (simp add: stands_def put_row_def update_conv')

lemma put_stands: "offer_rec rec \<Longrightarrow> stands k s \<Longrightarrow> stands k (put_row rec s)"
  by (cases "getp rec ''id'' = Str k") (simp_all add: put_stands_self put_stands_other)

lemma queue_prior:
  assumes "sender_inv t0 s" "map_of (pendingRetries s) k = Some row"
  shows "getp row ''id'' = k" "retryOfferProblem ''Memory'' row \<noteq> None \<Longrightarrow> row \<in> snd ` set t0 \<and> retryRowMalformedness row \<noteq> None"
  using assms by (auto simp: sender_inv_def queue_ok_def dest!: map_of_SomeD)

section \<open>What each operation keeps\<close>

lemma retire_keeps:
  assumes "sender_inv t0 s" "retryOfferProblem ''Memory'' row = None" "resolution \<in> set RETRY_RESOLUTIONS" "resolution \<noteq> ''retry_exhausted''"
  shows "sender_inv t0 (snd (retireRetry row resolution now s))"
    "getp row ''id'' \<noteq> Str k \<Longrightarrow> stands k s \<Longrightarrow> stands k (snd (retireRetry row resolution now s))"
proof -
  note rec = terminal_rec [OF assms(2-4), of now]
  have inv: "sender_inv t0 (snd (writeRetryRow Update (terminalRetryRow row resolution now) s))"
    by (rule write_keeps) (simp_all add: assms(1) put_inv rec(1))
  show "sender_inv t0 (snd (retireRetry row resolution now s))"
    unfolding retireRetry_def by (rule andThen_keeps [where P = "sender_inv t0", OF inv]) (simp add: sender_inv_def queue_ok_delete)
  assume k: "getp row ''id'' \<noteq> Str k" "stands k s"
  have "stands k (snd (writeRetryRow Update (terminalRetryRow row resolution now) s))"
    by (rule write_keeps) (simp_all add: k put_stands_other rec(2))
  then show "stands k (snd (retireRetry row resolution now s))" unfolding retireRetry_def by (rule andThen_keeps) simp
qed

lemma keep_pending_keeps:
  assumes "sender_inv t0 s" "reason \<in> set MEMORY_PENDING_REASONS"
  shows "sender_inv t0 (snd (keep_pending env now i reason prior reserved s))"
    "stands k s \<Longrightarrow> stands k (snd (keep_pending env now i reason prior reserved s))"
proof -
  have "sender_inv t0 (snd (keep_pending env now i reason prior reserved s)) \<and>
      (stands k s \<longrightarrow> stands k (snd (keep_pending env now i reason prior reserved s)))"
  proof (cases "retryRowForRefusal (pe_peer env) i reason now prior reserved")
    case (Inr row)
    note rec = refusal_rec [OF Inr assms(2)]
    have inv: "sender_inv t0 (snd (writeRetryRow Upsert row s))"
      by (rule write_keeps) (use rec(1) assms(1) in \<open>simp_all add: put_inv offer_rec_def\<close>)
    have one: "sender_inv t0 (snd (keep_pending env now i reason prior reserved s))"
      unfolding keep_pending_def Inr sum.case
      by (rule andThen_keeps [where P = "sender_inv t0", OF inv]) (use rec(1) in \<open>simp add: sender_inv_def queue_ok_update offer_rec_def\<close>)
    have "stands k (snd (keep_pending env now i reason prior reserved s))" if "stands k s"
    proof -
      have "stands k (snd (writeRetryRow Upsert row s))" by (rule write_keeps) (simp_all add: that put_stands rec(1))
      then show ?thesis unfolding keep_pending_def Inr sum.case by (rule andThen_keeps) simp
    qed
    with one show ?thesis by blast
  qed (simp add: keep_pending_def assms(1))
  then show "sender_inv t0 (snd (keep_pending env now i reason prior reserved s))"
    "stands k s \<Longrightarrow> stands k (snd (keep_pending env now i reason prior reserved s))" by blast+
qed

lemma keep_pending_Inr:
  assumes "keep_pending env now i reason prior reserved s = (Inr u, s')" "reason \<in> set MEMORY_PENDING_REASONS"
  shows "stands (key_text (pe_peer env) (Str ''Memory'') i) s'"
proof -
  obtain row t where row: "retryRowForRefusal (pe_peer env) i reason now prior reserved = Inr row" "writeRetryRow Upsert row s = (Inr (), t)"
    and s': "s' = t\<lparr>pendingRetries := AList.update (getp row ''id'') row (pendingRetries t)\<rparr>"
    using assms(1) by (auto simp: keep_pending_def andThen_Inr split: sum.splits)
  obtain fs where "t = (put_row row s)\<lparr>opsFaults := fs\<rparr>" using write_Inr [OF row(2)] by blast
  then show ?thesis using put_stands_self [OF refusal_rec [OF row(1) assms(2)]] by (simp add: s')
qed

definition stored_ok :: "(js \<times> jobj) list \<Rightarrow> (js \<times> jobj) list \<Rightarrow> bool" where
  "stored_ok t0 stored \<longleftrightarrow>
     (\<forall>(k, row) \<in> set stored. getp row ''id'' = k \<and> (retryRowMalformedness row \<noteq> None \<longrightarrow> row \<in> snd ` set t0))"

definition owed :: "outcomes \<Rightarrow> jobj \<Rightarrow> bool" where
  "owed res r \<longleftrightarrow> (case verdict_of res r of Undecided \<Rightarrow> True | RefusedFor reason \<Rightarrow> reason \<in> set MEMORY_RETRY_REASONS | NotRefused \<Rightarrow> False)"

lemma pending_reasons: "reason \<in> set MEMORY_RETRY_REASONS \<Longrightarrow> reason \<in> set MEMORY_PENDING_REASONS" "''retry_unknown'' \<in> set MEMORY_PENDING_REASONS"
  by (simp_all add: MEMORY_PENDING_REASONS_def)

lemma resolutions_known: "''refused_terminal'' \<in> set RETRY_RESOLUTIONS" "''merged'' \<in> set RETRY_RESOLUTIONS"
  "''source_deleted'' \<in> set RETRY_RESOLUTIONS" "''source_ineligible'' \<in> set RETRY_RESOLUTIONS"
  by (simp_all add: RETRY_RESOLUTIONS_def)

lemma report_others [simp]:
  "sender_inv t0 (reportMalformedRetryRow i s) = sender_inv t0 s" "stands k (reportMalformedRetryRow i s) = stands k s"
  "sent (reportMalformedRetryRow i s) = sent s"
  by (simp_all add: reportMalformedRetryRow_def)

lemma settle_keeps:
  assumes "sender_inv t0 s"
  shows "sender_inv t0 (snd (settle_record env now stored res r s))"
    "stands k s \<Longrightarrow> retry_key env (getp r ''id'') \<noteq> Inr k \<or> owed res r \<Longrightarrow> stands k (snd (settle_record env now stored res r s))"
proof -
  let ?s = "settle_record env now stored res r s"
  have "sender_inv t0 (snd ?s) \<and> (stands k s \<and> (retry_key env (getp r ''id'') \<noteq> Inr k \<or> owed res r) \<longrightarrow> stands k (snd ?s))"
  proof (cases "getp r ''table'' = Str ''Memory''")
    case True
    show ?thesis
    proof (cases "retry_key env (getp r ''id'')")
      case (Inr key)
      let ?t = "s\<lparr>reservedOffers := removeAll (Str key) (reservedOffers s)\<rparr>"
      let ?prior = "map_of (pendingRetries s) (Str key)"
      have inv: "sender_inv t0 ?t" using assms by simp
      have retire: "sender_inv t0 (snd (case ?prior of Some row \<Rightarrow> retireRetry row resolution now ?t | None \<Rightarrow> (Inr (), ?t))) \<and>
          (stands k s \<and> key \<noteq> k \<longrightarrow> stands k (snd (case ?prior of Some row \<Rightarrow> retireRetry row resolution now ?t | None \<Rightarrow> (Inr (), ?t))))"
        if "\<not> not_offerable ?prior" "resolution \<in> {''refused_terminal'', ''merged''}" for resolution
      proof (cases ?prior)
        case (Some row)
        have offer: "retryOfferProblem ''Memory'' row = None" using that(1) Some by (simp add: not_offerable_def)
        have res: "resolution \<in> set RETRY_RESOLUTIONS" "resolution \<noteq> ''retry_exhausted''" using that(2) resolutions_known by auto
        have "getp row ''id'' = Str key" by (rule queue_prior(1) [OF assms Some])
        then show ?thesis using retire_keeps [OF inv offer res] by (simp add: Some)
      qed (use inv in simp)
      show ?thesis
      proof (cases "is_malformed (map_of stored (Str key)) \<or> not_offerable ?prior")
        case False
        then have plain: "\<not> is_malformed (map_of stored (Str key))" "\<not> not_offerable ?prior" by blast+
        show ?thesis
        proof (cases "verdict_of res r")
          case Undecided
          show ?thesis
            using keep_pending_keeps [OF inv pending_reasons(2)] True Inr plain Undecided by (simp add: settle_record_def Let_def)
        next
          case (RefusedFor reason)
          show ?thesis
          proof (cases "reason \<in> set MEMORY_RETRY_REASONS")
            case retryable: True
            show ?thesis
              using keep_pending_keeps [OF inv pending_reasons(1) [OF retryable]] True Inr plain RefusedFor retryable
              by (simp add: settle_record_def Let_def)
          next
            case False
            then have "\<not> owed res r" by (simp add: owed_def RefusedFor)
            then show ?thesis
              using retire [OF plain(2), of "''refused_terminal''"] True Inr plain RefusedFor False by (simp add: settle_record_def Let_def)
          qed
        next
          case NotRefused
          then have "\<not> owed res r" by (simp add: owed_def)
          then show ?thesis
            using retire [OF plain(2), of "''merged''"] True Inr plain NotRefused by (simp add: settle_record_def Let_def)
        qed
      qed (use True Inr assms in \<open>auto simp: settle_record_def Let_def\<close>)
    qed (use True assms in \<open>simp add: settle_record_def\<close>)
  qed (use assms in \<open>simp add: settle_record_def\<close>)
  then show "sender_inv t0 (snd ?s)"
    "stands k s \<Longrightarrow> retry_key env (getp r ''id'') \<noteq> Inr k \<or> owed res r \<Longrightarrow> stands k (snd ?s)" by blast+
qed

lemma retry_key_Inr: "retry_key env i = Inr k \<Longrightarrow> retryEntryKey (pe_peer env) (Str ''Memory'') i = Inr k"
  by (simp add: retry_key_def split: sum.splits)

lemma retry_key_text: "retry_key env i = Inr k \<Longrightarrow> k = key_text (pe_peer env) (Str ''Memory'') i"
  by (drule retry_key_Inr) (simp add: retryEntryKey_Inr)

text \<open>A record the hub left undecided or refused for a reason that may clear has a standing row afterwards, or a malformed one was
  stored.\<close>

lemma settle_owed:
  assumes "settle_record env now stored res r s = (Inr u, s')" "owed res r" "getp r ''table'' = Str ''Memory''" "sender_inv t0 s"
    "stored_ok t0 stored"
  obtains k where "retry_key env (getp r ''id'') = Inr k" "stands k s' \<or> broken t0 k"
proof -
  obtain key where key: "retry_key env (getp r ''id'') = Inr key"
    using assms(1,3) by (auto simp: settle_record_def split: sum.splits)
  let ?prior = "map_of (pendingRetries s) (Str key)"
  consider (stored) "is_malformed (map_of stored (Str key))" | (prior) "not_offerable ?prior"
    | (kept) "\<not> is_malformed (map_of stored (Str key))" "\<not> not_offerable ?prior" by blast
  then have "stands key s' \<or> broken t0 key"
  proof cases
    case stored
    then obtain row where "(Str key, row) \<in> set stored" "retryRowMalformedness row \<noteq> None"
      by (auto simp: is_malformed_def split: option.splits dest: map_of_SomeD)
    then have "getp row ''id'' = Str key" "row \<in> snd ` set t0" "retryRowMalformedness row \<noteq> None"
      using assms(5) unfolding stored_ok_def by blast+
    then show ?thesis unfolding broken_def by blast
  next
    case prior
    then obtain row where row: "?prior = Some row" "retryOfferProblem ''Memory'' row \<noteq> None"
      by (auto simp: not_offerable_def split: option.splits)
    then show ?thesis using queue_prior [OF assms(4) row(1)] unfolding broken_def by blast
  next
    case kept
    obtain reason reserved t where "keep_pending env now (getp r ''id'') reason ?prior reserved t = (Inr u, s')"
        "reason \<in> set MEMORY_PENDING_REASONS"
      using assms(1-3) key kept pending_reasons
      by (cases "verdict_of res r") (auto simp: settle_record_def owed_def Let_def)
    then show ?thesis using keep_pending_Inr retry_key_text [OF key] by blast
  qed
  then show ?thesis using that key by blast
qed

section \<open>A batch\<close>

lemma in_map_filter: "x \<in> set (List.map_filter f xs) \<longleftrightarrow> (\<exists>y \<in> set xs. f y = Some x)"
  by (induction xs) (auto simp: List.map_filter_simps split: option.splits)

lemma owed_cong: "record_key p = record_key q \<Longrightarrow> owed res p = owed res q"
  by (simp add: owed_def verdict_of_def)

lemma stored_rows_ok:
  assumes "table_ok t0 table"
  shows "stored_ok t0 (stored_rows keys table)"
proof -
  let ?step = "\<lambda>row. if is_string_value (getp row ''id'') then AList.update (getp row ''id'') row else id"
  have folded: "stored_ok t0 (fold ?step rows acc)"
    if "stored_ok t0 acc" "\<forall>row \<in> set rows. retryRowMalformedness row \<noteq> None \<longrightarrow> row \<in> snd ` set t0" for rows acc
    using that
  proof (induction rows arbitrary: acc)
    case (Cons row rows)
    have "stored_ok t0 (AList.update (getp row ''id'') row acc)"
      using Cons.prems unfolding stored_ok_def by (intro ball_update) simp_all
    then have "stored_ok t0 (?step row acc)" using Cons.prems(1) by simp
    then show ?case using Cons by simp
  qed simp
  have rows: "\<forall>row \<in> set (List.map_filter (\<lambda>k. map_of table (Str k)) (remdups keys)).
      retryRowMalformedness row \<noteq> None \<longrightarrow> row \<in> snd ` set t0"
  proof
    fix row
    assume "row \<in> set (List.map_filter (\<lambda>k. map_of table (Str k)) (remdups keys))"
    then obtain k where "(Str k, row) \<in> set table" by (auto simp: in_map_filter dest: map_of_SomeD)
    then show "retryRowMalformedness row \<noteq> None \<longrightarrow> row \<in> snd ` set t0" using assms unfolding table_ok_def by blast
  qed
  show ?thesis unfolding stored_rows_def by (rule folded [OF _ rows]) (simp add: stored_ok_def)
qed

lemma each_settle:
  fixes s s' :: "'w sender"
  assumes "each (settle_record env now stored res) rs s = (Inr u, s')" "sender_inv t0 s" "stored_ok t0 stored"
    "\<forall>r \<in> set rs. getp r ''table'' = Str ''Memory''" "r \<in> set rs" "owed res r"
  shows "\<exists>k. retry_key env (getp r ''id'') = Inr k \<and> (stands k s' \<or> broken t0 k)"
  using assms
proof (induction rs arbitrary: s)
  case (Cons q rs)
  obtain t where q: "settle_record env now stored res q s = (Inr (), t)" and rest: "each (settle_record env now stored res) rs t = (Inr u, s')"
    using Cons.prems(1) by (auto simp: andThen_Inr)
  have inv: "sender_inv t0 t" using settle_keeps(1) [OF Cons.prems(2), of env now stored res q] q by simp
  show ?case
  proof (cases "r \<in> set rs")
    case True
    then show ?thesis using Cons.IH [OF rest inv Cons.prems(3)] Cons.prems(4,6) by simp
  next
    case False
    then have r: "r = q" using Cons.prems(5) by simp
    obtain k where k: "retry_key env (getp q ''id'') = Inr k" "stands k t \<or> broken t0 k"
      using settle_owed [OF q, of t0] Cons.prems(2-4,6) r by auto
    have "stands k s'" if "stands k t"
    proof -
      have "sender_inv t0 (snd (each (settle_record env now stored res) rs t)) \<and> stands k (snd (each (settle_record env now stored res) rs t))"
      proof (rule each_keeps [where P = "\<lambda>s :: 'w sender. sender_inv t0 s \<and> stands k s"])
        fix p and s :: "'w sender"
        assume p: "p \<in> set rs" and s: "sender_inv t0 s \<and> stands k s"
        have "retry_key env (getp p ''id'') \<noteq> Inr k \<or> owed res p"
        proof (cases "retry_key env (getp p ''id'') = Inr k")
          case True
          then have "getp p ''id'' = getp q ''id''" using retryEntryKey_inj [OF retry_key_Inr [OF True] retry_key_Inr [OF k(1)]] by simp
          then have "record_key p = record_key q" using Cons.prems(4) p by (simp add: record_key_def)
          then have "owed res p = owed res q" by (rule owed_cong)
          then show ?thesis using Cons.prems(6) r by simp
        qed simp
        then show "sender_inv t0 (snd (settle_record env now stored res p s)) \<and> stands k (snd (settle_record env now stored res p s))"
          using settle_keeps s by blast
      qed (use inv that in simp)
      then show ?thesis by (simp add: rest)
    qed
    then show ?thesis using k r by blast
  qed
qed simp

lemma nowIso_snd [simp]: "nowIso env s = (now, s') \<Longrightarrow> s' = s\<lparr>clockReads := Suc (clockReads s)\<rparr>"
  by (simp add: nowIso_def)

lemma read_rows_Inr:
  "readStoredRetryRows keys s = (Inr rows, s') \<Longrightarrow> (rows = [] \<or> rows = stored_rows keys (retryTable s)) \<and> (\<exists>fs. s' = s\<lparr>opsFaults := fs\<rparr>)"
proof -
  assume "readStoredRetryRows keys s = (Inr rows, s')"
  then show ?thesis by (auto simp: readStoredRetryRows_def intro: faults_self split: if_splits dest!: ops_read_Inr)
qed

lemma read_rows_keeps:
  assumes "\<And>fs. P (s\<lparr>opsFaults := fs\<rparr>)" "P s"
  shows "P (snd (readStoredRetryRows keys s))"
proof -
  obtain fs where "snd (ops_read (\<lambda>s. stored_rows keys (retryTable s)) s) = s\<lparr>opsFaults := fs\<rparr>" using ops_read_state by blast
  then show ?thesis using assms by (simp add: readStoredRetryRows_def)
qed

text \<open>A predicate that every step of a loop keeps is kept by the whole.\<close>

lemma apply_keeps:
  assumes "P s" "\<And>s fs. P s \<Longrightarrow> P (s\<lparr>opsFaults := fs\<rparr>)" "\<And>s n. P s \<Longrightarrow> P (s\<lparr>clockReads := n\<rparr>)"
    "\<And>now stored r s. r \<in> set batch \<Longrightarrow> P s \<Longrightarrow> P (snd (settle_record env now stored res r s))"
  shows "P (snd (applyMemoryOutcomes env batch res s))"
proof -
  let ?s = "s\<lparr>clockReads := Suc (clockReads s)\<rparr>"
  have s: "P ?s" using assms(1,3) by blast
  show ?thesis
  proof (cases "memory_keys env batch")
    case (Inr keys)
    have "P (snd (andThen (readStoredRetryRows keys ?s) (\<lambda>storedRows. each (settle_record env (pe_iso env (clockReads s)) storedRows res) batch)))"
    proof (rule andThen_keeps)
      show "P (snd (readStoredRetryRows keys ?s))" by (rule read_rows_keeps) (use s assms(2) in blast)+
    qed (rule each_keeps, use assms(4) in blast, assumption)
    then show ?thesis by (simp add: applyMemoryOutcomes_def nowIso_def Inr)
  qed (use s in \<open>simp add: applyMemoryOutcomes_def nowIso_def\<close>)
qed

lemma apply_owed:
  assumes "applyMemoryOutcomes env batch res s = (Inr u, s')" "sender_inv t0 s" "\<forall>r \<in> set batch. getp r ''table'' = Str ''Memory''"
    "r \<in> set batch" "owed res r"
  shows "\<exists>k. retry_key env (getp r ''id'') = Inr k \<and> (stands k s' \<or> broken t0 k)"
proof -
  let ?s = "s\<lparr>clockReads := Suc (clockReads s)\<rparr>"
  obtain keys stored t where stored: "readStoredRetryRows keys ?s = (Inr stored, t)"
      and rest: "each (settle_record env (pe_iso env (clockReads s)) stored res) batch t = (Inr u, s')"
    using assms(1) by (auto simp: applyMemoryOutcomes_def nowIso_def andThen_Inr split: sum.splits)
  obtain fs where t: "stored = [] \<or> stored = stored_rows keys (retryTable ?s)" "t = ?s\<lparr>opsFaults := fs\<rparr>"
    using read_rows_Inr [OF stored] by blast
  have "stored_ok t0 stored"
    using t(1)
  proof
    assume "stored = stored_rows keys (retryTable ?s)"
    moreover have "table_ok t0 (retryTable ?s)" using assms(2) by (simp add: sender_inv_def)
    ultimately show ?thesis using stored_rows_ok by simp
  qed (simp add: stored_ok_def)
  then show ?thesis using each_settle [OF rest] assms(2-5) t(2) by simp
qed

lemma reserve_record_keeps:
  assumes "sender_inv t0 s"
  shows "sender_inv t0 (snd (reserve_record now r s))" "stands k s \<Longrightarrow> stands k (snd (reserve_record now r s))"
proof -
  let ?i = "js_String (getp r ''id'')"
  have "sender_inv t0 (snd (reserve_record now r s)) \<and> (stands k s \<longrightarrow> stands k (snd (reserve_record now r s)))"
  proof (cases "getp r ''table'' = Str ''Memory'' \<and> map_of (reservationTargets s) ?i \<noteq> None")
    case True
    then obtain row where row: "map_of (reservationTargets s) ?i = Some row" "getp r ''table'' = Str ''Memory''" by blast
    have offer: "retryOfferProblem ''Memory'' row = None"
      using assms row(1) by (auto simp: sender_inv_def targets_ok_def dest!: map_of_SomeD)
    let ?s = "s\<lparr>reservationTargets := AList.delete ?i (reservationTargets s)\<rparr>"
    have inv: "sender_inv t0 ?s" using assms by (simp add: sender_inv_def targets_ok_delete)
    show ?thesis
    proof (cases "retryRowForAttempt row now")
      case (Inr rec)
      note rec = attempt_rec [OF Inr offer]
      have two: "sender_inv t0 (snd (writeRetryRow Upsert rec ?s)) \<and> (stands k s \<longrightarrow> stands k (snd (writeRetryRow Upsert rec ?s)))"
        by (rule write_keeps [where P = "\<lambda>t. sender_inv t0 t \<and> (stands k s \<longrightarrow> stands k t)"])
          (use inv rec(1) in \<open>auto simp: put_inv put_stands offer_rec_def\<close>)
      have eq: "reserve_record now r s = andThen (writeRetryRow Upsert rec ?s) (\<lambda>_ s.
          (Inr (), s\<lparr>pendingRetries := AList.update (getp rec ''id'') rec (pendingRetries s),
            reservedOffers := List.insert (getp rec ''id'') (reservedOffers s)\<rparr>))"
        by (simp add: reserve_record_def row Inr Let_def)
      show ?thesis
        unfolding eq
        by (rule andThen_keeps [where P = "\<lambda>t. sender_inv t0 t \<and> (stands k s \<longrightarrow> stands k t)", OF two])
          (use rec(1) in \<open>simp add: sender_inv_def queue_ok_update offer_rec_def stands_def\<close>)
    qed (use row inv in \<open>simp add: reserve_record_def Let_def stands_def\<close>)
  qed (use assms in \<open>auto simp: reserve_record_def\<close>)
  then show "sender_inv t0 (snd (reserve_record now r s))" "stands k s \<Longrightarrow> stands k (snd (reserve_record now r s))" by blast+
qed

lemma reserve_keeps:
  assumes "P s" "\<And>s n. P s \<Longrightarrow> P (s\<lparr>clockReads := n\<rparr>)" "\<And>now r s. P s \<Longrightarrow> P (snd (reserve_record now r s))"
  shows "P (snd (reserveBatchAttempts env batch s))"
  unfolding reserveBatchAttempts_def nowIso_def Let_def prod.case
  by (rule each_keeps) (use assms in blast)+

section \<open>What is sent\<close>

text \<open>No operation of the retry table touches the log of sent batches.\<close>

lemma write_sent [simp]: "sent (snd (writeRetryRow operation rec s)) = sent s"
  by (rule write_keeps [where P = "\<lambda>t. sent t = sent s"]) (simp_all add: put_row_def)

lemma retire_sent [simp]: "sent (snd (retireRetry row resolution now s)) = sent s"
  unfolding retireRetry_def by (rule andThen_keeps [where P = "\<lambda>t. sent t = sent s"]) simp_all

lemma keep_pending_sent [simp]: "sent (snd (keep_pending env now i reason prior reserved s)) = sent s"
proof (cases "retryRowForRefusal (pe_peer env) i reason now prior reserved")
  case (Inr row)
  show ?thesis
    unfolding keep_pending_def Inr sum.case by (rule andThen_keeps [where P = "\<lambda>t. sent t = sent s"]) simp_all
qed (simp add: keep_pending_def)

lemma settle_sent [simp]: "sent (snd (settle_record env now stored res r s)) = sent s"
  unfolding settle_record_def
  by (simp add: Let_def split: sum.splits verdict.splits option.splits)

lemma reserve_sent [simp]: "sent (snd (reserve_record now r s)) = sent s"
proof (cases "map_of (reservationTargets s) (js_String (getp r ''id''))")
  case (Some row)
  show ?thesis
  proof (cases "retryRowForAttempt row now")
    case (Inr rec)
    let ?s = "s\<lparr>reservationTargets := AList.delete (js_String (getp r ''id'')) (reservationTargets s)\<rparr>"
    have w: "sent (snd (writeRetryRow Upsert rec ?s)) = sent s" by simp
    have "sent (snd (andThen (writeRetryRow Upsert rec ?s) (\<lambda>_ s.
        (Inr (), s\<lparr>pendingRetries := AList.update (getp rec ''id'') rec (pendingRetries s),
          reservedOffers := List.insert (getp rec ''id'') (reservedOffers s)\<rparr>)))) = sent s"
      by (rule andThen_keeps [where P = "\<lambda>t. sent t = sent s", OF w]) simp
    then show ?thesis by (simp add: reserve_record_def Some Inr Let_def)
  qed (simp add: reserve_record_def Some Let_def)
qed (simp add: reserve_record_def)

lemma apply_sent [simp]: "sent (snd (applyMemoryOutcomes env batch res s)) = sent s"
  by (rule apply_keeps [where P = "\<lambda>t. sent t = sent s"]) simp_all

lemma reserve_batch_sent [simp]: "sent (snd (reserveBatchAttempts env batch s)) = sent s"
  by (rule reserve_keeps [where P = "\<lambda>t. sent t = sent s"]) simp_all

text \<open>A flush that succeeds logs its batch with the answer; one that fails logs nothing.\<close>

lemma flush_Inr:
  assumes "flush env table batch s = (Inr u, s')"
  obtains s1 res w s3 where
    "(if table = ''Memory'' then reserveBatchAttempts env batch s else (Inr (), s)) = (Inr (), s1)"
    "sendBatch (pe_post env) False batch (hubState s1) = (Inr res, w)"
    "(if table = ''Memory'' then applyMemoryOutcomes env batch res (s1\<lparr>hubState := w\<rparr>) else (Inr (), s1\<lparr>hubState := w\<rparr>)) = (Inr (), s3)"
    "s' = s3\<lparr>sent := sent s3 @ [(batch, res)]\<rparr>" "sent s3 = sent s"
proof -
  obtain s1 where s1: "(if table = ''Memory'' then reserveBatchAttempts env batch s else (Inr (), s)) = (Inr (), s1)"
      and rest: "(case sendBatch (pe_post env) False batch (hubState s1) of
         (Inl e, w) \<Rightarrow> (Inl (SendFailed e), s1\<lparr>hubState := w\<rparr>)
       | (Inr res, w) \<Rightarrow>
           (let s2 = s1\<lparr>hubState := w\<rparr> in
            andThen (if table = ''Memory'' then applyMemoryOutcomes env batch res s2 else (Inr (), s2)) (\<lambda>_ s3.
              (Inr (), s3\<lparr>sent := sent s3 @ [(batch, res)]\<rparr>)))) = (Inr u, s')"
    using assms unfolding flush_def andThen_Inr by auto
  obtain res w where res: "sendBatch (pe_post env) False batch (hubState s1) = (Inr res, w)"
    using rest by (auto split: prod.splits sum.splits)
  obtain s3 where s3: "(if table = ''Memory'' then applyMemoryOutcomes env batch res (s1\<lparr>hubState := w\<rparr>) else (Inr (), s1\<lparr>hubState := w\<rparr>)) = (Inr (), s3)"
      "s' = s3\<lparr>sent := sent s3 @ [(batch, res)]\<rparr>"
    using rest unfolding res by (auto simp: Let_def andThen_Inr)
  have "sent (snd (if table = ''Memory'' then reserveBatchAttempts env batch s else (Inr (), s))) = sent s" by simp
  then have "sent s1 = sent s" by (simp only: s1 snd_conv)
  moreover have "sent (snd (if table = ''Memory'' then applyMemoryOutcomes env batch res (s1\<lparr>hubState := w\<rparr>)
      else (Inr (), s1\<lparr>hubState := w\<rparr>))) = sent s1" by simp
  ultimately have "sent s3 = sent s" by (simp only: s3(1) snd_conv)
  then show ?thesis using that s1 res s3 by blast
qed

lemma flush_keeps:
  assumes "P s" "\<And>s fs. P s \<Longrightarrow> P (s\<lparr>opsFaults := fs\<rparr>)" "\<And>s n. P s \<Longrightarrow> P (s\<lparr>clockReads := n\<rparr>)"
    "\<And>s. P s \<Longrightarrow> P (s\<lparr>hubState := snd (sendBatch (pe_post env) False batch (hubState s))\<rparr>)" "\<And>s l. P s \<Longrightarrow> P (s\<lparr>sent := l\<rparr>)"
    "\<And>now r s. table = ''Memory'' \<Longrightarrow> P s \<Longrightarrow> P (snd (reserve_record now r s))"
    "\<And>now stored res r s. table = ''Memory'' \<Longrightarrow> r \<in> set batch \<Longrightarrow> P s \<Longrightarrow> P (snd (settle_record env now stored res r s))"
  shows "P (snd (flush env table batch s))"
  unfolding flush_def
proof (rule andThen_keeps)
  show "P (snd (if table = ''Memory'' then reserveBatchAttempts env batch s else (Inr (), s)))"
  proof (cases "table = ''Memory''")
    case True
    have "P (snd (reserveBatchAttempts env batch s))" by (rule reserve_keeps) (use assms(1,3,6) True in blast)+
    then show ?thesis by (simp add: True)
  qed (simp add: assms(1))
  fix x s1
  assume s1: "P s1"
  obtain a w where a: "sendBatch (pe_post env) False batch (hubState s1) = (a, w)" by fastforce
  have w: "P (s1\<lparr>hubState := w\<rparr>)" using assms(4) [OF s1] by (simp add: a)
  have "P (snd (andThen (if table = ''Memory'' then applyMemoryOutcomes env batch res (s1\<lparr>hubState := w\<rparr>) else (Inr (), s1\<lparr>hubState := w\<rparr>)) (\<lambda>_ s3.
      (Inr (), s3\<lparr>sent := sent s3 @ [(batch, res)]\<rparr>))))" for res
  proof (rule andThen_keeps)
    show "P (snd (if table = ''Memory'' then applyMemoryOutcomes env batch res (s1\<lparr>hubState := w\<rparr>) else (Inr (), s1\<lparr>hubState := w\<rparr>)))"
    proof (cases "table = ''Memory''")
      case True
      have "P (snd (applyMemoryOutcomes env batch res (s1\<lparr>hubState := w\<rparr>)))"
        by (rule apply_keeps) (use w assms(2,3,7) True in blast)+
      then show ?thesis by (simp add: True)
    qed (simp add: w)
  qed (simp add: assms(5))
  then show "P (snd (case sendBatch (pe_post env) False batch (hubState s1) of
         (Inl e, w) \<Rightarrow> (Inl (SendFailed e), s1\<lparr>hubState := w\<rparr>)
       | (Inr res, w) \<Rightarrow>
           (let s2 = s1\<lparr>hubState := w\<rparr> in
            andThen (if table = ''Memory'' then applyMemoryOutcomes env batch res s2 else (Inr (), s2)) (\<lambda>_ s3.
              (Inr (), s3\<lparr>sent := sent s3 @ [(batch, res)]\<rparr>)))))"
    using w by (simp add: a Let_def split: sum.split)
qed

section \<open>The obligations of a run\<close>

lemma flush_inv: "sender_inv t0 s \<Longrightarrow> sender_inv t0 (snd (flush env table batch s))"
  by (rule flush_keeps) (simp_all add: reserve_record_keeps settle_keeps)

lemma flush_stands:
  fixes s :: "'w sender"
  assumes "sender_inv t0 s" "stands k s" "table = ''Memory'' \<Longrightarrow> \<forall>r \<in> set batch. retry_key env (getp r ''id'') \<noteq> Inr k"
  shows "stands k (snd (flush env table batch s))"
proof -
  have "sender_inv t0 (snd (flush env table batch s)) \<and> stands k (snd (flush env table batch s))"
  proof (rule flush_keeps [where P = "\<lambda>s :: 'w sender. sender_inv t0 s \<and> stands k s"])
    fix now r and s :: "'w sender"
    assume "sender_inv t0 s \<and> stands k s"
    then show "sender_inv t0 (snd (reserve_record now r s)) \<and> stands k (snd (reserve_record now r s))"
      using reserve_record_keeps by blast
  next
    fix now stored res r and s :: "'w sender"
    assume "table = ''Memory''" "r \<in> set batch" "sender_inv t0 s \<and> stands k s"
    then show "sender_inv t0 (snd (settle_record env now stored res r s)) \<and> stands k (snd (settle_record env now stored res r s))"
      using assms(3) settle_keeps by blast
  qed (use assms(1,2) in simp_all)
  then show ?thesis by blast
qed

text \<open>A record whose batch was answered, and which stands in the retry table when it is still owed.\<close>

definition settled :: "'w push_env \<Rightarrow> (js \<times> jobj) list \<Rightarrow> 'w sender \<Rightarrow> jobj \<Rightarrow> bool" where
  "settled env t0 s r \<longleftrightarrow>
     (\<exists>(batch, res) \<in> set (sent s). r \<in> set batch \<and>
        (owed res r \<longrightarrow> (\<exists>k. retry_key env (getp r ''id'') = Inr k \<and> (stands k s \<or> broken t0 k))))"

lemma flush_settled:
  assumes "flush env ''Memory'' batch s = (Inr u, s')" "sender_inv t0 s" "\<forall>r \<in> set batch. getp r ''table'' = Str ''Memory''" "r \<in> set batch"
  shows "settled env t0 s' r"
proof -
  obtain s1 res w s3 where raw:
    "(if ''Memory'' = ''Memory'' then reserveBatchAttempts env batch s else (Inr (), s)) = (Inr (), s1)"
    "(if ''Memory'' = ''Memory'' then applyMemoryOutcomes env batch res (s1\<lparr>hubState := w\<rparr>) else (Inr (), s1\<lparr>hubState := w\<rparr>)) = (Inr (), s3)"
    "s' = s3\<lparr>sent := sent s3 @ [(batch, res)]\<rparr>"
    by (rule flush_Inr [OF assms(1)]) (rule that)
  have f: "reserveBatchAttempts env batch s = (Inr (), s1)" "applyMemoryOutcomes env batch res (s1\<lparr>hubState := w\<rparr>) = (Inr (), s3)"
    using raw(1,2) by (simp_all only: if_True refl)
  have "sender_inv t0 (snd (reserveBatchAttempts env batch s))"
    by (rule reserve_keeps) (simp_all add: assms(2) reserve_record_keeps)
  then have inv: "sender_inv t0 (s1\<lparr>hubState := w\<rparr>)" by (simp add: f(1))
  have "owed res r \<longrightarrow> (\<exists>k. retry_key env (getp r ''id'') = Inr k \<and> (stands k s3 \<or> broken t0 k))"
    using apply_owed [OF f(2) inv assms(3,4)] by blast
  then show ?thesis unfolding settled_def raw(3) using assms(4) by auto
qed

lemma settled_flush:
  assumes "settled env t0 s r" "flush env table batch s = (Inr u, s')" "sender_inv t0 s"
    "table = ''Memory'' \<Longrightarrow> getp r ''id'' \<notin> (\<lambda>q. getp q ''id'') ` set batch"
  shows "settled env t0 s' r"
proof -
  from assms(1) obtain b res where b: "(b, res) \<in> set (sent s)" "r \<in> set b"
      "owed res r \<longrightarrow> (\<exists>k. retry_key env (getp r ''id'') = Inr k \<and> (stands k s \<or> broken t0 k))"
    unfolding settled_def by blast
  have "set (sent s) \<subseteq> set (sent s')" by (rule flush_Inr [OF assms(2)]) auto
  then have "(b, res) \<in> set (sent s')" using b(1) by blast
  moreover have "stands k s'" if "retry_key env (getp r ''id'') = Inr k" "stands k s" for k
  proof -
    have "\<forall>q \<in> set batch. retry_key env (getp q ''id'') \<noteq> Inr k" if memory: "table = ''Memory''"
    proof (rule ballI, rule notI)
      fix q
      assume q: "q \<in> set batch" and "retry_key env (getp q ''id'') = Inr k"
      then have "getp q ''id'' = getp r ''id''"
        using retryEntryKey_inj [OF retry_key_Inr retry_key_Inr] \<open>retry_key env (getp r ''id'') = Inr k\<close> by blast
      then show False using assms(4) [OF memory] q by (metis imageI)
    qed
    then show ?thesis using flush_stands [OF assms(3) that(2), of table batch env] assms(2) by simp
  qed
  ultimately show ?thesis unfolding settled_def using b(2,3) by blast
qed

lemma wire_fields [simp]:
  "getp (wire_record env k table row) ''table'' = Str table" "getp (wire_record env k table row) ''id'' = getp row ''id''"
  "getp (wire_record env k table row) ''data'' = Obj row"
  by (simp_all add: wire_record_def push_record_def push_fields_def)

lemma push_rows_inv: "sender_inv t0 s \<Longrightarrow> sender_inv t0 (snd (push_rows env k table rows batch bytes s))"
proof (induction rows arbitrary: batch bytes s)
  case Nil
  then show ?case by (simp add: flush_inv)
next
  case (Cons row rows)
  have "sender_inv t0 (snd (andThen (flush env table batch s) (\<lambda>_. push_rows env k table rows batch' bytes')))" for batch' bytes'
    by (rule andThen_keeps) (simp_all add: Cons flush_inv)
  then show ?case using Cons by (simp add: Let_def)
qed

text \<open>Every row of the list, and every record already gathered, is settled once all batches have been answered, and what was settled
  before stays so.\<close>

lemma push_rows_settled:
  assumes "push_rows env k ''Memory'' rows batch bytes s = (Inr u, s')" "sender_inv t0 s"
    "\<forall>r \<in> set batch. getp r ''table'' = Str ''Memory''" "distinct (map (\<lambda>r. getp r ''id'') (batch @ rows))"
  shows "(\<forall>r \<in> set batch \<union> wire_record env k ''Memory'' ` set rows. settled env t0 s' r) \<and>
    (\<forall>r. settled env t0 s r \<and> getp r ''id'' \<notin> (\<lambda>r. getp r ''id'') ` (set batch \<union> set rows) \<longrightarrow> settled env t0 s' r)"
  using assms
proof (induction rows arbitrary: batch bytes s)
  case Nil
  show ?case
  proof (cases "batch = []")
    case False
    then have f: "flush env ''Memory'' batch s = (Inr u, s')" using Nil.prems(1) by simp
    show ?thesis
      using flush_settled [OF f Nil.prems(2,3)] settled_flush [OF _ f Nil.prems(2)] by auto
  qed (use Nil in simp)
next
  case (Cons row rows)
  let ?sr = "wire_record env k ''Memory'' row"
  show ?case
  proof (cases "full batch bytes (wire_bytes ?sr)")
    case True
    obtain t where f: "flush env ''Memory'' batch s = (Inr (), t)"
        and rest: "push_rows env k ''Memory'' rows [?sr] (wire_bytes ?sr) t = (Inr u, s')"
      using Cons.prems(1) True by (auto simp: Let_def andThen_Inr)
    have inv: "sender_inv t0 t" using flush_inv [OF Cons.prems(2), of env "''Memory''" batch] f by simp
    have ids: "distinct (map (\<lambda>r. getp r ''id'') ([?sr] @ rows))" using Cons.prems(4) by simp
    note IH = Cons.IH [OF rest inv _ ids]
    have new: "settled env t0 s' r" if "r \<in> insert ?sr (wire_record env k ''Memory'' ` set rows)" for r using IH that by auto
    have pass: "settled env t0 s' r" if "settled env t0 t r" "getp r ''id'' \<notin> insert (getp row ''id'') ((\<lambda>r. getp r ''id'') ` set rows)" for r
      using IH that by auto
    have here: "settled env t0 s' r" if "r \<in> set batch" for r
    proof (rule pass [OF flush_settled [OF f Cons.prems(2,3) that]])
      show "getp r ''id'' \<notin> insert (getp row ''id'') ((\<lambda>r. getp r ''id'') ` set rows)"
        using Cons.prems(4) that by (auto simp: image_iff)
    qed
    have before: "settled env t0 s' r"
      if "settled env t0 s r" "getp r ''id'' \<notin> (\<lambda>r. getp r ''id'') ` (set batch \<union> set (row # rows))" for r
    proof (rule pass)
      show "settled env t0 t r" by (rule settled_flush [OF that(1) f Cons.prems(2)]) (use that(2) in auto)
    qed (use that(2) in auto)
    show ?thesis using new here before by auto
  next
    case False
    then have rest: "push_rows env k ''Memory'' rows (batch @ [?sr]) (bytes + wire_bytes ?sr) s = (Inr u, s')"
      using Cons.prems(1) by (simp add: Let_def)
    have "\<forall>r \<in> set (batch @ [?sr]). getp r ''table'' = Str ''Memory''" "distinct (map (\<lambda>r. getp r ''id'') ((batch @ [?sr]) @ rows))"
      using Cons.prems(3,4) by auto
    from Cons.IH [OF rest Cons.prems(2) this] show ?thesis by auto
  qed
qed

lemma reserve_targets_keeps:
  assumes "sender_inv t0 s"
  shows "sender_inv t0 (snd (reserve_targets env rows s))" "sent (snd (reserve_targets env rows s)) = sent s"
proof -
  have "sender_inv t0 (snd (reserve_targets env rows s)) \<and> sent (snd (reserve_targets env rows s)) = sent s"
    unfolding reserve_targets_def
    by (rule each_keeps [where P = "\<lambda>t. sender_inv t0 t \<and> sent t = sent s"])
      (use assms in \<open>auto simp: sender_inv_def targets_ok_update split: sum.splits option.splits\<close>)
  then show "sender_inv t0 (snd (reserve_targets env rows s))" "sent (snd (reserve_targets env rows s)) = sent s" by blast+
qed

lemma load_memory_row:
  assumes "loadMemoryRow env i s = (Inr found, s')"
  shows "found = find (\<lambda>r. getp r ''id'' = i) (pe_memory env)" "\<exists>fs. s' = s\<lparr>opsFaults := fs\<rparr>"
  using ops_read_Inr [OF assms [unfolded loadMemoryRow_def]] by blast+

lemma load_memory_keeps: "(\<And>fs. P (s\<lparr>opsFaults := fs\<rparr>)) \<Longrightarrow> P (snd (loadMemoryRow env i s))"
  using ops_read_state unfolding loadMemoryRow_def by metis

lemma reoffer_keeps:
  fixes s :: "'w sender"
  assumes "sender_inv t0 s" "\<forall>p \<in> set due. retryOfferProblem ''Memory'' p = None"
  shows "sender_inv t0 (snd (reoffer env due seen rows s))"
  using assms
proof (induction due arbitrary: seen rows s)
  case (Cons p due)
  have offer: "retryOfferProblem ''Memory'' p = None" using Cons.prems(2) by simp
  have IH: "sender_inv t0 s \<Longrightarrow> sender_inv t0 (snd (reoffer env due seen rows s))" for seen rows and s :: "'w sender"
    using Cons.IH Cons.prems(2) by simp
  have retired: "sender_inv t0 (snd (andThen (retireRetry p resolution now t) (\<lambda>_. reoffer env due seen rows)))"
    if "sender_inv t0 t" "resolution \<in> {''source_deleted'', ''source_ineligible''}" for resolution now and t :: "'w sender"
  proof (rule andThen_keeps)
    show "sender_inv t0 (snd (retireRetry p resolution now t))"
      by (rule retire_keeps(1) [OF that(1) offer]) (use that(2) resolutions_known in auto)
  qed (rule IH)
  have "sender_inv t0 (snd (andThen (loadMemoryRow env (getp p ''recordId'') s) (\<lambda>found s.
        case found of
          None \<Rightarrow> (let (now, s') = nowIso env s in
            andThen (retireRetry p ''source_deleted'' now s') (\<lambda>_. reoffer env due seen rows))
        | Some row \<Rightarrow>
            if isFederationPrivateVisibility (getp row ''visibility'') then
              (let (now, s') = nowIso env s in
               andThen (retireRetry p ''source_ineligible'' now s') (\<lambda>_. reoffer env due seen rows))
            else reoffer env due (getp p ''recordId'' # seen) (rows @ [row])
              (s\<lparr>reservationTargets := AList.update (js_String (getp row ''id'')) p (reservationTargets s)\<rparr>))))"
  proof (rule andThen_keeps)
    show "sender_inv t0 (snd (loadMemoryRow env (getp p ''recordId'') s))" by (rule load_memory_keeps) (simp add: Cons.prems(1))
    fix found and t :: "'w sender"
    assume t: "sender_inv t0 t"
    have targets: "sender_inv t0 (t\<lparr>reservationTargets := AList.update i p (reservationTargets t)\<rparr>)" for i
      using t offer by (simp add: sender_inv_def targets_ok_update)
    show "sender_inv t0 (snd (case found of
          None \<Rightarrow> (let (now, s') = nowIso env t in
            andThen (retireRetry p ''source_deleted'' now s') (\<lambda>_. reoffer env due seen rows))
        | Some row \<Rightarrow>
            if isFederationPrivateVisibility (getp row ''visibility'') then
              (let (now, s') = nowIso env t in
               andThen (retireRetry p ''source_ineligible'' now s') (\<lambda>_. reoffer env due seen rows))
            else reoffer env due (getp p ''recordId'' # seen) (rows @ [row])
              (t\<lparr>reservationTargets := AList.update (js_String (getp row ''id'')) p (reservationTargets t)\<rparr>)))"
      using t retired IH [OF targets] by (simp add: nowIso_def split: option.split)
  qed
  then show ?case using IH [OF Cons.prems(1)] by simp
qed simp

text \<open>The rows offered again come after those the cursor selected, each once.\<close>

lemma reoffer_rows:
  assumes "reoffer env due seen rows s = (Inr out, s')" "distinct (map (\<lambda>r. getp r ''id'') rows)"
    "(\<lambda>r. getp r ''id'') ` set rows \<subseteq> set seen"
  shows "set rows \<subseteq> set out \<and> distinct (map (\<lambda>r. getp r ''id'') out)"
  using assms
proof (induction due arbitrary: seen rows s)
  case (Cons p due)
  show ?case
  proof (cases "getp p ''recordId'' \<in> set seen")
    case True
    then show ?thesis using Cons by simp
  next
    case False
    then obtain found t where t: "loadMemoryRow env (getp p ''recordId'') s = (Inr found, t)"
      using Cons.prems(1) by (auto simp: andThen_Inr)
    show ?thesis
    proof (cases found)
      case None
      then show ?thesis using Cons.prems False t Cons.IH [OF _ Cons.prems(2,3)] by (auto simp: andThen_Inr nowIso_def)
    next
      case (Some row)
      have row: "getp row ''id'' = getp p ''recordId''"
        using load_memory_row(1) [OF t, symmetric] unfolding Some find_Some_iff by auto
      show ?thesis
      proof (cases "isFederationPrivateVisibility (getp row ''visibility'')")
        case True
        then show ?thesis using Cons.prems False t Some Cons.IH [OF _ Cons.prems(2,3)] by (auto simp: andThen_Inr nowIso_def)
      next
        case public: False
        obtain t' where rest: "reoffer env due (getp p ''recordId'' # seen) (rows @ [row]) t' = (Inr out, s')"
          using Cons.prems(1) False t Some public by (auto simp: andThen_Inr)
        have "distinct (map (\<lambda>r. getp r ''id'') (rows @ [row]))" using Cons.prems(2,3) False row by auto
        moreover have "(\<lambda>r. getp r ''id'') ` set (rows @ [row]) \<subseteq> set (getp p ''recordId'' # seen)" using Cons.prems(3) row by auto
        ultimately show ?thesis using Cons.IH [OF rest] by auto
      qed
    qed
  qed
qed simp

lemma due_offered: "p \<in> set (dueRetryRows dparse now table rows) \<Longrightarrow> retryOfferProblem table p = None"
  by (simp add: dueRetryRows_def retry_due_def)

definition report_all :: "(js \<times> jobj) list \<Rightarrow> 'w sender \<Rightarrow> 'w sender" where
  "report_all queue = fold (\<lambda>(i, row) s. if retryRowMalformedness row \<noteq> None then reportMalformedRetryRow (getp row ''id'') s else s) queue"

lemma report_all_inv: "sender_inv t0 (report_all queue s) = sender_inv t0 s"
  unfolding report_all_def by (induction queue arbitrary: s) (simp_all add: split_beta)

lemma select_keeps:
  assumes "sender_inv t0 s"
  shows "sender_inv t0 (snd (select_retries env rows s))"
  unfolding select_retries_def Let_def report_all_def [symmetric]
proof (rule andThen_keeps)
  show "sender_inv t0 (snd (reserve_targets env rows (report_all (pendingRetries s) s)))"
    by (rule reserve_targets_keeps(1)) (simp add: report_all_inv assms)
qed (rule reoffer_keeps, simp, blast intro: due_offered)

lemma select_rows:
  assumes "select_retries env rows s = (Inr out, s')" "distinct (map (\<lambda>r. getp r ''id'') rows)"
  shows "set rows \<subseteq> set out \<and> distinct (map (\<lambda>r. getp r ''id'') out)"
proof -
  obtain t due where "reoffer env due (map (\<lambda>r. getp r ''id'') rows) rows t = (Inr out, s')"
    using assms(1) by (auto simp: select_retries_def Let_def andThen_Inr)
  from reoffer_rows [OF this assms(2)] show ?thesis by simp
qed

lemma settled_more:
  assumes "settled env t0 s r" "set (sent s) \<subseteq> set (sent s')" "\<And>k. stands k s \<Longrightarrow> stands k s'"
  shows "settled env t0 s' r"
  using assms unfolding settled_def by blast

lemma push_rows_other:
  assumes "table \<noteq> ''Memory''" "push_rows env k table rows batch bytes s = (Inr u, s')"
  shows "set (sent s) \<subseteq> set (sent s') \<and> retryTable s' = retryTable s"
  using assms(2)
proof (induction rows arbitrary: batch bytes s)
  case Nil
  show ?case
  proof (cases "batch = []")
    case False
    then have f: "flush env table batch s = (Inr u, s')" using Nil by simp
    show ?thesis by (rule flush_Inr [OF f]) (use assms(1) in auto)
  qed (use Nil in simp)
next
  case (Cons row rows)
  show ?case
  proof (cases "full batch bytes (wire_bytes (wire_record env k table row))")
    case True
    then obtain t where f: "flush env table batch s = (Inr (), t)"
        and rest: "push_rows env k table rows [wire_record env k table row] (wire_bytes (wire_record env k table row)) t = (Inr u, s')"
      using Cons.prems by (auto simp: Let_def andThen_Inr)
    have "set (sent s) \<subseteq> set (sent t) \<and> retryTable t = retryTable s" by (rule flush_Inr [OF f]) (use assms(1) in auto)
    then show ?thesis using Cons.IH [OF rest] by auto
  next
    case False
    then have "push_rows env k table rows (batch @ [wire_record env k table row]) (bytes + wire_bytes (wire_record env k table row)) s = (Inr u, s')"
      using Cons.prems by (simp add: Let_def)
    from Cons.IH [OF this] show ?thesis .
  qed
qed

lemma push_table_other:
  assumes "table \<noteq> ''Memory''" "push_table env table s = (Inr u, s')" "settled env t0 s r"
  shows "settled env t0 s' r"
proof -
  have "set (sent s) \<subseteq> set (sent s') \<and> retryTable s' = retryTable s"
    using assms(1,2)
    by (auto simp: push_table_def andThen_Inr Let_def split: option.splits if_splits dest!: push_rows_other [OF assms(1)])
  then show ?thesis by (intro settled_more [OF assms(3)]) (simp_all add: stands_def)
qed

definition selected :: "'w push_env \<Rightarrow> string \<Rightarrow> jobj list option" where
  "selected env table =
     (case (pe_query env table True, pe_query env table False) of
        (Some updated, Some undated) \<Rightarrow> Some (fst (push_batch table (pe_since env) updated) @ fst (push_batch table (pe_since env) undated))
      | _ \<Rightarrow> None)"

lemma push_memory_settles:
  assumes "push_table env ''Memory'' s = (Inr u, s')" "sender_inv t0 s" "selected env ''Memory'' = Some rows"
    "distinct (map (\<lambda>r. getp r ''id'') rows)" "row \<in> set rows"
  shows "\<exists>k. pe_secretKey env = Some k \<and> settled env t0 s' (wire_record env k ''Memory'' row)"
proof -
  obtain updated undated where q: "pe_query env ''Memory'' True = Some updated" "pe_query env ''Memory'' False = Some undated"
    and rows: "rows = fst (push_batch ''Memory'' (pe_since env) updated) @ fst (push_batch ''Memory'' (pe_since env) undated)"
    using assms(3) by (auto simp: selected_def split: option.splits)
  obtain out t where out: "(if ''Memory'' = ''Memory'' \<and> pendingRetries s \<noteq> [] then select_retries env rows s else (Inr rows, s)) = (Inr out, t)"
      and rest: "(if out = [] then (Inr (), t)
        else case pe_secretKey env of None \<Rightarrow> (Inl KeyUnavailable, t) | Some k \<Rightarrow> push_rows env k ''Memory'' out [] 0 t) = (Inr u, s')"
    using assms(1) unfolding push_table_def q rows by (auto simp: andThen_Inr Let_def)
  have inv: "sender_inv t0 t" using out select_keeps [OF assms(2), of env rows] assms(2) by (auto split: if_splits)
  have sel: "set rows \<subseteq> set out" "distinct (map (\<lambda>r. getp r ''id'') out)"
    using out select_rows [of env rows s out t] assms(4) by (auto split: if_splits)
  then have "out \<noteq> []" using assms(5) by auto
  then obtain k where k: "pe_secretKey env = Some k" "push_rows env k ''Memory'' out [] 0 t = (Inr u, s')"
    using rest by (auto split: option.splits)
  have "settled env t0 s' (wire_record env k ''Memory'' row)"
    using push_rows_settled [OF k(2) inv] sel assms(5) by auto
  then show ?thesis using k(1) by blast
qed

text \<open>A run begins with nothing in memory.\<close>

definition start_run :: "(js \<times> jobj) list \<Rightarrow> ops_fault list \<Rightarrow> 'w \<Rightarrow> 'w sender" where
  "start_run table faults w =
     \<lparr>retryTable = table, pendingRetries = [], reservedOffers = [], reservationTargets = [], reportedMalformed = [], opsFaults = faults,
      clockReads = 0, hubState = w, sent = []\<rparr>"

lemma pending_offer_problem:
  assumes "pending_match p row" "retryOfferProblem ''Memory'' row \<noteq> None"
  shows "retryRowMalformedness row \<noteq> None"
proof
  assume good: "retryRowMalformedness row = None"
  have state: "getp row ''state'' = Str ''pending''" "getp row ''table'' = Str ''Memory''" using assms(1) by (simp_all add: pending_match_def)
  have "retryRowProblem (in_texts MEMORY_PENDING_REASONS) row \<noteq> Some IdMismatch" "in_texts MEMORY_PENDING_REASONS (getp row ''lastReason'')"
    using good state by (auto simp: retryRowMalformedness_def Let_def split: if_splits)
  moreover from this(1) obtain k where k: "row_key row = Inr k" "getp row ''id'' = Str k"
    by (auto simp: retryRowProblem_def split: sum.splits if_splits)
  moreover have "is_string_value (getp row ''peerId'')" "is_string_value (getp row ''recordId'')"
    using k(1) by (auto simp: row_key_def retryEntryKey_Inr dest!: nonempty_textE)
  ultimately have "retryOfferProblem ''Memory'' row = None" using state good by (simp add: retryOfferProblem_def)
  then show False using assms(2) by blast
qed

lemma load_inv:
  assumes "loadPendingRetries env (start_run table faults w) = (Inr u, s)"
  shows "sender_inv table s"
proof -
  obtain rows t where rows: "ops_read (\<lambda>s. filter (pending_match (pe_peer env)) (map snd (retryTable s))) (start_run table faults w) = (Inr rows, t)"
      and s: "s = t\<lparr>pendingRetries := fold (\<lambda>row. AList.update (getp row ''id'') row) rows (pendingRetries t)\<rparr>"
    using assms by (auto simp: loadPendingRetries_def andThen_Inr)
  obtain fs where t: "t = (start_run table faults w)\<lparr>opsFaults := fs\<rparr>" using ops_read_Inr [OF rows] by blast
  have from_table: "\<forall>row \<in> set rows. row \<in> snd ` set table \<and> pending_match (pe_peer env) row"
    using ops_read_Inr [OF rows] by (auto simp: t start_run_def)
  have problem: "retryRowMalformedness row \<noteq> None" if "pending_match p row" "retryOfferProblem ''Memory'' row \<noteq> None" for p row
    using that by (rule pending_offer_problem)
  have folded: "queue_ok table (fold (\<lambda>row. AList.update (getp row ''id'') row) rs acc)"
    if "queue_ok table acc" "\<forall>row \<in> set rs. row \<in> snd ` set table \<and> pending_match (pe_peer env) row" for rs acc
    using that
  proof (induction rs arbitrary: acc)
    case (Cons row rs)
    have "queue_ok table (AList.update (getp row ''id'') row acc)"
      using Cons.prems problem unfolding queue_ok_def by (intro ball_update) auto
    then show ?case using Cons by simp
  qed simp
  have "pendingRetries s = fold (\<lambda>row. AList.update (getp row ''id'') row) rows []" by (simp add: s t start_run_def)
  then have "queue_ok table (pendingRetries s)" using folded [OF _ from_table, of "[]"] by (simp only:) (simp add: queue_ok_def)
  moreover have "table_ok table table" unfolding table_ok_def by (metis (mono_tags, lifting) case_prodI2 image_eqI snd_conv)
  ultimately show ?thesis by (simp add: sender_inv_def s t start_run_def targets_ok_def)
qed

text \<open>C13. The cursor of a sender moves past a Memory row only when the row is safe. When a run stamps its contact, every row that its
  cursor selected was in a batch the hub answered; and if the hub left it undecided, or refused it for a reason that may clear, the retry
  table holds a pending row of its key that may be offered again, whatever calls to the endpoint failed on the way. The only exception
  is a retry row of that key that was malformed before the run, which is left as stored.\<close>

theorem cursor_passes_only_settled_rows:
  assumes "stampLocalContact env presence pingOk (start_run table faults w) = (True, s)" "selected env ''Memory'' = Some rows"
    "distinct (map (\<lambda>r. getp r ''id'') rows)" "row \<in> set rows"
  shows "\<exists>(batch, res) \<in> set (sent s). \<exists>r \<in> set batch. getp r ''data'' = Obj row \<and>
    (owed res r \<longrightarrow> (\<exists>k. retry_key env (getp row ''id'') = Inr k \<and> (stands k s \<or> broken table k)))"
proof -
  obtain s1 where s1: "loadPendingRetries env (start_run table faults w) = (Inr (), s1)" and rest: "each (push_table env) TABLES s1 = (Inr (), s)"
    using assms(1) by (auto simp: stampLocalContact_def push_generic_def andThen_Inr split: prod.splits sum.splits)
  obtain s2 s3 s4 where tables: "push_table env ''Memory'' s1 = (Inr (), s2)" "push_table env ''Soul'' s2 = (Inr (), s3)"
      "push_table env ''Agent'' s3 = (Inr (), s4)" "push_table env ''Relationship'' s4 = (Inr (), s)"
    using rest by (auto simp: TABLES_def andThen_Inr)
  obtain k where "settled env table s2 (wire_record env k ''Memory'' row)"
    using push_memory_settles [OF tables(1) load_inv [OF s1] assms(2-4)] by blast
  note sent = push_table_other [OF _ tables(4) push_table_other [OF _ tables(3) push_table_other [OF _ tables(2) this]]]
  have "settled env table s (wire_record env k ''Memory'' row)" by (rule sent) simp_all
  then obtain batch res where "(batch, res) \<in> set (sent s)" "wire_record env k ''Memory'' row \<in> set batch"
      "owed res (wire_record env k ''Memory'' row) \<longrightarrow> (\<exists>k. retry_key env (getp row ''id'') = Inr k \<and> (stands k s \<or> broken table k))"
    unfolding settled_def wire_fields by blast
  moreover have "getp (wire_record env k ''Memory'' row) ''data'' = Obj row" by simp
  ultimately show ?thesis by blast
qed

definition demo_source :: jobj where "demo_source = [(''id'', Str ''m1''), (''updatedAt'', Str ''b'')]"

definition demo_answer :: js where
  "demo_answer = Obj [(''merged'', Num (jint 0)), (''skipped'', Num (jint 1)),
     (''refused'', Arr [Obj [(''table'', Str ''Memory''), (''id'', Str ''m1''), (''reason'', Str ''merge_error'')]])]"

definition demo_push :: "unit push_env" where
  "demo_push = \<lparr>pe_peer = Str ''hub'', pe_instance = ''spoke'', pe_secretKey = Some ''k'', pe_crypto = demo_crypto,
     pe_parse = (\<lambda>_. None), pe_dparse = (\<lambda>_. None), pe_iso = (\<lambda>_. ''t''), pe_ms = (\<lambda>_. 0), pe_since = ''a'',
     pe_query = (\<lambda>table updated. Some (if table = ''Memory'' \<and> updated then [demo_source] else [])), pe_memory = [],
     pe_post = (\<lambda>w batch. (OkBody (Some demo_answer), w))\<rparr>"

definition demo_run :: "bool \<times> unit sender" where
  "demo_run = stampLocalContact demo_push (Some 0) False (start_run [] [] ())"

theorem cursor_passes_only_settled_rows_witness:
  "\<exists>(batch, res) \<in> set (sent (snd demo_run)). \<exists>r \<in> set batch. getp r ''data'' = Obj demo_source \<and>
     (\<exists>k. stands k (snd demo_run))"
proof -
  have stamped: "fst demo_run = True" by code_simp
  have owed: "\<forall>(batch, res) \<in> set (sent (snd demo_run)). \<forall>r \<in> set batch. owed res r" by code_simp
  have run: "stampLocalContact demo_push (Some 0) False (start_run [] [] ()) = (True, snd demo_run)"
    using stamped by (metis demo_run_def prod.collapse)
  have "selected demo_push ''Memory'' = Some [demo_source]" by code_simp
  moreover have "distinct (map (\<lambda>r. getp r ''id'') [demo_source])" "demo_source \<in> set [demo_source]" by simp_all
  ultimately have "\<exists>(batch, res) \<in> set (sent (snd demo_run)). \<exists>r \<in> set batch. getp r ''data'' = Obj demo_source \<and>
    (owed res r \<longrightarrow> (\<exists>k. retry_key demo_push (getp demo_source ''id'') = Inr k \<and> (stands k (snd demo_run) \<or> broken [] k)))"
    by (rule cursor_passes_only_settled_rows [OF run])
  then show ?thesis using owed by (fastforce simp: broken_def)
qed

end
