(* ===== verification/FedContact.thy ===== *)
theory FedContact
  imports FedOwed
begin

text \<open>
  The whole of \<open>runFederationSyncOnce\<close> (\<open>src/src/commands/federation.ts\<close>) after its hub is known: the push of the generic tables
  (\<open>FedSync\<close>), the push of the Presence table by its own watermark (with the selection and the wire form of \<open>PresenceReceipt\<close>), the
  liveness ping of a run that sent nothing, and the two stamps on the hub's Peer row.
\<close>

section \<open>The Presence push\<close>

text \<open>\<open>sy_scan\<close> is the answer to the scan of the Presence table, \<open>None\<close> when it failed or was not a row list.\<close>

record 'w sync_env =
  sy_push :: "'w push_env"
  sy_process_env :: "string \<Rightarrow> string option"
  sy_scanAt :: int
  sy_scan :: "jobj list option"
  sy_presenceLastSyncAt :: js

text \<open>The cap of the watermark, \<open>None\<close> for no cap.\<close>

definition cap_below :: "'w push_env \<Rightarrow> jobj list \<Rightarrow> string \<Rightarrow> rat option \<Rightarrow> rat option" where
  "cap_below env batch i cap =
     (case find (\<lambda>r. getp r ''id'' = Str i) batch of
        None \<Rightarrow> cap
      | Some offered \<Rightarrow>
          (case (case getp offered ''updatedAt'' of Str t \<Rightarrow> pe_dparse env t | _ \<Rightarrow> None) of
             None \<Rightarrow> cap
           | Some ms \<Rightarrow> Some (case cap of None \<Rightarrow> of_int ms - 1 | Some c \<Rightarrow> min c (of_int ms - 1))))"

definition cap_refused :: "'w push_env \<Rightarrow> jobj list \<Rightarrow> (string \<times> string \<times> string) list \<Rightarrow> rat option \<Rightarrow> rat option" where
  "cap_refused env batch =
     fold (\<lambda>(table, i, reason) cap.
       if table \<noteq> ''Presence'' then cap
       else if reason \<notin> set PRESENCE_SEND_RETRYABLE_SKIP_REASONS \<and> reason \<noteq> PRESENCE_SEND_RECEIVE_DISABLED_SKIP_REASON then cap
       else cap_below env batch i cap)"

definition cap_undecided :: "'w push_env \<Rightarrow> jobj list \<Rightarrow> (string \<times> string) list \<Rightarrow> rat option \<Rightarrow> rat option" where
  "cap_undecided env batch = fold (\<lambda>(table, i) cap. if table \<noteq> ''Presence'' then cap else cap_below env batch i cap)"

definition flushPresence :: "'w push_env \<Rightarrow> jobj list \<Rightarrow> rat option \<Rightarrow> 'w sender \<Rightarrow> (push_error + rat option) \<times> 'w sender" where
  "flushPresence env batch cap s =
     (case sendBatch (pe_post env) True batch (hubState s) of
        (Inl e, w) \<Rightarrow> (Inl (SendFailed e), s\<lparr>hubState := w\<rparr>)
      | (Inr res, w) \<Rightarrow>
          (Inr (cap_undecided env batch (oc_indeterminate res) (cap_refused env batch (oc_refused res) cap)),
           s\<lparr>hubState := w, sent := sent s @ [(batch, res)]\<rparr>))"

definition presence_record :: "'w push_env \<Rightarrow> string \<Rightarrow> jobj \<Rightarrow> jobj" where
  "presence_record env secretKey payload = payload @ [(''signature'', Str (signBody (pe_crypto env) payload secretKey))]"

definition deferred :: "int \<Rightarrow> rat option \<Rightarrow> bool" where
  "deferred scanAt cursor \<longleftrightarrow> (case cursor of Some c \<Rightarrow> of_int (scanAt + PRESENCE_SEND_FUTURE_ALLOWANCE_MS) < c | None \<Rightarrow> False)"

definition advance_to :: "int \<Rightarrow> rat option \<Rightarrow> rat \<Rightarrow> rat" where
  "advance_to scanAt cursor advance =
     (case cursor of Some c \<Rightarrow> if advance < min c (of_int scanAt) then min c (of_int scanAt) else advance | None \<Rightarrow> advance)"

text \<open>The loop over the selected rows: the batch so far with its size, and the watermark so far with its cap.\<close>

primrec presence_rows ::
    "'w push_env \<Rightarrow> int \<Rightarrow> string \<Rightarrow> jobj list \<Rightarrow> jobj list \<Rightarrow> nat \<Rightarrow> rat \<Rightarrow> rat option \<Rightarrow> 'w sender
     \<Rightarrow> (push_error + rat \<times> rat option) \<times> 'w sender" where
  "presence_rows env scanAt secretKey [] batch bytes advance cap s =
     (if batch = [] then (Inr (advance, cap), s)
      else andThen (flushPresence env batch cap s) (\<lambda>cap s. (Inr (advance, cap), s)))"
| "presence_rows env scanAt secretKey (row # rows) batch bytes advance cap s =
     (let cursor = presenceCursorMs row in
      if deferred scanAt cursor then presence_rows env scanAt secretKey rows batch bytes advance cap s
      else case presenceWireRecord row (pe_instance env) of
          None \<Rightarrow> presence_rows env scanAt secretKey rows batch bytes advance cap s
        | Some payload \<Rightarrow>
            (let sr = presence_record env secretKey payload; srBytes = wire_bytes sr; advance1 = advance_to scanAt cursor advance in
             if full batch bytes srBytes
             then andThen (flushPresence env batch cap s) (\<lambda>cap. presence_rows env scanAt secretKey rows [sr] srBytes advance1 cap)
             else presence_rows env scanAt secretKey rows (batch @ [sr]) (bytes + srBytes) advance1 cap s))"

definition watermark_of :: "'w sync_env \<Rightarrow> rat" where
  "watermark_of env = presenceWatermarkMs (map_option of_int \<circ> pe_dparse (sy_push env)) (sy_presenceLastSyncAt env)"

definition effective_watermark :: "'w sync_env \<Rightarrow> rat" where
  "effective_watermark env = min (watermark_of env) (of_int (sy_scanAt env))"

definition scan_floor :: "'w sync_env \<Rightarrow> rat" where
  "scan_floor env = max 0 (effective_watermark env - of_int PRESENCE_SEND_OVERLAP_MS)"

text \<open>Answers the watermark to persist, if any.\<close>

definition push_presence :: "'w sync_env \<Rightarrow> 'w sender \<Rightarrow> (push_error + rat option) \<times> 'w sender" where
  "push_presence env s =
     (if \<not> presenceSendEnabled (sy_process_env env) then (Inr None, s)
      else case sy_scan env of
          None \<Rightarrow> (Inl QueryFailed, s)
        | Some rows \<Rightarrow>
            (let toSend = selectPresenceRowsToSend rows (pe_instance (sy_push env)) (scan_floor env) in
             if toSend = []
             then (Inr (if effective_watermark env < watermark_of env then Some (effective_watermark env) else None), s)
             else case pe_secretKey (sy_push env) of
                 None \<Rightarrow> (Inl KeyUnavailable, s)
               | Some k \<Rightarrow>
                   andThen (presence_rows (sy_push env) (sy_scanAt env) k toSend [] 0 (effective_watermark env) None s) (\<lambda>(advance, cap) s.
                     (Inr (Some (case cap of None \<Rightarrow> advance | Some c \<Rightarrow> min advance c)), s))))"

section \<open>The run\<close>

text \<open>The ping of an idle run posts an empty batch and reads no more than the status.\<close>

definition ping :: "'w push_env \<Rightarrow> 'w sender \<Rightarrow> bool \<times> 'w sender" where
  "ping env s =
     (case pe_secretKey env of
        None \<Rightarrow> (False, s)
      | Some _ \<Rightarrow> (case pe_post env (hubState s) [] of
          (r, w) \<Rightarrow> ((case r of OkBody _ \<Rightarrow> True | _ \<Rightarrow> False), s\<lparr>hubState := w\<rparr>)))"

text \<open>The answer of a run, whether it stamps \<open>lastSyncAt\<close> with the time before its queries, and the Presence watermark it persists (printed as
  an ISO date, which drops what is below a millisecond).\<close>

record 'w run_result =
  rr_pushed :: int
  rr_skipped :: int
  rr_error :: "push_error option"
  rr_stamped :: bool
  rr_watermark :: "rat option"
  rr_sender :: "'w sender"

definition ended :: "push_error option \<Rightarrow> bool \<Rightarrow> rat option \<Rightarrow> 'w sender \<Rightarrow> 'w run_result" where
  "ended err stamped watermark s =
     \<lparr>rr_pushed = totalMerged s, rr_skipped = totalSkipped s, rr_error = err, rr_stamped = stamped, rr_watermark = watermark, rr_sender = s\<rparr>"

definition runFederationSyncOnce :: "'w sync_env \<Rightarrow> 'w sender \<Rightarrow> 'w run_result" where
  "runFederationSyncOnce env s =
     (case push_generic (sy_push env) s of
        (Inl e, s1) \<Rightarrow> ended (Some e) False None s1
      | (Inr _, s1) \<Rightarrow>
          (case push_presence env s1 of
             (Inl e, s2) \<Rightarrow> ended (Some e) (0 < length (sent s1)) None s2
           | (Inr watermark, s2) \<Rightarrow>
               if sent s2 = [] then
                 (case ping (sy_push env) s2 of (pingOk, s3) \<Rightarrow> ended None pingOk (if pingOk then watermark else None) s3)
               else ended None True watermark s2))"

lemma presence_rows_skip:
  assumes "\<not> (\<not> deferred scanAt (presenceCursorMs row) \<and> presenceWireRecord row (pe_instance env) \<noteq> None)"
  shows "presence_rows env scanAt k (row # rows) batch bytes advance cap s = presence_rows env scanAt k rows batch bytes advance cap s"
  using assms by (cases "deferred scanAt (presenceCursorMs row)") (simp_all add: Let_def)

lemma flushPresence_sent: "\<exists>more. sent (snd (flushPresence env batch cap s)) = sent s @ more"
  by (auto simp: flushPresence_def split: prod.splits sum.splits)

lemma presence_rows_sent:
  "\<exists>more. sent (snd (presence_rows env scanAt k rows batch bytes advance cap s)) = sent s @ more"
proof (induction rows arbitrary: batch bytes advance cap s)
  case Nil
  then show ?case using flushPresence_sent [of env batch cap s] by (auto simp: andThen_def split: prod.splits sum.splits)
next
  case (Cons row rows)
  show ?case
  proof (cases "\<not> deferred scanAt (presenceCursorMs row) \<and> presenceWireRecord row (pe_instance env) \<noteq> None")
    case True
    then obtain payload where payload: "presenceWireRecord row (pe_instance env) = Some payload" by auto
    let ?sr = "presence_record env k payload"
    show ?thesis
    proof (cases "full batch bytes (wire_bytes ?sr)")
      case full: True
      have "\<exists>more. sent (snd (andThen (flushPresence env batch cap s)
          (\<lambda>cap. presence_rows env scanAt k rows [?sr] (wire_bytes ?sr) (advance_to scanAt (presenceCursorMs row) advance) cap))) = sent s @ more"
      proof (rule andThen_keeps [where P = "\<lambda>t. \<exists>more. sent t = sent s @ more"])
        fix c and t :: "'a sender"
        assume "\<exists>more. sent t = sent s @ more"
        then show "\<exists>more. sent (snd (presence_rows env scanAt k rows [?sr] (wire_bytes ?sr) (advance_to scanAt (presenceCursorMs row) advance) c t)) = sent s @ more"
          using Cons.IH by (metis append_assoc)
      qed (rule flushPresence_sent)
      then show ?thesis using True payload full by (simp add: Let_def)
    next
      case False
      then show ?thesis using Cons.IH True payload by (simp add: Let_def)
    qed
  next
    case False
    show ?thesis unfolding presence_rows_skip [OF False] by (rule Cons.IH)
  qed
qed

lemma push_presence_sent: "\<exists>more. sent (snd (push_presence env s)) = sent s @ more"
proof -
  have "\<exists>more. sent (snd (andThen (presence_rows e scanAt k rows [] 0 advance None s) (\<lambda>(advance, cap) s.
      (Inr (Some (case cap of None \<Rightarrow> advance | Some c \<Rightarrow> min advance c)), s)))) = sent s @ more" for e scanAt k rows advance
    by (rule andThen_keeps [where P = "\<lambda>t. \<exists>more. sent t = sent s @ more", OF presence_rows_sent]) (auto split: prod.splits)
  then show ?thesis by (auto simp: push_presence_def Let_def split: option.splits)
qed

text \<open>A run stamps exactly when \<open>stampLocalContact\<close> does, for what the Presence push and the ping answered.\<close>

lemma run_stamps:
  assumes "push_generic (sy_push env) s = (Inr u, s1)"
  shows "\<exists>presence pingOk. stampLocalContact (sy_push env) presence pingOk s = (rr_stamped (runFederationSyncOnce env s), s1)"
proof (cases "push_presence env s1")
  case (Pair res s2)
  obtain more where more: "sent s2 = sent s1 @ more" using push_presence_sent [of env s1] Pair by auto
  show ?thesis
  proof (cases res)
    case (Inl e)
    then show ?thesis using assms Pair
      by (intro exI [of _ None]) (simp add: stampLocalContact_def runFederationSyncOnce_def ended_def)
  next
    case (Inr wm)
    obtain pingOk s3 where "ping (sy_push env) s2 = (pingOk, s3)" by force
    then show ?thesis using assms Pair Inr more
      by (intro exI [of _ "Some (length more)"] exI [of _ pingOk])
        (simp add: stampLocalContact_def runFederationSyncOnce_def ended_def)
  qed
qed

end
