(* ===== verification/FedPosted.thy ===== *)
theory FedPosted
  imports FedContact
begin

text \<open>
  What a sender posts (\<open>FedSync\<close>, \<open>FedContact\<close>): every batch, answered or not, is within its budget and holds no private Memory row.
\<close>

section \<open>What is posted\<close>

text \<open>A hub that remembers every batch posted to it, whatever it answers.\<close>

definition recording :: "('w \<Rightarrow> jobj list \<Rightarrow> reply \<times> 'w) \<Rightarrow> jobj list list \<times> 'w \<Rightarrow> jobj list \<Rightarrow> reply \<times> jobj list list \<times> 'w" where
  "recording post w batch = (case post (snd w) batch of (r, w') \<Rightarrow> (r, fst w @ [batch], w'))"

definition within_budget :: "jobj list \<Rightarrow> bool" where
  "within_budget batch \<longleftrightarrow> batch \<noteq> [] \<and> length batch \<le> BUDGET_RECORDS \<and>
     (length batch = 1 \<or> (\<Sum>sr \<leftarrow> batch. wire_bytes sr) \<le> BUDGET_BYTES)"

text \<open>\<open>home\<close> says what a Presence record must be.\<close>

definition record_ok :: "(jobj \<Rightarrow> bool) \<Rightarrow> jobj \<Rightarrow> bool" where
  "record_ok home sr \<longleftrightarrow>
     (getp sr ''table'' = Str ''Memory'' \<longrightarrow>
        (\<exists>row. getp sr ''data'' = Obj row \<and> \<not> isFederationPrivateVisibility (getp row ''visibility''))) \<and>
     (getp sr ''table'' = Str ''Presence'' \<longrightarrow> home sr)"

definition batch_ok :: "(jobj \<Rightarrow> bool) \<Rightarrow> jobj list \<Rightarrow> bool" where
  "batch_ok home batch \<longleftrightarrow> within_budget batch \<and> (\<forall>sr \<in> set batch. record_ok home sr)"

definition posted_ok :: "(jobj \<Rightarrow> bool) \<Rightarrow> (jobj list list \<times> 'w) sender \<Rightarrow> bool" where
  "posted_ok home s \<longleftrightarrow> (\<forall>batch \<in> set (fst (hubState s)). batch_ok home batch)"

lemma batch_ok_half:
  assumes "batch_ok home (xs @ ys)"
  shows "xs \<noteq> [] \<Longrightarrow> batch_ok home xs" "ys \<noteq> [] \<Longrightarrow> batch_ok home ys"
proof -
  have one: "length xs = 1 \<and> ys = [] \<or> length ys = 1 \<and> xs = []" if "length (xs @ ys) = 1" using that by (cases xs) auto
  show "xs \<noteq> [] \<Longrightarrow> batch_ok home xs" "ys \<noteq> [] \<Longrightarrow> batch_ok home ys"
    using assms one by (auto simp: batch_ok_def within_budget_def)
qed

lemma sendBatch_keeps:
  assumes "P w" "batch_ok home batch" "\<And>w b. batch_ok home b \<Longrightarrow> P w \<Longrightarrow> P (snd (post w b))"
  shows "P (snd (sendBatch post v batch w))"
  using assms
proof (induction "length batch" arbitrary: batch w rule: less_induct)
  case less
  let ?mid = "length batch div 2"
  obtain r w1 where r: "post w batch = (r, w1)" by fastforce
  then have w1: "P w1" using less.prems by (metis snd_conv)
  show ?case
  proof (cases "1 < length batch \<and> splits r")
    case True
    have both: "batch_ok home (take ?mid batch @ drop ?mid batch)" using less.prems(2) by simp
    have "take ?mid batch \<noteq> []" "drop ?mid batch \<noteq> []" using True by auto
    note halves = batch_ok_half(1) [OF both this(1)] batch_ok_half(2) [OF both this(2)]
    obtain a w2 where l: "sendBatch post v (take ?mid batch) w1 = (a, w2)" by fastforce
    have w2: "P w2" using less.hyps [of "take ?mid batch" w1] w1 halves(1) less.prems(3) True l by auto
    obtain b w3 where q: "sendBatch post v (drop ?mid batch) w2 = (b, w3)" by fastforce
    have "P w3" using less.hyps [of "drop ?mid batch" w2] w2 halves(2) less.prems(3) True q by auto
    then show ?thesis using w2 r True l q by (subst sendBatch.simps) (simp add: Let_def split: sum.splits)
  next
    case False
    then show ?thesis using w1 r by (subst sendBatch.simps) (auto simp: Let_def)
  qed
qed

lemma write_hub [simp]: "hubState (snd (writeRetryRow operation rec s)) = hubState s"
  by (rule write_keeps [where P = "\<lambda>t. hubState t = hubState s"]) (simp_all add: put_row_def)

lemma retire_hub [simp]: "hubState (snd (retireRetry row resolution now s)) = hubState s"
  unfolding retireRetry_def by (rule andThen_keeps [where P = "\<lambda>t. hubState t = hubState s"]) simp_all

lemma keep_pending_hub [simp]: "hubState (snd (keep_pending env now i reason prior reserved s)) = hubState s"
proof (cases "retryRowForRefusal (pe_peer env) i reason now prior reserved")
  case (Inr row)
  show ?thesis
    unfolding keep_pending_def Inr sum.case by (rule andThen_keeps [where P = "\<lambda>t. hubState t = hubState s"]) simp_all
qed (simp add: keep_pending_def)

lemma report_hub [simp]: "hubState (reportMalformedRetryRow i s) = hubState s"
  by (simp add: reportMalformedRetryRow_def)

lemma settle_hub [simp]: "hubState (snd (settle_record env now stored res r s)) = hubState s"
  unfolding settle_record_def
  by (simp add: Let_def split: sum.splits verdict.splits option.splits)

lemma reserve_hub [simp]: "hubState (snd (reserve_record now r s)) = hubState s"
proof (cases "map_of (reservationTargets s) (js_String (getp r ''id''))")
  case (Some row)
  show ?thesis
  proof (cases "retryRowForAttempt row now")
    case (Inr rec)
    let ?s = "s\<lparr>reservationTargets := AList.delete (js_String (getp r ''id'')) (reservationTargets s)\<rparr>"
    have w: "hubState (snd (writeRetryRow Upsert rec ?s)) = hubState s" by simp
    have "hubState (snd (andThen (writeRetryRow Upsert rec ?s) (\<lambda>_ s.
        (Inr (), s\<lparr>pendingRetries := AList.update (getp rec ''id'') rec (pendingRetries s),
          reservedOffers := List.insert (getp rec ''id'') (reservedOffers s)\<rparr>)))) = hubState s"
      by (rule andThen_keeps [where P = "\<lambda>t. hubState t = hubState s", OF w]) simp
    then show ?thesis by (simp add: reserve_record_def Some Inr Let_def)
  qed (simp add: reserve_record_def Some Let_def)
qed (simp add: reserve_record_def)

lemma posted_others [simp]:
  "posted_ok home (s\<lparr>opsFaults := a\<rparr>) = posted_ok home s" "posted_ok home (s\<lparr>clockReads := b\<rparr>) = posted_ok home s" "posted_ok home (s\<lparr>sent := d\<rparr>) = posted_ok home s"
  "posted_ok home (s\<lparr>pendingRetries := p\<rparr>) = posted_ok home s" "posted_ok home (s\<lparr>reservationTargets := t\<rparr>) = posted_ok home s"
  by (simp_all add: posted_ok_def)

lemma flush_posted:
  assumes "posted_ok home s" "batch_ok home batch" "pe_post env = recording post"
  shows "posted_ok home (snd (flush env table batch s))"
proof (rule flush_keeps)
  fix s :: "(jobj list list \<times> 'a) sender"
  assume s: "posted_ok home s"
  have "\<forall>b \<in> set (fst (snd (sendBatch (recording post) False batch (hubState s)))). batch_ok home b"
    by (rule sendBatch_keeps [where P = "\<lambda>w. \<forall>b \<in> set (fst w). batch_ok home b"])
      (use s assms(2) in \<open>auto simp: posted_ok_def recording_def split: prod.splits\<close>)
  then show "posted_ok home (s\<lparr>hubState := snd (sendBatch (pe_post env) False batch (hubState s))\<rparr>)"
    by (simp add: posted_ok_def assms(3))
qed (use assms(1) in \<open>simp_all add: posted_ok_def\<close>)

definition public_row :: "string \<Rightarrow> jobj \<Rightarrow> bool" where
  "public_row table row \<longleftrightarrow> table \<noteq> ''Presence'' \<and> (table = ''Memory'' \<longrightarrow> \<not> isFederationPrivateVisibility (getp row ''visibility''))"

lemma wire_public: "public_row table row \<Longrightarrow> record_ok home (wire_record env k table row)"
  by (simp add: public_row_def record_ok_def)

lemma push_rows_posted:
  assumes "posted_ok home s" "batch = [] \<or> batch_ok home batch" "bytes = (\<Sum>sr \<leftarrow> batch. wire_bytes sr)" "\<forall>row \<in> set rows. public_row table row"
    "pe_post env = recording post"
  shows "posted_ok home (snd (push_rows env k table rows batch bytes s))"
  using assms
proof (induction rows arbitrary: batch bytes s)
  case Nil
  then show ?case using flush_posted by auto
next
  case (Cons row rows)
  let ?sr = "wire_record env k table row"
  have sr: "record_ok home ?sr" by (rule wire_public) (use Cons.prems(4) in simp)
  have one: "batch_ok home [?sr]" using sr by (simp add: batch_ok_def within_budget_def BUDGET_RECORDS_def)
  show ?case
  proof (cases "full batch bytes (wire_bytes ?sr)")
    case True
    then have batch: "batch_ok home batch" using Cons.prems(2) by (auto simp: full_def BUDGET_RECORDS_def)
    have "posted_ok home (snd (andThen (flush env table batch s) (\<lambda>_. push_rows env k table rows [?sr] (wire_bytes ?sr))))"
    proof (rule andThen_keeps)
      show "posted_ok home (snd (flush env table batch s))" by (rule flush_posted [OF Cons.prems(1) batch Cons.prems(5)])
    qed (rule Cons.IH, use one Cons.prems(4,5) in simp_all)
    then show ?thesis using True by (simp add: Let_def)
  next
    case False
    have "batch_ok home (batch @ [?sr])"
      using False Cons.prems(2,3) sr by (auto simp: full_def batch_ok_def within_budget_def BUDGET_RECORDS_def)
    then have "posted_ok home (snd (push_rows env k table rows (batch @ [?sr]) (bytes + wire_bytes ?sr) s))"
      by (intro Cons.IH) (use Cons.prems in simp_all)
    then show ?thesis using False by (simp add: Let_def)
  qed
qed

lemma reserve_targets_hub [simp]: "hubState (snd (reserve_targets env rows s)) = hubState s"
  unfolding reserve_targets_def
  by (rule each_keeps [where P = "\<lambda>t. hubState t = hubState s"]) (auto split: sum.splits option.splits)

lemma report_all_hub [simp]: "hubState (report_all queue s) = hubState s"
  unfolding report_all_def by (induction queue arbitrary: s) (simp_all add: split_beta)

lemma load_memory_hub: "loadMemoryRow env i s = (Inr found, t) \<Longrightarrow> hubState t = hubState s"
  using load_memory_row(2) by fastforce

lemma load_memory_hub_snd [simp]: "hubState (snd (loadMemoryRow env i s)) = hubState s"
  by (rule load_memory_keeps) simp

lemma reoffer_hub [simp]: "hubState (snd (reoffer env due seen rows s)) = hubState s"
proof (induction due arbitrary: seen rows s)
  case (Cons p due)
  have retired: "hubState (snd (andThen (retireRetry p resolution now t) (\<lambda>_. reoffer env due seen rows))) = hubState t" for resolution now t
    by (rule andThen_keeps [where P = "\<lambda>u. hubState u = hubState t"]) (simp_all add: Cons.IH)
  have "hubState (snd (andThen (loadMemoryRow env (getp p ''recordId'') s) (\<lambda>found s.
        case found of
          None \<Rightarrow> (let (now, s') = nowIso env s in
            andThen (retireRetry p ''source_deleted'' now s') (\<lambda>_. reoffer env due seen rows))
        | Some row \<Rightarrow>
            if isFederationPrivateVisibility (getp row ''visibility'') then
              (let (now, s') = nowIso env s in
               andThen (retireRetry p ''source_ineligible'' now s') (\<lambda>_. reoffer env due seen rows))
            else reoffer env due (getp p ''recordId'' # seen) (rows @ [row])
              (s\<lparr>reservationTargets := AList.update (js_String (getp row ''id'')) p (reservationTargets s)\<rparr>)))) = hubState s"
    by (rule andThen_keeps [where P = "\<lambda>u. hubState u = hubState s"])
      (simp_all add: nowIso_def retired Cons.IH split: option.split)
  then show ?case by (simp add: Cons.IH)
qed simp

lemma select_hub [simp]: "hubState (snd (select_retries env rows s)) = hubState s"
  unfolding select_retries_def Let_def report_all_def [symmetric]
  by (rule andThen_keeps [where P = "\<lambda>u. hubState u = hubState s"]) simp_all

text \<open>Only rows that are not private are offered again.\<close>

lemma reoffer_public:
  assumes "reoffer env due seen rows s = (Inr out, s')" "\<forall>row \<in> set rows. public_row ''Memory'' row"
  shows "\<forall>row \<in> set out. public_row ''Memory'' row"
  using assms
proof (induction due arbitrary: seen rows s)
  case (Cons p due)
  show ?case
  proof (cases "getp p ''recordId'' \<in> set seen")
    case False
    then obtain found t where t: "loadMemoryRow env (getp p ''recordId'') s = (Inr found, t)"
      using Cons.prems(1) by (auto simp: andThen_Inr)
    show ?thesis
    proof (cases found)
      case None
      then show ?thesis using Cons.prems False t Cons.IH [OF _ Cons.prems(2)] by (auto simp: andThen_Inr nowIso_def)
    next
      case (Some row)
      show ?thesis
      proof (cases "isFederationPrivateVisibility (getp row ''visibility'')")
        case True
        then show ?thesis using Cons.prems False t Some Cons.IH [OF _ Cons.prems(2)] by (auto simp: andThen_Inr nowIso_def)
      next
        case public: False
        obtain t' where rest: "reoffer env due (getp p ''recordId'' # seen) (rows @ [row]) t' = (Inr out, s')"
          using Cons.prems(1) False t Some public by (auto simp: andThen_Inr)
        have "\<forall>row \<in> set (rows @ [row]). public_row ''Memory'' row" using Cons.prems(2) public by (simp add: public_row_def)
        then show ?thesis by (rule Cons.IH [OF rest])
      qed
    qed
  qed (use Cons in simp)
qed simp

lemma select_public:
  assumes "select_retries env rows s = (Inr out, s')" "\<forall>row \<in> set rows. public_row ''Memory'' row"
  shows "\<forall>row \<in> set out. public_row ''Memory'' row"
proof -
  obtain t due where "reoffer env due (map (\<lambda>r. getp r ''id'') rows) rows t = (Inr out, s')"
    using assms(1) by (auto simp: select_retries_def Let_def andThen_Inr)
  from reoffer_public [OF this assms(2)] show ?thesis .
qed

lemma batch_public: "table \<noteq> ''Presence'' \<Longrightarrow> row \<in> set (fst (push_batch table since rows)) \<Longrightarrow> public_row table row"
  by (auto simp: push_batch_def Let_def public_row_def)

lemma push_table_posted:
  assumes "posted_ok home s" "pe_post env = recording post" "table \<noteq> ''Presence''"
  shows "posted_ok home (snd (push_table env table s))"
proof (cases "pe_query env table True")
  case (Some updated)
  show ?thesis
  proof (cases "pe_query env table False")
    case undated: (Some undated)
    let ?rows = "fst (push_batch table (pe_since env) updated) @ fst (push_batch table (pe_since env) undated)"
    let ?select = "if table = ''Memory'' \<and> pendingRetries s \<noteq> [] then select_retries env ?rows s else (Inr ?rows, s)"
    have rows: "\<forall>row \<in> set ?rows. public_row table row" using batch_public [OF assms(3)] by auto
    have "posted_ok home (snd (andThen ?select (\<lambda>rows s1.
             if rows = [] then (Inr (), s1)
             else (case pe_secretKey env of
                 None \<Rightarrow> (Inl KeyUnavailable, s1)
               | Some k \<Rightarrow> push_rows env k table rows [] 0 s1))))"
    proof (rule andThen_keeps)
      show "posted_ok home (snd ?select)" using assms(1) select_hub [of env ?rows s] by (simp add: posted_ok_def)
      fix out t
      assume out: "?select = (Inr out, t)" and t: "posted_ok home t"
      have "\<forall>row \<in> set out. public_row table row"
        using out rows select_public [of env ?rows s out t] by (auto split: if_splits)
      then have "posted_ok home (snd (push_rows env k table out [] 0 t))" for k
        by (intro push_rows_posted [OF t _ _ _ assms(2)]) simp_all
      then show "posted_ok home (snd (if out = [] then (Inr (), t)
             else (case pe_secretKey env of
                 None \<Rightarrow> (Inl KeyUnavailable, t)
               | Some k \<Rightarrow> push_rows env k table out [] 0 t)))"
        using t by (simp split: option.splits)
    qed
    then show ?thesis by (simp add: push_table_def Some undated Let_def)
  qed (simp add: push_table_def Some assms(1))
qed (simp add: push_table_def assms(1))

lemma load_hub [simp]: "hubState (snd (loadPendingRetries env s)) = hubState s"
proof -
  obtain fs where fs: "snd (ops_read (\<lambda>s. filter (pending_match (pe_peer env)) (map snd (retryTable s))) s) = s\<lparr>opsFaults := fs\<rparr>"
    using ops_read_state by blast
  show ?thesis unfolding loadPendingRetries_def
    by (rule andThen_keeps [where P = "\<lambda>t. hubState t = hubState s"]) (simp_all add: fs)
qed

lemma push_generic_posted:
  fixes s :: "(jobj list list \<times> 'a) sender"
  assumes "posted_ok home s" "pe_post env = recording post"
  shows "posted_ok home (snd (push_generic env s))"
  unfolding push_generic_def
proof (rule andThen_keeps)
  show "posted_ok home (snd (loadPendingRetries env s))" using assms(1) by (simp add: posted_ok_def)
  fix u and t :: "(jobj list list \<times> 'a) sender"
  assume "posted_ok home t"
  then show "posted_ok home (snd (each (push_table env) TABLES t))"
    by (rule each_keeps [rotated]) (rule push_table_posted [OF _ assms(2)]; auto simp: TABLES_def)
qed

section \<open>The Presence batches and the ping\<close>

text \<open>A Presence record is the wire form of a scanned row that has its home here.\<close>

definition home_record :: "'w sync_env \<Rightarrow> jobj \<Rightarrow> bool" where
  "home_record env sr \<longleftrightarrow>
     (\<exists>rows row payload. sy_scan env = Some rows \<and> row \<in> set rows \<and> getp row ''originatorInstanceId'' = Str (pe_instance (sy_push env)) \<and>
        presenceWireRecord row (pe_instance (sy_push env)) = Some payload \<and> getp sr ''id'' = getp payload ''id'' \<and>
        getp sr ''data'' = getp payload ''data'')"

lemma flushPresence_posted:
  assumes "posted_ok home s" "batch_ok home batch" "pe_post env = recording post"
  shows "posted_ok home (snd (flushPresence env batch cap s))"
proof -
  have "\<forall>b \<in> set (fst (snd (sendBatch (recording post) True batch (hubState s)))). batch_ok home b"
    by (rule sendBatch_keeps [where P = "\<lambda>w. \<forall>b \<in> set (fst w). batch_ok home b"])
      (use assms(1,2) in \<open>auto simp: posted_ok_def recording_def split: prod.splits\<close>)
  then show ?thesis by (auto simp: flushPresence_def posted_ok_def assms(3) split: prod.splits sum.splits)
qed

lemma presence_rows_posted:
  assumes "posted_ok home s" "batch = [] \<or> batch_ok home batch" "bytes = (\<Sum>sr \<leftarrow> batch. wire_bytes sr)" "pe_post env = recording post"
    and "\<forall>row \<in> set rows. \<forall>payload. presenceWireRecord row (pe_instance env) = Some payload \<longrightarrow>
      record_ok home (presence_record env k payload)"
  shows "posted_ok home (snd (presence_rows env scanAt k rows batch bytes advance cap s))"
  using assms
proof (induction rows arbitrary: batch bytes advance cap s)
  case Nil
  show ?case
  proof (cases "batch = []")
    case False
    then have "posted_ok home (snd (flushPresence env batch cap s))" using Nil flushPresence_posted by blast
    then have "posted_ok home (snd (andThen (flushPresence env batch cap s) (\<lambda>cap s. (Inr (advance, cap), s))))"
      by (rule andThen_keeps) simp
    then show ?thesis using False by simp
  qed (use Nil in simp)
next
  case (Cons row rows)
  show ?case
  proof (cases "\<not> deferred scanAt (presenceCursorMs row) \<and> presenceWireRecord row (pe_instance env) \<noteq> None")
    case True
    then obtain payload where payload: "presenceWireRecord row (pe_instance env) = Some payload" by auto
    let ?sr = "presence_record env k payload" and ?adv = "advance_to scanAt (presenceCursorMs row) advance"
    have sr: "record_ok home ?sr" using Cons.prems(5) payload by simp
    have one: "batch_ok home [?sr]" using sr by (simp add: batch_ok_def within_budget_def BUDGET_RECORDS_def)
    show ?thesis
    proof (cases "full batch bytes (wire_bytes ?sr)")
      case full: True
      then have batch: "batch_ok home batch" using Cons.prems(2) by (auto simp: full_def BUDGET_RECORDS_def)
      have "posted_ok home (snd (andThen (flushPresence env batch cap s)
          (\<lambda>cap. presence_rows env scanAt k rows [?sr] (wire_bytes ?sr) ?adv cap)))"
      proof (rule andThen_keeps)
        show "posted_ok home (snd (flushPresence env batch cap s))" by (rule flushPresence_posted [OF Cons.prems(1) batch Cons.prems(4)])
      qed (rule Cons.IH, use one Cons.prems(4,5) in simp_all)
      then show ?thesis using True payload full by (simp add: Let_def)
    next
      case False
      have "batch_ok home (batch @ [?sr])"
        using False Cons.prems(2,3) sr by (auto simp: full_def batch_ok_def within_budget_def BUDGET_RECORDS_def)
      then have "posted_ok home (snd (presence_rows env scanAt k rows (batch @ [?sr]) (bytes + wire_bytes ?sr) ?adv cap s))"
        by (intro Cons.IH) (use Cons.prems in simp_all)
      then show ?thesis using False True payload by (simp add: Let_def)
    qed
  next
    case False
    have "posted_ok home (snd (presence_rows env scanAt k rows batch bytes advance cap s))"
      by (rule Cons.IH) (use Cons.prems in simp_all)
    then show ?thesis using presence_rows_skip [OF False] by simp
  qed
qed

lemma wire_payload:
  assumes "presenceWireRecord row inst = Some payload"
  shows "getp (presence_record env k payload) ''table'' = Str ''Presence''" "getp (presence_record env k payload) ''id'' = getp payload ''id''"
    "getp (presence_record env k payload) ''data'' = getp payload ''data''"
    "getp (presence_record env k payload) ''updatedAt'' = getp payload ''updatedAt''"
  using assms by (auto simp: presenceWireRecord_def presence_record_def split: js.splits option.splits if_splits)

lemma push_presence_posted:
  assumes "posted_ok (home_record env) s" "pe_post (sy_push env) = recording post"
  shows "posted_ok (home_record env) (snd (push_presence env s))"
proof (cases "sy_scan env")
  case (Some rows)
  let ?toSend = "selectPresenceRowsToSend rows (pe_instance (sy_push env)) (scan_floor env)"
  have "posted_ok (home_record env) (snd (presence_rows (sy_push env) (sy_scanAt env) k ?toSend [] 0 (effective_watermark env) None s))" for k
  proof (rule presence_rows_posted [OF assms(1) _ _ assms(2)]; (intro ballI allI impI)?)
    fix row payload
    assume "row \<in> set ?toSend" and payload: "presenceWireRecord row (pe_instance (sy_push env)) = Some payload"
    then have "row \<in> set rows" "getp row ''originatorInstanceId'' = Str (pe_instance (sy_push env))"
      by (auto simp: selectPresenceRowsToSend_def)
    then show "record_ok (home_record env) (presence_record (sy_push env) k payload)"
      using Some payload unfolding record_ok_def home_record_def wire_payload [OF payload] by auto
  qed simp_all
  then have "posted_ok (home_record env) (snd (andThen (presence_rows (sy_push env) (sy_scanAt env) k ?toSend [] 0 (effective_watermark env) None s)
      (\<lambda>(advance, cap) s. (Inr (Some (case cap of None \<Rightarrow> advance | Some c \<Rightarrow> min advance c)), s))))" for k
    by (rule andThen_keeps) (simp split: prod.splits)
  then show ?thesis using assms(1) by (simp add: push_presence_def Some Let_def split: option.splits)
qed (simp add: push_presence_def assms(1))

text \<open>C14. What leaves the instance. Whatever the hub answers, however a batch is split and whichever call fails, what one run posts to its
  hub is a sequence of batches, then at most one ping, which is empty and only posted when the run sent no batch. Every batch, of the
  generic tables or of Presence, has between one and 50 records and fits the byte budget unless it is a single record; no Memory row
  in it is private, neither one that the cursor selected nor one that is offered again; and a Presence record in it is the wire form
  of a scanned row whose home is this instance.\<close>

theorem posted_batches_are_public_and_bounded:
  fixes w :: 'a
  assumes "pe_post (sy_push env) = recording post"
    and "fst (hubState (rr_sender (runFederationSyncOnce env (start_run table faults ([], w))))) = posted"
  shows "\<exists>batches pings. posted = batches @ pings \<and>
    (pings = [] \<or> pings = [[]] \<and> sent (rr_sender (runFederationSyncOnce env (start_run table faults ([], w)))) = []) \<and>
    (\<forall>batch \<in> set batches. batch \<noteq> [] \<and> length batch \<le> 50 \<and> (length batch = 1 \<or> (\<Sum>sr \<leftarrow> batch. wire_bytes sr) \<le> 2000000) \<and>
       (\<forall>sr \<in> set batch.
          (getp sr ''table'' = Str ''Memory'' \<longrightarrow> (\<exists>row. getp sr ''data'' = Obj row \<and> getp row ''visibility'' \<noteq> Str ''private'')) \<and>
          (getp sr ''table'' = Str ''Presence'' \<longrightarrow> home_record env sr)))"
proof -
  obtain res s1 where s1: "push_generic (sy_push env) (start_run table faults ([], w)) = (res, s1)" by force
  have ok1: "posted_ok (home_record env) s1"
    using push_generic_posted [OF _ assms(1), of "home_record env" "start_run table faults ([], w)"] s1
    by (simp add: posted_ok_def start_run_def)
  obtain res2 s2 where s2: "push_presence env s1 = (res2, s2)" by force
  have ok2: "posted_ok (home_record env) s2" using push_presence_posted [OF ok1 assms(1)] s2 by simp
  obtain pingOk s3 where s3: "ping (sy_push env) s2 = (pingOk, s3)" by force
  have pinged: "sent s3 = sent s2" "hubState s3 = hubState s2 \<or> fst (hubState s3) = fst (hubState s2) @ [[]]"
    using s3 assms(1) by (auto simp: ping_def recording_def split: option.splits prod.splits)
  have shape: "batch \<noteq> [] \<and> length batch \<le> 50 \<and> (length batch = 1 \<or> (\<Sum>sr \<leftarrow> batch. wire_bytes sr) \<le> 2000000) \<and>
       (\<forall>sr \<in> set batch.
          (getp sr ''table'' = Str ''Memory'' \<longrightarrow> (\<exists>row. getp sr ''data'' = Obj row \<and> getp row ''visibility'' \<noteq> Str ''private'')) \<and>
          (getp sr ''table'' = Str ''Presence'' \<longrightarrow> home_record env sr))"
    if "posted_ok (home_record env) s" "batch \<in> set (fst (hubState s))" for s :: "(jobj list list \<times> 'a) sender" and batch
    using that
    by (auto simp: posted_ok_def batch_ok_def within_budget_def BUDGET_RECORDS_def BUDGET_BYTES_def record_ok_def isFederationPrivateVisibility_def)
  let ?run = "runFederationSyncOnce env (start_run table faults ([], w))"
  have run: "rr_sender ?run \<in> {s1, s2} \<or> rr_sender ?run = s3 \<and> sent s2 = []"
    using s1 s2 s3 by (auto simp: runFederationSyncOnce_def ended_def split: sum.splits)
  then consider "rr_sender ?run \<in> {s1, s2}" | "rr_sender ?run = s3" "sent s2 = []" by blast
  then show ?thesis
  proof cases
    case 1
    then have "\<forall>batch \<in> set posted. posted_ok (home_record env) (rr_sender ?run)" using ok1 ok2 by auto
    then show ?thesis using shape [of "rr_sender ?run"] assms(2) by (intro exI [of _ posted] exI [of _ "[]"]) auto
  next
    case 2
    have all: "\<forall>batch \<in> set (fst (hubState s2)). batch \<in> set (fst (hubState s2))" by simp
    show ?thesis
    proof (cases "hubState s3 = hubState s2")
      case True
      then show ?thesis using 2 shape [OF ok2] assms(2) by (intro exI [of _ "fst (hubState s2)"] exI [of _ "[]"]) auto
    next
      case False
      then show ?thesis using 2 pinged shape [OF ok2] assms(2)
        by (intro exI [of _ "fst (hubState s2)"] exI [of _ "[[]]"]) auto
    qed
  qed
qed

definition demo_posting :: "(jobj list list \<times> unit) push_env" where
  "demo_posting = \<lparr>pe_peer = Str ''hub'', pe_instance = ''spoke'', pe_secretKey = Some ''k'', pe_crypto = demo_crypto,
     pe_parse = (\<lambda>_. None), pe_dparse = (\<lambda>_. None), pe_iso = (\<lambda>_. ''t''), pe_ms = (\<lambda>_. 0), pe_since = ''a'',
     pe_query = (\<lambda>table updated. Some (if table = ''Memory'' \<and> updated then [demo_source] else [])), pe_memory = [],
     pe_post = recording (\<lambda>w batch. (OkBody (Some demo_answer), w))\<rparr>"

definition demo_sync :: "(jobj list list \<times> unit) sync_env" where
  "demo_sync = \<lparr>sy_push = demo_posting, sy_process_env = (\<lambda>_. None), sy_scanAt = 0, sy_scan = None, sy_presenceLastSyncAt = Undef\<rparr>"

theorem posted_batches_are_public_and_bounded_witness:
  "\<exists>batch \<in> set (fst (hubState (rr_sender (runFederationSyncOnce demo_sync (start_run [] [] ([], ())))))). length batch = 1 \<and> length batch \<le> 50"
proof -
  let ?run = "runFederationSyncOnce demo_sync (start_run [] [] ([], ()))"
  have lens: "map length (fst (hubState (rr_sender ?run))) = [1]" by code_simp
  have "sent (rr_sender ?run) \<noteq> []" by code_simp
  moreover have "pe_post (sy_push demo_sync) = recording (\<lambda>w batch. (OkBody (Some demo_answer), w))" by (simp add: demo_sync_def demo_posting_def)
  ultimately obtain batches where b: "fst (hubState (rr_sender ?run)) = batches" "\<forall>batch \<in> set batches. length batch \<le> 50"
    using posted_batches_are_public_and_bounded [of demo_sync, OF _ refl] by fastforce
  then show ?thesis using lens by (cases batches) auto
qed

end
