(* ===== verification/FedWatermark.thy ===== *)
theory FedWatermark
  imports FedPosted
begin

text \<open>
  The Presence watermark of a sender (\<open>FedContact\<close>): what a run has done with the rows that the watermark it persists passes.
\<close>

section \<open>The cap\<close>

text \<open>\<open>None\<close> is no cap.\<close>

definition cap_le :: "rat option \<Rightarrow> rat option \<Rightarrow> bool" where
  "cap_le a b \<longleftrightarrow> (\<forall>y. b = Some y \<longrightarrow> (\<exists>x. a = Some x \<and> x \<le> y))"

lemma cap_le_refl [simp]: "cap_le a a"
  by (simp add: cap_le_def)

lemma cap_le_trans: "cap_le a b \<Longrightarrow> cap_le b c \<Longrightarrow> cap_le a c"
  by (fastforce simp: cap_le_def)

lemma cap_below_le: "cap_le (cap_below env batch i cap) cap"
  by (auto simp: cap_below_def cap_le_def split: option.splits)

lemma cap_below_at:
  assumes "find (\<lambda>r. getp r ''id'' = Str i) batch = Some sr" "getp sr ''updatedAt'' = Str t" "pe_dparse env t = Some ms"
  shows "cap_le (cap_below env batch i cap) (Some (of_int ms - 1))"
  using assms by (auto simp: cap_below_def cap_le_def split: option.splits)

lemma fold_cap_le: "(\<And>x c. cap_le (f x c) c) \<Longrightarrow> cap_le (fold f xs c) c"
  by (induction xs arbitrary: c) (auto intro: cap_le_trans)

lemma fold_cap_at:
  assumes "\<And>x c. cap_le (f x c) c" "x \<in> set xs" "\<And>c. cap_le (f x c) b"
  shows "cap_le (fold f xs c) b"
  using assms(2)
proof (induction xs arbitrary: c)
  case (Cons y ys)
  show ?case
  proof (cases "y = x")
    case True
    then show ?thesis using fold_cap_le [of f ys "f x c", OF assms(1)] assms(3) cap_le_trans by auto
  next
    case False
    then show ?thesis using Cons by simp
  qed
qed simp

lemma cap_refused_le: "cap_le (cap_refused env batch refused cap) cap"
  unfolding cap_refused_def by (rule fold_cap_le) (auto simp: cap_below_le split: prod.splits)

lemma cap_undecided_le: "cap_le (cap_undecided env batch undecided cap) cap"
  unfolding cap_undecided_def by (rule fold_cap_le) (auto simp: cap_below_le split: prod.splits)

text \<open>The hub left the row of an agent undecided, or refused it for a reason that may clear.\<close>

definition unsettled :: "outcomes \<Rightarrow> string \<Rightarrow> bool" where
  "unsettled res i \<longleftrightarrow> (''Presence'', i) \<in> set (oc_indeterminate res) \<or>
     (\<exists>reason. (''Presence'', i, reason) \<in> set (oc_refused res) \<and>
        (reason \<in> set PRESENCE_SEND_RETRYABLE_SKIP_REASONS \<or> reason = PRESENCE_SEND_RECEIVE_DISABLED_SKIP_REASON))"

lemma find_distinct:
  assumes "sr \<in> set batch" "distinct (map (\<lambda>r. getp r ''id'') batch)" "getp sr ''id'' = Str i"
  shows "find (\<lambda>r. getp r ''id'' = Str i) batch = Some sr"
  using assms by (induction batch) (auto simp: image_iff)

lemma flushPresence_caps:
  assumes "flushPresence env batch cap s = (Inr cap', s')"
  shows "\<exists>res. sent s' = sent s @ [(batch, res)] \<and> cap_le cap' cap \<and>
     (\<forall>sr i t ms. sr \<in> set batch \<and> distinct (map (\<lambda>r. getp r ''id'') batch) \<and> getp sr ''id'' = Str i \<and> getp sr ''updatedAt'' = Str t \<and>
        pe_dparse env t = Some ms \<and> unsettled res i \<longrightarrow> cap_le cap' (Some (of_int ms - 1)))"
proof -
  obtain res w where res: "sendBatch (pe_post env) True batch (hubState s) = (Inr res, w)"
    and cap': "cap' = cap_undecided env batch (oc_indeterminate res) (cap_refused env batch (oc_refused res) cap)"
    and s': "sent s' = sent s @ [(batch, res)]"
    using assms by (auto simp: flushPresence_def split: prod.splits sum.splits)
  have "cap_le cap' (Some (of_int ms - 1))"
    if "sr \<in> set batch" "distinct (map (\<lambda>r. getp r ''id'') batch)" "getp sr ''id'' = Str i" "getp sr ''updatedAt'' = Str t"
      "pe_dparse env t = Some ms" "unsettled res i" for sr i t ms
  proof -
    note at_row = cap_below_at [OF find_distinct [OF that(1-3)] that(4,5)]
    consider "(''Presence'', i) \<in> set (oc_indeterminate res)"
      | reason where "(''Presence'', i, reason) \<in> set (oc_refused res)"
        "reason \<in> set PRESENCE_SEND_RETRYABLE_SKIP_REASONS \<or> reason = PRESENCE_SEND_RECEIVE_DISABLED_SKIP_REASON"
      using \<open>unsettled res i\<close> by (auto simp: unsettled_def)
    then show ?thesis
    proof cases
      case 1
      show ?thesis unfolding cap' cap_undecided_def
        by (rule fold_cap_at [OF _ 1]) (auto simp: cap_below_le at_row split: prod.splits)
    next
      case 2
      have "cap_le (cap_refused env batch (oc_refused res) cap) (Some (of_int ms - 1))"
        unfolding cap_refused_def
        by (rule fold_cap_at [OF _ 2(1)]) (use 2(2) in \<open>auto simp: cap_below_le at_row split: prod.splits\<close>)
      then show ?thesis unfolding cap' by (rule cap_le_trans [OF cap_undecided_le])
    qed
  qed
  moreover have "cap_le cap' cap" unfolding cap' by (rule cap_le_trans [OF cap_undecided_le cap_refused_le])
  ultimately show ?thesis using s' by blast
qed

section \<open>The rows of a run\<close>

text \<open>A record was in a batch that the hub answered, and the cap is below it when the hub left it unsettled.\<close>

definition passed_ok :: "'w push_env \<Rightarrow> rat option \<Rightarrow> 'w sender \<Rightarrow> jobj \<Rightarrow> bool" where
  "passed_ok env cap s sr \<longleftrightarrow>
     (\<exists>(batch, res) \<in> set (sent s). sr \<in> set batch \<and>
        (\<forall>i t ms. getp sr ''id'' = Str i \<and> getp sr ''updatedAt'' = Str t \<and> pe_dparse env t = Some ms \<and> unsettled res i \<longrightarrow>
           cap_le cap (Some (of_int ms - 1))))"

lemma passed_ok_later:
  assumes "passed_ok env cap s sr" "cap_le cap' cap" "sent s' = sent s @ later_sent"
  shows "passed_ok env cap' s' sr"
proof -
  obtain batch res where b: "(batch, res) \<in> set (sent s)" "sr \<in> set batch"
    "\<forall>i t ms. getp sr ''id'' = Str i \<and> getp sr ''updatedAt'' = Str t \<and> pe_dparse env t = Some ms \<and> unsettled res i \<longrightarrow>
       cap_le cap (Some (of_int ms - 1))"
    using assms(1) unfolding passed_ok_def by blast
  then have "\<forall>i t ms. getp sr ''id'' = Str i \<and> getp sr ''updatedAt'' = Str t \<and> pe_dparse env t = Some ms \<and> unsettled res i \<longrightarrow>
       cap_le cap' (Some (of_int ms - 1))"
    using cap_le_trans [OF assms(2)] by blast
  moreover have "(batch, res) \<in> set (sent s')" using b(1) assms(3) by simp
  ultimately show ?thesis using b(2) unfolding passed_ok_def by blast
qed

lemma flush_passes:
  assumes "flushPresence env batch cap s = (Inr cap', s')" "distinct (map (\<lambda>r. getp r ''id'') batch)" "sr \<in> set batch"
  shows "passed_ok env cap' s' sr"
proof -
  obtain res where "sent s' = sent s @ [(batch, res)]"
    "\<forall>sr i t ms. sr \<in> set batch \<and> distinct (map (\<lambda>r. getp r ''id'') batch) \<and> getp sr ''id'' = Str i \<and> getp sr ''updatedAt'' = Str t \<and>
        pe_dparse env t = Some ms \<and> unsettled res i \<longrightarrow> cap_le cap' (Some (of_int ms - 1))"
    using flushPresence_caps [OF assms(1)] by blast
  then show ?thesis using assms(2,3) unfolding passed_ok_def by fastforce
qed

lemma presence_rows_caps:
  assumes "presence_rows env scanAt k rows batch bytes advance cap s = (Inr (advance', cap'), s')"
  shows "cap_le cap' cap \<and> (\<exists>later_sent. sent s' = sent s @ later_sent) \<and> (advance \<le> of_int scanAt \<longrightarrow> advance' \<le> of_int scanAt)"
  using assms
proof (induction rows arbitrary: batch bytes advance cap s)
  case Nil
  then show ?case using flushPresence_caps [of env batch cap s] by (fastforce simp: andThen_Inr split: if_splits)
next
  case (Cons row rows)
  let ?cur = "presenceCursorMs row"
  have adv: "advance \<le> of_int scanAt \<Longrightarrow> advance_to scanAt ?cur advance \<le> of_int scanAt"
    by (auto simp: advance_to_def split: option.splits)
  show ?case
  proof (cases "\<not> deferred scanAt ?cur \<and> presenceWireRecord row (pe_instance env) \<noteq> None")
    case True
    then obtain payload where payload: "presenceWireRecord row (pe_instance env) = Some payload" by auto
    let ?sr = "presence_record env k payload"
    show ?thesis
    proof (cases "full batch bytes (wire_bytes ?sr)")
      case full: True
      then obtain c t where c: "flushPresence env batch cap s = (Inr c, t)"
        and rest: "presence_rows env scanAt k rows [?sr] (wire_bytes ?sr) (advance_to scanAt ?cur advance) c t = (Inr (advance', cap'), s')"
        using Cons.prems True payload by (auto simp: Let_def andThen_Inr)
      show ?thesis using flushPresence_caps [OF c] Cons.IH [OF rest] adv by (auto intro: cap_le_trans)
    next
      case False
      then have "presence_rows env scanAt k rows (batch @ [?sr]) (bytes + wire_bytes ?sr) (advance_to scanAt ?cur advance) cap s = (Inr (advance', cap'), s')"
        using Cons.prems True payload by (simp add: Let_def)
      from Cons.IH [OF this] adv show ?thesis by auto
    qed
  next
    case False
    then have "presence_rows env scanAt k rows batch bytes advance cap s = (Inr (advance', cap'), s')"
      using Cons.prems presence_rows_skip [OF False] by metis
    then show ?thesis by (rule Cons.IH)
  qed
qed

lemma wire_id: "presenceWireRecord row inst = Some payload \<Longrightarrow> getp payload ''id'' = getp row ''agentId''"
  by (auto simp: presenceWireRecord_def split: js.splits option.splits if_splits)

lemma presence_rows_pass:
  assumes "presence_rows env scanAt k rows batch bytes advance cap s = (Inr (advance', cap'), s')"
    and "distinct (map (\<lambda>r. getp r ''id'') batch @ map (\<lambda>r. getp r ''agentId'') rows)"
    and "sr \<in> set batch \<or> (\<exists>row \<in> set rows. \<not> deferred scanAt (presenceCursorMs row) \<and>
      (\<exists>payload. presenceWireRecord row (pe_instance env) = Some payload \<and> sr = presence_record env k payload))"
  shows "passed_ok env cap' s' sr"
  using assms
proof (induction rows arbitrary: batch bytes advance cap s)
  case Nil
  then obtain c t where "flushPresence env batch cap s = (Inr c, t)" "cap' = c" "s' = t" by (auto simp: andThen_Inr split: if_splits)
  then show ?case using flush_passes Nil.prems(2,3) by auto
next
  case (Cons row rows)
  let ?cur = "presenceCursorMs row"
  show ?case
  proof (cases "\<not> deferred scanAt ?cur \<and> presenceWireRecord row (pe_instance env) \<noteq> None")
    case True
    then obtain payload where payload: "presenceWireRecord row (pe_instance env) = Some payload" by auto
    let ?sr = "presence_record env k payload"
    have id: "getp ?sr ''id'' = getp row ''agentId''" using wire_payload(2) [OF payload] wire_id [OF payload] by simp
    have one: "distinct (map (\<lambda>r. getp r ''id'') [?sr] @ map (\<lambda>r. getp r ''agentId'') rows)"
      "distinct (map (\<lambda>r. getp r ''id'') (batch @ [?sr]) @ map (\<lambda>r. getp r ''agentId'') rows)"
      "distinct (map (\<lambda>r. getp r ''id'') batch)"
      using Cons.prems(2) by (auto simp: id)
    have later: "sr \<in> set batch \<or> sr \<in> set [?sr] \<or> (\<exists>row \<in> set rows. \<not> deferred scanAt (presenceCursorMs row) \<and>
        (\<exists>payload. presenceWireRecord row (pe_instance env) = Some payload \<and> sr = presence_record env k payload))"
      using Cons.prems(3) payload by auto
    show ?thesis
    proof (cases "full batch bytes (wire_bytes ?sr)")
      case full: True
      then obtain c t where c: "flushPresence env batch cap s = (Inr c, t)"
        and rest: "presence_rows env scanAt k rows [?sr] (wire_bytes ?sr) (advance_to scanAt ?cur advance) c t = (Inr (advance', cap'), s')"
        using Cons.prems(1) True payload by (auto simp: Let_def andThen_Inr)
      show ?thesis
      proof (cases "sr \<in> set batch")
        case inb: True
        show ?thesis using flush_passes [OF c one(3) inb] presence_rows_caps [OF rest] passed_ok_later by blast
      next
        case False
        then show ?thesis using Cons.IH [OF rest one(1)] later by auto
      qed
    next
      case False
      then have "presence_rows env scanAt k rows (batch @ [?sr]) (bytes + wire_bytes ?sr) (advance_to scanAt ?cur advance) cap s = (Inr (advance', cap'), s')"
        using Cons.prems(1) True payload by (simp add: Let_def)
      from Cons.IH [OF this one(2)] later show ?thesis by auto
    qed
  next
    case False
    then have "presence_rows env scanAt k rows batch bytes advance cap s = (Inr (advance', cap'), s')"
      using Cons.prems(1) presence_rows_skip [OF False] by metis
    then show ?thesis by (rule Cons.IH) (use Cons.prems(2,3) False in auto)
  qed
qed

section \<open>The watermark\<close>

lemma whole_ms_below: "of_int (whole_ms c) - 1 < c"
  unfolding whole_ms_def by (simp, linarith)

lemma wire_date:
  assumes "presenceWireRecord row inst = Some payload" "presenceCursorMs row = Some c"
  shows "getp payload ''updatedAt'' = Str (iso_text (whole_ms c))"
  using assms by (auto simp: presenceWireRecord_def split: js.splits option.splits if_splits)

text \<open>C24. The Presence watermark of a sender passes a row only when the row is settled. When a run persists a watermark, every home row of its
  scan whose cursor is past the floor of the scan and not past the new watermark, and which has a wire form, was in a batch that the hub
  answered, and the hub neither left it undecided nor refused it for a reason that may clear or because its receipt is off: such a row keeps
  the watermark below it, and so does one that is dated too far ahead to be offered. The rows of the scan have distinct agents, and
  \<open>Date.parse\<close> reads back the date that \<open>toISOString\<close> prints for the row.\<close>

theorem watermark_passes_only_settled_rows:
  assumes run: "rr_watermark (runFederationSyncOnce env s) = Some p"
    and scan: "sy_scan env = Some rows" "distinct (map (\<lambda>r. getp r ''agentId'') rows)"
    and row: "row \<in> set rows" "getp row ''originatorInstanceId'' = Str (pe_instance (sy_push env))"
      "presenceWireRecord row (pe_instance (sy_push env)) = Some payload" "presenceCursorMs row = Some c"
    and bounds: "scan_floor env < c" "c \<le> p"
    and law: "pe_dparse (sy_push env) (iso_text (whole_ms c)) = Some (whole_ms c)"
  shows "\<exists>(batch, res) \<in> set (sent (rr_sender (runFederationSyncOnce env s))). \<exists>sr \<in> set batch.
    getp sr ''table'' = Str ''Presence'' \<and> getp sr ''id'' = getp row ''agentId'' \<and> getp sr ''data'' = getp payload ''data'' \<and>
    (\<forall>i. getp row ''agentId'' = Str i \<longrightarrow> \<not> unsettled res i)"
proof -
  obtain u s1 where s1: "push_generic (sy_push env) s = (Inr u, s1)"
    using run by (auto simp: runFederationSyncOnce_def ended_def split: prod.splits sum.splits)
  obtain s2 where s2: "push_presence env s1 = (Inr (Some p), s2)"
    and sender: "sent (rr_sender (runFederationSyncOnce env s)) = sent s2"
    using run s1 by (auto simp: runFederationSyncOnce_def ended_def ping_def split: prod.splits sum.splits if_splits option.splits)
  let ?toSend = "selectPresenceRowsToSend rows (pe_instance (sy_push env)) (scan_floor env)"
  have mem: "row \<in> set ?toSend" using row bounds(1) by (simp add: selectPresenceRowsToSend_def)
  then have "?toSend \<noteq> []" by auto
  then obtain k advance cap where loop: "presence_rows (sy_push env) (sy_scanAt env) k ?toSend [] 0 (effective_watermark env) None s1 = (Inr (advance, cap), s2)"
    and p: "p = (case cap of None \<Rightarrow> advance | Some x \<Rightarrow> min advance x)"
    using s2 scan(1) by (auto simp: push_presence_def Let_def andThen_Inr split: if_splits option.splits)
  have le: "p \<le> advance" "cap_le cap (Some b) \<Longrightarrow> p \<le> b" for b using p by (auto simp: cap_le_def split: option.splits)
  have "advance \<le> of_int (sy_scanAt env)"
    using presence_rows_caps [OF loop] by (auto simp: effective_watermark_def)
  then have notdef: "\<not> deferred (sy_scanAt env) (presenceCursorMs row)"
    using le(1) bounds(2) by (simp add: deferred_def row(4) PRESENCE_SEND_FUTURE_ALLOWANCE_MS_def)
  have "distinct (map (\<lambda>r. getp r ''agentId'') ?toSend)"
    using scan(2) by (simp add: selectPresenceRowsToSend_def distinct_map_filter)
  then have "passed_ok (sy_push env) cap s2 (presence_record (sy_push env) k payload)"
    using presence_rows_pass [OF loop, of "presence_record (sy_push env) k payload"] mem notdef row(3) by auto
  then obtain batch res where b: "(batch, res) \<in> set (sent s2)" "presence_record (sy_push env) k payload \<in> set batch"
    and cap: "\<forall>i t ms. getp (presence_record (sy_push env) k payload) ''id'' = Str i \<and>
      getp (presence_record (sy_push env) k payload) ''updatedAt'' = Str t \<and> pe_dparse (sy_push env) t = Some ms \<and> unsettled res i \<longrightarrow>
      cap_le cap (Some (of_int ms - 1))"
    unfolding passed_ok_def by blast
  have "\<not> unsettled res i" if i: "getp row ''agentId'' = Str i" for i
  proof
    assume bad: "unsettled res i"
    have "cap_le cap (Some (of_int (whole_ms c) - 1))"
      using cap bad i law wire_id [OF row(3)] wire_date [OF row(3,4)] unfolding wire_payload [OF row(3)] by simp
    then have "p \<le> of_int (whole_ms c) - 1" by (rule le(2))
    then show False using bounds(2) whole_ms_below [of c] by linarith
  qed
  then have settled: "\<forall>i. getp row ''agentId'' = Str i \<longrightarrow> \<not> unsettled res i" by blast
  let ?sr = "presence_record (sy_push env) k payload"
  have "getp ?sr ''table'' = Str ''Presence'' \<and> getp ?sr ''id'' = getp row ''agentId'' \<and> getp ?sr ''data'' = getp payload ''data''"
    by (intro conjI) (simp_all add: wire_payload [OF row(3)] wire_id [OF row(3)])
  with settled b show ?thesis unfolding sender by blast
qed

definition demo_presence_answer :: js where
  "demo_presence_answer = Obj [(''merged'', Num (jint 1)), (''skipped'', Num (jint 0))]"

definition demo_home_row :: jobj where
  "demo_home_row = [(''agentId'', Str ''a1''), (''lastHeartbeatAt'', Num (Fin 5)), (''originatorInstanceId'', Str ''spoke'')]"

definition demo_presence_sync :: "unit sync_env" where
  "demo_presence_sync =
     \<lparr>sy_push = \<lparr>pe_peer = Str ''hub'', pe_instance = ''spoke'', pe_secretKey = Some ''k'', pe_crypto = demo_crypto,
        pe_parse = (\<lambda>_. None), pe_dparse = (\<lambda>t. if t = iso_text 5 then Some 5 else None), pe_iso = (\<lambda>_. ''t''), pe_ms = (\<lambda>_. 0),
        pe_since = ''a'', pe_query = (\<lambda>table updated. Some []), pe_memory = [],
        pe_post = (\<lambda>w batch. (OkBody (Some demo_presence_answer), w))\<rparr>,
      sy_process_env = (\<lambda>_. Some ''1''), sy_scanAt = 9, sy_scan = Some [demo_home_row], sy_presenceLastSyncAt = Undef\<rparr>"

theorem watermark_passes_only_settled_rows_witness:
  "\<exists>(batch, res) \<in> set (sent (rr_sender (runFederationSyncOnce demo_presence_sync (start_run [] [] ())))). \<exists>sr \<in> set batch.
     getp sr ''id'' = Str ''a1'' \<and> \<not> unsettled res ''a1''"
proof -
  let ?run = "runFederationSyncOnce demo_presence_sync (start_run [] [] ())"
  have p: "rr_watermark ?run = Some 5" by code_simp
  have c: "presenceCursorMs demo_home_row = Some 5" by code_simp
  obtain payload where w: "presenceWireRecord demo_home_row ''spoke'' = Some payload" by (simp add: presenceWireRecord_def c) (simp add: demo_home_row_def spread_def)
  have floor: "scan_floor demo_presence_sync < 5" by code_simp
  have whole: "whole_ms 5 = 5" by (simp add: whole_ms_def)
  show ?thesis
    using watermark_passes_only_settled_rows [OF p, of "[demo_home_row]" demo_home_row payload 5] w c floor whole
    by (fastforce simp: demo_presence_sync_def demo_home_row_def)
qed

end
